(* ===== verification/Prelude.thy ===== *)
theory Prelude
  imports Main "HOL-Library.Word" "HOL-Library.Multiset"
begin

text \<open>
  Material shared by every component: machine-integer synonyms, the half-interval search loop that
  the Go code repeats in several places, the in-place insertion sort of the planner, and a few
  generic facts on lists, options and words. Nothing here is specific to one component.
\<close>

section \<open>Machine integers\<close>

text \<open>
  Internal rule IDs are Go \<open>uint32\<close> values and cardinalities, costs and byte counts are \<open>uint64\<close>
  values; both wrap around.
\<close>

type_synonym u8 = "8 word"
type_synonym u32 = "32 word"
type_synonym u64 = "64 word"

abbreviation max_u64 :: u64 where
  "max_u64 \<equiv> - 1"

named_theorems bm_sem \<open>what each bitmap operation does to the set of IDs\<close>
named_theorems rule_sem \<open>what each operation of a rule computes, as a set of IDs\<close>
named_theorems inv_intros \<open>invariant preservation rules\<close>

lemma card_u32_le: "card (A :: u32 set) \<le> 2 ^ 32"
proof -
  have "card A \<le> card (UNIV :: u32 set)"
    by (rule card_mono) simp_all
  then show ?thesis by (simp add: card_word)
qed

lemma of_nat_u64_card_inj:
  fixes A B :: "u32 set"
  shows "(of_nat (card A) :: u64) = of_nat (card B) \<longleftrightarrow> card A = card B"
proof -
  have "card A < 2 ^ 64" "card B < 2 ^ 64"
    using card_u32_le [of A] card_u32_le [of B] by simp_all
  then show ?thesis
    by (simp add: word_unat_eq_iff unsigned_of_nat take_bit_nat_eq_self)
qed

lemma unat_card_u64: "unat (of_nat (card (A :: u32 set)) :: u64) = card A"
  using card_u32_le [of A] by (simp add: unsigned_of_nat take_bit_nat_eq_self)

lemma of_nat_u64_card_eq_0: "(of_nat (card (A :: u32 set)) :: u64) = 0 \<longleftrightarrow> A = {}"
  using of_nat_u64_card_inj [of A "{}"] by simp

section \<open>Half-interval search\<close>

text \<open>
  The loop \<open>for lo < hi { mid := (lo + hi) / 2; if P(mid) { lo = mid + 1 } else { hi = mid } }\<close>.
\<close>

function bsearch :: "(nat \<Rightarrow> bool) \<Rightarrow> nat \<Rightarrow> nat \<Rightarrow> nat" where
  "bsearch P lo hi =
     (if lo < hi
      then let mid = (lo + hi) div 2
           in if P mid then bsearch P (mid + 1) hi else bsearch P lo mid
      else lo)"
  by pat_completeness auto
termination
  by (relation "measure (\<lambda>(P, lo, hi). hi - lo)") auto

declare bsearch.simps [simp del]

text \<open>On a predicate that is closed downwards the loop finds the first index where it fails.\<close>

lemma bsearch_split:
  assumes "lo \<le> hi"
    and "\<And>i j. lo \<le> i \<Longrightarrow> i \<le> j \<Longrightarrow> j < hi \<Longrightarrow> P j \<Longrightarrow> P i"
  shows "lo \<le> bsearch P lo hi \<and> bsearch P lo hi \<le> hi
    \<and> (\<forall>i. lo \<le> i \<and> i < bsearch P lo hi \<longrightarrow> P i)
    \<and> (\<forall>i. bsearch P lo hi \<le> i \<and> i < hi \<longrightarrow> \<not> P i)"
  using assms
proof (induction P lo hi rule: bsearch.induct)
  case (1 P lo hi)
  show ?case
  proof (cases "lo < hi")
    case False
    with "1.prems"(1) show ?thesis by (subst (1 2 3 4) bsearch.simps) auto
  next
    case lt: True
    let ?mid = "(lo + hi) div 2"
    show ?thesis
    proof (cases "P ?mid")
      case True
      from lt have eq: "bsearch P lo hi = bsearch P (?mid + 1) hi"
        using True by (subst bsearch.simps) (simp add: Let_def)
      have down: "\<And>i. lo \<le> i \<Longrightarrow> i \<le> ?mid \<Longrightarrow> P i"
        using "1.prems"(2) [of _ ?mid] lt True by auto
      have IH: "?mid + 1 \<le> bsearch P (?mid + 1) hi \<and> bsearch P (?mid + 1) hi \<le> hi
        \<and> (\<forall>i. ?mid + 1 \<le> i \<and> i < bsearch P (?mid + 1) hi \<longrightarrow> P i)
        \<and> (\<forall>i. bsearch P (?mid + 1) hi \<le> i \<and> i < hi \<longrightarrow> \<not> P i)"
        by (rule "1.IH"(1) [OF lt refl True]) (use "1.prems"(2) lt in auto)
      moreover have "\<forall>i. lo \<le> i \<and> i < bsearch P (?mid + 1) hi \<longrightarrow> P i"
        using IH down by (metis Suc_eq_plus1 not_less_eq_eq)
      ultimately show ?thesis unfolding eq by auto
    next
      case False
      from lt have eq: "bsearch P lo hi = bsearch P lo ?mid"
        using False by (subst bsearch.simps) (simp add: Let_def)
      have up: "\<not> P i" if "?mid \<le> i" "i < hi" for i
      proof -
        have "lo \<le> ?mid" using lt by simp
        then show ?thesis using "1.prems"(2) [of ?mid i] False that by blast
      qed
      have IH: "lo \<le> bsearch P lo ?mid \<and> bsearch P lo ?mid \<le> ?mid
        \<and> (\<forall>i. lo \<le> i \<and> i < bsearch P lo ?mid \<longrightarrow> P i)
        \<and> (\<forall>i. bsearch P lo ?mid \<le> i \<and> i < ?mid \<longrightarrow> \<not> P i)"
        by (rule "1.IH"(2) [OF lt refl False]) (use "1.prems"(2) lt in auto)
      moreover have "\<forall>i. bsearch P lo ?mid \<le> i \<and> i < hi \<longrightarrow> \<not> P i"
        using IH up by (meson not_less)
      ultimately show ?thesis unfolding eq using lt by auto
    qed
  qed
qed

lemma bsearch_takeWhile:
  assumes "sorted_wrt (\<lambda>a b. p b \<longrightarrow> p a) xs"
  shows "bsearch (\<lambda>i. p (xs ! i)) 0 (length xs) = length (takeWhile p xs)"
proof -
  let ?r = "bsearch (\<lambda>i. p (xs ! i)) 0 (length xs)"
  have down: "p (xs ! i)" if "i \<le> j" "j < length xs" "p (xs ! j)" for i j
  proof (cases "i = j")
    case False
    then have "i < j" using that(1) by simp
    then show ?thesis
      using assms that(2,3) unfolding sorted_wrt_iff_nth_less by blast
  qed (use that in simp)
  have spec: "0 \<le> ?r \<and> ?r \<le> length xs \<and> (\<forall>i. 0 \<le> i \<and> i < ?r \<longrightarrow> p (xs ! i))
      \<and> (\<forall>i. ?r \<le> i \<and> i < length xs \<longrightarrow> \<not> p (xs ! i))"
    by (rule bsearch_split) (simp, rule down)
  have r: "?r \<le> length xs" "\<And>i. i < ?r \<Longrightarrow> p (xs ! i)"
    "\<And>i. ?r \<le> i \<Longrightarrow> i < length xs \<Longrightarrow> \<not> p (xs ! i)"
    using spec by blast+
  have "takeWhile p xs = take ?r xs"
    by (rule takeWhile_eq_take_P_nth) (erule r(2), rule r(3) [OF order_refl])
  with r(1) show ?thesis by simp
qed

section \<open>In-place insertion sort by adjacent swaps\<close>

text \<open>
  The planner sorts its small arrays with
  \<open>for i := 1; ...; i++ { for j := i; j > 0 && before(a[j], a[j-1]); j-- { swap(a[j], a[j-1]) } }\<close>.
  \<open>sift\<close> is the inner loop, run on the reversed sorted prefix; \<open>swap_sort\<close> the outer one.
\<close>

fun sift :: "('a \<Rightarrow> 'a \<Rightarrow> bool) \<Rightarrow> 'a \<Rightarrow> 'a list \<Rightarrow> 'a list" where
  "sift before x [] = [x]"
| "sift before x (y # ys) = (if before x y then y # sift before x ys else x # y # ys)"

definition swap_sort :: "('a \<Rightarrow> 'a \<Rightarrow> bool) \<Rightarrow> 'a list \<Rightarrow> 'a list" where
  "swap_sort before xs = rev (foldl (\<lambda>acc x. sift before x acc) [] xs)"

lemma mset_sift [simp]: "mset (sift before x ys) = add_mset x (mset ys)"
  by (induction ys) auto

lemma mset_foldl_sift: "mset (foldl (\<lambda>acc x. sift before x acc) acc xs) = mset acc + mset xs"
  by (induction xs arbitrary: acc) auto

lemma mset_swap_sort [simp]: "mset (swap_sort before xs) = mset xs"
  by (simp add: swap_sort_def mset_foldl_sift)

lemma set_swap_sort [simp]: "set (swap_sort before xs) = set xs"
  by (rule mset_eq_setD) simp

lemma length_swap_sort [simp]: "length (swap_sort before xs) = length xs"
  by (rule mset_eq_length) simp

section \<open>Lists\<close>

lemma set_list_update_eq:
  "n < length xs \<Longrightarrow> set (xs[n := x]) = insert x (set (take n xs) \<union> set (drop (Suc n) xs))"
  by (simp add: upd_conv_take_nth_drop)

lemma set_drop_nth: "set (drop k xs) = (!) xs ` {k..<length xs}"
proof -
  have "drop k xs = map ((!) xs) [k..<length xs]"
    by (metis drop_map drop_upt map_nth plus_nat.add_0)
  then show ?thesis by simp
qed

lemma of_nat_sum_list: "of_nat (sum_list ns) = sum_list (map of_nat ns)"
  by (induction ns) simp_all

lemma unat_sum_list:
  "(\<Sum>x\<leftarrow>xs. unat (x :: u64)) < 2 ^ 64 \<Longrightarrow> unat (sum_list xs) = (\<Sum>x\<leftarrow>xs. unat x)"
proof (induction xs)
  case (Cons x xs)
  then have "unat (sum_list xs) = (\<Sum>x\<leftarrow>xs. unat x)" by simp
  with Cons.prems show ?case using unat_add_lem [of x "sum_list xs"] by simp
qed simp

lemma sorted_wrt_less_unique:
  "sorted_wrt (<) xs \<Longrightarrow> sorted_wrt (<) ys \<Longrightarrow> set xs = set ys \<Longrightarrow> xs = (ys :: 'a :: linorder list)"
  by (metis sorted_list_of_set.idem_if_sorted_distinct strict_sorted_iff)

end
