(* ===== verification/Roaring.thy ===== *)
theory Roaring
  imports Prelude
begin

text \<open>
  The interface of the Roaring bitmap package (\<^verbatim>\<open>github.com/RoaringBitmap/roaring/v2\<close>), which is
  not part of the repository. A bitmap is a value of an arbitrary type \<open>'b\<close>; the operations the
  code calls are the fields of a record that every definition of the development takes as an
  argument, and the documented behaviour of those operations is the locale \<open>roaring\<close>. The
  repository never mutates a bitmap that two owners can see (postings are copied, cleared or
  marked copy-on-write before they are changed), so bitmaps are passed as values.

  Nothing is assumed of \<open>bm_bytes\<close> (the serialized size, which drives the cost model) and
  \<open>bm_checksum\<close> (a fingerprint): every theorem holds for any such functions.
\<close>

section \<open>The operations\<close>

record 'b roaring =
  bm_new :: "'b"                                  \<comment> \<open>\<open>roaring.New()\<close>, also the result of \<open>Clear\<close>\<close>
  bm_add :: "'b \<Rightarrow> u32 \<Rightarrow> 'b"                      \<comment> \<open>\<open>Add\<close>\<close>
  bm_add_range :: "'b \<Rightarrow> u64 \<Rightarrow> u64 \<Rightarrow> 'b"        \<comment> \<open>\<open>AddRange\<close>, upper end excluded\<close>
  bm_or :: "'b \<Rightarrow> 'b \<Rightarrow> 'b"                        \<comment> \<open>\<open>Or\<close>\<close>
  bm_and :: "'b \<Rightarrow> 'b \<Rightarrow> 'b"                       \<comment> \<open>\<open>And\<close>\<close>
  bm_and_not :: "'b \<Rightarrow> 'b \<Rightarrow> 'b"                   \<comment> \<open>\<open>AndNot\<close>\<close>
  bm_and_any :: "'b \<Rightarrow> 'b list \<Rightarrow> 'b"              \<comment> \<open>\<open>AndAny\<close>: intersect with a union\<close>
  bm_fast_and :: "'b list \<Rightarrow> 'b"                   \<comment> \<open>\<open>FastAnd\<close>\<close>
  bm_contains :: "'b \<Rightarrow> u32 \<Rightarrow> bool"               \<comment> \<open>\<open>Contains\<close>\<close>
  bm_is_empty :: "'b \<Rightarrow> bool"                      \<comment> \<open>\<open>IsEmpty\<close>\<close>
  bm_equals :: "'b \<Rightarrow> 'b \<Rightarrow> bool"                  \<comment> \<open>\<open>Equals\<close>\<close>
  bm_card :: "'b \<Rightarrow> u64"                           \<comment> \<open>\<open>GetCardinality\<close>\<close>
  bm_and_card :: "'b \<Rightarrow> 'b \<Rightarrow> u64"                 \<comment> \<open>\<open>AndCardinality\<close>\<close>
  bm_to_list :: "'b \<Rightarrow> u32 list"                   \<comment> \<open>\<open>Iterate\<close>, \<open>Iterator\<close>, \<open>ManyIterator\<close>\<close>
  bm_min :: "'b \<Rightarrow> u32"                            \<comment> \<open>\<open>Minimum\<close>\<close>
  bm_max :: "'b \<Rightarrow> u32"                            \<comment> \<open>\<open>Maximum\<close>\<close>
  bm_bytes :: "'b \<Rightarrow> u64"                          \<comment> \<open>\<open>GetSerializedSizeInBytes\<close>\<close>
  bm_checksum :: "'b \<Rightarrow> u64"                       \<comment> \<open>\<open>Checksum\<close>\<close>

definition bm_ids :: "'b roaring \<Rightarrow> 'b \<Rightarrow> u32 set" where
  "bm_ids R b = {i. bm_contains R b i}"

section \<open>Their documented behaviour\<close>

locale roaring =
  fixes R :: "'b roaring"
  assumes ids_new [bm_sem]: "bm_ids R (bm_new R) = {}"
    and ids_add [bm_sem]: "bm_ids R (bm_add R b i) = insert i (bm_ids R b)"
    and ids_add_range [bm_sem]:
      "bm_ids R (bm_add_range R b lo hi) = bm_ids R b \<union> {i. lo \<le> ucast i \<and> ucast i < hi}"
    and ids_or [bm_sem]: "bm_ids R (bm_or R b c) = bm_ids R b \<union> bm_ids R c"
    and ids_and [bm_sem]: "bm_ids R (bm_and R b c) = bm_ids R b \<inter> bm_ids R c"
    and ids_and_not [bm_sem]: "bm_ids R (bm_and_not R b c) = bm_ids R b - bm_ids R c"
    and ids_and_any: "cs \<noteq> [] \<Longrightarrow> bm_ids R (bm_and_any R b cs) = bm_ids R b \<inter> (\<Union>c\<in>set cs. bm_ids R c)"
    and ids_fast_and: "cs \<noteq> [] \<Longrightarrow> bm_ids R (bm_fast_and R cs) = (\<Inter>c\<in>set cs. bm_ids R c)"
    and is_empty_iff [bm_sem]: "bm_is_empty R b \<longleftrightarrow> bm_ids R b = {}"
    and equals_iff [bm_sem]: "bm_equals R b c \<longleftrightarrow> bm_ids R b = bm_ids R c"
    and card_eq: "bm_card R b = of_nat (card (bm_ids R b))"
    and and_card_eq: "bm_and_card R b c = of_nat (card (bm_ids R b \<inter> bm_ids R c))"
    and to_list_sorted: "sorted_wrt (<) (bm_to_list R b)"
    and to_list_set [bm_sem]: "set (bm_to_list R b) = bm_ids R b"
    and min_eq: "bm_ids R b \<noteq> {} \<Longrightarrow> bm_min R b = Min (bm_ids R b)"
    and max_eq: "bm_ids R b \<noteq> {} \<Longrightarrow> bm_max R b = Max (bm_ids R b)"
begin

lemma contains_iff [bm_sem]: "bm_contains R b i \<longleftrightarrow> i \<in> bm_ids R b"
  by (simp add: bm_ids_def)

lemma card_zero_iff: "bm_card R b = 0 \<longleftrightarrow> bm_ids R b = {}"
  by (simp add: card_eq of_nat_u64_card_eq_0)

lemma unat_card: "unat (bm_card R b) = card (bm_ids R b)"
  by (simp add: card_eq unat_card_u64)

lemma card_eq_iff: "bm_card R b = bm_card R c \<longleftrightarrow> card (bm_ids R b) = card (bm_ids R c)"
  by (simp add: card_eq of_nat_u64_card_inj)

lemma to_list_eq: "bm_to_list R b = sorted_list_of_set (bm_ids R b)"
  using to_list_sorted [of b] to_list_set [of b]
  by (metis sorted_list_of_set.idem_if_sorted_distinct strict_sorted_iff)

lemma ids_foldl_or [bm_sem]:
  "bm_ids R (foldl (bm_or R) b cs) = bm_ids R b \<union> (\<Union>c\<in>set cs. bm_ids R c)"
  by (induction cs arbitrary: b) (auto simp: ids_or)

lemma ids_foldl_add [bm_sem]: "bm_ids R (foldl (bm_add R) b is) = bm_ids R b \<union> set is"
  by (induction "is" arbitrary: b) (auto simp: ids_add)

text \<open>Two bitmaps whose ranges of IDs do not meet have no ID in common.\<close>

lemma disjoint_ranges:
  assumes "bm_ids R b \<noteq> {}" "bm_ids R c \<noteq> {}" and "bm_max R b < bm_min R c"
  shows "bm_ids R b \<inter> bm_ids R c = {}"
proof -
  have "x < y" if "x \<in> bm_ids R b" "y \<in> bm_ids R c" for x y
  proof -
    have "x \<le> Max (bm_ids R b)" "Min (bm_ids R c) \<le> y" using that by simp_all
    with assms(3) show ?thesis unfolding max_eq [OF assms(1)] min_eq [OF assms(2)] by order
  qed
  then show ?thesis by fastforce
qed

end

section \<open>A reference implementation\<close>

text \<open>
  An instance of the interface on which concrete queries are evaluated: a bitmap is a list of IDs,
  read as a set. It satisfies every law on every list, sorted or not.
\<close>

definition list_ids :: "u32 list \<Rightarrow> u32 list" where
  "list_ids b = sort (remdups b)"

definition list_add :: "u32 list \<Rightarrow> u32 \<Rightarrow> u32 list" where
  "list_add b i = (List.insert i b)"

definition list_add_range :: "u32 list \<Rightarrow> u64 \<Rightarrow> u64 \<Rightarrow> u32 list" where
  "list_add_range b lo hi = (b @ filter (\<lambda>i. lo \<le> ucast i \<and> ucast i < hi)
     (map of_nat [unat lo ..< min (unat hi) (2 ^ 32)]))"

definition list_and :: "u32 list \<Rightarrow> u32 list \<Rightarrow> u32 list" where
  "list_and b c = (filter (\<lambda>i. i \<in> set c) b)"

definition list_and_not :: "u32 list \<Rightarrow> u32 list \<Rightarrow> u32 list" where
  "list_and_not b c = (filter (\<lambda>i. i \<notin> set c) b)"

definition list_and_any :: "u32 list \<Rightarrow> u32 list list \<Rightarrow> u32 list" where
  "list_and_any b cs = (filter (\<lambda>i. i \<in> set (concat cs)) b)"

definition list_fast_and :: "u32 list list \<Rightarrow> u32 list" where
  "list_fast_and cs = (filter (\<lambda>i. list_all (\<lambda>c. i \<in> set c) cs) (concat cs))"

definition list_contains :: "u32 list \<Rightarrow> u32 \<Rightarrow> bool" where
  "list_contains b i = (i \<in> set b)"

definition list_equals :: "u32 list \<Rightarrow> u32 list \<Rightarrow> bool" where
  "list_equals b c = (list_ids b = list_ids c)"

definition list_card :: "u32 list \<Rightarrow> u64" where
  "list_card b = (of_nat (length (remdups b)))"

definition list_and_card :: "u32 list \<Rightarrow> u32 list \<Rightarrow> u64" where
  "list_and_card b c = (of_nat (length (remdups (filter (\<lambda>i. i \<in> set c) b))))"

definition list_min :: "u32 list \<Rightarrow> u32" where
  "list_min b = (hd (list_ids b))"

definition list_max :: "u32 list \<Rightarrow> u32" where
  "list_max b = (last (list_ids b))"

definition list_bytes :: "u32 list \<Rightarrow> u64" where
  "list_bytes b = (of_nat (8 + 2 * length (remdups b)))"

definition list_checksum :: "u32 list \<Rightarrow> u64" where
  "list_checksum b = (foldl (\<lambda>h i. h * 31 + ucast i) 7 (list_ids b))"

definition list_bitmap :: "u32 list roaring" where
  "list_bitmap = \<lparr>bm_new = [], bm_add = list_add, bm_add_range = list_add_range, bm_or = (@),
     bm_and = list_and, bm_and_not = list_and_not, bm_and_any = list_and_any, bm_fast_and = list_fast_and,
     bm_contains = list_contains, bm_is_empty = List.null, bm_equals = list_equals, bm_card = list_card,
     bm_and_card = list_and_card, bm_to_list = list_ids, bm_min = list_min, bm_max = list_max,
     bm_bytes = list_bytes, bm_checksum = list_checksum\<rparr>"

lemma list_bitmap_simps:
  "bm_new list_bitmap = []"
  "bm_add list_bitmap b i = List.insert i b"
  "bm_add_range list_bitmap b lo hi = b @ filter (\<lambda>i. lo \<le> ucast i \<and> ucast i < hi)
     (map of_nat [unat lo ..< min (unat hi) (2 ^ 32)])"
  "bm_or list_bitmap b c = b @ c"
  "bm_and list_bitmap b c = filter (\<lambda>i. i \<in> set c) b"
  "bm_and_not list_bitmap b c = filter (\<lambda>i. i \<notin> set c) b"
  "bm_and_any list_bitmap b cs = filter (\<lambda>i. i \<in> set (concat cs)) b"
  "bm_fast_and list_bitmap cs = filter (\<lambda>i. list_all (\<lambda>c. i \<in> set c) cs) (concat cs)"
  "bm_contains list_bitmap b i = (i \<in> set b)"
  "bm_is_empty list_bitmap b = (b = [])"
  "bm_equals list_bitmap b c = (list_ids b = list_ids c)"
  "bm_card list_bitmap b = of_nat (length (remdups b))"
  "bm_and_card list_bitmap b c = of_nat (length (remdups (filter (\<lambda>i. i \<in> set c) b)))"
  "bm_to_list list_bitmap b = list_ids b"
  "bm_min list_bitmap b = hd (list_ids b)"
  "bm_max list_bitmap b = last (list_ids b)"
  "bm_bytes list_bitmap b = of_nat (8 + 2 * length (remdups b))"
  "bm_checksum list_bitmap b = foldl (\<lambda>h i. h * 31 + ucast i) 7 (list_ids b)"
  by (simp_all add: list_bitmap_def list_add_def list_add_range_def list_and_def list_and_not_def list_and_any_def
      list_fast_and_def list_contains_def list_equals_def list_card_def list_and_card_def list_min_def list_max_def list_bytes_def list_checksum_def)

lemma list_ids_eq: "list_ids b = sorted_list_of_set (set b)"
  by (simp add: list_ids_def sorted_list_of_set_sort_remdups)

lemma list_ids_inj: "list_ids b = list_ids c \<longleftrightarrow> set b = set c"
  by (metis List.finite_set list_ids_eq sorted_list_of_set.set_sorted_key_list_of_set)

lemma bm_ids_list: "bm_ids list_bitmap b = set b"
  by (simp add: bm_ids_def list_bitmap_simps)

lemma set_list_ids [simp]: "set (list_ids b) = set b"
  by (simp add: list_ids_def)

lemma sorted_list_ids: "sorted (list_ids b)"
  by (simp add: list_ids_def)

lemma hd_list_ids: "b \<noteq> [] \<Longrightarrow> hd (list_ids b) = Min (set b)"
proof -
  assume "b \<noteq> []"
  then obtain x xs where eq: "list_ids b = x # xs"
    by (metis list.exhaust set_empty set_list_ids)
  with sorted_list_ids [of b] have "Min (set (x # xs)) = x" by (intro Min_eqI) auto
  with eq show ?thesis by (metis list.sel(1) set_list_ids)
qed

lemma last_list_ids: "b \<noteq> [] \<Longrightarrow> last (list_ids b) = Max (set b)"
proof -
  assume "b \<noteq> []"
  then obtain x xs where eq: "list_ids b = xs @ [x]"
    by (metis rev_exhaust set_empty set_list_ids)
  with sorted_list_ids [of b] have "Max (set (xs @ [x])) = x"
    by (intro Max_eqI) (auto simp: sorted_append)
  with eq show ?thesis by (metis last_snoc set_list_ids)
qed

lemma unat_ucast_u64: "unat (ucast (i :: u32) :: u64) = unat i"
  by transfer (simp add: take_bit_int_eq_self take_bit_int_less_exp [THEN order_less_le_trans])

lemma range_ids:
  "{i :: u32. (lo :: u64) \<le> ucast i \<and> ucast i < (hi :: u64)}
     = {i. lo \<le> ucast i \<and> ucast i < hi} \<inter> of_nat ` {unat lo ..< min (unat hi) (2 ^ 32)}"
proof -
  have "i \<in> of_nat ` {unat lo ..< min (unat hi) (2 ^ 32)}"
    if "lo \<le> ucast i" "ucast i < hi" for i :: u32
  proof
    show "i = of_nat (unat i)" by simp
    have "unat i < 2 ^ 32" using unsigned_less [of i, where 'a = nat] by simp
    then show "unat i \<in> {unat lo ..< min (unat hi) (2 ^ 32)}"
      using that unat_ucast_u64 [of i]
      by (simp add: word_le_nat_alt word_less_nat_alt)
  qed
  then show ?thesis by blast
qed

lemmas list_bitmap_sem = bm_ids_list list_bitmap_simps

interpretation list_bitmap: roaring list_bitmap
proof unfold_locales
  fix b c :: "u32 list" and cs and i and lo hi :: u64
  show "bm_ids list_bitmap (bm_add_range list_bitmap b lo hi)
      = bm_ids list_bitmap b \<union> {i. lo \<le> ucast i \<and> ucast i < hi}"
    by (subst range_ids) (auto simp: list_bitmap_sem)
  show "sorted_wrt (<) (bm_to_list list_bitmap b)"
    by (simp add: list_bitmap_sem list_ids_eq)
  show "bm_ids list_bitmap b \<noteq> {} \<Longrightarrow> bm_min list_bitmap b = Min (bm_ids list_bitmap b)"
    by (simp add: list_bitmap_sem hd_list_ids)
  show "bm_ids list_bitmap b \<noteq> {} \<Longrightarrow> bm_max list_bitmap b = Max (bm_ids list_bitmap b)"
    by (simp add: list_bitmap_sem last_list_ids)
  show "bm_card list_bitmap b = of_nat (card (bm_ids list_bitmap b))"
    by (simp add: list_bitmap_sem List.card_set)
  have "set b \<inter> set c = set (filter (\<lambda>i. i \<in> set c) b)" by auto
  then show "bm_and_card list_bitmap b c = of_nat (card (bm_ids list_bitmap b \<inter> bm_ids list_bitmap c))"
    by (simp add: list_bitmap_sem List.card_set del: set_filter)
  show "cs \<noteq> [] \<Longrightarrow> bm_ids list_bitmap (bm_fast_and list_bitmap cs) = (\<Inter>c\<in>set cs. bm_ids list_bitmap c)"
    by (cases cs) (auto simp: list_bitmap_sem list_all_iff)
qed (auto simp: list_bitmap_sem list_ids_inj)

end
