(* ===== verification/Value_Cache.thy ===== *)
theory Value_Cache
  imports Roaring
begin

text \<open>
  The per-node result cache of a \<open>Local\<close> (\<^verbatim>\<open>local_cache.go\<close>; \<^verbatim>\<open>between.go\<close> repeats it with a pair
  of bounds as the key): two entries that can grow to four with least-recently-used replacement,
  and an admission filter that lets a value in when it is missed a second time. The key is a whole
  query value, absent values included. An entry is \<open>None\<close> until it is initialized.

  An entry's bitmap object is allocated once and rewritten in place afterwards, so a slot index
  identifies the object.
\<close>

section \<open>Data\<close>

record ('k, 'b) cache_overflow =
  ov_entries :: "('k \<times> 'b) option list"
  ov_used :: "u64 list"
  ov_clock :: u64

record 'k cache_seen =
  sn_entries :: "'k option list"
  sn_overflow :: "'k option list option"
  sn_next :: nat

record ('k, 'b) value_cache =
  vc_entries :: "('k \<times> 'b) option list"
  vc_seen :: "'k cache_seen option"
  vc_overflow :: "('k, 'b) cache_overflow option"
  vc_next :: nat
  vc_pressure :: u8
  vc_misses :: u8

definition new_value_cache :: "('k, 'b) value_cache" where
  "new_value_cache = \<lparr>vc_entries = [None, None], vc_seen = None, vc_overflow = None, vc_next = 0,
     vc_pressure = 0, vc_misses = 0\<rparr>"

definition new_seen :: "'k cache_seen" where
  "new_seen = \<lparr>sn_entries = [None, None], sn_overflow = None, sn_next = 0\<rparr>"

section \<open>Entries\<close>

definition vc_capacity :: "('k, 'b) value_cache \<Rightarrow> nat" where
  "vc_capacity c = (if vc_overflow c = None then 2 else 4)"

definition vc_entry :: "('k, 'b) value_cache \<Rightarrow> nat \<Rightarrow> ('k \<times> 'b) option" where
  "vc_entry c i =
     (if i < length (vc_entries c) then vc_entries c ! i
      else case vc_overflow c of
        Some ov \<Rightarrow> (let j = i - length (vc_entries c) in if j < length (ov_entries ov) then ov_entries ov ! j else None)
      | None \<Rightarrow> None)"

definition vc_set_entry :: "('k, 'b) value_cache \<Rightarrow> nat \<Rightarrow> 'k \<times> 'b \<Rightarrow> ('k, 'b) value_cache" where
  "vc_set_entry c i e =
     (if i < length (vc_entries c) then c\<lparr>vc_entries := (vc_entries c)[i := Some e]\<rparr>
      else case vc_overflow c of
        Some ov \<Rightarrow> c\<lparr>vc_overflow := Some (ov\<lparr>ov_entries := (ov_entries ov)[i - length (vc_entries c) := Some e]\<rparr>)\<rparr>
      | None \<Rightarrow> c)"

definition entry_matches :: "('k \<Rightarrow> 'k \<Rightarrow> bool) \<Rightarrow> 'k \<Rightarrow> ('k \<times> 'b) option \<Rightarrow> bool" where
  "entry_matches eq k e = (case e of Some (k', _) \<Rightarrow> eq k' k | None \<Rightarrow> False)"

fun first_index :: "(nat \<Rightarrow> bool) \<Rightarrow> nat list \<Rightarrow> nat option" where
  "first_index P [] = None"
| "first_index P (i # is) = (if P i then Some i else first_index P is)"

definition vc_find :: "('k \<Rightarrow> 'k \<Rightarrow> bool) \<Rightarrow> ('k, 'b) value_cache \<Rightarrow> 'k \<Rightarrow> nat option" where
  "vc_find eq c k = first_index (\<lambda>i. entry_matches eq k (vc_entry c i)) [0..<vc_capacity c]"

text \<open>The bookkeeping of a hit.\<close>

definition vc_touch :: "('k, 'b) value_cache \<Rightarrow> nat \<Rightarrow> ('k, 'b) value_cache" where
  "vc_touch c i =
     (case vc_overflow c of
        None \<Rightarrow> c\<lparr>vc_next := 1 - i\<rparr>
      | Some ov \<Rightarrow> c\<lparr>vc_overflow := Some (ov\<lparr>ov_clock := ov_clock ov + 1,
                                             ov_used := (ov_used ov)[i := ov_clock ov + 1]\<rparr>)\<rparr>)"

text \<open>A found entry is its slot and its bitmap.\<close>

definition vc_lookup ::
  "('k \<Rightarrow> 'k \<Rightarrow> bool) \<Rightarrow> ('k, 'b) value_cache \<Rightarrow> 'k \<Rightarrow> (nat \<times> 'b) option \<times> ('k, 'b) value_cache" where
  "vc_lookup eq c k =
     (case vc_find eq c k of
        Some i \<Rightarrow> (Some (i, snd (the (vc_entry c i))), vc_touch c i)
      | None \<Rightarrow> (None, c))"

definition vc_peek :: "('k \<Rightarrow> 'k \<Rightarrow> bool) \<Rightarrow> ('k, 'b) value_cache \<Rightarrow> 'k \<Rightarrow> 'b option" where
  "vc_peek eq c k =
     (case vc_find eq c k of Some i \<Rightarrow> Some (snd (the (vc_entry c i))) | None \<Rightarrow> None)"

section \<open>Replacement\<close>

definition vc_grow :: "('k, 'b) value_cache \<Rightarrow> ('k, 'b) value_cache" where
  "vc_grow c = c\<lparr>vc_overflow := Some \<lparr>ov_entries = [None, None],
       ov_used = ([0, 0, 0, 0][vc_next c := 1])[1 - vc_next c := 2], ov_clock = 2\<rparr>,
     vc_next := 0\<rparr>"

fun lru_from :: "('k, 'b) value_cache \<Rightarrow> u64 list \<Rightarrow> nat \<Rightarrow> nat list \<Rightarrow> nat" where
  "lru_from c used oldest [] = oldest"
| "lru_from c used oldest (i # is) =
     (if vc_entry c i = None then i
      else lru_from c used (if used ! i < used ! oldest then i else oldest) is)"

definition vc_lru :: "('k, 'b) value_cache \<Rightarrow> u64 list \<Rightarrow> nat" where
  "vc_lru c used = lru_from c used 0 [1..<vc_capacity c]"

definition vc_press :: "('k, 'b) value_cache \<Rightarrow> ('k, 'b) value_cache" where
  "vc_press c =
     (if vc_overflow c = None \<and> vc_entries c ! vc_next c \<noteq> None
      then let c = c\<lparr>vc_pressure := vc_pressure c + 1\<rparr>
           in if 2 \<le> vc_pressure c then vc_grow c else c
      else c)"

definition vc_slot :: "('k, 'b) value_cache \<Rightarrow> nat \<times> ('k, 'b) value_cache" where
  "vc_slot c =
     (case vc_overflow c of
        Some ov \<Rightarrow>
          (let i = vc_lru c (ov_used ov); clock = ov_clock ov + 1
           in (i, c\<lparr>vc_overflow := Some (ov\<lparr>ov_clock := clock, ov_used := (ov_used ov)[i := clock]\<rparr>)\<rparr>))
      | None \<Rightarrow> (vc_next c, c\<lparr>vc_next := (vc_next c + 1) mod length (vc_entries c)\<rparr>))"

text \<open>\<open>replace\<close> returns the slot whose cleared bitmap the caller fills for the key.\<close>

definition vc_replace :: "'b roaring \<Rightarrow> ('k, 'b) value_cache \<Rightarrow> 'k \<Rightarrow> nat \<times> ('k, 'b) value_cache" where
  "vc_replace R c k =
     (case vc_slot (vc_press c) of (i, c) \<Rightarrow> (i, vc_set_entry c i (k, bm_new R)))"

section \<open>Admission\<close>

definition sn_capacity :: "'k cache_seen \<Rightarrow> nat" where
  "sn_capacity s = (if sn_overflow s = None then 2 else 4)"

definition sn_entry :: "'k cache_seen \<Rightarrow> nat \<Rightarrow> 'k option" where
  "sn_entry s i =
     (if i < length (sn_entries s) then sn_entries s ! i
      else case sn_overflow s of Some es \<Rightarrow> es ! (i - length (sn_entries s)) | None \<Rightarrow> None)"

definition sn_set :: "'k cache_seen \<Rightarrow> nat \<Rightarrow> 'k option \<Rightarrow> 'k cache_seen" where
  "sn_set s i e =
     (if i < length (sn_entries s) then s\<lparr>sn_entries := (sn_entries s)[i := e]\<rparr>
      else case sn_overflow s of
        Some es \<Rightarrow> s\<lparr>sn_overflow := Some (es[i - length (sn_entries s) := e])\<rparr>
      | None \<Rightarrow> s)"

definition sn_empty :: "'k cache_seen \<Rightarrow> bool" where
  "sn_empty s \<longleftrightarrow> list_all (\<lambda>e. e = None) (sn_entries s)
     \<and> (case sn_overflow s of Some es \<Rightarrow> list_all (\<lambda>e. e = None) es | None \<Rightarrow> True)"

definition vc_admit :: "('k \<Rightarrow> 'k \<Rightarrow> bool) \<Rightarrow> ('k, 'b) value_cache \<Rightarrow> 'k \<Rightarrow> bool \<times> ('k, 'b) value_cache" where
  "vc_admit eq c k =
     (let s = (case vc_seen c of Some s \<Rightarrow> s | None \<Rightarrow> new_seen)
      in case first_index (\<lambda>i. case sn_entry s i of Some k' \<Rightarrow> eq k' k | None \<Rightarrow> False) [0..<sn_capacity s] of
           Some i \<Rightarrow>
             (let s = sn_set s i None
              in (True, c\<lparr>vc_seen := if sn_empty s then None else Some s\<rparr>))
         | None \<Rightarrow>
             (let misses = vc_misses c + 1;
                  s = (if 8 \<le> misses \<and> sn_overflow s = None then s\<lparr>sn_overflow := Some [None, None]\<rparr> else s);
                  i = sn_next s;
                  s = s\<lparr>sn_next := (i + 1) mod sn_capacity s\<rparr>
              in (False, c\<lparr>vc_misses := misses, vc_seen := Some (sn_set s i (Some k))\<rparr>)))"

text \<open>\<open>reset\<close> returns the bitmaps to the pool and leaves a fresh cache.\<close>

definition vc_reset :: "('k, 'b) value_cache \<Rightarrow> ('k, 'b) value_cache" where
  "vc_reset c = new_value_cache"

section \<open>A cached search\<close>

text \<open>
  The shape that every rule's \<open>search\<close> and \<open>exclude\<close> has on a \<open>Local\<close>. \<open>fill\<close> adds the uncached
  result to a bitmap; the last component says that an entry was rewritten, which invalidates the
  cached results of the enclosing \<open>All\<close>.
\<close>

definition vc_search ::
  "'b roaring \<Rightarrow> ('k \<Rightarrow> 'k \<Rightarrow> bool) \<Rightarrow> ('b \<Rightarrow> 'b) \<Rightarrow> ('k, 'b) value_cache \<Rightarrow> 'k \<Rightarrow> 'b \<Rightarrow> 'b \<times> ('k, 'b) value_cache \<times> bool" where
  "vc_search R eq fill c k dst =
     (case vc_lookup eq c k of
        (Some (_, bits), c) \<Rightarrow> (bm_or R dst bits, c, False)
      | (None, c) \<Rightarrow>
          (case vc_admit eq c k of
             (False, c) \<Rightarrow> (fill dst, c, False)
           | (True, c) \<Rightarrow>
               (case vc_replace R c k of
                  (i, c) \<Rightarrow> let bits = fill (bm_new R) in (bm_or R dst bits, vc_set_entry c i (k, bits), True))))"

section \<open>Invariant\<close>

text \<open>
  \<open>den k\<close> is the set of IDs an uncached search for the key returns. The invariant bounds every
  index the code uses and says that each entry holds the result of its key.
\<close>

definition vc_shape :: "('k, 'b) value_cache \<Rightarrow> bool" where
  "vc_shape c \<longleftrightarrow> length (vc_entries c) = 2 \<and> vc_next c < 2
     \<and> (case vc_overflow c of None \<Rightarrow> True | Some ov \<Rightarrow> length (ov_entries ov) = 2 \<and> length (ov_used ov) = 4)"

definition vc_ok :: "'b roaring \<Rightarrow> ('k \<Rightarrow> u32 set) \<Rightarrow> ('k, 'b) value_cache \<Rightarrow> bool" where
  "vc_ok R den c \<longleftrightarrow> vc_shape c \<and> (\<forall>i k b. vc_entry c i = Some (k, b) \<longrightarrow> bm_ids R b = den k)"

definition vc_content :: "('k, 'b) value_cache \<Rightarrow> nat \<Rightarrow> 'b option" where
  "vc_content c i = map_option snd (vc_entry c i)"

lemma first_index_Some: "first_index P is = Some i \<Longrightarrow> i \<in> set is \<and> P i"
  by (induction "is") (auto split: if_splits)

lemma first_index_None: "first_index P is = None \<longleftrightarrow> (\<forall>i\<in>set is. \<not> P i)"
  by (induction "is") auto

lemma vc_find_Some:
  "vc_find eq c k = Some i \<Longrightarrow> i < vc_capacity c \<and> (\<exists>k' b. vc_entry c i = Some (k', b) \<and> eq k' k)"
  by (auto simp: vc_find_def entry_matches_def dest!: first_index_Some split: option.splits prod.splits)

lemma vc_shape_new [simp]: "vc_shape new_value_cache"
  by (simp add: vc_shape_def new_value_cache_def)

lemma vc_ok_new [simp]: "vc_ok R den new_value_cache"
  by (simp add: vc_ok_def) (auto simp: vc_entry_def new_value_cache_def nth_Cons' Let_def split: if_splits)

lemma vc_entry_touch [simp]: "vc_entry (vc_touch c i) = vc_entry c"
  by (rule ext) (auto simp: vc_entry_def vc_touch_def Let_def split: option.splits)

lemma vc_entry_admit [simp]: "vc_entry (snd (vc_admit eq c k)) = vc_entry c"
  by (rule ext) (auto simp: vc_entry_def vc_admit_def Let_def split: option.splits)

lemma vc_entry_press [simp]: "length (vc_entries c) = 2 \<Longrightarrow> vc_overflow c = None \<or> vc_overflow c = Some ov \<Longrightarrow>
    vc_entry (vc_press c) = vc_entry c"
  by (rule ext)
    (auto simp: vc_entry_def vc_press_def vc_grow_def Let_def nth_Cons' less_Suc_eq split: option.splits)

lemma vc_entry_slot [simp]: "vc_entry (snd (vc_slot c)) = vc_entry c"
  by (rule ext) (auto simp: vc_entry_def vc_slot_def Let_def split: option.splits)

lemma vc_shape_touch: "vc_shape c \<Longrightarrow> vc_shape (vc_touch c i)"
  by (auto simp: vc_shape_def vc_touch_def split: option.splits)

lemma vc_shape_admit: "vc_shape c \<Longrightarrow> vc_shape (snd (vc_admit eq c k))"
  by (auto simp: vc_shape_def vc_admit_def Let_def split: option.splits)

lemma vc_shape_press: "vc_shape c \<Longrightarrow> vc_shape (vc_press c)"
  by (auto simp: vc_shape_def vc_press_def vc_grow_def Let_def split: option.splits nat.splits)

lemma lru_from_range: "lru_from c used oldest is \<in> insert oldest (set is)"
  by (induction c used oldest "is" rule: lru_from.induct) auto

lemma vc_lru_less: "vc_lru c used < vc_capacity c"
  using lru_from_range [of c used 0 "[1..<vc_capacity c]"] by (auto simp: vc_lru_def vc_capacity_def)

lemma vc_slot_shape:
  assumes "vc_shape c"
  shows "vc_shape (snd (vc_slot c)) \<and> fst (vc_slot c) < vc_capacity (snd (vc_slot c))"
proof (cases "vc_overflow c")
  case None
  with assms show ?thesis by (auto simp: vc_shape_def vc_slot_def vc_capacity_def)
next
  case (Some ov)
  with assms vc_lru_less [of c "ov_used ov"] show ?thesis
    by (auto simp: vc_shape_def vc_slot_def Let_def vc_capacity_def)
qed

lemma vc_shape_set: "vc_shape c \<Longrightarrow> vc_shape (vc_set_entry c i e)"
  by (auto simp: vc_shape_def vc_set_entry_def split: option.splits)

lemma vc_entry_set:
  assumes "vc_shape c" "i < vc_capacity c"
  shows "vc_entry (vc_set_entry c i e) = (vc_entry c)(i := Some e)"
proof (rule ext)
  fix j
  show "vc_entry (vc_set_entry c i e) j = ((vc_entry c)(i := Some e)) j"
    using assms
    by (cases "vc_overflow c")
      (auto simp: vc_entry_def vc_set_entry_def vc_shape_def vc_capacity_def nth_list_update Let_def)
qed

lemma vc_capacity_set [simp]: "vc_capacity (vc_set_entry c i e) = vc_capacity c"
  by (auto simp: vc_capacity_def vc_set_entry_def split: option.splits)

lemma vc_replace_spec:
  assumes "vc_shape c" "vc_replace R c k = (i, c')"
  shows "vc_shape c'" "i < vc_capacity c'" "vc_entry c' = (vc_entry c)(i := Some (k, bm_new R))"
proof -
  have shape: "vc_shape (vc_press c)" using assms(1) by (rule vc_shape_press)
  have len: "length (vc_entries c) = 2" using assms(1) by (simp add: vc_shape_def)
  have press: "vc_entry (vc_press c) = vc_entry c"
    using vc_entry_press [OF len, of "the (vc_overflow c)"] by (cases "vc_overflow c") auto
  obtain j d where slot: "vc_slot (vc_press c) = (j, d)" by (cases "vc_slot (vc_press c)")
  with vc_slot_shape [OF shape] have d: "vc_shape d" "j < vc_capacity d" by auto
  have "vc_entry d = vc_entry c"
    using vc_entry_slot [of "vc_press c"] slot press by simp
  with d assms(2) slot show "vc_shape c'" "i < vc_capacity c'" "vc_entry c' = (vc_entry c)(i := Some (k, bm_new R))"
    by (auto simp: vc_replace_def vc_entry_set vc_shape_set)
qed

lemma vc_lookup_spec:
  assumes "vc_ok R den c" "vc_lookup eq c k = (r, c')"
  shows "vc_ok R den c'" "vc_entry c' = vc_entry c"
    and "\<And>i b. r = Some (i, b) \<Longrightarrow> (\<exists>k'. eq k' k \<and> bm_ids R b = den k' \<and> vc_entry c i = Some (k', b))"
  using assms by (auto simp: vc_lookup_def vc_ok_def vc_shape_touch split: option.splits dest!: vc_find_Some)

lemma vc_peek_spec:
  "vc_ok R den c \<Longrightarrow> vc_peek eq c k = Some b \<Longrightarrow> \<exists>k'. eq k' k \<and> bm_ids R b = den k'"
  by (auto simp: vc_peek_def vc_ok_def split: option.splits dest!: vc_find_Some)

context roaring
begin

lemma vc_search_spec:
  assumes ok: "vc_ok R den c"
    and eq: "\<And>a b. eq a b \<Longrightarrow> den a = den b"
    and fill: "\<And>d. bm_ids R (fill d) = bm_ids R d \<union> den k"
    and run: "vc_search R eq fill c k dst = (dst', c', replaced)"
  shows "bm_ids R dst' = bm_ids R dst \<union> den k" "vc_ok R den c'"
    "\<not> replaced \<Longrightarrow> vc_entry c' = vc_entry c"
proof -
  obtain r c1 where l: "vc_lookup eq c k = (r, c1)" by (cases "vc_lookup eq c k")
  note look = vc_lookup_spec [OF ok l]
  have "bm_ids R dst' = bm_ids R dst \<union> den k \<and> vc_ok R den c' \<and> (\<not> replaced \<longrightarrow> vc_entry c' = vc_entry c)"
  proof (cases r)
    case (Some p)
    obtain i b where p: "p = (i, b)" by (cases p)
    with Some look(3) eq have "bm_ids R b = den k" by blast
    with run l Some p look show ?thesis by (auto simp: vc_search_def ids_or)
  next
    case None
    obtain a c2 where adm: "vc_admit eq c1 k = (a, c2)" by (cases "vc_admit eq c1 k")
    have c2: "vc_shape c2" "vc_entry c2 = vc_entry c"
      using vc_shape_admit [of c1 eq k] vc_entry_admit [of eq c1 k] look(1,2) adm by (auto simp: vc_ok_def)
    show ?thesis
    proof (cases a)
      case False
      with run l None adm c2 ok fill show ?thesis
        by (auto simp: vc_search_def vc_ok_def)
    next
      case True
      obtain i c3 where rep: "vc_replace R c2 k = (i, c3)" by (cases "vc_replace R c2 k")
      note c3 = vc_replace_spec [OF c2(1) rep]
      from run l None adm True rep
      have res: "dst' = bm_or R dst (fill (bm_new R))" "c' = vc_set_entry c3 i (k, fill (bm_new R))" "replaced"
        by (auto simp: vc_search_def Let_def)
      have "vc_entry c' = (vc_entry c)(i := Some (k, fill (bm_new R)))"
        using c3 c2(2) by (simp add: res vc_entry_set)
      with ok c3 res fill [of "bm_new R"] show ?thesis
        by (auto simp: vc_ok_def vc_shape_set ids_or ids_new)
    qed
  qed
  then show "bm_ids R dst' = bm_ids R dst \<union> den k" "vc_ok R den c'" "\<not> replaced \<Longrightarrow> vc_entry c' = vc_entry c"
    by auto
qed

end

end
