(* ===== verification/Equality_Antonym_Cache.thy ===== *)
theory Equality_Antonym_Cache
  imports Value_Cache
begin

text \<open>
  The keys of cached results, and the cache of a \<open>Local\<close> for one strict antonym rule
  (\<^verbatim>\<open>equality_antonym_cache.go\<close>): two results under the query keys of all operands of the rule, with the
  admission on the second request that the other caches have. The observers are left out.
\<close>

section \<open>Keys\<close>

datatype cache_kind = Equality_Cache | Ordered_Cache | Compare_Cache | Between_Cache | Exclusion_Cache

text \<open>The key of a cached result: a query value, or the two bounds of \<open>Between\<close>.\<close>

type_synonym 'v cache_key = "'v option \<times> 'v option"

text \<open>\<open>localQueryKey\<close> returns a value of a type private to the rule kind.\<close>

type_synonym 'v query_key = "cache_kind \<times> 'v cache_key"

section \<open>The cache\<close>

text \<open>
  \<open>queryKeysMatch\<close> compares the stored keys with those of the current value; for equality operands
  that is equality with the keys captured now, the argument \<open>keys\<close> below.
\<close>

record ('v, 'b) antonym_cache =
  ac_entries :: "('v query_key list \<times> 'b) option list"
  ac_seen :: "'v query_key list option list"
  ac_next :: nat
  ac_seen_next :: nat

definition new_antonym_cache :: "('v, 'b) antonym_cache" where
  "new_antonym_cache = \<lparr>ac_entries = [None, None], ac_seen = [None, None], ac_next = 0, ac_seen_next = 0\<rparr>"

definition ac_find :: "('v, 'b) antonym_cache \<Rightarrow> 'v query_key list \<Rightarrow> nat option" where
  "ac_find c keys = first_index (\<lambda>i. entry_matches (=) keys (ac_entries c ! i)) [0..<length (ac_entries c)]"

text \<open>\<open>peek\<close> makes the other entry the next victim; \<open>lookup\<close> only adds the observers.\<close>

definition ac_peek ::
  "('v, 'b) antonym_cache \<Rightarrow> 'v query_key list \<Rightarrow> (nat \<times> 'b) option \<times> ('v, 'b) antonym_cache" where
  "ac_peek c keys =
     (case ac_find c keys of
        Some i \<Rightarrow> (Some (i, snd (the (ac_entries c ! i))), c\<lparr>ac_next := 1 - i\<rparr>)
      | None \<Rightarrow> (None, c))"

definition ac_admit :: "('v, 'b) antonym_cache \<Rightarrow> 'v query_key list \<Rightarrow> bool \<times> ('v, 'b) antonym_cache" where
  "ac_admit c keys =
     (case first_index (\<lambda>i. ac_seen c ! i = Some keys) [0..<length (ac_seen c)] of
        Some i \<Rightarrow> (True, c\<lparr>ac_seen := (ac_seen c)[i := None]\<rparr>)
      | None \<Rightarrow> (False, c\<lparr>ac_seen := (ac_seen c)[ac_seen_next c := Some keys], ac_seen_next := 1 - ac_seen_next c\<rparr>))"

text \<open>\<open>replace\<close> returns the entry whose cleared bitmap the caller fills.\<close>

definition ac_replace ::
  "'b roaring \<Rightarrow> ('v, 'b) antonym_cache \<Rightarrow> 'v query_key list \<Rightarrow> nat \<times> ('v, 'b) antonym_cache" where
  "ac_replace R c keys =
     (ac_next c, c\<lparr>ac_next := 1 - ac_next c, ac_entries := (ac_entries c)[ac_next c := Some (keys, bm_new R)]\<rparr>)"

definition ac_reset :: "('v, 'b) antonym_cache \<Rightarrow> ('v, 'b) antonym_cache" where
  "ac_reset c = new_antonym_cache"

text \<open>\<open>strictEqualityAntonymRule.search\<close> on a \<open>Local\<close>; the last component says that an entry was rewritten.\<close>

definition ac_search ::
  "'b roaring \<Rightarrow> ('b \<Rightarrow> 'b) \<Rightarrow> ('v, 'b) antonym_cache \<Rightarrow> 'v query_key list \<Rightarrow> 'b \<Rightarrow> 'b \<times> ('v, 'b) antonym_cache \<times> bool" where
  "ac_search R fill c keys dst =
     (case ac_peek c keys of
        (Some (_, bits), c) \<Rightarrow> (bm_or R dst bits, c, False)
      | (None, c) \<Rightarrow>
          (case ac_admit c keys of
             (False, c) \<Rightarrow> (fill dst, c, False)
           | (True, c) \<Rightarrow>
               (case ac_replace R c keys of
                  (i, c) \<Rightarrow>
                    let bits = fill (bm_new R)
                    in (bm_or R dst bits, c\<lparr>ac_entries := (ac_entries c)[i := Some (keys, bits)]\<rparr>, True))))"

section \<open>Invariant\<close>

definition ac_ok :: "'b roaring \<Rightarrow> ('v query_key list \<Rightarrow> u32 set) \<Rightarrow> ('v, 'b) antonym_cache \<Rightarrow> bool" where
  "ac_ok R den c \<longleftrightarrow> length (ac_entries c) = 2 \<and> length (ac_seen c) = 2 \<and> ac_next c < 2 \<and> ac_seen_next c < 2
     \<and> (\<forall>i<2. \<forall>keys b. ac_entries c ! i = Some (keys, b) \<longrightarrow> bm_ids R b = den keys)"

definition ac_content :: "('v, 'b) antonym_cache \<Rightarrow> nat \<Rightarrow> 'b option" where
  "ac_content c i = (if i < length (ac_entries c) then map_option snd (ac_entries c ! i) else None)"

lemma ac_ok_new [simp]: "ac_ok R den new_antonym_cache"
  by (simp add: ac_ok_def new_antonym_cache_def less_2_cases_iff)

lemma ac_peek_spec:
  assumes "ac_ok R den c" "ac_peek c keys = (r, c')"
  shows "ac_ok R den c'" "ac_entries c' = ac_entries c"
    "\<And>i b. r = Some (i, b) \<Longrightarrow> bm_ids R b = den keys \<and> ac_content c i = Some b"
  using assms
  by (auto simp: ac_peek_def ac_find_def entry_matches_def ac_ok_def ac_content_def
      dest!: first_index_Some split: option.splits prod.splits)

lemma ac_admit_spec:
  assumes "ac_ok R den c" "ac_admit c keys = (a, c')"
  shows "ac_ok R den c'" "ac_entries c' = ac_entries c"
  using assms by (auto simp: ac_admit_def ac_ok_def split: option.splits)

context roaring
begin

lemma ac_search_spec:
  assumes ok: "ac_ok R den c" and fill: "\<And>d. bm_ids R (fill d) = bm_ids R d \<union> den keys"
    and run: "ac_search R fill c keys dst = (dst', c', replaced)"
  shows "bm_ids R dst' = bm_ids R dst \<union> den keys" "ac_ok R den c'" "\<not> replaced \<Longrightarrow> ac_entries c' = ac_entries c"
proof -
  obtain r c1 where p: "ac_peek c keys = (r, c1)" by fastforce
  note peek = ac_peek_spec [OF ok p]
  obtain a c2 where adm: "ac_admit c1 keys = (a, c2)" by fastforce
  note admit = ac_admit_spec [OF peek(1) adm]
  have "bm_ids R dst' = bm_ids R dst \<union> den keys \<and> ac_ok R den c' \<and> (\<not> replaced \<longrightarrow> ac_entries c' = ac_entries c)"
  proof (cases r)
    case (Some e)
    obtain i b where e: "e = (i, b)" by (cases e)
    have "dst' = bm_or R dst b" "c' = c1" using run p Some e by (auto simp: ac_search_def)
    with peek Some e show ?thesis by (simp add: ids_or)
  next
    case None
    show ?thesis
    proof (cases a)
      case True
      have res: "dst' = bm_or R dst (fill (bm_new R))" "replaced"
        "c' = c2\<lparr>ac_next := 1 - ac_next c2, ac_entries := (ac_entries c2)[ac_next c2 := Some (keys, fill (bm_new R))]\<rparr>"
        using run p None adm True by (auto simp: ac_search_def ac_replace_def Let_def)
      from admit(1) fill [of "bm_new R"] show ?thesis
        by (auto simp: res ac_ok_def ids_or ids_new nth_list_update)
    next
      case False
      have "dst' = fill dst" "c' = c2" using run p None adm False by (auto simp: ac_search_def)
      with admit peek(2) fill show ?thesis by simp
    qed
  qed
  then show "bm_ids R dst' = bm_ids R dst \<union> den keys" "ac_ok R den c'" "\<not> replaced \<Longrightarrow> ac_entries c' = ac_entries c"
    by auto
qed

end

end
