(* ===== verification/Local_Pool.thy ===== *)
theory Local_Pool
  imports Equality_Antonym_Cache
begin

text \<open>
  The state a search threads through the rules: \<open>bitmapPool\<close> of \<^verbatim>\<open>bitmap_pool.go\<close> with the per-node
  caches and the learned plans of a \<open>Local\<close> (\<^verbatim>\<open>local_cache.go\<close>). Scratch bitmaps are values here,
  so the two \<open>sync.Pool\<close>s disappear; what remains is the state that outlives a search. The
  inspector counters are left out.
\<close>

section \<open>Data\<close>

text \<open>\<open>localNodeCache\<close> has one field per kind of cache; an absent field is a cache that was never created.\<close>

type_synonym ('v, 'b) node_cache = "cache_kind \<Rightarrow> ('v cache_key, 'b) value_cache option"

text \<open>
  The identity of a bitmap object that \<open>All\<close> can hold on to: a posting interned by Build, the slot of
  a node's cache, or a scratch bitmap.
\<close>

datatype source = Posting u32 | Slot cache_kind nat nat | Antonym_Slot nat nat | Scratch

record ('v, 'b) all_result =
  ar_inputs :: "source list"
  ar_ids :: "u32 list"
  ar_keys :: "'v query_key list"
  ar_epoch :: nat
  ar_bits :: 'b

record ('v, 'b) all_plan =
  ap_order :: "nat list"
  ap_first_card :: u64
  ap_results :: "('v, 'b) all_result option list"
  ap_next :: nat
  ap_valid :: bool

text \<open>
  \<open>po_local\<close> is absent for an \<open>Index\<close> search. The caches of strict antonym rules, which Go keeps in the
  equality field of their first operand's node, have a map of their own. Plans are keyed by the identity of the \<open>All\<close> node.
  The epoch counts entry rewrites; Go's \<open>uint64\<close> is a natural number here.
\<close>

record ('v, 'b) pool =
  po_local :: "('v, 'b) node_cache list option"
  po_antonyms :: "nat \<rightharpoonup> ('v, 'b) antonym_cache"
  po_plans :: "nat \<rightharpoonup> ('v, 'b) all_plan"
  po_epoch :: nat

definition index_pool :: "('v, 'b) pool" where
  "index_pool = \<lparr>po_local = None, po_antonyms = Map.empty, po_plans = Map.empty, po_epoch = 0\<rparr>"

definition new_local_pool :: "nat \<Rightarrow> ('v, 'b) pool" where
  "new_local_pool nodes = \<lparr>po_local = Some (replicate nodes (\<lambda>_. None)), po_antonyms = Map.empty,
     po_plans = Map.empty, po_epoch = 0\<rparr>"

definition invalidate_results :: "('v, 'b) pool \<Rightarrow> ('v, 'b) pool" where
  "invalidate_results p = p\<lparr>po_epoch := po_epoch p + 1\<rparr>"

definition node_reset :: "('v, 'b) node_cache \<Rightarrow> ('v, 'b) node_cache" where
  "node_reset nc = (\<lambda>kind. map_option vc_reset (nc kind))"

text \<open>\<open>Close\<close> hands the pool back to the index in this state.\<close>

definition reset_local :: "('v, 'b) pool \<Rightarrow> ('v, 'b) pool" where
  "reset_local p = p\<lparr>po_plans := Map.empty, po_epoch := po_epoch p + 1,
     po_local := map_option (map node_reset) (po_local p),
     po_antonyms := (\<lambda>node. map_option ac_reset (po_antonyms p node))\<rparr>"

section \<open>Cached operations of one node\<close>

definition local_search ::
  "'b roaring \<Rightarrow> cache_kind \<Rightarrow> ('v cache_key \<Rightarrow> 'v cache_key \<Rightarrow> bool) \<Rightarrow> nat \<Rightarrow> ('b \<Rightarrow> 'b) \<Rightarrow> 'v cache_key
     \<Rightarrow> ('v, 'b) pool \<Rightarrow> 'b \<Rightarrow> 'b \<times> ('v, 'b) pool" where
  "local_search R kind eq node fill k p dst =
     (case po_local p of
        None \<Rightarrow> (fill dst, p)
      | Some nodes \<Rightarrow>
          (let cache = (case (nodes ! node) kind of Some c \<Rightarrow> c | None \<Rightarrow> new_value_cache)
           in case vc_search R eq fill cache k dst of
                (dst, cache, replaced) \<Rightarrow>
                  (dst, (if replaced then invalidate_results p else p)
                          \<lparr>po_local := Some (nodes[node := (nodes ! node)(kind := Some cache)])\<rparr>)))"

definition local_lookup ::
  "cache_kind \<Rightarrow> ('v cache_key \<Rightarrow> 'v cache_key \<Rightarrow> bool) \<Rightarrow> nat \<Rightarrow> 'v cache_key
     \<Rightarrow> ('v, 'b) pool \<Rightarrow> ('b \<times> source) option \<times> ('v, 'b) pool" where
  "local_lookup kind eq node k p =
     (case po_local p of
        None \<Rightarrow> (None, p)
      | Some nodes \<Rightarrow>
          (case (nodes ! node) kind of
             None \<Rightarrow> (None, p)
           | Some cache \<Rightarrow>
               (case vc_lookup eq cache k of
                  (found, cache) \<Rightarrow>
                    (map_option (\<lambda>(i, bits). (bits, Slot kind node i)) found,
                     p\<lparr>po_local := Some (nodes[node := (nodes ! node)(kind := Some cache)])\<rparr>))))"

definition local_peek ::
  "cache_kind \<Rightarrow> ('v cache_key \<Rightarrow> 'v cache_key \<Rightarrow> bool) \<Rightarrow> nat \<Rightarrow> 'v cache_key \<Rightarrow> ('v, 'b) pool \<Rightarrow> 'b option" where
  "local_peek kind eq node k p =
     (case po_local p of
        None \<Rightarrow> None
      | Some nodes \<Rightarrow> (case (nodes ! node) kind of None \<Rightarrow> None | Some cache \<Rightarrow> vc_peek eq cache k))"

text \<open>A \<open>peek\<close> before the \<open>lookup\<close> keeps a miss from being counted.\<close>

definition local_peek_lookup ::
  "cache_kind \<Rightarrow> ('v cache_key \<Rightarrow> 'v cache_key \<Rightarrow> bool) \<Rightarrow> nat \<Rightarrow> 'v cache_key
     \<Rightarrow> ('v, 'b) pool \<Rightarrow> ('b \<times> source) option \<times> ('v, 'b) pool" where
  "local_peek_lookup kind eq node k p =
     (case local_peek kind eq node k p of None \<Rightarrow> (None, p) | Some _ \<Rightarrow> local_lookup kind eq node k p)"

text \<open>The same two operations of a strict antonym rule.\<close>

definition antonym_search ::
  "'b roaring \<Rightarrow> nat \<Rightarrow> ('b \<Rightarrow> 'b) \<Rightarrow> 'v query_key list \<Rightarrow> ('v, 'b) pool \<Rightarrow> 'b \<Rightarrow> 'b \<times> ('v, 'b) pool" where
  "antonym_search R node fill keys p dst =
     (if po_local p = None then (fill dst, p)
      else let cache = (case po_antonyms p node of Some c \<Rightarrow> c | None \<Rightarrow> new_antonym_cache)
           in case ac_search R fill cache keys dst of
                (dst, cache, replaced) \<Rightarrow>
                  (dst, (if replaced then invalidate_results p else p)\<lparr>po_antonyms := (po_antonyms p)(node \<mapsto> cache)\<rparr>))"

definition antonym_lookup ::
  "nat \<Rightarrow> 'v query_key list \<Rightarrow> ('v, 'b) pool \<Rightarrow> ('b \<times> source) option \<times> ('v, 'b) pool" where
  "antonym_lookup node keys p =
     (if po_local p = None then (None, p)
      else case po_antonyms p node of
             None \<Rightarrow> (None, p)
           | Some cache \<Rightarrow>
               (case ac_peek cache keys of
                  (found, cache) \<Rightarrow>
                    (map_option (\<lambda>(i, bits). (bits, Antonym_Slot node i)) found,
                     p\<lparr>po_antonyms := (po_antonyms p)(node \<mapsto> cache)\<rparr>)))"

section \<open>Invariant\<close>

text \<open>
  A valuation gives the result of an uncached search of every node for every key, and the number of
  children of every \<open>All\<close>. Under \<open>pool_ok\<close> every cache entry holds the result of its key and every
  plan that is marked valid is a permutation of the children.
\<close>

record 'v valuation =
  va_den :: "cache_kind \<Rightarrow> nat \<Rightarrow> 'v cache_key \<Rightarrow> u32 set"
  va_antonym :: "nat \<Rightarrow> 'v query_key list \<Rightarrow> u32 set"
  va_width :: "nat \<Rightarrow> nat"
  va_nodes :: nat

definition node_ok :: "'b roaring \<Rightarrow> 'v valuation \<Rightarrow> nat \<Rightarrow> ('v, 'b) node_cache \<Rightarrow> bool" where
  "node_ok R G node nc \<longleftrightarrow> (\<forall>kind c. nc kind = Some c \<longrightarrow> vc_ok R (va_den G kind node) c)"

definition plan_ok :: "nat \<Rightarrow> ('v, 'b) all_plan \<Rightarrow> bool" where
  "plan_ok width plan \<longleftrightarrow> length (ap_order plan) = width \<and> length (ap_results plan) = 4 \<and> ap_next plan < 4
     \<and> (ap_valid plan \<longrightarrow> distinct (ap_order plan) \<and> set (ap_order plan) = {..<width})"

definition pool_ok :: "'b roaring \<Rightarrow> 'v valuation \<Rightarrow> ('v, 'b) pool \<Rightarrow> bool" where
  "pool_ok R G p \<longleftrightarrow>
     (case po_local p of None \<Rightarrow> True
      | Some nodes \<Rightarrow> length nodes = va_nodes G \<and> (\<forall>n<length nodes. node_ok R G n (nodes ! n)))
     \<and> (\<forall>node c. po_antonyms p node = Some c \<longrightarrow> ac_ok R (va_antonym G node) c)
     \<and> (\<forall>self plan. po_plans p self = Some plan \<longrightarrow> plan_ok (va_width G self) plan)"

text \<open>
  What a bitmap object holds at this moment, and the frame of an operation on a child: the results
  that plans retain stay as they are, and unless the epoch advances every object keeps its content.
\<close>

definition slot_content :: "('v, 'b) pool \<Rightarrow> cache_kind \<Rightarrow> nat \<Rightarrow> nat \<Rightarrow> 'b option" where
  "slot_content p kind node i =
     (case po_local p of
        None \<Rightarrow> None
      | Some nodes \<Rightarrow>
          if node < length nodes
          then (case (nodes ! node) kind of Some c \<Rightarrow> vc_content c i | None \<Rightarrow> None) else None)"

fun source_content :: "('v, 'b) pool \<Rightarrow> source \<Rightarrow> 'b option" where
  "source_content p (Slot kind node i) = slot_content p kind node i"
| "source_content p (Antonym_Slot node i) =
     (case po_antonyms p node of Some c \<Rightarrow> ac_content c i | None \<Rightarrow> None)"
| "source_content p _ = None"

definition plan_results :: "('v, 'b) pool \<Rightarrow> nat \<Rightarrow> ('v, 'b) all_result set" where
  "plan_results p self = (case po_plans p self of None \<Rightarrow> {} | Some plan \<Rightarrow> {r. Some r \<in> set (ap_results plan)})"

definition pool_step :: "('v, 'b) pool \<Rightarrow> ('v, 'b) pool \<Rightarrow> bool" where
  "pool_step p p' \<longleftrightarrow> (po_local p = None \<longleftrightarrow> po_local p' = None)
     \<and> (\<forall>self. plan_results p' self = plan_results p self)
     \<and> (po_epoch p < po_epoch p' \<or> po_epoch p = po_epoch p'
         \<and> (\<forall>s b. source_content p s = Some b \<longrightarrow> source_content p' s = Some b))"

lemma pool_step_refl [simp, intro]: "pool_step p p"
  by (simp add: pool_step_def)

lemma pool_step_trans [trans]: "pool_step p q \<Longrightarrow> pool_step q r \<Longrightarrow> pool_step p r"
  unfolding pool_step_def by (auto dest: less_trans)

lemma pool_ok_index [simp]: "pool_ok R G index_pool"
  by (simp add: pool_ok_def index_pool_def)

lemma pool_ok_new_local: "pool_ok R G (new_local_pool (va_nodes G))"
  by (simp add: pool_ok_def new_local_pool_def node_ok_def)

lemma pool_ok_reset: "pool_ok R G p \<Longrightarrow> pool_ok R G (reset_local p)"
  by (auto simp: pool_ok_def reset_local_def node_ok_def node_reset_def vc_reset_def ac_reset_def split: option.splits)

lemma pool_ok_cache:
  "pool_ok R G p \<Longrightarrow> po_local p = Some nodes \<Longrightarrow> node < va_nodes G \<Longrightarrow> (nodes ! node) kind = Some c \<Longrightarrow>
   vc_ok R (va_den G kind node) c"
  by (auto simp: pool_ok_def node_ok_def)

lemma pool_ok_update:
  assumes "pool_ok R G p" "po_local p = Some nodes" "node < va_nodes G" "vc_ok R (va_den G kind node) c"
  shows "pool_ok R G (p\<lparr>po_local := Some (nodes[node := (nodes ! node)(kind := Some c)])\<rparr>)"
  using assms by (auto simp: pool_ok_def node_ok_def nth_list_update)

lemma pool_step_update:
  assumes "po_local p = Some nodes" "node < length nodes"
    and "\<And>c0. (nodes ! node) kind = Some c0 \<Longrightarrow> vc_entry c = vc_entry c0"
  shows "pool_step p (p\<lparr>po_local := Some (nodes[node := (nodes ! node)(kind := Some c)])\<rparr>)"
proof -
  let ?q = "p\<lparr>po_local := Some (nodes[node := (nodes ! node)(kind := Some c)])\<rparr>"
  have "source_content ?q s = Some b" if "source_content p s = Some b" for s b
    using that assms by (cases s) (auto simp: slot_content_def vc_content_def nth_list_update split: option.splits if_splits)
  with assms(1) show ?thesis by (simp add: pool_step_def plan_results_def)
qed

text \<open>The same for the cache of an antonym rule.\<close>

lemma pool_step_antonym:
  assumes "\<And>c0. po_antonyms p node = Some c0 \<Longrightarrow> ac_entries c = ac_entries c0"
  shows "pool_step p (p\<lparr>po_antonyms := (po_antonyms p)(node \<mapsto> c)\<rparr>)"
proof -
  have "source_content (p\<lparr>po_antonyms := (po_antonyms p)(node \<mapsto> c)\<rparr>) s = Some b" if "source_content p s = Some b" for s b
    using that assms by (cases s) (auto simp: slot_content_def ac_content_def split: option.splits if_splits)
  then show ?thesis by (simp add: pool_step_def plan_results_def)
qed

lemma pool_ok_invalidate [simp]: "pool_ok R G (invalidate_results p) = pool_ok R G p"
  by (simp add: pool_ok_def invalidate_results_def)

lemma local_lookup_spec:
  assumes "pool_ok R G p" "node < va_nodes G"
    and eq: "\<And>a b. eq a b \<Longrightarrow> va_den G kind node a = va_den G kind node b"
    and run: "local_lookup kind eq node k p = (r, p')"
  shows "pool_ok R G p'" "pool_step p p'"
    "\<And>b s. r = Some (b, s) \<Longrightarrow> bm_ids R b = va_den G kind node k
       \<and> source_content p' s = Some b"
proof -
  have "pool_ok R G p' \<and> pool_step p p' \<and> (\<forall>b s. r = Some (b, s) \<longrightarrow> bm_ids R b = va_den G kind node k
       \<and> source_content p' s = Some b)"
  proof (cases "po_local p")
    case None
    with run assms show ?thesis by (auto simp: local_lookup_def)
  next
    case (Some nodes)
    then have len: "length nodes = va_nodes G" using assms(1) by (simp add: pool_ok_def)
    show ?thesis
    proof (cases "(nodes ! node) kind")
      case None
      with run Some assms show ?thesis by (auto simp: local_lookup_def)
    next
      case cache: (Some c)
      obtain f c' where l: "vc_lookup eq c k = (f, c')" by (cases "vc_lookup eq c k")
      have ok: "vc_ok R (va_den G kind node) c" by (rule pool_ok_cache [OF assms(1) Some assms(2) cache])
      note look = vc_lookup_spec [OF ok l]
      have p': "p' = p\<lparr>po_local := Some (nodes[node := (nodes ! node)(kind := Some c')])\<rparr>"
        and r: "r = map_option (\<lambda>(i, bits). (bits, Slot kind node i)) f"
        using run Some cache l by (auto simp: local_lookup_def)
      have "pool_ok R G p'"
        unfolding p' by (rule pool_ok_update [OF assms(1) Some assms(2) look(1)])
      moreover have "pool_step p p'"
        unfolding p' by (rule pool_step_update [OF Some]) (use len assms(2) cache look(2) in auto)
      moreover have "bm_ids R b = va_den G kind node k \<and> source_content p' s = Some b"
        if "r = Some (b, s)" for b s
      proof -
        from that r obtain i where "f = Some (i, b)" "s = Slot kind node i" by auto
        with look(2,3) eq show ?thesis
          using len assms(2) by (fastforce simp: p' slot_content_def vc_content_def)
      qed
      ultimately show ?thesis by blast
    qed
  qed
  then show "pool_ok R G p'" "pool_step p p'"
    "\<And>b s. r = Some (b, s) \<Longrightarrow> bm_ids R b = va_den G kind node k
       \<and> source_content p' s = Some b" by auto
qed

lemma local_peek_spec:
  assumes "pool_ok R G p" "node < va_nodes G"
    and "\<And>a b. eq a b \<Longrightarrow> va_den G kind node a = va_den G kind node b"
    and "local_peek kind eq node k p = Some b"
  shows "bm_ids R b = va_den G kind node k"
proof -
  obtain nodes c where c: "po_local p = Some nodes" "(nodes ! node) kind = Some c" "vc_peek eq c k = Some b"
    using assms(4) by (auto simp: local_peek_def split: option.splits)
  obtain k' where "eq k' k" "bm_ids R b = va_den G kind node k'"
    using vc_peek_spec [OF pool_ok_cache [OF assms(1) c(1) assms(2) c(2)] c(3)] by blast
  with assms(3) [of k' k] show ?thesis by simp
qed

lemma local_peek_lookup_spec:
  assumes "pool_ok R G p" "node < va_nodes G"
    and "\<And>a b. eq a b \<Longrightarrow> va_den G kind node a = va_den G kind node b"
    and "local_peek_lookup kind eq node k p = (r, p')"
  shows "pool_ok R G p'" "pool_step p p'" "po_local p = None \<Longrightarrow> r = None"
    "\<And>b s. r = Some (b, s) \<Longrightarrow> bm_ids R b = va_den G kind node k
       \<and> source_content p' s = Some b"
proof -
  have "pool_ok R G p' \<and> pool_step p p' \<and> (po_local p = None \<longrightarrow> r = None) \<and> (\<forall>b s. r = Some (b, s) \<longrightarrow>
      bm_ids R b = va_den G kind node k \<and> source_content p' s = Some b)"
  proof (cases "local_peek kind eq node k p")
    case None
    with assms(1,4) show ?thesis by (simp add: local_peek_lookup_def)
  next
    case (Some b)
    then have "local_lookup kind eq node k p = (r, p')" "po_local p \<noteq> None"
      using assms(4) by (auto simp: local_peek_lookup_def local_peek_def split: option.splits)
    with local_lookup_spec [OF assms(1,2), of eq kind k r p'] assms(3) show ?thesis by blast
  qed
  then show "pool_ok R G p'" "pool_step p p'" "po_local p = None \<Longrightarrow> r = None"
    "\<And>b s. r = Some (b, s) \<Longrightarrow> bm_ids R b = va_den G kind node k
       \<and> source_content p' s = Some b" by auto
qed

lemma antonym_lookup_spec:
  assumes p: "pool_ok R G p" and run: "antonym_lookup node keys p = (r, p')"
  shows "pool_ok R G p'" "pool_step p p'" "po_local p = None \<Longrightarrow> r = None"
    "\<And>b s. r = Some (b, s) \<Longrightarrow> bm_ids R b = va_antonym G node keys \<and> source_content p' s = Some b"
proof -
  have "pool_ok R G p' \<and> pool_step p p' \<and> (po_local p = None \<longrightarrow> r = None)
      \<and> (\<forall>b s. r = Some (b, s) \<longrightarrow> bm_ids R b = va_antonym G node keys \<and> source_content p' s = Some b)"
  proof (cases "po_local p = None \<or> po_antonyms p node = None")
    case True
    with p run show ?thesis by (auto simp: antonym_lookup_def split: option.splits)
  next
    case False
    then obtain c where c: "po_antonyms p node = Some c" by auto
    obtain f c' where peek: "ac_peek c keys = (f, c')" by fastforce
    have p': "p' = p\<lparr>po_antonyms := (po_antonyms p)(node \<mapsto> c')\<rparr>"
      and r: "r = map_option (\<lambda>(i, bits). (bits, Antonym_Slot node i)) f"
      using run False c peek by (auto simp: antonym_lookup_def split: option.splits)
    have ok: "ac_ok R (va_antonym G node) c" using p c by (simp add: pool_ok_def)
    note spec = ac_peek_spec [OF ok peek]
    have "pool_step p p'" unfolding p' by (rule pool_step_antonym) (use c spec(2) in simp)
    moreover have "pool_ok R G p'" using p spec(1) by (auto simp: p' pool_ok_def)
    moreover have "bm_ids R b = va_antonym G node keys \<and> source_content p' s = Some b" if "r = Some (b, s)" for b s
      using that spec(2,3) by (auto simp: r p' ac_content_def split: if_splits)
    ultimately show ?thesis using False by auto
  qed
  then show "pool_ok R G p'" "pool_step p p'" "po_local p = None \<Longrightarrow> r = None"
    "\<And>b s. r = Some (b, s) \<Longrightarrow> bm_ids R b = va_antonym G node keys \<and> source_content p' s = Some b" by auto
qed

context roaring
begin

lemma local_search_spec:
  assumes "pool_ok R G p" "node < va_nodes G"
    and eq: "\<And>a b. eq a b \<Longrightarrow> va_den G kind node a = va_den G kind node b"
    and fill: "\<And>d. bm_ids R (fill d) = bm_ids R d \<union> va_den G kind node k"
    and run: "local_search R kind eq node fill k p dst = (dst', p')"
  shows "bm_ids R dst' = bm_ids R dst \<union> va_den G kind node k" "pool_ok R G p'" "pool_step p p'"
proof -
  have "bm_ids R dst' = bm_ids R dst \<union> va_den G kind node k \<and> pool_ok R G p' \<and> pool_step p p'"
  proof (cases "po_local p")
    case None
    with run assms show ?thesis by (auto simp: local_search_def)
  next
    case (Some nodes)
    then have len: "length nodes = va_nodes G" using assms(1) by (simp add: pool_ok_def)
    let ?c = "case (nodes ! node) kind of Some c \<Rightarrow> c | None \<Rightarrow> new_value_cache"
    obtain c' replaced where s: "vc_search R eq fill ?c k dst = (dst', c', replaced)"
      and p': "p' = (if replaced then invalidate_results p else p)
                 \<lparr>po_local := Some (nodes[node := (nodes ! node)(kind := Some c')])\<rparr>"
      using run Some by (auto simp: local_search_def Let_def split: prod.splits)
    have ok: "vc_ok R (va_den G kind node) ?c"
      using pool_ok_cache [OF assms(1) Some assms(2)] by (auto split: option.split)
    note spec = vc_search_spec [OF ok eq fill s]
    have "pool_ok R G (p\<lparr>po_local := Some (nodes[node := (nodes ! node)(kind := Some c')])\<rparr>)"
      by (rule pool_ok_update [OF assms(1) Some assms(2)]) (rule spec(2))
    then have "pool_ok R G p'"
      unfolding p' by (auto simp: invalidate_results_def pool_ok_def)
    moreover have "pool_step p p'"
    proof (cases replaced)
      case True
      with Some show ?thesis
        by (auto simp: p' pool_step_def invalidate_results_def plan_results_def)
    next
      case False
      then have "pool_step p (p\<lparr>po_local := Some (nodes[node := (nodes ! node)(kind := Some c')])\<rparr>)"
        by (intro pool_step_update [OF Some]) (use len assms(2) spec(3) in auto)
      with False show ?thesis by (simp add: p')
    qed
    ultimately show ?thesis using spec(1) by blast
  qed
  then show "bm_ids R dst' = bm_ids R dst \<union> va_den G kind node k" "pool_ok R G p'" "pool_step p p'"
    by auto
qed

lemma antonym_search_spec:
  assumes p: "pool_ok R G p"
    and fill: "\<And>d. bm_ids R (fill d) = bm_ids R d \<union> va_antonym G node keys"
    and run: "antonym_search R node fill keys p dst = (dst', p')"
  shows "bm_ids R dst' = bm_ids R dst \<union> va_antonym G node keys" "pool_ok R G p'" "pool_step p p'"
proof -
  have "bm_ids R dst' = bm_ids R dst \<union> va_antonym G node keys \<and> pool_ok R G p' \<and> pool_step p p'"
  proof (cases "po_local p = None")
    case True
    with run p fill show ?thesis by (auto simp: antonym_search_def)
  next
    case False
    let ?c = "case po_antonyms p node of Some c \<Rightarrow> c | None \<Rightarrow> new_antonym_cache"
    obtain c replaced where s: "ac_search R fill ?c keys dst = (dst', c, replaced)"
      and p': "p' = (if replaced then invalidate_results p else p)\<lparr>po_antonyms := (po_antonyms p)(node \<mapsto> c)\<rparr>"
      using run False by (auto simp: antonym_search_def Let_def split: prod.splits)
    have ok: "ac_ok R (va_antonym G node) ?c" using p by (auto simp: pool_ok_def split: option.split)
    note spec = ac_search_spec [OF ok fill s]
    have "pool_ok R G p'" using p spec(2) by (auto simp: p' pool_ok_def invalidate_results_def)
    moreover have "pool_step p p'"
    proof (cases replaced)
      case True
      with False show ?thesis by (auto simp: p' pool_step_def invalidate_results_def plan_results_def)
    next
      case no: False
      have "pool_step p (p\<lparr>po_antonyms := (po_antonyms p)(node \<mapsto> c)\<rparr>)"
        by (rule pool_step_antonym) (use spec(3) [OF no] in simp)
      with no show ?thesis by (simp add: p')
    qed
    ultimately show ?thesis using spec(1) by blast
  qed
  then show "bm_ids R dst' = bm_ids R dst \<union> va_antonym G node keys" "pool_ok R G p'" "pool_step p p'" by auto
qed

end

end
