(* ===== verification/Rule_Contract.thy ===== *)
theory Rule_Contract
  imports Local_Pool
begin

text \<open>
  The interfaces between a filter and the \<open>All\<close> that executes it (\<^verbatim>\<open>rule.go\<close>,
  \<^verbatim>\<open>execution_capabilities.go\<close>): the optional operations a rule can offer are the fields of a
  record, an absent field being a Go interface the rule does not implement, and two locales state
  what the operations promise, one for building and one for searching.
\<close>

text \<open>A candidate set of at most this many IDs is scanned instead of being narrowed bitmap by bitmap.\<close>

definition allCandidateScanLimit :: u64 where
  "allCandidateScanLimit = 8"

section \<open>The operations of a child\<close>

text \<open>\<open>sharedWildcardEquality\<close>; \<open>sw_source\<close> identifies the interned wildcard object.\<close>

record ('t, 'b) shared_wildcard =
  sw_wildcard :: 'b
  sw_source :: u32
  sw_universe :: u64
  sw_card :: "'t \<Rightarrow> u64"
  sw_matches :: "'t \<Rightarrow> u32 \<Rightarrow> bool"
  sw_add :: "'t \<Rightarrow> 'b \<Rightarrow> 'b"
  sw_intersect :: "'t \<Rightarrow> 'b \<Rightarrow> 'b"

text \<open>\<open>localQueryKeyProvider\<close>\<close>

record ('t, 'v) key_provider =
  kp_key :: "'t \<Rightarrow> 'v query_key"
  kp_matches :: "'t \<Rightarrow> 'v query_key \<Rightarrow> bool"

text \<open>
  \<open>co_keys\<close> has the providers of all operands of a rule that groups several (\<open>localQueryKeyProviderGroup\<close>),
  and the one provider, possibly nil, of every other rule.
\<close>

record ('t, 'v, 'b) child_ops =
  co_search :: "'t \<Rightarrow> ('v, 'b) pool \<Rightarrow> 'b \<Rightarrow> 'b \<times> ('v, 'b) pool"
  co_planning :: "('t \<Rightarrow> ('b \<times> source) option) option"
  co_cached :: "('t \<Rightarrow> ('v, 'b) pool \<Rightarrow> ('b \<times> source) option \<times> ('v, 'b) pool) option"
  co_direct :: "('t \<Rightarrow> u32 \<Rightarrow> bool) option"
  co_work :: "u64 option"
  co_filter :: "('t \<Rightarrow> 'b \<Rightarrow> 'b) option"
  co_keys :: "('t, 'v) key_provider option list"
  co_estimate :: "('t \<Rightarrow> u64) option"
  co_cached_estimate :: "('t \<Rightarrow> ('v, 'b) pool \<Rightarrow> u64 option \<times> ('v, 'b) pool) option"
  co_cheap :: "('t \<Rightarrow> u64) option"
  co_cheap_zero :: "('t \<Rightarrow> bool) option"
  co_zero :: "('t \<Rightarrow> bool) option"
  co_shared :: "('t, 'b) shared_wildcard option"
  co_class :: "('t \<Rightarrow> u32) option"

section \<open>What they promise\<close>

text \<open>The concrete part of an equality match, without the wildcard.\<close>

definition sw_concrete :: "'b roaring \<Rightarrow> ('t, 'b) shared_wildcard \<Rightarrow> 't \<Rightarrow> u32 set" where
  "sw_concrete R sw v = bm_ids R (sw_add sw v (bm_new R))"

definition shared_ok :: "'b roaring \<Rightarrow> ('t, 'b) shared_wildcard \<Rightarrow> ('t \<Rightarrow> u32 set) \<Rightarrow> bool" where
  "shared_ok R sw den \<longleftrightarrow>
     (\<forall>v. den v = bm_ids R (sw_wildcard sw) \<union> sw_concrete R sw v)
     \<and> (\<forall>v d. bm_ids R (sw_add sw v d) = bm_ids R d \<union> sw_concrete R sw v)
     \<and> (\<forall>v d. bm_ids R (sw_intersect sw v d) = bm_ids R d \<inter> sw_concrete R sw v)
     \<and> (\<forall>v i. sw_matches sw v i \<longleftrightarrow> i \<in> sw_concrete R sw v)"

definition search_ok :: "'b roaring \<Rightarrow> 'v valuation \<Rightarrow> ('t, 'v, 'b) child_ops \<Rightarrow> ('t \<Rightarrow> u32 set) \<Rightarrow> bool" where
  "search_ok R G ops den \<longleftrightarrow> (\<forall>v p dst dst' p'. pool_ok R G p \<longrightarrow> bm_ids R dst = {} \<longrightarrow> co_search ops v p dst = (dst', p') \<longrightarrow>
     bm_ids R dst' = den v \<and> pool_ok R G p' \<and> pool_step p p')"

definition cached_ok :: "'b roaring \<Rightarrow> 'v valuation \<Rightarrow> ('t, 'v, 'b) child_ops \<Rightarrow> ('t \<Rightarrow> u32 set) \<Rightarrow> bool" where
  "cached_ok R G ops den \<longleftrightarrow> (\<forall>f v p r p'. co_cached ops = Some f \<longrightarrow> pool_ok R G p \<longrightarrow> f v p = (r, p') \<longrightarrow>
     pool_ok R G p' \<and> pool_step p p' \<and> (po_local p = None \<longrightarrow> r = None)
     \<and> (\<forall>b s. r = Some (b, s) \<longrightarrow> bm_ids R b = den v
          \<and> source_content p' s = Some b))"

definition static_ok :: "'b roaring \<Rightarrow> ('t, 'v, 'b) child_ops \<Rightarrow> ('t \<Rightarrow> u32 set) \<Rightarrow> bool" where
  "static_ok R ops den \<longleftrightarrow>
     (\<forall>f v b s. co_planning ops = Some f \<longrightarrow> f v = Some (b, s) \<longrightarrow> bm_ids R b = den v \<and> (\<exists>n. s = Posting n))
     \<and> (\<forall>f v i. co_direct ops = Some f \<longrightarrow> (f v i \<longleftrightarrow> i \<in> den v))
     \<and> (\<forall>f v d. co_filter ops = Some f \<longrightarrow> bm_ids R (f v d) = bm_ids R d \<inter> den v)
     \<and> (\<forall>v w. (\<forall>k\<in>set (co_keys ops). \<exists>kp. k = Some kp \<and> kp_matches kp v (kp_key kp w)) \<longrightarrow> den v = den w)
     \<and> (\<forall>sw. co_shared ops = Some sw \<longrightarrow> shared_ok R sw den)
     \<and> (co_direct ops = None \<longrightarrow> (\<forall>v. den v = {}))
     \<and> (\<forall>sw f v. co_shared ops = Some sw \<longrightarrow> bm_ids R (sw_wildcard sw) \<noteq> {} \<longrightarrow> co_planning ops = Some f \<longrightarrow> f v = None)
     \<and> (co_shared ops \<noteq> None \<longrightarrow> co_filter ops = None)"

text \<open>
  A rule without a direct test matches nothing (only an \<open>Exclude\<close> without stored values is such a
  rule). A rule that shares a wildcard filters no candidates, and it has no planning posting unless
  the wildcard is empty.

  An estimate only steers the plan, except that zero must mean that nothing matches.
\<close>

definition estimates_ok :: "'b roaring \<Rightarrow> 'v valuation \<Rightarrow> ('t, 'v, 'b) child_ops \<Rightarrow> ('t \<Rightarrow> u32 set) \<Rightarrow> bool" where
  "estimates_ok R G ops den \<longleftrightarrow>
     (\<forall>f v. co_estimate ops = Some f \<longrightarrow> f v = 0 \<longrightarrow> den v = {})
     \<and> (\<forall>f v. co_cheap ops = Some f \<longrightarrow> f v = 0 \<longrightarrow> den v = {})
     \<and> (\<forall>f v. co_cheap_zero ops = Some f \<longrightarrow> f v \<longrightarrow> den v = {})
     \<and> (\<forall>f v. co_zero ops = Some f \<longrightarrow> f v \<longrightarrow> den v = {})
     \<and> (\<forall>f v p r p'. co_cached_estimate ops = Some f \<longrightarrow> pool_ok R G p \<longrightarrow> f v p = (r, p') \<longrightarrow>
          pool_ok R G p' \<and> pool_step p p' \<and> (r = Some 0 \<longrightarrow> den v = {}))"

definition ops_ok :: "'b roaring \<Rightarrow> 'v valuation \<Rightarrow> ('t, 'v, 'b) child_ops \<Rightarrow> ('t \<Rightarrow> u32 set) \<Rightarrow> bool" where
  "ops_ok R G ops den \<longleftrightarrow> search_ok R G ops den \<and> cached_ok R G ops den \<and> static_ok R ops den \<and> estimates_ok R G ops den"

lemma ops_okD:
  assumes "ops_ok R G ops den"
  shows "search_ok R G ops den" "cached_ok R G ops den" "static_ok R ops den" "estimates_ok R G ops den"
  using assms by (simp_all add: ops_ok_def)

lemma search_okD:
  assumes "search_ok R G ops den" "pool_ok R G p" "bm_ids R dst = {}" "co_search ops v p dst = (dst', p')"
  shows "bm_ids R dst' = den v" "pool_ok R G p'" "pool_step p p'"
  using assms(1) [unfolded search_ok_def, rule_format, OF assms(2-4)] by auto

lemma cached_okD:
  assumes "cached_ok R G ops den" "co_cached ops = Some f" "pool_ok R G p" "f v p = (r, p')"
  shows "pool_ok R G p'" "pool_step p p'" "po_local p = None \<Longrightarrow> r = None"
    "\<And>b s. r = Some (b, s) \<Longrightarrow> bm_ids R b = den v"
    "\<And>b s. r = Some (b, s) \<Longrightarrow> source_content p' s = Some b"
  using assms(1) [unfolded cached_ok_def, rule_format, OF assms(2-4)] by auto

lemma static_okD:
  assumes "static_ok R ops den"
  shows "\<And>f v b s. co_planning ops = Some f \<Longrightarrow> f v = Some (b, s) \<Longrightarrow> bm_ids R b = den v"
    "\<And>f v b s. co_planning ops = Some f \<Longrightarrow> f v = Some (b, s) \<Longrightarrow> \<exists>n. s = Posting n"
    "\<And>f v i. co_direct ops = Some f \<Longrightarrow> f v i \<longleftrightarrow> i \<in> den v"
    "\<And>f v d. co_filter ops = Some f \<Longrightarrow> bm_ids R (f v d) = bm_ids R d \<inter> den v"
    "\<And>v w. \<forall>k\<in>set (co_keys ops). \<exists>kp. k = Some kp \<and> kp_matches kp v (kp_key kp w) \<Longrightarrow> den v = den w"
    "\<And>sw. co_shared ops = Some sw \<Longrightarrow> shared_ok R sw den"
    "\<And>v. co_direct ops = None \<Longrightarrow> den v = {}"
    "\<And>sw f v. co_shared ops = Some sw \<Longrightarrow> bm_ids R (sw_wildcard sw) \<noteq> {} \<Longrightarrow> co_planning ops = Some f \<Longrightarrow> f v = None"
    "co_shared ops \<noteq> None \<Longrightarrow> co_filter ops = None"
proof -
  note ok = assms [unfolded static_ok_def]
  show "\<And>f v b s. co_planning ops = Some f \<Longrightarrow> f v = Some (b, s) \<Longrightarrow> bm_ids R b = den v"
    and "\<And>f v b s. co_planning ops = Some f \<Longrightarrow> f v = Some (b, s) \<Longrightarrow> \<exists>n. s = Posting n"
    using ok [THEN conjunct1] by blast+
  show "\<And>f v i. co_direct ops = Some f \<Longrightarrow> f v i \<longleftrightarrow> i \<in> den v"
    using ok [THEN conjunct2, THEN conjunct1] by blast
  show "\<And>f v d. co_filter ops = Some f \<Longrightarrow> bm_ids R (f v d) = bm_ids R d \<inter> den v"
    using ok [THEN conjunct2, THEN conjunct2, THEN conjunct1] by blast
  show "\<And>v w. \<forall>k\<in>set (co_keys ops). \<exists>kp. k = Some kp \<and> kp_matches kp v (kp_key kp w) \<Longrightarrow> den v = den w"
    using ok [THEN conjunct2, THEN conjunct2, THEN conjunct2, THEN conjunct1] by blast
  show "\<And>sw. co_shared ops = Some sw \<Longrightarrow> shared_ok R sw den"
    using ok [THEN conjunct2, THEN conjunct2, THEN conjunct2, THEN conjunct2, THEN conjunct1] by blast
  show "\<And>v. co_direct ops = None \<Longrightarrow> den v = {}"
    using ok [THEN conjunct2, THEN conjunct2, THEN conjunct2, THEN conjunct2, THEN conjunct2, THEN conjunct1] by blast
  show "\<And>sw f v. co_shared ops = Some sw \<Longrightarrow> bm_ids R (sw_wildcard sw) \<noteq> {} \<Longrightarrow> co_planning ops = Some f \<Longrightarrow> f v = None"
    using ok [THEN conjunct2, THEN conjunct2, THEN conjunct2, THEN conjunct2, THEN conjunct2, THEN conjunct2, THEN conjunct1] by blast
  show "co_shared ops \<noteq> None \<Longrightarrow> co_filter ops = None"
    using ok [THEN conjunct2, THEN conjunct2, THEN conjunct2, THEN conjunct2, THEN conjunct2, THEN conjunct2, THEN conjunct2] by blast
qed

lemma estimates_okD:
  assumes "estimates_ok R G ops den"
  shows "\<And>f v. co_estimate ops = Some f \<Longrightarrow> f v = 0 \<Longrightarrow> den v = {}"
    "\<And>f v. co_cheap ops = Some f \<Longrightarrow> f v = 0 \<Longrightarrow> den v = {}"
    "\<And>f v. co_cheap_zero ops = Some f \<Longrightarrow> f v \<Longrightarrow> den v = {}"
    "\<And>f v. co_zero ops = Some f \<Longrightarrow> f v \<Longrightarrow> den v = {}"
proof -
  note ok = assms [unfolded estimates_ok_def]
  show "\<And>f v. co_estimate ops = Some f \<Longrightarrow> f v = 0 \<Longrightarrow> den v = {}"
    using ok [THEN conjunct1] by blast
  show "\<And>f v. co_cheap ops = Some f \<Longrightarrow> f v = 0 \<Longrightarrow> den v = {}"
    using ok [THEN conjunct2, THEN conjunct1] by blast
  show "\<And>f v. co_cheap_zero ops = Some f \<Longrightarrow> f v \<Longrightarrow> den v = {}"
    using ok [THEN conjunct2, THEN conjunct2, THEN conjunct1] by blast
  show "\<And>f v. co_zero ops = Some f \<Longrightarrow> f v \<Longrightarrow> den v = {}"
    using ok [THEN conjunct2, THEN conjunct2, THEN conjunct2, THEN conjunct1] by blast
qed

lemma cached_estimateD:
  assumes "estimates_ok R G ops den" "co_cached_estimate ops = Some f" "pool_ok R G p" "f v p = (r, p')"
  shows "pool_ok R G p'" "pool_step p p'" "r = Some 0 \<Longrightarrow> den v = {}"
  using assms(1) [unfolded estimates_ok_def, THEN conjunct2, THEN conjunct2, THEN conjunct2, THEN conjunct2,
      rule_format, OF assms(2-4)] by auto

text \<open>The operations that go through a node's cache.\<close>

lemma cached_ok_local:
  assumes "node < va_nodes G" "\<And>a b. eq a b \<Longrightarrow> va_den G kind node a = va_den G kind node b"
    and "\<And>v. va_den G kind node (k v) = den v"
    and "co_cached ops = Some (\<lambda>v p. local_peek_lookup kind eq node (k v) p)"
  shows "cached_ok R G ops den"
  unfolding cached_ok_def
proof (intro allI impI)
  fix f v p r p'
  assume "co_cached ops = Some f" "pool_ok R G p" "f v p = (r, p')"
  then have run: "local_peek_lookup kind eq node (k v) p = (r, p')" using assms(4) by auto
  note spec = local_peek_lookup_spec [OF \<open>pool_ok R G p\<close> assms(1,2) run]
  have "\<forall>b s. r = Some (b, s) \<longrightarrow> bm_ids R b = den v
      \<and> source_content p' s = Some b"
    using spec(4) unfolding assms(3) by blast
  with spec(1-3) show "pool_ok R G p' \<and> pool_step p p' \<and> (po_local p = None \<longrightarrow> r = None)
      \<and> (\<forall>b s. r = Some (b, s) \<longrightarrow> bm_ids R b = den v
         \<and> source_content p' s = Some b)" by blast
qed

context roaring
begin

lemma search_ok_local:
  assumes "node < va_nodes G" "\<And>a b. eq a b \<Longrightarrow> va_den G kind node a = va_den G kind node b"
    and "\<And>v. va_den G kind node (k v) = den v"
    and "\<And>v d. bm_ids R (fill v d) = bm_ids R d \<union> den v"
    and "co_search ops = (\<lambda>v p dst. local_search R kind eq node (fill v) (k v) p dst)"
  shows "search_ok R G ops den"
  unfolding search_ok_def
proof (intro allI impI)
  fix v p dst dst' p'
  assume "pool_ok R G p" "bm_ids R dst = {}" "co_search ops v p dst = (dst', p')"
  then have run: "local_search R kind eq node (fill v) (k v) p dst = (dst', p')" using assms(5) by simp
  have fill: "bm_ids R (fill v d) = bm_ids R d \<union> va_den G kind node (k v)" for d
    using assms(3,4) by simp
  from local_search_spec [OF \<open>pool_ok R G p\<close> assms(1,2) fill run] \<open>bm_ids R dst = {}\<close> assms(3)
  show "bm_ids R dst' = den v \<and> pool_ok R G p' \<and> pool_step p p'" by simp
qed

end

section \<open>The two interfaces\<close>

text \<open>
  Building: a rule takes in one constraint at a time; the set of IDs it returns for a query grows by
  the ID exactly when the constraint matches the query, and preparing it for searches changes no
  result.
\<close>

locale buildable =
  fixes building :: "'b roaring \<Rightarrow> 'r \<Rightarrow> bool"
    and published :: "'b roaring \<Rightarrow> 'r \<Rightarrow> bool"
    and ins :: "'b roaring \<Rightarrow> 'r \<Rightarrow> 't \<Rightarrow> u32 \<Rightarrow> 'r"
    and prepare :: "'b roaring \<Rightarrow> 'r \<Rightarrow> 'r"
    and accepts :: "'r \<Rightarrow> 't \<Rightarrow> bool"
    and matches :: "'r \<Rightarrow> 't \<Rightarrow> 't \<Rightarrow> bool"
    and den :: "'b roaring \<Rightarrow> 'r \<Rightarrow> 't \<Rightarrow> u32 set"
  assumes building_ins: "roaring R \<Longrightarrow> building R r \<Longrightarrow> accepts r t \<Longrightarrow> building R (ins R r t i)"
    and same_schema: "accepts (ins R r t i) = accepts r" "matches (ins R r t i) = matches r"
    and den_ins: "roaring R \<Longrightarrow> building R r \<Longrightarrow> accepts r t \<Longrightarrow>
      den R (ins R r t i) q = (if matches r t q then insert i (den R r q) else den R r q)"
    and published_prepare: "roaring R \<Longrightarrow> building R r \<Longrightarrow> published R (prepare R r)"
    and den_prepare: "roaring R \<Longrightarrow> building R r \<Longrightarrow> den R (prepare R r) q = den R r q"
begin

abbreviation insert_all :: "'b roaring \<Rightarrow> 'r \<Rightarrow> ('t \<times> u32) list \<Rightarrow> 'r" where
  "insert_all R r es \<equiv> foldl (\<lambda>r (t, i). ins R r t i) r es"

lemma schema_fold: "accepts (insert_all R r es) = accepts r" "matches (insert_all R r es) = matches r"
  by (induction es arbitrary: r) (auto simp: same_schema)

lemma building_fold:
  assumes "roaring R"
  shows "building R r \<Longrightarrow> \<forall>(t, i)\<in>set es. accepts r t \<Longrightarrow> building R (insert_all R r es)"
  by (induction es arbitrary: r) (auto simp: same_schema building_ins [OF assms])

lemma den_fold:
  assumes "roaring R"
  shows "building R r \<Longrightarrow> \<forall>(t, i)\<in>set es. accepts r t \<Longrightarrow>
    den R (insert_all R r es) q = den R r q \<union> {i. \<exists>t. (t, i) \<in> set es \<and> matches r t q}"
proof (induction es arbitrary: r)
  case (Cons e es)
  obtain t i where e: "e = (t, i)" by (cases e)
  have acc: "accepts r t" "\<forall>(t, i)\<in>set es. accepts r t" using Cons.prems(2) by (auto simp: e)
  from Cons.IH [of "ins R r t i"] building_ins [OF assms Cons.prems(1) acc(1)] acc show ?case
    by (auto simp: e den_ins [OF assms Cons.prems(1)] same_schema)
qed simp

lemma den_build:
  assumes "roaring R" "building R r" "\<forall>(t, i)\<in>set es. accepts r t"
  shows "den R (prepare R (insert_all R r es)) q = den R r q \<union> {i. \<exists>t. (t, i) \<in> set es \<and> matches r t q}"
  using den_prepare [OF assms(1) building_fold [OF assms]] den_fold [OF assms] by simp

end

text \<open>Searching: the operations a published rule offers are sound for the IDs it denotes.\<close>

locale searchable =
  fixes ready :: "'b roaring \<Rightarrow> 'v valuation \<Rightarrow> 'r \<Rightarrow> bool"
    and ops :: "'b roaring \<Rightarrow> 'r \<Rightarrow> ('t, 'v, 'b) child_ops"
    and den :: "'b roaring \<Rightarrow> 'r \<Rightarrow> 't \<Rightarrow> u32 set"
  assumes ops_sound: "roaring R \<Longrightarrow> ready R G r \<Longrightarrow> ops_ok R G (ops R r) (den R r)"
begin

lemma search_den:
  assumes "roaring R" "ready R G r" "pool_ok R G p"
  shows "bm_ids R (fst (co_search (ops R r) v p (bm_new R))) = den R r v"
    and "pool_ok R G (snd (co_search (ops R r) v p (bm_new R)))"
  using search_okD [OF ops_okD(1) [OF ops_sound [OF assms(1,2)]] assms(3) roaring.ids_new [OF assms(1)], of v]
  by (metis prod.collapse)+

text \<open>Two searches in a row: whatever the first left in the caches, the second is right.\<close>

lemma search_again:
  assumes "roaring R" "ready R G r" "pool_ok R G p"
  shows "bm_ids R (fst (co_search (ops R r) w (snd (co_search (ops R r) v p (bm_new R))) (bm_new R))) = den R r w"
  by (rule search_den(1) [OF assms(1,2) search_den(2) [OF assms]])

end

text \<open>Components of a rule's key: comparators up to equality, and plain equality.\<close>

definition key_equal :: "('v \<Rightarrow> 'v \<Rightarrow> bool) \<Rightarrow> 'v cache_key \<Rightarrow> 'v cache_key \<Rightarrow> bool" where
  "key_equal eq a b \<longleftrightarrow> rel_option eq (fst a) (fst b) \<and> rel_option eq (snd a) (snd b)"

end
