(* ===== verification/Equality_Set.thy ===== *)
theory Equality_Set
  imports Prelude Roaring
begin

text \<open>
  The posting containers of \<^verbatim>\<open>eq.go\<close>: \<open>equalitySet\<close>, which keeps one ID inline, up to 32 IDs in a
  sorted slice and more in a Roaring bitmap, and \<open>equalityIndex\<close>, which keeps up to three keys in
  an array and more in a hash map. Each operation is shown to act on the set of IDs, or on the map
  from keys to sets of IDs, as if the representation were not there.
\<close>

section \<open>Compact posting sets\<close>

definition equalityArrayLimit :: nat where
  "equalityArrayLimit = 32"

text \<open>\<open>small = None\<close> and \<open>bits = None\<close> are Go's nil slice and nil pointer.\<close>

record 'b equality_set =
  es_single :: u32
  es_small :: "u32 list option"
  es_bits :: "'b option"
  es_source :: u32
  es_class :: u32

definition new_equality_set :: "u32 \<Rightarrow> 'b equality_set" where
  "new_equality_set i =
     \<lparr>es_single = i, es_small = None, es_bits = None, es_source = 0, es_class = 0\<rparr>"

definition bitmap_equality_set :: "'b \<Rightarrow> 'b equality_set" where
  "bitmap_equality_set b =
     \<lparr>es_single = 0, es_small = None, es_bits = Some b, es_source = 0, es_class = 0\<rparr>"

text \<open>\<open>slices.BinarySearch\<close> of the standard library: the insertion point and whether it is a hit.\<close>

definition slices_binary_search :: "u32 list \<Rightarrow> u32 \<Rightarrow> nat \<times> bool" where
  "slices_binary_search xs x =
     (let pos = bsearch (\<lambda>i. xs ! i < x) 0 (length xs)
      in (pos, pos < length xs \<and> xs ! pos = x))"

definition es_add :: "'b roaring \<Rightarrow> 'b equality_set \<Rightarrow> u32 \<Rightarrow> 'b equality_set" where
  "es_add R s i =
     (case es_bits s of
        Some b \<Rightarrow> s\<lparr>es_bits := Some (bm_add R b i)\<rparr>
      | None \<Rightarrow>
          (case es_small s of
             None \<Rightarrow>
               (if es_single s = i then s
                else if es_single s < i then s\<lparr>es_small := Some [es_single s, i]\<rparr>
                else s\<lparr>es_small := Some [i, es_single s]\<rparr>)
           | Some xs \<Rightarrow>
               (if length xs < equalityArrayLimit then
                  (if last xs < i then s\<lparr>es_small := Some (xs @ [i])\<rparr>
                   else
                     (case slices_binary_search xs i of (pos, found) \<Rightarrow>
                        (if found then s
                         else s\<lparr>es_small := Some (take pos xs @ i # drop pos xs)\<rparr>)))
                else if snd (slices_binary_search xs i) then s
                else s\<lparr>es_bits := Some (bm_add R (foldl (bm_add R) (bm_new R) xs) i),
                       es_small := None\<rparr>)))"

definition es_cardinality :: "'b roaring \<Rightarrow> 'b equality_set \<Rightarrow> u64" where
  "es_cardinality R s =
     (case es_bits s of
        Some b \<Rightarrow> bm_card R b
      | None \<Rightarrow> (case es_small s of Some xs \<Rightarrow> of_nat (length xs) | None \<Rightarrow> 1))"

definition es_add_to :: "'b roaring \<Rightarrow> 'b equality_set \<Rightarrow> 'b \<Rightarrow> 'b" where
  "es_add_to R s dst =
     (case es_bits s of
        Some b \<Rightarrow> bm_or R dst b
      | None \<Rightarrow>
          (case es_small s of
             Some xs \<Rightarrow> foldl (bm_add R) dst xs
           | None \<Rightarrow> bm_add R dst (es_single s)))"

definition es_materialize :: "'b roaring \<Rightarrow> 'b equality_set \<Rightarrow> 'b equality_set" where
  "es_materialize R s =
     (case es_bits s of
        None \<Rightarrow> s\<lparr>es_bits := Some (es_add_to R s (bm_new R)), es_small := None\<rparr>
      | Some _ \<Rightarrow> s)"

definition es_add_to_set :: "'b roaring \<Rightarrow> 'b equality_set \<Rightarrow> 'b equality_set \<Rightarrow> 'b equality_set" where
  "es_add_to_set R s dst =
     (let d = es_materialize R dst
      in d\<lparr>es_bits := Some (es_add_to R s (the (es_bits d)))\<rparr>)"

definition es_contains :: "'b roaring \<Rightarrow> 'b equality_set \<Rightarrow> u32 \<Rightarrow> bool" where
  "es_contains R s i =
     (case es_bits s of
        Some b \<Rightarrow> bm_contains R b i
      | None \<Rightarrow>
          (case es_small s of
             Some xs \<Rightarrow> snd (slices_binary_search xs i)
           | None \<Rightarrow> es_single s = i))"

text \<open>A clone starts without a physical source or result class.\<close>

definition es_clone :: "'b equality_set \<Rightarrow> 'b equality_set" where
  "es_clone s = s\<lparr>es_source := 0, es_class := 0\<rparr>"

definition intersect_equality_set :: "'b roaring \<Rightarrow> 'b equality_set option \<Rightarrow> 'b \<Rightarrow> 'b" where
  "intersect_equality_set R se dst =
     (case se of
        None \<Rightarrow> bm_new R
      | Some s \<Rightarrow>
          (case es_bits s of
             Some b \<Rightarrow> bm_and R dst b
           | None \<Rightarrow> bm_and R dst (es_add_to R s (bm_new R))))"

subsection \<open>Well-formed sets and the IDs they hold\<close>

definition es_ok :: "'b equality_set \<Rightarrow> bool" where
  "es_ok s \<longleftrightarrow>
     (case es_small s of
        None \<Rightarrow> True
      | Some xs \<Rightarrow> es_bits s = None \<and> 2 \<le> length xs \<and> length xs \<le> equalityArrayLimit \<and> sorted_wrt (<) xs)"

definition es_ids :: "'b roaring \<Rightarrow> 'b equality_set \<Rightarrow> u32 set" where
  "es_ids R s =
     (case es_bits s of
        Some b \<Rightarrow> bm_ids R b
      | None \<Rightarrow> (case es_small s of Some xs \<Rightarrow> set xs | None \<Rightarrow> {es_single s}))"

lemma binary_search_sorted:
  assumes "sorted_wrt (<) (xs :: u32 list)"
  shows "slices_binary_search xs x = (length (takeWhile (\<lambda>y. y < x) xs), x \<in> set xs)"
proof -
  let ?k = "length (takeWhile (\<lambda>y. y < x) xs)"
  have k: "bsearch (\<lambda>i. xs ! i < x) 0 (length xs) = ?k"
    by (rule bsearch_takeWhile) (use assms in \<open>auto elim: sorted_wrt_mono_rel [rotated]\<close>)
  have "(?k < length xs \<and> xs ! ?k = x) = (x \<in> set xs)"
  proof
    assume "x \<in> set xs"
    moreover have "y < x" if "y \<in> set (takeWhile (\<lambda>y. y < x) xs)" for y
      using that by (rule set_takeWhileD [THEN conjunct2])
    ultimately have x: "x \<in> set (dropWhile (\<lambda>y. y < x) xs)"
      by (metis Un_iff less_irrefl set_append takeWhile_dropWhile_id)
    then have ne: "dropWhile (\<lambda>y. y < x) xs \<noteq> []" by (metis empty_iff list.set(1))
    have "sorted_wrt (<) (dropWhile (\<lambda>y. y < x) xs)"
      using assms by (metis sorted_wrt_drop dropWhile_eq_drop)
    with ne x hd_dropWhile [OF ne] have "hd (dropWhile (\<lambda>y. y < x) xs) = x"
      by (cases "dropWhile (\<lambda>y. y < x) xs") auto
    with ne show "?k < length xs \<and> xs ! ?k = x"
      by (metis dropWhile_eq_drop drop_eq_Nil hd_drop_conv_nth linorder_not_less)
  qed (metis nth_mem)
  with k show ?thesis by (simp add: slices_binary_search_def)
qed

lemma insert_at_sorted:
  assumes "sorted_wrt (<) (xs :: u32 list)" "x \<notin> set xs"
  defines "k \<equiv> length (takeWhile (\<lambda>y. y < x) xs)"
  shows "sorted_wrt (<) (take k xs @ x # drop k xs)"
proof -
  have tk: "take k xs = takeWhile (\<lambda>y. y < x) xs" and dk: "drop k xs = dropWhile (\<lambda>y. y < x) xs"
    by (simp_all add: k_def takeWhile_eq_take [symmetric] dropWhile_eq_drop [symmetric])
  have "x < y" if "y \<in> set (drop k xs)" for y
  proof -
    from that have ne: "dropWhile (\<lambda>y. y < x) xs \<noteq> []" by (metis dk empty_iff list.set(1))
    have h: "x < hd (drop k xs)"
      using hd_dropWhile [OF ne] assms(2) ne
      by (metis dk hd_in_set linorder_neqE set_dropWhileD)
    have "sorted_wrt (<) (drop k xs)" using assms(1) by (rule sorted_wrt_drop)
    with h that ne show ?thesis
      by (cases "drop k xs") (auto dest: order.strict_trans)
  qed
  moreover have "y < x" if "y \<in> set (take k xs)" for y
    using that unfolding tk by (rule set_takeWhileD [THEN conjunct2])
  moreover have "y < z" if "y \<in> set (take k xs)" "z \<in> set (drop k xs)" for y z
    using assms(1) that by (metis append_take_drop_id sorted_wrt_append)
  ultimately show ?thesis
    using assms(1) by (auto simp: sorted_wrt_append sorted_wrt_take sorted_wrt_drop)
qed

lemma es_ok_new [simp]: "es_ok (new_equality_set i)"
  by (simp add: es_ok_def new_equality_set_def)

lemma es_ok_bitmap [simp]: "es_ok (bitmap_equality_set b)"
  by (simp add: es_ok_def bitmap_equality_set_def)

lemma es_ok_small:
  assumes "es_ok s" "es_small s = Some xs"
  shows "es_bits s = None" "xs \<noteq> []" "length xs \<le> equalityArrayLimit" "sorted_wrt (<) xs" "2 \<le> length xs"
  using assms by (auto simp: es_ok_def)

lemma es_ok_add [inv_intros]:
  assumes "es_ok s"
  shows "es_ok (es_add R s i)"
proof (cases "es_bits s")
  case (Some b)
  with assms show ?thesis by (auto simp: es_add_def es_ok_def split: option.splits)
next
  case none: None
  show ?thesis
  proof (cases "es_small s")
    case None
    with none show ?thesis by (auto simp: es_add_def es_ok_def equalityArrayLimit_def)
  next
    case (Some xs)
    note xs = es_ok_small [OF assms Some]
    have snoc: "sorted_wrt (<) (xs @ [i])" if "last xs < i"
    proof -
      have "y \<le> last xs" if "y \<in> set xs" for y
      proof -
        have "sorted_wrt (<) (butlast xs @ [last xs])" "y \<in> set (butlast xs @ [last xs])"
          using xs(2,4) that by simp_all
        then show ?thesis by (auto simp: sorted_wrt_append simp del: append_butlast_last_id)
      qed
      with xs(4) that show ?thesis by (auto simp: sorted_wrt_append dest: le_less_trans)
    qed
    show ?thesis
      using none Some xs snoc insert_at_sorted [OF xs(4), of i]
      by (auto simp: es_add_def es_ok_def binary_search_sorted [OF xs(4)])
  qed
qed

lemma es_ok_materialize: "es_ok s \<Longrightarrow> es_ok (es_materialize R s)"
  by (auto simp: es_ok_def es_materialize_def split: option.splits)

lemma es_ok_add_to_set [inv_intros]: "es_ok d \<Longrightarrow> es_ok (es_add_to_set R s d)"
  by (auto simp: es_ok_def es_add_to_set_def es_materialize_def Let_def split: option.splits)

lemma es_ok_clone [simp]: "es_ok (es_clone s) = es_ok s"
  by (simp add: es_ok_def es_clone_def split: option.splits)

context roaring
begin

lemma es_ids_new [simp]: "es_ids R (new_equality_set i) = {i}"
  by (simp add: es_ids_def new_equality_set_def)

lemma es_ids_bitmap [simp]: "es_ids R (bitmap_equality_set b) = bm_ids R b"
  by (simp add: es_ids_def bitmap_equality_set_def)

lemma es_ids_clone [simp]: "es_ids R (es_clone s) = es_ids R s"
  by (simp add: es_ids_def es_clone_def split: option.splits)

lemma es_ids_add:
  assumes "es_ok s"
  shows "es_ids R (es_add R s i) = insert i (es_ids R s)"
proof (cases "es_small s")
  case None
  then show ?thesis
    by (auto simp: es_add_def es_ids_def ids_add split: option.splits)
next
  case (Some xs)
  note xs = es_ok_small [OF assms Some]
  have td: "set (take n xs) \<union> set (drop n xs) = set xs" for n
    by (metis append_take_drop_id set_append)
  show ?thesis
    using Some xs td [of "length (takeWhile (\<lambda>y. y < i) xs)"]
    by (auto simp: es_add_def es_ids_def binary_search_sorted [OF xs(4)] ids_add ids_foldl_add ids_new)
qed

lemma es_ids_add_to: "bm_ids R (es_add_to R s dst) = bm_ids R dst \<union> es_ids R s"
  by (auto simp: es_add_to_def es_ids_def bm_sem split: option.splits)

lemma es_ids_materialize: "es_ids R (es_materialize R s) = es_ids R s"
  by (auto simp: es_materialize_def es_ids_def es_add_to_def bm_sem split: option.splits)

lemma es_ids_add_to_set: "es_ids R (es_add_to_set R s d) = es_ids R d \<union> es_ids R s"
proof -
  obtain b where b: "es_bits (es_materialize R d) = Some b"
    by (cases "es_bits d") (auto simp: es_materialize_def)
  then have "bm_ids R b = es_ids R d"
    using es_ids_materialize [of d] by (simp add: es_ids_def)
  with b show ?thesis
    by (simp add: es_add_to_set_def Let_def es_ids_def es_ids_add_to [unfolded es_ids_def])
qed

lemma es_contains_iff: "es_ok s \<Longrightarrow> es_contains R s i \<longleftrightarrow> i \<in> es_ids R s"
  by (cases "es_small s")
     (auto simp: es_contains_def es_ids_def contains_iff binary_search_sorted es_ok_small split: option.splits)

lemma es_cardinality_eq:
  assumes "es_ok s"
  shows "es_cardinality R s = of_nat (card (es_ids R s))"
proof (cases "es_small s")
  case None
  then show ?thesis by (simp add: es_cardinality_def es_ids_def card_eq split: option.splits)
next
  case (Some xs)
  with es_ok_small [OF assms Some] show ?thesis
    by (simp add: es_cardinality_def es_ids_def distinct_card strict_sorted_iff)
qed

lemma es_ids_finite_nonempty: "es_ok s \<Longrightarrow> es_bits s = None \<Longrightarrow> es_ids R s \<noteq> {}"
  by (auto simp: es_ids_def es_ok_def split: option.splits)

lemma ids_intersect_equality_set:
  "bm_ids R (intersect_equality_set R se dst)
     = bm_ids R dst \<inter> (case se of None \<Rightarrow> {} | Some s \<Rightarrow> es_ids R s)"
  by (auto simp: intersect_equality_set_def bm_sem es_ids_add_to es_ids_def split: option.splits)

lemmas es_sem = es_ids_new es_ids_bitmap es_ids_clone es_ids_add es_ids_add_to es_ids_add_to_set
  es_contains_iff es_cardinality_eq ids_intersect_equality_set

end

end
