(* ===== verification/Postings.thy ===== *)
theory Postings
  imports Roaring
begin

text \<open>
  The interface between a filter and the index that stores its postings: an insertion adds one ID to
  the posting of one key (up to the key equivalence of the index) and changes no other posting. The
  hash-based index of the equality filters and the block-structured index of the ordered filters
  both provide it; what a filter needs of a whole build is proved here once.
\<close>

locale postings =
  fixes ok :: "'b roaring \<Rightarrow> 's \<Rightarrow> bool"
    and key_eq :: "'s \<Rightarrow> 'k \<Rightarrow> 'k \<Rightarrow> bool"
    and ins :: "'b roaring \<Rightarrow> 's \<Rightarrow> 'k \<Rightarrow> u32 \<Rightarrow> 's"
    and posting :: "'b roaring \<Rightarrow> 's \<Rightarrow> 'k \<Rightarrow> u32 set"
  assumes ok_ins: "roaring R \<Longrightarrow> ok R s \<Longrightarrow> ok R (ins R s k i)"
    and key_eq_ins: "key_eq (ins R s k i) = key_eq s"
    and posting_ins: "roaring R \<Longrightarrow> ok R s \<Longrightarrow>
      posting R (ins R s k i) k' = (if key_eq s k k' then insert i (posting R s k') else posting R s k')"
begin

lemma key_eq_fold: "key_eq (foldl (\<lambda>s (k, i). ins R s k i) s es) = key_eq s"
  by (induction es arbitrary: s) (auto simp: key_eq_ins)

lemma ok_fold:
  assumes "roaring R"
  shows "ok R s \<Longrightarrow> ok R (foldl (\<lambda>s (k, i). ins R s k i) s es)"
  by (induction es arbitrary: s) (auto simp: ok_ins [OF assms])

lemma posting_fold:
  assumes "roaring R"
  shows "ok R s \<Longrightarrow> posting R (foldl (\<lambda>s (k, i). ins R s k i) s es) k'
    = posting R s k' \<union> {i. \<exists>k. (k, i) \<in> set es \<and> key_eq s k k'}"
proof (induction es arbitrary: s)
  case Nil
  then show ?case by simp
next
  case (Cons e es)
  obtain k i where e: "e = (k, i)" by (cases e)
  have "ok R (ins R s k i)" using assms Cons.prems by (rule ok_ins)
  from Cons.IH [OF this] e show ?case
    by (auto simp: posting_ins [OF assms Cons.prems] key_eq_ins)
qed

text \<open>Inserting the same posting twice changes nothing that a query can see.\<close>

lemma posting_ins_idem:
  assumes "roaring R" "ok R s"
  shows "posting R (ins R (ins R s k i) k i) k' = posting R (ins R s k i) k'"
  by (simp add: posting_ins assms ok_ins key_eq_ins)

end

end
