(* ===== verification/Equality_Index.thy ===== *)
theory Equality_Index
  imports Equality_Set Postings
begin

text \<open>
  The key table of the equality filters (\<open>equalityIndex\<close> in \<^verbatim>\<open>eq.go\<close>): the first three keys live in
  an inline array that is scanned, the fourth key moves all of them to a hash map of offsets. Keys are compared
  by the equality of HOL, which is reflexive: the key type stands for Go values up to \<open>==\<close>, and a floating-point
  NaN, which is not equal to itself in Go and so is never found again, is outside the model.
\<close>

section \<open>The table\<close>

text \<open>
  \<open>keys[:count]\<close> is the list \<open>ei_keys\<close>; the offsets map is absent until the table overflows. An
  offset is Go's \<open>uint32\<close> position in the slice of sets, written as a natural number.
\<close>

record ('k, 'b) equality_index =
  ei_offsets :: "('k \<rightharpoonup> nat) option"
  ei_sets :: "'b equality_set list"
  ei_keys :: "'k list"

definition inlineKeys :: nat where
  "inlineKeys = 3"

definition new_equality_index :: "('k, 'b) equality_index" where
  "new_equality_index = \<lparr>ei_offsets = None, ei_sets = [], ei_keys = []\<rparr>"

fun find_key :: "'k list \<Rightarrow> nat \<Rightarrow> 'k \<Rightarrow> nat option" where
  "find_key [] n k = None"
| "find_key (x # xs) n k = (if x = k then Some n else find_key xs (Suc n) k)"

definition ei_offset :: "('k, 'b) equality_index \<Rightarrow> 'k \<Rightarrow> nat option" where
  "ei_offset t k =
     (case ei_offsets t of
        None \<Rightarrow> find_key (ei_keys t) 0 k
      | Some m \<Rightarrow> m k)"

definition ei_get :: "('k, 'b) equality_index \<Rightarrow> 'k \<Rightarrow> 'b equality_set option" where
  "ei_get t k = map_option ((!) (ei_sets t)) (ei_offset t k)"

definition ei_promote :: "('k, 'b) equality_index \<Rightarrow> ('k \<rightharpoonup> nat)" where
  "ei_promote t =
     (case ei_offsets t of
        None \<Rightarrow> foldl (\<lambda>m n. m(ei_keys t ! n \<mapsto> n)) Map.empty [0..<length (ei_keys t)]
      | Some m \<Rightarrow> m)"

text \<open>The common tail of \<open>add\<close>, \<open>addBitmap\<close> and \<open>addSet\<close>: a new key with its first posting.\<close>

definition ei_append :: "('k, 'b) equality_index \<Rightarrow> 'k \<Rightarrow> 'b equality_set \<Rightarrow> ('k, 'b) equality_index" where
  "ei_append t k s =
     (if ei_offsets t = None \<and> length (ei_keys t) < inlineKeys
      then t\<lparr>ei_keys := ei_keys t @ [k], ei_sets := ei_sets t @ [s]\<rparr>
      else t\<lparr>ei_offsets := Some ((ei_promote t)(k \<mapsto> length (ei_sets t))),
             ei_sets := ei_sets t @ [s]\<rparr>)"

definition ei_add :: "'b roaring \<Rightarrow> ('k, 'b) equality_index \<Rightarrow> 'k \<Rightarrow> u32 \<Rightarrow> ('k, 'b) equality_index" where
  "ei_add R t k i =
     (case ei_offset t k of
        Some n \<Rightarrow> t\<lparr>ei_sets := (ei_sets t)[n := es_add R (ei_sets t ! n) i]\<rparr>
      | None \<Rightarrow> ei_append t k (new_equality_set i))"

definition ei_add_set ::
  "'b roaring \<Rightarrow> ('k, 'b) equality_index \<Rightarrow> 'k \<Rightarrow> 'b equality_set \<Rightarrow> ('k, 'b) equality_index" where
  "ei_add_set R t k incoming =
     (case ei_offset t k of
        Some n \<Rightarrow> t\<lparr>ei_sets := (ei_sets t)[n := es_add_to_set R incoming (ei_sets t ! n)]\<rparr>
      | None \<Rightarrow> ei_append t k (es_clone incoming))"

definition ei_add_bitmap ::
  "'b roaring \<Rightarrow> ('k, 'b) equality_index \<Rightarrow> 'k \<Rightarrow> u32 \<Rightarrow> ('k, 'b) equality_index" where
  "ei_add_bitmap R t k i =
     (case ei_offset t k of
        Some n \<Rightarrow>
          (let s = es_materialize R (ei_sets t ! n)
           in t\<lparr>ei_sets := (ei_sets t)[n := s\<lparr>es_bits := Some (bm_add R (the (es_bits s)) i)\<rparr>]\<rparr>)
      | None \<Rightarrow> ei_add_set R t k (bitmap_equality_set (bm_add R (bm_new R) i)))"

section \<open>Well-formedness and the map it represents\<close>

text \<open>
  \<open>key_order t\<close> lists the keys by offset. It is a ghost of the inline array while the table is
  small and of the hash map afterwards.
\<close>

definition key_order :: "('k, 'b) equality_index \<Rightarrow> 'k list \<Rightarrow> bool" where
  "key_order t ks \<longleftrightarrow> distinct ks \<and> length ks = length (ei_sets t)
     \<and> (case ei_offsets t of
          None \<Rightarrow> ks = ei_keys t \<and> length ks \<le> inlineKeys
        | Some m \<Rightarrow> m = find_key ks 0)"

definition ei_ok :: "('k, 'b) equality_index \<Rightarrow> bool" where
  "ei_ok t \<longleftrightarrow> (\<exists>ks. key_order t ks) \<and> (\<forall>s\<in>set (ei_sets t). es_ok s)"

definition ei_posting :: "'b roaring \<Rightarrow> ('k, 'b) equality_index \<Rightarrow> 'k \<Rightarrow> u32 set" where
  "ei_posting R t k = (case ei_get t k of None \<Rightarrow> {} | Some s \<Rightarrow> es_ids R s)"

lemma find_key_None: "find_key ks n k = None \<longleftrightarrow> k \<notin> set ks"
  by (induction ks n k rule: find_key.induct) auto

lemma find_key_Some:
  "distinct ks \<Longrightarrow> find_key ks n k = Some j \<longleftrightarrow> n \<le> j \<and> j < n + length ks \<and> ks ! (j - n) = k"
proof (induction ks n k rule: find_key.induct)
  case (2 x xs n k)
  then show ?case
    by (cases "j = n") (auto simp: nth_Cons' Suc_le_eq)
qed simp

lemma find_key_snoc:
  "k \<notin> set ks \<Longrightarrow> find_key (ks @ [k]) n = (find_key ks n)(k \<mapsto> n + length ks)"
proof (induction ks arbitrary: n)
  case (Cons x ks)
  then show ?case by (auto simp: fun_eq_iff)
qed (auto simp: fun_eq_iff)

lemma promote_find_key:
  "distinct ks \<Longrightarrow> foldl (\<lambda>m n. m(ks ! n \<mapsto> n)) Map.empty [0..<length ks] = find_key ks 0"
proof (induction ks rule: rev_induct)
  case Nil
  show ?case by (simp add: fun_eq_iff)
next
  case (snoc k ks)
  have "foldl (\<lambda>m n. m((ks @ [k]) ! n \<mapsto> n)) Map.empty [0..<length ks]
      = foldl (\<lambda>m n. m(ks ! n \<mapsto> n)) Map.empty [0..<length ks]"
    by (rule foldl_cong) (auto simp: nth_append)
  also have "\<dots> = find_key ks 0"
    by (rule snoc.IH) (use snoc.prems in simp)
  finally have prefix: "foldl (\<lambda>m n. m((ks @ [k]) ! n \<mapsto> n)) Map.empty [0..<length ks] = find_key ks 0" .
  have "foldl (\<lambda>m n. m((ks @ [k]) ! n \<mapsto> n)) Map.empty ([0..<length ks] @ [length ks])
      = (find_key ks 0)(k \<mapsto> length ks)"
    unfolding foldl_append prefix by simp
  with snoc.prems show ?case
    by (simp only: length_append_singleton upt_Suc_append zero_le) (simp add: find_key_snoc)
qed

lemma key_order_offset:
  assumes "key_order t ks"
  shows "ei_offset t k = find_key ks 0 k"
  using assms by (auto simp: key_order_def ei_offset_def split: option.splits)

lemma key_order_offset_nth:
  "key_order t ks \<Longrightarrow> n < length ks \<Longrightarrow> ei_offset t (ks ! n) = Some n"
  by (simp add: key_order_offset find_key_Some key_order_def)

lemma key_order_offset_None: "key_order t ks \<Longrightarrow> ei_offset t k = None \<longleftrightarrow> k \<notin> set ks"
  by (simp add: key_order_offset find_key_None)

lemma key_order_offset_Some:
  "key_order t ks \<Longrightarrow> ei_offset t k = Some n \<longleftrightarrow> n < length ks \<and> ks ! n = k"
  by (simp add: key_order_offset find_key_Some key_order_def)

lemma key_order_update:
  "key_order (t\<lparr>ei_sets := (ei_sets t)[n := s]\<rparr>) ks \<longleftrightarrow> key_order t ks"
  by (simp add: key_order_def split: option.splits)

lemma key_order_append:
  assumes "key_order t ks" "k \<notin> set ks"
  shows "key_order (ei_append t k s) (ks @ [k])"
proof -
  have "find_key (ks @ [k]) 0 = (ei_promote t)(k \<mapsto> length (ei_sets t))"
    using assms
    by (cases "ei_offsets t")
       (auto simp: key_order_def ei_promote_def find_key_snoc dest: promote_find_key)
  with assms show ?thesis
    by (cases "ei_offsets t") (auto simp: key_order_def ei_append_def)
qed

lemma ei_ok_new [simp]: "ei_ok new_equality_index"
  by (auto simp: ei_ok_def key_order_def new_equality_index_def)

lemma ei_posting_new [simp]: "ei_posting R new_equality_index k = {}"
  by (simp add: ei_posting_def ei_get_def ei_offset_def new_equality_index_def)

lemma ei_ok_update:
  "ei_ok t \<Longrightarrow> es_ok s \<Longrightarrow> ei_ok (t\<lparr>ei_sets := (ei_sets t)[n := s]\<rparr>)"
  by (auto simp: ei_ok_def key_order_update dest: set_update_subset_insert [THEN subsetD])

lemma ei_ok_append:
  "ei_ok t \<Longrightarrow> es_ok s \<Longrightarrow> ei_offset t k = None \<Longrightarrow> ei_ok (ei_append t k s)"
  by (force simp: ei_ok_def ei_append_def key_order_offset_None dest: key_order_append)

lemma ei_ok_offset:
  assumes "ei_ok t" "ei_offset t k = Some n"
  shows "n < length (ei_sets t)" "es_ok (ei_sets t ! n)"
  using assms by (auto simp: ei_ok_def key_order_offset_Some) (auto simp: key_order_def)

lemma ei_ok_get: "ei_ok t \<Longrightarrow> ei_get t k = Some s \<Longrightarrow> es_ok s"
  by (auto simp: ei_get_def dest: ei_ok_offset)

lemma ei_get_update:
  assumes "ei_ok t" "ei_offset t k = Some n"
  shows "ei_get (t\<lparr>ei_sets := (ei_sets t)[n := s]\<rparr>) k' = (if k' = k then Some s else ei_get t k')"
proof -
  obtain ks where ks: "key_order t ks" using assms(1) by (auto simp: ei_ok_def)
  have off: "ei_offset (t\<lparr>ei_sets := (ei_sets t)[n := s]\<rparr>) = ei_offset t"
    by (rule ext) (simp add: ei_offset_def split: option.splits)
  have "ei_offset t k' \<noteq> Some n" if "k' \<noteq> k"
    using assms(2) that ks by (auto simp: key_order_offset_Some)
  with assms ei_ok_offset(1) [OF assms] show ?thesis
    by (cases "ei_offset t k'") (auto simp: ei_get_def off nth_list_update)
qed

lemma ei_get_append:
  assumes "ei_ok t" "ei_offset t k = None"
  shows "ei_get (ei_append t k s) k' = (if k' = k then Some s else ei_get t k')"
proof -
  obtain ks where ks: "key_order t ks" using assms(1) by (auto simp: ei_ok_def)
  have nk: "k \<notin> set ks" using assms(2) ks by (simp add: key_order_offset_None)
  note ks' = key_order_append [OF ks nk, of s]
  have len: "length ks = length (ei_sets t)" using ks by (simp add: key_order_def)
  have sets: "ei_sets (ei_append t k s) = ei_sets t @ [s]" by (simp add: ei_append_def)
  have off: "ei_offset (ei_append t k s) k' = (if k' = k then Some (length ks) else ei_offset t k')"
    using ks' ks nk by (simp add: key_order_offset find_key_snoc)
  have "n < length (ei_sets t)" if "ei_offset t k' = Some n" for n
    using ks that len by (simp add: key_order_offset_Some)
  then show ?thesis
    by (cases "ei_offset t k'") (auto simp: ei_get_def off sets len nth_append)
qed

section \<open>Operations on the represented map\<close>

lemma ei_ok_add [inv_intros]: "ei_ok t \<Longrightarrow> ei_ok (ei_add R t k i)"
  by (auto simp: ei_add_def split: option.splits intro!: ei_ok_update ei_ok_append es_ok_add
      dest: ei_ok_offset)

lemma ei_ok_add_set [inv_intros]: "ei_ok t \<Longrightarrow> es_ok s \<Longrightarrow> ei_ok (ei_add_set R t k s)"
  by (auto simp: ei_add_set_def split: option.splits intro!: ei_ok_update ei_ok_append es_ok_add_to_set
      dest: ei_ok_offset)

context roaring
begin

lemma ei_posting_add:
  assumes "ei_ok t"
  shows "ei_posting R (ei_add R t k i) k' = (if k' = k then insert i (ei_posting R t k') else ei_posting R t k')"
proof (cases "ei_offset t k")
  case None
  then have "ei_get t k = None" by (simp add: ei_get_def)
  with None show ?thesis
    by (simp add: ei_posting_def ei_add_def ei_get_append assms)
next
  case (Some n)
  then have "ei_get t k = Some (ei_sets t ! n)" by (simp add: ei_get_def)
  with Some assms show ?thesis
    by (simp add: ei_posting_def ei_add_def ei_get_update es_ids_add ei_ok_offset)
qed

lemma ei_posting_add_set:
  assumes "ei_ok t"
  shows "ei_posting R (ei_add_set R t k s) k'
    = (if k' = k then ei_posting R t k' \<union> es_ids R s else ei_posting R t k')"
proof (cases "ei_offset t k")
  case None
  then have "ei_get t k = None" by (simp add: ei_get_def)
  with None show ?thesis
    by (simp add: ei_posting_def ei_add_set_def ei_get_append assms)
next
  case (Some n)
  then have "ei_get t k = Some (ei_sets t ! n)" by (simp add: ei_get_def)
  with Some assms show ?thesis
    by (simp add: ei_posting_def ei_add_set_def ei_get_update es_ids_add_to_set)
qed

lemma ei_posting_add_bitmap:
  assumes "ei_ok t"
  shows "ei_posting R (ei_add_bitmap R t k i) k'
    = (if k' = k then insert i (ei_posting R t k') else ei_posting R t k')"
proof (cases "ei_offset t k")
  case None
  then show ?thesis
    by (auto simp: ei_add_bitmap_def ei_posting_add_set assms bm_sem)
next
  case (Some n)
  let ?s = "es_materialize R (ei_sets t ! n)"
  obtain b where b: "es_bits ?s = Some b"
    by (cases "es_bits (ei_sets t ! n)") (auto simp: es_materialize_def)
  have ids: "es_ids R (?s\<lparr>es_bits := Some (bm_add R b i)\<rparr>) = insert i (es_ids R (ei_sets t ! n))"
    using es_ids_materialize [of "ei_sets t ! n"] b by (simp add: es_ids_def ids_add)
  from Some have "ei_get t k = Some (ei_sets t ! n)" by (simp add: ei_get_def)
  with Some assms b ids show ?thesis
    by (simp add: ei_posting_def ei_add_bitmap_def ei_get_update Let_def)
qed

lemma ei_get_ids:
  assumes "ei_ok t" "ei_get t k = Some s"
  shows "es_contains R s i \<longleftrightarrow> i \<in> ei_posting R t k"
    "es_cardinality R s = of_nat (card (ei_posting R t k))"
    "es_ids R s = ei_posting R t k"
  using assms ei_ok_get [OF assms]
  by (simp_all add: ei_posting_def es_contains_iff es_cardinality_eq)

end

interpretation equality: postings "\<lambda>_. ei_ok" "\<lambda>_. (=)" ei_add ei_posting
  by unfold_locales (auto intro: ei_ok_add simp: roaring.ei_posting_add)

end
