(* ===== verification/Equality_Rule.thy ===== *)
theory Equality_Rule
  imports Rule_Contract Equality_Index
begin

text \<open>
  The equality filter (\<open>eqRule\<close> in \<^verbatim>\<open>eq.go\<close>, with \<^verbatim>\<open>equality_matcher.go\<close>, \<^verbatim>\<open>equality_cache.go\<close> and the
  planning lookup of \<^verbatim>\<open>quantized_equality.go\<close>): a wildcard bitmap for the constraints without a stored
  value and a table from encoded values to postings. \<open>er_encode\<close> is \<open>encode\<close> at the current
  quantizer; it is the identity for \<open>Include\<close>.
\<close>

record ('t, 'v, 'k, 'b) eq_rule =
  er_node :: nat
  er_get :: "'t \<Rightarrow> 'v option"
  er_encode :: "'v \<Rightarrow> 'k"
  er_wildcard :: 'b
  er_wildcard_source :: u32
  er_wildcard_class :: u32
  er_values :: "('k, 'b) equality_index"

definition include_rule :: "'b roaring \<Rightarrow> nat \<Rightarrow> ('t \<Rightarrow> 'v option) \<Rightarrow> ('v \<Rightarrow> 'k) \<Rightarrow> ('t, 'v, 'k, 'b) eq_rule" where
  "include_rule R node get encode =
     \<lparr>er_node = node, er_get = get, er_encode = encode, er_wildcard = bm_new R, er_wildcard_source = 0,
      er_wildcard_class = 0, er_values = new_equality_index\<rparr>"

section \<open>Operations\<close>

definition eq_insert :: "'b roaring \<Rightarrow> ('t, 'v, 'k, 'b) eq_rule \<Rightarrow> 't \<Rightarrow> u32 \<Rightarrow> ('t, 'v, 'k, 'b) eq_rule" where
  "eq_insert R r t i =
     (case er_get r t of
        None \<Rightarrow> r\<lparr>er_wildcard := bm_add R (er_wildcard r) i\<rparr>
      | Some value \<Rightarrow> r\<lparr>er_values := ei_add R (er_values r) (er_encode r value) i\<rparr>)"

text \<open>\<open>r.get(v)\<close> followed by \<open>r.values.get(r.equalityKey(value))\<close>; nil when either fails.\<close>

definition eq_set :: "('t, 'v, 'k, 'b) eq_rule \<Rightarrow> 't \<Rightarrow> 'b equality_set option" where
  "eq_set r v = (case er_get r v of None \<Rightarrow> None | Some value \<Rightarrow> ei_get (er_values r) (er_encode r value))"

definition eq_estimate :: "'b roaring \<Rightarrow> ('t, 'v, 'k, 'b) eq_rule \<Rightarrow> 't \<Rightarrow> u64" where
  "eq_estimate R r v =
     bm_card R (er_wildcard r) + (case eq_set r v of Some s \<Rightarrow> es_cardinality R s | None \<Rightarrow> 0)"

definition eq_cardinality_zero :: "'b roaring \<Rightarrow> ('t, 'v, 'k, 'b) eq_rule \<Rightarrow> 't \<Rightarrow> bool" where
  "eq_cardinality_zero R r v = (bm_is_empty R (er_wildcard r) \<and> eq_set r v = None)"

definition eq_matches_id :: "'b roaring \<Rightarrow> ('t, 'v, 'k, 'b) eq_rule \<Rightarrow> 't \<Rightarrow> u32 \<Rightarrow> bool" where
  "eq_matches_id R r v i =
     (bm_contains R (er_wildcard r) i \<or> (case eq_set r v of Some s \<Rightarrow> es_contains R s i | None \<Rightarrow> False))"

definition add_equality_matches ::
  "'b roaring \<Rightarrow> 'b \<Rightarrow> ('k, 'b) equality_index \<Rightarrow> 'k option \<Rightarrow> 'b \<Rightarrow> 'b" where
  "add_equality_matches R wildcard values key dst =
     (let dst = bm_or R dst wildcard
      in case key of
           None \<Rightarrow> dst
         | Some k \<Rightarrow> (case ei_get values k of Some s \<Rightarrow> es_add_to R s dst | None \<Rightarrow> dst))"

definition eq_add_matches :: "'b roaring \<Rightarrow> ('t, 'v, 'k, 'b) eq_rule \<Rightarrow> 'v option \<Rightarrow> 'b \<Rightarrow> 'b" where
  "eq_add_matches R r value dst =
     add_equality_matches R (er_wildcard r) (er_values r) (map_option (er_encode r) value) dst"

definition eq_key :: "('t, 'v, 'k, 'b) eq_rule \<Rightarrow> 't \<Rightarrow> 'v cache_key" where
  "eq_key r v = (er_get r v, None)"

definition eq_search ::
  "'b roaring \<Rightarrow> ('t, 'v, 'k, 'b) eq_rule \<Rightarrow> 't \<Rightarrow> ('v, 'b) pool \<Rightarrow> 'b \<Rightarrow> 'b \<times> ('v, 'b) pool" where
  "eq_search R r v p dst =
     local_search R Equality_Cache (=) (er_node r) (eq_add_matches R r (er_get r v)) (eq_key r v) p dst"

definition eq_lookup_cached ::
  "('t, 'v, 'k, 'b) eq_rule \<Rightarrow> 't \<Rightarrow> ('v, 'b) pool \<Rightarrow> ('b \<times> source) option \<times> ('v, 'b) pool" where
  "eq_lookup_cached r v p = local_lookup Equality_Cache (=) (er_node r) (eq_key r v) p"

definition eq_cached_estimate ::
  "'b roaring \<Rightarrow> ('t, 'v, 'k, 'b) eq_rule \<Rightarrow> 't \<Rightarrow> ('v, 'b) pool \<Rightarrow> u64 option \<times> ('v, 'b) pool" where
  "eq_cached_estimate R r v p =
     (case eq_lookup_cached r v p of (found, p) \<Rightarrow> (map_option (\<lambda>(bits, _). bm_card R bits) found, p))"

definition eq_lookup_planning :: "'b roaring \<Rightarrow> ('t, 'v, 'k, 'b) eq_rule \<Rightarrow> 't \<Rightarrow> ('b \<times> source) option" where
  "eq_lookup_planning R r v =
     (if \<not> bm_is_empty R (er_wildcard r) then None
      else case eq_set r v of
             None \<Rightarrow> Some (er_wildcard r, Posting (er_wildcard_source r))
           | Some s \<Rightarrow> (case es_bits s of None \<Rightarrow> None | Some b \<Rightarrow> Some (b, Posting (es_source s))))"

definition eq_class :: "('t, 'v, 'k, 'b) eq_rule \<Rightarrow> 't \<Rightarrow> u32" where
  "eq_class r v = (case eq_set r v of Some s \<Rightarrow> es_class s | None \<Rightarrow> er_wildcard_class r)"

definition eq_universe :: "'b roaring \<Rightarrow> ('t, 'v, 'k, 'b) eq_rule \<Rightarrow> u64" where
  "eq_universe R r =
     foldl (\<lambda>n s. n + es_cardinality R s) (bm_card R (er_wildcard r)) (ei_sets (er_values r))"

definition eq_concrete_cardinality :: "'b roaring \<Rightarrow> ('t, 'v, 'k, 'b) eq_rule \<Rightarrow> 't \<Rightarrow> u64" where
  "eq_concrete_cardinality R r v = (case eq_set r v of Some s \<Rightarrow> es_cardinality R s | None \<Rightarrow> 0)"

definition eq_matches_concrete :: "'b roaring \<Rightarrow> ('t, 'v, 'k, 'b) eq_rule \<Rightarrow> 't \<Rightarrow> u32 \<Rightarrow> bool" where
  "eq_matches_concrete R r v i = (case eq_set r v of Some s \<Rightarrow> es_contains R s i | None \<Rightarrow> False)"

definition eq_add_concrete :: "'b roaring \<Rightarrow> ('t, 'v, 'k, 'b) eq_rule \<Rightarrow> 't \<Rightarrow> 'b \<Rightarrow> 'b" where
  "eq_add_concrete R r v dst = (case eq_set r v of Some s \<Rightarrow> es_add_to R s dst | None \<Rightarrow> dst)"

definition eq_intersect_concrete :: "'b roaring \<Rightarrow> ('t, 'v, 'k, 'b) eq_rule \<Rightarrow> 't \<Rightarrow> 'b \<Rightarrow> 'b" where
  "eq_intersect_concrete R r v dst =
     (case er_get r v of None \<Rightarrow> bm_new R | Some _ \<Rightarrow> intersect_equality_set R (eq_set r v) dst)"

text \<open>
  \<open>lookupEqualityResultComponents\<close>: the posting of the query value, nil when there is none, and whether
  it is one interned bitmap.
\<close>

definition equality_set_bitmap :: "'b equality_set option \<Rightarrow> ('b \<times> source) option" where
  "equality_set_bitmap s =
     (case s of None \<Rightarrow> None | Some s \<Rightarrow> map_option (\<lambda>b. (b, Posting (es_source s))) (es_bits s))"

definition eq_components :: "('t, 'v, 'k, 'b) eq_rule \<Rightarrow> 't \<Rightarrow> ('b \<times> source) option \<times> bool" where
  "eq_components r v =
     (case er_get r v of
        None \<Rightarrow> (None, True)
      | Some _ \<Rightarrow>
          (let posting = equality_set_bitmap (eq_set r v)
           in (posting, eq_set r v = None \<or> posting \<noteq> None)))"

text \<open>\<open>optimize\<close> replaces the rule by a match-all of its wildcard.\<close>

definition eq_optimize :: "'b roaring \<Rightarrow> ('t, 'v, 'k, 'b) eq_rule \<Rightarrow> u64 \<Rightarrow> 'b option" where
  "eq_optimize R r rules = (if bm_card R (er_wildcard r) = rules then Some (er_wildcard r) else None)"

definition allEqualityDirectIDWork :: u64 where
  "allEqualityDirectIDWork = 32"

definition eq_shared :: "'b roaring \<Rightarrow> ('t, 'v, 'k, 'b) eq_rule \<Rightarrow> ('t, 'b) shared_wildcard" where
  "eq_shared R r =
     \<lparr>sw_wildcard = er_wildcard r, sw_source = er_wildcard_source r, sw_universe = eq_universe R r,
      sw_card = eq_concrete_cardinality R r, sw_matches = eq_matches_concrete R r,
      sw_add = eq_add_concrete R r, sw_intersect = eq_intersect_concrete R r\<rparr>"

definition eq_ops :: "'b roaring \<Rightarrow> ('t, 'v, 'k, 'b) eq_rule \<Rightarrow> ('t, 'v, 'b) child_ops" where
  "eq_ops R r =
     \<lparr>co_search = eq_search R r, co_planning = Some (eq_lookup_planning R r),
      co_cached = Some (eq_lookup_cached r), co_direct = Some (eq_matches_id R r),
      co_work = Some allEqualityDirectIDWork, co_filter = None,
      co_keys = [Some \<lparr>kp_key = \<lambda>v. (Equality_Cache, eq_key r v),
                      kp_matches = \<lambda>v key. key = (Equality_Cache, eq_key r v)\<rparr>],
      co_estimate = Some (eq_estimate R r), co_cached_estimate = Some (eq_cached_estimate R r),
      co_cheap = Some (eq_estimate R r), co_cheap_zero = None, co_zero = Some (eq_cardinality_zero R r),
      co_shared = Some (eq_shared R r), co_class = Some (eq_class r)\<rparr>"

section \<open>What it denotes\<close>

definition eq_key_den :: "'b roaring \<Rightarrow> ('t, 'v, 'k, 'b) eq_rule \<Rightarrow> 'v option \<Rightarrow> u32 set" where
  "eq_key_den R r value =
     bm_ids R (er_wildcard r) \<union> (case value of None \<Rightarrow> {} | Some v \<Rightarrow> ei_posting R (er_values r) (er_encode r v))"

definition eq_den :: "'b roaring \<Rightarrow> ('t, 'v, 'k, 'b) eq_rule \<Rightarrow> 't \<Rightarrow> u32 set" where
  "eq_den R r v = eq_key_den R r (er_get r v)"

definition eq_concrete :: "'b roaring \<Rightarrow> ('t, 'v, 'k, 'b) eq_rule \<Rightarrow> 't \<Rightarrow> u32 set" where
  "eq_concrete R r v = (case er_get r v of None \<Rightarrow> {} | Some x \<Rightarrow> ei_posting R (er_values r) (er_encode r x))"

text \<open>
  Everything the rule holds. The universe of \<open>equalityUniverseCardinality\<close> counts an ID once per posting
  it is in.
\<close>

definition eq_stored :: "'b roaring \<Rightarrow> ('t, 'v, 'k, 'b) eq_rule \<Rightarrow> u32 set" where
  "eq_stored R r = bm_ids R (er_wildcard r) \<union> (\<Union>s\<in>set (ei_sets (er_values r)). es_ids R s)"

text \<open>A stored constraint against a query.\<close>

definition eq_matches :: "('t, 'v, 'k, 'b) eq_rule \<Rightarrow> 't \<Rightarrow> 't \<Rightarrow> bool" where
  "eq_matches r stored query =
     (case er_get r stored of
        None \<Rightarrow> True
      | Some w \<Rightarrow> (case er_get r query of None \<Rightarrow> False | Some v \<Rightarrow> er_encode r w = er_encode r v))"

definition eq_building :: "('t, 'v, 'k, 'b) eq_rule \<Rightarrow> bool" where
  "eq_building r \<longleftrightarrow> ei_ok (er_values r)"

definition eq_ready :: "'b roaring \<Rightarrow> 'v valuation \<Rightarrow> ('t, 'v, 'k, 'b) eq_rule \<Rightarrow> bool" where
  "eq_ready R G r \<longleftrightarrow> eq_building r \<and> er_node r < va_nodes G
     \<and> (\<forall>k. va_den G Equality_Cache (er_node r) k = eq_key_den R r (fst k))"

lemma eq_set_None: "eq_set r v = None \<Longrightarrow> eq_concrete R r v = {}"
  by (auto simp: eq_set_def eq_concrete_def ei_posting_def split: option.splits)

lemma eq_set_Some:
  assumes "eq_building r" "eq_set r v = Some s"
  shows "es_ok s" "es_ids R s = eq_concrete R r v"
  using assms
  by (auto simp: eq_building_def eq_set_def eq_concrete_def ei_posting_def split: option.splits dest: ei_ok_get)

lemma eq_den_concrete: "eq_den R r v = bm_ids R (er_wildcard r) \<union> eq_concrete R r v"
  by (simp add: eq_den_def eq_key_den_def eq_concrete_def split: option.split)

context roaring
begin

lemma eq_add_matches_ids:
  "eq_building r \<Longrightarrow> bm_ids R (eq_add_matches R r value dst) = bm_ids R dst \<union> eq_key_den R r value"
  by (auto simp: eq_add_matches_def add_equality_matches_def eq_key_den_def ei_posting_def Let_def
      ids_or es_ids_add_to eq_building_def split: option.split)

lemma eq_add_concrete_ids:
  "eq_building r \<Longrightarrow> bm_ids R (eq_add_concrete R r v dst) = bm_ids R dst \<union> eq_concrete R r v"
  by (auto simp: eq_add_concrete_def es_ids_add_to eq_set_Some dest: eq_set_None split: option.split)

lemma eq_matches_concrete_iff:
  "eq_building r \<Longrightarrow> eq_matches_concrete R r v i \<longleftrightarrow> i \<in> eq_concrete R r v"
  by (auto simp: eq_matches_concrete_def es_contains_iff eq_set_Some dest: eq_set_None split: option.split)

lemma eq_intersect_concrete_ids:
  "eq_building r \<Longrightarrow> bm_ids R (eq_intersect_concrete R r v dst) = bm_ids R dst \<inter> eq_concrete R r v"
  by (auto simp: eq_intersect_concrete_def ids_intersect_equality_set ids_new eq_set_Some dest: eq_set_None
      split: option.split) (auto simp: eq_concrete_def)

lemma eq_concrete_cardinality_eq:
  "eq_building r \<Longrightarrow> eq_concrete_cardinality R r v = of_nat (card (eq_concrete R r v))"
  by (cases "eq_set r v")
    (simp_all add: eq_concrete_cardinality_def es_cardinality_eq eq_set_Some eq_set_None [where R = R])

lemma eq_matches_id_iff: "eq_building r \<Longrightarrow> eq_matches_id R r v i \<longleftrightarrow> i \<in> eq_den R r v"
  using eq_matches_concrete_iff [of r v i]
  by (simp add: eq_matches_id_def eq_matches_concrete_def eq_den_concrete contains_iff)

lemma card_sum_zero:
  "(of_nat (card (A :: u32 set)) :: u64) + of_nat (card (B :: u32 set)) = 0 \<longleftrightarrow> A = {} \<and> B = {}"
proof -
  have "card A + card B < 2 ^ 64" using card_u32_le [of A] card_u32_le [of B] by simp
  then have "unat (of_nat (card A + card B) :: u64) = card A + card B"
    by (simp add: unsigned_of_nat take_bit_nat_eq_self del: of_nat_add)
  then have "(of_nat (card A + card B) :: u64) = 0 \<longleftrightarrow> card A + card B = 0"
    unfolding unat_eq_zero [symmetric] by simp
  then show ?thesis by simp
qed

lemma eq_estimate_eq:
  "eq_building r \<Longrightarrow> eq_estimate R r v = of_nat (card (bm_ids R (er_wildcard r))) + of_nat (card (eq_concrete R r v))"
  using eq_concrete_cardinality_eq [of r v] by (simp add: eq_estimate_def eq_concrete_cardinality_def card_eq)

lemma eq_estimate_zero: "eq_building r \<Longrightarrow> eq_estimate R r v = 0 \<longleftrightarrow> eq_den R r v = {}"
  by (simp add: eq_estimate_eq card_sum_zero eq_den_concrete)

lemma eq_cardinality_zero_empty: "eq_cardinality_zero R r v \<Longrightarrow> eq_den R r v = {}"
  by (simp add: eq_cardinality_zero_def is_empty_iff eq_den_concrete eq_set_None)

lemma eq_planning_ids:
  "eq_building r \<Longrightarrow> eq_lookup_planning R r v = Some (b, s) \<Longrightarrow> bm_ids R b = eq_den R r v \<and> (\<exists>n. s = Posting n)"
  by (auto simp: eq_lookup_planning_def is_empty_iff eq_den_concrete eq_set_None es_ids_def
      dest: eq_set_Some(2) [where R = R] split: if_splits option.splits)

text \<open>The two components of a result, when both are at hand.\<close>

lemma eq_components_ids:
  assumes "eq_building r" "eq_components r v = (posting, True)"
  shows "case posting of None \<Rightarrow> eq_concrete R r v = {}
    | Some (b, s) \<Rightarrow> bm_ids R b = eq_concrete R r v \<and> (\<exists>n. s = Posting n)"
proof (cases "eq_set r v")
  case None
  with assms(2) have "posting = None"
    by (auto simp: eq_components_def equality_set_bitmap_def Let_def split: option.splits)
  with eq_set_None [OF None] show ?thesis by simp
next
  case (Some s)
  then obtain x where "er_get r v = Some x" by (auto simp: eq_set_def split: option.splits)
  with Some assms(2) obtain b where "es_bits s = Some b" "posting = Some (b, Posting (es_source s))"
    by (auto simp: eq_components_def equality_set_bitmap_def Let_def)
  with eq_set_Some(2) [OF assms(1) Some, of R] show ?thesis by (simp add: es_ids_def)
qed

lemma ei_sets_ids_add:
  assumes "ei_ok t"
  shows "(\<Union>s\<in>set (ei_sets (ei_add R t k i)). es_ids R s) = insert i (\<Union>s\<in>set (ei_sets t). es_ids R s)"
proof (cases "ei_offset t k")
  case None
  then show ?thesis by (simp add: ei_add_def ei_append_def)
next
  case (Some n)
  note n = ei_ok_offset [OF assms Some]
  have "(\<Union>s\<in>set ((ei_sets t)[n := es_add R (ei_sets t ! n) i]). es_ids R s)
      = insert i (es_ids R (ei_sets t ! n)) \<union> (\<Union>s\<in>set (take n (ei_sets t)) \<union> set (drop (Suc n) (ei_sets t)). es_ids R s)"
    by (auto simp: upd_conv_take_nth_drop [OF n(1)] es_ids_add [OF n(2)])
  also have "\<dots> = insert i (\<Union>s\<in>set (take n (ei_sets t) @ ei_sets t ! n # drop (Suc n) (ei_sets t)). es_ids R s)" by auto
  finally show ?thesis using Some by (simp add: ei_add_def id_take_nth_drop [OF n(1), symmetric])
qed

lemma eq_stored_insert: "eq_building r \<Longrightarrow> eq_stored R (eq_insert R r t i) = insert i (eq_stored R r)"
  by (auto simp: eq_stored_def eq_insert_def eq_building_def ids_add ei_sets_ids_add split: option.split)

lemma eq_concrete_stored:
  assumes "eq_building r"
  shows "eq_concrete R r v \<subseteq> (\<Union>s\<in>set (ei_sets (er_values r)). es_ids R s)"
proof (cases "eq_set r v")
  case None
  then show ?thesis by (simp add: eq_set_None)
next
  case (Some s)
  then obtain x n where "ei_offset (er_values r) x = Some n" "s = ei_sets (er_values r) ! n"
    by (auto simp: eq_set_def ei_get_def split: option.splits)
  with ei_ok_offset(1) [of "er_values r" x n] assms have "s \<in> set (ei_sets (er_values r))" by (simp add: eq_building_def)
  with eq_set_Some(2) [OF assms Some, of R] show ?thesis by blast
qed

lemma eq_universe_eq:
  assumes "eq_building r"
  shows "eq_universe R r = of_nat (card (bm_ids R (er_wildcard r)) + (\<Sum>s\<leftarrow>ei_sets (er_values r). card (es_ids R s)))"
proof -
  have "foldl (\<lambda>n s. n + es_cardinality R s) (of_nat m) ss = of_nat (m + (\<Sum>s\<leftarrow>ss. card (es_ids R s)))"
    if "\<forall>s\<in>set ss. es_ok s" for m ss
    using that
  proof (induction ss arbitrary: m)
    case (Cons s ss)
    with Cons.IH [of "m + card (es_ids R s)"] show ?case by (simp add: es_cardinality_eq add.assoc)
  qed simp
  moreover have "\<forall>s\<in>set (ei_sets (er_values r)). es_ok s" using assms by (simp add: eq_building_def ei_ok_def)
  ultimately show ?thesis by (simp add: eq_universe_def card_eq)
qed

lemma eq_shared_ok:
  assumes "eq_building r"
  shows "shared_ok R (eq_shared R r) (eq_den R r)"
  using assms by (simp add: shared_ok_def sw_concrete_def eq_shared_def eq_add_concrete_ids ids_new
      eq_intersect_concrete_ids eq_matches_concrete_iff eq_den_concrete)

lemma eq_ops_ok:
  assumes ready: "eq_ready R G r"
  shows "ops_ok R G (eq_ops R r) (eq_den R r)"
proof -
  have bld: "eq_building r" and node: "er_node r < va_nodes G"
    and den: "\<And>v. va_den G Equality_Cache (er_node r) (eq_key r v) = eq_den R r v"
    using ready by (auto simp: eq_ready_def eq_den_def eq_key_def)
  have fill: "bm_ids R (eq_add_matches R r (er_get r v) d)
      = bm_ids R d \<union> va_den G Equality_Cache (er_node r) (eq_key r v)" for v d
    by (simp add: eq_add_matches_ids bld den eq_den_def)
  have "search_ok R G (eq_ops R r) (eq_den R r)"
    unfolding search_ok_def
    using local_search_spec [OF _ node _ fill, where eq = "(=)"] by (simp add: eq_ops_def eq_search_def den)
  moreover have look: "local_lookup Equality_Cache (=) (er_node r) (eq_key r v) p = (f, p') \<Longrightarrow> pool_ok R G p \<Longrightarrow>
      pool_ok R G p' \<and> pool_step p p' \<and> (\<forall>b s. f = Some (b, s) \<longrightarrow> bm_ids R b = eq_den R r v
        \<and> source_content p' s = Some b)" for v p f p'
    using local_lookup_spec [OF _ node, where eq = "(=)" and p = p and k = "eq_key r v"] den [of v] by (metis prod.collapse)
  then have "cached_ok R G (eq_ops R r) (eq_den R r)"
    unfolding cached_ok_def by (fastforce simp: eq_ops_def eq_lookup_cached_def local_lookup_def)
  moreover have "bm_ids R (sw_wildcard (eq_shared R r)) \<noteq> {} \<Longrightarrow> eq_lookup_planning R r v = None" for v
    by (simp add: eq_shared_def eq_lookup_planning_def is_empty_iff)
  then have "static_ok R (eq_ops R r) (eq_den R r)"
    unfolding static_ok_def
    by (auto simp: eq_ops_def eq_matches_id_iff bld eq_shared_ok eq_planning_ids eq_key_def eq_den_def
        dest: eq_planning_ids [OF bld])
  moreover have "estimates_ok R G (eq_ops R r) (eq_den R r)"
    unfolding estimates_ok_def
    using look by (auto simp: eq_ops_def eq_estimate_zero bld eq_cardinality_zero_empty eq_cached_estimate_def
        eq_lookup_cached_def card_zero_iff split: prod.splits)
  ultimately show ?thesis by (simp add: ops_ok_def)
qed

lemma eq_den_insert:
  assumes "eq_building r"
  shows "eq_den R (eq_insert R r t i) q = (if eq_matches r t q then insert i (eq_den R r q) else eq_den R r q)"
  using assms
  by (auto simp: eq_insert_def eq_den_def eq_key_den_def eq_matches_def eq_building_def ids_add ei_posting_add
      split: option.split)

end

lemma eq_building_insert: "eq_building r \<Longrightarrow> eq_building (eq_insert R r t i)"
  by (auto simp: eq_building_def eq_insert_def ei_ok_add split: option.split)

lemma eq_schema_insert [simp]:
  "er_get (eq_insert R r t i) = er_get r" "er_encode (eq_insert R r t i) = er_encode r"
  "er_node (eq_insert R r t i) = er_node r"
  by (simp_all add: eq_insert_def split: option.split)

lemma eq_include_den:
  assumes "roaring R"
  shows "eq_building (include_rule R node get encode)" "eq_den R (include_rule R node get encode) q = {}"
  by (simp_all add: eq_building_def include_rule_def eq_den_def eq_key_den_def roaring.ids_new [OF assms] split: option.split)

interpretation equality_filter: buildable "\<lambda>_. eq_building" "\<lambda>_. eq_building" eq_insert "\<lambda>_ r. r" "\<lambda>_ _. True" eq_matches eq_den
  by unfold_locales (auto simp: roaring.eq_den_insert eq_building_insert eq_matches_def fun_eq_iff split: option.split)

interpretation equality_filter: searchable eq_ready eq_ops eq_den
  by unfold_locales (rule roaring.eq_ops_ok)

end
