(* ===== verification/Exclusion_Rule.thy ===== *)
theory Exclusion_Rule
  imports Equality_Rule
begin

text \<open>
  \<open>Exclude\<close> (\<open>notRule\<close> in \<^verbatim>\<open>not.go\<close>): a table from forbidden values to the IDs they forbid, consulted
  after the positive rules; and \<open>matchAllRule\<close> (\<^verbatim>\<open>rule.go\<close>), which stands for a rule that every
  stored constraint matches.
\<close>

record ('t, 'v, 'b) not_rule =
  nt_node :: nat
  nt_get :: "'t \<Rightarrow> 'v option"
  nt_values :: "('v, 'b) equality_index"

definition new_not_rule :: "nat \<Rightarrow> ('t \<Rightarrow> 'v option) \<Rightarrow> ('t, 'v, 'b) not_rule" where
  "new_not_rule node get = \<lparr>nt_node = node, nt_get = get, nt_values = new_equality_index\<rparr>"

definition nt_insert :: "'b roaring \<Rightarrow> ('t, 'v, 'b) not_rule \<Rightarrow> 't \<Rightarrow> u32 \<Rightarrow> ('t, 'v, 'b) not_rule" where
  "nt_insert R r t i =
     (case nt_get r t of None \<Rightarrow> r | Some value \<Rightarrow> r\<lparr>nt_values := ei_add R (nt_values r) value i\<rparr>)"

definition nt_set :: "('t, 'v, 'b) not_rule \<Rightarrow> 'v option \<Rightarrow> 'b equality_set option" where
  "nt_set r value = (case value of None \<Rightarrow> None | Some v \<Rightarrow> ei_get (nt_values r) v)"

definition nt_add_exclusions :: "'b roaring \<Rightarrow> ('t, 'v, 'b) not_rule \<Rightarrow> 'v option \<Rightarrow> 'b \<Rightarrow> 'b" where
  "nt_add_exclusions R r value dst =
     (case nt_set r value of Some s \<Rightarrow> es_add_to R s dst | None \<Rightarrow> dst)"

definition nt_exclude ::
  "'b roaring \<Rightarrow> ('t, 'v, 'b) not_rule \<Rightarrow> 't \<Rightarrow> ('v, 'b) pool \<Rightarrow> 'b \<Rightarrow> 'b \<times> ('v, 'b) pool" where
  "nt_exclude R r v p dst =
     local_search R Exclusion_Cache (=) (nt_node r) (nt_add_exclusions R r (nt_get r v)) (nt_get r v, None) p dst"

definition nt_is_excluded :: "'b roaring \<Rightarrow> ('t, 'v, 'b) not_rule \<Rightarrow> 't \<Rightarrow> u32 \<Rightarrow> bool" where
  "nt_is_excluded R r v i = (case nt_set r (nt_get r v) of Some s \<Rightarrow> es_contains R s i | None \<Rightarrow> False)"

definition nt_has_exclusions :: "('t, 'v, 'b) not_rule \<Rightarrow> bool" where
  "nt_has_exclusions r \<longleftrightarrow> length (ei_sets (nt_values r)) \<noteq> 0"

text \<open>In the positive tree the rule's \<open>search\<close> adds nothing and it offers no other operation.\<close>

definition nt_search :: "('t, 'v, 'b) not_rule \<Rightarrow> 't \<Rightarrow> ('v, 'b) pool \<Rightarrow> 'b \<Rightarrow> 'b \<times> ('v, 'b) pool" where
  "nt_search r v p dst = (dst, p)"

definition nt_ops :: "('t, 'v, 'b) not_rule \<Rightarrow> ('t, 'v, 'b) child_ops" where
  "nt_ops r =
     \<lparr>co_search = nt_search r, co_planning = None, co_cached = None, co_direct = None, co_work = None,
      co_filter = None, co_keys = [None], co_estimate = None, co_cached_estimate = None, co_cheap = None,
      co_cheap_zero = None, co_zero = None, co_shared = None, co_class = None\<rparr>"

section \<open>What it forbids\<close>

definition nt_den :: "'b roaring \<Rightarrow> ('t, 'v, 'b) not_rule \<Rightarrow> 't \<Rightarrow> u32 set" where
  "nt_den R r v = (case nt_get r v of None \<Rightarrow> {} | Some x \<Rightarrow> ei_posting R (nt_values r) x)"

definition nt_forbids :: "('t, 'v, 'b) not_rule \<Rightarrow> 't \<Rightarrow> 't \<Rightarrow> bool" where
  "nt_forbids r stored query \<longleftrightarrow>
     (case nt_get r stored of None \<Rightarrow> False | Some w \<Rightarrow> nt_get r query = Some w)"

definition nt_building :: "('t, 'v, 'b) not_rule \<Rightarrow> bool" where
  "nt_building r \<longleftrightarrow> ei_ok (nt_values r)"

definition nt_ready :: "'b roaring \<Rightarrow> 'v valuation \<Rightarrow> ('t, 'v, 'b) not_rule \<Rightarrow> bool" where
  "nt_ready R G r \<longleftrightarrow> nt_building r \<and> nt_node r < va_nodes G
     \<and> (\<forall>k. va_den G Exclusion_Cache (nt_node r) k
            = (case fst k of None \<Rightarrow> {} | Some x \<Rightarrow> ei_posting R (nt_values r) x))"

lemma nt_set_Some:
  assumes "nt_building r" "nt_set r (nt_get r v) = Some s"
  shows "es_ok s" "es_ids R s = nt_den R r v"
  using assms by (auto simp: nt_building_def nt_set_def nt_den_def ei_posting_def split: option.splits dest: ei_ok_get)

lemma nt_set_None: "nt_set r (nt_get r v) = None \<Longrightarrow> nt_den R r v = {}"
  by (auto simp: nt_set_def nt_den_def ei_posting_def split: option.splits)

text \<open>A rule that has stored no value forbids nothing.\<close>

lemma nt_no_exclusions:
  assumes "nt_building r" "\<not> nt_has_exclusions r"
  shows "nt_den R r v = {}"
proof -
  have "ei_get (nt_values r) x = None" for x
    using assms ei_ok_offset(1) [of "nt_values r" x]
    by (cases "ei_offset (nt_values r) x") (auto simp: nt_building_def nt_has_exclusions_def ei_get_def)
  then show ?thesis by (simp add: nt_den_def ei_posting_def split: option.split)
qed

context roaring
begin

lemma nt_add_exclusions_ids:
  "nt_building r \<Longrightarrow> bm_ids R (nt_add_exclusions R r (nt_get r v) dst) = bm_ids R dst \<union> nt_den R r v"
  by (cases "nt_set r (nt_get r v)")
    (simp_all add: nt_add_exclusions_def es_ids_add_to nt_set_Some nt_set_None)

lemma nt_is_excluded_iff: "nt_building r \<Longrightarrow> nt_is_excluded R r v i \<longleftrightarrow> i \<in> nt_den R r v"
  by (cases "nt_set r (nt_get r v)")
    (simp_all add: nt_is_excluded_def es_contains_iff nt_set_Some nt_set_None)

lemma nt_exclude_spec:
  assumes "nt_ready R G r" "pool_ok R G p" "nt_exclude R r v p dst = (dst', p')"
  shows "bm_ids R dst' = bm_ids R dst \<union> nt_den R r v" "pool_ok R G p'" "pool_step p p'"
proof -
  have node: "nt_node r < va_nodes G" and bld: "nt_building r"
    and den: "va_den G Exclusion_Cache (nt_node r) (nt_get r v, None) = nt_den R r v"
    using assms(1) by (auto simp: nt_ready_def nt_den_def)
  have fill: "bm_ids R (nt_add_exclusions R r (nt_get r v) d)
      = bm_ids R d \<union> va_den G Exclusion_Cache (nt_node r) (nt_get r v, None)" for d
    by (simp add: nt_add_exclusions_ids bld den)
  from local_search_spec [OF assms(2) node _ fill assms(3) [unfolded nt_exclude_def]] den
  show "bm_ids R dst' = bm_ids R dst \<union> nt_den R r v" "pool_ok R G p'" "pool_step p p'" by auto
qed

lemma nt_den_insert:
  assumes "nt_building r"
  shows "nt_den R (nt_insert R r t i) q = (if nt_forbids r t q then insert i (nt_den R r q) else nt_den R r q)"
  using assms
  by (auto simp: nt_insert_def nt_den_def nt_forbids_def nt_building_def ei_posting_add split: option.split)

end

lemma nt_building_insert: "nt_building r \<Longrightarrow> nt_building (nt_insert R r t i)"
  by (auto simp: nt_building_def nt_insert_def ei_ok_add split: option.split)

lemma nt_schema_insert [simp]: "nt_get (nt_insert R r t i) = nt_get r" "nt_node (nt_insert R r t i) = nt_node r"
  by (simp_all add: nt_insert_def split: option.split)

lemma nt_new: "nt_building (new_not_rule node get)" "nt_den R (new_not_rule node get) q = {}"
  by (simp_all add: nt_building_def new_not_rule_def nt_den_def split: option.split)

interpretation exclusion_filter: buildable "\<lambda>_. nt_building" "\<lambda>_. nt_building" nt_insert "\<lambda>_ r. r" "\<lambda>_ _. True" nt_forbids nt_den
  by unfold_locales (auto simp: roaring.nt_den_insert nt_building_insert nt_forbids_def fun_eq_iff split: option.split)

text \<open>The rule left in a positive tree denotes nothing.\<close>

interpretation exclusion_filter: searchable "\<lambda>R G r. True" "\<lambda>R. nt_ops" "\<lambda>R r v. {}"
  by unfold_locales
    (auto simp: ops_ok_def search_ok_def cached_ok_def static_ok_def estimates_ok_def nt_ops_def nt_search_def)

section \<open>Match-all\<close>

text \<open>\<open>source\<close> is the interned identity of the bitmap.\<close>

definition ma_search :: "'b roaring \<Rightarrow> 'b \<Rightarrow> 't \<Rightarrow> ('v, 'b) pool \<Rightarrow> 'b \<Rightarrow> 'b \<times> ('v, 'b) pool" where
  "ma_search R bits v p dst = (bm_or R dst bits, p)"

definition ma_ops :: "'b roaring \<Rightarrow> 'b \<times> u32 \<Rightarrow> ('t, 'v, 'b) child_ops" where
  "ma_ops R r =
     (case r of (bits, source) \<Rightarrow>
       \<lparr>co_search = ma_search R bits, co_planning = Some (\<lambda>_. Some (bits, Posting source)), co_cached = None,
        co_direct = Some (\<lambda>_ i. bm_contains R bits i), co_work = None, co_filter = None, co_keys = [None],
        co_estimate = Some (\<lambda>_. bm_card R bits), co_cached_estimate = None, co_cheap = Some (\<lambda>_. bm_card R bits),
        co_cheap_zero = None, co_zero = None, co_shared = None, co_class = None\<rparr>)"

context roaring
begin

lemma ma_ops_ok: "ops_ok R G (ma_ops R r) (\<lambda>_. bm_ids R (fst r))"
  by (cases r) (auto simp: ops_ok_def search_ok_def cached_ok_def static_ok_def estimates_ok_def ma_ops_def
      ma_search_def ids_or contains_iff card_zero_iff)

end

interpretation match_all: searchable "\<lambda>R G r. True" ma_ops "\<lambda>R r v. bm_ids R (fst r)"
  by unfold_locales (rule roaring.ma_ops_ok)

end
