(* ===== verification/Ordered_Index.thy ===== *)
theory Ordered_Index
  imports Postings
begin

text \<open>
  The block-structured index of the ordered filters (\<^verbatim>\<open>ordered_index.go\<close>,
  \<^verbatim>\<open>ordered_index_lookup.go\<close>): distinct values with their postings, in the order of the user's
  comparator, cut into blocks of at most 128 items that carry the union of their postings; an
  optional routing table that guesses the block of a value; unions of eight consecutive blocks; and
  prefix sums of the block cardinalities. The theory holds the definitions; the theorems are in
  \<open>Ordered_Insert\<close> (building) and \<open>Ordered_Lookup\<close> (queries).
\<close>

section \<open>Comparators\<close>

text \<open>
  A user comparator returns a negative, zero or positive number. The package documents that it must
  be a stable, transitive total order; values it calls equal need not be identical.
\<close>

locale comparator =
  fixes cmp :: "'v \<Rightarrow> 'v \<Rightarrow> int"
  assumes cmp_antisym: "cmp a b < 0 \<longleftrightarrow> 0 < cmp b a"
    and cmp_trans: "cmp a b \<le> 0 \<Longrightarrow> cmp b c \<le> 0 \<Longrightarrow> cmp a c \<le> 0"
begin

lemma cmp_refl [simp]: "cmp a a = 0"
  using cmp_antisym [of a a] by linarith

lemma cmp_eq_sym: "cmp a b = 0 \<longleftrightarrow> cmp b a = 0"
  using cmp_antisym [of a b] cmp_antisym [of b a] by linarith

lemma cmp_le_flip: "cmp a b \<le> 0 \<longleftrightarrow> 0 \<le> cmp b a"
  using cmp_antisym [of a b] cmp_antisym [of b a] by linarith

lemma cmp_less_le_trans: "cmp a b < 0 \<Longrightarrow> cmp b c \<le> 0 \<Longrightarrow> cmp a c < 0"
  by (meson cmp_trans cmp_antisym cmp_le_flip linorder_not_less)

lemma cmp_le_less_trans: "cmp a b \<le> 0 \<Longrightarrow> cmp b c < 0 \<Longrightarrow> cmp a c < 0"
  by (meson cmp_trans cmp_antisym cmp_le_flip linorder_not_less)

lemma cmp_less_trans: "cmp a b < 0 \<Longrightarrow> cmp b c < 0 \<Longrightarrow> cmp a c < 0"
  by (rule cmp_less_le_trans) auto

lemma cmp_eq_cong: "cmp a b = 0 \<Longrightarrow> cmp a c < 0 \<longleftrightarrow> cmp b c < 0"
  using cmp_le_less_trans [of a b c] cmp_le_less_trans [of b a c] cmp_eq_sym [of a b] by auto

lemma cmp_eq_cong0: "cmp a b = 0 \<Longrightarrow> cmp a c = 0 \<longleftrightarrow> cmp b c = 0"
  using cmp_trans [of a b c] cmp_trans [of b a c] cmp_trans [of c a b] cmp_trans [of c b a]
    cmp_eq_sym [of a b] cmp_eq_sym [of a c] cmp_eq_sym [of b c] cmp_le_flip [of a c]
    cmp_le_flip [of b c] by linarith

end

text \<open>\<open>cmp.Compare\<close> of the standard library, on integers.\<close>

definition go_compare :: "int \<Rightarrow> int \<Rightarrow> int" where
  "go_compare a b = (if a < b then - 1 else if b < a then 1 else 0)"

interpretation go_compare: comparator go_compare
  by unfold_locales (auto simp: go_compare_def split: if_splits)

section \<open>Data\<close>

record ('v, 'b) ordered_item =
  oi_value :: 'v
  oi_bits :: 'b

record ('v, 'b) ordered_block =
  ob_items :: "('v, 'b) ordered_item list"
  ob_bits :: 'b

record 'b ordered_range_block =
  rb_first :: nat
  rb_bits :: 'b

record ordered_routing =
  or_min :: u64
  or_width :: u64
  or_blocks :: "nat list"

text \<open>
  \<open>ox_key\<close> is \<open>orderedRoutingKey\<close> at the value type of the index: a monotonic key for the scalar
  types and \<open>time.Time\<close>, none for other types.
\<close>

record ('v, 'b) ordered_index =
  ox_compare :: "'v \<Rightarrow> 'v \<Rightarrow> int"
  ox_key :: "'v \<Rightarrow> u64 option"
  ox_blocks :: "('v, 'b) ordered_block list"
  ox_prefix :: "u64 list"
  ox_range :: "'b ordered_range_block list"
  ox_routing :: ordered_routing

definition orderedBlockSize :: nat where
  "orderedBlockSize = 64"

definition orderedRangeBlockSize :: nat where
  "orderedRangeBlockSize = 8"

definition no_routing :: ordered_routing where
  "no_routing = \<lparr>or_min = 0, or_width = 0, or_blocks = []\<rparr>"

definition new_ordered_index :: "('v \<Rightarrow> 'v \<Rightarrow> int) \<Rightarrow> ('v \<Rightarrow> u64 option) \<Rightarrow> ('v, 'b) ordered_index" where
  "new_ordered_index cmp key =
     \<lparr>ox_compare = cmp, ox_key = key, ox_blocks = [], ox_prefix = [], ox_range = [], ox_routing = no_routing\<rparr>"

definition last_value :: "('v, 'b) ordered_block \<Rightarrow> 'v" where
  "last_value b = oi_value (last (ob_items b))"

section \<open>Finding a block and a position\<close>

definition search_block :: "('v \<Rightarrow> 'v \<Rightarrow> int) \<Rightarrow> ('v, 'b) ordered_item list \<Rightarrow> 'v \<Rightarrow> nat" where
  "search_block cmp items v = bsearch (\<lambda>i. cmp (oi_value (items ! i)) v < 0) 0 (length items)"

definition searched_block_for :: "('v, 'b) ordered_index \<Rightarrow> 'v \<Rightarrow> nat" where
  "searched_block_for x v =
     (let lo = bsearch (\<lambda>i. ox_compare x (last_value (ox_blocks x ! i)) v < 0) 0 (length (ox_blocks x))
      in if lo = length (ox_blocks x) then length (ox_blocks x) - 1 else lo)"

fun route_down :: "('v, 'b) ordered_index \<Rightarrow> 'v \<Rightarrow> nat \<Rightarrow> nat" where
  "route_down x v 0 = 0"
| "route_down x v (Suc block) =
     (if ox_compare x (last_value (ox_blocks x ! block)) v < 0 then Suc block else route_down x v block)"

function route_up :: "('v, 'b) ordered_index \<Rightarrow> 'v \<Rightarrow> nat \<Rightarrow> nat" where
  "route_up x v block =
     (if block < length (ox_blocks x) - 1
      then if ox_compare x (last_value (ox_blocks x ! block)) v \<ge> 0 then block
           else route_up x v (Suc block)
      else block)"
  by pat_completeness auto
termination
  by (relation "measure (\<lambda>(x, v, block). length (ox_blocks x) - block)") auto

declare route_up.simps [simp del]

definition routed_block_for :: "('v, 'b) ordered_index \<Rightarrow> 'v \<Rightarrow> u64 \<Rightarrow> nat" where
  "routed_block_for x v key =
     (let r = ox_routing x;
          block = (if or_min r < key
                   then let slot = (key - or_min r) div or_width r
                        in if of_nat (length (or_blocks r)) \<le> slot then length (ox_blocks x) - 1
                           else or_blocks r ! unat slot
                   else 0)
      in route_up x v (route_down x v block))"

definition block_for :: "('v, 'b) ordered_index \<Rightarrow> 'v \<Rightarrow> nat" where
  "block_for x v =
     (if or_blocks (ox_routing x) \<noteq> []
      then (case ox_key x v of Some key \<Rightarrow> routed_block_for x v key | None \<Rightarrow> searched_block_for x v)
      else searched_block_for x v)"

section \<open>Insertion\<close>

definition union_items :: "'b roaring \<Rightarrow> ('v, 'b) ordered_item list \<Rightarrow> 'b" where
  "union_items R items = foldl (\<lambda>acc item. bm_or R acc (oi_bits item)) (bm_new R) items"

definition insert_item :: "'b roaring \<Rightarrow> ('v, 'b) ordered_index \<Rightarrow> ('v, 'b) ordered_item \<Rightarrow> ('v, 'b) ordered_index" where
  "insert_item R x item =
     (if ox_blocks x = []
      then x\<lparr>ox_blocks := [\<lparr>ob_items = [item], ob_bits = bm_new R\<rparr>]\<rparr>
      else
        let n = block_for x (oi_value item);
            block = ox_blocks x ! n;
            pos = search_block (ox_compare x) (ob_items block) (oi_value item);
            items = take pos (ob_items block) @ item # drop pos (ob_items block)
        in if length items \<le> orderedBlockSize * 2
           then x\<lparr>ox_blocks := (ox_blocks x)[n := block\<lparr>ob_items := items\<rparr>]\<rparr>
           else
             let right = drop orderedBlockSize items; left = take orderedBlockSize items
             in x\<lparr>ox_blocks :=
                   take n (ox_blocks x)
                   @ [\<lparr>ob_items = left, ob_bits = union_items R left\<rparr>,
                      \<lparr>ob_items = right, ob_bits = union_items R right\<rparr>]
                   @ drop (Suc n) (ox_blocks x)\<rparr>)"

text \<open>\<open>item.bits.Add(id)\<close> and \<open>block.bits.Add(id)\<close> for the item that holds the value.\<close>

definition add_to_item :: "'b roaring \<Rightarrow> ('v, 'b) ordered_index \<Rightarrow> 'v \<Rightarrow> u32 \<Rightarrow> ('v, 'b) ordered_index" where
  "add_to_item R x v i =
     (let n = block_for x v;
          block = ox_blocks x ! n;
          pos = search_block (ox_compare x) (ob_items block) v;
          item = ob_items block ! pos
      in x\<lparr>ox_blocks := (ox_blocks x)[n :=
            block\<lparr>ob_items := (ob_items block)[pos := item\<lparr>oi_bits := bm_add R (oi_bits item) i\<rparr>],
                   ob_bits := bm_add R (ob_bits block) i\<rparr>]\<rparr>)"

definition has_value :: "('v, 'b) ordered_index \<Rightarrow> 'v \<Rightarrow> bool" where
  "has_value x v =
     (ox_blocks x \<noteq> [] \<and>
      (let items = ob_items (ox_blocks x ! block_for x v);
           pos = search_block (ox_compare x) items v
       in pos < length items \<and> ox_compare x (oi_value (items ! pos)) v = 0))"

definition ox_insert :: "'b roaring \<Rightarrow> ('v, 'b) ordered_index \<Rightarrow> 'v \<Rightarrow> u32 \<Rightarrow> ('v, 'b) ordered_index" where
  "ox_insert R x v i =
     (if has_value x v then add_to_item R x v i
      else add_to_item R (insert_item R x \<lparr>oi_value = v, oi_bits = bm_new R\<rparr>) v i)"

section \<open>Preparing the index for queries\<close>

function route_advance :: "('v, 'b) ordered_index \<Rightarrow> u64 \<Rightarrow> nat \<Rightarrow> nat" where
  "route_advance x lower block =
     (if block < length (ox_blocks x) - 1
      then (case ox_key x (last_value (ox_blocks x ! block)) of
              None \<Rightarrow> block
            | Some key \<Rightarrow> if lower \<le> key then block else route_advance x lower (Suc block))
      else block)"
  by pat_completeness auto
termination
  by (relation "measure (\<lambda>(x, lower, block). length (ox_blocks x) - block)") auto

declare route_advance.simps [simp del]

fun routes_from :: "('v, 'b) ordered_index \<Rightarrow> u64 \<Rightarrow> u64 \<Rightarrow> nat \<Rightarrow> nat list \<Rightarrow> nat list" where
  "routes_from x first width block [] = []"
| "routes_from x first width block (slot # slots) =
     (let b = route_advance x (first + of_nat slot * width) block
      in b # routes_from x first width b slots)"

definition prepare_routing :: "('v, 'b) ordered_index \<Rightarrow> ('v, 'b) ordered_index" where
  "prepare_routing x =
     (if ox_blocks x = [] then x
      else case ox_key x (oi_value (hd (ob_items (hd (ox_blocks x))))) of
        None \<Rightarrow> x
      | Some firstKey \<Rightarrow>
          (case ox_key x (last_value (last (ox_blocks x))) of
             None \<Rightarrow> x
           | Some lastKey \<Rightarrow>
               if lastKey < firstKey then x
               else
                 let count = of_nat (length (ox_blocks x));
                     span = lastKey - firstKey;
                     width = span div count + 1
                 in if width = 0 then x
                    else let used = min (span div width + 1) count
                         in if used < 2 then x
                            else x\<lparr>ox_routing := \<lparr>or_min = firstKey, or_width = width,
                                   or_blocks = routes_from x firstKey width 0 [0..<unat used]\<rparr>\<rparr>))"

definition share_single :: "('v, 'b) ordered_block \<Rightarrow> ('v, 'b) ordered_block" where
  "share_single b = (case ob_items b of [item] \<Rightarrow> b\<lparr>ob_bits := oi_bits item\<rparr> | _ \<Rightarrow> b)"

fun prefix_sums :: "u64 \<Rightarrow> u64 list \<Rightarrow> u64 list" where
  "prefix_sums acc [] = [acc]"
| "prefix_sums acc (c # cs) = acc # prefix_sums (acc + c) cs"

definition ox_prepare_search :: "'b roaring \<Rightarrow> ('v, 'b) ordered_index \<Rightarrow> ('v, 'b) ordered_index" where
  "ox_prepare_search R x =
     (let x = prepare_routing x
      in x\<lparr>ox_prefix := prefix_sums 0 (map (\<lambda>b. bm_card R (ob_bits b)) (ox_blocks x)),
            ox_blocks := map share_single (ox_blocks x)\<rparr>)"

definition range_union :: "'b roaring \<Rightarrow> ('v, 'b) ordered_index \<Rightarrow> nat \<Rightarrow> 'b" where
  "range_union R x first =
     foldl (\<lambda>acc n. bm_or R acc (ob_bits (ox_blocks x ! n))) (bm_new R) [first..<first + orderedRangeBlockSize]"

definition ox_prepare_range_search :: "'b roaring \<Rightarrow> ('v, 'b) ordered_index \<Rightarrow> ('v, 'b) ordered_index" where
  "ox_prepare_range_search R x =
     (if length (ox_blocks x) < orderedRangeBlockSize * 2 then x
      else x\<lparr>ox_range := map (\<lambda>k. \<lparr>rb_first = k * orderedRangeBlockSize,
                                     rb_bits = range_union R x (k * orderedRangeBlockSize)\<rparr>)
                          [0..<length (ox_blocks x) div orderedRangeBlockSize]\<rparr>)"

section \<open>Queries\<close>

text \<open>The two boundary searches, shared by \<open>walk\<close>, \<open>matches\<close> and \<open>estimateCardinality\<close>.\<close>

definition asc_bound :: "('v \<Rightarrow> 'v \<Rightarrow> int) \<Rightarrow> bool \<Rightarrow> ('v, 'b) ordered_item list \<Rightarrow> 'v \<Rightarrow> nat" where
  "asc_bound cmp inclusive items v =
     bsearch (\<lambda>i. cmp (oi_value (items ! i)) v < 0 \<or> \<not> inclusive \<and> cmp (oi_value (items ! i)) v = 0)
       0 (length items)"

definition desc_bound :: "('v \<Rightarrow> 'v \<Rightarrow> int) \<Rightarrow> bool \<Rightarrow> ('v, 'b) ordered_item list \<Rightarrow> 'v \<Rightarrow> nat" where
  "desc_bound cmp inclusive items v =
     bsearch (\<lambda>i. cmp (oi_value (items ! i)) v < 0 \<or> inclusive \<and> cmp (oi_value (items ! i)) v = 0)
       0 (length items)"

definition ox_exact :: "('v, 'b) ordered_index \<Rightarrow> 'v \<Rightarrow> 'b option" where
  "ox_exact x v =
     (if ox_blocks x = [] then None
      else let items = ob_items (ox_blocks x ! block_for x v);
               pos = search_block (ox_compare x) items v
           in if pos = length items \<or> ox_compare x (oi_value (items ! pos)) v \<noteq> 0 then None
              else Some (oi_bits (items ! pos)))"

definition ox_ceiling :: "('v, 'b) ordered_index \<Rightarrow> 'v \<Rightarrow> 'b option" where
  "ox_ceiling x v =
     (if ox_blocks x = [] then None
      else let items = ob_items (ox_blocks x ! block_for x v);
               pos = search_block (ox_compare x) items v
           in if pos = length items then None else Some (oi_bits (items ! pos)))"

text \<open>
  \<open>walkBlockRange\<close> visits single blocks up to a multiple of eight, then unions of eight, then
  single blocks; a walk is the list of the bitmaps it visits, in order.
\<close>

definition walk_tail :: "('v, 'b) ordered_index \<Rightarrow> nat \<Rightarrow> nat \<Rightarrow> 'b list" where
  "walk_tail x first hi = map (\<lambda>n. ob_bits (ox_blocks x ! n)) [first..<hi]"

definition range_ready :: "('v, 'b) ordered_index \<Rightarrow> nat \<Rightarrow> bool" where
  "range_ready x first =
     (let k = first div orderedRangeBlockSize
      in k < length (ox_range x) \<and> rb_first (ox_range x ! k) = first)"

function walk_jump :: "('v, 'b) ordered_index \<Rightarrow> nat \<Rightarrow> nat \<Rightarrow> 'b list" where
  "walk_jump x first hi =
     (if first + orderedRangeBlockSize \<le> hi \<and> range_ready x first
      then rb_bits (ox_range x ! (first div orderedRangeBlockSize))
             # walk_jump x (first + orderedRangeBlockSize) hi
      else walk_tail x first hi)"
  by pat_completeness auto
termination
  by (relation "measure (\<lambda>(x, first, hi). hi - first)") (auto simp: orderedRangeBlockSize_def)

function walk_block_range :: "('v, 'b) ordered_index \<Rightarrow> nat \<Rightarrow> nat \<Rightarrow> 'b list" where
  "walk_block_range x first hi =
     (if first < hi \<and> first mod orderedRangeBlockSize \<noteq> 0
      then ob_bits (ox_blocks x ! first) # walk_block_range x (Suc first) hi
      else walk_jump x first hi)"
  by pat_completeness auto
termination
  by (relation "measure (\<lambda>(x, first, hi). hi - first)") auto

declare walk_jump.simps [simp del] walk_block_range.simps [simp del]

definition ox_walk :: "('v, 'b) ordered_index \<Rightarrow> 'v \<Rightarrow> bool \<Rightarrow> bool \<Rightarrow> 'b list" where
  "ox_walk x v ascending inclusive =
     (if ox_blocks x = [] then []
      else
        let n = block_for x v;
            block = ox_blocks x ! n;
            items = ob_items block
        in if ascending
           then let lo = asc_bound (ox_compare x) inclusive items v
                in (if lo = 0 then [ob_bits block] else map oi_bits (drop lo items))
                   @ walk_block_range x (Suc n) (length (ox_blocks x))
           else let lo = desc_bound (ox_compare x) inclusive items v
                in (if lo = length items then [ob_bits block] else rev (map oi_bits (take lo items)))
                   @ walk_block_range x 0 n)"

function contains_tail :: "'b roaring \<Rightarrow> ('v, 'b) ordered_index \<Rightarrow> nat \<Rightarrow> nat \<Rightarrow> u32 \<Rightarrow> bool" where
  "contains_tail R x first hi i =
     (if first < hi
      then if bm_contains R (ob_bits (ox_blocks x ! first)) i then True
           else contains_tail R x (Suc first) hi i
      else False)"
  by pat_completeness auto
termination
  by (relation "measure (\<lambda>(R, x, first, hi, i). hi - first)") auto

function contains_jump :: "'b roaring \<Rightarrow> ('v, 'b) ordered_index \<Rightarrow> nat \<Rightarrow> nat \<Rightarrow> u32 \<Rightarrow> bool" where
  "contains_jump R x first hi i =
     (if first + orderedRangeBlockSize \<le> hi \<and> range_ready x first
      then if bm_contains R (rb_bits (ox_range x ! (first div orderedRangeBlockSize))) i then True
           else contains_jump R x (first + orderedRangeBlockSize) hi i
      else contains_tail R x first hi i)"
  by pat_completeness auto
termination
  by (relation "measure (\<lambda>(R, x, first, hi, i). hi - first)") (auto simp: orderedRangeBlockSize_def)

function block_range_contains :: "'b roaring \<Rightarrow> ('v, 'b) ordered_index \<Rightarrow> nat \<Rightarrow> nat \<Rightarrow> u32 \<Rightarrow> bool" where
  "block_range_contains R x first hi i =
     (if first < hi \<and> first mod orderedRangeBlockSize \<noteq> 0
      then if bm_contains R (ob_bits (ox_blocks x ! first)) i then True
           else block_range_contains R x (Suc first) hi i
      else contains_jump R x first hi i)"
  by pat_completeness auto
termination
  by (relation "measure (\<lambda>(R, x, first, hi, i). hi - first)") auto

declare contains_tail.simps [simp del] contains_jump.simps [simp del] block_range_contains.simps [simp del]

definition ox_matches :: "'b roaring \<Rightarrow> ('v, 'b) ordered_index \<Rightarrow> 'v \<Rightarrow> bool \<Rightarrow> bool \<Rightarrow> u32 \<Rightarrow> bool" where
  "ox_matches R x v ascending inclusive i =
     (if ox_blocks x = [] then False
      else
        let n = block_for x v;
            block = ox_blocks x ! n;
            items = ob_items block
        in if ascending
           then let lo = asc_bound (ox_compare x) inclusive items v
                in if (if lo = 0 then bm_contains R (ob_bits block) i
                       else list_ex (\<lambda>item. bm_contains R (oi_bits item) i) (drop lo items))
                   then True
                   else block_range_contains R x (Suc n) (length (ox_blocks x)) i
           else let lo = desc_bound (ox_compare x) inclusive items v
                in if (if lo = length items then bm_contains R (ob_bits block) i
                       else list_ex (\<lambda>item. bm_contains R (oi_bits item) i) (rev (take lo items)))
                   then True
                   else block_range_contains R x 0 n i)"

definition items_card :: "'b roaring \<Rightarrow> ('v, 'b) ordered_item list \<Rightarrow> u64" where
  "items_card R items = sum_list (map (\<lambda>item. bm_card R (oi_bits item)) items)"

definition blocks_card :: "'b roaring \<Rightarrow> ('v, 'b) ordered_block list \<Rightarrow> u64" where
  "blocks_card R blocks = sum_list (map (\<lambda>b. bm_card R (ob_bits b)) blocks)"

definition ox_estimate :: "'b roaring \<Rightarrow> ('v, 'b) ordered_index \<Rightarrow> 'v \<Rightarrow> bool \<Rightarrow> bool \<Rightarrow> u64" where
  "ox_estimate R x v ascending inclusive =
     (if ox_blocks x = [] then 0
      else
        let n = block_for x v;
            items = ob_items (ox_blocks x ! n);
            prefixed = (length (ox_prefix x) = length (ox_blocks x) + 1)
        in if ascending
           then items_card R (drop (asc_bound (ox_compare x) inclusive items v) items)
                + (if prefixed then ox_prefix x ! length (ox_blocks x) - ox_prefix x ! Suc n
                   else blocks_card R (drop (Suc n) (ox_blocks x)))
           else items_card R (take (desc_bound (ox_compare x) inclusive items v) items)
                + (if prefixed then ox_prefix x ! n else blocks_card R (take n (ox_blocks x))))"

end
