(* ===== verification/Ordered_Insert.thy ===== *)
theory Ordered_Insert
  imports Ordered_Index
begin

text \<open>
  Building an ordered index: the block structure represents one sorted list of items, a lookup finds
  the block that a linear search would find whatever the routing table says, and an insertion acts
  on the sorted list as insertion into a list does.
\<close>

section \<open>The represented list and the invariant\<close>

definition flat :: "('v, 'b) ordered_index \<Rightarrow> ('v, 'b) ordered_item list" where
  "flat x = concat (map ob_items (ox_blocks x))"

definition items_ids :: "'b roaring \<Rightarrow> ('v, 'b) ordered_item list \<Rightarrow> u32 set" where
  "items_ids R items = (\<Union>item\<in>set items. bm_ids R (oi_bits item))"

definition block_ok :: "'b roaring \<Rightarrow> ('v, 'b) ordered_block \<Rightarrow> bool" where
  "block_ok R b \<longleftrightarrow> ob_items b \<noteq> [] \<and> length (ob_items b) \<le> orderedBlockSize * 2
     \<and> bm_ids R (ob_bits b) = items_ids R (ob_items b)"

definition routing_ok :: "('v, 'b) ordered_index \<Rightarrow> bool" where
  "routing_ok x \<longleftrightarrow> (\<forall>n\<in>set (or_blocks (ox_routing x)). n < length (ox_blocks x))"

definition range_ok :: "'b roaring \<Rightarrow> ('v, 'b) ordered_index \<Rightarrow> bool" where
  "range_ok R x \<longleftrightarrow> (\<forall>k<length (ox_range x).
     rb_first (ox_range x ! k) = k * orderedRangeBlockSize
     \<and> (k + 1) * orderedRangeBlockSize \<le> length (ox_blocks x)
     \<and> bm_ids R (rb_bits (ox_range x ! k))
         = (\<Union>n\<in>{k * orderedRangeBlockSize..<(k + 1) * orderedRangeBlockSize}. bm_ids R (ob_bits (ox_blocks x ! n))))"

definition prefix_ok :: "'b roaring \<Rightarrow> ('v, 'b) ordered_index \<Rightarrow> bool" where
  "prefix_ok R x \<longleftrightarrow> (length (ox_prefix x) = length (ox_blocks x) + 1 \<longrightarrow>
     (\<forall>n\<le>length (ox_blocks x). ox_prefix x ! n = blocks_card R (take n (ox_blocks x))))"

definition sorted_items :: "('v \<Rightarrow> 'v \<Rightarrow> int) \<Rightarrow> ('v, 'b) ordered_item list \<Rightarrow> bool" where
  "sorted_items cmp items \<longleftrightarrow> sorted_wrt (\<lambda>a b. cmp (oi_value a) (oi_value b) < 0) items"

definition ox_ok :: "'b roaring \<Rightarrow> ('v, 'b) ordered_index \<Rightarrow> bool" where
  "ox_ok R x \<longleftrightarrow> comparator (ox_compare x) \<and> (\<forall>b\<in>set (ox_blocks x). block_ok R b)
     \<and> sorted_items (ox_compare x) (flat x) \<and> routing_ok x \<and> range_ok R x \<and> prefix_ok R x"

text \<open>While the index accepts insertions no derived table exists yet.\<close>

definition ox_building :: "'b roaring \<Rightarrow> ('v, 'b) ordered_index \<Rightarrow> bool" where
  "ox_building R x \<longleftrightarrow> ox_ok R x \<and> or_blocks (ox_routing x) = [] \<and> ox_range x = [] \<and> ox_prefix x = []"

lemma ox_building_new: "comparator cmp \<Longrightarrow> ox_building R (new_ordered_index cmp key)"
  by (simp add: ox_building_def ox_ok_def new_ordered_index_def flat_def sorted_items_def routing_ok_def
      range_ok_def prefix_ok_def no_routing_def)

lemma ox_ok_building: "ox_building R x \<Longrightarrow> ox_ok R x"
  by (simp add: ox_building_def)

lemma items_ids_simps [simp]:
  "items_ids R [] = {}"
  "items_ids R (item # items) = bm_ids R (oi_bits item) \<union> items_ids R items"
  "items_ids R (items @ items') = items_ids R items \<union> items_ids R items'"
  by (auto simp: items_ids_def)

context roaring
begin

lemma ids_union_items: "bm_ids R (union_items R items) = items_ids R items"
proof -
  have "bm_ids R (foldl (\<lambda>acc item. bm_or R acc (oi_bits item)) b items) = bm_ids R b \<union> items_ids R items" for b
    by (induction items arbitrary: b) (auto simp: ids_or)
  then show ?thesis by (simp add: union_items_def ids_new)
qed

end

section \<open>Finding the block of a value\<close>

text \<open>Block \<open>n\<close> is the first whose last value is not below \<open>v\<close>, or the last block.\<close>

definition block_pos :: "('v, 'b) ordered_index \<Rightarrow> 'v \<Rightarrow> nat \<Rightarrow> bool" where
  "block_pos x v n \<longleftrightarrow> n < length (ox_blocks x)
     \<and> (\<forall>i<n. ox_compare x (last_value (ox_blocks x ! i)) v < 0)
     \<and> (Suc n < length (ox_blocks x) \<longrightarrow> \<not> ox_compare x (last_value (ox_blocks x ! n)) v < 0)"

lemma block_pos_unique: "block_pos x v m \<Longrightarrow> block_pos x v n \<Longrightarrow> m = n"
  unfolding block_pos_def by (metis Suc_lessI less_trans_Suc linorder_neqE_nat Suc_leI le_less_trans)

lemma sorted_items_concat:
  "sorted_items cmp (concat (map ob_items bs)) \<longleftrightarrow>
     (\<forall>b\<in>set bs. sorted_items cmp (ob_items b))
     \<and> (\<forall>i j. i < j \<longrightarrow> j < length bs \<longrightarrow>
          (\<forall>a\<in>set (ob_items (bs ! i)). \<forall>c\<in>set (ob_items (bs ! j)). cmp (oi_value a) (oi_value c) < 0))"
proof (induction bs)
  case Nil
  show ?case by (simp add: sorted_items_def)
next
  case (Cons b bs)
  have "sorted_items cmp (concat (map ob_items (b # bs))) \<longleftrightarrow>
      sorted_items cmp (ob_items b) \<and> sorted_items cmp (concat (map ob_items bs))
      \<and> (\<forall>a\<in>set (ob_items b). \<forall>j<length bs. \<forall>c\<in>set (ob_items (bs ! j)). cmp (oi_value a) (oi_value c) < 0)"
    by (auto simp: sorted_items_def sorted_wrt_append all_set_conv_all_nth)
  also have "\<dots> \<longleftrightarrow> (\<forall>b\<in>set (b # bs). sorted_items cmp (ob_items b))
     \<and> (\<forall>i j. i < j \<longrightarrow> j < length (b # bs) \<longrightarrow>
          (\<forall>a\<in>set (ob_items ((b # bs) ! i)). \<forall>c\<in>set (ob_items ((b # bs) ! j)). cmp (oi_value a) (oi_value c) < 0))"
    unfolding Cons.IH by (auto simp: nth_Cons less_Suc_eq_0_disj split: nat.splits)
  finally show ?case .
qed

lemma ox_ok_comparator: "ox_ok R x \<Longrightarrow> comparator (ox_compare x)"
  by (simp add: ox_ok_def)

lemma ox_ok_block: "ox_ok R x \<Longrightarrow> n < length (ox_blocks x) \<Longrightarrow> block_ok R (ox_blocks x ! n)"
  by (simp add: ox_ok_def)

lemma ox_ok_block_items:
  "ox_ok R x \<Longrightarrow> n < length (ox_blocks x) \<Longrightarrow> ob_items (ox_blocks x ! n) \<noteq> []"
  using ox_ok_block by (fastforce simp: block_ok_def)

lemma ox_ok_last_in:
  "ox_ok R x \<Longrightarrow> n < length (ox_blocks x) \<Longrightarrow>
   last (ob_items (ox_blocks x ! n)) \<in> set (ob_items (ox_blocks x ! n))"
  by (simp add: ox_ok_block_items)

lemma ox_ok_block_sorted:
  "ox_ok R x \<Longrightarrow> n < length (ox_blocks x) \<Longrightarrow> sorted_items (ox_compare x) (ob_items (ox_blocks x ! n))"
  by (simp add: ox_ok_def flat_def sorted_items_concat)

lemma ox_ok_blocks_less:
  "ox_ok R x \<Longrightarrow> i < j \<Longrightarrow> j < length (ox_blocks x) \<Longrightarrow>
   a \<in> set (ob_items (ox_blocks x ! i)) \<Longrightarrow> c \<in> set (ob_items (ox_blocks x ! j)) \<Longrightarrow>
   ox_compare x (oi_value a) (oi_value c) < 0"
  by (simp add: ox_ok_def flat_def sorted_items_concat)

lemma ox_ok_last_less:
  "ox_ok R x \<Longrightarrow> i < j \<Longrightarrow> j < length (ox_blocks x) \<Longrightarrow>
   ox_compare x (last_value (ox_blocks x ! i)) (last_value (ox_blocks x ! j)) < 0"
  unfolding last_value_def
  by (rule ox_ok_blocks_less) (auto intro: ox_ok_last_in)

lemma ox_ok_last_mono:
  assumes "ox_ok R x" "i \<le> j" "j < length (ox_blocks x)"
    and "ox_compare x (last_value (ox_blocks x ! j)) v < 0"
  shows "ox_compare x (last_value (ox_blocks x ! i)) v < 0"
proof (cases "i = j")
  case False
  have order: "comparator (ox_compare x)" using assms(1) by (rule ox_ok_comparator)
  note cmp_refl [simp] = comparator.cmp_refl [OF order]
  note cmp_less_trans = comparator.cmp_less_trans [OF order]
  from False show ?thesis
    using ox_ok_last_less [OF assms(1), of i j] assms by (auto intro: cmp_less_trans)
qed (use assms in simp)

lemma searched_block_pos:
  assumes "ox_ok R x" "ox_blocks x \<noteq> []"
  shows "block_pos x v (searched_block_for x v)"
proof -
  let ?P = "\<lambda>i. ox_compare x (last_value (ox_blocks x ! i)) v < 0"
  let ?n = "length (ox_blocks x)"
  let ?r = "bsearch ?P 0 ?n"
  have "0 \<le> ?r \<and> ?r \<le> ?n \<and> (\<forall>i. 0 \<le> i \<and> i < ?r \<longrightarrow> ?P i) \<and> (\<forall>i. ?r \<le> i \<and> i < ?n \<longrightarrow> \<not> ?P i)"
    by (rule bsearch_split) (simp, erule (2) ox_ok_last_mono [OF assms(1)])
  then have r: "?r \<le> ?n" "\<And>i. i < ?r \<Longrightarrow> ?P i" "\<And>i. ?r \<le> i \<Longrightarrow> i < ?n \<Longrightarrow> \<not> ?P i"
    by blast+
  show ?thesis
  proof (cases "?r = ?n")
    case True
    with assms(2) r(2) show ?thesis
      unfolding block_pos_def searched_block_for_def Let_def by simp
  next
    case False
    with r(1) have "?r < ?n" by simp
    with False r(2) r(3) [of ?r] show ?thesis
      unfolding block_pos_def searched_block_for_def Let_def by simp
  qed
qed

lemma route_down_spec:
  "route_down x v b \<le> b \<and> (\<forall>i. route_down x v b \<le> i \<and> i < b \<longrightarrow> \<not> ox_compare x (last_value (ox_blocks x ! i)) v < 0)
   \<and> (route_down x v b \<noteq> 0 \<longrightarrow> ox_compare x (last_value (ox_blocks x ! (route_down x v b - 1))) v < 0)"
  by (induction x v b rule: route_down.induct) (auto simp: le_Suc_eq less_Suc_eq)

lemma route_up_spec:
  assumes "ox_ok R x" "b < length (ox_blocks x)"
    and "\<forall>i<b. ox_compare x (last_value (ox_blocks x ! i)) v < 0"
  shows "block_pos x v (route_up x v b)"
  using assms
proof (induction x v b rule: route_up.induct)
  case (1 x v b)
  show ?case
  proof (cases "b < length (ox_blocks x) - 1 \<and> ox_compare x (last_value (ox_blocks x ! b)) v < 0")
    case True
    then have "route_up x v b = route_up x v (Suc b)"
      by (subst route_up.simps) simp
    moreover have "block_pos x v (route_up x v (Suc b))"
      by (rule "1.IH") (use True "1.prems" in \<open>auto simp: less_Suc_eq\<close>)
    ultimately show ?thesis by simp
  next
    case False
    then have "route_up x v b = b"
      by (subst route_up.simps) auto
    with False "1.prems" show ?thesis by (auto simp: block_pos_def)
  qed
qed

lemma routed_block_pos:
  assumes "ox_ok R x" "ox_blocks x \<noteq> []"
  shows "block_pos x v (routed_block_for x v key)"
proof -
  have down: "block_pos x v (route_up x v (route_down x v b))" if "b < length (ox_blocks x)" for b
  proof (rule route_up_spec [OF assms(1)])
    let ?d = "route_down x v b"
    show "?d < length (ox_blocks x)" using route_down_spec [of x v b] that by linarith
    show "\<forall>i<?d. ox_compare x (last_value (ox_blocks x ! i)) v < 0"
    proof (intro allI impI)
      fix i assume "i < ?d"
      then show "ox_compare x (last_value (ox_blocks x ! i)) v < 0"
        using route_down_spec [of x v b] that
        by (intro ox_ok_last_mono [OF assms(1), of i "?d - 1"]) auto
    qed
  qed
  have route: "or_blocks (ox_routing x) ! unat slot < length (ox_blocks x)"
    if "\<not> of_nat (length (or_blocks (ox_routing x))) \<le> slot" for slot :: u64
  proof -
    from that have "slot < of_nat (length (or_blocks (ox_routing x)))" by simp
    then have "unat slot < unat (of_nat (length (or_blocks (ox_routing x))) :: u64)"
      by (simp add: word_less_nat_alt)
    also have "\<dots> \<le> length (or_blocks (ox_routing x))"
      by (simp add: unsigned_of_nat take_bit_eq_mod)
    finally show ?thesis
      using assms(1) by (auto simp: ox_ok_def routing_ok_def)
  qed
  show ?thesis
    unfolding routed_block_for_def Let_def
    by (intro down) (use assms(2) route in \<open>auto split: if_splits\<close>)
qed

lemma block_for_pos:
  "ox_ok R x \<Longrightarrow> ox_blocks x \<noteq> [] \<Longrightarrow> block_pos x v (block_for x v)"
  by (auto simp: block_for_def searched_block_pos routed_block_pos split: option.splits)

text \<open>A routing table only changes where the search starts, never what it finds.\<close>

lemma block_for_eq_searched:
  "ox_ok R x \<Longrightarrow> ox_blocks x \<noteq> [] \<Longrightarrow> block_for x v = searched_block_for x v"
  by (rule block_pos_unique [OF block_for_pos searched_block_pos])

text \<open>What the position says of the items before, in and after the block.\<close>

lemma block_pos_before:
  assumes "ox_ok R x" "block_pos x v n" "i < n" "a \<in> set (ob_items (ox_blocks x ! i))"
  shows "ox_compare x (oi_value a) v < 0"
proof -
  have order: "comparator (ox_compare x)" using assms(1) by (rule ox_ok_comparator)
  note cmp_refl [simp] = comparator.cmp_refl [OF order]
  note cmp_le_less_trans = comparator.cmp_le_less_trans [OF order]
  have i: "i < length (ox_blocks x)" using assms by (simp add: block_pos_def)
  have "ox_compare x (oi_value a) (last_value (ox_blocks x ! i)) \<le> 0"
  proof -
    obtain k where k: "k < length (ob_items (ox_blocks x ! i))" "a = ob_items (ox_blocks x ! i) ! k"
      using assms(4) by (metis in_set_conv_nth)
    let ?l = "length (ob_items (ox_blocks x ! i)) - 1"
    have last: "last (ob_items (ox_blocks x ! i)) = ob_items (ox_blocks x ! i) ! ?l"
      using ox_ok_block_items [OF assms(1) i] by (simp add: last_conv_nth)
    show ?thesis
      using ox_ok_block_sorted [OF assms(1) i] k
      by (cases "k = ?l")
         (auto simp: last last_value_def sorted_items_def sorted_wrt_iff_nth_less less_imp_le)
  qed
  moreover have "ox_compare x (last_value (ox_blocks x ! i)) v < 0"
    using assms(2,3) by (simp add: block_pos_def)
  ultimately show ?thesis by (rule cmp_le_less_trans)
qed

lemma block_pos_after:
  assumes "ox_ok R x" "block_pos x v n" "n < j" "j < length (ox_blocks x)"
    and "a \<in> set (ob_items (ox_blocks x ! j))"
  shows "0 < ox_compare x (oi_value a) v"
proof -
  have order: "comparator (ox_compare x)" using assms(1) by (rule ox_ok_comparator)
  note cmp_refl [simp] = comparator.cmp_refl [OF order]
  note cmp_antisym = comparator.cmp_antisym [OF order]
  note cmp_le_flip = comparator.cmp_le_flip [OF order]
  note cmp_le_less_trans = comparator.cmp_le_less_trans [OF order]
  have "ox_compare x (last_value (ox_blocks x ! n)) (oi_value a) < 0"
    unfolding last_value_def
    using assms by (intro ox_ok_blocks_less) (auto intro: ox_ok_last_in)
  moreover have "0 \<le> ox_compare x (last_value (ox_blocks x ! n)) v"
    using assms(2-4) by (simp add: block_pos_def)
  ultimately have "ox_compare x v (oi_value a) < 0"
    by (metis cmp_le_flip cmp_le_less_trans)
  then show ?thesis by (simp add: cmp_antisym)
qed

section \<open>Positions inside a block\<close>

lemma sorted_items_split:
  assumes "comparator cmp" "sorted_items cmp items"
    and "\<And>a b. cmp a b < 0 \<Longrightarrow> p b \<Longrightarrow> p a"
  shows "sorted_wrt (\<lambda>a b. p (oi_value b) \<longrightarrow> p (oi_value a)) items"
  using assms(2) unfolding sorted_items_def
  by (rule sorted_wrt_mono_rel [rotated]) (use assms(3) in blast)

lemma search_block_takeWhile:
  assumes "comparator cmp" "sorted_items cmp items"
  shows "search_block cmp items v = length (takeWhile (\<lambda>item. cmp (oi_value item) v < 0) items)"
  unfolding search_block_def
  by (rule bsearch_takeWhile, rule sorted_items_split [OF assms])
     (auto intro: comparator.cmp_less_trans [OF assms(1)])

lemma asc_bound_takeWhile:
  assumes "comparator cmp" "sorted_items cmp items"
  shows "asc_bound cmp inclusive items v
    = length (takeWhile (\<lambda>item. cmp (oi_value item) v < 0 \<or> \<not> inclusive \<and> cmp (oi_value item) v = 0) items)"
  unfolding asc_bound_def
  by (rule bsearch_takeWhile, rule sorted_items_split [OF assms])
     (auto intro: comparator.cmp_less_le_trans [OF assms(1)])

lemma desc_bound_takeWhile:
  assumes "comparator cmp" "sorted_items cmp items"
  shows "desc_bound cmp inclusive items v
    = length (takeWhile (\<lambda>item. cmp (oi_value item) v < 0 \<or> inclusive \<and> cmp (oi_value item) v = 0) items)"
  unfolding desc_bound_def
  by (rule bsearch_takeWhile, rule sorted_items_split [OF assms])
     (auto intro: comparator.cmp_less_le_trans [OF assms(1)])

text \<open>In a sorted list a downward closed predicate holds of a prefix, and of nothing after it.\<close>

lemma sorted_prefix_filter:
  assumes "sorted_wrt (\<lambda>a b. p b \<longrightarrow> p a) xs"
  shows "takeWhile p xs = filter p xs" "dropWhile p xs = filter (\<lambda>x. \<not> p x) xs"
  using assms by (induction xs) (auto simp: filter_empty_conv filter_id_conv)

section \<open>Cutting the list at the block of a value\<close>

definition before_block :: "('v, 'b) ordered_index \<Rightarrow> nat \<Rightarrow> ('v, 'b) ordered_item list" where
  "before_block x n = concat (map ob_items (take n (ox_blocks x)))"

definition after_block :: "('v, 'b) ordered_index \<Rightarrow> nat \<Rightarrow> ('v, 'b) ordered_item list" where
  "after_block x n = concat (map ob_items (drop (Suc n) (ox_blocks x)))"

lemma flat_cut:
  assumes "n < length (ox_blocks x)"
  shows "flat x = before_block x n @ ob_items (ox_blocks x ! n) @ after_block x n"
proof -
  have "ox_blocks x = take n (ox_blocks x) @ ox_blocks x ! n # drop (Suc n) (ox_blocks x)"
    using assms by (rule id_take_nth_drop)
  then have "flat x = concat (map ob_items (take n (ox_blocks x) @ ox_blocks x ! n # drop (Suc n) (ox_blocks x)))"
    unfolding flat_def by (rule arg_cong)
  then show ?thesis by (simp add: before_block_def after_block_def)
qed

lemma flat_update_block:
  assumes "n < length (ox_blocks x)"
  shows "flat (x\<lparr>ox_blocks := (ox_blocks x)[n := b]\<rparr>) = before_block x n @ ob_items b @ after_block x n"
  using assms by (simp add: flat_def before_block_def after_block_def upd_conv_take_nth_drop)

lemma before_block_less:
  assumes "ox_ok R x" "block_pos x v n" "a \<in> set (before_block x n)"
  shows "ox_compare x (oi_value a) v < 0"
proof -
  obtain b where b: "b \<in> set (take n (ox_blocks x))" "a \<in> set (ob_items b)"
    using assms(3) by (auto simp: before_block_def)
  then obtain i where "i < n" "b = ox_blocks x ! i"
    by (auto simp: in_set_conv_nth)
  with b assms show ?thesis by (auto intro: block_pos_before)
qed

lemma after_block_greater:
  assumes "ox_ok R x" "block_pos x v n" "a \<in> set (after_block x n)"
  shows "0 < ox_compare x (oi_value a) v"
proof -
  obtain b where b: "b \<in> set (drop (Suc n) (ox_blocks x))" "a \<in> set (ob_items b)"
    using assms(3) by (auto simp: after_block_def)
  then obtain k where "k < length (ox_blocks x) - Suc n" "b = ox_blocks x ! (Suc n + k)"
    by (auto simp: in_set_conv_nth)
  with b assms show ?thesis by (auto intro!: block_pos_after [of R x v n "Suc n + k"])
qed

lemma takeWhile_middle:
  assumes "\<And>a. a \<in> set as \<Longrightarrow> p a" "\<And>c. c \<in> set cs \<Longrightarrow> \<not> p c"
  shows "takeWhile p (as @ bs @ cs) = as @ takeWhile p bs"
    and "dropWhile p (as @ bs @ cs) = dropWhile p bs @ cs"
proof -
  have cs: "takeWhile p cs = []" "dropWhile p cs = cs"
    using assms(2) by (cases cs; auto)+
  have "takeWhile p (bs @ cs) = takeWhile p bs" "dropWhile p (bs @ cs) = dropWhile p bs @ cs"
    by (induction bs) (auto simp: cs)
  moreover have "takeWhile p (as @ xs) = as @ takeWhile p xs" "dropWhile p (as @ xs) = dropWhile p xs" for xs
    using assms(1) by (induction as) auto
  ultimately show "takeWhile p (as @ bs @ cs) = as @ takeWhile p bs"
    "dropWhile p (as @ bs @ cs) = dropWhile p bs @ cs"
    by simp_all
qed

text \<open>A boundary that separates values below from values above cuts the flat list inside the block.\<close>

lemma flat_split:
  assumes "ox_ok R x" "block_pos x v n"
    and low: "\<And>a. ox_compare x a v < 0 \<Longrightarrow> p a" and high: "\<And>a. 0 < ox_compare x a v \<Longrightarrow> \<not> p a"
  shows "takeWhile (\<lambda>item. p (oi_value item)) (flat x)
       = before_block x n @ takeWhile (\<lambda>item. p (oi_value item)) (ob_items (ox_blocks x ! n))"
    and "dropWhile (\<lambda>item. p (oi_value item)) (flat x)
       = dropWhile (\<lambda>item. p (oi_value item)) (ob_items (ox_blocks x ! n)) @ after_block x n"
proof -
  have n: "n < length (ox_blocks x)" using assms(2) by (simp add: block_pos_def)
  show "takeWhile (\<lambda>item. p (oi_value item)) (flat x)
       = before_block x n @ takeWhile (\<lambda>item. p (oi_value item)) (ob_items (ox_blocks x ! n))"
    "dropWhile (\<lambda>item. p (oi_value item)) (flat x)
       = dropWhile (\<lambda>item. p (oi_value item)) (ob_items (ox_blocks x ! n)) @ after_block x n"
    unfolding flat_cut [OF n]
    by (rule takeWhile_middle; metis low high before_block_less after_block_greater assms(1,2))+
qed

section \<open>Insertion refines insertion into the sorted list\<close>

definition bump :: "'b roaring \<Rightarrow> ('v \<Rightarrow> 'v \<Rightarrow> int) \<Rightarrow> 'v \<Rightarrow> u32 \<Rightarrow> ('v, 'b) ordered_item \<Rightarrow> ('v, 'b) ordered_item" where
  "bump R cmp v i item = (if cmp (oi_value item) v = 0 then item\<lparr>oi_bits := bm_add R (oi_bits item) i\<rparr> else item)"

definition put_item :: "'b roaring \<Rightarrow> ('v \<Rightarrow> 'v \<Rightarrow> int) \<Rightarrow> 'v \<Rightarrow> u32 \<Rightarrow> ('v, 'b) ordered_item list \<Rightarrow> ('v, 'b) ordered_item list" where
  "put_item R cmp v i items =
     (if \<exists>item\<in>set items. cmp (oi_value item) v = 0 then map (bump R cmp v i) items
      else takeWhile (\<lambda>item. cmp (oi_value item) v < 0) items
           @ \<lparr>oi_value = v, oi_bits = bm_add R (bm_new R) i\<rparr>
           # dropWhile (\<lambda>item. cmp (oi_value item) v < 0) items)"

lemma nth_length_takeWhile_eq:
  fixes v :: 'v
  assumes "comparator cmp" "sorted_items cmp items"
  defines "k \<equiv> length (takeWhile (\<lambda>item. cmp (oi_value item) v < 0) items)"
  shows "(k < length items \<and> cmp (oi_value (items ! k)) v = 0) \<longleftrightarrow> (\<exists>item\<in>set items. cmp (oi_value item) v = 0)"
proof
  assume "\<exists>item\<in>set items. cmp (oi_value item) v = 0"
  then obtain j where j: "j < length items" "cmp (oi_value (items ! j)) v = 0"
    by (metis in_set_conv_nth)
  have order: "comparator cmp" by (rule assms(1))
  note cmp_refl [simp] = comparator.cmp_refl [OF order]
  note cmp_less_le_trans = comparator.cmp_less_le_trans [OF order]
  have "\<not> j < k"
  proof
    assume "j < k"
    then have "cmp (oi_value (items ! j)) v < 0"
      unfolding k_def by (metis nth_mem set_takeWhileD takeWhile_nth)
    with j(2) show False by simp
  qed
  then have kj: "k \<le> j" by simp
  with j(1) have k: "k < length items" by simp
  then have nk: "\<not> cmp (oi_value (items ! k)) v < 0"
    unfolding k_def by (rule nth_length_takeWhile)
  have "k = j"
  proof (rule ccontr)
    assume "k \<noteq> j"
    with kj have "cmp (oi_value (items ! k)) (oi_value (items ! j)) < 0"
      using assms(2) j(1) by (simp add: sorted_items_def sorted_wrt_iff_nth_less)
    then have "cmp (oi_value (items ! k)) v < 0"
      by (rule cmp_less_le_trans) (simp add: j(2))
    with nk show False by simp
  qed
  with j k show "k < length items \<and> cmp (oi_value (items ! k)) v = 0" by simp
qed auto

lemma update_eq_map_bump:
  assumes "comparator cmp" "sorted_items cmp items" "k < length items" "cmp (oi_value (items ! k)) v = 0"
  shows "items[k := (items ! k)\<lparr>oi_bits := bm_add R (oi_bits (items ! k)) i\<rparr>] = map (bump R cmp v i) items"
proof (rule nth_equalityI)
  have order: "comparator cmp" by (rule assms(1))
  note cmp_refl [simp] = comparator.cmp_refl [OF order]
  note cmp_eq_cong0 = comparator.cmp_eq_cong0 [OF order]
  note cmp_eq_sym = comparator.cmp_eq_sym [OF order]
  fix j assume j: "j < length (items[k := (items ! k)\<lparr>oi_bits := bm_add R (oi_bits (items ! k)) i\<rparr>])"
  have "cmp (oi_value (items ! j)) v \<noteq> 0" if "j \<noteq> k"
  proof
    assume "cmp (oi_value (items ! j)) v = 0"
    with assms(4) have eq: "cmp (oi_value (items ! j)) (oi_value (items ! k)) = 0"
      by (metis cmp_eq_sym cmp_eq_cong0)
    then have eq': "cmp (oi_value (items ! k)) (oi_value (items ! j)) = 0"
      by (simp add: cmp_eq_sym)
    have "cmp (oi_value (items ! m)) (oi_value (items ! l)) < 0" if "m < l" "l < length items" for m l
      using assms(2) that by (simp add: sorted_items_def sorted_wrt_iff_nth_less)
    from this [of j k] this [of k j] eq eq' that j assms(3) show False by (cases "j < k") auto
  qed
  with j assms(3,4) show "items[k := (items ! k)\<lparr>oi_bits := bm_add R (oi_bits (items ! k)) i\<rparr>] ! j
      = map (bump R cmp v i) items ! j"
    by (cases "j = k") (auto simp: bump_def)
qed simp

lemma has_value_iff:
  assumes "ox_ok R x"
  shows "has_value x v \<longleftrightarrow> (\<exists>item\<in>set (flat x). ox_compare x (oi_value item) v = 0)"
proof (cases "ox_blocks x = []")
  case True
  then show ?thesis by (simp add: has_value_def flat_def)
next
  case False
  let ?n = "block_for x v" let ?items = "ob_items (ox_blocks x ! ?n)"
  have pos: "block_pos x v ?n" using assms False by (rule block_for_pos)
  then have n: "?n < length (ox_blocks x)" by (simp add: block_pos_def)
  have c: "comparator (ox_compare x)" using assms by (rule ox_ok_comparator)
  have "has_value x v \<longleftrightarrow> (\<exists>item\<in>set ?items. ox_compare x (oi_value item) v = 0)"
    using False nth_length_takeWhile_eq [OF c ox_ok_block_sorted [OF assms n], of v]
    by (simp add: has_value_def Let_def search_block_takeWhile [OF c ox_ok_block_sorted [OF assms n]])
  also have "\<dots> \<longleftrightarrow> (\<exists>item\<in>set (flat x). ox_compare x (oi_value item) v = 0)"
    unfolding flat_cut [OF n]
    by (auto dest: before_block_less [OF assms pos] after_block_greater [OF assms pos])
  finally show ?thesis .
qed

lemma flat_add_to_item:
  assumes "ox_ok R x" "has_value x v"
  shows "flat (add_to_item R x v i) = map (bump R (ox_compare x) v i) (flat x)"
proof -
  let ?n = "block_for x v" let ?b = "ox_blocks x ! ?n" let ?items = "ob_items ?b"
  have ne: "ox_blocks x \<noteq> []" using assms(2) by (simp add: has_value_def)
  have pos: "block_pos x v ?n" using assms(1) ne by (rule block_for_pos)
  then have n: "?n < length (ox_blocks x)" by (simp add: block_pos_def)
  have c: "comparator (ox_compare x)" using assms(1) by (rule ox_ok_comparator)
  let ?k = "search_block (ox_compare x) ?items v"
  have k: "?k < length ?items" "ox_compare x (oi_value (?items ! ?k)) v = 0"
    using assms(2) by (simp_all add: has_value_def Let_def)
  have "map (bump R (ox_compare x) v i) (before_block x ?n) = before_block x ?n"
    "map (bump R (ox_compare x) v i) (after_block x ?n) = after_block x ?n"
    by (rule map_idI, force simp: bump_def dest: before_block_less [OF assms(1) pos] after_block_greater [OF assms(1) pos])+
  then show ?thesis
    using update_eq_map_bump [OF c ox_ok_block_sorted [OF assms(1) n] k]
    by (simp add: add_to_item_def Let_def flat_update_block [OF n]) (simp add: flat_cut [OF n])
qed

lemma oi_value_bump [simp]: "oi_value (bump R cmp v i item) = oi_value item"
  by (simp add: bump_def)

lemma sorted_items_bump [simp]: "sorted_items cmp (map (bump R cmp' v i) items) = sorted_items cmp items"
  by (simp add: sorted_items_def sorted_wrt_map)

lemma ox_building_update:
  assumes "ox_building R x" "n < length (ox_blocks x)" "block_ok R b"
    and "sorted_items (ox_compare x) (flat (x\<lparr>ox_blocks := (ox_blocks x)[n := b]\<rparr>))"
  shows "ox_building R (x\<lparr>ox_blocks := (ox_blocks x)[n := b]\<rparr>)"
  using assms
  by (auto simp: ox_building_def ox_ok_def routing_ok_def range_ok_def prefix_ok_def
      dest: set_update_subset_insert [THEN subsetD])

lemma ox_building_replace:
  assumes "ox_building R x" "\<forall>b\<in>set bs. block_ok R b"
    and "sorted_items (ox_compare x) (concat (map ob_items bs))"
  shows "ox_building R (x\<lparr>ox_blocks := bs\<rparr>)"
  using assms
  by (auto simp: ox_building_def ox_ok_def routing_ok_def range_ok_def prefix_ok_def flat_def)

lemma ox_compare_ops [simp]:
  "ox_compare (add_to_item R x v i) = ox_compare x"
  "ox_compare (insert_item R x item) = ox_compare x"
  "ox_compare (ox_insert R x v i) = ox_compare x"
  "ox_key (add_to_item R x v i) = ox_key x"
  "ox_key (insert_item R x item) = ox_key x"
  "ox_key (ox_insert R x v i) = ox_key x"
  by (simp_all add: add_to_item_def insert_item_def ox_insert_def Let_def)

context roaring
begin

lemma items_ids_bump:
  "(\<exists>item\<in>set items. cmp (oi_value item) v = 0) \<Longrightarrow>
   items_ids R (map (bump R cmp v i) items) = insert i (items_ids R items)"
  by (auto simp: items_ids_def bump_def ids_add split: if_splits)

lemma ox_building_add_to_item:
  assumes "ox_building R x" "has_value x v"
  shows "ox_building R (add_to_item R x v i)"
proof -
  have ok: "ox_ok R x" using assms(1) by (rule ox_ok_building)
  let ?n = "block_for x v" let ?b = "ox_blocks x ! ?n" let ?items = "ob_items ?b"
  have ne: "ox_blocks x \<noteq> []" using assms(2) by (simp add: has_value_def)
  have n: "?n < length (ox_blocks x)"
    using block_for_pos [OF ok ne, of v] by (simp add: block_pos_def)
  have c: "comparator (ox_compare x)" using ok by (rule ox_ok_comparator)
  let ?k = "search_block (ox_compare x) ?items v"
  have k: "?k < length ?items" "ox_compare x (oi_value (?items ! ?k)) v = 0"
    using assms(2) by (simp_all add: has_value_def Let_def)
  have upd: "?items[?k := (?items ! ?k)\<lparr>oi_bits := bm_add R (oi_bits (?items ! ?k)) i\<rparr>]
      = map (bump R (ox_compare x) v i) ?items"
    by (rule update_eq_map_bump [OF c ox_ok_block_sorted [OF ok n] k])
  have "items_ids R (map (bump R (ox_compare x) v i) ?items) = insert i (items_ids R ?items)"
    by (rule items_ids_bump) (use k nth_mem in blast)
  then have "block_ok R (?b\<lparr>ob_items := map (bump R (ox_compare x) v i) ?items, ob_bits := bm_add R (ob_bits ?b) i\<rparr>)"
    using ox_ok_block [OF ok n] by (simp add: block_ok_def ids_add)
  moreover have "sorted_items (ox_compare x) (flat (add_to_item R x v i))"
    using ok by (simp add: flat_add_to_item [OF ok assms(2)] ox_ok_def)
  ultimately show ?thesis
    using n unfolding add_to_item_def Let_def upd
    by (intro ox_building_update assms(1)) (simp_all add: upd add_to_item_def Let_def)
qed

lemma insert_between_blocks:
  assumes "ox_ok R x" "ox_blocks x \<noteq> []"
    and n_def: "n = block_for x v"
    and k_def: "k = search_block (ox_compare x) (ob_items (ox_blocks x ! n)) v"
  shows "before_block x n @ (take k (ob_items (ox_blocks x ! n)) @ item # drop k (ob_items (ox_blocks x ! n)))
      @ after_block x n
    = takeWhile (\<lambda>item. ox_compare x (oi_value item) v < 0) (flat x)
      @ item # dropWhile (\<lambda>item. ox_compare x (oi_value item) v < 0) (flat x)"
proof -
  have pos: "block_pos x v n" unfolding n_def using assms(1,2) by (rule block_for_pos)
  then have n: "n < length (ox_blocks x)" by (simp add: block_pos_def)
  have c: "comparator (ox_compare x)" using assms(1) by (rule ox_ok_comparator)
  have "k = length (takeWhile (\<lambda>item. ox_compare x (oi_value item) v < 0) (ob_items (ox_blocks x ! n)))"
    unfolding k_def by (rule search_block_takeWhile [OF c ox_ok_block_sorted [OF assms(1) n]])
  then show ?thesis
    using flat_split [OF assms(1) pos, of "\<lambda>a. ox_compare x a v < 0"]
    by (simp add: takeWhile_eq_take [symmetric] dropWhile_eq_drop [symmetric])
qed

lemma flat_insert_item:
  assumes "ox_ok R x"
  shows "flat (insert_item R x item)
    = takeWhile (\<lambda>a. ox_compare x (oi_value a) (oi_value item) < 0) (flat x)
      @ item # dropWhile (\<lambda>a. ox_compare x (oi_value a) (oi_value item) < 0) (flat x)"
proof (cases "ox_blocks x = []")
  case True
  then show ?thesis by (simp add: insert_item_def flat_def)
next
  case False
  let ?n = "block_for x (oi_value item)"
  have n: "?n < length (ox_blocks x)"
    using block_for_pos [OF assms False, of "oi_value item"] by (simp add: block_pos_def)
  let ?k = "search_block (ox_compare x) (ob_items (ox_blocks x ! ?n)) (oi_value item)"
  let ?items = "take ?k (ob_items (ox_blocks x ! ?n)) @ item # drop ?k (ob_items (ox_blocks x ! ?n))"
  have "flat (insert_item R x item) = before_block x ?n @ ?items @ after_block x ?n"
  proof (cases "length ?items \<le> orderedBlockSize * 2")
    case True
    with False show ?thesis
      by (simp only: insert_item_def Let_def if_False if_True flat_update_block [OF n]) simp
  next
    case split: False
    have "take orderedBlockSize ?items @ drop orderedBlockSize ?items = ?items"
      by (rule append_take_drop_id)
    with False split show ?thesis
      by (simp only: insert_item_def Let_def if_False flat_def before_block_def after_block_def) simp
  qed
  also have "\<dots> = takeWhile (\<lambda>a. ox_compare x (oi_value a) (oi_value item) < 0) (flat x)
      @ item # dropWhile (\<lambda>a. ox_compare x (oi_value a) (oi_value item) < 0) (flat x)"
    by (rule insert_between_blocks [OF assms False refl refl])
  finally show ?thesis .
qed

lemma sorted_items_put:
  assumes "comparator cmp" "sorted_items cmp items" "\<not> (\<exists>a\<in>set items. cmp (oi_value a) (oi_value item) = 0)"
  shows "sorted_items cmp (takeWhile (\<lambda>a. cmp (oi_value a) (oi_value item) < 0) items
    @ item # dropWhile (\<lambda>a. cmp (oi_value a) (oi_value item) < 0) items)"
proof -
  have order: "comparator cmp" by (rule assms(1))
  note cmp_refl [simp] = comparator.cmp_refl [OF order]
  note cmp_antisym = comparator.cmp_antisym [OF order]
  note cmp_less_trans = comparator.cmp_less_trans [OF order]
  let ?p = "\<lambda>a. cmp (oi_value a) (oi_value item) < 0"
  have mono: "sorted_wrt (\<lambda>a b. ?p b \<longrightarrow> ?p a) items"
    by (rule sorted_items_split [OF assms(1,2)]) (rule cmp_less_trans)
  note split = sorted_prefix_filter [OF mono]
  have "cmp (oi_value item) (oi_value a) < 0" if "a \<in> set items" "\<not> ?p a" for a
    using that assms(3) by (metis cmp_antisym linorder_neqE_linordered_idom)
  moreover have "sorted_items cmp (filter q items)" for q
    using assms(2) by (simp add: sorted_items_def sorted_wrt_filter)
  ultimately show ?thesis
    unfolding split by (auto simp: sorted_items_def sorted_wrt_append intro: cmp_less_trans)
qed

lemma block_ok_split:
  assumes "length items \<le> orderedBlockSize * 2 + 1" "\<not> length items \<le> orderedBlockSize * 2"
  shows "block_ok R \<lparr>ob_items = take orderedBlockSize items, ob_bits = union_items R (take orderedBlockSize items)\<rparr>"
    and "block_ok R \<lparr>ob_items = drop orderedBlockSize items, ob_bits = union_items R (drop orderedBlockSize items)\<rparr>"
  using assms by (auto simp: block_ok_def ids_union_items orderedBlockSize_def)

lemma ox_building_insert_item:
  assumes "ox_building R x" "\<not> has_value x (oi_value item)" "bm_ids R (oi_bits item) = {}"
  shows "ox_building R (insert_item R x item)"
proof -
  have ok: "ox_ok R x" using assms(1) by (rule ox_ok_building)
  have c: "comparator (ox_compare x)" using ok by (rule ox_ok_comparator)
  have sorted: "sorted_items (ox_compare x) (flat (insert_item R x item))"
    unfolding flat_insert_item [OF ok]
    by (rule sorted_items_put [OF c])
       (use ok assms(2) in \<open>simp_all add: ox_ok_def has_value_iff [OF ok]\<close>)
  show ?thesis
  proof (cases "ox_blocks x = []")
    case True
    then show ?thesis
      using ox_building_replace [OF assms(1), of "[\<lparr>ob_items = [item], ob_bits = bm_new R\<rparr>]"] assms(3)
      by (simp add: insert_item_def block_ok_def ids_new sorted_items_def orderedBlockSize_def)
  next
    case False
    let ?n = "block_for x (oi_value item)" let ?b = "ox_blocks x ! ?n"
    let ?k = "search_block (ox_compare x) (ob_items ?b) (oi_value item)"
    let ?items = "take ?k (ob_items ?b) @ item # drop ?k (ob_items ?b)"
    have n: "?n < length (ox_blocks x)"
      using block_for_pos [OF ok False, of "oi_value item"] by (simp add: block_pos_def)
    note b = ox_ok_block [OF ok n]
    have ids: "items_ids R ?items = items_ids R (ob_items ?b)"
      using assms(3) by simp (metis append_take_drop_id items_ids_simps(3))
    have len: "length ?items = Suc (length (ob_items ?b))"
      using arg_cong [OF append_take_drop_id [of ?k "ob_items ?b"], of length] by simp
    show ?thesis
    proof (cases "length ?items \<le> orderedBlockSize * 2")
      case True
      then have eq: "insert_item R x item = x\<lparr>ox_blocks := (ox_blocks x)[?n := ?b\<lparr>ob_items := ?items\<rparr>]\<rparr>"
        using False by (simp only: insert_item_def Let_def if_False if_True)
      have "block_ok R (?b\<lparr>ob_items := ?items\<rparr>)"
        using b True ids by (simp add: block_ok_def del: items_ids_simps)
      then show ?thesis
        using sorted unfolding eq by (rule ox_building_update [OF assms(1) n])
    next
      case split: False
      let ?bs = "take ?n (ox_blocks x)
        @ [\<lparr>ob_items = take orderedBlockSize ?items, ob_bits = union_items R (take orderedBlockSize ?items)\<rparr>,
           \<lparr>ob_items = drop orderedBlockSize ?items, ob_bits = union_items R (drop orderedBlockSize ?items)\<rparr>]
        @ drop (Suc ?n) (ox_blocks x)"
      have eq: "insert_item R x item = x\<lparr>ox_blocks := ?bs\<rparr>"
        using False split by (simp only: insert_item_def Let_def if_False)
      have "length ?items \<le> orderedBlockSize * 2 + 1"
        using b len by (simp add: block_ok_def)
      note halves = block_ok_split [OF this split]
      have old: "\<forall>c\<in>set (ox_blocks x). block_ok R c" using ok by (simp add: ox_ok_def)
      have "\<forall>c\<in>set ?bs. block_ok R c"
        using old halves by (auto dest: in_set_takeD in_set_dropD)
      then show ?thesis
        using sorted unfolding eq by (intro ox_building_replace [OF assms(1)]) (simp_all add: flat_def)
    qed
  qed
qed

lemma has_value_insert_item:
  assumes "ox_building R x" "\<not> has_value x v"
  shows "has_value (insert_item R x \<lparr>oi_value = v, oi_bits = bm_new R\<rparr>) v"
proof -
  let ?item = "\<lparr>oi_value = v, oi_bits = bm_new R\<rparr>"
  have ok: "ox_ok R x" using assms(1) by (rule ox_ok_building)
  have order: "comparator (ox_compare x)" using ok by (rule ox_ok_comparator)
  note cmp_refl [simp] = comparator.cmp_refl [OF order]
  have "ox_ok R (insert_item R x ?item)"
    by (rule ox_ok_building, rule ox_building_insert_item) (use assms ids_new in simp_all)
  then show ?thesis
    by (simp add: has_value_iff flat_insert_item [OF ok])
qed

text \<open>The index accepts any sequence of insertions and keeps its structure.\<close>

theorem ox_building_insert:
  assumes "ox_building R x"
  shows "ox_building R (ox_insert R x v i)"
proof (cases "has_value x v")
  case True
  with assms show ?thesis by (simp add: ox_insert_def ox_building_add_to_item)
next
  case False
  with assms show ?thesis
    unfolding ox_insert_def
    by (simp add: ox_building_add_to_item has_value_insert_item ox_building_insert_item ids_new)
qed

text \<open>Functional refinement: on the represented list an insertion is \<open>put_item\<close>.\<close>

theorem flat_insert:
  assumes "ox_building R x"
  shows "flat (ox_insert R x v i) = put_item R (ox_compare x) v i (flat x)"
proof -
  have ok: "ox_ok R x" using assms by (rule ox_ok_building)
  have order: "comparator (ox_compare x)" using ok by (rule ox_ok_comparator)
  note cmp_refl [simp] = comparator.cmp_refl [OF order]
  show ?thesis
  proof (cases "has_value x v")
    case True
    with ok show ?thesis
      by (simp add: ox_insert_def put_item_def flat_add_to_item has_value_iff)
  next
    case False
    let ?item = "\<lparr>oi_value = v, oi_bits = bm_new R\<rparr>"
    let ?x = "insert_item R x ?item"
    have bld: "ox_building R ?x"
      by (rule ox_building_insert_item) (use False assms ids_new in simp_all)
    have none: "\<not> (\<exists>item\<in>set (flat x). ox_compare x (oi_value item) v = 0)"
      using False ok by (simp add: has_value_iff)
    have idle: "map (bump R (ox_compare x) v i) (takeWhile p (flat x)) = takeWhile p (flat x)"
      "map (bump R (ox_compare x) v i) (dropWhile p (flat x)) = dropWhile p (flat x)" for p
      using none by (auto intro!: map_idI simp: bump_def dest: set_takeWhileD set_dropWhileD)
    have "flat (add_to_item R ?x v i) = map (bump R (ox_compare x) v i) (flat ?x)"
      using flat_add_to_item [OF ox_ok_building [OF bld] has_value_insert_item [OF assms False]] by simp
    with False none show ?thesis
      by (simp add: ox_insert_def put_item_def flat_insert_item [OF ok] idle) (simp add: bump_def)
  qed
qed

end

section \<open>Postings\<close>

definition ox_posting :: "'b roaring \<Rightarrow> ('v, 'b) ordered_index \<Rightarrow> 'v \<Rightarrow> u32 set" where
  "ox_posting R x v = items_ids R (filter (\<lambda>item. ox_compare x (oi_value item) v = 0) (flat x))"

lemma ox_posting_iff:
  "i \<in> ox_posting R x v \<longleftrightarrow> (\<exists>item\<in>set (flat x). ox_compare x (oi_value item) v = 0 \<and> i \<in> bm_ids R (oi_bits item))"
  by (auto simp: ox_posting_def items_ids_def)

lemma ox_posting_new [simp]: "ox_posting R (new_ordered_index cmp key) v = {}"
  by (simp add: ox_posting_def new_ordered_index_def flat_def)

lemma set_put_item_absent:
  assumes "\<not> (\<exists>item\<in>set items. cmp (oi_value item) v = 0)"
  shows "set (put_item R cmp v i items) = insert \<lparr>oi_value = v, oi_bits = bm_add R (bm_new R) i\<rparr> (set items)"
proof -
  let ?p = "\<lambda>item. cmp (oi_value item) v < 0"
  have "set (takeWhile ?p items) \<union> set (dropWhile ?p items) = set items"
    by (metis set_append takeWhile_dropWhile_id)
  with assms show ?thesis by (auto simp: put_item_def)
qed

context roaring
begin

lemma ox_posting_insert:
  assumes "ox_building R x"
  shows "ox_posting R (ox_insert R x v i) w
    = (if ox_compare x v w = 0 then insert i (ox_posting R x w) else ox_posting R x w)"
proof -
  have order: "comparator (ox_compare x)" using assms by (simp add: ox_building_def ox_ok_def)
  note cmp_refl [simp] = comparator.cmp_refl [OF order]
  note cmp_eq_cong0 = comparator.cmp_eq_cong0 [OF order]
  note flat = flat_insert [OF assms, of v i]
  show ?thesis
  proof (cases "\<exists>item\<in>set (flat x). ox_compare x (oi_value item) v = 0")
    case True
    then obtain item where item: "item \<in> set (flat x)" "ox_compare x (oi_value item) v = 0" by blast
    have "put_item R (ox_compare x) v i (flat x) = map (bump R (ox_compare x) v i) (flat x)"
      using True by (simp add: put_item_def)
    then have posting: "ox_posting R (ox_insert R x v i) w
        = (\<Union>a\<in>{a \<in> set (flat x). ox_compare x (oi_value a) w = 0}. bm_ids R (oi_bits (bump R (ox_compare x) v i a)))"
    proof -
      have "filter (\<lambda>item. ox_compare x (oi_value item) w = 0) (map (bump R (ox_compare x) v i) (flat x))
          = map (bump R (ox_compare x) v i) (filter (\<lambda>item. ox_compare x (oi_value item) w = 0) (flat x))"
        by (simp add: filter_map o_def bump_def)
      with \<open>put_item R _ v i (flat x) = _\<close> show ?thesis
        by (simp add: ox_posting_def flat items_ids_def)
    qed
    have same: "ox_compare x v w = 0 \<longleftrightarrow> ox_compare x (oi_value a) w = 0" if "ox_compare x (oi_value a) v = 0" for a
      using cmp_eq_cong0 [OF that] by simp
    have "bm_ids R (oi_bits (bump R (ox_compare x) v i a))
        = (if ox_compare x (oi_value a) v = 0 then insert i (bm_ids R (oi_bits a)) else bm_ids R (oi_bits a))" for a
      by (simp add: bump_def ids_add)
    then show ?thesis
      using item same unfolding posting by (auto simp: ox_posting_def items_ids_def split: if_splits)
  next
    case False
    then show ?thesis
      using ids_new by (auto simp: ox_posting_def flat items_ids_def set_put_item_absent ids_add)
  qed
qed

end

interpretation ordered: postings ox_building "\<lambda>x v w. ox_compare x v w = 0" ox_insert ox_posting
  by unfold_locales (auto intro: roaring.ox_building_insert simp: roaring.ox_posting_insert)

end
