(* ===== verification/Ordered_Lookup.thy ===== *)
theory Ordered_Lookup
  imports Ordered_Insert
begin

text \<open>
  Queries on an ordered index: \<open>exact\<close> returns the posting of a value, \<open>walk\<close> visits bitmaps whose
  union is the postings of one side of a value, \<open>matches\<close> tests membership in that union and
  \<open>estimateCardinality\<close> bounds its size. All of them are related to the sorted list the index
  represents, whatever tables \<open>prepareSearch\<close> and \<open>prepareRangeSearch\<close> have built.
\<close>

section \<open>The range a query asks for\<close>

definition in_range :: "('v \<Rightarrow> 'v \<Rightarrow> int) \<Rightarrow> 'v \<Rightarrow> bool \<Rightarrow> bool \<Rightarrow> 'v \<Rightarrow> bool" where
  "in_range cmp v ascending inclusive w \<longleftrightarrow>
     (if ascending then 0 < cmp w v else cmp w v < 0) \<or> inclusive \<and> cmp w v = 0"

definition ox_range_ids :: "'b roaring \<Rightarrow> ('v, 'b) ordered_index \<Rightarrow> 'v \<Rightarrow> bool \<Rightarrow> bool \<Rightarrow> u32 set" where
  "ox_range_ids R x v ascending inclusive
     = items_ids R (filter (\<lambda>item. in_range (ox_compare x) v ascending inclusive (oi_value item)) (flat x))"

definition bits_ids :: "'b roaring \<Rightarrow> 'b list \<Rightarrow> u32 set" where
  "bits_ids R bs = (\<Union>b\<in>set bs. bm_ids R b)"

lemma bits_ids_simps [simp]:
  "bits_ids R [] = {}"
  "bits_ids R (b # bs) = bm_ids R b \<union> bits_ids R bs"
  "bits_ids R (bs @ bs') = bits_ids R bs \<union> bits_ids R bs'"
  "bits_ids R (rev bs) = bits_ids R bs"
  "bits_ids R (map oi_bits items) = items_ids R items"
  by (auto simp: bits_ids_def items_ids_def)

lemma in_range_asc: "comparator cmp \<Longrightarrow>
    in_range cmp v True inclusive w \<longleftrightarrow> \<not> (cmp w v < 0 \<or> \<not> inclusive \<and> cmp w v = 0)"
  by (auto simp: in_range_def)

lemma in_range_desc: "in_range cmp v False inclusive w \<longleftrightarrow> cmp w v < 0 \<or> inclusive \<and> cmp w v = 0"
  by (simp add: in_range_def)

section \<open>The items of a range, by block\<close>

lemma items_sorted_asc:
  assumes "comparator cmp" "sorted_items cmp items"
  shows "sorted_wrt (\<lambda>a b. (cmp (oi_value b) v < 0 \<or> (c \<and> cmp (oi_value b) v = 0))
      \<longrightarrow> (cmp (oi_value a) v < 0 \<or> (c \<and> cmp (oi_value a) v = 0))) items"
proof -
  have order: "comparator cmp" by (rule assms(1))
  note cmp_refl [simp] = comparator.cmp_refl [OF order]
  note cmp_less_le_trans = comparator.cmp_less_le_trans [OF order]
  show ?thesis
    by (rule sorted_items_split [OF assms, where p = "\<lambda>w. cmp w v < 0 \<or> (c \<and> cmp w v = 0)"])
      (use cmp_less_le_trans [of _ _ v] in fastforce)
qed

lemma range_items_asc:
  assumes "ox_ok R x" "n < length (ox_blocks x)" "block_pos x v n"
  shows "filter (\<lambda>item. in_range (ox_compare x) v True inclusive (oi_value item)) (flat x)
    = drop (asc_bound (ox_compare x) inclusive (ob_items (ox_blocks x ! n)) v) (ob_items (ox_blocks x ! n))
      @ after_block x n"
proof -
  note cmp = ox_ok_comparator [OF assms(1)]
  let ?p = "\<lambda>w. ox_compare x w v < 0 \<or> (\<not> inclusive \<and> ox_compare x w v = 0)"
  have "filter (\<lambda>item. \<not> ?p (oi_value item)) (flat x) = dropWhile (\<lambda>item. ?p (oi_value item)) (flat x)"
    by (rule sorted_prefix_filter(2) [symmetric], rule items_sorted_asc [OF cmp])
      (use assms(1) in \<open>simp add: ox_ok_def\<close>)
  also have "\<dots> = dropWhile (\<lambda>item. ?p (oi_value item)) (ob_items (ox_blocks x ! n)) @ after_block x n"
    by (rule flat_split(2) [OF assms(1,3)]) auto
  finally show ?thesis
    by (simp only: in_range_asc [OF cmp] dropWhile_eq_drop
        asc_bound_takeWhile [OF cmp ox_ok_block_sorted [OF assms(1,2)]])
qed

lemma range_items_desc:
  assumes "ox_ok R x" "n < length (ox_blocks x)" "block_pos x v n"
  shows "filter (\<lambda>item. in_range (ox_compare x) v False inclusive (oi_value item)) (flat x)
    = before_block x n
      @ take (desc_bound (ox_compare x) inclusive (ob_items (ox_blocks x ! n)) v) (ob_items (ox_blocks x ! n))"
proof -
  note cmp = ox_ok_comparator [OF assms(1)]
  let ?p = "\<lambda>w. ox_compare x w v < 0 \<or> (inclusive \<and> ox_compare x w v = 0)"
  have "filter (\<lambda>item. ?p (oi_value item)) (flat x) = takeWhile (\<lambda>item. ?p (oi_value item)) (flat x)"
    by (rule sorted_prefix_filter(1) [symmetric], rule items_sorted_asc [OF cmp])
      (use assms(1) in \<open>simp add: ox_ok_def\<close>)
  also have "\<dots> = before_block x n @ takeWhile (\<lambda>item. ?p (oi_value item)) (ob_items (ox_blocks x ! n))"
    by (rule flat_split(1) [OF assms(1,3)]) auto
  finally show ?thesis
    by (simp only: in_range_desc takeWhile_eq_take [symmetric]
        desc_bound_takeWhile [OF cmp ox_ok_block_sorted [OF assms(1,2)]])
qed

lemma block_bits_ids: "ox_ok R x \<Longrightarrow> n < length (ox_blocks x) \<Longrightarrow>
    bm_ids R (ob_bits (ox_blocks x ! n)) = items_ids R (ob_items (ox_blocks x ! n))"
  using ox_ok_block by (auto simp: block_ok_def)

lemma items_ids_concat: "items_ids R (concat (map ob_items bs)) = (\<Union>b\<in>set bs. items_ids R (ob_items b))"
  by (auto simp: items_ids_def)

lemma before_block_ids:
  assumes "ox_ok R x" "n \<le> length (ox_blocks x)"
  shows "items_ids R (before_block x n) = (\<Union>m\<in>{0..<n}. bm_ids R (ob_bits (ox_blocks x ! m)))"
proof -
  have "set (take n (ox_blocks x)) = (!) (ox_blocks x) ` {0..<n}"
    using assms(2) by (metis nth_image)
  then show ?thesis
    using assms by (simp add: before_block_def items_ids_concat block_bits_ids [OF assms(1)])
qed

lemma after_block_ids:
  assumes "ox_ok R x"
  shows "items_ids R (after_block x n) = (\<Union>m\<in>{Suc n..<length (ox_blocks x)}. bm_ids R (ob_bits (ox_blocks x ! m)))"
  by (auto simp: after_block_def items_ids_concat set_drop_nth block_bits_ids [OF assms])

section \<open>Walks\<close>

lemma walk_tail_ids: "bits_ids R (walk_tail x lo hi) = (\<Union>n\<in>{lo..<hi}. bm_ids R (ob_bits (ox_blocks x ! n)))"
  by (auto simp: walk_tail_def bits_ids_def)

lemma range_ready_ids:
  assumes "range_ok R x" "range_ready x lo"
  shows "bm_ids R (rb_bits (ox_range x ! (lo div orderedRangeBlockSize)))
    = (\<Union>n\<in>{lo..<lo + orderedRangeBlockSize}. bm_ids R (ob_bits (ox_blocks x ! n)))"
  using assms by (auto simp: range_ok_def range_ready_def Let_def algebra_simps)

lemma UN_chunk:
  "lo + k \<le> hi \<Longrightarrow> (\<Union>n\<in>{lo..<lo + k}. f n) \<union> (\<Union>n\<in>{lo + k..<hi}. f n) = (\<Union>n\<in>{lo..<hi :: nat}. f n)"
  by (simp add: UN_Un [symmetric] ivl_disj_un_two)

lemma walk_jump_ids:
  "range_ok R x \<Longrightarrow> bits_ids R (walk_jump x lo hi) = (\<Union>n\<in>{lo..<hi}. bm_ids R (ob_bits (ox_blocks x ! n)))"
proof (induction x lo hi rule: walk_jump.induct)
  case (1 x lo hi)
  show ?case
  proof (cases "lo + orderedRangeBlockSize \<le> hi \<and> range_ready x lo")
    case True
    then have "walk_jump x lo hi
        = rb_bits (ox_range x ! (lo div orderedRangeBlockSize)) # walk_jump x (lo + orderedRangeBlockSize) hi"
      by (subst walk_jump.simps) simp
    with True show ?thesis
      by (simp add: "1.IH" [OF True "1.prems"] range_ready_ids [OF "1.prems"] UN_chunk)
  next
    case False
    then have "walk_jump x lo hi = walk_tail x lo hi"
      by (subst walk_jump.simps) auto
    then show ?thesis by (simp add: walk_tail_ids)
  qed
qed

lemma walk_block_range_ids:
  "range_ok R x \<Longrightarrow>
   bits_ids R (walk_block_range x lo hi) = (\<Union>n\<in>{lo..<hi}. bm_ids R (ob_bits (ox_blocks x ! n)))"
proof (induction x lo hi rule: walk_block_range.induct)
  case (1 x lo hi)
  show ?case
  proof (cases "lo < hi \<and> lo mod orderedRangeBlockSize \<noteq> 0")
    case True
    then have "{lo..<hi} = insert lo {Suc lo..<hi}" by auto
    moreover from True have "walk_block_range x lo hi = ob_bits (ox_blocks x ! lo) # walk_block_range x (Suc lo) hi"
      by (subst walk_block_range.simps) simp
    ultimately show ?thesis
      by (simp add: "1.IH" [OF True "1.prems"])
  next
    case False
    then have "walk_block_range x lo hi = walk_jump x lo hi"
      by (subst walk_block_range.simps) auto
    then show ?thesis by (simp add: walk_jump_ids [OF "1.prems"])
  qed
qed

lemma ox_ok_range: "ox_ok R x \<Longrightarrow> range_ok R x"
  by (simp add: ox_ok_def)

lemma block_for_less: "ox_ok R x \<Longrightarrow> ox_blocks x \<noteq> [] \<Longrightarrow> block_for x v < length (ox_blocks x)"
  using block_for_pos [of R x v] by (simp add: block_pos_def)

lemma ox_walk_ids:
  assumes "ox_ok R x"
  shows "bits_ids R (ox_walk x v ascending inclusive) = ox_range_ids R x v ascending inclusive"
proof (cases "ox_blocks x = []")
  case True
  then show ?thesis by (simp add: ox_walk_def ox_range_ids_def flat_def)
next
  case False
  let ?n = "block_for x v"
  let ?items = "ob_items (ox_blocks x ! ?n)"
  note n = block_for_less [OF assms False, of v]
  note pos = block_for_pos [OF assms False, of v]
  show ?thesis
  proof (cases ascending)
    case True
    let ?lo = "asc_bound (ox_compare x) inclusive ?items v"
    have "bits_ids R (if ?lo = 0 then [ob_bits (ox_blocks x ! ?n)] else map oi_bits (drop ?lo ?items))
        = items_ids R (drop ?lo ?items)"
      by (simp add: block_bits_ids [OF assms n])
    with False True show ?thesis
      by (simp add: ox_walk_def Let_def ox_range_ids_def range_items_asc [OF assms n pos]
          walk_block_range_ids [OF ox_ok_range [OF assms]] after_block_ids [OF assms] del: if_split)
  next
    case desc: False
    let ?lo = "desc_bound (ox_compare x) inclusive ?items v"
    have "bits_ids R (if ?lo = length ?items then [ob_bits (ox_blocks x ! ?n)] else rev (map oi_bits (take ?lo ?items)))
        = items_ids R (take ?lo ?items)"
      by (simp add: block_bits_ids [OF assms n])
    with False desc n show ?thesis
      by (simp add: ox_walk_def Let_def ox_range_ids_def range_items_desc [OF assms n pos]
          walk_block_range_ids [OF ox_ok_range [OF assms]] before_block_ids [OF assms] Un_commute del: if_split)
  qed
qed

section \<open>Membership tests follow the walk\<close>

lemma contains_tail_walk: "contains_tail R x lo hi i \<longleftrightarrow> list_ex (\<lambda>b. bm_contains R b i) (walk_tail x lo hi)"
proof (induction R x lo hi i rule: contains_tail.induct)
  case (1 R x lo hi i)
  then show ?case
    by (subst contains_tail.simps) (auto simp: walk_tail_def upt_conv_Cons)
qed

lemma contains_jump_walk: "contains_jump R x lo hi i \<longleftrightarrow> list_ex (\<lambda>b. bm_contains R b i) (walk_jump x lo hi)"
proof (induction R x lo hi i rule: contains_jump.induct)
  case (1 R x lo hi i)
  then show ?case
    by (subst contains_jump.simps, subst walk_jump.simps) (auto simp: contains_tail_walk)
qed

lemma block_range_contains_walk:
  "block_range_contains R x lo hi i \<longleftrightarrow> list_ex (\<lambda>b. bm_contains R b i) (walk_block_range x lo hi)"
proof (induction R x lo hi i rule: block_range_contains.induct)
  case (1 R x lo hi i)
  then show ?case
    by (subst block_range_contains.simps, subst walk_block_range.simps) (auto simp: contains_jump_walk)
qed

lemma ox_matches_walk:
  "ox_matches R x v ascending inclusive i
     \<longleftrightarrow> list_ex (\<lambda>b. bm_contains R b i) (ox_walk x v ascending inclusive)"
proof (cases "ox_blocks x = [] \<or> ascending")
  case True
  then show ?thesis
    by (cases "asc_bound (ox_compare x) inclusive (ob_items (ox_blocks x ! block_for x v)) v = 0")
      (auto simp: ox_matches_def ox_walk_def Let_def block_range_contains_walk list_ex_iff)
next
  case False
  then show ?thesis
    by (cases "desc_bound (ox_compare x) inclusive (ob_items (ox_blocks x ! block_for x v)) v
          = length (ob_items (ox_blocks x ! block_for x v))")
      (auto simp: ox_matches_def ox_walk_def Let_def block_range_contains_walk list_ex_iff)
qed

lemma list_ex_contains: "list_ex (\<lambda>b. bm_contains R b i) bs \<longleftrightarrow> i \<in> bits_ids R bs"
  by (auto simp: list_ex_iff bits_ids_def bm_ids_def)

lemma ox_matches_iff:
  "ox_ok R x \<Longrightarrow> ox_matches R x v ascending inclusive i \<longleftrightarrow> i \<in> ox_range_ids R x v ascending inclusive"
  by (simp add: ox_matches_walk list_ex_contains ox_walk_ids)

section \<open>Exact and ceiling lookups\<close>

lemma lookup_position:
  fixes x :: "('v, 'b) ordered_index"
  assumes "ox_ok R x" "ox_blocks x \<noteq> []"
    and items_def: "items = ob_items (ox_blocks x ! block_for x v)"
  shows "drop (search_block (ox_compare x) items (v :: 'v)) items @ after_block x (block_for x v)
    = dropWhile (\<lambda>item. ox_compare x (oi_value item) v < 0) (flat x)"
  using flat_split(2) [OF assms(1) block_for_pos [OF assms(1,2), of v], of "\<lambda>w. ox_compare x w v < 0"]
    search_block_takeWhile [OF ox_ok_comparator [OF assms(1)] ox_ok_block_sorted [OF assms(1) block_for_less [OF assms(1,2), of v]], of v]
  by (simp add: dropWhile_eq_drop items_def)

lemma equal_items_singleton:
  assumes "comparator cmp" "sorted_items cmp items"
  shows "length (filter (\<lambda>item. cmp (oi_value item) v = 0) items) \<le> 1"
  using assms(2)
proof (induction items)
  case (Cons a items)
  have order: "comparator cmp" by (rule assms(1))
  note cmp_refl [simp] = comparator.cmp_refl [OF order]
  note cmp_eq_sym = comparator.cmp_eq_sym [OF order]
  note cmp_le_less_trans = comparator.cmp_le_less_trans [OF order]
  have "\<not> cmp (oi_value b) v = 0" if "cmp (oi_value a) v = 0" "b \<in> set items" for b
    using Cons.prems that cmp_le_less_trans [of v "oi_value a" "oi_value b"] cmp_eq_sym [of v "oi_value b"]
      cmp_eq_sym [of v "oi_value a"] by (auto simp: sorted_items_def)
  then have "filter (\<lambda>item. cmp (oi_value item) v = 0) items = []" if "cmp (oi_value a) v = 0"
    using that by (auto simp: filter_empty_conv)
  with Cons show ?case by (auto simp: sorted_items_def)
qed simp

lemma ox_exact_ids:
  assumes "ox_ok R x"
  shows "(case ox_exact x v of None \<Rightarrow> {} | Some b \<Rightarrow> bm_ids R b) = ox_posting R x v"
proof (cases "ox_blocks x = []")
  case True
  then show ?thesis by (simp add: ox_exact_def ox_posting_def flat_def)
next
  case False
  let ?n = "block_for x v"
  let ?items = "ob_items (ox_blocks x ! ?n)"
  let ?k = "search_block (ox_compare x) ?items v"
  let ?eq = "\<lambda>item. ox_compare x (oi_value item) v = 0"
  note cmp = ox_ok_comparator [OF assms]
  note n = block_for_less [OF assms False, of v]
  note pos = block_for_pos [OF assms False, of v]
  note sorted = ox_ok_block_sorted [OF assms n]
  have "filter ?eq (before_block x ?n) = []" "filter ?eq (after_block x ?n) = []"
    using before_block_less [OF assms pos] after_block_greater [OF assms pos]
    by (fastforce simp: filter_empty_conv)+
  then have flat: "filter ?eq (flat x) = filter ?eq ?items"
    by (simp add: flat_cut [OF n])
  note k = search_block_takeWhile [OF cmp sorted, of v]
  have iff: "?k < length ?items \<and> ?eq (?items ! ?k) \<longleftrightarrow> (\<exists>item\<in>set ?items. ?eq item)"
    using nth_length_takeWhile_eq [OF cmp sorted, of v] by (simp add: k)
  show ?thesis
  proof (cases "\<exists>item\<in>set ?items. ?eq item")
    case True
    with iff have hit: "?k < length ?items" "?eq (?items ! ?k)" by blast+
    then have "?items ! ?k \<in> set (filter ?eq ?items)" by simp
    with equal_items_singleton [OF cmp sorted, of v] have "filter ?eq ?items = [?items ! ?k]"
      by (cases "filter ?eq ?items") auto
    with False hit show ?thesis
      by (simp add: ox_exact_def Let_def ox_posting_def flat)
  next
    case none: False
    with iff have "?k = length ?items \<or> \<not> ?eq (?items ! ?k)"
      using k length_takeWhile_le [of _ ?items] by (metis le_neq_implies_less)
    with False none show ?thesis
      by (auto simp: ox_exact_def Let_def ox_posting_def flat filter_empty_conv)
  qed
qed

lemma ox_ceiling_ids:
  assumes "ox_ok R x"
  shows "ox_ceiling x v =
    (case dropWhile (\<lambda>item. ox_compare x (oi_value item) v < 0) (flat x) of
       [] \<Rightarrow> None | item # _ \<Rightarrow> Some (oi_bits item))"
proof (cases "ox_blocks x = []")
  case True
  then show ?thesis by (simp add: ox_ceiling_def flat_def)
next
  case False
  let ?n = "block_for x v"
  let ?items = "ob_items (ox_blocks x ! ?n)"
  let ?k = "search_block (ox_compare x) ?items v"
  note n = block_for_less [OF assms False, of v]
  note pos = block_for_pos [OF assms False, of v]
  note look = lookup_position [OF assms False refl, of v]
  have k: "?k \<le> length ?items"
    using search_block_takeWhile [OF ox_ok_comparator [OF assms] ox_ok_block_sorted [OF assms n]]
    by (simp add: length_takeWhile_le)
  show ?thesis
  proof (cases "?k = length ?items")
    case False
    with k have "drop ?k ?items = ?items ! ?k # drop (Suc ?k) ?items"
      by (simp add: Cons_nth_drop_Suc)
    with False \<open>ox_blocks x \<noteq> []\<close> show ?thesis
      by (simp add: ox_ceiling_def Let_def look [symmetric])
  next
    case True
    have "after_block x ?n = []"
    proof (rule ccontr)
      assume "after_block x ?n \<noteq> []"
      then have "Suc ?n < length (ox_blocks x)"
        by (auto simp: after_block_def intro: ccontr)
      moreover have "last ?items \<in> set ?items" by (rule ox_ok_last_in [OF assms n])
      moreover have "takeWhile (\<lambda>item. ox_compare x (oi_value item) v < 0) ?items = ?items"
        using True search_block_takeWhile [OF ox_ok_comparator [OF assms] ox_ok_block_sorted [OF assms n], of v]
        by (metis takeWhile_eq_take take_all order_refl)
      ultimately have "ox_compare x (last_value (ox_blocks x ! ?n)) v < 0"
        by (metis last_value_def set_takeWhileD)
      with pos \<open>Suc ?n < length (ox_blocks x)\<close> show False by (auto simp: block_pos_def)
    qed
    with True \<open>ox_blocks x \<noteq> []\<close> show ?thesis
      by (simp add: ox_ceiling_def Let_def look [symmetric])
  qed
qed

end
