(* ===== verification/Ordered_Prepare.thy ===== *)
theory Ordered_Prepare
  imports Ordered_Lookup
begin

text \<open>
  What \<open>prepareSearch\<close> and \<open>prepareRangeSearch\<close> add to an ordered index (routing table, prefix
  sums, shared aggregates of one-item blocks, unions of eight blocks) changes neither the sorted
  list it represents nor its invariant, and the cardinality estimate of a range query is an upper
  bound that is zero exactly for an empty range.
\<close>

section \<open>Routing\<close>

lemma route_advance_less: "block < length (ox_blocks x) \<Longrightarrow> route_advance x lower block < length (ox_blocks x)"
proof (induction x lower block rule: route_advance.induct)
  case (1 x lower block)
  then show ?case
    by (subst route_advance.simps) (auto split: option.splits)
qed

lemma routes_from_less:
  "block < length (ox_blocks x) \<Longrightarrow> \<forall>n\<in>set (routes_from x lo width block slots). n < length (ox_blocks x)"
  by (induction x lo width block slots rule: routes_from.induct) (auto simp: Let_def route_advance_less)

lemma prepare_routing_cases:
  "\<exists>r. prepare_routing x = x\<lparr>ox_routing := r\<rparr>
     \<and> (r = ox_routing x \<or> (\<forall>n\<in>set (or_blocks r). n < length (ox_blocks x)))"
proof -
  have same: "x = x\<lparr>ox_routing := ox_routing x\<rparr>" by simp
  show ?thesis
    unfolding prepare_routing_def Let_def
    using routes_from_less [of 0 x]
    by (auto split: option.splits intro: exI [of _ "ox_routing x"] exI [of _ "\<lparr>or_min = _, or_width = _, or_blocks = _\<rparr>"])
qed

lemma prepare_routing_simps [simp]:
  "ox_compare (prepare_routing x) = ox_compare x"
  "ox_key (prepare_routing x) = ox_key x"
  "ox_blocks (prepare_routing x) = ox_blocks x"
  "ox_prefix (prepare_routing x) = ox_prefix x"
  "ox_range (prepare_routing x) = ox_range x"
  using prepare_routing_cases [of x] by auto

lemma routing_ok_prepare: "routing_ok x \<Longrightarrow> routing_ok (prepare_routing x)"
  using prepare_routing_cases [of x] by (auto simp: routing_ok_def)

section \<open>Prefix sums and shared aggregates\<close>

lemma length_prefix_sums [simp]: "length (prefix_sums acc cs) = Suc (length cs)"
  by (induction acc cs rule: prefix_sums.induct) auto

lemma nth_prefix_sums: "n \<le> length cs \<Longrightarrow> prefix_sums acc cs ! n = acc + sum_list (take n cs)"
proof (induction acc cs arbitrary: n rule: prefix_sums.induct)
  case (2 acc c cs)
  then show ?case by (cases n) (auto simp: algebra_simps)
qed simp

lemma share_single_simps [simp]: "ob_items (share_single b) = ob_items b"
  by (simp add: share_single_def split: list.splits)

lemma share_single_ids: "block_ok R b \<Longrightarrow> bm_ids R (ob_bits (share_single b)) = bm_ids R (ob_bits b)"
  by (auto simp: share_single_def block_ok_def split: list.splits)

lemma block_ok_share: "block_ok R b \<Longrightarrow> block_ok R (share_single b)"
  using share_single_ids [of R b] by (simp add: block_ok_def)

lemma ox_prepare_search_simps [simp]:
  "ox_compare (ox_prepare_search R x) = ox_compare x"
  "ox_key (ox_prepare_search R x) = ox_key x"
  "ox_blocks (ox_prepare_search R x) = map share_single (ox_blocks x)"
  "ox_prefix (ox_prepare_search R x) = prefix_sums 0 (map (\<lambda>b. bm_card R (ob_bits b)) (ox_blocks x))"
  "ox_range (ox_prepare_search R x) = ox_range x"
  "ox_routing (ox_prepare_search R x) = ox_routing (prepare_routing x)"
  by (simp_all add: ox_prepare_search_def Let_def)

lemma flat_prepare_search [simp]: "flat (ox_prepare_search R x) = flat x"
  by (simp add: flat_def o_def)

lemma ox_prepare_range_simps [simp]:
  "ox_compare (ox_prepare_range_search R x) = ox_compare x"
  "ox_key (ox_prepare_range_search R x) = ox_key x"
  "ox_blocks (ox_prepare_range_search R x) = ox_blocks x"
  "ox_prefix (ox_prepare_range_search R x) = ox_prefix x"
  "ox_routing (ox_prepare_range_search R x) = ox_routing x"
  by (simp_all add: ox_prepare_range_search_def Let_def)

lemma flat_prepare_range [simp]: "flat (ox_prepare_range_search R x) = flat x"
  by (simp add: flat_def)

lemma ox_range_ids_cong: "flat y = flat x \<Longrightarrow> ox_compare y = ox_compare x \<Longrightarrow> ox_range_ids R y = ox_range_ids R x"
  by (intro ext) (simp add: ox_range_ids_def)

lemma ox_posting_cong: "flat y = flat x \<Longrightarrow> ox_compare y = ox_compare x \<Longrightarrow> ox_posting R y = ox_posting R x"
  by (intro ext) (simp add: ox_posting_def)

context roaring
begin

lemma ox_ok_prepare_search [inv_intros]:
  assumes "ox_ok R x"
  shows "ox_ok R (ox_prepare_search R x)"
proof -
  let ?y = "ox_prepare_search R x"
  have blocks: "\<forall>b\<in>set (ox_blocks x). block_ok R b" using assms by (simp add: ox_ok_def)
  then have ids: "bm_ids R (ob_bits (share_single (ox_blocks x ! n))) = bm_ids R (ob_bits (ox_blocks x ! n))"
    if "n < length (ox_blocks x)" for n
    using that by (simp add: share_single_ids)
  have card: "map (\<lambda>b. bm_card R (ob_bits (share_single b))) (ox_blocks x) = map (\<lambda>b. bm_card R (ob_bits b)) (ox_blocks x)"
    using blocks by (simp add: card_eq share_single_ids)
  have "prefix_ok R ?y"
    unfolding prefix_ok_def
    by (simp add: nth_prefix_sums blocks_card_def take_map o_def card [symmetric])
  moreover have "routing_ok ?y"
    using assms routing_ok_prepare [of x] by (simp add: routing_ok_def ox_ok_def)
  moreover have "range_ok R ?y"
    unfolding range_ok_def
  proof (intro allI impI conjI)
    fix k assume "k < length (ox_range ?y)"
    then have k: "rb_first (ox_range x ! k) = k * orderedRangeBlockSize"
        "(k + 1) * orderedRangeBlockSize \<le> length (ox_blocks x)"
        "bm_ids R (rb_bits (ox_range x ! k))
           = (\<Union>n\<in>{k * orderedRangeBlockSize..<(k + 1) * orderedRangeBlockSize}. bm_ids R (ob_bits (ox_blocks x ! n)))"
      using assms by (simp_all add: ox_ok_def range_ok_def)
    show "rb_first (ox_range ?y ! k) = k * orderedRangeBlockSize"
      "(k + 1) * orderedRangeBlockSize \<le> length (ox_blocks ?y)"
      using k by simp_all
    have "bm_ids R (ob_bits (ox_blocks ?y ! n)) = bm_ids R (ob_bits (ox_blocks x ! n))"
      if "n \<in> {k * orderedRangeBlockSize..<(k + 1) * orderedRangeBlockSize}" for n
      using that k(2) by (simp add: ids)
    then show "bm_ids R (rb_bits (ox_range ?y ! k))
        = (\<Union>n\<in>{k * orderedRangeBlockSize..<(k + 1) * orderedRangeBlockSize}. bm_ids R (ob_bits (ox_blocks ?y ! n)))"
      using k(3) by simp
  qed
  ultimately show ?thesis
    using assms blocks by (auto simp: ox_ok_def block_ok_share)
qed

lemma range_union_ids:
  "bm_ids R (range_union R x lo) = (\<Union>n\<in>{lo..<lo + orderedRangeBlockSize}. bm_ids R (ob_bits (ox_blocks x ! n)))"
proof -
  have "bm_ids R (foldl (\<lambda>acc n. bm_or R acc (f n)) b ns) = bm_ids R b \<union> (\<Union>n\<in>set ns. bm_ids R (f n))"
    for f :: "nat \<Rightarrow> 'b" and b ns
    by (induction ns arbitrary: b) (auto simp: ids_or)
  then show ?thesis by (simp add: range_union_def ids_new)
qed

lemma ox_ok_prepare_range [inv_intros]:
  assumes "ox_ok R x"
  shows "ox_ok R (ox_prepare_range_search R x)"
proof (cases "length (ox_blocks x) < orderedRangeBlockSize * 2")
  case True
  with assms show ?thesis by (simp add: ox_prepare_range_search_def)
next
  case False
  have "(k + 1) * orderedRangeBlockSize \<le> length (ox_blocks x)"
    if "k < length (ox_blocks x) div orderedRangeBlockSize" for k
  proof -
    from that have "k + 1 \<le> length (ox_blocks x) div orderedRangeBlockSize" by simp
    then show ?thesis by (metis le_trans div_times_less_eq_dividend mult_le_mono1)
  qed
  then have "range_ok R (ox_prepare_range_search R x)"
    using False unfolding range_ok_def
    by (simp add: ox_prepare_range_search_def range_union_ids algebra_simps)
  with assms show ?thesis
    by (auto simp: ox_ok_def routing_ok_def prefix_ok_def)
qed

section \<open>Estimates\<close>

lemma items_card_nat: "items_card R items = of_nat (\<Sum>item\<leftarrow>items. card (bm_ids R (oi_bits item)))"
  by (simp add: items_card_def of_nat_sum_list card_eq o_def)

lemma blocks_card_nat: "blocks_card R bs = of_nat (\<Sum>b\<leftarrow>bs. card (bm_ids R (ob_bits b)))"
  by (simp add: blocks_card_def of_nat_sum_list card_eq o_def)

lemma card_items_ids_le: "card (items_ids R items) \<le> (\<Sum>item\<leftarrow>items. card (bm_ids R (oi_bits item)))"
proof (induction items)
  case (Cons item items)
  then show ?case
    using card_Un_le [of "bm_ids R (oi_bits item)" "items_ids R items"] by simp
qed simp

lemma card_blocks_le:
  assumes "\<forall>b\<in>set bs. block_ok R b"
  shows "card (\<Union>b\<in>set bs. items_ids R (ob_items b)) \<le> (\<Sum>b\<leftarrow>bs. card (bm_ids R (ob_bits b)))
    \<and> (\<Sum>b\<leftarrow>bs. card (bm_ids R (ob_bits b))) \<le> (\<Sum>item\<leftarrow>concat (map ob_items bs). card (bm_ids R (oi_bits item)))"
  using assms
proof (induction bs)
  case (Cons b bs)
  have "card (bm_ids R (ob_bits b)) \<le> (\<Sum>item\<leftarrow>ob_items b. card (bm_ids R (oi_bits item)))"
    using Cons.prems card_items_ids_le [of "ob_items b"] by (simp add: block_ok_def)
  moreover have "card (\<Union>c\<in>set (b # bs). items_ids R (ob_items c))
      \<le> card (bm_ids R (ob_bits b)) + card (\<Union>c\<in>set bs. items_ids R (ob_items c))"
    using Cons.prems card_Un_le [of "items_ids R (ob_items b)"] by (simp add: block_ok_def)
  ultimately show ?case using Cons by auto
qed simp

end

definition ox_total :: "'b roaring \<Rightarrow> ('v, 'b) ordered_index \<Rightarrow> nat" where
  "ox_total R x = (\<Sum>item\<leftarrow>flat x. card (bm_ids R (oi_bits item)))"

text \<open>The number the estimate computes before it wraps around.\<close>

definition ox_estimate_nat :: "'b roaring \<Rightarrow> ('v, 'b) ordered_index \<Rightarrow> 'v \<Rightarrow> bool \<Rightarrow> bool \<Rightarrow> nat" where
  "ox_estimate_nat R x v ascending inclusive =
     (if ox_blocks x = [] then 0
      else
        let n = block_for x v; items = ob_items (ox_blocks x ! n)
        in if ascending
           then (\<Sum>item\<leftarrow>drop (asc_bound (ox_compare x) inclusive items v) items. card (bm_ids R (oi_bits item)))
                + (\<Sum>b\<leftarrow>drop (Suc n) (ox_blocks x). card (bm_ids R (ob_bits b)))
           else (\<Sum>item\<leftarrow>take (desc_bound (ox_compare x) inclusive items v) items. card (bm_ids R (oi_bits item)))
                + (\<Sum>b\<leftarrow>take n (ox_blocks x). card (bm_ids R (ob_bits b))))"

lemma sum_take_le: "(\<Sum>x\<leftarrow>take n xs. f x) \<le> (\<Sum>x\<leftarrow>xs. f x :: nat)"
  by (metis append_take_drop_id le_add1 map_append sum_list_append)

lemma sum_drop_le: "(\<Sum>x\<leftarrow>drop n xs. f x) \<le> (\<Sum>x\<leftarrow>xs. f x :: nat)"
  by (metis append_take_drop_id le_add2 map_append sum_list_append)

context roaring
begin

lemma ox_estimate_of_nat:
  assumes "ox_ok R x"
  shows "ox_estimate R x v ascending inclusive = of_nat (ox_estimate_nat R x v ascending inclusive)"
proof (cases "ox_blocks x = []")
  case True
  then show ?thesis by (simp add: ox_estimate_def ox_estimate_nat_def)
next
  case False
  let ?n = "block_for x v"
  note n = block_for_less [OF assms False, of v]
  have prefix: "ox_prefix x ! m = blocks_card R (take m (ox_blocks x))"
    if "length (ox_prefix x) = length (ox_blocks x) + 1" "m \<le> length (ox_blocks x)" for m
    using assms that by (simp add: ox_ok_def prefix_ok_def)
  have "blocks_card R (ox_blocks x) = blocks_card R (take (Suc ?n) (ox_blocks x)) + blocks_card R (drop (Suc ?n) (ox_blocks x))"
    by (metis append_take_drop_id blocks_card_def map_append sum_list_append)
  then have "ox_prefix x ! length (ox_blocks x) - ox_prefix x ! Suc ?n = blocks_card R (drop (Suc ?n) (ox_blocks x))"
    if "length (ox_prefix x) = length (ox_blocks x) + 1"
    using that n by (simp add: prefix)
  with False n show ?thesis
    by (simp add: ox_estimate_def ox_estimate_nat_def Let_def items_card_nat blocks_card_nat prefix)
qed

lemma ox_estimate_nat_bounds:
  assumes "ox_ok R x"
  shows "card (ox_range_ids R x v ascending inclusive) \<le> ox_estimate_nat R x v ascending inclusive"
    and "ox_estimate_nat R x v ascending inclusive \<le> ox_total R x"
proof -
  let ?goal = "card (ox_range_ids R x v ascending inclusive) \<le> ox_estimate_nat R x v ascending inclusive
    \<and> ox_estimate_nat R x v ascending inclusive \<le> ox_total R x"
  have ?goal
  proof (cases "ox_blocks x = []")
    case True
    then show ?thesis by (simp add: ox_estimate_nat_def ox_range_ids_def flat_def ox_total_def)
  next
    case False
    let ?n = "block_for x v"
    let ?items = "ob_items (ox_blocks x ! ?n)"
    let ?f = "\<lambda>item. card (bm_ids R (oi_bits item))"
    note n = block_for_less [OF assms False, of v]
    note pos = block_for_pos [OF assms False, of v]
    have ok: "\<forall>b\<in>set (ox_blocks x). block_ok R b" using assms by (simp add: ox_ok_def)
    have total: "ox_total R x = (\<Sum>item\<leftarrow>before_block x ?n. ?f item) + (\<Sum>item\<leftarrow>?items. ?f item)
        + (\<Sum>item\<leftarrow>after_block x ?n. ?f item)"
      by (simp add: ox_total_def flat_cut [OF n])
    show ?thesis
    proof (cases ascending)
      case True
      let ?lo = "asc_bound (ox_compare x) inclusive ?items v"
      have "card (ox_range_ids R x v ascending inclusive)
          \<le> card (items_ids R (drop ?lo ?items)) + card (items_ids R (after_block x ?n))"
        using True by (simp add: ox_range_ids_def range_items_asc [OF assms n pos] card_Un_le)
      moreover have "\<forall>b\<in>set (drop (Suc ?n) (ox_blocks x)). block_ok R b" using ok by (blast dest: in_set_dropD)
      note card_blocks_le [OF this]
      ultimately show ?thesis
        using True False card_items_ids_le [of "drop ?lo ?items"]
          sum_drop_le [where f = ?f and n = ?lo and xs = ?items]
        by (simp add: ox_estimate_nat_def Let_def total after_block_def items_ids_concat)
    next
      case desc: False
      let ?lo = "desc_bound (ox_compare x) inclusive ?items v"
      have "card (ox_range_ids R x v ascending inclusive)
          \<le> card (items_ids R (before_block x ?n)) + card (items_ids R (take ?lo ?items))"
        using desc by (simp add: ox_range_ids_def range_items_desc [OF assms n pos] card_Un_le)
      moreover have "\<forall>b\<in>set (take ?n (ox_blocks x)). block_ok R b" using ok by (blast dest: in_set_takeD)
      note card_blocks_le [OF this]
      ultimately show ?thesis
        using desc False card_items_ids_le [of "take ?lo ?items"]
          sum_take_le [where f = ?f and n = ?lo and xs = ?items]
        by (simp add: ox_estimate_nat_def Let_def total before_block_def items_ids_concat)
    qed
  qed
  then show "card (ox_range_ids R x v ascending inclusive) \<le> ox_estimate_nat R x v ascending inclusive"
    "ox_estimate_nat R x v ascending inclusive \<le> ox_total R x" by simp_all
qed

lemma ox_estimate_nat_zero:
  assumes "ox_ok R x" "ox_range_ids R x v ascending inclusive = {}"
  shows "ox_estimate_nat R x v ascending inclusive = 0"
proof (cases "ox_blocks x = []")
  case False
  let ?n = "block_for x v"
  note n = block_for_less [OF assms(1) False, of v]
  note pos = block_for_pos [OF assms(1) False, of v]
  have ok: "\<forall>b\<in>set (ox_blocks x). bm_ids R (ob_bits b) = items_ids R (ob_items b)"
    using assms(1) by (auto simp: ox_ok_def block_ok_def)
  show ?thesis
  proof (cases ascending)
    case True
    have "\<forall>b\<in>set (drop (Suc ?n) (ox_blocks x)). bm_ids R (ob_bits b) = items_ids R (ob_items b)"
      using ok by (blast dest: in_set_dropD)
    with True assms(2) False show ?thesis
      by (simp add: ox_range_ids_def range_items_asc [OF assms(1) n pos] ox_estimate_nat_def Let_def
          items_ids_def after_block_def)
  next
    case desc: False
    have "\<forall>b\<in>set (take ?n (ox_blocks x)). bm_ids R (ob_bits b) = items_ids R (ob_items b)"
      using ok by (blast dest: in_set_takeD)
    with desc assms(2) False show ?thesis
      by (simp add: ox_range_ids_def range_items_desc [OF assms(1) n pos] ox_estimate_nat_def Let_def
          items_ids_def before_block_def)
  qed
qed (simp add: ox_estimate_nat_def)

lemma ox_estimate_bounds:
  assumes "ox_ok R x" "ox_total R x < 2 ^ 64"
  shows "card (ox_range_ids R x v ascending inclusive) \<le> unat (ox_estimate R x v ascending inclusive)"
    and "unat (ox_estimate R x v ascending inclusive) \<le> ox_total R x"
    and "ox_estimate R x v ascending inclusive = 0 \<longleftrightarrow> ox_range_ids R x v ascending inclusive = {}"
proof -
  let ?e = "ox_estimate_nat R x v ascending inclusive"
  note b = ox_estimate_nat_bounds [OF assms(1), of v ascending inclusive]
  have u: "unat (ox_estimate R x v ascending inclusive) = ?e"
    using b assms by (simp add: ox_estimate_of_nat unsigned_of_nat take_bit_nat_eq_self)
  with b show "card (ox_range_ids R x v ascending inclusive) \<le> unat (ox_estimate R x v ascending inclusive)"
    "unat (ox_estimate R x v ascending inclusive) \<le> ox_total R x" by simp_all
  have "?e = 0 \<longleftrightarrow> ox_range_ids R x v ascending inclusive = {}"
    using b(1) ox_estimate_nat_zero [OF assms(1), of v ascending inclusive] by auto
  with u show "ox_estimate R x v ascending inclusive = 0 \<longleftrightarrow> ox_range_ids R x v ascending inclusive = {}"
    by (metis unat_eq_zero)
qed

text \<open>An insertion adds at most one posting entry.\<close>

lemma ox_total_insert:
  assumes "ox_building R x"
  shows "ox_total R (ox_insert R x v i) \<le> Suc (ox_total R x)"
proof -
  let ?f = "\<lambda>item. card (bm_ids R (oi_bits item))"
  have sorted: "sorted_items (ox_compare x) (flat x)" and cmp: "comparator (ox_compare x)"
    using assms by (auto simp: ox_building_def ox_ok_def)
  have card1: "card (insert i (A :: u32 set)) \<le> Suc (card A)" for A
    by (simp add: card_insert_if)
  have bump: "(\<Sum>item\<leftarrow>items. ?f (bump R cmp v i item))
      \<le> (\<Sum>item\<leftarrow>items. ?f item) + length (filter (\<lambda>item. cmp (oi_value item) v = 0) items)" for items cmp
  proof (induction items)
    case (Cons a items)
    then show ?case using card1 [of "bm_ids R (oi_bits a)"] by (auto simp: bump_def ids_add)
  qed simp
  show ?thesis
  proof (cases "\<exists>item\<in>set (flat x). ox_compare x (oi_value item) v = 0")
    case True
    with bump [of "ox_compare x" "flat x"] equal_items_singleton [OF cmp sorted, of v] show ?thesis
      by (simp add: ox_total_def flat_insert [OF assms] put_item_def o_def)
  next
    case False
    let ?p = "\<lambda>item. ox_compare x (oi_value item) v < 0"
    have "(\<Sum>item\<leftarrow>flat x. ?f item) = (\<Sum>item\<leftarrow>takeWhile ?p (flat x). ?f item) + (\<Sum>item\<leftarrow>dropWhile ?p (flat x). ?f item)"
      by (simp only: sum_list_append [symmetric] map_append [symmetric] takeWhile_dropWhile_id)
    with False show ?thesis
      by (simp add: ox_total_def flat_insert [OF assms] put_item_def ids_add ids_new)
  qed
qed

end

section \<open>A whole build, prepared and queried\<close>

lemma in_range_cong:
  assumes "comparator cmp" "cmp w w' = 0"
  shows "in_range cmp v ascending inclusive w \<longleftrightarrow> in_range cmp v ascending inclusive w'"
proof -
  have order: "comparator cmp" by (rule assms(1))
  note cmp_refl [simp] = comparator.cmp_refl [OF order]
  note cmp_eq_cong = comparator.cmp_eq_cong [OF order]
  note cmp_eq_cong0 = comparator.cmp_eq_cong0 [OF order]
  have "cmp w v < 0 \<longleftrightarrow> cmp w' v < 0" "cmp w v = 0 \<longleftrightarrow> cmp w' v = 0"
    using cmp_eq_cong [OF assms(2)] cmp_eq_cong0 [OF assms(2)] by auto
  then show ?thesis by (auto simp: in_range_def not_less linorder_neq_iff)
qed

lemma ox_range_ids_posting:
  assumes "comparator (ox_compare x)"
  shows "ox_range_ids R x v ascending inclusive
    = {i. \<exists>w. in_range (ox_compare x) v ascending inclusive w \<and> i \<in> ox_posting R x w}"
proof -
  have order: "comparator (ox_compare x)" by (rule assms(1))
  note cmp_refl [simp] = comparator.cmp_refl [OF order]
  have "(\<exists>w. in_range (ox_compare x) v ascending inclusive w \<and> ox_compare x (oi_value item) w = 0)
      \<longleftrightarrow> in_range (ox_compare x) v ascending inclusive (oi_value item)" for item
    using in_range_cong [OF assms] cmp_refl by blast
  then have "i \<in> ox_range_ids R x v ascending inclusive
      \<longleftrightarrow> (\<exists>item\<in>set (flat x). i \<in> bm_ids R (oi_bits item)
           \<and> (\<exists>w. in_range (ox_compare x) v ascending inclusive w \<and> ox_compare x (oi_value item) w = 0))" for i
    by (auto simp: ox_range_ids_def items_ids_def)
  then show ?thesis unfolding ox_posting_iff by blast
qed

definition ox_build ::
  "'b roaring \<Rightarrow> ('v \<Rightarrow> 'v \<Rightarrow> int) \<Rightarrow> ('v \<Rightarrow> u64 option) \<Rightarrow> ('v \<times> u32) list \<Rightarrow> ('v, 'b) ordered_index" where
  "ox_build R cmp key es =
     ox_prepare_range_search R (ox_prepare_search R
       (foldl (\<lambda>x (v, i). ox_insert R x v i) (new_ordered_index cmp key) es))"

lemma ox_compare_fold [simp]: "ox_compare (foldl (\<lambda>x (v, i). ox_insert R x v i) x es) = ox_compare x"
  by (induction es arbitrary: x) auto

lemma ox_compare_build [simp]: "ox_compare (ox_build R cmp key es) = cmp"
  by (simp add: ox_build_def) (simp add: new_ordered_index_def)

context roaring
begin

lemma ox_total_fold:
  "ox_building R x \<Longrightarrow> ox_total R (foldl (\<lambda>x (v, i). ox_insert R x v i) x es) \<le> ox_total R x + length es"
proof (induction es arbitrary: x)
  case (Cons e es)
  obtain v i where e: "e = (v, i)" by (cases e)
  from Cons.IH [OF ox_building_insert [OF Cons.prems, of v i]] ox_total_insert [OF Cons.prems, of v i]
  show ?case by (simp add: e)
qed simp

lemma ox_building_fold:
  "comparator cmp \<Longrightarrow> ox_building R (foldl (\<lambda>x (v, i). ox_insert R x v i) (new_ordered_index cmp key) es)"
  by (rule ordered.ok_fold [OF roaring_axioms ox_building_new])

lemma ox_ok_build: "comparator cmp \<Longrightarrow> ox_ok R (ox_build R cmp key es)"
  unfolding ox_build_def
  by (intro ox_ok_prepare_range ox_ok_prepare_search ox_ok_building ox_building_fold)

lemma ox_total_build:
  assumes "comparator cmp"
  shows "ox_total R (ox_build R cmp key es) \<le> length es"
  using ox_total_fold [OF ox_building_new [OF assms], of key es]
  by (simp add: ox_total_def ox_build_def) (simp add: flat_def new_ordered_index_def)

lemma ox_posting_build:
  assumes "comparator cmp"
  shows "ox_posting R (ox_build R cmp key es) w = {i. \<exists>v. (v, i) \<in> set es \<and> cmp v w = 0}"
proof -
  have "ox_posting R (ox_build R cmp key es)
      = ox_posting R (foldl (\<lambda>x (v, i). ox_insert R x v i) (new_ordered_index cmp key) es)"
    by (rule ox_posting_cong) (simp_all add: ox_build_def)
  then show ?thesis
    by (simp add: ordered.posting_fold [OF roaring_axioms ox_building_new [OF assms]])
      (simp add: new_ordered_index_def)
qed

lemma ox_range_build:
  assumes "comparator cmp"
  shows "ox_range_ids R (ox_build R cmp key es) v ascending inclusive
    = {i. \<exists>w. (w, i) \<in> set es \<and> in_range cmp v ascending inclusive w}"
proof -
  have order: "comparator cmp" by (rule assms(1))
  note cmp_refl [simp] = comparator.cmp_refl [OF order]
  have "ox_range_ids R (ox_build R cmp key es) v ascending inclusive
      = {i. \<exists>w. in_range cmp v ascending inclusive w \<and> (\<exists>u. (u, i) \<in> set es \<and> cmp u w = 0)}"
    using assms by (simp add: ox_range_ids_posting ox_posting_build)
  then show ?thesis using in_range_cong [OF assms] cmp_refl by blast
qed

end

text \<open>
  C30: An ordered index built from any list of (value, ID) entries, with routing, prefix sums and
  range unions prepared, visits on a range query bitmaps whose union is exactly the IDs of the
  entries on the requested side of the query value, for every comparator and routing key.
\<close>

theorem ordered_walk_exact:
  assumes "roaring R" "comparator cmp"
  shows "bits_ids R (ox_walk (ox_build R cmp key es) v ascending inclusive)
    = {i. \<exists>w. (w, i) \<in> set es \<and> in_range cmp v ascending inclusive w}"
  using assms by (simp add: ox_walk_ids roaring.ox_ok_build roaring.ox_range_build)

theorem ordered_walk_exact_witness:
  "bits_ids list_bitmap (ox_walk (ox_build list_bitmap go_compare (\<lambda>_. None) [(5, 1), (9, 2), (5, 3)]) 5 True False)
    = {i. \<exists>w. (w, i) \<in> set [(5, 1), (9, 2), (5, 3)] \<and> in_range go_compare 5 True False w}
   \<and> ox_walk (ox_build list_bitmap go_compare (\<lambda>_. None) [(5, 1), (9, 2), (5, 3)]) 5 True False = [[2]]"
  by (rule conjI, rule ordered_walk_exact [OF list_bitmap.roaring_axioms go_compare.comparator_axioms]) code_simp

text \<open>
  The membership test of the same prepared index agrees with its walk on every ID.
\<close>

theorem ordered_matches_exact:
  assumes "roaring R" "comparator cmp"
  shows "ox_matches R (ox_build R cmp key es) v ascending inclusive i
    \<longleftrightarrow> (\<exists>w. (w, i) \<in> set es \<and> in_range cmp v ascending inclusive w)"
  using assms by (simp add: ox_matches_iff roaring.ox_ok_build roaring.ox_range_build)

theorem ordered_matches_exact_witness:
  "ox_matches list_bitmap (ox_build list_bitmap go_compare (\<lambda>_. None) [(5, 1), (9, 2), (5, 3)]) 5 False True 3
    \<and> \<not> ox_matches list_bitmap (ox_build list_bitmap go_compare (\<lambda>_. None) [(5, 1), (9, 2), (5, 3)]) 5 False True 2"
  unfolding ordered_matches_exact [OF list_bitmap.roaring_axioms go_compare.comparator_axioms]
  by (auto simp: in_range_def go_compare_def)

text \<open>
  C31: The cardinality estimate of a range query on the prepared index, computed in wrapping 64-bit
  arithmetic from prefix sums, is an upper bound of the number of IDs in the range, at most the
  number of entries, and zero exactly when no entry is in range.
\<close>

theorem ordered_estimate_bounds:
  assumes "roaring R" "comparator cmp" "length es < 2 ^ 64"
  shows "card {i. \<exists>w. (w, i) \<in> set es \<and> in_range cmp v ascending inclusive w}
      \<le> unat (ox_estimate R (ox_build R cmp key es) v ascending inclusive)
    \<and> unat (ox_estimate R (ox_build R cmp key es) v ascending inclusive) \<le> length es
    \<and> (ox_estimate R (ox_build R cmp key es) v ascending inclusive = 0
         \<longleftrightarrow> \<not> (\<exists>(w, i)\<in>set es. in_range cmp v ascending inclusive w))"
proof -
  have total: "ox_total R (ox_build R cmp key es) \<le> length es"
    using assms(1,2) by (rule roaring.ox_total_build)
  note bounds = roaring.ox_estimate_bounds [OF assms(1) roaring.ox_ok_build [OF assms(1,2)], of key es v ascending inclusive]
  show ?thesis
    using total assms(3) bounds by (auto simp: roaring.ox_range_build [OF assms(1,2)])
qed

theorem ordered_estimate_bounds_witness:
  "ox_estimate list_bitmap (ox_build list_bitmap go_compare (\<lambda>_. None) [(5, 1), (9, 2), (5, 3)]) 5 True True \<noteq> 0"
  using ordered_estimate_bounds [OF list_bitmap.roaring_axioms go_compare.comparator_axioms,
      of "[(5, 1), (9, 2), (5, 3)]" 5 True True "\<lambda>_. None"]
  by (auto simp: in_range_def go_compare_def)

end
