(* ===== verification/Ordered_Rule.thy ===== *)
theory Ordered_Rule
  imports Rule_Contract Ordered_Prepare
begin

text \<open>
  The ordered filters \<open>Greater\<close>, \<open>GreaterOrEqual\<close>, \<open>Less\<close> and \<open>LessOrEqual\<close> (\<open>orderedRule\<close> in
  \<^verbatim>\<open>ordered.go\<close>): a wildcard bitmap and an ordered index that a query walks on one side of its value.
  \<open>Ordered_Rebuild\<close> adds the accounting and the quantized insertion that a memory limit needs.
\<close>

datatype direction = Greater_Than | Less_Than

record ('t, 'v, 'b) ordered_rule =
  od_node :: nat
  od_get :: "'t \<Rightarrow> 'v option"
  od_compare :: "'v \<Rightarrow> 'v \<Rightarrow> int"
  od_dir :: direction
  od_inclusive :: bool
  od_wildcard :: 'b
  od_index :: "('v, 'b) ordered_index"

text \<open>\<open>newOrderedRule\<close> followed by \<open>newState\<close>; \<open>key\<close> is the routing key of the value type.\<close>

definition new_ordered_rule ::
  "'b roaring \<Rightarrow> nat \<Rightarrow> ('t \<Rightarrow> 'v option) \<Rightarrow> ('v \<Rightarrow> 'v \<Rightarrow> int) \<Rightarrow> ('v \<Rightarrow> u64 option) \<Rightarrow> direction \<Rightarrow> bool
     \<Rightarrow> ('t, 'v, 'b) ordered_rule" where
  "new_ordered_rule R node get cmp key dir inclusive =
     \<lparr>od_node = node, od_get = get, od_compare = cmp, od_dir = dir, od_inclusive = inclusive,
      od_wildcard = bm_new R, od_index = new_ordered_index cmp key\<rparr>"

section \<open>Operations\<close>

definition od_insert :: "'b roaring \<Rightarrow> ('t, 'v, 'b) ordered_rule \<Rightarrow> 't \<Rightarrow> u32 \<Rightarrow> ('t, 'v, 'b) ordered_rule" where
  "od_insert R r t i =
     (case od_get r t of
        None \<Rightarrow> r\<lparr>od_wildcard := bm_add R (od_wildcard r) i\<rparr>
      | Some value \<Rightarrow> r\<lparr>od_index := ox_insert R (od_index r) value i\<rparr>)"

definition od_prepare :: "'b roaring \<Rightarrow> ('t, 'v, 'b) ordered_rule \<Rightarrow> ('t, 'v, 'b) ordered_rule" where
  "od_prepare R r = r\<lparr>od_index := ox_prepare_search R (od_index r)\<rparr>"

abbreviation od_ascending :: "('t, 'v, 'b) ordered_rule \<Rightarrow> bool" where
  "od_ascending r \<equiv> od_dir r = Less_Than"

definition od_estimate :: "'b roaring \<Rightarrow> ('t, 'v, 'b) ordered_rule \<Rightarrow> 't \<Rightarrow> u64" where
  "od_estimate R r v =
     (let n = bm_card R (od_wildcard r)
      in case od_get r v of
           None \<Rightarrow> n
         | Some value \<Rightarrow> n + ox_estimate R (od_index r) value (od_ascending r) (od_inclusive r))"

definition od_cardinality_zero :: "'b roaring \<Rightarrow> ('t, 'v, 'b) ordered_rule \<Rightarrow> 't \<Rightarrow> bool" where
  "od_cardinality_zero R r v = (od_estimate R r v = 0)"

definition od_matches_id :: "'b roaring \<Rightarrow> ('t, 'v, 'b) ordered_rule \<Rightarrow> 't \<Rightarrow> u32 \<Rightarrow> bool" where
  "od_matches_id R r v i =
     (bm_contains R (od_wildcard r) i \<or>
      (case od_get r v of
         None \<Rightarrow> False
       | Some value \<Rightarrow> ox_matches R (od_index r) value (od_ascending r) (od_inclusive r) i))"

definition od_add_matches :: "'b roaring \<Rightarrow> ('t, 'v, 'b) ordered_rule \<Rightarrow> 'v option \<Rightarrow> 'b \<Rightarrow> 'b" where
  "od_add_matches R r value dst =
     (let dst = bm_or R dst (od_wildcard r)
      in case value of
           None \<Rightarrow> dst
         | Some v \<Rightarrow> foldl (bm_or R) dst (ox_walk (od_index r) v (od_ascending r) (od_inclusive r)))"

definition od_append_matching :: "'b roaring \<Rightarrow> ('t, 'v, 'b) ordered_rule \<Rightarrow> 'v option \<Rightarrow> 'b list" where
  "od_append_matching R r value =
     (if bm_is_empty R (od_wildcard r) then [] else [od_wildcard r])
     @ (case value of
          None \<Rightarrow> []
        | Some v \<Rightarrow> ox_walk (od_index r) v (od_ascending r) (od_inclusive r))"

definition od_filter :: "'b roaring \<Rightarrow> ('t, 'v, 'b) ordered_rule \<Rightarrow> 't \<Rightarrow> 'b \<Rightarrow> 'b" where
  "od_filter R r v dst =
     (let postings = od_append_matching R r (od_get r v)
      in if postings = [] then bm_new R else bm_and_any R dst postings)"

definition od_key :: "('t, 'v, 'b) ordered_rule \<Rightarrow> 't \<Rightarrow> 'v cache_key" where
  "od_key r v = (od_get r v, None)"

abbreviation same_value :: "('v \<Rightarrow> 'v \<Rightarrow> int) \<Rightarrow> 'v cache_key \<Rightarrow> 'v cache_key \<Rightarrow> bool" where
  "same_value cmp \<equiv> key_equal (\<lambda>a b. cmp a b = 0)"

definition od_search ::
  "'b roaring \<Rightarrow> ('t, 'v, 'b) ordered_rule \<Rightarrow> 't \<Rightarrow> ('v, 'b) pool \<Rightarrow> 'b \<Rightarrow> 'b \<times> ('v, 'b) pool" where
  "od_search R r v p dst =
     local_search R Ordered_Cache (same_value (od_compare r)) (od_node r) (od_add_matches R r (od_get r v)) (od_key r v) p dst"

definition od_lookup_cached ::
  "('t, 'v, 'b) ordered_rule \<Rightarrow> 't \<Rightarrow> ('v, 'b) pool \<Rightarrow> ('b \<times> source) option \<times> ('v, 'b) pool" where
  "od_lookup_cached r v p = local_peek_lookup Ordered_Cache (same_value (od_compare r)) (od_node r) (od_key r v) p"

definition od_cached_estimate ::
  "'b roaring \<Rightarrow> ('t, 'v, 'b) ordered_rule \<Rightarrow> 't \<Rightarrow> ('v, 'b) pool \<Rightarrow> u64 option \<times> ('v, 'b) pool" where
  "od_cached_estimate R r v p =
     (map_option (bm_card R) (local_peek Ordered_Cache (same_value (od_compare r)) (od_node r) (od_key r v) p), p)"

definition od_query_key_matches :: "('t, 'v, 'b) ordered_rule \<Rightarrow> 't \<Rightarrow> 'v query_key \<Rightarrow> bool" where
  "od_query_key_matches r v key =
     (fst key = Ordered_Cache \<and> same_value (od_compare r) (snd key) (od_key r v))"

definition od_optimize :: "'b roaring \<Rightarrow> ('t, 'v, 'b) ordered_rule \<Rightarrow> u64 \<Rightarrow> 'b option" where
  "od_optimize R r rules = (if bm_card R (od_wildcard r) = rules then Some (od_wildcard r) else None)"

definition od_ops :: "'b roaring \<Rightarrow> ('t, 'v, 'b) ordered_rule \<Rightarrow> ('t, 'v, 'b) child_ops" where
  "od_ops R r =
     \<lparr>co_search = od_search R r, co_planning = None, co_cached = Some (od_lookup_cached r),
      co_direct = Some (od_matches_id R r), co_work = None, co_filter = Some (od_filter R r),
      co_keys = [Some \<lparr>kp_key = \<lambda>v. (Ordered_Cache, od_key r v), kp_matches = od_query_key_matches r\<rparr>],
      co_estimate = Some (od_estimate R r), co_cached_estimate = Some (od_cached_estimate R r),
      co_cheap = None, co_cheap_zero = None, co_zero = Some (od_cardinality_zero R r),
      co_shared = None, co_class = None\<rparr>"

section \<open>What it denotes\<close>

definition od_key_den :: "'b roaring \<Rightarrow> ('t, 'v, 'b) ordered_rule \<Rightarrow> 'v option \<Rightarrow> u32 set" where
  "od_key_den R r value =
     bm_ids R (od_wildcard r)
     \<union> (case value of None \<Rightarrow> {} | Some v \<Rightarrow> ox_range_ids R (od_index r) v (od_ascending r) (od_inclusive r))"

definition od_den :: "'b roaring \<Rightarrow> ('t, 'v, 'b) ordered_rule \<Rightarrow> 't \<Rightarrow> u32 set" where
  "od_den R r v = od_key_den R r (od_get r v)"

definition od_matches :: "('t, 'v, 'b) ordered_rule \<Rightarrow> 't \<Rightarrow> 't \<Rightarrow> bool" where
  "od_matches r stored query =
     (case od_get r stored of
        None \<Rightarrow> True
      | Some w \<Rightarrow>
          (case od_get r query of
             None \<Rightarrow> False
           | Some v \<Rightarrow> in_range (od_compare r) v (od_ascending r) (od_inclusive r) w))"

definition od_building :: "'b roaring \<Rightarrow> ('t, 'v, 'b) ordered_rule \<Rightarrow> bool" where
  "od_building R r \<longleftrightarrow> ox_building R (od_index r) \<and> ox_compare (od_index r) = od_compare r"

definition od_published :: "'b roaring \<Rightarrow> ('t, 'v, 'b) ordered_rule \<Rightarrow> bool" where
  "od_published R r \<longleftrightarrow> ox_ok R (od_index r) \<and> ox_compare (od_index r) = od_compare r"

definition od_ready :: "'b roaring \<Rightarrow> 'v valuation \<Rightarrow> ('t, 'v, 'b) ordered_rule \<Rightarrow> bool" where
  "od_ready R G r \<longleftrightarrow> od_published R r \<and> ox_total R (od_index r) < 2 ^ 63 \<and> od_node r < va_nodes G
     \<and> (\<forall>k. va_den G Ordered_Cache (od_node r) k = od_key_den R r (fst k))"

lemma in_range_query_cong:
  assumes "comparator cmp" "cmp v v' = 0"
  shows "in_range cmp v ascending inclusive w \<longleftrightarrow> in_range cmp v' ascending inclusive w"
proof -
  have "cmp v w < 0 \<longleftrightarrow> cmp v' w < 0" "cmp v w = 0 \<longleftrightarrow> cmp v' w = 0"
    using comparator.cmp_eq_cong [OF assms] comparator.cmp_eq_cong0 [OF assms] by auto
  then have "cmp w v = 0 \<longleftrightarrow> cmp w v' = 0" "0 < cmp w v \<longleftrightarrow> 0 < cmp w v'"
    using comparator.cmp_eq_sym [OF assms(1)] comparator.cmp_antisym [OF assms(1)] by blast+
  then show ?thesis by (auto simp: in_range_def not_less linorder_neq_iff)
qed

lemma od_key_den_cong:
  assumes "od_published R r" "rel_option (\<lambda>a b. od_compare r a b = 0) a b"
  shows "od_key_den R r a = od_key_den R r b"
proof -
  have cmp: "comparator (od_compare r)"
    using assms(1) by (auto simp: od_published_def dest: ox_ok_comparator)
  have eq: "ox_compare (od_index r) = od_compare r" using assms(1) by (simp add: od_published_def)
  show ?thesis
    using assms(2)
    by (cases a; cases b) (simp_all add: od_key_den_def ox_range_ids_def eq in_range_query_cong [OF cmp])
qed

lemma od_ready_cong:
  "od_ready R G r \<Longrightarrow> same_value (od_compare r) a b \<Longrightarrow>
   va_den G Ordered_Cache (od_node r) a = va_den G Ordered_Cache (od_node r) b"
  using od_key_den_cong [of R r "fst a" "fst b"]
  by (cases a; cases b) (simp add: od_ready_def key_equal_def)

context roaring
begin

lemma od_add_matches_ids:
  "od_published R r \<Longrightarrow> bm_ids R (od_add_matches R r value dst) = bm_ids R dst \<union> od_key_den R r value"
  by (auto simp: od_add_matches_def od_key_den_def Let_def ids_or ids_foldl_or od_published_def
      ox_walk_ids [symmetric] bits_ids_def split: option.split)

lemma od_append_matching_ids:
  "od_published R r \<Longrightarrow> bits_ids R (od_append_matching R r value) = od_key_den R r value"
  by (auto simp: od_append_matching_def od_key_den_def is_empty_iff od_published_def ox_walk_ids split: option.split)

lemma ids_and_any_postings:
  "bm_ids R (if bs = [] then bm_new R else bm_and_any R dst bs) = bm_ids R dst \<inter> bits_ids R bs"
  by (simp add: ids_new ids_and_any bits_ids_def)

lemma od_filter_ids: "od_published R r \<Longrightarrow> bm_ids R (od_filter R r v dst) = bm_ids R dst \<inter> od_den R r v"
  by (simp only: od_filter_def Let_def ids_and_any_postings od_append_matching_ids od_den_def)

lemma od_matches_id_iff: "od_published R r \<Longrightarrow> od_matches_id R r v i \<longleftrightarrow> i \<in> od_den R r v"
  by (auto simp: od_matches_id_def od_den_def od_key_den_def contains_iff od_published_def ox_matches_iff split: option.split)

lemma u64_add_bound:
  fixes a b :: u64
  assumes "unat a \<le> m" "unat b \<le> n" "m + n < 2 ^ 64"
  shows "unat (a + b) = unat a + unat b"
proof -
  have "unat a + unat b < 2 ^ 64" using assms by linarith
  then show ?thesis using unat_add_lem [of a b] by simp
qed

lemma od_estimate_bounds:
  assumes "od_published R r" "ox_total R (od_index r) < 2 ^ 63"
  shows "card (od_den R r v) \<le> unat (od_estimate R r v)"
    and "unat (od_estimate R r v) \<le> 2 ^ 32 + ox_total R (od_index r)"
proof -
  let ?w = "bm_card R (od_wildcard r)"
  have w: "unat ?w = card (bm_ids R (od_wildcard r))" by (rule unat_card)
  have w32: "unat ?w \<le> 2 ^ 32" using card_u32_le unfolding w by simp
  have "card (od_den R r v) \<le> unat (od_estimate R r v) \<and> unat (od_estimate R r v) \<le> 2 ^ 32 + ox_total R (od_index r)"
  proof (cases "od_get r v")
    case None
    with w w32 show ?thesis by (simp add: od_estimate_def od_den_def od_key_den_def)
  next
    case (Some x)
    let ?e = "ox_estimate R (od_index r) x (od_ascending r) (od_inclusive r)"
    have ok: "ox_ok R (od_index r)" using assms(1) by (simp add: od_published_def)
    have lt: "ox_total R (od_index r) < 2 ^ 64" using assms(2) by simp
    note b = ox_estimate_bounds(1,2) [OF ok lt, of x "od_ascending r" "od_inclusive r"]
    have sum: "unat (?w + ?e) = unat ?w + unat ?e"
      by (rule u64_add_bound [OF w32 b(2)]) (use assms(2) in simp)
    have "card (od_den R r v) \<le> unat ?w + unat ?e"
      unfolding od_den_def od_key_den_def Some option.simps w
      by (rule order_trans [OF card_Un_le]) (use b(1) in simp)
    with Some sum b(2) w32 show ?thesis by (simp add: od_estimate_def Let_def)
  qed
  then show "card (od_den R r v) \<le> unat (od_estimate R r v)"
    "unat (od_estimate R r v) \<le> 2 ^ 32 + ox_total R (od_index r)" by auto
qed

lemma od_estimate_zero:
  assumes "od_published R r" "ox_total R (od_index r) < 2 ^ 63" "od_estimate R r v = 0"
  shows "od_den R r v = {}"
  using od_estimate_bounds(1) [OF assms(1,2), of v] assms(3) by simp

lemma od_ops_ok:
  assumes ready: "od_ready R G r"
  shows "ops_ok R G (od_ops R r) (od_den R r)"
proof -
  have pub: "od_published R r" and node: "od_node r < va_nodes G" and total: "ox_total R (od_index r) < 2 ^ 63"
    and den: "\<And>v. va_den G Ordered_Cache (od_node r) (od_key r v) = od_den R r v"
    using ready by (auto simp: od_ready_def od_den_def od_key_def)
  note cong = od_ready_cong [OF ready]
  have fill: "bm_ids R (od_add_matches R r (od_get r v) d)
      = bm_ids R d \<union> od_den R r v" for v d
    by (simp add: od_add_matches_ids pub od_den_def)
  have "search_ok R G (od_ops R r) (od_den R r)"
    by (rule search_ok_local [OF node _ den fill], erule cong) (simp add: od_ops_def od_search_def [abs_def])
  moreover have "cached_ok R G (od_ops R r) (od_den R r)"
    by (rule cached_ok_local [OF node _ den], erule cong) (simp add: od_ops_def od_lookup_cached_def [abs_def])
  moreover have "static_ok R (od_ops R r) (od_den R r)"
    unfolding static_ok_def
    using od_key_den_cong [OF pub]
    by (auto simp: od_ops_def od_matches_id_iff pub od_filter_ids od_query_key_matches_def key_equal_def od_key_def od_den_def)
  moreover have peek: "bm_ids R b = od_den R r v"
    if "pool_ok R G p" "local_peek Ordered_Cache (same_value (od_compare r)) (od_node r) (od_key r v) p = Some b" for v p b
    using local_peek_spec [OF that(1) node _ that(2)] cong unfolding den by blast
  have "estimates_ok R G (od_ops R r) (od_den R r)"
    unfolding estimates_ok_def
    by (auto dest!: peek simp: od_ops_def od_estimate_zero [OF pub total] od_cardinality_zero_def od_cached_estimate_def card_zero_iff den)
  ultimately show ?thesis by (simp add: ops_ok_def)
qed

lemma od_den_posting:
  assumes "od_published R r"
  shows "od_den R r q = bm_ids R (od_wildcard r) \<union> (case od_get r q of None \<Rightarrow> {} | Some v \<Rightarrow>
    {i. \<exists>w. in_range (od_compare r) v (od_ascending r) (od_inclusive r) w \<and> i \<in> ox_posting R (od_index r) w})"
proof -
  have ok: "ox_ok R (od_index r)" and eq: "ox_compare (od_index r) = od_compare r"
    using assms by (auto simp: od_published_def)
  show ?thesis
    by (simp only: od_den_def od_key_den_def ox_range_ids_posting [OF ox_ok_comparator [OF ok]] eq)
qed

lemma od_building_insert: "od_building R r \<Longrightarrow> od_building R (od_insert R r t i)"
  by (auto simp: od_building_def od_insert_def ox_building_insert split: option.split)

lemma od_published_building: "od_building R r \<Longrightarrow> od_published R r"
  by (simp add: od_building_def od_published_def ox_ok_building)

lemma od_den_insert:
  assumes "od_building R r"
  shows "od_den R (od_insert R r t i) q = (if od_matches r t q then insert i (od_den R r q) else od_den R r q)"
proof -
  have bld: "ox_building R (od_index r)" and eq: "ox_compare (od_index r) = od_compare r"
    using assms by (auto simp: od_building_def)
  have cmp: "comparator (od_compare r)" using ox_ok_comparator [OF ox_ok_building [OF bld]] eq by simp
  note pub = od_published_building [OF assms] od_published_building [OF od_building_insert [OF assms]]
  show ?thesis
  proof (cases "od_get r t")
    case None
    then show ?thesis
      by (cases "od_get r q") (auto simp: od_insert_def od_den_def od_key_den_def od_matches_def ids_add)
  next
    case (Some x)
    have "(\<exists>w. in_range (od_compare r) v a c w \<and> od_compare r x w = 0) \<longleftrightarrow> in_range (od_compare r) v a c x" for v a c
      using in_range_cong [OF cmp, of x] comparator.cmp_refl [OF cmp] by blast
    then have "j \<in> od_den R (od_insert R r t i) q \<longleftrightarrow> j \<in> od_den R r q \<or> j = i \<and> od_matches r t q" for j
      unfolding od_den_posting [OF pub(1)] od_den_posting [OF pub(2)]
      using Some by (auto simp: od_insert_def ox_posting_insert [OF bld] eq od_matches_def split: option.split if_splits)
    then show ?thesis by auto
  qed
qed

lemma od_published_prepare: "od_building R r \<Longrightarrow> od_published R (od_prepare R r)"
  by (simp add: od_building_def od_published_def od_prepare_def ox_ok_prepare_search ox_ok_building)

lemma od_key_den_prepare: "od_key_den R (od_prepare R r) k = od_key_den R r k"
proof -
  have "ox_range_ids R (ox_prepare_search R (od_index r)) = ox_range_ids R (od_index r)"
    by (rule ox_range_ids_cong) simp_all
  then show ?thesis by (simp add: od_key_den_def od_prepare_def split: option.split)
qed

lemma od_den_prepare: "od_den R (od_prepare R r) q = od_den R r q"
  by (simp add: od_den_def od_key_den_prepare) (simp add: od_prepare_def)

lemma ox_total_prepare: "ox_total R (ox_prepare_search R x) = ox_total R x"
  by (simp add: ox_total_def)

lemma od_total_insert:
  "od_building R r \<Longrightarrow> ox_total R (od_index (od_insert R r t i)) \<le> Suc (ox_total R (od_index r))"
  using ox_total_insert [of "od_index r"] by (auto simp: od_insert_def od_building_def split: option.split)

end

lemma od_schema_insert [simp]:
  "od_get (od_insert R r t i) = od_get r" "od_compare (od_insert R r t i) = od_compare r"
  "od_dir (od_insert R r t i) = od_dir r" "od_inclusive (od_insert R r t i) = od_inclusive r"
  "od_node (od_insert R r t i) = od_node r"
  by (simp_all add: od_insert_def split: option.split)

lemma od_new_building:
  assumes "roaring R" "comparator cmp"
  shows "od_building R (new_ordered_rule R node get cmp key dir inclusive)"
    "od_den R (new_ordered_rule R node get cmp key dir inclusive) q = {}"
    "ox_total R (od_index (new_ordered_rule R node get cmp key dir inclusive)) = 0"
proof -
  show "od_building R (new_ordered_rule R node get cmp key dir inclusive)"
    using assms by (simp add: od_building_def new_ordered_rule_def ox_building_new) (simp add: new_ordered_index_def)
  show "od_den R (new_ordered_rule R node get cmp key dir inclusive) q = {}"
    by (simp add: od_den_def od_key_den_def new_ordered_rule_def roaring.ids_new [OF assms(1)] ox_range_ids_def
        flat_def new_ordered_index_def split: option.split)
  show "ox_total R (od_index (new_ordered_rule R node get cmp key dir inclusive)) = 0"
    by (simp add: new_ordered_rule_def ox_total_def flat_def new_ordered_index_def)
qed

interpretation ordered_filter: buildable od_building od_published od_insert od_prepare "\<lambda>_ _. True" od_matches od_den
  by unfold_locales
    (auto simp: roaring.od_den_insert roaring.od_building_insert roaring.od_published_prepare roaring.od_den_prepare
      od_matches_def fun_eq_iff split: option.split)

interpretation ordered_filter: searchable od_ready od_ops od_den
  by unfold_locales (rule roaring.od_ops_ok)

end
