(* ===== verification/Between_Rule.thy ===== *)
theory Between_Rule
  imports Ordered_Rule
begin

text \<open>
  The interval filter (\<open>betweenRule\<close> in \<^verbatim>\<open>between.go\<close>): a \<open>GreaterOrEqual\<close> on the lower bound and a
  \<open>LessOrEqual\<close> on the upper bound that are executed together, the side with the smaller estimate
  first. Its result cache is keyed by both bounds.
\<close>

record ('t, 'v, 'b) between_rule =
  bt_node :: nat
  bt_from :: "('t, 'v, 'b) ordered_rule"
  bt_until :: "('t, 'v, 'b) ordered_rule"

text \<open>\<open>Between\<close> followed by \<open>newState\<close>: both components carry the node of the rule.\<close>

definition new_between_rule ::
  "'b roaring \<Rightarrow> nat \<Rightarrow> ('t \<Rightarrow> 'v option) \<Rightarrow> ('t \<Rightarrow> 'v option) \<Rightarrow> ('v \<Rightarrow> 'v \<Rightarrow> int) \<Rightarrow> ('v \<Rightarrow> u64 option)
     \<Rightarrow> ('t, 'v, 'b) between_rule" where
  "new_between_rule R node from_get until_get cmp key =
     \<lparr>bt_node = node, bt_from = new_ordered_rule R node from_get cmp key Greater_Than True,
      bt_until = new_ordered_rule R node until_get cmp key Less_Than True\<rparr>"

section \<open>Operations\<close>

definition bt_insert :: "'b roaring \<Rightarrow> ('t, 'v, 'b) between_rule \<Rightarrow> 't \<Rightarrow> u32 \<Rightarrow> ('t, 'v, 'b) between_rule" where
  "bt_insert R r t i = r\<lparr>bt_from := od_insert R (bt_from r) t i, bt_until := od_insert R (bt_until r) t i\<rparr>"

definition bt_prepare :: "'b roaring \<Rightarrow> ('t, 'v, 'b) between_rule \<Rightarrow> ('t, 'v, 'b) between_rule" where
  "bt_prepare R r = r\<lparr>bt_from := od_prepare R (bt_from r), bt_until := od_prepare R (bt_until r)\<rparr>"

definition bt_estimate :: "'b roaring \<Rightarrow> ('t, 'v, 'b) between_rule \<Rightarrow> 't \<Rightarrow> u64" where
  "bt_estimate R r v =
     (let a = od_estimate R (bt_from r) v; b = od_estimate R (bt_until r) v in if a < b then a else b)"

definition bt_cardinality_zero :: "'b roaring \<Rightarrow> ('t, 'v, 'b) between_rule \<Rightarrow> 't \<Rightarrow> bool" where
  "bt_cardinality_zero R r v = (od_cardinality_zero R (bt_from r) v \<or> od_cardinality_zero R (bt_until r) v)"

definition bt_matches_id :: "'b roaring \<Rightarrow> ('t, 'v, 'b) between_rule \<Rightarrow> 't \<Rightarrow> u32 \<Rightarrow> bool" where
  "bt_matches_id R r v i = (od_matches_id R (bt_from r) v i \<and> od_matches_id R (bt_until r) v i)"

definition bt_key :: "('t, 'v, 'b) between_rule \<Rightarrow> 't \<Rightarrow> 'v cache_key" where
  "bt_key r v = (od_get (bt_from r) v, od_get (bt_until r) v)"

text \<open>The side to execute first, as the pair (first, second).\<close>

definition bt_order :: "'b roaring \<Rightarrow> ('t, 'v, 'b) between_rule \<Rightarrow> 't \<Rightarrow> ('t, 'v, 'b) ordered_rule \<times> ('t, 'v, 'b) ordered_rule" where
  "bt_order R r v =
     (if od_estimate R (bt_until r) v < od_estimate R (bt_from r) v then (bt_until r, bt_from r)
      else (bt_from r, bt_until r))"

definition bt_search_bitmaps :: "'b roaring \<Rightarrow> ('t, 'v, 'b) between_rule \<Rightarrow> 't \<Rightarrow> 'b \<Rightarrow> 'b" where
  "bt_search_bitmaps R r v dst =
     (case bt_order R r v of
        (base, other) \<Rightarrow>
          (let candidates = od_add_matches R base (od_get base v) (bm_new R)
           in if bm_card R candidates \<le> allCandidateScanLimit
              then foldl (\<lambda>dst i. if od_matches_id R other v i then bm_add R dst i else dst) dst (bm_to_list R candidates)
              else
                let postings = od_append_matching R other (od_get other v);
                    candidates = (if postings = [] then bm_new R else bm_and_any R candidates postings)
                in bm_or R dst candidates))"

definition bt_filter :: "'b roaring \<Rightarrow> ('t, 'v, 'b) between_rule \<Rightarrow> 't \<Rightarrow> 'b \<Rightarrow> 'b" where
  "bt_filter R r v dst =
     (case bt_order R r v of
        (first, second) \<Rightarrow>
          (let postings = od_append_matching R first (od_get first v)
           in if postings = [] then bm_new R
              else
                let dst = bm_and_any R dst postings
                in if bm_is_empty R dst then dst
                   else
                     let postings = od_append_matching R second (od_get second v)
                     in if postings = [] then bm_new R else bm_and_any R dst postings))"

definition bt_search ::
  "'b roaring \<Rightarrow> ('t, 'v, 'b) between_rule \<Rightarrow> 't \<Rightarrow> ('v, 'b) pool \<Rightarrow> 'b \<Rightarrow> 'b \<times> ('v, 'b) pool" where
  "bt_search R r v p dst =
     local_search R Between_Cache (same_value (od_compare (bt_from r))) (bt_node r) (bt_search_bitmaps R r v) (bt_key r v) p dst"

definition bt_lookup_cached ::
  "('t, 'v, 'b) between_rule \<Rightarrow> 't \<Rightarrow> ('v, 'b) pool \<Rightarrow> ('b \<times> source) option \<times> ('v, 'b) pool" where
  "bt_lookup_cached r v p =
     local_peek_lookup Between_Cache (same_value (od_compare (bt_from r))) (bt_node r) (bt_key r v) p"

definition bt_cached_estimate ::
  "'b roaring \<Rightarrow> ('t, 'v, 'b) between_rule \<Rightarrow> 't \<Rightarrow> ('v, 'b) pool \<Rightarrow> u64 option \<times> ('v, 'b) pool" where
  "bt_cached_estimate R r v p =
     (map_option (bm_card R) (local_peek Between_Cache (same_value (od_compare (bt_from r))) (bt_node r) (bt_key r v) p), p)"

definition bt_query_key_matches :: "('t, 'v, 'b) between_rule \<Rightarrow> 't \<Rightarrow> 'v query_key \<Rightarrow> bool" where
  "bt_query_key_matches r v key =
     (fst key = Between_Cache \<and> same_value (od_compare (bt_from r)) (snd key) (bt_key r v))"

definition bt_optimize :: "'b roaring \<Rightarrow> ('t, 'v, 'b) between_rule \<Rightarrow> u64 \<Rightarrow> 'b option" where
  "bt_optimize R r rules =
     (if bm_card R (od_wildcard (bt_from r)) = rules \<and> bm_card R (od_wildcard (bt_until r)) = rules
      then Some (od_wildcard (bt_from r)) else None)"

definition bt_ops :: "'b roaring \<Rightarrow> ('t, 'v, 'b) between_rule \<Rightarrow> ('t, 'v, 'b) child_ops" where
  "bt_ops R r =
     \<lparr>co_search = bt_search R r, co_planning = None, co_cached = Some (bt_lookup_cached r),
      co_direct = Some (bt_matches_id R r), co_work = None, co_filter = Some (bt_filter R r),
      co_keys = [Some \<lparr>kp_key = \<lambda>v. (Between_Cache, bt_key r v), kp_matches = bt_query_key_matches r\<rparr>],
      co_estimate = Some (bt_estimate R r), co_cached_estimate = Some (bt_cached_estimate R r),
      co_cheap = None, co_cheap_zero = None, co_zero = Some (bt_cardinality_zero R r),
      co_shared = None, co_class = None\<rparr>"

section \<open>What it denotes\<close>

definition bt_key_den :: "'b roaring \<Rightarrow> ('t, 'v, 'b) between_rule \<Rightarrow> 'v cache_key \<Rightarrow> u32 set" where
  "bt_key_den R r k = od_key_den R (bt_from r) (fst k) \<inter> od_key_den R (bt_until r) (snd k)"

definition bt_den :: "'b roaring \<Rightarrow> ('t, 'v, 'b) between_rule \<Rightarrow> 't \<Rightarrow> u32 set" where
  "bt_den R r v = od_den R (bt_from r) v \<inter> od_den R (bt_until r) v"

definition bt_published :: "'b roaring \<Rightarrow> ('t, 'v, 'b) between_rule \<Rightarrow> bool" where
  "bt_published R r \<longleftrightarrow> od_published R (bt_from r) \<and> od_published R (bt_until r)
     \<and> od_compare (bt_until r) = od_compare (bt_from r)
     \<and> ox_total R (od_index (bt_from r)) < 2 ^ 63 \<and> ox_total R (od_index (bt_until r)) < 2 ^ 63"

definition bt_ready :: "'b roaring \<Rightarrow> 'v valuation \<Rightarrow> ('t, 'v, 'b) between_rule \<Rightarrow> bool" where
  "bt_ready R G r \<longleftrightarrow> bt_published R r \<and> bt_node r < va_nodes G
     \<and> (\<forall>k. va_den G Between_Cache (bt_node r) k = bt_key_den R r k)"

lemma bt_key_den_cong:
  assumes "bt_published R r" "same_value (od_compare (bt_from r)) a b"
  shows "bt_key_den R r a = bt_key_den R r b"
  using assms od_key_den_cong [of R "bt_from r" "fst a" "fst b"] od_key_den_cong [of R "bt_until r" "snd a" "snd b"]
  by (simp add: bt_key_den_def bt_published_def key_equal_def)

lemma bt_den_key: "bt_den R r v = bt_key_den R r (bt_key r v)"
  by (simp add: bt_den_def bt_key_den_def bt_key_def od_den_def)

lemma bt_order_cases:
  "bt_order R r v = (bt_from r, bt_until r) \<or> bt_order R r v = (bt_until r, bt_from r)"
  by (simp add: bt_order_def)

context roaring
begin

lemma ids_foldl_add_if:
  "bm_ids R (foldl (\<lambda>d i. if P i then bm_add R d i else d) dst is) = bm_ids R dst \<union> {i \<in> set is. P i}"
  by (induction "is" arbitrary: dst) (auto simp: ids_add)

lemma bt_search_bitmaps_sides:
  assumes pub: "od_published R (bt_from r)" "od_published R (bt_until r)"
  shows "bm_ids R (bt_search_bitmaps R r v dst) = bm_ids R dst \<union> bt_den R r v"
proof -
  have *: "bm_ids R (bt_search_bitmaps R r v dst) = bm_ids R dst \<union> (od_den R base v \<inter> od_den R other v)"
    if o: "bt_order R r v = (base, other)" and pub: "od_published R base" "od_published R other" for base other
  proof -
    let ?c = "od_add_matches R base (od_get base v) (bm_new R)"
    have c: "bm_ids R ?c = od_den R base v"
      using od_add_matches_ids [OF pub(1)] by (simp add: ids_new od_den_def)
    show ?thesis
    proof (cases "bm_card R ?c \<le> allCandidateScanLimit")
      case True
      then show ?thesis
        using c by (auto simp: bt_search_bitmaps_def o Let_def ids_foldl_add_if to_list_set od_matches_id_iff pub)
    next
      case False
      then have "bm_ids R (bt_search_bitmaps R r v dst) = bm_ids R dst \<union>
          bm_ids R (if od_append_matching R other (od_get other v) = [] then bm_new R
            else bm_and_any R ?c (od_append_matching R other (od_get other v)))"
        by (simp add: bt_search_bitmaps_def o Let_def ids_or)
      then show ?thesis
        unfolding ids_and_any_postings od_append_matching_ids [OF pub(2)] c by (simp add: od_den_def)
    qed
  qed
  show ?thesis
    using bt_order_cases [of R r v] *[OF _ pub] *[OF _ pub(2,1)] unfolding bt_den_def by (metis Int_commute)
qed

lemma bt_search_bitmaps_ids:
  "bt_published R r \<Longrightarrow> bm_ids R (bt_search_bitmaps R r v dst) = bm_ids R dst \<union> bt_den R r v"
  by (rule bt_search_bitmaps_sides) (simp_all add: bt_published_def)

lemma bt_filter_ids:
  assumes "bt_published R r"
  shows "bm_ids R (bt_filter R r v dst) = bm_ids R dst \<inter> bt_den R r v"
proof -
  have *: "bm_ids R (bt_filter R r v dst) = bm_ids R dst \<inter> (od_den R a v \<inter> od_den R b v)"
    if o: "bt_order R r v = (a, b)" and pub: "od_published R a" "od_published R b" for a b
  proof -
    let ?pa = "od_append_matching R a (od_get a v)" and ?pb = "od_append_matching R b (od_get b v)"
    have a: "bm_ids R (if ?pa = [] then bm_new R else bm_and_any R d ?pa) = bm_ids R d \<inter> od_den R a v" for d
      unfolding ids_and_any_postings od_append_matching_ids [OF pub(1)] by (simp add: od_den_def)
    have b: "bm_ids R (if ?pb = [] then bm_new R else bm_and_any R d ?pb) = bm_ids R d \<inter> od_den R b v" for d
      unfolding ids_and_any_postings od_append_matching_ids [OF pub(2)] by (simp add: od_den_def)
    show ?thesis
      using a [of dst] b [of "bm_and_any R dst ?pa"]
      by (auto simp: bt_filter_def o Let_def is_empty_iff ids_new split: if_splits)
  qed
  have pub: "od_published R (bt_from r)" "od_published R (bt_until r)"
    using assms by (simp_all add: bt_published_def)
  show ?thesis
    using bt_order_cases [of R r v] *[OF _ pub] *[OF _ pub(2,1)] unfolding bt_den_def by (metis Int_commute)
qed

lemma bt_estimate_zero:
  assumes "bt_published R r" "bt_estimate R r v = 0"
  shows "bt_den R r v = {}"
proof -
  have "od_estimate R (bt_from r) v = 0 \<or> od_estimate R (bt_until r) v = 0"
    using assms(2) by (auto simp: bt_estimate_def Let_def split: if_splits)
  then show ?thesis
    using assms(1) od_estimate_zero [of "bt_from r" v] od_estimate_zero [of "bt_until r" v]
    by (auto simp: bt_published_def bt_den_def)
qed

lemma bt_ops_ok:
  assumes ready: "bt_ready R G r"
  shows "ops_ok R G (bt_ops R r) (bt_den R r)"
proof -
  have pub: "bt_published R r" and node: "bt_node r < va_nodes G"
    and den: "\<And>v. va_den G Between_Cache (bt_node r) (bt_key r v) = bt_den R r v"
    using ready by (simp_all add: bt_ready_def bt_den_key del: split_paired_All)
  have cong: "va_den G Between_Cache (bt_node r) a = va_den G Between_Cache (bt_node r) b"
    if "same_value (od_compare (bt_from r)) a b" for a b
    using ready bt_key_den_cong [OF pub that] by (simp add: bt_ready_def del: split_paired_All)
  have fill: "bm_ids R (bt_search_bitmaps R r v d) = bm_ids R d \<union> bt_den R r v" for v d
    by (rule bt_search_bitmaps_ids [OF pub])
  have "search_ok R G (bt_ops R r) (bt_den R r)"
    by (rule search_ok_local [OF node _ den fill], erule cong) (simp add: bt_ops_def bt_search_def [abs_def])
  moreover have "cached_ok R G (bt_ops R r) (bt_den R r)"
    by (rule cached_ok_local [OF node _ den], erule cong) (simp add: bt_ops_def bt_lookup_cached_def [abs_def])
  moreover have "static_ok R (bt_ops R r) (bt_den R r)"
  proof -
    have same: "bt_den R r v = bt_den R r w"
      if "same_value (od_compare (bt_from r)) (bt_key r w) (bt_key r v)" for v w
      using bt_key_den_cong [OF pub that] by (simp add: bt_den_key)
    have ids: "bt_matches_id R r v i \<longleftrightarrow> i \<in> bt_den R r v" for v i
      using pub by (simp add: bt_matches_id_def od_matches_id_iff bt_published_def bt_den_def)
    show ?thesis
      unfolding static_ok_def
      by (auto simp: bt_ops_def ids bt_filter_ids [OF pub] bt_query_key_matches_def dest: same)
  qed
  moreover have peek: "bm_ids R b = bt_den R r v"
    if "pool_ok R G p" "local_peek Between_Cache (same_value (od_compare (bt_from r))) (bt_node r) (bt_key r v) p = Some b" for v p b
    using local_peek_spec [OF that(1) node _ that(2)] cong unfolding den by blast
  have "estimates_ok R G (bt_ops R r) (bt_den R r)"
    unfolding estimates_ok_def
    using pub od_estimate_zero [of "bt_from r"] od_estimate_zero [of "bt_until r"]
    by (auto dest!: peek simp: bt_ops_def bt_estimate_zero [OF pub] bt_cardinality_zero_def od_cardinality_zero_def
        bt_published_def bt_cached_estimate_def card_zero_iff) (auto simp: bt_den_def)
  ultimately show ?thesis by (simp add: ops_ok_def)
qed

end

interpretation between_filter: searchable bt_ready bt_ops bt_den
  by unfold_locales (rule roaring.bt_ops_ok)

end
