(* ===== verification/Compare_By_Rule.thy ===== *)
theory Compare_By_Rule
  imports Ordered_Rule
begin

text \<open>
  \<open>CompareBy\<close> (\<^verbatim>\<open>compare_by.go\<close>, \<^verbatim>\<open>operator.go\<close>): the operator is stored with the value. The rule keeps
  one ordered index per operator, created when first needed, and a query visits the exact posting of
  its value in the first and one side of the other four. A stored operator is a byte that \<open>validate\<close>
  checks.
\<close>

type_synonym operator = u8

definition OperatorEQ :: operator where "OperatorEQ = 0"
definition OperatorLT :: operator where "OperatorLT = 1"
definition OperatorLTE :: operator where "OperatorLTE = 2"
definition OperatorGT :: operator where "OperatorGT = 3"
definition OperatorGTE :: operator where "OperatorGTE = 4"

lemmas operator_defs = OperatorEQ_def OperatorLT_def OperatorLTE_def OperatorGT_def OperatorGTE_def

text \<open>The two errors of \<open>validate\<close>.\<close>

datatype rule_error = Operator_Is_Nil | Unsupported_Operator operator

record ('t, 'v, 'b) compare_by_rule =
  cb_node :: nat
  cb_value :: "'t \<Rightarrow> 'v option"
  cb_operator :: "'t \<Rightarrow> operator option"
  cb_compare :: "'v \<Rightarrow> 'v \<Rightarrow> int"
  cb_route :: "'v \<Rightarrow> u64 option"
  cb_wildcard :: 'b
  cb_indexes :: "('v, 'b) ordered_index option list"

definition new_compare_by_rule ::
  "'b roaring \<Rightarrow> nat \<Rightarrow> ('t \<Rightarrow> 'v option) \<Rightarrow> ('t \<Rightarrow> operator option) \<Rightarrow> ('v \<Rightarrow> 'v \<Rightarrow> int) \<Rightarrow> ('v \<Rightarrow> u64 option)
     \<Rightarrow> ('t, 'v, 'b) compare_by_rule" where
  "new_compare_by_rule R node value operator cmp key =
     \<lparr>cb_node = node, cb_value = value, cb_operator = operator, cb_compare = cmp, cb_route = key,
      cb_wildcard = bm_new R, cb_indexes = replicate 5 None\<rparr>"

section \<open>Operations\<close>

definition cb_validate :: "('t, 'v, 'b) compare_by_rule \<Rightarrow> 't \<Rightarrow> rule_error option" where
  "cb_validate r t =
     (case cb_value r t of
        None \<Rightarrow> None
      | Some _ \<Rightarrow>
          (case cb_operator r t of
             None \<Rightarrow> Some Operator_Is_Nil
           | Some op \<Rightarrow> if OperatorGTE < op then Some (Unsupported_Operator op) else None))"

text \<open>A nil operator reads as Go's zero value, \<open>OperatorEQ\<close>.\<close>

definition cb_insert :: "'b roaring \<Rightarrow> ('t, 'v, 'b) compare_by_rule \<Rightarrow> 't \<Rightarrow> u32 \<Rightarrow> ('t, 'v, 'b) compare_by_rule" where
  "cb_insert R r t i =
     (case cb_value r t of
        None \<Rightarrow> r\<lparr>cb_wildcard := bm_add R (cb_wildcard r) i\<rparr>
      | Some value \<Rightarrow>
          (let op = (case cb_operator r t of Some op \<Rightarrow> unat op | None \<Rightarrow> 0);
               index = (case cb_indexes r ! op of
                          Some index \<Rightarrow> index
                        | None \<Rightarrow> new_ordered_index (cb_compare r) (cb_route r))
           in r\<lparr>cb_indexes := (cb_indexes r)[op := Some (ox_insert R index value i)]\<rparr>))"

definition cb_prepare :: "'b roaring \<Rightarrow> ('t, 'v, 'b) compare_by_rule \<Rightarrow> ('t, 'v, 'b) compare_by_rule" where
  "cb_prepare R r =
     r\<lparr>cb_indexes := map (map_option (\<lambda>x. ox_prepare_range_search R (ox_prepare_search R x))) (cb_indexes r)\<rparr>"

definition cb_equality_bits :: "('t, 'v, 'b) compare_by_rule \<Rightarrow> 'v \<Rightarrow> 'b option" where
  "cb_equality_bits r value =
     (case cb_indexes r ! unat OperatorEQ of None \<Rightarrow> None | Some index \<Rightarrow> ox_exact index value)"

definition cb_walk :: "('t, 'v, 'b) compare_by_rule \<Rightarrow> operator \<Rightarrow> 'v \<Rightarrow> bool \<Rightarrow> bool \<Rightarrow> 'b list" where
  "cb_walk r op value ascending inclusive =
     (case cb_indexes r ! unat op of None \<Rightarrow> [] | Some index \<Rightarrow> ox_walk index value ascending inclusive)"

text \<open>\<open>each\<close>: the bitmaps it visits, in order. \<open>appendMatchingBitmaps\<close> collects the same list.\<close>

definition cb_each :: "('t, 'v, 'b) compare_by_rule \<Rightarrow> 't \<Rightarrow> 'b list" where
  "cb_each r v =
     cb_wildcard r #
     (case cb_value r v of
        None \<Rightarrow> []
      | Some value \<Rightarrow>
          (case cb_equality_bits r value of None \<Rightarrow> [] | Some bits \<Rightarrow> [bits])
          @ cb_walk r OperatorLT value True False
          @ cb_walk r OperatorLTE value True True
          @ cb_walk r OperatorGT value False False
          @ cb_walk r OperatorGTE value False True)"

definition cb_append_matching :: "('t, 'v, 'b) compare_by_rule \<Rightarrow> 't \<Rightarrow> 'b list" where
  "cb_append_matching r v =
     (case cb_value r v of
        None \<Rightarrow> [cb_wildcard r]
      | Some value \<Rightarrow>
          [cb_wildcard r]
          @ (case cb_equality_bits r value of None \<Rightarrow> [] | Some bits \<Rightarrow> [bits])
          @ cb_walk r OperatorLT value True False
          @ cb_walk r OperatorLTE value True True
          @ cb_walk r OperatorGT value False False
          @ cb_walk r OperatorGTE value False True)"

definition cb_index_estimate ::
  "'b roaring \<Rightarrow> ('t, 'v, 'b) compare_by_rule \<Rightarrow> operator \<Rightarrow> 'v \<Rightarrow> bool \<Rightarrow> bool \<Rightarrow> u64" where
  "cb_index_estimate R r op value ascending inclusive =
     (case cb_indexes r ! unat op of None \<Rightarrow> 0 | Some index \<Rightarrow> ox_estimate R index value ascending inclusive)"

definition cb_estimate :: "'b roaring \<Rightarrow> ('t, 'v, 'b) compare_by_rule \<Rightarrow> 't \<Rightarrow> u64" where
  "cb_estimate R r v =
     (let n = bm_card R (cb_wildcard r)
      in case cb_value r v of
           None \<Rightarrow> n
         | Some value \<Rightarrow>
             n + (case cb_equality_bits r value of None \<Rightarrow> 0 | Some bits \<Rightarrow> bm_card R bits)
               + cb_index_estimate R r OperatorLT value True False
               + cb_index_estimate R r OperatorLTE value True True
               + cb_index_estimate R r OperatorGT value False False
               + cb_index_estimate R r OperatorGTE value False True)"

definition cb_cardinality_zero :: "'b roaring \<Rightarrow> ('t, 'v, 'b) compare_by_rule \<Rightarrow> 't \<Rightarrow> bool" where
  "cb_cardinality_zero R r v = (cb_estimate R r v = 0)"

definition cb_matches_id :: "'b roaring \<Rightarrow> ('t, 'v, 'b) compare_by_rule \<Rightarrow> 't \<Rightarrow> u32 \<Rightarrow> bool" where
  "cb_matches_id R r v i = foldl (\<lambda>found bits. if \<not> found \<and> bm_contains R bits i then True else found) False (cb_each r v)"

definition cb_filter :: "'b roaring \<Rightarrow> ('t, 'v, 'b) compare_by_rule \<Rightarrow> 't \<Rightarrow> 'b \<Rightarrow> 'b" where
  "cb_filter R r v dst =
     (let postings = cb_append_matching r v in if postings = [] then bm_new R else bm_and_any R dst postings)"

definition cb_key :: "('t, 'v, 'b) compare_by_rule \<Rightarrow> 't \<Rightarrow> 'v cache_key" where
  "cb_key r v = (cb_value r v, None)"

definition cb_search ::
  "'b roaring \<Rightarrow> ('t, 'v, 'b) compare_by_rule \<Rightarrow> 't \<Rightarrow> ('v, 'b) pool \<Rightarrow> 'b \<Rightarrow> 'b \<times> ('v, 'b) pool" where
  "cb_search R r v p dst =
     local_search R Compare_Cache (same_value (cb_compare r)) (cb_node r)
       (\<lambda>d. foldl (bm_or R) d (cb_each r v)) (cb_key r v) p dst"

definition cb_lookup_cached ::
  "('t, 'v, 'b) compare_by_rule \<Rightarrow> 't \<Rightarrow> ('v, 'b) pool \<Rightarrow> ('b \<times> source) option \<times> ('v, 'b) pool" where
  "cb_lookup_cached r v p = local_peek_lookup Compare_Cache (same_value (cb_compare r)) (cb_node r) (cb_key r v) p"

definition cb_cached_estimate ::
  "'b roaring \<Rightarrow> ('t, 'v, 'b) compare_by_rule \<Rightarrow> 't \<Rightarrow> ('v, 'b) pool \<Rightarrow> u64 option \<times> ('v, 'b) pool" where
  "cb_cached_estimate R r v p =
     (map_option (bm_card R) (local_peek Compare_Cache (same_value (cb_compare r)) (cb_node r) (cb_key r v) p), p)"

definition cb_query_key_matches :: "('t, 'v, 'b) compare_by_rule \<Rightarrow> 't \<Rightarrow> 'v query_key \<Rightarrow> bool" where
  "cb_query_key_matches r v key =
     (fst key = Compare_Cache \<and> same_value (cb_compare r) (snd key) (cb_key r v))"

definition cb_optimize :: "'b roaring \<Rightarrow> ('t, 'v, 'b) compare_by_rule \<Rightarrow> u64 \<Rightarrow> 'b option" where
  "cb_optimize R r rules = (if bm_card R (cb_wildcard r) = rules then Some (cb_wildcard r) else None)"

definition cb_ops :: "'b roaring \<Rightarrow> ('t, 'v, 'b) compare_by_rule \<Rightarrow> ('t, 'v, 'b) child_ops" where
  "cb_ops R r =
     \<lparr>co_search = cb_search R r, co_planning = None, co_cached = Some (cb_lookup_cached r),
      co_direct = Some (cb_matches_id R r), co_work = None, co_filter = Some (cb_filter R r),
      co_keys = [Some \<lparr>kp_key = \<lambda>v. (Compare_Cache, cb_key r v), kp_matches = cb_query_key_matches r\<rparr>],
      co_estimate = Some (cb_estimate R r), co_cached_estimate = Some (cb_cached_estimate R r),
      co_cheap = None, co_cheap_zero = None, co_zero = Some (cb_cardinality_zero R r),
      co_shared = None, co_class = None\<rparr>"

section \<open>What it denotes\<close>

text \<open>What a stored operator asks of the query \<open>v\<close> and the stored value \<open>w\<close>.\<close>

definition operator_holds :: "('v \<Rightarrow> 'v \<Rightarrow> int) \<Rightarrow> operator \<Rightarrow> 'v \<Rightarrow> 'v \<Rightarrow> bool" where
  "operator_holds cmp op v w \<longleftrightarrow>
     (if op = OperatorEQ then cmp w v = 0
      else if op = OperatorLT then in_range cmp v True False w
      else if op = OperatorLTE then in_range cmp v True True w
      else if op = OperatorGT then in_range cmp v False False w
      else in_range cmp v False True w)"

definition cb_index_den :: "'b roaring \<Rightarrow> ('t, 'v, 'b) compare_by_rule \<Rightarrow> operator \<Rightarrow> 'v \<Rightarrow> u32 set" where
  "cb_index_den R r op v =
     (case cb_indexes r ! unat op of
        None \<Rightarrow> {}
      | Some x \<Rightarrow> {i. \<exists>w. operator_holds (cb_compare r) op v w \<and> i \<in> ox_posting R x w})"

definition cb_key_den :: "'b roaring \<Rightarrow> ('t, 'v, 'b) compare_by_rule \<Rightarrow> 'v option \<Rightarrow> u32 set" where
  "cb_key_den R r value =
     bm_ids R (cb_wildcard r) \<union> (case value of None \<Rightarrow> {} | Some v \<Rightarrow> (\<Union>op\<in>{0, 1, 2, 3, 4}. cb_index_den R r op v))"

definition cb_den :: "'b roaring \<Rightarrow> ('t, 'v, 'b) compare_by_rule \<Rightarrow> 't \<Rightarrow> u32 set" where
  "cb_den R r v = cb_key_den R r (cb_value r v)"

definition cb_matches :: "('t, 'v, 'b) compare_by_rule \<Rightarrow> 't \<Rightarrow> 't \<Rightarrow> bool" where
  "cb_matches r stored query =
     (case cb_value r stored of
        None \<Rightarrow> True
      | Some w \<Rightarrow>
          (case (cb_value r query, cb_operator r stored) of
             (Some v, Some op) \<Rightarrow> operator_holds (cb_compare r) op v w
           | _ \<Rightarrow> False))"

definition cb_accepts :: "('t, 'v, 'b) compare_by_rule \<Rightarrow> 't \<Rightarrow> bool" where
  "cb_accepts r t \<longleftrightarrow> cb_validate r t = None"

definition cb_building :: "'b roaring \<Rightarrow> ('t, 'v, 'b) compare_by_rule \<Rightarrow> bool" where
  "cb_building R r \<longleftrightarrow> comparator (cb_compare r) \<and> length (cb_indexes r) = 5
     \<and> (\<forall>x. Some x \<in> set (cb_indexes r) \<longrightarrow> ox_building R x \<and> ox_compare x = cb_compare r)"

definition cb_published :: "'b roaring \<Rightarrow> ('t, 'v, 'b) compare_by_rule \<Rightarrow> bool" where
  "cb_published R r \<longleftrightarrow> comparator (cb_compare r) \<and> length (cb_indexes r) = 5
     \<and> (\<forall>x. Some x \<in> set (cb_indexes r) \<longrightarrow> ox_ok R x \<and> ox_compare x = cb_compare r)"

definition cb_total :: "'b roaring \<Rightarrow> ('t, 'v, 'b) compare_by_rule \<Rightarrow> nat" where
  "cb_total R r = (\<Sum>x\<leftarrow>cb_indexes r. case x of None \<Rightarrow> 0 | Some x \<Rightarrow> ox_total R x)"

definition cb_ready :: "'b roaring \<Rightarrow> 'v valuation \<Rightarrow> ('t, 'v, 'b) compare_by_rule \<Rightarrow> bool" where
  "cb_ready R G r \<longleftrightarrow> cb_published R r \<and> cb_total R r < 2 ^ 63 \<and> cb_node r < va_nodes G
     \<and> (\<forall>k. va_den G Compare_Cache (cb_node r) k = cb_key_den R r (fst k))"

lemma operator_cases: "op \<le> OperatorGTE \<longleftrightarrow> op \<in> {0, 1, 2, 3, 4 :: operator}"
proof
  assume "op \<le> OperatorGTE"
  then have "unat op \<le> 4" by (simp add: OperatorGTE_def word_le_nat_alt)
  then have "unat op = 0 \<or> unat op = 1 \<or> unat op = 2 \<or> unat op = 3 \<or> unat op = 4" by linarith
  then show "op \<in> {0, 1, 2, 3, 4}" by (simp add: word_unat_eq_iff)
qed (auto simp: OperatorGTE_def)

lemma operator_less: "op \<in> {0, 1, 2, 3, 4 :: operator} \<Longrightarrow> unat op < 5"
  by auto

lemma operator_holds_cong:
  assumes "comparator cmp" "cmp w w' = 0"
  shows "operator_holds cmp op v w \<longleftrightarrow> operator_holds cmp op v w'"
  using in_range_cong [OF assms] comparator.cmp_eq_cong0 [OF assms] by (simp add: operator_holds_def)

lemma operator_holds_query_cong:
  assumes "comparator cmp" "cmp v v' = 0"
  shows "operator_holds cmp op v w \<longleftrightarrow> operator_holds cmp op v' w"
  using in_range_query_cong [OF assms] comparator.cmp_eq_cong0 [OF assms] comparator.cmp_eq_sym [OF assms(1)]
  by (simp add: operator_holds_def) blast

lemma ox_posting_exact:
  assumes "comparator (ox_compare x)"
  shows "{i. \<exists>w. ox_compare x w v = 0 \<and> i \<in> ox_posting R x w} = ox_posting R x v"
  using comparator.cmp_eq_cong0 [OF assms] comparator.cmp_refl [OF assms] comparator.cmp_eq_sym [OF assms]
  unfolding ox_posting_iff set_eq_iff mem_Collect_eq by metis

lemma cb_index_ok:
  assumes "cb_published R r" "op \<in> {0, 1, 2, 3, 4 :: operator}" "cb_indexes r ! unat op = Some x"
  shows "ox_ok R x" "ox_compare x = cb_compare r" "comparator (ox_compare x)"
proof -
  have "Some x \<in> set (cb_indexes r)"
    using assms operator_less [OF assms(2)] by (metis cb_published_def nth_mem)
  then show "ox_ok R x" "ox_compare x = cb_compare r" "comparator (ox_compare x)"
    using assms(1) by (auto simp: cb_published_def)
qed

lemma cb_walk_ids:
  assumes "cb_published R r" "op \<in> {0, 1, 2, 3, 4}"
    and "\<And>w. operator_holds (cb_compare r) op v w \<longleftrightarrow> in_range (cb_compare r) v ascending inclusive w"
  shows "bits_ids R (cb_walk r op v ascending inclusive) = cb_index_den R r op v"
proof (cases "cb_indexes r ! unat op")
  case (Some x)
  note ok = cb_index_ok [OF assms(1,2) Some]
  show ?thesis
    using Some ok(2) by (simp add: cb_walk_def cb_index_den_def ox_walk_ids [OF ok(1)] assms(3)
        ox_range_ids_posting [OF ok(3)])
qed (simp add: cb_walk_def cb_index_den_def)

lemma cb_equality_ids:
  assumes "cb_published R r"
  shows "(case cb_equality_bits r v of None \<Rightarrow> {} | Some b \<Rightarrow> bm_ids R b) = cb_index_den R r OperatorEQ v"
proof (cases "cb_indexes r ! unat OperatorEQ")
  case (Some x)
  note ok = cb_index_ok [OF assms _ Some]
  have "OperatorEQ \<in> {0, 1, 2, 3, 4}" by (simp add: OperatorEQ_def)
  note ok = ok [OF this]
  show ?thesis
    using Some ok(2) ox_posting_exact [OF ok(3), of v R]
    by (simp add: cb_equality_bits_def cb_index_den_def ox_exact_ids [OF ok(1)] operator_holds_def)
qed (simp add: cb_equality_bits_def cb_index_den_def)

lemma cb_each_ids:
  assumes "cb_published R r"
  shows "bits_ids R (cb_each r v) = cb_den R r v"
proof (cases "cb_value r v")
  case (Some x)
  have walks: "bits_ids R (cb_walk r OperatorLT x True False) = cb_index_den R r 1 x"
    "bits_ids R (cb_walk r OperatorLTE x True True) = cb_index_den R r 2 x"
    "bits_ids R (cb_walk r OperatorGT x False False) = cb_index_den R r 3 x"
    "bits_ids R (cb_walk r OperatorGTE x False True) = cb_index_den R r 4 x"
    unfolding operator_defs
    by (rule cb_walk_ids [OF assms]; simp add: operator_holds_def operator_defs)+
  have "bits_ids R (case cb_equality_bits r x of None \<Rightarrow> [] | Some b \<Rightarrow> [b]) = cb_index_den R r 0 x"
    using cb_equality_ids [OF assms, of x] by (simp add: OperatorEQ_def split: option.splits)
  with walks Some show ?thesis
    by (simp add: cb_each_def cb_den_def cb_key_den_def Un_assoc)
qed (simp add: cb_each_def cb_den_def cb_key_den_def)

lemma cb_append_each: "cb_append_matching r v = cb_each r v"
  by (simp add: cb_append_matching_def cb_each_def split: option.split)

lemma cb_key_den_cong:
  assumes "cb_published R r" "rel_option (\<lambda>a b. cb_compare r a b = 0) a b"
  shows "cb_key_den R r a = cb_key_den R r b"
proof -
  have cmp: "comparator (cb_compare r)" using assms(1) by (simp add: cb_published_def)
  have "cb_index_den R r op v = cb_index_den R r op v'" if "cb_compare r v v' = 0" for op v v'
    by (simp add: cb_index_den_def operator_holds_query_cong [OF cmp that] split: option.split)
  with assms(2) show ?thesis
    by (cases a; cases b) (simp_all add: cb_key_den_def)
qed

context roaring
begin

lemma cb_search_ids: "cb_published R r \<Longrightarrow> bm_ids R (foldl (bm_or R) d (cb_each r v)) = bm_ids R d \<union> cb_den R r v"
  by (simp add: ids_foldl_or cb_each_ids [symmetric] bits_ids_def)

lemma cb_filter_ids: "cb_published R r \<Longrightarrow> bm_ids R (cb_filter R r v d) = bm_ids R d \<inter> cb_den R r v"
  by (simp only: cb_filter_def Let_def cb_append_each ids_and_any_postings cb_each_ids)

lemma cb_matches_id_iff: "cb_published R r \<Longrightarrow> cb_matches_id R r v i \<longleftrightarrow> i \<in> cb_den R r v"
proof -
  have "foldl (\<lambda>found bits. if \<not> found \<and> bm_contains R bits i then True else found) f bs \<longleftrightarrow> f \<or> i \<in> bits_ids R bs" for f bs
    by (induction bs arbitrary: f) (auto simp: contains_iff)
  then show "cb_published R r \<Longrightarrow> ?thesis" by (simp add: cb_matches_id_def cb_each_ids)
qed

definition cb_estimates :: "('t, 'v, 'b) compare_by_rule \<Rightarrow> 'v \<Rightarrow> u64 list" where
  "cb_estimates r x =
     [bm_card R (cb_wildcard r), (case cb_equality_bits r x of None \<Rightarrow> 0 | Some bits \<Rightarrow> bm_card R bits),
      cb_index_estimate R r OperatorLT x True False, cb_index_estimate R r OperatorLTE x True True,
      cb_index_estimate R r OperatorGT x False False, cb_index_estimate R r OperatorGTE x False True]"

lemma cb_index_estimate_bounds:
  assumes "cb_published R r" "op \<in> {0, 1, 2, 3, 4}" "cb_total R r < 2 ^ 63"
    and "\<And>w. operator_holds (cb_compare r) op v w \<longleftrightarrow> in_range (cb_compare r) v ascending inclusive w"
  shows "unat (cb_index_estimate R r op v ascending inclusive)
      \<le> (case cb_indexes r ! unat op of None \<Rightarrow> 0 | Some x \<Rightarrow> ox_total R x)"
    and "cb_index_estimate R r op v ascending inclusive = 0 \<Longrightarrow> cb_index_den R r op v = {}"
proof -
  have "unat (cb_index_estimate R r op v ascending inclusive)
      \<le> (case cb_indexes r ! unat op of None \<Rightarrow> 0 | Some x \<Rightarrow> ox_total R x)
    \<and> (cb_index_estimate R r op v ascending inclusive = 0 \<longrightarrow> cb_index_den R r op v = {})"
  proof (cases "cb_indexes r ! unat op")
    case (Some x)
    note ok = cb_index_ok [OF assms(1,2) Some]
    have "unat op < length (cb_indexes r)" using assms(1) operator_less [OF assms(2)] by (simp add: cb_published_def)
    then have "(case cb_indexes r ! unat op of None \<Rightarrow> 0 | Some x \<Rightarrow> ox_total R x) \<le> cb_total R r"
      unfolding cb_total_def by (intro member_le_sum_list) (auto intro!: image_eqI nth_mem)
    with Some assms(3) have lt: "ox_total R x < 2 ^ 64" by simp
    note b = ox_estimate_bounds [OF ok(1) lt, of v ascending inclusive]
    have "cb_index_den R r op v = ox_range_ids R x v ascending inclusive"
      using Some ok(2) by (simp add: cb_index_den_def assms(4) ox_range_ids_posting [OF ok(3)])
    with Some b show ?thesis by (simp add: cb_index_estimate_def)
  qed (simp add: cb_index_estimate_def cb_index_den_def)
  then show "unat (cb_index_estimate R r op v ascending inclusive)
      \<le> (case cb_indexes r ! unat op of None \<Rightarrow> 0 | Some x \<Rightarrow> ox_total R x)"
    "cb_index_estimate R r op v ascending inclusive = 0 \<Longrightarrow> cb_index_den R r op v = {}" by auto
qed

lemma cb_estimate_zero:
  assumes "cb_published R r" "cb_total R r < 2 ^ 63" "cb_estimate R r v = 0"
  shows "cb_den R r v = {}"
proof (cases "cb_value r v")
  case None
  with assms(3) show ?thesis by (simp add: cb_estimate_def cb_den_def cb_key_den_def card_zero_iff)
next
  case (Some x)
  have len: "length (cb_indexes r) = 5" using assms(1) by (simp add: cb_published_def)
  note e1 = cb_index_estimate_bounds [OF assms(1) _ assms(2), where op = OperatorLT and v = x and ascending = True and inclusive = False]
  note e2 = cb_index_estimate_bounds [OF assms(1) _ assms(2), where op = OperatorLTE and v = x and ascending = True and inclusive = True]
  note e3 = cb_index_estimate_bounds [OF assms(1) _ assms(2), where op = OperatorGT and v = x and ascending = False and inclusive = False]
  note e4 = cb_index_estimate_bounds [OF assms(1) _ assms(2), where op = OperatorGTE and v = x and ascending = False and inclusive = True]
  note e = e1 [simplified operator_holds_def operator_defs, simplified] e2 [simplified operator_holds_def operator_defs, simplified]
    e3 [simplified operator_holds_def operator_defs, simplified] e4 [simplified operator_holds_def operator_defs, simplified]
  have totals: "cb_total R r = (\<Sum>n\<leftarrow>[0, 1, 2, 3, 4]. case cb_indexes r ! n of None \<Rightarrow> 0 | Some x \<Rightarrow> ox_total R x)"
  proof -
    have "[0..<5] = [0, 1, 2, 3, 4 :: nat]" by (simp add: upt_rec)
    then have "cb_indexes r = map ((!) (cb_indexes r)) [0, 1, 2, 3, 4]"
      using map_nth [of "cb_indexes r"] len by simp
    then have "map (\<lambda>x. case x of None \<Rightarrow> 0 | Some x \<Rightarrow> ox_total R x) (cb_indexes r)
        = map (\<lambda>n. case cb_indexes r ! n of None \<Rightarrow> 0 | Some x \<Rightarrow> ox_total R x) [0, 1, 2, 3, 4]"
      by (metis (no_types, lifting) map_map comp_apply map_cong)
    then show ?thesis unfolding cb_total_def by simp
  qed
  have small: "unat (bm_card R b) \<le> 2 ^ 32" for b
    using card_u32_le unfolding unat_card by simp
  have "unat (case cb_equality_bits r x of None \<Rightarrow> 0 | Some bits \<Rightarrow> bm_card R bits) \<le> 2 ^ 32"
    using small by (simp split: option.split)
  with e(1,3,5,7) small [of "cb_wildcard r"] assms(2) totals
  have "(\<Sum>n\<leftarrow>cb_estimates r x. unat n) < 2 ^ 64"
    by (simp add: cb_estimates_def operator_defs)
  from unat_sum_list [OF this] have "(\<Sum>n\<leftarrow>cb_estimates r x. unat n) = unat (cb_estimate R r v)"
    using Some by (simp add: cb_estimate_def cb_estimates_def add.assoc Let_def)
  with assms(3) have zero: "\<forall>n\<in>set (cb_estimates r x). n = 0"
    by (simp add: unat_eq_zero)
  then have "bm_ids R (cb_wildcard r) = {}" "cb_index_den R r 0 x = {}"
    using cb_equality_ids [OF assms(1), of x]
    by (auto simp: cb_estimates_def card_zero_iff OperatorEQ_def split: option.splits)
  with zero e(2,4,6,8) Some show ?thesis
    by (simp add: cb_den_def cb_key_den_def cb_estimates_def operator_defs)
qed

lemma cb_ops_ok:
  assumes ready: "cb_ready R G r"
  shows "ops_ok R G (cb_ops R r) (cb_den R r)"
proof -
  have pub: "cb_published R r" and node: "cb_node r < va_nodes G" and total: "cb_total R r < 2 ^ 63"
    and den: "\<And>v. va_den G Compare_Cache (cb_node r) (cb_key r v) = cb_den R r v"
    using ready by (auto simp: cb_ready_def cb_den_def cb_key_def)
  have cong: "va_den G Compare_Cache (cb_node r) a = va_den G Compare_Cache (cb_node r) b"
    if "same_value (cb_compare r) a b" for a b
    using ready cb_key_den_cong [OF pub, of "fst a" "fst b"] that
    by (simp add: cb_ready_def key_equal_def del: split_paired_All)
  have fill: "bm_ids R (foldl (bm_or R) d (cb_each r v)) = bm_ids R d \<union> cb_den R r v" for v d
    by (rule cb_search_ids [OF pub])
  have "search_ok R G (cb_ops R r) (cb_den R r)"
    by (rule search_ok_local [OF node _ den fill], erule cong) (simp add: cb_ops_def cb_search_def [abs_def])
  moreover have "cached_ok R G (cb_ops R r) (cb_den R r)"
    by (rule cached_ok_local [OF node _ den], erule cong) (simp add: cb_ops_def cb_lookup_cached_def [abs_def])
  moreover have "static_ok R (cb_ops R r) (cb_den R r)"
    unfolding static_ok_def
    using cb_key_den_cong [OF pub]
    by (auto simp: cb_ops_def cb_matches_id_iff [OF pub] cb_filter_ids [OF pub] cb_query_key_matches_def
        key_equal_def cb_key_def cb_den_def)
  moreover have peek: "bm_ids R b = cb_den R r v"
    if "pool_ok R G p" "local_peek Compare_Cache (same_value (cb_compare r)) (cb_node r) (cb_key r v) p = Some b" for v p b
    using local_peek_spec [OF that(1) node _ that(2)] cong unfolding den by blast
  have "estimates_ok R G (cb_ops R r) (cb_den R r)"
    unfolding estimates_ok_def
    by (auto dest!: peek simp: cb_ops_def cb_estimate_zero [OF pub total] cb_cardinality_zero_def
        cb_cached_estimate_def card_zero_iff)
  ultimately show ?thesis by (simp add: ops_ok_def)
qed

section \<open>Building\<close>

lemma cb_valid_operator:
  "cb_accepts r t \<Longrightarrow> cb_value r t = Some v \<Longrightarrow> \<exists>op. cb_operator r t = Some op \<and> op \<in> {0, 1, 2, 3, 4}"
  using operator_cases by (fastforce simp: cb_accepts_def cb_validate_def not_less split: option.splits if_splits)

lemma cb_index_or_new:
  assumes "cb_building R r" "op < 5"
    and x_def: "x = (case cb_indexes r ! op of Some x \<Rightarrow> x | None \<Rightarrow> new_ordered_index (cb_compare r) (cb_route r))"
  shows "ox_building R x" "ox_compare x = cb_compare r"
    "ox_total R x = (case cb_indexes r ! op of None \<Rightarrow> 0 | Some x \<Rightarrow> ox_total R x)"
proof -
  have "ox_building R y \<and> ox_compare y = cb_compare r" if "cb_indexes r ! op = Some y" for y
    using assms(1,2) that by (metis cb_building_def nth_mem)
  with assms(1) show "ox_building R x" "ox_compare x = cb_compare r"
    unfolding x_def cb_building_def
    by (auto split: option.split intro: ox_building_new) (simp add: new_ordered_index_def)
  show "ox_total R x = (case cb_indexes r ! op of None \<Rightarrow> 0 | Some x \<Rightarrow> ox_total R x)"
    unfolding x_def by (auto simp: ox_total_def flat_def new_ordered_index_def split: option.split)
qed

lemma cb_building_insert:
  assumes "cb_building R r" "cb_accepts r t"
  shows "cb_building R (cb_insert R r t i)"
proof (cases "cb_value r t")
  case None
  with assms(1) show ?thesis by (simp add: cb_insert_def cb_building_def)
next
  case (Some v)
  with cb_valid_operator [OF assms(2)] obtain op where op: "cb_operator r t = Some op" "op \<in> {0, 1, 2, 3, 4}" by blast
  note x = cb_index_or_new [OF assms(1) operator_less [OF op(2)] refl]
  show ?thesis
    using assms(1) Some op(1) ox_building_insert [OF x(1), of v i] x(2)
    by (auto simp: cb_insert_def cb_building_def Let_def dest!: set_update_subset_insert [THEN subsetD])
qed

lemma cb_published_building: "cb_building R r \<Longrightarrow> cb_published R r"
  by (auto simp: cb_building_def cb_published_def ox_ok_building)

lemma cb_index_den_insert:
  assumes "cb_building R r" "cb_accepts r t" "cb_value r t = Some w" "cb_operator r t = Some op" "op \<in> {0, 1, 2, 3, 4}"
  shows "cb_index_den R (cb_insert R r t i) op' v
    = (if op' = op \<and> operator_holds (cb_compare r) op v w then insert i (cb_index_den R r op' v) else cb_index_den R r op' v)"
proof (cases "op' = op")
  case False
  then have "unat op' \<noteq> unat op" by (simp add: word_unat_eq_iff)
  with assms(3,4) False show ?thesis
    by (simp add: cb_index_den_def cb_insert_def Let_def split: option.split)
next
  case True
  have len: "unat op < length (cb_indexes r)"
    using assms(1) operator_less [OF assms(5)] by (simp add: cb_building_def)
  let ?x = "case cb_indexes r ! unat op of Some x \<Rightarrow> x | None \<Rightarrow> new_ordered_index (cb_compare r) (cb_route r)"
  note x = cb_index_or_new [OF assms(1) operator_less [OF assms(5)] refl]
  have cmp: "comparator (cb_compare r)" using assms(1) by (simp add: cb_building_def)
  have old: "cb_index_den R r op v = {i. \<exists>w. operator_holds (cb_compare r) op v w \<and> i \<in> ox_posting R ?x w}"
    by (simp add: cb_index_den_def split: option.split)
  have "cb_index_den R (cb_insert R r t i) op v
      = {i'. \<exists>w. operator_holds (cb_compare r) op v w \<and> i' \<in> ox_posting R (ox_insert R ?x (the (cb_value r t)) i) w}"
    using assms(3,4) len by (simp add: cb_index_den_def cb_insert_def Let_def)
  also have "\<dots> = (if operator_holds (cb_compare r) op v w then insert i (cb_index_den R r op v) else cb_index_den R r op v)"
  proof -
    have "i' \<in> ox_posting R (ox_insert R ?x (the (cb_value r t)) i) w'
        \<longleftrightarrow> i' \<in> ox_posting R ?x w' \<or> cb_compare r w w' = 0 \<and> i' = i" for i' w'
      unfolding ox_posting_insert [OF x(1)] x(2) using assms(3) by auto
    moreover have "(\<exists>w'. operator_holds (cb_compare r) op v w' \<and> cb_compare r w w' = 0) \<longleftrightarrow> operator_holds (cb_compare r) op v w"
      using operator_holds_cong [OF cmp, of w] comparator.cmp_refl [OF cmp, of w] by blast
    ultimately show ?thesis unfolding old by auto
  qed
  finally show ?thesis using True by simp
qed

lemma cb_den_insert:
  assumes "cb_building R r" "cb_accepts r t"
  shows "cb_den R (cb_insert R r t i) q = (if cb_matches r t q then insert i (cb_den R r q) else cb_den R r q)"
proof (cases "cb_value r t")
  case None
  then show ?thesis
    by (simp add: cb_insert_def cb_den_def cb_key_den_def cb_matches_def cb_index_den_def ids_add split: option.split)
next
  case (Some w)
  with cb_valid_operator [OF assms(2)] obtain op where op: "cb_operator r t = Some op" "op \<in> {0, 1, 2, 3, 4}" by blast
  note new = cb_index_den_insert [OF assms Some op]
  have same: "cb_value (cb_insert R r t i) = cb_value r" "cb_wildcard (cb_insert R r t i) = cb_wildcard r"
    using Some by (simp_all add: cb_insert_def Let_def)
  show ?thesis
  proof (cases "cb_value r q")
    case None
    then show ?thesis by (simp add: cb_den_def cb_key_den_def same cb_matches_def Some)
  next
    case q: (Some v)
    have "(\<Union>op'\<in>{0, 1, 2, 3, 4}. cb_index_den R (cb_insert R r t i) op' v)
        = (if operator_holds (cb_compare r) op v w then insert i (\<Union>op'\<in>{0, 1, 2, 3, 4}. cb_index_den R r op' v)
           else (\<Union>op'\<in>{0, 1, 2, 3, 4}. cb_index_den R r op' v))"
      using op(2) unfolding new by auto
    with q Some op(1) show ?thesis by (simp add: cb_den_def cb_key_den_def same cb_matches_def)
  qed
qed

lemma cb_published_prepare: "cb_building R r \<Longrightarrow> cb_published R (cb_prepare R r)"
  by (auto simp: cb_building_def cb_published_def cb_prepare_def ox_ok_prepare_range ox_ok_prepare_search ox_ok_building
      map_option_case split: option.splits)

lemma ox_posting_prepared: "ox_posting R (ox_prepare_range_search R (ox_prepare_search R x)) = ox_posting R x"
  by (rule ox_posting_cong) simp_all

lemma ox_total_prepared: "ox_total R (ox_prepare_range_search R (ox_prepare_search R x)) = ox_total R x"
  by (simp add: ox_total_def)

lemma cb_key_den_prepare:
  assumes "cb_building R r"
  shows "cb_key_den R (cb_prepare R r) k = cb_key_den R r k"
proof -
  have "length (cb_indexes r) = 5" using assms by (simp add: cb_building_def)
  then have "cb_index_den R (cb_prepare R r) op v = cb_index_den R r op v" if "op \<in> {0, 1, 2, 3, 4}" for op v
    using operator_less [OF that]
    by (cases "cb_indexes r ! unat op") (simp_all add: cb_index_den_def cb_prepare_def ox_posting_prepared)
  then have "(\<Union>op\<in>{0, 1, 2, 3, 4}. cb_index_den R (cb_prepare R r) op v) = (\<Union>op\<in>{0, 1, 2, 3, 4}. cb_index_den R r op v)" for v
    by (rule SUP_cong [OF refl])
  moreover have "cb_wildcard (cb_prepare R r) = cb_wildcard r" by (simp add: cb_prepare_def)
  ultimately show ?thesis by (simp add: cb_key_den_def split: option.split)
qed

lemma cb_den_prepare: "cb_building R r \<Longrightarrow> cb_den R (cb_prepare R r) q = cb_den R r q"
  by (simp add: cb_den_def cb_key_den_prepare) (simp add: cb_prepare_def)

lemma cb_total_insert:
  assumes "cb_building R r" "cb_accepts r t"
  shows "cb_total R (cb_insert R r t i) \<le> Suc (cb_total R r)"
proof (cases "cb_value r t")
  case None
  then show ?thesis by (simp add: cb_insert_def cb_total_def)
next
  case (Some w)
  with cb_valid_operator [OF assms(2)] obtain op where op: "cb_operator r t = Some op" "op \<in> {0, 1, 2, 3, 4}" by blast
  let ?f = "\<lambda>x. case x of None \<Rightarrow> 0 | Some x \<Rightarrow> ox_total R x"
  have len: "unat op < length (cb_indexes r)"
    using assms(1) operator_less [OF op(2)] by (simp add: cb_building_def)
  note x = cb_index_or_new [OF assms(1) operator_less [OF op(2)] refl]
  have old: "(\<Sum>x\<leftarrow>cb_indexes r. ?f x)
      = (\<Sum>x\<leftarrow>take (unat op) (cb_indexes r). ?f x) + ?f (cb_indexes r ! unat op) + (\<Sum>x\<leftarrow>drop (Suc (unat op)) (cb_indexes r). ?f x)"
    by (subst id_take_nth_drop [OF len]) simp
  from Some op(1) ox_total_insert [OF x(1), of w i] show ?thesis
    unfolding cb_total_def old x(3) by (simp add: cb_insert_def Let_def upd_conv_take_nth_drop [OF len])
qed

lemma cb_total_prepare: "cb_total R (cb_prepare R r) = cb_total R r"
  unfolding cb_total_def cb_prepare_def
  by (auto intro!: arg_cong [where f = sum_list] simp: ox_total_prepared split: option.split)

end

lemma cb_schema_insert [simp]:
  "cb_value (cb_insert R r t i) = cb_value r" "cb_operator (cb_insert R r t i) = cb_operator r"
  "cb_compare (cb_insert R r t i) = cb_compare r" "cb_node (cb_insert R r t i) = cb_node r"
  by (simp_all add: cb_insert_def Let_def split: option.split)

lemma cb_new_building:
  assumes "roaring R" "comparator cmp"
  shows "cb_building R (new_compare_by_rule R node value operator cmp key)"
    "cb_den R (new_compare_by_rule R node value operator cmp key) q = {}"
    "cb_total R (new_compare_by_rule R node value operator cmp key) = 0"
  using assms(2)
  by (simp_all add: cb_building_def new_compare_by_rule_def cb_den_def cb_key_den_def cb_index_den_def cb_total_def
      roaring.ids_new [OF assms(1)] split: option.split)

interpretation compare_by_filter: buildable cb_building cb_published cb_insert cb_prepare cb_accepts cb_matches cb_den
  by unfold_locales
    (auto simp: roaring.cb_den_insert roaring.cb_building_insert roaring.cb_published_prepare roaring.cb_den_prepare
      cb_matches_def cb_accepts_def cb_validate_def fun_eq_iff split: option.split)

interpretation compare_by_filter: searchable cb_ready cb_ops cb_den
  by unfold_locales (rule roaring.cb_ops_ok)

end
