(* ===== verification/Leaf_Rule.thy ===== *)
theory Leaf_Rule
  imports Exclusion_Rule Between_Rule Compare_By_Rule
begin

text \<open>
  The filters of a schema as one type. In Go a schema is a tree of \<open>Rule[T]\<close> interface values and a
  call dispatches on the dynamic type; here the dispatch is a datatype. Values of all filters live in
  one type \<open>'v\<close>, encoded equality keys in \<open>'k\<close>.
\<close>

section \<open>Filters and their state\<close>

text \<open>What a constructor of the package (\<open>Include\<close>, \<open>Greater\<close>, \<dots>) is given.\<close>

datatype ('t, 'v, 'k) filter_spec =
    Include_Filter "'t \<Rightarrow> 'v option" "'v \<Rightarrow> 'k"
  | Ordered_Filter "'t \<Rightarrow> 'v option" "'v \<Rightarrow> 'v \<Rightarrow> int" "'v \<Rightarrow> u64 option" direction bool
  | Between_Filter "'t \<Rightarrow> 'v option" "'t \<Rightarrow> 'v option" "'v \<Rightarrow> 'v \<Rightarrow> int" "'v \<Rightarrow> u64 option"
  | Compare_By_Filter "'t \<Rightarrow> 'v option" "'t \<Rightarrow> operator option" "'v \<Rightarrow> 'v \<Rightarrow> int" "'v \<Rightarrow> u64 option"
  | Exclude_Filter "'t \<Rightarrow> 'v option"

datatype ('t, 'v, 'k, 'b) leaf =
    Equality_Leaf "('t, 'v, 'k, 'b) eq_rule"
  | Ordered_Leaf "('t, 'v, 'b) ordered_rule"
  | Between_Leaf "('t, 'v, 'b) between_rule"
  | Compare_By_Leaf "('t, 'v, 'b) compare_by_rule"
  | Exclusion_Leaf "('t, 'v, 'b) not_rule"

text \<open>\<open>newState\<close> of the five rules, with the node the allocator hands out.\<close>

fun new_leaf :: "'b roaring \<Rightarrow> nat \<Rightarrow> ('t, 'v, 'k) filter_spec \<Rightarrow> ('t, 'v, 'k, 'b) leaf" where
  "new_leaf R node (Include_Filter get encode) = Equality_Leaf (include_rule R node get encode)"
| "new_leaf R node (Ordered_Filter get cmp key dir inclusive) =
     Ordered_Leaf (new_ordered_rule R node get cmp key dir inclusive)"
| "new_leaf R node (Between_Filter from_get until_get cmp key) =
     Between_Leaf (new_between_rule R node from_get until_get cmp key)"
| "new_leaf R node (Compare_By_Filter value op cmp key) =
     Compare_By_Leaf (new_compare_by_rule R node value op cmp key)"
| "new_leaf R node (Exclude_Filter get) = Exclusion_Leaf (new_not_rule node get)"

fun leaf_validate :: "('t, 'v, 'k, 'b) leaf \<Rightarrow> 't \<Rightarrow> rule_error option" where
  "leaf_validate (Compare_By_Leaf r) t = cb_validate r t"
| "leaf_validate _ t = None"

fun leaf_insert :: "'b roaring \<Rightarrow> ('t, 'v, 'k, 'b) leaf \<Rightarrow> 't \<Rightarrow> u32 \<Rightarrow> ('t, 'v, 'k, 'b) leaf" where
  "leaf_insert R (Equality_Leaf r) t i = Equality_Leaf (eq_insert R r t i)"
| "leaf_insert R (Ordered_Leaf r) t i = Ordered_Leaf (od_insert R r t i)"
| "leaf_insert R (Between_Leaf r) t i = Between_Leaf (bt_insert R r t i)"
| "leaf_insert R (Compare_By_Leaf r) t i = Compare_By_Leaf (cb_insert R r t i)"
| "leaf_insert R (Exclusion_Leaf r) t i = Exclusion_Leaf (nt_insert R r t i)"

text \<open>\<open>optimize\<close>: the bitmap of the match-all rule that replaces the filter, if any.\<close>

fun leaf_optimize :: "'b roaring \<Rightarrow> ('t, 'v, 'k, 'b) leaf \<Rightarrow> u64 \<Rightarrow> 'b option" where
  "leaf_optimize R (Equality_Leaf r) rules = eq_optimize R r rules"
| "leaf_optimize R (Ordered_Leaf r) rules = od_optimize R r rules"
| "leaf_optimize R (Between_Leaf r) rules = bt_optimize R r rules"
| "leaf_optimize R (Compare_By_Leaf r) rules = cb_optimize R r rules"
| "leaf_optimize R (Exclusion_Leaf r) rules = None"

text \<open>\<open>prepareRuleSearch\<close> of a filter.\<close>

fun leaf_prepare :: "'b roaring \<Rightarrow> ('t, 'v, 'k, 'b) leaf \<Rightarrow> ('t, 'v, 'k, 'b) leaf" where
  "leaf_prepare R (Ordered_Leaf r) = Ordered_Leaf (od_prepare R r)"
| "leaf_prepare R (Between_Leaf r) = Between_Leaf (bt_prepare R r)"
| "leaf_prepare R (Compare_By_Leaf r) = Compare_By_Leaf (cb_prepare R r)"
| "leaf_prepare R lf = lf"

fun leaf_ops :: "'b roaring \<Rightarrow> ('t, 'v, 'k, 'b) leaf \<Rightarrow> ('t, 'v, 'b) child_ops" where
  "leaf_ops R (Equality_Leaf r) = eq_ops R r"
| "leaf_ops R (Ordered_Leaf r) = od_ops R r"
| "leaf_ops R (Between_Leaf r) = bt_ops R r"
| "leaf_ops R (Compare_By_Leaf r) = cb_ops R r"
| "leaf_ops R (Exclusion_Leaf r) = nt_ops r"

fun leaf_node :: "('t, 'v, 'k, 'b) leaf \<Rightarrow> nat" where
  "leaf_node (Equality_Leaf r) = er_node r"
| "leaf_node (Ordered_Leaf r) = od_node r"
| "leaf_node (Between_Leaf r) = bt_node r"
| "leaf_node (Compare_By_Leaf r) = cb_node r"
| "leaf_node (Exclusion_Leaf r) = nt_node r"

text \<open>The dynamic type test \<open>rule.(exclusionRule[T])\<close>, with \<open>hasExclusions\<close>.\<close>

fun is_exclusion :: "('t, 'v, 'k, 'b) leaf \<Rightarrow> bool" where
  "is_exclusion (Exclusion_Leaf r) = True"
| "is_exclusion _ = False"

fun leaf_has_exclusions :: "('t, 'v, 'k, 'b) leaf \<Rightarrow> bool" where
  "leaf_has_exclusions (Exclusion_Leaf r) = nt_has_exclusions r"
| "leaf_has_exclusions _ = False"

section \<open>The meaning of a filter\<close>

text \<open>
  A stored constraint against a query, for one column of the filter. \<open>Between\<close> has two columns: an
  ID may satisfy the lower bound with one of its constraints and the upper bound with another.
\<close>

definition include_column :: "('t \<Rightarrow> 'v option) \<Rightarrow> ('v \<Rightarrow> 'k) \<Rightarrow> 't \<Rightarrow> 't \<Rightarrow> bool" where
  "include_column get encode stored query =
     (case get stored of
        None \<Rightarrow> True
      | Some w \<Rightarrow> (case get query of None \<Rightarrow> False | Some v \<Rightarrow> encode w = encode v))"

definition ordered_column ::
  "('t \<Rightarrow> 'v option) \<Rightarrow> ('v \<Rightarrow> 'v \<Rightarrow> int) \<Rightarrow> direction \<Rightarrow> bool \<Rightarrow> 't \<Rightarrow> 't \<Rightarrow> bool" where
  "ordered_column get cmp dir inclusive stored query =
     (case get stored of
        None \<Rightarrow> True
      | Some w \<Rightarrow> (case get query of None \<Rightarrow> False | Some v \<Rightarrow> in_range cmp v (dir = Less_Than) inclusive w))"

definition compare_by_column ::
  "('t \<Rightarrow> 'v option) \<Rightarrow> ('t \<Rightarrow> operator option) \<Rightarrow> ('v \<Rightarrow> 'v \<Rightarrow> int) \<Rightarrow> 't \<Rightarrow> 't \<Rightarrow> bool" where
  "compare_by_column value op cmp stored query =
     (case value stored of
        None \<Rightarrow> True
      | Some w \<Rightarrow>
          (case (value query, op stored) of
             (Some v, Some oper) \<Rightarrow> operator_holds cmp oper v w
           | _ \<Rightarrow> False))"

fun spec_columns :: "('t, 'v, 'k) filter_spec \<Rightarrow> ('t \<Rightarrow> 't \<Rightarrow> bool) list" where
  "spec_columns (Include_Filter get encode) = [include_column get encode]"
| "spec_columns (Ordered_Filter get cmp key dir inclusive) = [ordered_column get cmp dir inclusive]"
| "spec_columns (Between_Filter from_get until_get cmp key) =
     [ordered_column from_get cmp Greater_Than True, ordered_column until_get cmp Less_Than True]"
| "spec_columns (Compare_By_Filter value op cmp key) = [compare_by_column value op cmp]"
| "spec_columns (Exclude_Filter get) = []"

definition exclude_column :: "('t \<Rightarrow> 'v option) \<Rightarrow> 't \<Rightarrow> 't \<Rightarrow> bool" where
  "exclude_column get stored query = (case get stored of None \<Rightarrow> False | Some w \<Rightarrow> get query = Some w)"

fun spec_forbids :: "('t, 'v, 'k) filter_spec \<Rightarrow> 't \<Rightarrow> 't \<Rightarrow> bool" where
  "spec_forbids (Exclude_Filter get) stored query = exclude_column get stored query"
| "spec_forbids _ stored query = False"

text \<open>A comparator the package may be given.\<close>

fun spec_ok :: "('t, 'v, 'k) filter_spec \<Rightarrow> bool" where
  "spec_ok (Ordered_Filter get cmp key dir inclusive) = comparator cmp"
| "spec_ok (Between_Filter from_get until_get cmp key) = comparator cmp"
| "spec_ok (Compare_By_Filter value op cmp key) = comparator cmp"
| "spec_ok _ = True"

text \<open>The constraint is one that \<open>validate\<close> lets pass.\<close>

fun spec_validate :: "('t, 'v, 'k) filter_spec \<Rightarrow> 't \<Rightarrow> rule_error option" where
  "spec_validate (Compare_By_Filter value op cmp key) t =
     (case value t of
        None \<Rightarrow> None
      | Some _ \<Rightarrow>
          (case op t of
             None \<Rightarrow> Some Operator_Is_Nil
           | Some oper \<Rightarrow> if OperatorGTE < oper then Some (Unsupported_Operator oper) else None))"
| "spec_validate _ t = None"

section \<open>The state of a filter while it is built\<close>

text \<open>The IDs of the stored constraints that satisfy a column.\<close>

definition column_ids :: "('t \<times> u32) set \<Rightarrow> ('t \<Rightarrow> 't \<Rightarrow> bool) \<Rightarrow> 't \<Rightarrow> u32 set" where
  "column_ids es m q = {i. \<exists>t. (t, i) \<in> es \<and> m t q}"

lemma column_ids_insert [simp]:
  "column_ids (insert (t, i) es) m q = (if m t q then insert i (column_ids es m q) else column_ids es m q)"
  by (auto simp: column_ids_def)

lemma column_ids_empty [simp]: "column_ids {} m q = {}"
  by (simp add: column_ids_def)

lemma column_ids_mono: "column_ids es m q \<subseteq> snd ` es"
  by (force simp: column_ids_def)

text \<open>
  \<open>leaf_built R node f n es lf\<close>: the state of the filter \<open>f\<close> after \<open>n\<close> insertions of the constraints
  in \<open>es\<close>.
\<close>

definition ordered_built ::
  "'b roaring \<Rightarrow> nat \<Rightarrow> ('t \<Rightarrow> 'v option) \<Rightarrow> ('v \<Rightarrow> 'v \<Rightarrow> int) \<Rightarrow> direction \<Rightarrow> bool \<Rightarrow> nat \<Rightarrow> ('t \<times> u32) set
     \<Rightarrow> ('t, 'v, 'b) ordered_rule \<Rightarrow> bool" where
  "ordered_built R node get cmp dir inclusive n es r \<longleftrightarrow>
     od_node r = node \<and> od_get r = get \<and> od_compare r = cmp \<and> od_dir r = dir \<and> od_inclusive r = inclusive
     \<and> od_building R r \<and> ox_total R (od_index r) \<le> n
     \<and> (\<forall>q. od_den R r q = column_ids es (ordered_column get cmp dir inclusive) q)"

fun leaf_built ::
  "'b roaring \<Rightarrow> nat \<Rightarrow> ('t, 'v, 'k) filter_spec \<Rightarrow> nat \<Rightarrow> ('t \<times> u32) set \<Rightarrow> ('t, 'v, 'k, 'b) leaf \<Rightarrow> bool" where
  "leaf_built R node (Include_Filter get encode) n es (Equality_Leaf r) \<longleftrightarrow>
     er_node r = node \<and> er_get r = get \<and> er_encode r = encode
     \<and> eq_building r \<and> length (ei_sets (er_values r)) \<le> n
     \<and> er_wildcard_class r = 0 \<and> (\<forall>s\<in>set (ei_sets (er_values r)). es_source s = 0 \<and> es_class s = 0)
     \<and> eq_stored R r = snd ` es
     \<and> (\<forall>q. eq_den R r q = column_ids es (include_column get encode) q)"
| "leaf_built R node (Ordered_Filter get cmp key dir inclusive) n es (Ordered_Leaf r) \<longleftrightarrow>
     ordered_built R node get cmp dir inclusive n es r"
| "leaf_built R node (Between_Filter from_get until_get cmp key) n es (Between_Leaf r) \<longleftrightarrow>
     bt_node r = node \<and> ordered_built R node from_get cmp Greater_Than True n es (bt_from r)
     \<and> ordered_built R node until_get cmp Less_Than True n es (bt_until r)"
| "leaf_built R node (Compare_By_Filter value op cmp key) n es (Compare_By_Leaf r) \<longleftrightarrow>
     cb_node r = node \<and> cb_value r = value \<and> cb_operator r = op \<and> cb_compare r = cmp
     \<and> cb_building R r \<and> cb_total R r \<le> n
     \<and> (\<forall>q. cb_den R r q = column_ids es (compare_by_column value op cmp) q)"
| "leaf_built R node (Exclude_Filter get) n es (Exclusion_Leaf r) \<longleftrightarrow>
     nt_node r = node \<and> nt_get r = get \<and> nt_building r \<and> length (ei_sets (nt_values r)) \<le> n
     \<and> (nt_has_exclusions r \<longleftrightarrow> (\<exists>(t, i)\<in>es. get t \<noteq> None))
     \<and> (\<forall>q. nt_den R r q = column_ids es (exclude_column get) q)"
| "leaf_built R node _ n es _ \<longleftrightarrow> False"

lemma leaf_built_cases:
  assumes "leaf_built R node f n es lf"
  obtains (equality) get encode er where "f = Include_Filter get encode" "lf = Equality_Leaf er"
  | (ordered) get cmp key dir inclusive dr where "f = Ordered_Filter get cmp key dir inclusive" "lf = Ordered_Leaf dr"
  | (between) from_get until_get cmp key br where "f = Between_Filter from_get until_get cmp key" "lf = Between_Leaf br"
  | (compare_by) val op cmp key cr where "f = Compare_By_Filter val op cmp key" "lf = Compare_By_Leaf cr"
  | (exclusion) get nr where "f = Exclude_Filter get" "lf = Exclusion_Leaf nr"
  using assms by (cases f; cases lf) auto

lemma eq_matches_column: "eq_matches r = include_column (er_get r) (er_encode r)"
  by (simp add: eq_matches_def include_column_def fun_eq_iff)

lemma od_matches_column: "od_matches r = ordered_column (od_get r) (od_compare r) (od_dir r) (od_inclusive r)"
  by (simp add: od_matches_def ordered_column_def fun_eq_iff)

lemma cb_matches_column: "cb_matches r = compare_by_column (cb_value r) (cb_operator r) (cb_compare r)"
  by (simp add: cb_matches_def compare_by_column_def fun_eq_iff)

lemma nt_forbids_column: "nt_forbids r = exclude_column (nt_get r)"
  by (simp add: nt_forbids_def exclude_column_def fun_eq_iff)

text \<open>The fields of a fresh state.\<close>

lemma new_rule_fields [simp]:
  "er_node (include_rule R node get encode) = node" "er_get (include_rule R node get encode) = get"
  "er_encode (include_rule R node get encode) = encode" "ei_sets (er_values (include_rule R node get encode)) = []" "er_wildcard_class (include_rule R node get encode) = 0"
  "od_node (new_ordered_rule R node get cmp key dir inclusive) = node"
  "od_get (new_ordered_rule R node get cmp key dir inclusive) = get"
  "od_compare (new_ordered_rule R node get cmp key dir inclusive) = cmp"
  "od_dir (new_ordered_rule R node get cmp key dir inclusive) = dir"
  "od_inclusive (new_ordered_rule R node get cmp key dir inclusive) = inclusive"
  "cb_node (new_compare_by_rule R node value op cmp key) = node"
  "cb_value (new_compare_by_rule R node value op cmp key) = value"
  "cb_operator (new_compare_by_rule R node value op cmp key) = op"
  "cb_compare (new_compare_by_rule R node value op cmp key) = cmp"
  "nt_node (new_not_rule node get) = node" "nt_get (new_not_rule node get) = get"
  "ei_sets (nt_values (new_not_rule node get)) = []"
  by (simp_all add: include_rule_def new_ordered_rule_def new_compare_by_rule_def new_not_rule_def new_equality_index_def)

lemma prepare_fields [simp]:
  "od_node (od_prepare R r) = od_node r" "od_get (od_prepare R r) = od_get r" "od_compare (od_prepare R r) = od_compare r"
  "od_index (od_prepare R r) = ox_prepare_search R (od_index r)" "od_wildcard (od_prepare R r) = od_wildcard r"
  by (simp_all add: od_prepare_def)

lemma ei_sets_add: "length (ei_sets (ei_add R t k i)) \<le> Suc (length (ei_sets t))"
  by (simp add: ei_add_def ei_append_def split: option.split)

lemma ei_add_not_empty [simp]: "ei_sets (ei_add R t k i) \<noteq> []" if "ei_ok t" for t :: "('k, 'b) equality_index"
  using ei_ok_offset(1) [OF that, of k] by (auto simp: ei_add_def ei_append_def split: option.split)

lemma es_add_unsourced [simp]: "es_source (es_add R s i) = es_source s" "es_class (es_add R s i) = es_class s"
  by (simp_all add: es_add_def split: option.split prod.split)

lemma ei_add_unsourced:
  assumes "\<forall>s\<in>set (ei_sets t). es_source s = 0 \<and> es_class s = 0" "ei_ok t"
  shows "\<forall>s\<in>set (ei_sets (ei_add R t k i)). es_source s = 0 \<and> es_class s = 0"
  using assms ei_ok_offset(1) [OF assms(2), of k]
  by (auto simp: ei_add_def ei_append_def new_equality_set_def split: option.split
      dest!: set_update_subset_insert [THEN subsetD])

lemma eq_insert_unsourced:
  assumes "eq_building r" "\<forall>s\<in>set (ei_sets (er_values r)). es_source s = 0 \<and> es_class s = 0"
  shows "er_wildcard_class (eq_insert R r t i) = er_wildcard_class r"
    "\<forall>s\<in>set (ei_sets (er_values (eq_insert R r t i))). es_source s = 0 \<and> es_class s = 0"
  using assms(2) ei_add_unsourced [OF assms(2), where R = R] assms(1)
  by (cases "er_get r t"; simp add: eq_insert_def eq_building_def)+

lemma eq_sets_insert:
  "length (ei_sets (er_values r)) \<le> n \<Longrightarrow> length (ei_sets (er_values (eq_insert R r t i))) \<le> Suc n"
  by (auto simp: eq_insert_def intro: order_trans [OF ei_sets_add] split: option.split)

lemma nt_sets_insert:
  "length (ei_sets (nt_values r)) \<le> n \<Longrightarrow> length (ei_sets (nt_values (nt_insert R r t i))) \<le> Suc n"
  by (auto simp: nt_insert_def intro: order_trans [OF ei_sets_add] split: option.split)

lemma leaf_node_built: "leaf_built R node f n es lf \<Longrightarrow> leaf_node lf = node"
  by (cases rule: leaf_built_cases) (auto simp: ordered_built_def)

lemma leaf_validate_built: "leaf_built R node f n es lf \<Longrightarrow> leaf_validate lf t = spec_validate f t"
  by (cases rule: leaf_built_cases) (auto simp: cb_validate_def)

context roaring
begin

lemma ordered_built_new:
  assumes "comparator cmp"
  shows "ordered_built R node get cmp dir inclusive 0 {} (new_ordered_rule R node get cmp key dir inclusive)"
  by (simp add: ordered_built_def od_new_building [OF roaring_axioms assms])

lemma ordered_built_insert:
  assumes "ordered_built R node get cmp dir inclusive n es r"
  shows "ordered_built R node get cmp dir inclusive (Suc n) (insert (t, i) es) (od_insert R r t i)"
  using assms od_total_insert [of r t i] od_building_insert [of r t i] od_den_insert [of r t i]
  by (auto simp: ordered_built_def od_matches_column)

lemma leaf_built_new:
  assumes "spec_ok f"
  shows "leaf_built R node f 0 {} (new_leaf R node f)"
proof (cases f)
  case (Include_Filter get encode)
  then show ?thesis
    by (simp add: eq_include_den [OF roaring_axioms]) (simp add: eq_stored_def include_rule_def ids_new new_equality_index_def)
next
  case (Ordered_Filter get cmp key dir inclusive)
  with assms show ?thesis by (simp add: ordered_built_new)
next
  case (Between_Filter from_get until_get cmp key)
  with assms show ?thesis by (simp add: new_between_rule_def ordered_built_new)
next
  case (Compare_By_Filter val op cmp key)
  with assms show ?thesis by (simp add: cb_new_building [OF roaring_axioms])
next
  case (Exclude_Filter get)
  then show ?thesis
    by (simp add: nt_new nt_has_exclusions_def)
qed

lemma leaf_built_insert:
  assumes "leaf_built R node f n es lf" "spec_validate f t = None"
  shows "leaf_built R node f (Suc n) (insert (t, i) es) (leaf_insert R lf t i)"
using assms(1) proof (cases rule: leaf_built_cases)
  case (equality get encode r)
  with assms(1) have built: "leaf_built R node (Include_Filter get encode) n es (Equality_Leaf r)" by simp
  then have "eq_building r" "\<forall>s\<in>set (ei_sets (er_values r)). es_source s = 0 \<and> es_class s = 0" by simp_all
  note unsourced = eq_insert_unsourced [OF this, of R t i]
  with built equality show ?thesis
    by (simp add: eq_building_insert eq_matches_column eq_den_insert eq_sets_insert eq_stored_insert)
next
  case (compare_by val op cmp key r)
  with assms have "cb_accepts r t" by (auto simp: cb_accepts_def cb_validate_def)
  with compare_by assms(1) show ?thesis
    using cb_den_insert [of r t i] cb_building_insert [of r t i] cb_total_insert [of r t i]
    by (auto simp: cb_matches_column)
next
  case (exclusion get r)
  with assms(1) have built: "leaf_built R node (Exclude_Filter get) n es (Exclusion_Leaf r)" by simp
  then have "nt_has_exclusions (nt_insert R r t i) \<longleftrightarrow> nt_has_exclusions r \<or> get t \<noteq> None"
    by (auto simp: nt_has_exclusions_def nt_insert_def nt_building_def split: option.split)
  with built exclusion show ?thesis
    by (auto simp add: nt_building_insert nt_forbids_column nt_den_insert nt_sets_insert)
qed (use assms in \<open>auto simp: bt_insert_def ordered_built_insert\<close>)

end

section \<open>A published filter\<close>

text \<open>What a filter returns for a query; an exclusion in the positive tree returns nothing.\<close>

fun leaf_den :: "'b roaring \<Rightarrow> ('t, 'v, 'k, 'b) leaf \<Rightarrow> 't \<Rightarrow> u32 set" where
  "leaf_den R (Equality_Leaf r) q = eq_den R r q"
| "leaf_den R (Ordered_Leaf r) q = od_den R r q"
| "leaf_den R (Between_Leaf r) q = bt_den R r q"
| "leaf_den R (Compare_By_Leaf r) q = cb_den R r q"
| "leaf_den R (Exclusion_Leaf r) q = {}"

text \<open>The result of every key, which the caches of a \<open>Local\<close> must agree with.\<close>

fun leaf_key_den :: "'b roaring \<Rightarrow> ('t, 'v, 'k, 'b) leaf \<Rightarrow> 'v cache_key \<Rightarrow> u32 set" where
  "leaf_key_den R (Equality_Leaf r) k = eq_key_den R r (fst k)"
| "leaf_key_den R (Ordered_Leaf r) k = od_key_den R r (fst k)"
| "leaf_key_den R (Between_Leaf r) k = bt_key_den R r k"
| "leaf_key_den R (Compare_By_Leaf r) k = cb_key_den R r (fst k)"
| "leaf_key_den R (Exclusion_Leaf r) k = (case fst k of None \<Rightarrow> {} | Some x \<Rightarrow> ei_posting R (nt_values r) x)"

fun leaf_published :: "'b roaring \<Rightarrow> ('t, 'v, 'k, 'b) leaf \<Rightarrow> bool" where
  "leaf_published R (Equality_Leaf r) \<longleftrightarrow> eq_building r"
| "leaf_published R (Ordered_Leaf r) \<longleftrightarrow> od_published R r \<and> ox_total R (od_index r) < 2 ^ 63"
| "leaf_published R (Between_Leaf r) \<longleftrightarrow> bt_published R r"
| "leaf_published R (Compare_By_Leaf r) \<longleftrightarrow> cb_published R r \<and> cb_total R r < 2 ^ 63"
| "leaf_published R (Exclusion_Leaf r) \<longleftrightarrow> nt_building r"

lemma leaf_den_eta [simp]:
  "leaf_den R (Equality_Leaf er) = eq_den R er" "leaf_den R (Ordered_Leaf dr) = od_den R dr"
  "leaf_den R (Between_Leaf br) = bt_den R br" "leaf_den R (Compare_By_Leaf cr) = cb_den R cr"
  "leaf_den R (Exclusion_Leaf nr) = (\<lambda>q. {})"
  by (simp_all add: fun_eq_iff)

text \<open>What an exclusion forbids.\<close>

fun leaf_forbidden :: "'b roaring \<Rightarrow> ('t, 'v, 'k, 'b) leaf \<Rightarrow> 't \<Rightarrow> u32 set" where
  "leaf_forbidden R (Exclusion_Leaf r) q = nt_den R r q"
| "leaf_forbidden R _ q = {}"

text \<open>Ready to be prepared: built, with tables small enough for the wrapping sums of the estimates.\<close>

fun leaf_ready :: "'b roaring \<Rightarrow> ('t, 'v, 'k, 'b) leaf \<Rightarrow> bool" where
  "leaf_ready R (Equality_Leaf r) \<longleftrightarrow> eq_building r"
| "leaf_ready R (Ordered_Leaf r) \<longleftrightarrow> od_building R r \<and> ox_total R (od_index r) < 2 ^ 63"
| "leaf_ready R (Between_Leaf r) \<longleftrightarrow> od_building R (bt_from r) \<and> od_building R (bt_until r)
     \<and> od_compare (bt_until r) = od_compare (bt_from r)
     \<and> ox_total R (od_index (bt_from r)) < 2 ^ 63 \<and> ox_total R (od_index (bt_until r)) < 2 ^ 63"
| "leaf_ready R (Compare_By_Leaf r) \<longleftrightarrow> cb_building R r \<and> cb_total R r < 2 ^ 63"
| "leaf_ready R (Exclusion_Leaf r) \<longleftrightarrow> nt_building r"

lemma leaf_ready_built:
  assumes "leaf_built R node f n es lf" "n < 2 ^ 63"
  shows "leaf_ready R lf"
  using assms(1) by (cases rule: leaf_built_cases) (use assms in \<open>auto simp: ordered_built_def\<close>)

lemma leaf_forbidden_built:
  assumes "leaf_built R node f n es lf"
  shows "leaf_forbidden R lf q = column_ids es (spec_forbids f) q"
  using assms
proof (cases rule: leaf_built_cases)
  case (exclusion get r)
  then have "spec_forbids f = exclude_column get" by (simp add: fun_eq_iff)
  moreover have "leaf_forbidden R lf q = column_ids es (exclude_column get) q" using exclusion assms by simp
  ultimately show ?thesis by simp
qed (auto simp: column_ids_def)

lemma leaf_den_built:
  assumes "leaf_built R node f n es lf" "\<not> is_exclusion lf"
  shows "leaf_den R lf q = (\<Inter>m\<in>set (spec_columns f). column_ids es m q)"
  using assms(1) by (cases rule: leaf_built_cases) (use assms in \<open>auto simp: ordered_built_def bt_den_def\<close>)

context roaring
begin

lemma leaf_prepare_same [simp]:
  "leaf_den R (leaf_prepare R lf) q = leaf_den R lf q" if "leaf_ready R lf" for lf
  using that by (cases lf) (simp_all add: od_den_prepare bt_den_def bt_prepare_def cb_den_prepare)

lemma leaf_prepare_key: "leaf_ready R lf \<Longrightarrow> leaf_key_den R (leaf_prepare R lf) k = leaf_key_den R lf k"
  by (cases lf) (simp_all add: od_key_den_prepare bt_key_den_def bt_prepare_def cb_key_den_prepare)

lemma leaf_published_prepare: "leaf_ready R lf \<Longrightarrow> leaf_published R (leaf_prepare R lf)"
  by (cases lf) (simp_all add: od_published_prepare ox_total_prepare bt_published_def bt_prepare_def cb_published_prepare
      cb_total_prepare)

lemma leaf_prepare_node [simp]: "leaf_node (leaf_prepare R lf) = leaf_node lf"
  by (cases lf) (simp_all add: bt_prepare_def cb_prepare_def)

lemma leaf_prepare_exclusion [simp]:
  "is_exclusion (leaf_prepare R lf) = is_exclusion lf" "leaf_forbidden R (leaf_prepare R lf) q = leaf_forbidden R lf q"
  by (cases lf; simp)+

lemma leaf_ops_ok:
  assumes "leaf_published R lf" "leaf_node lf < va_nodes G"
    and "\<And>kind k. va_den G kind (leaf_node lf) k = leaf_key_den R lf k"
  shows "ops_ok R G (leaf_ops R lf) (leaf_den R lf)"
proof (cases lf)
  case (Equality_Leaf r)
  with assms have "eq_ready R G r" by (simp add: eq_ready_def)
  from equality_filter.ops_sound [OF roaring_axioms this] Equality_Leaf show ?thesis by simp
next
  case (Ordered_Leaf r)
  with assms have "od_ready R G r" by (simp add: od_ready_def)
  from ordered_filter.ops_sound [OF roaring_axioms this] Ordered_Leaf show ?thesis by simp
next
  case (Between_Leaf r)
  with assms have "bt_ready R G r" by (simp add: bt_ready_def)
  from between_filter.ops_sound [OF roaring_axioms this] Between_Leaf show ?thesis by simp
next
  case (Compare_By_Leaf r)
  with assms have "cb_ready R G r" by (simp add: cb_ready_def)
  from compare_by_filter.ops_sound [OF roaring_axioms this] Compare_By_Leaf show ?thesis by simp
next
  case (Exclusion_Leaf r)
  from exclusion_filter.ops_sound [OF roaring_axioms TrueI] Exclusion_Leaf show ?thesis by simp
qed

text \<open>An exclusion is ready to be asked.\<close>

lemma leaf_exclusion_ready:
  assumes "leaf_published R (Exclusion_Leaf r)" "nt_node r < va_nodes G"
    and "\<And>kind k. va_den G kind (nt_node r) k = leaf_key_den R (Exclusion_Leaf r) k"
  shows "nt_ready R G r"
  using assms by (simp add: nt_ready_def)

lemma leaf_optimize_den:
  assumes "leaf_built R node f n es lf" "leaf_optimize R lf rules = Some bits"
    and "snd ` es \<subseteq> U" "rules = of_nat (card U)"
  shows "bm_ids R bits = U" "leaf_den R lf q = U"
proof -
  have full: "bm_ids R b = U" if "bm_card R b = rules" "bm_ids R b \<subseteq> U" for b
    using card_eq [of b] that assms(4) card_subset_eq [of U "bm_ids R b"] by (simp add: of_nat_u64_card_inj)
  have both: "bm_ids R w = U \<and> den = U"
    if "bm_card R w = rules" "den = column_ids es m q" "bm_ids R w \<subseteq> den" for w m den
  proof -
    have "den \<subseteq> U" using that(2) column_ids_mono [of es m q] assms(3) by (metis order_trans)
    with full [OF that(1)] that(3) show ?thesis by (metis order_antisym order_trans)
  qed
  have wild: "bm_ids R (er_wildcard e) \<subseteq> eq_den R e q" "bm_ids R (od_wildcard d) \<subseteq> od_den R d q"
    "bm_ids R (cb_wildcard c) \<subseteq> cb_den R c q" for e d c
    by (auto simp: eq_den_def eq_key_den_def od_den_def od_key_den_def cb_den_def cb_key_den_def)
  have ord: "bm_ids R (od_wildcard d) = U \<and> od_den R d q = U"
    if "ordered_built R node get cmp dir inclusive n es d" "bm_card R (od_wildcard d) = rules"
    for node get cmp dir inclusive n d
    by (rule both [OF that(2) _ wild(2)]) (use that(1) in \<open>simp add: ordered_built_def\<close>)
  have "bm_ids R bits = U \<and> leaf_den R lf q = U"
  using assms(1) proof (cases rule: leaf_built_cases)
    case (equality get encode r)
    with assms(1,2) both [OF _ _ wild(1) [of r]] show ?thesis
      by (auto simp: eq_optimize_def split: if_splits)
  next
    case (ordered get cmp key dir inclusive r)
    with assms(1,2) have "ordered_built R node get cmp dir inclusive n es r"
      and "bm_card R (od_wildcard r) = rules" "bits = od_wildcard r" by (auto simp: od_optimize_def split: if_splits)
    with ordered ord show ?thesis by simp
  next
    case (between from_get until_get cmp key r)
    with assms(1,2) have f: "ordered_built R node from_get cmp Greater_Than True n es (bt_from r)"
        "bm_card R (od_wildcard (bt_from r)) = rules"
      and u: "ordered_built R node until_get cmp Less_Than True n es (bt_until r)"
        "bm_card R (od_wildcard (bt_until r)) = rules"
      and "bits = od_wildcard (bt_from r)" by (auto simp: bt_optimize_def split: if_splits)
    with between ord [OF f] ord [OF u] show ?thesis by (simp add: bt_den_def)
  next
    case (compare_by val op cmp key r)
    with assms(1,2) both [OF _ _ wild(3) [of r]] show ?thesis
      by (auto simp: cb_optimize_def split: if_splits)
  qed (use assms(1,2) in auto)
  then show "bm_ids R bits = U" "leaf_den R lf q = U" by auto
qed

end

section \<open>How many postings a filter holds\<close>

fun leaf_items :: "('t, 'v, 'k, 'b) leaf \<Rightarrow> nat" where
  "leaf_items (Equality_Leaf r) = length (ei_sets (er_values r))"
| "leaf_items (Ordered_Leaf r) = length (flat (od_index r))"
| "leaf_items (Between_Leaf r) = length (flat (od_index (bt_from r))) + length (flat (od_index (bt_until r)))"
| "leaf_items (Compare_By_Leaf r) = (\<Sum>x\<leftarrow>cb_indexes r. case x of None \<Rightarrow> 0 | Some x \<Rightarrow> length (flat x))"
| "leaf_items (Exclusion_Leaf r) = length (ei_sets (nt_values r))"

lemma leaf_items_new [simp]: "leaf_items (new_leaf R node f) = 0"
  by (cases f) (simp_all add: new_ordered_rule_def new_between_rule_def new_compare_by_rule_def new_ordered_index_def flat_def)

context roaring
begin

lemma ox_items_insert:
  assumes "ox_building R x"
  shows "length (flat (ox_insert R x v i)) \<le> Suc (length (flat x))"
proof -
  have "length (takeWhile P xs) + length (dropWhile P xs) = length xs" for P and xs :: "('a, 'b) ordered_item list"
    by (metis length_append takeWhile_dropWhile_id)
  then show ?thesis by (simp add: flat_insert [OF assms] put_item_def)
qed

lemma od_items_insert:
  "od_building R r \<Longrightarrow> length (flat (od_index (od_insert R r t i))) \<le> Suc (length (flat (od_index r)))"
  using ox_items_insert [of "od_index r"] by (auto simp: od_insert_def od_building_def split: option.split)

lemma cb_items_insert:
  assumes "cb_building R r" "cb_accepts r t"
  shows "leaf_items (Compare_By_Leaf (cb_insert R r t i)) \<le> Suc (leaf_items (Compare_By_Leaf r))"
proof (cases "cb_value r t")
  case None
  then show ?thesis by (simp add: cb_insert_def)
next
  case (Some w)
  with cb_valid_operator [OF assms(2)] obtain op where op: "cb_operator r t = Some op" "op \<in> {0, 1, 2, 3, 4}" by blast
  let ?f = "\<lambda>x. case x of None \<Rightarrow> 0 | Some x \<Rightarrow> length (flat x)"
  let ?x = "case cb_indexes r ! unat op of Some x \<Rightarrow> x | None \<Rightarrow> new_ordered_index (cb_compare r) (cb_route r)"
  have len: "unat op < length (cb_indexes r)"
    using assms(1) operator_less [OF op(2)] by (simp add: cb_building_def)
  have x: "length (flat ?x) = ?f (cb_indexes r ! unat op)"
    by (simp add: flat_def new_ordered_index_def split: option.split)
  have old: "(\<Sum>x\<leftarrow>cb_indexes r. ?f x)
      = (\<Sum>x\<leftarrow>take (unat op) (cb_indexes r). ?f x) + ?f (cb_indexes r ! unat op) + (\<Sum>x\<leftarrow>drop (Suc (unat op)) (cb_indexes r). ?f x)"
    by (subst id_take_nth_drop [OF len]) simp
  from Some op(1) ox_items_insert [OF cb_index_or_new(1) [OF assms(1) operator_less [OF op(2)] refl], of w i] show ?thesis
    unfolding leaf_items.simps old x by (simp add: cb_insert_def Let_def upd_conv_take_nth_drop [OF len])
qed

lemma leaf_items_insert:
  assumes "leaf_built R node f n es lf" "spec_validate f t = None"
  shows "leaf_items (leaf_insert R lf t i) \<le> leaf_items lf + 2"
using assms(1) proof (cases rule: leaf_built_cases)
  case (equality get encode r)
  then show ?thesis using eq_sets_insert [OF order_refl, of R r t i] by simp
next
  case (ordered get cmp key dir inclusive r)
  then show ?thesis using assms(1) od_items_insert [of r t i] by (simp add: ordered_built_def)
next
  case (between from_get until_get cmp key r)
  then have "od_building R (bt_from r)" "od_building R (bt_until r)" using assms(1) by (simp_all add: ordered_built_def)
  from od_items_insert [OF this(1), of t i] od_items_insert [OF this(2), of t i] between show ?thesis
    by (simp add: bt_insert_def)
next
  case (compare_by val op cmp key r)
  then have "cb_accepts r t" "cb_building R r" using assms by (auto simp: cb_accepts_def cb_validate_def)
  from cb_items_insert [OF this(2,1), of i] compare_by show ?thesis by simp
next
  case (exclusion get r)
  then show ?thesis using nt_sets_insert [OF order_refl, of R r t i] by simp
qed

end

end
