(* ===== verification/Rule_Tree.thy ===== *)
theory Rule_Tree
  imports Leaf_Rule
begin

text \<open>
  Schemas and the tree of rule states that a build grows from one (\<^verbatim>\<open>rule.go\<close>, \<^verbatim>\<open>all.go\<close>): the canonical
  states of \<open>newState\<close>, validation, insertion, \<open>optimize\<close> and the separation of the exclusions from the
  positive tree. Inspector and lossy decorators are left out.

  A leaf of the tree is the number of its node, and the states of the leaves are a list indexed by
  it: a filter that a schema uses at several places has one state, which every insertion reaches
  along every path.
\<close>

section \<open>Schemas and states\<close>

text \<open>The number stands for the identity of the Go object.\<close>

datatype ('t, 'v, 'k) schema =
    Filter_Rule nat "('t, 'v, 'k) filter_spec"
  | All_Rule nat "('t, 'v, 'k) schema list"

datatype 'b rule_tree =
    Leaf_Node nat
  | All_Node nat "'b rule_tree list"
  | Match_All_Node 'b

fun schema_object :: "('t, 'v, 'k) schema \<Rightarrow> nat" where
  "schema_object (Filter_Rule object f) = object"
| "schema_object (All_Rule object children) = object"

text \<open>\<open>canonicalBuildRule\<close>: every rule but \<open>Exclude\<close>.\<close>

fun is_canonical :: "('t, 'v, 'k) schema \<Rightarrow> bool" where
  "is_canonical (Filter_Rule object (Exclude_Filter get)) = False"
| "is_canonical _ = True"

text \<open>
  The allocator: the filters that have a node so far, by node, and the states of the canonical rules.
  Two states are one object exactly when their trees are equal.
\<close>

record ('t, 'v, 'k, 'b) allocator =
  al_filters :: "('t, 'v, 'k) filter_spec list"
  al_canonical :: "nat \<rightharpoonup> 'b rule_tree"

definition allocate :: "('t, 'v, 'k) filter_spec \<Rightarrow> ('t, 'v, 'k, 'b) allocator \<Rightarrow> nat \<times> ('t, 'v, 'k, 'b) allocator" where
  "allocate f a = (length (al_filters a), a\<lparr>al_filters := al_filters a @ [f]\<rparr>)"

definition known_state :: "('t, 'v, 'k) schema \<Rightarrow> ('t, 'v, 'k, 'b) allocator \<Rightarrow> 'b rule_tree option" where
  "known_state c a = (if is_canonical c then al_canonical a (schema_object c) else None)"

definition remember_state ::
  "('t, 'v, 'k) schema \<Rightarrow> 'b rule_tree \<Rightarrow> ('t, 'v, 'k, 'b) allocator \<Rightarrow> ('t, 'v, 'k, 'b) allocator" where
  "remember_state c t a =
     (if is_canonical c then a\<lparr>al_canonical := (al_canonical a)(schema_object c \<mapsto> t)\<rparr> else a)"

text \<open>\<open>newState\<close>, with \<open>canonicalRuleState\<close> and the \<open>seen\<close> set of an \<open>All\<close>.\<close>

fun new_state :: "('t, 'v, 'k) schema \<Rightarrow> ('t, 'v, 'k, 'b) allocator \<Rightarrow> 'b rule_tree \<times> ('t, 'v, 'k, 'b) allocator"
  and new_children ::
    "('t, 'v, 'k) schema list \<Rightarrow> 'b rule_tree list \<Rightarrow> 'b rule_tree list \<Rightarrow> ('t, 'v, 'k, 'b) allocator
       \<Rightarrow> 'b rule_tree list \<times> ('t, 'v, 'k, 'b) allocator"
where
  "new_state (Filter_Rule object f) a = (case allocate f a of (node, a) \<Rightarrow> (Leaf_Node node, a))"
| "new_state (All_Rule object cs) a = (case new_children cs [] [] a of (children, a) \<Rightarrow> (All_Node object children, a))"
| "new_children [] seen children a = (children, a)"
| "new_children (c # cs) seen children a =
     (case (case known_state c a of
              Some t \<Rightarrow> (t, a)
            | None \<Rightarrow> (case new_state c a of (t, a) \<Rightarrow> (t, remember_state c t a))) of
        (t, a) \<Rightarrow>
          (if is_canonical c
           then if t \<in> set seen then new_children cs seen children a
                else new_children cs (seen @ [t]) (children @ [t]) a
           else new_children cs seen (children @ [t]) a))"

definition initial_leaves :: "'b roaring \<Rightarrow> ('t, 'v, 'k) filter_spec list \<Rightarrow> ('t, 'v, 'k, 'b) leaf list" where
  "initial_leaves R fs = map (\<lambda>node. new_leaf R node (fs ! node)) [0..<length fs]"

section \<open>Operations on the tree\<close>

text \<open>\<open>validate\<close>: the first error of the children.\<close>

fun tree_validate :: "('t, 'v, 'k, 'b) leaf list \<Rightarrow> 'b rule_tree \<Rightarrow> 't \<Rightarrow> rule_error option"
  and trees_validate :: "('t, 'v, 'k, 'b) leaf list \<Rightarrow> 'b rule_tree list \<Rightarrow> 't \<Rightarrow> rule_error option" where
  "tree_validate ls (Leaf_Node n) t = leaf_validate (ls ! n) t"
| "tree_validate ls (All_Node object cs) t = trees_validate ls cs t"
| "tree_validate ls (Match_All_Node bits) t = None"
| "trees_validate ls [] t = None"
| "trees_validate ls (c # cs) t =
     (case tree_validate ls c t of Some e \<Rightarrow> Some e | None \<Rightarrow> trees_validate ls cs t)"

fun tree_insert ::
  "'b roaring \<Rightarrow> 't \<Rightarrow> u32 \<Rightarrow> 'b rule_tree \<Rightarrow> ('t, 'v, 'k, 'b) leaf list \<Rightarrow> ('t, 'v, 'k, 'b) leaf list"
  and trees_insert ::
  "'b roaring \<Rightarrow> 't \<Rightarrow> u32 \<Rightarrow> 'b rule_tree list \<Rightarrow> ('t, 'v, 'k, 'b) leaf list \<Rightarrow> ('t, 'v, 'k, 'b) leaf list" where
  "tree_insert R t i (Leaf_Node n) ls = ls[n := leaf_insert R (ls ! n) t i]"
| "tree_insert R t i (All_Node object cs) ls = trees_insert R t i cs ls"
| "tree_insert R t i (Match_All_Node bits) ls = ls"
| "trees_insert R t i [] ls = ls"
| "trees_insert R t i (c # cs) ls = trees_insert R t i cs (tree_insert R t i c ls)"

text \<open>
  \<open>optimize\<close>: nested \<open>All\<close>s are flattened, a child that every stored constraint matches is dropped,
  and a canonical child is kept once.
\<close>

fun canonical_node :: "('t, 'v, 'k, 'b) leaf list \<Rightarrow> 'b rule_tree \<Rightarrow> bool" where
  "canonical_node ls (Leaf_Node n) = (\<not> is_exclusion (ls ! n))"
| "canonical_node ls (All_Node object cs) = True"
| "canonical_node ls (Match_All_Node bits) = False"

definition append_child ::
  "('t, 'v, 'k, 'b) leaf list \<Rightarrow> 'b rule_tree list \<Rightarrow> 'b rule_tree \<Rightarrow> 'b rule_tree list" where
  "append_child ls children c = (if canonical_node ls c \<and> c \<in> set children then children else children @ [c])"

fun append_optimized ::
  "('t, 'v, 'k, 'b) leaf list \<Rightarrow> 'b rule_tree list \<Rightarrow> 'b rule_tree list \<Rightarrow> 'b option \<Rightarrow> 'b rule_tree list \<times> 'b option" where
  "append_optimized ls [] children universal = (children, universal)"
| "append_optimized ls (Match_All_Node bits # cs) children universal = append_optimized ls cs children (Some bits)"
| "append_optimized ls (All_Node object nested # cs) children universal =
     append_optimized ls cs (foldl (append_child ls) children nested) universal"
| "append_optimized ls (Leaf_Node n # cs) children universal =
     append_optimized ls cs (append_child ls children (Leaf_Node n)) universal"

fun optimize :: "'b roaring \<Rightarrow> ('t, 'v, 'k, 'b) leaf list \<Rightarrow> u64 \<Rightarrow> 'b rule_tree \<Rightarrow> 'b rule_tree" where
  "optimize R ls rules (Leaf_Node n) =
     (case leaf_optimize R (ls ! n) rules of Some bits \<Rightarrow> Match_All_Node bits | None \<Rightarrow> Leaf_Node n)"
| "optimize R ls rules (Match_All_Node bits) = Match_All_Node bits"
| "optimize R ls rules (All_Node object cs) =
     (if cs = [] then Match_All_Node (bm_add_range R (bm_new R) 0 rules)
      else case append_optimized ls (map (optimize R ls rules) cs) [] None of
             (children, universal) \<Rightarrow>
               (if children = [] then Match_All_Node (the universal)
                else if length children = 1 then hd children
                else All_Node object children))"

fun collect_exclusion_rules :: "('t, 'v, 'k, 'b) leaf list \<Rightarrow> 'b rule_tree \<Rightarrow> nat list" where
  "collect_exclusion_rules ls (Leaf_Node n) = (if leaf_has_exclusions (ls ! n) then [n] else [])"
| "collect_exclusion_rules ls (All_Node object cs) = concat (map (collect_exclusion_rules ls) cs)"
| "collect_exclusion_rules ls (Match_All_Node bits) = []"

fun remove_exclusion_rules :: "'b roaring \<Rightarrow> ('t, 'v, 'k, 'b) leaf list \<Rightarrow> 'b \<Rightarrow> 'b rule_tree \<Rightarrow> 'b rule_tree" where
  "remove_exclusion_rules R ls universe (Leaf_Node n) =
     (if is_exclusion (ls ! n) then Match_All_Node universe else Leaf_Node n)"
| "remove_exclusion_rules R ls universe (All_Node object cs) =
     optimize R ls (bm_card R universe) (All_Node object (map (remove_exclusion_rules R ls universe) cs))"
| "remove_exclusion_rules R ls universe (Match_All_Node bits) = Match_All_Node bits"

section \<open>What a schema means\<close>

fun schema_filters :: "('t, 'v, 'k) schema \<Rightarrow> ('t, 'v, 'k) filter_spec list" where
  "schema_filters (Filter_Rule object f) = [f]"
| "schema_filters (All_Rule object cs) = concat (map schema_filters cs)"

fun subschemas :: "('t, 'v, 'k) schema \<Rightarrow> ('t, 'v, 'k) schema set" where
  "subschemas (Filter_Rule object f) = {Filter_Rule object f}"
| "subschemas (All_Rule object cs) = insert (All_Rule object cs) (\<Union> (set (map subschemas cs)))"

text \<open>An object number names one rule.\<close>

definition objects_ok :: "('t, 'v, 'k) schema \<Rightarrow> bool" where
  "objects_ok s \<longleftrightarrow> (\<forall>c\<in>subschemas s. \<forall>d\<in>subschemas s. schema_object c = schema_object d \<longrightarrow> c = d)"

fun tree_nodes :: "'b rule_tree \<Rightarrow> nat list" where
  "tree_nodes (Leaf_Node n) = [n]"
| "tree_nodes (All_Node object cs) = concat (map tree_nodes cs)"
| "tree_nodes (Match_All_Node bits) = []"

lemma subschemas_self [simp]: "c \<in> subschemas c"
  by (cases c) auto

text \<open>\<open>state_of fs c t\<close>: the tree \<open>t\<close> is a state of the schema \<open>c\<close>.\<close>

definition state_of :: "('t, 'v, 'k) filter_spec list \<Rightarrow> ('t, 'v, 'k) schema list \<Rightarrow> 'b rule_tree list \<Rightarrow> bool" where
  "state_of fs cs ts \<longleftrightarrow> set (concat (map tree_nodes ts)) \<subseteq> {..<length fs}
     \<and> (\<lambda>n. fs ! n) ` set (concat (map tree_nodes ts)) = set (concat (map schema_filters cs))
     \<and> length (concat (map tree_nodes ts)) \<le> length (concat (map schema_filters cs))"

lemma state_of_extend:
  assumes "state_of fs cs ts"
  shows "state_of (fs @ gs) cs ts"
proof -
  have sub: "set (concat (map tree_nodes ts)) \<subseteq> {..<length fs}" using assms by (simp add: state_of_def)
  then have "(\<lambda>n. (fs @ gs) ! n) ` set (concat (map tree_nodes ts)) = (\<lambda>n. fs ! n) ` set (concat (map tree_nodes ts))"
    by (intro image_cong) (auto simp: nth_append)
  with assms sub show ?thesis by (auto simp: state_of_def)
qed

lemma state_of_append: "state_of fs cs ts \<Longrightarrow> state_of fs [c] [t] \<Longrightarrow> state_of fs (cs @ [c]) (ts @ [t])"
  by (auto simp: state_of_def image_Un)

lemma state_of_known:
  assumes "state_of fs cs ts" "state_of fs [c] [t]" "t \<in> set ts"
  shows "state_of fs (cs @ [c]) ts"
proof -
  have "(\<lambda>n. fs ! n) ` set (tree_nodes t) \<subseteq> (\<lambda>n. fs ! n) ` set (concat (map tree_nodes ts))"
    using assms(3) by auto
  with assms(1,2) show ?thesis by (auto simp: state_of_def)
qed

definition allocator_ok ::
  "('t, 'v, 'k) schema set \<Rightarrow> ('t, 'v, 'k, 'b) allocator \<Rightarrow> bool" where
  "allocator_ok S a \<longleftrightarrow>
     (\<forall>c\<in>S. \<forall>t. al_canonical a (schema_object c) = Some t \<longrightarrow> state_of (al_filters a) [c] [t])"

lemma allocator_ok_remember:
  assumes "allocator_ok S a" "state_of (al_filters a) [c] [t]" "c \<in> S"
    and "\<And>c d. c \<in> S \<Longrightarrow> d \<in> S \<Longrightarrow> schema_object c = schema_object d \<Longrightarrow> c = d"
  shows "allocator_ok S (remember_state c t a)"
  using assms by (auto simp: allocator_ok_def remember_state_def)

lemma remember_state_filters [simp]: "al_filters (remember_state c t a) = al_filters a"
  by (simp add: remember_state_def)

lemma allocator_ok_allocate:
  assumes "allocator_ok S a" "allocate f a = (node, a')"
  shows "allocator_ok S a'" "al_filters a' = al_filters a @ [f]" "state_of (al_filters a') [Filter_Rule object f] [Leaf_Node node]"
proof -
  have a': "node = length (al_filters a)" "a' = a\<lparr>al_filters := al_filters a @ [f]\<rparr>"
    using assms(2) by (simp_all add: allocate_def)
  from assms(1) show "allocator_ok S a'" unfolding allocator_ok_def a' by (auto intro: state_of_extend)
  show "al_filters a' = al_filters a @ [f]" by (simp add: a')
  show "state_of (al_filters a') [Filter_Rule object f] [Leaf_Node node]" by (simp add: a' state_of_def)
qed

text \<open>\<open>newState\<close> yields a state of the schema and only ever adds nodes.\<close>

abbreviation allocates ::
  "('t, 'v, 'k) schema set \<Rightarrow> ('t, 'v, 'k) schema list \<Rightarrow> ('t, 'v, 'k, 'b) allocator \<Rightarrow> ('t, 'v, 'k, 'b) allocator \<Rightarrow> bool" where
  "allocates S cs a a' \<equiv> allocator_ok S a'
     \<and> (\<exists>gs. al_filters a' = al_filters a @ gs \<and> set gs \<subseteq> set (concat (map schema_filters cs)))"

lemma new_state_ok:
  assumes objects: "\<And>c d. c \<in> S \<Longrightarrow> d \<in> S \<Longrightarrow> schema_object c = schema_object d \<Longrightarrow> c = d"
  shows "subschemas c \<subseteq> S \<Longrightarrow> allocator_ok S a \<Longrightarrow> new_state c a = (t, a') \<Longrightarrow>
      allocates S [c] a a' \<and> state_of (al_filters a') [c] [t]"
    and "\<Union> (set (map subschemas cs)) \<subseteq> S \<Longrightarrow> allocator_ok S a \<Longrightarrow> set seen \<subseteq> set children \<Longrightarrow>
      state_of (al_filters a) ds children \<Longrightarrow> new_children cs seen children a = (ts, a') \<Longrightarrow>
      allocates S cs a a' \<and> state_of (al_filters a') (ds @ cs) ts"
proof (induction c a and cs seen children a arbitrary: t a' and ts a' ds rule: new_state_new_children.induct)
  case (1 object f a)
  obtain node a1 where a1: "allocate f a = (node, a1)" by fastforce
  with 1 allocator_ok_allocate [OF 1(2) a1] show ?case by auto
next
  case (2 object cs a)
  obtain ts where ts: "new_children cs [] [] a = (ts, a')" "t = All_Node object ts"
    using 2(4) by (auto split: prod.splits)
  have none: "state_of (al_filters a) [] (take 0 ts)" by (simp add: state_of_def)
  have sub: "\<Union> (set (map subschemas cs)) \<subseteq> S" using 2(2) by simp
  have "allocates S cs a a' \<and> state_of (al_filters a') cs ts"
    using 2(1) [OF sub 2(3) subset_refl none [unfolded take_0] ts(1)] unfolding append_Nil .
  with ts(2) show ?case by (simp add: state_of_def)
next
  case (3 seen children a)
  then show ?case by auto
next
  case (4 c cs seen children a)
  obtain t a1 where step: "(case known_state c a of Some t \<Rightarrow> (t, a)
      | None \<Rightarrow> (case new_state c a of (t, a) \<Rightarrow> (t, remember_state c t a))) = (t, a1)" by fastforce
  have c: "c \<in> S" "subschemas c \<subseteq> S" and cs: "\<Union> (set (map subschemas cs)) \<subseteq> S"
    using 4(5) subschemas_self [of c] by auto
  have first: "allocates S [c] a a1 \<and> state_of (al_filters a1) [c] [t]"
  proof (cases "known_state c a")
    case None
    obtain t2 a2 where new: "new_state c a = (t2, a2)" by fastforce
    from 4(1) [OF None c(2) 4(6) new] have a2: "allocates S [c] a a2" "state_of (al_filters a2) [c] [t2]" by blast+
    have "allocator_ok S (remember_state c t2 a2)"
      by (rule allocator_ok_remember [OF a2(1) [THEN conjunct1] a2(2) c(1) objects])
    moreover have "t = t2" "a1 = remember_state c t2 a2" using None step new by auto
    ultimately show ?thesis using a2 by simp
  next
    case (Some t)
    with step 4(6) c(1) show ?thesis
      by (auto simp: known_state_def allocator_ok_def split: if_splits)
  qed
  then obtain gs where gs: "al_filters a1 = al_filters a @ gs" "set gs \<subseteq> set (schema_filters c)" by auto
  have before: "state_of (al_filters a1) ds children" using state_of_extend [OF 4(8)] gs(1) by simp
  have kept: "state_of (al_filters a1) (ds @ [c]) (children @ [t])" using state_of_append [OF before] first by simp
  have finish: "allocates S (c # cs) a a' \<and> state_of (al_filters a') (ds @ c # cs) ts"
    if "allocates S cs a1 a' \<and> state_of (al_filters a') ((ds @ [c]) @ cs) ts"
    using that gs by auto
  have run: "(if is_canonical c
      then if t \<in> set seen then new_children cs seen children a1
           else new_children cs (seen @ [t]) (children @ [t]) a1
      else new_children cs seen (children @ [t]) a1) = (ts, a')"
    using 4(9) unfolding new_children.simps step by simp
  have ok1: "allocator_ok S a1" using first by simp
  note IH = 4(2-4) [OF step [symmetric]]
  show ?case
  proof (cases "is_canonical c")
    case canonical: True
    show ?thesis
    proof (cases "t \<in> set seen")
      case True
      from True 4(7) have "t \<in> set children" by blast
      then have "state_of (al_filters a1) (ds @ [c]) children"
        by (rule state_of_known [OF before first [THEN conjunct2]])
      moreover have "new_children cs seen children a1 = (ts, a')" using run canonical True by simp
      ultimately show ?thesis by (rule finish [OF IH(1) [OF canonical True cs ok1 4(7)]])
    next
      case False
      with 4(7) have "set (seen @ [t]) \<subseteq> set (children @ [t])" by auto
      moreover have "new_children cs (seen @ [t]) (children @ [t]) a1 = (ts, a')" using run canonical False by simp
      ultimately show ?thesis by (rule finish [OF IH(2) [OF canonical False cs ok1 _ kept]])
    qed
  next
    case False
    from 4(7) have "set seen \<subseteq> set (children @ [t])" by auto
    moreover have "new_children cs seen (children @ [t]) a1 = (ts, a')" using run False by simp
    ultimately show ?thesis by (rule finish [OF IH(3) [OF False cs ok1 _ kept]])
  qed
qed

section \<open>Validation and insertion reach every filter\<close>

lemma tree_validate_None:
  "tree_validate ls c t = None \<longleftrightarrow> (\<forall>n\<in>set (tree_nodes c). leaf_validate (ls ! n) t = None)"
  "trees_validate ls cs t = None \<longleftrightarrow> (\<forall>n\<in>set (concat (map tree_nodes cs)). leaf_validate (ls ! n) t = None)"
  by (induction ls c t and ls cs t rule: tree_validate_trees_validate.induct) (auto split: option.split)

lemma tree_insert_fold:
  "tree_insert R t i c ls = foldl (\<lambda>ls n. ls[n := leaf_insert R (ls ! n) t i]) ls (tree_nodes c)"
  "trees_insert R t i cs ls = foldl (\<lambda>ls n. ls[n := leaf_insert R (ls ! n) t i]) ls (concat (map tree_nodes cs))"
  by (induction R t i c ls and R t i cs ls rule: tree_insert_trees_insert.induct) auto

lemma length_tree_insert [simp]: "length (tree_insert R t i c ls) = length ls"
proof -
  have "length (foldl (\<lambda>ls n. ls[n := leaf_insert R (ls ! n) t i]) ls ns) = length ls" for ns
    by (induction ns arbitrary: ls) auto
  then show ?thesis by (simp add: tree_insert_fold)
qed

text \<open>The leaves that occur in the tree after at most \<open>n\<close> insertions each.\<close>

definition leaves_built ::
  "'b roaring \<Rightarrow> ('t, 'v, 'k) filter_spec list \<Rightarrow> nat set \<Rightarrow> nat \<Rightarrow> ('t \<times> u32) set \<Rightarrow> ('t, 'v, 'k, 'b) leaf list \<Rightarrow> bool" where
  "leaves_built R fs A n es ls \<longleftrightarrow> length ls = length fs \<and> A \<subseteq> {..<length fs}
     \<and> (\<forall>m\<in>A. leaf_built R m (fs ! m) n es (ls ! m) \<and> leaf_items (ls ! m) \<le> 2 * n)"

lemma leaf_built_mono: "leaf_built R node f n es lf \<Longrightarrow> n \<le> n' \<Longrightarrow> leaf_built R node f n' es lf"
  by (cases f; cases lf) (auto simp: ordered_built_def)

context roaring
begin

lemma leaves_built_initial:
  "A \<subseteq> {..<length fs} \<Longrightarrow> \<forall>f\<in>set fs. spec_ok f \<Longrightarrow> leaves_built R fs A 0 {} (initial_leaves R fs)"
  by (auto simp: leaves_built_def initial_leaves_def subset_eq nth_append intro!: leaf_built_new)

lemma leaves_built_fold:
  assumes "\<And>m. m \<in> A \<union> set ns \<Longrightarrow> spec_validate (fs ! m) t = None"
  shows "leaves_built R fs A (n + j) (insert (t, i) es) ls \<Longrightarrow> leaves_built R fs (set ns - A) n es ls \<Longrightarrow>
    leaves_built R fs (A \<union> set ns) (n + j + length ns) (insert (t, i) es)
      (foldl (\<lambda>ls n. ls[n := leaf_insert R (ls ! n) t i]) ls ns)"
  using assms
proof (induction ns arbitrary: A j ls)
  case Nil
  then show ?case by simp
next
  case (Cons m ns)
  let ?ls = "ls[m := leaf_insert R (ls ! m) t i]"
  have m: "m < length ls" "spec_validate (fs ! m) t = None"
    using Cons.prems by (auto simp: leaves_built_def)
  have "leaf_built R m (fs ! m) (n + Suc j) (insert (t, i) es) (leaf_insert R (ls ! m) t i)
      \<and> leaf_items (leaf_insert R (ls ! m) t i) \<le> 2 * (n + Suc j)"
  proof (cases "m \<in> A")
    case True
    then have "leaf_built R m (fs ! m) (n + j) (insert (t, i) es) (ls ! m)" "leaf_items (ls ! m) \<le> 2 * (n + j)"
      using Cons.prems(1) by (simp_all add: leaves_built_def)
    from leaf_built_insert [OF this(1) m(2), of i] leaf_items_insert [OF this(1) m(2), of i] this(2) show ?thesis by simp
  next
    case False
    then have "leaf_built R m (fs ! m) n es (ls ! m)" "leaf_items (ls ! m) \<le> 2 * n"
      using Cons.prems(2) by (simp_all add: leaves_built_def)
    from leaf_built_mono [OF leaf_built_insert [OF this(1) m(2), of i]] leaf_items_insert [OF this(1) m(2), of i] this(2)
    show ?thesis by simp
  qed
  with Cons.prems(1) m(1) have "leaves_built R fs (insert m A) (n + Suc j) (insert (t, i) es) ?ls"
    by (fastforce simp: leaves_built_def nth_list_update intro: leaf_built_mono [where n = "n + j"])
  moreover have "leaves_built R fs (set ns - insert m A) n es ?ls"
    using Cons.prems(2) by (auto simp: leaves_built_def nth_list_update)
  ultimately have "leaves_built R fs (insert m A \<union> set ns) (n + Suc j + length ns) (insert (t, i) es)
      (foldl (\<lambda>ls n. ls[n := leaf_insert R (ls ! n) t i]) ?ls ns)"
    using Cons.prems(3) by (intro Cons.IH) auto
  then show ?case by simp
qed

lemma leaves_built_insert:
  assumes "leaves_built R fs (set (tree_nodes c)) n es ls" "tree_validate ls c t = None"
  shows "leaves_built R fs (set (tree_nodes c)) (n + length (tree_nodes c)) (insert (t, i) es) (tree_insert R t i c ls)"
proof -
  have "spec_validate (fs ! m) t = None" if "m \<in> set (tree_nodes c)" for m
  proof -
    have "leaf_built R m (fs ! m) n es (ls ! m)" using assms(1) that by (simp add: leaves_built_def)
    from leaf_validate_built [OF this, of t] assms(2) that show ?thesis by (simp add: tree_validate_None)
  qed
  moreover have "leaves_built R fs {} (n + 0) (insert (t, i) es) ls" using assms(1) by (simp add: leaves_built_def)
  ultimately show ?thesis
    using leaves_built_fold [of "{}" "tree_nodes c" fs t n 0 i es ls] assms(1) by (simp add: tree_insert_fold)
qed

end

section \<open>What optimization preserves\<close>

text \<open>\<open>d\<close> gives the result of every leaf for the query at hand, \<open>U\<close> is the set of all IDs.\<close>

fun tree_den :: "'b roaring \<Rightarrow> (nat \<Rightarrow> u32 set) \<Rightarrow> u32 set \<Rightarrow> 'b rule_tree \<Rightarrow> u32 set" where
  "tree_den R d U (Leaf_Node n) = d n"
| "tree_den R d U (All_Node object cs) = U \<inter> (\<Inter>c\<in>set cs. tree_den R d U c)"
| "tree_den R d U (Match_All_Node bits) = bm_ids R bits"

text \<open>A tree whose match-all rules hold every ID.\<close>

fun full_matches :: "'b roaring \<Rightarrow> u32 set \<Rightarrow> 'b rule_tree \<Rightarrow> bool" where
  "full_matches R U (Leaf_Node n) = True"
| "full_matches R U (All_Node object cs) = (\<forall>c\<in>set cs. full_matches R U c)"
| "full_matches R U (Match_All_Node bits) = (bm_ids R bits = U)"

text \<open>An optimized tree: a filter, a match-all rule, or an \<open>All\<close> of at least two filters.\<close>

fun flat_tree :: "'b rule_tree \<Rightarrow> bool" where
  "flat_tree (Leaf_Node n) = True"
| "flat_tree (All_Node object cs) = (2 \<le> length cs \<and> (\<forall>c\<in>set cs. \<exists>n. c = Leaf_Node n))"
| "flat_tree (Match_All_Node bits) = True"

definition leaves_optimized :: "'b roaring \<Rightarrow> ('t, 'v, 'k, 'b) leaf list \<Rightarrow> (nat \<Rightarrow> u32 set) \<Rightarrow> u32 set \<Rightarrow> nat set \<Rightarrow> bool" where
  "leaves_optimized R ls d U A \<longleftrightarrow> (\<forall>n\<in>A. d n \<subseteq> U
     \<and> (\<forall>bits. leaf_optimize R (ls ! n) (of_nat (card U)) = Some bits \<longrightarrow> bm_ids R bits = U \<and> d n = U))"

lemma tree_den_subset:
  "\<forall>n\<in>set (tree_nodes c). d n \<subseteq> U \<Longrightarrow> full_matches R U c \<Longrightarrow> tree_den R d U c \<subseteq> U"
  by (induction c) auto

lemma append_child_set: "set (append_child ls cs c) = insert c (set cs)"
  by (auto simp: append_child_def)

lemma append_children_set: "set (foldl (append_child ls) cs xs) = set cs \<union> set xs"
  by (induction xs arbitrary: cs) (auto simp: append_child_set)

text \<open>The leaves that an optimized child contributes.\<close>

fun contributed :: "'b rule_tree \<Rightarrow> 'b rule_tree set" where
  "contributed (Leaf_Node n) = {Leaf_Node n}"
| "contributed (All_Node object cs) = set cs"
| "contributed (Match_All_Node bits) = {}"

lemma append_optimized_spec:
  assumes "append_optimized ls cs children universal = (children', universal')"
  shows "set children' = set children \<union> \<Union> (contributed ` set cs)"
    and "universal' = None \<longrightarrow> universal = None \<and> (\<forall>c\<in>set cs. \<nexists>b. c = Match_All_Node b)"
    and "\<And>b. universal' = Some b \<Longrightarrow> universal = Some b \<or> Match_All_Node b \<in> set cs"
  using assms
proof (induction ls cs children universal rule: append_optimized.induct)
  case (3 ls object nested cs children universal)
  {
    case 1
    with 3 show ?case by (auto simp: append_children_set)
  next
    case 2
    with 3 show ?case by auto
  next
    case (3 b)
    with "3.IH" show ?case by auto
  }
next
  case (4 ls n cs children universal)
  {
    case 1
    with 4 show ?case by (auto simp: append_child_set)
  next
    case 2
    with 4 show ?case by auto
  next
    case (3 b)
    with "4.IH" show ?case by auto
  }
qed auto

lemma contributed_den:
  assumes "full_matches R U c"
  shows "U \<inter> tree_den R d U c = U \<inter> (\<Inter>x\<in>contributed c. tree_den R d U x)"
  using assms by (cases c) auto

lemma contributed_flat:
  assumes "flat_tree c" "x \<in> contributed c"
  shows "\<exists>n. x = Leaf_Node n" "set (tree_nodes x) \<subseteq> set (tree_nodes c)"
  using assms by (cases c; auto)+

context roaring
begin

lemma optimize_spec:
  assumes "leaves_optimized R ls d U (set (tree_nodes c))" "full_matches R U c"
    and rules: "rules = of_nat (card U)" "U = {i. ucast i < rules}"
  shows "tree_den R d U (optimize R ls rules c) = tree_den R d U c \<and> full_matches R U (optimize R ls rules c)
    \<and> flat_tree (optimize R ls rules c) \<and> set (tree_nodes (optimize R ls rules c)) \<subseteq> set (tree_nodes c)"
  using assms(1,2)
proof (induction c)
  case (Leaf_Node n)
  then show ?case by (auto simp: leaves_optimized_def rules(1) split: option.split)
next
  case (Match_All_Node bits)
  then show ?case by simp
next
  case (All_Node object cs)
  show ?case
  proof (cases "cs = []")
    case True
    then show ?thesis by (auto simp: ids_add_range ids_new rules(2))
  next
    case False
    let ?os = "map (optimize R ls rules) cs"
    have each: "tree_den R d U (optimize R ls rules c) = tree_den R d U c \<and> full_matches R U (optimize R ls rules c)
        \<and> flat_tree (optimize R ls rules c) \<and> set (tree_nodes (optimize R ls rules c)) \<subseteq> set (tree_nodes c)"
      if "c \<in> set cs" for c
      using All_Node that by (auto simp: leaves_optimized_def)
    obtain children universal where app: "append_optimized ls ?os [] None = (children, universal)" by fastforce
    note spec = append_optimized_spec [OF app]
    have set_children: "set children = \<Union> (contributed ` set ?os)" using spec(1) by simp
    have leaf: "\<exists>n. x = Leaf_Node n \<and> n \<in> set (tree_nodes (All_Node object cs))" if x: "x \<in> set children" for x
    proof -
      obtain c where c: "c \<in> set cs" "x \<in> contributed (optimize R ls rules c)" using x set_children by auto
      with each [OF c(1)] contributed_flat [of "optimize R ls rules c" x] show ?thesis by fastforce
    qed
    have "U \<inter> tree_den R d U c = U \<inter> (\<Inter>x\<in>contributed (optimize R ls rules c). tree_den R d U x)" if "c \<in> set cs" for c
      using each [OF that] contributed_den [of R U "optimize R ls rules c" d] by simp
    then have den: "U \<inter> (\<Inter>x\<in>set children. tree_den R d U x) = U \<inter> (\<Inter>c\<in>set cs. tree_den R d U c)"
      unfolding set_children by auto
    have opt: "optimize R ls rules (All_Node object cs) = (if children = [] then Match_All_Node (the universal)
        else if length children = 1 then hd children else All_Node object children)"
      using False app by simp
    show ?thesis
    proof (cases children)
      case Nil
      have "universal \<noteq> None"
      proof
        assume none: "universal = None"
        obtain c where c: "c \<in> set cs" using False by (cases cs) auto
        from spec(2) none c have "optimize R ls rules c \<noteq> Match_All_Node b" for b by auto
        with each [OF c] have "contributed (optimize R ls rules c) \<noteq> {}" by (cases "optimize R ls rules c") auto
        with set_children Nil c show False by auto
      qed
      then obtain b where b: "universal = Some b" by auto
      with spec(3) obtain c where "c \<in> set cs" "optimize R ls rules c = Match_All_Node b" by auto
      with each [of c] have "bm_ids R b = U" by (metis full_matches.simps(3))
      with opt Nil b den show ?thesis by simp
    next
      case (Cons x xs)
      show ?thesis
      proof (cases xs)
        case Nil
        obtain n where n: "x = Leaf_Node n" "n \<in> set (tree_nodes (All_Node object cs))" using leaf [of x] Cons by auto
        then have "d n \<subseteq> U" using All_Node(2) unfolding leaves_optimized_def by blast
        with opt Cons Nil den n show ?thesis by auto
      next
        case more: (Cons y ys)
        have "set (concat (map tree_nodes children)) \<subseteq> set (tree_nodes (All_Node object cs))"
          using leaf by fastforce
        moreover have "full_matches R U x" if "x \<in> set children" for x using leaf [OF that] by auto
        moreover have "2 \<le> length children" using Cons more by simp
        moreover have "\<forall>x\<in>set children. \<exists>n. x = Leaf_Node n" using leaf by blast
        moreover have "optimize R ls rules (All_Node object cs) = All_Node object children"
          using opt Cons more by (simp del: optimize.simps)
        ultimately show ?thesis using den by (simp del: optimize.simps)
      qed
    qed
  qed
qed

text \<open>
  Removing the exclusions: in the positive tree each of them stands for every ID, whether it has
  stored values or not.
\<close>

definition without_exclusions :: "('t, 'v, 'k, 'b) leaf list \<Rightarrow> (nat \<Rightarrow> u32 set) \<Rightarrow> u32 set \<Rightarrow> nat \<Rightarrow> u32 set" where
  "without_exclusions ls d U n = (if is_exclusion (ls ! n) then U else d n)"

lemma remove_exclusion_rules_spec:
  assumes "leaves_optimized R ls d U {n\<in>set (tree_nodes c). \<not> is_exclusion (ls ! n)}" "full_matches R U c"
    and universe: "bm_ids R universe = U" "U = {i. ucast i < (of_nat (card U) :: u64)}"
  shows "tree_den R d U (remove_exclusion_rules R ls universe c) = tree_den R (without_exclusions ls d U) U c
    \<and> full_matches R U (remove_exclusion_rules R ls universe c)
    \<and> set (tree_nodes (remove_exclusion_rules R ls universe c)) \<subseteq> {n\<in>set (tree_nodes c). \<not> is_exclusion (ls ! n)}
    \<and> (flat_tree c \<longrightarrow> flat_tree (remove_exclusion_rules R ls universe c))"
  using assms(1,2)
proof (induction c)
  case (All_Node object cs)
  let ?rs = "map (remove_exclusion_rules R ls universe) cs"
  have each: "tree_den R d U (remove_exclusion_rules R ls universe c) = tree_den R (without_exclusions ls d U) U c
      \<and> full_matches R U (remove_exclusion_rules R ls universe c)
      \<and> set (tree_nodes (remove_exclusion_rules R ls universe c)) \<subseteq> {n\<in>set (tree_nodes c). \<not> is_exclusion (ls ! n)}"
    if c: "c \<in> set cs" for c
  proof -
    have "leaves_optimized R ls d U {n\<in>set (tree_nodes c). \<not> is_exclusion (ls ! n)}"
      using All_Node.prems(1) c by (fastforce simp: leaves_optimized_def)
    moreover have "full_matches R U c" using All_Node.prems(2) c by simp
    ultimately show ?thesis using All_Node.IH [OF c] by blast
  qed
  then have nodes: "set (tree_nodes (All_Node object ?rs)) \<subseteq> {n\<in>set (tree_nodes (All_Node object cs)). \<not> is_exclusion (ls ! n)}"
    by fastforce
  have opt: "leaves_optimized R ls d U (set (tree_nodes (All_Node object ?rs)))"
    using All_Node.prems(1) nodes unfolding leaves_optimized_def by blast
  have full: "full_matches R U (All_Node object ?rs)" using each by simp
  have den: "tree_den R d U (All_Node object ?rs) = tree_den R (without_exclusions ls d U) U (All_Node object cs)"
    using each by simp
  have card: "bm_card R universe = of_nat (card U)" "U = {i. ucast i < bm_card R universe}"
    using card_eq [of universe] universe by simp_all
  note spec = optimize_spec [OF opt full card]
  from spec have "set (tree_nodes (optimize R ls (bm_card R universe) (All_Node object ?rs)))
      \<subseteq> {n\<in>set (tree_nodes (All_Node object cs)). \<not> is_exclusion (ls ! n)}"
    using nodes by (blast intro: order_trans)
  with spec den show ?case unfolding remove_exclusion_rules.simps by presburger
qed (use universe in \<open>auto simp: without_exclusions_def\<close>)

lemma tree_den_all:
  assumes "\<forall>n\<in>set (tree_nodes c). d n \<subseteq> U" "full_matches R U c"
  shows "tree_den R d U c = U \<inter> (\<Inter>n\<in>set (tree_nodes c). d n)"
proof -
  have "x \<in> tree_den R d U c \<longleftrightarrow> (\<forall>n\<in>set (tree_nodes c). x \<in> d n)" if "x \<in> U" for x
    using assms(2) that by (induction c) auto
  with tree_den_subset [OF assms] show ?thesis by blast
qed

lemma collect_exclusion_rules_set:
  "set (collect_exclusion_rules ls c) = {n\<in>set (tree_nodes c). leaf_has_exclusions (ls ! n)}"
  by (induction c) auto

end

end
