(* ===== verification/Tree_Shape.thy ===== *)
theory Tree_Shape
  imports Rule_Tree
begin

text \<open>
  The shape of an optimized tree: how many filters it keeps, and that a canonical filter is a child of
  its root only once.
\<close>

section \<open>How many filters\<close>

abbreviation nodes_of :: "'b rule_tree list \<Rightarrow> nat list" where
  "nodes_of cs \<equiv> concat (map tree_nodes cs)"

lemma append_child_nodes: "length (nodes_of (append_child ls cs c)) \<le> length (nodes_of cs) + length (tree_nodes c)"
  by (simp add: append_child_def)

lemma append_children_nodes: "length (nodes_of (foldl (append_child ls) cs xs)) \<le> length (nodes_of cs) + length (nodes_of xs)"
proof (induction xs arbitrary: cs)
  case (Cons x xs)
  from Cons.IH [of "append_child ls cs x"] append_child_nodes [of ls cs x] show ?case by simp
qed simp

lemma append_optimized_nodes:
  "append_optimized ls cs children universal = (children', universal') \<Longrightarrow>
    length (nodes_of children') \<le> length (nodes_of children) + length (nodes_of cs)"
proof (induction ls cs children universal rule: append_optimized.induct)
  case (3 ls object nested cs children universal)
  have "length (nodes_of children') \<le> length (nodes_of (foldl (append_child ls) children nested)) + length (nodes_of cs)"
    using 3 by simp
  with append_children_nodes [of ls children nested] show ?case by simp
next
  case (4 ls n cs children universal)
  have "length (nodes_of children') \<le> length (nodes_of (append_child ls children (Leaf_Node n))) + length (nodes_of cs)"
    using 4 by simp
  with append_child_nodes [of ls children "Leaf_Node n"] show ?case by simp
qed auto

lemma nodes_hd: "length (tree_nodes (hd cs)) \<le> length (nodes_of cs)" if "cs \<noteq> []"
  using that by (cases cs) simp_all

lemma nodes_map: "(\<And>c. c \<in> set cs \<Longrightarrow> length (tree_nodes (f c)) \<le> length (tree_nodes c)) \<Longrightarrow>
    length (nodes_of (map f cs)) \<le> length (nodes_of cs)"
  by (induction cs) (simp_all add: add_mono)

lemma optimize_nodes: "length (tree_nodes (optimize R ls rules c)) \<le> length (tree_nodes c)"
proof (induction c)
  case (All_Node object cs)
  obtain children universal where run: "append_optimized ls (map (optimize R ls rules) cs) [] None = (children, universal)" by fastforce
  have "length (nodes_of children) \<le> length (nodes_of (map (optimize R ls rules) cs))"
    using append_optimized_nodes [OF run] by simp
  also have "\<dots> \<le> length (nodes_of cs)" by (rule nodes_map) (rule All_Node.IH)
  finally show ?case using run nodes_hd [of children] by auto
qed (auto split: option.split)

lemma remove_exclusion_nodes: "length (tree_nodes (remove_exclusion_rules R ls universe c)) \<le> length (tree_nodes c)"
proof (induction c)
  case (All_Node object cs)
  have "length (tree_nodes (All_Node object (map (remove_exclusion_rules R ls universe) cs))) \<le> length (tree_nodes (All_Node object cs))"
    using nodes_map [of cs "remove_exclusion_rules R ls universe"] All_Node.IH by simp
  with optimize_nodes show ?case unfolding remove_exclusion_rules.simps using order_trans by blast
qed auto

lemma collect_exclusion_length: "length (collect_exclusion_rules ls c) \<le> length (tree_nodes c)"
proof (induction c)
  case (All_Node object cs)
  then have "length (concat (map (collect_exclusion_rules ls) cs)) \<le> length (nodes_of cs)"
    by (induction cs) (simp_all add: add_mono)
  then show ?case by simp
qed auto

section \<open>Canonical children\<close>

definition canonical_once :: "('t, 'v, 'k, 'b) leaf list \<Rightarrow> 'b rule_tree list \<Rightarrow> bool" where
  "canonical_once ls cs \<longleftrightarrow> distinct (filter (canonical_node ls) cs)"

lemma canonical_once_append: "canonical_once ls cs \<Longrightarrow> canonical_once ls (append_child ls cs c)"
  by (auto simp: canonical_once_def append_child_def)

lemma canonical_once_foldl: "canonical_once ls cs \<Longrightarrow> canonical_once ls (foldl (append_child ls) cs xs)"
  by (induction xs arbitrary: cs) (simp_all add: canonical_once_append)

lemma canonical_once_optimized:
  "append_optimized ls cs children universal = (children', universal') \<Longrightarrow> canonical_once ls children \<Longrightarrow> canonical_once ls children'"
  by (induction ls cs children universal rule: append_optimized.induct)
    (auto simp: canonical_once_append canonical_once_foldl)

text \<open>The children of an optimized \<open>All\<close>.\<close>

fun root_once :: "('t, 'v, 'k, 'b) leaf list \<Rightarrow> 'b rule_tree \<Rightarrow> bool" where
  "root_once ls (All_Node object cs) = canonical_once ls cs"
| "root_once ls _ = True"

lemma optimize_once:
  assumes "flat_tree (optimize R ls rules c)" and
    flat: "\<And>object cs d. c = All_Node object cs \<Longrightarrow> d \<in> set cs \<Longrightarrow> flat_tree (optimize R ls rules d)"
  shows "root_once ls (optimize R ls rules c)"
proof (cases c)
  case (Leaf_Node n)
  then show ?thesis by (simp split: option.split)
next
  case (Match_All_Node b)
  then show ?thesis by simp
next
  case (All_Node object cs)
  obtain children universal where run: "append_optimized ls (map (optimize R ls rules) cs) [] None = (children, universal)" by fastforce
  have once: "canonical_once ls children" by (rule canonical_once_optimized [OF run]) (simp add: canonical_once_def)
  have "root_once ls (hd children)" if one: "length children = 1"
  proof -
    obtain c where c: "children = [c]" using one by (auto simp: length_Suc_conv)
    have "c \<in> (\<Union>d\<in>set (map (optimize R ls rules) cs). contributed d)"
      using append_optimized_spec [OF run] c by auto
    then obtain d where "d \<in> set cs" "c \<in> contributed (optimize R ls rules d)" by auto
    with contributed_flat [of "optimize R ls rules d" c] flat [OF All_Node] have "\<exists>n. c = Leaf_Node n" by auto
    with c show ?thesis by auto
  qed
  with once run show ?thesis by (simp add: All_Node)
qed

lemma canonical_once_nth:
  assumes "canonical_once ls cs" "i < length cs" "j < length cs" "canonical_node ls (cs ! i)" "cs ! i = cs ! j"
  shows "i = j"
  using assms unfolding canonical_once_def
proof (induction cs arbitrary: i j)
  case (Cons c cs)
  have notin: "c \<notin> set cs" if "canonical_node ls c" using that Cons.prems(1) by auto
  have "canonical_once ls cs" using Cons.prems(1) by (auto simp: canonical_once_def split: if_splits)
  then show ?case
    using Cons.IH [of "i - 1" "j - 1"] Cons.prems(2-) notin
    by (cases i; cases j) (auto simp: canonical_once_def)
qed simp

end
