(* ===== verification/Bitmap_Intern.thy ===== *)
theory Bitmap_Intern
  imports Rule_Tree
begin

text \<open>
  The bitmap interner of a build (\<^verbatim>\<open>bitmap_intern.go\<close>): equal postings are replaced by one bitmap, which
  gets a number. A number never stands for two contents, and interning changes no result.
  Fingerprints only narrow the search: nothing is assumed of the checksum, so two different bitmaps
  may collide, and then the list of collisions is searched by content.
\<close>

section \<open>Threading a state that may fail\<close>

fun thread :: "('a \<Rightarrow> 's \<Rightarrow> ('b \<times> 's) option) \<Rightarrow> 'a list \<Rightarrow> 's \<Rightarrow> ('b list \<times> 's) option" where
  "thread f [] s = Some ([], s)"
| "thread f (x # xs) s =
     (case f x s of
        None \<Rightarrow> None
      | Some (y, s) \<Rightarrow> (case thread f xs s of None \<Rightarrow> None | Some (ys, s) \<Rightarrow> Some (y # ys, s)))"

text \<open>
  A step that keeps an invariant, moves the state up in a preorder and relates its argument to its
  result lifts to lists.
\<close>

definition step_ok ::
  "('s \<Rightarrow> bool) \<Rightarrow> ('s \<Rightarrow> 's \<Rightarrow> bool) \<Rightarrow> ('a \<Rightarrow> 'b \<Rightarrow> 's \<Rightarrow> bool) \<Rightarrow> 'a set \<Rightarrow> ('a \<Rightarrow> 's \<Rightarrow> ('b \<times> 's) option) \<Rightarrow> bool" where
  "step_ok I le Q A f \<longleftrightarrow>
     (\<forall>x\<in>A. \<forall>s y s'. I s \<longrightarrow> f x s = Some (y, s') \<longrightarrow> I s' \<and> le s s' \<and> Q x y s')"

lemma step_okD:
  "step_ok I le Q A f \<Longrightarrow> x \<in> A \<Longrightarrow> I s \<Longrightarrow> f x s = Some (y, s') \<Longrightarrow> I s' \<and> le s s' \<and> Q x y s'"
  unfolding step_ok_def by blast

lemma step_ok_subset: "step_ok I le Q A f \<Longrightarrow> B \<subseteq> A \<Longrightarrow> step_ok I le Q B f"
  unfolding step_ok_def by blast

lemma thread_ok:
  assumes "step_ok I le Q (set xs) f" "I s" "thread f xs s = Some (ys, s')"
    and le: "reflp le" "transp le" and mono: "\<And>x y s s'. Q x y s \<Longrightarrow> le s s' \<Longrightarrow> Q x y s'"
  shows "I s' \<and> le s s' \<and> list_all2 (\<lambda>x y. Q x y s') xs ys"
  using assms(1-3)
proof (induction xs arbitrary: s ys)
  case Nil
  then show ?case using reflpD [OF le(1)] by simp
next
  case (Cons x xs)
  obtain y s1 zs where f: "f x s = Some (y, s1)" and rest: "thread f xs s1 = Some (zs, s')" and ys: "ys = y # zs"
    using Cons.prems(3) by (auto split: option.splits)
  have "I s1 \<and> le s s1 \<and> Q x y s1" by (rule step_okD [OF Cons.prems(1) _ Cons.prems(2) f]) simp
  then have 1: "I s1" "le s s1" "Q x y s1" by blast+
  have "step_ok I le Q (set xs) f" by (rule step_ok_subset [OF Cons.prems(1)]) auto
  from Cons.IH [OF this 1(1) rest] have 2: "I s'" "le s1 s'" "list_all2 (\<lambda>x y. Q x y s') xs zs" by blast+
  from transpD [OF le(2) 1(2) 2(2)] 2(1,3) mono [OF 1(3) 2(2)] show ?case unfolding ys list_all2_Cons by blast
qed

text \<open>A step within a budget does not fail.\<close>

lemma thread_total:
  assumes "\<And>x s. x \<in> set xs \<Longrightarrow> used s + cost x \<le> (limit :: nat) \<Longrightarrow> \<exists>y s'. f x s = Some (y, s') \<and> used s' \<le> used s + cost x"
  shows "used s + (\<Sum>x\<leftarrow>xs. cost x) \<le> limit \<Longrightarrow> \<exists>ys s'. thread f xs s = Some (ys, s') \<and> used s' \<le> used s + (\<Sum>x\<leftarrow>xs. cost x)"
  using assms
proof (induction xs arbitrary: s)
  case (Cons x xs)
  obtain y s1 where f: "f x s = Some (y, s1)" "used s1 \<le> used s + cost x"
    using Cons.prems(1) Cons.prems(2) [of x s] by auto
  have "used s1 + (\<Sum>x\<leftarrow>xs. cost x) \<le> limit" using f(2) Cons.prems(1) by simp
  from Cons.IH [OF this Cons.prems(2)] obtain ys s' where "thread f xs s1 = Some (ys, s')"
    and "used s' \<le> used s1 + (\<Sum>x\<leftarrow>xs. cost x)" by auto
  with f show ?case by simp
qed simp

section \<open>The interner\<close>

type_synonym fingerprint = "u64 \<times> u64"

record 'b interner =
  in_canonical :: "fingerprint \<rightharpoonup> 'b \<times> u32"
  in_collisions :: "fingerprint \<Rightarrow> ('b \<times> u32) list"
  in_next :: u32

definition new_interner :: "'b interner" where
  "new_interner = \<lparr>in_canonical = Map.empty, in_collisions = (\<lambda>_. []), in_next = 1\<rparr>"

text \<open>\<open>None\<close> is the panic when the numbers are used up.\<close>

definition allocate_source :: "'b interner \<Rightarrow> (u32 \<times> 'b interner) option" where
  "allocate_source I = (if in_next I = 0 then None else Some (in_next I, I\<lparr>in_next := in_next I + 1\<rparr>))"

definition intern_fingerprint :: "'b roaring \<Rightarrow> 'b \<Rightarrow> fingerprint \<Rightarrow> 'b interner \<Rightarrow> (('b \<times> u32) \<times> 'b interner) option" where
  "intern_fingerprint R bits fp I =
     (case in_canonical I fp of
        None \<Rightarrow>
          (case allocate_source I of
             None \<Rightarrow> None
           | Some (i, I) \<Rightarrow> Some ((bits, i), I\<lparr>in_canonical := (in_canonical I)(fp \<mapsto> (bits, i))\<rparr>))
      | Some (canonical, i) \<Rightarrow>
          (if bm_equals R canonical bits then Some ((canonical, i), I)
           else case find (\<lambda>(collision, _). bm_equals R collision bits) (in_collisions I fp) of
                  Some (collision, i) \<Rightarrow> Some ((collision, i), I)
                | None \<Rightarrow>
                    (case allocate_source I of
                       None \<Rightarrow> None
                     | Some (i, I) \<Rightarrow>
                         Some ((bits, i), I\<lparr>in_collisions := (in_collisions I)(fp := in_collisions I fp @ [(bits, i)])\<rparr>))))"

text \<open>\<open>internSource\<close>: the bitmap to use from now on and its number.\<close>

definition intern_source :: "'b roaring \<Rightarrow> 'b \<Rightarrow> 'b interner \<Rightarrow> (('b \<times> u32) \<times> 'b interner) option" where
  "intern_source R bits I = intern_fingerprint R bits (bm_checksum R bits, bm_card R bits) I"

section \<open>Its invariant\<close>

definition in_entries :: "'b interner \<Rightarrow> ('b \<times> u32) set" where
  "in_entries I = ran (in_canonical I) \<union> (\<Union>fp. set (in_collisions I fp))"

definition interner_ok :: "'b interner \<Rightarrow> bool" where
  "interner_ok I \<longleftrightarrow>
     (\<forall>(b, i)\<in>in_entries I. i \<noteq> 0 \<and> (in_next I \<noteq> 0 \<longrightarrow> i < in_next I))
     \<and> (\<forall>(b, i)\<in>in_entries I. \<forall>(c, j)\<in>in_entries I. i = j \<longrightarrow> b = c)"

definition in_le :: "'b interner \<Rightarrow> 'b interner \<Rightarrow> bool" where
  "in_le I J \<longleftrightarrow> in_entries I \<subseteq> in_entries J"

definition in_used :: "'b interner \<Rightarrow> nat" where
  "in_used I = (if in_next I = 0 then 2 ^ 32 - 1 else unat (in_next I) - 1)"

lemma interner_ok_new: "interner_ok new_interner"
  by (simp add: interner_ok_def new_interner_def in_entries_def)

lemma in_used_new: "in_used new_interner = 0"
  by (simp add: in_used_def new_interner_def)

lemma in_le_order: "reflp in_le" "transp in_le"
  by (auto simp: in_le_def intro: reflpI transpI)

text \<open>One number, one bitmap.\<close>

lemma interner_unique:
  "interner_ok I \<Longrightarrow> (b, i) \<in> in_entries I \<Longrightarrow> (c, i) \<in> in_entries I \<Longrightarrow> b = c"
  unfolding interner_ok_def by fast

lemma u32_succ_cases: "(x :: u32) + 1 = 0 \<or> unat (x + 1) = Suc (unat x)"
  by (metis add.commute unat_word_ariths(1) unatSuc)

lemma allocate_used:
  assumes "allocate_source I = Some (i, I1)" "in_next J = in_next I1"
  shows "in_used J = Suc (in_used I)"
proof -
  have i: "in_next I \<noteq> 0" "in_next J = in_next I + 1"
    using assms by (auto simp: allocate_source_def split: if_splits)
  show ?thesis
  proof (cases "in_next I + 1 = 0")
    case True
    then have "in_next I = - 1" by (simp add: eq_neg_iff_add_eq_0)
    then have "unat (in_next I) = 2 ^ 32 - 1" by (simp add: unsigned_minus_1_eq_mask mask_eq_exp_minus_1)
    with True i show ?thesis by (simp add: in_used_def)
  next
    case False
    then have "unat (in_next I + 1) = Suc (unat (in_next I))" using u32_succ_cases [of "in_next I"] by simp
    moreover have "unat (in_next I) \<noteq> 0" using i(1) by (simp add: unat_eq_zero)
    ultimately show ?thesis using False i by (simp add: in_used_def)
  qed
qed

lemma interner_ok_add:
  assumes "interner_ok I" "allocate_source I = Some (i, I1)" "in_entries J = insert (bits, i) (in_entries I)" "in_next J = in_next I1"
  shows "interner_ok J \<and> i \<noteq> 0"
proof -
  have i: "i = in_next I" "in_next I \<noteq> 0" "in_next J = in_next I + 1"
    using assms(2,4) by (auto simp: allocate_source_def split: if_splits)
  have old: "j \<noteq> 0 \<and> j < i" if "(c, j) \<in> in_entries I" for c j
    using assms(1) that i by (auto simp: interner_ok_def)
  have "i < in_next I + 1 \<or> in_next I + 1 = 0"
    using u32_succ_cases [of "in_next I"] i(1) by (auto simp: word_less_nat_alt)
  with old i have "j < in_next I + 1 \<or> in_next I + 1 = 0" if "(c, j) \<in> in_entries I" for c j
    using that by (meson order_less_trans)
  with assms(1,3) old i \<open>i < in_next I + 1 \<or> in_next I + 1 = 0\<close> show ?thesis
    by (auto simp: interner_ok_def)
qed

text \<open>At most one number is used up, and none is missing while there are some left.\<close>

lemma intern_source_used:
  assumes "intern_source R bits I = Some (r, J)"
  shows "in_used J \<le> Suc (in_used I)"
  using assms
  by (auto simp: intern_source_def intern_fingerprint_def dest!: allocate_used [where J = J] split: option.splits if_splits)

lemma intern_source_total:
  assumes "in_used I + 1 \<le> 2 ^ 32 - 1"
  shows "\<exists>r J. intern_source R bits I = Some (r, J)"
proof -
  have "in_next I \<noteq> 0" using assms by (auto simp: in_used_def)
  then have "\<exists>r. allocate_source I = Some r" by (simp add: allocate_source_def)
  then show ?thesis by (auto simp: intern_source_def intern_fingerprint_def split: option.split)
qed

lemma collisions_update:
  "(\<Union>f. set ((m(fp := m fp @ [e])) f)) = insert e (\<Union>f. set (m f))" for m :: "fingerprint \<Rightarrow> 'e list"
  by (auto simp: fun_upd_def split: if_splits)

context roaring
begin

text \<open>What a bitmap and its number are after interning.\<close>

definition interned :: "'b \<Rightarrow> 'b \<times> u32 \<Rightarrow> 'b interner \<Rightarrow> bool" where
  "interned bits r I \<longleftrightarrow> r \<in> in_entries I \<and> bm_ids R (fst r) = bm_ids R bits \<and> snd r \<noteq> 0"

lemma intern_source_spec:
  assumes "interner_ok I" "intern_source R bits I = Some (r, I')"
  shows "interner_ok I' \<and> in_le I I' \<and> interned bits r I'"
proof -
  let ?fp = "(bm_checksum R bits, bm_card R bits)"
  show ?thesis
  proof (cases "in_canonical I ?fp")
    case None
    then obtain i I1 where a: "allocate_source I = Some (i, I1)" and r: "r = (bits, i)"
      and I': "I' = I1\<lparr>in_canonical := (in_canonical I1)(?fp \<mapsto> (bits, i))\<rparr>"
      using assms(2) by (auto simp: intern_source_def intern_fingerprint_def split: option.splits)
    have "in_canonical I1 = in_canonical I" "in_collisions I1 = in_collisions I"
      using a by (auto simp: allocate_source_def split: if_splits)
    with None have "in_entries I' = insert (bits, i) (in_entries I)"
      by (simp add: in_entries_def I' ran_map_upd)
    with interner_ok_add [OF assms(1) a this] show ?thesis by (simp add: r I' in_le_def interned_def subset_insertI)
  next
    case (Some entry)
    obtain c j where entry: "entry = (c, j)" by (cases entry)
    have mem: "(c, j) \<in> in_entries I" using Some entry by (auto simp: in_entries_def intro: ranI)
    show ?thesis
    proof (cases "bm_equals R c bits")
      case True
      with Some entry assms have "r = (c, j)" "I' = I" by (auto simp: intern_source_def intern_fingerprint_def)
      with True mem assms(1) show ?thesis by (auto simp: interned_def equals_iff in_le_def interner_ok_def)
    next
      case False
      show ?thesis
      proof (cases "find (\<lambda>(c, _). bm_equals R c bits) (in_collisions I ?fp)")
        case find: None
        then obtain i I1 where a: "allocate_source I = Some (i, I1)" and r: "r = (bits, i)"
          and I': "I' = I1\<lparr>in_collisions := (in_collisions I1)(?fp := in_collisions I1 ?fp @ [(bits, i)])\<rparr>"
          using assms(2) Some entry False by (auto simp: intern_source_def intern_fingerprint_def split: option.splits)
        have "in_canonical I1 = in_canonical I" "in_collisions I1 = in_collisions I"
          using a by (auto simp: allocate_source_def split: if_splits)
        then have "in_entries I' = insert (bits, i) (in_entries I)"
          unfolding in_entries_def I' by (simp add: collisions_update del: fun_upd_apply)
        with interner_ok_add [OF assms(1) a this] show ?thesis by (simp add: r I' in_le_def interned_def subset_insertI)
      next
        case find: (Some entry')
        obtain c' j' where entry': "entry' = (c', j')" by (cases entry')
        have "(c', j') \<in> set (in_collisions I ?fp)" "bm_equals R c' bits"
          using find entry' by (auto simp: find_Some_iff in_set_conv_nth)
        moreover have "r = (c', j')" "I' = I" using Some entry False find entry' assms(2)
          by (auto simp: intern_source_def intern_fingerprint_def)
        ultimately show ?thesis using assms(1)
          by (auto simp: interned_def equals_iff in_le_def interner_ok_def in_entries_def)
      qed
    qed
  qed
qed

lemma interned_mono: "interned bits r I \<Longrightarrow> in_le I I' \<Longrightarrow> interned bits r I'"
  by (auto simp: interned_def in_le_def)

end

end
