(* ===== verification/Leaf_Intern.thy ===== *)
theory Leaf_Intern
  imports Bitmap_Intern
begin

text \<open>
  \<open>internBitmaps\<close> of the filters (\<^verbatim>\<open>eq.go\<close>, \<^verbatim>\<open>ordered.go\<close>, \<^verbatim>\<open>ordered_index.go\<close>, \<^verbatim>\<open>between.go\<close>,
  \<^verbatim>\<open>compare_by.go\<close>, \<^verbatim>\<open>not.go\<close>): every posting goes through the interner, and the equality filters keep the
  numbers. What a filter returns does not change.
\<close>

section \<open>The operations\<close>

text \<open>\<open>intern\<close>: the number is not kept.\<close>

definition intern_bitmap :: "'b roaring \<Rightarrow> 'b \<Rightarrow> 'b interner \<Rightarrow> ('b \<times> 'b interner) option" where
  "intern_bitmap R bits I =
     (case intern_source R bits I of None \<Rightarrow> None | Some ((bits, _), I) \<Rightarrow> Some (bits, I))"

definition intern_item ::
  "'b roaring \<Rightarrow> ('v, 'b) ordered_item \<Rightarrow> 'b interner \<Rightarrow> (('v, 'b) ordered_item \<times> 'b interner) option" where
  "intern_item R item I =
     (case intern_bitmap R (oi_bits item) I of None \<Rightarrow> None | Some (bits, I) \<Rightarrow> Some (item\<lparr>oi_bits := bits\<rparr>, I))"

definition intern_block ::
  "'b roaring \<Rightarrow> ('v, 'b) ordered_block \<Rightarrow> 'b interner \<Rightarrow> (('v, 'b) ordered_block \<times> 'b interner) option" where
  "intern_block R block I =
     (case intern_bitmap R (ob_bits block) I of
        None \<Rightarrow> None
      | Some (bits, I) \<Rightarrow>
          (case thread (intern_item R) (ob_items block) I of
             None \<Rightarrow> None
           | Some (items, I) \<Rightarrow> Some (block\<lparr>ob_bits := bits, ob_items := items\<rparr>, I)))"

definition ox_intern ::
  "'b roaring \<Rightarrow> ('v, 'b) ordered_index \<Rightarrow> 'b interner \<Rightarrow> (('v, 'b) ordered_index \<times> 'b interner) option" where
  "ox_intern R x I =
     (case thread (intern_block R) (ox_blocks x) I of
        None \<Rightarrow> None
      | Some (blocks, I) \<Rightarrow> Some (x\<lparr>ox_blocks := blocks\<rparr>, I))"

definition od_intern ::
  "'b roaring \<Rightarrow> ('t, 'v, 'b) ordered_rule \<Rightarrow> 'b interner \<Rightarrow> (('t, 'v, 'b) ordered_rule \<times> 'b interner) option" where
  "od_intern R r I =
     (case intern_bitmap R (od_wildcard r) I of
        None \<Rightarrow> None
      | Some (wildcard, I) \<Rightarrow>
          (case ox_intern R (od_index r) I of
             None \<Rightarrow> None
           | Some (x, I) \<Rightarrow> Some (r\<lparr>od_wildcard := wildcard, od_index := x\<rparr>, I)))"

definition bt_intern ::
  "'b roaring \<Rightarrow> ('t, 'v, 'b) between_rule \<Rightarrow> 'b interner \<Rightarrow> (('t, 'v, 'b) between_rule \<times> 'b interner) option" where
  "bt_intern R r I =
     (case od_intern R (bt_from r) I of
        None \<Rightarrow> None
      | Some (from_rule, I) \<Rightarrow>
          (case od_intern R (bt_until r) I of
             None \<Rightarrow> None
           | Some (until_rule, I) \<Rightarrow> Some (r\<lparr>bt_from := from_rule, bt_until := until_rule\<rparr>, I)))"

definition intern_optional ::
  "'b roaring \<Rightarrow> ('v, 'b) ordered_index option \<Rightarrow> 'b interner \<Rightarrow> (('v, 'b) ordered_index option \<times> 'b interner) option" where
  "intern_optional R index I =
     (case index of
        None \<Rightarrow> Some (None, I)
      | Some x \<Rightarrow> (case ox_intern R x I of None \<Rightarrow> None | Some (x, I) \<Rightarrow> Some (Some x, I)))"

definition cb_intern ::
  "'b roaring \<Rightarrow> ('t, 'v, 'b) compare_by_rule \<Rightarrow> 'b interner \<Rightarrow> (('t, 'v, 'b) compare_by_rule \<times> 'b interner) option" where
  "cb_intern R r I =
     (case intern_bitmap R (cb_wildcard r) I of
        None \<Rightarrow> None
      | Some (wildcard, I) \<Rightarrow>
          (case thread (intern_optional R) (cb_indexes r) I of
             None \<Rightarrow> None
           | Some (indexes, I) \<Rightarrow> Some (r\<lparr>cb_wildcard := wildcard, cb_indexes := indexes\<rparr>, I)))"

definition es_intern :: "'b roaring \<Rightarrow> 'b equality_set \<Rightarrow> 'b interner \<Rightarrow> ('b equality_set \<times> 'b interner) option" where
  "es_intern R s I =
     (case es_bits s of
        None \<Rightarrow> Some (s, I)
      | Some bits \<Rightarrow>
          (case intern_source R bits I of
             None \<Rightarrow> None
           | Some ((bits, i), I) \<Rightarrow> Some (s\<lparr>es_bits := Some bits, es_source := i\<rparr>, I)))"

definition ei_intern ::
  "'b roaring \<Rightarrow> ('k, 'b) equality_index \<Rightarrow> 'b interner \<Rightarrow> (('k, 'b) equality_index \<times> 'b interner) option" where
  "ei_intern R t I =
     (case thread (es_intern R) (ei_sets t) I of None \<Rightarrow> None | Some (sets, I) \<Rightarrow> Some (t\<lparr>ei_sets := sets\<rparr>, I))"

definition eq_intern ::
  "'b roaring \<Rightarrow> ('t, 'v, 'k, 'b) eq_rule \<Rightarrow> 'b interner \<Rightarrow> (('t, 'v, 'k, 'b) eq_rule \<times> 'b interner) option" where
  "eq_intern R r I =
     (case intern_source R (er_wildcard r) I of
        None \<Rightarrow> None
      | Some ((wildcard, i), I) \<Rightarrow>
          (case ei_intern R (er_values r) I of
             None \<Rightarrow> None
           | Some (values, I) \<Rightarrow>
               Some (r\<lparr>er_wildcard := wildcard, er_wildcard_source := i, er_values := values\<rparr>, I)))"

definition nt_intern ::
  "'b roaring \<Rightarrow> ('t, 'v, 'b) not_rule \<Rightarrow> 'b interner \<Rightarrow> (('t, 'v, 'b) not_rule \<times> 'b interner) option" where
  "nt_intern R r I =
     (case ei_intern R (nt_values r) I of None \<Rightarrow> None | Some (values, I) \<Rightarrow> Some (r\<lparr>nt_values := values\<rparr>, I))"

fun leaf_intern ::
  "'b roaring \<Rightarrow> ('t, 'v, 'k, 'b) leaf \<Rightarrow> 'b interner \<Rightarrow> (('t, 'v, 'k, 'b) leaf \<times> 'b interner) option" where
  "leaf_intern R (Equality_Leaf r) I = map_option (\<lambda>(r, I). (Equality_Leaf r, I)) (eq_intern R r I)"
| "leaf_intern R (Ordered_Leaf r) I = map_option (\<lambda>(r, I). (Ordered_Leaf r, I)) (od_intern R r I)"
| "leaf_intern R (Between_Leaf r) I = map_option (\<lambda>(r, I). (Between_Leaf r, I)) (bt_intern R r I)"
| "leaf_intern R (Compare_By_Leaf r) I = map_option (\<lambda>(r, I). (Compare_By_Leaf r, I)) (cb_intern R r I)"
| "leaf_intern R (Exclusion_Leaf r) I = map_option (\<lambda>(r, I). (Exclusion_Leaf r, I)) (nt_intern R r I)"

section \<open>Equal content\<close>

definition same_item :: "'b roaring \<Rightarrow> ('v, 'b) ordered_item \<Rightarrow> ('v, 'b) ordered_item \<Rightarrow> bool" where
  "same_item R a b \<longleftrightarrow> oi_value b = oi_value a \<and> bm_ids R (oi_bits b) = bm_ids R (oi_bits a)"

definition same_block :: "'b roaring \<Rightarrow> ('v, 'b) ordered_block \<Rightarrow> ('v, 'b) ordered_block \<Rightarrow> bool" where
  "same_block R a b \<longleftrightarrow> bm_ids R (ob_bits b) = bm_ids R (ob_bits a) \<and> list_all2 (same_item R) (ob_items a) (ob_items b)"

definition same_index :: "'b roaring \<Rightarrow> ('v, 'b) ordered_index \<Rightarrow> ('v, 'b) ordered_index \<Rightarrow> bool" where
  "same_index R x y \<longleftrightarrow> list_all2 (same_block R) (ox_blocks x) (ox_blocks y) \<and> (\<exists>blocks. y = x\<lparr>ox_blocks := blocks\<rparr>)"

lemma same_index_fields:
  "same_index R x y \<Longrightarrow> ox_compare y = ox_compare x \<and> ox_routing y = ox_routing x \<and> ox_range y = ox_range x \<and> ox_prefix y = ox_prefix x"
  by (auto simp: same_index_def)

lemma same_blocks_items:
  "list_all2 (same_block R) xs ys \<Longrightarrow> list_all2 (same_item R) (concat (map ob_items xs)) (concat (map ob_items ys))"
  by (induction xs ys rule: list_all2_induct) (auto simp: same_block_def intro: list_all2_appendI)

lemma same_flat: "same_index R x y \<Longrightarrow> list_all2 (same_item R) (flat x) (flat y)"
  by (simp add: flat_def same_index_def same_blocks_items)

lemma same_items_sorted: "list_all2 (same_item R) xs ys \<Longrightarrow> sorted_items cmp xs \<Longrightarrow> sorted_items cmp ys"
  unfolding sorted_items_def list_all2_conv_all_nth sorted_wrt_iff_nth_less same_item_def by simp

lemma same_items_ids:
  assumes "list_all2 (same_item R) xs ys"
  shows "items_ids R (filter (\<lambda>item. P (oi_value item)) ys) = items_ids R (filter (\<lambda>item. P (oi_value item)) xs)"
  using assms by (induction xs ys rule: list_all2_induct) (auto simp: same_item_def)

lemma same_items_total:
  "list_all2 (same_item R) xs ys \<Longrightarrow> (\<Sum>item\<leftarrow>ys. card (bm_ids R (oi_bits item))) = (\<Sum>item\<leftarrow>xs. card (bm_ids R (oi_bits item)))"
  by (induction xs ys rule: list_all2_induct) (auto simp: same_item_def)

lemma same_index_posting:
  assumes "same_index R x y"
  shows "ox_posting R y = ox_posting R x" "ox_range_ids R y = ox_range_ids R x" "ox_total R y = ox_total R x"
proof -
  have cmp: "ox_compare y = ox_compare x" using same_index_fields [OF assms] by blast
  note same = same_items_ids [OF same_flat [OF assms]]
  show "ox_posting R y = ox_posting R x"
    unfolding ox_posting_def fun_eq_iff cmp by (intro allI same)
  show "ox_range_ids R y = ox_range_ids R x"
    unfolding ox_range_ids_def fun_eq_iff cmp by (intro allI same)
  show "ox_total R y = ox_total R x" by (simp add: ox_total_def same_items_total [OF same_flat [OF assms]])
qed

lemma same_block_ok:
  assumes "same_block R a b" "block_ok R a"
  shows "block_ok R b"
proof -
  have "length (ob_items b) = length (ob_items a)"
    using assms(1) by (auto simp: same_block_def dest: list_all2_lengthD)
  moreover have "items_ids R (ob_items b) = items_ids R (ob_items a)"
    using assms(1) same_items_ids [of R "ob_items a" "ob_items b" "\<lambda>_. True"] by (simp add: same_block_def)
  ultimately show ?thesis using assms by (auto simp: block_ok_def same_block_def)
qed

lemma same_index_building:
  assumes "same_index R x y" "ox_building R x"
  shows "ox_building R y"
proof -
  have "list_all2 (same_block R) (ox_blocks x) (ox_blocks y)" "\<forall>b\<in>set (ox_blocks x). block_ok R b"
    using assms by (simp_all add: same_index_def ox_building_def ox_ok_def)
  then have "\<forall>b\<in>set (ox_blocks y). block_ok R b"
    by (induction rule: list_all2_induct) (auto dest: same_block_ok)
  with assms same_index_fields [OF assms(1)] same_items_sorted [OF same_flat [OF assms(1)]] show ?thesis
    by (simp add: ox_building_def ox_ok_def routing_ok_def range_ok_def prefix_ok_def)
qed

lemma same_index_rule:
  assumes "same_index R (od_index r) x" "bm_ids R w = bm_ids R (od_wildcard r)"
  shows "od_building R r \<Longrightarrow> od_building R (r\<lparr>od_wildcard := w, od_index := x\<rparr>)"
    "ox_total R (od_index (r\<lparr>od_wildcard := w, od_index := x\<rparr>)) = ox_total R (od_index r)"
    "od_key_den R (r\<lparr>od_wildcard := w, od_index := x\<rparr>) k = od_key_den R r k"
    "od_den R (r\<lparr>od_wildcard := w, od_index := x\<rparr>) q = od_den R r q"
  using same_index_building [OF assms(1)] same_index_posting [OF assms(1)] same_index_fields [OF assms(1)] assms(2)
  by (auto simp: od_building_def od_den_def od_key_den_def split: option.split)

text \<open>Equality sets, with their numbers.\<close>

definition same_set :: "'b roaring \<Rightarrow> 'b equality_set \<Rightarrow> 'b equality_set \<Rightarrow> bool" where
  "same_set R s s' \<longleftrightarrow> es_single s' = es_single s \<and> es_small s' = es_small s \<and> es_class s' = es_class s
     \<and> (case es_bits s of
          None \<Rightarrow> es_bits s' = None \<and> es_source s' = es_source s
        | Some b \<Rightarrow> (\<exists>b'. es_bits s' = Some b' \<and> bm_ids R b' = bm_ids R b))"

definition set_sourced :: "'b interner \<Rightarrow> 'b equality_set \<Rightarrow> bool" where
  "set_sourced I s \<longleftrightarrow> (case es_bits s of None \<Rightarrow> es_source s = 0 | Some b \<Rightarrow> (b, es_source s) \<in> in_entries I)"

lemma same_set_ids: "same_set R s s' \<Longrightarrow> es_ids R s' = es_ids R s"
  by (cases "es_bits s"; clarsimp simp: same_set_def es_ids_def split: option.split)

lemma same_set_ok: "same_set R s s' \<Longrightarrow> es_ok s \<Longrightarrow> es_ok s'"
  by (cases "es_bits s"; cases "es_small s"; clarsimp simp: same_set_def es_ok_def)

definition same_table :: "'b roaring \<Rightarrow> ('k, 'b) equality_index \<Rightarrow> ('k, 'b) equality_index \<Rightarrow> bool" where
  "same_table R t u \<longleftrightarrow> list_all2 (same_set R) (ei_sets t) (ei_sets u) \<and> (\<exists>sets. u = t\<lparr>ei_sets := sets\<rparr>)"

lemma same_table_ok:
  assumes "same_table R t u" "ei_ok t"
  shows "ei_ok u" "ei_posting R u k = ei_posting R t k"
proof -
  obtain sets where u: "u = t\<lparr>ei_sets := sets\<rparr>" and all: "list_all2 (same_set R) (ei_sets t) sets"
    using assms(1) by (auto simp: same_table_def)
  have len: "length sets = length (ei_sets t)" using all by (metis list_all2_lengthD)
  have "\<forall>s\<in>set (ei_sets t). es_ok s" using assms(2) by (simp add: ei_ok_def)
  with all have "\<forall>s\<in>set sets. es_ok s"
    by (induction rule: list_all2_induct) (auto dest: same_set_ok)
  moreover have "key_order u ks = key_order t ks" for ks
    by (simp add: key_order_def u len split: option.split)
  ultimately show "ei_ok u" using assms(2) by (simp add: ei_ok_def) (simp add: u)
  have off: "ei_offset u k = ei_offset t k" by (simp add: u ei_offset_def split: option.split)
  show "ei_posting R u k = ei_posting R t k"
  proof (cases "ei_offset t k")
    case None
    with off show ?thesis by (simp add: ei_posting_def ei_get_def)
  next
    case (Some n)
    then have "same_set R (ei_sets t ! n) (sets ! n)"
      using all ei_ok_offset(1) [OF assms(2) Some] by (simp add: list_all2_conv_all_nth)
    from same_set_ids [OF this] Some off u show ?thesis by (simp add: ei_posting_def ei_get_def)
  qed
qed

section \<open>Interning a filter\<close>

text \<open>The part of a filter that carries numbers.\<close>

fun leaf_sourced :: "'b interner \<Rightarrow> ('t, 'v, 'k, 'b) leaf \<Rightarrow> bool" where
  "leaf_sourced I (Equality_Leaf r) \<longleftrightarrow> (er_wildcard r, er_wildcard_source r) \<in> in_entries I
     \<and> (\<forall>s\<in>set (ei_sets (er_values r)). set_sourced I s)"
| "leaf_sourced I _ \<longleftrightarrow> True"

lemma leaf_sourced_mono: "leaf_sourced I lf \<Longrightarrow> in_le I J \<Longrightarrow> leaf_sourced J lf"
  by (cases lf) (auto simp: in_le_def set_sourced_def split: option.splits)

fun leaf_unsourced :: "('t, 'v, 'k, 'b) leaf \<Rightarrow> bool" where
  "leaf_unsourced (Equality_Leaf r) \<longleftrightarrow> er_wildcard_class r = 0 \<and> (\<forall>s\<in>set (ei_sets (er_values r)). es_source s = 0 \<and> es_class s = 0)"
| "leaf_unsourced _ \<longleftrightarrow> True"

fun leaf_unclassed :: "('t, 'v, 'k, 'b) leaf \<Rightarrow> bool" where
  "leaf_unclassed (Equality_Leaf r) \<longleftrightarrow> er_wildcard_class r = 0 \<and> (\<forall>s\<in>set (ei_sets (er_values r)). es_class s = 0)"
| "leaf_unclassed _ \<longleftrightarrow> True"

text \<open>What an equality filter holds, and in how many sets.\<close>

fun leaf_equality :: "'b roaring \<Rightarrow> ('t, 'v, 'k, 'b) leaf \<Rightarrow> (u32 set \<times> nat) option" where
  "leaf_equality R (Equality_Leaf r) = Some (eq_stored R r, length (ei_sets (er_values r)))"
| "leaf_equality R _ = None"

lemma same_table_equality:
  assumes "same_table R t u"
  shows "length (ei_sets u) = length (ei_sets t)" "(\<Union>s\<in>set (ei_sets u). es_ids R s) = (\<Union>s\<in>set (ei_sets t). es_ids R s)"
proof -
  have all: "list_all2 (same_set R) (ei_sets t) (ei_sets u)" using assms by (simp add: same_table_def)
  then show "length (ei_sets u) = length (ei_sets t)" by (metis list_all2_lengthD)
  from all show "(\<Union>s\<in>set (ei_sets u). es_ids R s) = (\<Union>s\<in>set (ei_sets t). es_ids R s)"
    by (induction rule: list_all2_induct) (auto simp: same_set_ids)
qed

text \<open>The same filter with the same results.\<close>

definition same_leaf :: "'b roaring \<Rightarrow> ('t, 'v, 'k, 'b) leaf \<Rightarrow> ('t, 'v, 'k, 'b) leaf \<Rightarrow> bool" where
  "same_leaf R a b \<longleftrightarrow> leaf_node b = leaf_node a \<and> is_exclusion b = is_exclusion a
     \<and> leaf_ready R b \<and> leaf_equality R b = leaf_equality R a
     \<and> (\<forall>k. leaf_key_den R b k = leaf_key_den R a k) \<and> (\<forall>q. leaf_den R b q = leaf_den R a q) \<and> (\<forall>q. leaf_forbidden R b q = leaf_forbidden R a q)"

abbreviation intern_step :: "('a \<Rightarrow> 'a \<Rightarrow> 'b interner \<Rightarrow> bool) \<Rightarrow> ('a \<Rightarrow> 'b interner \<Rightarrow> ('a \<times> 'b interner) option) \<Rightarrow> 'a set \<Rightarrow> bool" where
  "intern_step Q f A \<equiv> step_ok interner_ok in_le Q A f"

context roaring
begin

lemma intern_bitmap_spec:
  assumes "interner_ok I" "intern_bitmap R bits I = Some (b, I')"
  shows "interner_ok I' \<and> in_le I I' \<and> bm_ids R b = bm_ids R bits"
proof -
  obtain i where "intern_source R bits I = Some ((b, i), I')"
    using assms(2) by (auto simp: intern_bitmap_def split: option.splits)
  from intern_source_spec [OF assms(1) this] show ?thesis by (simp add: interned_def)
qed

lemmas in_le_trans = transpD [OF in_le_order(2)]
lemmas thread_intern = thread_ok [where I = interner_ok, OF _ _ _ in_le_order]

lemma intern_item_step: "intern_step (\<lambda>a b _. same_item R a b) (intern_item R) A"
  unfolding step_ok_def
  by (auto simp: intern_item_def same_item_def dest: intern_bitmap_spec split: option.splits)

lemma intern_block_step: "intern_step (\<lambda>a b _. same_block R a b) (intern_block R) A"
  unfolding step_ok_def
proof (intro ballI allI impI)
  fix x I y I' assume I: "interner_ok I" and run: "intern_block R x I = Some (y, I')"
  obtain bits I1 items where b: "intern_bitmap R (ob_bits x) I = Some (bits, I1)"
    and t: "thread (intern_item R) (ob_items x) I1 = Some (items, I')" and y: "y = x\<lparr>ob_bits := bits, ob_items := items\<rparr>"
    using run by (auto simp: intern_block_def split: option.splits)
  note 1 = intern_bitmap_spec [OF I b]
  have "interner_ok I' \<and> in_le I1 I' \<and> list_all2 (\<lambda>a b. same_item R a b) (ob_items x) items"
    by (rule thread_intern [OF intern_item_step _ t]) (use 1 in auto)
  with 1 show "interner_ok I' \<and> in_le I I' \<and> same_block R x y" by (auto simp: same_block_def y intro: in_le_trans)
qed

lemma ox_intern_spec:
  assumes "interner_ok I" "ox_intern R x I = Some (y, I')"
  shows "interner_ok I' \<and> in_le I I' \<and> same_index R x y"
proof -
  obtain blocks where t: "thread (intern_block R) (ox_blocks x) I = Some (blocks, I')" and y: "y = x\<lparr>ox_blocks := blocks\<rparr>"
    using assms(2) by (auto simp: ox_intern_def split: option.splits)
  have "interner_ok I' \<and> in_le I I' \<and> list_all2 (\<lambda>a b. same_block R a b) (ox_blocks x) blocks"
    by (rule thread_intern [OF intern_block_step assms(1) t])
  then show ?thesis by (auto simp: same_index_def y)
qed

lemma od_intern_spec:
  assumes "interner_ok I" "od_intern R r I = Some (r', I')"
  shows "interner_ok I' \<and> in_le I I' \<and> od_compare r' = od_compare r \<and> od_node r' = od_node r
    \<and> (od_building R r \<longrightarrow> od_building R r') \<and> ox_total R (od_index r') = ox_total R (od_index r)
    \<and> (\<forall>k. od_key_den R r' k = od_key_den R r k) \<and> (\<forall>q. od_den R r' q = od_den R r q)"
proof -
  obtain w I1 x where b: "intern_bitmap R (od_wildcard r) I = Some (w, I1)" and x: "ox_intern R (od_index r) I1 = Some (x, I')"
    and r': "r' = r\<lparr>od_wildcard := w, od_index := x\<rparr>"
    using assms(2) by (auto simp: od_intern_def split: option.splits)
  note 1 = intern_bitmap_spec [OF assms(1) b]
  from 1 ox_intern_spec [OF _ x] have 2: "interner_ok I'" "in_le I1 I'" "same_index R (od_index r) x" by auto
  from 1 2(1) in_le_trans [OF _ 2(2)] same_index_rule [OF 2(3)] show ?thesis by (auto simp: r')
qed

lemma bt_intern_spec:
  assumes "interner_ok I" "bt_intern R r I = Some (r', I')" "leaf_ready R (Between_Leaf r)"
  shows "interner_ok I' \<and> in_le I I' \<and> same_leaf R (Between_Leaf r) (Between_Leaf r')"
proof -
  obtain f I1 u where f: "od_intern R (bt_from r) I = Some (f, I1)" and u: "od_intern R (bt_until r) I1 = Some (u, I')"
    and r': "r' = r\<lparr>bt_from := f, bt_until := u\<rparr>"
    using assms(2) by (auto simp: bt_intern_def split: option.splits)
  note 1 = od_intern_spec [OF assms(1) f]
  then have "interner_ok I1" by blast
  note 2 = od_intern_spec [OF this u]
  have key: "od_key_den R f k = od_key_den R (bt_from r) k" "od_key_den R u k = od_key_den R (bt_until r) k" for k
    using 1 2 by blast+
  have "in_le I I'" by (rule in_le_trans [OF 1 [THEN conjunct2, THEN conjunct1] 2 [THEN conjunct2, THEN conjunct1]])
  moreover have "od_building R f" "od_building R u" "od_compare u = od_compare f"
    "ox_total R (od_index f) < 2 ^ 63" "ox_total R (od_index u) < 2 ^ 63"
    using 1 2 assms(3) by auto
  moreover have "od_den R f q = od_den R (bt_from r) q" "od_den R u q = od_den R (bt_until r) q" for q
    using 1 2 by blast+
  ultimately show ?thesis using 2 by (simp add: same_leaf_def r' bt_den_def bt_key_den_def key)
qed

lemma intern_optional_step:
  "intern_step (\<lambda>a b _. rel_option (same_index R) a b) (intern_optional R) A"
  unfolding step_ok_def
  by (auto simp: intern_optional_def in_le_order(1) [THEN reflpD] dest: ox_intern_spec split: option.splits)

lemma same_indexes_rule:
  assumes same: "list_all2 (rel_option (same_index R)) (cb_indexes r) xs" and "bm_ids R w = bm_ids R (cb_wildcard r)"
    and bld: "cb_building R r"
  shows "cb_building R (r\<lparr>cb_wildcard := w, cb_indexes := xs\<rparr>)"
    "cb_total R (r\<lparr>cb_wildcard := w, cb_indexes := xs\<rparr>) = cb_total R r"
    "cb_key_den R (r\<lparr>cb_wildcard := w, cb_indexes := xs\<rparr>) k = cb_key_den R r k"
    "cb_den R (r\<lparr>cb_wildcard := w, cb_indexes := xs\<rparr>) q = cb_den R r q"
proof -
  have len: "length xs = 5" "length (cb_indexes r) = 5" using same bld by (auto simp: cb_building_def dest: list_all2_lengthD)
  have "\<forall>x. Some x \<in> set (cb_indexes r) \<longrightarrow> ox_building R x \<and> ox_compare x = cb_compare r"
    using bld by (simp add: cb_building_def)
  with same have "\<forall>x. Some x \<in> set xs \<longrightarrow> ox_building R x \<and> ox_compare x = cb_compare r"
  proof (induction rule: list_all2_induct)
    case (Cons x xs y ys)
    have "ox_building R b \<and> ox_compare b = cb_compare r" if b: "y = Some b" for b
    proof -
      obtain a where a: "x = Some a" "same_index R a b" using Cons.hyps(1) b by (cases x) auto
      have "ox_building R a" "ox_compare a = cb_compare r" using Cons.prems a(1) by auto
      with same_index_building [OF a(2)] same_index_fields [OF a(2)] show ?thesis by simp
    qed
    with Cons show ?case by auto
  qed simp
  with bld len show "cb_building R (r\<lparr>cb_wildcard := w, cb_indexes := xs\<rparr>)" by (simp add: cb_building_def)
  have "(\<Sum>x\<leftarrow>xs. case x of None \<Rightarrow> 0 | Some x \<Rightarrow> ox_total R x)
      = (\<Sum>x\<leftarrow>cb_indexes r. case x of None \<Rightarrow> 0 | Some x \<Rightarrow> ox_total R x)"
    using same
  proof (induction rule: list_all2_induct)
    case (Cons x xs y ys)
    then show ?case by (cases x; cases y) (auto simp: same_index_posting(3))
  qed simp
  then show "cb_total R (r\<lparr>cb_wildcard := w, cb_indexes := xs\<rparr>) = cb_total R r" by (simp add: cb_total_def)
  have "cb_index_den R (r\<lparr>cb_wildcard := w, cb_indexes := xs\<rparr>) op v = cb_index_den R r op v" if "op \<in> {0, 1, 2, 3, 4}" for op v
  proof -
    have "rel_option (same_index R) (cb_indexes r ! unat op) (xs ! unat op)"
      using same operator_less [OF that] len by (simp add: list_all2_conv_all_nth)
    then show ?thesis
      by (cases "cb_indexes r ! unat op"; cases "xs ! unat op") (auto simp: cb_index_den_def same_index_posting(1))
  qed
  then have "(\<Union>op\<in>{0, 1, 2, 3, 4}. cb_index_den R (r\<lparr>cb_wildcard := w, cb_indexes := xs\<rparr>) op v)
      = (\<Union>op\<in>{0, 1, 2, 3, 4}. cb_index_den R r op v)" for v
    by (rule SUP_cong [OF refl])
  with assms(2) have key: "cb_key_den R (r\<lparr>cb_wildcard := w, cb_indexes := xs\<rparr>) k = cb_key_den R r k" for k
    by (simp add: cb_key_den_def split: option.split)
  then show "cb_key_den R (r\<lparr>cb_wildcard := w, cb_indexes := xs\<rparr>) k = cb_key_den R r k"
    "cb_den R (r\<lparr>cb_wildcard := w, cb_indexes := xs\<rparr>) q = cb_den R r q" by (simp_all add: cb_den_def)
qed

lemma cb_intern_spec:
  assumes "interner_ok I" "cb_intern R r I = Some (r', I')" "leaf_ready R (Compare_By_Leaf r)"
  shows "interner_ok I' \<and> in_le I I' \<and> same_leaf R (Compare_By_Leaf r) (Compare_By_Leaf r')"
proof -
  obtain w I1 xs where b: "intern_bitmap R (cb_wildcard r) I = Some (w, I1)"
    and t: "thread (intern_optional R) (cb_indexes r) I1 = Some (xs, I')"
    and r': "r' = r\<lparr>cb_wildcard := w, cb_indexes := xs\<rparr>"
    using assms(2) by (auto simp: cb_intern_def split: option.splits)
  note 1 = intern_bitmap_spec [OF assms(1) b]
  have 2: "interner_ok I' \<and> in_le I1 I' \<and> list_all2 (\<lambda>a b. rel_option (same_index R) a b) (cb_indexes r) xs"
    by (rule thread_intern [OF intern_optional_step _ t]) (use 1 in auto)
  have same: "list_all2 (rel_option (same_index R)) (cb_indexes r) xs" using 2 by blast
  from 1 2 assms(3) in_le_trans [of I I1 I'] same_indexes_rule [OF same, of w] show ?thesis
    by (simp add: same_leaf_def r')
qed

lemma es_intern_step:
  "intern_step (\<lambda>a b J. same_set R a b \<and> (es_source a = 0 \<longrightarrow> set_sourced J b)) (es_intern R) A"
  unfolding step_ok_def
proof (intro ballI allI impI)
  fix s I t J assume I: "interner_ok I" and run: "es_intern R s I = Some (t, J)"
  show "interner_ok J \<and> in_le I J \<and> same_set R s t \<and> (es_source s = 0 \<longrightarrow> set_sourced J t)"
  proof (cases "es_bits s")
    case None
    with I run show ?thesis
      by (auto simp: es_intern_def same_set_def set_sourced_def in_le_order(1) [THEN reflpD])
  next
    case (Some b)
    then obtain b' i where b': "intern_source R b I = Some ((b', i), J)" and t: "t = s\<lparr>es_bits := Some b', es_source := i\<rparr>"
      using run by (auto simp: es_intern_def split: option.splits)
    from intern_source_spec [OF I b'] Some show ?thesis
      by (simp add: same_set_def set_sourced_def t interned_def)
  qed
qed

lemma ei_intern_spec:
  assumes "interner_ok I" "ei_intern R t I = Some (u, J)"
  shows "interner_ok J \<and> in_le I J \<and> same_table R t u"
    and "\<forall>s\<in>set (ei_sets t). es_source s = 0 \<Longrightarrow> \<forall>s\<in>set (ei_sets u). set_sourced J s"
proof -
  obtain sets where t: "thread (es_intern R) (ei_sets t) I = Some (sets, J)" and u: "u = t\<lparr>ei_sets := sets\<rparr>"
    using assms(2) by (auto simp: ei_intern_def split: option.splits)
  have *: "interner_ok J \<and> in_le I J
      \<and> list_all2 (\<lambda>a b. same_set R a b \<and> (es_source a = 0 \<longrightarrow> set_sourced J b)) (ei_sets t) sets"
  proof (rule thread_intern [OF es_intern_step assms(1) t])
    show "same_set R a b \<and> (es_source a = 0 \<longrightarrow> set_sourced J' b)"
      if "same_set R a b \<and> (es_source a = 0 \<longrightarrow> set_sourced I' b)" "in_le I' J'" for a b I' J'
      using that by (auto simp: set_sourced_def in_le_def split: option.splits)
  qed
  then show "interner_ok J \<and> in_le I J \<and> same_table R t u"
    by (auto simp: same_table_def u elim: list_all2_mono)
  show "\<forall>s\<in>set (ei_sets u). set_sourced J s" if "\<forall>s\<in>set (ei_sets t). es_source s = 0"
  proof -
    have "list_all2 (\<lambda>a b. same_set R a b \<and> (es_source a = 0 \<longrightarrow> set_sourced J b)) (ei_sets t) sets" using * by blast
    from this that have "\<forall>s\<in>set sets. set_sourced J s" by (induction rule: list_all2_induct) auto
    then show ?thesis by (simp add: u)
  qed
qed

lemma eq_intern_spec:
  assumes "interner_ok I" "eq_intern R r I = Some (r', J)" "leaf_ready R (Equality_Leaf r)" "leaf_unsourced (Equality_Leaf r)"
  shows "interner_ok J \<and> in_le I J \<and> same_leaf R (Equality_Leaf r) (Equality_Leaf r')
    \<and> leaf_sourced J (Equality_Leaf r') \<and> leaf_unclassed (Equality_Leaf r')"
proof -
  obtain w i I1 u where b: "intern_source R (er_wildcard r) I = Some ((w, i), I1)" and t: "ei_intern R (er_values r) I1 = Some (u, J)"
    and r': "r' = r\<lparr>er_wildcard := w, er_wildcard_source := i, er_values := u\<rparr>"
    using assms(2) by (auto simp: eq_intern_def split: option.splits)
  from intern_source_spec [OF assms(1) b] have 1: "interner_ok I1" "in_le I I1" "(w, i) \<in> in_entries I1"
    "bm_ids R w = bm_ids R (er_wildcard r)" by (auto simp: interned_def)
  have unsourced: "\<forall>s\<in>set (ei_sets (er_values r)). es_source s = 0" using assms(4) by simp
  from ei_intern_spec(1) [OF 1(1) t] ei_intern_spec(2) [OF 1(1) t unsourced] have 2: "interner_ok J" "in_le I1 J"
    "same_table R (er_values r) u" "\<forall>s\<in>set (ei_sets u). set_sourced J s" by auto
  have ok: "ei_ok (er_values r)" using assms(3) by (simp add: eq_building_def)
  have "list_all2 (same_set R) (ei_sets (er_values r)) (ei_sets u)" using 2(3) by (simp add: same_table_def)
  moreover have "\<forall>s\<in>set (ei_sets (er_values r)). es_class s = 0" using assms(4) by simp
  ultimately have "\<forall>s\<in>set (ei_sets u). es_class s = 0"
    by (induction rule: list_all2_induct) (auto simp: same_set_def)
  with 1 2 in_le_trans [OF 1(2) 2(2)] same_table_ok [OF 2(3) ok] same_table_equality [OF 2(3)] assms(3,4) show ?thesis
    by (auto simp: same_leaf_def r' eq_stored_def eq_building_def eq_den_def eq_key_den_def in_le_def split: option.split)
qed

lemma nt_intern_spec:
  assumes "interner_ok I" "nt_intern R r I = Some (r', J)" "leaf_ready R (Exclusion_Leaf r)"
  shows "interner_ok J \<and> in_le I J \<and> same_leaf R (Exclusion_Leaf r) (Exclusion_Leaf r')"
proof -
  obtain u where t: "ei_intern R (nt_values r) I = Some (u, J)" and r': "r' = r\<lparr>nt_values := u\<rparr>"
    using assms(2) by (auto simp: nt_intern_def split: option.splits)
  note 1 = ei_intern_spec(1) [OF assms(1) t]
  have "ei_ok (nt_values r)" using assms(3) by (simp add: nt_building_def)
  with 1 same_table_ok [of R "nt_values r" u] show ?thesis
    by (auto simp: same_leaf_def r' nt_building_def nt_den_def split: option.split)
qed

text \<open>All filters at once.\<close>

lemma leaf_intern_spec:
  assumes "interner_ok I" "leaf_intern R lf I = Some (lf', J)" "leaf_ready R lf" "leaf_unsourced lf"
  shows "interner_ok J \<and> in_le I J \<and> same_leaf R lf lf' \<and> leaf_sourced J lf' \<and> leaf_unclassed lf'"
proof (cases lf)
  case (Equality_Leaf r)
  with assms(2) obtain r' where r': "eq_intern R r I = Some (r', J)" "lf' = Equality_Leaf r'" by auto
  from eq_intern_spec [OF assms(1) r'(1)] assms(3,4) Equality_Leaf r'(2) show ?thesis by simp
next
  case (Ordered_Leaf r)
  with assms(2) obtain r' where r': "od_intern R r I = Some (r', J)" "lf' = Ordered_Leaf r'" by auto
  from od_intern_spec [OF assms(1) r'(1)] assms(3) Ordered_Leaf r'(2) show ?thesis by (simp add: same_leaf_def)
next
  case (Between_Leaf r)
  with assms(2) obtain r' where r': "bt_intern R r I = Some (r', J)" "lf' = Between_Leaf r'" by auto
  from bt_intern_spec [OF assms(1) r'(1)] assms(3) Between_Leaf r'(2) show ?thesis by simp
next
  case (Compare_By_Leaf r)
  with assms(2) obtain r' where r': "cb_intern R r I = Some (r', J)" "lf' = Compare_By_Leaf r'" by auto
  from cb_intern_spec [OF assms(1) r'(1)] assms(3) Compare_By_Leaf r'(2) show ?thesis by simp
next
  case (Exclusion_Leaf r)
  with assms(2) obtain r' where r': "nt_intern R r I = Some (r', J)" "lf' = Exclusion_Leaf r'" by auto
  from nt_intern_spec [OF assms(1) r'(1)] assms(3) Exclusion_Leaf r'(2) show ?thesis by simp
qed

section \<open>Interning does not run out of numbers\<close>

end

abbreviation source_limit :: nat where
  "source_limit \<equiv> 2 ^ 32 - 1"

text \<open>\<open>within f x n\<close>: interning \<open>x\<close> succeeds when \<open>n\<close> numbers are left, and takes no more than that.\<close>

definition within :: "('a \<Rightarrow> 'b interner \<Rightarrow> ('c \<times> 'b interner) option) \<Rightarrow> 'a \<Rightarrow> nat \<Rightarrow> bool" where
  "within f x n \<longleftrightarrow> (\<forall>I. in_used I + n \<le> source_limit \<longrightarrow> (\<exists>y J. f x I = Some (y, J) \<and> in_used J \<le> in_used I + n))"

lemma withinD: "within f x n \<Longrightarrow> in_used I + n \<le> source_limit \<Longrightarrow> \<exists>y J. f x I = Some (y, J) \<and> in_used J \<le> in_used I + n"
  by (simp add: within_def)

lemma within_thread:
  assumes "\<And>x. x \<in> set xs \<Longrightarrow> within f x (cost x)"
  shows "within (thread f) xs (\<Sum>x\<leftarrow>xs. cost x)"
  unfolding within_def
  using thread_total [of xs in_used cost source_limit f] withinD [OF assms] by blast

text \<open>Two steps in a row.\<close>

lemma within_bind:
  assumes "within f x m" "\<And>y. within (g y) z n"
    and "\<And>I. h w I = (case f x I of None \<Rightarrow> None | Some (y, I) \<Rightarrow> (case g y z I of None \<Rightarrow> None | Some (v, I) \<Rightarrow> Some (k y v, I)))"
  shows "within h w (m + n)"
  unfolding within_def
proof (intro allI impI)
  fix I :: "'b interner"
  assume I: "in_used I + (m + n) \<le> source_limit"
  then obtain y J where 1: "f x I = Some (y, J)" "in_used J \<le> in_used I + m"
    using withinD [OF assms(1), of I] by auto
  with I have "in_used J + n \<le> source_limit" by simp
  then obtain v K where 2: "g y z J = Some (v, K)" "in_used K \<le> in_used J + n"
    using withinD [OF assms(2)] by blast
  with 1 show "\<exists>y J. h w I = Some (y, J) \<and> in_used J \<le> in_used I + (m + n)" by (simp add: assms(3))
qed

lemma within_map:
  assumes "within f x n" "\<And>I. h w I = (case f x I of None \<Rightarrow> None | Some (y, I) \<Rightarrow> Some (k y, I))"
  shows "within h w n"
  unfolding within_def
proof (intro allI impI)
  fix I :: "'b interner"
  assume "in_used I + n \<le> source_limit"
  with withinD [OF assms(1)] obtain y J where "f x I = Some (y, J)" "in_used J \<le> in_used I + n" by blast
  with assms(2) [of I] show "\<exists>y J. h w I = Some (y, J) \<and> in_used J \<le> in_used I + n" by simp
qed

lemma within_more: "within f x m \<Longrightarrow> m \<le> n \<Longrightarrow> within f x n"
  unfolding within_def by (meson add_left_mono order_trans)

context roaring
begin

lemma within_source: "within (intern_source R) bits 1"
  unfolding within_def using intern_source_total intern_source_used by fastforce

lemma within_bitmap: "within (intern_bitmap R) bits 1"
  by (rule within_map [OF within_source, where k = fst]) (auto simp: intern_bitmap_def split: option.split)

lemma within_item: "within (intern_item R) item 1"
  by (rule within_map [OF within_bitmap, where k = "\<lambda>bits. item\<lparr>oi_bits := bits\<rparr>"]) (simp add: intern_item_def)

lemma within_block: "within (intern_block R) block (1 + length (ob_items block))"
proof (rule within_bind [OF within_bitmap, where k = "\<lambda>bits items. block\<lparr>ob_bits := bits, ob_items := items\<rparr>"
      and g = "\<lambda>_. thread (intern_item R)"])
  show "within (thread (intern_item R)) (ob_items block) (length (ob_items block))"
    using within_thread [OF within_item, of "ob_items block"] by (simp add: sum_list_triv)
qed (simp add: intern_block_def)

lemma within_index:
  assumes "\<forall>b\<in>set (ox_blocks x). block_ok R b"
  shows "within (ox_intern R) x (2 * length (flat x))"
proof -
  have "(\<Sum>b\<leftarrow>bs. 1 + length (ob_items b)) \<le> 2 * length (concat (map ob_items bs))" if "\<forall>b\<in>set bs. block_ok R b" for bs :: "('v, 'b) ordered_block list"
    using that
  proof (induction bs)
    case (Cons b bs)
    then have "ob_items b \<noteq> []" by (simp add: block_ok_def)
    then have "1 \<le> length (ob_items b)" by (cases "ob_items b") auto
    with Cons show ?case by simp
  qed simp
  from this [OF assms] have le: "(\<Sum>b\<leftarrow>ox_blocks x. 1 + length (ob_items b)) \<le> 2 * length (flat x)" by (simp add: flat_def)
  have "within (thread (intern_block R)) (ox_blocks x) (\<Sum>b\<leftarrow>ox_blocks x. 1 + length (ob_items b))"
    by (rule within_thread) (rule within_block)
  then have "within (ox_intern R) x (\<Sum>b\<leftarrow>ox_blocks x. 1 + length (ob_items b))"
    by (rule within_map [where k = "\<lambda>blocks. x\<lparr>ox_blocks := blocks\<rparr>"]) (simp add: ox_intern_def)
  then show ?thesis by (rule within_more [OF _ le])
qed

lemma within_ordered:
  assumes "od_building R r"
  shows "within (od_intern R) r (1 + 2 * length (flat (od_index r)))"
proof (rule within_bind [OF within_bitmap, where k = "\<lambda>w x. r\<lparr>od_wildcard := w, od_index := x\<rparr>" and g = "\<lambda>_. ox_intern R"])
  show "within (ox_intern R) (od_index r) (2 * length (flat (od_index r)))"
    by (rule within_index) (use assms in \<open>simp add: od_building_def ox_building_def ox_ok_def\<close>)
qed (simp add: od_intern_def)

lemma within_sets: "within (ei_intern R) t (length (ei_sets t))"
proof -
  have "within (es_intern R) s 1" for s
  proof (cases "es_bits s")
    case None
    then show ?thesis by (simp add: within_def es_intern_def)
  next
    case (Some bits)
    show ?thesis
      by (rule within_map [OF within_source [of bits], where k = "\<lambda>(bits, i). s\<lparr>es_bits := Some bits, es_source := i\<rparr>"])
        (auto simp: es_intern_def Some split: option.split)
  qed
  then have "within (thread (es_intern R)) (ei_sets t) (length (ei_sets t))"
    using within_thread [of "ei_sets t" "es_intern R" "\<lambda>_. 1"] by (simp add: sum_list_triv)
  then show ?thesis
    by (rule within_map [where k = "\<lambda>sets. t\<lparr>ei_sets := sets\<rparr>"]) (simp add: ei_intern_def)
qed

lemma within_indexes:
  assumes "cb_building R r"
  shows "within (thread (intern_optional R)) (cb_indexes r) (2 * leaf_items (Compare_By_Leaf r))"
proof -
  let ?f = "\<lambda>x. case x of None \<Rightarrow> 0 | Some x \<Rightarrow> length (flat x)"
  have "within (intern_optional R) x (2 * ?f x)" if "x \<in> set (cb_indexes r)" for x
  proof (cases x)
    case None
    then show ?thesis by (simp add: within_def intern_optional_def)
  next
    case (Some y)
    then have "\<forall>b\<in>set (ox_blocks y). block_ok R b"
      using assms that by (auto simp: cb_building_def ox_building_def ox_ok_def)
    from within_index [OF this] have "within (intern_optional R) x (2 * length (flat y))"
      by (rule within_map [where k = Some]) (simp add: Some intern_optional_def)
    with Some show ?thesis by simp
  qed
  from within_thread [OF this] show ?thesis by (simp add: sum_list_const_mult)
qed

lemma within_leaf:
  assumes "leaf_ready R lf"
  shows "within (leaf_intern R) lf (2 + 2 * leaf_items lf)"
proof (cases lf)
  case (Equality_Leaf r)
  have "within (eq_intern R) r (1 + length (ei_sets (er_values r)))"
    by (rule within_bind [OF within_source within_sets,
          where k = "\<lambda>(w, i) t. r\<lparr>er_wildcard := w, er_wildcard_source := i, er_values := t\<rparr>"])
      (auto simp: eq_intern_def split: option.split)
  then have "within (leaf_intern R) lf (1 + length (ei_sets (er_values r)))"
    by (rule within_map [where k = Equality_Leaf]) (auto simp: Equality_Leaf split: option.split)
  then show ?thesis by (rule within_more) (simp add: Equality_Leaf)
next
  case (Ordered_Leaf r)
  then have "od_building R r" using assms by simp
  then have "within (od_intern R) r (1 + 2 * length (flat (od_index r)))" by (rule within_ordered)
  then have "within (leaf_intern R) lf (1 + 2 * length (flat (od_index r)))"
    by (rule within_map [where k = Ordered_Leaf]) (auto simp: Ordered_Leaf split: option.split)
  then show ?thesis by (rule within_more) (simp add: Ordered_Leaf)
next
  case (Between_Leaf r)
  then have bld: "od_building R (bt_from r)" "od_building R (bt_until r)" using assms by simp_all
  have "within (bt_intern R) r ((1 + 2 * length (flat (od_index (bt_from r)))) + (1 + 2 * length (flat (od_index (bt_until r)))))"
    by (rule within_bind [OF within_ordered [OF bld(1)] within_ordered [OF bld(2)],
          where k = "\<lambda>f u. r\<lparr>bt_from := f, bt_until := u\<rparr>"]) (simp add: bt_intern_def)
  then have "within (leaf_intern R) lf ((1 + 2 * length (flat (od_index (bt_from r)))) + (1 + 2 * length (flat (od_index (bt_until r)))))"
    by (rule within_map [where k = Between_Leaf]) (auto simp: Between_Leaf split: option.split)
  then show ?thesis by (rule within_more) (simp add: Between_Leaf)
next
  case (Compare_By_Leaf r)
  then have bld: "cb_building R r" using assms by simp
  have "within (cb_intern R) r (1 + 2 * leaf_items (Compare_By_Leaf r))"
    by (rule within_bind [OF within_bitmap within_indexes [OF bld],
          where k = "\<lambda>w xs. r\<lparr>cb_wildcard := w, cb_indexes := xs\<rparr>"]) (simp add: cb_intern_def)
  then have "within (leaf_intern R) lf (1 + 2 * leaf_items (Compare_By_Leaf r))"
    by (rule within_map [where k = Compare_By_Leaf]) (auto simp: Compare_By_Leaf split: option.split)
  then show ?thesis by (rule within_more) (simp add: Compare_By_Leaf)
next
  case (Exclusion_Leaf r)
  have "within (nt_intern R) r (length (ei_sets (nt_values r)))"
    by (rule within_map [OF within_sets, where k = "\<lambda>t. r\<lparr>nt_values := t\<rparr>"]) (simp add: nt_intern_def)
  then have "within (leaf_intern R) lf (length (ei_sets (nt_values r)))"
    by (rule within_map [where k = Exclusion_Leaf]) (auto simp: Exclusion_Leaf split: option.split)
  then show ?thesis by (rule within_more) (simp add: Exclusion_Leaf)
qed

end

end
