(* ===== verification/Execution_Cost.thy ===== *)
theory Execution_Cost
  imports Rule_Contract
begin

text \<open>
  The cost model of \<open>All\<close> (\<^verbatim>\<open>execution_cost.go\<close> and the decisions of \<^verbatim>\<open>execution_capabilities.go\<close>):
  saturating arithmetic, the estimated work of every way to execute a child, and the choices made
  from it. None of these choices affects a result; what matters is that they select children that
  exist and send to direct validation only children that offer a direct test.
\<close>

section \<open>Ranked children\<close>

text \<open>
  \<open>rankedBitmap\<close>: the child, what is known of its size, and its result once there is one.
  \<open>rk_source\<close> is the identity of the bitmap object; \<open>rk_owned\<close> marks a scratch bitmap.
\<close>

record 'b ranked =
  rk_bits :: "'b option"
  rk_source :: source
  rk_card :: u64
  rk_child :: nat
  rk_owned :: bool

definition empty_ranked :: "'b ranked" where
  "empty_ranked = \<lparr>rk_bits = None, rk_source = Scratch, rk_card = 0, rk_child = 0, rk_owned = False\<rparr>"

section \<open>Saturating arithmetic\<close>

definition saturating_add :: "u64 \<Rightarrow> u64 \<Rightarrow> u64" where
  "saturating_add left right = (if max_u64 - left < right then max_u64 else left + right)"

definition saturating_mul :: "u64 \<Rightarrow> u64 \<Rightarrow> u64" where
  "saturating_mul left right = (if left \<noteq> 0 \<and> right > max_u64 div left then max_u64 else left * right)"

section \<open>Work estimates\<close>

definition allDirectIDWork :: u64 where "allDirectIDWork = 16"
definition allUnmaterializedDirectIDWork :: u64 where "allUnmaterializedDirectIDWork = 65536"
definition allMaterializeIDWork :: u64 where "allMaterializeIDWork = 64"
definition allMaterializeBaseWork :: u64 where "allMaterializeBaseWork = 64"
definition allCheapDirectIDScanLimit :: u64 where "allCheapDirectIDScanLimit = 512"
definition allDirectExclusionScanLimit :: u64 where "allDirectExclusionScanLimit = 16"

definition estimated_bitmap_work :: "u64 \<Rightarrow> u64 option" where
  "estimated_bitmap_work cardinality =
     (if cardinality = max_u64 then None
      else Some (saturating_add allMaterializeBaseWork (saturating_mul cardinality allMaterializeIDWork)))"

definition ranked_bitmap_work :: "'b roaring \<Rightarrow> 'b ranked \<Rightarrow> u64 option" where
  "ranked_bitmap_work R e =
     (case rk_bits e of Some b \<Rightarrow> Some (bm_bytes R b) | None \<Rightarrow> estimated_bitmap_work (rk_card e))"

definition ranked_bitmap_narrow_work :: "'b roaring \<Rightarrow> 'b ranked \<Rightarrow> u64 option" where
  "ranked_bitmap_narrow_work R e =
     (case ranked_bitmap_work R e of None \<Rightarrow> None | Some work \<Rightarrow> Some (saturating_mul work 2))"

definition should_filter_candidates :: "'b roaring \<Rightarrow> u64 \<Rightarrow> 'b ranked \<Rightarrow> bool" where
  "should_filter_candidates R candidate_bytes e =
     (case ranked_bitmap_work R e of
        None \<Rightarrow> False
      | Some work \<Rightarrow> saturating_add work candidate_bytes < saturating_mul work 2)"

text \<open>
  Both selections scan for the smallest known value: \<open>known \<and> (\<not> best_known \<or> work < best_work)\<close>
  replaces the best so far.
\<close>

definition replaces :: "u64 option \<Rightarrow> u64 option \<Rightarrow> bool" where
  "replaces best work =
     (case work of None \<Rightarrow> False | Some w \<Rightarrow> (case best of None \<Rightarrow> True | Some b \<Rightarrow> w < b))"

fun select_best :: "('a \<Rightarrow> u64 option) \<Rightarrow> nat \<Rightarrow> u64 option \<Rightarrow> nat \<Rightarrow> 'a list \<Rightarrow> nat" where
  "select_best work best best_work i [] = best"
| "select_best work best best_work i (x # xs) =
     (if replaces best_work (work x) then select_best work i (work x) (Suc i) xs
      else select_best work best best_work (Suc i) xs)"

definition select_next_bitmap_operation :: "'b roaring \<Rightarrow> 'b ranked list \<Rightarrow> nat" where
  "select_next_bitmap_operation R remaining =
     select_best (ranked_bitmap_work R) 0 (ranked_bitmap_work R (hd remaining)) 1 (tl remaining)"

section \<open>Decisions that depend on the children\<close>

definition supports_direct :: "('t, 'v, 'b) child_ops list \<Rightarrow> nat \<Rightarrow> bool" where
  "supports_direct children i \<longleftrightarrow> co_direct (children ! i) \<noteq> None"

text \<open>
  \<open>describeExecutionCapability\<close> fills in the conservative default; an absent direct test leaves the
  field zero.
\<close>

definition direct_id_work :: "('t, 'v, 'b) child_ops \<Rightarrow> u64" where
  "direct_id_work c =
     (if co_direct c = None then 0
      else case co_work c of Some w \<Rightarrow> w | None \<Rightarrow> allUnmaterializedDirectIDWork)"

definition direct_id_operation_work :: "('t, 'v, 'b) child_ops list \<Rightarrow> nat \<Rightarrow> bool \<Rightarrow> u64" where
  "direct_id_operation_work children i materialized =
     (if materialized then allDirectIDWork
      else let work = direct_id_work (children ! i)
           in if work = 0 then allUnmaterializedDirectIDWork else work)"

text \<open>The complete cost of a plan that starts from \<open>source\<close>.\<close>

fun remaining_total_work ::
  "'b roaring \<Rightarrow> ('t, 'v, 'b) child_ops list \<Rightarrow> 'b ranked \<Rightarrow> u64 \<Rightarrow> 'b ranked list \<Rightarrow> u64 option" where
  "remaining_total_work R children source acc [] = Some acc"
| "remaining_total_work R children source acc (e # es) =
     (if rk_child e = rk_child source then remaining_total_work R children source acc es
      else case ranked_bitmap_narrow_work R e of
             None \<Rightarrow> None
           | Some bitmap \<Rightarrow>
               (let best = (if supports_direct children (rk_child e)
                            then min bitmap (saturating_mul (rk_card source) allDirectIDWork) else bitmap)
                in remaining_total_work R children source (saturating_add acc best) es))"

definition all_source_total_work ::
  "'b roaring \<Rightarrow> ('t, 'v, 'b) child_ops list \<Rightarrow> 'b ranked list \<Rightarrow> 'b ranked \<Rightarrow> u64 option" where
  "all_source_total_work R children entries source =
     (case ranked_bitmap_work R source of
        None \<Rightarrow> None
      | Some acc \<Rightarrow> remaining_total_work R children source acc entries)"

definition select_initial_bitmap_source :: "'b roaring \<Rightarrow> ('t, 'v, 'b) child_ops list \<Rightarrow> 'b ranked list \<Rightarrow> nat" where
  "select_initial_bitmap_source R children entries =
     select_best (all_source_total_work R children entries) 0
       (all_source_total_work R children entries (hd entries)) 1 (tl entries)"

text \<open>\<open>validation\<close> and \<open>bitmap\<close> are the two running totals of \<open>shouldValidateRemaining\<close>.\<close>

fun validation_pays ::
  "'b roaring \<Rightarrow> ('t, 'v, 'b) child_ops list \<Rightarrow> u64 \<Rightarrow> u64 \<Rightarrow> u64 \<Rightarrow> 'b ranked list \<Rightarrow> bool" where
  "validation_pays R children candidates validation bitmap [] =
     (validation < bitmap \<or> validation = bitmap \<and> candidates \<le> allCandidateScanLimit)"
| "validation_pays R children candidates validation bitmap (e # es) =
     (if \<not> supports_direct children (rk_child e) then candidates \<le> allCandidateScanLimit
      else
        (let work = direct_id_operation_work children (rk_child e) (rk_bits e \<noteq> None);
             work = (if rk_bits e = None \<and> allCheapDirectIDScanLimit < candidates
                     then allUnmaterializedDirectIDWork else work);
             validation = saturating_add validation (saturating_mul candidates work)
         in case ranked_bitmap_narrow_work R e of
              None \<Rightarrow> candidates \<le> allCandidateScanLimit
            | Some narrow \<Rightarrow>
                validation_pays R children candidates validation (saturating_add bitmap narrow) es))"

definition should_validate_remaining ::
  "'b roaring \<Rightarrow> ('t, 'v, 'b) child_ops list \<Rightarrow> u64 \<Rightarrow> 'b ranked list \<Rightarrow> bool" where
  "should_validate_remaining R children candidates remaining =
     (if remaining = [] then False
      else if candidates \<le> allCandidateScanLimit
           then list_all (\<lambda>e. supports_direct children (rk_child e)) remaining
      else validation_pays R children candidates 0 0 remaining)"

definition should_validate_candidates :: "'b roaring \<Rightarrow> ('t, 'v, 'b) child_ops list \<Rightarrow> 'b ranked list \<Rightarrow> bool" where
  "should_validate_candidates R children entries =
     (if entries = [] \<or> rk_card (hd entries) = max_u64 then False
      else should_validate_remaining R children (rk_card (hd entries)) (tl entries))"

section \<open>Validation order\<close>

definition candidate_validation_score ::
  "('t, 'v, 'b) child_ops list \<Rightarrow> u64 \<Rightarrow> 'b ranked \<Rightarrow> u64 \<times> u64" where
  "candidate_validation_score children candidates e =
     (let rejected = (if rk_card e \<noteq> max_u64 \<and> rk_card e < candidates then candidates - rk_card e else 0)
      in if rk_bits e \<noteq> None then (rejected, 1)
         else if supports_direct children (rk_child e) then (rejected, 2)
         else (rejected, 4))"

definition candidate_validation_before ::
  "('t, 'v, 'b) child_ops list \<Rightarrow> u64 \<Rightarrow> 'b ranked \<Rightarrow> 'b ranked \<Rightarrow> bool" where
  "candidate_validation_before children candidates left right =
     (case (candidate_validation_score children candidates left, candidate_validation_score children candidates right) of
        ((left_rejected, left_cost), (right_rejected, right_cost)) \<Rightarrow>
          saturating_mul right_rejected left_cost < saturating_mul left_rejected right_cost)"

definition order_candidate_validation ::
  "('t, 'v, 'b) child_ops list \<Rightarrow> u64 \<Rightarrow> 'b ranked list \<Rightarrow> 'b ranked list" where
  "order_candidate_validation children candidates remaining =
     swap_sort (candidate_validation_before children candidates) remaining"

section \<open>Facts\<close>

lemma unat_saturating_add: "unat (saturating_add a b) = min (unat a + unat b) (2 ^ 64 - 1)"
proof -
  have "unat a < 2 ^ 64" using unsigned_less [of a, where 'a = nat] by simp
  then have "unat (max_u64 - a) = 2 ^ 64 - 1 - unat a"
    by (simp add: unat_sub_if_size unsigned_minus_1_eq_mask mask_eq_exp_minus_1 size_word_def)
  moreover have "unat a < 2 ^ 64" "unat b < 2 ^ 64" using unsigned_less [of a, where 'a = nat] unsigned_less [of b, where 'a = nat] by simp_all
  ultimately show ?thesis
    using unat_add_lem [of a b]
    by (auto simp: saturating_add_def word_less_nat_alt unsigned_minus_1_eq_mask mask_eq_exp_minus_1)
qed

lemma unat_saturating_mul: "unat (saturating_mul a b) = min (unat a * unat b) (2 ^ 64 - 1)"
proof (cases "a = 0")
  case False
  have b: "unat b < 2 ^ 64" using unsigned_less [of b, where 'a = nat] by simp
  have pos: "0 < unat a" using False by (simp add: word_neq_0_conv [symmetric] unat_gt_0)
  have over: "max_u64 div a < b \<longleftrightarrow> 2 ^ 64 - 1 < unat a * unat b"
    unfolding word_less_nat_alt unat_div unsigned_minus_1_eq_mask mask_eq_exp_minus_1
    using pos by (simp add: div_less_iff_less_mult mult.commute)
  show ?thesis
    using over False unat_mult_lem [of a b]
    by (auto simp: saturating_mul_def unsigned_minus_1_eq_mask mask_eq_exp_minus_1)
qed (simp add: saturating_mul_def)

lemma select_best_less: "best < i + length xs \<Longrightarrow> select_best work best bw i xs < i + length xs"
proof (induction xs arbitrary: i best bw)
  case (Cons x xs)
  from Cons.IH [of i "Suc i" "work x"] Cons.IH [of best "Suc i" bw] Cons.prems show ?case by simp
qed simp

lemma select_next_less: "es \<noteq> [] \<Longrightarrow> select_next_bitmap_operation R es < length es"
  using select_best_less [of 0 1 "tl es" "ranked_bitmap_work R" "ranked_bitmap_work R (hd es)"]
  by (cases es) (simp_all add: select_next_bitmap_operation_def)

lemma select_initial_less: "es \<noteq> [] \<Longrightarrow> select_initial_bitmap_source R children es < length es"
  using select_best_less [of 0 1 "tl es" "all_source_total_work R children es" "all_source_total_work R children es (hd es)"]
  by (cases es) (simp_all add: select_initial_bitmap_source_def)

text \<open>The scan returns a position of least known cost; an unknown cost is never preferred.\<close>

lemma select_best_least:
  assumes "best < length pre" "bw = work (pre ! best)"
    and "\<forall>y\<in>set pre. \<not> replaces bw (work y)"
  shows "\<forall>y\<in>set (pre @ xs). \<not> replaces (work ((pre @ xs) ! select_best work best bw (length pre) xs)) (work y)"
  using assms
proof (induction xs arbitrary: pre best bw)
  case Nil
  then show ?case by simp
next
  case (Cons x xs)
  show ?case
  proof (cases "replaces bw (work x)")
    case True
    have "\<forall>y\<in>set (pre @ [x]). \<not> replaces (work x) (work y)"
    proof
      fix y assume "y \<in> set (pre @ [x])"
      with Cons.prems(3) True show "\<not> replaces (work x) (work y)"
        by (auto simp: replaces_def split: option.splits dest: order.strict_trans)
    qed
    from Cons.IH [of "length pre" "pre @ [x]" "work x"] this True show ?thesis by simp
  next
    case False
    from Cons.IH [of best "pre @ [x]" bw] Cons.prems False show ?thesis by (simp add: nth_append)
  qed
qed

lemma select_next_least:
  assumes "es \<noteq> []" "e \<in> set es"
  shows "\<not> replaces (ranked_bitmap_work R (es ! select_next_bitmap_operation R es)) (ranked_bitmap_work R e)"
proof (cases es)
  case (Cons x xs)
  have "\<forall>y\<in>set [x]. \<not> replaces (ranked_bitmap_work R x) (ranked_bitmap_work R y)"
    by (simp add: replaces_def split: option.split)
  from select_best_least [of 0 "[x]" "ranked_bitmap_work R x" "ranked_bitmap_work R" xs, OF _ _ this] assms(2)
  show ?thesis by (auto simp: Cons select_next_bitmap_operation_def)
qed (use assms in simp)

text \<open>When the decision is direct validation, at most the scan limit, every remaining child can be tested.\<close>

lemma validation_pays_direct:
  "validation_pays R children candidates x y es \<Longrightarrow> allCandidateScanLimit < candidates \<Longrightarrow>
     \<forall>e\<in>set es. supports_direct children (rk_child e)"
  by (induction es arbitrary: x y) (auto simp: Let_def split: if_splits option.splits)

lemma should_validate_remaining_direct:
  "should_validate_remaining R children candidates es \<Longrightarrow> es \<noteq> [] \<and> (\<forall>e\<in>set es. supports_direct children (rk_child e))"
  by (auto simp: should_validate_remaining_def list_all_iff validation_pays_direct not_le split: if_splits)

lemma order_candidate_validation_set [simp]: "set (order_candidate_validation children n es) = set es"
  by (simp add: order_candidate_validation_def)

end
