(* ===== verification/Equality_Antonym_Rule.thy ===== *)
theory Equality_Antonym_Rule
  imports Equality_Rule Execution_Cost
begin

text \<open>
  The compiled strict antonym (\<^verbatim>\<open>equality_antonym.go\<close>): two groups of equality filters whose wildcards
  complement each other. A stored constraint without a value for one side has a value for the other,
  so the conjunction of all of them is the union of what the two sides match by value alone. The rule
  returns this union without touching the wildcards.
\<close>

section \<open>The rule\<close>

record ('t, 'v, 'k, 'b) antonym_rule =
  an_left :: "('t, 'v, 'k, 'b) eq_rule list"
  an_right :: "('t, 'v, 'k, 'b) eq_rule list"

definition an_node :: "('t, 'v, 'k, 'b) antonym_rule \<Rightarrow> nat" where
  "an_node r = er_node (hd (an_left r))"

text \<open>\<open>leftOne\<close> and \<open>rightOne\<close> are set.\<close>

definition an_single :: "('t, 'v, 'k, 'b) antonym_rule \<Rightarrow> bool" where
  "an_single r = (length (an_left r) = 1 \<and> length (an_right r) = 1)"

definition an_keys :: "('t, 'v, 'k, 'b) antonym_rule \<Rightarrow> 't \<Rightarrow> 'v query_key list" where
  "an_keys r v = map (\<lambda>operand. (Equality_Cache, eq_key operand v)) (an_left r @ an_right r)"

section \<open>One side\<close>

definition side_cardinality :: "'b roaring \<Rightarrow> ('t, 'v, 'k, 'b) eq_rule list \<Rightarrow> 't \<Rightarrow> u64" where
  "side_cardinality R side v = foldl (\<lambda>n operand. min n (eq_concrete_cardinality R operand v)) max_u64 side"

definition side_matches :: "'b roaring \<Rightarrow> ('t, 'v, 'k, 'b) eq_rule list \<Rightarrow> 't \<Rightarrow> u32 \<Rightarrow> bool" where
  "side_matches R side v i = list_all (\<lambda>operand. eq_matches_concrete R operand v i) side"

text \<open>\<open>strictEqualitySideCandidate\<close>: the smallest operand; \<open>None\<close> is the index -1.\<close>

fun side_candidate_from ::
  "'b roaring \<Rightarrow> 't \<Rightarrow> nat \<Rightarrow> ('t, 'v, 'k, 'b) eq_rule list \<Rightarrow> nat option \<times> u64 \<Rightarrow> nat option \<times> u64" where
  "side_candidate_from R v n [] best = best"
| "side_candidate_from R v n (operand # side) best =
     side_candidate_from R v (Suc n) side
       (if eq_concrete_cardinality R operand v < snd best
        then (Some n, eq_concrete_cardinality R operand v) else best)"

definition side_candidate :: "'b roaring \<Rightarrow> ('t, 'v, 'k, 'b) eq_rule list \<Rightarrow> 't \<Rightarrow> nat option \<times> u64" where
  "side_candidate R side v = side_candidate_from R v 0 side (None, max_u64)"

definition side_matches_except ::
  "'b roaring \<Rightarrow> ('t, 'v, 'k, 'b) eq_rule list \<Rightarrow> nat \<Rightarrow> 't \<Rightarrow> u32 \<Rightarrow> bool" where
  "side_matches_except R side skipped v i =
     list_all (\<lambda>n. n = skipped \<or> eq_matches_concrete R (side ! n) v i) [0..<length side]"

text \<open>The IDs of a set in the order in which the code visits them.\<close>

definition es_elements :: "'b roaring \<Rightarrow> 'b equality_set \<Rightarrow> u32 list" where
  "es_elements R s =
     (case es_bits s of
        Some b \<Rightarrow> bm_to_list R b
      | None \<Rightarrow> (case es_small s of Some xs \<Rightarrow> xs | None \<Rightarrow> [es_single s]))"

definition set_all_matches ::
  "'b roaring \<Rightarrow> 'b equality_set \<Rightarrow> ('t, 'v, 'k, 'b) eq_rule list \<Rightarrow> nat \<Rightarrow> 't \<Rightarrow> bool" where
  "set_all_matches R s side candidate v = list_all (side_matches_except R side candidate v) (es_elements R s)"

definition filter_set ::
  "'b roaring \<Rightarrow> 'b equality_set \<Rightarrow> ('t, 'v, 'k, 'b) eq_rule list \<Rightarrow> nat \<Rightarrow> 't \<Rightarrow> 'b \<Rightarrow> 'b" where
  "filter_set R s side candidate v dst =
     foldl (\<lambda>dst i. if side_matches_except R side candidate v i then bm_add R dst i else dst) dst (es_elements R s)"

text \<open>
  \<open>strictEqualityIntersectSideByCardinality\<close>: among the operands from the second on that come before
  the given cardinality and index, the greatest is applied last. \<open>select_before\<close> is its selection loop.
\<close>

fun select_before :: "u64 list \<Rightarrow> u64 \<Rightarrow> nat \<Rightarrow> nat list \<Rightarrow> nat option \<Rightarrow> nat option" where
  "select_before cards before_card before_index [] selected = selected"
| "select_before cards before_card before_index (n # ns) selected =
     select_before cards before_card before_index ns
       (if before_card < cards ! n \<or> cards ! n = before_card \<and> before_index \<le> n then selected
        else case selected of
               None \<Rightarrow> Some n
             | Some s \<Rightarrow> if cards ! s < cards ! n \<or> cards ! n = cards ! s \<and> s < n then Some n else selected)"

text \<open>The order in which the operands are applied: by cardinality, then by position.\<close>

definition rank_less :: "u64 list \<Rightarrow> nat \<Rightarrow> u64 \<Rightarrow> nat \<Rightarrow> bool" where
  "rank_less cards n c i \<longleftrightarrow> cards ! n < c \<or> cards ! n = c \<and> n < i"

definition ranks_before :: "u64 list \<Rightarrow> u64 \<Rightarrow> nat \<Rightarrow> nat set" where
  "ranks_before cards c i = {n. 1 \<le> n \<and> n < length cards \<and> rank_less cards n c i}"

lemma rank_less_not: "c < cards ! n \<or> cards ! n = c \<and> i \<le> n \<longleftrightarrow> \<not> rank_less cards n c i"
  by (auto simp: rank_less_def)

lemma rank_less_trans: "rank_less cards n (cards ! m) m \<Longrightarrow> rank_less cards m c i \<Longrightarrow> rank_less cards n c i"
  by (auto simp: rank_less_def)

lemma rank_less_irrefl [simp]: "\<not> rank_less cards n (cards ! n) n"
  by (simp add: rank_less_def)

lemma rank_less_linear: "n \<noteq> m \<Longrightarrow> rank_less cards n (cards ! m) m \<or> rank_less cards m (cards ! n) n"
  by (auto simp: rank_less_def)

lemma select_before_Cons:
  "select_before cards c i (n # ns) selected = select_before cards c i ns
     (if \<not> rank_less cards n c i then selected
      else case selected of None \<Rightarrow> Some n | Some s \<Rightarrow> if rank_less cards s (cards ! n) n then Some n else selected)"
  by (auto simp: rank_less_not rank_less_def split: option.split)

lemma select_before_spec:
  assumes "\<And>s. selected = Some s \<Longrightarrow> rank_less cards s c i"
  shows "case select_before cards c i ns selected of
      None \<Rightarrow> selected = None \<and> (\<forall>n\<in>set ns. \<not> rank_less cards n c i)
    | Some s \<Rightarrow> rank_less cards s c i \<and> s \<in> set ns \<union> set_option selected
        \<and> (\<forall>n\<in>set ns \<union> set_option selected. rank_less cards n c i \<longrightarrow> \<not> rank_less cards s (cards ! n) n)"
  using assms
proof (induction ns arbitrary: selected)
  case Nil
  then show ?case by (auto split: option.split)
next
  case (Cons n ns)
  show ?case
  proof (cases "rank_less cards n c i")
    case False
    then have step: "select_before cards c i (n # ns) selected = select_before cards c i ns selected"
      unfolding select_before_Cons by simp
    from Cons.IH [of selected] Cons.prems False show ?thesis unfolding step by (simp split: option.splits)
  next
    case True
    show ?thesis
    proof (cases selected)
      case None
      then have step: "select_before cards c i (n # ns) selected = select_before cards c i ns (Some n)"
        unfolding select_before_Cons using True by simp
      from Cons.IH [of "Some n"] None True show ?thesis unfolding step by (simp split: option.splits)
    next
      case (Some s)
      have s: "rank_less cards s c i" using Cons.prems Some by simp
      show ?thesis
      proof (cases "rank_less cards s (cards ! n) n")
        case less: True
        with Some have step: "select_before cards c i (n # ns) selected = select_before cards c i ns (Some n)"
          unfolding select_before_Cons using True by simp
        have "\<not> rank_less cards x (cards ! s) s" if "\<not> rank_less cards x (cards ! n) n" for x
          using that less rank_less_trans by blast
        with Cons.IH [of "Some n"] Some True show ?thesis unfolding step by (simp split: option.splits)
      next
        case False
        with Some have step: "select_before cards c i (n # ns) selected = select_before cards c i ns (Some s)"
          unfolding select_before_Cons using True by simp
        have "\<not> rank_less cards x (cards ! n) n" if "\<not> rank_less cards x (cards ! s) s" for x
          using that False rank_less_linear [of n s cards] rank_less_trans by metis
        with Cons.IH [of "Some s"] Some True s show ?thesis unfolding step by (simp split: option.splits) blast
      qed
    qed
  qed
qed

lemma select_before_Some:
  assumes "select_before cards c i [1..<length cards] None = Some s"
  shows "s \<in> ranks_before cards c i" "ranks_before cards c i = insert s (ranks_before cards (cards ! s) s)"
proof -
  have s: "rank_less cards s c i" "s \<in> set [1..<length cards]"
    and max: "\<And>n. n \<in> set [1..<length cards] \<Longrightarrow> rank_less cards n c i \<Longrightarrow> \<not> rank_less cards s (cards ! n) n"
    using select_before_spec [of None cards c i "[1..<length cards]"] assms by auto
  then show "s \<in> ranks_before cards c i" by (simp add: ranks_before_def)
  show "ranks_before cards c i = insert s (ranks_before cards (cards ! s) s)"
  proof (intro equalityI subsetI)
    fix n assume "n \<in> ranks_before cards c i"
    then have n: "1 \<le> n" "n < length cards" "rank_less cards n c i" by (auto simp: ranks_before_def)
    then have "n = s \<or> rank_less cards n (cards ! s) s" using max [of n] rank_less_linear [of s n cards] by auto
    with n show "n \<in> insert s (ranks_before cards (cards ! s) s)" by (auto simp: ranks_before_def)
  next
    fix n assume "n \<in> insert s (ranks_before cards (cards ! s) s)"
    with s show "n \<in> ranks_before cards c i" by (auto simp: ranks_before_def dest: rank_less_trans)
  qed
qed

lemma select_before_None: "select_before cards c i [1..<length cards] None = None \<Longrightarrow> ranks_before cards c i = {}"
  using select_before_spec [of None cards c i "[1..<length cards]"] by (auto simp: ranks_before_def)

text \<open>The recursion: the operands before the selected one first. The result is Go's boolean and the bitmap.\<close>

function intersect_side ::
  "'b roaring \<Rightarrow> ('t, 'v, 'k, 'b) eq_rule list \<Rightarrow> 't \<Rightarrow> u64 \<Rightarrow> nat \<Rightarrow> 'b \<Rightarrow> bool \<times> 'b" where
  "intersect_side R side v before_card before_index bits =
     (let cards = map (\<lambda>operand. eq_concrete_cardinality R operand v) side
      in case select_before cards before_card before_index [1..<length cards] None of
           None \<Rightarrow> (True, bits)
         | Some s \<Rightarrow>
             (case intersect_side R side v (cards ! s) s bits of
                (False, bits) \<Rightarrow> (False, bits)
              | (True, bits) \<Rightarrow>
                  (let bits = eq_intersect_concrete R (side ! s) v bits in (\<not> bm_is_empty R bits, bits))))"
  by pat_completeness auto
termination
proof (relation "measure (\<lambda>(R, side, v, c, i, bits). card (ranks_before (map (\<lambda>operand. eq_concrete_cardinality R operand v) side) c i))", goal_cases)
  case (2 R side v c i bits cards s)
  have "finite (ranks_before cards c i)" for c i by (simp add: ranks_before_def)
  moreover have "s \<notin> ranks_before cards (cards ! s) s" by (simp add: ranks_before_def)
  ultimately show ?case using select_before_Some [of cards c i s] 2 by simp
qed simp

declare intersect_side.simps [simp del]

section \<open>Operations\<close>

text \<open>The loop over the operands from the second on, when the first is the smallest.\<close>

fun intersect_operands :: "'b roaring \<Rightarrow> 't \<Rightarrow> ('t, 'v, 'k, 'b) eq_rule list \<Rightarrow> 'b \<Rightarrow> 'b" where
  "intersect_operands R v [] bits = bits"
| "intersect_operands R v (operand # side) bits =
     (let bits = eq_intersect_concrete R operand v bits
      in if bm_is_empty R bits then bits else intersect_operands R v side bits)"

definition side_bitmap ::
  "'b roaring \<Rightarrow> ('t, 'v, 'k, 'b) eq_rule list \<Rightarrow> nat option \<Rightarrow> 't \<Rightarrow> 'b" where
  "side_bitmap R side candidate v =
     (let bits = eq_add_concrete R (hd side) v (bm_new R)
      in if candidate = Some 0 then intersect_operands R v (tl side) bits
         else snd (intersect_side R side v max_u64 (length side) bits))"

definition add_side_matches :: "'b roaring \<Rightarrow> ('t, 'v, 'k, 'b) eq_rule list \<Rightarrow> 't \<Rightarrow> 'b \<Rightarrow> 'b" where
  "add_side_matches R side v dst =
     (if length side = 1 then eq_add_concrete R (hd side) v dst
      else case side_candidate R side v of
             (Some n, cardinality) \<Rightarrow>
               (if cardinality = 0 then dst
                else if cardinality \<le> allCheapDirectIDScanLimit
                then (let candidates = the (eq_set (side ! n) v)
                      in if set_all_matches R candidates side n v then es_add_to R candidates dst
                         else filter_set R candidates side n v dst)
                else bm_or R dst (side_bitmap R side (Some n) v))
           | (None, cardinality) \<Rightarrow> bm_or R dst (side_bitmap R side None v))"

definition an_add_matches :: "'b roaring \<Rightarrow> ('t, 'v, 'k, 'b) antonym_rule \<Rightarrow> 't \<Rightarrow> 'b \<Rightarrow> 'b" where
  "an_add_matches R r v dst =
     (if an_single r then eq_add_concrete R (hd (an_right r)) v (eq_add_concrete R (hd (an_left r)) v dst)
      else add_side_matches R (an_right r) v (add_side_matches R (an_left r) v dst))"

definition an_estimate :: "'b roaring \<Rightarrow> ('t, 'v, 'k, 'b) antonym_rule \<Rightarrow> 't \<Rightarrow> u64" where
  "an_estimate R r v =
     (if an_single r
      then eq_concrete_cardinality R (hd (an_left r)) v + eq_concrete_cardinality R (hd (an_right r)) v
      else side_cardinality R (an_left r) v + side_cardinality R (an_right r) v)"

definition an_matches_id :: "'b roaring \<Rightarrow> ('t, 'v, 'k, 'b) antonym_rule \<Rightarrow> 't \<Rightarrow> u32 \<Rightarrow> bool" where
  "an_matches_id R r v i =
     (if an_single r
      then eq_matches_concrete R (hd (an_left r)) v i \<or> eq_matches_concrete R (hd (an_right r)) v i
      else side_matches R (an_left r) v i \<or> side_matches R (an_right r) v i)"

definition an_direct_work :: "('t, 'v, 'k, 'b) antonym_rule \<Rightarrow> u64" where
  "an_direct_work r =
     (if an_single r then 2 * allEqualityDirectIDWork
      else of_nat (length (an_left r) + length (an_right r)) * allEqualityDirectIDWork)"

definition an_search ::
  "'b roaring \<Rightarrow> ('t, 'v, 'k, 'b) antonym_rule \<Rightarrow> 't \<Rightarrow> ('v, 'b) pool \<Rightarrow> 'b \<Rightarrow> 'b \<times> ('v, 'b) pool" where
  "an_search R r v p dst = antonym_search R (an_node r) (an_add_matches R r v) (an_keys r v) p dst"

definition an_lookup_cached ::
  "('t, 'v, 'k, 'b) antonym_rule \<Rightarrow> 't \<Rightarrow> ('v, 'b) pool \<Rightarrow> ('b \<times> source) option \<times> ('v, 'b) pool" where
  "an_lookup_cached r v p = antonym_lookup (an_node r) (an_keys r v) p"

text \<open>\<open>strictEqualitySidePlanningBitmap\<close>: the bitmap, and whether the side is empty and direct.\<close>

fun side_planning_from ::
  "'t \<Rightarrow> ('t, 'v, 'k, 'b) eq_rule list \<Rightarrow> ('b \<times> source) option \<Rightarrow> ('b \<times> source) option \<times> bool \<times> bool" where
  "side_planning_from v [] bits = (bits, False, True)"
| "side_planning_from v (operand # side) bits =
     (case eq_components operand v of
        (posting, direct) \<Rightarrow>
          (if \<not> direct then (None, False, False)
           else if posting = None then (None, True, True)
           else side_planning_from v side posting))"

definition side_planning :: "('t, 'v, 'k, 'b) eq_rule list \<Rightarrow> 't \<Rightarrow> ('b \<times> source) option \<times> bool \<times> bool" where
  "side_planning side v =
     (case side_planning_from v side None of
        (bits, vacant, direct) \<Rightarrow> (if length side \<noteq> 1 then None else bits, vacant, direct))"

definition an_lookup_planning :: "('t, 'v, 'k, 'b) antonym_rule \<Rightarrow> 't \<Rightarrow> ('b \<times> source) option" where
  "an_lookup_planning r v =
     (if an_single r
      then case (eq_components (hd (an_left r)) v, eq_components (hd (an_right r)) v) of
             ((left, left_direct), (right, right_direct)) \<Rightarrow>
               (if \<not> left_direct \<or> \<not> right_direct \<or> left \<noteq> None \<and> right \<noteq> None then None
                else if left \<noteq> None then left else right)
      else case (side_planning (an_left r) v, side_planning (an_right r) v) of
             ((left, left_empty, left_direct), (right, right_empty, right_direct)) \<Rightarrow>
               (if \<not> left_direct \<or> \<not> right_direct then None
                else if right_empty \<and> left \<noteq> None then left
                else if left_empty \<and> right \<noteq> None then right else None))"

definition an_ops :: "'b roaring \<Rightarrow> ('t, 'v, 'k, 'b) antonym_rule \<Rightarrow> ('t, 'v, 'b) child_ops" where
  "an_ops R r =
     \<lparr>co_search = an_search R r, co_planning = Some (an_lookup_planning r),
      co_cached = Some (an_lookup_cached r), co_direct = Some (an_matches_id R r),
      co_work = Some (an_direct_work r), co_filter = None,
      co_keys = concat (map (\<lambda>operand. co_keys (eq_ops R operand)) (an_left r @ an_right r)),
      co_estimate = Some (an_estimate R r), co_cached_estimate = None,
      co_cheap = Some (an_estimate R r), co_cheap_zero = Some (\<lambda>v. an_estimate R r v = 0),
      co_zero = Some (\<lambda>v. an_estimate R r v = 0), co_shared = None, co_class = None\<rparr>"

section \<open>What it denotes\<close>

definition side_den :: "'b roaring \<Rightarrow> ('t, 'v, 'k, 'b) eq_rule list \<Rightarrow> 't \<Rightarrow> u32 set" where
  "side_den R side v = (\<Inter>operand\<in>set side. eq_concrete R operand v)"

definition an_den :: "'b roaring \<Rightarrow> ('t, 'v, 'k, 'b) antonym_rule \<Rightarrow> 't \<Rightarrow> u32 set" where
  "an_den R r v = side_den R (an_left r) v \<union> side_den R (an_right r) v"

text \<open>The same from the keys that the cache stores.\<close>

definition eq_key_concrete :: "'b roaring \<Rightarrow> ('t, 'v, 'k, 'b) eq_rule \<Rightarrow> 'v option \<Rightarrow> u32 set" where
  "eq_key_concrete R r value = (case value of None \<Rightarrow> {} | Some x \<Rightarrow> ei_posting R (er_values r) (er_encode r x))"

definition side_key_den :: "'b roaring \<Rightarrow> ('t, 'v, 'k, 'b) eq_rule list \<Rightarrow> 'v query_key list \<Rightarrow> u32 set" where
  "side_key_den R side keys = (\<Inter>(operand, key)\<in>set (zip side keys). eq_key_concrete R operand (fst (snd key)))"

definition an_key_den :: "'b roaring \<Rightarrow> ('t, 'v, 'k, 'b) antonym_rule \<Rightarrow> 'v query_key list \<Rightarrow> u32 set" where
  "an_key_den R r keys =
     side_key_den R (an_left r) (take (length (an_left r)) keys) \<union> side_key_den R (an_right r) (drop (length (an_left r)) keys)"

definition an_ready :: "'b roaring \<Rightarrow> 'v valuation \<Rightarrow> ('t, 'v, 'k, 'b) antonym_rule \<Rightarrow> bool" where
  "an_ready R G r \<longleftrightarrow> an_left r \<noteq> [] \<and> an_right r \<noteq> [] \<and> (\<forall>operand\<in>set (an_left r @ an_right r). eq_building operand)
     \<and> (\<forall>keys. va_antonym G (an_node r) keys = an_key_den R r keys)"

lemma side_key_den: "side_key_den R side (map (\<lambda>operand. (Equality_Cache, eq_key operand v)) side) = side_den R side v"
proof -
  have "zip side (map (\<lambda>operand. (Equality_Cache, eq_key operand v)) side) = map (\<lambda>operand. (operand, (Equality_Cache, eq_key operand v))) side"
    by (simp add: zip_map2 zip_same_conv_map)
  then show ?thesis by (simp add: side_key_den_def side_den_def eq_key_concrete_def eq_concrete_def eq_key_def)
qed

lemma an_key_den: "an_key_den R r (an_keys r v) = an_den R r v"
  by (simp add: an_key_den_def an_keys_def an_den_def side_key_den)

section \<open>The operations are sound\<close>

context roaring
begin

abbreviation cards :: "('t, 'v, 'k, 'b) eq_rule list \<Rightarrow> 't \<Rightarrow> u64 list" where
  "cards side v \<equiv> map (\<lambda>operand. eq_concrete_cardinality R operand v) side"

lemma side_matches_iff:
  "\<forall>operand\<in>set side. eq_building operand \<Longrightarrow> side_matches R side v i \<longleftrightarrow> i \<in> side_den R side v"
  by (simp add: side_matches_def list_all_iff side_den_def eq_matches_concrete_iff)

lemma eq_concrete_cardinality_zero:
  "eq_building r \<Longrightarrow> eq_concrete_cardinality R r v = 0 \<longleftrightarrow> eq_concrete R r v = {}"
  by (simp add: eq_concrete_cardinality_eq of_nat_u64_card_eq_0)

lemma side_cardinality_bound:
  assumes "\<forall>operand\<in>set side. eq_building operand" "side \<noteq> []"
  shows "\<exists>operand\<in>set side. side_cardinality R side v = eq_concrete_cardinality R operand v"
proof -
  let ?f = "\<lambda>operand. eq_concrete_cardinality R operand v"
  have "foldl (\<lambda>n operand. min n (?f operand)) m side = Min (insert m (?f ` set side))" for m
  proof (induction side arbitrary: m)
    case (Cons operand side)
    have "Min (insert (min m (?f operand)) A) = Min (insert m (insert (?f operand) A))" if "finite A" for A
      using that by (cases "A = {}") (simp_all add: min.assoc)
    with Cons.IH show ?case by simp
  qed simp
  then have eq: "side_cardinality R side v = Min (insert max_u64 (?f ` set side))" by (simp add: side_cardinality_def)
  have "Min (?f ` set side) \<le> max_u64" by (rule word_n1_ge)
  then have "side_cardinality R side v = Min (?f ` set side)" using assms(2) by (simp add: eq min_absorb2)
  moreover have "Min (?f ` set side) \<in> ?f ` set side" using assms(2) by (intro Min_in) auto
  ultimately show ?thesis by auto
qed

lemma side_cardinality_zero:
  assumes "\<forall>operand\<in>set side. eq_building operand" "side \<noteq> []" "side_cardinality R side v = 0"
  shows "side_den R side v = {}"
  using side_cardinality_bound [OF assms(1,2), of v] assms(1,3) eq_concrete_cardinality_zero
  by (force simp: side_den_def)

lemma side_cardinality_small:
  assumes "\<forall>operand\<in>set side. eq_building operand" "side \<noteq> []"
  shows "\<exists>A :: u32 set. side_cardinality R side v = of_nat (card A)"
  using side_cardinality_bound [OF assms, of v] assms(1) by (auto simp: eq_concrete_cardinality_eq)

text \<open>The selected candidate.\<close>

lemma side_candidate_from_spec:
  assumes "side_candidate_from R v n side best = (Some m, c)"
  shows "best = (Some m, c) \<or> n \<le> m \<and> m < n + length side \<and> c = eq_concrete_cardinality R (side ! (m - n)) v"
  using assms
proof (induction side arbitrary: n best)
  case (Cons operand side)
  from Cons.prems Cons.IH [of "Suc n" "if eq_concrete_cardinality R operand v < snd best
        then (Some n, eq_concrete_cardinality R operand v) else best"]
  show ?case by (auto simp: nth_Cons' Suc_diff_Suc split: if_splits)
qed simp

lemma side_candidate_spec:
  assumes "side_candidate R side v = (Some m, c)"
  shows "m < length side" "c = eq_concrete_cardinality R (side ! m) v"
  using side_candidate_from_spec [of v 0 side "(None, max_u64)" m c] assms by (auto simp: side_candidate_def)

lemma es_elements_set: "es_ok s \<Longrightarrow> set (es_elements R s) = es_ids R s"
  by (auto simp: es_elements_def es_ids_def to_list_set split: option.split)

lemma filter_set_ids:
  "bm_ids R (filter_set R s side n v dst)
    = bm_ids R dst \<union> {i \<in> set (es_elements R s). side_matches_except R side n v i}"
proof -
  have "bm_ids R (foldl (\<lambda>dst i. if side_matches_except R side n v i then bm_add R dst i else dst) dst xs)
      = bm_ids R dst \<union> {i \<in> set xs. side_matches_except R side n v i}" for xs dst
    by (induction xs arbitrary: dst) (auto simp: ids_add)
  then show ?thesis by (simp add: filter_set_def)
qed

lemma side_matches_except_iff:
  assumes "\<forall>operand\<in>set side. eq_building operand" "n < length side" "i \<in> eq_concrete R (side ! n) v"
  shows "side_matches_except R side n v i \<longleftrightarrow> i \<in> side_den R side v"
proof -
  have "i \<in> side_den R side v \<longleftrightarrow> (\<forall>m<length side. i \<in> eq_concrete R (side ! m) v)"
    by (force simp: side_den_def in_set_conv_nth)
  moreover have "eq_matches_concrete R (side ! m) v i \<longleftrightarrow> i \<in> eq_concrete R (side ! m) v" if "m < length side" for m
    using assms(1) that by (simp add: eq_matches_concrete_iff)
  moreover have "side_matches_except R side n v i \<longleftrightarrow> (\<forall>m<length side. m = n \<or> eq_matches_concrete R (side ! m) v i)"
    by (auto simp: side_matches_except_def list_all_iff)
  ultimately show ?thesis using assms(2,3) by metis
qed

lemma intersect_side_ids:
  assumes "\<forall>operand\<in>set side. eq_building operand"
  shows "(case intersect_side R side v c i bits of (ok, bits') \<Rightarrow>
      bm_ids R bits' = bm_ids R bits \<inter> (\<Inter>n\<in>ranks_before (cards side v) c i. eq_concrete R (side ! n) v)
      \<and> (\<not> ok \<longrightarrow> bm_ids R bits' = {}))"
proof (induction "card (ranks_before (cards side v) c i)" arbitrary: c i rule: less_induct)
  case less
  show ?case
  proof (cases "select_before (cards side v) c i [1..<length side] None")
    case None
    then have "ranks_before (cards side v) c i = {}" using select_before_None [of "cards side v" c i] by simp
    with None show ?thesis by (simp add: intersect_side.simps [of R side v c i])
  next
    case (Some s)
    let ?c = "cards side v ! s"
    have sel: "select_before (cards side v) c i [1..<length (cards side v)] None = Some s" using Some by simp
    note s = select_before_Some [OF sel]
    have len: "s < length side" using s(1) by (simp add: ranks_before_def)
    have fin: "finite (ranks_before (cards side v) ?c s)" "s \<notin> ranks_before (cards side v) ?c s"
      by (simp_all add: ranks_before_def)
    obtain ok bits1 where rec: "intersect_side R side v ?c s bits = (ok, bits1)" by fastforce
    have "card (ranks_before (cards side v) ?c s) < card (ranks_before (cards side v) c i)"
      unfolding s(2) using fin by simp
    from less [OF this] rec have ids: "bm_ids R bits1 = bm_ids R bits \<inter> (\<Inter>n\<in>ranks_before (cards side v) ?c s. eq_concrete R (side ! n) v)"
      and no: "\<not> ok \<Longrightarrow> bm_ids R bits1 = {}" by auto
    have bld: "eq_building (side ! s)" using assms len by simp
    show ?thesis
    proof (cases ok)
      case True
      then show ?thesis using Some rec ids len
        by (auto simp: intersect_side.simps [of R side v c i] Let_def s(2) eq_intersect_concrete_ids [OF bld] is_empty_iff)
    next
      case False
      then show ?thesis using Some rec ids no
        by (auto simp: intersect_side.simps [of R side v c i] Let_def s(2))
    qed
  qed
qed

lemma intersect_operands_ids:
  "\<forall>operand\<in>set side. eq_building operand \<Longrightarrow>
    bm_ids R (intersect_operands R v side bits) = bm_ids R bits \<inter> (\<Inter>operand\<in>set side. eq_concrete R operand v)"
  by (induction side arbitrary: bits) (auto simp: Let_def eq_intersect_concrete_ids is_empty_iff)

lemma side_bitmap_ids:
  assumes bld: "\<forall>operand\<in>set side. eq_building operand" and "side \<noteq> []"
  shows "bm_ids R (side_bitmap R side candidate v) = side_den R side v"
proof -
  obtain first rest where side: "side = first # rest" using assms(2) by (cases side) auto
  have first: "bm_ids R (eq_add_concrete R first v (bm_new R)) = eq_concrete R first v"
    using bld by (simp add: side eq_add_concrete_ids ids_new)
  show ?thesis
  proof (cases "candidate = Some 0")
    case True
    with bld first show ?thesis by (simp add: side_bitmap_def side intersect_operands_ids side_den_def)
  next
    case False
    have all: "ranks_before (cards side v) max_u64 (length side) = {1..<length side}"
      by (auto simp: ranks_before_def rank_less_def simp flip: word_order.not_eq_extremum)
    obtain ok bits where run: "intersect_side R side v max_u64 (length side) (eq_add_concrete R first v (bm_new R)) = (ok, bits)"
      by fastforce
    have "bm_ids R bits = eq_concrete R first v \<inter> (\<Inter>n\<in>{1..<length side}. eq_concrete R (side ! n) v)"
      using intersect_side_ids [OF bld, where v = v and c = max_u64 and i = "length side" and bits = "eq_add_concrete R first v (bm_new R)"] run
      by (simp add: all first)
    moreover have "side_den R side v = (\<Inter>n<length side. eq_concrete R (side ! n) v)"
      by (force simp: side_den_def in_set_conv_nth)
    moreover have "{..<length side} = insert 0 {1..<length side}" by (auto simp: side)
    ultimately show ?thesis using False run by (simp add: side_bitmap_def side)
  qed
qed

lemma add_side_matches_ids:
  assumes bld: "\<forall>operand\<in>set side. eq_building operand" and ne: "side \<noteq> []"
  shows "bm_ids R (add_side_matches R side v dst) = bm_ids R dst \<union> side_den R side v"
proof (cases "length side = 1")
  case True
  then obtain operand where "side = [operand]" by (cases side) auto
  with bld show ?thesis by (simp add: add_side_matches_def side_den_def eq_add_concrete_ids)
next
  case False
  obtain candidate c where cand: "side_candidate R side v = (candidate, c)" by fastforce
  have bits: "bm_ids R (bm_or R dst (side_bitmap R side x v)) = bm_ids R dst \<union> side_den R side v" for x
    by (simp add: ids_or side_bitmap_ids [OF bld ne])
  show ?thesis
  proof (cases candidate)
    case None
    with False cand bits show ?thesis by (simp add: add_side_matches_def)
  next
    case (Some n)
    note n = side_candidate_spec [OF cand [unfolded Some]]
    have operand: "eq_building (side ! n)" using bld n(1) by simp
    have sub: "side_den R side v \<subseteq> eq_concrete R (side ! n) v" using n(1) by (auto simp: side_den_def)
    show ?thesis
    proof (cases "c = 0 \<or> \<not> c \<le> allCheapDirectIDScanLimit")
      case True
      have "c = 0 \<Longrightarrow> side_den R side v = {}"
        using sub n(2) eq_concrete_cardinality_zero [OF operand, of v] by auto
      with True False cand Some bits show ?thesis by (auto simp: add_side_matches_def)
    next
      case small: False
      then have "eq_set (side ! n) v \<noteq> None"
        using n(2) by (auto simp: eq_concrete_cardinality_def split: option.splits)
      then obtain s where s: "eq_set (side ! n) v = Some s" by auto
      note set = eq_set_Some(1) [OF operand s] eq_set_Some(2) [OF operand s, of R]
      have elems: "set (es_elements R s) = eq_concrete R (side ! n) v" by (simp add: es_elements_set set)
      have except: "side_matches_except R side n v i \<longleftrightarrow> i \<in> side_den R side v" if "i \<in> eq_concrete R (side ! n) v" for i
        by (rule side_matches_except_iff [OF bld n(1) that])
      have run: "add_side_matches R side v dst =
          (if set_all_matches R s side n v then es_add_to R s dst else filter_set R s side n v dst)"
        using False cand Some small s by (simp add: add_side_matches_def Let_def)
      show ?thesis
      proof (cases "set_all_matches R s side n v")
        case True
        then have "eq_concrete R (side ! n) v \<subseteq> side_den R side v"
          using except by (auto simp: set_all_matches_def list_all_iff elems)
        with sub True set show ?thesis by (simp add: run es_ids_add_to)
      next
        case False
        have "{i \<in> eq_concrete R (side ! n) v. side_matches_except R side n v i} = side_den R side v"
          using except sub by auto
        with False show ?thesis by (simp add: run filter_set_ids elems)
      qed
    qed
  qed
qed

lemma single_sides:
  assumes "an_single r"
  shows "an_left r = [hd (an_left r)]" "an_right r = [hd (an_right r)]"
  using assms by (cases "an_left r"; cases "an_right r"; simp add: an_single_def)+

lemma single_den:
  assumes "an_single r"
  shows "side_den R (an_left r) v = eq_concrete R (hd (an_left r)) v" "side_den R (an_right r) v = eq_concrete R (hd (an_right r)) v"
  by (subst single_sides [OF assms], simp add: side_den_def)+

lemma an_sides:
  assumes "an_ready R G r"
  shows "an_left r \<noteq> []" "an_right r \<noteq> []" "\<forall>operand\<in>set (an_left r). eq_building operand"
    "\<forall>operand\<in>set (an_right r). eq_building operand" "eq_building (hd (an_left r))" "eq_building (hd (an_right r))"
  using assms by (auto simp: an_ready_def)

lemma an_add_matches_ids:
  assumes "an_ready R G r"
  shows "bm_ids R (an_add_matches R r v dst) = bm_ids R dst \<union> an_den R r v"
  using an_sides [OF assms] single_den [of r v]
  by (auto simp: an_add_matches_def an_den_def eq_add_concrete_ids add_side_matches_ids)

lemma an_matches_id_iff:
  assumes "an_ready R G r"
  shows "an_matches_id R r v i \<longleftrightarrow> i \<in> an_den R r v"
  using an_sides [OF assms] single_den [of r v]
  by (auto simp: an_matches_id_def an_den_def eq_matches_concrete_iff side_matches_iff)

lemma an_estimate_zero:
  assumes "an_ready R G r" "an_estimate R r v = 0"
  shows "an_den R r v = {}"
proof (cases "an_single r")
  case True
  with an_sides [OF assms(1)] assms(2) single_den [OF True, of v] show ?thesis
    by (simp add: an_estimate_def an_den_def eq_concrete_cardinality_eq card_sum_zero)
next
  case False
  note side = an_sides [OF assms(1)]
  obtain A B :: "u32 set" where "side_cardinality R (an_left r) v = of_nat (card A)" "side_cardinality R (an_right r) v = of_nat (card B)"
    using side_cardinality_small [OF side(3,1), of v] side_cardinality_small [OF side(4,2), of v] by blast
  with False assms(2) have "side_cardinality R (an_left r) v = 0" "side_cardinality R (an_right r) v = 0"
    by (auto simp: an_estimate_def card_sum_zero of_nat_u64_card_eq_0)
  with side_cardinality_zero [OF side(3,1)] side_cardinality_zero [OF side(4,2)] show ?thesis by (simp add: an_den_def)
qed

text \<open>Planning: a side is at hand as one posting, or known to match nothing.\<close>

lemma side_planning_from_spec:
  assumes "side_planning_from v side prev = (bits, vacant, True)" "\<forall>operand\<in>set side. eq_building operand"
  shows "vacant \<Longrightarrow> side_den R side v = {} \<and> bits = None" "\<not> vacant \<Longrightarrow> bits = (if side = [] then prev else fst (eq_components (last side) v))
     \<and> (\<forall>operand\<in>set side. snd (eq_components operand v))"
  using assms
proof (induction v side prev rule: side_planning_from.induct)
  case (2 v operand side prev)
  obtain posting direct where comp: "eq_components operand v = (posting, direct)" by fastforce
  {
    case 1
    then have direct: "direct" using comp by (auto split: if_splits)
    show ?case
    proof (cases "posting = None")
      case True
      with eq_components_ids [of operand v None] comp direct 1 show ?thesis by (simp add: side_den_def)
    next
      case False
      with 1 comp direct "2.IH"(1) [OF comp [symmetric]] show ?thesis by (simp add: side_den_def)
    qed
  next
    case 2
    then have "direct" "posting \<noteq> None" using comp by (auto split: if_splits)
    with 2 comp "2.IH"(2) [OF comp [symmetric]] show ?case by auto
  }
qed auto

lemma side_planning_spec:
  assumes "side_planning side v = (bits, vacant, True)" "\<forall>operand\<in>set side. eq_building operand" "side \<noteq> []"
  shows "vacant \<Longrightarrow> side_den R side v = {}"
    "\<And>b s. bits = Some (b, s) \<Longrightarrow> bm_ids R b = side_den R side v \<and> (\<exists>n. s = Posting n)"
proof -
  obtain bits' where run: "side_planning_from v side None = (bits', vacant, True)"
    and bits: "bits = (if length side \<noteq> 1 then None else bits')"
    using assms(1) by (auto simp: side_planning_def split: prod.splits)
  note spec = side_planning_from_spec [OF run assms(2)]
  show "vacant \<Longrightarrow> side_den R side v = {}" using spec(1) by blast
  fix b s assume "bits = Some (b, s)"
  with spec(1) bits have b: "bits = Some (b, s)" "\<not> vacant" by (auto split: if_splits)
  then obtain operand where side: "side = [operand]" using bits by (cases side) (auto split: if_splits)
  have "eq_components operand v = (Some (b, s), True)"
    using spec(2) b bits side by (cases "eq_components operand v") auto
  with eq_components_ids [of operand v "Some (b, s)"] assms(2) side show "bm_ids R b = side_den R side v \<and> (\<exists>n. s = Posting n)"
    by (simp add: side_den_def)
qed

lemma an_planning_ids:
  assumes ready: "an_ready R G r" and look: "an_lookup_planning r v = Some (b, s)"
  shows "bm_ids R b = an_den R r v \<and> (\<exists>n. s = Posting n)"
proof (cases "an_single r")
  case True
  obtain lp ld rp rd where comp: "eq_components (hd (an_left r)) v = (lp, ld)" "eq_components (hd (an_right r)) v = (rp, rd)"
    by fastforce
  have direct: "ld" "rd" and one: "lp = None \<or> rp = None" "lp = Some (b, s) \<or> rp = Some (b, s)"
    using look True comp by (cases lp; cases rp; simp add: an_lookup_planning_def split: if_splits)+
  from eq_components_ids [OF an_sides(5) [OF ready], of v lp] eq_components_ids [OF an_sides(6) [OF ready], of v rp]
    comp direct one single_den [OF True, of v]
  show ?thesis by (auto simp: an_den_def)
next
  case False
  obtain lp le ld rp re rd where plan: "side_planning (an_left r) v = (lp, le, ld)" "side_planning (an_right r) v = (rp, re, rd)"
    by (metis prod_cases3)
  have cases: "ld = True" "rd = True" "re \<and> lp = Some (b, s) \<or> le \<and> rp = Some (b, s)"
    using look False plan by (auto simp: an_lookup_planning_def split: if_splits)
  note l = side_planning_spec [OF plan(1) [unfolded cases(1)] an_sides(3,1) [OF ready]]
  note r = side_planning_spec [OF plan(2) [unfolded cases(2)] an_sides(4,2) [OF ready]]
  from cases(3) show ?thesis
  proof
    assume "re \<and> lp = Some (b, s)"
    with l r show ?thesis by (auto simp: an_den_def)
  next
    assume "le \<and> rp = Some (b, s)"
    with l r show ?thesis by (auto simp: an_den_def)
  qed
qed

lemma an_ops_ok:
  assumes ready: "an_ready R G r"
  shows "ops_ok R G (an_ops R r) (an_den R r)"
proof -
  have den: "va_antonym G (an_node r) (an_keys r v) = an_den R r v" for v
    using ready by (simp add: an_ready_def an_key_den)
  have fill: "bm_ids R (an_add_matches R r v d) = bm_ids R d \<union> va_antonym G (an_node r) (an_keys r v)" for v d
    by (simp add: an_add_matches_ids [OF ready] den)
  have "search_ok R G (an_ops R r) (an_den R r)"
    unfolding search_ok_def using antonym_search_spec [OF _ fill] by (simp add: an_ops_def an_search_def den)
  moreover have "cached_ok R G (an_ops R r) (an_den R r)"
    unfolding cached_ok_def
  proof (intro allI impI)
    fix f v p x p'
    assume f: "co_cached (an_ops R r) = Some f" and p: "pool_ok R G p" and run: "f v p = (x, p')"
    have look: "antonym_lookup (an_node r) (an_keys r v) p = (x, p')"
      using f run by (auto simp: an_ops_def an_lookup_cached_def)
    show "pool_ok R G p' \<and> pool_step p p' \<and> (po_local p = None \<longrightarrow> x = None)
        \<and> (\<forall>b s. x = Some (b, s) \<longrightarrow> bm_ids R b = an_den R r v \<and> source_content p' s = Some b)"
      using antonym_lookup_spec [OF p look] by (simp add: den)
  qed
  moreover have keys: "an_den R r v = an_den R r w"
    if "\<forall>k\<in>set (co_keys (an_ops R r)). \<exists>kp. k = Some kp \<and> kp_matches kp v (kp_key kp w)" for v w
  proof -
    have "eq_concrete R operand v = eq_concrete R operand w" if "operand \<in> set (an_left r @ an_right r)" for operand
    proof -
      let ?provider = "\<lparr>kp_key = \<lambda>v. (Equality_Cache, eq_key operand v), kp_matches = \<lambda>v key. key = (Equality_Cache, eq_key operand v)\<rparr>"
      have "Some ?provider \<in> set (co_keys (an_ops R r))" using that by (auto simp: an_ops_def eq_ops_def)
      with \<open>\<forall>k\<in>set (co_keys (an_ops R r)). \<exists>kp. k = Some kp \<and> kp_matches kp v (kp_key kp w)\<close>
      have "\<exists>kp. Some ?provider = Some kp \<and> kp_matches kp v (kp_key kp w)" by (rule bspec)
      then have "eq_key operand w = eq_key operand v" by auto
      then show ?thesis by (simp add: eq_key_def eq_concrete_def)
    qed
    then show ?thesis by (simp add: an_den_def side_den_def)
  qed
  have "static_ok R (an_ops R r) (an_den R r)"
    unfolding static_ok_def using keys
    by (simp add: an_ops_def an_matches_id_iff [OF ready] an_planning_ids [OF ready])
  moreover have "estimates_ok R G (an_ops R r) (an_den R r)"
    unfolding estimates_ok_def using an_estimate_zero [OF ready] by (simp add: an_ops_def)
  ultimately show ?thesis by (simp add: ops_ok_def)
qed

end

interpretation antonym_filter: searchable an_ready an_ops an_den
  by unfold_locales (rule roaring.an_ops_ok)

section \<open>Strict complements\<close>

definition strict_wildcard_complements ::
  "'b roaring \<Rightarrow> ('t, 'v, 'k, 'b) eq_rule \<Rightarrow> ('t, 'v, 'k, 'b) eq_rule \<Rightarrow> bool" where
  "strict_wildcard_complements R left right =
     (eq_universe R left = eq_universe R right
      \<and> bm_card R (er_wildcard left) + bm_card R (er_wildcard right)
          - 2 * bm_and_card R (er_wildcard left) (er_wildcard right) = eq_universe R left)"

text \<open>A rule with few enough sets that its universe does not wrap around.\<close>

definition eq_bounded :: "('t, 'v, 'k, 'b) eq_rule \<Rightarrow> bool" where
  "eq_bounded r \<longleftrightarrow> length (ei_sets (er_values r)) < 2 ^ 31"

lemma card_UN_list: "card (\<Union>s\<in>set ss. f s) \<le> (\<Sum>s\<leftarrow>ss. card (f s))" for f :: "'s \<Rightarrow> u32 set"
proof (induction ss)
  case (Cons s ss)
  have "card (f s \<union> (\<Union>s\<in>set ss. f s)) \<le> card (f s) + card (\<Union>s\<in>set ss. f s)" by (rule card_Un_le)
  with Cons show ?case by simp
qed simp

context roaring
begin

definition eq_total :: "('t, 'v, 'k, 'b) eq_rule \<Rightarrow> nat" where
  "eq_total r = card (bm_ids R (er_wildcard r)) + (\<Sum>s\<leftarrow>ei_sets (er_values r). card (es_ids R s))"

lemma eq_total_bound:
  assumes "eq_bounded r"
  shows "eq_total r < 2 ^ 64"
proof -
  have "(\<Sum>s\<leftarrow>ss. card (es_ids R s)) \<le> length ss * 2 ^ 32" for ss
  proof (induction ss)
    case (Cons s ss)
    with card_u32_le [of "es_ids R s"] show ?case by simp
  qed simp
  from add_mono [OF card_u32_le this] have "eq_total r \<le> 2 ^ 32 + length (ei_sets (er_values r)) * 2 ^ 32"
    unfolding eq_total_def .
  with assms show ?thesis by (simp add: eq_bounded_def)
qed

lemma unat_universe: "eq_building r \<Longrightarrow> eq_bounded r \<Longrightarrow> unat (eq_universe R r) = eq_total r"
  using eq_total_bound [of r]
  by (simp add: eq_universe_eq eq_total_def [symmetric] unsigned_of_nat take_bit_nat_eq_self)

lemma card_stored_le: "card (eq_stored R r) \<le> eq_total r"
  using card_Un_le [of "bm_ids R (er_wildcard r)" "\<Union>s\<in>set (ei_sets (er_values r)). es_ids R s"]
    card_UN_list [of "es_ids R" "ei_sets (er_values r)"] by (simp add: eq_stored_def eq_total_def)

lemma xor_cardinality:
  "unat (bm_card R a + bm_card R b - 2 * bm_and_card R a b) = card ((bm_ids R a \<union> bm_ids R b) - (bm_ids R a \<inter> bm_ids R b))"
proof -
  let ?A = "bm_ids R a" and ?B = "bm_ids R b"
  have le: "2 * card (?A \<inter> ?B) \<le> card ?A + card ?B"
    using card_mono [of ?A "?A \<inter> ?B"] card_mono [of ?B "?A \<inter> ?B"] by simp
  have un: "card (?A \<union> ?B) + card (?A \<inter> ?B) = card ?A + card ?B" by (rule card_Un_Int [symmetric]) simp_all
  have "card ((?A \<union> ?B) - (?A \<inter> ?B)) = card (?A \<union> ?B) - card (?A \<inter> ?B)"
    by (rule card_Diff_subset) auto
  also have "\<dots> = card ?A + card ?B - 2 * card (?A \<inter> ?B)" using un by simp
  finally have xor: "card ((?A \<union> ?B) - (?A \<inter> ?B)) = card ?A + card ?B - 2 * card (?A \<inter> ?B)" .
  have "bm_card R a + bm_card R b - 2 * bm_and_card R a b = of_nat (card ((?A \<union> ?B) - (?A \<inter> ?B)))"
    using le by (simp add: xor card_eq and_card_eq of_nat_diff)
  then show ?thesis by (simp only: unat_card_u64)
qed

text \<open>
  What the test of \<open>strictWildcardComplements\<close> guarantees of two filters that hold the same IDs: no ID is
  without a value on both sides, and none has a value on its own wildcard side.
\<close>

lemma strict_complements:
  assumes bld: "eq_building l" "eq_building r" and bound: "eq_bounded l"
    and stored: "eq_stored R l = U" "eq_stored R r = U" and strict: "strict_wildcard_complements R l r"
  shows "bm_ids R (er_wildcard l) \<inter> bm_ids R (er_wildcard r) = {}" "eq_concrete R l v \<subseteq> bm_ids R (er_wildcard r)"
proof -
  let ?l = "bm_ids R (er_wildcard l)" and ?r = "bm_ids R (er_wildcard r)"
  let ?p = "\<Union>s\<in>set (ei_sets (er_values l)). es_ids R s"
  have "card ((?l \<union> ?r) - (?l \<inter> ?r)) = eq_total l"
    using strict unat_universe [OF bld(1) bound] xor_cardinality [of "er_wildcard l" "er_wildcard r"]
    by (simp add: strict_wildcard_complements_def)
  moreover have sub: "(?l \<union> ?r) - (?l \<inter> ?r) \<subseteq> U"
  proof -
    have "?l \<subseteq> eq_stored R l" "?r \<subseteq> eq_stored R r" unfolding eq_stored_def by (rule Un_upper1)+
    with stored have "?l \<subseteq> U" "?r \<subseteq> U" by simp_all
    then show ?thesis by blast
  qed
  ultimately have "card U \<le> card ((?l \<union> ?r) - (?l \<inter> ?r))" and total: "eq_total l \<le> card U"
    using card_stored_le [of l] stored(1) card_mono [OF _ sub] by auto
  with card_subset_eq [OF _ sub] card_mono [OF _ sub] have xor: "(?l \<union> ?r) - (?l \<inter> ?r) = U" by auto
  have l: "?l \<subseteq> U" "?p \<subseteq> U" unfolding stored(1) [symmetric] eq_stored_def by (rule Un_upper1 Un_upper2)+
  with xor show "?l \<inter> ?r = {}" by blast
  have "card (?l \<union> ?p) + card (?l \<inter> ?p) = card ?l + card ?p" by (rule card_Un_Int [symmetric]) simp_all
  moreover have "card ?l + card ?p \<le> card (?l \<union> ?p)"
    using total stored(1) card_UN_list [of "es_ids R" "ei_sets (er_values l)"] by (simp add: eq_total_def eq_stored_def)
  ultimately have "card (?l \<inter> ?p) = 0" by linarith
  then have "?l \<inter> ?p = {}" by (rule card_eq_0_iff [THEN iffD1, THEN disjE]) simp_all
  with eq_concrete_stored [OF bld(1), of v] l(2) xor show "eq_concrete R l v \<subseteq> ?r" by blast
qed

text \<open>
  The antonym rule returns the conjunction of its operands. Only the first operand of each side is
  tested; the others have the same wildcard.
\<close>

lemma antonym_den:
  assumes bld: "\<forall>operand\<in>set (left @ right). eq_building operand" and bound: "\<forall>operand\<in>set (left @ right). eq_bounded operand"
    and stored: "\<forall>operand\<in>set (left @ right). eq_stored R operand = U"
    and ne: "left \<noteq> []" "right \<noteq> []"
    and same: "\<forall>operand\<in>set left. bm_ids R (er_wildcard operand) = bm_ids R (er_wildcard (hd left))"
      "\<forall>operand\<in>set right. bm_ids R (er_wildcard operand) = bm_ids R (er_wildcard (hd right))"
    and strict: "strict_wildcard_complements R (hd left) (hd right)"
  shows "(\<Inter>operand\<in>set (left @ right). eq_den R operand v) = an_den R \<lparr>an_left = left, an_right = right\<rparr> v"
proof -
  let ?l = "bm_ids R (er_wildcard (hd left))" and ?r = "bm_ids R (er_wildcard (hd right))"
  have hds: "hd left \<in> set (left @ right)" "hd right \<in> set (left @ right)" using ne by auto
  have sym: "strict_wildcard_complements R (hd right) (hd left)"
    using strict by (simp add: strict_wildcard_complements_def and_card_eq Int_commute add.commute)
  note l = strict_complements [OF bld [rule_format, OF hds(1)] bld [rule_format, OF hds(2)] bound [rule_format, OF hds(1)]
      stored [rule_format, OF hds(1)] stored [rule_format, OF hds(2)] strict]
  note r = strict_complements [OF bld [rule_format, OF hds(2)] bld [rule_format, OF hds(1)] bound [rule_format, OF hds(2)]
      stored [rule_format, OF hds(2)] stored [rule_format, OF hds(1)] sym]
  have side: "(\<Inter>operand\<in>set side. eq_den R operand v) = w \<union> side_den R side v"
    if "\<forall>operand\<in>set side. bm_ids R (er_wildcard operand) = w" "side \<noteq> []" for side w
    using that by (auto simp: eq_den_concrete side_den_def)
  have sub: "side_den R left v \<subseteq> ?r" "side_den R right v \<subseteq> ?l"
    using l(2) [of v] r(2) [of v] hd_in_set [OF ne(1)] hd_in_set [OF ne(2)] unfolding side_den_def by blast+
  have "(\<Inter>operand\<in>set (left @ right). eq_den R operand v) = (?l \<union> side_den R left v) \<inter> (?r \<union> side_den R right v)"
    using side [OF same(1) ne(1)] side [OF same(2) ne(2)] by (simp add: INF_union)
  with sub l(1) show ?thesis by (auto simp: an_den_def)
qed

end

end
