(* ===== verification/Published_Child.thy ===== *)
theory Published_Child
  imports Leaf_Intern Equality_Antonym_Rule
begin

text \<open>
  The children of the root that \<open>Build\<close> publishes: filters, match-all rules and, once equality siblings
  have been compiled, strict antonym rules. This theory has the steps that act on one child at a time,
  interning (\<open>internRuleWith\<close> in \<^verbatim>\<open>bitmap_intern.go\<close>) and preparation (\<open>prepareRuleSearch\<close> in \<^verbatim>\<open>rule.go\<close>),
  and the valuation against which the caches of a \<open>Local\<close> are judged.
\<close>

section \<open>Children\<close>

datatype ('t, 'v, 'k, 'b) child =
    Filter_Child "('t, 'v, 'k, 'b) leaf"
  | Match_All_Child 'b u32
  | Antonym_Child "('t, 'v, 'k, 'b) antonym_rule"

fun published_ops :: "'b roaring \<Rightarrow> ('t, 'v, 'k, 'b) child \<Rightarrow> ('t, 'v, 'b) child_ops" where
  "published_ops R (Filter_Child lf) = leaf_ops R lf"
| "published_ops R (Match_All_Child bits source) = ma_ops R (bits, source)"
| "published_ops R (Antonym_Child r) = an_ops R r"

text \<open>\<open>strictEqualityOperandOf\<close> and the assertion \<open>equalityClassCompiler\<close>: only equality filters have them.\<close>

fun equality_operand :: "('t, 'v, 'k, 'b) child \<Rightarrow> ('t, 'v, 'k, 'b) eq_rule option" where
  "equality_operand (Filter_Child (Equality_Leaf r)) = Some r"
| "equality_operand _ = None"

fun child_intern ::
  "'b roaring \<Rightarrow> ('t, 'v, 'k, 'b) child \<Rightarrow> 'b interner \<Rightarrow> (('t, 'v, 'k, 'b) child \<times> 'b interner) option" where
  "child_intern R (Filter_Child lf) I =
     (case leaf_intern R lf I of None \<Rightarrow> None | Some (lf, I) \<Rightarrow> Some (Filter_Child lf, I))"
| "child_intern R (Match_All_Child bits source) I =
     (case intern_source R bits I of None \<Rightarrow> None | Some ((bits, source), I) \<Rightarrow> Some (Match_All_Child bits source, I))"
| "child_intern R (Antonym_Child r) I = Some (Antonym_Child r, I)"

text \<open>Equality filters are prepared in place, which the model does not see.\<close>

fun child_prepare :: "'b roaring \<Rightarrow> ('t, 'v, 'k, 'b) child \<Rightarrow> ('t, 'v, 'k, 'b) child" where
  "child_prepare R (Filter_Child lf) = Filter_Child (leaf_prepare R lf)"
| "child_prepare R c = c"

section \<open>What they denote\<close>

fun child_den :: "'b roaring \<Rightarrow> ('t, 'v, 'k, 'b) child \<Rightarrow> 't \<Rightarrow> u32 set" where
  "child_den R (Filter_Child lf) q = leaf_den R lf q"
| "child_den R (Match_All_Child bits source) q = bm_ids R bits"
| "child_den R (Antonym_Child r) q = an_den R r q"

lemma child_den_eta [simp]:
  "child_den R (Filter_Child lf) = leaf_den R lf" "child_den R (Match_All_Child bits source) = (\<lambda>q. bm_ids R bits)"
  "child_den R (Antonym_Child r) = an_den R r"
  by (simp_all add: fun_eq_iff)

text \<open>\<open>K\<close> gives the results of the filter of every node.\<close>

fun child_ready :: "'b roaring \<Rightarrow> nat \<Rightarrow> (nat \<Rightarrow> 'v cache_key \<Rightarrow> u32 set) \<Rightarrow> ('t, 'v, 'k, 'b) child \<Rightarrow> bool" where
  "child_ready R nodes K (Filter_Child lf) \<longleftrightarrow> leaf_ready R lf \<and> leaf_node lf < nodes \<and> (\<forall>k. leaf_key_den R lf k = K (leaf_node lf) k)"
| "child_ready R nodes K (Match_All_Child bits source) \<longleftrightarrow> True"
| "child_ready R nodes K (Antonym_Child r) \<longleftrightarrow> an_left r \<noteq> [] \<and> an_right r \<noteq> []
     \<and> (\<forall>operand\<in>set (an_left r @ an_right r). eq_building operand)"

fun child_published :: "'b roaring \<Rightarrow> ('t, 'v, 'k, 'b) child \<Rightarrow> bool" where
  "child_published R (Filter_Child lf) \<longleftrightarrow> leaf_published R lf"
| "child_published R _ \<longleftrightarrow> True"

text \<open>The valuation of a list of children.\<close>

fun antonym_at :: "nat \<Rightarrow> ('t, 'v, 'k, 'b) child \<Rightarrow> bool" where
  "antonym_at node (Antonym_Child r) \<longleftrightarrow> an_node r = node"
| "antonym_at node _ \<longleftrightarrow> False"

definition antonym_valuation :: "'b roaring \<Rightarrow> ('t, 'v, 'k, 'b) child list \<Rightarrow> nat \<Rightarrow> 'v query_key list \<Rightarrow> u32 set" where
  "antonym_valuation R cs node keys =
     (case find (antonym_at node) cs of Some (Antonym_Child r) \<Rightarrow> an_key_den R r keys | _ \<Rightarrow> {})"

definition child_valuation ::
  "'b roaring \<Rightarrow> nat \<Rightarrow> (nat \<Rightarrow> 'v cache_key \<Rightarrow> u32 set) \<Rightarrow> ('t, 'v, 'k, 'b) child list \<Rightarrow> 'v valuation" where
  "child_valuation R nodes K cs =
     \<lparr>va_den = \<lambda>kind. K, va_antonym = antonym_valuation R cs, va_width = \<lambda>_. length cs, va_nodes = nodes\<rparr>"

text \<open>Different antonym rules of a root have different nodes.\<close>

definition antonyms_distinct :: "('t, 'v, 'k, 'b) child list \<Rightarrow> bool" where
  "antonyms_distinct cs \<longleftrightarrow>
     (\<forall>r s. Antonym_Child r \<in> set cs \<longrightarrow> Antonym_Child s \<in> set cs \<longrightarrow> an_node r = an_node s \<longrightarrow> r = s)"

lemma antonym_valuation:
  assumes "antonyms_distinct cs" "Antonym_Child r \<in> set cs"
  shows "antonym_valuation R cs (an_node r) = an_key_den R r"
proof -
  obtain c where c: "find (antonym_at (an_node r)) cs = Some c"
    using assms(2) by (cases "find (antonym_at (an_node r)) cs") (auto simp: find_None_iff)
  then have "c \<in> set cs" "antonym_at (an_node r) c" by (auto simp: find_Some_iff in_set_conv_nth)
  moreover from this(2) obtain s where "c = Antonym_Child s" "an_node s = an_node r" by (cases c) simp_all
  ultimately have "c = Antonym_Child r" using assms unfolding antonyms_distinct_def by blast
  with c show ?thesis by (simp add: antonym_valuation_def fun_eq_iff)
qed

context roaring
begin

lemma child_prepare_ready:
  assumes "child_ready R nodes K c"
  shows "child_published R (child_prepare R c)" "child_den R (child_prepare R c) q = child_den R c q"
  using assms by (cases c; simp add: leaf_published_prepare)+

lemma child_prepare_simps [simp]:
  "Antonym_Child r \<in> set (map (child_prepare R) cs) \<longleftrightarrow> Antonym_Child r \<in> set cs"
proof -
  have "child_prepare R c = Antonym_Child r \<longleftrightarrow> c = Antonym_Child r" for c
    by (cases c) auto
  then show ?thesis by (metis (no_types, lifting) in_set_conv_nth length_map nth_map)
qed

text \<open>Every child of a prepared list keeps its contract.\<close>

lemma child_ops_ok:
  assumes c: "c \<in> set cs" "child_ready R nodes K c" and cs: "antonyms_distinct cs"
  shows "ops_ok R (child_valuation R nodes K (map (child_prepare R) cs)) (published_ops R (child_prepare R c)) (child_den R c)"
proof (cases c)
  case (Filter_Child lf)
  then have ready: "leaf_ready R lf" "leaf_node lf < nodes" "\<And>k. leaf_key_den R lf k = K (leaf_node lf) k" using c by auto
  have "ops_ok R (child_valuation R nodes K (map (child_prepare R) cs)) (leaf_ops R (leaf_prepare R lf)) (leaf_den R (leaf_prepare R lf))"
    by (rule leaf_ops_ok) (simp_all add: leaf_published_prepare ready(1,2) leaf_prepare_key child_valuation_def flip: ready(3))
  moreover have "leaf_den R (leaf_prepare R lf) = leaf_den R lf" by (rule ext) (simp add: ready(1))
  ultimately show ?thesis using Filter_Child by simp
next
  case (Match_All_Child bits source)
  then show ?thesis using ma_ops_ok [of _ "(bits, source)"] by simp
next
  case (Antonym_Child r)
  have "antonyms_distinct (map (child_prepare R) cs)" using cs unfolding antonyms_distinct_def child_prepare_simps .
  then have "antonym_valuation R (map (child_prepare R) cs) (an_node r) = an_key_den R r"
    by (rule antonym_valuation) (use c(1) Antonym_Child in \<open>simp only: child_prepare_simps\<close>)
  then have "an_ready R (child_valuation R nodes K (map (child_prepare R) cs)) r"
    using c(2) Antonym_Child by (simp add: an_ready_def child_valuation_def)
  from antonym_filter.ops_sound [OF roaring_axioms this] Antonym_Child show ?thesis by simp
qed

end

section \<open>Interning the children\<close>

fun child_sourced :: "'b interner \<Rightarrow> ('t, 'v, 'k, 'b) child \<Rightarrow> bool" where
  "child_sourced I (Filter_Child lf) \<longleftrightarrow> leaf_sourced I lf \<and> leaf_unclassed lf"
| "child_sourced I (Match_All_Child bits source) \<longleftrightarrow> (bits, source) \<in> in_entries I"
| "child_sourced I (Antonym_Child r) \<longleftrightarrow> False"

fun same_child :: "'b roaring \<Rightarrow> ('t, 'v, 'k, 'b) child \<Rightarrow> ('t, 'v, 'k, 'b) child \<Rightarrow> bool" where
  "same_child R (Filter_Child a) (Filter_Child b) \<longleftrightarrow> same_leaf R a b"
| "same_child R (Match_All_Child a _) (Match_All_Child b _) \<longleftrightarrow> bm_ids R a = bm_ids R b"
| "same_child R _ _ \<longleftrightarrow> False"

fun child_internable :: "'b roaring \<Rightarrow> ('t, 'v, 'k, 'b) child \<Rightarrow> bool" where
  "child_internable R (Filter_Child lf) \<longleftrightarrow> leaf_ready R lf \<and> leaf_unsourced lf"
| "child_internable R (Match_All_Child bits source) \<longleftrightarrow> True"
| "child_internable R (Antonym_Child r) \<longleftrightarrow> False"

lemma same_child_den: "same_child R a b \<Longrightarrow> child_den R b q = child_den R a q"
  by (cases a; cases b) (auto simp: same_leaf_def)

lemma same_child_ready:
  "same_child R a b \<Longrightarrow> child_ready R nodes K a \<Longrightarrow> child_ready R nodes K b"
  by (cases a; cases b) (auto simp: same_leaf_def)

text \<open>How many numbers a child may take.\<close>

fun child_cost :: "('t, 'v, 'k, 'b) child \<Rightarrow> nat" where
  "child_cost (Filter_Child lf) = 2 + 2 * leaf_items lf"
| "child_cost _ = 1"

context roaring
begin

lemma child_intern_step:
  "\<forall>c\<in>A. child_internable R c \<Longrightarrow> intern_step (\<lambda>a b I. same_child R a b \<and> child_sourced I b) (child_intern R) A"
  unfolding step_ok_def
proof (intro ballI allI impI)
  fix c I d J
  assume A: "\<forall>c\<in>A. child_internable R c" "c \<in> A" and I: "interner_ok I" and run: "child_intern R c I = Some (d, J)"
  show "interner_ok J \<and> in_le I J \<and> same_child R c d \<and> child_sourced J d"
  proof (cases c)
    case (Filter_Child lf)
    then obtain lf' where lf': "leaf_intern R lf I = Some (lf', J)" "d = Filter_Child lf'"
      using run by (auto split: option.splits)
    with leaf_intern_spec [OF I lf'(1)] A Filter_Child show ?thesis by auto
  next
    case (Match_All_Child bits source)
    then obtain bits' source' where "intern_source R bits I = Some ((bits', source'), J)" "d = Match_All_Child bits' source'"
      using run by (auto split: option.splits)
    with intern_source_spec [OF I, of bits "(bits', source')" J] Match_All_Child show ?thesis by (auto simp: interned_def)
  qed (use A in auto)
qed

lemma child_sourced_mono: "child_sourced I c \<Longrightarrow> in_le I J \<Longrightarrow> child_sourced J c"
  by (cases c) (auto simp: leaf_sourced_mono, auto simp: in_le_def)

lemma children_intern:
  assumes "\<forall>c\<in>set cs. child_internable R c" "interner_ok I" "thread (child_intern R) cs I = Some (ds, J)"
  shows "interner_ok J \<and> in_le I J \<and> list_all2 (\<lambda>a b. same_child R a b \<and> child_sourced J b) cs ds"
  by (rule thread_intern [OF child_intern_step [OF assms(1)] assms(2,3)]) (auto intro: child_sourced_mono)

lemma within_child: "child_internable R c \<Longrightarrow> within (child_intern R) c (child_cost c)"
proof (cases c)
  case (Filter_Child lf)
  assume "child_internable R c"
  with Filter_Child have "within (leaf_intern R) lf (2 + 2 * leaf_items lf)" by (intro within_leaf) auto
  then have "within (child_intern R) c (2 + 2 * leaf_items lf)"
    by (rule within_map [where k = Filter_Child]) (simp add: Filter_Child)
  with Filter_Child show ?thesis by simp
next
  case (Match_All_Child bits source)
  have "within (child_intern R) c 1"
    by (rule within_map [OF within_source [of bits], where k = "\<lambda>(bits, source). Match_All_Child bits source"])
      (auto simp: Match_All_Child split: option.split)
  with Match_All_Child show ?thesis by simp
qed simp

end

end
