(* ===== verification/All_Planning.thy ===== *)
theory All_Planning
  imports Execution_Cost
begin

text \<open>
  The planning half of \<open>All\<close> (\<open>allRule\<close> in \<^verbatim>\<open>all.go\<close>, \<^verbatim>\<open>all_planning.go\<close>, the estimate helpers of
  \<^verbatim>\<open>all_execution.go\<close>): ranking the children, reusing and remembering the plan of a \<open>Local\<close>, its cached
  intersections, and dropping children of the same equality class. The rule is taken after
  \<open>prepareSearch\<close>, as every published rule is. The array of ranked children is passed through every
  step, because an abandoned plan leaves its entries in it.
\<close>

section \<open>The rule\<close>

text \<open>\<open>al_self\<close> is the identity by which a \<open>Local\<close> finds the plan of this node.\<close>

record ('t, 'v, 'b) all_rule =
  al_self :: nat
  al_children :: "('t, 'v, 'b) child_ops list"
  al_class_count :: u32
  al_groups :: "nat list option"

definition direct_id_complete :: "('t, 'v, 'b) all_rule \<Rightarrow> bool" where
  "direct_id_complete r = list_all (\<lambda>c. co_direct c \<noteq> None) (al_children r)"

definition has_planning :: "('t, 'v, 'b) all_rule \<Rightarrow> bool" where
  "has_planning r = list_ex (\<lambda>c. co_planning c \<noteq> None) (al_children r)"

text \<open>
  \<open>prepareSharedWildcardGroups\<close>: equality children whose non-empty wildcard is one interned object
  share a positive group number; 0 is no group, \<open>None\<close> is the nil slice.
\<close>

fun shared_groups ::
  "'b roaring \<Rightarrow> nat \<Rightarrow> nat \<Rightarrow> ('t, 'v, 'b) child_ops list \<Rightarrow> (u32 \<rightharpoonup> nat) \<Rightarrow> nat \<Rightarrow> nat list option \<Rightarrow> nat list option" where
  "shared_groups R n i [] firsts fresh groups = groups"
| "shared_groups R n i (c # cs) firsts fresh groups =
     (case co_shared c of
        None \<Rightarrow> shared_groups R n (Suc i) cs firsts fresh groups
      | Some sw \<Rightarrow>
          (if bm_is_empty R (sw_wildcard sw) then shared_groups R n (Suc i) cs firsts fresh groups
           else case firsts (sw_source sw) of
                  None \<Rightarrow> shared_groups R n (Suc i) cs (firsts(sw_source sw \<mapsto> i)) fresh groups
                | Some first \<Rightarrow>
                    (let gs = (case groups of Some gs \<Rightarrow> gs | None \<Rightarrow> replicate n 0)
                     in if gs ! first = 0
                        then shared_groups R n (Suc i) cs firsts (Suc fresh) (Some (gs[first := fresh, i := fresh]))
                        else shared_groups R n (Suc i) cs firsts fresh (Some (gs[i := gs ! first])))))"

definition prepare_shared_groups :: "'b roaring \<Rightarrow> ('t, 'v, 'b) child_ops list \<Rightarrow> nat list option" where
  "prepare_shared_groups R children = shared_groups R (length children) 0 children Map.empty 1 None"

section \<open>Estimates of one child\<close>

definition lookup_planning :: "('t, 'v, 'b) all_rule \<Rightarrow> ('t, 'v, 'b) child_ops \<Rightarrow> 't \<Rightarrow> ('b \<times> source) option" where
  "lookup_planning r c v = (case co_planning c of None \<Rightarrow> None | Some f \<Rightarrow> f v)"

definition estimate_for_plan ::
  "('t, 'v, 'b) child_ops \<Rightarrow> 't \<Rightarrow> ('v, 'b) pool \<Rightarrow> u64 option \<times> ('v, 'b) pool" where
  "estimate_for_plan c v p =
     (case (case co_cached_estimate c of None \<Rightarrow> (None, p) | Some f \<Rightarrow> f v p) of
        (Some estimate, p) \<Rightarrow> (Some estimate, p)
      | (None, p) \<Rightarrow> (map_option (\<lambda>f. f v) (co_estimate c), p))"

definition lookup_cached ::
  "('t, 'v, 'b) child_ops \<Rightarrow> 't \<Rightarrow> ('v, 'b) pool \<Rightarrow> ('b \<times> source) option \<times> ('v, 'b) pool" where
  "lookup_cached c v p = (case co_cached c of None \<Rightarrow> (None, p) | Some f \<Rightarrow> f v p)"

definition known_zero :: "('t \<Rightarrow> bool) option \<Rightarrow> 't \<Rightarrow> bool" where
  "known_zero f v = (case f of None \<Rightarrow> False | Some z \<Rightarrow> z v)"

section \<open>Ranking\<close>

text \<open>
  What the first pass learns of a child: \<open>None\<close> when it is certainly empty, otherwise its posting, if
  it has one at hand, and its estimate.
\<close>

definition cheap_child ::
  "'b roaring \<Rightarrow> ('t, 'v, 'b) all_rule \<Rightarrow> 't \<Rightarrow> ('t, 'v, 'b) child_ops \<Rightarrow> (('b \<times> source) option \<times> u64) option" where
  "cheap_child R r v c =
     (case (if has_planning r then lookup_planning r c v else None) of
        Some (bits, s) \<Rightarrow> (if bm_card R bits = 0 then None else Some (Some (bits, s), bm_card R bits))
      | None \<Rightarrow>
          (case co_cheap c of
             Some f \<Rightarrow> (if f v = 0 then None else Some (None, f v))
           | None \<Rightarrow> (if known_zero (co_cheap_zero c) v then None else Some (None, max_u64))))"

definition set_bits :: "('b \<times> source) option \<Rightarrow> 'b ranked \<Rightarrow> 'b ranked" where
  "set_bits found e = (case found of None \<Rightarrow> e | Some (b, s) \<Rightarrow> e\<lparr>rk_bits := Some b, rk_source := s\<rparr>)"

text \<open>Only the cardinality and the child are always written; the bits only when a posting was found.\<close>

fun rank_cheap ::
  "'b roaring \<Rightarrow> ('t, 'v, 'b) all_rule \<Rightarrow> 't \<Rightarrow> nat \<Rightarrow> ('t, 'v, 'b) child_ops list \<Rightarrow> 'b ranked list \<Rightarrow> u64
     \<Rightarrow> ('b ranked list \<times> u64) option" where
  "rank_cheap R r v i [] es bound = Some (es, bound)"
| "rank_cheap R r v i (c # cs) es bound =
     (case cheap_child R r v c of
        None \<Rightarrow> None
      | Some (found, estimate) \<Rightarrow>
          rank_cheap R r v (Suc i) cs
            (es[i := (set_bits found (es ! i))\<lparr>rk_card := estimate, rk_child := i\<rparr>]) (min bound estimate))"

text \<open>The second pass, over the children whose size is still unknown.\<close>

definition estimate_child ::
  "'b roaring \<Rightarrow> 't \<Rightarrow> ('t, 'v, 'b) child_ops \<Rightarrow> ('v, 'b) pool
     \<Rightarrow> (('b \<times> source) option \<times> u64) option \<times> ('v, 'b) pool" where
  "estimate_child R v c p =
     (case lookup_cached c v p of
        (Some (bits, s), p) \<Rightarrow> (if bm_card R bits = 0 then None else Some (Some (bits, s), bm_card R bits), p)
      | (None, p) \<Rightarrow>
          (case estimate_for_plan c v p of
             (Some estimate, p) \<Rightarrow> (if estimate = 0 then None else Some (None, estimate), p)
           | (None, p) \<Rightarrow> (if known_zero (co_zero c) v then None else Some (None, max_u64), p)))"

fun rank_estimates ::
  "'b roaring \<Rightarrow> 't \<Rightarrow> nat \<Rightarrow> ('t, 'v, 'b) child_ops list \<Rightarrow> 'b ranked list \<Rightarrow> ('v, 'b) pool
     \<Rightarrow> 'b ranked list option \<times> ('v, 'b) pool" where
  "rank_estimates R v i [] es p = (Some es, p)"
| "rank_estimates R v i (c # cs) es p =
     (if rk_card (es ! i) \<noteq> max_u64 then rank_estimates R v (Suc i) cs es p
      else case estimate_child R v c p of
             (None, p) \<Rightarrow> (None, p)
           | (Some (found, estimate), p) \<Rightarrow>
               rank_estimates R v (Suc i) cs (es[i := (set_bits found (es ! i))\<lparr>rk_card := estimate\<rparr>]) p)"

definition sort_ranked :: "'b ranked list \<Rightarrow> 'b ranked list" where
  "sort_ranked es = swap_sort (\<lambda>a b. rk_card a < rk_card b) es"

section \<open>Plans of a Local\<close>

definition valid_local_plan_order :: "nat list \<Rightarrow> nat \<Rightarrow> bool" where
  "valid_local_plan_order order n =
     (length order = n \<and> list_all (\<lambda>child. child < n) order \<and> distinct order)"

definition new_all_plan :: "nat \<Rightarrow> ('v, 'b) all_plan" where
  "new_all_plan n =
     \<lparr>ap_order = replicate n 0, ap_first_card = 0, ap_results = replicate 4 None, ap_next = 0, ap_valid = False\<rparr>"

definition remember_local_plan ::
  "('t, 'v, 'b) all_rule \<Rightarrow> 'b ranked list \<Rightarrow> ('v, 'b) pool \<Rightarrow> ('v, 'b) pool" where
  "remember_local_plan r es p =
     (let plan = (case po_plans p (al_self r) of Some plan \<Rightarrow> plan | None \<Rightarrow> new_all_plan (length es));
          order = map rk_child es;
          plan = plan\<lparr>ap_order := order, ap_valid := valid_local_plan_order order (length (al_children r)),
                      ap_first_card := rk_card (hd es)\<rparr>
      in p\<lparr>po_plans := (po_plans p)(al_self r \<mapsto> plan)\<rparr>)"

definition cached_local_plan_child ::
  "'b roaring \<Rightarrow> ('t, 'v, 'b) all_rule \<Rightarrow> 't \<Rightarrow> nat \<Rightarrow> ('v, 'b) pool \<Rightarrow> 'b ranked \<times> ('v, 'b) pool" where
  "cached_local_plan_child R r v child p =
     (let e = \<lparr>rk_bits = None, rk_source = Scratch, rk_card = max_u64, rk_child = child, rk_owned = False\<rparr>
      in case lookup_cached (al_children r ! child) v p of
           (None, p) \<Rightarrow> (e, p)
         | (Some (bits, s), p) \<Rightarrow> (e\<lparr>rk_bits := Some bits, rk_source := s, rk_card := bm_card R bits\<rparr>, p))"

text \<open>
  Filling the array in the order of the plan; \<open>None\<close> for an empty child. The first loop of
  \<open>reuseLocalPlan\<close> is the case without planning postings, \<open>populatePlanningLocalPlan\<close> the other.
\<close>

definition plan_child ::
  "'b roaring \<Rightarrow> ('t, 'v, 'b) all_rule \<Rightarrow> 't \<Rightarrow> nat \<Rightarrow> ('v, 'b) pool \<Rightarrow> 'b ranked \<times> ('v, 'b) pool" where
  "plan_child R r v child p =
     (case (if has_planning r then lookup_planning r (al_children r ! child) v else None) of
        Some (bits, s) \<Rightarrow>
          (\<lparr>rk_bits = Some bits, rk_source = s, rk_card = bm_card R bits, rk_child = child, rk_owned = False\<rparr>, p)
      | None \<Rightarrow> cached_local_plan_child R r v child p)"

fun populate_local_plan ::
  "'b roaring \<Rightarrow> ('t, 'v, 'b) all_rule \<Rightarrow> 't \<Rightarrow> nat \<Rightarrow> nat list \<Rightarrow> 'b ranked list \<Rightarrow> ('v, 'b) pool
     \<Rightarrow> 'b ranked list option \<times> ('v, 'b) pool" where
  "populate_local_plan R r v rank [] es p = (Some es, p)"
| "populate_local_plan R r v rank (child # order) es p =
     (case plan_child R r v child p of
        (e, p) \<Rightarrow> (if rk_card e = 0 then (None, p) else populate_local_plan R r v (Suc rank) order (es[rank := e]) p))"

definition local_plan_cardinality_changed :: "u64 \<Rightarrow> u64 \<Rightarrow> bool" where
  "local_plan_cardinality_changed previous current =
     ((previous \<le> allCandidateScanLimit) \<noteq> (current \<le> allCandidateScanLimit)
      \<or> previous * 2 < current \<or> current * 2 < previous)"

definition cached_child_more_selective :: "u64 \<Rightarrow> 'b ranked list \<Rightarrow> bool" where
  "cached_child_more_selective first es = list_ex (\<lambda>e. rk_card e \<noteq> max_u64 \<and> rk_card e \<le> first div 2) es"

text \<open>\<open>Reused False\<close> says that the result is empty; \<open>Not_Reused\<close> carries the array as it was left.\<close>

datatype 'b reuse = Reused bool "'b ranked list" | Not_Reused "'b ranked list"

definition reuse_local_plan ::
  "'b roaring \<Rightarrow> ('t, 'v, 'b) all_rule \<Rightarrow> 't \<Rightarrow> 'b ranked list \<Rightarrow> ('v, 'b) pool \<Rightarrow> 'b reuse \<times> ('v, 'b) pool" where
  "reuse_local_plan R r v es p =
     (case po_plans p (al_self r) of
        None \<Rightarrow> (Not_Reused es, p)
      | Some plan \<Rightarrow>
          (if \<not> ap_valid plan then (Not_Reused es, p)
           else case populate_local_plan R r v 0 (ap_order plan) es p of
                  (None, p) \<Rightarrow> (Reused False es, p)
                | (Some es, p) \<Rightarrow>
                    (let check = (\<lambda>first es p.
                           if local_plan_cardinality_changed (ap_first_card plan) first then (Not_Reused es, p)
                           else if cached_child_more_selective first (tl es) then (Not_Reused es, p)
                           else (Reused True es, p))
                     in if rk_card (hd es) \<noteq> max_u64 then check (rk_card (hd es)) es p
                        else case estimate_for_plan (al_children r ! rk_child (hd es)) v p of
                               (None, p) \<Rightarrow> (Not_Reused es, p)
                             | (Some estimate, p) \<Rightarrow>
                                 (if estimate = 0 then (Reused False es, p)
                                  else check estimate (es[0 := (hd es)\<lparr>rk_card := estimate\<rparr>]) p))))"

text \<open>\<open>None\<close> is Go's \<open>false\<close>: nothing matches.\<close>

definition rank_all ::
  "'b roaring \<Rightarrow> ('t, 'v, 'b) all_rule \<Rightarrow> 't \<Rightarrow> 'b ranked list \<Rightarrow> ('v, 'b) pool
     \<Rightarrow> 'b ranked list option \<times> ('v, 'b) pool" where
  "rank_all R r v es p =
     (case rank_cheap R r v 0 (al_children r) es max_u64 of
        None \<Rightarrow> (None, p)
      | Some (es, bound) \<Rightarrow>
          (case (if allCandidateScanLimit < bound then rank_estimates R v 0 (al_children r) es p else (Some es, p)) of
             (None, p) \<Rightarrow> (None, p)
           | (Some es, p) \<Rightarrow>
               (let es = sort_ranked es
                in (Some es, if po_local p = None then p else remember_local_plan r es p))))"

definition rank_children ::
  "'b roaring \<Rightarrow> ('t, 'v, 'b) all_rule \<Rightarrow> 't \<Rightarrow> 'b ranked list \<Rightarrow> ('v, 'b) pool
     \<Rightarrow> 'b ranked list option \<times> ('v, 'b) pool" where
  "rank_children R r v es p =
     (if po_local p = None then rank_all R r v es p
      else case reuse_local_plan R r v es p of
             (Reused True es, p) \<Rightarrow> (Some es, p)
           | (Reused False es, p) \<Rightarrow> (None, p)
           | (Not_Reused es, p) \<Rightarrow> rank_all R r v es p)"

section \<open>Cached intersections of a Local\<close>

definition result_matches_inputs :: "('v, 'b) pool \<Rightarrow> 'b ranked list \<Rightarrow> ('v, 'b) all_result \<Rightarrow> bool" where
  "result_matches_inputs p es result =
     (ar_epoch result = po_epoch p \<and> length (ar_inputs result) = length es
      \<and> list_all2 (\<lambda>s e. rk_bits e \<noteq> None \<and> s = rk_source e) (ar_inputs result) es)"

definition load_local_result ::
  "('t, 'v, 'b) all_rule \<Rightarrow> 'b ranked list \<Rightarrow> ('v, 'b) pool \<Rightarrow> ('v, 'b) all_result option" where
  "load_local_result r es p =
     (if po_local p = None then None
      else case po_plans p (al_self r) of
             None \<Rightarrow> None
           | Some plan \<Rightarrow> find (result_matches_inputs p es) (map the (filter (\<lambda>x. x \<noteq> None) (ap_results plan))))"

text \<open>
  The providers of all children in order: \<open>queryKeyProviders\<close> when one child groups several, otherwise
  the \<open>queryKey\<close> of each child.
\<close>

definition query_key_providers :: "('t, 'v, 'b) all_rule \<Rightarrow> ('t, 'v) key_provider option list" where
  "query_key_providers r = concat (map co_keys (al_children r))"

definition result_matches_query ::
  "('t, 'v, 'b) all_rule \<Rightarrow> 't \<Rightarrow> ('v, 'b) pool \<Rightarrow> ('v, 'b) all_result \<Rightarrow> bool" where
  "result_matches_query r v p result =
     (ar_epoch result = po_epoch p
      \<and> list_all2 (\<lambda>provider key. case provider of None \<Rightarrow> False | Some kp \<Rightarrow> kp_matches kp v key)
          (query_key_providers r) (ar_keys result))"

definition load_local_query_result ::
  "('t, 'v, 'b) all_rule \<Rightarrow> 't \<Rightarrow> ('v, 'b) pool \<Rightarrow> ('v, 'b) all_result option" where
  "load_local_query_result r v p =
     (if po_local p = None then None
      else case po_plans p (al_self r) of
             None \<Rightarrow> None
           | Some plan \<Rightarrow> find (result_matches_query r v p) (map the (filter (\<lambda>x. x \<noteq> None) (ap_results plan))))"

text \<open>Nil keys are the empty list.\<close>

definition capture_local_query_keys :: "('t, 'v, 'b) all_rule \<Rightarrow> 't \<Rightarrow> 'v query_key list" where
  "capture_local_query_keys r v =
     (if list_all (\<lambda>provider. provider \<noteq> None) (query_key_providers r)
      then map (\<lambda>provider. kp_key (the provider) v) (query_key_providers r) else [])"

definition store_local_result ::
  "'b roaring \<Rightarrow> ('t, 'v, 'b) all_rule \<Rightarrow> 'b ranked list \<Rightarrow> 'b \<Rightarrow> 't \<Rightarrow> ('v, 'b) pool \<Rightarrow> ('v, 'b) pool" where
  "store_local_result R r es bits v p =
     (if po_local p = None \<or> list_ex (\<lambda>e. rk_bits e = None \<or> rk_owned e) es then p
      else case po_plans p (al_self r) of
             None \<Rightarrow> p
           | Some plan \<Rightarrow>
               (let entry = \<lparr>ar_inputs = map rk_source es, ar_ids = bm_to_list R bits,
                             ar_keys = capture_local_query_keys r v, ar_epoch = po_epoch p,
                             ar_bits = bm_or R (bm_new R) bits\<rparr>;
                    plan = plan\<lparr>ap_results := (ap_results plan)[ap_next plan := Some entry],
                                ap_next := (ap_next plan + 1) mod length (ap_results plan)\<rparr>
                in p\<lparr>po_plans := (po_plans p)(al_self r \<mapsto> plan)\<rparr>))"

section \<open>Equality classes\<close>

text \<open>The mask has one bit per class, 64 to a word; a class of 0 is never checked.\<close>

definition class_mask_words :: "('t, 'v, 'b) all_rule \<Rightarrow> nat" where
  "class_mask_words r =
     (if length (al_children r) \<le> 8 \<and> al_class_count r \<le> 64 then 1 else unat ((al_class_count r + 63) div 64))"

definition class_word :: "u32 \<Rightarrow> nat" where
  "class_word cls = unat ((cls - 1) div 64)"

definition class_bit :: "u32 \<Rightarrow> u64" where
  "class_bit cls = push_bit (unat ((cls - 1) mod 64)) 1"

definition query_class :: "('t, 'v, 'b) child_ops \<Rightarrow> 't \<Rightarrow> u32" where
  "query_class c v = (case co_class c of None \<Rightarrow> 0 | Some f \<Rightarrow> f v)"

text \<open>The kept entries, in order; the caller continues with this prefix of the array.\<close>

fun deduplicate_classes ::
  "('t, 'v, 'b) all_rule \<Rightarrow> 't \<Rightarrow> u64 list \<Rightarrow> 'b ranked list \<Rightarrow> 'b ranked list" where
  "deduplicate_classes r v checked [] = []"
| "deduplicate_classes r v checked (e # es) =
     (let cls = query_class (al_children r ! rk_child e) v
      in if cls = 0 then e # deduplicate_classes r v checked es
         else if and (checked ! class_word cls) (class_bit cls) \<noteq> 0 then deduplicate_classes r v checked es
         else e # deduplicate_classes r v
                (checked[class_word cls := or (checked ! class_word cls) (class_bit cls)]) es)"

end
