(* ===== verification/All_Ranking.thy ===== *)
theory All_Ranking
  imports All_Planning
begin

text \<open>
  What planning establishes: every child is ranked exactly once with its own result or none, a child
  found to be empty empties the intersection, remembering a plan keeps the state of a \<open>Local\<close> well
  formed, and the children dropped because of their class are denoted by the ones that stay.
\<close>

section \<open>What the children denote\<close>

text \<open>
  \<open>D\<close> lists the denotations of the children. Children of one class must denote the same IDs for the
  query at hand, and children of one group must share their wildcard: both hold by construction of
  the interned tree.
\<close>

definition groups_ok :: "'b roaring \<Rightarrow> ('t, 'v, 'b) child_ops list \<Rightarrow> nat list option \<Rightarrow> bool" where
  "groups_ok R cs groups \<longleftrightarrow>
     (\<forall>gs. groups = Some gs \<longrightarrow> length gs = length cs
       \<and> (\<forall>i<length cs. gs ! i \<noteq> 0 \<longrightarrow> (\<exists>sw. co_shared (cs ! i) = Some sw \<and> bm_ids R (sw_wildcard sw) \<noteq> {}))
       \<and> (\<forall>i<length cs. \<forall>j<length cs. gs ! i \<noteq> 0 \<longrightarrow> gs ! i = gs ! j \<longrightarrow>
            (\<forall>a b. co_shared (cs ! i) = Some a \<longrightarrow> co_shared (cs ! j) = Some b \<longrightarrow>
               bm_ids R (sw_wildcard a) = bm_ids R (sw_wildcard b))))"

definition classes_ok :: "('t, 'v, 'b) child_ops list \<Rightarrow> u32 \<Rightarrow> ('t \<Rightarrow> u32 set) list \<Rightarrow> bool" where
  "classes_ok cs n D \<longleftrightarrow> n \<le> 4294967232
     \<and> (\<forall>v. \<forall>i<length cs. query_class (cs ! i) v \<le> n)
     \<and> (\<forall>v. \<forall>i<length cs. \<forall>j<length cs. query_class (cs ! i) v \<noteq> 0 \<longrightarrow>
          query_class (cs ! i) v = query_class (cs ! j) v \<longrightarrow> (D ! i) v = (D ! j) v)"

definition all_sound ::
  "'b roaring \<Rightarrow> 'v valuation \<Rightarrow> ('t, 'v, 'b) all_rule \<Rightarrow> ('t \<Rightarrow> u32 set) list \<Rightarrow> bool" where
  "all_sound R G r D \<longleftrightarrow> al_children r \<noteq> [] \<and> length D = length (al_children r)
     \<and> (\<forall>i<length D. ops_ok R G (al_children r ! i) (D ! i))
     \<and> va_width G (al_self r) = length D
     \<and> classes_ok (al_children r) (al_class_count r) D
     \<and> groups_ok R (al_children r) (al_groups r)"

definition all_den :: "('t \<Rightarrow> u32 set) list \<Rightarrow> 't \<Rightarrow> u32 set" where
  "all_den D v = (\<Inter>d\<in>set D. d v)"

lemma all_den_nth: "all_den D v = (\<Inter>i<length D. (D ! i) v)"
  unfolding all_den_def by (auto simp: in_set_conv_nth) (use nth_mem in blast)

lemma all_den_empty: "i < length D \<Longrightarrow> (D ! i) v = {} \<Longrightarrow> all_den D v = {}"
  unfolding all_den_nth by blast

lemma all_soundD:
  assumes "all_sound R G r D"
  shows "al_children r \<noteq> []" "length (al_children r) = length D" "D \<noteq> []"
    "\<And>i. i < length D \<Longrightarrow> ops_ok R G (al_children r ! i) (D ! i)"
    "va_width G (al_self r) = length D"
    "classes_ok (al_children r) (al_class_count r) D" "groups_ok R (al_children r) (al_groups r)"
  using assms by (auto simp: all_sound_def)

text \<open>
  An entry of the array: its result, if it has one, is that of its child. In an \<open>Index\<close> search only
  planning postings are there before execution starts.
\<close>

definition fresh_entry ::
  "'b roaring \<Rightarrow> ('t, 'v, 'b) all_rule \<Rightarrow> ('t \<Rightarrow> u32 set) list \<Rightarrow> 't \<Rightarrow> bool \<Rightarrow> 'b ranked \<Rightarrow> bool" where
  "fresh_entry R r D v indexed e \<longleftrightarrow> rk_child e < length D
     \<and> (\<forall>b. rk_bits e = Some b \<longrightarrow> bm_ids R b = (D ! rk_child e) v
          \<and> (indexed \<longrightarrow> (\<exists>s. lookup_planning r (al_children r ! rk_child e) v = Some (b, s))))"

text \<open>Every child is ranked exactly once.\<close>

definition ranked_ok ::
  "'b roaring \<Rightarrow> ('t, 'v, 'b) all_rule \<Rightarrow> ('t \<Rightarrow> u32 set) list \<Rightarrow> 't \<Rightarrow> bool \<Rightarrow> 'b ranked list \<Rightarrow> bool" where
  "ranked_ok R r D v indexed es \<longleftrightarrow> (\<forall>e\<in>set es. fresh_entry R r D v indexed e)
     \<and> mset (map rk_child es) = mset [0..<length D]"

lemma ranked_ok_order:
  assumes "ranked_ok R r D v indexed es"
  shows "length es = length D" "distinct (map rk_child es)" "rk_child ` set es = {..<length D}"
proof -
  have m: "mset (map rk_child es) = mset [0..<length D]" using assms by (simp add: ranked_ok_def)
  from mset_eq_length [OF m] show "length es = length D" by simp
  from m show "distinct (map rk_child es)" by (metis distinct_upt mset_eq_imp_distinct_iff)
  from mset_eq_setD [OF m] show "rk_child ` set es = {..<length D}" by (simp add: atLeast0LessThan)
qed

context roaring
begin

lemma lookup_planning_sound:
  assumes "all_sound R G r D" "i < length D" "lookup_planning r (al_children r ! i) v = Some (b, s)"
  shows "bm_ids R b = (D ! i) v"
  using assms(3) static_okD(1) [OF ops_okD(3) [OF all_soundD(4) [OF assms(1,2)]]]
  by (auto simp: lookup_planning_def split: option.splits)

lemma cheap_child_sound:
  assumes "all_sound R G r D" "i < length D"
  shows "cheap_child R r v (al_children r ! i) = None \<Longrightarrow> (D ! i) v = {}"
    "\<And>b s n. cheap_child R r v (al_children r ! i) = Some (Some (b, s), n) \<Longrightarrow>
       bm_ids R b = (D ! i) v \<and> lookup_planning r (al_children r ! i) v = Some (b, s)"
proof -
  note est = estimates_okD [OF ops_okD(4) [OF all_soundD(4) [OF assms]]]
  show "cheap_child R r v (al_children r ! i) = None \<Longrightarrow> (D ! i) v = {}"
    using est(2,3) lookup_planning_sound [OF assms, of v]
    by (auto simp: cheap_child_def card_zero_iff known_zero_def split: option.splits if_splits prod.splits)
  show "\<And>b s n. cheap_child R r v (al_children r ! i) = Some (Some (b, s), n) \<Longrightarrow>
       bm_ids R b = (D ! i) v \<and> lookup_planning r (al_children r ! i) v = Some (b, s)"
    using lookup_planning_sound [OF assms, of v]
    by (auto simp: cheap_child_def split: option.splits if_splits prod.splits)
qed

lemma rank_cheap_sound:
  assumes snd: "all_sound R G r D"
  shows "cs = drop i (al_children r) \<Longrightarrow> i \<le> length D \<Longrightarrow> length es = length D \<Longrightarrow>
     (\<forall>j<i. rk_child (es ! j) = j \<and> fresh_entry R r D v indexed (es ! j)) \<Longrightarrow>
     (\<forall>j. i \<le> j \<and> j < length D \<longrightarrow> rk_bits (es ! j) = None) \<Longrightarrow>
     (case rank_cheap R r v i cs es bound of
        None \<Rightarrow> all_den D v = {}
      | Some (es', _) \<Rightarrow> length es' = length D
          \<and> (\<forall>j<length D. rk_child (es' ! j) = j \<and> fresh_entry R r D v indexed (es' ! j)))"
proof (induction cs arbitrary: i es bound)
  case Nil
  then have "i = length D" using all_soundD(2) [OF snd] by simp
  with Nil show ?case by simp
next
  case (Cons c cs)
  have i: "i < length D" and c: "c = al_children r ! i" and cs: "cs = drop (Suc i) (al_children r)"
    using Cons.prems(1) all_soundD(2) [OF snd]
    by (metis drop_eq_Nil linorder_not_le list.distinct(1), metis nth_via_drop, metis drop_Suc tl_drop list.sel(3))
  note sound = cheap_child_sound [OF snd i, of v, folded c]
  show ?case
  proof (cases "cheap_child R r v c")
    case None
    with sound(1) all_den_empty [OF i] show ?thesis by simp
  next
    case (Some fe)
    obtain found est where fe: "fe = (found, est)" by (cases fe)
    let ?e = "(set_bits found (es ! i))\<lparr>rk_card := est, rk_child := i\<rparr>"
    have "fresh_entry R r D v indexed ?e"
      using sound(2) Some fe i Cons.prems(5) c
      by (auto simp: fresh_entry_def set_bits_def split: option.splits)
    then have upd: "\<forall>j<Suc i. rk_child (es[i := ?e] ! j) = j \<and> fresh_entry R r D v indexed (es[i := ?e] ! j)"
      using Cons.prems(3,4) i by (simp add: nth_list_update less_Suc_eq)
    have IH: "case rank_cheap R r v (Suc i) cs (es[i := ?e]) (min bound est) of
        None \<Rightarrow> all_den D v = {}
      | Some (es', _) \<Rightarrow> length es' = length D
          \<and> (\<forall>j<length D. rk_child (es' ! j) = j \<and> fresh_entry R r D v indexed (es' ! j))"
      by (rule Cons.IH [OF cs]) (use i Cons.prems upd in simp_all)
    then show ?thesis using Some fe by simp
  qed
qed

lemma lookup_cached_sound:
  assumes "all_sound R G r D" "i < length D" "pool_ok R G p" "lookup_cached (al_children r ! i) v p = (f, p')"
  shows "pool_ok R G p'" "pool_step p p'" "po_local p = None \<Longrightarrow> f = None"
    "\<And>b s. f = Some (b, s) \<Longrightarrow> bm_ids R b = (D ! i) v"
  using assms(3,4) cached_okD [OF ops_okD(2) [OF all_soundD(4) [OF assms(1,2)]] _ assms(3), of _ v f p']
  by (auto simp: lookup_cached_def split: option.splits)

lemma estimate_for_plan_sound:
  assumes "all_sound R G r D" "i < length D" "pool_ok R G p" "estimate_for_plan (al_children r ! i) v p = (f, p')"
  shows "pool_ok R G p'" "pool_step p p'" "f = Some 0 \<Longrightarrow> (D ! i) v = {}"
proof -
  note est = ops_okD(4) [OF all_soundD(4) [OF assms(1,2)]]
  show "pool_ok R G p'" "pool_step p p'" "f = Some 0 \<Longrightarrow> (D ! i) v = {}"
    using assms(3,4) estimates_okD(1) [OF est] cached_estimateD [OF est _ assms(3), of _ v]
    by (auto simp: estimate_for_plan_def split: option.splits prod.splits)
qed

lemma estimate_child_sound:
  assumes "all_sound R G r D" "i < length D" "pool_ok R G p" "estimate_child R v (al_children r ! i) p = (res, p')"
  shows "pool_ok R G p'" "pool_step p p'" "res = None \<Longrightarrow> (D ! i) v = {}"
    "\<And>b s n. res = Some (Some (b, s), n) \<Longrightarrow> bm_ids R b = (D ! i) v \<and> po_local p \<noteq> None"
proof -
  let ?c = "al_children r ! i"
  obtain f q where f: "lookup_cached ?c v p = (f, q)" by (cases "lookup_cached ?c v p")
  obtain g q' where g: "estimate_for_plan ?c v q = (g, q')" by (cases "estimate_for_plan ?c v q")
  note cached = lookup_cached_sound [OF assms(1-3) f]
  note est = estimate_for_plan_sound [OF assms(1,2) cached(1) g]
  have zero: "known_zero (co_zero ?c) v \<Longrightarrow> (D ! i) v = {}"
    using estimates_okD(4) [OF ops_okD(4) [OF all_soundD(4) [OF assms(1,2)]]]
    by (auto simp: known_zero_def split: option.splits)
  have "pool_ok R G p' \<and> pool_step p p' \<and> (res = None \<longrightarrow> (D ! i) v = {})
      \<and> (\<forall>b s n. res = Some (Some (b, s), n) \<longrightarrow> bm_ids R b = (D ! i) v \<and> po_local p \<noteq> None)"
  proof (cases f)
    case None
    then have p': "p' = q'" and res: "res = (case g of Some e \<Rightarrow> if e = 0 then None else Some (None, e)
        | None \<Rightarrow> if known_zero (co_zero ?c) v then None else Some (None, max_u64))"
      using assms(4) f g by (auto simp: estimate_child_def split: option.splits if_splits)
    show ?thesis
      using est zero pool_step_trans [OF cached(2) est(2)] unfolding p' res by (auto split: option.splits if_splits)
  next
    case (Some bs)
    obtain b s where bs: "bs = (b, s)" by (cases bs)
    have p': "p' = q" and res: "res = (if bm_card R b = 0 then None else Some (Some (b, s), bm_card R b))"
      using assms(4) f Some bs by (auto simp: estimate_child_def)
    show ?thesis using cached Some bs unfolding p' res by (auto simp: card_zero_iff)
  qed
  then show "pool_ok R G p'" "pool_step p p'" "res = None \<Longrightarrow> (D ! i) v = {}"
    "\<And>b s n. res = Some (Some (b, s), n) \<Longrightarrow> bm_ids R b = (D ! i) v \<and> po_local p \<noteq> None" by blast+
qed

lemma rank_estimates_sound:
  assumes snd: "all_sound R G r D"
  shows "cs = drop i (al_children r) \<Longrightarrow> i \<le> length D \<Longrightarrow> length es = length D \<Longrightarrow> pool_ok R G p \<Longrightarrow>
     (indexed \<longrightarrow> po_local p = None) \<Longrightarrow>
     (\<forall>j<length D. rk_child (es ! j) = j \<and> fresh_entry R r D v indexed (es ! j)) \<Longrightarrow>
     rank_estimates R v i cs es p = (res, p') \<Longrightarrow>
     pool_ok R G p' \<and> pool_step p p' \<and> (case res of
        None \<Rightarrow> all_den D v = {}
      | Some es' \<Rightarrow> length es' = length D
          \<and> (\<forall>j<length D. rk_child (es' ! j) = j \<and> fresh_entry R r D v indexed (es' ! j)))"
proof (induction cs arbitrary: i es p)
  case Nil
  then show ?case by auto
next
  case (Cons c cs)
  have i: "i < length D" and c: "c = al_children r ! i" and cs: "cs = drop (Suc i) (al_children r)"
    using Cons.prems(1) all_soundD(2) [OF snd]
    by (metis drop_eq_Nil linorder_not_le list.distinct(1), metis nth_via_drop, metis drop_Suc tl_drop list.sel(3))
  have old: "rk_child (es ! i) = i" "fresh_entry R r D v indexed (es ! i)" using Cons.prems(6) i by auto
  obtain f q where f: "estimate_child R v c p = (f, q)" by (cases "estimate_child R v c p")
  note sound = estimate_child_sound [OF snd i Cons.prems(4) f [unfolded c]]
  show ?case
  proof (cases "rk_card (es ! i) = max_u64")
    case False
    then show ?thesis using Cons.IH [OF cs _ Cons.prems(3-6)] i Cons.prems(7) by simp
  next
    case unknown: True
    show ?thesis
    proof (cases f)
      case None
      with sound(3) all_den_empty [OF i] have "all_den D v = {}" by simp
      with None unknown f Cons.prems(7) sound(1,2) show ?thesis by auto
    next
      case (Some fe)
      obtain found est where fe: "fe = (found, est)" by (cases fe)
      let ?e = "(set_bits found (es ! i))\<lparr>rk_card := est\<rparr>"
      have run: "rank_estimates R v (Suc i) cs (es[i := ?e]) q = (res, p')"
        using Some fe unknown f Cons.prems(7) by simp
      have e: "rk_child ?e = i" "fresh_entry R r D v indexed ?e"
        using sound(4) Some fe old Cons.prems(5) by (auto simp: fresh_entry_def set_bits_def split: option.splits)
      have q: "indexed \<longrightarrow> po_local q = None" using sound(2) Cons.prems(5) by (simp add: pool_step_def)
      have upd: "\<forall>j<length D. rk_child (es[i := ?e] ! j) = j \<and> fresh_entry R r D v indexed (es[i := ?e] ! j)"
      proof (intro allI impI)
        fix j assume "j < length D"
        with e Cons.prems(3,6) i show "rk_child (es[i := ?e] ! j) = j \<and> fresh_entry R r D v indexed (es[i := ?e] ! j)"
          by (cases "j = i") (simp_all only: nth_list_update_eq nth_list_update_neq not_False_eq_True)
      qed
      have len: "length (es[i := ?e]) = length D" "Suc i \<le> length D" using Cons.prems(3) i by simp_all
      from Cons.IH [OF cs len(2,1) sound(1) q upd run] pool_step_trans [OF sound(2)] show ?thesis by blast
    qed
  qed
qed

text \<open>After both passes and the sort.\<close>

lemma indexed_mset: "length es = n \<Longrightarrow> (\<forall>j<n. rk_child (es ! j) = j) \<Longrightarrow> map rk_child es = [0..<n]"
  by (rule nth_equalityI) simp_all

lemma remember_local_plan_sound:
  assumes "pool_ok R G p" "va_width G (al_self r) = length (al_children r)"
    and "mset (map rk_child es) = mset [0..<length (al_children r)]"
  shows "pool_ok R G (remember_local_plan r es p)" "pool_step p (remember_local_plan r es p)"
proof -
  have len: "length es = length (al_children r)" using mset_eq_length [OF assms(3)] by simp
  have d: "distinct (map rk_child es)" using assms(3) by (metis distinct_upt mset_eq_imp_distinct_iff)
  have s: "set (map rk_child es) = {..<length (al_children r)}"
    using mset_eq_setD [OF assms(3)] by (simp add: atLeast0LessThan)
  let ?old = "case po_plans p (al_self r) of Some plan \<Rightarrow> plan | None \<Rightarrow> new_all_plan (length es)"
  have old: "length (ap_results ?old) = 4" "ap_next ?old < 4"
    using assms(1) by (auto simp: pool_ok_def plan_ok_def new_all_plan_def split: option.split)
  have plan: "plan_ok (va_width G (al_self r)) (?old\<lparr>ap_order := map rk_child es,
      ap_valid := valid_local_plan_order (map rk_child es) (length (al_children r)), ap_first_card := rk_card (hd es)\<rparr>)"
    using old len d s assms(2) by (auto simp: plan_ok_def)
  show "pool_ok R G (remember_local_plan r es p)"
    using assms(1) plan by (auto simp: remember_local_plan_def Let_def pool_ok_def)
  have content: "source_content (remember_local_plan r es p) s = source_content p s" for s
    by (cases s) (simp_all add: remember_local_plan_def Let_def slot_content_def)
  have "plan_results (remember_local_plan r es p) self = plan_results p self" for self
    by (auto simp: plan_results_def remember_local_plan_def Let_def new_all_plan_def split: option.split)
  then show "pool_step p (remember_local_plan r es p)"
    by (simp add: pool_step_def content) (simp add: remember_local_plan_def Let_def)
qed

lemma sort_ranked_ok: "ranked_ok R r D v indexed es \<Longrightarrow> ranked_ok R r D v indexed (sort_ranked es)"
  by (simp add: ranked_ok_def sort_ranked_def)

lemma rank_all_sound:
  assumes snd: "all_sound R G r D" and es: "length es = length D" "\<forall>e\<in>set es. rk_bits e = None"
    and p: "pool_ok R G p" "indexed \<longrightarrow> po_local p = None"
    and run: "rank_all R r v es p = (res, p')"
  shows "pool_ok R G p'" "pool_step p p'" "res = None \<Longrightarrow> all_den D v = {}"
    "\<And>es'. res = Some es' \<Longrightarrow> ranked_ok R r D v indexed es'"
proof -
  let ?cs = "al_children r"
  let ?post = "\<lambda>xs. length xs = length D \<and> (\<forall>j<length D. rk_child (xs ! j) = j \<and> fresh_entry R r D v indexed (xs ! j))"
  have ranked: "ranked_ok R r D v indexed (sort_ranked xs)" if "?post xs" for xs
  proof (rule sort_ranked_ok)
    have "map rk_child xs = [0..<length D]" using that by (intro indexed_mset) auto
    with that show "ranked_ok R r D v indexed xs" by (auto simp: ranked_ok_def in_set_conv_nth)
  qed
  have cheap: "case rank_cheap R r v 0 ?cs es max_u64 of None \<Rightarrow> all_den D v = {} | Some (xs, _) \<Rightarrow> ?post xs"
    by (rule rank_cheap_sound [OF snd]) (use es in auto)
  have "pool_ok R G p' \<and> pool_step p p' \<and> (case res of None \<Rightarrow> all_den D v = {}
      | Some es' \<Rightarrow> ranked_ok R r D v indexed es')"
  proof (cases "rank_cheap R r v 0 ?cs es max_u64")
    case None
    with cheap run p show ?thesis by (auto simp: rank_all_def)
  next
    case (Some xb)
    obtain xs bound where xb: "xb = (xs, bound)" by (cases xb)
    have xs: "?post xs" using cheap Some xb by simp
    obtain ys q where ys: "(if allCandidateScanLimit < bound then rank_estimates R v 0 ?cs xs p else (Some xs, p)) = (ys, q)"
      by (cases "if allCandidateScanLimit < bound then rank_estimates R v 0 ?cs xs p else (Some xs, p)")
    have mid: "pool_ok R G q \<and> pool_step p q \<and> (case ys of None \<Rightarrow> all_den D v = {} | Some zs \<Rightarrow> ?post zs)"
    proof (cases "allCandidateScanLimit < bound")
      case True
      show ?thesis by (rule rank_estimates_sound [OF snd _ _ _ p]) (use xs ys True in auto)
    qed (use xs ys p in auto)
    show ?thesis
    proof (cases ys)
      case None
      with mid ys run Some xb show ?thesis by (auto simp: rank_all_def)
    next
      case zs: (Some zs)
      have ok: "ranked_ok R r D v indexed (sort_ranked zs)" using mid zs by (intro ranked) simp
      have p': "p' = (if po_local q = None then q else remember_local_plan r (sort_ranked zs) q)"
        and res: "res = Some (sort_ranked zs)"
        using run Some xb ys zs by (auto simp: rank_all_def Let_def)
      have "va_width G (al_self r) = length (al_children r)" using all_soundD(2,5) [OF snd] by simp
      note rem = remember_local_plan_sound [OF mid [THEN conjunct1] this, of "sort_ranked zs"]
      have "pool_ok R G p' \<and> pool_step q p'"
        unfolding p' using mid rem ok all_soundD(2) [OF snd] by (auto simp: ranked_ok_def)
      with mid ok res show ?thesis by (auto intro: pool_step_trans)
    qed
  qed
  then show "pool_ok R G p'" "pool_step p p'" "res = None \<Longrightarrow> all_den D v = {}"
    "\<And>es'. res = Some es' \<Longrightarrow> ranked_ok R r D v indexed es'" by auto
qed

lemma rank_children_index:
  assumes "all_sound R G r D" "pool_ok R G p" "po_local p = None" "length es = length D" "\<forall>e\<in>set es. rk_bits e = None"
    and "rank_children R r v es p = (res, p')"
  shows "pool_ok R G p'" "pool_step p p'" "res = None \<Longrightarrow> all_den D v = {}"
    "\<And>es'. res = Some es' \<Longrightarrow> ranked_ok R r D v True es'"
  using rank_all_sound [OF assms(1,4,5,2), of True v res p'] assms(3,6) by (auto simp: rank_children_def)

end

section \<open>Classes\<close>

text \<open>The set of classes a mask stands for.\<close>

definition mask_classes :: "u64 list \<Rightarrow> u32 set" where
  "mask_classes checked = {cls. cls \<noteq> 0 \<and> and (checked ! class_word cls) (class_bit cls) \<noteq> 0}"

lemma class_bit_iff: "and w (class_bit cls) \<noteq> 0 \<longleftrightarrow> bit w (unat ((cls - 1) mod 64))"
  by (simp add: class_bit_def push_bit_of_1 and_exp_eq_0_iff_not_bit)

lemma class_slot_inj:
  assumes "class_word a = class_word b" "unat ((a - 1) mod 64) = unat ((b - 1) mod 64)"
  shows "a = b"
proof -
  have "unat (a - 1) = unat (b - 1)"
    using assms unfolding class_word_def unat_div unat_mod by (metis div_mult_mod_eq)
  then have "a - 1 = b - 1" by (rule word_unat_eq_iff [THEN iffD2])
  then show ?thesis by simp
qed

lemma mask_classes_mark:
  assumes "cls \<noteq> 0" "class_word cls < length checked"
  shows "mask_classes (checked[class_word cls := or (checked ! class_word cls) (class_bit cls)])
    = insert cls (mask_classes checked)"
proof -
  have "bit (or w (class_bit cls)) (unat ((c - 1) mod 64)) \<longleftrightarrow>
      bit w (unat ((c - 1) mod 64)) \<or> unat ((c - 1) mod 64) = unat ((cls - 1) mod 64)" for c :: u32 and w :: u64
  proof -
    have "unat ((c - 1) mod 64) < 64" "unat ((cls - 1) mod 64) < 64" by (simp_all add: unat_mod)
    then show ?thesis by (auto simp: class_bit_def bit_simps)
  qed
  then show ?thesis
    using assms class_slot_inj [of _ cls]
    by (auto simp: mask_classes_def class_bit_iff nth_list_update)
qed

lemma mask_classes_clear:
  assumes "\<And>c. c \<noteq> 0 \<Longrightarrow> c \<le> n \<Longrightarrow> class_word c < k" "c \<le> n"
  shows "c \<notin> mask_classes (replicate k 0)"
proof (cases "c = 0")
  case False
  then have "replicate k (0 :: u64) ! class_word c = 0" using assms by simp
  then show ?thesis by (simp add: mask_classes_def)
qed (simp add: mask_classes_def)

text \<open>Every class up to the class count has its word in the mask.\<close>

lemma class_word_less:
  assumes "cls \<noteq> 0" "cls \<le> al_class_count r" "al_class_count r \<le> 4294967232"
  shows "class_word cls < class_mask_words r"
proof -
  let ?n = "unat (al_class_count r)"
  have c: "unat (cls - 1) = unat cls - 1" "0 < unat cls" "unat cls \<le> ?n"
    using assms(1,2) by (simp_all add: unat_minus_one unat_gt_0 word_le_nat_alt)
  have n: "?n \<le> 4294967232" using assms(3) by (simp add: word_le_nat_alt)
  then have "unat (al_class_count r + 63) = ?n + 63"
    by (simp add: unat_word_ariths unat_of_nat)
  then have big: "unat ((al_class_count r + 63) div 64) = (?n + 63) div 64" by (simp add: unat_div)
  have w: "class_word cls = (unat cls - 1) div 64" by (simp add: class_word_def unat_div c(1))
  show ?thesis
    using c n unfolding class_mask_words_def w big by (auto simp: word_le_nat_alt)
qed

lemma deduplicate_classes_subset: "set (deduplicate_classes r v checked es) \<subseteq> set es"
  by (induction r v checked es rule: deduplicate_classes.induct) (auto simp: Let_def)

lemma deduplicate_classes_cover:
  fixes r v
  defines "cls \<equiv> \<lambda>e. query_class (al_children r ! rk_child e) v"
  assumes "\<forall>e\<in>set es. cls e \<le> n" and "\<And>c. c \<noteq> 0 \<Longrightarrow> c \<le> n \<Longrightarrow> class_word c < length checked"
  shows "\<forall>e\<in>set es. e \<in> set (deduplicate_classes r v checked es) \<or> cls e \<in> mask_classes checked
      \<or> (cls e \<noteq> 0 \<and> (\<exists>k\<in>set (deduplicate_classes r v checked es). cls k = cls e))"
  using assms(2,3)
proof (induction es arbitrary: checked)
  case (Cons e es)
  have e: "cls e \<le> n" "\<forall>e\<in>set es. cls e \<le> n" using Cons.prems(1) by auto
  let ?m = "checked[class_word (cls e) := or (checked ! class_word (cls e)) (class_bit (cls e))]"
  consider "cls e = 0" | "cls e \<in> mask_classes checked" | "cls e \<noteq> 0" "cls e \<notin> mask_classes checked" by blast
  then show ?case
  proof cases
    case 1
    then have "deduplicate_classes r v checked (e # es) = e # deduplicate_classes r v checked es"
      by (simp add: cls_def)
    with Cons.IH [OF e(2) Cons.prems(2)] show ?thesis by auto
  next
    case 2
    then have "deduplicate_classes r v checked (e # es) = deduplicate_classes r v checked es"
      by (simp add: cls_def mask_classes_def Let_def)
    with 2 Cons.IH [OF e(2) Cons.prems(2)] show ?thesis by auto
  next
    case 3
    then have dd: "deduplicate_classes r v checked (e # es) = e # deduplicate_classes r v ?m es"
      by (simp add: cls_def mask_classes_def Let_def)
    have mk: "mask_classes ?m = insert (cls e) (mask_classes checked)"
      by (rule mask_classes_mark [OF 3(1) Cons.prems(2) [OF 3(1) e(1)]])
    have "\<forall>x\<in>set es. x \<in> set (deduplicate_classes r v ?m es) \<or> cls x \<in> insert (cls e) (mask_classes checked)
        \<or> (cls x \<noteq> 0 \<and> (\<exists>k\<in>set (deduplicate_classes r v ?m es). cls k = cls x))"
      unfolding mk [symmetric] by (rule Cons.IH [OF e(2)]) (use Cons.prems(2) in simp)
    with 3(1) show ?thesis unfolding dd by auto
  qed
qed simp
text \<open>
  The entries execution starts from: at least one, each with its own result or none, and together
  they denote the intersection of all children, although some children may be missing.
\<close>

definition entries_ok ::
  "'b roaring \<Rightarrow> ('t, 'v, 'b) all_rule \<Rightarrow> ('t \<Rightarrow> u32 set) list \<Rightarrow> 't \<Rightarrow> bool \<Rightarrow> 'b ranked list \<Rightarrow> bool" where
  "entries_ok R r D v indexed es \<longleftrightarrow> es \<noteq> [] \<and> (\<forall>e\<in>set es. fresh_entry R r D v indexed e)
     \<and> (\<Inter>e\<in>set es. (D ! rk_child e) v) = all_den D v"

lemma ranked_ok_entries:
  assumes "ranked_ok R r D v indexed es" "D \<noteq> []"
  shows "entries_ok R r D v indexed es"
proof -
  have "es \<noteq> []" using ranked_ok_order(1) [OF assms(1)] assms(2) by auto
  moreover have "(\<Inter>e\<in>set es. (D ! rk_child e) v) = (\<Inter>i\<in>rk_child ` set es. (D ! i) v)" by simp
  ultimately show ?thesis
    using assms(1) by (simp add: entries_ok_def ranked_ok_def all_den_nth ranked_ok_order(3) [OF assms(1)] lessThan_def)
qed

lemma deduplicate_entries_ok:
  assumes snd: "all_sound R G r D" and es: "entries_ok R r D v indexed es"
  shows "entries_ok R r D v indexed (deduplicate_classes r v (replicate (class_mask_words r) 0) es)"
proof -
  let ?kept = "deduplicate_classes r v (replicate (class_mask_words r) 0) es"
  let ?cls = "\<lambda>e. query_class (al_children r ! rk_child e) v"
  note cl = all_soundD(6) [OF snd, unfolded classes_ok_def all_soundD(2) [OF snd]]
  have child: "\<forall>e\<in>set es. rk_child e < length D" using es by (simp add: entries_ok_def fresh_entry_def)
  have word: "class_word c < class_mask_words r" if "c \<noteq> 0" "c \<le> al_class_count r" for c
    using class_word_less [OF that] cl by simp
  have le: "\<forall>e\<in>set es. ?cls e \<le> al_class_count r" using cl child by simp
  have cover: "\<forall>e\<in>set es. e \<in> set ?kept \<or> (?cls e \<noteq> 0 \<and> (\<exists>k\<in>set ?kept. ?cls k = ?cls e))"
    using deduplicate_classes_cover [of es r v "al_class_count r" "replicate (class_mask_words r) 0"] le word
      mask_classes_clear [of "al_class_count r" "class_mask_words r"]
    by (metis (no_types, lifting) length_replicate)
  note sub = deduplicate_classes_subset [of r v "replicate (class_mask_words r) 0" es]
  have same: "(\<Inter>e\<in>set ?kept. (D ! rk_child e) v) = (\<Inter>e\<in>set es. (D ! rk_child e) v)"
  proof (rule antisym)
    show "(\<Inter>e\<in>set ?kept. (D ! rk_child e) v) \<subseteq> (\<Inter>e\<in>set es. (D ! rk_child e) v)"
    proof (rule INF_greatest)
      fix e assume e: "e \<in> set es"
      have "\<exists>k\<in>set ?kept. (D ! rk_child k) v = (D ! rk_child e) v"
      proof (cases "e \<in> set ?kept")
        case False
        with cover e obtain k where k: "k \<in> set ?kept" "?cls k = ?cls e" "?cls e \<noteq> 0" by blast
        then have "rk_child k < length D" using child sub by blast
        with k cl child e have "(D ! rk_child k) v = (D ! rk_child e) v" by (metis (no_types, lifting))
        with k(1) show ?thesis by blast
      qed blast
      then show "(\<Inter>e\<in>set ?kept. (D ! rk_child e) v) \<subseteq> (D ! rk_child e) v" by blast
    qed
  qed (use sub in blast)
  have "?kept \<noteq> []" using cover es by (cases es) (auto simp: entries_ok_def)
  with es sub same show ?thesis unfolding entries_ok_def by blast
qed

end
