(* ===== verification/Equality_Classes.thy ===== *)
theory Equality_Classes
  imports Published_Child All_Ranking "HOL-Library.Product_Lexorder" "HOL-Library.AList"
begin

text \<open>
  \<open>compileAllEqualityClasses\<close> (\<^verbatim>\<open>bitmap_intern.go\<close>, with \<open>visitEqualitySources\<close> and \<open>assignEqualityClasses\<close> of
  \<^verbatim>\<open>eq.go\<close>). The result of an equality filter is determined by a pair of interned bitmaps, its wildcard and
  the posting of the query value. A pair that occurs in at least two children of an \<open>All\<close> gets a class;
  children of one class have the same result, so a search evaluates only one of them.
\<close>

section \<open>Counting owners\<close>

type_synonym source_pair = "u32 \<times> u32"

text \<open>The posting number 0 stands for the wildcard alone.\<close>

definition visit_equality_sources :: "('t, 'v, 'k, 'b) eq_rule \<Rightarrow> source_pair list" where
  "visit_equality_sources r =
     (er_wildcard_source r, 0)
       # map (\<lambda>s. (er_wildcard_source r, es_source s)) (filter (\<lambda>s. es_source s \<noteq> 0) (ei_sets (er_values r)))"

definition child_sources :: "('t, 'v, 'k, 'b) child \<Rightarrow> source_pair list" where
  "child_sources c = (case equality_operand c of Some r \<Rightarrow> visit_equality_sources r | None \<Rightarrow> [])"

text \<open>\<open>equalitySourceOccurrence\<close>; Go's map is an association list, whose order is lost in the sort below.\<close>

record occurrence =
  oc_last_owner :: nat
  oc_owners :: nat

definition visit_source :: "nat \<Rightarrow> (source_pair \<times> occurrence) list \<Rightarrow> source_pair \<Rightarrow> (source_pair \<times> occurrence) list" where
  "visit_source owner occ pair =
     (let entry = (case map_of occ pair of Some entry \<Rightarrow> entry | None \<Rightarrow> \<lparr>oc_last_owner = 0, oc_owners = 0\<rparr>)
      in if oc_last_owner entry = owner then occ
         else AList.update pair \<lparr>oc_last_owner = owner, oc_owners = oc_owners entry + 1\<rparr> occ)"

fun count_owners ::
  "nat \<Rightarrow> ('t, 'v, 'k, 'b) child list \<Rightarrow> (source_pair \<times> occurrence) list \<Rightarrow> (source_pair \<times> occurrence) list" where
  "count_owners owner [] occ = occ"
| "count_owners owner (c # cs) occ = count_owners (Suc owner) cs (foldl (visit_source owner) occ (child_sources c))"

section \<open>Classes\<close>

definition shared_pairs :: "('t, 'v, 'k, 'b) child list \<Rightarrow> source_pair list" where
  "shared_pairs cs = sort (map fst (filter (\<lambda>(pair, entry). 2 \<le> oc_owners entry) (count_owners 1 cs [])))"

text \<open>The classes in order, and how many there are.\<close>

fun number_classes :: "source_pair list \<Rightarrow> (source_pair \<rightharpoonup> u32) \<Rightarrow> u32 \<Rightarrow> (source_pair \<rightharpoonup> u32) \<times> u32" where
  "number_classes [] classes n = (classes, n)"
| "number_classes (pair # pairs) classes n = number_classes pairs (classes(pair \<mapsto> n + 1)) (n + 1)"

definition class_of :: "(source_pair \<rightharpoonup> u32) \<Rightarrow> source_pair \<Rightarrow> u32" where
  "class_of classes pair = (case classes pair of Some n \<Rightarrow> n | None \<Rightarrow> 0)"

definition assign_equality_classes ::
  "(source_pair \<rightharpoonup> u32) \<Rightarrow> ('t, 'v, 'k, 'b) eq_rule \<Rightarrow> ('t, 'v, 'k, 'b) eq_rule" where
  "assign_equality_classes classes r =
     r\<lparr>er_wildcard_class := class_of classes (er_wildcard_source r, 0),
       er_values := (er_values r)\<lparr>ei_sets := map (\<lambda>s. if es_source s \<noteq> 0
           then s\<lparr>es_class := class_of classes (er_wildcard_source r, es_source s)\<rparr> else s) (ei_sets (er_values r))\<rparr>\<rparr>"

fun assign_child :: "(source_pair \<rightharpoonup> u32) \<Rightarrow> ('t, 'v, 'k, 'b) child \<Rightarrow> ('t, 'v, 'k, 'b) child" where
  "assign_child classes (Filter_Child (Equality_Leaf r)) = Filter_Child (Equality_Leaf (assign_equality_classes classes r))"
| "assign_child classes c = c"

definition compile_equality_classes :: "('t, 'v, 'k, 'b) child list \<Rightarrow> ('t, 'v, 'k, 'b) child list \<times> u32" where
  "compile_equality_classes cs =
     (case number_classes (shared_pairs cs) Map.empty 0 of
        (classes, n) \<Rightarrow> (if shared_pairs cs = [] then (cs, n) else (map (assign_child classes) cs, n)))"

section \<open>Which pairs have a class\<close>

definition owners :: "('t, 'v, 'k, 'b) child list \<Rightarrow> source_pair \<Rightarrow> nat set" where
  "owners cs pair = {i. i < length cs \<and> pair \<in> set (child_sources (cs ! i))}"

text \<open>
  While \<open>owner\<close> is counted, \<open>seen\<close> holds the pairs it has been counted for, and the entry of a pair has the
  number of its owners so far.
\<close>

definition counted :: "nat \<Rightarrow> (source_pair \<times> occurrence) list \<Rightarrow> (source_pair \<Rightarrow> nat) \<Rightarrow> source_pair set \<Rightarrow> bool" where
  "counted owner occ f seen \<longleftrightarrow> distinct (map fst occ)
     \<and> (\<forall>pair. case map_of occ pair of None \<Rightarrow> f pair = 0 \<and> pair \<notin> seen
          | Some entry \<Rightarrow> oc_owners entry = f pair \<and> 0 < f pair \<and> oc_last_owner entry \<le> owner
              \<and> (oc_last_owner entry = owner \<longleftrightarrow> pair \<in> seen))"

lemma counted_entry:
  assumes "counted owner occ f seen"
  shows "map_of occ pair = None \<Longrightarrow> f pair = 0 \<and> pair \<notin> seen"
    "map_of occ pair = Some e \<Longrightarrow> oc_owners e = f pair \<and> 0 < f pair \<and> oc_last_owner e \<le> owner \<and> (oc_last_owner e = owner \<longleftrightarrow> pair \<in> seen)"
  using assms [unfolded counted_def, THEN conjunct2, rule_format, of pair] by (auto split: option.splits)

lemma counted_visit:
  assumes "counted owner occ f seen" "0 < owner"
  shows "counted owner (visit_source owner occ pair) (f(pair := if pair \<in> seen then f pair else Suc (f pair))) (insert pair seen)"
proof (cases "pair \<in> seen")
  case True
  then obtain e where "map_of occ pair = Some e" "oc_last_owner e = owner"
    using counted_entry [OF assms(1), of pair] by (cases "map_of occ pair") auto
  then have "visit_source owner occ pair = occ" by (simp add: visit_source_def)
  with True assms(1) show ?thesis by (simp add: fun_upd_idem insert_absorb)
next
  case False
  have upd: "visit_source owner occ pair = AList.update pair \<lparr>oc_last_owner = owner, oc_owners = Suc (f pair)\<rparr> occ"
  proof (cases "map_of occ pair")
    case None
    with counted_entry(1) [OF assms(1) None] assms(2) show ?thesis by (simp add: visit_source_def)
  next
    case (Some e)
    with counted_entry(2) [OF assms(1) Some] False show ?thesis by (simp add: visit_source_def)
  qed
  have "case map_of (visit_source owner occ pair) p of None \<Rightarrow> (f(pair := Suc (f pair))) p = 0 \<and> p \<notin> insert pair seen
      | Some e \<Rightarrow> oc_owners e = (f(pair := Suc (f pair))) p \<and> 0 < (f(pair := Suc (f pair))) p \<and> oc_last_owner e \<le> owner
          \<and> (oc_last_owner e = owner \<longleftrightarrow> p \<in> insert pair seen)" for p
    using counted_entry [OF assms(1), of p] unfolding upd by (cases "p = pair") (auto simp: update_conv' split: option.split)
  with False assms(1) show ?thesis unfolding counted_def upd by (simp add: distinct_update del: split_paired_All)
qed

lemma counted_child:
  assumes "counted owner occ f {}" "0 < owner"
  shows "counted owner (foldl (visit_source owner) occ pairs) (\<lambda>pair. if pair \<in> set pairs then Suc (f pair) else f pair) (set pairs)"
proof (induction pairs rule: rev_induct)
  case Nil
  with assms show ?case by simp
next
  case (snoc pair pairs)
  have "(\<lambda>p. if p \<in> set pairs then Suc (f p) else f p)(pair := if pair \<in> set pairs then Suc (f pair)
      else Suc (if pair \<in> set pairs then Suc (f pair) else f pair))
    = (\<lambda>p. if p \<in> set (pairs @ [pair]) then Suc (f p) else f p)" by (auto simp: fun_eq_iff)
  with counted_visit [OF snoc assms(2), of pair] show ?case by (simp split: if_splits)
qed

lemma counted_next: "counted owner occ f seen \<Longrightarrow> counted (Suc owner) occ f {}"
  using counted_entry [of owner occ f seen] unfolding counted_def
  by (fastforce split: option.split simp del: split_paired_All)

lemma owners_Cons: "card (owners (c # cs) pair) = (if pair \<in> set (child_sources c) then 1 else 0) + card (owners cs pair)"
proof -
  have "owners (c # cs) pair = (if pair \<in> set (child_sources c) then {0} else {}) \<union> Suc ` owners cs pair"
  proof (intro equalityI subsetI)
    fix i assume "i \<in> owners (c # cs) pair"
    then show "i \<in> (if pair \<in> set (child_sources c) then {0} else {}) \<union> Suc ` owners cs pair"
      by (cases i) (auto simp: owners_def)
  qed (auto simp: owners_def split: if_splits)
  moreover have "finite (owners cs pair)" by (simp add: owners_def)
  ultimately show ?thesis by (simp add: card_image)
qed

lemma count_owners:
  assumes "counted owner occ f {}" "0 < owner"
  shows "\<exists>owner' . counted owner' (count_owners owner cs occ) (\<lambda>pair. f pair + card (owners cs pair)) {}"
  using assms
proof (induction cs arbitrary: owner occ f)
  case Nil
  then show ?case by (auto simp: owners_def)
next
  case (Cons c cs)
  have "counted (Suc owner) (foldl (visit_source owner) occ (child_sources c))
      (\<lambda>pair. if pair \<in> set (child_sources c) then Suc (f pair) else f pair) {}"
    by (rule counted_next [OF counted_child [OF Cons.prems]])
  from Cons.IH [OF this] obtain owner' where
    "counted owner' (count_owners owner (c # cs) occ)
       (\<lambda>pair. (if pair \<in> set (child_sources c) then Suc (f pair) else f pair) + card (owners cs pair)) {}" by auto
  moreover have "(\<lambda>pair. (if pair \<in> set (child_sources c) then Suc (f pair) else f pair) + card (owners cs pair))
      = (\<lambda>pair. f pair + card (owners (c # cs) pair))" by (simp add: fun_eq_iff owners_Cons)
  ultimately show ?case by metis
qed

text \<open>Exactly the pairs of two or more children get a class.\<close>

lemma shared_pairs:
  "set (shared_pairs cs) = {pair. 2 \<le> card (owners cs pair)}" "distinct (shared_pairs cs)" "sorted (shared_pairs cs)"
proof -
  have "counted 1 [] (\<lambda>_. 0) {}" by (simp add: counted_def)
  from count_owners [OF this, of cs] obtain owner where
    cnt: "counted owner (count_owners 1 cs []) (\<lambda>pair. card (owners cs pair)) {}" by auto
  then have dist: "distinct (map fst (count_owners 1 cs []))" by (simp add: counted_def)
  have iff: "(\<exists>e. (pair, e) \<in> set (count_owners 1 cs []) \<and> 2 \<le> oc_owners e) \<longleftrightarrow> 2 \<le> card (owners cs pair)" for pair
  proof (cases "map_of (count_owners 1 cs []) pair")
    case None
    with counted_entry(1) [OF cnt None] show ?thesis by (auto simp: map_of_eq_None_iff image_iff)
  next
    case (Some e)
    have "e' = e" if "(pair, e') \<in> set (count_owners 1 cs [])" for e'
      using that Some dist by (metis map_of_is_SomeI option.inject)
    with counted_entry(2) [OF cnt Some] map_of_SomeD [OF Some] show ?thesis by metis
  qed
  show "set (shared_pairs cs) = {pair. 2 \<le> card (owners cs pair)}"
  proof -
    have "set (shared_pairs cs) = {pair. \<exists>e. (pair, e) \<in> set (count_owners 1 cs []) \<and> 2 \<le> oc_owners e}"
      unfolding shared_pairs_def by (auto simp: image_iff)
    then show ?thesis by (simp only: iff)
  qed
  show "distinct (shared_pairs cs)" using dist by (simp add: shared_pairs_def distinct_map_filter)
  show "sorted (shared_pairs cs)" by (simp add: shared_pairs_def)
qed

section \<open>Children of one class agree\<close>

lemma number_classes_spec:
  assumes "number_classes pairs classes n = (classes', n')"
  shows "n' = n + of_nat (length pairs) \<and> (\<forall>pair. pair \<notin> set pairs \<longrightarrow> classes' pair = classes pair)
    \<and> (distinct pairs \<longrightarrow> (\<forall>j<length pairs. classes' (pairs ! j) = Some (n + of_nat (Suc j))))"
  using assms
proof (induction pairs arbitrary: classes n)
  case (Cons pair pairs)
  let ?m = "classes(pair \<mapsto> n + 1)"
  have "number_classes pairs ?m (n + 1) = (classes', n')" using Cons.prems by simp
  from Cons.IH [OF this] have 1: "n' = n + 1 + of_nat (length pairs)"
    and 2: "\<And>p. p \<notin> set pairs \<Longrightarrow> classes' p = ?m p"
    and 3: "\<And>j. distinct pairs \<Longrightarrow> j < length pairs \<Longrightarrow> classes' (pairs ! j) = Some (n + 1 + of_nat (Suc j))" by blast+
  have "classes' ((pair # pairs) ! j) = Some (n + of_nat (Suc j))" if "distinct (pair # pairs)" "j < length (pair # pairs)" for j
  proof (cases j)
    case 0
    with that 2 [of pair] show ?thesis by simp
  next
    case (Suc i)
    with that 3 [of i] show ?thesis by (simp add: add.assoc)
  qed
  with 1 2 show ?case by (simp add: add.assoc)
qed simp

abbreviation class_limit :: nat where
  "class_limit \<equiv> 4294967232"

text \<open>The numbering is injective and stays within the count, as long as the count does not wrap around.\<close>

definition classes_numbered :: "(source_pair \<rightharpoonup> u32) \<Rightarrow> u32 \<Rightarrow> bool" where
  "classes_numbered classes n \<longleftrightarrow> n \<le> 4294967232
     \<and> (\<forall>pair cls. classes pair = Some cls \<longrightarrow> cls \<noteq> 0 \<and> cls \<le> n)
     \<and> (\<forall>p q cls. classes p = Some cls \<longrightarrow> classes q = Some cls \<longrightarrow> p = q)"

lemma number_classes_numbered:
  assumes "number_classes pairs Map.empty 0 = (classes, n)" "distinct pairs" "length pairs \<le> class_limit"
  shows "classes_numbered classes n" "unat n = length pairs"
proof -
  note spec = number_classes_spec [OF assms(1), THEN conjunct1]
    number_classes_spec [OF assms(1), THEN conjunct2, THEN conjunct1, rule_format]
    number_classes_spec [OF assms(1), THEN conjunct2, THEN conjunct2, rule_format]
  have unat: "unat (of_nat m :: u32) = m" if "m \<le> class_limit" for m
    using that by (simp add: unsigned_of_nat take_bit_nat_eq_self)
  show n: "unat n = length pairs" using spec(1) unat [OF assms(3)] by simp
  have cls: "\<exists>j<length pairs. pair = pairs ! j \<and> c = of_nat (Suc j)" if "classes pair = Some c" for pair c
  proof (cases "pair \<in> set pairs")
    case True
    then obtain j where "j < length pairs" "pair = pairs ! j" by (auto simp: in_set_conv_nth)
    with spec(3) [OF assms(2), of j] that show ?thesis by auto
  next
    case False
    with spec(2) [of pair] that show ?thesis by simp
  qed
  have "n \<le> 4294967232" using assms(3) n by (simp add: word_le_nat_alt)
  moreover have "c \<noteq> 0 \<and> c \<le> n" if c: "classes pair = Some c" for pair c
  proof -
    obtain j where "j < length pairs" "c = of_nat (Suc j)" using cls [OF c] by blast
    with unat [of "Suc j"] assms(3) n show ?thesis by (simp add: word_le_nat_alt del: of_nat_Suc) (metis nat.distinct(1) unat_0)
  qed
  moreover have "p = q" if c: "classes p = Some c" "classes q = Some c" for p q c
  proof -
    obtain i j where ij: "i < length pairs" "p = pairs ! i" "j < length pairs" "q = pairs ! j"
      "(of_nat (Suc i) :: u32) = of_nat (Suc j)" using cls [OF c(1)] cls [OF c(2)] by auto
    have "Suc i \<le> class_limit" "Suc j \<le> class_limit" using ij(1,3) assms(3) by simp_all
    with unat [of "Suc i"] unat [of "Suc j"] arg_cong [OF ij(5), of unat] have "Suc i = Suc j" by linarith
    with ij(2,4) show ?thesis by simp
  qed
  ultimately show "classes_numbered classes n" unfolding classes_numbered_def by blast
qed

text \<open>Assigning classes changes nothing else.\<close>

lemma assign_fields [simp]:
  "er_node (assign_equality_classes m r) = er_node r" "er_get (assign_equality_classes m r) = er_get r"
  "er_encode (assign_equality_classes m r) = er_encode r" "er_wildcard (assign_equality_classes m r) = er_wildcard r"
  "er_wildcard_source (assign_equality_classes m r) = er_wildcard_source r"
  "er_wildcard_class (assign_equality_classes m r) = class_of m (er_wildcard_source r, 0)"
  by (simp_all add: assign_equality_classes_def)

definition with_class :: "(source_pair \<rightharpoonup> u32) \<Rightarrow> u32 \<Rightarrow> 'b equality_set \<Rightarrow> 'b equality_set" where
  "with_class m w s = (if es_source s \<noteq> 0 then s\<lparr>es_class := class_of m (w, es_source s)\<rparr> else s)"

lemma assign_sets: "ei_sets (er_values (assign_equality_classes m r)) = map (with_class m (er_wildcard_source r)) (ei_sets (er_values r))"
  by (simp add: assign_equality_classes_def with_class_def)

lemma with_class_same [simp]:
  "es_bits (with_class m w s) = es_bits s" "es_small (with_class m w s) = es_small s"
  "es_single (with_class m w s) = es_single s" "es_source (with_class m w s) = es_source s"
  by (simp_all add: with_class_def)

lemma with_class_ids [simp]: "es_ids R (with_class m w s) = es_ids R s" "es_ok (with_class m w s) = es_ok s"
  unfolding es_ids_def es_ok_def with_class_same by (rule refl)+

lemma assign_offset: "ei_offset (er_values (assign_equality_classes m r)) = ei_offset (er_values r)"
  by (rule ext) (simp add: assign_equality_classes_def ei_offset_def split: option.split)

lemma assign_building: "eq_building r \<Longrightarrow> eq_building (assign_equality_classes m r)"
proof -
  assume bld: "eq_building r"
  then obtain ks where "key_order (er_values r) ks" by (auto simp: eq_building_def ei_ok_def)
  then have "key_order (er_values (assign_equality_classes m r)) ks"
    by (simp add: key_order_def assign_equality_classes_def split: option.splits)
  with bld show ?thesis by (auto simp: eq_building_def ei_ok_def assign_sets)
qed

lemma assign_set:
  assumes "eq_building r"
  shows "eq_set (assign_equality_classes m r) v = map_option (with_class m (er_wildcard_source r)) (eq_set r v)"
proof -
  have "n < length (ei_sets (er_values r))" if "ei_offset (er_values r) x = Some n" for x n
    using assms that by (auto simp: eq_building_def dest: ei_ok_offset)
  then have "ei_get (er_values (assign_equality_classes m r)) x = map_option (with_class m (er_wildcard_source r)) (ei_get (er_values r) x)" for x
    by (cases "ei_offset (er_values r) x") (simp_all add: ei_get_def assign_offset assign_sets)
  then show ?thesis by (simp add: eq_set_def split: option.split)
qed

lemma assign_posting:
  assumes "eq_building r"
  shows "ei_posting R (er_values (assign_equality_classes m r)) x = ei_posting R (er_values r) x"
proof -
  have "n < length (ei_sets (er_values r))" if "ei_offset (er_values r) x = Some n" for n
    using assms that by (auto simp: eq_building_def dest: ei_ok_offset)
  then show ?thesis
    by (cases "ei_offset (er_values r) x") (simp_all add: ei_posting_def ei_get_def assign_offset assign_sets)
qed

lemma assign_den:
  assumes "eq_building r"
  shows "eq_key_den R (assign_equality_classes m r) k = eq_key_den R r k" "eq_den R (assign_equality_classes m r) q = eq_den R r q"
    "eq_stored R (assign_equality_classes m r) = eq_stored R r"
  using assign_posting [OF assms, of R m]
  by (simp_all add: eq_den_def eq_key_den_def eq_stored_def assign_sets split: option.split)

text \<open>The pair that the query selects, when both parts are interned bitmaps.\<close>

definition eq_pair :: "('t, 'v, 'k, 'b) eq_rule \<Rightarrow> 't \<Rightarrow> source_pair option" where
  "eq_pair r v =
     (case eq_set r v of
        None \<Rightarrow> Some (er_wildcard_source r, 0)
      | Some s \<Rightarrow> if es_source s = 0 then None else Some (er_wildcard_source r, es_source s))"

lemma eq_class_assign:
  assumes "eq_building r" "leaf_unclassed (Equality_Leaf r)"
  shows "eq_class (assign_equality_classes m r) v = (case eq_pair r v of None \<Rightarrow> 0 | Some pair \<Rightarrow> class_of m pair)"
proof (cases "eq_set r v")
  case None
  then show ?thesis by (simp add: eq_class_def assign_set [OF assms(1)] eq_pair_def)
next
  case (Some s)
  then obtain x n where n: "ei_offset (er_values r) x = Some n" "s = ei_sets (er_values r) ! n"
    by (auto simp: eq_set_def ei_get_def split: option.splits)
  with ei_ok_offset(1) [of "er_values r" x n] assms have "es_class s = 0" by (simp add: eq_building_def)
  with Some show ?thesis by (simp add: eq_class_def assign_set [OF assms(1)] eq_pair_def with_class_def)
qed

lemma eq_class_unclassed:
  assumes "eq_building r" "leaf_unclassed (Equality_Leaf r)"
  shows "eq_class r v = 0"
proof (cases "eq_set r v")
  case None
  with assms(2) show ?thesis by (simp add: eq_class_def)
next
  case (Some s)
  then obtain x n where n: "ei_offset (er_values r) x = Some n" "s = ei_sets (er_values r) ! n"
    by (auto simp: eq_set_def ei_get_def split: option.splits)
  with ei_ok_offset(1) [of "er_values r" x n] assms Some show ?thesis by (simp add: eq_building_def eq_class_def)
qed

context roaring
begin

text \<open>One pair, one result.\<close>

lemma eq_pair_den:
  assumes I: "interner_ok I" and src: "leaf_sourced I (Equality_Leaf r)" "leaf_sourced I (Equality_Leaf s)"
    and bld: "eq_building r" "eq_building s" and pair: "eq_pair r v = Some pair" "eq_pair s w = Some pair"
  shows "eq_den R r v = eq_den R s w"
proof -
  have posting: "(case snd pair of p \<Rightarrow> if p = 0 then eq_concrete R t u = {} else (\<exists>b. (b, p) \<in> in_entries I \<and> eq_concrete R t u = bm_ids R b))"
    and wild: "(er_wildcard t, fst pair) \<in> in_entries I"
    if t: "leaf_sourced I (Equality_Leaf t)" "eq_building t" "eq_pair t u = Some pair" for t :: "('t, 'v, 'k, 'b) eq_rule" and u
  proof -
    show "(er_wildcard t, fst pair) \<in> in_entries I"
      using t by (auto simp: eq_pair_def split: option.splits if_splits)
    show "(case snd pair of p \<Rightarrow> if p = 0 then eq_concrete R t u = {} else (\<exists>b. (b, p) \<in> in_entries I \<and> eq_concrete R t u = bm_ids R b))"
    proof (cases "eq_set t u")
      case None
      with t(3) eq_set_None [OF None, of R] show ?thesis by (auto simp: eq_pair_def)
    next
      case (Some x)
      then obtain y n where n: "ei_offset (er_values t) y = Some n" "x = ei_sets (er_values t) ! n"
        by (auto simp: eq_set_def ei_get_def split: option.splits)
      have p: "es_source x \<noteq> 0" "snd pair = es_source x" using t(3) Some by (auto simp: eq_pair_def split: if_splits)
      have "set_sourced I x" using t(1,2) n ei_ok_offset(1) [of "er_values t" y n] by (simp add: eq_building_def)
      with p obtain b where "es_bits x = Some b" "(b, es_source x) \<in> in_entries I"
        by (auto simp: set_sourced_def split: option.splits)
      with p eq_set_Some(2) [OF t(2) Some, of R] show ?thesis by (auto simp: es_ids_def)
    qed
  qed
  note r = posting [OF src(1) bld(1) pair(1)] wild [OF src(1) bld(1) pair(1)]
  note s = posting [OF src(2) bld(2) pair(2)] wild [OF src(2) bld(2) pair(2)]
  have "er_wildcard r = er_wildcard s" by (rule interner_unique [OF I r(2) s(2)])
  moreover have "eq_concrete R r v = eq_concrete R s w"
  proof (cases "snd pair = 0")
    case False
    with r(1) s(1) obtain b c where "(b, snd pair) \<in> in_entries I" "eq_concrete R r v = bm_ids R b"
      and "(c, snd pair) \<in> in_entries I" "eq_concrete R s w = bm_ids R c" by auto
    with interner_unique [OF I, of b "snd pair" c] show ?thesis by simp
  qed (use r(1) s(1) in simp)
  ultimately show ?thesis by (simp add: eq_den_concrete)
qed

definition classes_agree :: "u32 \<Rightarrow> ('t, 'v, 'k, 'b) child list \<Rightarrow> bool" where
  "classes_agree n cs \<longleftrightarrow> n \<le> 4294967232
     \<and> (\<forall>c\<in>set cs. \<forall>v. query_class (published_ops R c) v \<le> n)
     \<and> (\<forall>c\<in>set cs. \<forall>d\<in>set cs. \<forall>v. query_class (published_ops R c) v \<noteq> 0 \<longrightarrow>
          query_class (published_ops R c) v = query_class (published_ops R d) v \<longrightarrow> child_den R c v = child_den R d v)"

lemma query_class_equality [simp]: "query_class (eq_ops R r) v = eq_class r v"
  by (simp add: query_class_def eq_ops_def)

lemma query_class_other: "equality_operand c = None \<Longrightarrow> query_class (published_ops R c) v = 0"
proof (cases c)
  case (Filter_Child lf)
  moreover assume "equality_operand c = None"
  ultimately show ?thesis
    by (cases lf) (simp_all add: query_class_def od_ops_def bt_ops_def cb_ops_def nt_ops_def)
qed (simp_all add: query_class_def ma_ops_def an_ops_def)

text \<open>What the assignment keeps of a child.\<close>

definition same_published :: "('t, 'v, 'k, 'b) child \<Rightarrow> ('t, 'v, 'k, 'b) child \<Rightarrow> bool" where
  "same_published c d \<longleftrightarrow> (\<forall>nodes K. child_ready R nodes K c \<longrightarrow> child_ready R nodes K d) \<and> (\<forall>q. child_den R d q = child_den R c q)
     \<and> (case equality_operand c of
          None \<Rightarrow> d = c
        | Some r \<Rightarrow> \<exists>s. d = Filter_Child (Equality_Leaf s) \<and> er_node s = er_node r \<and> er_wildcard s = er_wildcard r
            \<and> er_wildcard_source s = er_wildcard_source r \<and> eq_stored R s = eq_stored R r
            \<and> length (ei_sets (er_values s)) = length (ei_sets (er_values r)))"

lemma equality_operand_Some: "equality_operand c = Some r \<longleftrightarrow> c = Filter_Child (Equality_Leaf r)"
  by (cases c rule: equality_operand.cases) auto

lemma assign_child_other: "equality_operand c = None \<Longrightarrow> assign_child m c = c"
  by (induction m c rule: assign_child.induct) auto

lemma same_published_refl: "same_published c c"
  by (auto simp: same_published_def equality_operand_Some split: option.split)

lemma same_published_assign:
  assumes "child_ready R nodes K c"
  shows "same_published c (assign_child m c)"
proof (cases "equality_operand c")
  case None
  then have "assign_child m c = c" by (rule assign_child_other)
  with same_published_refl show ?thesis by simp
next
  case (Some r)
  then have c: "c = Filter_Child (Equality_Leaf r)" by (simp add: equality_operand_Some)
  then have bld: "eq_building r" using assms by simp
  show ?thesis unfolding same_published_def
    using assign_den [OF bld, of R m] assign_building [OF bld, of m]
    by (simp add: c assign_sets)
qed

lemma compile_equality_classes_spec:
  assumes I: "interner_ok I" "\<forall>c\<in>set cs. child_sourced I c" and ready: "\<forall>c\<in>set cs. child_ready R nodes K c"
    and count: "length (shared_pairs cs) \<le> class_limit" and run: "compile_equality_classes cs = (ds, n)"
  shows "list_all2 same_published cs ds \<and> classes_agree n ds"
proof -
  obtain m n' where num: "number_classes (shared_pairs cs) Map.empty 0 = (m, n')" by fastforce
  have n: "n' = n" and ds: "ds = (if shared_pairs cs = [] then cs else map (assign_child m) cs)"
    using run num by (auto simp: compile_equality_classes_def split: if_splits)
  have numbered: "classes_numbered m n" using number_classes_numbered [OF num shared_pairs(2) count] n by simp
  have same: "list_all2 same_published cs (map (assign_child m) cs)"
    using ready same_published_assign by (fastforce simp: list_all2_conv_all_nth)
  have eqs: "eq_building r" "leaf_unclassed (Equality_Leaf r)" "leaf_sourced I (Equality_Leaf r)"
    if "Filter_Child (Equality_Leaf r) \<in> set cs" for r
    using that I(2) ready by force+
  have cls: "query_class (published_ops R (assign_child m c)) v
      = (case equality_operand c of None \<Rightarrow> 0 | Some r \<Rightarrow> (case eq_pair r v of None \<Rightarrow> 0 | Some pair \<Rightarrow> class_of m pair))"
    if "c \<in> set cs" for c v
  proof (cases "equality_operand c")
    case None
    moreover from None have "assign_child m c = c" by (rule assign_child_other)
    ultimately show ?thesis by (simp add: query_class_other)
  next
    case (Some r)
    then have "c = Filter_Child (Equality_Leaf r)" by (simp add: equality_operand_Some)
    with that eqs [of r] show ?thesis by (simp add: eq_class_assign)
  qed
  have class_le: "class_of m pair \<le> n" for pair
    using numbered unfolding classes_numbered_def by (cases "m pair") (simp_all add: class_of_def del: split_paired_All)
  have class_inj: "p = q" if cls: "class_of m p \<noteq> 0" "class_of m p = class_of m q" for p q
  proof -
    obtain cls where "m p = Some cls" "m q = Some cls"
      using cls by (cases "m p"; cases "m q") (auto simp: class_of_def)
    with numbered show ?thesis unfolding classes_numbered_def by blast
  qed
  have "classes_agree n (map (assign_child m) cs)"
    unfolding classes_agree_def
  proof (intro conjI ballI allI impI)
    show "n \<le> 4294967232" using numbered by (simp add: classes_numbered_def)
  next
    fix c v assume "c \<in> set (map (assign_child m) cs)"
    then show "query_class (published_ops R c) v \<le> n" using class_le by (auto simp: cls split: option.split)
  next
    fix c d v
    assume c: "c \<in> set (map (assign_child m) cs)" and d: "d \<in> set (map (assign_child m) cs)"
      and nz: "query_class (published_ops R c) v \<noteq> 0" and eq: "query_class (published_ops R c) v = query_class (published_ops R d) v"
    obtain a b where a: "a \<in> set cs" "c = assign_child m a" and b: "b \<in> set cs" "d = assign_child m b" using c d by auto
    obtain r p where r: "equality_operand a = Some r" "eq_pair r v = Some p" "class_of m p \<noteq> 0"
      using nz cls [OF a(1), of v] a(2) by (auto split: option.splits)
    obtain s q where s: "equality_operand b = Some s" "eq_pair s v = Some q" "class_of m q = class_of m p"
      using nz eq r cls [OF a(1), of v] cls [OF b(1), of v] a(2) b(2) by (auto split: option.splits)
    have "p = q" using class_inj [OF r(3)] s(3) by simp
    note ra = r(1) [unfolded equality_operand_Some] and sb = s(1) [unfolded equality_operand_Some]
    have "eq_den R r v = eq_den R s v"
      using eq_pair_den [OF I(1), of r s v p v] eqs [of r] eqs [of s] a(1) b(1) ra sb r(2) s(2) \<open>p = q\<close> by blast
    then show "child_den R c v = child_den R d v"
      using a b ra sb eqs [of r] eqs [of s] by (simp add: assign_den)
  qed
  moreover have "classes_agree n cs" if "shared_pairs cs = []"
  proof -
    have "n = 0" using num that n by simp
    have "query_class (published_ops R c) v = 0" if "c \<in> set cs" for c v
    proof (cases "equality_operand c")
      case (Some r)
      with that eqs [of r] show ?thesis by (simp add: equality_operand_Some eq_class_unclassed)
    qed (simp add: query_class_other)
    with \<open>n = 0\<close> show ?thesis by (simp add: classes_agree_def)
  qed
  moreover have "list_all2 same_published cs cs" by (simp add: list_all2_refl same_published_refl)
  ultimately show ?thesis using same by (simp add: ds)
qed

end

end
