(* ===== verification/Equality_Antonym.thy ===== *)
theory Equality_Antonym
  imports Equality_Classes
begin

text \<open>
  \<open>compileStrictEqualityAntonyms\<close> (\<^verbatim>\<open>equality_antonym.go\<close>) on the children of the published root: equality
  siblings are grouped by their interned wildcard, groups whose wildcards complement each other are
  paired greedily, and each pair becomes one antonym rule at the position of its first member. The
  conjunction of the children stays the same.
\<close>

section \<open>The pass\<close>

text \<open>\<open>strictEqualityAntonymClass\<close>\<close>

record ('t, 'v, 'k, 'b) antonym_class =
  ay_first :: nat
  ay_members :: "nat list"
  ay_operands :: "('t, 'v, 'k, 'b) eq_rule list"

definition has_strict_antonyms :: "'b roaring \<Rightarrow> ('t, 'v, 'k, 'b) child list \<Rightarrow> bool" where
  "has_strict_antonyms R cs =
     list_ex (\<lambda>first. case equality_operand (cs ! first) of
         None \<Rightarrow> False
       | Some left \<Rightarrow>
           list_ex (\<lambda>second. case equality_operand (cs ! second) of
               None \<Rightarrow> False
             | Some right \<Rightarrow> strict_wildcard_complements R left right) [Suc first..<length cs]) [0..<length cs]"

text \<open>\<open>by_wildcard\<close> maps an interned wildcard to its class.\<close>

fun antonym_classes_from ::
  "nat \<Rightarrow> ('t, 'v, 'k, 'b) child list \<Rightarrow> (u32 \<rightharpoonup> nat) \<Rightarrow> ('t, 'v, 'k, 'b) antonym_class list
     \<Rightarrow> ('t, 'v, 'k, 'b) antonym_class list" where
  "antonym_classes_from i [] by_wildcard classes = classes"
| "antonym_classes_from i (c # cs) by_wildcard classes =
     (case equality_operand c of
        None \<Rightarrow> antonym_classes_from (Suc i) cs by_wildcard classes
      | Some operand \<Rightarrow>
          (case by_wildcard (er_wildcard_source operand) of
             Some k \<Rightarrow>
               antonym_classes_from (Suc i) cs by_wildcard
                 (classes[k := (classes ! k)\<lparr>ay_members := ay_members (classes ! k) @ [i],
                                             ay_operands := ay_operands (classes ! k) @ [operand]\<rparr>])
           | None \<Rightarrow>
               antonym_classes_from (Suc i) cs (by_wildcard(er_wildcard_source operand \<mapsto> length classes))
                 (classes @ [\<lparr>ay_first = i, ay_members = [i], ay_operands = [operand]\<rparr>])))"

definition antonym_classes :: "('t, 'v, 'k, 'b) child list \<Rightarrow> ('t, 'v, 'k, 'b) antonym_class list" where
  "antonym_classes cs = antonym_classes_from 0 cs Map.empty []"

definition new_antonym_rule ::
  "('t, 'v, 'k, 'b) antonym_class \<Rightarrow> ('t, 'v, 'k, 'b) antonym_class \<Rightarrow> ('t, 'v, 'k, 'b) antonym_rule" where
  "new_antonym_rule left right = \<lparr>an_left = ay_operands left, an_right = ay_operands right\<rparr>"

text \<open>
  One iteration of the outer loop. The state is the slice \<open>consumed\<close> and the map \<open>components\<close> as an
  association list.
\<close>

definition pair_class ::
  "'b roaring \<Rightarrow> ('t, 'v, 'k, 'b) antonym_class list
     \<Rightarrow> bool list \<times> (nat \<times> ('t, 'v, 'k, 'b) antonym_rule) list \<Rightarrow> nat
     \<Rightarrow> bool list \<times> (nat \<times> ('t, 'v, 'k, 'b) antonym_rule) list" where
  "pair_class R classes state first =
     (case state of
        (consumed, components) \<Rightarrow>
          (if consumed ! ay_first (classes ! first) then (consumed, components)
           else case find (\<lambda>second. \<not> consumed ! ay_first (classes ! second)
                    \<and> strict_wildcard_complements R (hd (ay_operands (classes ! first))) (hd (ay_operands (classes ! second))))
                  [Suc first..<length classes] of
                  None \<Rightarrow> (consumed, components)
                | Some second \<Rightarrow>
                    (let left = classes ! first; right = classes ! second
                     in (foldl (\<lambda>consumed i. consumed[i := True]) consumed (ay_members left @ ay_members right),
                         components @ [(min (ay_first left) (ay_first right), new_antonym_rule left right)]))))"

definition compile_antonyms :: "'b roaring \<Rightarrow> ('t, 'v, 'k, 'b) child list \<Rightarrow> ('t, 'v, 'k, 'b) child list" where
  "compile_antonyms R cs =
     (if \<not> has_strict_antonyms R cs then cs
      else let classes = antonym_classes cs
           in case foldl (pair_class R classes) (replicate (length cs) False, []) [0..<length classes] of
                (consumed, components) \<Rightarrow>
                  (if components = [] then cs
                   else concat (map (\<lambda>i. case map_of components i of
                            Some component \<Rightarrow> [Antonym_Child component]
                          | None \<Rightarrow> if consumed ! i then [] else [cs ! i]) [0..<length cs])))"

section \<open>The classes\<close>

text \<open>
  A class: children of one wildcard, in order. Two classes have different wildcards, so they share no
  member.
\<close>

definition class_ok :: "('t, 'v, 'k, 'b) child list \<Rightarrow> ('t, 'v, 'k, 'b) antonym_class \<Rightarrow> u32 \<Rightarrow> bool" where
  "class_ok cs k w \<longleftrightarrow> ay_members k \<noteq> [] \<and> ay_first k = hd (ay_members k)
     \<and> map Some (ay_operands k) = map (\<lambda>i. equality_operand (cs ! i)) (ay_members k)
     \<and> (\<forall>i\<in>set (ay_members k). i < length cs)
     \<and> (\<forall>operand\<in>set (ay_operands k). er_wildcard_source operand = w)"

definition classes_ok_at :: "('t, 'v, 'k, 'b) child list \<Rightarrow> ('t, 'v, 'k, 'b) antonym_class list \<Rightarrow> (u32 \<rightharpoonup> nat) \<Rightarrow> bool" where
  "classes_ok_at cs ks by_wildcard \<longleftrightarrow>
     (\<forall>w k. by_wildcard w = Some k \<longrightarrow> k < length ks \<and> class_ok cs (ks ! k) w)
     \<and> (\<forall>k<length ks. \<exists>w. by_wildcard w = Some k)"

lemma class_ok_snoc:
  assumes "class_ok cs k (er_wildcard_source operand)" "i < length cs" "equality_operand (cs ! i) = Some operand"
  shows "class_ok cs (k\<lparr>ay_members := ay_members k @ [i], ay_operands := ay_operands k @ [operand]\<rparr>) (er_wildcard_source operand)"
  using assms by (simp add: class_ok_def)

lemma antonym_classes_from_ok:
  assumes "classes_ok_at all ks m" "inj_on m (dom m)" "all = pre @ cs" "i = length pre"
  shows "\<exists>m'. classes_ok_at all (antonym_classes_from i cs m ks) m' \<and> inj_on m' (dom m')"
  using assms
proof (induction i cs m ks arbitrary: pre rule: antonym_classes_from.induct)
  case (1 i m ks)
  then show ?case by auto
next
  case (2 i c cs m ks)
  have c: "all ! i = c" "i < length all" "all = (pre @ [c]) @ cs" "Suc i = length (pre @ [c])" using 2(6,7) by auto
  show ?case
  proof (cases "equality_operand c")
    case None
    with 2(1) [OF None 2(4,5) c(3,4)] show ?thesis by simp
  next
    case (Some operand)
    let ?w = "er_wildcard_source operand"
    show ?thesis
    proof (cases "m ?w")
      case None
      let ?k = "\<lparr>ay_first = i, ay_members = [i], ay_operands = [operand]\<rparr>"
      have new: "class_ok all ?k ?w" using c Some by (simp add: class_ok_def)
      have old: "m w = Some k \<Longrightarrow> k < length ks" for w k using 2(4) by (simp add: classes_ok_at_def)
      have ok: "classes_ok_at all (ks @ [?k]) (m(?w \<mapsto> length ks))"
        using 2(4) new None old unfolding classes_ok_at_def by (auto simp: nth_append less_Suc_eq) (metis option.distinct(1))
      have inj: "inj_on (m(?w \<mapsto> length ks)) (dom (m(?w \<mapsto> length ks)))"
        using 2(5) old None by (force simp: inj_on_def dom_def)
      have "antonym_classes_from i (c # cs) m ks = antonym_classes_from (Suc i) cs (m(?w \<mapsto> length ks)) (ks @ [?k])"
        using Some None by simp
      with 2(2) [OF Some None ok inj c(3,4)] show ?thesis by (simp only:)
    next
      case k: (Some k)
      let ?k = "(ks ! k)\<lparr>ay_members := ay_members (ks ! k) @ [i], ay_operands := ay_operands (ks ! k) @ [operand]\<rparr>"
      have "k < length ks" "class_ok all (ks ! k) ?w" using 2(4) k by (auto simp: classes_ok_at_def)
      with class_ok_snoc [of all "ks ! k" operand i] c(1,2) Some have new: "class_ok all ?k ?w" by simp
      have uniq: "w = ?w" if "m w = Some k" for w using inj_onD [OF 2(5), of w ?w] that k by (auto simp: domI)
      have "class_ok all (ks[k := ?k] ! l) w" if l: "m w = Some l" for w l
      proof (cases "l = k")
        case True
        with uniq [of w] l new \<open>k < length ks\<close> show ?thesis by simp
      next
        case False
        then have "ks[k := ?k] ! l = ks ! l" by simp
        with 2(4) l show ?thesis by (simp only: classes_ok_at_def)
      qed
      then have "classes_ok_at all (ks[k := ?k]) m"
        using 2(4) by (simp add: classes_ok_at_def)
      from 2(3) [OF Some k this 2(5) c(3,4)] Some k show ?thesis by simp
    qed
  qed
qed

lemma antonym_classes_ok: "\<exists>m. classes_ok_at cs (antonym_classes cs) m \<and> inj_on m (dom m)"
  unfolding antonym_classes_def by (rule antonym_classes_from_ok) (simp_all add: classes_ok_at_def)

text \<open>All that the pairing needs of the classes.\<close>

definition classes_partition :: "('t, 'v, 'k, 'b) child list \<Rightarrow> ('t, 'v, 'k, 'b) antonym_class list \<Rightarrow> bool" where
  "classes_partition cs ks \<longleftrightarrow>
     (\<forall>k<length ks. \<exists>w. class_ok cs (ks ! k) w)
     \<and> (\<forall>k<length ks. \<forall>l<length ks. k \<noteq> l \<longrightarrow> set (ay_members (ks ! k)) \<inter> set (ay_members (ks ! l)) = {})"

lemma class_okD:
  assumes "class_ok cs k w"
  shows "length (ay_operands k) = length (ay_members k)" "ay_operands k \<noteq> []" "ay_first k \<in> set (ay_members k)"
    "\<And>j. j < length (ay_members k) \<Longrightarrow> equality_operand (cs ! (ay_members k ! j)) = Some (ay_operands k ! j)"
    "\<And>j. j < length (ay_members k) \<Longrightarrow> ay_members k ! j < length cs"
    "equality_operand (cs ! ay_first k) = Some (hd (ay_operands k))"
proof -
  have ops: "map Some (ay_operands k) = map (\<lambda>i. equality_operand (cs ! i)) (ay_members k)" and ne: "ay_members k \<noteq> []"
    using assms by (simp_all add: class_ok_def)
  show len: "length (ay_operands k) = length (ay_members k)" using ops by (metis length_map)
  with ne show ne': "ay_operands k \<noteq> []" by auto
  show "ay_first k \<in> set (ay_members k)" using assms ne by (simp add: class_ok_def)
  show nth: "equality_operand (cs ! (ay_members k ! j)) = Some (ay_operands k ! j)" if "j < length (ay_members k)" for j
    using arg_cong [OF ops, of "\<lambda>xs. xs ! j"] that len by simp
  show "ay_members k ! j < length cs" if "j < length (ay_members k)" for j using assms that by (simp add: class_ok_def)
  show "equality_operand (cs ! ay_first k) = Some (hd (ay_operands k))"
    using nth [of 0] ne ne' assms by (simp add: class_ok_def hd_conv_nth)
qed

lemma antonym_classes_partition: "classes_partition cs (antonym_classes cs)"
proof -
  obtain m where m: "classes_ok_at cs (antonym_classes cs) m" "inj_on m (dom m)" using antonym_classes_ok by blast
  have some: "\<exists>w. m w = Some k \<and> class_ok cs (antonym_classes cs ! k) w" if "k < length (antonym_classes cs)" for k
    using m(1) that unfolding classes_ok_at_def by metis
  have "set (ay_members (antonym_classes cs ! k)) \<inter> set (ay_members (antonym_classes cs ! l)) = {}"
    if kl: "k < length (antonym_classes cs)" "l < length (antonym_classes cs)" "k \<noteq> l" for k l
  proof -
    obtain w x where w: "m w = Some k" "class_ok cs (antonym_classes cs ! k) w"
      and x: "m x = Some l" "class_ok cs (antonym_classes cs ! l) x" using some kl by meson
    have "w \<noteq> x" using w(1) x(1) kl(3) by auto
    have "i \<notin> set (ay_members (antonym_classes cs ! l))" if i: "i \<in> set (ay_members (antonym_classes cs ! k))" for i
    proof
      assume j: "i \<in> set (ay_members (antonym_classes cs ! l))"
      obtain a b where a: "a < length (ay_members (antonym_classes cs ! k))" "i = ay_members (antonym_classes cs ! k) ! a"
        and b: "b < length (ay_members (antonym_classes cs ! l))" "i = ay_members (antonym_classes cs ! l) ! b"
        using i j by (auto simp: in_set_conv_nth)
      have "ay_operands (antonym_classes cs ! k) ! a = ay_operands (antonym_classes cs ! l) ! b"
        using class_okD(4) [OF w(2) a(1)] class_okD(4) [OF x(2) b(1)] a(2) b(2) by simp
      moreover have "er_wildcard_source (ay_operands (antonym_classes cs ! k) ! a) = w"
        "er_wildcard_source (ay_operands (antonym_classes cs ! l) ! b) = x"
        using w(2) x(2) a(1) b(1) class_okD(1) [OF w(2)] class_okD(1) [OF x(2)] by (simp_all add: class_ok_def)
      ultimately show False using \<open>w \<noteq> x\<close> by simp
    qed
    then show ?thesis by blast
  qed
  with some show ?thesis unfolding classes_partition_def by blast
qed

section \<open>The pairs\<close>

definition pair_members :: "('t, 'v, 'k, 'b) antonym_class list \<Rightarrow> nat \<times> nat \<Rightarrow> nat set" where
  "pair_members ks p = set (ay_members (ks ! fst p)) \<union> set (ay_members (ks ! snd p))"

definition pair_component :: "('t, 'v, 'k, 'b) antonym_class list \<Rightarrow> nat \<times> nat \<Rightarrow> nat \<times> ('t, 'v, 'k, 'b) antonym_rule" where
  "pair_component ks p =
     (min (ay_first (ks ! fst p)) (ay_first (ks ! snd p)), new_antonym_rule (ks ! fst p) (ks ! snd p))"

text \<open>The state of the loop, described by the pairs of classes chosen so far.\<close>

definition paired ::
  "'b roaring \<Rightarrow> nat \<Rightarrow> ('t, 'v, 'k, 'b) antonym_class list \<Rightarrow> (nat \<times> nat) list
     \<Rightarrow> bool list \<times> (nat \<times> ('t, 'v, 'k, 'b) antonym_rule) list \<Rightarrow> bool" where
  "paired R n ks ps state \<longleftrightarrow>
     distinct (concat (map (\<lambda>p. [fst p, snd p]) ps))
     \<and> (\<forall>p\<in>set ps. fst p < length ks \<and> snd p < length ks
          \<and> strict_wildcard_complements R (hd (ay_operands (ks ! fst p))) (hd (ay_operands (ks ! snd p))))
     \<and> length (fst state) = n \<and> (\<forall>i<n. fst state ! i \<longleftrightarrow> i \<in> (\<Union>p\<in>set ps. pair_members ks p))
     \<and> snd state = map (pair_component ks) ps"

lemma foldl_mark:
  "\<forall>i\<in>set is. i < length xs \<Longrightarrow> length (foldl (\<lambda>xs i. xs[i := True]) xs is) = length xs
    \<and> (\<forall>j<length xs. foldl (\<lambda>xs i. xs[i := True]) xs is ! j \<longleftrightarrow> xs ! j \<or> j \<in> set is)"
  by (induction "is" arbitrary: xs) (auto simp: nth_list_update)

lemma pair_class_paired:
  assumes part: "classes_partition cs ks" and inv: "paired R (length cs) ks ps state" and first: "first < length ks"
  shows "\<exists>ps. paired R (length cs) ks ps (pair_class R ks state first)"
proof -
  obtain consumed components where state: "state = (consumed, components)" by (cases state)
  have fm: "ay_first (ks ! k) \<in> set (ay_members (ks ! k)) \<and> (\<forall>i\<in>set (ay_members (ks ! k)). i < length cs)" if k: "k < length ks" for k
  proof -
    obtain w where w: "class_ok cs (ks ! k) w" using part k unfolding classes_partition_def by blast
    with class_okD(3) [OF w] show ?thesis by (simp add: class_ok_def)
  qed
  define step where "step = find (\<lambda>second. \<not> consumed ! ay_first (ks ! second)
      \<and> strict_wildcard_complements R (hd (ay_operands (ks ! first))) (hd (ay_operands (ks ! second)))) [Suc first..<length ks]"
  show ?thesis
  proof (cases "consumed ! ay_first (ks ! first) \<or> step = None")
    case True
    then have "pair_class R ks state first = state" by (auto simp: pair_class_def state step_def)
    with inv show ?thesis by auto
  next
    case False
    then obtain second where second: "step = Some second" and free: "\<not> consumed ! ay_first (ks ! first)" by auto
    from second obtain j where "j < length [Suc first..<length ks]" "[Suc first..<length ks] ! j = second"
      and ok: "\<not> consumed ! ay_first (ks ! second)"
        "strict_wildcard_complements R (hd (ay_operands (ks ! first))) (hd (ay_operands (ks ! second)))"
      unfolding step_def by (auto simp: find_Some_iff)
    then have less: "first < second" "second < length ks" by auto
    let ?is = "ay_members (ks ! first) @ ay_members (ks ! second)"
    have run: "pair_class R ks state first = (foldl (\<lambda>consumed i. consumed[i := True]) consumed ?is,
        components @ [pair_component ks (first, second)])"
      using second free by (simp add: pair_class_def state step_def Let_def pair_component_def)
    have bound: "\<forall>i\<in>set ?is. i < length consumed"
      using fm [OF first] fm [OF less(2)] inv by (auto simp: paired_def state)
    have fresh: "k \<notin> set (concat (map (\<lambda>p. [fst p, snd p]) ps))" if "k < length ks" "\<not> consumed ! ay_first (ks ! k)" for k
    proof
      assume "k \<in> set (concat (map (\<lambda>p. [fst p, snd p]) ps))"
      then obtain p where "p \<in> set ps" "k = fst p \<or> k = snd p" by auto
      with fm [OF that(1)] have "ay_first (ks ! k) \<in> (\<Union>p\<in>set ps. pair_members ks p)" "ay_first (ks ! k) < length cs"
        by (auto simp: pair_members_def)
      with inv that(2) show False by (simp add: paired_def state)
    qed
    have "paired R (length cs) ks (ps @ [(first, second)]) (pair_class R ks state first)"
      unfolding run paired_def
    proof (intro conjI)
      show "distinct (concat (map (\<lambda>p. [fst p, snd p]) (ps @ [(first, second)])))"
        using inv fresh [OF first free] fresh [OF less(2) ok(1)] less by (auto simp: paired_def)
    qed (use inv less ok(2) first foldl_mark [OF bound] in \<open>auto simp: paired_def state pair_members_def\<close>)
    then show ?thesis by blast
  qed
qed

lemma foldl_pair_class:
  assumes part: "classes_partition cs ks" and "\<forall>k\<in>set is. k < length ks" "\<exists>ps. paired R (length cs) ks ps state"
  shows "\<exists>ps. paired R (length cs) ks ps (foldl (pair_class R ks) state is)"
  using assms(2,3)
proof (induction "is" arbitrary: state)
  case (Cons k ks')
  then have "\<exists>ps. paired R (length cs) ks ps (pair_class R ks state k)"
    using pair_class_paired [OF part, of R _ state k] by auto
  with Cons show ?case by simp
qed simp

section \<open>The children that remain\<close>

text \<open>
  The result is the list itself or, for pairs of complementary classes without a class in common, the
  antonym rules of the pairs and the children outside them.
\<close>

definition antonyms_of ::
  "'b roaring \<Rightarrow> ('t, 'v, 'k, 'b) child list \<Rightarrow> ('t, 'v, 'k, 'b) antonym_class list \<Rightarrow> (nat \<times> nat) list
     \<Rightarrow> ('t, 'v, 'k, 'b) child set \<Rightarrow> bool" where
  "antonyms_of R cs ks ps ds \<longleftrightarrow> classes_partition cs ks \<and> distinct (concat (map (\<lambda>p. [fst p, snd p]) ps))
     \<and> (\<forall>p\<in>set ps. fst p < length ks \<and> snd p < length ks
          \<and> strict_wildcard_complements R (hd (ay_operands (ks ! fst p))) (hd (ay_operands (ks ! snd p))))
     \<and> ds = (\<lambda>p. Antonym_Child (snd (pair_component ks p))) ` set ps
           \<union> {cs ! i |i. i < length cs \<and> i \<notin> (\<Union>p\<in>set ps. pair_members ks p)}"

lemma in_concat_upt: "i < n \<Longrightarrow> d \<in> set (f i) \<Longrightarrow> d \<in> set (concat (map f [0..<n]))"
  by auto

lemma distinct_concat_same:
  "distinct (concat (map f ps)) \<Longrightarrow> p \<in> set ps \<Longrightarrow> q \<in> set ps \<Longrightarrow> set (f p) \<inter> set (f q) \<noteq> {} \<Longrightarrow> p = q"
  by (induction ps) auto

lemma antonyms_ofD:
  assumes "antonyms_of R cs ks ps ds" "p \<in> set ps"
  shows "\<exists>w. class_ok cs (ks ! fst p) w" "\<exists>w. class_ok cs (ks ! snd p) w"
    "strict_wildcard_complements R (hd (ay_operands (ks ! fst p))) (hd (ay_operands (ks ! snd p)))"
    "\<And>q. q \<in> set ps \<Longrightarrow> pair_members ks p \<inter> pair_members ks q \<noteq> {} \<Longrightarrow> p = q"
    "\<And>i. i \<in> pair_members ks p \<Longrightarrow> i < length cs"
    "fst (pair_component ks p) \<in> pair_members ks p"
proof -
  have part: "classes_partition cs ks" and p: "fst p < length ks" "snd p < length ks"
    using assms by (auto simp: antonyms_of_def)
  then have "\<exists>w. class_ok cs (ks ! fst p) w" "\<exists>w. class_ok cs (ks ! snd p) w" by (simp_all add: classes_partition_def)
  then obtain w x where w: "class_ok cs (ks ! fst p) w" and x: "class_ok cs (ks ! snd p) x" by (elim exE)
  then show "\<exists>w. class_ok cs (ks ! fst p) w" "\<exists>w. class_ok cs (ks ! snd p) w" by blast+
  show "strict_wildcard_complements R (hd (ay_operands (ks ! fst p))) (hd (ay_operands (ks ! snd p)))"
    using assms by (auto simp: antonyms_of_def)
  show "i < length cs" if "i \<in> pair_members ks p" for i
    using that w x by (auto simp: pair_members_def class_ok_def)
  show "fst (pair_component ks p) \<in> pair_members ks p"
    using class_okD(3) [OF w] class_okD(3) [OF x] by (simp add: pair_members_def pair_component_def min_def)
  fix q assume q: "q \<in> set ps" and meet: "pair_members ks p \<inter> pair_members ks q \<noteq> {}"
  have q': "fst q < length ks" "snd q < length ks" using assms(1) q by (auto simp: antonyms_of_def)
  have same: "k = l" if "k < length ks" "l < length ks" "set (ay_members (ks ! k)) \<inter> set (ay_members (ks ! l)) \<noteq> {}" for k l
    using part that unfolding classes_partition_def by blast
  have "fst p = fst q \<or> fst p = snd q \<or> snd p = fst q \<or> snd p = snd q"
    using meet same [OF p(1) q'(1)] same [OF p(1) q'(2)] same [OF p(2) q'(1)] same [OF p(2) q'(2)]
    unfolding pair_members_def by blast
  then have common: "set [fst p, snd p] \<inter> set [fst q, snd q] \<noteq> {}" by auto
  have dist: "distinct (concat (map (\<lambda>p. [fst p, snd p]) ps))" using assms(1) by (simp add: antonyms_of_def)
  show "p = q" using distinct_concat_same [of "\<lambda>p. [fst p, snd p]", OF dist assms(2) q] common by simp
qed

lemma compile_antonyms_shape:
  "compile_antonyms R cs = cs \<or> (\<exists>ks ps. ps \<noteq> [] \<and> antonyms_of R cs ks ps (set (compile_antonyms R cs)))"
proof (cases "has_strict_antonyms R cs")
  case True
  define ks where "ks = antonym_classes cs"
  define state where "state = foldl (pair_class R ks) (replicate (length cs) False, []) [0..<length ks]"
  have part: "classes_partition cs ks" unfolding ks_def by (rule antonym_classes_partition)
  have "paired R (length cs) ks [] (replicate (length cs) False, [])" by (simp add: paired_def)
  then obtain ps where inv: "paired R (length cs) ks ps state"
    using foldl_pair_class [OF part, of "[0..<length ks]" R "(replicate (length cs) False, [])"] unfolding state_def by auto
  obtain consumed where state: "state = (consumed, map (pair_component ks) ps)" using inv by (cases state) (simp add: paired_def)
  let ?emit = "\<lambda>i. case map_of (map (pair_component ks) ps) i of
      Some component \<Rightarrow> [Antonym_Child component] | None \<Rightarrow> if consumed ! i then [] else [cs ! i]"
  have run: "compile_antonyms R cs = (if ps = [] then cs else concat (map ?emit [0..<length cs]))"
    using True state by (simp add: compile_antonyms_def Let_def ks_def [symmetric] state_def [symmetric])
  show ?thesis
  proof (cases "ps = []")
    case False
    have of: "antonyms_of R cs ks ps ((\<lambda>p. Antonym_Child (snd (pair_component ks p))) ` set ps
           \<union> {cs ! i |i. i < length cs \<and> i \<notin> (\<Union>p\<in>set ps. pair_members ks p)})" (is "antonyms_of R cs ks ps ?ds")
      using part inv by (simp add: antonyms_of_def paired_def)
    have key: "p = q" if "p \<in> set ps" "q \<in> set ps" "fst (pair_component ks p) = fst (pair_component ks q)" for p q
      using antonyms_ofD(4) [OF of that(1,2)] antonyms_ofD(6) [OF of that(1)] antonyms_ofD(6) [OF of that(2)] that(3) by auto
    have hit: "map_of (map (pair_component ks) ps) (fst (pair_component ks p)) = Some (snd (pair_component ks p))" if p: "p \<in> set ps" for p
    proof -
      obtain c where c: "map_of (map (pair_component ks) ps) (fst (pair_component ks p)) = Some c"
        using p by (cases "map_of (map (pair_component ks) ps) (fst (pair_component ks p))") (auto simp: map_of_eq_None_iff)
      then have "(fst (pair_component ks p), c) \<in> pair_component ks ` set ps" using map_of_SomeD by fastforce
      then obtain q where q: "q \<in> set ps" "(fst (pair_component ks p), c) = pair_component ks q" by (rule imageE)
      have "fst (pair_component ks p) = fst (pair_component ks q)" "c = snd (pair_component ks q)"
        by (simp_all only: q(2) [symmetric] fst_conv snd_conv)
      with key [OF p q(1)] c show ?thesis by (simp only:)
    qed
    have consumed: "consumed ! i \<longleftrightarrow> i \<in> (\<Union>p\<in>set ps. pair_members ks p)" if "i < length cs" for i
      using inv that by (simp add: paired_def state)
    have "set (concat (map ?emit [0..<length cs])) = ?ds"
    proof (intro set_eqI iffI)
      fix d assume "d \<in> set (concat (map ?emit [0..<length cs]))"
      then obtain i where i: "i < length cs" "d \<in> set (?emit i)" by auto
      show "d \<in> ?ds"
      proof (cases "map_of (map (pair_component ks) ps) i")
        case None
        then show ?thesis using i consumed [OF i(1)] by (auto split: if_splits)
      next
        case (Some c)
        then obtain p where "p \<in> set ps" "pair_component ks p = (i, c)" by (auto dest!: map_of_SomeD)
        with i Some show ?thesis by force
      qed
    next
      fix d assume d: "d \<in> ?ds"
      show "d \<in> set (concat (map ?emit [0..<length cs]))"
      proof (cases "d \<in> (\<lambda>p. Antonym_Child (snd (pair_component ks p))) ` set ps")
        case True
        then obtain p where p: "p \<in> set ps" "d = Antonym_Child (snd (pair_component ks p))" by blast
        show ?thesis
        proof (rule in_concat_upt)
          show "fst (pair_component ks p) < length cs" using antonyms_ofD(5,6) [OF of p(1)] by blast
          show "d \<in> set (?emit (fst (pair_component ks p)))" by (simp add: hit [OF p(1)] p(2))
        qed
      next
        case False
        with d obtain i where i: "i < length cs" "i \<notin> (\<Union>p\<in>set ps. pair_members ks p)" "d = cs ! i" by blast
        have "map_of (map (pair_component ks) ps) i = None"
          using i(2) antonyms_ofD(6) [OF of] by (auto simp: map_of_eq_None_iff)
        show ?thesis
        proof (rule in_concat_upt)
          show "i < length cs" by (rule i(1))
          show "d \<in> set (?emit i)" using i consumed [OF i(1)] \<open>map_of (map (pair_component ks) ps) i = None\<close> by simp
        qed
      qed
    qed
    with of run False show ?thesis by auto
  qed (use run in simp)
qed (simp add: compile_antonyms_def)

section \<open>The conjunction\<close>

text \<open>
  What the pass assumes of the equality children: they store the same IDs, one wildcard source is one
  wildcard, and no node occurs twice.
\<close>

definition antonyms_sound :: "'b roaring \<Rightarrow> u32 set \<Rightarrow> ('t, 'v, 'k, 'b) child list \<Rightarrow> bool" where
  "antonyms_sound R U cs \<longleftrightarrow>
     (\<forall>i<length cs. \<forall>r. equality_operand (cs ! i) = Some r \<longrightarrow> eq_stored R r = U \<and> eq_bounded r \<and> eq_building r)
     \<and> (\<forall>i<length cs. \<forall>j<length cs. \<forall>r s. equality_operand (cs ! i) = Some r \<longrightarrow> equality_operand (cs ! j) = Some s \<longrightarrow>
          (er_wildcard_source r = er_wildcard_source s \<longrightarrow> bm_ids R (er_wildcard r) = bm_ids R (er_wildcard s))
          \<and> (er_node r = er_node s \<longrightarrow> i = j))
     \<and> (\<forall>r. Antonym_Child r \<notin> set cs)"

context roaring
begin

lemma class_operands:
  assumes "class_ok cs k w"
  shows "set (ay_operands k) = {r. \<exists>i\<in>set (ay_members k). equality_operand (cs ! i) = Some r}"
proof -
  note k = class_okD [OF assms]
  show ?thesis
  proof (intro set_eqI iffI)
    fix r assume "r \<in> set (ay_operands k)"
    then obtain j where "j < length (ay_members k)" "r = ay_operands k ! j" using k(1) by (auto simp: in_set_conv_nth)
    with k(4) show "r \<in> {r. \<exists>i\<in>set (ay_members k). equality_operand (cs ! i) = Some r}" by fastforce
  next
    fix r assume "r \<in> {r. \<exists>i\<in>set (ay_members k). equality_operand (cs ! i) = Some r}"
    then obtain j where "j < length (ay_members k)" "equality_operand (cs ! (ay_members k ! j)) = Some r"
      by (auto simp: in_set_conv_nth)
    with k(1,4) show "r \<in> set (ay_operands k)" by fastforce
  qed
qed

lemma antonyms_soundD:
  assumes "antonyms_sound R U cs" "i < length cs" "equality_operand (cs ! i) = Some r"
  shows "eq_stored R r = U" "eq_bounded r" "eq_building r"
    "j < length cs \<Longrightarrow> equality_operand (cs ! j) = Some s \<Longrightarrow> er_wildcard_source r = er_wildcard_source s
      \<Longrightarrow> bm_ids R (er_wildcard r) = bm_ids R (er_wildcard s)"
    "j < length cs \<Longrightarrow> equality_operand (cs ! j) = Some s \<Longrightarrow> er_node r = er_node s \<Longrightarrow> i = j"
proof -
  have one: "\<And>i r. i < length cs \<Longrightarrow> equality_operand (cs ! i) = Some r \<Longrightarrow> eq_stored R r = U \<and> eq_bounded r \<and> eq_building r"
    and two: "\<And>i j r s. i < length cs \<Longrightarrow> j < length cs \<Longrightarrow> equality_operand (cs ! i) = Some r \<Longrightarrow> equality_operand (cs ! j) = Some s \<Longrightarrow>
          (er_wildcard_source r = er_wildcard_source s \<longrightarrow> bm_ids R (er_wildcard r) = bm_ids R (er_wildcard s))
          \<and> (er_node r = er_node s \<longrightarrow> i = j)"
    using assms(1) unfolding antonyms_sound_def by blast+
  show "eq_stored R r = U" "eq_bounded r" "eq_building r" using one [OF assms(2,3)] by simp_all
  fix j s assume "j < length cs" "equality_operand (cs ! j) = Some s"
  note t = two [OF assms(2) this(1) assms(3) this(2)]
  show "er_wildcard_source r = er_wildcard_source s \<Longrightarrow> bm_ids R (er_wildcard r) = bm_ids R (er_wildcard s)"
    by (rule mp [OF conjunct1 [OF t]])
  show "er_node r = er_node s \<Longrightarrow> i = j" by (rule mp [OF conjunct2 [OF t]])
qed

lemma pair_operands:
  assumes of: "antonyms_of R cs ks ps ds" and p: "p \<in> set ps" and snd: "antonyms_sound R U cs"
  shows "set (ay_operands (ks ! fst p) @ ay_operands (ks ! snd p)) = {r. \<exists>i\<in>pair_members ks p. equality_operand (cs ! i) = Some r}"
    "(\<Inter>i\<in>pair_members ks p. child_den R (cs ! i) v) = an_den R (snd (pair_component ks p)) v"
    "ay_operands (ks ! fst p) \<noteq> []" "ay_operands (ks ! snd p) \<noteq> []"
    "\<forall>r\<in>set (ay_operands (ks ! fst p) @ ay_operands (ks ! snd p)). eq_building r"
proof -
  let ?l = "ay_operands (ks ! fst p)" and ?r = "ay_operands (ks ! snd p)"
  obtain w x where w: "class_ok cs (ks ! fst p) w" and x: "class_ok cs (ks ! snd p) x" using antonyms_ofD(1,2) [OF of p] by (elim exE)
  show ops: "set (?l @ ?r) = {r. \<exists>i\<in>pair_members ks p. equality_operand (cs ! i) = Some r}"
    using class_operands [OF w] class_operands [OF x] unfolding pair_members_def by auto
  show ne: "?l \<noteq> []" "?r \<noteq> []" by (rule class_okD(2) [OF w] class_okD(2) [OF x])+
  have at: "\<exists>i<length cs. equality_operand (cs ! i) = Some r" if "r \<in> set (?l @ ?r)" for r
    using that antonyms_ofD(5) [OF of p] unfolding ops by blast
  have each: "eq_stored R r = U \<and> eq_bounded r \<and> eq_building r" if "r \<in> set (?l @ ?r)" for r
    using at [OF that] antonyms_soundD(1-3) [OF snd] by blast
  then show "\<forall>r\<in>set (?l @ ?r). eq_building r" by blast
  have same: "bm_ids R (er_wildcard r) = bm_ids R (er_wildcard s)"
    if "r \<in> set (?l @ ?r)" "s \<in> set (?l @ ?r)" "er_wildcard_source r = er_wildcard_source s" for r s
    using at [OF that(1)] at [OF that(2)] that(3) antonyms_soundD(4) [OF snd] by metis
  have side: "\<forall>r\<in>set ops. bm_ids R (er_wildcard r) = bm_ids R (er_wildcard (hd ops))"
    if "set ops \<subseteq> set (?l @ ?r)" "ops \<noteq> []" "\<forall>r\<in>set ops. er_wildcard_source r = y" for ops y
  proof
    fix r assume r: "r \<in> set ops"
    show "bm_ids R (er_wildcard r) = bm_ids R (er_wildcard (hd ops))"
      by (rule same) (use r that(1) hd_in_set [OF that(2)] that(3) in auto)
  qed
  have "(\<Inter>r\<in>set (?l @ ?r). eq_den R r v) = an_den R \<lparr>an_left = ?l, an_right = ?r\<rparr> v"
  proof (rule antonym_den [of _ _ U])
    show "\<forall>r\<in>set ?l. bm_ids R (er_wildcard r) = bm_ids R (er_wildcard (hd ?l))"
      by (rule side [of _ w]) (use ne w in \<open>auto simp: class_ok_def\<close>)
    show "\<forall>r\<in>set ?r. bm_ids R (er_wildcard r) = bm_ids R (er_wildcard (hd ?r))"
      by (rule side [of _ x]) (use ne x in \<open>auto simp: class_ok_def\<close>)
  qed (use each ne antonyms_ofD(3) [OF of p] in blast)+
  moreover have "(\<Inter>r\<in>set (?l @ ?r). eq_den R r v) = (\<Inter>i\<in>pair_members ks p. child_den R (cs ! i) v)"
  proof -
    have some: "\<exists>r. equality_operand (cs ! i) = Some r \<and> child_den R (cs ! i) v = eq_den R r v" if "i \<in> pair_members ks p" for i
    proof -
      have "\<exists>r. equality_operand (cs ! i) = Some r"
        using that class_okD(1,4) [OF w] class_okD(1,4) [OF x] by (auto simp: pair_members_def in_set_conv_nth)
      then show ?thesis by (auto simp: equality_operand_Some)
    qed
    have "child_den R (cs ! i) v = eq_den R r v" if "equality_operand (cs ! i) = Some r" for i r
      using that by (simp add: equality_operand_Some)
    then have "(\<Inter>i\<in>pair_members ks p. child_den R (cs ! i) v) \<subseteq> eq_den R r v"
      if "r \<in> {r. \<exists>i\<in>pair_members ks p. equality_operand (cs ! i) = Some r}" for r using that by blast
    moreover have "(\<Inter>r\<in>set (?l @ ?r). eq_den R r v) \<subseteq> child_den R (cs ! i) v" if i: "i \<in> pair_members ks p" for i
    proof -
      obtain r where r: "equality_operand (cs ! i) = Some r" "child_den R (cs ! i) v = eq_den R r v" using some [OF i] by blast
      then have "r \<in> set (?l @ ?r)" unfolding ops using i by blast
      with r(2) show ?thesis by blast
    qed
    ultimately show ?thesis unfolding ops by (intro equalityI INT_greatest)
  qed
  ultimately show "(\<Inter>i\<in>pair_members ks p. child_den R (cs ! i) v) = an_den R (snd (pair_component ks p)) v"
    by (simp add: pair_component_def new_antonym_rule_def)
qed

text \<open>The compiled list denotes the conjunction of the original one.\<close>

theorem compile_antonyms_den:
  assumes snd: "antonyms_sound R U cs"
  shows "(\<Inter>c\<in>set (compile_antonyms R cs). child_den R c v) = (\<Inter>c\<in>set cs. child_den R c v)"
  using compile_antonyms_shape [of R cs]
proof
  assume "\<exists>ks ps. ps \<noteq> [] \<and> antonyms_of R cs ks ps (set (compile_antonyms R cs))"
  then obtain ks ps where of: "antonyms_of R cs ks ps (set (compile_antonyms R cs))" by blast
  let ?M = "\<Union>p\<in>set ps. pair_members ks p"
  have ds: "set (compile_antonyms R cs) = (\<lambda>p. Antonym_Child (snd (pair_component ks p))) ` set ps \<union> (!) cs ` {i. i < length cs \<and> i \<notin> ?M}"
    using of by (auto simp: antonyms_of_def)
  have "(\<Inter>c\<in>set (compile_antonyms R cs). child_den R c v)
      = (\<Inter>p\<in>set ps. an_den R (snd (pair_component ks p)) v) \<inter> (\<Inter>i\<in>{i. i < length cs \<and> i \<notin> ?M}. child_den R (cs ! i) v)"
    unfolding ds INT_Un by simp
  also have "(\<Inter>p\<in>set ps. an_den R (snd (pair_component ks p)) v) = (\<Inter>i\<in>?M. child_den R (cs ! i) v)"
    using pair_operands(2) [OF of _ snd] by auto
  also have "\<dots> \<inter> (\<Inter>i\<in>{i. i < length cs \<and> i \<notin> ?M}. child_den R (cs ! i) v)
      = (\<Inter>i\<in>?M \<union> {i. i < length cs \<and> i \<notin> ?M}. child_den R (cs ! i) v)" by (simp only: INT_Un)
  also have "?M \<union> {i. i < length cs \<and> i \<notin> ?M} = {..<length cs}" using antonyms_ofD(5) [OF of] by auto
  also have "(\<Inter>i\<in>{..<length cs}. child_den R (cs ! i) v) = (\<Inter>c\<in>set cs. child_den R c v)"
    unfolding set_conv_nth by blast
  finally show ?thesis .
qed simp

lemma compile_antonyms_ready:
  assumes snd: "antonyms_sound R U cs" and ready: "\<forall>c\<in>set cs. child_ready R nodes K c"
  shows "\<forall>c\<in>set (compile_antonyms R cs). child_ready R nodes K c" "antonyms_distinct (compile_antonyms R cs)"
    "classes_agree n cs \<Longrightarrow> classes_agree n (compile_antonyms R cs)"
    "cs \<noteq> [] \<Longrightarrow> compile_antonyms R cs \<noteq> []"
proof -
  let ?ds = "compile_antonyms R cs"
  have "(\<forall>c\<in>set ?ds. child_ready R nodes K c) \<and> antonyms_distinct ?ds
      \<and> (classes_agree n cs \<longrightarrow> classes_agree n ?ds) \<and> (cs \<noteq> [] \<longrightarrow> ?ds \<noteq> [])"
    using compile_antonyms_shape [of R cs]
  proof
    assume "?ds = cs"
    with snd ready show ?thesis by (simp add: antonyms_sound_def antonyms_distinct_def)
  next
    assume "\<exists>ks ps. ps \<noteq> [] \<and> antonyms_of R cs ks ps (set ?ds)"
    then obtain ks ps where of: "antonyms_of R cs ks ps (set ?ds)" and ne: "ps \<noteq> []" by blast
    have ds: "set ?ds = (\<lambda>p. Antonym_Child (snd (pair_component ks p))) ` set ps
        \<union> {cs ! i |i. i < length cs \<and> i \<notin> (\<Union>p\<in>set ps. pair_members ks p)}"
      using of by (simp add: antonyms_of_def)
    have cases: "(\<exists>p\<in>set ps. c = Antonym_Child (snd (pair_component ks p))) \<or> c \<in> set cs" if "c \<in> set ?ds" for c
      using that unfolding ds by auto
    have comp: "an_left (snd (pair_component ks p)) = ay_operands (ks ! fst p)" "an_right (snd (pair_component ks p)) = ay_operands (ks ! snd p)" for p
      by (simp_all add: pair_component_def new_antonym_rule_def)
    have r: "\<forall>c\<in>set ?ds. child_ready R nodes K c"
    proof
      fix c assume "c \<in> set ?ds"
      from cases [OF this] show "child_ready R nodes K c"
      proof
        assume "\<exists>p\<in>set ps. c = Antonym_Child (snd (pair_component ks p))"
        then obtain p where "p \<in> set ps" "c = Antonym_Child (snd (pair_component ks p))" by blast
        with pair_operands(3,4,5) [OF of _ snd, of p] show ?thesis by (simp add: comp)
      qed (use ready in blast)
    qed
    have "p = q" if p: "p \<in> set ps" "q \<in> set ps" "an_node (snd (pair_component ks p)) = an_node (snd (pair_component ks q))" for p q
    proof -
      obtain w x where w: "class_ok cs (ks ! fst p) w" and x: "class_ok cs (ks ! fst q) x"
        using antonyms_ofD(1) [OF of p(1)] antonyms_ofD(1) [OF of p(2)] by (elim exE)
      note w = class_okD [OF w] and x = class_okD [OF x]
      have mem: "ay_first (ks ! fst p) \<in> pair_members ks p" "ay_first (ks ! fst q) \<in> pair_members ks q"
        using w(3) x(3) by (simp_all add: pair_members_def)
      have "er_node (hd (ay_operands (ks ! fst p))) = er_node (hd (ay_operands (ks ! fst q)))" using p(3) by (simp add: an_node_def comp)
      then have "ay_first (ks ! fst p) = ay_first (ks ! fst q)"
        by (rule antonyms_soundD(5) [OF snd antonyms_ofD(5) [OF of p(1) mem(1)] w(6) antonyms_ofD(5) [OF of p(2) mem(2)] x(6)])
      with antonyms_ofD(4) [OF of p(1,2)] mem show ?thesis by auto
    qed
    then have d: "antonyms_distinct ?ds" unfolding antonyms_distinct_def using cases snd
      by (metis (no_types, lifting) antonyms_sound_def child.inject(3))
    have a: "classes_agree n ?ds" if agree: "classes_agree n cs"
    proof -
      have zero: "query_class (published_ops R c) v = 0 \<or> c \<in> set cs" if "c \<in> set ?ds" for c v
        using cases [OF that] query_class_other [of c v] by auto
      have le: "n \<le> 4294967232" "\<And>c v. c \<in> set cs \<Longrightarrow> query_class (published_ops R c) v \<le> n"
        and eq: "\<And>c d v. c \<in> set cs \<Longrightarrow> d \<in> set cs \<Longrightarrow> query_class (published_ops R c) v \<noteq> 0 \<Longrightarrow>
          query_class (published_ops R c) v = query_class (published_ops R d) v \<Longrightarrow> child_den R c v = child_den R d v"
        using agree unfolding classes_agree_def by blast+
      show ?thesis unfolding classes_agree_def
      proof (intro conjI ballI allI impI)
        show "query_class (published_ops R c) v \<le> n" if "c \<in> set ?ds" for c v using zero [OF that, of v] le(2) [of c v] by auto
        show "child_den R c v = child_den R d v"
          if c: "c \<in> set ?ds" and d: "d \<in> set ?ds" and nz: "query_class (published_ops R c) v \<noteq> 0"
            and same: "query_class (published_ops R c) v = query_class (published_ops R d) v" for c d v
          by (rule eq [OF _ _ nz same]) (use zero [OF c, of v] zero [OF d, of v] nz same in auto)
      qed (rule le(1))
    qed
    have "?ds \<noteq> []" using ds ne by (metis (no_types, lifting) image_is_empty set_empty Un_empty)
    with r d a show ?thesis by blast
  qed
  then show "\<forall>c\<in>set ?ds. child_ready R nodes K c" "antonyms_distinct ?ds"
    "classes_agree n cs \<Longrightarrow> classes_agree n ?ds" "cs \<noteq> [] \<Longrightarrow> ?ds \<noteq> []" by blast+
qed

end

end
