(* ===== verification/Shared_Groups.thy ===== *)
theory Shared_Groups
  imports All_Ranking
begin

text \<open>
  The groups of \<open>prepareSharedWildcardGroups\<close> (\<^verbatim>\<open>all.go\<close>): children of one group have the same wildcard,
  provided that interned wildcards of one source are equal.
\<close>

text \<open>A child with a non-empty shared wildcard of the given source.\<close>

definition shares :: "'b roaring \<Rightarrow> ('t, 'v, 'b) child_ops \<Rightarrow> u32 \<Rightarrow> bool" where
  "shares R c s \<longleftrightarrow> (\<exists>sw. co_shared c = Some sw \<and> sw_source sw = s \<and> bm_ids R (sw_wildcard sw) \<noteq> {})"

definition firsts_ok :: "'b roaring \<Rightarrow> ('t, 'v, 'b) child_ops list \<Rightarrow> nat \<Rightarrow> (u32 \<rightharpoonup> nat) \<Rightarrow> bool" where
  "firsts_ok R cs i firsts \<longleftrightarrow> (\<forall>s f. firsts s = Some f \<longrightarrow> f < i \<and> shares R (cs ! f) s)"

definition numbers_ok :: "'b roaring \<Rightarrow> ('t, 'v, 'b) child_ops list \<Rightarrow> nat \<Rightarrow> nat \<Rightarrow> nat list \<Rightarrow> bool" where
  "numbers_ok R cs i fresh gs \<longleftrightarrow> 0 < fresh \<and> length gs = length cs
     \<and> (\<forall>j<length cs. gs ! j < fresh \<and> (gs ! j \<noteq> 0 \<longrightarrow> j < i))
     \<and> (\<exists>source. \<forall>j<length cs. gs ! j \<noteq> 0 \<longrightarrow> shares R (cs ! j) (source (gs ! j)))"

lemma numbers_okI:
  assumes "0 < fresh" "length gs = length cs" "\<And>j. j < length cs \<Longrightarrow> gs ! j < fresh \<and> (gs ! j \<noteq> 0 \<longrightarrow> j < i)"
    "\<And>j. j < length cs \<Longrightarrow> gs ! j \<noteq> 0 \<Longrightarrow> shares R (cs ! j) (source (gs ! j))"
  shows "numbers_ok R cs i fresh gs"
  unfolding numbers_ok_def using assms by blast

lemma numbers_ok_start: "0 < fresh \<Longrightarrow> numbers_ok R cs i fresh (replicate (length cs) 0)"
  by (simp add: numbers_ok_def)

lemma numbers_ok_Suc: "numbers_ok R cs i fresh gs \<Longrightarrow> numbers_ok R cs (Suc i) fresh gs"
  by (auto simp: numbers_ok_def)

lemma numbers_okD:
  assumes "numbers_ok R cs i fresh gs"
  shows "\<And>j. j < length cs \<Longrightarrow> gs ! j < fresh" "\<And>j. j < length cs \<Longrightarrow> gs ! j \<noteq> 0 \<Longrightarrow> j < i" "0 < fresh" "length gs = length cs"
    "\<exists>source. \<forall>j<length cs. gs ! j \<noteq> 0 \<longrightarrow> shares R (cs ! j) (source (gs ! j))"
  using assms unfolding numbers_ok_def by blast+

lemma numbers_ok_new:
  assumes "numbers_ok R cs i fresh gs" "f < i" "i < length cs" "shares R (cs ! f) s" "shares R (cs ! i) s"
  shows "numbers_ok R cs (Suc i) (Suc fresh) (gs[f := fresh, i := fresh])"
proof -
  obtain source where source: "\<forall>j<length cs. gs ! j \<noteq> 0 \<longrightarrow> shares R (cs ! j) (source (gs ! j))"
    using numbers_okD(5) [OF assms(1)] by (elim exE)
  note gs = source [rule_format] numbers_okD(1-4) [OF assms(1)]
  show ?thesis
  proof (rule numbers_okI)
    fix j assume j: "j < length cs"
    consider "j = i" | "j = f" "j \<noteq> i" | "j \<noteq> i" "j \<noteq> f" by blast
    then have new: "gs[f := fresh, i := fresh] ! j = fresh \<and> (j = i \<or> j = f) \<or> gs[f := fresh, i := fresh] ! j = gs ! j"
      using j gs(5) by cases simp_all
    then show "gs[f := fresh, i := fresh] ! j < Suc fresh \<and> (gs[f := fresh, i := fresh] ! j \<noteq> 0 \<longrightarrow> j < Suc i)"
      using gs(2,3) [OF j] assms(2) by auto
    show "shares R (cs ! j) ((source(fresh := s)) (gs[f := fresh, i := fresh] ! j))" if "gs[f := fresh, i := fresh] ! j \<noteq> 0"
      using new that gs(1,2) [OF j] assms(4,5) by auto
  qed (use gs in simp_all)
qed

lemma numbers_ok_join:
  assumes "numbers_ok R cs i fresh gs" "f < i" "i < length cs" "gs ! f \<noteq> 0" "shares R (cs ! f) s" "shares R (cs ! i) s"
  shows "numbers_ok R cs (Suc i) fresh (gs[i := gs ! f])"
proof -
  obtain source where source: "\<forall>j<length cs. gs ! j \<noteq> 0 \<longrightarrow> shares R (cs ! j) (source (gs ! j))"
    using numbers_okD(5) [OF assms(1)] by (elim exE)
  note gs = source [rule_format] numbers_okD(1-4) [OF assms(1)]
  have f: "f < length cs" using assms(2,3) by simp
  have s: "source (gs ! f) = s" using gs(1) [OF f assms(4)] assms(5) by (auto simp: shares_def)
  show ?thesis
  proof (rule numbers_okI)
    fix j assume j: "j < length cs"
    have new: "gs[i := gs ! f] ! j = (if j = i then gs ! f else gs ! j)" using j gs(5) by simp
    show "gs[i := gs ! f] ! j < fresh \<and> (gs[i := gs ! f] ! j \<noteq> 0 \<longrightarrow> j < Suc i)"
      using gs(2,3) [OF j] gs(2) [OF f] unfolding new by auto
    show "shares R (cs ! j) (source (gs[i := gs ! f] ! j))" if "gs[i := gs ! f] ! j \<noteq> 0"
      using that gs(1) [OF j] s assms(6) unfolding new by (auto split: if_splits)
  qed (use gs in simp_all)
qed

context roaring
begin

lemma shared_groups_ok:
  assumes "firsts_ok R all i firsts" "0 < fresh" "\<forall>gs. groups = Some gs \<longrightarrow> numbers_ok R all i fresh gs"
    "all = pre @ cs" "i = length pre" "shared_groups R (length all) i cs firsts fresh groups = Some gs"
  shows "\<exists>fresh. numbers_ok R all (length all) fresh gs"
  using assms
proof (induction cs arbitrary: pre i firsts fresh groups)
  case Nil
  then show ?case by auto
next
  case (Cons c cs)
  have c: "all ! i = c" "i < length all" "all = (pre @ [c]) @ cs" "Suc i = length (pre @ [c])" using Cons.prems(4,5) by auto
  note step = Cons.IH [OF _ _ _ c(3,4)]
  have later: "firsts_ok R all (Suc i) firsts" "\<forall>gs. groups = Some gs \<longrightarrow> numbers_ok R all (Suc i) fresh gs"
    using Cons.prems(1,3) numbers_ok_Suc by (auto simp: firsts_ok_def less_SucI)
  show ?case
  proof (cases "\<exists>sw. co_shared c = Some sw \<and> \<not> bm_is_empty R (sw_wildcard sw)")
    case False
    then have "shared_groups R (length all) (Suc i) cs firsts fresh groups = Some gs"
      using Cons.prems(6) by (auto split: option.splits)
    from step [OF later(1) Cons.prems(2) later(2) this] show ?thesis .
  next
    case True
    then obtain sw where sw: "co_shared c = Some sw" "\<not> bm_is_empty R (sw_wildcard sw)" by blast
    then have shares: "shares R (all ! i) (sw_source sw)" by (simp add: shares_def c(1) is_empty_iff)
    show ?thesis
    proof (cases "firsts (sw_source sw)")
      case None
      then have run: "shared_groups R (length all) (Suc i) cs (firsts(sw_source sw \<mapsto> i)) fresh groups = Some gs"
        using Cons.prems(6) sw by (simp del: fun_upd_apply)
      have "firsts_ok R all (Suc i) (firsts(sw_source sw \<mapsto> i))" using later(1) shares by (auto simp: firsts_ok_def)
      from step [OF this Cons.prems(2) later(2) run] show ?thesis .
    next
      case (Some f)
      then have f: "f < i" "shares R (all ! f) (sw_source sw)" using Cons.prems(1) by (auto simp: firsts_ok_def)
      define gs0 where "gs0 = (case groups of Some gs \<Rightarrow> gs | None \<Rightarrow> replicate (length all) 0)"
      have gs0: "numbers_ok R all i fresh gs0"
        using Cons.prems(2,3) numbers_ok_start by (auto simp: gs0_def split: option.split)
      show ?thesis
      proof (cases "gs0 ! f = 0")
        case True
        with Some sw Cons.prems(6)
        have run: "shared_groups R (length all) (Suc i) cs firsts (Suc fresh) (Some (gs0[f := fresh, i := fresh])) = Some gs"
          by (simp add: gs0_def Let_def)
        have "\<forall>gs. Some (gs0[f := fresh, i := fresh]) = Some gs \<longrightarrow> numbers_ok R all (Suc i) (Suc fresh) gs"
          using numbers_ok_new [OF gs0 f(1) c(2) f(2) shares] by simp
        from step [OF later(1) _ this run] show ?thesis by simp
      next
        case False
        with Some sw Cons.prems(6)
        have run: "shared_groups R (length all) (Suc i) cs firsts fresh (Some (gs0[i := gs0 ! f])) = Some gs"
          by (simp add: gs0_def Let_def)
        have "\<forall>gs. Some (gs0[i := gs0 ! f]) = Some gs \<longrightarrow> numbers_ok R all (Suc i) fresh gs"
          using numbers_ok_join [OF gs0 f(1) c(2) False f(2) shares] by simp
        from step [OF later(1) Cons.prems(2) this run] show ?thesis .
      qed
    qed
  qed
qed

theorem prepare_shared_groups_ok:
  assumes "\<forall>i<length cs. \<forall>j<length cs. \<forall>a b. co_shared (cs ! i) = Some a \<longrightarrow> co_shared (cs ! j) = Some b \<longrightarrow>
    sw_source a = sw_source b \<longrightarrow> bm_ids R (sw_wildcard a) = bm_ids R (sw_wildcard b)"
  shows "groups_ok R cs (prepare_shared_groups R cs)"
  unfolding groups_ok_def
proof (intro allI impI)
  fix gs assume "prepare_shared_groups R cs = Some gs"
  then have "shared_groups R (length cs) 0 cs Map.empty 1 None = Some gs" by (simp add: prepare_shared_groups_def)
  from shared_groups_ok [OF _ _ _ _ _ this, of "[]"] obtain fresh where "numbers_ok R cs (length cs) fresh gs"
    by (auto simp: firsts_ok_def)
  then obtain source where len: "length gs = length cs"
    and source: "\<And>j. j < length cs \<Longrightarrow> gs ! j \<noteq> 0 \<Longrightarrow> shares R (cs ! j) (source (gs ! j))"
    by (auto simp: numbers_ok_def)
  have one: "\<exists>sw. co_shared (cs ! i) = Some sw \<and> bm_ids R (sw_wildcard sw) \<noteq> {}" if "i < length cs" "gs ! i \<noteq> 0" for i
    using source [OF that] by (auto simp: shares_def)
  have two: "bm_ids R (sw_wildcard a) = bm_ids R (sw_wildcard b)"
    if "i < length cs" "j < length cs" "gs ! i \<noteq> 0" "gs ! i = gs ! j" "co_shared (cs ! i) = Some a" "co_shared (cs ! j) = Some b" for i j a b
  proof -
    have "sw_source a = sw_source b"
      using source [OF that(1,3)] source [OF that(2)] that(3-6) by (auto simp: shares_def)
    with assms that(1,2,5,6) show ?thesis by blast
  qed
  show "length gs = length cs
       \<and> (\<forall>i<length cs. gs ! i \<noteq> 0 \<longrightarrow> (\<exists>sw. co_shared (cs ! i) = Some sw \<and> bm_ids R (sw_wildcard sw) \<noteq> {}))
       \<and> (\<forall>i<length cs. \<forall>j<length cs. gs ! i \<noteq> 0 \<longrightarrow> gs ! i = gs ! j \<longrightarrow>
            (\<forall>a b. co_shared (cs ! i) = Some a \<longrightarrow> co_shared (cs ! j) = Some b \<longrightarrow>
               bm_ids R (sw_wildcard a) = bm_ids R (sw_wildcard b)))"
    using len one two by blast
qed

end

end
