(* ===== verification/All_Execution.thy ===== *)
theory All_Execution
  imports All_Planning
begin

text \<open>
  The execution half of \<open>All\<close> (\<^verbatim>\<open>all_execution.go\<close>): collecting the children of one wildcard group,
  narrowing the candidates child by child, and switching to direct validation once few enough
  candidates are left. Arrays are passed as lists together with the part the callee works on,
  because the caller reads the array again afterwards.
\<close>

section \<open>Shared wildcards\<close>

definition ranked_group :: "nat list \<Rightarrow> 'b ranked \<Rightarrow> nat" where
  "ranked_group gs e = gs ! rk_child e"

definition shared_of :: "('t, 'v, 'b) all_rule \<Rightarrow> 'b ranked \<Rightarrow> ('t, 'b) shared_wildcard option" where
  "shared_of r e = co_shared (al_children r ! rk_child e)"

text \<open>The concrete matches of the first member, narrowed by every later member of its group.\<close>

fun intersect_members ::
  "'b roaring \<Rightarrow> ('t, 'v, 'b) all_rule \<Rightarrow> nat list \<Rightarrow> 't \<Rightarrow> nat \<Rightarrow> 'b ranked list \<Rightarrow> 'b \<Rightarrow> 'b" where
  "intersect_members R r gs v grp [] bits = bits"
| "intersect_members R r gs v grp (e # es) bits =
     (if ranked_group gs e \<noteq> grp then intersect_members R r gs v grp es bits
      else case shared_of r e of
             None \<Rightarrow> intersect_members R r gs v grp es bits
           | Some other \<Rightarrow>
               (let bits = sw_intersect other v bits
                in if bm_is_empty R bits then bits else intersect_members R r gs v grp es bits))"

definition share_result :: "'b roaring \<Rightarrow> nat list \<Rightarrow> nat \<Rightarrow> 'b \<Rightarrow> 'b ranked \<Rightarrow> 'b ranked" where
  "share_result R gs grp bits e =
     (if ranked_group gs e = grp
      then e\<lparr>rk_bits := Some bits, rk_source := Scratch, rk_card := bm_card R bits\<rparr> else e)"

text \<open>One iteration of the first loop of \<open>collectSharedWildcards\<close>.\<close>

definition collect_at ::
  "'b roaring \<Rightarrow> ('t, 'v, 'b) all_rule \<Rightarrow> nat list \<Rightarrow> 't \<Rightarrow> nat \<Rightarrow> 'b ranked list \<Rightarrow> 'b ranked list" where
  "collect_at R r gs v i es =
     (let grp = ranked_group gs (es ! i)
      in if grp = 0 \<or> rk_bits (es ! i) \<noteq> None then es
         else case shared_of r (es ! i) of
                None \<Rightarrow> es
              | Some first \<Rightarrow>
                  (let bits = sw_add first v (bm_new R);
                       bits = intersect_members R r gs v grp (drop (Suc i) es) bits;
                       bits = bm_or R bits (sw_wildcard first);
                       es = take i es @ map (share_result R gs grp bits) (drop i es)
                   in es[i := (es ! i)\<lparr>rk_owned := True\<rparr>]))"

text \<open>The second loop writes the kept entries over the front of the array; the tail stays as it was.\<close>

fun keep_one_per_group :: "nat list \<Rightarrow> 'b ranked list \<Rightarrow> 'b ranked list \<Rightarrow> 'b ranked list" where
  "keep_one_per_group gs kept [] = kept"
| "keep_one_per_group gs kept (e # es) =
     (if ranked_group gs e \<noteq> 0 \<and> list_ex (\<lambda>k. ranked_group gs k = ranked_group gs e) kept
      then keep_one_per_group gs kept es
      else keep_one_per_group gs (kept @ [e]) es)"

definition collect_shared_wildcards ::
  "'b roaring \<Rightarrow> ('t, 'v, 'b) all_rule \<Rightarrow> nat list \<Rightarrow> 't \<Rightarrow> 'b ranked list \<Rightarrow> 'b ranked list \<times> nat" where
  "collect_shared_wildcards R r gs v es =
     (let es = fold (collect_at R r gs v) [0..<length es] es;
          kept = keep_one_per_group gs [] es
      in (kept @ drop (length kept) es, length kept))"

section \<open>Direct validation\<close>

definition matches_child_id :: "('t, 'v, 'b) all_rule \<Rightarrow> nat \<Rightarrow> 't \<Rightarrow> u32 \<Rightarrow> bool" where
  "matches_child_id r i v x = (case co_direct (al_children r ! i) of None \<Rightarrow> False | Some f \<Rightarrow> f v x)"

definition accepts_id :: "'b roaring \<Rightarrow> ('t, 'v, 'b) all_rule \<Rightarrow> 't \<Rightarrow> u32 \<Rightarrow> 'b ranked \<Rightarrow> bool" where
  "accepts_id R r v x e =
     (case rk_bits e of Some b \<Rightarrow> bm_contains R b x | None \<Rightarrow> matches_child_id r (rk_child e) v x)"

text \<open>The flag is false once an empty result was found; the rest is then left alone.\<close>

fun materialize_unsupported_remaining ::
  "'b roaring \<Rightarrow> ('t, 'v, 'b) all_rule \<Rightarrow> 't \<Rightarrow> 'b ranked list \<Rightarrow> ('v, 'b) pool
     \<Rightarrow> bool \<times> 'b ranked list \<times> ('v, 'b) pool" where
  "materialize_unsupported_remaining R r v [] p = (True, [], p)"
| "materialize_unsupported_remaining R r v (e # es) p =
     (if rk_bits e \<noteq> None \<or> supports_direct (al_children r) (rk_child e)
      then case materialize_unsupported_remaining R r v es p of (ok, es, p) \<Rightarrow> (ok, e # es, p)
      else case co_search (al_children r ! rk_child e) v p (bm_new R) of
             (bits, p) \<Rightarrow>
               (let e = e\<lparr>rk_bits := Some bits, rk_source := Scratch, rk_card := bm_card R bits, rk_owned := True\<rparr>
                in if bm_is_empty R bits then (False, e # es, p)
                   else case materialize_unsupported_remaining R r v es p of (ok, es, p) \<Rightarrow> (ok, e # es, p)))"

definition validate_candidates ::
  "'b roaring \<Rightarrow> ('t, 'v, 'b) all_rule \<Rightarrow> 't \<Rightarrow> 'b \<Rightarrow> 'b ranked list \<Rightarrow> ('v, 'b) pool
     \<Rightarrow> bool \<times> 'b \<times> 'b ranked list \<times> ('v, 'b) pool" where
  "validate_candidates R r v dst remaining p =
     (case (if direct_id_complete r then (remaining, p)
            else snd (materialize_unsupported_remaining R r v remaining p)) of
        (remaining, p) \<Rightarrow>
          (let remaining = order_candidate_validation (al_children r) (bm_card R dst) remaining;
               accepted = foldl (bm_add R) (bm_new R)
                            (filter (\<lambda>x. list_all (accepts_id R r v x) remaining) (bm_to_list R dst));
               dst = bm_or R (bm_new R) accepted
           in (\<not> bm_is_empty R dst, dst, remaining, p)))"

section \<open>Narrowing\<close>

definition filter_candidates ::
  "('t, 'v, 'b) all_rule \<Rightarrow> nat \<Rightarrow> 't \<Rightarrow> 'b \<Rightarrow> ('v, 'b) pool \<Rightarrow> 'b option" where
  "filter_candidates r i v dst p =
     (if po_local p \<noteq> None then None
      else case co_filter (al_children r ! i) of None \<Rightarrow> None | Some f \<Rightarrow> Some (f v dst))"

definition bitmap_ranges_disjoint :: "'b roaring \<Rightarrow> 'b \<Rightarrow> 'b \<Rightarrow> bool" where
  "bitmap_ranges_disjoint R first second =
     (if bm_is_empty R first \<or> bm_is_empty R second then True
      else bm_max R first < bm_min R second \<or> bm_max R second < bm_min R first)"

definition should_prune_ranges :: "('v, 'b) pool \<Rightarrow> bool" where
  "should_prune_ranges p \<longleftrightarrow> po_local p = None"

definition swap_nth :: "nat \<Rightarrow> nat \<Rightarrow> 'a list \<Rightarrow> 'a list" where
  "swap_nth i j xs = xs[i := xs ! j, j := xs ! i]"

definition disown :: "'b ranked list \<Rightarrow> 'b ranked list" where
  "disown es = map (\<lambda>e. e\<lparr>rk_owned := False\<rparr>) es"

text \<open>
  One iteration ends the loop with a verdict, or goes on. A verdict of false means that nothing
  matches, whatever the destination then holds.
\<close>

datatype ('v, 'b) progress =
  Finished bool 'b "'b ranked list" "('v, 'b) pool"
| Continue 'b "'b ranked list" "('v, 'b) pool"

text \<open>\<open>return r.validateCandidateBitmap(v, dst, pool, rankedChildren[n:])\<close>\<close>

definition finish_by_validation ::
  "'b roaring \<Rightarrow> ('t, 'v, 'b) all_rule \<Rightarrow> 't \<Rightarrow> nat \<Rightarrow> 'b \<Rightarrow> 'b ranked list \<Rightarrow> ('v, 'b) pool \<Rightarrow> ('v, 'b) progress" where
  "finish_by_validation R r v n dst es p =
     (case validate_candidates R r v dst (drop n es) p of
        (ok, dst, remaining, p) \<Rightarrow> Finished ok dst (take n es @ remaining) p)"

definition continue_or_validate ::
  "'b roaring \<Rightarrow> ('t, 'v, 'b) all_rule \<Rightarrow> 't \<Rightarrow> nat \<Rightarrow> 'b \<Rightarrow> 'b ranked list \<Rightarrow> ('v, 'b) pool \<Rightarrow> ('v, 'b) progress" where
  "continue_or_validate R r v i dst es p =
     (if should_validate_remaining R (al_children r) (bm_card R dst) (drop (Suc i) es)
      then finish_by_validation R r v (Suc i) dst es p
      else Continue dst es p)"

text \<open>The part of the iteration after the bitmap of entry \<open>i\<close> is there.\<close>

definition narrow_by ::
  "'b roaring \<Rightarrow> ('t, 'v, 'b) all_rule \<Rightarrow> 't \<Rightarrow> nat \<Rightarrow> 'b \<Rightarrow> 'b ranked list \<Rightarrow> ('v, 'b) pool \<Rightarrow> ('v, 'b) progress" where
  "narrow_by R r v i dst es p =
     (let bits = the (rk_bits (es ! i))
      in if rk_card (es ! i) \<le> allCandidateScanLimit
         then finish_by_validation R r v 1 (bm_or R (bm_new R) bits) (swap_nth 0 i es) p
         else if i = 0 then Continue dst es p
         else
           (let current = (if i = 1 then the (rk_bits (es ! 0)) else dst)
            in if should_prune_ranges p \<and> bitmap_ranges_disjoint R current bits
               then Finished False (bm_new R) (disown es) p
               else
                 (let dst = bm_and R dst bits
                  in if bm_is_empty R dst then Finished False dst (disown es) p
                     else continue_or_validate R r v i dst es p)))"

definition materialize_and_narrow ::
  "'b roaring \<Rightarrow> ('t, 'v, 'b) all_rule \<Rightarrow> 't \<Rightarrow> nat \<Rightarrow> 'b \<Rightarrow> 'b ranked list \<Rightarrow> ('v, 'b) pool \<Rightarrow> ('v, 'b) progress" where
  "materialize_and_narrow R r v i dst es p =
     (if rk_bits (es ! i) \<noteq> None then narrow_by R r v i dst es p
      else case co_search (al_children r ! rk_child (es ! i)) v p (bm_new R) of
             (bits, p) \<Rightarrow>
               (let card = bm_card R bits
                in if card = 0 then Finished False (bm_new R) (disown es) p
                   else narrow_by R r v i dst
                          (es[i := (es ! i)\<lparr>rk_bits := Some bits, rk_source := Scratch, rk_card := card, rk_owned := True\<rparr>]) p))"

text \<open>The first bitmap enters the destination when the second entry is reached.\<close>

definition intersect_step ::
  "'b roaring \<Rightarrow> ('t, 'v, 'b) all_rule \<Rightarrow> 't \<Rightarrow> nat \<Rightarrow> 'b \<Rightarrow> 'b ranked list \<Rightarrow> ('v, 'b) pool \<Rightarrow> ('v, 'b) progress" where
  "intersect_step R r v i dst es p =
     (if i = 0 then materialize_and_narrow R r v 0 dst es p
      else
        (let es = swap_nth i (i + select_next_bitmap_operation R (drop i es)) es;
             dst = (if i = 1 then bm_or R dst (the (rk_bits (es ! 0))) else dst)
         in case (if should_filter_candidates R (bm_bytes R dst) (es ! i)
                  then filter_candidates r (rk_child (es ! i)) v dst p else None) of
              None \<Rightarrow> materialize_and_narrow R r v i dst es p
            | Some dst \<Rightarrow>
                (if bm_is_empty R dst then Finished False dst es p
                 else continue_or_validate R r v i dst es p)))"

fun intersect_loop ::
  "'b roaring \<Rightarrow> ('t, 'v, 'b) all_rule \<Rightarrow> 't \<Rightarrow> nat list \<Rightarrow> 'b \<Rightarrow> 'b ranked list \<Rightarrow> ('v, 'b) pool
     \<Rightarrow> bool \<times> 'b \<times> 'b ranked list \<times> ('v, 'b) pool" where
  "intersect_loop R r v [] dst es p =
     (True, if length es = 1 then bm_or R dst (the (rk_bits (es ! 0))) else dst, es, p)"
| "intersect_loop R r v (i # is) dst es p =
     (case intersect_step R r v i dst es p of
        Finished ok dst es p \<Rightarrow> (ok, dst, es, p)
      | Continue dst es p \<Rightarrow> intersect_loop R r v is dst es p)"

text \<open>The caller's array is returned whole: the worked-on front and the stale tail.\<close>

definition intersect_ranked_in_order ::
  "'b roaring \<Rightarrow> ('t, 'v, 'b) all_rule \<Rightarrow> 't \<Rightarrow> 'b \<Rightarrow> 'b ranked list \<Rightarrow> ('v, 'b) pool
     \<Rightarrow> bool \<times> 'b \<times> 'b ranked list \<times> ('v, 'b) pool" where
  "intersect_ranked_in_order R r v dst es p =
     (case (case (if po_local p = None then al_groups r else None) of
              None \<Rightarrow> (es, length es)
            | Some gs \<Rightarrow> collect_shared_wildcards R r gs v es) of
        (es, n) \<Rightarrow>
          (case intersect_loop R r v [0..<n] dst (take n es) p of
             (ok, dst, front, p) \<Rightarrow> (ok, dst, front @ drop n es, p)))"

text \<open>\<open>releaseRanked\<close> hands these bitmaps back to the pool, in this order.\<close>

definition release_ranked :: "'b ranked list \<Rightarrow> 'b list" where
  "release_ranked es = map (\<lambda>e. the (rk_bits e)) (filter (\<lambda>e. rk_bits e \<noteq> None \<and> rk_owned e) es)"

section \<open>Search of a nested All\<close>

definition drop_equal_classes :: "('t, 'v, 'b) all_rule \<Rightarrow> 't \<Rightarrow> 'b ranked list \<Rightarrow> 'b ranked list" where
  "drop_equal_classes r v es = deduplicate_classes r v (replicate (class_mask_words r) 0) es"

definition search_ranked ::
  "'b roaring \<Rightarrow> ('t, 'v, 'b) all_rule \<Rightarrow> 't \<Rightarrow> ('v, 'b) pool \<Rightarrow> 'b \<Rightarrow> 'b \<times> ('v, 'b) pool" where
  "search_ranked R r v p dst =
     (case rank_children R r v (replicate (length (al_children r)) empty_ranked) p of
        (None, p) \<Rightarrow> (dst, p)
      | (Some es, p) \<Rightarrow>
          (if es = [] then (dst, p)
           else
             (let es = (if al_class_count r \<noteq> 0 then drop_equal_classes r v es else es);
                  es = (if po_local p = None \<and> 1 < length es
                        then swap_nth 0 (select_initial_bitmap_source R (al_children r) es) es else es)
              in if \<not> should_validate_candidates R (al_children r) es
                 then case intersect_ranked_in_order R r v dst es p of (ok, dst, es, p) \<Rightarrow> (dst, p)
                 else
                   case (case rk_bits (hd es) of
                           Some b \<Rightarrow> (b, p)
                         | None \<Rightarrow> co_search (al_children r ! rk_child (hd es)) v p (bm_new R)) of
                     (first, p) \<Rightarrow>
                       (case validate_candidates R r v (bm_or R dst first) (tl es) p of
                          (ok, dst, remaining, p) \<Rightarrow> (dst, p)))))"

end
