(* ===== verification/All_Correctness.thy ===== *)
theory All_Correctness
  imports All_Execution All_Ranking
begin

text \<open>
  Execution returns the intersection of the children, in whatever order and by whatever mixture of
  bitmap operations, candidate filters and direct tests the cost model picks. The argument is an
  invariant on the array: each entry denotes its bitmap, or its child while there is none, and the
  entries of the array together denote the result.
\<close>

section \<open>What an array denotes\<close>

definition entry_den :: "'b roaring \<Rightarrow> ('t \<Rightarrow> u32 set) list \<Rightarrow> 't \<Rightarrow> 'b ranked \<Rightarrow> u32 set" where
  "entry_den R D v e = (case rk_bits e of Some b \<Rightarrow> bm_ids R b | None \<Rightarrow> (D ! rk_child e) v)"

definition entry_sig :: "'b roaring \<Rightarrow> ('t \<Rightarrow> u32 set) list \<Rightarrow> 't \<Rightarrow> 'b ranked \<Rightarrow> nat \<times> u32 set" where
  "entry_sig R D v e = (rk_child e, entry_den R D v e)"

definition array_ok :: "'b roaring \<Rightarrow> ('t, 'v, 'b) all_rule \<Rightarrow> ('t \<Rightarrow> u32 set) list \<Rightarrow> 't \<Rightarrow> u32 set \<Rightarrow> 'b ranked list \<Rightarrow> bool" where
  "array_ok R r D v S es \<longleftrightarrow> es \<noteq> [] \<and> (\<forall>x\<in>entry_sig R D v ` set es. fst x < length D
        \<and> (co_filter (al_children r ! fst x) \<noteq> None \<longrightarrow> snd x = (D ! fst x) v))
     \<and> \<Inter>(snd ` entry_sig R D v ` set es) = S"

text \<open>The array depends only on what its entries denote, not on their order.\<close>

lemma array_ok_cong:
  "entry_sig R D v ` set es = entry_sig R D v ` set es' \<Longrightarrow> array_ok R r D v S es = array_ok R r D v S es'"
  unfolding array_ok_def by (metis empty_is_image set_empty)

lemma array_okD:
  assumes "array_ok R r D v S es"
  shows "es \<noteq> []" "\<And>e. e \<in> set es \<Longrightarrow> rk_child e < length D" "(\<Inter>e\<in>set es. entry_den R D v e) = S"
    "\<And>e. e \<in> set es \<Longrightarrow> co_filter (al_children r ! rk_child e) \<noteq> None \<Longrightarrow> entry_den R D v e = (D ! rk_child e) v"
  using assms by (auto simp: array_ok_def entry_sig_def image_image)

lemma array_okI:
  assumes "es \<noteq> []" "\<And>e. e \<in> set es \<Longrightarrow> rk_child e < length D" "(\<Inter>e\<in>set es. entry_den R D v e) = S"
    "\<And>e. e \<in> set es \<Longrightarrow> co_filter (al_children r ! rk_child e) \<noteq> None \<Longrightarrow> entry_den R D v e = (D ! rk_child e) v"
  shows "array_ok R r D v S es"
  using assms by (auto simp: array_ok_def entry_sig_def image_image)

lemma entry_den_simps [simp]:
  "entry_den R D v (e\<lparr>rk_owned := x\<rparr>) = entry_den R D v e"
  "entry_den R D v (e\<lparr>rk_card := y\<rparr>) = entry_den R D v e"
  "entry_sig R D v (e\<lparr>rk_owned := x\<rparr>) = entry_sig R D v e"
  by (simp_all add: entry_den_def entry_sig_def split: option.split)

lemma array_ok_disown: "array_ok R r D v S es \<Longrightarrow> array_ok R r D v S (disown es)"
  by (subst array_ok_cong [where es' = es]) (auto simp: disown_def image_image)

lemma entries_array_ok:
  assumes "entries_ok R r D v indexed es"
  shows "array_ok R r D v (all_den D v) es"
proof (rule array_okI)
  have den: "entry_den R D v e = (D ! rk_child e) v" if "e \<in> set es" for e
    using assms that by (auto simp: entries_ok_def fresh_entry_def entry_den_def split: option.split)
  have "(\<Inter>e\<in>set es. entry_den R D v e) = (\<Inter>e\<in>set es. (D ! rk_child e) v)"
    by (rule INF_cong) (simp_all add: den)
  with assms show "(\<Inter>e\<in>set es. entry_den R D v e) = all_den D v" by (simp add: entries_ok_def)
qed (use assms in \<open>auto simp: entries_ok_def fresh_entry_def entry_den_def split: option.split\<close>)

lemma swap_nth_props:
  assumes "i < length xs" "j < length xs"
  shows "set (swap_nth i j xs) = set xs" "length (swap_nth i j xs) = length xs"
    "swap_nth i j xs ! i = xs ! j" "k \<noteq> i \<Longrightarrow> k \<noteq> j \<Longrightarrow> swap_nth i j xs ! k = xs ! k"
  using assms by (auto simp: swap_nth_def set_swap nth_list_update)

lemma array_ok_swap: "i < length es \<Longrightarrow> j < length es \<Longrightarrow> array_ok R r D v S (swap_nth i j es) = array_ok R r D v S es"
  by (rule array_ok_cong) (simp add: swap_nth_props)

text \<open>Replacing the front or the back of an array by entries of the same denotation.\<close>

lemma array_ok_drop:
  assumes "array_ok R r D v S es" "entry_sig R D v ` set xs = entry_sig R D v ` set (drop n es)"
  shows "array_ok R r D v S (take n es @ xs)"
proof -
  have "entry_sig R D v ` set (take n es @ xs) = entry_sig R D v ` set (take n es @ drop n es)"
    using assms(2) by (simp only: set_append image_Un)
  then show ?thesis using assms(1) by (subst array_ok_cong) (assumption, simp)
qed

lemma array_ok_update:
  assumes "array_ok R r D v S es" "i < length es" "entry_sig R D v e = entry_sig R D v (es ! i)"
  shows "array_ok R r D v S (es[i := e])"
proof -
  have "map (entry_sig R D v) (es[i := e]) = map (entry_sig R D v) es"
    by (rule nth_equalityI) (auto simp: nth_list_update assms(2,3))
  then have "entry_sig R D v ` set (es[i := e]) = entry_sig R D v ` set es"
    by (metis list.set_map)
  from array_ok_cong [OF this, of r S] assms(1) show ?thesis by simp
qed

section \<open>Direct validation\<close>

context roaring
begin

text \<open>A child without a direct test denotes nothing, so rejecting its candidates is right.\<close>

lemma accepts_id_iff:
  assumes "all_sound R G r D" "rk_child e < length D"
  shows "accepts_id R r v x e \<longleftrightarrow> x \<in> entry_den R D v e"
  using static_okD(3,7) [OF ops_okD(3) [OF all_soundD(4) [OF assms]]]
  by (auto simp: accepts_id_def matches_child_id_def entry_den_def contains_iff split: option.split)

lemma materialized_entry:
  assumes "all_sound R G r D" "rk_child e < length D" "pool_ok R G p" "rk_bits e = None"
    and "co_search (al_children r ! rk_child e) v p (bm_new R) = (bits, q)"
  shows "bm_ids R bits = (D ! rk_child e) v" "pool_ok R G q" "pool_step p q"
    "entry_sig R D v (e\<lparr>rk_bits := Some bits, rk_source := s, rk_card := n, rk_owned := x\<rparr>) = entry_sig R D v e"
  using search_okD [OF ops_okD(1) [OF all_soundD(4) [OF assms(1,2)]] assms(3) ids_new assms(5)] assms(4)
  by (auto simp: entry_sig_def entry_den_def)

lemma materialize_unsupported_sound:
  assumes snd: "all_sound R G r D"
  shows "\<forall>e\<in>set es. rk_child e < length D \<Longrightarrow> pool_ok R G p \<Longrightarrow>
    materialize_unsupported_remaining R r v es p = (ok, es', p') \<Longrightarrow>
    pool_ok R G p' \<and> pool_step p p' \<and> map (entry_sig R D v) es' = map (entry_sig R D v) es
      \<and> (\<not> ok \<longrightarrow> (\<Inter>e\<in>set es. entry_den R D v e) = {})"
proof (induction es arbitrary: p ok es' p')
  case (Cons e es)
  have e: "rk_child e < length D" "\<forall>e\<in>set es. rk_child e < length D" using Cons.prems(1) by auto
  show ?case
  proof (cases "rk_bits e \<noteq> None \<or> supports_direct (al_children r) (rk_child e)")
    case True
    obtain ok1 es1 p1 where m: "materialize_unsupported_remaining R r v es p = (ok1, es1, p1)"
      by (cases "materialize_unsupported_remaining R r v es p")
    from Cons.IH [OF e(2) Cons.prems(2) m] Cons.prems(3) True m show ?thesis by auto
  next
    case False
    obtain bits q where s: "co_search (al_children r ! rk_child e) v p (bm_new R) = (bits, q)"
      by (cases "co_search (al_children r ! rk_child e) v p (bm_new R)")
    obtain ok1 es1 p1 where m: "materialize_unsupported_remaining R r v es q = (ok1, es1, p1)"
      by (cases "materialize_unsupported_remaining R r v es q")
    have none: "rk_bits e = None" using False by simp
    note mat = materialized_entry [OF snd e(1) Cons.prems(2) none s]
    have den: "entry_den R D v e = bm_ids R bits" using mat(1) none by (simp add: entry_den_def)
    show ?thesis
    proof (cases "bm_is_empty R bits")
      case True
      with Cons.prems(3) False s mat(2-4) den show ?thesis by (auto simp: is_empty_iff Let_def)
    next
      case nonempty: False
      then have run: "ok = ok1" "p' = p1" "map (entry_sig R D v) es' = entry_sig R D v e # map (entry_sig R D v) es1"
        using Cons.prems(3) False s m mat(4) by (auto simp: Let_def)
      from Cons.IH [OF e(2) mat(2) m] pool_step_trans [OF mat(3)] show ?thesis unfolding run by auto
    qed
  qed
qed auto

lemma validate_candidates_sound:
  assumes snd: "all_sound R G r D" and es: "\<forall>e\<in>set es. rk_child e < length D" and p: "pool_ok R G p"
    and run: "validate_candidates R r v dst es p = (ok, dst', es', p')"
  shows "bm_ids R dst' = bm_ids R dst \<inter> (\<Inter>e\<in>set es. entry_den R D v e)" "ok \<longleftrightarrow> bm_ids R dst' \<noteq> {}"
    "pool_ok R G p'" "pool_step p p'" "length es' = length es" "entry_sig R D v ` set es' = entry_sig R D v ` set es"
proof -
  obtain ms q where m: "(if direct_id_complete r then (es, p) else snd (materialize_unsupported_remaining R r v es p)) = (ms, q)"
    by fastforce
  have mid: "pool_ok R G q \<and> pool_step p q \<and> map (entry_sig R D v) ms = map (entry_sig R D v) es"
  proof (cases "direct_id_complete r")
    case False
    then obtain ok1 where "materialize_unsupported_remaining R r v es p = (ok1, ms, q)"
      using m by (cases "materialize_unsupported_remaining R r v es p") auto
    from materialize_unsupported_sound [OF snd es p this] show ?thesis by blast
  qed (use m p in auto)
  have sig: "entry_sig R D v ` set ms = entry_sig R D v ` set es" using mid by (metis list.set_map)
  have "rk_child ` set ms = rk_child ` set es"
    using arg_cong [OF sig, of "\<lambda>X. fst ` X"] by (simp add: image_image entry_sig_def)
  then have child: "rk_child e < length D" if "e \<in> set ms" for e
    using that es by (metis (no_types, opaque_lifting) image_iff)
  have inter: "(\<Inter>e\<in>set ms. entry_den R D v e) = (\<Inter>e\<in>set es. entry_den R D v e)"
    using arg_cong [OF sig, of "\<lambda>X. \<Inter>(snd ` X)"] by (simp add: image_image entry_sig_def)
  let ?ord = "order_candidate_validation (al_children r) (bm_card R dst) ms"
  have acc: "list_all (accepts_id R r v x) ?ord \<longleftrightarrow> x \<in> (\<Inter>e\<in>set ms. entry_den R D v e)" for x
    using child by (simp add: list_all_iff accepts_id_iff [OF snd])
  have res: "p' = q" "es' = ?ord" "dst' = bm_or R (bm_new R) (foldl (bm_add R) (bm_new R)
      (filter (\<lambda>x. list_all (accepts_id R r v x) ?ord) (bm_to_list R dst)))" "ok \<longleftrightarrow> \<not> bm_is_empty R dst'"
    using run m by (auto simp: validate_candidates_def Let_def)
  show "bm_ids R dst' = bm_ids R dst \<inter> (\<Inter>e\<in>set es. entry_den R D v e)"
    unfolding res(3) acc inter by (auto simp: ids_or ids_new ids_foldl_add to_list_set)
  show "ok \<longleftrightarrow> bm_ids R dst' \<noteq> {}" using res(4) by (simp add: is_empty_iff)
  show "pool_ok R G p'" "pool_step p p'" using mid res(1) by auto
  show "length es' = length es" using mid res(2) by (metis length_map order_candidate_validation_def length_swap_sort)
  show "entry_sig R D v ` set es' = entry_sig R D v ` set es" using sig res(2) by simp
qed

end

section \<open>Narrowing\<close>

definition prefix_den :: "'b roaring \<Rightarrow> ('t \<Rightarrow> u32 set) list \<Rightarrow> 't \<Rightarrow> nat \<Rightarrow> 'b ranked list \<Rightarrow> u32 set" where
  "prefix_den R D v n es = (\<Inter>e\<in>set (take n es). entry_den R D v e)"

lemma prefix_den_Suc: "n < length es \<Longrightarrow> prefix_den R D v (Suc n) es = prefix_den R D v n es \<inter> entry_den R D v (es ! n)"
  by (auto simp: prefix_den_def take_Suc_conv_app_nth)

lemma prefix_den_all: "array_ok R r D v S es \<Longrightarrow> length es \<le> n \<Longrightarrow> prefix_den R D v n es = S"
  by (simp add: prefix_den_def array_okD(3))

lemma prefix_den_sub: "array_ok R r D v S es \<Longrightarrow> S \<subseteq> prefix_den R D v n es"
  using array_okD(3) [of R r D v S es] by (auto simp: prefix_den_def dest: in_set_takeD)

lemma prefix_den_drop: "array_ok R r D v S es \<Longrightarrow> prefix_den R D v n es \<inter> (\<Inter>e\<in>set (drop n es). entry_den R D v e) = S"
  unfolding prefix_den_def using array_okD(3) [of R r D v S es]
  by (metis INF_union append_take_drop_id set_append)

lemma prefix_den_1: "es \<noteq> [] \<Longrightarrow> prefix_den R D v (Suc 0) es = entry_den R D v (es ! 0)"
  by (cases es) (simp_all add: prefix_den_def)

text \<open>
  The invariant at the start of iteration \<open>i\<close>: the destination holds the intersection of the first
  \<open>i\<close> entries, except that the first bitmap enters it only with the second entry.
\<close>

definition loop_inv ::
  "'b roaring \<Rightarrow> ('t, 'v, 'b) all_rule \<Rightarrow> ('t \<Rightarrow> u32 set) list \<Rightarrow> 't \<Rightarrow> u32 set \<Rightarrow> nat \<Rightarrow> 'b \<Rightarrow> 'b ranked list \<Rightarrow> bool" where
  "loop_inv R r D v S i dst es \<longleftrightarrow> array_ok R r D v S es \<and> (0 < i \<longrightarrow> rk_bits (es ! 0) \<noteq> None)
     \<and> bm_ids R dst = (if i \<le> 1 then {} else prefix_den R D v i es)"

definition progress_ok ::
  "'b roaring \<Rightarrow> 'v valuation \<Rightarrow> ('t, 'v, 'b) all_rule \<Rightarrow> ('t \<Rightarrow> u32 set) list \<Rightarrow> 't \<Rightarrow> u32 set \<Rightarrow> ('v, 'b) pool \<Rightarrow> nat \<Rightarrow> nat \<Rightarrow> ('v, 'b) progress \<Rightarrow> bool"
where
  "progress_ok R G r D v S p n i pr \<longleftrightarrow>
     (case pr of
        Finished ok dst es q \<Rightarrow> array_ok R r D v S es \<and> length es = n \<and> pool_ok R G q \<and> pool_step p q
          \<and> (if ok then bm_ids R dst = S \<and> rk_bits (es ! 0) \<noteq> None else S = {})
      | Continue dst es q \<Rightarrow> loop_inv R r D v S (Suc i) dst es \<and> length es = n \<and> pool_ok R G q \<and> pool_step p q)"

lemma progress_ok_step: "progress_ok R G r D v S q n i pr \<Longrightarrow> pool_step p q \<Longrightarrow> progress_ok R G r D v S p n i pr"
  by (auto simp: progress_ok_def split: progress.splits intro: pool_step_trans)

lemma entry_den_bits: "rk_bits e = Some b \<Longrightarrow> entry_den R D v e = bm_ids R b"
  by (simp add: entry_den_def)

context roaring
begin

lemma finish_by_validation_ok:
  assumes snd: "all_sound R G r D" and arr: "array_ok R r D v S es" and n: "0 < n" "rk_bits (es ! 0) \<noteq> None"
    and dst: "bm_ids R dst = prefix_den R D v n es" and p: "pool_ok R G p"
  shows "progress_ok R G r D v S p (length es) i (finish_by_validation R r v n dst es p)"
proof -
  obtain ok dst' rest q where run: "validate_candidates R r v dst (drop n es) p = (ok, dst', rest, q)"
    by (metis prod_cases4)
  have child: "\<forall>e\<in>set (drop n es). rk_child e < length D" using array_okD(2) [OF arr] by (meson in_set_dropD)
  note val = validate_candidates_sound [OF snd child p run]
  have "array_ok R r D v S (take n es @ rest)" by (rule array_ok_drop [OF arr val(6)])
  moreover have "length (take n es @ rest) = length es" using val(5) by simp
  moreover have "bm_ids R dst' = S" using val(1) dst prefix_den_drop [OF arr] by simp
  moreover have "(take n es @ rest) ! 0 = es ! 0" using n(1) array_okD(1) [OF arr] by (cases es; cases n) auto
  ultimately show ?thesis
    using val n by (auto simp: finish_by_validation_def run progress_ok_def)
qed

lemma continue_or_validate_ok:
  assumes snd: "all_sound R G r D" and arr: "array_ok R r D v S es" and i: "0 < i" "rk_bits (es ! 0) \<noteq> None"
    and dst: "bm_ids R dst = prefix_den R D v (Suc i) es" and p: "pool_ok R G p"
  shows "progress_ok R G r D v S p (length es) i (continue_or_validate R r v i dst es p)"
  using finish_by_validation_ok [OF snd arr _ i(2) dst p] assms
  by (simp add: continue_or_validate_def progress_ok_def loop_inv_def)

lemma disjoint_ranges_empty: "bitmap_ranges_disjoint R a b \<Longrightarrow> bm_ids R a \<inter> bm_ids R b = {}"
  using disjoint_ranges [of a b] disjoint_ranges [of b a]
  by (auto simp: bitmap_ranges_disjoint_def is_empty_iff split: if_splits)

lemma narrow_by_ok:
  assumes snd: "all_sound R G r D" and arr: "array_ok R r D v S es" and i: "i < length es"
    and bits: "rk_bits (es ! i) = Some b" "rk_bits (es ! 0) \<noteq> None"
    and dst: "bm_ids R dst = (if i = 0 then {} else prefix_den R D v i es)" and p: "pool_ok R G p"
  shows "progress_ok R G r D v S p (length es) i (narrow_by R r v i dst es p)"
proof -
  have den: "entry_den R D v (es ! i) = bm_ids R b" by (rule entry_den_bits [OF bits(1)])
  have sub: "S \<subseteq> prefix_den R D v i es \<inter> bm_ids R b"
    using prefix_den_sub [OF arr, of "Suc i"] prefix_den_Suc [OF i, of R D v] den by simp
  have es: "0 < length es" by (rule le_less_trans [OF le0 i])
  consider "rk_card (es ! i) \<le> allCandidateScanLimit" | "\<not> rk_card (es ! i) \<le> allCandidateScanLimit" "i = 0"
    | "\<not> rk_card (es ! i) \<le> allCandidateScanLimit" "0 < i" by blast
  then show ?thesis
  proof cases
    case 1
    let ?es = "swap_nth 0 i es"
    note sw = swap_nth_props [OF es i]
    have "prefix_den R D v 1 ?es = bm_ids R b"
      using prefix_den_1 [of ?es R D v] sw(2,3) es den by (metis One_nat_def length_greater_0_conv)
    then have "progress_ok R G r D v S p (length ?es) i (finish_by_validation R r v 1 (bm_or R (bm_new R) b) ?es p)"
      by (intro finish_by_validation_ok [OF snd _ _ _ _ p]) (use arr es i sw bits in \<open>simp_all add: array_ok_swap ids_or ids_new\<close>)
    with 1 bits(1) sw(2) show ?thesis by (simp add: narrow_by_def)
  next
    case 2
    with arr bits dst p show ?thesis by (simp add: narrow_by_def progress_ok_def loop_inv_def)
  next
    case 3
    let ?cur = "if i = 1 then the (rk_bits (es ! 0)) else dst"
    have cur: "bm_ids R ?cur = prefix_den R D v i es"
      using dst 3(2) bits(2) prefix_den_1 [OF array_okD(1) [OF arr], of R D v] by (auto simp: entry_den_def)
    have stop: "progress_ok R G r D v S p (length es) i (Finished False d (disown es) p)" if "S = {}" for d
      using that array_ok_disown [OF arr] p by (simp add: progress_ok_def disown_def)
    have inter: "bm_ids R (bm_and R dst b) = prefix_den R D v (Suc i) es"
      using dst 3(2) prefix_den_Suc [OF i, of R D v] den by (simp add: ids_and)
    have nb: "narrow_by R r v i dst es p =
        (if should_prune_ranges p \<and> bitmap_ranges_disjoint R ?cur b then Finished False (bm_new R) (disown es) p
         else if bm_is_empty R (bm_and R dst b) then Finished False (bm_and R dst b) (disown es) p
         else continue_or_validate R r v i (bm_and R dst b) es p)"
      using 3 bits(1) by (simp add: narrow_by_def Let_def)
    show ?thesis
    proof (cases "should_prune_ranges p \<and> bitmap_ranges_disjoint R ?cur b")
      case True
      then have "bm_ids R ?cur \<inter> bm_ids R b = {}" by (intro disjoint_ranges_empty) blast
      then have "S = {}" unfolding cur using sub by blast
      from stop [OF this] show ?thesis unfolding nb if_P [OF True] .
    next
      case no: False
      show ?thesis
      proof (cases "bm_is_empty R (bm_and R dst b)")
        case True
        then have "S = {}" using inter prefix_den_sub [OF arr, of "Suc i"] by (simp add: is_empty_iff)
        from stop [OF this] show ?thesis unfolding nb if_not_P [OF no] if_P [OF True] .
      next
        case False
        from continue_or_validate_ok [OF snd arr 3(2) bits(2) inter p] show ?thesis
          unfolding nb if_not_P [OF no] if_not_P [OF False] .
      qed
    qed
  qed
qed

lemma materialize_and_narrow_ok:
  assumes snd: "all_sound R G r D" and arr: "array_ok R r D v S es" and i: "i < length es" "0 < i \<Longrightarrow> rk_bits (es ! 0) \<noteq> None"
    and dst: "bm_ids R dst = (if i = 0 then {} else prefix_den R D v i es)" and p: "pool_ok R G p"
  shows "progress_ok R G r D v S p (length es) i (materialize_and_narrow R r v i dst es p)"
proof (cases "rk_bits (es ! i)")
  case (Some b)
  from narrow_by_ok [OF snd arr i(1) Some _ dst p] i(2) Some show ?thesis
    by (cases "i = 0") (simp_all add: materialize_and_narrow_def)
next
  case None
  have child: "rk_child (es ! i) < length D" using array_okD(2) [OF arr] i(1) by simp
  obtain bits q where s: "co_search (al_children r ! rk_child (es ! i)) v p (bm_new R) = (bits, q)" by fastforce
  let ?e = "(es ! i)\<lparr>rk_bits := Some bits, rk_source := Scratch, rk_card := bm_card R bits, rk_owned := True\<rparr>"
  note mat = materialized_entry [OF snd child p None s]
  have arr': "array_ok R r D v S (es[i := ?e])" by (rule array_ok_update [OF arr i(1) mat(4)])
  show ?thesis
  proof (cases "bm_card R bits = 0")
    case True
    have "S \<subseteq> entry_den R D v (es ! i)" using array_okD(3) [OF arr] i(1) by auto
    then have "S = {}" using True mat(1) None by (simp add: card_zero_iff entry_den_def)
    with True None s mat(2,3) array_ok_disown [OF arr] show ?thesis
      by (simp add: materialize_and_narrow_def progress_ok_def disown_def Let_def)
  next
    case False
    have pre: "prefix_den R D v i (es[i := ?e]) = prefix_den R D v i es" by (simp add: prefix_den_def)
    have "rk_bits (es[i := ?e] ! 0) \<noteq> None" using i by (cases "i = 0") auto
    then have "progress_ok R G r D v S q (length (es[i := ?e])) i (narrow_by R r v i dst (es[i := ?e]) q)"
      by (intro narrow_by_ok [OF snd arr' _ _ _ _ mat(2)]) (use i dst pre in simp_all)
    from progress_ok_step [OF this mat(3)] False None s show ?thesis
      by (simp add: materialize_and_narrow_def Let_def)
  qed
qed

lemma filter_candidates_ids:
  assumes "all_sound R G r D" "array_ok R r D v S es" "e \<in> set es"
    and "filter_candidates r (rk_child e) v dst p = Some dst'"
  shows "bm_ids R dst' = bm_ids R dst \<inter> entry_den R D v e"
  using assms(4) array_okD(4) [OF assms(2,3)]
    static_okD(4) [OF ops_okD(3) [OF all_soundD(4) [OF assms(1) array_okD(2) [OF assms(2,3)]]]]
  by (auto simp: filter_candidates_def split: if_splits option.splits)

lemma intersect_step_ok:
  assumes snd: "all_sound R G r D" and inv: "loop_inv R r D v S i dst es" and i: "i < length es" and p: "pool_ok R G p"
  shows "progress_ok R G r D v S p (length es) i (intersect_step R r v i dst es p)"
proof (cases "i = 0")
  case True
  with inv materialize_and_narrow_ok [OF snd _ i _ _ p, of v S dst] show ?thesis
    by (simp add: intersect_step_def loop_inv_def)
next
  case pos: False
  have arr: "array_ok R r D v S es" and b0: "rk_bits (es ! 0) \<noteq> None"
    using inv pos by (auto simp: loop_inv_def)
  let ?j = "i + select_next_bitmap_operation R (drop i es)"
  have j: "?j < length es" using select_next_less [of "drop i es" R] i by simp
  let ?es = "swap_nth i ?j es"
  note sw = swap_nth_props [OF i j]
  have arr': "array_ok R r D v S ?es" by (simp add: array_ok_swap [OF i j] arr)
  have at0: "?es ! 0 = es ! 0" using sw(4) [of 0] pos by simp
  have "take i ?es = take i es" using pos by (simp add: swap_nth_def)
  then have pre: "prefix_den R D v i ?es = prefix_den R D v i es" by (simp add: prefix_den_def)
  define dst1 where "dst1 = (if i = 1 then bm_or R dst (the (rk_bits (?es ! 0))) else dst)"
  have dst1: "bm_ids R dst1 = prefix_den R D v i ?es"
    using inv pos b0 prefix_den_1 [OF array_okD(1) [OF arr], of R D v] unfolding pre dst1_def at0
    by (cases "i = 1") (auto simp: loop_inv_def ids_or entry_den_def)
  have mat: "progress_ok R G r D v S p (length es) i (materialize_and_narrow R r v i dst1 ?es p)"
    using materialize_and_narrow_ok [OF snd arr' _ _ _ p, of i dst1] i sw(2) b0 at0 dst1 pos by simp
  let ?filtered = "if should_filter_candidates R (bm_bytes R dst1) (?es ! i)
      then filter_candidates r (rk_child (?es ! i)) v dst1 p else None"
  have body: "intersect_step R r v i dst es p = (case ?filtered of None \<Rightarrow> materialize_and_narrow R r v i dst1 ?es p
      | Some d \<Rightarrow> (if bm_is_empty R d then Finished False d ?es p else continue_or_validate R r v i d ?es p))"
    using pos by (simp only: intersect_step_def Let_def dst1_def if_False)
  show ?thesis
  proof (cases ?filtered)
    case None
    from mat show ?thesis unfolding body None by simp
  next
    case (Some dst2)
    have "?es ! i \<in> set ?es" using i sw(2) by simp
    with Some filter_candidates_ids [OF snd arr'] have "bm_ids R dst2 = bm_ids R dst1 \<inter> entry_den R D v (?es ! i)"
      by (metis option.distinct(1))
    then have dst2: "bm_ids R dst2 = prefix_den R D v (Suc i) ?es"
      using dst1 prefix_den_Suc [of i ?es R D v] i sw(2) by simp
    have step: "intersect_step R r v i dst es p = (if bm_is_empty R dst2 then Finished False dst2 ?es p
        else continue_or_validate R r v i dst2 ?es p)"
      unfolding body Some by simp
    show ?thesis
    proof (cases "bm_is_empty R dst2")
      case True
      then have "S = {}" using dst2 prefix_den_sub [OF arr', of "Suc i"] by (simp add: is_empty_iff)
      with True arr' sw(2) p show ?thesis by (simp add: step progress_ok_def)
    next
      case False
      from continue_or_validate_ok [OF snd arr' _ _ dst2 p] pos b0 at0 sw(2) False show ?thesis by (simp add: step)
    qed
  qed
qed

lemma intersect_loop_ok:
  assumes snd: "all_sound R G r D"
  shows "loop_inv R r D v S i dst es \<Longrightarrow> i \<le> length es \<Longrightarrow> pool_ok R G p \<Longrightarrow>
    intersect_loop R r v [i..<length es] dst es p = (ok, dst', es', p') \<Longrightarrow>
    array_ok R r D v S es' \<and> length es' = length es \<and> pool_ok R G p' \<and> pool_step p p'
      \<and> (if ok then bm_ids R dst' = S \<and> rk_bits (es' ! 0) \<noteq> None else S = {})"
proof (induction "length es - i" arbitrary: i dst es p)
  case 0
  then have i: "i = length es" by simp
  have arr: "array_ok R r D v S es" using 0 by (simp add: loop_inv_def)
  have "0 < i" using array_okD(1) [OF arr] i by simp
  have b0: "rk_bits (es ! 0) \<noteq> None" using 0 i \<open>0 < i\<close> by (simp add: loop_inv_def)
  have "bm_ids R (if length es = 1 then bm_or R dst (the (rk_bits (es ! 0))) else dst) = S"
  proof (cases "length es = 1")
    case True
    then have "S = entry_den R D v (es ! 0)"
      using prefix_den_all [OF arr, of 1] prefix_den_1 [OF array_okD(1) [OF arr], of R D v] by simp
    with True 0 i b0 show ?thesis by (auto simp: loop_inv_def ids_or entry_den_def)
  next
    case False
    with 0 i \<open>0 < i\<close> prefix_den_all [OF arr, of i] show ?thesis by (auto simp: loop_inv_def)
  qed
  with 0 i arr b0 show ?case by auto
next
  case (Suc n)
  then have i: "i < length es" by simp
  have range: "[i..<length es] = i # [Suc i..<length es]" using i by (rule upt_conv_Cons)
  note step = intersect_step_ok [OF snd Suc.prems(1) i Suc.prems(3)]
  show ?case
  proof (cases "intersect_step R r v i dst es p")
    case (Finished ok1 dst1 es1 p1)
    with step Suc.prems(4) show ?thesis by (auto simp: range progress_ok_def)
  next
    case (Continue dst1 es1 p1)
    have c: "loop_inv R r D v S (Suc i) dst1 es1" "length es1 = length es" "pool_ok R G p1" "pool_step p p1"
      using step Continue by (auto simp: progress_ok_def)
    have run: "intersect_loop R r v [Suc i..<length es1] dst1 es1 p1 = (ok, dst', es', p')"
      using Suc.prems(4) Continue c(2) by (simp add: range)
    from Suc.hyps(1) [OF _ c(1) _ c(3) run] Suc.hyps(2) c(2) i pool_step_trans [OF c(4)] show ?thesis by auto
  qed
qed

end

end
