(* ===== verification/All_Groups.thy ===== *)
theory All_Groups
  imports All_Correctness
begin

text \<open>
  Children that share a wildcard object \<open>W\<close> are combined once, as \<open>W \<union> (A \<inter> B \<inter> \<dots>)\<close> of their
  concrete matches, instead of being intersected one by one; and the complete bitmap path of \<open>All\<close>
  that starts with this step.
\<close>

section \<open>The members of a group\<close>

definition child_group :: "nat list \<Rightarrow> 'b ranked list \<Rightarrow> nat \<Rightarrow> nat set" where
  "child_group gs es g = {i \<in> rk_child ` set es. gs ! i = g}"

definition concrete_of :: "'b roaring \<Rightarrow> ('t, 'v, 'b) all_rule \<Rightarrow> 't \<Rightarrow> nat \<Rightarrow> u32 set" where
  "concrete_of R r v i = sw_concrete R (the (co_shared (al_children r ! i))) v"

text \<open>What an entry denotes once its group has been combined.\<close>

definition combined_den ::
  "nat list \<Rightarrow> ('t \<Rightarrow> u32 set) list \<Rightarrow> 't \<Rightarrow> 'b ranked list \<Rightarrow> nat \<Rightarrow> u32 set" where
  "combined_den gs D v es i = (if gs ! i = 0 then (D ! i) v else (\<Inter>k\<in>child_group gs es (gs ! i). (D ! k) v))"

lemma combined_den_inter:
  "(\<Inter>e\<in>set es. combined_den gs D v es (rk_child e)) = (\<Inter>e\<in>set es. (D ! rk_child e) v)"
proof (intro antisym INF_greatest subsetI)
  fix e x assume e: "e \<in> set es" and x: "x \<in> (\<Inter>e\<in>set es. combined_den gs D v es (rk_child e))"
  then have "x \<in> combined_den gs D v es (rk_child e)" by blast
  with e show "x \<in> (D ! rk_child e) v" by (auto simp: combined_den_def child_group_def split: if_splits)
next
  fix e x assume "e \<in> set es" "x \<in> (\<Inter>e\<in>set es. (D ! rk_child e) v)"
  then show "x \<in> combined_den gs D v es (rk_child e)" by (auto simp: combined_den_def child_group_def)
qed

context roaring
begin

lemma member_shared:
  assumes snd: "all_sound R G r D" "al_groups r = Some gs" "i < length D" "gs ! i \<noteq> 0"
  obtains sw where "co_shared (al_children r ! i) = Some sw" "bm_ids R (sw_wildcard sw) \<noteq> {}" "shared_ok R sw (D ! i)"
proof -
  have "\<exists>sw. co_shared (al_children r ! i) = Some sw \<and> bm_ids R (sw_wildcard sw) \<noteq> {}"
    using all_soundD(7) [OF snd(1), unfolded groups_ok_def, rule_format, OF snd(2)] snd(3,4) all_soundD(2) [OF snd(1)]
    by simp
  with that static_okD(6) [OF ops_okD(3) [OF all_soundD(4) [OF snd(1,3)]]] show ?thesis by blast
qed

lemma member_den:
  assumes "all_sound R G r D" "al_groups r = Some gs" "i < length D" "gs ! i \<noteq> 0"
    and "k < length D" "gs ! k = gs ! i" "co_shared (al_children r ! i) = Some sw"
  shows "(D ! k) v = bm_ids R (sw_wildcard sw) \<union> concrete_of R r v k"
proof -
  obtain a where a: "co_shared (al_children r ! k) = Some a" "shared_ok R a (D ! k)"
    by (rule member_shared [OF assms(1,2,5)]) (use assms(4,6) in auto)
  have "bm_ids R (sw_wildcard a) = bm_ids R (sw_wildcard sw)"
    using all_soundD(7) [OF assms(1), unfolded groups_ok_def, rule_format, OF assms(2)] assms a all_soundD(2) [OF assms(1)]
    by metis
  with a show ?thesis unfolding shared_ok_def concrete_of_def by simp
qed

lemma intersect_members_ids:
  assumes snd: "all_sound R G r D" "al_groups r = Some gs" and g: "g \<noteq> 0"
  shows "\<forall>e\<in>set es. rk_child e < length D \<Longrightarrow>
    bm_ids R (intersect_members R r gs v g es bits) = bm_ids R bits \<inter> (\<Inter>k\<in>child_group gs es g. concrete_of R r v k)"
proof (induction es arbitrary: bits)
  case (Cons e es)
  have e: "rk_child e < length D" "\<forall>e\<in>set es. rk_child e < length D" using Cons.prems by auto
  show ?case
  proof (cases "ranked_group gs e = g")
    case False
    then have "child_group gs (e # es) g = child_group gs es g" by (auto simp: child_group_def ranked_group_def)
    with False Cons.IH [OF e(2)] show ?thesis by simp
  next
    case True
    then have ge: "gs ! rk_child e = g" by (simp add: ranked_group_def)
    obtain sw where sw: "co_shared (al_children r ! rk_child e) = Some sw" "shared_ok R sw (D ! rk_child e)"
      by (rule member_shared [OF snd e(1)]) (use ge g in auto)
    have ids: "bm_ids R (sw_intersect sw v bits) = bm_ids R bits \<inter> concrete_of R r v (rk_child e)"
      using sw by (simp add: shared_ok_def concrete_of_def)
    have grp: "child_group gs (e # es) g = insert (rk_child e) (child_group gs es g)"
      using ge by (auto simp: child_group_def)
    show ?thesis
    proof (cases "bm_is_empty R (sw_intersect sw v bits)")
      case empty: True
      with True sw have "intersect_members R r gs v g (e # es) bits = sw_intersect sw v bits"
        by (simp add: shared_of_def)
      with ids empty grp show ?thesis by (auto simp: is_empty_iff)
    next
      case False
      with True sw have "intersect_members R r gs v g (e # es) bits = intersect_members R r gs v g es (sw_intersect sw v bits)"
        by (simp add: shared_of_def)
      with Cons.IH [OF e(2)] ids grp show ?thesis by (simp add: Int_assoc)
    qed
  qed
qed (simp add: child_group_def)

end

section \<open>Combining the groups\<close>

text \<open>
  After \<open>k\<close> iterations, the entries of the groups met so far hold the combined result and all
  others are as they were.
\<close>

definition collected ::
  "'b roaring \<Rightarrow> nat list \<Rightarrow> ('t \<Rightarrow> u32 set) list \<Rightarrow> 't \<Rightarrow> 'b ranked list \<Rightarrow> nat \<Rightarrow> 'b ranked list \<Rightarrow> bool" where
  "collected R gs D v es0 k es \<longleftrightarrow> length es = length es0
     \<and> (\<forall>j<length es0. rk_child (es ! j) = rk_child (es0 ! j)
         \<and> (if ranked_group gs (es0 ! j) \<noteq> 0 \<and> (\<exists>m<k. ranked_group gs (es0 ! m) = ranked_group gs (es0 ! j))
            then \<exists>b. rk_bits (es ! j) = Some b \<and> bm_ids R b = combined_den gs D v es0 (rk_child (es0 ! j))
            else rk_bits (es ! j) = rk_bits (es0 ! j)))"

lemma collected_same:
  assumes "collected R gs D v es0 k es"
    and "ranked_group gs (es0 ! k) = 0 \<or> (\<exists>m<k. ranked_group gs (es0 ! m) = ranked_group gs (es0 ! k))"
  shows "collected R gs D v es0 (Suc k) es"
proof -
  have "(ranked_group gs (es0 ! j) \<noteq> 0 \<and> (\<exists>m<Suc k. ranked_group gs (es0 ! m) = ranked_group gs (es0 ! j))) =
    (ranked_group gs (es0 ! j) \<noteq> 0 \<and> (\<exists>m<k. ranked_group gs (es0 ! m) = ranked_group gs (es0 ! j)))" for j
    using assms(2) by (auto simp: less_Suc_eq)
  with assms(1) show ?thesis unfolding collected_def by presburger
qed

lemma collected_done:
  assumes "collected R gs D v es0 k es" "j < length es0" "ranked_group gs (es0 ! j) \<noteq> 0"
    and "m < k" "ranked_group gs (es0 ! m) = ranked_group gs (es0 ! j)"
  shows "\<exists>b. rk_bits (es ! j) = Some b \<and> bm_ids R b = combined_den gs D v es0 (rk_child (es0 ! j))"
proof -
  have "ranked_group gs (es0 ! j) \<noteq> 0 \<and> (\<exists>m<k. ranked_group gs (es0 ! m) = ranked_group gs (es0 ! j))"
    using assms by blast
  with assms(1,2) show ?thesis unfolding collected_def by presburger
qed

lemma collected_fresh:
  assumes "collected R gs D v es0 k es" "j < length es0"
    and "ranked_group gs (es0 ! j) = 0 \<or> \<not> (\<exists>m<k. ranked_group gs (es0 ! m) = ranked_group gs (es0 ! j))"
  shows "rk_bits (es ! j) = rk_bits (es0 ! j)"
proof -
  have "\<not> (ranked_group gs (es0 ! j) \<noteq> 0 \<and> (\<exists>m<k. ranked_group gs (es0 ! m) = ranked_group gs (es0 ! j)))"
    using assms(3) by auto
  with assms(1,2) show ?thesis unfolding collected_def by presburger
qed

lemma collected_children: "collected R gs D v es0 k es \<Longrightarrow> map rk_child es = map rk_child es0"
  by (auto simp: collected_def intro: nth_equalityI)

lemma child_group_cong: "map rk_child es = map rk_child es' \<Longrightarrow> child_group gs es g = child_group gs es' g"
  unfolding child_group_def by (metis list.set_map)

context roaring
begin

text \<open>The bitmap computed for the first member of a group is the result of the whole group.\<close>

lemma group_bits_ids:
  assumes snd: "all_sound R G r D" "al_groups r = Some gs" and lt: "\<forall>e\<in>set es. rk_child e < length D"
    and k: "k < length es" "ranked_group gs (es ! k) = g" "g \<noteq> 0" "\<not> (\<exists>m<k. ranked_group gs (es ! m) = g)"
    and sw: "co_shared (al_children r ! rk_child (es ! k)) = Some sw" "shared_ok R sw (D ! rk_child (es ! k))"
  shows "bm_ids R (bm_or R (intersect_members R r gs v g (drop (Suc k) es) (sw_add sw v (bm_new R))) (sw_wildcard sw))
    = (\<Inter>j\<in>child_group gs es g. (D ! j) v)"
proof -
  let ?i = "rk_child (es ! k)"
  have i: "?i < length D" "gs ! ?i = g" using lt k by (simp_all add: ranked_group_def)
  have rest: "\<forall>e\<in>set (drop (Suc k) es). rk_child e < length D" using lt by (meson in_set_dropD)
  have "child_group gs es g = child_group gs (take k es @ es ! k # drop (Suc k) es) g"
    using k by (simp add: id_take_nth_drop [symmetric])
  also have "\<dots> = child_group gs (take k es) g \<union> insert ?i (child_group gs (drop (Suc k) es) g)"
    using i(2) by (auto simp: child_group_def)
  also have "child_group gs (take k es) g = {}"
    using k by (auto simp: child_group_def ranked_group_def in_set_conv_nth)
  finally have split: "child_group gs es g = insert ?i (child_group gs (drop (Suc k) es) g)" by simp
  have den: "(D ! j) v = bm_ids R (sw_wildcard sw) \<union> concrete_of R r v j" if "j \<in> child_group gs es g" for j
    using that lt i k(3) by (intro member_den [OF snd i(1) _ _ _ sw(1)]) (auto simp: child_group_def)
  have "(\<Inter>j\<in>child_group gs es g. (D ! j) v)
      = (\<Inter>j\<in>child_group gs es g. bm_ids R (sw_wildcard sw) \<union> concrete_of R r v j)"
    by (rule INF_cong) (simp_all add: den)
  also have "\<dots> = bm_ids R (sw_wildcard sw) \<union> (\<Inter>j\<in>child_group gs es g. concrete_of R r v j)" by auto
  also have "\<dots> = bm_ids R (sw_wildcard sw) \<union> (concrete_of R r v ?i \<inter> (\<Inter>j\<in>child_group gs (drop (Suc k) es) g. concrete_of R r v j))"
    unfolding split by simp
  finally show ?thesis
    using sw by (simp add: ids_or intersect_members_ids [OF snd k(3) rest] shared_ok_def ids_new concrete_of_def Un_commute)
qed

lemma group_bits_None:
  assumes snd: "all_sound R G r D" "al_groups r = Some gs" and e: "fresh_entry R r D v True e" "ranked_group gs e \<noteq> 0"
  shows "rk_bits e = None"
proof -
  have i: "rk_child e < length D" using e(1) by (simp add: fresh_entry_def)
  obtain sw where sw: "co_shared (al_children r ! rk_child e) = Some sw" "bm_ids R (sw_wildcard sw) \<noteq> {}"
    by (rule member_shared [OF snd i]) (use e(2) in \<open>auto simp: ranked_group_def\<close>)
  have "lookup_planning r (al_children r ! rk_child e) v = None"
    using static_okD(8) [OF ops_okD(3) [OF all_soundD(4) [OF snd(1) i]] sw]
    by (auto simp: lookup_planning_def split: option.splits)
  with e(1) show ?thesis by (cases "rk_bits e") (auto simp: fresh_entry_def)
qed

lemma share_result_nth:
  fixes bits :: 'b
  assumes "k < length es" "j < length es" "j < k \<Longrightarrow> ranked_group gs (es ! j) \<noteq> g"
  defines "xs \<equiv> take k es @ map (share_result R gs g bits) (drop k es)"
  defines "ys \<equiv> xs[k := (xs ! k)\<lparr>rk_owned := True\<rparr>]"
  shows "length ys = length es" "rk_child (ys ! j) = rk_child (es ! j)"
    "rk_bits (ys ! j) = (if ranked_group gs (es ! j) = g then Some bits else rk_bits (es ! j))"
  using assms(1-3) unfolding ys_def xs_def
  by (cases "j < k"; cases "j = k"; simp add: nth_append share_result_def)+

lemma collect_at_collected:
  assumes snd: "all_sound R G r D" "al_groups r = Some gs" and es0: "entries_ok R r D v True es0"
    and c: "collected R gs D v es0 k es" and k: "k < length es0"
  shows "collected R gs D v es0 (Suc k) (collect_at R r gs v k es)"
proof -
  let ?g = "ranked_group gs (es0 ! k)"
  have kids: "map rk_child es = map rk_child es0" by (rule collected_children [OF c])
  have len: "length es = length es0" using c by (simp add: collected_def)
  have same: "rk_child (es ! j) = rk_child (es0 ! j)" "ranked_group gs (es ! j) = ranked_group gs (es0 ! j)"
    if "j < length es0" for j
    using c that by (auto simp: collected_def ranked_group_def)
  have "\<forall>i\<in>set (map rk_child es0). i < length D" using es0 by (simp add: entries_ok_def fresh_entry_def)
  then have lt: "\<forall>e\<in>set es. rk_child e < length D" unfolding kids [symmetric] by simp
  consider "?g = 0" | "?g \<noteq> 0" "\<exists>m<k. ranked_group gs (es0 ! m) = ?g"
    | "?g \<noteq> 0" "\<not> (\<exists>m<k. ranked_group gs (es0 ! m) = ?g)" by blast
  then show ?thesis
  proof cases
    case 1
    then have "collect_at R r gs v k es = es" by (simp add: collect_at_def same [OF k])
    with collected_same [OF c] 1 show ?thesis by simp
  next
    case 2
    then have "rk_bits (es ! k) \<noteq> None" using collected_done [OF c k] by blast
    then have "collect_at R r gs v k es = es" by (simp add: collect_at_def)
    with collected_same [OF c] 2 show ?thesis by simp
  next
    case 3
    have ik: "rk_child (es ! k) < length D" using lt k len by simp
    obtain sw where sw: "co_shared (al_children r ! rk_child (es ! k)) = Some sw" "shared_ok R sw (D ! rk_child (es ! k))"
      by (rule member_shared [OF snd ik]) (use 3(1) same [OF k] in \<open>auto simp: ranked_group_def\<close>)
    have "fresh_entry R r D v True (es0 ! k)" using es0 k by (simp add: entries_ok_def)
    then have none: "rk_bits (es ! k) = None"
      using collected_fresh [OF c k] 3 group_bits_None [OF snd _ 3(1)] by simp
    define bits where "bits = bm_or R (intersect_members R r gs v ?g (drop (Suc k) es) (sw_add sw v (bm_new R))) (sw_wildcard sw)"
    have run: "collect_at R r gs v k es = (let xs = take k es @ map (share_result R gs ?g bits) (drop k es)
        in xs[k := (xs ! k)\<lparr>rk_owned := True\<rparr>])"
      using 3(1) none sw(1) by (simp add: collect_at_def same [OF k] shared_of_def Let_def bits_def)
    have early: "\<not> (\<exists>m<k. ranked_group gs (es ! m) = ?g)" using 3(2) same(2) k by auto
    have ids: "bm_ids R bits = (\<Inter>j\<in>child_group gs es0 ?g. (D ! j) v)"
      unfolding bits_def child_group_cong [OF kids, symmetric]
      by (rule group_bits_ids [OF snd lt _ _ 3(1) early sw]) (use k len same in auto)
    have new: "length (collect_at R r gs v k es) = length es0" "rk_child (collect_at R r gs v k es ! j) = rk_child (es0 ! j)"
      "rk_bits (collect_at R r gs v k es ! j) = (if ranked_group gs (es0 ! j) = ?g then Some bits else rk_bits (es ! j))"
      if j: "j < length es0" for j
    proof -
      have jk: "k < length es" "j < length es" "j < k \<Longrightarrow> ranked_group gs (es ! j) \<noteq> ?g"
        using j k len early by auto
      note nth = share_result_nth [OF jk, of bits]
      show "length (collect_at R r gs v k es) = length es0" "rk_child (collect_at R r gs v k es ! j) = rk_child (es0 ! j)"
        "rk_bits (collect_at R r gs v k es ! j) = (if ranked_group gs (es0 ! j) = ?g then Some bits else rk_bits (es ! j))"
        using nth unfolding run Let_def same [OF j] len by simp_all
    qed
    have "rk_child (collect_at R r gs v k es ! j) = rk_child (es0 ! j)
         \<and> (if ranked_group gs (es0 ! j) \<noteq> 0 \<and> (\<exists>m<Suc k. ranked_group gs (es0 ! m) = ranked_group gs (es0 ! j))
            then \<exists>b. rk_bits (collect_at R r gs v k es ! j) = Some b \<and> bm_ids R b = combined_den gs D v es0 (rk_child (es0 ! j))
            else rk_bits (collect_at R r gs v k es ! j) = rk_bits (es0 ! j))" if j: "j < length es0" for j
    proof (cases "ranked_group gs (es0 ! j) = ?g")
      case True
      then have "combined_den gs D v es0 (rk_child (es0 ! j)) = bm_ids R bits"
        using 3(1) by (simp add: combined_den_def ranked_group_def ids)
      with True 3(1) new [OF j] show ?thesis by auto
    next
      case False
      then have "(\<exists>m<Suc k. ranked_group gs (es0 ! m) = ranked_group gs (es0 ! j)) =
          (\<exists>m<k. ranked_group gs (es0 ! m) = ranked_group gs (es0 ! j))" by (auto simp: less_Suc_eq)
      with False new [OF j] collected_done [OF c j] collected_fresh [OF c j] show ?thesis by auto
    qed
    with new(1) [OF k] show ?thesis unfolding collected_def by blast
  qed
qed

text \<open>All iterations, and the compaction that keeps one entry per group.\<close>

lemma collect_fold:
  assumes snd: "all_sound R G r D" "al_groups r = Some gs" and es0: "entries_ok R r D v True es0"
  shows "n \<le> length es0 \<Longrightarrow> collected R gs D v es0 n (fold (collect_at R r gs v) [0..<n] es0)"
proof (induction n)
  case 0
  then show ?case by (simp add: collected_def)
next
  case (Suc n)
  then have n: "n < length es0" by simp
  from collect_at_collected [OF snd es0 Suc.IH n] n show ?case by simp
qed

lemma collected_entry_den:
  assumes "collected R gs D v es0 (length es0) es" "entries_ok R r D v True es0" "e \<in> set es"
  shows "rk_child e < length D" "entry_den R D v e = combined_den gs D v es0 (rk_child e)"
proof -
  obtain j where j: "j < length es0" "e = es ! j" using assms(1,3) by (auto simp: in_set_conv_nth collected_def)
  have kid: "rk_child e = rk_child (es0 ! j)" using assms(1) j by (simp add: collected_def)
  have fr: "fresh_entry R r D v True (es0 ! j)" using assms(2) j by (simp add: entries_ok_def)
  with kid show "rk_child e < length D" by (simp add: fresh_entry_def)
  show "entry_den R D v e = combined_den gs D v es0 (rk_child e)"
  proof (cases "ranked_group gs (es0 ! j) = 0")
    case True
    with collected_fresh [OF assms(1) j(1)] fr kid j(2) show ?thesis
      by (auto simp: entry_den_def fresh_entry_def combined_den_def ranked_group_def split: option.split)
  next
    case False
    obtain b where "rk_bits e = Some b" "bm_ids R b = combined_den gs D v es0 (rk_child e)"
      using collected_done [OF assms(1) j(1) False j(1) refl] unfolding j(2) [symmetric] kid [symmetric] by blast
    then show ?thesis by (simp add: entry_den_def)
  qed
qed

end

lemma keep_one_per_group_subset: "set (keep_one_per_group gs kept es) \<subseteq> set kept \<union> set es"
  by (induction gs kept es rule: keep_one_per_group.induct) auto

lemma keep_one_per_group_kept: "set kept \<subseteq> set (keep_one_per_group gs kept es)"
  by (induction gs kept es rule: keep_one_per_group.induct) auto

lemma keep_one_per_group_length: "length (keep_one_per_group gs kept es) \<le> length kept + length es"
  by (induction gs kept es rule: keep_one_per_group.induct) auto

lemma keep_one_per_group_cover:
  "e \<in> set es \<Longrightarrow> \<exists>k\<in>set (keep_one_per_group gs kept es). k = e \<or>
     ranked_group gs e \<noteq> 0 \<and> ranked_group gs k = ranked_group gs e"
proof (induction gs kept es rule: keep_one_per_group.induct)
  case (2 gs kept x es)
  show ?case
  proof (cases "ranked_group gs x \<noteq> 0 \<and> list_ex (\<lambda>k. ranked_group gs k = ranked_group gs x) kept")
    case True
    then obtain k where k: "k \<in> set kept" "ranked_group gs k = ranked_group gs x" by (auto simp: list_ex_iff)
    then have "k \<in> set (keep_one_per_group gs kept es)" using keep_one_per_group_kept by blast
    with True k 2 show ?thesis by auto
  next
    case False
    have "x \<in> set (keep_one_per_group gs (kept @ [x]) es)" using keep_one_per_group_kept [of "kept @ [x]"] by auto
    with False 2 show ?thesis by auto
  qed
qed simp

context roaring
begin

lemma collect_shared_wildcards_ok:
  assumes snd: "all_sound R G r D" and gs: "al_groups r = Some gs" and es0: "entries_ok R r D v True es0"
    and run: "collect_shared_wildcards R r gs v es0 = (es, n)"
  shows "0 < n" "n \<le> length es" "length es = length es0"
    "array_ok R r D v (all_den D v) (take n es)" "array_ok R r D v (all_den D v) es"
proof -
  define cs where "cs = fold (collect_at R r gs v) [0..<length es0] es0"
  define kept where "kept = keep_one_per_group gs [] cs"
  have c: "collected R gs D v es0 (length es0) cs" unfolding cs_def by (rule collect_fold [OF snd gs es0 order_refl])
  have es: "es = kept @ drop (length kept) cs" "n = length kept"
    using run by (auto simp: collect_shared_wildcards_def Let_def cs_def kept_def)
  have sub: "set kept \<subseteq> set cs" and len: "length kept \<le> length cs" and lc: "length cs = length es0"
    using keep_one_per_group_subset [of gs "[]" cs] keep_one_per_group_length [of gs "[]" cs] c
    by (simp_all add: kept_def collected_def)
  have ne: "cs \<noteq> []" using lc es0 by (auto simp: entries_ok_def)
  note den = collected_entry_den [OF c es0]
  have whole: "(\<Inter>e\<in>set cs. entry_den R D v e) = all_den D v"
  proof -
    have "(\<Inter>e\<in>set cs. entry_den R D v e) = (\<Inter>i\<in>set (map rk_child cs). combined_den gs D v es0 i)"
      using den(2) by auto
    also have "\<dots> = (\<Inter>e\<in>set es0. combined_den gs D v es0 (rk_child e))"
      unfolding collected_children [OF c] by simp
    finally show ?thesis using es0 by (simp add: combined_den_inter entries_ok_def)
  qed
  have cover: "\<exists>k\<in>set kept. entry_den R D v k = entry_den R D v e" if e: "e \<in> set cs" for e
  proof -
    obtain k where k: "k \<in> set kept" "k = e \<or> ranked_group gs e \<noteq> 0 \<and> ranked_group gs k = ranked_group gs e"
      using keep_one_per_group_cover [OF e, of gs "[]"] unfolding kept_def by blast
    moreover have "entry_den R D v k = entry_den R D v e"
      using k(2) den(2) [OF e] den(2) [of k] k(1) sub by (auto simp: combined_den_def ranked_group_def)
    ultimately show ?thesis by blast
  qed
  have knon: "kept \<noteq> []" using cover [OF hd_in_set [OF ne]] by auto
  have filt: "entry_den R D v e = (D ! rk_child e) v"
    if e: "e \<in> set cs" "co_filter (al_children r ! rk_child e) \<noteq> None" for e
  proof -
    have "gs ! rk_child e = 0"
      using member_shared [OF snd gs den(1) [OF e(1)]] static_okD(9) [OF ops_okD(3) [OF all_soundD(4) [OF snd den(1) [OF e(1)]]]] e(2)
      by (metis option.distinct(1))
    with den(2) [OF e(1)] show ?thesis by (simp add: combined_den_def)
  qed
  have arr: "array_ok R r D v (all_den D v) xs" if xs: "set xs \<subseteq> set cs" "set kept \<subseteq> set xs" for xs
  proof (rule array_okI)
    show "xs \<noteq> []" using knon xs(2) by auto
    show "(\<Inter>e\<in>set xs. entry_den R D v e) = all_den D v"
      unfolding whole [symmetric]
    proof (intro antisym INF_greatest)
      fix e assume "e \<in> set cs"
      from cover [OF this] xs(2) show "(\<Inter>e\<in>set xs. entry_den R D v e) \<subseteq> entry_den R D v e" by blast
    next
      fix e assume "e \<in> set xs"
      with xs(1) show "(\<Inter>e\<in>set cs. entry_den R D v e) \<subseteq> entry_den R D v e" by blast
    qed
  qed (use den(1) filt xs(1) in blast)+
  show "0 < n" using knon by (simp add: es(2))
  show "n \<le> length es" "length es = length es0" using es len lc by simp_all
  have "set (drop (length kept) cs) \<subseteq> set cs" by (rule set_drop_subset)
  then show "array_ok R r D v (all_den D v) (take n es)" "array_ok R r D v (all_den D v) es"
    using sub by (auto simp: es intro!: arr)
qed

text \<open>\<open>intersectRankedInOrder\<close> as a whole.\<close>

lemma intersect_ranked_ok:
  assumes snd: "all_sound R G r D" and es: "entries_ok R r D v indexed es" and p: "pool_ok R G p"
    and idx: "po_local p = None \<longrightarrow> indexed" and dst: "bm_ids R dst = {}"
    and run: "intersect_ranked_in_order R r v dst es p = (ok, dst', es', p')"
  shows "array_ok R r D v (all_den D v) es'" "pool_ok R G p'" "pool_step p p'"
    "if ok then bm_ids R dst' = all_den D v \<and> rk_bits (es' ! 0) \<noteq> None else all_den D v = {}"
proof -
  obtain xs n where xs: "(case (if po_local p = None then al_groups r else None) of
      None \<Rightarrow> (es, length es) | Some gs \<Rightarrow> collect_shared_wildcards R r gs v es) = (xs, n)" by fastforce
  have xs_ok: "0 < n \<and> n \<le> length xs \<and> array_ok R r D v (all_den D v) (take n xs) \<and> array_ok R r D v (all_den D v) xs"
  proof (cases "if po_local p = None then al_groups r else None")
    case None
    with xs entries_array_ok [OF es] es show ?thesis by (auto simp: entries_ok_def)
  next
    case (Some gs)
    then have "al_groups r = Some gs" "indexed" "collect_shared_wildcards R r gs v es = (xs, n)"
      using idx xs by (auto split: if_splits)
    with collect_shared_wildcards_ok [OF snd, of gs v es xs n] es show ?thesis by simp
  qed
  obtain ok1 d1 front q where loop: "intersect_loop R r v [0..<n] dst (take n xs) p = (ok1, d1, front, q)"
    by (metis prod_cases4)
  have len: "length (take n xs) = n" using xs_ok by simp
  have inv: "loop_inv R r D v (all_den D v) 0 dst (take n xs)" using xs_ok dst by (simp add: loop_inv_def)
  note fin = intersect_loop_ok [OF snd inv _ p, unfolded len, OF _ loop]
  have res: "ok = ok1" "dst' = d1" "es' = front @ drop n xs" "p' = q"
    using run unfolding intersect_ranked_in_order_def xs by (simp_all add: loop)
  have fr: "array_ok R r D v (all_den D v) front" "0 < length front" using fin xs_ok by auto
  have ax: "array_ok R r D v (all_den D v) xs" using xs_ok by blast
  show "array_ok R r D v (all_den D v) es'"
  proof (rule array_okI)
    fix e assume "e \<in> set es'"
    then have "e \<in> set front \<or> e \<in> set xs" by (auto simp: res dest: in_set_dropD)
    then show "rk_child e < length D"
      and "co_filter (al_children r ! rk_child e) \<noteq> None \<Longrightarrow> entry_den R D v e = (D ! rk_child e) v"
      using array_okD(2,4) [OF fr(1), of e] array_okD(2,4) [OF ax, of e] by blast+
  next
    have tail: "all_den D v \<subseteq> entry_den R D v e" if "e \<in> set (drop n xs)" for e
      using array_okD(3) [OF ax] in_set_dropD [OF that] by blast
    show "(\<Inter>e\<in>set es'. entry_den R D v e) = all_den D v"
      using tail array_okD(3) [OF fr(1)] by (auto simp: res INF_union)
  qed (use fr(2) in \<open>auto simp: res\<close>)
  show "pool_ok R G p'" "pool_step p p'" using fin by (auto simp: res)
  show "if ok then bm_ids R dst' = all_den D v \<and> rk_bits (es' ! 0) \<noteq> None else all_den D v = {}"
    using fin fr(2) by (auto simp: res nth_append split: if_splits)
qed

end

end
