(* ===== verification/Index_Search.thy ===== *)
theory Index_Search
  imports All_Groups
begin

text \<open>
  \<open>Index.search\<close> and the search of the root \<open>All\<close> (\<^verbatim>\<open>index_search.go\<close>, \<^verbatim>\<open>search_materialization.go\<close>):
  candidates, exclusions, and the translation of internal IDs to the caller's. The inspector
  variants of the root are left out. IDs are appended to the caller's slice, which is a list here.
\<close>

section \<open>Exclusion rules\<close>

text \<open>\<open>exclusionRule\<close>; what it forbids for a query is \<open>E\<close>.\<close>

record ('t, 'v, 'b) exclusion_ops =
  xo_exclude :: "'t \<Rightarrow> ('v, 'b) pool \<Rightarrow> 'b \<Rightarrow> 'b \<times> ('v, 'b) pool"
  xo_is_excluded :: "'t \<Rightarrow> u32 \<Rightarrow> bool"

definition exclusion_ok ::
  "'b roaring \<Rightarrow> 'v valuation \<Rightarrow> ('t, 'v, 'b) exclusion_ops \<Rightarrow> ('t \<Rightarrow> u32 set) \<Rightarrow> bool" where
  "exclusion_ok R G x E \<longleftrightarrow>
     (\<forall>v p dst dst' p'. pool_ok R G p \<longrightarrow> xo_exclude x v p dst = (dst', p') \<longrightarrow>
        bm_ids R dst' = bm_ids R dst \<union> E v \<and> pool_ok R G p' \<and> pool_step p p')
     \<and> (\<forall>v i. xo_is_excluded x v i \<longleftrightarrow> i \<in> E v)"

fun add_exclusions ::
  "('t, 'v, 'b) exclusion_ops list \<Rightarrow> 't \<Rightarrow> 'b \<Rightarrow> ('v, 'b) pool \<Rightarrow> 'b \<times> ('v, 'b) pool" where
  "add_exclusions [] v dst p = (dst, p)"
| "add_exclusions (x # xs) v dst p = (case xo_exclude x v p dst of (dst, p) \<Rightarrow> add_exclusions xs v dst p)"

definition is_excluded :: "('t, 'v, 'b) exclusion_ops list \<Rightarrow> 't \<Rightarrow> u32 \<Rightarrow> bool" where
  "is_excluded xs v i = list_ex (\<lambda>x. xo_is_excluded x v i) xs"

text \<open>Few candidates are tested one by one; then there is no exclusion bitmap.\<close>

definition build_all_exclusions ::
  "'b roaring \<Rightarrow> ('t, 'v, 'b) exclusion_ops list \<Rightarrow> 't \<Rightarrow> u64 \<Rightarrow> ('v, 'b) pool \<Rightarrow> 'b option \<times> ('v, 'b) pool" where
  "build_all_exclusions R xs v candidates p =
     (let direct = (candidates \<le> allDirectExclusionScanLimit \<and> candidates \<le> allCandidateScanLimit)
      in if length xs = 0 \<or> direct then (None, p)
         else case add_exclusions xs v (bm_new R) p of (dst, p) \<Rightarrow> (Some dst, p))"

section \<open>Candidates\<close>

fun materialize_rest ::
  "'b roaring \<Rightarrow> ('t, 'v, 'b) all_rule \<Rightarrow> 't \<Rightarrow> 'b \<Rightarrow> bool \<Rightarrow> 'b ranked list \<Rightarrow> ('v, 'b) pool
     \<Rightarrow> bool \<times> 'b ranked list \<times> ('v, 'b) pool" where
  "materialize_rest R r v first second_is_next [] p = (True, [], p)"
| "materialize_rest R r v first second_is_next (e # es) p =
     (case co_search (al_children r ! rk_child e) v p (bm_new R) of
        (bits, p) \<Rightarrow>
          (let e = e\<lparr>rk_bits := Some bits, rk_source := Scratch, rk_card := bm_card R bits, rk_owned := True\<rparr>
           in if bm_is_empty R bits then (False, e # es, p)
              else if second_is_next \<and> should_prune_ranges p \<and> bitmap_ranges_disjoint R first bits
                   then (False, e # es, p)
              else case materialize_rest R r v first False es p of (ok, es, p) \<Rightarrow> (ok, e # es, p)))"

text \<open>
  The candidate bitmap exists exactly when the search starts broad. Otherwise the first child is
  materialized, and, if it turns out broad after all, every other child too.
\<close>

definition keep_or_materialize ::
  "'b roaring \<Rightarrow> ('t, 'v, 'b) all_rule \<Rightarrow> 't \<Rightarrow> 'b ranked \<Rightarrow> 'b ranked list \<Rightarrow> ('v, 'b) pool
     \<Rightarrow> bool \<times> 'b option \<times> 'b ranked list \<times> ('v, 'b) pool" where
  "keep_or_materialize R r v e es p =
     (if direct_id_complete r then (True, None, e # es, p)
      else case materialize_unsupported_remaining R r v es p of (ok, es, p) \<Rightarrow> (ok, None, e # es, p))"

definition prepare_ranked_candidates ::
  "'b roaring \<Rightarrow> ('t, 'v, 'b) all_rule \<Rightarrow> 't \<Rightarrow> 'b ranked list \<Rightarrow> ('v, 'b) pool
     \<Rightarrow> bool \<times> 'b option \<times> 'b ranked list \<times> ('v, 'b) pool" where
  "prepare_ranked_candidates R r v es p =
     (let e = hd es
      in if allCandidateScanLimit < rk_card e
         then case intersect_ranked_in_order R r v (bm_new R) es p of
                (ok, dst, es, p) \<Rightarrow> (ok, Some dst, es, p)
         else if rk_bits e \<noteq> None then keep_or_materialize R r v e (tl es) p
         else case co_search (al_children r ! rk_child e) v p (bm_new R) of
                (bits, p) \<Rightarrow>
                  (let e = e\<lparr>rk_bits := Some bits, rk_source := Scratch, rk_card := bm_card R bits, rk_owned := True\<rparr>
                   in if rk_card e \<le> allCandidateScanLimit then keep_or_materialize R r v e (tl es) p
                      else case materialize_rest R r v bits True (tl es) p of
                             (ok, es, p) \<Rightarrow> (ok, None, e # es, p)))"

section \<open>Results\<close>

definition external_ids :: "'id list \<Rightarrow> u32 list \<Rightarrow> 'id list" where
  "external_ids values ids = map (\<lambda>i. values ! unat i) ids"

text \<open>\<open>Iterate\<close> below 4096 IDs and batches of \<open>ManyIterator\<close> above: the same sequence.\<close>

definition append_bitmap_values :: "'b roaring \<Rightarrow> 'b \<Rightarrow> 'id list \<Rightarrow> 'id list \<Rightarrow> 'id list" where
  "append_bitmap_values R bits values result = result @ external_ids values (bm_to_list R bits)"

definition and_not_excluded :: "'b roaring \<Rightarrow> 'b option \<Rightarrow> 'b \<Rightarrow> 'b" where
  "and_not_excluded R excluded bits = (case excluded of None \<Rightarrow> bits | Some x \<Rightarrow> bm_and_not R bits x)"

fun and_until_empty :: "'b roaring \<Rightarrow> 'b ranked list \<Rightarrow> 'b \<Rightarrow> 'b" where
  "and_until_empty R [] bits = bits"
| "and_until_empty R (e # es) bits =
     (if bm_is_empty R bits then bits else and_until_empty R es (bm_and R bits (the (rk_bits e))))"

definition append_bitmap_all_matches ::
  "'b roaring \<Rightarrow> 'b ranked list \<Rightarrow> 'b option \<Rightarrow> 'id list \<Rightarrow> 'id list \<Rightarrow> 'id list" where
  "append_bitmap_all_matches R es excluded values result =
     (let bits = (if 8 < length es
                  then and_until_empty R (tl es) (bm_or R (bm_new R) (the (rk_bits (hd es))))
                  else bm_fast_and R (map (\<lambda>e. the (rk_bits e)) es))
      in append_bitmap_values R (and_not_excluded R excluded bits) values result)"

definition append_scanned_all_matches ::
  "'b roaring \<Rightarrow> ('t, 'v, 'b) all_rule \<Rightarrow> 'b ranked list \<Rightarrow> ('t, 'v, 'b) exclusion_ops list \<Rightarrow> 'b option \<Rightarrow> 't
     \<Rightarrow> 'id list \<Rightarrow> 'id list \<Rightarrow> 'id list" where
  "append_scanned_all_matches R r es exclusions excluded v values result =
     result @ external_ids values
       (filter (\<lambda>i. \<not> (case excluded of Some x \<Rightarrow> bm_contains R x i | None \<Rightarrow> is_excluded exclusions v i)
                    \<and> list_all (accepts_id R r v i) (tl es))
          (bm_to_list R (the (rk_bits (hd es)))))"

section \<open>The root\<close>

definition append_broad_matches ::
  "'b roaring \<Rightarrow> 'b ranked list \<Rightarrow> 'b option \<Rightarrow> ('v, 'b) all_result option \<Rightarrow> 'b option \<Rightarrow> 'id list \<Rightarrow> 'id list \<Rightarrow> 'id list"
where
  "append_broad_matches R es candidates cached excluded values result =
     (case (cached, candidates) of
        (Some c, _) \<Rightarrow>
          (if excluded = None then result @ external_ids values (ar_ids c)
           else append_bitmap_values R (and_not_excluded R excluded (bm_or R (bm_new R) (ar_bits c))) values result)
      | (None, Some b) \<Rightarrow> append_bitmap_values R (and_not_excluded R excluded b) values result
      | (None, None) \<Rightarrow> append_bitmap_all_matches R es excluded values result)"

definition search_all_matches ::
  "'b roaring \<Rightarrow> ('t, 'v, 'b) all_rule \<Rightarrow> 'id list \<Rightarrow> ('t, 'v, 'b) exclusion_ops list \<Rightarrow> 't \<Rightarrow> 'id list \<Rightarrow> ('v, 'b) pool
     \<Rightarrow> 'id list \<times> ('v, 'b) pool" where
  "search_all_matches R r values exclusions v result p =
     (case (if exclusions = [] then load_local_query_result r v p else None) of
        Some cached \<Rightarrow> (result @ external_ids values (ar_ids cached), p)
      | None \<Rightarrow>
          (case rank_children R r v (replicate (length (al_children r)) empty_ranked) p of
             (None, p) \<Rightarrow> (result, p)
           | (Some es, p) \<Rightarrow>
               (if es = [] then (result, p)
                else
                  (let es = (if al_class_count r \<noteq> 0 \<and> (po_local p = None \<or> rk_bits (hd es) = None)
                             then drop_equal_classes r v es else es);
                       cached = (if allCandidateScanLimit < rk_card (hd es) then load_local_result r es p else None)
                   in case (if cached = None then prepare_ranked_candidates R r v es p else (True, None, es, p)) of
                        (ok, candidates, es, p) \<Rightarrow>
                          (if \<not> ok then (result, p)
                           else
                             (let p = (case candidates of None \<Rightarrow> p | Some c \<Rightarrow> store_local_result R r es c v p)
                              in case build_all_exclusions R exclusions v (rk_card (hd es)) p of
                                   (excluded, p) \<Rightarrow>
                                     (if allCandidateScanLimit < rk_card (hd es)
                                      then append_broad_matches R es candidates cached excluded values result
                                      else append_scanned_all_matches R r es exclusions excluded v values result, p)))))))"

text \<open>A published index; the root is an \<open>All\<close> or a single filter.\<close>

datatype ('t, 'v, 'b) root = All_Root "('t, 'v, 'b) all_rule" | Leaf_Root "('t, 'v, 'b) child_ops"

record ('t, 'v, 'b, 'id) index =
  ix_root :: "('t, 'v, 'b) root"
  ix_values :: "'id list"
  ix_nodes :: nat
  ix_exclusions :: "('t, 'v, 'b) exclusion_ops list"

definition index_search ::
  "'b roaring \<Rightarrow> ('t, 'v, 'b, 'id) index \<Rightarrow> 't \<Rightarrow> 'id list \<Rightarrow> ('v, 'b) pool \<Rightarrow> bool \<times> 'id list \<times> ('v, 'b) pool" where
  "index_search R ix v dst p =
     (case (case ix_root ix of
              All_Root r \<Rightarrow> search_all_matches R r (ix_values ix) (ix_exclusions ix) v dst p
            | Leaf_Root c \<Rightarrow>
                (case co_search c v p (bm_new R) of
                   (bits, p) \<Rightarrow>
                     (if ix_exclusions ix \<noteq> []
                      then case add_exclusions (ix_exclusions ix) v (bm_new R) p of
                             (excluded, p) \<Rightarrow> (append_bitmap_values R (bm_and_not R bits excluded) (ix_values ix) dst, p)
                      else (append_bitmap_values R bits (ix_values ix) dst, p)))) of
        (result, p) \<Rightarrow> (length result \<noteq> length dst, result, p))"

text \<open>\<open>Index.Search\<close>: every call has its own scratch pool and no caches.\<close>

definition index_Search :: "'b roaring \<Rightarrow> ('t, 'v, 'b, 'id) index \<Rightarrow> 't \<Rightarrow> 'id list \<Rightarrow> bool \<times> 'id list" where
  "index_Search R ix v dst = (case index_search R ix v dst index_pool of (found, result, _) \<Rightarrow> (found, result))"

end
