(* ===== verification/Search_Correctness.thy ===== *)
theory Search_Correctness
  imports Index_Search
begin

text \<open>
  An \<open>Index\<close> search appends exactly the external IDs of the internal IDs that every child matches and
  no exclusion forbids, in ascending order of the internal IDs.
\<close>

section \<open>Exclusions\<close>

definition exclusions_ok ::
  "'b roaring \<Rightarrow> 'v valuation \<Rightarrow> ('t, 'v, 'b) exclusion_ops list \<Rightarrow> ('t \<Rightarrow> u32 set) list \<Rightarrow> bool" where
  "exclusions_ok R G xs Es \<longleftrightarrow> list_all2 (exclusion_ok R G) xs Es"

definition excluded_den :: "('t \<Rightarrow> u32 set) list \<Rightarrow> 't \<Rightarrow> u32 set" where
  "excluded_den Es v = (\<Union>E\<in>set Es. E v)"

lemma add_exclusions_ids:
  "list_all2 (exclusion_ok R G) xs Es \<Longrightarrow> pool_ok R G p \<Longrightarrow> add_exclusions xs v dst p = (dst', p') \<Longrightarrow>
     bm_ids R dst' = bm_ids R dst \<union> excluded_den Es v \<and> pool_ok R G p' \<and> pool_step p p'"
proof (induction xs Es arbitrary: dst p rule: list_all2_induct)
  case Nil
  then show ?case by (simp add: excluded_den_def)
next
  case (Cons x xs E Es)
  obtain d q where x: "xo_exclude x v p dst = (d, q)" by fastforce
  have "bm_ids R d = bm_ids R dst \<union> E v \<and> pool_ok R G q \<and> pool_step p q"
    using Cons.hyps(1) Cons.prems(1) x unfolding exclusion_ok_def by blast
  with Cons.IH [of q d] Cons.prems(2) x pool_step_trans show ?case by (auto simp: excluded_den_def)
qed

lemma is_excluded_iff: "list_all2 (exclusion_ok R G) xs Es \<Longrightarrow> is_excluded xs v i \<longleftrightarrow> i \<in> excluded_den Es v"
  unfolding is_excluded_def
  by (induction rule: list_all2_induct) (auto simp: excluded_den_def exclusion_ok_def)

lemma exclusions_empty: "list_all2 P [] Es \<Longrightarrow> excluded_den Es v = {}"
  by (simp add: excluded_den_def)

context roaring
begin

lemma build_all_exclusions_ok:
  assumes "exclusions_ok R G xs Es" "pool_ok R G p" "build_all_exclusions R xs v n p = (excluded, p')"
  shows "pool_ok R G p'" "pool_step p p'" "\<And>x. excluded = Some x \<Longrightarrow> bm_ids R x = excluded_den Es v"
    "excluded = None \<Longrightarrow> allCandidateScanLimit < n \<Longrightarrow> excluded_den Es v = {}"
proof -
  obtain d q where a: "add_exclusions xs v (bm_new R) p = (d, q)" by fastforce
  note ids = add_exclusions_ids [OF assms(1) [unfolded exclusions_ok_def] assms(2) a]
  show "pool_ok R G p'" "pool_step p p'" "\<And>x. excluded = Some x \<Longrightarrow> bm_ids R x = excluded_den Es v"
    "excluded = None \<Longrightarrow> allCandidateScanLimit < n \<Longrightarrow> excluded_den Es v = {}"
    using assms ids a by (auto simp: build_all_exclusions_def ids_new exclusions_ok_def excluded_den_def split: if_splits)
qed

section \<open>Candidates\<close>

lemma materialize_rest_ok:
  assumes snd: "all_sound R G r D"
  shows "\<forall>e\<in>set es. rk_child e < length D \<Longrightarrow> pool_ok R G p \<Longrightarrow> X \<subseteq> bm_ids R first \<Longrightarrow>
    materialize_rest R r v first second es0 p = (ok, es', p') \<Longrightarrow> es0 = es \<Longrightarrow>
    pool_ok R G p' \<and> pool_step p p' \<and> length es' = length es
      \<and> (if ok then map rk_child es' = map rk_child es \<and> (\<forall>e\<in>set es'. \<exists>b. rk_bits e = Some b \<and> bm_ids R b = (D ! rk_child e) v)
         else X \<inter> (\<Inter>e\<in>set es. (D ! rk_child e) v) = {})"
proof (induction es arbitrary: p second ok es' p' es0)
  case (Cons e es)
  have e: "rk_child e < length D" "\<forall>e\<in>set es. rk_child e < length D" using Cons.prems(1) by auto
  obtain bits q where s: "co_search (al_children r ! rk_child e) v p (bm_new R) = (bits, q)" by fastforce
  note srch = search_okD [OF ops_okD(1) [OF all_soundD(4) [OF snd e(1)]] Cons.prems(2) ids_new s]
  obtain ok1 es1 p1 where m: "materialize_rest R r v first False es q = (ok1, es1, p1)" by (metis prod_cases3)
  consider "bm_is_empty R bits" | "\<not> bm_is_empty R bits" "second \<and> should_prune_ranges q \<and> bitmap_ranges_disjoint R first bits"
    | "\<not> bm_is_empty R bits" "\<not> (second \<and> should_prune_ranges q \<and> bitmap_ranges_disjoint R first bits)" by blast
  then show ?case
  proof cases
    case 1
    with Cons.prems(4,5) s srch show ?thesis by (auto simp: Let_def is_empty_iff)
  next
    case 2
    then have "bm_ids R first \<inter> bm_ids R bits = {}" using disjoint_ranges_empty by blast
    with 2 Cons.prems(3-5) s srch show ?thesis by (auto simp: Let_def)
  next
    case 3
    then have run: "ok = ok1" "p' = p1" "es' = e\<lparr>rk_bits := Some bits, rk_source := Scratch, rk_card := bm_card R bits, rk_owned := True\<rparr> # es1"
      using Cons.prems(4,5) s m by (auto simp: Let_def split: if_splits)
    note IH = Cons.IH [OF e(2) srch(2) Cons.prems(3) m refl]
    have "X \<inter> (\<Inter>e\<in>set (e # es). (D ! rk_child e) v) = {}" if "\<not> ok1"
      using IH that by simp blast
    with IH pool_step_trans [OF srch(3)] srch(1) show ?thesis unfolding run by simp
  qed
qed auto

text \<open>What the array and the candidate bitmap hold when candidates have been prepared.\<close>

definition prepared_ok ::
  "('t, 'v, 'b) all_rule \<Rightarrow> ('t \<Rightarrow> u32 set) list \<Rightarrow> 't \<Rightarrow> 'b option \<Rightarrow> 'b ranked list \<Rightarrow> bool" where
  "prepared_ok r D v candidates es \<longleftrightarrow> array_ok R r D v (all_den D v) es
     \<and> (\<forall>b. candidates = Some b \<longrightarrow> bm_ids R b = all_den D v)
     \<and> (rk_card (hd es) \<le> allCandidateScanLimit \<longrightarrow> rk_bits (hd es) \<noteq> None)
     \<and> (allCandidateScanLimit < rk_card (hd es) \<longrightarrow> candidates = None \<longrightarrow> (\<forall>e\<in>set es. rk_bits e \<noteq> None))"

lemma keep_or_materialize_ok:
  assumes snd: "all_sound R G r D" and arr: "array_ok R r D v (all_den D v) (e # es)" and p: "pool_ok R G p"
    and e: "rk_bits e \<noteq> None" "rk_card e \<le> allCandidateScanLimit"
    and run: "keep_or_materialize R r v e es p = (ok, candidates, es', p')"
  shows "pool_ok R G p'" "pool_step p p'" "if ok then prepared_ok r D v candidates es' else all_den D v = {}"
proof -
  obtain ok1 es1 p1 where m: "materialize_unsupported_remaining R r v es p = (ok1, es1, p1)" by (metis prod_cases3)
  have child: "\<forall>e\<in>set es. rk_child e < length D" using array_okD(2) [OF arr] by simp
  note mat = materialize_unsupported_sound [OF snd child p m]
  have "set (map (entry_sig R D v) es1) = set (map (entry_sig R D v) es)" using mat by simp
  then have "entry_sig R D v ` set (e # es1) = entry_sig R D v ` set (e # es)" by simp
  from array_ok_cong [OF this] arr have arr1: "array_ok R r D v (all_den D v) (e # es1)" by blast
  have empty: "all_den D v = {}" if "\<not> ok1" using mat that array_okD(3) [OF arr] by auto
  show "pool_ok R G p'" "pool_step p p'" "if ok then prepared_ok r D v candidates es' else all_den D v = {}"
    using run m mat p arr arr1 empty e unfolding keep_or_materialize_def prepared_ok_def
    by (auto split: if_splits)
qed

lemma prepare_candidates_ok:
  assumes snd: "all_sound R G r D" and es: "entries_ok R r D v indexed es" and p: "pool_ok R G p"
    and idx: "po_local p = None \<longrightarrow> indexed"
    and run: "prepare_ranked_candidates R r v es p = (ok, candidates, es', p')"
  shows "pool_ok R G p'" "pool_step p p'" "if ok then prepared_ok r D v candidates es' else all_den D v = {}"
proof -
  have arr: "array_ok R r D v (all_den D v) es" by (rule entries_array_ok [OF es])
  obtain e rest where cons: "es = e # rest" using array_okD(1) [OF arr] by (cases es) auto
  have child: "rk_child e < length D" "\<forall>x\<in>set rest. rk_child x < length D" using array_okD(2) [OF arr] by (auto simp: cons)
  have "pool_ok R G p' \<and> pool_step p p' \<and> (if ok then prepared_ok r D v candidates es' else all_den D v = {})"
  proof (cases "allCandidateScanLimit < rk_card e")
    case True
    obtain ok1 dst es1 p1 where i: "intersect_ranked_in_order R r v (bm_new R) es p = (ok1, dst, es1, p1)" by (metis prod_cases4)
    note int = intersect_ranked_ok [OF snd es p idx ids_new i]
    have "hd es1 = es1 ! 0" using array_okD(1) [OF int(1)] by (rule hd_conv_nth)
    with int run True i cons show ?thesis by (auto simp: prepare_ranked_candidates_def prepared_ok_def)
  next
    case small: False
    show ?thesis
    proof (cases "rk_bits e")
      case (Some b)
      have "keep_or_materialize R r v e rest p = (ok, candidates, es', p')"
        using run small Some cons by (simp add: prepare_ranked_candidates_def)
      from keep_or_materialize_ok [OF snd _ p _ _ this] arr Some small cons show ?thesis by auto
    next
      case None
      obtain bits q where s: "co_search (al_children r ! rk_child e) v p (bm_new R) = (bits, q)" by fastforce
      note mat = materialized_entry [OF snd child(1) p None s]
      let ?e = "e\<lparr>rk_bits := Some bits, rk_source := Scratch, rk_card := bm_card R bits, rk_owned := True\<rparr>"
      have "array_ok R r D v (all_den D v) (es[0 := ?e])"
        by (rule array_ok_update [OF arr]) (simp add: cons, simp only: cons nth_Cons_0 mat(4))
      then have arr1: "array_ok R r D v (all_den D v) (?e # rest)" by (simp add: cons)
      show ?thesis
      proof (cases "bm_card R bits \<le> allCandidateScanLimit")
        case True
        have "keep_or_materialize R r v ?e rest q = (ok, candidates, es', p')"
          using run small None cons s True by (simp add: prepare_ranked_candidates_def)
        from keep_or_materialize_ok [OF snd arr1 mat(2) _ _ this] True pool_step_trans [OF mat(3)] show ?thesis by auto
      next
        case False
        obtain ok1 es1 p1 where m: "materialize_rest R r v bits True rest q = (ok1, es1, p1)" by (metis prod_cases3)
        have res: "ok = ok1" "candidates = None" "es' = ?e # es1" "p' = p1"
          using run small None cons s False m by (auto simp: prepare_ranked_candidates_def Let_def)
        note mr = materialize_rest_ok [OF snd child(2) mat(2) order_refl m refl]
        have all: "all_den D v = bm_ids R bits \<inter> (\<Inter>e\<in>set rest. (D ! rk_child e) v)"
          using es mat(1) unfolding entries_ok_def cons by simp
        have "prepared_ok r D v None (?e # es1)" if "ok1"
        proof -
          have kids: "map rk_child es1 = map rk_child rest"
            and den: "\<forall>e\<in>set es1. \<exists>b. rk_bits e = Some b \<and> bm_ids R b = (D ! rk_child e) v" using mr that by auto
          have d1: "\<forall>x\<in>set (?e # es1). entry_den R D v x = (D ! rk_child x) v \<and> rk_child x < length D"
          proof
            fix x assume x: "x \<in> set (?e # es1)"
            have "set (map rk_child es1) \<subseteq> {..<length D}" unfolding kids using child(2) by auto
            with x den mat(1) child(1) show "entry_den R D v x = (D ! rk_child x) v \<and> rk_child x < length D"
              by (auto simp: entry_den_def)
          qed
          have "(\<Inter>x\<in>set es1. (D ! rk_child x) v) = (\<Inter>i\<in>set (map rk_child es1). (D ! i) v)" by simp
          also have "\<dots> = (\<Inter>x\<in>set rest. (D ! rk_child x) v)" unfolding kids by simp
          finally have "(\<Inter>x\<in>set (?e # es1). entry_den R D v x) = all_den D v"
            using d1 mat(1) by (simp add: all)
          with d1 have "array_ok R r D v (all_den D v) (?e # es1)" by (intro array_okI) auto
          with den show ?thesis by (fastforce simp: prepared_ok_def)
        qed
        with mr all pool_step_trans [OF mat(3)] show ?thesis unfolding res by auto
      qed
    qed
  qed
  then show "pool_ok R G p'" "pool_step p p'" "if ok then prepared_ok r D v candidates es' else all_den D v = {}" by auto
qed

section \<open>Results\<close>

lemma and_not_excluded_ids:
  "bm_ids R (and_not_excluded R excluded b) = bm_ids R b - (case excluded of None \<Rightarrow> {} | Some x \<Rightarrow> bm_ids R x)"
  by (simp add: and_not_excluded_def ids_and_not split: option.split)

lemma append_bitmap_values_eq:
  "append_bitmap_values R b values result = result @ external_ids values (sorted_list_of_set (bm_ids R b))"
  by (simp add: append_bitmap_values_def to_list_eq)

lemma and_until_empty_ids:
  "bm_ids R (and_until_empty R es b) = bm_ids R b \<inter> (\<Inter>e\<in>set es. bm_ids R (the (rk_bits e)))"
  by (induction es arbitrary: b) (auto simp: is_empty_iff ids_and)

lemma append_bitmap_all_eq:
  assumes "array_ok R r D v S es" "\<forall>e\<in>set es. rk_bits e \<noteq> None"
  shows "append_bitmap_all_matches R es excluded values result
    = result @ external_ids values (sorted_list_of_set (S - (case excluded of None \<Rightarrow> {} | Some x \<Rightarrow> bm_ids R x)))"
proof -
  have den: "entry_den R D v e = bm_ids R (the (rk_bits e))" if "e \<in> set es" for e
    using that assms(2) by (auto simp: entry_den_def)
  have S: "S = (\<Inter>e\<in>set es. bm_ids R (the (rk_bits e)))"
    unfolding array_okD(3) [OF assms(1), symmetric] by (rule INF_cong) (simp_all add: den)
  have "bm_ids R (if 8 < length es then and_until_empty R (tl es) (bm_or R (bm_new R) (the (rk_bits (hd es))))
      else bm_fast_and R (map (\<lambda>e. the (rk_bits e)) es)) = S"
    unfolding S using array_okD(1) [OF assms(1)]
    by (cases es) (auto simp: and_until_empty_ids ids_or ids_new ids_fast_and)
  then show ?thesis
    by (simp add: append_bitmap_all_matches_def Let_def append_bitmap_values_eq and_not_excluded_ids)
qed

lemma filter_sorted_set:
  assumes "finite (A :: u32 set)"
  shows "filter P (sorted_list_of_set A) = sorted_list_of_set {x \<in> A. P x}"
proof -
  have "sorted_list_of_set (set (filter P (sorted_list_of_set A))) = filter P (sorted_list_of_set A)"
    by (rule sorted_list_of_set.idem_if_sorted_distinct) (simp_all add: sorted_wrt_filter)
  with assms show ?thesis by simp
qed

lemma append_scanned_eq:
  assumes snd: "all_sound R G r D" and xs: "exclusions_ok R G xs Es"
    and arr: "array_ok R r D v S es" "rk_bits (hd es) \<noteq> None"
    and ex: "\<And>x. excluded = Some x \<Longrightarrow> bm_ids R x = excluded_den Es v"
  shows "append_scanned_all_matches R r es xs excluded v values result
    = result @ external_ids values (sorted_list_of_set (S - excluded_den Es v))"
proof -
  obtain e rest where cons: "es = e # rest" using array_okD(1) [OF arr(1)] by (cases es) auto
  obtain b where b: "rk_bits e = Some b" using arr(2) by (auto simp: cons)
  have acc: "list_all (accepts_id R r v i) rest \<longleftrightarrow> (\<forall>x\<in>set rest. i \<in> entry_den R D v x)" for i
    using array_okD(2) [OF arr(1)] accepts_id_iff [OF snd] by (simp add: list_all_iff cons)
  have forb: "(case excluded of Some x \<Rightarrow> bm_contains R x i | None \<Rightarrow> is_excluded xs v i) \<longleftrightarrow> i \<in> excluded_den Es v" for i
    using ex is_excluded_iff [OF xs [unfolded exclusions_ok_def]] by (simp add: contains_iff split: option.split)
  have "{i \<in> bm_ids R b. i \<notin> excluded_den Es v \<and> (\<forall>x\<in>set rest. i \<in> entry_den R D v x)} = S - excluded_den Es v"
    using array_okD(3) [OF arr(1)] b by (auto simp: cons entry_den_def)
  then show ?thesis
    by (simp add: append_scanned_all_matches_def cons b acc forb to_list_eq filter_sorted_set)
qed

end

section \<open>The root\<close>

definition root_sound ::
  "'b roaring \<Rightarrow> 'v valuation \<Rightarrow> ('t, 'v, 'b) root \<Rightarrow> ('t \<Rightarrow> u32 set) list \<Rightarrow> bool" where
  "root_sound R G root D \<longleftrightarrow>
     (case root of All_Root r \<Rightarrow> all_sound R G r D | Leaf_Root c \<Rightarrow> (\<exists>d. D = [d] \<and> ops_ok R G c d))"

definition index_den :: "('t \<Rightarrow> u32 set) list \<Rightarrow> ('t \<Rightarrow> u32 set) list \<Rightarrow> 't \<Rightarrow> u32 set" where
  "index_den D Es v = all_den D v - excluded_den Es v"

context roaring
begin

lemma search_all_matches_index:
  fixes p :: "('v, 'b) pool"
  assumes snd: "all_sound R G r D" and xs: "exclusions_ok R G xs Es" and p: "pool_ok R G p" "po_local p = None"
  shows "fst (search_all_matches R r values xs v result p)
    = result @ external_ids values (sorted_list_of_set (index_den D Es v))"
proof -
  have len: "length (al_children r) = length D" by (rule all_soundD(2) [OF snd])
  obtain ro p1 where rank: "rank_children R r v (replicate (length (al_children r)) empty_ranked) p = (ro, p1)" by fastforce
  have fresh: "length (replicate (length (al_children r)) (empty_ranked :: 'b ranked)) = length D"
    "\<forall>e\<in>set (replicate (length (al_children r)) (empty_ranked :: 'b ranked)). rk_bits e = None"
    by (simp_all add: len empty_ranked_def)
  note rk = rank_children_index [OF snd p fresh rank]
  have local1: "po_local p1 = None" using rk(2) p(2) by (simp add: pool_step_def)
  have no_query: "(if xs = [] then load_local_query_result r v p else None) = None"
    using p(2) by (simp add: load_local_query_result_def)
  show ?thesis
  proof (cases ro)
    case None
    with rk(3) have "index_den D Es v = {}" by (simp add: index_den_def)
    with None show ?thesis by (simp add: search_all_matches_def no_query rank external_ids_def)
  next
    case (Some es0)
    have ne: "es0 \<noteq> []" and es0: "entries_ok R r D v True es0"
      using ranked_ok_entries [OF rk(4) [OF Some] all_soundD(3) [OF snd]] by (auto simp: entries_ok_def)
    define es where "es = (if al_class_count r \<noteq> 0 \<and> (po_local p1 = None \<or> rk_bits (hd es0) = None)
        then drop_equal_classes r v es0 else es0)"
    have es: "entries_ok R r D v True es"
      using es0 deduplicate_entries_ok [OF snd es0] by (simp add: es_def drop_equal_classes_def)
    have no_cache: "load_local_result r es p1 = None" using local1 by (simp add: load_local_result_def)
    obtain ok cands es1 p2 where prep: "prepare_ranked_candidates R r v es p1 = (ok, cands, es1, p2)" by (metis prod_cases4)
    note pc = prepare_candidates_ok [OF snd es rk(1) _ prep]
    have local2: "po_local p2 = None" using pc(2) local1 by (simp add: pool_step_def)
    show ?thesis
    proof (cases ok)
      case False
      with pc(3) have "index_den D Es v = {}" by (simp add: index_den_def)
      with False show ?thesis
        by (simp add: search_all_matches_def no_query rank Some ne es_def [symmetric] Let_def no_cache prep external_ids_def)
    next
      case True
      obtain excluded p3 where be: "build_all_exclusions R xs v (rk_card (hd es1)) p2 = (excluded, p3)" by fastforce
      have pok2: "pool_ok R G p2" using pc(1) by simp
      note bx = build_all_exclusions_ok [OF xs pok2 be]
      have prepared: "prepared_ok r D v cands es1" using pc(3) True by simp
      have store: "(case cands of None \<Rightarrow> p2 | Some c \<Rightarrow> store_local_result R r es1 c v p2) = p2"
        using local2 by (simp add: store_local_result_def split: option.split)
      have run: "fst (search_all_matches R r values xs v result p) =
          (if allCandidateScanLimit < rk_card (hd es1)
           then append_broad_matches R es1 cands (None :: ('v, 'b) all_result option) excluded values result
           else append_scanned_all_matches R r es1 xs excluded v values result)"
        using True by (simp add: search_all_matches_def no_query rank Some ne es_def [symmetric] Let_def no_cache prep store be)
      show ?thesis
      proof (cases "allCandidateScanLimit < rk_card (hd es1)")
        case broad: True
        have sub: "(case excluded of None \<Rightarrow> {} | Some x \<Rightarrow> bm_ids R x) = excluded_den Es v"
          using bx(3,4) broad by (simp split: option.split)
        show ?thesis
        proof (cases cands)
          case None
          have bits: "\<forall>e\<in>set es1. rk_bits e \<noteq> None" and arr: "array_ok R r D v (all_den D v) es1"
            using prepared broad None by (auto simp: prepared_ok_def)
          show ?thesis
            by (simp add: run broad append_broad_matches_def None append_bitmap_all_eq [OF arr bits] sub index_den_def)
        next
          case (Some b)
          with prepared show ?thesis
            by (simp add: run broad append_broad_matches_def prepared_ok_def append_bitmap_values_eq and_not_excluded_ids
                sub index_den_def)
        qed
      next
        case False
        have "array_ok R r D v (all_den D v) es1" "rk_bits (hd es1) \<noteq> None"
          using prepared False by (auto simp: prepared_ok_def)
        from append_scanned_eq [OF snd xs this bx(3)] False show ?thesis by (simp add: run index_den_def)
      qed
    qed
  qed
qed

lemma index_search_exact:
  assumes "root_sound R G (ix_root ix) D" "exclusions_ok R G (ix_exclusions ix) Es"
  shows "index_Search R ix v dst =
    (index_den D Es v \<noteq> {}, dst @ external_ids (ix_values ix) (sorted_list_of_set (index_den D Es v)))"
proof -
  have "fst (snd (index_search R ix v dst index_pool)) = dst @ external_ids (ix_values ix) (sorted_list_of_set (index_den D Es v))"
  proof (cases "ix_root ix")
    case (All_Root r)
    have "po_local (index_pool :: ('a, 'b) pool) = None" by (simp add: index_pool_def)
    with search_all_matches_index [OF _ assms(2) pool_ok_index, of r D "ix_values ix" v dst] assms(1) All_Root show ?thesis
      by (auto simp: index_search_def root_sound_def split: prod.splits)
  next
    case (Leaf_Root c)
    then obtain d where d: "D = [d]" "ops_ok R G c d" using assms(1) by (auto simp: root_sound_def)
    obtain bits p where s: "co_search c v index_pool (bm_new R) = (bits, p)" by fastforce
    note srch = search_okD [OF ops_okD(1) [OF d(2)] pool_ok_index ids_new s]
    obtain x q where a: "add_exclusions (ix_exclusions ix) v (bm_new R) p = (x, q)" by fastforce
    note ex = add_exclusions_ids [OF assms(2) [unfolded exclusions_ok_def] srch(2) a]
    show ?thesis
    proof (cases "ix_exclusions ix = []")
      case True
      then have "excluded_den Es v = {}" using assms(2) by (simp add: exclusions_ok_def excluded_den_def)
      with True Leaf_Root s srch(1) d(1) show ?thesis
        by (simp add: index_search_def append_bitmap_values_eq index_den_def all_den_def)
    next
      case False
      with Leaf_Root s srch(1) d(1) a ex show ?thesis
        by (simp add: index_search_def append_bitmap_values_eq index_den_def all_den_def ids_and_not ids_new)
    qed
  qed
  moreover have "fst (index_search R ix v dst index_pool) \<longleftrightarrow> length (fst (snd (index_search R ix v dst index_pool))) \<noteq> length dst"
    by (simp add: index_search_def split: prod.split)
  ultimately show ?thesis
    by (auto simp: index_Search_def external_ids_def split: prod.splits)
qed

end

end
