(* ===== verification/Build_Index.thy ===== *)
theory Build_Index
  imports Equality_Antonym Shared_Groups Search_Correctness
begin

text \<open>
  \<open>buildIndex\<close> (\<^verbatim>\<open>builder.go\<close>) for schemas without inspectors and lossy policies: entries are validated and
  inserted in order under dense internal IDs, the tree is optimized, exclusions leave the positive
  tree, bitmaps are interned, equality classes and antonyms are compiled and the searches prepared.
  The steps that only concern inspectors (\<open>stripInspectors\<close>, the observed root, snapshots), lossy
  policies (which \<open>Lossy_Policy\<close> models on their own) and build statistics do not occur.
\<close>

section \<open>Entries\<close>

text \<open>
  What \<open>Build\<close> reports: a nil sequence, the 2^32 limit, or the error of the entry with the given index.
  \<open>Source_Overflow\<close> is the panic of the interner.
\<close>

datatype build_error = Nil_Entries | Too_Many_Rules | Entry_Error nat rule_error | Source_Overflow

text \<open>The callback of \<open>entries\<close>; \<open>ids\<close> is \<open>internalIDs\<close>, \<open>values\<close> the external IDs by internal ID.\<close>

fun build_entries ::
  "'b roaring \<Rightarrow> 'b rule_tree \<Rightarrow> ('t \<times> 'id) list \<Rightarrow> nat \<Rightarrow> ('id \<rightharpoonup> u32) \<Rightarrow> 'id list \<Rightarrow> ('t, 'v, 'k, 'b) leaf list
     \<Rightarrow> build_error + 'id list \<times> ('t, 'v, 'k, 'b) leaf list" where
  "build_entries R tree [] n ids values ls = Inr (values, ls)"
| "build_entries R tree ((c, external) # es) n ids values ls =
     (if (4294967295 :: u64) < of_nat (length values) then Inl Too_Many_Rules
      else case tree_validate ls tree c of
             Some e \<Rightarrow> Inl (Entry_Error n e)
           | None \<Rightarrow>
               (case ids external of
                  Some i \<Rightarrow> build_entries R tree es (Suc n) ids values (tree_insert R c i tree ls)
                | None \<Rightarrow>
                    (let i = of_nat (length values)
                     in build_entries R tree es (Suc n) (ids(external \<mapsto> i)) (values @ [external]) (tree_insert R c i tree ls))))"

section \<open>The published tree\<close>

text \<open>The root that remains once exclusions are out of it, and the exclusions.\<close>

definition build_root ::
  "'b roaring \<Rightarrow> ('t, 'v, 'k, 'b) leaf list \<Rightarrow> u64 \<Rightarrow> 'b rule_tree \<Rightarrow> 'b rule_tree \<times> nat list" where
  "build_root R ls rules tree =
     (let root = optimize R ls rules (optimize R ls rules tree);
          exclusions = collect_exclusion_rules ls root
      in if exclusions = [] then (root, [])
         else (case remove_exclusion_rules R ls (bm_add_range R (bm_new R) 0 rules) root of
                 All_Node object cs \<Rightarrow> (All_Node object cs, exclusions)
               | other \<Rightarrow> (All_Node 0 [other], exclusions)))"

text \<open>An optimized tree has no \<open>All\<close> below its root. A match-all rule keeps no source number.\<close>

fun tree_children :: "('t, 'v, 'k, 'b) leaf list \<Rightarrow> 'b rule_tree \<Rightarrow> ('t, 'v, 'k, 'b) child list" where
  "tree_children ls (Leaf_Node n) = [Filter_Child (ls ! n)]"
| "tree_children ls (Match_All_Node bits) = [Match_All_Child bits 0]"
| "tree_children ls (All_Node object cs) = concat (map (tree_children ls) cs)"

text \<open>The \<open>exclusionRule\<close> interface of an \<open>Exclude\<close> filter.\<close>

fun published_exclusion :: "'b roaring \<Rightarrow> ('t, 'v, 'k, 'b) leaf \<Rightarrow> ('t, 'v, 'b) exclusion_ops" where
  "published_exclusion R (Exclusion_Leaf r) = \<lparr>xo_exclude = nt_exclude R r, xo_is_excluded = nt_is_excluded R r\<rparr>"
| "published_exclusion R _ = \<lparr>xo_exclude = \<lambda>v p dst. (dst, p), xo_is_excluded = \<lambda>v i. False\<rparr>"

text \<open>\<open>prepareSearch\<close> of the root \<open>All\<close>.\<close>

definition prepare_all :: "'b roaring \<Rightarrow> ('t, 'v, 'k, 'b) child list \<Rightarrow> u32 \<Rightarrow> ('t, 'v, 'b) all_rule" where
  "prepare_all R cs classes =
     (let ops = map (published_ops R) (map (child_prepare R) cs)
      in \<lparr>al_self = 0, al_children = ops, al_class_count = classes, al_groups = prepare_shared_groups R ops\<rparr>)"

definition publish_root ::
  "'b roaring \<Rightarrow> ('t, 'v, 'k, 'b) leaf list \<Rightarrow> 'b rule_tree \<Rightarrow> 'b interner
     \<Rightarrow> (('t, 'v, 'b) root \<times> 'b interner) option" where
  "publish_root R ls tree I =
     (case thread (child_intern R) (tree_children ls tree) I of
        None \<Rightarrow> None
      | Some (cs, I) \<Rightarrow>
          (case tree of
             All_Node object _ \<Rightarrow>
               (case compile_equality_classes cs of
                  (cs, classes) \<Rightarrow> Some (All_Root (prepare_all R (compile_antonyms R cs) classes), I))
           | _ \<Rightarrow> Some (Leaf_Root (published_ops R (child_prepare R (hd cs))), I)))"

definition publish_exclusions ::
  "'b roaring \<Rightarrow> ('t, 'v, 'k, 'b) leaf list \<Rightarrow> nat list \<Rightarrow> 'b interner \<Rightarrow> ('t, 'v, 'b) exclusion_ops list option" where
  "publish_exclusions R ls exclusions I =
     (case thread (leaf_intern R) (map (\<lambda>n. ls ! n) exclusions) I of
        None \<Rightarrow> None
      | Some (xs, I) \<Rightarrow> Some (map (published_exclusion R) (map (leaf_prepare R) xs)))"

definition publish ::
  "'b roaring \<Rightarrow> ('t, 'v, 'k, 'b) leaf list \<Rightarrow> 'b rule_tree \<Rightarrow> nat list
     \<Rightarrow> (('t, 'v, 'b) root \<times> ('t, 'v, 'b) exclusion_ops list) option" where
  "publish R ls tree exclusions =
     (case publish_root R ls tree new_interner of
        None \<Rightarrow> None
      | Some (root, I) \<Rightarrow>
          (case publish_exclusions R ls exclusions I of None \<Rightarrow> None | Some xs \<Rightarrow> Some (root, xs)))"

text \<open>\<open>None\<close> is a nil sequence of entries.\<close>

definition new_allocator :: "('t, 'v, 'k, 'b) allocator" where
  "new_allocator = \<lparr>al_filters = [], al_canonical = Map.empty\<rparr>"

definition build_index ::
  "'b roaring \<Rightarrow> ('t, 'v, 'k) schema \<Rightarrow> ('t \<times> 'id) list option \<Rightarrow> build_error + ('t, 'v, 'b, 'id) index" where
  "build_index R schema entries =
     (case entries of
        None \<Rightarrow> Inl Nil_Entries
      | Some es \<Rightarrow>
          (case new_state schema new_allocator of
             (tree, ids) \<Rightarrow>
               (case build_entries R tree es 0 Map.empty [] (initial_leaves R (al_filters ids)) of
                  Inl e \<Rightarrow> Inl e
                | Inr (values, ls) \<Rightarrow>
                    (case build_root R ls (of_nat (length values)) tree of
                       (tree, exclusions) \<Rightarrow>
                         (case publish R ls tree exclusions of
                            None \<Rightarrow> Inl Source_Overflow
                          | Some (root, xs) \<Rightarrow>
                              Inr \<lparr>ix_root = root, ix_values = values, ix_nodes = length (al_filters ids),
                                   ix_exclusions = xs\<rparr>)))))"

text \<open>\<open>Zip\<close>: \<open>None\<close> is the panic.\<close>

definition Zip :: "'t list \<Rightarrow> 'id list \<Rightarrow> ('t \<times> 'id) list option" where
  "Zip constraints ids = (if length constraints \<noteq> length ids then None else Some (zip constraints ids))"

text \<open>For evaluation on small universes.\<close>

lemma list_add_range_code [code]:
  "list_add_range b lo hi = b @ filter (\<lambda>i. lo \<le> ucast i \<and> ucast i < hi)
     (map of_nat (if hi \<le> 4294967296 then [unat lo ..< unat hi] else [unat lo ..< 4294967296]))"
proof -
  have "min (unat hi) (2 ^ 32) = (if hi \<le> 4294967296 then unat hi else 4294967296)"
    by (simp add: word_le_nat_alt min_def)
  then show ?thesis by (simp add: list_add_range_def)
qed

end
