(* ===== verification/Build_Entries.thy ===== *)
theory Build_Entries
  imports Build_Index
begin

text \<open>
  The entry loop of \<open>buildIndex\<close>: it stops at the first entry that a filter rejects, and otherwise every
  filter has every constraint under the internal ID of its external ID, which is its position in the
  order of first insertion.
\<close>

section \<open>Internal IDs\<close>

definition unique_ids :: "'id list \<Rightarrow> ('t \<times> 'id) list \<Rightarrow> 'id list" where
  "unique_ids vs es = foldl (\<lambda>vs x. if x \<in> set vs then vs else vs @ [x]) vs (map snd es)"

lemma unique_ids_simps [simp]:
  "unique_ids vs [] = vs"
  "unique_ids vs ((c, x) # es) = unique_ids (if x \<in> set vs then vs else vs @ [x]) es"
  by (simp_all add: unique_ids_def)

lemma set_unique_ids: "set (unique_ids vs es) = set vs \<union> snd ` set es"
proof (induction es arbitrary: vs)
  case (Cons e es)
  obtain c x where "e = (c, x)" by (cases e)
  with Cons.IH [of vs] Cons.IH [of "vs @ [x]"] show ?case by auto
qed simp

lemma distinct_unique_ids: "distinct vs \<Longrightarrow> distinct (unique_ids vs es)"
  by (induction es arbitrary: vs) auto

definition ids_ok :: "'id list \<Rightarrow> ('id \<rightharpoonup> u32) \<Rightarrow> bool" where
  "ids_ok vs ids \<longleftrightarrow> distinct vs \<and> length vs \<le> 2 ^ 32 \<and> (\<forall>x i. ids x = Some i \<longleftrightarrow> unat i < length vs \<and> vs ! unat i = x)"

text \<open>The constraints stored so far, by internal ID.\<close>

definition stored :: "'id list \<Rightarrow> ('t \<times> 'id) list \<Rightarrow> ('t \<times> u32) set" where
  "stored vs es = {(c, i). unat i < length vs \<and> (c, vs ! unat i) \<in> set es}"

lemma ids_ok_new:
  assumes "ids_ok vs ids" "ids x = None" "length vs < 2 ^ 32"
  shows "ids_ok (vs @ [x]) (ids(x \<mapsto> of_nat (length vs)))" "x \<notin> set vs" "unat (of_nat (length vs) :: u32) = length vs"
proof -
  have len: "unat (of_nat (length vs) :: u32) = length vs" using assms(3) by (simp add: unsigned_of_nat take_bit_nat_eq_self)
  show "unat (of_nat (length vs) :: u32) = length vs" by (rule len)
  have ids: "ids y = Some i \<longleftrightarrow> unat i < length vs \<and> vs ! unat i = y" for y i
    using assms(1) unfolding ids_ok_def by blast
  show new: "x \<notin> set vs"
  proof
    assume "x \<in> set vs"
    then obtain k where k: "k < length vs" "vs ! k = x" by (auto simp: in_set_conv_nth)
    then have "unat (of_nat k :: u32) = k" using assms(3) by (simp add: unsigned_of_nat take_bit_nat_eq_self)
    with k ids [of x "of_nat k"] assms(2) show False by simp
  qed
  have at: "unat i = length vs \<longleftrightarrow> i = of_nat (length vs)" for i :: u32
    by (metis len word_unat_eq_iff)
  have "(ids(x \<mapsto> of_nat (length vs))) y = Some i \<longleftrightarrow> unat i < length (vs @ [x]) \<and> (vs @ [x]) ! unat i = y" for y i
  proof (cases "y = x")
    case True
    have "unat i < length vs \<Longrightarrow> vs ! unat i \<noteq> x" using new nth_mem by blast
    with True at [of i] show ?thesis by (auto simp: nth_append less_Suc_eq)
  next
    case False
    with ids [of y i] show ?thesis by (auto simp: nth_append less_Suc_eq)
  qed
  with new assms(1,3) show "ids_ok (vs @ [x]) (ids(x \<mapsto> of_nat (length vs)))" by (simp add: ids_ok_def)
qed

lemma stored_new:
  assumes "x \<notin> set vs" "snd ` set es \<subseteq> set vs" "unat (of_nat (length vs) :: u32) = length vs"
  shows "stored (vs @ [x]) (es @ [(c, x)]) = insert (c, of_nat (length vs)) (stored vs es)"
proof -
  have at: "unat i = length vs \<longleftrightarrow> i = of_nat (length vs)" for i :: u32
    using assms(3) by (metis word_unat_eq_iff)
  have no: "(d, x) \<notin> set es" for d using assms(1,2) by force
  have old: "unat i < length vs \<Longrightarrow> vs ! unat i \<noteq> x" for i :: u32 using assms(1) nth_mem by blast
  show ?thesis
  proof (intro set_eqI iffI)
    fix p assume "p \<in> stored (vs @ [x]) (es @ [(c, x)])"
    then show "p \<in> insert (c, of_nat (length vs)) (stored vs es)"
      using at no old by (auto simp: stored_def nth_append less_Suc_eq split: if_splits)
  next
    fix p assume "p \<in> insert (c, of_nat (length vs)) (stored vs es)"
    then show "p \<in> stored (vs @ [x]) (es @ [(c, x)])" using assms(3) by (auto simp: stored_def nth_append)
  qed
qed

lemma stored_old:
  assumes "distinct vs" "unat i < length vs" "vs ! unat i = x"
  shows "stored vs (es @ [(c, x)]) = insert (c, i) (stored vs es)"
proof -
  have uniq: "j = i" if "unat j < length vs" "vs ! unat j = x" for j :: u32
  proof -
    have "unat j = unat i" using that assms by (simp add: nth_eq_iff_index_eq [symmetric])
    then show ?thesis by (simp only: word_unat_eq_iff)
  qed
  have "p \<in> stored vs (es @ [(c, x)]) \<longleftrightarrow> p \<in> insert (c, i) (stored vs es)" for p
  proof (cases p)
    case (Pair d j)
    show ?thesis using uniq [of j] assms(2,3) by (cases "j = i") (auto simp: Pair stored_def)
  qed
  then show ?thesis by blast
qed

section \<open>The loop\<close>

lemma tree_validate_Some:
  "tree_validate ls c t = Some e \<Longrightarrow> \<exists>n\<in>set (tree_nodes c). leaf_validate (ls ! n) t = Some e"
  "trees_validate ls cs t = Some e \<Longrightarrow> \<exists>n\<in>set (concat (map tree_nodes cs)). leaf_validate (ls ! n) t = Some e"
  by (induction ls c t and ls cs t rule: tree_validate_trees_validate.induct) (auto split: option.splits)

lemma tree_validate_specs:
  assumes "leaves_built R fs (set (tree_nodes tree)) n es ls"
  shows "tree_validate ls tree c = None \<longleftrightarrow> (\<forall>m\<in>set (tree_nodes tree). spec_validate (fs ! m) c = None)"
    "tree_validate ls tree c = Some e \<Longrightarrow> \<exists>m\<in>set (tree_nodes tree). spec_validate (fs ! m) c = Some e"
proof -
  have leaf: "leaf_validate (ls ! m) c = spec_validate (fs ! m) c" if "m \<in> set (tree_nodes tree)" for m
    using assms that leaf_validate_built [of R m "fs ! m" n es "ls ! m" c] by (simp add: leaves_built_def)
  then show "tree_validate ls tree c = None \<longleftrightarrow> (\<forall>m\<in>set (tree_nodes tree). spec_validate (fs ! m) c = None)"
    by (simp add: tree_validate_None)
  show "tree_validate ls tree c = Some e \<Longrightarrow> \<exists>m\<in>set (tree_nodes tree). spec_validate (fs ! m) c = Some e"
    using tree_validate_Some(1) [of ls tree c e] leaf by fastforce
qed

text \<open>The state before an entry, after the entries \<open>done\<close>.\<close>

definition loop_ok ::
  "'b roaring \<Rightarrow> ('t, 'v, 'k) filter_spec list \<Rightarrow> 'b rule_tree \<Rightarrow> ('t \<times> 'id) list \<Rightarrow> ('id \<rightharpoonup> u32) \<Rightarrow> 'id list
     \<Rightarrow> ('t, 'v, 'k, 'b) leaf list \<Rightarrow> bool" where
  "loop_ok R fs tree before ids vs ls \<longleftrightarrow> ids_ok vs ids \<and> set vs = snd ` set before
     \<and> leaves_built R fs (set (tree_nodes tree)) (length before * length (tree_nodes tree)) (stored vs before) ls"

definition accepted :: "('t, 'v, 'k) filter_spec list \<Rightarrow> nat set \<Rightarrow> 't \<Rightarrow> bool" where
  "accepted fs A c \<longleftrightarrow> (\<forall>m\<in>A. spec_validate (fs ! m) c = None)"

context roaring
begin

lemma loop_ok_step:
  assumes "loop_ok R fs tree before ids vs ls" "\<not> (4294967295 :: u64) < of_nat (length vs)" "tree_validate ls tree c = None"
  shows "ids x = Some i \<Longrightarrow> x \<in> set vs \<and> loop_ok R fs tree (before @ [(c, x)]) ids vs (tree_insert R c i tree ls)"
    "ids x = None \<Longrightarrow> x \<notin> set vs \<and> loop_ok R fs tree (before @ [(c, x)]) (ids(x \<mapsto> of_nat (length vs))) (vs @ [x])
        (tree_insert R c (of_nat (length vs)) tree ls)"
proof -
  have ids: "ids_ok vs ids" and vs: "set vs = snd ` set before"
    and built: "leaves_built R fs (set (tree_nodes tree)) (length before * length (tree_nodes tree)) (stored vs before) ls"
    using assms(1) by (simp_all add: loop_ok_def)
  have "length vs < 2 ^ 64" using ids by (simp add: ids_ok_def)
  then have "unat (of_nat (length vs) :: u64) = length vs" by (simp add: unsigned_of_nat take_bit_nat_eq_self)
  with assms(2) have len: "length vs < 2 ^ 32" by (simp add: word_less_nat_alt)
  have num: "length (before @ [(c, x)]) * length (tree_nodes tree)
      = length before * length (tree_nodes tree) + length (tree_nodes tree)" by simp
  note step = leaves_built_insert [OF built assms(3)]
  show "x \<in> set vs \<and> loop_ok R fs tree (before @ [(c, x)]) ids vs (tree_insert R c i tree ls)" if "ids x = Some i"
  proof -
    have i: "unat i < length vs" "vs ! unat i = x" using ids that unfolding ids_ok_def by blast+
    then have x: "x \<in> set vs" by auto
    have "distinct vs" using ids by (simp add: ids_ok_def)
    from step [of i] stored_old [OF this i, of before c] x ids vs show ?thesis
      unfolding loop_ok_def num by auto
  qed
  show "x \<notin> set vs \<and> loop_ok R fs tree (before @ [(c, x)]) (ids(x \<mapsto> of_nat (length vs))) (vs @ [x])
        (tree_insert R c (of_nat (length vs)) tree ls)" if "ids x = None"
  proof -
    note new = ids_ok_new [OF ids that len]
    have "snd ` set before \<subseteq> set vs" using vs by simp
    from step [of "of_nat (length vs)"] stored_new [OF new(2) this new(3), of c] new vs show ?thesis
      unfolding loop_ok_def num by auto
  qed
qed

lemma build_entries_ok:
  assumes "loop_ok R fs tree before ids vs ls" "n = length before"
  shows "case build_entries R tree es n ids vs ls of
      Inr (vs', ls') \<Rightarrow> (\<exists>ids'. loop_ok R fs tree (before @ es) ids' vs' ls') \<and> vs' = unique_ids vs es
        \<and> (\<forall>e\<in>set es. accepted fs (set (tree_nodes tree)) (fst e))
    | Inl err \<Rightarrow> (err = Too_Many_Rules \<and> 2 ^ 32 \<le> card (snd ` set (before @ es)))
        \<or> (\<exists>k e. k < length es \<and> err = Entry_Error (n + k) e
             \<and> (\<exists>m\<in>set (tree_nodes tree). spec_validate (fs ! m) (fst (es ! k)) = Some e)
             \<and> (\<forall>j<k. accepted fs (set (tree_nodes tree)) (fst (es ! j))))"
  using assms
proof (induction es arbitrary: before ids vs ls n)
  case Nil
  then show ?case by auto
next
  case (Cons e es)
  obtain c x where e: "e = (c, x)" by (cases e)
  have ids: "ids_ok vs ids" and vs: "set vs = snd ` set before"
    and built: "leaves_built R fs (set (tree_nodes tree)) (length before * length (tree_nodes tree)) (stored vs before) ls"
    using Cons.prems(1) by (simp_all add: loop_ok_def)
  show ?case
  proof (cases "(4294967295 :: u64) < of_nat (length vs)")
    case True
    have "length vs < 2 ^ 64" using ids by (simp add: ids_ok_def)
    then have "unat (of_nat (length vs) :: u64) = length vs" by (simp add: unsigned_of_nat take_bit_nat_eq_self)
    with True have "2 ^ 32 \<le> length vs" by (simp add: word_less_nat_alt)
    also have "length vs = card (snd ` set before)" using ids vs distinct_card by (metis ids_ok_def)
    also have "\<dots> \<le> card (snd ` set (before @ e # es))" by (intro card_mono) auto
    finally show ?thesis using True e by simp
  next
    case few: False
    show ?thesis
    proof (cases "tree_validate ls tree c")
      case (Some err)
      with tree_validate_specs(2) [OF built Some] few e show ?thesis by (auto intro!: exI [of _ 0])
    next
      case None
      then have acc: "accepted fs (set (tree_nodes tree)) c" using tree_validate_specs(1) [OF built] by (simp add: accepted_def)
      have go: ?thesis if state: "loop_ok R fs tree (before @ [e]) ids1 vs1 (tree_insert R c i tree ls)"
        and eq: "build_entries R tree (e # es) n ids vs ls = build_entries R tree es (Suc n) ids1 vs1 (tree_insert R c i tree ls)"
        and order: "unique_ids vs (e # es) = unique_ids vs1 es" for ids1 vs1 i
      proof -
        have "Suc n = length (before @ [e])" using Cons.prems(2) by simp
        note IH = Cons.IH [OF state this]
        show ?thesis
        proof (cases "build_entries R tree es (Suc n) ids1 vs1 (tree_insert R c i tree ls)")
          case (Inr r)
          with IH acc e order show ?thesis unfolding eq by (auto split: prod.splits)
        next
          case (Inl err)
          then have "(err = Too_Many_Rules \<and> 2 ^ 32 \<le> card (snd ` set (before @ e # es)))
              \<or> (\<exists>k f. k < length es \<and> err = Entry_Error (Suc n + k) f
                 \<and> (\<exists>m\<in>set (tree_nodes tree). spec_validate (fs ! m) (fst (es ! k)) = Some f)
                 \<and> (\<forall>j<k. accepted fs (set (tree_nodes tree)) (fst (es ! j))))" using IH by simp
          moreover have "\<exists>k' f. k' < length (e # es) \<and> err = Entry_Error (n + k') f
                 \<and> (\<exists>m\<in>set (tree_nodes tree). spec_validate (fs ! m) (fst ((e # es) ! k')) = Some f)
                 \<and> (\<forall>j<k'. accepted fs (set (tree_nodes tree)) (fst ((e # es) ! j)))"
            if "k < length es" "err = Entry_Error (Suc n + k) f"
              "\<exists>m\<in>set (tree_nodes tree). spec_validate (fs ! m) (fst (es ! k)) = Some f"
              "\<forall>j<k. accepted fs (set (tree_nodes tree)) (fst (es ! j))" for k f
            using that acc e by (intro exI [of _ "Suc k"] exI [of _ f]) (auto simp: less_Suc_eq_0_disj)
          ultimately show ?thesis unfolding eq Inl sum.case by blast
        qed
      qed
      show ?thesis
      proof (cases "ids x")
        case (Some i)
        from loop_ok_step(1) [OF Cons.prems(1) few None this]
        show ?thesis by (intro go [of ids vs i]) (use few None Some in \<open>auto simp: e\<close>)
      next
        case None': None
        note step = loop_ok_step(2) [OF Cons.prems(1) few None None']
        show ?thesis
        proof (rule go)
          show "loop_ok R fs tree (before @ [e]) (ids(x \<mapsto> of_nat (length vs))) (vs @ [x]) (tree_insert R c (of_nat (length vs)) tree ls)"
            using step e by simp
          show "build_entries R tree (e # es) n ids vs ls = build_entries R tree es (Suc n) (ids(x \<mapsto> of_nat (length vs))) (vs @ [x])
              (tree_insert R c (of_nat (length vs)) tree ls)"
            using few None None' by (simp add: e Let_def del: fun_upd_apply)
          show "unique_ids vs (e # es) = unique_ids (vs @ [x]) es" using step e by simp
        qed
      qed
    qed
  qed
qed

end

end
