(* ===== verification/Build_Root.thy ===== *)
theory Build_Root
  imports Tree_Shape Build_Entries
begin

text \<open>
  What the root that \<open>buildIndex\<close> publishes denotes: the filters of the schema other than \<open>Exclude\<close>, unless
  no \<open>Exclude\<close> has a stored value; then the \<open>Exclude\<close> rules stay in the positive tree and nothing matches.
\<close>

section \<open>Fresh states have no match-all rule\<close>

fun without_match_all :: "'b rule_tree \<Rightarrow> bool" where
  "without_match_all (Leaf_Node n) = True"
| "without_match_all (All_Node object cs) = (\<forall>c\<in>set cs. without_match_all c)"
| "without_match_all (Match_All_Node bits) = False"

lemma new_state_without_match_all:
  "(\<forall>object t. al_canonical a object = Some t \<longrightarrow> without_match_all t) \<Longrightarrow> new_state c a = (t, a') \<Longrightarrow>
     without_match_all t \<and> (\<forall>object t. al_canonical a' object = Some t \<longrightarrow> without_match_all t)"
  "(\<forall>object t. al_canonical a object = Some t \<longrightarrow> without_match_all t) \<Longrightarrow> \<forall>t\<in>set children. without_match_all t \<Longrightarrow>
     new_children cs seen children a = (ts, a') \<Longrightarrow>
     (\<forall>t\<in>set ts. without_match_all t) \<and> (\<forall>object t. al_canonical a' object = Some t \<longrightarrow> without_match_all t)"
proof (induction c a and cs seen children a arbitrary: t a' and ts a' rule: new_state_new_children.induct)
  case (1 object f a)
  then show ?case by (auto simp: allocate_def)
next
  case (2 object cs a)
  then show ?case by (auto split: prod.splits)
next
  case (3 seen children a)
  then show ?case by auto
next
  case (4 c cs seen children a)
  obtain t a1 where step: "(case known_state c a of Some t \<Rightarrow> (t, a)
      | None \<Rightarrow> (case new_state c a of (t, a) \<Rightarrow> (t, remember_state c t a))) = (t, a1)" by fastforce
  have t: "without_match_all t \<and> (\<forall>object t. al_canonical a1 object = Some t \<longrightarrow> without_match_all t)"
  proof (cases "known_state c a")
    case None
    obtain t2 a2 where new: "new_state c a = (t2, a2)" by fastforce
    with 4(1) [OF None 4(5) new] None step show ?thesis
      by (cases "is_canonical c") (auto simp: remember_state_def split: if_splits)
  next
    case (Some t)
    with step 4(5) show ?thesis by (auto simp: known_state_def split: if_splits)
  qed
  note IH = 4(2-4) [OF step [symmetric]]
  show ?case
  proof (cases "is_canonical c")
    case canonical: True
    show ?thesis
    proof (cases "t \<in> set seen")
      case True
      with IH(1) [OF canonical True t [THEN conjunct2] 4(6)] 4(7) canonical step show ?thesis by simp
    next
      case False
      have "\<forall>t\<in>set (children @ [t]). without_match_all t" using 4(6) t by simp
      with IH(2) [OF canonical False t [THEN conjunct2] this] 4(7) canonical False step show ?thesis by simp
    qed
  next
    case False
    have "\<forall>t\<in>set (children @ [t]). without_match_all t" using 4(6) t by simp
    with IH(3) [OF False t [THEN conjunct2] this] 4(7) False step show ?thesis by simp
  qed
qed

lemma without_match_all_full: "without_match_all c \<Longrightarrow> full_matches R U c"
  by (induction c) auto

section \<open>Exclusions stay in the tree until they are removed\<close>

lemma contributed_nodes: "set (tree_nodes c) = (\<Union>x\<in>contributed c. set (tree_nodes x))"
  by (cases c) auto

lemma optimize_keeps:
  "n \<in> set (tree_nodes c) \<Longrightarrow> is_exclusion (ls ! n) \<Longrightarrow> n \<in> set (tree_nodes (optimize R ls rules c))"
proof (induction c)
  case (Leaf_Node m)
  then show ?case by (cases "ls ! n") simp_all
next
  case (All_Node object cs)
  obtain children universal where run: "append_optimized ls (map (optimize R ls rules) cs) [] None = (children, universal)" by fastforce
  obtain c where c: "c \<in> set cs" "n \<in> set (tree_nodes c)" using All_Node.prems(1) by auto
  then have "n \<in> set (tree_nodes (optimize R ls rules c))" using All_Node by blast
  then obtain x where x: "x \<in> contributed (optimize R ls rules c)" "n \<in> set (tree_nodes x)"
    unfolding contributed_nodes [of "optimize R ls rules c"] by blast
  then have "x \<in> set children" using append_optimized_spec(1) [OF run] c(1) by auto
  show ?case
  proof (cases children rule: remdups_adj.cases)
    case 1
    with \<open>x \<in> set children\<close> show ?thesis by simp
  next
    case (2 y)
    moreover have "cs \<noteq> []" using c(1) by auto
    ultimately show ?thesis using \<open>x \<in> set children\<close> x(2) run by simp
  next
    case (3 y z zs)
    with \<open>x \<in> set children\<close> x(2) run show ?thesis by auto
  qed
qed simp

section \<open>The universe\<close>

lemma universe_ids:
  assumes "n \<le> 2 ^ 32"
  shows "{i :: u32. (ucast i :: u64) < of_nat n} = {i. unat i < n}" "card {i :: u32. unat i < n} = n"
proof -
  have n: "unat (of_nat n :: u64) = n" using assms by (simp add: unsigned_of_nat take_bit_nat_eq_self)
  show "{i :: u32. (ucast i :: u64) < of_nat n} = {i. unat i < n}"
    by (auto simp: word_less_nat_alt n unat_ucast_u64)
  have "bij_betw unat {i :: u32. unat i < n} {..<n}"
  proof (rule bij_betw_byWitness [where f' = of_nat])
    show "unat ` {i :: u32. unat i < n} \<subseteq> {..<n}" by auto
    show "of_nat ` {..<n} \<subseteq> {i :: u32. unat i < n}"
      using assms by (auto simp: unsigned_of_nat take_bit_nat_eq_self)
  qed (use assms in \<open>auto simp: unsigned_of_nat take_bit_nat_eq_self\<close>)
  from bij_betw_same_card [OF this] show "card {i :: u32. unat i < n} = n" by simp
qed

section \<open>The root\<close>

text \<open>What the filter of a node contributes when exclusions are apart.\<close>

definition positive_den :: "'b roaring \<Rightarrow> ('t, 'v, 'k, 'b) leaf list \<Rightarrow> u32 set \<Rightarrow> 't \<Rightarrow> nat \<Rightarrow> u32 set" where
  "positive_den R ls U q n = (if is_exclusion (ls ! n) then U else leaf_den R (ls ! n) q)"

text \<open>The shape of the published root.\<close>

fun published_shape :: "('t, 'v, 'k, 'b) leaf list \<Rightarrow> 'b rule_tree \<Rightarrow> bool" where
  "published_shape ls (All_Node object cs) \<longleftrightarrow> cs \<noteq> [] \<and> canonical_once ls cs
     \<and> ((\<forall>c\<in>set cs. \<exists>n. c = Leaf_Node n) \<or> (\<exists>b. cs = [Match_All_Node b]))"
| "published_shape ls _ \<longleftrightarrow> True"

lemma flat_published: "flat_tree c \<Longrightarrow> root_once ls c \<Longrightarrow> published_shape ls c"
  by (cases c) auto

lemma leaf_den_universe:
  assumes "leaf_built R m f n es lf" "snd ` es \<subseteq> U"
  shows "leaf_den R lf q \<subseteq> U"
proof (cases "is_exclusion lf")
  case True
  then show ?thesis by (cases lf) simp_all
next
  case False
  have "spec_columns f \<noteq> []" using assms(1) False by (cases rule: leaf_built_cases) auto
  then obtain m where m: "m \<in> set (spec_columns f)" by (cases "spec_columns f") auto
  have "leaf_den R lf q \<subseteq> column_ids es m q" unfolding leaf_den_built [OF assms(1) False] using m by blast
  also have "\<dots> \<subseteq> U" using column_ids_mono assms(2) by (rule order_trans)
  finally show ?thesis .
qed

context roaring
begin

lemma leaves_optimized_built:
  assumes built: "leaves_built R fs A n es ls" and es: "snd ` es \<subseteq> U"
  shows "leaves_optimized R ls (\<lambda>m. leaf_den R (ls ! m) q) U A" "leaves_optimized R ls (positive_den R ls U q) U A"
proof -
  have one: "leaf_den R (ls ! m) q \<subseteq> U
     \<and> (\<forall>bits. leaf_optimize R (ls ! m) (of_nat (card U)) = Some bits \<longrightarrow> bm_ids R bits = U \<and> leaf_den R (ls ! m) q = U)"
    if m: "m \<in> A" for m
  proof -
    have b: "leaf_built R m (fs ! m) n es (ls ! m)" using built m by (simp add: leaves_built_def)
    from leaf_den_universe [OF b es] leaf_optimize_den [OF b _ es refl] show ?thesis by blast
  qed
  then show "leaves_optimized R ls (\<lambda>m. leaf_den R (ls ! m) q) U A" unfolding leaves_optimized_def by blast
  have "leaf_optimize R (ls ! m) rules = None" if "is_exclusion (ls ! m)" for m rules
    using that by (cases "ls ! m") simp_all
  with one show "leaves_optimized R ls (positive_den R ls U q) U A"
    unfolding leaves_optimized_def positive_den_def by auto
qed

lemma build_root_spec:
  assumes built: "leaves_built R fs (set (tree_nodes tree)) n es ls" and es: "snd ` es \<subseteq> U"
    and U: "U = {i. unat i < rules}" "rules \<le> 2 ^ 32" and tree: "without_match_all tree"
    and run: "build_root R ls (of_nat rules) tree = (root, xs)"
  shows "published_shape ls root" "full_matches R U root" "set (tree_nodes root) \<subseteq> set (tree_nodes tree)"
    "set xs = {m\<in>set (tree_nodes tree). leaf_has_exclusions (ls ! m)}"
    "xs \<noteq> [] \<or> (\<forall>m\<in>set (tree_nodes tree). \<not> is_exclusion (ls ! m)) \<Longrightarrow>
       tree_den R (\<lambda>m. leaf_den R (ls ! m) q) U root = U \<inter> (\<Inter>m\<in>set (tree_nodes tree). positive_den R ls U q m)"
    "xs = [] \<Longrightarrow> m \<in> set (tree_nodes tree) \<Longrightarrow> is_exclusion (ls ! m) \<Longrightarrow>
       tree_den R (\<lambda>m. leaf_den R (ls ! m) q) U root = {}"
    "xs \<noteq> [] \<Longrightarrow> \<exists>object cs. root = All_Node object cs"
    "length (tree_nodes root) \<le> length (tree_nodes tree)" "length xs \<le> length (tree_nodes tree)"
proof -
  let ?A = "set (tree_nodes tree)" and ?opt = "optimize R ls (of_nat rules)"
  let ?universe = "bm_add_range R (bm_new R) 0 (of_nat rules)"
  have card: "(of_nat rules :: u64) = of_nat (card U)" and cut: "U = {i. ucast i < (of_nat rules :: u64)}"
    using universe_ids [OF U(2)] by (simp_all add: U(1))
  have full: "full_matches R U tree" by (rule without_match_all_full [OF tree])
  define root1 where "root1 = ?opt (?opt tree)"
  have opt: "tree_den R d U root1 = tree_den R d U tree \<and> full_matches R U root1 \<and> flat_tree root1
      \<and> set (tree_nodes root1) \<subseteq> ?A" if "leaves_optimized R ls d U ?A" for d
  proof -
    note one = optimize_spec [OF that full card cut]
    have "leaves_optimized R ls d U (set (tree_nodes (?opt tree)))"
      using that one unfolding leaves_optimized_def by blast
    from optimize_spec [OF this _ card cut] one show ?thesis unfolding root1_def by (metis (no_types, lifting) order_trans)
  qed
  have flat: "flat_tree (?opt c)" if sub: "set (tree_nodes c) \<subseteq> ?A" and c: "full_matches R U c" for c
  proof -
    have "leaves_optimized R ls (\<lambda>m. leaf_den R (ls ! m) q) U (set (tree_nodes c))"
      using leaves_optimized_built(1) [OF built es, of q] sub unfolding leaves_optimized_def by blast
    from optimize_spec [OF this c card cut] show ?thesis by blast
  qed
  note lo = leaves_optimized_built [OF built es, of q]
  note opt1 = opt [OF lo(1)] and opt2 = opt [OF lo(2)]
  have once1: "root_once ls root1" unfolding root1_def
  proof (rule optimize_once)
    show "flat_tree (?opt (?opt tree))" using opt1 by (simp add: root1_def)
    fix object cs d assume "?opt tree = All_Node object cs" "d \<in> set cs"
    moreover from this have "set (tree_nodes d) \<subseteq> ?A \<and> full_matches R U d"
      using optimize_spec [OF lo(1) full card cut] by fastforce
    ultimately show "flat_tree (?opt d)" using flat by blast
  qed
  have keep: "m \<in> set (tree_nodes root1)" if "m \<in> ?A" "is_exclusion (ls ! m)" for m
    unfolding root1_def by (intro optimize_keeps that)
  have has: "leaf_has_exclusions (ls ! m) \<Longrightarrow> is_exclusion (ls ! m)" for m by (cases "ls ! m") simp_all
  have collected: "set (collect_exclusion_rules ls root1) = {m\<in>?A. leaf_has_exclusions (ls ! m)}"
    using keep has opt1 by (auto simp: collect_exclusion_rules_set)
  have len1: "length (tree_nodes root1) \<le> length (tree_nodes tree)"
    using order_trans [OF optimize_nodes [of R ls "of_nat rules" "?opt tree"] optimize_nodes [of R ls "of_nat rules" tree]]
    by (simp add: root1_def)
  have pos: "tree_den R (positive_den R ls U q) U tree = U \<inter> (\<Inter>m\<in>?A. positive_den R ls U q m)"
    by (rule tree_den_all [OF _ full]) (use lo(2) in \<open>auto simp: leaves_optimized_def\<close>)
  have neg: "tree_den R (\<lambda>m. leaf_den R (ls ! m) q) U tree = U \<inter> (\<Inter>m\<in>?A. leaf_den R (ls ! m) q)"
    by (rule tree_den_all [OF _ full]) (use lo(1) in \<open>auto simp: leaves_optimized_def\<close>)
  have no_match: "leaf_den R (ls ! m) q = {}" if "is_exclusion (ls ! m)" for m using that by (cases "ls ! m") simp_all
  have "published_shape ls root \<and> full_matches R U root \<and> set (tree_nodes root) \<subseteq> ?A
    \<and> set xs = {m\<in>?A. leaf_has_exclusions (ls ! m)}
    \<and> (xs \<noteq> [] \<or> (\<forall>m\<in>?A. \<not> is_exclusion (ls ! m)) \<longrightarrow>
       tree_den R (\<lambda>m. leaf_den R (ls ! m) q) U root = U \<inter> (\<Inter>m\<in>?A. positive_den R ls U q m))
    \<and> (xs = [] \<longrightarrow> (\<exists>m\<in>?A. is_exclusion (ls ! m)) \<longrightarrow> tree_den R (\<lambda>m. leaf_den R (ls ! m) q) U root = {})
    \<and> (xs \<noteq> [] \<longrightarrow> (\<exists>object cs. root = All_Node object cs))
    \<and> length (tree_nodes root) \<le> length (tree_nodes tree) \<and> length xs \<le> length (tree_nodes tree)"
  proof (cases "collect_exclusion_rules ls root1 = []")
    case True
    then have r: "root = root1" "xs = []" using run by (simp_all add: build_root_def root1_def [symmetric] Let_def)
    have "tree_den R (\<lambda>m. leaf_den R (ls ! m) q) U root1 = U \<inter> (\<Inter>m\<in>?A. positive_den R ls U q m)"
      if "\<forall>m\<in>?A. \<not> is_exclusion (ls ! m)"
      using opt1 neg that by (simp add: positive_den_def)
    moreover have "tree_den R (\<lambda>m. leaf_den R (ls ! m) q) U root1 = {}" if m: "m \<in> ?A" "is_exclusion (ls ! m)" for m
    proof -
      have "(\<Inter>m\<in>?A. leaf_den R (ls ! m) q) \<subseteq> leaf_den R (ls ! m) q" using m(1) by (rule INT_lower)
      then have "(\<Inter>m\<in>?A. leaf_den R (ls ! m) q) = {}" unfolding no_match [OF m(2)] by simp
      then show ?thesis using opt1 neg by simp
    qed
    moreover have "{m\<in>?A. leaf_has_exclusions (ls ! m)} = {}" using collected True by simp
    ultimately show ?thesis using opt1 flat_published [OF _ once1] len1 unfolding r by auto
  next
    case False
    define out where "out = remove_exclusion_rules R ls ?universe root1"
    have r: "(root, xs) = (case out of All_Node object cs \<Rightarrow> (All_Node object cs, collect_exclusion_rules ls root1)
        | other \<Rightarrow> (All_Node 0 [other], collect_exclusion_rules ls root1))"
      using run False by (simp add: build_root_def root1_def [symmetric] Let_def out_def [symmetric])
    have univ: "bm_ids R ?universe = U" using cut by (simp add: ids_add_range ids_new)
    have cut': "U = {i. ucast i < (of_nat (card U) :: u64)}" using cut card by simp
    have "leaves_optimized R ls (\<lambda>m. leaf_den R (ls ! m) q) U {m\<in>set (tree_nodes root1). \<not> is_exclusion (ls ! m)}"
      using lo(1) opt1 unfolding leaves_optimized_def by blast
    from remove_exclusion_rules_spec [OF this _ univ cut'] opt1
    have rem: "tree_den R (\<lambda>m. leaf_den R (ls ! m) q) U out
          = tree_den R (without_exclusions ls (\<lambda>m. leaf_den R (ls ! m) q) U) U root1"
        "full_matches R U out" "set (tree_nodes out) \<subseteq> {m\<in>set (tree_nodes root1). \<not> is_exclusion (ls ! m)}" "flat_tree out"
      unfolding out_def by blast+
    have "without_exclusions ls (\<lambda>m. leaf_den R (ls ! m) q) U = positive_den R ls U q"
      by (simp add: fun_eq_iff without_exclusions_def positive_den_def)
    with rem(1) opt2 pos have den: "tree_den R (\<lambda>m. leaf_den R (ls ! m) q) U out = U \<inter> (\<Inter>m\<in>?A. positive_den R ls U q m)"
      by simp
    have once: "root_once ls out"
    proof (cases root1)
      case (All_Node object cs)
      have sub: "set (tree_nodes d) \<subseteq> ?A \<and> full_matches R U d \<and> (\<exists>n. d = Leaf_Node n)" if "d \<in> set cs" for d
        using opt1 All_Node that by fastforce
      have un: "bm_card R ?universe = of_nat rules" using univ card card_eq by simp
      show ?thesis unfolding out_def All_Node remove_exclusion_rules.simps un
      proof (rule optimize_once)
        show "flat_tree (?opt (All_Node object (map (remove_exclusion_rules R ls ?universe) cs)))"
          using rem(4) by (simp only: out_def All_Node remove_exclusion_rules.simps un)
        fix object' cs' d assume "All_Node object (map (remove_exclusion_rules R ls ?universe) cs) = All_Node object' cs'" "d \<in> set cs'"
        then obtain c where c: "c \<in> set cs" "d = remove_exclusion_rules R ls ?universe c" by auto
        with sub [OF c(1)] obtain n where "c = Leaf_Node n" by blast
        with c show "flat_tree (?opt d)" by (simp split: option.split)
      qed
    qed (simp_all add: out_def)
    have lens: "length (tree_nodes out) \<le> length (tree_nodes tree)"
      using order_trans [OF remove_exclusion_nodes len1] by (simp add: out_def)
    have xs: "xs = collect_exclusion_rules ls root1" using r by (cases out) simp_all
    have lx: "length xs \<le> length (tree_nodes tree)" unfolding xs using order_trans [OF collect_exclusion_length len1] .
    have "published_shape ls root \<and> full_matches R U root \<and> set (tree_nodes root) = set (tree_nodes out)
        \<and> tree_den R (\<lambda>m. leaf_den R (ls ! m) q) U root = tree_den R (\<lambda>m. leaf_den R (ls ! m) q) U out
        \<and> (\<exists>object cs. root = All_Node object cs) \<and> length (tree_nodes root) = length (tree_nodes out)"
    proof (cases out)
      case (All_Node object cs)
      with r flat_published [OF rem(4) once] rem(2) show ?thesis by simp
    next
      case (Leaf_Node n)
      with r den rem(2) show ?thesis by (auto simp: canonical_once_def)
    next
      case (Match_All_Node b)
      with r den rem(2) show ?thesis by (auto simp: canonical_once_def)
    qed
    with den rem(3) opt1 collected lens lx False show ?thesis unfolding xs by auto
  qed
  then show "published_shape ls root" "full_matches R U root" "set (tree_nodes root) \<subseteq> ?A"
    "set xs = {m\<in>?A. leaf_has_exclusions (ls ! m)}"
    "xs \<noteq> [] \<or> (\<forall>m\<in>?A. \<not> is_exclusion (ls ! m)) \<Longrightarrow>
       tree_den R (\<lambda>m. leaf_den R (ls ! m) q) U root = U \<inter> (\<Inter>m\<in>?A. positive_den R ls U q m)"
    "xs = [] \<Longrightarrow> m \<in> ?A \<Longrightarrow> is_exclusion (ls ! m) \<Longrightarrow>
       tree_den R (\<lambda>m. leaf_den R (ls ! m) q) U root = {}"
    "xs \<noteq> [] \<Longrightarrow> \<exists>object cs. root = All_Node object cs"
    "length (tree_nodes root) \<le> length (tree_nodes tree)" "length xs \<le> length (tree_nodes tree)"
    by blast+
qed

end

end
