(* ===== verification/Publish_Root.thy ===== *)
theory Publish_Root
  imports Build_Root
begin

text \<open>
  Publication: interning, equality classes, antonyms and preparation keep what the root denotes, and
  what is published meets the contract of the search.
\<close>

section \<open>The children of the root\<close>

lemma distinct_filter_nth:
  assumes "distinct (filter P xs)" "i < length xs" "j < length xs" "P (xs ! i)" "xs ! i = xs ! j"
  shows "i = j"
  using assms
proof (induction xs arbitrary: i j)
  case (Cons x xs)
  have "distinct (filter P xs)" "P x \<Longrightarrow> x \<notin> set xs" using Cons.prems(1) by (auto split: if_splits)
  with Cons.IH [of "i - 1" "j - 1"] Cons.prems(2-) show ?case by (cases i; cases j) auto
qed simp

lemma root_children:
  assumes "published_shape ls root" "full_matches R U root"
  shows "(\<exists>b. tree_children ls root = [Match_All_Child b 0] \<and> tree_nodes root = [] \<and> bm_ids R b = U
       \<and> (\<forall>d. tree_den R d U root = U))
    \<or> (tree_children ls root = map (\<lambda>m. Filter_Child (ls ! m)) (tree_nodes root) \<and> tree_nodes root \<noteq> []
       \<and> distinct (filter (\<lambda>m. \<not> is_exclusion (ls ! m)) (tree_nodes root))
       \<and> (\<forall>d. (\<forall>m\<in>set (tree_nodes root). d m \<subseteq> U) \<longrightarrow> tree_den R d U root = (\<Inter>m\<in>set (tree_nodes root). d m)))"
proof (cases root)
  case (All_Node object cs)
  consider b where "cs = [Match_All_Node b]" | "cs \<noteq> []" "canonical_once ls cs" "\<forall>c\<in>set cs. \<exists>n. c = Leaf_Node n"
    using assms(1) All_Node by auto
  then show ?thesis
  proof cases
    case 1
    with All_Node assms(2) show ?thesis by simp
  next
    case 2
    then obtain ms where ms: "cs = map Leaf_Node ms" unfolding ex_map_conv [symmetric] by blast
    have "filter (canonical_node ls) cs = map Leaf_Node (filter (\<lambda>m. \<not> is_exclusion (ls ! m)) ms)"
      by (simp add: ms filter_map comp_def)
    with 2(2) have "distinct (filter (\<lambda>m. \<not> is_exclusion (ls ! m)) ms)" by (simp add: canonical_once_def distinct_map)
    moreover have "tree_nodes root = ms" "tree_children ls root = map (\<lambda>m. Filter_Child (ls ! m)) ms"
      by (simp_all add: All_Node ms comp_def)
    moreover have "ms \<noteq> []" using 2(1) ms by simp
    moreover have "U \<inter> (\<Inter>m\<in>set ms. d m) = (\<Inter>m\<in>set ms. d m)" if "\<forall>m\<in>set ms. d m \<subseteq> U" for d
      using that \<open>ms \<noteq> []\<close> by (cases ms) auto
    ultimately show ?thesis by (simp add: All_Node ms)
  qed
qed (use assms in auto)

lemma leaf_unsourced_built: "leaf_built R m f n es lf \<Longrightarrow> leaf_unsourced lf"
  by (cases f; cases lf) auto

lemma leaf_equality_built:
  "leaf_built R m f n es lf \<Longrightarrow> leaf_equality R lf = Some p \<Longrightarrow> fst p = snd ` es \<and> snd p \<le> n \<and> \<not> is_exclusion lf"
  by (cases f; cases lf) (simp_all, metis fst_conv snd_conv)

lemma child_prepare_operand [simp]: "equality_operand (child_prepare R c) = equality_operand c"
  by (cases c rule: equality_operand.cases) simp_all

lemma shared_operand:
  assumes "co_shared (published_ops R (child_prepare R c)) = Some sw"
  obtains r where "c = Filter_Child (Equality_Leaf r)" "sw_source sw = er_wildcard_source r" "sw_wildcard sw = er_wildcard r"
proof (cases c)
  case (Filter_Child lf)
  with assms that show ?thesis
    by (cases lf) (auto simp: od_ops_def bt_ops_def cb_ops_def nt_ops_def eq_ops_def eq_shared_def)
qed (use assms in \<open>auto simp: ma_ops_def an_ops_def\<close>)

lemma compile_antonyms_operands:
  assumes "Filter_Child lf \<in> set (compile_antonyms R cs)"
  shows "Filter_Child lf \<in> set cs"
  using compile_antonyms_shape [of R cs] assms by (auto simp: antonyms_of_def)

text \<open>An equality child that stands for the filter of node \<open>m\<close>.\<close>

definition operand_ok ::
  "'b roaring \<Rightarrow> 'b interner \<Rightarrow> nat \<Rightarrow> u32 set \<Rightarrow> nat \<Rightarrow> ('t, 'v, 'k, 'b) eq_rule \<Rightarrow> bool" where
  "operand_ok R J n U m r \<longleftrightarrow> er_node r = m \<and> eq_stored R r = U \<and> length (ei_sets (er_values r)) \<le> n
     \<and> (er_wildcard r, er_wildcard_source r) \<in> in_entries J"

text \<open>The filters of distinct nodes, interned.\<close>

definition interned_children ::
  "'b roaring \<Rightarrow> 'b interner \<Rightarrow> nat \<Rightarrow> (nat \<Rightarrow> 'v cache_key \<Rightarrow> u32 set) \<Rightarrow> nat \<Rightarrow> u32 set \<Rightarrow> nat list
     \<Rightarrow> ('t, 'v, 'k, 'b) child list \<Rightarrow> bool" where
  "interned_children R J nodes K n U ms cs \<longleftrightarrow> cs \<noteq> [] \<and> interner_ok J
     \<and> (\<forall>c\<in>set cs. child_ready R nodes K c \<and> child_sourced J c)
     \<and> (\<forall>i<length cs. \<forall>r. equality_operand (cs ! i) = Some r \<longrightarrow> i < length ms \<and> operand_ok R J n U (ms ! i) r)
     \<and> (\<forall>i<length cs. \<forall>j<length cs. equality_operand (cs ! i) \<noteq> None \<longrightarrow> i < length ms \<longrightarrow> j < length ms
          \<longrightarrow> ms ! i = ms ! j \<longrightarrow> i = j)"

context roaring
begin

lemma child_prepare_class [simp]: "query_class (published_ops R (child_prepare R c)) v = query_class (published_ops R c) v"
proof (cases "equality_operand c")
  case None
  then show ?thesis by (simp add: query_class_other)
next
  case (Some r)
  then show ?thesis by (simp add: equality_operand_Some)
qed

lemma children_interned:
  assumes built: "leaves_built R fs A n es ls" and n: "n < 2 ^ 63" and es: "snd ` es \<subseteq> U"
    and root: "published_shape ls root" "full_matches R U root" "set (tree_nodes root) \<subseteq> A"
    and I: "interner_ok I" "thread (child_intern R) (tree_children ls root) I = Some (cs, J)"
  shows "interned_children R J (length fs) (\<lambda>m. leaf_key_den R (ls ! m)) n (snd ` es) (tree_nodes root) cs"
    "(\<Inter>c\<in>set cs. child_den R c q) = tree_den R (\<lambda>m. leaf_den R (ls ! m) q) U root"
proof -
  let ?ms = "tree_nodes root" and ?xs = "tree_children ls root" and ?K = "\<lambda>m. leaf_key_den R (ls ! m)"
  have leaf: "leaf_built R m (fs ! m) n es (ls ! m)" "m < length fs" "leaf_node (ls ! m) = m" if "m \<in> set ?ms" for m
    using built root(3) that leaf_node_built [of R m "fs ! m" n es "ls ! m"] unfolding leaves_built_def by auto
  have ready: "child_internable R x \<and> child_ready R (length fs) ?K x" if "x \<in> set ?xs" for x
  proof -
    have "leaf_ready R (ls ! m) \<and> leaf_unsourced (ls ! m)" if "m \<in> set ?ms" for m
      using leaf_unsourced_built leaf_ready_built [OF leaf(1) n] leaf(1) that by blast
    with root_children [OF root(1,2)] that leaf(2,3) show ?thesis by auto
  qed
  have rel: "list_all2 (\<lambda>a b. same_child R a b \<and> child_sourced J b) ?xs cs" and J: "interner_ok J"
    using children_intern [OF _ I] ready by blast+
  note len = list_all2_lengthD [OF rel] and nth = list_all2_nthD [OF rel]
  have sub: "leaf_den R (ls ! m) q \<subseteq> U" if "m \<in> set ?ms" for m by (rule leaf_den_universe [OF leaf(1) [OF that] es])
  have cs_ready: "child_ready R (length fs) ?K c \<and> child_sourced J c" if "c \<in> set cs" for c
  proof -
    obtain i where "i < length cs" "c = cs ! i" using \<open>c \<in> set cs\<close> by (auto simp: in_set_conv_nth)
    with nth [of i] len ready [of "?xs ! i"] same_child_ready [of R "?xs ! i" c] show ?thesis by simp
  qed
  have operand: "i < length ?ms \<and> operand_ok R J n (snd ` es) (?ms ! i) r \<and> \<not> is_exclusion (ls ! (?ms ! i))"
    if i: "i < length cs" and r: "equality_operand (cs ! i) = Some r" for i r
  proof -
    have c: "cs ! i = Filter_Child (Equality_Leaf r)" using r by (simp add: equality_operand_Some)
    have same: "same_child R (?xs ! i) (Filter_Child (Equality_Leaf r))" "child_sourced J (Filter_Child (Equality_Leaf r))"
      using nth [of i] i len c by auto
    then have "?xs \<noteq> [Match_All_Child b 0]" for b using i len by (cases i) auto
    then have xs: "?xs = map (\<lambda>m. Filter_Child (ls ! m)) ?ms" using root_children [OF root(1,2)] by blast
    then have m: "i < length ?ms" using i len by simp
    then have sl: "same_leaf R (ls ! (?ms ! i)) (Equality_Leaf r)" using same(1) by (simp add: xs)
    moreover have "?ms ! i \<in> set ?ms" using m by simp
    moreover from sl have "leaf_equality R (ls ! (?ms ! i)) = Some (eq_stored R r, length (ei_sets (er_values r)))"
      by (simp add: same_leaf_def)
    ultimately show ?thesis using m leaf [of "?ms ! i"] same(2) leaf_equality_built [of R "?ms ! i" "fs ! (?ms ! i)" n es "ls ! (?ms ! i)"]
      by (simp add: same_leaf_def operand_ok_def)
  qed
  have once: "i = j" if ij: "i < length cs" "equality_operand (cs ! i) \<noteq> None" "i < length ?ms" "j < length ?ms" "?ms ! i = ?ms ! j" for i j
  proof -
    have "distinct (filter (\<lambda>m. \<not> is_exclusion (ls ! m)) ?ms)" using root_children [OF root(1,2)] by auto
    moreover have "\<not> is_exclusion (ls ! (?ms ! i))" using operand ij by blast
    ultimately show ?thesis using distinct_filter_nth [of "\<lambda>m. \<not> is_exclusion (ls ! m)" ?ms i j] ij by simp
  qed
  have "cs \<noteq> []" using len root_children [OF root(1,2)] by auto
  then show "interned_children R J (length fs) ?K n (snd ` es) ?ms cs"
    unfolding interned_children_def using J cs_ready operand once by blast
  have "(\<Inter>c\<in>set cs. child_den R c q) = (\<Inter>i<length cs. child_den R (cs ! i) q)" unfolding set_conv_nth by blast
  also have "\<dots> = (\<Inter>i<length ?xs. child_den R (?xs ! i) q)"
    using nth len by (intro INF_cong same_child_den) simp_all
  also have "\<dots> = (\<Inter>c\<in>set ?xs. child_den R c q)" unfolding set_conv_nth by blast
  also have "\<dots> = tree_den R (\<lambda>m. leaf_den R (ls ! m) q) U root"
    using root_children [OF root(1,2)] sub by auto
  finally show "(\<Inter>c\<in>set cs. child_den R c q) = tree_den R (\<lambda>m. leaf_den R (ls ! m) q) U root" .
qed

section \<open>Equality classes and antonyms\<close>

text \<open>A filter has at most one pair per posting, so the classes can be numbered.\<close>

lemma shared_pairs_length:
  assumes "interned_children R J nodes K n U ms cs"
  shows "length (shared_pairs cs) \<le> length ms * (1 + n)"
proof -
  have operand: "i < length ms \<and> operand_ok R J n U (ms ! i) r"
    if "i < length cs" "equality_operand (cs ! i) = Some r" for i r
    using assms that unfolding interned_children_def by blast
  have "set (shared_pairs cs) \<subseteq> (\<Union>i<length ms. if i < length cs then set (child_sources (cs ! i)) else {})"
  proof
    fix pair assume "pair \<in> set (shared_pairs cs)"
    then have "card (owners cs pair) \<noteq> 0" by (simp add: shared_pairs)
    then obtain i where i: "i < length cs" "pair \<in> set (child_sources (cs ! i))" by (auto simp: owners_def card_eq_0_iff)
    then obtain r where "equality_operand (cs ! i) = Some r" by (cases "equality_operand (cs ! i)") (auto simp: child_sources_def)
    with operand i show "pair \<in> (\<Union>i<length ms. if i < length cs then set (child_sources (cs ! i)) else {})" by auto
  qed
  moreover have "card (if i < length cs then set (child_sources (cs ! i)) else {}) \<le> 1 + n" for i
  proof (cases "i < length cs \<and> equality_operand (cs ! i) \<noteq> None")
    case True
    then obtain r where r: "i < length cs" "equality_operand (cs ! i) = Some r" by auto
    have "card (set (child_sources (cs ! i))) \<le> length (child_sources (cs ! i))" by (rule card_length)
    also have "\<dots> \<le> 1 + length (ei_sets (er_values r))" by (simp add: child_sources_def r visit_equality_sources_def)
    finally show ?thesis using operand [OF r] r by (simp add: operand_ok_def)
  qed (auto simp: child_sources_def)
  ultimately have "card (set (shared_pairs cs)) \<le> card (\<Union>i<length ms. if i < length cs then set (child_sources (cs ! i)) else {})"
    and each: "\<And>i. card (if i < length cs then set (child_sources (cs ! i)) else {}) \<le> 1 + n"
    by (auto intro!: card_mono split: if_splits)
  note this(1)
  also have "card (\<Union>i<length ms. if i < length cs then set (child_sources (cs ! i)) else {})
      \<le> (\<Sum>i<length ms. card (if i < length cs then set (child_sources (cs ! i)) else {}))" by (rule card_UN_le) simp
  also have "\<dots> \<le> (\<Sum>i<length ms. 1 + n)" by (rule sum_mono) (rule each)
  finally show ?thesis unfolding distinct_card [OF shared_pairs(2)] by simp
qed

text \<open>What the two passes leave for the search.\<close>

lemma compiled_children:
  assumes int: "interned_children R J nodes K n U ms cs" and small: "n < 2 ^ 31" "length ms * (1 + n) \<le> class_limit"
    and run: "compile_equality_classes cs = (ds, classes)"
  shows "compile_antonyms R ds \<noteq> []" "antonyms_distinct (compile_antonyms R ds)"
    "\<forall>c\<in>set (compile_antonyms R ds). child_ready R nodes K c" "classes_agree classes (compile_antonyms R ds)"
    "(\<Inter>c\<in>set (compile_antonyms R ds). child_den R c q) = (\<Inter>c\<in>set cs. child_den R c q)"
    "\<And>r. Filter_Child (Equality_Leaf r) \<in> set (compile_antonyms R ds) \<Longrightarrow> (er_wildcard r, er_wildcard_source r) \<in> in_entries J"
proof -
  have J: "interner_ok J" and ne: "cs \<noteq> []" and sourced: "\<forall>c\<in>set cs. child_sourced J c" and ready: "\<forall>c\<in>set cs. child_ready R nodes K c"
    using int unfolding interned_children_def by blast+
  have operand: "i < length ms \<and> operand_ok R J n U (ms ! i) r"
    if "i < length cs" "equality_operand (cs ! i) = Some r" for i r
    using int that unfolding interned_children_def by blast
  have once: "i = j" if "i < length cs" "j < length cs" "equality_operand (cs ! i) \<noteq> None" "i < length ms" "j < length ms" "ms ! i = ms ! j" for i j
    using int that unfolding interned_children_def by blast
  have "list_all2 same_published cs ds \<and> classes_agree classes ds"
    using compile_equality_classes_spec [OF J sourced ready _ run] shared_pairs_length [OF int] small(2) by linarith
  then have rel: "list_all2 same_published cs ds" and agree: "classes_agree classes ds" by blast+
  note len = list_all2_lengthD [OF rel] and nth = list_all2_nthD [OF rel]
  have at: "\<exists>r0. equality_operand (cs ! i) = Some r0 \<and> i < length ms \<and> operand_ok R J n U (ms ! i) r"
    if i: "i < length ds" and r: "equality_operand (ds ! i) = Some r" for i r
  proof -
    have same: "same_published (cs ! i) (ds ! i)" using nth [of i] i len by simp
    then obtain r0 where r0: "equality_operand (cs ! i) = Some r0"
      using r by (cases "equality_operand (cs ! i)") (auto simp: same_published_def)
    with same r operand [OF _ r0] i len show ?thesis by (auto simp: same_published_def operand_ok_def)
  qed
  have ready2: "\<forall>c\<in>set ds. child_ready R nodes K c"
  proof
    fix c assume "c \<in> set ds"
    then obtain i where "i < length ds" "c = ds ! i" by (auto simp: in_set_conv_nth)
    moreover from this have "child_ready R nodes K (cs ! i)" using ready len by simp
    ultimately show "child_ready R nodes K c" using nth [of i] len unfolding same_published_def by metis
  qed
  have snd: "antonyms_sound R U ds"
    unfolding antonyms_sound_def
  proof (intro conjI allI impI)
    fix i r assume "i < length ds" "equality_operand (ds ! i) = Some r"
    from at [OF this] small(1) show "eq_stored R r = U" "eq_bounded r" by (auto simp: operand_ok_def eq_bounded_def)
    have "ds ! i = Filter_Child (Equality_Leaf r)" using \<open>equality_operand (ds ! i) = Some r\<close> by (simp add: equality_operand_Some)
    moreover have "child_ready R nodes K (ds ! i)" using ready2 \<open>i < length ds\<close> by simp
    ultimately show "eq_building r" by simp
  next
    fix i j r s assume i: "i < length ds" "equality_operand (ds ! i) = Some r" and j: "j < length ds" "equality_operand (ds ! j) = Some s"
    note r = at [OF i] and s = at [OF j]
    show "er_wildcard_source r = er_wildcard_source s \<Longrightarrow> bm_ids R (er_wildcard r) = bm_ids R (er_wildcard s)"
      using r s interner_unique [OF J, of "er_wildcard r" "er_wildcard_source r" "er_wildcard s"] by (auto simp: operand_ok_def)
    show "er_node r = er_node s \<Longrightarrow> i = j"
      using r s once [of i j] i j len by (auto simp: operand_ok_def)
  next
    fix r show "Antonym_Child r \<notin> set ds"
    proof
      assume "Antonym_Child r \<in> set ds"
      then obtain i where i: "i < length ds" "ds ! i = Antonym_Child r" by (auto simp: in_set_conv_nth)
      then have "cs ! i = Antonym_Child r" using nth [of i] len
        by (cases "equality_operand (cs ! i)") (auto simp: same_published_def)
      with i len sourced nth_mem [of i cs] show False by auto
    qed
  qed
  note compiled = compile_antonyms_ready [OF snd ready2]
  show "compile_antonyms R ds \<noteq> []" using compiled(4) ne len by (metis length_0_conv)
  show "antonyms_distinct (compile_antonyms R ds)" "\<forall>c\<in>set (compile_antonyms R ds). child_ready R nodes K c" by (rule compiled(2), rule compiled(1))
  show "classes_agree classes (compile_antonyms R ds)" using compiled(3) agree by blast
  have "(\<Inter>c\<in>set ds. child_den R c q) = (\<Inter>i<length ds. child_den R (ds ! i) q)" unfolding set_conv_nth by blast
  also have "\<dots> = (\<Inter>i<length cs. child_den R (cs ! i) q)" using nth len by (intro INF_cong) (auto simp: same_published_def)
  also have "\<dots> = (\<Inter>c\<in>set cs. child_den R c q)" unfolding set_conv_nth by blast
  finally show "(\<Inter>c\<in>set (compile_antonyms R ds). child_den R c q) = (\<Inter>c\<in>set cs. child_den R c q)"
    using compile_antonyms_den [OF snd, of q] by simp
  fix r assume "Filter_Child (Equality_Leaf r) \<in> set (compile_antonyms R ds)"
  then obtain i where "i < length ds" "ds ! i = Filter_Child (Equality_Leaf r)"
    using compile_antonyms_operands by (metis in_set_conv_nth)
  with at [of i r] show "(er_wildcard r, er_wildcard_source r) \<in> in_entries J" by (auto simp: operand_ok_def)
qed

end

section \<open>The published index\<close>

text \<open>The valuation of an index: the caches of a filter hold the results of its node.\<close>

definition node_valuation :: "'b roaring \<Rightarrow> ('t, 'v, 'k, 'b) leaf list \<Rightarrow> 'v valuation \<Rightarrow> bool" where
  "node_valuation R ls G \<longleftrightarrow> va_nodes G = length ls \<and> (\<forall>kind m k. va_den G kind m k = leaf_key_den R (ls ! m) k)"

lemma length_thread: "thread f xs s = Some (ys, s') \<Longrightarrow> length ys = length xs"
  by (induction xs arbitrary: s ys) (auto split: option.splits)

context roaring
begin

lemma children_ops:
  assumes "antonyms_distinct cs" "\<forall>c\<in>set cs. child_ready R (length ls) (\<lambda>m. leaf_key_den R (ls ! m)) c"
  shows "\<forall>c\<in>set cs. ops_ok R (child_valuation R (length ls) (\<lambda>m. leaf_key_den R (ls ! m)) (map (child_prepare R) cs))
      (published_ops R (child_prepare R c)) (child_den R c)"
  using child_ops_ok assms by blast

lemma prepare_all_sound:
  assumes J: "interner_ok J" and cs: "cs \<noteq> []" "antonyms_distinct cs"
    "\<forall>c\<in>set cs. child_ready R (length ls) (\<lambda>m. leaf_key_den R (ls ! m)) c" "classes_agree classes cs"
    and src: "\<And>r. Filter_Child (Equality_Leaf r) \<in> set cs \<Longrightarrow> (er_wildcard r, er_wildcard_source r) \<in> in_entries J"
  shows "all_sound R (child_valuation R (length ls) (\<lambda>m. leaf_key_den R (ls ! m)) (map (child_prepare R) cs))
      (prepare_all R cs classes) (map (child_den R) cs)"
proof -
  let ?ops = "map (published_ops R) (map (child_prepare R) cs)"
  have "groups_ok R ?ops (prepare_shared_groups R ?ops)"
  proof (rule prepare_shared_groups_ok, intro allI impI)
    fix i j a b
    assume i: "i < length ?ops" "co_shared (?ops ! i) = Some a" and j: "j < length ?ops" "co_shared (?ops ! j) = Some b"
      and eq: "sw_source a = sw_source b"
    have "co_shared (published_ops R (child_prepare R (cs ! i))) = Some a" using i by simp
    then obtain r where r: "cs ! i = Filter_Child (Equality_Leaf r)" "sw_source a = er_wildcard_source r" "sw_wildcard a = er_wildcard r"
      by (rule shared_operand)
    have "co_shared (published_ops R (child_prepare R (cs ! j))) = Some b" using j by simp
    then obtain s where s: "cs ! j = Filter_Child (Equality_Leaf s)" "sw_source b = er_wildcard_source s" "sw_wildcard b = er_wildcard s"
      by (rule shared_operand)
    have "Filter_Child (Equality_Leaf r) \<in> set cs" "Filter_Child (Equality_Leaf s) \<in> set cs"
      using i j r(1) s(1) nth_mem [of i cs] nth_mem [of j cs] by simp_all
    from src [OF this(1)] src [OF this(2)] interner_unique [OF J, of "er_wildcard r" "er_wildcard_source r" "er_wildcard s"] r s eq
    show "bm_ids R (sw_wildcard a) = bm_ids R (sw_wildcard b)" by simp
  qed
  moreover have "classes_ok ?ops classes (map (child_den R) cs)"
    using cs(4) by (auto simp: classes_ok_def classes_agree_def)
  moreover have "\<forall>i<length cs. ops_ok R (child_valuation R (length ls) (\<lambda>m. leaf_key_den R (ls ! m)) (map (child_prepare R) cs))
      (?ops ! i) (child_den R (cs ! i))"
    using children_ops [OF cs(2,3)] by simp
  ultimately show ?thesis using cs(1) by (simp add: all_sound_def prepare_all_def Let_def child_valuation_def)
qed

lemma publish_root_sound:
  assumes built: "leaves_built R fs A n es ls" and n: "n < 2 ^ 31" and es: "snd ` es \<subseteq> U"
    and root: "published_shape ls root" "full_matches R U root" "set (tree_nodes root) \<subseteq> A"
    and small: "length (tree_nodes root) * (1 + n) \<le> class_limit"
    and run: "publish_root R ls root I = Some (rt, J)" and I: "interner_ok I"
  shows "interner_ok J \<and> (\<exists>G D. node_valuation R ls G \<and> root_sound R G rt D
      \<and> (\<forall>q. all_den D q = tree_den R (\<lambda>m. leaf_den R (ls ! m) q) U root))"
proof -
  have len: "length ls = length fs" using built by (simp add: leaves_built_def)
  let ?K = "\<lambda>m. leaf_key_den R (ls ! m)"
  obtain cs J' where t: "thread (child_intern R) (tree_children ls root) I = Some (cs, J')"
    using run by (auto simp: publish_root_def split: option.splits)
  have n63: "n < 2 ^ 63" using n by simp
  note int = children_interned(1) [OF built n63 es root I t] and den = children_interned(2) [OF built n63 es root I t]
  have ne: "cs \<noteq> []" and J: "interner_ok J'" and each: "\<forall>c\<in>set cs. child_ready R (length ls) ?K c \<and> child_sourced J' c"
    using int len unfolding interned_children_def by auto
  show ?thesis
  proof (cases "\<exists>object ts. root = All_Node object ts")
    case True
    obtain ds classes where c: "compile_equality_classes cs = (ds, classes)" by fastforce
    let ?as = "compile_antonyms R ds" and ?G = "child_valuation R (length ls) ?K (map (child_prepare R) (compile_antonyms R ds))"
    have r: "rt = All_Root (prepare_all R ?as classes)" "J = J'" using run t c True by (auto simp: publish_root_def)
    note comp = compiled_children [OF int n small c]
    have "all_sound R ?G (prepare_all R ?as classes) (map (child_den R) ?as)"
      by (rule prepare_all_sound [OF J comp(1,2) _ comp(4,6)]) (use comp(3) len in simp)
    moreover have "node_valuation R ls ?G" by (simp add: node_valuation_def child_valuation_def)
    moreover have "all_den (map (child_den R) ?as) q = tree_den R (\<lambda>m. leaf_den R (ls ! m) q) U root" for q
      using comp(5) den by (simp add: all_den_def)
    ultimately show ?thesis using J by (auto simp: r root_sound_def)
  next
    case False
    let ?G = "child_valuation R (length ls) ?K (map (child_prepare R) cs)"
    have r: "rt = Leaf_Root (published_ops R (child_prepare R (hd cs)))" "J = J'"
      using run t False by (cases root; auto simp: publish_root_def)+
    have "length (tree_children ls root) = 1" using False by (cases root) auto
    moreover have "length cs = length (tree_children ls root)" using length_thread [OF t] .
    ultimately obtain c where c: "cs = [c]" by (auto simp: length_Suc_conv)
    have "antonyms_distinct cs" using each by (auto simp: antonyms_distinct_def)
    from children_ops [OF this, of ls] each have "ops_ok R ?G (published_ops R (child_prepare R c)) (child_den R c)" by (simp add: c)
    then have "root_sound R ?G rt [child_den R c]" by (simp add: root_sound_def r c)
    moreover have "node_valuation R ls ?G" by (simp add: node_valuation_def child_valuation_def)
    moreover have "all_den [child_den R c] q = tree_den R (\<lambda>m. leaf_den R (ls ! m) q) U root" for q
      using den by (simp add: all_den_def c)
    ultimately show ?thesis using J r by blast
  qed
qed

lemma publish_exclusions_sound:
  assumes built: "leaves_built R fs A n es ls" and n: "n < 2 ^ 63" and G: "node_valuation R ls G"
    and sub: "set exclusions \<subseteq> A" "\<forall>m\<in>set exclusions. is_exclusion (ls ! m)" and I: "interner_ok I"
    and run: "publish_exclusions R ls exclusions I = Some xs"
  shows "exclusions_ok R G xs (map (\<lambda>m. leaf_forbidden R (ls ! m)) exclusions)"
proof -
  obtain ys J where t: "thread (leaf_intern R) (map (\<lambda>m. ls ! m) exclusions) I = Some (ys, J)"
    using run by (auto simp: publish_exclusions_def split: option.splits)
  have leaf: "leaf_built R m (fs ! m) n es (ls ! m)" "m < length ls" if "m \<in> set exclusions" for m
    using built sub(1) that unfolding leaves_built_def by auto
  have "intern_step (\<lambda>a b I. same_leaf R a b) (leaf_intern R) (set (map (\<lambda>m. ls ! m) exclusions))"
    unfolding step_ok_def
  proof (intro ballI allI impI)
    fix a I b J assume "a \<in> set (map (\<lambda>m. ls ! m) exclusions)" and I: "interner_ok I" and r: "leaf_intern R a I = Some (b, J)"
    then obtain m where m: "m \<in> set exclusions" "a = ls ! m" by auto
    from leaf_intern_spec [OF I r] leaf_ready_built [OF leaf(1) [OF m(1)] n] leaf_unsourced_built [OF leaf(1) [OF m(1)]] m(2)
    show "interner_ok J \<and> in_le I J \<and> same_leaf R a b" by simp
  qed
  from thread_intern [OF this I t] have rel: "list_all2 (same_leaf R) (map (\<lambda>m. ls ! m) exclusions) ys" by simp
  have xs: "xs = map (\<lambda>y. published_exclusion R (leaf_prepare R y)) ys" using run t by (simp add: publish_exclusions_def comp_def)
  have one: "exclusion_ok R G (published_exclusion R (leaf_prepare R y)) (leaf_forbidden R (ls ! m))"
    if m: "m \<in> set exclusions" and same: "same_leaf R (ls ! m) y" for m y
  proof -
    have "is_exclusion y" using same sub(2) m by (simp add: same_leaf_def)
    then obtain r where y: "y = Exclusion_Leaf r" by (cases y) simp_all
    have bld: "nt_building r" using same by (simp add: y same_leaf_def)
    have "nt_node r = m" using same leaf_node_built [OF leaf(1) [OF m]] by (simp add: y same_leaf_def)
    then have ready: "nt_ready R G r"
      using G leaf(2) [OF m] same bld by (intro leaf_exclusion_ready) (simp_all add: y same_leaf_def node_valuation_def del: split_paired_All)
    have "leaf_forbidden R (ls ! m) = nt_den R r" using same by (simp add: y same_leaf_def fun_eq_iff)
    with nt_exclude_spec [OF ready] nt_is_excluded_iff [OF bld] show ?thesis by (auto simp: y exclusion_ok_def)
  qed
  show ?thesis unfolding exclusions_ok_def xs list_all2_conv_all_nth
    using list_all2_lengthD [OF rel] list_all2_nthD [OF rel] one by auto
qed

end

end
