(* ===== verification/Build_Correctness.thy ===== *)
theory Build_Correctness
  imports Publish_Root
begin

text \<open>
  What \<open>Build\<close> and \<open>Search\<close> compute together: the external IDs that have, for every column of every filter,
  a stored constraint the query satisfies, and no stored value an \<open>Exclude\<close> filter forbids.
\<close>

section \<open>The specification\<close>

definition schema_ok :: "('t, 'v, 'k) schema \<Rightarrow> bool" where
  "schema_ok s \<longleftrightarrow> objects_ok s \<and> (\<forall>f\<in>set (schema_filters s). spec_ok f)"

definition matches :: "('t, 'v, 'k) schema \<Rightarrow> ('t \<times> 'id) list \<Rightarrow> 't \<Rightarrow> 'id \<Rightarrow> bool" where
  "matches s es q x \<longleftrightarrow>
     (\<forall>f\<in>set (schema_filters s). \<forall>m\<in>set (spec_columns f). \<exists>t. (t, x) \<in> set es \<and> m t q)
     \<and> \<not> (\<exists>f\<in>set (schema_filters s). \<exists>t. (t, x) \<in> set es \<and> spec_forbids f t q)"

text \<open>What the wrapping sums, class numbers and source numbers of a build have to hold.\<close>

definition build_size :: "('t, 'v, 'k) schema \<Rightarrow> nat \<Rightarrow> nat" where
  "build_size s n = length (schema_filters s) * (1 + n * length (schema_filters s))"

fun stores_exclusion :: "('t \<times> 'id) list \<Rightarrow> ('t, 'v, 'k) filter_spec \<Rightarrow> bool" where
  "stores_exclusion es (Exclude_Filter get) \<longleftrightarrow> (\<exists>e\<in>set es. get (fst e) \<noteq> None)"
| "stores_exclusion es _ \<longleftrightarrow> False"

fun is_exclude :: "('t, 'v, 'k) filter_spec \<Rightarrow> bool" where
  "is_exclude (Exclude_Filter get) \<longleftrightarrow> True"
| "is_exclude _ \<longleftrightarrow> False"

text \<open>The exclusions of the schema leave the positive tree: there is none, or one stores a value.\<close>

definition exclusions_separate :: "('t, 'v, 'k) schema \<Rightarrow> ('t \<times> 'id) list \<Rightarrow> bool" where
  "exclusions_separate s es \<longleftrightarrow> (\<forall>f\<in>set (schema_filters s). \<not> is_exclude f) \<or> (\<exists>f\<in>set (schema_filters s). stores_exclusion es f)"

lemma built_exclude: "leaf_built R m f n es lf \<Longrightarrow> is_exclusion lf \<longleftrightarrow> is_exclude f"
  by (cases f; cases lf) simp_all

lemma built_stores: "leaf_built R m f n (stored vs es) lf \<Longrightarrow> set vs = snd ` set es \<Longrightarrow> length vs \<le> 2 ^ 32 \<Longrightarrow>
    leaf_has_exclusions lf \<longleftrightarrow> stores_exclusion es f"
proof (cases f; cases lf; simp)
  fix get r assume vs: "set vs = snd ` set es" "length vs \<le> 4294967296"
  have both: "(\<exists>(t, i)\<in>stored vs es. P t) \<longleftrightarrow> (\<exists>e\<in>set es. P (fst e))" for P
  proof
    assume "\<exists>(t, i)\<in>stored vs es. P t"
    then obtain t and i :: u32 where "(t, vs ! unat i) \<in> set es" "P t" by (auto simp: stored_def)
    then show "\<exists>e\<in>set es. P (fst e)" by (intro bexI [of _ "(t, vs ! unat i)"]) simp_all
  next
    assume "\<exists>e\<in>set es. P (fst e)"
    then obtain t x where e: "(t, x) \<in> set es" "P t" by auto
    then have "x \<in> set vs" using vs(1) by force
    then obtain k where k: "k < length vs" "vs ! k = x" by (auto simp: in_set_conv_nth)
    then have "unat (of_nat k :: u32) = k" using vs(2) by (simp add: unsigned_of_nat take_bit_nat_eq_self)
    with k e have "(t, of_nat k) \<in> stored vs es" by (simp add: stored_def)
    with e show "\<exists>(t, i)\<in>stored vs es. P t" by blast
  qed
  show "(\<exists>(t, i)\<in>stored vs es. \<exists>y. get t = Some y) = (\<exists>e\<in>set es. \<exists>y. get (fst e) = Some y)"
    by (rule both)
qed

text \<open>Selecting external IDs by internal ID keeps their order.\<close>

lemma external_filter:
  assumes "length vs \<le> 2 ^ 32"
  shows "external_ids vs (sorted_list_of_set {i. unat i < length vs \<and> P (vs ! unat i)}) = filter P vs"
proof -
  let ?S = "{i :: u32. unat i < length vs \<and> P (vs ! unat i)}"
  let ?xs = "filter (\<lambda>i. P (vs ! unat i)) (map of_nat [0..<length vs]) :: u32 list"
  have inv: "unat (of_nat k :: u32) = k" if "k < length vs" for k
    using that assms by (simp add: unsigned_of_nat take_bit_nat_eq_self)
  have "sorted_wrt (<) (map of_nat [0..<length vs] :: u32 list)"
    by (simp add: sorted_wrt_map sorted_wrt_iff_nth_less word_less_nat_alt inv)
  then have sorted: "sorted_wrt (<) ?xs" by (rule sorted_wrt_filter)
  have "i \<in> of_nat ` {0..<length vs}" if "unat i < length vs" for i :: u32
    using that by (intro image_eqI [of _ _ "unat i"]) simp_all
  then have "set ?xs = ?S" using inv by auto
  moreover have "sorted_list_of_set (set ?xs) = ?xs"
    by (rule sorted_list_of_set.idem_if_sorted_distinct) (use strict_sorted_iff [THEN iffD1, OF sorted] in blast)+
  ultimately have "sorted_list_of_set ?S = ?xs" by metis
  moreover have "map (\<lambda>i. vs ! unat i) ?xs = filter P (map (\<lambda>i. vs ! unat i) (map of_nat [0..<length vs] :: u32 list))"
    by (simp add: filter_map comp_def)
  moreover have "map (\<lambda>i. vs ! unat i) (map of_nat [0..<length vs] :: u32 list) = vs"
    by (rule nth_equalityI) (simp_all add: inv)
  ultimately show ?thesis by (simp add: external_ids_def)
qed

lemma stored_column: "i \<in> column_ids (stored vs es) m q \<longleftrightarrow> unat i < length vs \<and> (\<exists>t. (t, vs ! unat i) \<in> set es \<and> m t q)"
  by (auto simp: column_ids_def stored_def)

section \<open>The state before the entries\<close>

lemma new_state_root:
  assumes "schema_ok s" "new_state s new_allocator = (tree, a)"
  shows "state_of (al_filters a) [s] [tree]" "without_match_all tree" "\<forall>f\<in>set (al_filters a). spec_ok f"
proof -
  have "allocator_ok (subschemas s) new_allocator" by (simp add: allocator_ok_def new_allocator_def)
  moreover have "c = d" if "c \<in> subschemas s" "d \<in> subschemas s" "schema_object c = schema_object d" for c d
    using assms(1) that unfolding schema_ok_def objects_ok_def by blast
  ultimately have "allocates (subschemas s) [s] new_allocator a \<and> state_of (al_filters a) [s] [tree]"
    using new_state_ok(1) [of "subschemas s" s] assms(2) by blast
  with assms(1) show "state_of (al_filters a) [s] [tree]" "\<forall>f\<in>set (al_filters a). spec_ok f"
    by (auto simp: schema_ok_def new_allocator_def)
  show "without_match_all tree"
    using new_state_without_match_all(1) [OF _ assms(2)] by (simp add: new_allocator_def)
qed

context roaring
begin

lemma loop_ok_new:
  assumes "schema_ok s" "new_state s new_allocator = (tree, a)"
  shows "loop_ok R (al_filters a) tree [] Map.empty [] (initial_leaves R (al_filters a))"
proof -
  note root = new_state_root [OF assms]
  have "set (tree_nodes tree) \<subseteq> {..<length (al_filters a)}" using root(1) by (simp add: state_of_def)
  from leaves_built_initial [OF this root(3)] show ?thesis
    by (simp add: loop_ok_def ids_ok_def stored_def)
qed

text \<open>What a successful build has run through.\<close>

lemma build_index_Inr:
  assumes s: "schema_ok s" and run: "build_index R s (Some es) = Inr ix"
  obtains tree a ids ls root exclusions J rt where
    "new_state s new_allocator = (tree, a)" "loop_ok R (al_filters a) tree es ids (unique_ids [] es) ls"
    "build_root R ls (of_nat (length (unique_ids [] es))) tree = (root, exclusions)"
    "publish_root R ls root new_interner = Some (rt, J)" "publish_exclusions R ls exclusions J = Some (ix_exclusions ix)"
    "ix_root ix = rt" "ix_values ix = unique_ids [] es" "ix_nodes ix = length (al_filters a)" "\<forall>e\<in>set es. accepted (al_filters a) (set (tree_nodes tree)) (fst e)"
proof -
  obtain tree :: "'b rule_tree" and a where state: "new_state s new_allocator = (tree, a)" by fastforce
  obtain vs ls where entries: "build_entries R tree es 0 Map.empty [] (initial_leaves R (al_filters a)) = Inr (vs, ls)"
    using run state by (auto simp: build_index_def split: sum.splits)
  have "(\<exists>ids. loop_ok R (al_filters a) tree es ids vs ls) \<and> vs = unique_ids [] es
      \<and> (\<forall>e\<in>set es. accepted (al_filters a) (set (tree_nodes tree)) (fst e))"
    using build_entries_ok [OF loop_ok_new [OF s state], of 0 es] by (auto simp: entries)
  moreover obtain root exclusions where root: "build_root R ls (of_nat (length vs)) tree = (root, exclusions)" by fastforce
  moreover obtain rt xs where pub: "publish R ls root exclusions = Some (rt, xs)"
      and ix: "ix = \<lparr>ix_root = rt, ix_values = vs, ix_nodes = length (al_filters a), ix_exclusions = xs\<rparr>"
    using run state entries root by (auto simp: build_index_def split: option.splits)
  moreover obtain J where "publish_root R ls root new_interner = Some (rt, J)" "publish_exclusions R ls exclusions J = Some xs"
    using pub by (auto simp: publish_def split: option.splits)
  ultimately show ?thesis using that [OF state] by simp blast
qed

text \<open>The published root and exclusions of a built index are sound for one valuation of its nodes.\<close>

lemma build_index_published:
  assumes s: "schema_ok s" and size: "build_size s (length es) < 2 ^ 31" and run: "build_index R s (Some es) = Inr ix"
  obtains tree a ids ls root exclusions G D where
    "new_state s new_allocator = (tree, a)" "loop_ok R (al_filters a) tree es ids (unique_ids [] es) ls"
    "build_root R ls (of_nat (length (unique_ids [] es))) tree = (root, exclusions)"
    "va_nodes G = ix_nodes ix" "root_sound R G (ix_root ix) D"
    "\<forall>q. all_den D q = tree_den R (\<lambda>m. leaf_den R (ls ! m) q) {i. unat i < length (unique_ids [] es)} root"
    "exclusions_ok R G (ix_exclusions ix) (map (\<lambda>m. leaf_forbidden R (ls ! m)) exclusions)"
    "ix_values ix = unique_ids [] es"
proof -
  obtain tree a ids ls root exclusions J rt where
    state: "new_state s new_allocator = (tree, a)" and loop: "loop_ok R (al_filters a) tree es ids (unique_ids [] es) ls"
    and broot: "build_root R ls (of_nat (length (unique_ids [] es))) tree = (root, exclusions)"
    and proot: "publish_root R ls root new_interner = Some (rt, J)"
    and pex: "publish_exclusions R ls exclusions J = Some (ix_exclusions ix)"
    and ix: "ix_root ix = rt" "ix_values ix = unique_ids [] es" "ix_nodes ix = length (al_filters a)"
    using build_index_Inr [OF s run] .
  define vs where "vs = unique_ids [] es"
  let ?T = "length (schema_filters s)" and ?n = "length es * length (tree_nodes tree)" and ?A = "set (tree_nodes tree)"
  let ?U = "{i :: u32. unat i < length vs}" and ?E = "stored vs es"
  have nodes: "length (tree_nodes tree) \<le> ?T"
    using new_state_root(1) [OF s state] by (simp add: state_of_def)
  have vs: "length vs \<le> 2 ^ 32" and built: "leaves_built R (al_filters a) ?A ?n ?E ls"
    using loop by (simp_all add: loop_ok_def ids_ok_def vs_def)
  have E: "snd ` ?E \<subseteq> ?U" by (auto simp: stored_def)
  note spec = build_root_spec [OF built E refl vs new_state_root(2) [OF s state] broot [folded vs_def]]
  have mono: "length (tree_nodes root) * (1 + ?n) \<le> build_size s (length es)"
    unfolding build_size_def using spec(8) nodes by (intro mult_mono add_mono) simp_all
  have "?n < 2 ^ 31"
  proof (cases "?T = 0")
    case True
    with nodes show ?thesis by simp
  next
    case False
    have "?n \<le> 1 * (1 + length es * ?T)" using nodes by (simp add: mult_le_mono2 le_SucI)
    also have "\<dots> \<le> build_size s (length es)" unfolding build_size_def using False by (intro mult_le_mono1) (simp add: Suc_le_eq)
    finally show ?thesis using size by simp
  qed
  moreover have "length (tree_nodes root) * (1 + ?n) \<le> class_limit" using mono size by simp
  moreover note interner_ok_new
  ultimately obtain G D where J: "interner_ok J" and G: "node_valuation R ls G" and D: "root_sound R G rt D"
      "\<And>q. all_den D q = tree_den R (\<lambda>m. leaf_den R (ls ! m) q) ?U root"
    using publish_root_sound [OF built _ E spec(1-3) _ proot] by blast
  have sub: "set exclusions \<subseteq> ?A" "\<forall>m\<in>set exclusions. is_exclusion (ls ! m)"
  proof -
    have "leaf_has_exclusions (ls ! m) \<Longrightarrow> is_exclusion (ls ! m)" for m by (cases "ls ! m") simp_all
    then show "set exclusions \<subseteq> ?A" "\<forall>m\<in>set exclusions. is_exclusion (ls ! m)" using spec(4) by auto
  qed
  have "?n < 2 ^ 63" using \<open>?n < 2 ^ 31\<close> by simp
  note ex = publish_exclusions_sound [OF built this G sub J pex]
  let ?Es = "map (\<lambda>m. leaf_forbidden R (ls ! m)) exclusions"
  have len: "length ls = ix_nodes ix" using built ix(3) by (simp add: leaves_built_def)
  show ?thesis
    by (rule that [OF state loop broot, of G D]) (use G D ex ix len in \<open>simp_all add: node_valuation_def vs_def\<close>)
qed

lemma build_index_sound:
  assumes s: "schema_ok s" and size: "build_size s (length es) < 2 ^ 31" and run: "build_index R s (Some es) = Inr ix"
  shows "index_Search R ix q dst = (let ids = (if exclusions_separate s es then filter (matches s es q) (unique_ids [] es) else [])
    in (ids \<noteq> [], dst @ ids))"
proof -
  obtain tree a ids ls root exclusions G D where
    state: "new_state s new_allocator = (tree, a)" and loop: "loop_ok R (al_filters a) tree es ids (unique_ids [] es) ls"
    and broot: "build_root R ls (of_nat (length (unique_ids [] es))) tree = (root, exclusions)"
    and "va_nodes G = ix_nodes ix"
    and D: "root_sound R G (ix_root ix) D"
      "\<forall>q. all_den D q = tree_den R (\<lambda>m. leaf_den R (ls ! m) q) {i. unat i < length (unique_ids [] es)} root"
    and ex: "exclusions_ok R G (ix_exclusions ix) (map (\<lambda>m. leaf_forbidden R (ls ! m)) exclusions)"
    and ix: "ix_values ix = unique_ids [] es"
    using build_index_published [OF s size run] .
  define vs where "vs = unique_ids [] es"
  let ?n = "length es * length (tree_nodes tree)" and ?A = "set (tree_nodes tree)"
  let ?U = "{i :: u32. unat i < length vs}" and ?E = "stored vs es" and ?den = "\<lambda>m. leaf_den R (ls ! m) q"
  have nodes: "(!) (al_filters a) ` ?A = set (schema_filters s)"
    using new_state_root(1) [OF s state] by (simp add: state_of_def)
  have vs: "length vs \<le> 2 ^ 32" "set vs = snd ` set es" and built: "leaves_built R (al_filters a) ?A ?n ?E ls"
    using loop by (simp_all add: loop_ok_def ids_ok_def vs_def)
  have E: "snd ` ?E \<subseteq> ?U" by (auto simp: stored_def)
  note spec = build_root_spec [OF built E refl vs(1) new_state_root(2) [OF s state] broot [folded vs_def]]
  have leaf: "leaf_built R m (al_filters a ! m) ?n ?E (ls ! m)" if "m \<in> ?A" for m
    using built that by (simp add: leaves_built_def)
  let ?Es = "map (\<lambda>m. leaf_forbidden R (ls ! m)) exclusions"
  have search: "index_Search R ix q dst = (index_den D ?Es q \<noteq> {}, dst @ external_ids vs (sorted_list_of_set (index_den D ?Es q)))"
    using index_search_exact [OF D(1) ex] ix by (simp add: vs_def)
  have stores: "leaf_has_exclusions (ls ! m) \<longleftrightarrow> stores_exclusion es (al_filters a ! m)"
    and excl: "is_exclusion (ls ! m) \<longleftrightarrow> is_exclude (al_filters a ! m)" if "m \<in> ?A" for m
    using built_stores [OF leaf [OF that] vs(2,1)] built_exclude [OF leaf [OF that]] by blast+
  have none: "exclusions = [] \<longleftrightarrow> (\<forall>f\<in>set (schema_filters s). \<not> stores_exclusion es f)"
    unfolding nodes [symmetric] using spec(4) stores by (auto simp: set_empty [symmetric] simp del: set_empty)
  have noex: "(\<forall>m\<in>?A. \<not> is_exclusion (ls ! m)) \<longleftrightarrow> (\<forall>f\<in>set (schema_filters s). \<not> is_exclude f)"
    unfolding nodes [symmetric] using excl by auto
  show ?thesis
  proof (cases "exclusions_separate s es")
    case True
    then have "exclusions \<noteq> [] \<or> (\<forall>m\<in>?A. \<not> is_exclusion (ls ! m))" using none noex by (auto simp: exclusions_separate_def)
    note pos = spec(5) [OF this, of q]
    have col: "i \<in> positive_den R ls ?U q m \<longleftrightarrow> (\<forall>c\<in>set (spec_columns (al_filters a ! m)). \<exists>t. (t, vs ! unat i) \<in> set es \<and> c t q)"
      if "m \<in> ?A" "unat i < length vs" for m i
    proof (cases "is_exclusion (ls ! m)")
      case True
      then have "spec_columns (al_filters a ! m) = []" using excl [OF that(1)] by (cases "al_filters a ! m") auto
      with True that show ?thesis by (simp add: positive_den_def)
    next
      case False
      with leaf_den_built [OF leaf [OF that(1)] False, of q] that(2) show ?thesis by (simp add: positive_den_def stored_column)
    qed
    have forb: "i \<in> excluded_den ?Es q \<longleftrightarrow> (\<exists>m\<in>?A. \<exists>t. (t, vs ! unat i) \<in> set es \<and> spec_forbids (al_filters a ! m) t q)"
      if "unat i < length vs" for i
    proof -
      have each: "i \<in> leaf_forbidden R (ls ! m) q \<longleftrightarrow> (\<exists>t. (t, vs ! unat i) \<in> set es \<and> spec_forbids (al_filters a ! m) t q)"
        if "m \<in> ?A" for m
        using leaf_forbidden_built [OF leaf [OF that], of q] \<open>unat i < length vs\<close> by (simp add: stored_column)
      have silent: "i \<notin> leaf_forbidden R (ls ! m) q" if "m \<in> ?A" "\<not> leaf_has_exclusions (ls ! m)" for m
        using each [OF that(1)] stores [OF that(1)] that(2) by (cases "al_filters a ! m") (auto simp: exclude_column_def split: option.splits)
      have "i \<in> excluded_den ?Es q \<longleftrightarrow> (\<exists>m\<in>?A. leaf_has_exclusions (ls ! m) \<and> i \<in> leaf_forbidden R (ls ! m) q)"
        using spec(4) by (auto simp: excluded_den_def)
      also have "\<dots> \<longleftrightarrow> (\<exists>m\<in>?A. i \<in> leaf_forbidden R (ls ! m) q)" using silent by blast
      finally show ?thesis using each by blast
    qed
    have "matches s es q x \<longleftrightarrow> (\<forall>m\<in>?A. \<forall>c\<in>set (spec_columns (al_filters a ! m)). \<exists>t. (t, x) \<in> set es \<and> c t q)
        \<and> \<not> (\<exists>m\<in>?A. \<exists>t. (t, x) \<in> set es \<and> spec_forbids (al_filters a ! m) t q)" for x
      unfolding matches_def nodes [symmetric] by simp
    then have "index_den D ?Es q = {i. unat i < length vs \<and> matches s es q (vs ! unat i)}"
      using col forb unfolding index_den_def D(2) [folded vs_def, rule_format] pos by auto
    moreover have "({i. unat i < length vs \<and> matches s es q (vs ! unat i)} :: u32 set) = {} \<longleftrightarrow> filter (matches s es q) vs = []"
      using external_filter [OF vs(1), of "matches s es q"] by (metis (no_types, lifting) external_ids_def map_is_Nil_conv
          sorted_list_of_set.sorted_key_list_of_set_empty sorted_list_of_set.set_sorted_key_list_of_set finite set_empty)
    ultimately show ?thesis using True external_filter [OF vs(1), of "matches s es q"] by (simp add: search vs_def Let_def)
  next
    case False
    then obtain f where "f \<in> set (schema_filters s)" "is_exclude f" by (auto simp: exclusions_separate_def)
    then obtain m where "m \<in> ?A" "is_exclusion (ls ! m)" using excl unfolding nodes [symmetric] by auto
    moreover have "exclusions = []" using False none by (auto simp: exclusions_separate_def)
    ultimately have "index_den D ?Es q = {}" using spec(6) D(2) [folded vs_def, rule_format] by (simp add: index_den_def)
    with False show ?thesis by (simp add: search external_ids_def)
  qed
qed

end

end
