(* ===== verification/Build_Total.thy ===== *)
theory Build_Total
  imports Build_Correctness
begin

text \<open>
  When \<open>Build\<close> fails: never for a schema and entries within its bounds whose entries every filter accepts;
  otherwise with the error of the first rejected entry, or with a limit.
\<close>

definition valid_entry :: "('t, 'v, 'k) schema \<Rightarrow> 't \<Rightarrow> bool" where
  "valid_entry s c \<longleftrightarrow> (\<forall>f\<in>set (schema_filters s). spec_validate f c = None)"

lemma accepted_schema:
  assumes "state_of fs [s] [tree]"
  shows "accepted fs (set (tree_nodes tree)) c \<longleftrightarrow> valid_entry s c"
    "(\<exists>m\<in>set (tree_nodes tree). spec_validate (fs ! m) c = Some e) \<longleftrightarrow> (\<exists>f\<in>set (schema_filters s). spec_validate f c = Some e)"
proof -
  have "set (schema_filters s) = (!) fs ` set (tree_nodes tree)" using assms by (simp add: state_of_def)
  then show "accepted fs (set (tree_nodes tree)) c \<longleftrightarrow> valid_entry s c"
    "(\<exists>m\<in>set (tree_nodes tree). spec_validate (fs ! m) c = Some e) \<longleftrightarrow> (\<exists>f\<in>set (schema_filters s). spec_validate f c = Some e)"
    unfolding accepted_def valid_entry_def by simp_all
qed

lemma sum_list_le_const: "(\<And>x. x \<in> set xs \<Longrightarrow> f x \<le> c) \<Longrightarrow> (\<Sum>x\<leftarrow>xs. f x) \<le> length xs * (c :: nat)"
  by (induction xs) (auto intro: add_mono)

context roaring
begin

section \<open>Source numbers suffice\<close>

lemma children_total:
  assumes built: "leaves_built R fs A n es ls" and n: "n < 2 ^ 63"
    and root: "published_shape ls root" "full_matches R U root" "set (tree_nodes root) \<subseteq> A"
    and room: "in_used I + (1 + length (tree_nodes root) * (2 + 4 * n)) \<le> source_limit"
  shows "\<exists>cs J. thread (child_intern R) (tree_children ls root) I = Some (cs, J)
    \<and> in_used J \<le> in_used I + (1 + length (tree_nodes root) * (2 + 4 * n))"
proof -
  have leaf: "leaf_ready R (ls ! m) \<and> leaf_unsourced (ls ! m) \<and> leaf_items (ls ! m) \<le> 2 * n" if "m \<in> set (tree_nodes root)" for m
    using built root(3) that leaf_ready_built [OF _ n] leaf_unsourced_built unfolding leaves_built_def by blast
  have ok: "\<forall>x\<in>set (tree_children ls root). child_internable R x"
    using root_children [OF root(1,2)] leaf by auto
  have cost: "(\<Sum>x\<leftarrow>tree_children ls root. child_cost x) \<le> 1 + length (tree_nodes root) * (2 + 4 * n)"
    using root_children [OF root(1,2)]
  proof (elim disjE exE conjE)
    fix b assume "tree_children ls root = [Match_All_Child b 0]"
    then show ?thesis by simp
  next
    assume "tree_children ls root = map (\<lambda>m. Filter_Child (ls ! m)) (tree_nodes root)"
    then have "(\<Sum>x\<leftarrow>tree_children ls root. child_cost x) = (\<Sum>m\<leftarrow>tree_nodes root. 2 + 2 * leaf_items (ls ! m))"
      by (simp add: comp_def)
    also have "\<dots> \<le> length (tree_nodes root) * (2 + 4 * n)" by (rule sum_list_le_const) (use leaf in fastforce)
    finally show ?thesis by simp
  qed
  have "within (thread (child_intern R)) (tree_children ls root) (\<Sum>x\<leftarrow>tree_children ls root. child_cost x)"
    by (rule within_thread) (use ok within_child in blast)
  note within_more [OF this cost]
  from withinD [OF this room] show ?thesis by blast
qed

lemma exclusions_total:
  assumes built: "leaves_built R fs A n es ls" and n: "n < 2 ^ 63" and sub: "set exclusions \<subseteq> A"
    and room: "in_used I + length exclusions * (2 + 4 * n) \<le> source_limit"
  shows "\<exists>xs. publish_exclusions R ls exclusions I = Some xs"
proof -
  have leaf: "leaf_ready R (ls ! m) \<and> leaf_items (ls ! m) \<le> 2 * n" if "m \<in> set exclusions" for m
    using built sub that leaf_ready_built [OF _ n] unfolding leaves_built_def by blast
  let ?xs = "map (\<lambda>n. ls ! n) exclusions"
  have "within (thread (leaf_intern R)) ?xs (\<Sum>lf\<leftarrow>?xs. 2 + 2 * leaf_items lf)"
    by (rule within_thread) (use leaf within_leaf in auto)
  moreover have "(\<Sum>lf\<leftarrow>?xs. 2 + 2 * leaf_items lf) \<le> length ?xs * (2 + 4 * n)"
    by (rule sum_list_le_const) (use leaf in fastforce)
  ultimately have "within (thread (leaf_intern R)) ?xs (length exclusions * (2 + 4 * n))" by (simp add: within_more)
  from withinD [OF this room] show ?thesis by (auto simp: publish_exclusions_def)
qed

lemma publish_total:
  assumes built: "leaves_built R fs A n es ls" and n: "n < 2 ^ 63"
    and root: "published_shape ls root" "full_matches R U root" "set (tree_nodes root) \<subseteq> A" "set exclusions \<subseteq> A"
    and room: "1 + (length (tree_nodes root) + length exclusions) * (2 + 4 * n) \<le> source_limit"
  shows "\<exists>rt xs. publish R ls root exclusions = Some (rt, xs)"
proof -
  obtain cs J where t: "thread (child_intern R) (tree_children ls root) new_interner = Some (cs, J)"
    "in_used J \<le> 1 + length (tree_nodes root) * (2 + 4 * n)"
    using children_total [OF built n root(1-3), of new_interner] room by (auto simp: in_used_new algebra_simps)
  have "\<exists>rt. publish_root R ls root new_interner = Some (rt, J)"
    using t(1) by (cases root) (auto simp: publish_root_def split: prod.split)
  moreover have "in_used J + length exclusions * (2 + 4 * n) \<le> source_limit" using t(2) room by (simp add: algebra_simps)
  then have "\<exists>xs. publish_exclusions R ls exclusions J = Some xs" by (rule exclusions_total [OF built n root(4)])
  ultimately show ?thesis by (auto simp: publish_def)
qed

section \<open>The result of a build\<close>

lemma build_index_result:
  assumes s: "schema_ok s" and size: "build_size s (length es) < 2 ^ 29"
  shows "case build_index R s (Some es) of
      Inr ix \<Rightarrow> ix_values ix = unique_ids [] es \<and> (\<forall>e\<in>set es. valid_entry s (fst e))
    | Inl err \<Rightarrow> (err = Too_Many_Rules \<and> 2 ^ 32 \<le> card (snd ` set es))
        \<or> (\<exists>k e. k < length es \<and> err = Entry_Error k e \<and> (\<exists>f\<in>set (schema_filters s). spec_validate f (fst (es ! k)) = Some e)
             \<and> (\<forall>j<k. valid_entry s (fst (es ! j))))"
proof -
  obtain tree :: "'b rule_tree" and a where state: "new_state s new_allocator = (tree, a)" by fastforce
  note st = new_state_root(1) [OF s state]
  note loop = build_entries_ok [OF loop_ok_new [OF s state], of 0 es, simplified accepted_schema [OF st]]
  show ?thesis
  proof (cases "build_entries R tree es 0 Map.empty [] (initial_leaves R (al_filters a))")
    case (Inl err)
    with loop have "build_index R s (Some es) = Inl err" by (simp add: build_index_def state)
    with loop Inl show ?thesis by simp
  next
    case (Inr r)
    obtain vs ls where r: "r = (vs, ls)" by fastforce
    obtain ids where ok: "loop_ok R (al_filters a) tree es ids vs ls" and vs: "vs = unique_ids [] es"
      and valid: "\<forall>e\<in>set es. valid_entry s (fst e)"
      using loop Inr r by auto
    obtain root exclusions where broot: "build_root R ls (of_nat (length vs)) tree = (root, exclusions)" by fastforce
    let ?n = "length es * length (tree_nodes tree)" and ?T = "length (tree_nodes tree)" and ?U = "{i :: u32. unat i < length vs}"
    have len: "length vs \<le> 2 ^ 32" and built: "leaves_built R (al_filters a) (set (tree_nodes tree)) ?n (stored vs es) ls"
      using ok by (simp_all add: loop_ok_def ids_ok_def)
    have "snd ` stored vs es \<subseteq> ?U" by (auto simp: stored_def)
    note spec = build_root_spec [OF built this refl len new_state_root(2) [OF s state] broot]
    have T: "?T \<le> length (schema_filters s)" using st by (simp add: state_of_def)
    have "?T * (1 + ?n) \<le> build_size s (length es)"
      unfolding build_size_def using T by (intro mult_mono add_mono) simp_all
    then have bound: "?T + ?T * ?n < 2 ^ 29" using size by (simp add: algebra_simps)
    have n: "?n < 2 ^ 63"
    proof (cases "?T = 0")
      case False
      then have "1 * ?n \<le> ?T * ?n" by (intro mult_le_mono1) (simp add: Suc_le_eq)
      with bound have "?n < 2 ^ 29" by linarith
      also have "(2 :: nat) ^ 29 < 2 ^ 63" by simp
      finally show ?thesis .
    qed simp
    have "(length (tree_nodes root) + length exclusions) * (2 + 4 * ?n) \<le> (?T + ?T) * (2 + 4 * ?n)"
      using spec(8,9) by (intro mult_le_mono1 add_mono)
    also have "\<dots> = 4 * ?T + 8 * (?T * ?n)" by (simp add: algebra_simps)
    also have "\<dots> \<le> 8 * (2 ^ 29 - 1)" using bound by linarith
    finally have "1 + (length (tree_nodes root) + length exclusions) * (2 + 4 * ?n) \<le> source_limit" by simp
    moreover have "set exclusions \<subseteq> set (tree_nodes tree)" using spec(4) by auto
    ultimately obtain rt xs where "publish R ls root exclusions = Some (rt, xs)"
      using publish_total [OF built n spec(1-3)] by blast
    then have "build_index R s (Some es) = Inr \<lparr>ix_root = rt, ix_values = vs, ix_nodes = length (al_filters a), ix_exclusions = xs\<rparr>"
      using Inr broot by (simp add: build_index_def state r)
    with vs valid show ?thesis by simp
  qed
qed

end

end
