(* ===== verification/Local_Session.thy ===== *)
theory Local_Session
  imports Build_Total
begin

text \<open>
  The lifetime of search contexts (\<^verbatim>\<open>index_search.go\<close>): \<open>Index.Local\<close>, \<open>Local.Search\<close> and \<open>Local.Close\<close>
  on one index, for any number of contexts and any order of calls. \<open>index.locals\<close> is a \<open>sync.Pool\<close>:
  it may hand back any pool that was put into it, or none, and may drop pools at any time. The sampling of
  every 64th context for inspectors is left out.
\<close>

section \<open>Operations\<close>

text \<open>
  Contexts are numbered in the order of their creation. A context that is not in \<open>ls_open\<close> is closed: its
  \<open>index\<close> and \<open>pool\<close> are nil.
\<close>

record ('v, 'b) locals_state =
  ls_free :: "('v, 'b) pool list"
  ls_open :: "nat \<rightharpoonup> ('v, 'b) pool"
  ls_created :: nat

definition no_locals :: "('v, 'b) locals_state" where
  "no_locals = \<lparr>ls_free = [], ls_open = Map.empty, ls_created = 0\<rparr>"

text \<open>\<open>Local\<close>; the argument is what \<open>pools.Get\<close> returns.\<close>

definition open_local :: "('t, 'v, 'b, 'id) index \<Rightarrow> ('v, 'b) pool option \<Rightarrow> ('v, 'b) locals_state \<Rightarrow> nat \<times> ('v, 'b) locals_state" where
  "open_local ix got s =
     (let p = (case got of Some p \<Rightarrow> p | None \<Rightarrow> new_local_pool (ix_nodes ix))
      in (ls_created s, s\<lparr>ls_open := (ls_open s)(ls_created s \<mapsto> p), ls_created := Suc (ls_created s)\<rparr>))"

text \<open>\<open>None\<close> is the panic of \<open>requireOpen\<close>.\<close>

definition search_local ::
  "'b roaring \<Rightarrow> ('t, 'v, 'b, 'id) index \<Rightarrow> nat \<Rightarrow> 't \<Rightarrow> 'id list \<Rightarrow> ('v, 'b) locals_state
     \<Rightarrow> ((bool \<times> 'id list) \<times> ('v, 'b) locals_state) option" where
  "search_local R ix h v dst s =
     (case ls_open s h of
        None \<Rightarrow> None
      | Some p \<Rightarrow>
          (case index_search R ix v dst p of
             (found, result, p) \<Rightarrow> Some ((found, result), s\<lparr>ls_open := (ls_open s)(h \<mapsto> p)\<rparr>)))"

definition close_local :: "nat \<Rightarrow> ('v, 'b) locals_state \<Rightarrow> ('v, 'b) locals_state" where
  "close_local h s =
     (case ls_open s h of
        None \<Rightarrow> s
      | Some p \<Rightarrow> s\<lparr>ls_free := reset_local p # ls_free s, ls_open := (ls_open s)(h := None)\<rparr>)"

definition take_free :: "nat \<Rightarrow> ('v, 'b) locals_state \<Rightarrow> ('v, 'b) locals_state" where
  "take_free n s = s\<lparr>ls_free := take n (ls_free s) @ drop (Suc n) (ls_free s)\<rparr>"

section \<open>Reachable states\<close>

inductive local_step ::
  "'b roaring \<Rightarrow> ('t, 'v, 'b, 'id) index \<Rightarrow> ('v, 'b) locals_state \<Rightarrow> ('v, 'b) locals_state \<Rightarrow> bool"
  for R :: "'b roaring" and ix :: "('t, 'v, 'b, 'id) index" where
  Opened: "open_local ix None s = (h, s') \<Longrightarrow> local_step R ix s s'"
| Reopened: "n < length (ls_free s) \<Longrightarrow> open_local ix (Some (ls_free s ! n)) (take_free n s) = (h, s') \<Longrightarrow> local_step R ix s s'"
| Searched: "search_local R ix h v dst s = Some (found, s') \<Longrightarrow> local_step R ix s s'"
| Closed: "local_step R ix s (close_local h s)"
| Dropped: "n < length (ls_free s) \<Longrightarrow> local_step R ix s (take_free n s)"

inductive local_reachable :: "'b roaring \<Rightarrow> ('t, 'v, 'b, 'id) index \<Rightarrow> ('v, 'b) locals_state \<Rightarrow> bool"
  for R :: "'b roaring" and ix :: "('t, 'v, 'b, 'id) index" where
  Start: "local_reachable R ix no_locals"
| Step: "local_reachable R ix s \<Longrightarrow> local_step R ix s s' \<Longrightarrow> local_reachable R ix s'"

lemmas local_defs = open_local_def search_local_def close_local_def take_free_def no_locals_def

section \<open>Invariants\<close>

text \<open>A predicate of pools that new pools and reset pools satisfy and searches keep holds of all pools.\<close>

definition all_pools :: "(('v, 'b) pool \<Rightarrow> bool) \<Rightarrow> ('v, 'b) locals_state \<Rightarrow> bool" where
  "all_pools P s \<longleftrightarrow> (\<forall>p\<in>set (ls_free s). P p) \<and> (\<forall>h p. ls_open s h = Some p \<longrightarrow> P p)"

lemma set_take_free: "set (ls_free (take_free n s)) \<subseteq> set (ls_free s)"
  by (auto simp: take_free_def dest: in_set_takeD in_set_dropD)

lemma all_pools_take_free: "all_pools P s \<Longrightarrow> all_pools P (take_free n s)"
  using set_take_free [of n s] by (auto simp: all_pools_def take_free_def)

lemma all_pools_open:
  "all_pools P s \<Longrightarrow> open_local ix got s = (h, s') \<Longrightarrow> P (case got of Some p \<Rightarrow> p | None \<Rightarrow> new_local_pool (ix_nodes ix)) \<Longrightarrow> all_pools P s'"
  by (auto simp: all_pools_def open_local_def Let_def split: if_splits)

lemma all_pools_step:
  assumes "local_step R ix s s'" "all_pools P s"
    and new: "P (new_local_pool (ix_nodes ix))" and reset: "\<And>p. P p \<Longrightarrow> P (reset_local p)"
    and search: "\<And>v dst p found result p'. P p \<Longrightarrow> index_search R ix v dst p = (found, result, p') \<Longrightarrow> P p'"
  shows "all_pools P s'"
  using assms(1)
proof (cases rule: local_step.cases)
  case (Opened h)
  from all_pools_open [OF assms(2) this] new show ?thesis by simp
next
  case (Reopened n h)
  have "P (ls_free s ! n)" using Reopened(1) assms(2) by (simp add: all_pools_def)
  with all_pools_open [OF all_pools_take_free [OF assms(2)] Reopened(2)] show ?thesis by simp
next
  case (Searched h v dst found)
  then obtain p p' result f where "ls_open s h = Some p" "index_search R ix v dst p = (f, result, p')"
      "s' = s\<lparr>ls_open := (ls_open s)(h \<mapsto> p')\<rparr>"
    by (auto simp: search_local_def split: option.splits prod.splits)
  with assms(2) search [of p v dst f result p'] show ?thesis by (auto simp: all_pools_def)
next
  case (Closed h)
  with assms(2) reset show ?thesis by (auto simp: all_pools_def close_local_def split: option.splits if_splits)
next
  case (Dropped n)
  with all_pools_take_free [OF assms(2)] show ?thesis by simp
qed

lemma all_pools_reachable:
  assumes "local_reachable R ix s"
    and "P (new_local_pool (ix_nodes ix))" "\<And>p. P p \<Longrightarrow> P (reset_local p)"
    and "\<And>v dst p found result p'. P p \<Longrightarrow> index_search R ix v dst p = (found, result, p') \<Longrightarrow> P p'"
  shows "all_pools P s"
  using assms(1)
proof (induction rule: local_reachable.induct)
  case Start
  show ?case by (simp add: all_pools_def no_locals_def)
next
  case (Step s s')
  show ?case by (rule all_pools_step [OF Step(2,3) assms(2-4)])
qed

text \<open>Only created contexts are open, and what waits in \<open>index.locals\<close> holds no result and no plan.\<close>

definition blank_pool :: "('v, 'b) pool \<Rightarrow> bool" where
  "blank_pool p \<longleftrightarrow> po_plans p = Map.empty
     \<and> (\<forall>nodes. po_local p = Some nodes \<longrightarrow> (\<forall>nc\<in>set nodes. \<forall>kind c. nc kind = Some c \<longrightarrow> c = new_value_cache))
     \<and> (\<forall>node c. po_antonyms p node = Some c \<longrightarrow> c = new_antonym_cache)"

lemma blank_reset: "blank_pool (reset_local p)"
  by (auto simp: blank_pool_def reset_local_def node_reset_def vc_reset_def ac_reset_def)

definition session_ok :: "('v, 'b) locals_state \<Rightarrow> bool" where
  "session_ok s \<longleftrightarrow> (\<forall>p\<in>set (ls_free s). blank_pool p) \<and> (\<forall>h. ls_open s h \<noteq> None \<longrightarrow> h < ls_created s)"

lemma session_ok_take_free: "session_ok s \<Longrightarrow> session_ok (take_free n s)"
  using set_take_free [of n s] by (auto simp: session_ok_def take_free_def)

lemma session_ok_open: "session_ok s \<Longrightarrow> open_local ix got s = (h, s') \<Longrightarrow> session_ok s'"
  by (auto simp: session_ok_def open_local_def Let_def less_SucI split: if_splits)

lemma session_ok_step:
  assumes "local_step R ix s s'" "session_ok s"
  shows "session_ok s'"
  using assms(1)
proof (cases rule: local_step.cases)
  case (Opened h)
  from session_ok_open [OF assms(2) this] show ?thesis .
next
  case (Reopened n h)
  from session_ok_open [OF session_ok_take_free [OF assms(2)] this(2)] show ?thesis .
next
  case (Searched h v dst found)
  then obtain p p' where "ls_open s h = Some p" "s' = s\<lparr>ls_open := (ls_open s)(h \<mapsto> p')\<rparr>"
    by (auto simp: search_local_def split: option.splits prod.splits)
  with assms(2) show ?thesis by (auto simp: session_ok_def)
next
  case (Closed h)
  with assms(2) blank_reset show ?thesis by (auto simp: session_ok_def close_local_def split: option.splits if_splits)
next
  case (Dropped n)
  with session_ok_take_free [OF assms(2)] show ?thesis by simp
qed

lemma session_ok_reachable: "local_reachable R ix s \<Longrightarrow> session_ok s"
proof (induction rule: local_reachable.induct)
  case (Step s s')
  show ?case by (rule session_ok_step [OF Step(2,3)])
qed (simp add: session_ok_def no_locals_def)

end
