(* ===== verification/Index_Theorems.thy ===== *)
theory Index_Theorems
  imports Build_Total
begin

text \<open>The properties of \<open>Build\<close> and \<open>Index.Search\<close> as a whole.\<close>

section \<open>Evaluation of the specification\<close>

lemma matches_code [code]:
  "matches s es q x \<longleftrightarrow>
     list_all (\<lambda>f. list_all (\<lambda>m. list_ex (\<lambda>(t, y). y = x \<and> m t q) es) (spec_columns f)) (schema_filters s)
     \<and> \<not> list_ex (\<lambda>f. list_ex (\<lambda>(t, y). y = x \<and> spec_forbids f t q) es) (schema_filters s)"
proof -
  have "(\<exists>t. (t, x) \<in> set es \<and> P t) \<longleftrightarrow> list_ex (\<lambda>(t, y). y = x \<and> P t) es" for P
    by (induction es) auto
  then show ?thesis by (simp add: matches_def list_all_iff list_ex_iff)
qed

definition search_results :: "('t, 'v, 'k) schema \<Rightarrow> ('t \<times> 'id) list \<Rightarrow> 't \<Rightarrow> 'id list" where
  "search_results s es q = filter (matches s es q) (unique_ids [] es)"

lemma search_results_props:
  "distinct (search_results s es q)" "set (search_results s es q) = {x \<in> snd ` set es. matches s es q x}"
  by (auto simp: search_results_def distinct_unique_ids set_unique_ids)

text \<open>Which builds succeed.\<close>

definition buildable :: "('t, 'v, 'k) schema \<Rightarrow> ('t \<times> 'id) list \<Rightarrow> bool" where
  "buildable s es \<longleftrightarrow> schema_ok s \<and> build_size s (length es) < 2 ^ 29 \<and> card (snd ` set es) < 2 ^ 32"

lemma build_index_succeeds:
  assumes "roaring R" "buildable s es" "\<forall>e\<in>set es. valid_entry s (fst e)"
  shows "\<exists>ix. build_index R s (Some es) = Inr ix \<and> (\<forall>q dst. index_Search R ix q dst =
      (let ids = (if exclusions_separate s es then search_results s es q else []) in (ids \<noteq> [], dst @ ids)))"
proof -
  have s: "schema_ok s" and size: "build_size s (length es) < 2 ^ 29" and few: "card (snd ` set es) < 2 ^ 32"
    using assms(2) by (simp_all add: buildable_def)
  obtain ix where ix: "build_index R s (Some es) = Inr ix"
  proof (cases "build_index R s (Some es)")
    case (Inl err)
    with roaring.build_index_result [OF assms(1) s size] few
    obtain k e where "k < length es" "\<exists>f\<in>set (schema_filters s). spec_validate f (fst (es ! k)) = Some e" by auto
    with assms(3) have False by (auto simp: valid_entry_def)
    then show ?thesis ..
  next
    case (Inr ix)
    then show ?thesis by (rule that)
  qed
  have "build_size s (length es) < 2 ^ 31" using size by simp
  note sound = roaring.build_index_sound [OF assms(1) s this ix]
  show ?thesis unfolding search_results_def using ix sound by blast
qed

text \<open>A schema with every part the properties speak about: nested \<open>All\<close>s, a shared rule, an \<open>Exclude\<close>.\<close>

type_synonym example_constraint = "int option \<times> int option \<times> int option"

definition example_include :: "(example_constraint, int, int) schema" where
  "example_include = Filter_Rule 1 (Include_Filter fst id)"

definition example_schema :: "(example_constraint, int, int) schema" where
  "example_schema = All_Rule 0 [example_include,
     All_Rule 2 [example_include, Filter_Rule 3 (Ordered_Filter (\<lambda>t. fst (snd t)) go_compare (\<lambda>_. None) Less_Than True)],
     Filter_Rule 4 (Exclude_Filter (\<lambda>t. snd (snd t)))]"

definition example_entries :: "(example_constraint \<times> string) list" where
  "example_entries = [((Some 1, Some 10, None), ''a''), ((None, Some 20, Some 7), ''b''), ((Some 1, None, Some 8), ''c''),
     ((Some 2, None, None), ''a'')]"

lemma example_filters:
  "set (schema_filters example_schema) = {Include_Filter fst id,
     Ordered_Filter (\<lambda>t. fst (snd t)) go_compare (\<lambda>_. None) Less_Than True, Exclude_Filter (\<lambda>t. snd (snd t))}"
  by (auto simp: example_schema_def example_include_def)

lemma card_ids_le: "card (snd ` set es) \<le> length es"
  using card_image_le card_length order_trans by blast

lemma example_buildable: "length es < 1000 \<Longrightarrow> buildable example_schema es"
proof -
  assume es: "length es < 1000"
  from card_ids_le [of es] es have "card (snd ` set es) < 2 ^ 32" by simp
  moreover have "objects_ok example_schema" by (simp add: objects_ok_def example_schema_def example_include_def)
  moreover have "\<forall>f\<in>set (schema_filters example_schema). spec_ok f"
    unfolding example_filters by (simp add: go_compare.comparator_axioms)
  moreover have "build_size example_schema (length es) < 2 ^ 29"
    using es by (simp add: build_size_def example_schema_def example_include_def)
  ultimately show ?thesis by (simp add: buildable_def schema_ok_def)
qed

lemma example_valid: "valid_entry example_schema c"
  by (simp add: valid_entry_def example_filters)

section \<open>Properties\<close>

text \<open>
  C1: If a schema has no \<open>Exclude\<close> filter, or an entry stores a value for one of them, \<open>Build\<close> succeeds for valid
  entries within the bounds, and a search of the index appends exactly the external IDs that have, for every
  column of every filter, a constraint the query satisfies and no value an \<open>Exclude\<close> filter forbids, each once, in
  the order of first insertion; it reports whether there is one. C2 is about the remaining schemas.
\<close>

theorem build_and_search_exact:
  assumes "roaring R" "buildable s es" "\<forall>e\<in>set es. valid_entry s (fst e)" "exclusions_separate s es"
  shows "\<exists>ix. build_index R s (Some es) = Inr ix
    \<and> (\<forall>q dst. index_Search R ix q dst = (search_results s es q \<noteq> [], dst @ search_results s es q))"
  using build_index_succeeds [OF assms(1-3)] assms(4) by (simp add: Let_def)

theorem build_and_search_exact_witness:
  "\<exists>ix. build_index list_bitmap example_schema (Some example_entries) = Inr ix
    \<and> index_Search list_bitmap ix (Some 1, Some 15, Some 8) [''x''] = (True, [''x'', ''a'', ''b''])
    \<and> index_Search list_bitmap ix (Some 1, Some 5, None) [] = (True, [''a'', ''b'', ''c''])
    \<and> index_Search list_bitmap ix (Some 2, Some 12, Some 7) [] = (True, [''a''])"
proof -
  have "exclusions_separate example_schema example_entries"
    by (simp add: exclusions_separate_def example_filters example_entries_def)
  moreover have "buildable example_schema example_entries" by (rule example_buildable) (simp add: example_entries_def)
  moreover have "search_results example_schema example_entries (Some 1, Some 15, Some 8) = [''a'', ''b'']"
    "search_results example_schema example_entries (Some 1, Some 5, None) = [''a'', ''b'', ''c'']"
    "search_results example_schema example_entries (Some 2, Some 12, Some 7) = [''a'']" by code_simp+
  ultimately show ?thesis
    using build_and_search_exact [OF list_bitmap.roaring_axioms, of example_schema example_entries] example_valid by auto
qed

text \<open>
  C2: If the schema has an \<open>Exclude\<close> filter and no entry stores a value for any of its \<open>Exclude\<close> filters, \<open>Build\<close>
  succeeds and the index matches nothing, for every query and whatever the other filters accept.
\<close>

theorem unused_exclude_matches_nothing:
  assumes "roaring R" "buildable s es" "\<forall>e\<in>set es. valid_entry s (fst e)"
    and "\<exists>f\<in>set (schema_filters s). is_exclude f" "\<forall>f\<in>set (schema_filters s). \<not> stores_exclusion es f"
  shows "\<exists>ix. build_index R s (Some es) = Inr ix \<and> (\<forall>q dst. index_Search R ix q dst = (False, dst))"
proof -
  have "\<not> exclusions_separate s es" using assms(4,5) by (auto simp: exclusions_separate_def)
  with build_index_succeeds [OF assms(1-3)] show ?thesis by (simp add: Let_def)
qed

text \<open>The entry accepts the query and no value is excluded, so it should be found.\<close>

theorem unused_exclude_matches_nothing_witness:
  "(\<exists>ix. build_index list_bitmap example_schema (Some [((Some 1, None, None), ''a'')]) = Inr ix
     \<and> index_Search list_bitmap ix (Some 1, Some 5, Some 7) [] = (False, []))
   \<and> search_results example_schema [((Some 1, None, None), ''a'')] (Some 1, Some 5, Some 7) = [''a'']"
proof
  show "\<exists>ix. build_index list_bitmap example_schema (Some [((Some 1, None, None), ''a'')]) = Inr ix
     \<and> index_Search list_bitmap ix (Some 1, Some 5, Some 7) [] = (False, [])"
    using unused_exclude_matches_nothing [OF list_bitmap.roaring_axioms example_buildable, of "[((Some 1, None, None), ''a'')]"]
      example_valid by (auto simp: example_filters)
qed code_simp

text \<open>
  C3: A build fails at the entry with index \<open>n\<close> exactly when that entry is the first one a filter rejects,
  and the error it reports is one of a filter of the schema for that entry.
\<close>

theorem build_error_first_invalid:
  assumes "roaring R" "buildable s es"
  shows "(\<exists>e. build_index R s (Some es) = Inl (Entry_Error n e) \<and> (\<exists>f\<in>set (schema_filters s). spec_validate f (fst (es ! n)) = Some e))
    \<longleftrightarrow> n < length es \<and> \<not> valid_entry s (fst (es ! n)) \<and> (\<forall>j<n. valid_entry s (fst (es ! j)))"
proof -
  have s: "schema_ok s" and size: "build_size s (length es) < 2 ^ 29" and few: "card (snd ` set es) < 2 ^ 32"
    using assms(2) by (simp_all add: buildable_def)
  note result = roaring.build_index_result [OF assms(1) s size]
  show ?thesis
  proof
    assume "\<exists>e. build_index R s (Some es) = Inl (Entry_Error n e) \<and> (\<exists>f\<in>set (schema_filters s). spec_validate f (fst (es ! n)) = Some e)"
    then show "n < length es \<and> \<not> valid_entry s (fst (es ! n)) \<and> (\<forall>j<n. valid_entry s (fst (es ! j)))"
      using result by (auto simp: valid_entry_def)
  next
    assume n: "n < length es \<and> \<not> valid_entry s (fst (es ! n)) \<and> (\<forall>j<n. valid_entry s (fst (es ! j)))"
    show "\<exists>e. build_index R s (Some es) = Inl (Entry_Error n e) \<and> (\<exists>f\<in>set (schema_filters s). spec_validate f (fst (es ! n)) = Some e)"
    proof (cases "build_index R s (Some es)")
      case (Inl err)
      with result few obtain k e where k: "k < length es" "err = Entry_Error k e" "\<forall>j<k. valid_entry s (fst (es ! j))"
        and f: "\<exists>f\<in>set (schema_filters s). spec_validate f (fst (es ! k)) = Some e" by auto
      have "\<not> valid_entry s (fst (es ! k))" using f by (auto simp: valid_entry_def)
      with n k(3) have "k = n" by (metis linorder_neqE_nat)
      with Inl k(2) f show ?thesis by blast
    next
      case (Inr ix)
      with result n show ?thesis by auto
    qed
  qed
qed

definition example_compare_by :: "(int option \<times> operator option, int, int) schema" where
  "example_compare_by = Filter_Rule 0 (Compare_By_Filter fst snd go_compare (\<lambda>_. None))"

theorem build_error_first_invalid_witness:
  "build_index list_bitmap example_compare_by
     (Some [((Some 1, Some OperatorGT), ''a''), ((None, None), ''b''), ((Some 2, None), ''c''), ((Some 3, Some 9), ''d'')])
   = Inl (Entry_Error 2 Operator_Is_Nil)"
proof -
  let ?es = "[((Some (1 :: int), Some OperatorGT), ''a''), ((None, None), ''b''), ((Some 2, None), ''c''), ((Some 3, Some 9), ''d'')]"
  have "card (snd ` set ?es) < 2 ^ 32" by (rule le_less_trans [OF card_ids_le]) simp
  moreover have "schema_ok example_compare_by"
    by (simp add: schema_ok_def objects_ok_def example_compare_by_def go_compare.comparator_axioms)
  moreover have "build_size example_compare_by (length ?es) < 2 ^ 29" by (simp add: build_size_def example_compare_by_def)
  ultimately have "buildable example_compare_by ?es" unfolding buildable_def by blast
  note result = build_error_first_invalid [OF list_bitmap.roaring_axioms this, of 2, THEN iffD2]
  have "valid_entry example_compare_by (fst (?es ! j))" if "j < 2" for j
  proof -
    from that have "j = 0 \<or> j = 1" by linarith
    then show ?thesis by (auto simp: valid_entry_def example_compare_by_def operator_defs)
  qed
  moreover have "\<not> valid_entry example_compare_by (fst (?es ! 2))" by (simp add: valid_entry_def example_compare_by_def)
  ultimately obtain e where e: "build_index list_bitmap example_compare_by (Some ?es) = Inl (Entry_Error 2 e)"
    and "\<exists>f\<in>set (schema_filters example_compare_by). spec_validate f (fst (?es ! 2)) = Some e" using result by auto
  then have "e = Operator_Is_Nil" by (simp add: example_compare_by_def)
  with e show ?thesis by simp
qed

text \<open>
  C4: What a search returns depends only on the filters of the schema: nesting, order and repetition of
  rules in \<open>All\<close> do not change it.
\<close>

theorem schema_shape_irrelevant:
  assumes "roaring R" "buildable s es" "buildable s' es" "set (schema_filters s) = set (schema_filters s')"
    and "build_index R s (Some es) = Inr ix" "build_index R s' (Some es) = Inr ix'"
  shows "index_Search R ix q dst = index_Search R ix' q dst"
proof -
  have sep: "exclusions_separate s es = exclusions_separate s' es" and res: "matches s es q = matches s' es q"
    using assms(4) by (simp_all add: exclusions_separate_def matches_def fun_eq_iff)
  have size: "build_size s (length es) < 2 ^ 31" "build_size s' (length es) < 2 ^ 31" "schema_ok s" "schema_ok s'"
    using assms(2,3) by (simp_all add: buildable_def)
  show ?thesis
    unfolding roaring.build_index_sound [OF assms(1) size(3,1) assms(5)] roaring.build_index_sound [OF assms(1) size(4,2) assms(6)]
      sep res ..
qed

definition example_flat :: "(example_constraint, int, int) schema" where
  "example_flat = All_Rule 0 [Filter_Rule 4 (Exclude_Filter (\<lambda>t. snd (snd t))),
     Filter_Rule 3 (Ordered_Filter (\<lambda>t. fst (snd t)) go_compare (\<lambda>_. None) Less_Than True), example_include]"

lemma example_flat_filters: "set (schema_filters example_flat) = set (schema_filters example_schema)"
  unfolding example_filters by (auto simp: example_flat_def example_include_def)

lemma example_flat_buildable: "buildable example_flat example_entries"
proof -
  have "objects_ok example_flat" by (simp add: objects_ok_def example_flat_def example_include_def)
  moreover have "\<forall>f\<in>set (schema_filters example_flat). spec_ok f"
    unfolding example_flat_filters example_filters by (simp add: go_compare.comparator_axioms)
  moreover have "build_size example_flat (length example_entries) < 2 ^ 29"
    by (simp add: build_size_def example_flat_def example_include_def example_entries_def)
  ultimately show ?thesis using example_buildable [of example_entries]
    by (simp add: buildable_def schema_ok_def example_entries_def)
qed

theorem schema_shape_irrelevant_witness:
  "\<exists>ix ix'. build_index list_bitmap example_schema (Some example_entries) = Inr ix
    \<and> build_index list_bitmap example_flat (Some example_entries) = Inr ix'
    \<and> index_Search list_bitmap ix (Some 1, Some 15, Some 8) [] = index_Search list_bitmap ix' (Some 1, Some 15, Some 8) []"
proof -
  have one: "buildable example_schema example_entries" by (rule example_buildable) (simp add: example_entries_def)
  have "valid_entry example_flat c" for c using example_valid [of c] by (simp add: valid_entry_def example_flat_filters)
  then obtain ix ix' where "build_index list_bitmap example_schema (Some example_entries) = Inr ix"
    "build_index list_bitmap example_flat (Some example_entries) = Inr ix'"
    using build_index_succeeds [OF list_bitmap.roaring_axioms one] example_valid
      build_index_succeeds [OF list_bitmap.roaring_axioms example_flat_buildable] by blast
  then show ?thesis
    using schema_shape_irrelevant [OF list_bitmap.roaring_axioms one example_flat_buildable example_flat_filters [symmetric]] by blast
qed

text \<open>
  C5: The set of IDs a search returns depends only on the set of entries, not on their order or repetition.
\<close>

theorem entry_order_irrelevant:
  assumes "roaring R" "buildable s es" "buildable s es'" "set es = set es'"
    and "build_index R s (Some es) = Inr ix" "build_index R s (Some es') = Inr ix'"
  shows "set (snd (index_Search R ix q [])) = set (snd (index_Search R ix' q []))
    \<and> fst (index_Search R ix q []) = fst (index_Search R ix' q [])"
proof -
  have stores: "stores_exclusion es f = stores_exclusion es' f" for f :: "('b, 'c, 'd) filter_spec"
    using assms(4) by (cases f) simp_all
  have sep: "exclusions_separate s es = exclusions_separate s es'" and res: "matches s es q = matches s es' q"
    using assms(4) by (simp_all add: exclusions_separate_def stores matches_def fun_eq_iff)
  have size: "build_size s (length es) < 2 ^ 31" "build_size s (length es') < 2 ^ 31" "schema_ok s"
    using assms(2,3) by (simp_all add: buildable_def)
  note one = roaring.build_index_sound [OF assms(1) size(3,1) assms(5), of q "[]"]
  note two = roaring.build_index_sound [OF assms(1) size(3,2) assms(6), of q "[]"]
  have same: "set (filter (matches s es q) (unique_ids [] es)) = set (filter (matches s es' q) (unique_ids [] es'))"
    using assms(4) by (simp add: set_unique_ids res)
  have ids: "set (snd (index_Search R ix q [])) = set (snd (index_Search R ix' q []))"
    unfolding one two sep using same by (simp add: Let_def)
  have "filter (matches s es q) (unique_ids [] es) = [] \<longleftrightarrow> filter (matches s es' q) (unique_ids [] es') = []"
    using same by (metis set_empty)
  then have "fst (index_Search R ix q []) = fst (index_Search R ix' q [])"
    unfolding one two sep by (simp add: Let_def)
  with ids show ?thesis by blast
qed

theorem entry_order_irrelevant_witness:
  "\<exists>ix ix'. build_index list_bitmap example_schema (Some example_entries) = Inr ix
    \<and> build_index list_bitmap example_schema (Some (rev (example_entries @ example_entries))) = Inr ix'
    \<and> set (snd (index_Search list_bitmap ix (Some 1, Some 15, Some 8) []))
      = set (snd (index_Search list_bitmap ix' (Some 1, Some 15, Some 8) []))"
proof -
  let ?es = "rev (example_entries @ example_entries)"
  have one: "buildable example_schema example_entries" by (rule example_buildable) (simp add: example_entries_def)
  have two: "buildable example_schema ?es" by (rule example_buildable) (simp add: example_entries_def)
  obtain ix ix' where "build_index list_bitmap example_schema (Some example_entries) = Inr ix"
    "build_index list_bitmap example_schema (Some ?es) = Inr ix'"
    using build_index_succeeds [OF list_bitmap.roaring_axioms one] example_valid
      build_index_succeeds [OF list_bitmap.roaring_axioms two] by blast
  moreover have "set example_entries = set ?es" by simp
  ultimately show ?thesis
    using entry_order_irrelevant [OF list_bitmap.roaring_axioms one two] by blast
qed

end
