(* ===== verification/Local_Theorems.thy ===== *)
theory Local_Theorems
  imports Local_Session Index_Theorems
begin

text \<open>The properties of search contexts over their whole lifetime.\<close>

section \<open>One filter\<close>

context roaring
begin

text \<open>On a pool in order, an index with a single filter answers as it does without caches.\<close>

lemma leaf_search_on_pool:
  assumes "root_sound R G (ix_root ix) D" "exclusions_ok R G (ix_exclusions ix) Es" "ix_root ix = Leaf_Root c"
    and p: "pool_ok R G p" and run: "index_search R ix v dst p = (found, result, p')"
  shows "(found, result) = index_Search R ix v dst" "pool_ok R G p'"
proof -
  from assms(1,3) obtain d where d: "D = [d]" "ops_ok R G c d" by (auto simp: root_sound_def)
  obtain bits p1 where s: "co_search c v p (bm_new R) = (bits, p1)" by fastforce
  note srch = search_okD [OF ops_okD(1) [OF d(2)] p ids_new s]
  obtain x q where a: "add_exclusions (ix_exclusions ix) v (bm_new R) p1 = (x, q)" by fastforce
  note ex = add_exclusions_ids [OF assms(2) [unfolded exclusions_ok_def] srch(2) a]
  have "result = dst @ external_ids (ix_values ix) (sorted_list_of_set (index_den D Es v)) \<and> pool_ok R G p'
      \<and> (found \<longleftrightarrow> length result \<noteq> length dst)"
  proof (cases "ix_exclusions ix = []")
    case True
    then have "excluded_den Es v = {}" using assms(2) by (simp add: exclusions_ok_def excluded_den_def)
    with True assms(3) s srch d(1) run show ?thesis
      by (auto simp: index_search_def append_bitmap_values_eq index_den_def all_den_def)
  next
    case False
    with assms(3) s srch d(1) a ex run show ?thesis
      by (auto simp: index_search_def append_bitmap_values_eq index_den_def all_den_def ids_and_not ids_new)
  qed
  then show "(found, result) = index_Search R ix v dst" "pool_ok R G p'"
    using index_search_exact [OF assms(1,2), of v dst] by (auto simp: external_ids_def)
qed

lemma leaf_session:
  assumes "schema_ok s" "build_size s (length es) < 2 ^ 31" "build_index R s (Some es) = Inr ix" "ix_root ix = Leaf_Root c"
    and reach: "local_reachable R ix st" and "ls_open st h = Some p"
  shows "\<exists>st'. search_local R ix h q dst st = Some (index_Search R ix q dst, st')"
proof -
  obtain G D Es where G: "va_nodes G = ix_nodes ix" "root_sound R G (ix_root ix) D" "exclusions_ok R G (ix_exclusions ix) Es"
  proof (rule build_index_published [OF assms(1-3)])
    fix G D ls exclusions
    assume "va_nodes G = ix_nodes ix" "root_sound R G (ix_root ix) D"
      "exclusions_ok R G (ix_exclusions ix) (map (\<lambda>m. leaf_forbidden R (ls ! m)) exclusions)"
    then show thesis by (rule that)
  qed
  have "all_pools (pool_ok R G) st"
  proof (rule all_pools_reachable [OF reach])
    show "pool_ok R G (new_local_pool (ix_nodes ix))" using pool_ok_new_local [of R G] G(1) by simp
    show "pool_ok R G (reset_local p)" if "pool_ok R G p" for p using that by (rule pool_ok_reset)
    show "pool_ok R G p'" if "pool_ok R G p" "index_search R ix v dst p = (found, result, p')" for v dst p found result p'
      by (rule leaf_search_on_pool(2) [OF G(2,3) assms(4) that])
  qed
  then have p: "pool_ok R G p" using assms(6) by (simp add: all_pools_def)
  obtain found result p' where run: "index_search R ix q dst p = (found, result, p')" by (rule prod_cases3)
  show ?thesis using leaf_search_on_pool(1) [OF G(2,3) assms(4) p run] assms(6) run by (simp add: search_local_def)
qed

end

text \<open>
  C10: In an index whose root is a single filter, every search of every open context answers exactly like the
  index, after any interleaving of creations, searches, closings and reuse of contexts.
\<close>

theorem single_filter_locals_exact:
  assumes "roaring R" "buildable s es" "exclusions_separate s es" "build_index R s (Some es) = Inr ix"
    and "ix_root ix = Leaf_Root c" "local_reachable R ix st" "ls_open st h = Some p"
  shows "\<exists>st'. search_local R ix h q dst st = Some ((search_results s es q \<noteq> [], dst @ search_results s es q), st')"
proof -
  have ok: "schema_ok s" and size: "build_size s (length es) < 2 ^ 31" using assms(2) by (simp_all add: buildable_def)
  have "index_Search R ix q dst = (search_results s es q \<noteq> [], dst @ search_results s es q)"
    using roaring.build_index_sound [OF assms(1) ok size assms(4)] assms(3) by (simp add: search_results_def Let_def)
  with roaring.leaf_session [OF assms(1) ok size assms(4-7)] show ?thesis by metis
qed

definition example_single :: "(int option, int, int) schema" where
  "example_single = Filter_Rule 0 (Include_Filter id id)"

definition example_single_entries :: "(int option \<times> string) list" where
  "example_single_entries = [(Some 1, ''a''), (None, ''b''), (Some 2, ''c'')]"

theorem single_filter_locals_exact_witness:
  "\<exists>ix st. build_index list_bitmap example_single (Some example_single_entries) = Inr ix \<and> local_reachable list_bitmap ix st
    \<and> (\<exists>st'. search_local list_bitmap ix 0 (Some 2) [] st = Some ((True, [''b'', ''c'']), st'))"
proof -
  have "case build_index list_bitmap example_single (Some example_single_entries) of
      Inr ix \<Rightarrow> (case ix_root ix of Leaf_Root _ \<Rightarrow> True | _ \<Rightarrow> False) | Inl _ \<Rightarrow> False"
    by code_simp
  then obtain ix c where ix: "build_index list_bitmap example_single (Some example_single_entries) = Inr ix" "ix_root ix = Leaf_Root c"
    by (auto split: sum.splits root.splits)
  define st where "st = snd (open_local ix None (no_locals :: (int, u32 list) locals_state))"
  have "local_step list_bitmap ix no_locals st"
    by (rule Opened [of ix _ 0]) (simp add: st_def open_local_def no_locals_def)
  then have st: "local_reachable list_bitmap ix st" by (rule local_reachable.Step [OF local_reachable.Start])
  have h: "ls_open st 0 = Some (new_local_pool (ix_nodes ix))" by (simp add: st_def open_local_def no_locals_def)
  have "buildable example_single example_single_entries" "exclusions_separate example_single example_single_entries"
    by (auto simp: buildable_def schema_ok_def objects_ok_def build_size_def exclusions_separate_def
        example_single_def example_single_entries_def card_insert_if)
  from single_filter_locals_exact [OF list_bitmap.roaring_axioms this ix st h, of "Some 2" "[]"]
  obtain st' where "search_local list_bitmap ix 0 (Some 2) [] st
      = Some ((search_results example_single example_single_entries (Some 2) \<noteq> [],
               [] @ search_results example_single example_single_entries (Some 2)), st')" ..
  moreover have "search_results example_single example_single_entries (Some 2) = [''b'', ''c'']"
    by (simp add: search_results_def matches_def example_single_def example_single_entries_def include_column_def)
  ultimately show ?thesis using ix(1) st by auto
qed

section \<open>Searches in a row\<close>

fun search_session ::
  "'b roaring \<Rightarrow> ('t, 'v, 'b, 'id) index \<Rightarrow> nat \<Rightarrow> 't list \<Rightarrow> ('v, 'b) locals_state \<Rightarrow> ('v, 'b) locals_state option" where
  "search_session R ix h [] s = Some s"
| "search_session R ix h (q # qs) s =
     (case search_local R ix h q [] s of None \<Rightarrow> None | Some (found, s) \<Rightarrow> search_session R ix h qs s)"

lemma search_session_reachable:
  "local_reachable R ix s \<Longrightarrow> search_session R ix h qs s = Some s' \<Longrightarrow> local_reachable R ix s'"
proof (induction qs arbitrary: s)
  case (Cons q qs)
  from Cons.prems(2) obtain found t where "search_local R ix h q [] s = Some (found, t)" "search_session R ix h qs t = Some s'"
    by (auto split: option.splits)
  with Cons.IH [OF local_reachable.Step [OF Cons.prems(1) Searched]] show ?case by blast
qed simp

definition two_bounds :: "(int option \<times> int option, int, int) schema" where
  "two_bounds = All_Rule 0 [Filter_Rule 1 (Ordered_Filter fst go_compare (\<lambda>_. None) Greater_Than True),
     Filter_Rule 2 (Ordered_Filter snd go_compare (\<lambda>_. None) Greater_Than True)]"

definition two_bounds_entries :: "((int option \<times> int option) \<times> string) list" where
  "two_bounds_entries = [((Some 1, Some 1), ''a''), ((Some 2, Some 2), ''b''), ((Some 3, Some 3), ''c''), ((Some 4, Some 4), ''d'')]"

section \<open>The lifetime\<close>

text \<open>
  C26: In every reachable state a context that waits for reuse holds no cached bitmap, no admission history
  and no plan of its earlier life, and only created contexts are open. The comment of \<open>Close\<close> says that the child
  orders an \<open>All\<close> has learned stay with the context; they do not.
\<close>

theorem recycled_locals_are_cold:
  assumes "local_reachable R ix st"
  shows "(\<forall>p\<in>set (ls_free st). blank_pool p) \<and> (\<forall>h. ls_open st h \<noteq> None \<longrightarrow> h < ls_created st)"
  using session_ok_reachable [OF assms] by (simp add: session_ok_def)

text \<open>After three searches a context has a learned plan; closing it leaves a free context without one.\<close>

theorem recycled_locals_are_cold_witness:
  "\<exists>ix st p. build_index list_bitmap two_bounds (Some two_bounds_entries) = Inr ix \<and> local_reachable list_bitmap ix st
    \<and> ls_open st 0 = Some p \<and> po_plans p 0 \<noteq> None
    \<and> ls_free (close_local 0 st) = [reset_local p] \<and> blank_pool (reset_local p)"
proof -
  let ?queries = "[(Some 4, Some 3), (Some 4, Some 3), (Some 4, Some 1)]"
  let ?run = "\<lambda>ix. case search_session list_bitmap ix 0 ?queries (snd (open_local ix None (no_locals :: (int, u32 list) locals_state))) of
      None \<Rightarrow> False
    | Some st \<Rightarrow> (case ls_open st 0 of None \<Rightarrow> False | Some p \<Rightarrow> po_plans p 0 \<noteq> None) \<and> ls_free st = []"
  have "case build_index list_bitmap two_bounds (Some two_bounds_entries) of Inr ix \<Rightarrow> ?run ix | Inl _ \<Rightarrow> False"
    by code_simp
  then obtain ix st p where ix: "build_index list_bitmap two_bounds (Some two_bounds_entries) = Inr ix"
    and st: "search_session list_bitmap ix 0 ?queries (snd (open_local ix None (no_locals :: (int, u32 list) locals_state))) = Some st"
    and p: "ls_open st 0 = Some p" "po_plans p 0 \<noteq> None" and free: "ls_free st = []"
    by (auto split: sum.splits option.splits)
  have "local_reachable list_bitmap ix (snd (open_local ix None no_locals))"
    by (rule local_reachable.Step [OF local_reachable.Start Opened [of ix _ "fst (open_local ix None no_locals)"]]) simp
  then have reach: "local_reachable list_bitmap ix st" using st by (rule search_session_reachable)
  then have "local_reachable list_bitmap ix (close_local 0 st)" by (rule local_reachable.Step) (rule Closed)
  from recycled_locals_are_cold [OF this] ix p reach free show ?thesis by (auto simp: close_local_def)
qed

lemma closed_stays_closed:
  assumes "local_step R ix st st'" "h < ls_created st" "ls_open st h = None"
  shows "h < ls_created st' \<and> ls_open st' h = None"
  using assms
  by (cases rule: local_step.cases)
    (auto simp: local_defs Let_def split: option.splits prod.splits if_splits)

text \<open>
  C27: A closed context stays closed whatever happens afterwards: searching it panics and closing it again
  changes nothing.
\<close>

theorem closed_local_stays_closed:
  assumes "(local_step R ix)\<^sup>*\<^sup>* (close_local h st) st'" "h < ls_created st"
  shows "search_local R ix h q dst st' = None \<and> close_local h st' = st'"
proof -
  have "h < ls_created st' \<and> ls_open st' h = None"
    using assms(1)
  proof (induction rule: rtranclp_induct)
    case base
    show ?case using assms(2) by (auto simp: close_local_def split: option.split)
  next
    case (step s s')
    then show ?case using closed_stays_closed by blast
  qed
  then show ?thesis by (simp add: search_local_def close_local_def)
qed

definition example_open :: "(int, u32 list) locals_state" where
  "example_open = \<lparr>ls_free = [], ls_open = [0 \<mapsto> new_local_pool 1], ls_created = 1\<rparr>"

theorem closed_local_stays_closed_witness:
  "search_local list_bitmap (\<lparr>ix_root = Leaf_Root (ma_ops list_bitmap ([], 0)), ix_values = [''a''], ix_nodes = 1, ix_exclusions = []\<rparr>
      :: (int option, int, u32 list, string) index) 0 None [] (close_local 0 example_open) = None
   \<and> close_local 0 (close_local 0 example_open) = close_local 0 example_open"
  by (rule closed_local_stays_closed [where st = example_open, OF rtranclp.rtrancl_refl]) (simp add: example_open_def)

section \<open>Learned plans\<close>

text \<open>
  C11: A search of a context whose learned plan is rejected can lose the constraint of a child: after three
  searches the context finds three IDs for a query for which the index finds, correctly, only the first.
\<close>

theorem rejected_plan_loses_constraint:
  "\<exists>ix st st'. build_index list_bitmap two_bounds (Some two_bounds_entries) = Inr ix \<and> local_reachable list_bitmap ix st
    \<and> search_local list_bitmap ix 0 (Some 1, Some 3) [] st = Some ((True, [''a'', ''b'', ''c'']), st')
    \<and> index_Search list_bitmap ix (Some 1, Some 3) [] = (True, [''a''])"
proof -
  let ?run = "\<lambda>ix. case search_session list_bitmap ix 0 [(Some 4, Some 3), (Some 4, Some 3), (Some 4, Some 1)]
      (snd (open_local ix None (no_locals :: (int, u32 list) locals_state))) of
      None \<Rightarrow> False
    | Some st \<Rightarrow> map_option fst (search_local list_bitmap ix 0 (Some 1, Some 3) [] st) = Some (True, [''a'', ''b'', ''c''])"
  have "case build_index list_bitmap two_bounds (Some two_bounds_entries) of
      Inr ix \<Rightarrow> ?run ix \<and> index_Search list_bitmap ix (Some 1, Some 3) [] = (True, [''a'']) | Inl _ \<Rightarrow> False"
    by code_simp
  then obtain ix st where ix: "build_index list_bitmap two_bounds (Some two_bounds_entries) = Inr ix"
    and st: "search_session list_bitmap ix 0 [(Some 4, Some 3), (Some 4, Some 3), (Some 4, Some 1)]
      (snd (open_local ix None (no_locals :: (int, u32 list) locals_state))) = Some st"
    and found: "map_option fst (search_local list_bitmap ix 0 (Some 1, Some 3) [] st) = Some (True, [''a'', ''b'', ''c''])"
    and index: "index_Search list_bitmap ix (Some 1, Some 3) [] = (True, [''a''])"
    by (auto split: sum.splits option.splits)
  have "local_reachable list_bitmap ix (snd (open_local ix None no_locals))"
    by (rule local_reachable.Step [OF local_reachable.Start Opened [of ix _ "fst (open_local ix None no_locals)"]]) simp
  from search_session_reachable [OF this st] ix found index show ?thesis by (auto simp: map_option_case split: option.splits)
qed

end
