(* ===== verification/Search_Theorems.thy ===== *)
theory Search_Theorems
  imports Index_Theorems
begin

text \<open>The properties of the cost model and of the ranked entries of one search.\<close>

section \<open>Costs\<close>

text \<open>
  The cost arithmetic saturates: the sum and the product of two 64-bit costs are the exact ones, or the
  largest 64-bit number where those do not fit.
\<close>

theorem saturating_exact:
  "unat (saturating_add a b) = min (unat a + unat b) (2 ^ 64 - 1) \<and> unat (saturating_mul a b) = min (unat a * unat b) (2 ^ 64 - 1)"
  by (simp only: unat_saturating_add unat_saturating_mul simp_thms)

text \<open>
  The next operation of an intersection is one of the remaining ones, and no remaining operation of
  known cost is cheaper; an operation of unknown cost comes last.
\<close>

theorem next_operation_least:
  assumes "es \<noteq> []"
  shows "select_next_bitmap_operation R es < length es
    \<and> (\<forall>e\<in>set es. case ranked_bitmap_work R e of None \<Rightarrow> True
        | Some w \<Rightarrow> \<exists>least. ranked_bitmap_work R (es ! select_next_bitmap_operation R es) = Some least \<and> least \<le> w)"
proof -
  have "case ranked_bitmap_work R e of None \<Rightarrow> True
      | Some w \<Rightarrow> \<exists>least. ranked_bitmap_work R (es ! select_next_bitmap_operation R es) = Some least \<and> least \<le> w" if "e \<in> set es" for e
    using select_next_least [OF assms that, of R] by (auto simp: replaces_def not_less split: option.splits)
  with select_next_less [OF assms] show ?thesis by blast
qed

definition example_ranked :: "u32 list ranked list" where
  "example_ranked = [empty_ranked\<lparr>rk_card := max_u64\<rparr>, empty_ranked\<lparr>rk_card := 9, rk_child := 1\<rparr>, empty_ranked\<lparr>rk_card := 4, rk_child := 2\<rparr>]"

theorem next_operation_least_witness:
  "select_next_bitmap_operation list_bitmap example_ranked = 2
   \<and> (\<exists>least. ranked_bitmap_work list_bitmap (example_ranked ! 2) = Some least \<and> least \<le> 640)"
proof
  show two: "select_next_bitmap_operation list_bitmap example_ranked = 2" by code_simp
  have "example_ranked \<noteq> []" "example_ranked ! 1 \<in> set example_ranked" by (simp_all add: example_ranked_def)
  moreover have "ranked_bitmap_work list_bitmap (example_ranked ! 1) = Some 640" by code_simp
  ultimately show "\<exists>least. ranked_bitmap_work list_bitmap (example_ranked ! 2) = Some least \<and> least \<le> 640"
    using next_operation_least [of example_ranked list_bitmap] two by fastforce
qed

text \<open>
  Testing the candidates one by one is chosen only when something remains to be tested and every
  remaining child can test an ID.
\<close>

theorem validation_needs_direct_tests:
  assumes "should_validate_remaining R children candidates es"
  shows "es \<noteq> [] \<and> (\<forall>e\<in>set es. supports_direct children (rk_child e))"
  using should_validate_remaining_direct [OF assms] .

theorem validation_needs_direct_tests_witness:
  "supports_direct [ma_ops list_bitmap ([1, 2], 0) :: (int option, int, u32 list) child_ops] 0"
proof -
  have "should_validate_remaining list_bitmap [ma_ops list_bitmap ([1, 2], 0) :: (int option, int, u32 list) child_ops] 3
      [empty_ranked :: u32 list ranked]"
    by code_simp
  from validation_needs_direct_tests [OF this] show ?thesis by (simp add: empty_ranked_def)
qed

section \<open>Ownership of scratch bitmaps\<close>

text \<open>The ranked entries with which \<open>Index.Search\<close> of a root \<open>All\<close> ends; then it releases those it owns.\<close>

definition final_ranked :: "'b roaring \<Rightarrow> ('t, 'v, 'b) all_rule \<Rightarrow> 't \<Rightarrow> 'b ranked list option" where
  "final_ranked R r v =
     (case rank_children R r v (replicate (length (al_children r)) empty_ranked) (index_pool :: ('v, 'b) pool) of
        (None, p) \<Rightarrow> None
      | (Some es, p) \<Rightarrow>
          (case prepare_ranked_candidates R r v (if al_class_count r \<noteq> 0 then drop_equal_classes r v es else es) p of
             (ok, candidates, es, p) \<Rightarrow> Some es))"

text \<open>Two pairs of filters; the filters of a pair have the same wildcard.\<close>

type_synonym quad = "int option \<times> int option \<times> int option \<times> int option"

definition two_pairs :: "(quad, int, int) schema" where
  "two_pairs = All_Rule 0 [Filter_Rule 1 (Include_Filter fst id), Filter_Rule 2 (Include_Filter (\<lambda>t. fst (snd t)) id),
     Filter_Rule 3 (Include_Filter (\<lambda>t. fst (snd (snd t))) id), Filter_Rule 4 (Include_Filter (\<lambda>t. snd (snd (snd t))) id)]"

definition two_pairs_entries :: "(quad \<times> nat) list" where
  "two_pairs_entries = map (\<lambda>i.
     ((if i < 5 then None else if i = 10 then Some 2 else Some 1, if i < 5 then None else if i = 9 then Some 2 else Some 1,
       if 3 \<le> i \<and> i < 8 then None else if i = 0 then Some 2 else Some 1, if 3 \<le> i \<and> i < 8 then None else if i = 1 then Some 2 else Some 1), i))
     [0..<11]"

text \<open>
  C12: When two groups of filters share a wildcard each, a search can release one scratch bitmap twice: the
  compaction of the entries leaves a second owned copy of the entry it has moved forward. Three bitmaps go
  back to the pool although two were taken from it.
\<close>

theorem compaction_releases_twice:
  "\<exists>ix r es. build_index list_bitmap two_pairs (Some two_pairs_entries) = Inr ix \<and> ix_root ix = All_Root r
    \<and> final_ranked list_bitmap r (Some 1, Some 1, Some 1, Some 1) = Some es
    \<and> es ! 1 = es ! 2 \<and> rk_owned (es ! 1) \<and> map rk_child es = [0, 2, 2, 3] \<and> length (release_ranked es) = 3"
proof -
  have "case build_index list_bitmap two_pairs (Some two_pairs_entries) of
      Inr ix \<Rightarrow> (case ix_root ix of
          All_Root r \<Rightarrow> (case final_ranked list_bitmap r (Some 1, Some 1, Some 1, Some 1) of
              Some es \<Rightarrow> es ! 1 = es ! 2 \<and> rk_owned (es ! 1) \<and> map rk_child es = [0, 2, 2, 3] \<and> length (release_ranked es) = 3
            | None \<Rightarrow> False)
        | Leaf_Root _ \<Rightarrow> False)
    | Inl _ \<Rightarrow> False"
    by code_simp
  then show ?thesis by (auto split: sum.splits root.splits option.splits)
qed

end
