(* ===== verification/Container_Theorems.thy ===== *)
theory Container_Theorems
  imports Ordered_Prepare Equality_Index
begin

text \<open>The properties of the containers of \<^verbatim>\<open>eq.go\<close> and \<^verbatim>\<open>ordered_index.go\<close> for every history of insertions.\<close>

section \<open>Posting sets\<close>

context roaring
begin

lemma es_bits_add:
  assumes "es_ok s" "es_bits s = None \<longleftrightarrow> card (es_ids R s) \<le> equalityArrayLimit"
  shows "es_bits (es_add R s i) = None \<longleftrightarrow> card (es_ids R (es_add R s i)) \<le> equalityArrayLimit"
proof (cases "es_bits s")
  case (Some b)
  have "card (es_ids R s) \<le> card (insert i (es_ids R s))" by (rule card_mono) auto
  moreover have "es_bits (es_add R s i) \<noteq> None" by (simp add: es_add_def Some)
  ultimately show ?thesis using Some assms(2) by (simp add: es_ids_add [OF assms(1)])
next
  case None
  show ?thesis
  proof (cases "es_small s")
    case none: None
    have "card {es_single s, i} \<le> 2" by (simp add: card_insert_if)
    with None none show ?thesis
      by (auto simp: es_add_def es_ids_def equalityArrayLimit_def card_insert_if)
  next
    case (Some xs)
    note ok = es_ok_small [OF assms(1) Some]
    have "distinct xs" using ok(4) by (simp add: strict_sorted_iff)
    then have card: "card (es_ids R s) = length xs" using Some None by (simp add: es_ids_def distinct_card)
    have grow: "card (insert i (es_ids R s)) = (if i \<in> es_ids R s then length xs else Suc (length xs))"
      using card by (simp add: card_insert_if)
    have found: "snd (slices_binary_search xs i) \<longleftrightarrow> i \<in> es_ids R s"
      using binary_search_sorted [OF ok(4)] Some None by (simp add: es_ids_def)
    have "es_bits (es_add R s i) = None \<longleftrightarrow> length xs < equalityArrayLimit \<or> i \<in> es_ids R s"
      using None Some found by (auto simp: es_add_def split: prod.split)
    with grow ok(3) show ?thesis by (auto simp: es_ids_add [OF assms(1)])
  qed
qed

lemma es_history:
  "es_ok (foldl (es_add R) (new_equality_set i) is) \<and> es_ids R (foldl (es_add R) (new_equality_set i) is) = set (i # is)
   \<and> (es_bits (foldl (es_add R) (new_equality_set i) is) = None \<longleftrightarrow> card (set (i # is)) \<le> equalityArrayLimit)"
proof (induction "is" rule: rev_induct)
  case Nil
  have "es_bits (new_equality_set i :: 'b equality_set) = None" by (simp add: new_equality_set_def)
  then show ?case by (simp add: equalityArrayLimit_def)
next
  case (snoc x xs)
  then show ?case using es_bits_add [of "foldl (es_add R) (new_equality_set i) xs" x]
    by (simp add: es_ok_add es_ids_add insert_commute)
qed

lemma ei_history:
  "ei_ok (foldl (\<lambda>t (k, i). ei_add R t k i) new_equality_index kis)
   \<and> ei_posting R (foldl (\<lambda>t (k, i). ei_add R t k i) new_equality_index kis) k = {i. (k, i) \<in> set kis}"
proof (induction kis rule: rev_induct)
  case (snoc x xs)
  then show ?case by (cases x) (auto simp: ei_ok_add ei_posting_add)
qed simp

lemma ei_get_add_other: "ei_ok t \<Longrightarrow> k \<noteq> a \<Longrightarrow> ei_get (ei_add R t a i) k = ei_get t k"
  by (cases "ei_offset t a") (simp_all add: ei_add_def ei_get_update ei_get_append)

lemma ei_history_nonempty:
  "ei_get (foldl (\<lambda>t (k, i). ei_add R t k i) new_equality_index kis) k = Some s \<Longrightarrow> es_ids R s \<noteq> {}"
proof (induction kis arbitrary: k s rule: rev_induct)
  case Nil
  then show ?case by (simp add: ei_get_def new_equality_index_def ei_offset_def)
next
  case (snoc x xs)
  obtain a i where x: "x = (a, i)" by (cases x)
  let ?t = "foldl (\<lambda>t (k, i). ei_add R t k i) new_equality_index xs"
  have ok: "ei_ok ?t" using ei_history [of xs] by blast
  have s: "ei_get (ei_add R ?t a i) k = Some s" using snoc.prems by (simp add: x)
  show ?case
  proof (cases "k = a")
    case True
    with s ei_posting_add [OF ok, of a i k] show ?thesis by (auto simp: ei_posting_def)
  next
    case False
    with s snoc.IH ei_get_add_other [OF ok] show ?thesis by simp
  qed
qed

end

text \<open>
  C28: A posting set that has received any sequence of IDs contains exactly those IDs, reports their number,
  and is a bitmap exactly when more than 32 distinct IDs have been added.
\<close>

theorem equality_set_history:
  fixes i :: u32 and xs :: "u32 list"
  assumes "roaring R"
  defines "s \<equiv> foldl (es_add R) (new_equality_set i) xs"
  shows "(es_contains R s j \<longleftrightarrow> j \<in> set (i # xs)) \<and> es_cardinality R s = of_nat (card (set (i # xs)))
    \<and> (es_bits s \<noteq> None \<longleftrightarrow> equalityArrayLimit < card (set (i # xs)))"
proof -
  have h: "es_ok s" "es_ids R s = set (i # xs)" "es_bits s = None \<longleftrightarrow> card (set (i # xs)) \<le> equalityArrayLimit"
    using roaring.es_history [OF assms(1), of i xs] unfolding s_def by blast+
  show ?thesis using roaring.es_contains_iff [OF assms(1) h(1)] roaring.es_cardinality_eq [OF assms(1) h(1)] h(3)
    unfolding h(2) by (simp only: not_le [symmetric])
qed

theorem equality_set_history_witness:
  "es_cardinality list_bitmap (foldl (es_add list_bitmap) (new_equality_set 7) [9, 3, 7, 9]) = 3
   \<and> es_contains list_bitmap (foldl (es_add list_bitmap) (new_equality_set 7) [9, 3, 7, 9]) 3
   \<and> \<not> es_contains list_bitmap (foldl (es_add list_bitmap) (new_equality_set 7) [9, 3, 7, 9]) 8"
proof -
  have "card (set (7 # [9, 3, 7, 9 :: u32])) = 3" by code_simp
  with equality_set_history [OF list_bitmap.roaring_axioms, where i = 7 and xs = "[9, 3, 7, 9]" and j = 3]
    equality_set_history [OF list_bitmap.roaring_axioms, where i = 7 and xs = "[9, 3, 7, 9]" and j = 8]
  show ?thesis by simp
qed

text \<open>
  An equality index that has received any sequence of (key, ID) pairs, before and after its array of
  keys is promoted to a map, returns for a key a set with exactly the IDs added under it, and nothing for
  a key it has not seen.
\<close>

theorem equality_index_lookup_after_insert:
  fixes kis :: "('k \<times> u32) list"
  assumes "roaring R"
  defines "t \<equiv> foldl (\<lambda>t (k, i). ei_add R t k i) new_equality_index kis"
  shows "case ei_get t k of
      None \<Rightarrow> k \<notin> fst ` set kis
    | Some s \<Rightarrow> k \<in> fst ` set kis \<and> (\<forall>i. es_contains R s i \<longleftrightarrow> (k, i) \<in> set kis)
        \<and> es_cardinality R s = of_nat (card {i. (k, i) \<in> set kis})"
proof -
  have h: "ei_ok t" "ei_posting R t k = {i. (k, i) \<in> set kis}"
    using roaring.ei_history [OF assms(1), of kis k] by (simp_all add: t_def)
  show ?thesis
  proof (cases "ei_get t k")
    case None
    then have "{i. (k, i) \<in> set kis} = {}" using h(2) by (simp add: ei_posting_def)
    with None show ?thesis by auto
  next
    case (Some s)
    note g = roaring.ei_get_ids [OF assms(1) h(1) Some]
    have "es_ids R s \<noteq> {}" using roaring.ei_history_nonempty [OF assms(1), of kis] Some unfolding t_def by blast
    with Some g h(2) have "{i. (k, i) \<in> set kis} \<noteq> {}" by auto
    with Some g h(2) show ?thesis by force
  qed
qed

theorem equality_index_lookup_after_insert_witness:
  "\<exists>s. ei_get (foldl (\<lambda>t (k, i). ei_add list_bitmap t k i) new_equality_index
        [(''a'', 1), (''b'', 2), (''c'', 3), (''d'', 4), (''b'', 5)]) ''b'' = Some s
     \<and> (\<forall>i. es_contains list_bitmap s i \<longleftrightarrow> i = 2 \<or> i = 5)"
  using equality_index_lookup_after_insert [OF list_bitmap.roaring_axioms,
      where kis = "[(''a'', 1), (''b'', 2), (''c'', 3), (''d'', 4), (''b'', 5)]" and k = "''b''"]
  by (auto split: option.splits)

section \<open>Ordered indexes\<close>

text \<open>
  C29: After any insertions the items of an ordered index are in strictly ascending order across its blocks,
  no block is empty or has more than twice the block size, and the bitmap of a block is the union of its
  items.
\<close>

theorem ordered_insert_invariant:
  fixes es :: "('v \<times> u32) list" and key :: "'v \<Rightarrow> u64 option"
  assumes "roaring R" "comparator cmp"
  defines "x \<equiv> foldl (\<lambda>x (v, i). ox_insert R x v i) (new_ordered_index cmp key) es"
  shows "sorted_wrt (\<lambda>a b. cmp (oi_value a) (oi_value b) < 0) (concat (map ob_items (ox_blocks x)))
    \<and> (\<forall>b\<in>set (ox_blocks x). ob_items b \<noteq> [] \<and> length (ob_items b) \<le> 2 * orderedBlockSize
         \<and> bm_ids R (ob_bits b) = (\<Union>item\<in>set (ob_items b). bm_ids R (oi_bits item)))"
proof -
  have cmp: "ox_compare x = cmp" by (simp add: x_def) (simp add: new_ordered_index_def)
  have "ox_ok R x" unfolding x_def by (rule ox_ok_building) (rule roaring.ox_building_fold [OF assms(1,2)])
  then have "sorted_items cmp (flat x)" "\<forall>b\<in>set (ox_blocks x). block_ok R b" by (simp_all add: ox_ok_def cmp)
  then show ?thesis by (simp add: sorted_items_def flat_def block_ok_def items_ids_def mult.commute)
qed

theorem ordered_insert_invariant_witness:
  "sorted_wrt (\<lambda>a b. go_compare (oi_value a) (oi_value b) < 0)
    (concat (map ob_items (ox_blocks (foldl (\<lambda>x (v, i). ox_insert list_bitmap x v i) (new_ordered_index go_compare (\<lambda>_. None))
       [(9, 1), (3, 2), (9, 3), (5, 4)]))))"
  using ordered_insert_invariant [OF list_bitmap.roaring_axioms go_compare.comparator_axioms,
      where es = "[(9, 1), (3, 2), (9, 3), (5, 4)]" and key = "\<lambda>_. None"] by (rule conjunct1)

text \<open>
  An exact lookup in a prepared ordered index returns the IDs of the entries whose value compares equal
  to the query value, and nothing if there is none.
\<close>

theorem ordered_exact_lookup:
  assumes "roaring R" "comparator cmp"
  shows "(case ox_exact (ox_build R cmp key es) v of None \<Rightarrow> {} | Some b \<Rightarrow> bm_ids R b) = {i. \<exists>w. (w, i) \<in> set es \<and> cmp w v = 0}"
  using ox_exact_ids [OF roaring.ox_ok_build [OF assms]] roaring.ox_posting_build [OF assms] by simp

theorem ordered_exact_lookup_witness:
  "(case ox_exact (ox_build list_bitmap go_compare (\<lambda>_. None) [(9, 1), (3, 2), (9, 3), (5, 4)]) 9 of
      None \<Rightarrow> {} | Some b \<Rightarrow> bm_ids list_bitmap b) = {1, 3}"
  unfolding ordered_exact_lookup [OF list_bitmap.roaring_axioms go_compare.comparator_axioms] by (auto simp: go_compare_def)

end
