(* ===== verification/Cache_Theorems.thy ===== *)
theory Cache_Theorems
  imports Local_Pool
begin

text \<open>The properties of the result caches of a \<open>Local\<close> for every history of requests.\<close>

section \<open>Requests\<close>

text \<open>The state after searches for the given keys, and the bitmaps they returned.\<close>

fun cache_after :: "'b roaring \<Rightarrow> ('k \<Rightarrow> 'b \<Rightarrow> 'b) \<Rightarrow> ('k, 'b) value_cache \<Rightarrow> 'k list \<Rightarrow> ('k, 'b) value_cache" where
  "cache_after R fill c [] = c"
| "cache_after R fill c (k # ks) = cache_after R fill (fst (snd (vc_search R (=) (fill k) c k (bm_new R)))) ks"

fun cache_results :: "'b roaring \<Rightarrow> ('k \<Rightarrow> 'b \<Rightarrow> 'b) \<Rightarrow> ('k, 'b) value_cache \<Rightarrow> 'k list \<Rightarrow> 'b list" where
  "cache_results R fill c [] = []"
| "cache_results R fill c (k # ks) =
     (case vc_search R (=) (fill k) c k (bm_new R) of (bits, c, _) \<Rightarrow> bits # cache_results R fill c ks)"

fun antonym_results ::
  "'b roaring \<Rightarrow> ('v query_key list \<Rightarrow> 'b \<Rightarrow> 'b) \<Rightarrow> ('v, 'b) antonym_cache \<Rightarrow> 'v query_key list list \<Rightarrow> 'b list" where
  "antonym_results R fill c [] = []"
| "antonym_results R fill c (k # ks) =
     (case ac_search R (fill k) c k (bm_new R) of (bits, c, _) \<Rightarrow> bits # antonym_results R fill c ks)"

lemma cache_results_den:
  assumes "roaring R" "\<And>k d. bm_ids R (fill k d) = bm_ids R d \<union> den k"
  shows "vc_ok R den c \<Longrightarrow> map (bm_ids R) (cache_results R fill c ks) = map den ks"
proof (induction ks arbitrary: c)
  case (Cons k ks)
  obtain bits c' r where s: "vc_search R (=) (fill k) c k (bm_new R) = (bits, c', r)" by (metis prod_cases3)
  have "bm_ids R bits = bm_ids R (bm_new R) \<union> den k" "vc_ok R den c'"
    using roaring.vc_search_spec [OF assms(1) Cons.prems _ assms(2) s] by auto
  with Cons.IH s show ?case by (simp add: roaring.ids_new [OF assms(1)])
qed simp

lemma antonym_results_den:
  assumes "roaring R" "\<And>k d. bm_ids R (fill k d) = bm_ids R d \<union> den k"
  shows "ac_ok R den c \<Longrightarrow> map (bm_ids R) (antonym_results R fill c ks) = map den ks"
proof (induction ks arbitrary: c)
  case (Cons k ks)
  obtain bits c' r where s: "ac_search R (fill k) c k (bm_new R) = (bits, c', r)" by (metis prod_cases3)
  have "bm_ids R bits = bm_ids R (bm_new R) \<union> den k" "ac_ok R den c'"
    using roaring.ac_search_spec [OF assms(1) Cons.prems assms(2) s] by auto
  with Cons.IH s show ?case by (simp add: roaring.ids_new [OF assms(1)])
qed simp

section \<open>Admission\<close>

definition sn_ok :: "'k cache_seen \<Rightarrow> bool" where
  "sn_ok s \<longleftrightarrow> length (sn_entries s) = 2 \<and> sn_next s < sn_capacity s \<and> (\<forall>es. sn_overflow s = Some es \<longrightarrow> length es = 2)"

definition cache_ok :: "('k, 'b) value_cache \<Rightarrow> bool" where
  "cache_ok c \<longleftrightarrow> vc_shape c \<and> (\<forall>s. vc_seen c = Some s \<longrightarrow> sn_ok s)"

definition seen_key :: "('k, 'b) value_cache \<Rightarrow> 'k \<Rightarrow> bool" where
  "seen_key c k \<longleftrightarrow> (\<exists>s. vc_seen c = Some s \<and> (\<exists>i < sn_capacity s. sn_entry s i = Some k))"

lemma sn_ok_new: "sn_ok new_seen"
  by (simp add: sn_ok_def new_seen_def sn_capacity_def)

lemma sn_capacity_set [simp]: "sn_capacity (sn_set s i e) = sn_capacity s"
  by (simp add: sn_capacity_def sn_set_def split: option.split)

lemma sn_ok_set: "sn_ok s \<Longrightarrow> sn_ok (sn_set s i e)"
  by (auto simp: sn_ok_def sn_set_def sn_capacity_def split: option.splits)

lemma sn_entry_set:
  assumes "sn_ok s" "i < sn_capacity s"
  shows "sn_entry (sn_set s i e) i = e"
  using assms by (auto simp: sn_ok_def sn_set_def sn_entry_def sn_capacity_def split: option.splits if_splits)

lemma admit_true:
  assumes "cache_ok c" "vc_admit (=) c k = (True, c')"
  shows "cache_ok c'"
  using assms
  by (auto simp: cache_ok_def vc_admit_def Let_def vc_shape_def sn_ok_new sn_ok_set split: option.splits if_splits)

lemma admit_false:
  assumes "cache_ok c" "vc_admit (=) c k = (False, c')"
  shows "cache_ok c' \<and> seen_key c' k"
proof -
  define s0 where "s0 = (case vc_seen c of Some s \<Rightarrow> s | None \<Rightarrow> new_seen)"
  define s1 where "s1 = (if 8 \<le> vc_misses c + 1 \<and> sn_overflow s0 = None then s0\<lparr>sn_overflow := Some [None, None]\<rparr> else s0)"
  define s2 where "s2 = s1\<lparr>sn_next := (sn_next s1 + 1) mod sn_capacity s1\<rparr>"
  have "sn_ok s0" using assms(1) by (auto simp: s0_def cache_ok_def sn_ok_new split: option.split)
  then have s1: "sn_ok s1" by (auto simp: s1_def sn_ok_def sn_capacity_def)
  then have i: "sn_next s1 < sn_capacity s1" by (simp add: sn_ok_def)
  have s2: "sn_ok s2" "sn_capacity s2 = sn_capacity s1"
    using s1 by (auto simp: s2_def sn_ok_def sn_capacity_def)
  have c': "c' = c\<lparr>vc_misses := vc_misses c + 1, vc_seen := Some (sn_set s2 (sn_next s1) (Some k))\<rparr>"
    using assms(2) by (auto simp: vc_admit_def Let_def s0_def [symmetric] s1_def [symmetric] s2_def split: option.splits)
  have "vc_shape c'" using assms(1) by (simp add: c' cache_ok_def vc_shape_def)
  moreover have "sn_ok (sn_set s2 (sn_next s1) (Some k))" by (rule sn_ok_set [OF s2(1)])
  moreover have "sn_entry (sn_set s2 (sn_next s1) (Some k)) (sn_next s1) = Some k"
    by (rule sn_entry_set) (use s2 i in simp_all)
  ultimately show ?thesis using i s2(2) by (auto simp: cache_ok_def seen_key_def c')
qed

lemma admit_seen: "seen_key c k \<Longrightarrow> fst (vc_admit (=) c k)"
proof -
  assume "seen_key c k"
  then obtain s i where s: "vc_seen c = Some s" "i < sn_capacity s" "sn_entry s i = Some k" by (auto simp: seen_key_def)
  then have "first_index (\<lambda>i. case sn_entry s i of Some k' \<Rightarrow> k' = k | None \<Rightarrow> False) [0..<sn_capacity s] \<noteq> None"
    by (auto simp: first_index_None intro: bexI [of _ i])
  with s(1) show ?thesis by (auto simp: vc_admit_def Let_def)
qed

definition cached_key :: "('k, 'b) value_cache \<Rightarrow> 'k \<Rightarrow> bool" where
  "cached_key c k \<longleftrightarrow> fst (vc_lookup (=) c k) \<noteq> None"

lemma cached_key_iff:
  fixes c :: "('k, 'b) value_cache"
  shows "cached_key c k \<longleftrightarrow> (\<exists>i<vc_capacity c. \<exists>b. vc_entry c i = Some (k, b))"
proof -
  have em: "entry_matches (=) k e \<longleftrightarrow> (\<exists>b. e = Some (k, b))" for e :: "('k \<times> 'b) option"
    by (auto simp: entry_matches_def split: option.split)
  have "cached_key c k \<longleftrightarrow> vc_find (=) c k \<noteq> None" by (simp add: cached_key_def vc_lookup_def split: option.split)
  also have "\<dots> \<longleftrightarrow> (\<exists>i<vc_capacity c. entry_matches (=) k (vc_entry c i))" by (auto simp: vc_find_def first_index_None)
  finally show ?thesis unfolding em .
qed

context roaring
begin

lemma search_cached:
  assumes "cache_ok c" "vc_search R (=) fill c k dst = (dst', c', r)"
  shows "cache_ok c' \<and> (cached_key c' k \<or> seen_key c' k) \<and> (seen_key c k \<longrightarrow> cached_key c' k)"
proof (cases "vc_lookup (=) c k")
  case (Pair found c1)
  show ?thesis
  proof (cases found)
    case (Some f)
    obtain i where i: "vc_find (=) c k = Some i" using Pair Some by (auto simp: vc_lookup_def split: option.splits)
    then have c1: "c1 = vc_touch c i" using Pair by (simp add: vc_lookup_def)
    have shape: "vc_shape c" using assms(1) by (simp add: cache_ok_def)
    have "c' = c1" using assms(2) Pair Some by (cases f) (simp add: vc_search_def)
    moreover have "cached_key c1 k"
    proof -
      have "vc_capacity c1 = vc_capacity c" by (auto simp: c1 vc_touch_def vc_capacity_def split: option.split)
      moreover have "cached_key c k" using Pair Some by (simp add: cached_key_def)
      ultimately show ?thesis by (simp add: cached_key_iff c1)
    qed
    moreover have "vc_seen c1 = vc_seen c" by (auto simp: c1 vc_touch_def split: option.split)
    then have "cache_ok c1" using assms(1) vc_shape_touch [OF shape, of i] by (simp add: cache_ok_def c1)
    ultimately show ?thesis by blast
  next
    case None
    then have "c1 = c" using Pair by (auto simp: vc_lookup_def split: option.splits)
    obtain a c2 where a: "vc_admit (=) c k = (a, c2)" by fastforce
    show ?thesis
    proof (cases a)
      case False
      then have "c' = c2" using assms(2) Pair None a \<open>c1 = c\<close> by (simp add: vc_search_def)
      moreover have "\<not> seen_key c k" using admit_seen [of c k] a False by auto
      ultimately show ?thesis using admit_false [OF assms(1), of k c2] a False by simp
    next
      case True
      have ok2: "cache_ok c2" using admit_true [OF assms(1), of k c2] a True by simp
      obtain i c3 where r: "vc_replace R c2 k = (i, c3)" by fastforce
      have "vc_shape c2" using ok2 by (simp add: cache_ok_def)
      note rep = vc_replace_spec [OF this r]
      have c': "c' = vc_set_entry c3 i (k, fill (bm_new R))"
        using assms(2) Pair None a True r \<open>c1 = c\<close> by (simp add: vc_search_def Let_def)
      have "vc_entry c' i = Some (k, fill (bm_new R))" "vc_capacity c' = vc_capacity c3"
        using vc_entry_set [OF rep(1,2)] by (simp_all add: c')
      then have "cached_key c' k" using rep(2) by (auto simp: cached_key_iff)
      moreover have "vc_seen c' = vc_seen c2"
        using r by (auto simp: c' vc_replace_def vc_set_entry_def vc_slot_def vc_press_def vc_grow_def Let_def
            split: prod.splits option.splits if_splits)
      then have "cache_ok c'" using ok2 vc_shape_set [OF rep(1)] by (simp add: cache_ok_def c')
      ultimately show ?thesis by blast
    qed
  qed
qed

lemma cache_ok_after: "cache_ok c \<Longrightarrow> cache_ok (cache_after R fill c ks)"
proof (induction ks arbitrary: c)
  case (Cons k ks)
  obtain bits c' r where s: "vc_search R (=) (fill k) c k (bm_new R) = (bits, c', r)" by (metis prod_cases3)
  with Cons.IH [of c'] search_cached [OF Cons.prems s] show ?case by simp
qed simp

end

lemma cache_ok_new: "cache_ok new_value_cache"
  by (simp add: cache_ok_def) (simp add: new_value_cache_def)

lemma cache_after_append: "cache_after R fill c (ks @ ls) = cache_after R fill (cache_after R fill c ks) ls"
  by (induction ks arbitrary: c) auto

section \<open>Properties\<close>

text \<open>
  C23: The value cache of a node is transparent: for every sequence of requests, whatever is admitted, evicted
  or grown, each search returns what the uncached search of its key returns.
\<close>

theorem value_cache_transparent:
  assumes "roaring R" "\<And>k d. bm_ids R (fill k d) = bm_ids R d \<union> den k"
  shows "map (bm_ids R) (cache_results R fill new_value_cache ks) = map den ks"
  using cache_results_den [OF assms vc_ok_new] .

theorem value_cache_transparent_witness:
  "map (bm_ids list_bitmap) (cache_results list_bitmap (\<lambda>k d. bm_add list_bitmap d k) new_value_cache
      [1, 2, 1, 3, 3, 4, 4, 1, 1, 2]) = [{1}, {2}, {1}, {3}, {3}, {4}, {4}, {1}, {1}, {2}]"
  by (subst value_cache_transparent [OF list_bitmap.roaring_axioms, where den = "\<lambda>k. {k}"])
    (simp_all add: list_bitmap.ids_add)

text \<open>
  C24: After any history, a key requested twice in a row is cached: the next lookup is a hit.
\<close>

theorem value_cache_hits_after_two_requests:
  assumes "roaring R"
  shows "fst (vc_lookup (=) (cache_after R fill new_value_cache (ks @ [k, k])) k) \<noteq> None"
proof -
  let ?c = "cache_after R fill new_value_cache ks"
  obtain b1 c1 r1 where s1: "vc_search R (=) (fill k) ?c k (bm_new R) = (b1, c1, r1)" by (metis prod_cases3)
  obtain b2 c2 r2 where s2: "vc_search R (=) (fill k) c1 k (bm_new R) = (b2, c2, r2)" by (metis prod_cases3)
  have "cache_ok ?c" by (rule roaring.cache_ok_after [OF assms cache_ok_new])
  note one = roaring.search_cached [OF assms this s1]
  have "cache_ok c1" using one by blast
  note two = roaring.search_cached [OF assms this s2]
  have "cached_key c2 k"
  proof (cases "seen_key c1 k")
    case True
    with two show ?thesis by blast
  next
    case False
    then have "cached_key c1 k" using one by blast
    then obtain f c3 where f: "vc_lookup (=) c1 k = (Some f, c3)" by (cases "vc_lookup (=) c1 k") (auto simp: cached_key_def)
    then obtain i where i: "vc_find (=) c1 k = Some i" "c3 = vc_touch c1 i" by (auto simp: vc_lookup_def split: option.splits)
    have "c2 = c3" using s2 f by (cases f) (simp add: vc_search_def)
    moreover have "vc_capacity c3 = vc_capacity c1" by (auto simp: i(2) vc_touch_def vc_capacity_def split: option.split)
    ultimately show ?thesis using \<open>cached_key c1 k\<close> by (simp add: cached_key_iff i(2))
  qed
  with s1 s2 show ?thesis by (simp add: cache_after_append cached_key_def)
qed

theorem value_cache_hits_after_two_requests_witness:
  "fst (vc_lookup (=) (cache_after list_bitmap (\<lambda>k d. bm_add list_bitmap d k) new_value_cache ([1, 2, 3] @ [7, 7])) 7) \<noteq> None"
  by (rule value_cache_hits_after_two_requests [OF list_bitmap.roaring_axioms])

text \<open>
  The cache of a strict antonym rule is transparent as well.
\<close>

theorem antonym_cache_transparent:
  assumes "roaring R" "\<And>keys d. bm_ids R (fill keys d) = bm_ids R d \<union> den keys"
  shows "map (bm_ids R) (antonym_results R fill new_antonym_cache requests) = map den requests"
  using antonym_results_den [OF assms ac_ok_new] .

theorem antonym_cache_transparent_witness:
  "map (bm_ids list_bitmap) (antonym_results list_bitmap (\<lambda>keys d. bm_add list_bitmap d (of_nat (length keys))) new_antonym_cache
      [[], [(Equality_Cache, (Some (1 :: int), None))], [], []]) = [{0}, {1}, {0}, {0}]"
  by (subst antonym_cache_transparent [OF list_bitmap.roaring_axioms, where den = "\<lambda>keys. {of_nat (length keys)}"])
    (simp_all add: list_bitmap.ids_add)

lemma lru_from_least:
  "\<forall>j\<in>set is. vc_entry c j \<noteq> None \<Longrightarrow> j \<in> insert oldest (set is) \<Longrightarrow> used ! lru_from c used oldest is \<le> used ! j"
proof (induction "is" arbitrary: oldest j)
  case (Cons i "is")
  let ?o = "if used ! i < used ! oldest then i else oldest"
  have full: "\<forall>j\<in>set is. vc_entry c j \<noteq> None" "vc_entry c i \<noteq> None" using Cons.prems(1) by auto
  have "used ! lru_from c used ?o is \<le> used ! ?o" using Cons.IH [OF full(1), of ?o ?o] by simp
  moreover have "used ! ?o \<le> used ! oldest" "used ! ?o \<le> used ! i" by (auto simp: not_less)
  moreover have "j \<in> set is \<Longrightarrow> used ! lru_from c used ?o is \<le> used ! j" using Cons.IH [OF full(1), of j ?o] by simp
  ultimately show ?case using Cons.prems(2) full(2) by (auto intro: order_trans)
qed simp

text \<open>
  A full cache of four entries replaces the least recently used one and leaves the other three as they
  are.
\<close>

theorem value_cache_replaces_least_recently_used:
  assumes "vc_shape c" "vc_overflow c = Some ov" "\<forall>i<4. vc_entry c i \<noteq> None" "vc_replace R c k = (i, c')"
  shows "i < 4 \<and> (\<forall>j<4. ov_used ov ! i \<le> ov_used ov ! j) \<and> vc_entry c' = (vc_entry c)(i := Some (k, bm_new R))"
proof -
  have cap: "vc_capacity c = 4" using assms(2) by (simp add: vc_capacity_def)
  have press: "vc_press c = c" using assms(2) by (simp add: vc_press_def)
  have i: "i = vc_lru c (ov_used ov)" using assms(2,4) by (auto simp: vc_replace_def press vc_slot_def Let_def)
  have "i < 4" using vc_lru_less [of c "ov_used ov"] cap i by simp
  moreover have "ov_used ov ! i \<le> ov_used ov ! j" if "j < 4" for j
    unfolding i vc_lru_def cap by (rule lru_from_least) (use assms(3) that in auto)
  moreover have "vc_entry c' = (vc_entry c)(i := Some (k, bm_new R))" by (rule vc_replace_spec(3) [OF assms(1,4)])
  ultimately show ?thesis by blast
qed

definition example_full_cache :: "(nat, u32 list) value_cache" where
  "example_full_cache = \<lparr>vc_entries = [Some (1, [1]), Some (2, [2])], vc_seen = None,
     vc_overflow = Some \<lparr>ov_entries = [Some (3, [3]), Some (4, [4])], ov_used = [9, 4, 7, 5], ov_clock = 9\<rparr>,
     vc_next = 0, vc_pressure = 2, vc_misses = 0\<rparr>"

theorem value_cache_replaces_least_recently_used_witness:
  "vc_entry (snd (vc_replace list_bitmap example_full_cache 8)) 1 = Some (8, bm_new list_bitmap)"
proof -
  obtain i c' where r: "vc_replace list_bitmap example_full_cache 8 = (i, c')" by fastforce
  have ov: "vc_overflow example_full_cache = Some \<lparr>ov_entries = [Some (3, [3]), Some (4, [4])], ov_used = [9, 4, 7, 5], ov_clock = 9\<rparr>"
    "vc_shape example_full_cache" by (simp_all add: example_full_cache_def vc_shape_def)
  have "vc_entry example_full_cache 0 \<noteq> None" "vc_entry example_full_cache 1 \<noteq> None"
    "vc_entry example_full_cache 2 \<noteq> None" "vc_entry example_full_cache 3 \<noteq> None" by code_simp+
  then have "\<forall>i<4. vc_entry example_full_cache i \<noteq> None" by (auto simp: less_Suc_eq numeral_eq_Suc)
  note least = value_cache_replaces_least_recently_used [OF ov(2,1) this r]
  have "[9, 4, 7, 5 :: u64] ! i \<le> [9, 4, 7, 5] ! 1" using least [THEN conjunct2, THEN conjunct1, rule_format, of 1] by simp
  moreover have "i < 4" using least by blast
  moreover have "i = 0 \<or> i = 1 \<or> i = 2 \<or> i = 3" using \<open>i < 4\<close> by linarith
  ultimately have "i = 1" by auto
  with least r show ?thesis by simp
qed

text \<open>
  C25: A pool that has been reset holds no result of the searches before it: it is in order for every other
  assignment of results to its nodes.
\<close>

theorem reset_local_forgets:
  assumes "pool_ok R G p" "va_nodes G' = va_nodes G"
  shows "pool_ok R G' (reset_local p)"
  using assms
  by (auto simp: pool_ok_def reset_local_def node_ok_def node_reset_def vc_reset_def ac_reset_def split: option.splits)

definition example_used_pool :: "(int, u32 list) pool" where
  "example_used_pool = (new_local_pool 1)\<lparr>po_local := Some [(\<lambda>_. None)(Equality_Cache :=
     Some (new_value_cache\<lparr>vc_entries := [Some ((Some 1, None), [1]), None]\<rparr>))]\<rparr>"

theorem reset_local_forgets_witness:
  "pool_ok list_bitmap \<lparr>va_den = \<lambda>_ _ _. {}, va_antonym = \<lambda>_ _. {}, va_width = \<lambda>_. 0, va_nodes = 1\<rparr> (reset_local example_used_pool)"
proof -
  have "bm_ids list_bitmap [1] = {1}" by (simp add: bm_ids_list)
  then have "vc_ok list_bitmap (\<lambda>_. {1}) (new_value_cache\<lparr>vc_entries := [Some ((Some (1 :: int), None :: int option), [1]), None]\<rparr>)"
    by (auto simp: vc_ok_def vc_shape_def vc_entry_def new_value_cache_def nth_Cons' split: if_splits)
  then have "pool_ok list_bitmap \<lparr>va_den = \<lambda>_ _ _. {1}, va_antonym = \<lambda>_ _. {}, va_width = \<lambda>_. 0, va_nodes = 1\<rparr> example_used_pool"
    by (simp add: pool_ok_def node_ok_def example_used_pool_def new_local_pool_def)
  then show ?thesis by (rule reset_local_forgets) simp
qed

end
