(* ===== verification/Rule_Sharing.thy ===== *)
theory Rule_Sharing
  imports Build_Correctness
begin

text \<open>
  The sharing of rule states by \<open>newState\<close> (\<^verbatim>\<open>rule.go\<close>): a filter object that is not an \<open>Exclude\<close> has one node, however
  often the schema uses it and at whatever depth.
\<close>

text \<open>The objects of the filters of a schema whose state is shared.\<close>

definition shared_objects :: "('t, 'v, 'k) schema \<Rightarrow> nat set" where
  "shared_objects s = {object. \<exists>f. Filter_Rule object f \<in> subschemas s \<and> \<not> is_exclude f}"

text \<open>Every shared filter of the schemas \<open>cs\<close> has a node, and the trees \<open>ts\<close> reach it.\<close>

definition placed :: "('t, 'v, 'k, 'b) allocator \<Rightarrow> ('t, 'v, 'k) schema list \<Rightarrow> 'b rule_tree list \<Rightarrow> bool" where
  "placed a cs ts \<longleftrightarrow>
     (\<forall>c\<in>set cs. \<forall>object\<in>shared_objects c. \<exists>n\<in>set (concat (map tree_nodes ts)). al_canonical a object = Some (Leaf_Node n))"

definition leaves_kept :: "('t, 'v, 'k, 'b) allocator \<Rightarrow> ('t, 'v, 'k, 'b) allocator \<Rightarrow> bool" where
  "leaves_kept a a' \<longleftrightarrow> (\<forall>object n. al_canonical a object = Some (Leaf_Node n) \<longrightarrow> al_canonical a' object = Some (Leaf_Node n))"

text \<open>The nodes of the shared filters correspond one to one to the objects that the allocator knows.\<close>

definition sharing_ok :: "('t, 'v, 'k) schema set \<Rightarrow> ('t, 'v, 'k, 'b) allocator \<Rightarrow> bool" where
  "sharing_ok S a \<longleftrightarrow>
     (\<forall>object n. al_canonical a object = Some (Leaf_Node n) \<longrightarrow>
        n < length (al_filters a) \<and> Filter_Rule object (al_filters a ! n) \<in> S \<and> \<not> is_exclude (al_filters a ! n))
     \<and> (\<forall>object object' n. al_canonical a object = Some (Leaf_Node n) \<longrightarrow> al_canonical a object' = Some (Leaf_Node n) \<longrightarrow> object = object')
     \<and> (\<forall>n<length (al_filters a). \<not> is_exclude (al_filters a ! n) \<longrightarrow> (\<exists>object. al_canonical a object = Some (Leaf_Node n)))
     \<and> (\<forall>c\<in>S. \<forall>t. known_state c a = Some t \<longrightarrow> placed a [c] [t])"

lemma sharing_okD:
  assumes "sharing_ok S a"
  shows "al_canonical a object = Some (Leaf_Node n) \<Longrightarrow>
      n < length (al_filters a) \<and> Filter_Rule object (al_filters a ! n) \<in> S \<and> \<not> is_exclude (al_filters a ! n)"
    "al_canonical a object = Some (Leaf_Node n) \<Longrightarrow> al_canonical a object' = Some (Leaf_Node n) \<Longrightarrow> object = object'"
    "n < length (al_filters a) \<Longrightarrow> \<not> is_exclude (al_filters a ! n) \<Longrightarrow> \<exists>object. al_canonical a object = Some (Leaf_Node n)"
    "c \<in> S \<Longrightarrow> known_state c a = Some t \<Longrightarrow> placed a [c] [t]"
  using assms unfolding sharing_ok_def by blast+

lemma canonical_filter [simp]: "is_canonical (Filter_Rule object f) \<longleftrightarrow> \<not> is_exclude f"
  by (cases f) simp_all

lemma shared_objects_filter [simp]: "shared_objects (Filter_Rule object f) = (if is_exclude f then {} else {object})"
  by (auto simp: shared_objects_def)

lemma shared_objects_all [simp]: "shared_objects (All_Rule object cs) = (\<Union>c\<in>set cs. shared_objects c)"
  by (auto simp: shared_objects_def)

lemma leaves_kept_refl [simp]: "leaves_kept a a"
  by (simp add: leaves_kept_def)

lemma leaves_kept_trans: "leaves_kept a b \<Longrightarrow> leaves_kept b c \<Longrightarrow> leaves_kept a c"
  by (simp add: leaves_kept_def)

lemma placed_kept: "placed a cs ts \<Longrightarrow> leaves_kept a a' \<Longrightarrow> placed a' cs ts"
  unfolding placed_def leaves_kept_def by blast

lemma placed_append: "placed a cs ts \<Longrightarrow> placed a ds us \<Longrightarrow> placed a (cs @ ds) (ts @ us)"
  unfolding placed_def by fastforce

lemma placed_known: "placed a cs ts \<Longrightarrow> placed a [c] [t] \<Longrightarrow> t \<in> set ts \<Longrightarrow> placed a (cs @ [c]) ts"
  unfolding placed_def by fastforce

text \<open>A filter that is not known yet gets a node of its own, and the allocator knows it afterwards.\<close>

lemma sharing_filter:
  assumes ok: "sharing_ok S a" and new: "known_state (Filter_Rule object f) a = None" and "Filter_Rule object f \<in> S"
    and objects: "\<And>c d. c \<in> S \<Longrightarrow> d \<in> S \<Longrightarrow> schema_object c = schema_object d \<Longrightarrow> c = d"
    and a': "a' = remember_state (Filter_Rule object f) (Leaf_Node (length (al_filters a))) (a\<lparr>al_filters := al_filters a @ [f]\<rparr>)"
  shows "sharing_ok S a' \<and> leaves_kept a a' \<and> placed a' [Filter_Rule object f] [Leaf_Node (length (al_filters a))]"
proof (cases "is_exclude f")
  case True
  then have "al_canonical a' = al_canonical a" "al_filters a' = al_filters a @ [f]" by (simp_all add: a' remember_state_def)
  with ok True show ?thesis
    by (fastforce simp: sharing_ok_def leaves_kept_def placed_def known_state_def nth_append less_Suc_eq)
next
  case False
  let ?n = "length (al_filters a)"
  have none: "al_canonical a object = None" using new False by (simp add: known_state_def)
  have upd: "al_canonical a' = (al_canonical a)(object \<mapsto> Leaf_Node ?n)" "al_filters a' = al_filters a @ [f]"
    using False by (simp_all add: a' remember_state_def)
  have kept: "leaves_kept a a'" using none by (auto simp: leaves_kept_def upd)
  have placed: "placed a' [Filter_Rule object f] [Leaf_Node ?n]" using False by (simp add: placed_def upd)
  have "placed a' [c] [t]" if c: "c \<in> S" "known_state c a' = Some t" for c t
  proof (cases "schema_object c = object")
    case True
    then have "c = Filter_Rule object f" using objects c(1) assms(3) by simp
    with c(2) False placed show ?thesis by (simp add: known_state_def upd)
  next
    case False
    then have "known_state c a = Some t" using c(2) by (simp add: known_state_def upd split: if_splits)
    then show ?thesis by (rule placed_kept [OF sharing_okD(4) [OF ok c(1)] kept])
  qed
  moreover have "n < length (al_filters a') \<and> Filter_Rule o' (al_filters a' ! n) \<in> S \<and> \<not> is_exclude (al_filters a' ! n)"
    if "al_canonical a' o' = Some (Leaf_Node n)" for o' n
    using that sharing_okD(1) [OF ok, of o' n] assms(3) False by (auto simp: upd nth_append split: if_splits)
  moreover have "o1 = o2" if "al_canonical a' o1 = Some (Leaf_Node n)" "al_canonical a' o2 = Some (Leaf_Node n)" for o1 o2 n
    using that sharing_okD(1) [OF ok] sharing_okD(2) [OF ok, of o1 n o2] by (auto simp: upd split: if_splits)
  moreover have "\<exists>o'. al_canonical a' o' = Some (Leaf_Node n)" if n: "n < length (al_filters a')" "\<not> is_exclude (al_filters a' ! n)" for n
  proof (cases "n = ?n")
    case True
    then show ?thesis by (auto simp: upd)
  next
    case False
    then obtain o' where "al_canonical a o' = Some (Leaf_Node n)"
      using n sharing_okD(3) [OF ok, of n] by (auto simp: upd nth_append)
    then show ?thesis using kept by (auto simp: leaves_kept_def)
  qed
  ultimately show ?thesis using kept placed unfolding sharing_ok_def by blast
qed

lemma sharing_all:
  assumes ok: "sharing_ok S a" and "All_Rule object cs \<in> S" "placed a cs ts"
    and objects: "\<And>c d. c \<in> S \<Longrightarrow> d \<in> S \<Longrightarrow> schema_object c = schema_object d \<Longrightarrow> c = d"
    and a': "a' = remember_state (All_Rule object cs) (All_Node object ts) a"
  shows "sharing_ok S a' \<and> leaves_kept a a' \<and> placed a' [All_Rule object cs] [All_Node object ts]"
proof -
  have upd: "al_canonical a' = (al_canonical a)(object \<mapsto> All_Node object ts)" "al_filters a' = al_filters a"
    by (simp_all add: a' remember_state_def)
  have "al_canonical a object \<noteq> Some (Leaf_Node n)" for n
  proof
    assume "al_canonical a object = Some (Leaf_Node n)"
    then have "Filter_Rule object (al_filters a ! n) \<in> S" using ok by (simp add: sharing_ok_def)
    from objects [OF this assms(2)] show False by simp
  qed
  then have leaf: "al_canonical a' o' = Some (Leaf_Node n) \<longleftrightarrow> al_canonical a o' = Some (Leaf_Node n)" for o' n
    by (simp add: upd)
  have kept: "leaves_kept a a'" by (simp add: leaves_kept_def leaf)
  have placed: "placed a' [All_Rule object cs] [All_Node object ts]"
    using placed_kept [OF assms(3) kept] by (auto simp: placed_def)
  have "placed a' [c] [t]" if c: "c \<in> S" "known_state c a' = Some t" for c t
  proof (cases "schema_object c = object")
    case True
    then have "c = All_Rule object cs" using objects c(1) assms(2) by simp
    with c(2) placed show ?thesis by (simp add: known_state_def upd)
  next
    case False
    then have "known_state c a = Some t" using c(2) by (simp add: known_state_def upd split: if_splits)
    then show ?thesis by (rule placed_kept [OF sharing_okD(4) [OF ok c(1)] kept])
  qed
  then have last: "\<forall>c\<in>S. \<forall>t. known_state c a' = Some t \<longrightarrow> placed a' [c] [t]" by blast
  note parts = ok [unfolded sharing_ok_def]
  have "sharing_ok S a'"
    unfolding sharing_ok_def leaf upd(2)
    by (intro conjI parts [THEN conjunct1] parts [THEN conjunct2, THEN conjunct1] parts [THEN conjunct2, THEN conjunct2, THEN conjunct1] last)
  with kept placed show ?thesis by blast
qed

lemma new_state_sharing:
  assumes objects: "\<And>c d. c \<in> S \<Longrightarrow> d \<in> S \<Longrightarrow> schema_object c = schema_object d \<Longrightarrow> c = d"
  shows "subschemas c \<subseteq> S \<Longrightarrow> sharing_ok S a \<Longrightarrow> known_state c a = None \<Longrightarrow> new_state c a = (t, a') \<Longrightarrow>
      sharing_ok S (remember_state c t a') \<and> leaves_kept a (remember_state c t a') \<and> placed (remember_state c t a') [c] [t]"
    and "\<Union> (set (map subschemas cs)) \<subseteq> S \<Longrightarrow> sharing_ok S a \<Longrightarrow> set seen \<subseteq> set children \<Longrightarrow>
      placed a ds children \<Longrightarrow> new_children cs seen children a = (ts, a') \<Longrightarrow>
      sharing_ok S a' \<and> leaves_kept a a' \<and> placed a' (ds @ cs) ts"
proof (induction c a and cs seen children a arbitrary: t a' and ts a' ds rule: new_state_new_children.induct)
  case (1 object f a)
  have new: "t = Leaf_Node (length (al_filters a))" "a' = a\<lparr>al_filters := al_filters a @ [f]\<rparr>"
    using 1(4) by (simp_all add: allocate_def)
  have "Filter_Rule object f \<in> S" using 1(1) by simp
  from sharing_filter [OF 1(2,3) this objects refl] show ?case unfolding new .
next
  case (2 object cs a)
  obtain ts where ts: "new_children cs [] [] a = (ts, a')" "t = All_Node object ts"
    using 2(5) by (auto split: prod.splits)
  have "\<Union> (set (map subschemas cs)) \<subseteq> S" "placed a [] []" using 2(2) by (simp_all add: placed_def)
  from 2(1) [OF this(1) 2(3) subset_refl this(2) ts(1)]
  have cs: "sharing_ok S a'" "leaves_kept a a'" "placed a' cs ts" by simp_all
  have "All_Rule object cs \<in> S" using 2(2) by simp
  from sharing_all [OF cs(1) this cs(3) objects refl, folded ts(2)] leaves_kept_trans [OF cs(2)] show ?case by blast
next
  case (3 seen children a)
  then show ?case by auto
next
  case (4 c cs seen children a)
  obtain t a1 where step: "(case known_state c a of Some t \<Rightarrow> (t, a)
      | None \<Rightarrow> (case new_state c a of (t, a) \<Rightarrow> (t, remember_state c t a))) = (t, a1)" by fastforce
  have c: "c \<in> S" "subschemas c \<subseteq> S" and cs: "\<Union> (set (map subschemas cs)) \<subseteq> S"
    using 4(5) subschemas_self [of c] by auto
  have first: "sharing_ok S a1 \<and> leaves_kept a a1 \<and> placed a1 [c] [t]"
  proof (cases "known_state c a")
    case None
    obtain t2 a2 where new: "new_state c a = (t2, a2)" by fastforce
    from 4(1) [OF None c(2) 4(6) None new] show ?thesis using None step new by auto
  next
    case (Some t)
    with step 4(6) c(1) show ?thesis by (auto simp: sharing_ok_def)
  qed
  have before: "placed a1 ds children" using placed_kept [OF 4(8)] first by blast
  have kept: "placed a1 (ds @ [c]) (children @ [t])" using placed_append [OF before] first by simp
  have finish: "sharing_ok S a' \<and> leaves_kept a a' \<and> placed a' (ds @ c # cs) ts"
    if "sharing_ok S a' \<and> leaves_kept a1 a' \<and> placed a' ((ds @ [c]) @ cs) ts"
    using that first leaves_kept_trans by auto
  have run: "(if is_canonical c
      then if t \<in> set seen then new_children cs seen children a1
           else new_children cs (seen @ [t]) (children @ [t]) a1
      else new_children cs seen (children @ [t]) a1) = (ts, a')"
    using 4(9) unfolding new_children.simps step by simp
  have ok1: "sharing_ok S a1" using first by simp
  note IH = 4(2-4) [OF step [symmetric]]
  show ?case
  proof (cases "is_canonical c")
    case canonical: True
    show ?thesis
    proof (cases "t \<in> set seen")
      case True
      from True 4(7) have "t \<in> set children" by blast
      then have "placed a1 (ds @ [c]) children" using placed_known [OF before] first by blast
      moreover have "new_children cs seen children a1 = (ts, a')" using run canonical True by simp
      ultimately show ?thesis by (rule finish [OF IH(1) [OF canonical True cs ok1 4(7)]])
    next
      case False
      with 4(7) have "set (seen @ [t]) \<subseteq> set (children @ [t])" by auto
      moreover have "new_children cs (seen @ [t]) (children @ [t]) a1 = (ts, a')" using run canonical False by simp
      ultimately show ?thesis by (rule finish [OF IH(2) [OF canonical False cs ok1 _ kept]])
    qed
  next
    case False
    from 4(7) have "set seen \<subseteq> set (children @ [t])" by auto
    moreover have "new_children cs seen (children @ [t]) a1 = (ts, a')" using run False by simp
    ultimately show ?thesis by (rule finish [OF IH(3) [OF False cs ok1 _ kept]])
  qed
qed

text \<open>The state of a whole schema: one node for each shared filter object, and no other for shared filters.\<close>

lemma new_state_shares:
  assumes "objects_ok s" "new_state s new_allocator = (tree, a)" "set (tree_nodes tree) \<subseteq> {..<length (al_filters a)}"
  shows "\<exists>node_of. bij_betw node_of (shared_objects s) {n\<in>set (tree_nodes tree). \<not> is_exclude (al_filters a ! n)}
    \<and> (\<forall>object f. Filter_Rule object f \<in> subschemas s \<longrightarrow> \<not> is_exclude f \<longrightarrow> al_filters a ! node_of object = f)"
proof -
  let ?a = "remember_state s tree a" and ?S = "subschemas s"
  have objects: "c = d" if "c \<in> ?S" "d \<in> ?S" "schema_object c = schema_object d" for c d
    using assms(1) that unfolding objects_ok_def by blast
  have start: "sharing_ok ?S new_allocator" "known_state s new_allocator = None"
    by (simp_all add: sharing_ok_def new_allocator_def known_state_def)
  from new_state_sharing(1) [OF objects subset_refl start assms(2)]
  have ok: "sharing_ok ?S ?a" and placed: "placed ?a [s] [tree]" by blast+
  define node_of where "node_of object = (case al_canonical ?a object of Some (Leaf_Node n) \<Rightarrow> n | _ \<Rightarrow> 0)" for object
  have node: "n = node_of object" if "al_canonical ?a object = Some (Leaf_Node n)" for object n
    using that by (simp add: node_of_def)
  have leaf: "node_of object \<in> set (tree_nodes tree) \<and> al_canonical ?a object = Some (Leaf_Node (node_of object))"
    if "object \<in> shared_objects s" for object
    using placed that node by (fastforce simp: placed_def)
  have known: "Filter_Rule object (al_filters a ! n) \<in> ?S \<and> \<not> is_exclude (al_filters a ! n)"
    if "al_canonical ?a object = Some (Leaf_Node n)" for object n
    using ok that by (simp add: sharing_ok_def)
  have "bij_betw node_of (shared_objects s) {n\<in>set (tree_nodes tree). \<not> is_exclude (al_filters a ! n)}"
  proof (rule bij_betw_imageI)
    show "inj_on node_of (shared_objects s)"
      using ok leaf unfolding inj_on_def sharing_ok_def by metis
    show "node_of ` shared_objects s = {n\<in>set (tree_nodes tree). \<not> is_exclude (al_filters a ! n)}"
    proof (intro equalityI subsetI)
      fix n assume "n \<in> node_of ` shared_objects s"
      then show "n \<in> {n\<in>set (tree_nodes tree). \<not> is_exclude (al_filters a ! n)}" using leaf known by blast
    next
      fix n assume n: "n \<in> {n\<in>set (tree_nodes tree). \<not> is_exclude (al_filters a ! n)}"
      then have "n < length (al_filters ?a)" "\<not> is_exclude (al_filters ?a ! n)" using assms(3) by auto
      then obtain object where object: "al_canonical ?a object = Some (Leaf_Node n)" using ok unfolding sharing_ok_def by blast
      then have "object \<in> shared_objects s" using known by (auto simp: shared_objects_def)
      with node [OF object] show "n \<in> node_of ` shared_objects s" by blast
    qed
  qed
  moreover have "al_filters a ! node_of object = f" if "Filter_Rule object f \<in> ?S" "\<not> is_exclude f" for object f
  proof -
    have "object \<in> shared_objects s" using that by (auto simp: shared_objects_def)
    then have "Filter_Rule object (al_filters a ! node_of object) \<in> ?S" using leaf known by blast
    from objects [OF this that(1)] show ?thesis by simp
  qed
  ultimately show ?thesis by blast
qed

end
