(* ===== verification/Tree_Theorems.thy ===== *)
theory Tree_Theorems
  imports Build_Total Rule_Sharing Execution_Cost
begin

text \<open>The properties of the passes between the schema and the published root.\<close>

section \<open>Rule states\<close>

text \<open>
  C19: The state tree of a schema reaches a node for every filter of the schema and for no other filter. The nodes
  of the filters that are not \<open>Exclude\<close> correspond one to one to their rule objects: an object that the schema uses
  several times, at any depth, has one node, and two objects never share one. In total the tree has at most as many
  leaves as the schema has occurrences of filters.
\<close>

theorem state_tree_has_schema_filters:
  assumes "objects_ok s" "new_state s new_allocator = (tree, a)"
  shows "(\<lambda>n. al_filters a ! n) ` set (tree_nodes tree) = set (schema_filters s)
    \<and> set (tree_nodes tree) \<subseteq> {..<length (al_filters a)} \<and> length (tree_nodes tree) \<le> length (schema_filters s)
    \<and> (\<exists>node_of. bij_betw node_of (shared_objects s) {n\<in>set (tree_nodes tree). \<not> is_exclude (al_filters a ! n)}
         \<and> (\<forall>object f. Filter_Rule object f \<in> subschemas s \<longrightarrow> \<not> is_exclude f \<longrightarrow> al_filters a ! node_of object = f))"
proof -
  have "allocator_ok (subschemas s) new_allocator" by (simp add: allocator_ok_def new_allocator_def)
  moreover have "c = d" if "c \<in> subschemas s" "d \<in> subschemas s" "schema_object c = schema_object d" for c d
    using assms(1) that unfolding objects_ok_def by blast
  ultimately have "state_of (al_filters a) [s] [tree]" using new_state_ok(1) [of "subschemas s" s] assms(2) by blast
  then show ?thesis using new_state_shares [OF assms] by (simp add: state_of_def)
qed

text \<open>
  A filter used three times, once in a nested \<open>All\<close>, has one node; the two uses of an \<open>Exclude\<close> have one each.
\<close>

definition example_shared :: "(int option, int, int) schema" where
  "example_shared = (let f = Filter_Rule 1 (Include_Filter id id); e = Filter_Rule 2 (Exclude_Filter id)
     in All_Rule 0 [f, e, All_Rule 3 [f, e], f])"

definition example_state :: "u32 list rule_tree \<times> (int option, int, int, u32 list) allocator" where
  "example_state = new_state example_shared new_allocator"

theorem state_tree_has_schema_filters_witness:
  "tree_nodes (fst example_state) = [0, 1, 0, 2] \<and> length (schema_filters example_shared) = 5
   \<and> length (tree_nodes (fst example_state)) \<le> length (schema_filters example_shared)
   \<and> card {n\<in>set (tree_nodes (fst example_state)). \<not> is_exclude (al_filters (snd example_state) ! n)} = 1"
proof (intro conjI)
  show "tree_nodes (fst example_state) = [0, 1, 0, 2]" "length (schema_filters example_shared) = 5" by code_simp+
  have ok: "objects_ok example_shared" by (simp add: objects_ok_def example_shared_def Let_def)
  have state: "new_state example_shared new_allocator = (fst example_state, snd example_state)" by (simp add: example_state_def)
  note shared = state_tree_has_schema_filters [OF ok state]
  then show "length (tree_nodes (fst example_state)) \<le> length (schema_filters example_shared)" by blast
  from shared obtain node_of where
    "bij_betw node_of (shared_objects example_shared) {n\<in>set (tree_nodes (fst example_state)). \<not> is_exclude (al_filters (snd example_state) ! n)}"
    by blast
  from bij_betw_same_card [OF this]
  show "card {n\<in>set (tree_nodes (fst example_state)). \<not> is_exclude (al_filters (snd example_state) ! n)} = 1"
    by (simp add: example_shared_def Let_def)
qed

section \<open>Optimization\<close>

text \<open>Two filters over the IDs 0 and 1: the first has no stored value, the second one.\<close>

definition example_leaves :: "(int option, int, int, u32 list) leaf list" where
  "example_leaves =
     [leaf_insert list_bitmap (leaf_insert list_bitmap (new_leaf list_bitmap 0 (Include_Filter id id)) None 0) None 1,
      leaf_insert list_bitmap (leaf_insert list_bitmap (new_leaf list_bitmap 1 (Include_Filter id id)) (Some 5) 0) None 1,
      leaf_insert list_bitmap (leaf_insert list_bitmap (new_leaf list_bitmap 2 (Exclude_Filter id)) (Some 5) 0) None 1]"

definition example_results :: "nat \<Rightarrow> u32 set" where
  "example_results n = (if n = 0 then {0, 1} else {1})"

lemma example_universe: "({0, 1} :: u32 set) = {i. ucast i < (of_nat (card {0, 1 :: u32}) :: u64)}"
proof -
  have "({0, 1} :: u32 set) = {i. unat i < 2}"
    by (auto simp: less_2_cases_iff word_unat_eq_iff)
  also have "\<dots> = {i. ucast i < (of_nat 2 :: u64)}" by (rule universe_ids(1) [symmetric]) simp
  finally have "({0, 1} :: u32 set) = {i. ucast i < (of_nat 2 :: u64)}" .
  moreover have "card {0, 1 :: u32} = 2" by simp
  ultimately show ?thesis by (simp only:)
qed

lemma example_optimized:
  "A \<subseteq> {0, 1} \<Longrightarrow> leaves_optimized list_bitmap example_leaves example_results {0, 1} A"
proof -
  have "leaf_optimize list_bitmap (example_leaves ! 0) 2 = Some [1, 0]" "leaf_optimize list_bitmap (example_leaves ! 1) 2 = None"
    by code_simp+
  then have "leaves_optimized list_bitmap example_leaves example_results {0, 1} {0, 1}"
    by (auto simp: leaves_optimized_def example_results_def bm_ids_list)
  then show "A \<subseteq> {0, 1} \<Longrightarrow> ?thesis" unfolding leaves_optimized_def by blast
qed

definition example_tree :: "u32 list rule_tree" where
  "example_tree = All_Node 0 [Leaf_Node 1, All_Node 3 [Leaf_Node 1, Leaf_Node 0], Match_All_Node [0, 1]]"

text \<open>
  C18: \<open>optimize\<close> keeps the result of a tree for every query, whatever the filters return: it drops a filter
  only if the filter matches every ID, and its result is one filter, one match-all rule or an \<open>All\<close> of at
  least two filters.
\<close>

theorem optimize_keeps_results:
  assumes "roaring R" "leaves_optimized R ls d U (set (tree_nodes c))" "full_matches R U c"
    and "U = {i. ucast i < (of_nat (card U) :: u64)}"
  shows "tree_den R d U (optimize R ls (of_nat (card U)) c) = tree_den R d U c
    \<and> flat_tree (optimize R ls (of_nat (card U)) c) \<and> set (tree_nodes (optimize R ls (of_nat (card U)) c)) \<subseteq> set (tree_nodes c)"
  using roaring.optimize_spec [OF assms(1-3) _ assms(4)] by blast

theorem optimize_keeps_results_witness:
  "tree_den list_bitmap example_results {0, 1} (optimize list_bitmap example_leaves 2 example_tree)
      = tree_den list_bitmap example_results {0, 1} example_tree
   \<and> optimize list_bitmap example_leaves 2 example_tree = Leaf_Node 1"
proof
  have "leaves_optimized list_bitmap example_leaves example_results {0, 1} (set (tree_nodes example_tree))"
    by (rule example_optimized) (simp add: example_tree_def)
  moreover have "full_matches list_bitmap {0, 1} example_tree" by (simp add: example_tree_def bm_ids_list)
  ultimately show "tree_den list_bitmap example_results {0, 1} (optimize list_bitmap example_leaves 2 example_tree)
      = tree_den list_bitmap example_results {0, 1} example_tree"
    using optimize_keeps_results [OF list_bitmap.roaring_axioms _ _ example_universe, THEN conjunct1,
        of example_leaves example_results example_tree] by simp
qed code_simp

text \<open>
  Removing the \<open>Exclude\<close> rules from the positive tree leaves what the other filters return.
\<close>

theorem remove_exclusions_keeps_rest:
  assumes "roaring R" "leaves_optimized R ls d U {n\<in>set (tree_nodes c). \<not> is_exclusion (ls ! n)}" "full_matches R U c"
    and "bm_ids R universe = U" "U = {i. ucast i < (of_nat (card U) :: u64)}"
  shows "tree_den R d U (remove_exclusion_rules R ls universe c)
      = tree_den R (\<lambda>n. if is_exclusion (ls ! n) then U else d n) U c
    \<and> (\<forall>n\<in>set (tree_nodes (remove_exclusion_rules R ls universe c)). \<not> is_exclusion (ls ! n))"
  using roaring.remove_exclusion_rules_spec [OF assms] unfolding roaring.without_exclusions_def [OF assms(1)] by blast

definition example_excluding_tree :: "u32 list rule_tree" where
  "example_excluding_tree = All_Node 0 [Leaf_Node 1, Leaf_Node 2, Leaf_Node 0]"

theorem remove_exclusions_keeps_rest_witness:
  "tree_den list_bitmap example_results {0, 1} (remove_exclusion_rules list_bitmap example_leaves [0, 1] example_excluding_tree)
      = tree_den list_bitmap (\<lambda>n. if is_exclusion (example_leaves ! n) then {0, 1} else example_results n) {0, 1} example_excluding_tree
   \<and> remove_exclusion_rules list_bitmap example_leaves [0, 1] example_excluding_tree = Leaf_Node 1"
proof
  have "{n\<in>set (tree_nodes example_excluding_tree). \<not> is_exclusion (example_leaves ! n)} \<subseteq> {0, 1}"
    by (auto simp: example_excluding_tree_def example_leaves_def)
  from example_optimized [OF this]
  show "tree_den list_bitmap example_results {0, 1} (remove_exclusion_rules list_bitmap example_leaves [0, 1] example_excluding_tree)
      = tree_den list_bitmap (\<lambda>n. if is_exclusion (example_leaves ! n) then {0, 1} else example_results n) {0, 1} example_excluding_tree"
    by (rule remove_exclusions_keeps_rest [OF list_bitmap.roaring_axioms _ _ _ example_universe, THEN conjunct1])
      (simp_all add: bm_ids_list example_excluding_tree_def)
qed code_simp

end
