(* ===== verification/Publish_Theorems.thy ===== *)
theory Publish_Theorems
  imports Build_Total
begin

text \<open>The properties of interning, equality classes, antonyms and shared groups, each on its own.\<close>

section \<open>Two filters\<close>

definition example_rule :: "nat \<Rightarrow> (int option \<times> u32) list \<Rightarrow> (int option, int, int, u32 list) eq_rule" where
  "example_rule node es = foldl (\<lambda>r (t, i). eq_insert list_bitmap r t i) (include_rule list_bitmap node id id) es"

lemma example_rule_building: "eq_building (example_rule node es)"
proof -
  have step: "eq_building r \<Longrightarrow> eq_building (foldl (\<lambda>r (t, i). eq_insert list_bitmap r t i) r es)" for r :: "(int option, int, int, u32 list) eq_rule"
    by (induction es arbitrary: r) (auto intro: eq_building_insert)
  show ?thesis unfolding example_rule_def by (rule step) (rule eq_include_den(1) [OF list_bitmap.roaring_axioms])
qed

text \<open>The second pair of filters stores its values and wildcards the other way round.\<close>

definition example_children :: "(int option, int, int, u32 list) child list" where
  "example_children = map (\<lambda>(node, es). Filter_Child (Equality_Leaf (example_rule node es)))
     [(0, [(Some 5, 0), (None, 1)]), (1, [(Some 5, 0), (None, 1)]), (2, [(None, 0), (Some 7, 1)])]"

lemma example_internable: "\<forall>c\<in>set example_children. child_internable list_bitmap c"
proof -
  have "\<forall>c\<in>set example_children. case c of Filter_Child lf \<Rightarrow> leaf_unsourced lf | _ \<Rightarrow> True" by code_simp
  then show ?thesis by (auto simp: example_children_def example_rule_building)
qed

lemma example_interned: obtains ds J where "thread (child_intern list_bitmap) example_children new_interner = Some (ds, J)"
proof -
  have "thread (child_intern list_bitmap) example_children new_interner \<noteq> None" by code_simp
  then show thesis using that by auto
qed

section \<open>Interning\<close>

text \<open>
  C22: Interning the children of a root keeps what every child returns. The wildcards of its equality filters get
  numbers other than 0, and two of them have the same number only if they are the same bitmap.
\<close>

theorem intern_keeps_results:
  assumes "roaring R" "\<forall>c\<in>set cs. child_internable R c" "thread (child_intern R) cs new_interner = Some (ds, J)"
  shows "list_all2 (\<lambda>c d. \<forall>q. child_den R d q = child_den R c q) cs ds
    \<and> (\<forall>r s. Filter_Child (Equality_Leaf r) \<in> set ds \<longrightarrow> Filter_Child (Equality_Leaf s) \<in> set ds \<longrightarrow>
         er_wildcard_source r \<noteq> 0 \<and> (er_wildcard_source r = er_wildcard_source s \<longrightarrow> er_wildcard r = er_wildcard s))"
proof -
  from roaring.children_intern [OF assms(1,2) interner_ok_new assms(3)]
  have J: "interner_ok J" and rel: "list_all2 (\<lambda>a b. same_child R a b \<and> child_sourced J b) cs ds" by blast+
  have src: "(er_wildcard r, er_wildcard_source r) \<in> in_entries J" if r: "Filter_Child (Equality_Leaf r) \<in> set ds" for r
  proof -
    from r obtain i where "i < length ds" "ds ! i = Filter_Child (Equality_Leaf r)" by (auto simp: in_set_conv_nth)
    with list_all2_nthD2 [OF rel, of i] show ?thesis by simp
  qed
  have "er_wildcard_source r \<noteq> 0" if "Filter_Child (Equality_Leaf r) \<in> set ds" for r
    using src [OF that] J unfolding interner_ok_def by fastforce
  moreover have "er_wildcard r = er_wildcard s"
    if "Filter_Child (Equality_Leaf r) \<in> set ds" "Filter_Child (Equality_Leaf s) \<in> set ds" "er_wildcard_source r = er_wildcard_source s" for r s
    using interner_unique [OF J, of "er_wildcard r" "er_wildcard_source r" "er_wildcard s"] src [OF that(1)] src [OF that(2)] that(3) by simp
  moreover have "list_all2 (\<lambda>c d. \<forall>q. child_den R d q = child_den R c q) cs ds"
    using rel by (rule list_all2_mono) (simp add: same_child_den)
  ultimately show ?thesis by blast
qed

theorem intern_keeps_results_witness:
  "\<exists>ds J. thread (child_intern list_bitmap) example_children new_interner = Some (ds, J)
    \<and> list_all2 (\<lambda>c d. \<forall>q. child_den list_bitmap d q = child_den list_bitmap c q) example_children ds"
proof -
  obtain ds J where t: "thread (child_intern list_bitmap) example_children new_interner = Some (ds, J)" by (rule example_interned)
  with intern_keeps_results [OF list_bitmap.roaring_axioms example_internable t] show ?thesis by blast
qed

text \<open>
  The 32-bit source numbers suffice, and interning does not panic, as long as the wildcards and postings
  to be interned are fewer than 2^32.
\<close>

theorem interning_succeeds:
  assumes "roaring R" "\<forall>c\<in>set cs. child_internable R c" "(\<Sum>c\<leftarrow>cs. child_cost c) < 2 ^ 32"
  shows "\<exists>ds J. thread (child_intern R) cs new_interner = Some (ds, J) \<and> length ds = length cs"
proof -
  have "within (thread (child_intern R)) cs (\<Sum>c\<leftarrow>cs. child_cost c)"
    by (rule within_thread) (use roaring.within_child [OF assms(1)] assms(2) in blast)
  from withinD [OF this, of new_interner] assms(3) obtain ds J where "thread (child_intern R) cs new_interner = Some (ds, J)"
    by (auto simp: in_used_new)
  with length_thread [OF this] show ?thesis by blast
qed

theorem interning_succeeds_witness:
  "\<exists>ds J. thread (child_intern list_bitmap) example_children new_interner = Some (ds, J) \<and> length ds = length example_children"
proof (rule interning_succeeds [OF list_bitmap.roaring_axioms example_internable])
  have "(\<Sum>c\<leftarrow>example_children. child_cost c) = 12" by code_simp
  then show "(\<Sum>c\<leftarrow>example_children. child_cost c) < 2 ^ 32" by simp
qed

section \<open>Equality classes\<close>

text \<open>
  The pairs of sources that get a class number are exactly those that at least two children visit; they
  are listed once and in ascending order.
\<close>

theorem shared_pairs_exact:
  "set (shared_pairs cs) = {pair. 2 \<le> card {i. i < length cs \<and> pair \<in> set (child_sources (cs ! i))}}
   \<and> distinct (shared_pairs cs) \<and> sorted (shared_pairs cs)"
  using shared_pairs [of cs] by (simp add: owners_def)

context roaring
begin

lemma equality_classes_plain:
  assumes "\<forall>c\<in>set cs. child_internable R c \<and> child_ready R nodes K c"
    and "thread (child_intern R) cs new_interner = Some (ds, J)" "length (shared_pairs ds) \<le> class_limit"
    and "compile_equality_classes ds = (es, n)"
  shows "(\<forall>c\<in>set es. \<forall>d\<in>set es. \<forall>v. query_class (published_ops R c) v \<noteq> 0 \<longrightarrow>
        query_class (published_ops R c) v = query_class (published_ops R d) v \<longrightarrow> child_den R c v = child_den R d v)
    \<and> list_all2 (\<lambda>c e. \<forall>q. child_den R e q = child_den R c q) cs es"
proof -
  have "\<forall>c\<in>set cs. child_internable R c" using assms(1) by blast
  from children_intern [OF this interner_ok_new assms(2)]
  have J: "interner_ok J" and rel: "list_all2 (\<lambda>a b. same_child R a b \<and> child_sourced J b) cs ds" by blast+
  have ready: "\<forall>d\<in>set ds. child_ready R nodes K d"
  proof
    fix d assume "d \<in> set ds"
    then obtain i where i: "i < length ds" "d = ds ! i" by (auto simp: in_set_conv_nth)
    have "same_child R (cs ! i) d" "cs ! i \<in> set cs" using list_all2_nthD2 [OF rel i(1)] list_all2_lengthD [OF rel] i by auto
    with assms(1) same_child_ready show "child_ready R nodes K d" by blast
  qed
  have sourced: "\<forall>d\<in>set ds. child_sourced J d" using rel by (auto simp: list_all2_conv_all_nth in_set_conv_nth)
  from compile_equality_classes_spec [OF J sourced ready assms(3,4)]
  have same: "list_all2 same_published ds es" and agree: "classes_agree n es" by blast+
  have "child_den R e q = child_den R c q" if "i < length cs" "c = cs ! i" "e = es ! i" for i c e q
  proof -
    have "i < length ds" using that(1) list_all2_lengthD [OF rel] by simp
    with list_all2_nthD [OF same this] list_all2_nthD2 [OF rel this] same_child_den [of R "cs ! i" "ds ! i" q] that
    show ?thesis by (simp add: same_published_def)
  qed
  then have "list_all2 (\<lambda>c e. \<forall>q. child_den R e q = child_den R c q) cs es"
    using list_all2_lengthD [OF rel] list_all2_lengthD [OF same] by (simp add: list_all2_conv_all_nth)
  with agree show ?thesis unfolding classes_agree_def by blast
qed

end

text \<open>
  C21: Children that report one nonzero class for a query return the same result for it, so that a search
  may drop all but one of them; the classes do not change what a child returns.
\<close>

theorem equality_classes_sound:
  assumes "roaring R" "\<forall>c\<in>set cs. child_internable R c \<and> child_ready R nodes K c"
    and "thread (child_intern R) cs new_interner = Some (ds, J)" "length (shared_pairs ds) \<le> 4294967232"
    and "compile_equality_classes ds = (es, n)"
  shows "(\<forall>c\<in>set es. \<forall>d\<in>set es. \<forall>v. query_class (published_ops R c) v \<noteq> 0 \<longrightarrow>
        query_class (published_ops R c) v = query_class (published_ops R d) v \<longrightarrow> child_den R c v = child_den R d v)
    \<and> list_all2 (\<lambda>c e. \<forall>q. child_den R e q = child_den R c q) cs es"
  by (rule roaring.equality_classes_plain [OF assms])

theorem equality_classes_sound_witness:
  "\<exists>ds J es n. thread (child_intern list_bitmap) example_children new_interner = Some (ds, J)
    \<and> compile_equality_classes ds = (es, n)
    \<and> list_all2 (\<lambda>c e. \<forall>q. child_den list_bitmap e q = child_den list_bitmap c q) example_children es"
proof -
  obtain ds J where t: "thread (child_intern list_bitmap) example_children new_interner = Some (ds, J)" by (rule example_interned)
  obtain es n where c: "compile_equality_classes ds = (es, n)" by fastforce
  have "length (shared_pairs (fst (the (thread (child_intern list_bitmap) example_children new_interner)))) = 1" by code_simp
  then have "length (shared_pairs ds) \<le> 4294967232" by (simp add: t)
  moreover have "\<forall>c\<in>set example_children. child_internable list_bitmap c \<and> child_ready list_bitmap 3
      (\<lambda>m k. case example_children ! m of Filter_Child lf \<Rightarrow> leaf_key_den list_bitmap lf k | _ \<Rightarrow> {}) c"
  proof -
    have "\<forall>m<3. case example_children ! m of Filter_Child lf \<Rightarrow> leaf_node lf = m | _ \<Rightarrow> False" by code_simp
    then have "er_node (example_rule 0 [(Some 5, 0), (None, 1)]) = 0" "er_node (example_rule 1 [(Some 5, 0), (None, 1)]) = 1"
      "er_node (example_rule 2 [(None, 0), (Some 7, 1)]) = 2"
      by (auto simp: example_children_def numeral_eq_Suc less_Suc_eq_0_disj)
    with example_internable show ?thesis by (auto simp: example_children_def example_rule_building)
  qed
  ultimately show ?thesis using equality_classes_sound [OF list_bitmap.roaring_axioms _ t _ c] t c by blast
qed

section \<open>Antonyms and shared groups\<close>

text \<open>
  C20: Replacing equality children by strict antonym rules leaves the conjunction of all children unchanged,
  when the equality children store the same IDs, equal wildcard sources stand for equal wildcards and no two
  children are the same filter.
\<close>

theorem antonyms_keep_conjunction:
  assumes "roaring R" "antonyms_sound R U cs"
  shows "(\<Inter>c\<in>set (compile_antonyms R cs). child_den R c v) = (\<Inter>c\<in>set cs. child_den R c v)"
  using roaring.compile_antonyms_den [OF assms] .

text \<open>Two filters with complementary wildcards, under different sources.\<close>

definition example_antonyms :: "(int option, int, int, u32 list) child list" where
  "example_antonyms = [Filter_Child (Equality_Leaf ((example_rule 0 [(Some 5, 0), (None, 1)])\<lparr>er_wildcard_source := 1\<rparr>)),
     Filter_Child (Equality_Leaf ((example_rule 1 [(None, 0), (Some 7, 1)])\<lparr>er_wildcard_source := 2\<rparr>))]"

theorem antonyms_keep_conjunction_witness:
  "(\<Inter>c\<in>set (compile_antonyms list_bitmap example_antonyms). child_den list_bitmap c (Some 5))
     = (\<Inter>c\<in>set example_antonyms. child_den list_bitmap c (Some 5))
   \<and> length (compile_antonyms list_bitmap example_antonyms) = 1"
proof
  let ?r = "example_rule 0 [(Some 5, 0), (None, 1)]" and ?s = "example_rule 1 [(None, 0), (Some 7, 1)]"
  have f: "er_node ?r = 0" "er_node ?s = 1" "length (ei_sets (er_values ?r)) = 1" "length (ei_sets (er_values ?s)) = 1" by code_simp+
  have stored: "eq_stored list_bitmap (eq_insert list_bitmap (eq_insert list_bitmap (include_rule list_bitmap n id (id :: int \<Rightarrow> int)) t i) u j) = {i, j}"
    for n t i u j
  proof -
    have "eq_building (include_rule list_bitmap n (id :: int option \<Rightarrow> int option) (id :: int \<Rightarrow> int))"
      by (rule eq_include_den(1) [OF list_bitmap.roaring_axioms])
    moreover have "eq_stored list_bitmap (include_rule list_bitmap n (id :: int option \<Rightarrow> int option) (id :: int \<Rightarrow> int)) = {}"
      by (simp add: eq_stored_def include_rule_def list_bitmap.ids_new new_equality_index_def)
    ultimately show ?thesis by (auto simp: list_bitmap.eq_stored_insert eq_building_insert)
  qed
  let ?a = "?r\<lparr>er_wildcard_source := 1\<rparr>" and ?b = "?s\<lparr>er_wildcard_source := 2\<rparr>"
  have same: "eq_stored list_bitmap (r\<lparr>er_wildcard_source := n\<rparr>) = eq_stored list_bitmap r"
      "eq_building (r\<lparr>er_wildcard_source := n\<rparr>) = eq_building r" "eq_bounded (r\<lparr>er_wildcard_source := n\<rparr>) = eq_bounded r"
    for r :: "(int option, int, int, u32 list) eq_rule" and n by (simp_all add: eq_stored_def eq_building_def eq_bounded_def)
  have "eq_stored list_bitmap ?r = {0, 1}" "eq_stored list_bitmap ?s = {0, 1}" by (auto simp: example_rule_def stored)
  then have one: "eq_stored list_bitmap r = {0, 1} \<and> eq_bounded r \<and> eq_building r" if "r = ?a \<or> r = ?b" for r
    using that f example_rule_building by (auto simp: same) (simp_all add: eq_bounded_def)
  have two: "(er_wildcard_source r = er_wildcard_source s \<longrightarrow> r = s) \<and> (er_node r = er_node s \<longrightarrow> r = s)"
    if "r = ?a \<or> r = ?b" "s = ?a \<or> s = ?b" for r s
    using that by (elim disjE) (simp_all add: f del: One_nat_def)
  have at: "i < length example_antonyms \<Longrightarrow> i = 0 \<or> i = 1" for i by (auto simp: example_antonyms_def)
  have ops: "equality_operand (example_antonyms ! 0) = Some ?a" "equality_operand (example_antonyms ! 1) = Some ?b"
    by (simp_all add: example_antonyms_def)
  have ne: "?a \<noteq> ?b"
  proof
    assume "?a = ?b"
    then have "er_wildcard_source ?a = er_wildcard_source ?b" by (rule arg_cong)
    then show False by simp
  qed
  have op: "r = ?a \<or> r = ?b" if "i < length example_antonyms" "equality_operand (example_antonyms ! i) = Some r" for i r
    using at [OF that(1)] that(2) ops by auto
  have pos: "i = j" if "i < length example_antonyms" "equality_operand (example_antonyms ! i) = Some r"
      "j < length example_antonyms" "equality_operand (example_antonyms ! j) = Some r" for i j r
    using at [OF that(1)] at [OF that(3)] that(2,4) ops ne by (elim disjE) simp_all
  have "antonyms_sound list_bitmap {0, 1} example_antonyms"
    unfolding antonyms_sound_def
  proof (intro conjI allI impI)
    fix i r assume "i < length example_antonyms" "equality_operand (example_antonyms ! i) = Some r"
    from one [OF op [OF this]] show "eq_stored list_bitmap r = {0, 1}" "eq_bounded r" "eq_building r" by simp_all
  next
    fix i j r s
    assume i: "i < length example_antonyms" and j: "j < length example_antonyms"
      and r: "equality_operand (example_antonyms ! i) = Some r" and s: "equality_operand (example_antonyms ! j) = Some s"
    note rs = two [OF op [OF i r] op [OF j s]]
    show "bm_ids list_bitmap (er_wildcard r) = bm_ids list_bitmap (er_wildcard s)" if "er_wildcard_source r = er_wildcard_source s"
      using rs that by blast
    show "i = j" if "er_node r = er_node s" using rs that pos [OF i r j] s by blast
  next
    show "Antonym_Child r \<notin> set example_antonyms" for r by (simp add: example_antonyms_def)
  qed
  then show "(\<Inter>c\<in>set (compile_antonyms list_bitmap example_antonyms). child_den list_bitmap c (Some 5))
     = (\<Inter>c\<in>set example_antonyms. child_den list_bitmap c (Some 5))"
    by (rule antonyms_keep_conjunction [OF list_bitmap.roaring_axioms])
qed code_simp

text \<open>
  Children that are put into one group for the shared evaluation of their wildcard have equal wildcards,
  which are not empty.
\<close>

theorem shared_groups_have_one_wildcard:
  assumes "roaring R"
    and "\<forall>i<length cs. \<forall>j<length cs. \<forall>a b. co_shared (cs ! i) = Some a \<longrightarrow> co_shared (cs ! j) = Some b \<longrightarrow>
      sw_source a = sw_source b \<longrightarrow> bm_ids R (sw_wildcard a) = bm_ids R (sw_wildcard b)"
    and "prepare_shared_groups R cs = Some gs" "i < length cs" "j < length cs" "gs ! i \<noteq> 0" "gs ! i = gs ! j"
  shows "\<exists>a b. co_shared (cs ! i) = Some a \<and> co_shared (cs ! j) = Some b
    \<and> bm_ids R (sw_wildcard a) = bm_ids R (sw_wildcard b) \<and> bm_ids R (sw_wildcard a) \<noteq> {}"
proof -
  have ok: "groups_ok R cs (Some gs)" using roaring.prepare_shared_groups_ok [OF assms(1,2)] assms(3) by simp
  have shared: "\<exists>sw. co_shared (cs ! k) = Some sw \<and> bm_ids R (sw_wildcard sw) \<noteq> {}" if "k < length cs" "gs ! k \<noteq> 0" for k
    using ok that by (simp add: groups_ok_def)
  obtain a where a: "co_shared (cs ! i) = Some a" "bm_ids R (sw_wildcard a) \<noteq> {}" using shared [OF assms(4,6)] by blast
  have "gs ! j \<noteq> 0" using assms(6,7) by simp
  then obtain b where b: "co_shared (cs ! j) = Some b" using shared [OF assms(5)] by blast
  have "bm_ids R (sw_wildcard a) = bm_ids R (sw_wildcard b)"
    using ok [unfolded groups_ok_def, rule_format, OF refl] assms(4-7) a(1) b by blast
  with a b show ?thesis by blast
qed

theorem shared_groups_have_one_wildcard_witness:
  "\<exists>a b. co_shared (map (published_ops list_bitmap) [example_antonyms ! 0, example_antonyms ! 1, example_antonyms ! 0] ! 0) = Some a
    \<and> co_shared (map (published_ops list_bitmap) [example_antonyms ! 0, example_antonyms ! 1, example_antonyms ! 0] ! 2) = Some b
    \<and> bm_ids list_bitmap (sw_wildcard a) = bm_ids list_bitmap (sw_wildcard b) \<and> bm_ids list_bitmap (sw_wildcard a) \<noteq> {}"
proof -
  let ?cs = "map (published_ops list_bitmap) [example_antonyms ! 0, example_antonyms ! 1, example_antonyms ! 0]"
  have groups: "prepare_shared_groups list_bitmap ?cs = Some [1, 0, 1]" by code_simp
  have shared: "\<forall>i<length ?cs. \<forall>j<length ?cs. \<forall>a b. co_shared (?cs ! i) = Some a \<longrightarrow> co_shared (?cs ! j) = Some b \<longrightarrow>
      sw_source a = sw_source b \<longrightarrow> bm_ids list_bitmap (sw_wildcard a) = bm_ids list_bitmap (sw_wildcard b)"
  proof (intro allI impI)
    fix i j a b assume h: "i < length ?cs" "j < length ?cs" "co_shared (?cs ! i) = Some a" "co_shared (?cs ! j) = Some b"
      "sw_source a = sw_source b"
    have sh: "map (\<lambda>c. map_option sw_source (co_shared c)) ?cs = [Some 1, Some 2, Some 1]" by code_simp
    have at: "i = 0 \<or> i = 1 \<or> i = 2" "j = 0 \<or> j = 1 \<or> j = 2" using h(1,2) by auto
    have "map (\<lambda>c. map_option sw_source (co_shared c)) ?cs ! i = map (\<lambda>c. map_option sw_source (co_shared c)) ?cs ! j"
      using h by (simp only: nth_map option.map)
    then have "[Some 1, Some 2, Some 1] ! i = ([Some 1, Some 2, Some 1] :: u32 option list) ! j" unfolding sh .
    with at have "?cs ! i = ?cs ! j" by (elim disjE) simp_all
    with h show "bm_ids list_bitmap (sw_wildcard a) = bm_ids list_bitmap (sw_wildcard b)" by simp
  qed
  show ?thesis
    by (rule shared_groups_have_one_wildcard [OF list_bitmap.roaring_axioms shared groups]) simp_all
qed

end
