(* ===== verification/Filter_Search.thy ===== *)
theory Filter_Search
  imports Leaf_Rule
begin

text \<open>
  The filters on their own: a filter that has been built from any list of constraints answers every
  sequence of queries of one \<open>Local\<close> exactly, whatever its value caches hold, admit and evict.
\<close>

section \<open>Building one filter\<close>

definition build_filter ::
  "'b roaring \<Rightarrow> nat \<Rightarrow> ('t, 'v, 'k) filter_spec \<Rightarrow> ('t \<times> u32) list \<Rightarrow> ('t, 'v, 'k, 'b) leaf" where
  "build_filter R node f es = leaf_prepare R (foldl (\<lambda>lf (t, i). leaf_insert R lf t i) (new_leaf R node f) es)"

text \<open>Queries one after the other on one search context; every result is written to a fresh bitmap.\<close>

fun run_queries :: "('t \<Rightarrow> ('v, 'b) pool \<Rightarrow> 'b \<Rightarrow> 'b \<times> ('v, 'b) pool) \<Rightarrow> 'b \<Rightarrow> 't list \<Rightarrow> ('v, 'b) pool \<Rightarrow> 'b list" where
  "run_queries search fresh [] p = []"
| "run_queries search fresh (q # qs) p = (case search q p fresh of (bits, p) \<Rightarrow> bits # run_queries search fresh qs p)"

definition filter_valuation :: "'b roaring \<Rightarrow> nat \<Rightarrow> ('t, 'v, 'k, 'b) leaf \<Rightarrow> 'v valuation" where
  "filter_valuation R nodes lf =
     \<lparr>va_den = \<lambda>kind node. leaf_key_den R lf, va_antonym = \<lambda>node keys. {}, va_width = \<lambda>_. 0, va_nodes = nodes\<rparr>"

lemma run_queries_exact:
  assumes "\<And>q p bits p'. pool_ok R G p \<Longrightarrow> search q p fresh = (bits, p') \<Longrightarrow> bm_ids R bits = den q \<and> pool_ok R G p'"
    and "pool_ok R G p"
  shows "map (bm_ids R) (run_queries search fresh qs p) = map den qs"
  using assms(2)
proof (induction qs arbitrary: p)
  case (Cons q qs)
  obtain bits p' where "search q p fresh = (bits, p')" by fastforce
  with Cons assms(1) show ?case by simp
qed simp

context roaring
begin

lemma leaf_built_foldl:
  assumes "\<forall>e\<in>set es. spec_validate f (fst e) = None" "leaf_built R node f n E lf"
  shows "leaf_built R node f (n + length es) (set es \<union> E) (foldl (\<lambda>lf (t, i). leaf_insert R lf t i) lf es)"
  using assms
proof (induction es arbitrary: n E lf)
  case (Cons e es)
  obtain t i where e: "e = (t, i)" by (cases e)
  have "leaf_built R node f (Suc n) (insert (t, i) E) (leaf_insert R lf t i)"
    by (rule leaf_built_insert) (use Cons.prems e in auto)
  from Cons.IH [OF _ this] Cons.prems(1) e show ?case by (simp add: case_prod_unfold)
qed simp

lemma build_filter_ok:
  assumes "spec_ok f" "\<forall>e\<in>set es. spec_validate f (fst e) = None" "length es < 2 ^ 63"
  shows "leaf_published R (build_filter R node f es)" "leaf_node (build_filter R node f es) = node"
    "\<not> is_exclusion (build_filter R node f es) \<Longrightarrow> leaf_den R (build_filter R node f es) q = (\<Inter>m\<in>set (spec_columns f). column_ids (set es) m q)"
    "leaf_forbidden R (build_filter R node f es) q = column_ids (set es) (spec_forbids f) q"
    "is_exclusion (build_filter R node f es) \<longleftrightarrow> (\<exists>get. f = Exclude_Filter get)"
proof -
  let ?lf = "foldl (\<lambda>lf (t, i). leaf_insert R lf t i) (new_leaf R node f) es"
  have built: "leaf_built R node f (length es) (set es) ?lf"
    using leaf_built_foldl [OF assms(2) leaf_built_new [OF assms(1), of node]] by simp
  have ready: "leaf_ready R ?lf" by (rule leaf_ready_built [OF built assms(3)])
  show "leaf_published R (build_filter R node f es)" by (simp add: build_filter_def leaf_published_prepare [OF ready])
  show "leaf_node (build_filter R node f es) = node" by (simp add: build_filter_def leaf_node_built [OF built])
  show "leaf_den R (build_filter R node f es) q = (\<Inter>m\<in>set (spec_columns f). column_ids (set es) m q)"
    if "\<not> is_exclusion (build_filter R node f es)"
    using leaf_den_built [OF built] that by (simp add: build_filter_def leaf_prepare_same [OF ready])
  show "is_exclusion (build_filter R node f es) \<longleftrightarrow> (\<exists>get. f = Exclude_Filter get)"
    using built by (cases rule: leaf_built_cases) (simp_all add: build_filter_def)
  show "leaf_forbidden R (build_filter R node f es) q = column_ids (set es) (spec_forbids f) q"
    by (simp add: build_filter_def leaf_forbidden_built [OF built])
qed

lemma filter_queries_exact:
  assumes "spec_ok f" "\<forall>e\<in>set es. spec_validate f (fst e) = None" "length es < 2 ^ 63" "node < nodes"
    and "\<nexists>get. f = Exclude_Filter get"
  shows "map (bm_ids R) (run_queries (co_search (leaf_ops R (build_filter R node f es))) (bm_new R) qs (new_local_pool nodes))
    = map (\<lambda>q. \<Inter>m\<in>set (spec_columns f). column_ids (set es) m q) qs"
proof -
  let ?lf = "build_filter R node f es" and ?G = "filter_valuation R nodes (build_filter R node f es)"
  note ok = build_filter_ok [OF assms(1-3)]
  have ops: "ops_ok R ?G (leaf_ops R ?lf) (leaf_den R ?lf)"
    by (rule leaf_ops_ok) (use ok assms(4) in \<open>simp_all add: filter_valuation_def\<close>)
  have pool: "pool_ok R ?G (new_local_pool nodes)"
    using pool_ok_new_local [of R ?G] by (simp add: filter_valuation_def)
  show ?thesis
  proof (rule run_queries_exact [OF _ pool])
    fix q p bits p' assume "pool_ok R ?G p" "co_search (leaf_ops R ?lf) q p (bm_new R) = (bits, p')"
    from search_okD [OF ops_okD(1) [OF ops] this(1) ids_new this(2)] ok(3,5) assms(5)
    show "bm_ids R bits = (\<Inter>m\<in>set (spec_columns f). column_ids (set es) m q) \<and> pool_ok R ?G p'" by simp
  qed
qed

end

section \<open>The kinds of filters\<close>

lemma ordered_columns:
  "ordered_column get cmp Greater_Than inclusive t q = (case get t of None \<Rightarrow> True
      | Some w \<Rightarrow> (case get q of None \<Rightarrow> False | Some v \<Rightarrow> in_range cmp v False inclusive w))"
  "ordered_column get cmp Less_Than inclusive t q = (case get t of None \<Rightarrow> True
      | Some w \<Rightarrow> (case get q of None \<Rightarrow> False | Some v \<Rightarrow> in_range cmp v True inclusive w))"
  by (simp_all add: ordered_column_def split: option.split)

lemma matching_ids: "{i. \<exists>t. (t, i) \<in> set es \<and> P t} = set (map snd (filter (\<lambda>e. P (fst e)) es))"
  by force

lemmas evaluate_queries = Collect_conj_eq matching_ids

text \<open>
  C13: An \<open>Include\<close> filter built from any list of constraints answers every sequence of queries of one
  \<open>Local\<close> with exactly the IDs that have a constraint without a value or with a value whose encoded key
  is that of the query.
\<close>

theorem include_filter_exact:
  assumes "roaring R" "length es < 2 ^ 63" "node < nodes"
  shows "map (bm_ids R) (run_queries (co_search (leaf_ops R (build_filter R node (Include_Filter get encode) es)))
      (bm_new R) qs (new_local_pool nodes))
    = map (\<lambda>q. {i. \<exists>t. (t, i) \<in> set es \<and>
        (case get t of None \<Rightarrow> True | Some w \<Rightarrow> (case get q of None \<Rightarrow> False | Some v \<Rightarrow> encode w = encode v))}) qs"
  using roaring.filter_queries_exact [OF assms(1) _ _ assms(2,3), of "Include_Filter get encode"]
  by (simp add: column_ids_def include_column_def)

theorem include_filter_exact_witness:
  "map (bm_ids list_bitmap) (run_queries (co_search (leaf_ops list_bitmap (build_filter list_bitmap 0
       (Include_Filter fst id) [((Some 5, ()), 1), ((None, ()), 2), ((Some (7 :: nat), ()), 3)])))
     (bm_new list_bitmap) [(Some 5, ()), (Some 7, ()), (Some 5, ()), (None, ())] (new_local_pool 1))
   = [{1, 2}, {2, 3}, {1, 2}, {2}]"
  by (subst include_filter_exact [OF list_bitmap.roaring_axioms]) (simp, simp, unfold evaluate_queries, code_simp)

text \<open>
  C14: The four ordered filters: the IDs that have a constraint without a value or with a value on the
  requested side of the query value, in the order of the comparator.
\<close>

theorem ordered_filter_exact:
  assumes "roaring R" "comparator cmp" "length es < 2 ^ 63" "node < nodes"
  shows "map (bm_ids R) (run_queries (co_search (leaf_ops R (build_filter R node (Ordered_Filter get cmp key dir inclusive) es)))
      (bm_new R) qs (new_local_pool nodes))
    = map (\<lambda>q. {i. \<exists>t. (t, i) \<in> set es \<and>
        (case get t of None \<Rightarrow> True
         | Some w \<Rightarrow> (case get q of None \<Rightarrow> False | Some v \<Rightarrow> in_range cmp v (dir = Less_Than) inclusive w))}) qs"
  using roaring.filter_queries_exact [OF assms(1) _ _ assms(3,4), of "Ordered_Filter get cmp key dir inclusive"] assms(2)
  by (simp add: column_ids_def ordered_column_def)

theorem ordered_filter_exact_witness:
  "map (bm_ids list_bitmap) (run_queries (co_search (leaf_ops list_bitmap (build_filter list_bitmap 0
       (Ordered_Filter fst go_compare (\<lambda>_. None) Greater_Than False :: (int option \<times> unit, int, unit) filter_spec)
       [((Some 5, ()), 1), ((None, ()), 2), ((Some 7, ()), 3)])))
     (bm_new list_bitmap) [(Some 6, ()), (Some 8, ()), (Some 6, ()), (None, ())] (new_local_pool 1))
   = [{1, 2}, {1, 2, 3}, {1, 2}, {2}]"
  by (subst ordered_filter_exact [OF list_bitmap.roaring_axioms go_compare.comparator_axioms])
    (simp, simp, unfold evaluate_queries, code_simp)

text \<open>
  C15: A \<open>Between\<close> filter: the IDs that have a constraint whose lower bound admits the query's lower value
  and a constraint, perhaps another one, whose upper bound admits its upper value.
\<close>

theorem between_filter_exact:
  assumes "roaring R" "comparator cmp" "length es < 2 ^ 63" "node < nodes"
  shows "map (bm_ids R) (run_queries (co_search (leaf_ops R (build_filter R node (Between_Filter from_get until_get cmp key) es)))
      (bm_new R) qs (new_local_pool nodes))
    = map (\<lambda>q. {i. (\<exists>t. (t, i) \<in> set es \<and> (case from_get t of None \<Rightarrow> True
            | Some w \<Rightarrow> (case from_get q of None \<Rightarrow> False | Some v \<Rightarrow> in_range cmp v False True w)))
        \<and> (\<exists>t. (t, i) \<in> set es \<and> (case until_get t of None \<Rightarrow> True
            | Some w \<Rightarrow> (case until_get q of None \<Rightarrow> False | Some v \<Rightarrow> in_range cmp v True True w)))}) qs"
  using roaring.filter_queries_exact [OF assms(1) _ _ assms(3,4), of "Between_Filter from_get until_get cmp key"] assms(2)
  by (simp add: column_ids_def ordered_columns Int_def)

text \<open>The witness has an ID that two constraints combine: neither of them alone contains the query.\<close>

theorem between_filter_exact_witness:
  "map (bm_ids list_bitmap) (run_queries (co_search (leaf_ops list_bitmap (build_filter list_bitmap 0
       (Between_Filter fst snd go_compare (\<lambda>_. None) :: (int option \<times> int option, int, unit) filter_spec)
       [((Some 1, Some 3), 1), ((Some 8, Some 9), 1), ((Some 4, None), 2)])))
     (bm_new list_bitmap) [(Some 5, Some 5), (Some 2, Some 2)] (new_local_pool 1))
   = [{1, 2}, {1}]"
  by (subst between_filter_exact [OF list_bitmap.roaring_axioms go_compare.comparator_axioms])
    (simp, simp, unfold evaluate_queries, code_simp)

text \<open>
  C16: A \<open>CompareBy\<close> filter whose constraints all passed validation: the IDs that have a constraint
  without a value, or whose stored operator holds between the query value and the stored value.
\<close>

theorem compare_by_filter_exact:
  assumes "roaring R" "comparator cmp" "length es < 2 ^ 63" "node < nodes"
    and "\<forall>e\<in>set es. spec_validate (Compare_By_Filter val op cmp key :: ('t, 'v, 'k) filter_spec) (fst e) = None"
  shows "map (bm_ids R) (run_queries (co_search (leaf_ops R
        (build_filter R node (Compare_By_Filter val op cmp key :: ('t, 'v, 'k) filter_spec) es))) (bm_new R) qs (new_local_pool nodes))
    = map (\<lambda>q. {i. \<exists>t. (t, i) \<in> set es \<and>
        (case val t of None \<Rightarrow> True
         | Some w \<Rightarrow> (case (val q, op t) of (Some v, Some oper) \<Rightarrow> operator_holds cmp oper v w | _ \<Rightarrow> False))}) qs"
  using roaring.filter_queries_exact [OF assms(1) _ assms(5,3,4)] assms(2)
  by (simp add: column_ids_def compare_by_column_def)

theorem compare_by_filter_exact_witness:
  "map (bm_ids list_bitmap) (run_queries (co_search (leaf_ops list_bitmap (build_filter list_bitmap 0
       (Compare_By_Filter fst snd go_compare (\<lambda>_. None) :: (int option \<times> operator option, int, unit) filter_spec)
       [((Some 5, Some OperatorGT), 1), ((None, None), 2), ((Some 7, Some OperatorEQ), 3)])))
     (bm_new list_bitmap) [(Some 6, None), (Some 7, None)] (new_local_pool 1))
   = [{1, 2}, {1, 2, 3}]"
  by (subst compare_by_filter_exact [OF list_bitmap.roaring_axioms go_compare.comparator_axioms])
    (simp, simp, code_simp, unfold evaluate_queries, code_simp)

lemma exclude_filter_leaf:
  assumes "roaring R" "length es < 2 ^ 63"
  shows "\<exists>r. build_filter R node (Exclude_Filter get :: ('t, 'v, 'k) filter_spec) es = Exclusion_Leaf r"
proof -
  have "is_exclusion (build_filter R node (Exclude_Filter get :: ('t, 'v, 'k) filter_spec) es)"
    using roaring.build_filter_ok(5) [OF assms(1) _ _ assms(2), of "Exclude_Filter get" node] by simp
  then show ?thesis by (cases rule: is_exclusion.elims(2)) blast
qed

text \<open>
  C17: An \<open>Exclude\<close> filter: \<open>exclude\<close> collects, for every sequence of queries of one \<open>Local\<close>, exactly the
  IDs with a constraint that stores the query value, and the direct test agrees.
\<close>

theorem exclude_filter_exact:
  assumes "roaring R" "length es < 2 ^ 63" "node < nodes"
    and "build_filter R node (Exclude_Filter get :: ('t, 'v, 'k) filter_spec) es = Exclusion_Leaf r"
  shows "map (bm_ids R) (run_queries (nt_exclude R r) (bm_new R) qs (new_local_pool nodes))
      = map (\<lambda>q. {i. \<exists>t. (t, i) \<in> set es \<and> (case get t of None \<Rightarrow> False | Some w \<Rightarrow> get q = Some w)}) qs
    \<and> (nt_is_excluded R r q i \<longleftrightarrow> (\<exists>t. (t, i) \<in> set es \<and> (case get t of None \<Rightarrow> False | Some w \<Rightarrow> get q = Some w)))"
proof -
  let ?lf = "build_filter R node (Exclude_Filter get :: ('t, 'v, 'k) filter_spec) es"
  let ?G = "filter_valuation R nodes ?lf"
  have "\<forall>e\<in>set es. spec_validate (Exclude_Filter get :: ('t, 'v, 'k) filter_spec) (fst e) = None" by simp
  note ok = roaring.build_filter_ok [OF assms(1) _ this assms(2), of node]
  have den: "nt_den R r q = {i. \<exists>t. (t, i) \<in> set es \<and> (case get t of None \<Rightarrow> False | Some w \<Rightarrow> get q = Some w)}" for q
    using ok(4) assms(4) by (simp add: column_ids_def exclude_column_def cong: option.case_cong)
  have ready: "nt_ready R ?G r"
    by (rule roaring.leaf_exclusion_ready [OF assms(1)]) (use ok(1,2) assms(3,4) in \<open>simp_all add: filter_valuation_def\<close>)
  have pool: "pool_ok R ?G (new_local_pool nodes)"
    using pool_ok_new_local [of R ?G] by (simp add: filter_valuation_def)
  have "map (bm_ids R) (run_queries (nt_exclude R r) (bm_new R) qs (new_local_pool nodes))
      = map (\<lambda>q. {i. \<exists>t. (t, i) \<in> set es \<and> (case get t of None \<Rightarrow> False | Some w \<Rightarrow> get q = Some w)}) qs"
  proof (rule run_queries_exact [OF _ pool])
    fix q p bits p' assume "pool_ok R ?G p" "nt_exclude R r q p (bm_new R) = (bits, p')"
    from roaring.nt_exclude_spec [OF assms(1) ready this] den [of q]
    show "bm_ids R bits = {i. \<exists>t. (t, i) \<in> set es \<and> (case get t of None \<Rightarrow> False | Some w \<Rightarrow> get q = Some w)} \<and> pool_ok R ?G p'"
      by (simp add: roaring.ids_new [OF assms(1)])
  qed
  moreover have "nt_building r" using ok(1) assms(4) by simp
  from roaring.nt_is_excluded_iff [OF assms(1) this] den [of q]
  have "nt_is_excluded R r q i \<longleftrightarrow> (\<exists>t. (t, i) \<in> set es \<and> (case get t of None \<Rightarrow> False | Some w \<Rightarrow> get q = Some w))" by simp
  ultimately show ?thesis by blast
qed

theorem exclude_filter_exact_witness:
  "\<exists>r. build_filter list_bitmap 0 (Exclude_Filter fst :: (nat option \<times> unit, nat, unit) filter_spec)
        [((Some 5, ()), 1), ((None, ()), 2), ((Some 7, ()), 3)] = Exclusion_Leaf r
    \<and> map (bm_ids list_bitmap) (run_queries (nt_exclude list_bitmap r) (bm_new list_bitmap)
        [(Some 5, ()), (Some 6, ()), (None, ()), (Some 5, ())] (new_local_pool 1)) = [{1}, {}, {}, {1}]"
proof -
  have "\<exists>r. build_filter list_bitmap 0 (Exclude_Filter fst :: (nat option \<times> unit, nat, unit) filter_spec)
        [((Some 5, ()), 1), ((None, ()), 2), ((Some 7, ()), 3)] = Exclusion_Leaf r"
    by (rule exclude_filter_leaf [OF list_bitmap.roaring_axioms]) simp
  then obtain r where r: "build_filter list_bitmap 0 (Exclude_Filter fst :: (nat option \<times> unit, nat, unit) filter_spec)
        [((Some 5, ()), 1), ((None, ()), 2), ((Some 7, ()), 3)] = Exclusion_Leaf r" by (elim exE)
  have "length [((Some (5 :: nat), ()), 1 :: u32), ((None, ()), 2), ((Some 7, ()), 3)] < 2 ^ 63" by simp
  from exclude_filter_exact [OF list_bitmap.roaring_axioms this zero_less_one r, THEN conjunct1]
  have "map (bm_ids list_bitmap) (run_queries (nt_exclude list_bitmap r) (bm_new list_bitmap)
        [(Some 5, ()), (Some 6, ()), (None, ()), (Some 5, ())] (new_local_pool 1))
      = map (\<lambda>q. {i. \<exists>t. (t, i) \<in> set [((Some (5 :: nat), ()), 1), ((None, ()), 2), ((Some 7, ()), 3)]
          \<and> (case fst t of None \<Rightarrow> False | Some w \<Rightarrow> fst q = Some w)}) [(Some 5, ()), (Some 6, ()), (None, ()), (Some 5, ())]" .
  also have "\<dots> = [{1}, {}, {}, {1}]" unfolding evaluate_queries by simp
  finally show ?thesis by (intro exI [of _ r] conjI r)
qed

end
