(* ===== verification/Lossy_Policy.thy ===== *)
theory Lossy_Policy
  imports Execution_Cost
begin

text \<open>
  Trees of memory policies (\<^verbatim>\<open>lossy.go\<close>, \<^verbatim>\<open>lossy_policy.go\<close>, \<^verbatim>\<open>lossy_streaming_leaf.go\<close>,
  \<^verbatim>\<open>lossy_streaming_adaptive.go\<close>). A leaf that can reduce its precision is an object that several steps mutate;
  a tree holds its number, and the leaves are a list. The theory is generic in the rules: what the code asks a
  rule is a record of operations, an absent result being an interface that the rule does not implement. Only
  the accounted bytes and the limit of the inspection details decide anything; items, distinct values and
  granularity are reports, and so are the paths in error messages. \<open>identityLossy\<close>, a test option, is off.
\<close>

section \<open>Policies\<close>

datatype lossy_option = Memory_Limit u64 | Invalid_Option

datatype policy_error =
    Invalid_Lossy_Option
  | Exactly_One_Limit
  | Nonzero_Limit
  | Unsupported_Rule
  | Invalid_Codec
  | Cannot_Fit u64 u64
  | Usage_Overflow

fun validate_options :: "u64 \<Rightarrow> lossy_option list \<Rightarrow> policy_error + u64" where
  "validate_options limit [] = (if limit = 0 then Inl Nonzero_Limit else Inr limit)"
| "validate_options limit (option # options) =
     (case option of
        Invalid_Option \<Rightarrow> Inl Invalid_Lossy_Option
      | Memory_Limit bytes \<Rightarrow> if limit \<noteq> 0 then Inl Exactly_One_Limit else validate_options bytes options)"

definition validate_policy :: "lossy_option list \<Rightarrow> policy_error + u64" where
  "validate_policy options = validate_options 0 options"

definition lossy_build_target :: "u64 \<Rightarrow> u64" where
  "lossy_build_target limit =
     (let headroom = limit div 4 in if max_u64 - limit < headroom then max_u64 else limit + headroom)"

section \<open>Rules and adaptive leaves\<close>

text \<open>
  \<open>ro_usage\<close> is \<open>refreshedStreamingDetails\<close>, \<open>ro_first\<close> is \<open>prepareStreamingFirstGeneration\<close> and \<open>ro_next\<close> is
  \<open>prepareStreamingNext\<close>, each with the rule after the step; \<open>ro_factory\<close> tells whether the rule has a first
  generation at all, \<open>ro_valid\<close> is \<open>validateStreamingLossy\<close>, and
  \<open>ro_accumulator\<close> tells whether it is a \<open>streamingLossyAccumulator\<close>.
\<close>

record 'r rule_ops =
  ro_usage :: "'r \<Rightarrow> u64 option"
  ro_factory :: "'r \<Rightarrow> bool"
  ro_valid :: "'r \<Rightarrow> bool"
  ro_first :: "'r \<Rightarrow> 'r option"
  ro_next :: "'r \<Rightarrow> 'r option"
  ro_accumulator :: "'r \<Rightarrow> bool"

record 'r adaptive_leaf =
  al_child :: 'r
  al_approximate :: bool

definition adaptive_usage :: "'r rule_ops \<Rightarrow> 'r adaptive_leaf \<Rightarrow> u64" where
  "adaptive_usage Q l = (case ro_usage Q (al_child l) of Some usage \<Rightarrow> usage | None \<Rightarrow> 0)"

text \<open>
  The transition that \<open>nextStreamingUsage\<close> prepares and \<open>fitStreamingNext\<close> applies. The code remembers it until
  the next insertion; it is computed again here, which gives the same.
\<close>

definition adaptive_next :: "'r rule_ops \<Rightarrow> 'r adaptive_leaf \<Rightarrow> 'r adaptive_leaf option" where
  "adaptive_next Q l =
     (case (if al_approximate l then None else ro_first Q (al_child l)) of
        Some r \<Rightarrow> Some \<lparr>al_child = r, al_approximate = True\<rparr>
      | None \<Rightarrow> map_option (\<lambda>r. \<lparr>al_child = r, al_approximate = True\<rparr>) (ro_next Q (al_child l)))"

partial_function (option) fit_leaf :: "'r rule_ops \<Rightarrow> u64 \<Rightarrow> 'r adaptive_leaf \<Rightarrow> 'r adaptive_leaf option" where
  "fit_leaf Q limit l =
     (if limit < adaptive_usage Q l
      then case adaptive_next Q l of None \<Rightarrow> Some l | Some l' \<Rightarrow> fit_leaf Q limit l'
      else Some l)"

section \<open>Trees\<close>

record policy_details =
  pd_usage :: u64
  pd_available :: bool
  pd_limit :: "u64 option"

definition no_details :: policy_details where
  "no_details = \<lparr>pd_usage = 0, pd_available = False, pd_limit = None\<rparr>"

definition usage_details :: "u64 \<Rightarrow> policy_details" where
  "usage_details usage = \<lparr>pd_usage = usage, pd_available = True, pd_limit = None\<rparr>"

datatype 'r policy =
    Policy_All "'r policy list"
  | Policy_Inspect "'r policy"
  | Policy_Details policy_details "'r policy"
  | Policy_Lossy "lossy_option list" "'r policy"
  | Policy_Leaf nat
  | Policy_Rule 'r

text \<open>The leaves that a fit of a tree reaches, in order. Trees under a compiled policy have no plain rules.\<close>

fun policy_leaves :: "'r policy \<Rightarrow> nat list" where
  "policy_leaves (Policy_All children) = concat (map policy_leaves children)"
| "policy_leaves (Policy_Inspect child) = policy_leaves child"
| "policy_leaves (Policy_Details d child) = policy_leaves child"
| "policy_leaves (Policy_Lossy options child) = []"
| "policy_leaves (Policy_Leaf n) = [n]"
| "policy_leaves (Policy_Rule r) = []"

text \<open>\<open>fitStreamingRule\<close>: every leaf is fitted to the limit on its own.\<close>

fun fit_leaves :: "'r rule_ops \<Rightarrow> u64 \<Rightarrow> nat list \<Rightarrow> 'r adaptive_leaf list \<Rightarrow> 'r adaptive_leaf list option" where
  "fit_leaves Q limit [] ls = Some ls"
| "fit_leaves Q limit (n # ns) ls =
     (case fit_leaf Q limit (ls ! n) of None \<Rightarrow> None | Some l \<Rightarrow> fit_leaves Q limit ns (ls[n := l]))"

text \<open>The usage that \<open>collectStreamingFitCandidates\<close> returns, and the candidates it collects.\<close>

fun aggregate_usage :: "'r rule_ops \<Rightarrow> 'r adaptive_leaf list \<Rightarrow> 'r policy \<Rightarrow> u64" where
  "aggregate_usage Q ls (Policy_All children) = foldl (\<lambda>usage child. saturating_add usage (aggregate_usage Q ls child)) 0 children"
| "aggregate_usage Q ls (Policy_Inspect child) = aggregate_usage Q ls child"
| "aggregate_usage Q ls (Policy_Details d child) = aggregate_usage Q ls child"
| "aggregate_usage Q ls (Policy_Lossy options child) = 0"
| "aggregate_usage Q ls (Policy_Leaf n) = adaptive_usage Q (ls ! n)"
| "aggregate_usage Q ls (Policy_Rule r) = 0"

record fit_candidate =
  fc_leaf :: nat
  fc_usage :: u64
  fc_released :: u64

definition leaf_candidate :: "'r rule_ops \<Rightarrow> 'r adaptive_leaf list \<Rightarrow> nat \<Rightarrow> fit_candidate list" where
  "leaf_candidate Q ls n =
     (case adaptive_next Q (ls ! n) of
        None \<Rightarrow> []
      | Some l \<Rightarrow>
          (let usage = adaptive_usage Q (ls ! n); after = adaptive_usage Q l
           in [\<lparr>fc_leaf = n, fc_usage = usage, fc_released = (if after < usage then usage - after else 0)\<rparr>]))"

definition fit_candidates :: "'r rule_ops \<Rightarrow> 'r adaptive_leaf list \<Rightarrow> 'r policy \<Rightarrow> fit_candidate list" where
  "fit_candidates Q ls t = concat (map (leaf_candidate Q ls) (policy_leaves t))"

definition select_candidate :: "fit_candidate \<Rightarrow> fit_candidate list \<Rightarrow> fit_candidate" where
  "select_candidate first candidates =
     foldl (\<lambda>selected c.
         if fc_released c < fc_released selected \<or> fc_released c = fc_released selected \<and> fc_usage selected < fc_usage c
         then c else selected) first candidates"

partial_function (option) fit_aggregate_to ::
  "'r rule_ops \<Rightarrow> 'r policy \<Rightarrow> u64 \<Rightarrow> bool \<Rightarrow> 'r adaptive_leaf list \<Rightarrow> 'r adaptive_leaf list option" where
  "fit_aggregate_to Q t limit allow_terminal ls =
     (let usage = aggregate_usage Q ls t
      in if usage \<le> limit then Some ls
         else case fit_candidates Q ls t of
                [] \<Rightarrow>
                  (if allow_terminal then
                     (case fit_leaves Q 0 (policy_leaves t) ls of
                        None \<Rightarrow> None
                      | Some ls' \<Rightarrow>
                          if aggregate_usage Q ls' t < usage then fit_aggregate_to Q t limit allow_terminal ls' else Some ls')
                   else Some ls)
              | c # cs \<Rightarrow>
                  (let n = fc_leaf (select_candidate c cs)
                   in fit_aggregate_to Q t limit allow_terminal (ls[n := the (adaptive_next Q (ls ! n))])))"

declare fit_leaf.simps [code] fit_aggregate_to.simps [code]

section \<open>Results that may fail or not return\<close>

type_synonym ('a, 'r) policy_result = "(policy_error + 'a \<times> 'r adaptive_leaf list) option"

definition bind_result :: "('a, 'r) policy_result \<Rightarrow> ('a \<Rightarrow> 'r adaptive_leaf list \<Rightarrow> ('b, 'r) policy_result) \<Rightarrow> ('b, 'r) policy_result" where
  "bind_result m f = (case m of None \<Rightarrow> None | Some (Inl e) \<Rightarrow> Some (Inl e) | Some (Inr (a, ls)) \<Rightarrow> f a ls)"

fun each_child ::
  "('r policy \<Rightarrow> 'r adaptive_leaf list \<Rightarrow> ('b, 'r) policy_result) \<Rightarrow> 'r policy list \<Rightarrow> 'r adaptive_leaf list \<Rightarrow> ('b list, 'r) policy_result" where
  "each_child f [] ls = Some (Inr ([], ls))"
| "each_child f (t # ts) ls = bind_result (f t ls) (\<lambda>a ls. bind_result (each_child f ts ls) (\<lambda>as ls. Some (Inr (a # as, ls))))"

lemma bind_result_cong [fundef_cong]:
  "m = m' \<Longrightarrow> (\<And>a ls. m' = Some (Inr (a, ls)) \<Longrightarrow> f a ls = g a ls) \<Longrightarrow> bind_result m f = bind_result m' g"
  by (auto simp: bind_result_def split: option.split sum.split)

lemma each_child_cong [fundef_cong]:
  "ts = ts' \<Longrightarrow> ls = ls' \<Longrightarrow> (\<And>t ls. t \<in> set ts' \<Longrightarrow> f t ls = g t ls) \<Longrightarrow> each_child f ts ls = each_child g ts' ls'"
proof (induction ts arbitrary: ts' ls ls')
  case (Cons t ts)
  then show ?case by (auto intro!: bind_result_cong)
qed simp

definition returning :: "'r adaptive_leaf list option \<Rightarrow> (unit, 'r) policy_result" where
  "returning m = map_option (\<lambda>ls. Inr ((), ls)) m"

section \<open>Refreshing the details and enforcing the limits\<close>

text \<open>\<open>aggregateLossyDetails\<close>.\<close>

definition aggregate_details :: "policy_details list \<Rightarrow> policy_details" where
  "aggregate_details ds =
     foldl (\<lambda>a d. a\<lparr>pd_usage := pd_usage a + pd_usage d, pd_available := pd_available a \<or> pd_available d\<rparr>) no_details ds"

text \<open>
  \<open>refreshStreamingLossyDetails\<close>. Its case for a policy, with the recursive call as an argument: the child is
  fitted and refreshed; \<open>settle_policy\<close> is the rest, from the details it then has.
\<close>

type_synonym 'r refresh = "'r policy \<Rightarrow> 'r adaptive_leaf list \<Rightarrow> ('r policy \<times> policy_details, 'r) policy_result"

definition settle_policy ::
  "'r refresh \<Rightarrow> 'r rule_ops \<Rightarrow> policy_details \<Rightarrow> 'r policy \<Rightarrow> policy_details \<Rightarrow> 'r adaptive_leaf list \<Rightarrow> ('r policy \<times> policy_details, 'r) policy_result" where
  "settle_policy refresh Q d child details ls =
     (case pd_limit d of
        None \<Rightarrow> Some (Inr ((Policy_Details details child, details), ls))
      | Some limit \<Rightarrow>
          if limit < pd_usage details then
            bind_result (returning (fit_aggregate_to Q child limit True ls)) (\<lambda>_ ls.
            bind_result (refresh child ls) (\<lambda>(child, details) ls.
              if limit < pd_usage details then Some (Inl (Cannot_Fit (pd_usage details) limit))
              else Some (Inr ((Policy_Details (details\<lparr>pd_limit := Some limit\<rparr>) child, details\<lparr>pd_limit := Some limit\<rparr>), ls))))
          else Some (Inr ((Policy_Details (details\<lparr>pd_limit := Some limit\<rparr>) child, details\<lparr>pd_limit := Some limit\<rparr>), ls)))"

definition policy_step_details :: "'r rule_ops \<Rightarrow> policy_details \<Rightarrow> 'r policy \<Rightarrow> policy_details \<Rightarrow> 'r adaptive_leaf list \<Rightarrow> policy_details" where
  "policy_step_details Q d child details ls =
     (case child of
        Policy_Leaf k \<Rightarrow> d\<lparr>pd_usage := adaptive_usage Q (ls ! k), pd_available := True\<rparr>
      | _ \<Rightarrow> if pd_available details then details else d)"

definition refresh_policy ::
  "'r refresh \<Rightarrow> 'r rule_ops \<Rightarrow> policy_details \<Rightarrow> 'r policy \<Rightarrow> 'r adaptive_leaf list \<Rightarrow> ('r policy \<times> policy_details, 'r) policy_result" where
  "refresh_policy refresh Q d child ls =
     bind_result (case pd_limit d of None \<Rightarrow> Some (Inr ((), ls)) | Some limit \<Rightarrow> returning (fit_leaves Q limit (policy_leaves child) ls)) (\<lambda>_ ls.
     bind_result (refresh child ls) (\<lambda>(child, details) ls.
     bind_result (case (pd_limit d, child) of
                    (Some limit, Policy_Leaf k) \<Rightarrow> returning (fit_leaves Q limit [k] ls)
                  | _ \<Rightarrow> Some (Inr ((), ls))) (\<lambda>_ ls.
       settle_policy refresh Q d child (policy_step_details Q d child details ls) ls)))"

text \<open>The child of a policy is refreshed a second time after a hard fit, so the recursion is on the depth.\<close>

fun refresh_details :: "nat \<Rightarrow> 'r rule_ops \<Rightarrow> 'r policy \<Rightarrow> 'r adaptive_leaf list \<Rightarrow> ('r policy \<times> policy_details, 'r) policy_result" where
  "refresh_details 0 Q t ls = None"
| "refresh_details (Suc n) Q (Policy_All children) ls =
     bind_result (each_child (refresh_details n Q) children ls)
       (\<lambda>rs ls. Some (Inr ((Policy_All (map fst rs), aggregate_details (map snd rs)), ls)))"
| "refresh_details (Suc n) Q (Policy_Inspect child) ls =
     bind_result (refresh_details n Q child ls) (\<lambda>(child, d) ls. Some (Inr ((Policy_Inspect child, d), ls)))"
| "refresh_details (Suc n) Q (Policy_Details d child) ls = refresh_policy (refresh_details n Q) Q d child ls"
| "refresh_details (Suc n) Q (Policy_Leaf k) ls = Some (Inr ((Policy_Leaf k, usage_details (adaptive_usage Q (ls ! k))), ls))"
| "refresh_details (Suc n) Q t ls = Some (Inr ((t, no_details), ls))"

fun policy_depth :: "'r policy \<Rightarrow> nat" where
  "policy_depth (Policy_All children) = Suc (foldl max 0 (map policy_depth children))"
| "policy_depth (Policy_Inspect child) = Suc (policy_depth child)"
| "policy_depth (Policy_Details d child) = Suc (policy_depth child)"
| "policy_depth (Policy_Lossy options child) = Suc (policy_depth child)"
| "policy_depth (Policy_Leaf n) = 1"
| "policy_depth (Policy_Rule r) = 1"

definition refresh_lossy ::
  "'r rule_ops \<Rightarrow> 'r policy \<Rightarrow> 'r adaptive_leaf list \<Rightarrow> ('r policy \<times> policy_details, 'r) policy_result" where
  "refresh_lossy Q t ls = refresh_details (policy_depth t) Q t ls"

section \<open>Compiling the policies of a schema\<close>

text \<open>\<open>refreshedStreamingRuleDetails\<close>.\<close>

fun refreshed_rule_details :: "'r rule_ops \<Rightarrow> 'r adaptive_leaf list \<Rightarrow> 'r policy \<Rightarrow> policy_details \<Rightarrow> policy_details" where
  "refreshed_rule_details Q ls (Policy_Details d child) fallback = refreshed_rule_details Q ls child d"
| "refreshed_rule_details Q ls (Policy_Leaf n) fallback = fallback\<lparr>pd_usage := adaptive_usage Q (ls ! n), pd_available := True\<rparr>"
| "refreshed_rule_details Q ls t fallback = fallback"

definition details_of :: "'r policy \<Rightarrow> policy_details" where
  "details_of t = (case t of Policy_Details d child \<Rightarrow> d | _ \<Rightarrow> no_details)"

fun clamp_limits :: "u64 \<Rightarrow> 'r policy \<Rightarrow> 'r policy" where
  "clamp_limits limit (Policy_All children) = Policy_All (map (clamp_limits limit) children)"
| "clamp_limits limit (Policy_Inspect child) = Policy_Inspect (clamp_limits limit child)"
| "clamp_limits limit (Policy_Details d child) =
     (let limit = (case pd_limit d of Some own \<Rightarrow> min own limit | None \<Rightarrow> limit)
      in Policy_Details (d\<lparr>pd_limit := Some limit\<rparr>) (clamp_limits limit child))"
| "clamp_limits limit t = t"

fun compile_streaming :: "'r rule_ops \<Rightarrow> 'r policy \<Rightarrow> 'r adaptive_leaf list \<Rightarrow> ('r policy, 'r) policy_result" where
  "compile_streaming Q (Policy_Lossy options child) ls =
     (case validate_policy options of
        Inl e \<Rightarrow> Some (Inl e)
      | Inr limit \<Rightarrow>
          bind_result (compile_streaming Q child ls) (\<lambda>child ls.
          bind_result (returning (fit_aggregate_to Q child limit True ls)) (\<lambda>_ ls.
          bind_result (refresh_lossy Q child ls) (\<lambda>(child, d) ls.
            if limit < pd_usage d then Some (Inl (Cannot_Fit (pd_usage d) limit))
            else Some (Inr (Policy_Details (d\<lparr>pd_limit := Some limit\<rparr>) (clamp_limits limit child), ls))))))"
| "compile_streaming Q (Policy_All children) ls =
     bind_result (each_child (compile_streaming Q) children ls) (\<lambda>children ls. Some (Inr (Policy_All children, ls)))"
| "compile_streaming Q (Policy_Inspect child) ls =
     bind_result (compile_streaming Q child ls) (\<lambda>child ls.
       Some (Inr (Policy_Inspect (Policy_Details (refreshed_rule_details Q ls child (details_of child)) child), ls)))"
| "compile_streaming Q (Policy_Rule r) ls =
     (case ro_usage Q r of
        None \<Rightarrow> Some (Inl Unsupported_Rule)
      | Some usage \<Rightarrow>
          if \<not> ro_factory Q r then Some (Inl Unsupported_Rule)
          else if \<not> ro_valid Q r then Some (Inl Invalid_Codec)
          else Some (Inr (Policy_Details (usage_details usage) (Policy_Leaf (length ls)), ls @ [\<lparr>al_child = r, al_approximate = False\<rparr>])))"
| "compile_streaming Q t ls = Some (Inl Unsupported_Rule)"

fun compile_lossy_rules :: "'r rule_ops \<Rightarrow> 'r policy \<Rightarrow> 'r adaptive_leaf list \<Rightarrow> ('r policy, 'r) policy_result" where
  "compile_lossy_rules Q (Policy_Lossy options child) ls = compile_streaming Q (Policy_Lossy options child) ls"
| "compile_lossy_rules Q (Policy_All children) ls =
     bind_result (each_child (compile_lossy_rules Q) children ls) (\<lambda>children ls. Some (Inr (Policy_All children, ls)))"
| "compile_lossy_rules Q (Policy_Inspect child) ls =
     bind_result (compile_lossy_rules Q child ls) (\<lambda>child ls. Some (Inr (Policy_Inspect child, ls)))"
| "compile_lossy_rules Q t ls = Some (Inr (t, ls))"

section \<open>Pressure while entries are read\<close>

text \<open>The loop over the children of an \<open>All\<close>, which returns at the first child above its target.\<close>

fun first_pressure :: "(policy_error + (u64 \<times> u64) option) list \<Rightarrow> (u64 \<times> u64) option \<Rightarrow> policy_error + (u64 \<times> u64) option" where
  "first_pressure [] best = Inr best"
| "first_pressure (p # ps) best =
     (case p of
        Inl e \<Rightarrow> Inl e
      | Inr None \<Rightarrow> first_pressure ps best
      | Inr (Some (usage, target)) \<Rightarrow>
          if target < usage then Inr (Some (usage, target))
          else first_pressure ps
                 (case best of None \<Rightarrow> Some (usage, target) | Some (_, least) \<Rightarrow> if target < least then Some (usage, target) else best))"

fun current_lossy_usage :: "'r rule_ops \<Rightarrow> 'r adaptive_leaf list \<Rightarrow> 'r policy \<Rightarrow> u64 option" where
  "current_lossy_usage Q ls (Policy_All children) =
     foldl (\<lambda>known child.
         case (known, current_lossy_usage Q ls child) of
           (Some memory, Some usage) \<Rightarrow> if max_u64 - memory < usage then None else Some (memory + usage)
         | _ \<Rightarrow> None) (Some 0) children"
| "current_lossy_usage Q ls (Policy_Inspect child) = current_lossy_usage Q ls child"
| "current_lossy_usage Q ls (Policy_Lossy options child) = current_lossy_usage Q ls child"
| "current_lossy_usage Q ls (Policy_Details d child) = None"
| "current_lossy_usage Q ls (Policy_Leaf n) = Some (adaptive_usage Q (ls ! n))"
| "current_lossy_usage Q ls (Policy_Rule r) = ro_usage Q r"

fun lossy_build_pressure :: "'r rule_ops \<Rightarrow> 'r adaptive_leaf list \<Rightarrow> 'r policy \<Rightarrow> policy_error + (u64 \<times> u64) option" where
  "lossy_build_pressure Q ls (Policy_Lossy options child) =
     (case current_lossy_usage Q ls child of
        None \<Rightarrow> Inl Usage_Overflow
      | Some usage \<Rightarrow>
          (case validate_policy options of
             Inl e \<Rightarrow> Inl e
           | Inr limit \<Rightarrow> Inr (Some (usage, lossy_build_target limit))))"
| "lossy_build_pressure Q ls (Policy_All children) = first_pressure (map (lossy_build_pressure Q ls) children) None"
| "lossy_build_pressure Q ls (Policy_Inspect child) = lossy_build_pressure Q ls child"
| "lossy_build_pressure Q ls t = Inr None"

fun lossy_streaming_pressure :: "'r rule_ops \<Rightarrow> 'r adaptive_leaf list \<Rightarrow> 'r policy \<Rightarrow> policy_error + (u64 \<times> u64) option" where
  "lossy_streaming_pressure Q ls (Policy_All children) = first_pressure (map (lossy_streaming_pressure Q ls) children) None"
| "lossy_streaming_pressure Q ls (Policy_Inspect child) = lossy_streaming_pressure Q ls child"
| "lossy_streaming_pressure Q ls (Policy_Details d child) =
     (case pd_limit d of
        Some limit \<Rightarrow> Inr (Some (aggregate_usage Q ls child, lossy_build_target limit))
      | None \<Rightarrow> lossy_streaming_pressure Q ls child)"
| "lossy_streaming_pressure Q ls t = Inr None"

fun fit_policies :: "'r rule_ops \<Rightarrow> 'r policy \<Rightarrow> 'r adaptive_leaf list \<Rightarrow> (unit, 'r) policy_result" where
  "fit_policies Q (Policy_All children) ls = bind_result (each_child (fit_policies Q) children ls) (\<lambda>_ ls. Some (Inr ((), ls)))"
| "fit_policies Q (Policy_Inspect child) ls = fit_policies Q child ls"
| "fit_policies Q (Policy_Details d child) ls =
     bind_result (fit_policies Q child ls) (\<lambda>_ ls.
       case pd_limit d of
         None \<Rightarrow> Some (Inr ((), ls))
       | Some limit \<Rightarrow>
           (let target = lossy_build_target limit
            in if target < aggregate_usage Q ls child then returning (fit_aggregate_to Q child target False ls) else Some (Inr ((), ls))))"
| "fit_policies Q t ls = Some (Inr ((), ls))"

fun wrap_leaves :: "'r rule_ops \<Rightarrow> 'r policy \<Rightarrow> 'r adaptive_leaf list \<Rightarrow> ('r policy, 'r) policy_result" where
  "wrap_leaves Q (Policy_All children) ls =
     bind_result (each_child (wrap_leaves Q) children ls) (\<lambda>children ls. Some (Inr (Policy_All children, ls)))"
| "wrap_leaves Q (Policy_Inspect child) ls = bind_result (wrap_leaves Q child ls) (\<lambda>child ls. Some (Inr (Policy_Inspect child, ls)))"
| "wrap_leaves Q (Policy_Details d child) ls = bind_result (wrap_leaves Q child ls) (\<lambda>child ls. Some (Inr (Policy_Details d child, ls)))"
| "wrap_leaves Q (Policy_Rule r) ls =
     (if ro_accumulator Q r then Some (Inr (Policy_Leaf (length ls), ls @ [\<lparr>al_child = r, al_approximate = True\<rparr>]))
      else Some (Inr (Policy_Rule r, ls)))"
| "wrap_leaves Q t ls = Some (Inr (t, ls))"

fun unwrap_leaves :: "'r adaptive_leaf list \<Rightarrow> 'r policy \<Rightarrow> 'r policy" where
  "unwrap_leaves ls (Policy_All children) = Policy_All (map (unwrap_leaves ls) children)"
| "unwrap_leaves ls (Policy_Inspect child) = Policy_Inspect (unwrap_leaves ls child)"
| "unwrap_leaves ls (Policy_Details d child) = Policy_Details d (unwrap_leaves ls child)"
| "unwrap_leaves ls (Policy_Leaf n) = Policy_Rule (al_child (ls ! n))"
| "unwrap_leaves ls t = t"

text \<open>The checkpoint of \<open>buildIndex\<close> after every 4096 entries; the flag tells whether the policies are compiled.\<close>

definition pressure_checkpoint ::
  "'r rule_ops \<Rightarrow> bool \<Rightarrow> 'r policy \<Rightarrow> 'r adaptive_leaf list \<Rightarrow> (bool \<times> 'r policy, 'r) policy_result" where
  "pressure_checkpoint Q streaming t ls =
     (case (if streaming then lossy_streaming_pressure Q ls t else lossy_build_pressure Q ls t) of
        Inl e \<Rightarrow> Some (Inl e)
      | Inr None \<Rightarrow> Some (Inr ((streaming, t), ls))
      | Inr (Some (usage, target)) \<Rightarrow>
          if target < usage then
            (if streaming then bind_result (fit_policies Q t ls) (\<lambda>_ ls. Some (Inr ((True, t), ls)))
             else bind_result (compile_lossy_rules Q t ls) (\<lambda>t ls.
                  bind_result (wrap_leaves Q t ls) (\<lambda>t ls. Some (Inr ((True, t), ls)))))
          else Some (Inr ((streaming, t), ls)))"

text \<open>After the last entry: compile what is left, refresh and enforce, and publish the rules of the leaves.\<close>

definition enforce_policies :: "'r rule_ops \<Rightarrow> 'r policy \<Rightarrow> 'r adaptive_leaf list \<Rightarrow> ('r policy, 'r) policy_result" where
  "enforce_policies Q t ls =
     bind_result (compile_lossy_rules Q t ls) (\<lambda>t ls.
     bind_result (refresh_lossy Q t ls) (\<lambda>(t, d) ls. Some (Inr (t, ls))))"

definition publish_policies :: "'r rule_ops \<Rightarrow> 'r policy \<Rightarrow> 'r adaptive_leaf list \<Rightarrow> ('r policy, 'r) policy_result" where
  "publish_policies Q t ls = bind_result (enforce_policies Q t ls) (\<lambda>t ls. Some (Inr (unwrap_leaves ls t, ls)))"

section \<open>Valid policies\<close>

text \<open>\<open>validateLossyPolicies\<close>, before the first entry: the first error of a schema.\<close>

fun validate_policies :: "'r policy \<Rightarrow> policy_error option" where
  "validate_policies (Policy_Lossy options child) =
     (case validate_policy options of Inl e \<Rightarrow> Some e | Inr limit \<Rightarrow> validate_policies child)"
| "validate_policies (Policy_All children) =
     foldr (\<lambda>child rest. case validate_policies child of Some e \<Rightarrow> Some e | None \<Rightarrow> rest) children None"
| "validate_policies (Policy_Inspect child) = validate_policies child"
| "validate_policies t = None"

lemma validate_options_set: "limit \<noteq> 0 \<Longrightarrow> validate_options limit options = Inr l \<longleftrightarrow> options = [] \<and> l = limit"
  by (cases options) (auto split: lossy_option.split)

text \<open>
  C39: A policy is valid exactly when its options are limits, the last of them positive and all others zero: the
  check for a second limit only sees a limit that is not zero.
\<close>

theorem validate_policy_accepts:
  "validate_policy options = Inr limit \<longleftrightarrow> 0 < limit \<and> (\<exists>n. options = replicate n (Memory_Limit 0) @ [Memory_Limit limit])"
proof -
  have "validate_options 0 options = Inr limit \<longleftrightarrow> limit \<noteq> 0 \<and> (\<exists>n. options = replicate n (Memory_Limit 0) @ [Memory_Limit limit])"
  proof (induction options)
    case (Cons option options)
    show ?case
    proof (cases option)
      case (Memory_Limit bytes)
      show ?thesis
      proof (cases "bytes = 0")
        case True
        have "(\<exists>n. option # options = replicate n (Memory_Limit 0) @ [Memory_Limit limit])
            \<longleftrightarrow> (\<exists>n. options = replicate n (Memory_Limit 0) @ [Memory_Limit limit])" if "limit \<noteq> 0"
        proof (intro iffI; elim exE)
          fix n assume "option # options = replicate n (Memory_Limit 0) @ [Memory_Limit limit]"
          then show "\<exists>n. options = replicate n (Memory_Limit 0) @ [Memory_Limit limit]"
            using that True Memory_Limit by (cases n) auto
        next
          fix n assume "options = replicate n (Memory_Limit 0) @ [Memory_Limit limit]"
          then have "option # options = replicate (Suc n) (Memory_Limit 0) @ [Memory_Limit limit]" using Memory_Limit True by simp
          then show "\<exists>n. option # options = replicate n (Memory_Limit 0) @ [Memory_Limit limit]" by blast
        qed
        with Cons.IH Memory_Limit True show ?thesis by auto
      next
        case False
        have "option # options = replicate n (Memory_Limit 0) @ [Memory_Limit limit] \<longleftrightarrow> n = 0 \<and> options = [] \<and> limit = bytes" for n
          using Memory_Limit False by (cases n) auto
        with Memory_Limit False validate_options_set [OF False, of options limit] show ?thesis by auto
      qed
    next
      case Invalid_Option
      have "option # options \<noteq> replicate n (Memory_Limit 0) @ [Memory_Limit limit]" for n
        using Invalid_Option by (cases n) auto
      then show ?thesis using Invalid_Option by simp
    qed
  qed simp
  then show ?thesis by (simp add: validate_policy_def word_neq_0_conv)
qed

end
