(* ===== verification/Lossy_Enforcement.thy ===== *)
theory Lossy_Enforcement
  imports Lossy_Policy
begin

text \<open>
  Fitting and enforcing policies: every loop returns, leaves only ever move to coarser representations of what
  they hold, and a tree that has been refreshed successfully keeps every limit.
\<close>

section \<open>Coarser leaves\<close>

definition coarser :: "'r rule_ops \<Rightarrow> 'r adaptive_leaf \<Rightarrow> 'r adaptive_leaf \<Rightarrow> bool" where
  "coarser Q = (\<lambda>l l'. adaptive_next Q l = Some l')\<^sup>*\<^sup>*"

text \<open>Only the leaves in \<open>ns\<close> may have moved.\<close>

definition moved :: "'r rule_ops \<Rightarrow> nat set \<Rightarrow> 'r adaptive_leaf list \<Rightarrow> 'r adaptive_leaf list \<Rightarrow> bool" where
  "moved Q ns ls ls' \<longleftrightarrow> length ls' = length ls
     \<and> (\<forall>k<length ls. coarser Q (ls ! k) (ls' ! k)) \<and> (\<forall>k<length ls. k \<notin> ns \<longrightarrow> ls' ! k = ls ! k)"

lemma moved_refl [simp]: "moved Q ns ls ls"
  by (simp add: moved_def coarser_def)

lemma coarser_trans: "coarser Q a b \<Longrightarrow> coarser Q b c \<Longrightarrow> coarser Q a c"
  unfolding coarser_def by (rule rtranclp_trans)

lemma moved_trans:
  assumes "moved Q ns ls ls'" "moved Q ms ls' ls''" "ns \<subseteq> all" "ms \<subseteq> all"
  shows "moved Q all ls ls''"
proof -
  have "coarser Q (ls ! k) (ls'' ! k) \<and> (k \<notin> all \<longrightarrow> ls'' ! k = ls ! k)" if "k < length ls" for k
  proof
    show "coarser Q (ls ! k) (ls'' ! k)" using assms(1,2) that coarser_trans unfolding moved_def by metis
    show "k \<notin> all \<longrightarrow> ls'' ! k = ls ! k" using assms that unfolding moved_def by (metis subsetD)
  qed
  then show ?thesis using assms(1,2) by (simp add: moved_def)
qed

lemma moved_update:
  assumes "n \<in> ns" "coarser Q (ls ! n) l"
  shows "moved Q ns ls (ls[n := l])"
proof -
  have "coarser Q (ls ! k) (ls[n := l] ! k) \<and> (k \<notin> ns \<longrightarrow> ls[n := l] ! k = ls ! k)" if "k < length ls" for k
    using that assms by (cases "k = n") (simp_all add: coarser_def nth_list_update_neq)
  then show ?thesis by (simp add: moved_def)
qed

definition leaves_within :: "nat list \<Rightarrow> 'r adaptive_leaf list \<Rightarrow> bool" where
  "leaves_within ns ls \<longleftrightarrow> (\<forall>n\<in>set ns. n < length ls)"

lemma moved_within: "moved Q ns ls ls' \<Longrightarrow> leaves_within ms ls' = leaves_within ms ls"
  by (simp add: moved_def leaves_within_def)

section \<open>The shape of a tree\<close>

fun same_shape :: "'r policy \<Rightarrow> 'r policy" where
  "same_shape (Policy_All children) = Policy_All (map same_shape children)"
| "same_shape (Policy_Inspect child) = Policy_Inspect (same_shape child)"
| "same_shape (Policy_Details d child) = Policy_Details no_details (same_shape child)"
| "same_shape t = t"

lemma policy_leaves_shape: "policy_leaves (same_shape t) = policy_leaves t"
  by (induction t rule: same_shape.induct) (auto intro!: arg_cong [where f = concat])

lemma policy_depth_shape: "policy_depth (same_shape t) = policy_depth t"
  by (induction t rule: same_shape.induct) (auto simp: comp_def cong: map_cong)

lemma depth_child:
  assumes "t \<in> set ts"
  shows "policy_depth t < policy_depth (Policy_All ts)"
proof -
  have "b \<le> foldl max b xs \<and> (\<forall>x\<in>set xs. x \<le> foldl max b xs)" for b :: nat and xs
  proof (induction xs arbitrary: b)
    case (Cons x xs)
    from Cons.IH [of "max b x"] show ?case by auto
  qed simp
  then show ?thesis using assms by (simp add: less_Suc_eq_le)
qed

text \<open>Every part of the tree has a leaf, and no plain rule is under a policy.\<close>

fun policy_filled :: "'r policy \<Rightarrow> bool" where
  "policy_filled (Policy_All children) \<longleftrightarrow> children \<noteq> [] \<and> list_all policy_filled children"
| "policy_filled (Policy_Inspect child) \<longleftrightarrow> policy_filled child"
| "policy_filled (Policy_Details d child) \<longleftrightarrow> policy_filled child"
| "policy_filled (Policy_Lossy options child) \<longleftrightarrow> False"
| "policy_filled (Policy_Leaf n) \<longleftrightarrow> True"
| "policy_filled (Policy_Rule r) \<longleftrightarrow> False"

lemma policy_filled_shape: "policy_filled (same_shape t) = policy_filled t"
  by (induction t rule: same_shape.induct) (auto simp: list_all_iff)

lemma same_shape_eq:
  assumes "same_shape t' = same_shape t"
  shows "policy_leaves t' = policy_leaves t" "policy_depth t' = policy_depth t" "policy_filled t' = policy_filled t"
  using assms policy_leaves_shape [of t] policy_leaves_shape [of t'] policy_depth_shape [of t] policy_depth_shape [of t']
    policy_filled_shape [of t] policy_filled_shape [of t'] by auto

section \<open>Bytes and limits\<close>

text \<open>The bytes of some leaves, added as the code adds them, and the limits of a tree with the leaves below each.\<close>

definition leaf_bytes :: "'r rule_ops \<Rightarrow> 'r adaptive_leaf list \<Rightarrow> nat list \<Rightarrow> u64" where
  "leaf_bytes Q ls ns = (\<Sum>n\<leftarrow>ns. adaptive_usage Q (ls ! n))"

fun tree_limits :: "'r policy \<Rightarrow> (nat list \<times> u64) list" where
  "tree_limits (Policy_All children) = concat (map tree_limits children)"
| "tree_limits (Policy_Inspect child) = tree_limits child"
| "tree_limits (Policy_Details d child) =
     (case pd_limit d of None \<Rightarrow> [] | Some limit \<Rightarrow> [(policy_leaves child, limit)]) @ tree_limits child"
| "tree_limits t = []"

definition limits_hold :: "'r rule_ops \<Rightarrow> 'r adaptive_leaf list \<Rightarrow> 'r policy \<Rightarrow> bool" where
  "limits_hold Q ls t \<longleftrightarrow> list_all (\<lambda>(ns, limit). leaf_bytes Q ls ns \<le> limit) (tree_limits t)"

lemma leaf_bytes_append [simp]: "leaf_bytes Q ls (ns @ ms) = leaf_bytes Q ls ns + leaf_bytes Q ls ms"
  by (simp add: leaf_bytes_def)

lemma leaf_bytes_concat: "leaf_bytes Q ls (concat nss) = (\<Sum>ns\<leftarrow>nss. leaf_bytes Q ls ns)"
  by (induction nss) (simp_all add: leaf_bytes_def)

lemma leaf_bytes_frame: "(\<And>n. n \<in> set ns \<Longrightarrow> ls' ! n = ls ! n) \<Longrightarrow> leaf_bytes Q ls' ns = leaf_bytes Q ls ns"
  by (simp add: leaf_bytes_def cong: map_cong)

lemma tree_limits_leaves: "(ns, limit) \<in> set (tree_limits t) \<Longrightarrow> set ns \<subseteq> set (policy_leaves t)"
  by (induction t rule: policy_leaves.induct) (fastforce split: option.splits)+

lemma limits_hold_frame:
  assumes "\<And>n. n \<in> set (policy_leaves t) \<Longrightarrow> ls' ! n = ls ! n"
  shows "limits_hold Q ls' t = limits_hold Q ls t"
proof -
  have "leaf_bytes Q ls' ns = leaf_bytes Q ls ns" if "(ns, limit) \<in> set (tree_limits t)" for ns limit
    by (rule leaf_bytes_frame) (use tree_limits_leaves [OF that] assms in blast)
  then show ?thesis by (auto simp: limits_hold_def list_all_iff)
qed

text \<open>Every part of the tree below a limit has a leaf.\<close>

fun limits_filled :: "'r policy \<Rightarrow> bool" where
  "limits_filled (Policy_All children) \<longleftrightarrow> list_all limits_filled children"
| "limits_filled (Policy_Inspect child) \<longleftrightarrow> limits_filled child"
| "limits_filled (Policy_Details d child) \<longleftrightarrow> policy_filled child"
| "limits_filled t \<longleftrightarrow> True"

lemma policy_filled_limits: "policy_filled t \<Longrightarrow> limits_filled t"
  by (induction t rule: policy_filled.induct) (auto simp: list_all_iff)

lemma limits_filled_shape: "limits_filled (same_shape t) = limits_filled t"
  by (induction t rule: same_shape.induct) (auto simp: list_all_iff policy_filled_shape)

text \<open>What refreshing a tree gives: the same tree with the details of the leaves as they are after it.\<close>

definition refreshed :: "'r rule_ops \<Rightarrow> 'r policy \<Rightarrow> 'r adaptive_leaf list \<Rightarrow> 'r policy \<times> policy_details \<Rightarrow> bool" where
  "refreshed Q t ls r \<longleftrightarrow>
     same_shape (fst r) = same_shape t
     \<and> set (tree_limits t) \<subseteq> set (tree_limits (fst r))
     \<and> (policy_filled t \<longrightarrow> pd_available (snd r) \<and> pd_usage (snd r) = leaf_bytes Q ls (policy_leaves t)
          \<and> (\<forall>limit. pd_limit (snd r) = Some limit \<longrightarrow> pd_usage (snd r) \<le> limit))
     \<and> (limits_filled t \<longrightarrow> limits_hold Q ls (fst r))"

lemma refreshed_frame:
  assumes "\<And>k. k \<in> set (policy_leaves t) \<Longrightarrow> ls' ! k = ls ! k" "refreshed Q t ls r"
  shows "refreshed Q t ls' r"
proof -
  have leaves: "policy_leaves (fst r) = policy_leaves t" 
    by (rule same_shape_eq(1)) (use assms(2) in \<open>simp add: refreshed_def\<close>)
  have usage: "leaf_bytes Q ls' (policy_leaves t) = leaf_bytes Q ls (policy_leaves t)" by (rule leaf_bytes_frame) (use assms(1) in blast)
  have limits: "limits_hold Q ls' (fst r) = limits_hold Q ls (fst r)"
    by (rule limits_hold_frame) (use assms(1) leaves in simp)
  show ?thesis using assms(2) unfolding refreshed_def usage limits .
qed

lemma refreshed_trans:
  assumes "refreshed Q t ls r" "refreshed Q (fst r) ls' r'"
  shows "refreshed Q t ls' r'"
proof -
  have shape: "same_shape (fst r) = same_shape t" using assms(1) by (simp add: refreshed_def)
  have filled: "limits_filled (fst r) = limits_filled t" using shape limits_filled_shape by metis
  have limits: "set (tree_limits t) \<subseteq> set (tree_limits (fst r))" using assms(1) by (simp add: refreshed_def)
  show ?thesis using assms(2) limits shape unfolding refreshed_def same_shape_eq [OF shape] filled by auto
qed

lemma aggregate_details_sum:
  "pd_usage (aggregate_details ds) = (\<Sum>d\<leftarrow>ds. pd_usage d)" (is ?usage)
  "pd_available (aggregate_details ds) = list_ex pd_available ds" (is ?available)
  "pd_limit (aggregate_details ds) = None" (is ?limit)
proof -
  let ?f = "\<lambda>a d. a\<lparr>pd_usage := pd_usage a + pd_usage d, pd_available := pd_available a \<or> pd_available d\<rparr>"
  have "pd_usage (foldl ?f a ds) = pd_usage a + (\<Sum>d\<leftarrow>ds. pd_usage d) \<and>
      pd_available (foldl ?f a ds) = (pd_available a \<or> list_ex pd_available ds) \<and> pd_limit (foldl ?f a ds) = pd_limit a" for a
    by (induction ds arbitrary: a) (simp_all add: add.assoc disj_assoc)
  from this [of no_details] show ?usage ?available ?limit by (simp_all add: aggregate_details_def no_details_def)
qed

lemma refreshed_All:
  assumes "list_all2 (\<lambda>t r. refreshed Q t ls r) ts rs"
  shows "refreshed Q (Policy_All ts) ls (Policy_All (map fst rs), aggregate_details (map snd rs))"
proof -
  have usage: "list_all policy_filled ts \<Longrightarrow>
      list_all (\<lambda>r. pd_available (snd r)) rs \<and> (\<Sum>r\<leftarrow>rs. pd_usage (snd r)) = leaf_bytes Q ls (concat (map policy_leaves ts))"
    using assms by (induction rule: list_all2_induct) (auto simp: refreshed_def leaf_bytes_def)
  have limits: "list_all limits_filled ts \<Longrightarrow> list_all (\<lambda>r. limits_hold Q ls (fst r)) rs"
    using assms by (induction rule: list_all2_induct) (auto simp: refreshed_def)
  have shape: "map (same_shape \<circ> fst) rs = map same_shape ts"
    using assms by (induction rule: list_all2_induct) (auto simp: refreshed_def)
  have kept: "(\<Union>t\<in>set ts. set (tree_limits t)) \<subseteq> (\<Union>r\<in>set rs. set (tree_limits (fst r)))"
    using assms by (induction rule: list_all2_induct) (auto simp: refreshed_def)
  have ex: "list_ex (pd_available \<circ> snd) rs" if "ts \<noteq> []" "list_all policy_filled ts"
    using usage [OF that(2)] that(1) assms by (cases rs) auto
  show ?thesis unfolding refreshed_def fst_conv snd_conv
  proof (intro conjI impI)
    show "same_shape (Policy_All (map fst rs)) = same_shape (Policy_All ts)" using shape by (simp add: comp_def)
    show "set (tree_limits (Policy_All ts)) \<subseteq> set (tree_limits (Policy_All (map fst rs)))" using kept by simp
  next
    assume filled: "policy_filled (Policy_All ts)"
    show "pd_available (aggregate_details (map snd rs))"
      using ex filled by (simp add: aggregate_details_sum list_ex_iff)
    show "pd_usage (aggregate_details (map snd rs)) = leaf_bytes Q ls (policy_leaves (Policy_All ts))"
      using usage filled by (simp add: aggregate_details_sum comp_def)
    show "\<forall>limit. pd_limit (aggregate_details (map snd rs)) = Some limit \<longrightarrow> pd_usage (aggregate_details (map snd rs)) \<le> limit"
      by (simp add: aggregate_details_sum)
  next
    assume "limits_filled (Policy_All ts)"
    then show "limits_hold Q ls (Policy_All (map fst rs))" using limits by (auto simp: limits_hold_def list_all_iff)
  qed
qed

text \<open>A node with details whose child was refreshed.\<close>

lemma refreshed_Details:
  assumes "refreshed Q child ls (child', d')" "\<And>limit. pd_limit d = Some limit \<Longrightarrow> pd_limit r = Some limit"
    and "policy_filled child \<Longrightarrow> pd_available r \<and> pd_usage r = leaf_bytes Q ls (policy_leaves child)"
    and "policy_filled child \<Longrightarrow> \<forall>limit. pd_limit r = Some limit \<longrightarrow> pd_usage r \<le> limit"
  shows "refreshed Q (Policy_Details d child) ls (Policy_Details r child', r)"
proof -
  have shape: "same_shape child' = same_shape child" using assms(1) by (simp add: refreshed_def)
  note leaves = same_shape_eq(1) [OF shape]
  show ?thesis unfolding refreshed_def fst_conv snd_conv
  proof (intro conjI impI)
    show "same_shape (Policy_Details r child') = same_shape (Policy_Details d child)" using shape by simp
    show "set (tree_limits (Policy_Details d child)) \<subseteq> set (tree_limits (Policy_Details r child'))"
      using assms(1) assms(2) leaves by (cases "pd_limit d") (auto simp: refreshed_def)
  next
    assume "policy_filled (Policy_Details d child)"
    then show "pd_available r" "pd_usage r = leaf_bytes Q ls (policy_leaves (Policy_Details d child))"
      "\<forall>limit. pd_limit r = Some limit \<longrightarrow> pd_usage r \<le> limit" using assms(3,4) by auto
  next
    assume "limits_filled (Policy_Details d child)"
    then have filled: "policy_filled child" by simp
    moreover have "limits_hold Q ls child'" using assms(1) policy_filled_limits [OF filled] by (simp add: refreshed_def)
    ultimately show "limits_hold Q ls (Policy_Details r child')"
      using assms(3,4) leaves by (auto simp: limits_hold_def split: option.split)
  qed
qed

section \<open>Results\<close>

text \<open>A step returns, and satisfies \<open>P\<close> when it succeeds.\<close>

definition returns :: "('a, 'r) policy_result \<Rightarrow> ('a \<Rightarrow> 'r adaptive_leaf list \<Rightarrow> bool) \<Rightarrow> bool" where
  "returns m P = (case m of None \<Rightarrow> False | Some (Inl e) \<Rightarrow> True | Some (Inr (a, ls)) \<Rightarrow> P a ls)"

lemma returns_simps [simp]:
  "\<not> returns None P" "returns (Some (Inl e)) P" "returns (Some (Inr (a, ls))) P = P a ls"
  by (simp_all add: returns_def)

lemma returns_bind:
  assumes "returns m P" "\<And>a ls. P a ls \<Longrightarrow> returns (f a ls) R"
  shows "returns (bind_result m f) R"
proof -
  consider "m = None" | e where "m = Some (Inl e)" | a ls where "m = Some (Inr (a, ls))"
    by (metis not_None_eq sum.exhaust surj_pair)
  then show ?thesis using assms by cases (simp_all add: bind_result_def)
qed

lemma returns_mono: "returns m P \<Longrightarrow> (\<And>a ls. P a ls \<Longrightarrow> R a ls) \<Longrightarrow> returns m R"
  by (auto simp: returns_def split: option.splits sum.splits)

lemma returns_result: "returns m P \<Longrightarrow> m = Some (Inr (a, ls)) \<Longrightarrow> P a ls"
  by simp

lemma returns_returning: "m = Some ls \<Longrightarrow> P () ls \<Longrightarrow> returns (returning m) P"
  by (simp add: returning_def)

locale streaming_rules =
  fixes Q :: "'r rule_ops" and ok :: "'r \<Rightarrow> bool" and rank :: "'r \<Rightarrow> nat"
  assumes first_ok: "ok r \<Longrightarrow> ro_first Q r = Some r' \<Longrightarrow> ok r' \<and> rank r' < rank r"
    and next_ok: "ok r \<Longrightarrow> ro_next Q r = Some r' \<Longrightarrow> ok r' \<and> rank r' < rank r"
begin

definition leaf_ok :: "'r adaptive_leaf \<Rightarrow> bool" where
  "leaf_ok l = ok (al_child l)"

lemma adaptive_next_ok:
  assumes "leaf_ok l" "adaptive_next Q l = Some l'"
  shows "leaf_ok l'" "rank (al_child l') < rank (al_child l)"
proof -
  have "ro_first Q (al_child l) = Some (al_child l') \<or> ro_next Q (al_child l) = Some (al_child l')"
  proof (cases "if al_approximate l then None else ro_first Q (al_child l)")
    case None
    then show ?thesis using assms(2) by (auto simp: adaptive_next_def)
  next
    case (Some r)
    then show ?thesis using assms(2) by (auto simp: adaptive_next_def split: if_splits)
  qed
  then consider "ro_first Q (al_child l) = Some (al_child l')" | "ro_next Q (al_child l) = Some (al_child l')" by blast
  then have "ok (al_child l') \<and> rank (al_child l') < rank (al_child l)"
    using first_ok next_ok assms(1) unfolding leaf_ok_def by cases blast+
  then show "leaf_ok l'" "rank (al_child l') < rank (al_child l)" by (auto simp: leaf_ok_def)
qed

lemma coarser_ok:
  assumes "coarser Q l l'" "leaf_ok l"
  shows "leaf_ok l' \<and> rank (al_child l') \<le> rank (al_child l)"
  using assms unfolding coarser_def
proof (induction rule: rtranclp_induct)
  case (step b c)
  then show ?case using adaptive_next_ok [of b c] by auto
qed simp

lemma moved_ok:
  assumes "moved Q ns ls ls'" "\<forall>l\<in>set ls. leaf_ok l"
  shows "\<forall>l\<in>set ls'. leaf_ok l"
  using assms coarser_ok by (fastforce simp: moved_def in_set_conv_nth)

lemma fit_leaf_returns:
  assumes "leaf_ok l"
  shows "\<exists>l'. fit_leaf Q limit l = Some l' \<and> coarser Q l l' \<and> (adaptive_usage Q l' \<le> limit \<or> adaptive_next Q l' = None)"
  using assms
proof (induction "rank (al_child l)" arbitrary: l rule: less_induct)
  case less
  show ?case
  proof (cases "limit < adaptive_usage Q l")
    case False
    then show ?thesis by (subst fit_leaf.simps) (auto simp: coarser_def)
  next
    case over: True
    show ?thesis
    proof (cases "adaptive_next Q l")
      case None
      with over show ?thesis by (subst fit_leaf.simps) (auto simp: coarser_def)
    next
      case (Some l')
      obtain l'' where "fit_leaf Q limit l' = Some l''" "coarser Q l' l''" "adaptive_usage Q l'' \<le> limit \<or> adaptive_next Q l'' = None"
        using less.hyps [OF adaptive_next_ok(2) [OF less.prems Some] adaptive_next_ok(1) [OF less.prems Some]] by blast
      moreover have "coarser Q l l''" using Some \<open>coarser Q l' l''\<close> by (auto simp: coarser_def intro: converse_rtranclp_into_rtranclp)
      ultimately show ?thesis using over Some by (subst fit_leaf.simps) auto
    qed
  qed
qed

lemma fit_leaves_returns:
  assumes "\<forall>l\<in>set ls. leaf_ok l" "leaves_within ns ls"
  shows "\<exists>ls'. fit_leaves Q limit ns ls = Some ls' \<and> moved Q (set ns) ls ls'"
  using assms
proof (induction ns arbitrary: ls)
  case (Cons n ns)
  have n: "n < length ls" using Cons.prems(2) by (simp add: leaves_within_def)
  then obtain l where l: "fit_leaf Q limit (ls ! n) = Some l" "coarser Q (ls ! n) l"
    using fit_leaf_returns [of "ls ! n"] Cons.prems(1) by (meson nth_mem)
  have step: "moved Q (set (n # ns)) ls (ls[n := l])" by (rule moved_update) (use l in simp_all)
  have "\<forall>l\<in>set (ls[n := l]). leaf_ok l" by (rule moved_ok [OF step Cons.prems(1)])
  moreover have "leaves_within ns (ls[n := l])" using Cons.prems(2) by (simp add: leaves_within_def)
  ultimately obtain ls' where "fit_leaves Q limit ns (ls[n := l]) = Some ls'" "moved Q (set ns) (ls[n := l]) ls'"
    using Cons.IH by blast
  with step l(1) show ?case by (auto intro: moved_trans [OF step])
qed simp

text \<open>Leaves without a coarser representation stay as they are.\<close>

lemma fit_leaves_unmoved:
  assumes "\<forall>n\<in>set ns. adaptive_next Q (ls ! n) = None"
  shows "fit_leaves Q limit ns ls = Some ls"
  using assms
proof (induction ns)
  case (Cons n ns)
  then have "fit_leaf Q limit (ls ! n) = Some (ls ! n)" by (subst fit_leaf.simps) simp
  with Cons show ?case by simp
qed simp

lemma select_candidate_in: "select_candidate c cs \<in> set (c # cs)"
proof -
  have "foldl (\<lambda>selected c. if fc_released c < fc_released selected \<or> fc_released c = fc_released selected \<and> fc_usage selected < fc_usage c
      then c else selected) s cs \<in> set (s # cs)" for s
  proof (induction cs arbitrary: s)
    case (Cons a cs)
    from Cons.IH [of s] Cons.IH [of a] show ?case by auto
  qed simp
  then show ?thesis by (simp only: select_candidate_def)
qed

lemma fit_candidates_in:
  assumes "c \<in> set (fit_candidates Q ls t)"
  shows "fc_leaf c \<in> set (policy_leaves t)" "adaptive_next Q (ls ! fc_leaf c) \<noteq> None"
proof -
  from assms obtain n where "n \<in> set (policy_leaves t)" "c \<in> set (leaf_candidate Q ls n)" by (auto simp: fit_candidates_def)
  then show "fc_leaf c \<in> set (policy_leaves t)" "adaptive_next Q (ls ! fc_leaf c) \<noteq> None"
    by (cases "adaptive_next Q (ls ! n)"; simp add: leaf_candidate_def Let_def)+
qed

lemma fit_candidates_none: "fit_candidates Q ls t = [] \<Longrightarrow> n \<in> set (policy_leaves t) \<Longrightarrow> adaptive_next Q (ls ! n) = None"
  by (auto simp: fit_candidates_def leaf_candidate_def Let_def split: option.splits)

definition store_rank :: "'r adaptive_leaf list \<Rightarrow> nat" where
  "store_rank ls = (\<Sum>l\<leftarrow>ls. rank (al_child l))"

lemma store_rank_update: "n < length ls \<Longrightarrow> rank (al_child l) < rank (al_child (ls ! n)) \<Longrightarrow> store_rank (ls[n := l]) < store_rank ls"
  unfolding store_rank_def by (induction ls arbitrary: n) (auto split: nat.splits)

text \<open>The planner returns: each step lowers the rank of one leaf.\<close>

lemma fit_aggregate_returns:
  assumes "\<forall>l\<in>set ls. leaf_ok l" "leaves_within (policy_leaves t) ls"
  shows "\<exists>ls'. fit_aggregate_to Q t limit terminal ls = Some ls' \<and> moved Q (set (policy_leaves t)) ls ls'
    \<and> (aggregate_usage Q ls' t \<le> limit \<or> fit_candidates Q ls' t = [])"
  using assms
proof (induction "store_rank ls" arbitrary: ls rule: less_induct)
  case less
  show ?case
  proof (cases "aggregate_usage Q ls t \<le> limit")
    case True
    then show ?thesis by (subst fit_aggregate_to.simps) simp
  next
    case over: False
    show ?thesis
    proof (cases "fit_candidates Q ls t")
      case Nil
      have "fit_leaves Q 0 (policy_leaves t) ls = Some ls"
        by (rule fit_leaves_unmoved) (use fit_candidates_none [OF Nil] in blast)
      with Nil over show ?thesis by (subst fit_aggregate_to.simps) (simp add: Let_def)
    next
      case (Cons c cs)
      let ?n = "fc_leaf (select_candidate c cs)"
      have "select_candidate c cs \<in> set (fit_candidates Q ls t)" unfolding Cons by (rule select_candidate_in)
      then have n: "?n \<in> set (policy_leaves t)" and "adaptive_next Q (ls ! ?n) \<noteq> None" by (auto dest: fit_candidates_in)
      then obtain l where l: "adaptive_next Q (ls ! ?n) = Some l" by blast
      have range: "?n < length ls" using n less.prems(2) by (simp add: leaves_within_def)
      then have ok: "leaf_ok (ls ! ?n)" using less.prems(1) by simp
      have step: "moved Q (set (policy_leaves t)) ls (ls[?n := l])"
        by (rule moved_update [OF n]) (use l in \<open>simp add: coarser_def r_into_rtranclp\<close>)
      have "store_rank (ls[?n := l]) < store_rank ls" by (rule store_rank_update [OF range adaptive_next_ok(2) [OF ok l]])
      then obtain ls' where ls': "fit_aggregate_to Q t limit terminal (ls[?n := l]) = Some ls'"
        "moved Q (set (policy_leaves t)) (ls[?n := l]) ls'" "aggregate_usage Q ls' t \<le> limit \<or> fit_candidates Q ls' t = []"
        using less.hyps moved_ok [OF step less.prems(1)] moved_within [OF step] less.prems(2) by metis
      have "fit_aggregate_to Q t limit terminal ls = Some ls'"
        using over Cons l ls'(1) by (subst fit_aggregate_to.simps) (simp add: Let_def)
      with ls' step show ?thesis by (auto intro: moved_trans)
    qed
  qed
qed

section \<open>Refreshing\<close>

text \<open>Every tree that the policies are enforced on has leaves below each of its limits.\<close>

lemma returns_each_child:
  assumes step: "\<And>t ls. t \<in> set ts \<Longrightarrow> leaves_within (policy_leaves t) ls \<Longrightarrow> \<forall>l\<in>set ls. leaf_ok l \<Longrightarrow>
      returns (f t ls) (\<lambda>a ls'. moved Q (set (policy_leaves t)) ls ls' \<and> H t ls' a)"
    and frame: "\<And>t a ls ls'. (\<And>k. k \<in> set (policy_leaves t) \<Longrightarrow> ls' ! k = ls ! k) \<Longrightarrow> H t ls a \<Longrightarrow> H t ls' a"
    and "distinct (concat (map policy_leaves ts))" "leaves_within (concat (map policy_leaves ts)) ls" "\<forall>l\<in>set ls. leaf_ok l"
  shows "returns (each_child f ts ls)
    (\<lambda>as ls'. moved Q (set (concat (map policy_leaves ts))) ls ls' \<and> list_all2 (\<lambda>t a. H t ls' a) ts as)"
  using assms(1,3-5)
proof (induction ts arbitrary: ls)
  case (Cons t ts)
  show ?case unfolding each_child.simps
  proof (rule returns_bind)
    show "returns (f t ls) (\<lambda>a ls'. moved Q (set (policy_leaves t)) ls ls' \<and> H t ls' a)"
      using Cons.prems(1) [of t ls] Cons.prems(3,4) by (simp add: leaves_within_def)
  next
    fix a ls1
    assume a: "moved Q (set (policy_leaves t)) ls ls1 \<and> H t ls1 a"
    then have m: "moved Q (set (policy_leaves t)) ls ls1" and h: "H t ls1 a" by auto
    let ?ns = "concat (map policy_leaves ts)"
    have within: "leaves_within ?ns ls1" unfolding moved_within [OF m] using Cons.prems(3) by (simp add: leaves_within_def)
    have "returns (each_child f ts ls1) (\<lambda>as ls'. moved Q (set ?ns) ls1 ls' \<and> list_all2 (\<lambda>t a. H t ls' a) ts as)"
      by (rule Cons.IH [OF _ _ within moved_ok [OF m Cons.prems(4)]])
        (use Cons.prems(1,2) in auto)
    then show "returns (bind_result (each_child f ts ls1) (\<lambda>as ls. Some (Inr (a # as, ls))))
        (\<lambda>as ls'. moved Q (set (concat (map policy_leaves (t # ts)))) ls ls' \<and> list_all2 (\<lambda>t a. H t ls' a) (t # ts) as)"
    proof (rule returns_bind)
      fix as ls2
      assume b: "moved Q (set ?ns) ls1 ls2 \<and> list_all2 (\<lambda>t a. H t ls2 a) ts as"
      have "moved Q (set (concat (map policy_leaves (t # ts)))) ls ls2"
        by (rule moved_trans [OF m conjunct1 [OF b]]) auto
      moreover have "H t ls2 a"
      proof (rule frame [OF _ h])
        fix k assume k: "k \<in> set (policy_leaves t)"
        then have "k \<notin> set ?ns" using Cons.prems(2) by auto
        moreover have "k < length ls1" using k Cons.prems(3) m by (auto simp: leaves_within_def moved_def)
        ultimately show "ls2 ! k = ls1 ! k" using b by (simp add: moved_def)
      qed
      ultimately show "returns (Some (Inr (a # as, ls2)))
          (\<lambda>as ls'. moved Q (set (concat (map policy_leaves (t # ts)))) ls ls' \<and> list_all2 (\<lambda>t a. H t ls' a) (t # ts) as)"
        using b by simp
    qed
  qed
qed simp

definition refresh_ok :: "'r policy \<Rightarrow> 'r adaptive_leaf list \<Rightarrow> ('r policy \<times> policy_details, 'r) policy_result \<Rightarrow> bool" where
  "refresh_ok t ls m \<longleftrightarrow> returns m (\<lambda>r ls'. moved Q (set (policy_leaves t)) ls ls' \<and> refreshed Q t ls' r)"

lemma fit_leaves_step:
  assumes "\<forall>l\<in>set ls. leaf_ok l" "leaves_within ns ls"
  shows "returns (returning (fit_leaves Q limit ns ls)) (\<lambda>_ ls'. moved Q (set ns) ls ls')"
  using fit_leaves_returns [OF assms] by (auto intro: returns_returning)

lemma fit_aggregate_step:
  assumes "\<forall>l\<in>set ls. leaf_ok l" "leaves_within (policy_leaves t) ls"
  shows "returns (returning (fit_aggregate_to Q t limit terminal ls)) (\<lambda>_ ls'. moved Q (set (policy_leaves t)) ls ls')"
  using fit_aggregate_returns [OF assms] by (auto intro: returns_returning)

lemma refresh_ok_leaf: "refresh_ok (Policy_Leaf k) ls (refresh_details (Suc n) Q (Policy_Leaf k) ls)"
  by (simp add: refresh_ok_def refreshed_def usage_details_def leaf_bytes_def limits_hold_def)

text \<open>
  The step of a policy, given that its child can be refreshed: the limit is enforced on each leaf, then on the
  child when it is a leaf, then on the whole of it, or the step fails.
\<close>

definition refreshes :: "'r policy \<Rightarrow> 'r refresh \<Rightarrow> bool" where
  "refreshes child refresh \<longleftrightarrow>
     (\<forall>t ls. same_shape t = same_shape child \<longrightarrow> leaves_within (policy_leaves t) ls \<longrightarrow> (\<forall>l\<in>set ls. leaf_ok l) \<longrightarrow>
        refresh_ok t ls (refresh t ls))"

lemma settle_policy_ok:
  assumes refresh: "refreshes child0 refresh" and within: "leaves_within (policy_leaves child0) ls" and ok: "\<forall>l\<in>set ls. leaf_ok l"
    and child: "refreshed Q child0 ls (child, d0)"
    and details: "policy_filled child0 \<Longrightarrow> pd_available details \<and> pd_usage details = leaf_bytes Q ls (policy_leaves child0)"
    and limit: "policy_filled child0 \<Longrightarrow> pd_limit d = None \<Longrightarrow> \<forall>limit. pd_limit details = Some limit \<longrightarrow> pd_usage details \<le> limit"
  shows "returns (settle_policy refresh Q d child details ls)
    (\<lambda>r ls'. moved Q (set (policy_leaves child0)) ls ls' \<and> refreshed Q (Policy_Details d child0) ls' r)"
proof (cases "pd_limit d")
  case None
  have "refreshed Q (Policy_Details d child0) ls (Policy_Details details child, details)"
    by (rule refreshed_Details [OF child]) (use details limit None in auto)
  then show ?thesis by (simp add: settle_policy_def None)
next
  case (Some l)
  have shape: "same_shape child = same_shape child0" using child by (simp add: refreshed_def)
  note leaves = same_shape_eq(1) [OF shape]
  show ?thesis
  proof (cases "l < pd_usage details")
    case False
    have "refreshed Q (Policy_Details d child0) ls (Policy_Details (details\<lparr>pd_limit := Some l\<rparr>) child, details\<lparr>pd_limit := Some l\<rparr>)"
      by (rule refreshed_Details [OF child]) (use details Some False in auto)
    with False show ?thesis by (simp add: settle_policy_def Some)
  next
    case True
    let ?R = "\<lambda>r ls'. moved Q (set (policy_leaves child0)) ls ls' \<and> refreshed Q (Policy_Details d child0) ls' r"
    have "returns (bind_result (returning (fit_aggregate_to Q child l True ls)) (\<lambda>_ ls.
            bind_result (refresh child ls) (\<lambda>(child, details) ls.
              if l < pd_usage details then Some (Inl (Cannot_Fit (pd_usage details) l))
              else Some (Inr ((Policy_Details (details\<lparr>pd_limit := Some l\<rparr>) child, details\<lparr>pd_limit := Some l\<rparr>), ls))))) ?R"
    proof (rule returns_bind)
      show "returns (returning (fit_aggregate_to Q child l True ls)) (\<lambda>_ ls'. moved Q (set (policy_leaves child0)) ls ls')"
        using fit_aggregate_step [OF ok, of child] within leaves by simp
      fix u ls1
      assume m: "moved Q (set (policy_leaves child0)) ls ls1"
      have within1: "leaves_within (policy_leaves child) ls1" using within leaves by (simp add: moved_within [OF m])
      have "refresh_ok child ls1 (refresh child ls1)"
        using refresh shape within1 moved_ok [OF m ok] by (simp add: refreshes_def)
      then show "returns (bind_result (refresh child ls1) (\<lambda>(child, details) ls.
              if l < pd_usage details then Some (Inl (Cannot_Fit (pd_usage details) l))
              else Some (Inr ((Policy_Details (details\<lparr>pd_limit := Some l\<rparr>) child, details\<lparr>pd_limit := Some l\<rparr>), ls)))) ?R"
        unfolding refresh_ok_def
      proof (rule returns_bind)
        fix r ls2
        assume r: "moved Q (set (policy_leaves child)) ls1 ls2 \<and> refreshed Q child ls2 r"
        obtain child2 d2 where eq: "r = (child2, d2)" by (cases r)
        have m2: "moved Q (set (policy_leaves child0)) ls ls2" using r leaves by (auto intro: moved_trans [OF m])
        have "refreshed Q child0 ls2 (child2, d2)" by (rule refreshed_trans [OF child]) (use r eq in simp)
        then have "refreshed Q (Policy_Details d child0) ls2 (Policy_Details (d2\<lparr>pd_limit := Some l\<rparr>) child2, d2\<lparr>pd_limit := Some l\<rparr>)"
          if "\<not> l < pd_usage d2"
          by (rule refreshed_Details) (use Some that \<open>refreshed Q child0 ls2 (child2, d2)\<close> in \<open>auto simp: refreshed_def\<close>)
        with m2 show "returns ((case r of (child, details) \<Rightarrow> \<lambda>ls.
              if l < pd_usage details then Some (Inl (Cannot_Fit (pd_usage details) l))
              else Some (Inr ((Policy_Details (details\<lparr>pd_limit := Some l\<rparr>) child, details\<lparr>pd_limit := Some l\<rparr>), ls))) ls2) ?R"
          by (simp add: eq)
      qed
    qed
    with True show ?thesis by (simp add: settle_policy_def Some)
  qed
qed

lemma refreshed_leaf_only: "refreshed Q t ls (Policy_Leaf k, d) \<Longrightarrow> t = Policy_Leaf k"
  by (cases t) (simp_all add: refreshed_def)

lemma policy_step_details_ok:
  assumes "refreshed Q child0 ls (child, d0)" "policy_filled child0"
  shows "pd_available (policy_step_details Q d child d0 ls)
    \<and> pd_usage (policy_step_details Q d child d0 ls) = leaf_bytes Q ls (policy_leaves child0)"
    "pd_limit d = None \<Longrightarrow> pd_limit (policy_step_details Q d child d0 ls) = Some limit \<Longrightarrow>
      pd_usage (policy_step_details Q d child d0 ls) \<le> limit"
proof -
  have leaf: "child0 = Policy_Leaf k" if "child = Policy_Leaf k" for k
    using assms(1) that refreshed_leaf_only by blast
  have kept: "pd_available d0" "pd_usage d0 = leaf_bytes Q ls (policy_leaves child0)"
    "\<And>limit. pd_limit d0 = Some limit \<Longrightarrow> pd_usage d0 \<le> limit"
    using assms unfolding refreshed_def by auto
  show "pd_available (policy_step_details Q d child d0 ls)
      \<and> pd_usage (policy_step_details Q d child d0 ls) = leaf_bytes Q ls (policy_leaves child0)"
    using kept leaf by (cases child) (simp_all add: policy_step_details_def leaf_bytes_def)
  show "pd_usage (policy_step_details Q d child d0 ls) \<le> limit"
    if "pd_limit d = None" "pd_limit (policy_step_details Q d child d0 ls) = Some limit"
    using kept that by (cases child) (simp_all add: policy_step_details_def)
qed

text \<open>Fitting the child once more changes it only when it is a leaf.\<close>

lemma fit_child_ok:
  assumes "refreshed Q child0 ls (child, d0)" "leaves_within (policy_leaves child0) ls" "\<forall>l\<in>set ls. leaf_ok l"
  shows "returns (case (limit, child) of (Some limit, Policy_Leaf k) \<Rightarrow> returning (fit_leaves Q limit [k] ls) | _ \<Rightarrow> Some (Inr ((), ls)))
    (\<lambda>_ ls'. moved Q (set (policy_leaves child0)) ls ls' \<and> (\<exists>d. refreshed Q child0 ls' (child, d) \<and>
       (\<forall>e. policy_step_details Q e child d0 ls' = policy_step_details Q e child d ls')))"
proof (cases "\<exists>k l. child = Policy_Leaf k \<and> limit = Some l")
  case True
  then obtain k l where eq: "child = Policy_Leaf k" "limit = Some l" by blast
  with assms(1) have child0: "child0 = Policy_Leaf k" using refreshed_leaf_only by blast
  have "returns (returning (fit_leaves Q l [k] ls)) (\<lambda>_ ls'. moved Q (set [k]) ls ls')"
    by (rule fit_leaves_step [OF assms(3)]) (use assms(2) child0 in simp)
  moreover have "refreshed Q (Policy_Leaf k) ls' (Policy_Leaf k, usage_details (adaptive_usage Q (ls' ! k)))" for ls'
    by (simp add: refreshed_def usage_details_def leaf_bytes_def limits_hold_def)
  ultimately show ?thesis unfolding eq child0 option.case policy.case prod.case
    by (elim returns_mono) (simp add: policy_step_details_def, blast)
next
  case False
  then show ?thesis using assms(1) by (auto split: option.split policy.split)
qed

lemma refresh_policy_ok:
  assumes child: "refreshes child refresh" and within: "leaves_within (policy_leaves child) ls" and ok: "\<forall>l\<in>set ls. leaf_ok l"
  shows "refresh_ok (Policy_Details d child) ls (refresh_policy refresh Q d child ls)"
  unfolding refresh_ok_def refresh_policy_def policy_leaves.simps
proof (rule returns_bind [where P = "\<lambda>_ ls'. moved Q (set (policy_leaves child)) ls ls'"])
  let ?ns = "set (policy_leaves child)"
  let ?R = "\<lambda>r ls'. moved Q ?ns ls ls' \<and> refreshed Q (Policy_Details d child) ls' r"
  show "returns (case pd_limit d of None \<Rightarrow> Some (Inr ((), ls)) | Some limit \<Rightarrow> returning (fit_leaves Q limit (policy_leaves child) ls))
      (\<lambda>_ ls'. moved Q ?ns ls ls')"
    using fit_leaves_step [OF ok within] by (auto split: option.split)
  fix u ls1
  assume m1: "moved Q ?ns ls ls1"
  have "refresh_ok child ls1 (refresh child ls1)"
    using child within moved_ok [OF m1 ok] by (simp add: refreshes_def moved_within [OF m1])
  then show "returns (bind_result (refresh child ls1) (\<lambda>(child, details) ls.
      bind_result (case (pd_limit d, child) of
                     (Some limit, Policy_Leaf k) \<Rightarrow> returning (fit_leaves Q limit [k] ls)
                   | _ \<Rightarrow> Some (Inr ((), ls))) (\<lambda>_ ls.
        settle_policy refresh Q d child (policy_step_details Q d child details ls) ls))) ?R"
    unfolding refresh_ok_def
  proof (rule returns_bind)
    fix r ls2
    assume r: "moved Q ?ns ls1 ls2 \<and> refreshed Q child ls2 r"
    obtain child' d' where eq: "r = (child', d')" by (cases r)
    have m2: "moved Q ?ns ls ls2" using r by (auto intro: moved_trans [OF m1])
    have within2: "leaves_within (policy_leaves child) ls2" using within by (simp add: moved_within [OF m2])
    have "returns (bind_result (case (pd_limit d, child') of
                     (Some limit, Policy_Leaf k) \<Rightarrow> returning (fit_leaves Q limit [k] ls2)
                   | _ \<Rightarrow> Some (Inr ((), ls2))) (\<lambda>_ ls.
        settle_policy refresh Q d child' (policy_step_details Q d child' d' ls) ls)) ?R"
    proof (rule returns_bind [OF fit_child_ok [OF _ within2 moved_ok [OF m2 ok]]])
      show "refreshed Q child ls2 (child', d')" using r eq by simp
    next
      fix u ls3
      assume "moved Q ?ns ls2 ls3 \<and> (\<exists>d. refreshed Q child ls3 (child', d) \<and>
        (\<forall>e. policy_step_details Q e child' d' ls3 = policy_step_details Q e child' d ls3))"
      then obtain d3 where m3: "moved Q ?ns ls2 ls3" and ref: "refreshed Q child ls3 (child', d3)"
        and same: "policy_step_details Q d child' d' ls3 = policy_step_details Q d child' d3 ls3" by blast
      have m: "moved Q ?ns ls ls3" using m3 by (auto intro: moved_trans [OF m2])
      have within3: "leaves_within (policy_leaves child) ls3" using within by (simp add: moved_within [OF m])
      have "returns (settle_policy refresh Q d child' (policy_step_details Q d child' d' ls3) ls3)
          (\<lambda>r ls'. moved Q ?ns ls3 ls' \<and> refreshed Q (Policy_Details d child) ls' r)"
        unfolding same
        by (rule settle_policy_ok [OF child within3 moved_ok [OF m ok] ref]) (use policy_step_details_ok [OF ref] in auto)
      then show "returns (settle_policy refresh Q d child' (policy_step_details Q d child' d' ls3) ls3) ?R"
        by (rule returns_mono) (auto intro: moved_trans [OF m])
    qed
    then show "returns ((case r of (child, details) \<Rightarrow> \<lambda>ls.
        bind_result (case (pd_limit d, child) of
                       (Some limit, Policy_Leaf k) \<Rightarrow> returning (fit_leaves Q limit [k] ls)
                     | _ \<Rightarrow> Some (Inr ((), ls))) (\<lambda>_ ls.
          settle_policy refresh Q d child (policy_step_details Q d child details ls) ls)) ls2) ?R"
      by (simp add: eq)
  qed
qed

lemma refresh_returns:
  assumes "policy_depth t \<le> n" "distinct (policy_leaves t)" "leaves_within (policy_leaves t) ls" "\<forall>l\<in>set ls. leaf_ok l"
  shows "refresh_ok t ls (refresh_details n Q t ls)"
  using assms
proof (induction n arbitrary: t ls)
  case 0
  then show ?case by (cases t) simp_all
next
  case (Suc n)
  show ?case
  proof (cases t)
    case (Policy_All ts)
    have depth: "policy_depth c \<le> n" if "c \<in> set ts" for c
      using Suc.prems(1) depth_child [OF that] unfolding Policy_All by linarith
    have "returns (each_child (refresh_details n Q) ts ls)
        (\<lambda>rs ls'. moved Q (set (concat (map policy_leaves ts))) ls ls' \<and> list_all2 (\<lambda>t r. refreshed Q t ls' r) ts rs)"
    proof (rule returns_each_child [where H = "refreshed Q"])
      fix c ls
      assume c: "c \<in> set ts" and *: "leaves_within (policy_leaves c) ls" "\<forall>l\<in>set ls. leaf_ok l"
      have "distinct (policy_leaves c)" using Suc.prems(2) c unfolding Policy_All by (simp add: distinct_concat_iff)
      then show "returns (refresh_details n Q c ls) (\<lambda>a ls'. moved Q (set (policy_leaves c)) ls ls' \<and> refreshed Q c ls' a)"
        using Suc.IH [OF depth [OF c] _ *] by (simp add: refresh_ok_def)
    next
      show "refreshed Q c ls' r" if "\<And>k. k \<in> set (policy_leaves c) \<Longrightarrow> ls' ! k = ls ! k" "refreshed Q c ls r" for c r ls ls'
        by (rule refreshed_frame [OF that])
    qed (use Suc.prems(2-4) Policy_All in auto)
    then show ?thesis unfolding Policy_All refresh_ok_def refresh_details.simps
      by (rule returns_bind) (auto intro: refreshed_All)
  next
    case (Policy_Inspect child)
    have "refresh_ok child ls (refresh_details n Q child ls)"
      by (rule Suc.IH) (use Suc.prems Policy_Inspect in auto)
    then show ?thesis unfolding Policy_Inspect refresh_ok_def refresh_details.simps
      by (rule returns_bind) (auto simp: refreshed_def limits_hold_def)
  next
    case (Policy_Details d child)
    have "refreshes child (refresh_details n Q)" unfolding refreshes_def
    proof (intro allI impI)
      fix c ls
      assume c: "same_shape c = same_shape child" and *: "leaves_within (policy_leaves c) ls" "\<forall>l\<in>set ls. leaf_ok l"
      show "refresh_ok c ls (refresh_details n Q c ls)"
        by (rule Suc.IH [OF _ _ *]) (use same_shape_eq [OF c] Suc.prems(1,2) Policy_Details in auto)
    qed
    then show ?thesis unfolding Policy_Details refresh_details.simps
      by (rule refresh_policy_ok) (use Suc.prems(3,4) Policy_Details in auto)
  next
    case (Policy_Leaf k)
    then show ?thesis using refresh_ok_leaf by simp
  qed (simp_all add: refresh_ok_def refreshed_def limits_hold_def)
qed

end

end
