(* ===== verification/Lossy_Compile.thy ===== *)
theory Lossy_Compile
  imports Lossy_Enforcement
begin

text \<open>
  Compiling the policies of a schema and enforcing them: each rule below a policy becomes a leaf, the leaves below
  each policy keep its limit from the step that compiles it to the end of the build, and the rules of a tree are never
  more than coarsened, however compilation, pressure and insertions interleave.
\<close>

section \<open>Schemas\<close>

text \<open>The rules of a schema, the rules below its policies, and the policies with the rules below each.\<close>

fun policy_rules :: "'r policy \<Rightarrow> 'r list" where
  "policy_rules (Policy_All children) = concat (map policy_rules children)"
| "policy_rules (Policy_Inspect child) = policy_rules child"
| "policy_rules (Policy_Details d child) = policy_rules child"
| "policy_rules (Policy_Lossy options child) = policy_rules child"
| "policy_rules (Policy_Leaf n) = []"
| "policy_rules (Policy_Rule r) = [r]"

fun lossy_rules :: "'r policy \<Rightarrow> 'r list" where
  "lossy_rules (Policy_All children) = concat (map lossy_rules children)"
| "lossy_rules (Policy_Inspect child) = lossy_rules child"
| "lossy_rules (Policy_Lossy options child) = policy_rules child"
| "lossy_rules t = []"

fun lossy_parts :: "'r policy \<Rightarrow> (lossy_option list \<times> 'r list) list" where
  "lossy_parts (Policy_All children) = concat (map lossy_parts children)"
| "lossy_parts (Policy_Inspect child) = lossy_parts child"
| "lossy_parts (Policy_Lossy options child) = (options, policy_rules child) # lossy_parts child"
| "lossy_parts t = []"

text \<open>A schema as the constructors give it, and no \<open>All\<close> below a policy is empty.\<close>

fun schema_filled :: "'r policy \<Rightarrow> bool" where
  "schema_filled (Policy_All children) \<longleftrightarrow> children \<noteq> [] \<and> list_all schema_filled children"
| "schema_filled (Policy_Inspect child) \<longleftrightarrow> schema_filled child"
| "schema_filled (Policy_Lossy options child) \<longleftrightarrow> schema_filled child"
| "schema_filled (Policy_Rule r) \<longleftrightarrow> True"
| "schema_filled t \<longleftrightarrow> False"

fun plain_schema :: "'r policy \<Rightarrow> bool" where
  "plain_schema (Policy_All children) \<longleftrightarrow> list_all plain_schema children"
| "plain_schema (Policy_Inspect child) \<longleftrightarrow> plain_schema child"
| "plain_schema (Policy_Lossy options child) \<longleftrightarrow> schema_filled child"
| "plain_schema (Policy_Rule r) \<longleftrightarrow> True"
| "plain_schema t \<longleftrightarrow> False"

abbreviation coarser_rule :: "'r rule_ops \<Rightarrow> 'r \<Rightarrow> 'r adaptive_leaf \<Rightarrow> bool" where
  "coarser_rule Q r l \<equiv> coarser Q \<lparr>al_child = r, al_approximate = False\<rparr> l"

lemma validate_policies_parts:
  "validate_policies t = None \<longleftrightarrow> list_all (\<lambda>part. \<exists>limit. validate_policy (fst part) = Inr limit) (lossy_parts t)"
proof (induction t rule: lossy_parts.induct)
  case (1 children)
  have "foldr (\<lambda>child rest. case validate_policies child of Some e \<Rightarrow> Some e | None \<Rightarrow> rest) ts None = None
      \<longleftrightarrow> list_all (\<lambda>t. validate_policies t = None) ts" for ts :: "'a policy list"
    by (induction ts) (auto split: option.split)
  with 1 show ?case by (auto simp: list_all_iff)
qed (auto split: sum.split)

text \<open>Each policy of the schema has its limit, or a lower one, in the compiled tree.\<close>

definition part_limited :: "'r rule_ops \<Rightarrow> 'r adaptive_leaf list \<Rightarrow> 'r policy \<Rightarrow> lossy_option list \<times> 'r list \<Rightarrow> bool" where
  "part_limited Q ls t' part \<longleftrightarrow>
     (\<exists>ns limit own. validate_policy (fst part) = Inr limit \<and> (ns, own) \<in> set (tree_limits t') \<and> own \<le> limit
        \<and> distinct ns \<and> list_all2 (\<lambda>r n. coarser_rule Q r (ls ! n)) (snd part) ns)"

definition parts_limited :: "'r rule_ops \<Rightarrow> 'r policy \<Rightarrow> 'r policy \<Rightarrow> 'r adaptive_leaf list \<Rightarrow> bool" where
  "parts_limited Q t t' ls \<longleftrightarrow> list_all (part_limited Q ls t') (lossy_parts t)"

lemma part_limited_mono:
  assumes "part_limited Q ls t' part"
    and leaves: "\<And>n. n \<in> set (policy_leaves t') \<Longrightarrow> coarser Q (ls ! n) (ls' ! n)"
    and limits: "\<And>ns own. (ns, own) \<in> set (tree_limits t') \<Longrightarrow> \<exists>own'\<le>own. (ns, own') \<in> set (tree_limits t'')"
  shows "part_limited Q ls' t'' part"
proof -
  obtain ns limit own where *: "validate_policy (fst part) = Inr limit" "(ns, own) \<in> set (tree_limits t')" "own \<le> limit"
    "distinct ns" "list_all2 (\<lambda>r n. coarser_rule Q r (ls ! n)) (snd part) ns"
    using assms(1) unfolding part_limited_def by blast
  from limits [OF *(2)] obtain own' where own': "own' \<le> own" "(ns, own') \<in> set (tree_limits t'')" by blast
  have ns: "set ns \<subseteq> set (policy_leaves t')" by (rule tree_limits_leaves [OF *(2)])
  have "list_all2 (\<lambda>r n. coarser_rule Q r (ls' ! n)) (snd part) ns"
    by (rule list.rel_mono_strong [OF *(5)]) (use ns leaves coarser_trans in blast)
  with own' * show ?thesis unfolding part_limited_def by (meson order_trans)
qed

lemma parts_limited_mono:
  assumes "parts_limited Q t t' ls"
    and "\<And>n. n \<in> set (policy_leaves t') \<Longrightarrow> coarser Q (ls ! n) (ls' ! n)"
    and "\<And>ns own. (ns, own) \<in> set (tree_limits t') \<Longrightarrow> \<exists>own'\<le>own. (ns, own') \<in> set (tree_limits t'')"
  shows "parts_limited Q t t'' ls'"
  using assms(1) part_limited_mono [OF _ assms(2,3)] unfolding parts_limited_def list_all_iff by blast

text \<open>A step that keeps the limits of a tree and only makes its leaves coarser.\<close>

definition limits_kept :: "'r rule_ops \<Rightarrow> 'r policy \<Rightarrow> 'r adaptive_leaf list \<Rightarrow> 'r policy \<Rightarrow> 'r adaptive_leaf list \<Rightarrow> bool" where
  "limits_kept Q t ls t' ls' \<longleftrightarrow>
     set (tree_limits t) \<subseteq> set (tree_limits t') \<and> (\<forall>n\<in>set (policy_leaves t). coarser Q (ls ! n) (ls' ! n))"

lemma limits_kept_refl [simp]: "limits_kept Q t ls t ls"
  by (simp add: limits_kept_def coarser_def)

lemma parts_limited_kept: "parts_limited Q t t' ls \<Longrightarrow> limits_kept Q t' ls t'' ls' \<Longrightarrow> parts_limited Q t t'' ls'"
  by (rule parts_limited_mono) (auto simp: limits_kept_def)

text \<open>
  What becomes of the policies in a step of a build: once they are compiled their limits stay; a step that compiles
  them gives each its limit.
\<close>

definition policies_carried ::
  "'r rule_ops \<Rightarrow> bool \<Rightarrow> 'r policy \<Rightarrow> 'r adaptive_leaf list \<Rightarrow> bool \<Rightarrow> 'r policy \<Rightarrow> 'r adaptive_leaf list \<Rightarrow> bool" where
  "policies_carried Q streaming t ls streaming' t' ls' \<longleftrightarrow>
     (if streaming then streaming' \<and> limits_kept Q t ls t' ls'
      else if streaming' then parts_limited Q t t' ls' else t' = t)"

lemma policies_carried_refl [simp]: "policies_carried Q streaming t ls streaming t ls"
  by (simp add: policies_carried_def)

lemma policies_carried_kept:
  assumes "policies_carried Q streaming t ls True t1 ls1" "limits_kept Q t1 ls1 t2 ls2" "streaming \<Longrightarrow> t1 = t \<and> ls1 = ls"
  shows "policies_carried Q streaming t ls True t2 ls2"
  using assms parts_limited_kept [OF _ assms(2)] by (auto simp: policies_carried_def)

lemma clamp_shape [simp]: "same_shape (clamp_limits limit t) = same_shape t"
  by (induction limit t rule: clamp_limits.induct) (simp_all add: Let_def)

lemma clamp_limits_lower:
  "(ns, own) \<in> set (tree_limits t) \<Longrightarrow> \<exists>own'\<le>own. (ns, own') \<in> set (tree_limits (clamp_limits limit t))"
proof (induction limit t rule: clamp_limits.induct)
  case (1 limit children)
  then obtain x where x: "x \<in> set children" "(ns, own) \<in> set (tree_limits x)" by auto
  from "1.IH" [OF x] obtain own' where "own' \<le> own" "(ns, own') \<in> set (tree_limits (clamp_limits limit x))" by blast
  with x(1) show ?case by auto
next
  case (3 limit d child)
  have leaves: "policy_leaves (clamp_limits l child) = policy_leaves child" for l by (rule same_shape_eq(1)) simp
  show ?case
  proof (cases "(ns, own) \<in> set (tree_limits child)")
    case True
    with "3.IH" [OF refl] show ?thesis by (fastforce simp: Let_def)
  next
    case False
    with "3.prems" have "pd_limit d = Some own" "ns = policy_leaves child" by (auto split: option.splits)
    then show ?thesis by (auto simp: Let_def leaves intro: exI [of _ "min own limit"])
  qed
qed auto

section \<open>The rules of a tree\<close>

text \<open>A rule after some of its transitions, and the rules that a tree stands for, in order.\<close>

definition rule_coarser :: "'r rule_ops \<Rightarrow> 'r \<Rightarrow> 'r \<Rightarrow> bool" where
  "rule_coarser Q = (\<lambda>r r'. ro_first Q r = Some r' \<or> ro_next Q r = Some r')\<^sup>*\<^sup>*"

fun tree_rules :: "'r adaptive_leaf list \<Rightarrow> 'r policy \<Rightarrow> 'r list" where
  "tree_rules ls (Policy_All children) = concat (map (tree_rules ls) children)"
| "tree_rules ls (Policy_Inspect child) = tree_rules ls child"
| "tree_rules ls (Policy_Details d child) = tree_rules ls child"
| "tree_rules ls (Policy_Lossy options child) = policy_rules child"
| "tree_rules ls (Policy_Leaf n) = [al_child (ls ! n)]"
| "tree_rules ls (Policy_Rule r) = [r]"

lemma rule_coarser_refl [simp]: "rule_coarser Q r r"
  by (simp add: rule_coarser_def)

lemma rule_coarser_trans: "rule_coarser Q a b \<Longrightarrow> rule_coarser Q b c \<Longrightarrow> rule_coarser Q a c"
  unfolding rule_coarser_def by (rule rtranclp_trans)

lemma adaptive_next_rule:
  assumes "adaptive_next Q l = Some l'"
  shows "ro_first Q (al_child l) = Some (al_child l') \<or> ro_next Q (al_child l) = Some (al_child l')"
proof (cases "if al_approximate l then None else ro_first Q (al_child l)")
  case None
  then show ?thesis using assms by (auto simp: adaptive_next_def)
next
  case (Some r)
  then show ?thesis using assms by (auto simp: adaptive_next_def split: if_splits)
qed

lemma coarser_rule_coarser: "coarser Q l l' \<Longrightarrow> rule_coarser Q (al_child l) (al_child l')"
  unfolding coarser_def
proof (induction rule: rtranclp_induct)
  case (step b c)
  from step.IH adaptive_next_rule [OF step.hyps(2)] show ?case unfolding rule_coarser_def by (rule rtranclp.rtrancl_into_rtrancl)
qed simp

lemma rules_coarser_refl: "list_all2 (rule_coarser Q) rs rs"
  by (simp add: list.rel_refl)

lemma rules_coarser_trans: "list_all2 (rule_coarser Q) rs rs' \<Longrightarrow> list_all2 (rule_coarser Q) rs' rs'' \<Longrightarrow> list_all2 (rule_coarser Q) rs rs''"
  by (rule list_all2_trans [OF rule_coarser_trans])

lemma tree_rules_shape:
  assumes "same_shape t' = same_shape t"
  shows "tree_rules ls t' = tree_rules ls t"
proof -
  have "tree_rules ls (same_shape t) = tree_rules ls t" for t :: "'a policy"
    by (induction t rule: same_shape.induct) (auto intro!: arg_cong [where f = concat])
  then show ?thesis using assms by metis
qed

lemma tree_rules_coarser:
  "(\<And>n. n \<in> set (policy_leaves t) \<Longrightarrow> coarser Q (ls ! n) (ls' ! n)) \<Longrightarrow> list_all2 (rule_coarser Q) (tree_rules ls t) (tree_rules ls' t)"
proof (induction t rule: policy_leaves.induct)
  case (1 children)
  have "list_all2 (rule_coarser Q) (tree_rules ls x) (tree_rules ls' x)" if "x \<in> set children" for x
    by (rule 1(1) [OF that]) (use 1(2) that in auto)
  then have "list_all2 (list_all2 (rule_coarser Q)) (map (tree_rules ls) children) (map (tree_rules ls') children)"
    by (simp add: list_all2_conv_all_nth [of "list_all2 (rule_coarser Q)"])
  then show ?case by (simp add: concat_transfer [THEN rel_funD])
qed (auto simp: rules_coarser_refl coarser_rule_coarser)

lemma tree_rules_frame: "(\<And>n. n \<in> set (policy_leaves t) \<Longrightarrow> ls' ! n = ls ! n) \<Longrightarrow> tree_rules ls' t = tree_rules ls t"
proof (induction t rule: policy_leaves.induct)
  case (1 children)
  have "tree_rules ls' x = tree_rules ls x" if "x \<in> set children" for x
    by (rule 1(1) [OF that]) (use 1(2) that in auto)
  then show ?case by (simp cong: map_cong)
qed auto

lemma schema_tree_rules: "schema_filled t \<Longrightarrow> tree_rules ls t = policy_rules t"
  by (induction t rule: schema_filled.induct) (auto simp: list_all_iff intro!: arg_cong [where f = concat])

lemma plain_tree_rules: "plain_schema t \<Longrightarrow> tree_rules ls t = policy_rules t"
  by (induction t rule: plain_schema.induct) (auto simp: list_all_iff schema_tree_rules intro!: arg_cong [where f = concat])

lemma filled_tree_rules: "policy_filled t \<Longrightarrow> tree_rules ls t = map (\<lambda>n. al_child (ls ! n)) (policy_leaves t)"
  by (induction t rule: policy_filled.induct) (auto simp: list_all_iff map_concat intro!: arg_cong [where f = concat])

text \<open>A tree whose policies are compiled, and how the leaves of such a tree fill the store.\<close>

fun compiled_tree :: "'r policy \<Rightarrow> bool" where
  "compiled_tree (Policy_All children) \<longleftrightarrow> list_all compiled_tree children"
| "compiled_tree (Policy_Inspect child) \<longleftrightarrow> compiled_tree child"
| "compiled_tree (Policy_Details d child) \<longleftrightarrow> policy_filled child"
| "compiled_tree (Policy_Lossy options child) \<longleftrightarrow> False"
| "compiled_tree t \<longleftrightarrow> True"

lemma compiled_tree_limits: "compiled_tree t \<Longrightarrow> limits_filled t"
  by (induction t rule: compiled_tree.induct) (auto simp: list_all_iff)

lemma policy_filled_compiled: "policy_filled t \<Longrightarrow> compiled_tree t"
  by (induction t rule: policy_filled.induct) (auto simp: list_all_iff)

lemma compiled_tree_shape: "same_shape t' = same_shape t \<Longrightarrow> compiled_tree t' = compiled_tree t"
proof -
  have "compiled_tree (same_shape t) = compiled_tree t" for t :: "'a policy"
    by (induction t rule: same_shape.induct) (auto simp: list_all_iff policy_filled_shape)
  then show "same_shape t' = same_shape t \<Longrightarrow> compiled_tree t' = compiled_tree t" by metis
qed

lemma leaves_within_mono: "leaves_within ns ls \<Longrightarrow> set ms \<subseteq> set ns \<Longrightarrow> length ls \<le> length ls' \<Longrightarrow> leaves_within ms ls'"
  by (fastforce simp: leaves_within_def)

definition store_full :: "'r policy \<Rightarrow> 'r adaptive_leaf list \<Rightarrow> bool" where
  "store_full t ls \<longleftrightarrow> mset (policy_leaves t) = mset [0..<length ls]"

lemma store_full_leaves:
  assumes "store_full t ls"
  shows "distinct (policy_leaves t)" "leaves_within (policy_leaves t) ls" "set (policy_leaves t) = {..<length ls}"
proof -
  note same = assms [unfolded store_full_def]
  show "distinct (policy_leaves t)" using mset_eq_imp_distinct_iff [OF same] by simp
  show "set (policy_leaves t) = {..<length ls}" using mset_eq_setD [OF same] by (simp add: lessThan_atLeast0)
  then show "leaves_within (policy_leaves t) ls" by (simp add: leaves_within_def)
qed

lemma leaf_in_rules: "n \<in> set (policy_leaves t) \<Longrightarrow> al_child (ls ! n) \<in> set (tree_rules ls t)"
  by (induction t rule: policy_leaves.induct) auto

lemma each_child_same: "(\<And>t. t \<in> set ts \<Longrightarrow> f t ls = Some (Inr (t, ls))) \<Longrightarrow> each_child f ts ls = Some (Inr (ts, ls))"
  by (induction ts) (simp_all add: bind_result_def)

lemma compile_compiled: "compiled_tree t \<Longrightarrow> compile_lossy_rules Q t ls = Some (Inr (t, ls))"
proof (induction t rule: compiled_tree.induct)
  case (1 children)
  then have "each_child (compile_lossy_rules Q) children ls = Some (Inr (children, ls))"
    by (intro each_child_same) (auto simp: list_all_iff)
  then show ?case by (simp add: bind_result_def)
qed (simp_all add: bind_result_def)

lemma wrap_filled: "policy_filled t \<Longrightarrow> wrap_leaves Q t ls = Some (Inr (t, ls))"
proof (induction t rule: policy_filled.induct)
  case (1 children)
  then have "each_child (wrap_leaves Q) children ls = Some (Inr (children, ls))"
    by (intro each_child_same) (auto simp: list_all_iff)
  then show ?case by (simp add: bind_result_def)
qed (simp_all add: bind_result_def)

text \<open>Wrapping the remaining rules adds leaves for them, and leaves the rules of the tree as they are.\<close>

definition wrapped :: "'r policy \<Rightarrow> 'r adaptive_leaf list \<Rightarrow> 'r policy \<Rightarrow> 'r adaptive_leaf list \<Rightarrow> bool" where
  "wrapped t ls t' ls' \<longleftrightarrow>
     (\<exists>added. ls' = ls @ added) \<and> mset (policy_leaves t') = mset (policy_leaves t) + mset [length ls..<length ls']
     \<and> compiled_tree t' \<and> tree_rules ls' t' = tree_rules ls t \<and> set (tree_limits t) \<subseteq> set (tree_limits t')"

lemma wrapped_kept:
  assumes "wrapped t ls t' ls'" "leaves_within (policy_leaves t) ls"
  shows "limits_kept Q t ls t' ls'"
  using assms by (auto simp: wrapped_def limits_kept_def leaves_within_def nth_append coarser_def)

lemma wrapped_leaves:
  assumes "wrapped t ls t' ls'" "leaves_within (policy_leaves t) ls"
  shows "leaves_within (policy_leaves t') ls'"
proof -
  have "set (policy_leaves t') = set (policy_leaves t) \<union> {length ls..<length ls'}"
    using assms(1) unfolding wrapped_def by (metis atLeastLessThan_upt mset_append mset_eq_setD set_append)
  moreover have "length ls \<le> length ls'" using assms(1) by (auto simp: wrapped_def)
  ultimately show ?thesis using assms(2) by (auto simp: leaves_within_def)
qed

lemma wrap_children:
  assumes "\<And>t ls. t \<in> set ts \<Longrightarrow> leaves_within (policy_leaves t) ls \<Longrightarrow> returns (f t ls) (wrapped t ls)"
    and "leaves_within (policy_leaves (Policy_All ts)) ls"
  shows "returns (each_child f ts ls) (\<lambda>ts'. wrapped (Policy_All ts) ls (Policy_All ts'))"
  using assms
proof (induction ts arbitrary: ls)
  case Nil
  then show ?case by (simp add: wrapped_def)
next
  case (Cons t ts)
  show ?case unfolding each_child.simps
  proof (rule returns_bind)
    show "returns (f t ls) (wrapped t ls)" using Cons.prems by (simp add: leaves_within_def)
    fix t' ls1
    assume t': "wrapped t ls t' ls1"
    have grown: "length ls \<le> length ls1" using t' by (auto simp: wrapped_def)
    have within: "leaves_within (policy_leaves (Policy_All ts)) ls1" "leaves_within (policy_leaves t') ls1"
      using leaves_within_mono [OF Cons.prems(2) _ grown] wrapped_leaves [OF t' leaves_within_mono [OF Cons.prems(2)]] by auto
    have "returns (each_child f ts ls1) (\<lambda>ts'. wrapped (Policy_All ts) ls1 (Policy_All ts'))"
      by (rule Cons.IH [OF Cons.prems(1) within(1)]) auto
    then show "returns (bind_result (each_child f ts ls1) (\<lambda>as ls. Some (Inr (t' # as, ls)))) (\<lambda>ts'. wrapped (Policy_All (t # ts)) ls (Policy_All ts'))"
    proof (rule returns_bind)
      fix ts' ls2
      assume ts': "wrapped (Policy_All ts) ls1 (Policy_All ts') ls2"
      obtain a b where ab: "ls1 = ls @ a" "ls2 = ls1 @ b" using t' ts' by (auto simp: wrapped_def)
      have "tree_rules ls2 t' = tree_rules ls1 t'"
        by (rule tree_rules_frame) (use within(2) ab(2) in \<open>auto simp: leaves_within_def nth_append\<close>)
      moreover have "tree_rules ls1 (Policy_All ts) = tree_rules ls (Policy_All ts)"
        by (rule tree_rules_frame) (use Cons.prems(2) ab(1) in \<open>auto simp: leaves_within_def nth_append\<close>)
      moreover have "[length ls..<length ls2] = [length ls..<length ls1] @ [length ls1..<length ls2]"
        using ab upt_add_eq_append [of "length ls" "length ls1" "length b"] by (simp add: add.assoc)
      then have "mset [length ls..<length ls1] + mset [length ls1..<length ls2] = mset [length ls..<length ls2]"
        by (simp only: mset_append)
      then have "mset (policy_leaves t') + mset (policy_leaves (Policy_All ts'))
          = mset (policy_leaves t) + mset (policy_leaves (Policy_All ts)) + mset [length ls..<length ls2]"
        using t' ts' by (simp add: wrapped_def add_ac)
      ultimately show "returns (Some (Inr (t' # ts', ls2))) (\<lambda>ts'. wrapped (Policy_All (t # ts)) ls (Policy_All ts'))"
        using t' ts' ab by (auto simp: wrapped_def)
    qed
  qed
qed

lemma wrap_leaves_ok:
  assumes "compiled_tree t" "leaves_within (policy_leaves t) ls"
  shows "returns (wrap_leaves Q t ls) (wrapped t ls)"
  using assms
proof (induction t arbitrary: ls)
  case (Policy_All children)
  have "returns (each_child (wrap_leaves Q) children ls) (\<lambda>ts'. wrapped (Policy_All children) ls (Policy_All ts'))"
    by (rule wrap_children) (use Policy_All in \<open>auto simp: list_all_iff\<close>)
  then show ?case unfolding wrap_leaves.simps by (rule returns_bind) simp
next
  case (Policy_Inspect child)
  then have "returns (wrap_leaves Q child ls) (wrapped child ls)" by simp
  then show ?case unfolding wrap_leaves.simps by (rule returns_bind) (simp add: wrapped_def)
next
  case (Policy_Details d child)
  then show ?case by (simp add: wrap_filled bind_result_def wrapped_def policy_filled_compiled)
next
  case (Policy_Rule r)
  then show ?case by (simp add: wrapped_def nth_append)
qed (simp_all add: wrapped_def)

lemma unwrap_rules: "policy_rules (unwrap_leaves ls t) = tree_rules ls t"
  by (induction ls t rule: unwrap_leaves.induct) (auto intro!: arg_cong [where f = concat])

lemma schema_no_leaves: "schema_filled t \<Longrightarrow> policy_leaves t = []"
  by (induction t) (auto simp: list_all_iff)

lemma plain_no_leaves: "plain_schema t \<Longrightarrow> policy_leaves t = []"
  by (induction t) (auto simp: list_all_iff)

lemma lossy_rules_subset: "set (lossy_rules t) \<subseteq> set (policy_rules t)"
  by (induction t) auto

context streaming_rules
begin

section \<open>Compiling\<close>

text \<open>Compiling rules \<open>rs\<close> adds a leaf for each, coarser than the rule, and gives them the numbers \<open>ns\<close>.\<close>

definition compiled :: "'r list \<Rightarrow> nat list \<Rightarrow> 'r adaptive_leaf list \<Rightarrow> 'r adaptive_leaf list \<Rightarrow> bool" where
  "compiled rs ns ls ls' \<longleftrightarrow>
     ns = [length ls..<length ls'] \<and> (\<forall>l\<in>set ls'. leaf_ok l) \<and> (\<exists>added. ls' = ls @ added \<and> list_all2 (coarser_rule Q) rs added)"

lemma compiled_refl: "\<forall>l\<in>set ls. leaf_ok l \<Longrightarrow> compiled [] [] ls ls"
  by (simp add: compiled_def)

lemma compiled_append:
  assumes "compiled rs ns ls ls1" "compiled rs' ns' ls1 ls2"
  shows "compiled (rs @ rs') (ns @ ns') ls ls2"
proof -
  from assms(1) obtain a where a: "ls1 = ls @ a" "list_all2 (coarser_rule Q) rs a" "ns = [length ls..<length ls1]"
    by (auto simp: compiled_def)
  from assms(2) obtain b where b: "ls2 = ls1 @ b" "list_all2 (coarser_rule Q) rs' b" "ns' = [length ls1..<length ls2]" "\<forall>l\<in>set ls2. leaf_ok l"
    by (auto simp: compiled_def)
  have "ns @ ns' = [length ls..<length ls2]" 
    using a(1,3) b(1,3) upt_add_eq_append [of "length ls" "length ls1" "length b"] by (simp add: add.assoc)
  moreover have "list_all2 (coarser_rule Q) (rs @ rs') (a @ b)" using a(2) b(2) by (rule list_all2_appendI)
  ultimately show ?thesis unfolding compiled_def using a(1) b(1,4) by simp
qed

lemma compiled_rule: "\<forall>l\<in>set ls. leaf_ok l \<Longrightarrow> ok r \<Longrightarrow> compiled [r] [length ls] ls (ls @ [\<lparr>al_child = r, al_approximate = False\<rparr>])"
  by (auto simp: compiled_def leaf_ok_def coarser_def)

lemma compiled_moved:
  assumes "compiled rs ns ls ls1" "moved Q (set ns) ls1 ls2"
  shows "compiled rs ns ls ls2"
proof -
  from assms(1) obtain a where a: "ls1 = ls @ a" "list_all2 (coarser_rule Q) rs a" "ns = [length ls..<length ls1]" "\<forall>l\<in>set ls1. leaf_ok l"
    by (auto simp: compiled_def)
  have len: "length ls2 = length ls1" using assms(2) by (simp add: moved_def)
  define b where "b = drop (length ls) ls2"
  have "take (length ls) ls2 = ls"
    by (rule nth_equalityI) (use assms(2) a(1,3) len in \<open>auto simp: moved_def nth_append\<close>)
  then have ls2: "ls2 = ls @ b" using append_take_drop_id [of "length ls" ls2] by (simp add: b_def)
  have "list_all2 (coarser_rule Q) rs b" unfolding list_all2_conv_all_nth
  proof (intro conjI allI impI)
    show lens: "length rs = length b" using a(1,2) len list_all2_lengthD [OF a(2)] by (simp add: b_def)
    fix i assume i: "i < length rs"
    have "coarser_rule Q (rs ! i) (a ! i)" using a(2) i by (simp add: list_all2_conv_all_nth)
    moreover have "coarser Q (a ! i) (b ! i)"
      using assms(2) i lens list_all2_lengthD [OF a(2)] unfolding moved_def a(1) ls2 by (auto dest: spec [of _ "length ls + i"])
    ultimately show "coarser_rule Q (rs ! i) (b ! i)" by (rule coarser_trans)
  qed
  then show ?thesis unfolding compiled_def using a(3) len ls2 moved_ok [OF assms(2) a(4)] by auto
qed

definition compile_ok ::
  "('r policy \<Rightarrow> 'r list) \<Rightarrow> ('r policy \<Rightarrow> bool) \<Rightarrow> 'r policy \<Rightarrow> 'r adaptive_leaf list \<Rightarrow> 'r policy \<Rightarrow> 'r adaptive_leaf list \<Rightarrow> bool" where
  "compile_ok rules filled t ls t' ls' \<longleftrightarrow>
     compiled (rules t) (policy_leaves t') ls ls' \<and> filled t' \<and> parts_limited Q t t' ls'
     \<and> list_all2 (rule_coarser Q) (policy_rules t) (tree_rules ls' t')"

lemma returns_compile_children:
  assumes "\<And>t ls. t \<in> set ts \<Longrightarrow> \<forall>l\<in>set ls. leaf_ok l \<Longrightarrow> returns (f t ls) (compile_ok rules filled t ls)" "\<forall>l\<in>set ls. leaf_ok l"
  shows "returns (each_child f ts ls) (\<lambda>ts' ls'.
    compiled (concat (map rules ts)) (concat (map policy_leaves ts')) ls ls' \<and> length ts' = length ts \<and> list_all filled ts'
    \<and> parts_limited Q (Policy_All ts) (Policy_All ts') ls'
    \<and> list_all2 (rule_coarser Q) (policy_rules (Policy_All ts)) (tree_rules ls' (Policy_All ts')))"
  using assms
proof (induction ts arbitrary: ls)
  case Nil
  then show ?case by (simp add: compiled_refl parts_limited_def)
next
  case (Cons t ts)
  let ?G = "\<lambda>ts ls ts' ls'. compiled (concat (map rules ts)) (concat (map policy_leaves ts')) ls ls' \<and> length ts' = length ts \<and> list_all filled ts'
    \<and> parts_limited Q (Policy_All ts) (Policy_All ts') ls'
    \<and> list_all2 (rule_coarser Q) (policy_rules (Policy_All ts)) (tree_rules ls' (Policy_All ts'))"
  show ?case unfolding each_child.simps
  proof (rule returns_bind)
    show "returns (f t ls) (compile_ok rules filled t ls)" by (rule Cons.prems(1)) (use Cons.prems(2) in simp_all)
    fix t' ls1
    assume t': "compile_ok rules filled t ls t' ls1"
    then have ok1: "\<forall>l\<in>set ls1. leaf_ok l" by (simp add: compile_ok_def compiled_def)
    have "returns (each_child f ts ls1) (?G ts ls1)" by (rule Cons.IH [OF Cons.prems(1) ok1]) auto
    then show "returns (bind_result (each_child f ts ls1) (\<lambda>as ls. Some (Inr (t' # as, ls)))) (?G (t # ts) ls)"
    proof (rule returns_bind)
      fix ts' ls2
      assume g: "?G ts ls1 ts' ls2"
      have "parts_limited Q t (Policy_All (t' # ts')) ls2"
      proof (rule parts_limited_mono)
        show "parts_limited Q t t' ls1" using t' by (simp add: compile_ok_def)
        show "coarser Q (ls1 ! n) (ls2 ! n)" if "n \<in> set (policy_leaves t')" for n
          using that t' g by (auto simp: compile_ok_def compiled_def nth_append coarser_def)
        show "\<exists>own'\<le>own. (ns, own') \<in> set (tree_limits (Policy_All (t' # ts')))" if "(ns, own) \<in> set (tree_limits t')" for ns own
          using that by auto
      qed
      moreover have "parts_limited Q (Policy_All ts) (Policy_All (t' # ts')) ls2"
        by (rule parts_limited_mono [of Q _ "Policy_All ts'" ls2]) (use g in \<open>auto simp: coarser_def\<close>)
      ultimately have "parts_limited Q (Policy_All (t # ts)) (Policy_All (t' # ts')) ls2" by (simp add: parts_limited_def)
      moreover have "tree_rules ls2 t' = tree_rules ls1 t'"
        by (rule tree_rules_frame) (use t' g in \<open>auto simp: compile_ok_def compiled_def nth_append\<close>)
      then have "list_all2 (rule_coarser Q) (policy_rules (Policy_All (t # ts))) (tree_rules ls2 (Policy_All (t' # ts')))"
        using t' g by (auto simp: compile_ok_def intro!: list_all2_appendI)
      ultimately show "returns (Some (Inr (t' # ts', ls2))) (?G (t # ts) ls)"
        using g t' compiled_append [of "rules t" "policy_leaves t'" ls ls1] by (simp add: compile_ok_def)
    qed
  qed
qed

lemma compile_ok_all:
  assumes "returns m (\<lambda>ts' ls'. compiled (concat (map rules ts)) (concat (map policy_leaves ts')) ls ls' \<and> length ts' = length ts
      \<and> list_all filled ts' \<and> parts_limited Q (Policy_All ts) (Policy_All ts') ls'
      \<and> list_all2 (rule_coarser Q) (policy_rules (Policy_All ts)) (tree_rules ls' (Policy_All ts')))"
    and "rules (Policy_All ts) = concat (map rules ts)"
    and "\<And>ts'. length ts' = length ts \<Longrightarrow> list_all filled ts' \<Longrightarrow> filled (Policy_All ts')"
  shows "returns (bind_result m (\<lambda>ts ls. Some (Inr (Policy_All ts, ls)))) (compile_ok rules filled (Policy_All ts) ls)"
  by (rule returns_bind [OF assms(1)]) (use assms(2,3) in \<open>simp add: compile_ok_def\<close>)

lemma compile_ok_cong:
  assumes "compile_ok rules filled t ls t' ls'" "rules u = rules t" "policy_leaves u' = policy_leaves t'" "filled u'"
    and "lossy_parts u = lossy_parts t" "set (tree_limits t') \<subseteq> set (tree_limits u')"
    and "policy_rules u = policy_rules t" "tree_rules ls' u' = tree_rules ls' t'"
  shows "compile_ok rules filled u ls u' ls'"
proof -
  have "parts_limited Q t u' ls'"
    by (rule parts_limited_mono [of Q t t' ls']) (use assms(1,6) in \<open>auto simp: compile_ok_def coarser_def\<close>)
  then show ?thesis using assms(1-5,7,8) by (simp add: compile_ok_def parts_limited_def)
qed

text \<open>Below a policy: compile the child, plan for the limit, refresh, and take the limit over.\<close>

lemma refresh_lossy_ok:
  assumes "distinct (policy_leaves t)" "leaves_within (policy_leaves t) ls" "\<forall>l\<in>set ls. leaf_ok l"
  shows "refresh_ok t ls (refresh_lossy Q t ls)"
  unfolding refresh_lossy_def by (rule refresh_returns [OF order_refl assms])

lemma compiled_leaves:
  assumes "compiled rs ns ls ls'"
  shows "distinct ns" "leaves_within ns ls'" "\<forall>l\<in>set ls'. leaf_ok l" "list_all2 (\<lambda>r n. coarser_rule Q r (ls' ! n)) rs ns"
proof -
  from assms obtain a where a: "ls' = ls @ a" "list_all2 (coarser_rule Q) rs a" "ns = [length ls..<length ls']" "\<forall>l\<in>set ls'. leaf_ok l"
    by (auto simp: compiled_def)
  then show "distinct ns" "leaves_within ns ls'" "\<forall>l\<in>set ls'. leaf_ok l" by (simp_all add: leaves_within_def)
  show "list_all2 (\<lambda>r n. coarser_rule Q r (ls' ! n)) rs ns"
    using a(1-3) by (auto simp: list_all2_conv_all_nth)
qed

lemma compile_ok_refreshed:
  assumes "compile_ok rules filled t ls t1 ls1" "moved Q (set (policy_leaves t1)) ls1 ls2" "refreshed Q t1 ls2 (t2, d)"
    and "filled t2"
  shows "compile_ok rules filled t ls t2 ls2"
proof -
  have shape: "same_shape t2 = same_shape t1" using assms(3) by (simp add: refreshed_def)
  note leaves = same_shape_eq(1) [OF shape]
  have c: "compiled (rules t) (policy_leaves t1) ls ls1" using assms(1) by (simp add: compile_ok_def)
  have "parts_limited Q t t2 ls2"
  proof (rule parts_limited_mono)
    show "parts_limited Q t t1 ls1" using assms(1) by (simp add: compile_ok_def)
    show "coarser Q (ls1 ! n) (ls2 ! n)" if "n \<in> set (policy_leaves t1)" for n
      using that assms(2) compiled_leaves(2) [OF c] by (auto simp: moved_def leaves_within_def)
    show "\<exists>own'\<le>own. (ns, own') \<in> set (tree_limits t2)" if "(ns, own) \<in> set (tree_limits t1)" for ns own
      using that assms(3) by (auto simp: refreshed_def)
  qed
  moreover have "list_all2 (rule_coarser Q) (tree_rules ls1 t1) (tree_rules ls2 t1)"
    by (rule tree_rules_coarser) (use assms(2) compiled_leaves(2) [OF c] in \<open>auto simp: moved_def leaves_within_def\<close>)
  then have "list_all2 (rule_coarser Q) (policy_rules t) (tree_rules ls2 t2)"
    using assms(1) tree_rules_shape [OF shape] rules_coarser_trans by (auto simp: compile_ok_def)
  ultimately show ?thesis using compiled_moved [OF c assms(2)] assms(4) leaves by (simp add: compile_ok_def)
qed

lemma compile_lossy_ok:
  assumes child: "returns (compile_streaming Q child ls) (compile_ok policy_rules policy_filled child ls)"
  shows "returns (compile_streaming Q (Policy_Lossy options child) ls) (compile_ok policy_rules policy_filled (Policy_Lossy options child) ls)"
proof (cases "validate_policy options")
  case (Inl e)
  then show ?thesis by simp
next
  case (Inr limit)
  let ?R = "compile_ok policy_rules policy_filled (Policy_Lossy options child) ls"
  let ?C = "compile_ok policy_rules policy_filled child ls"
  have "returns (bind_result (compile_streaming Q child ls) (\<lambda>child ls.
          bind_result (returning (fit_aggregate_to Q child limit True ls)) (\<lambda>_ ls.
          bind_result (refresh_lossy Q child ls) (\<lambda>(child, d) ls.
            if limit < pd_usage d then Some (Inl (Cannot_Fit (pd_usage d) limit))
            else Some (Inr (Policy_Details (d\<lparr>pd_limit := Some limit\<rparr>) (clamp_limits limit child), ls)))))) ?R"
  proof (rule returns_bind [OF child])
    fix t1 ls1
    assume c: "?C t1 ls1"
    then have c1: "compiled (policy_rules child) (policy_leaves t1) ls ls1" by (simp add: compile_ok_def)
    show "returns (bind_result (returning (fit_aggregate_to Q t1 limit True ls1)) (\<lambda>_ ls.
          bind_result (refresh_lossy Q t1 ls) (\<lambda>(child, d) ls.
            if limit < pd_usage d then Some (Inl (Cannot_Fit (pd_usage d) limit))
            else Some (Inr (Policy_Details (d\<lparr>pd_limit := Some limit\<rparr>) (clamp_limits limit child), ls))))) ?R"
    proof (rule returns_bind [OF fit_aggregate_step [OF compiled_leaves(3,2) [OF c1]]])
      fix u ls2
      assume m2: "moved Q (set (policy_leaves t1)) ls1 ls2"
      note c2 = compiled_moved [OF c1 m2]
      have "refresh_ok t1 ls2 (refresh_lossy Q t1 ls2)" by (rule refresh_lossy_ok [OF compiled_leaves(1-3) [OF c2]])
      then show "returns (bind_result (refresh_lossy Q t1 ls2) (\<lambda>(child, d) ls.
            if limit < pd_usage d then Some (Inl (Cannot_Fit (pd_usage d) limit))
            else Some (Inr (Policy_Details (d\<lparr>pd_limit := Some limit\<rparr>) (clamp_limits limit child), ls)))) ?R"
        unfolding refresh_ok_def
      proof (rule returns_bind)
        fix r ls3
        assume r: "moved Q (set (policy_leaves t1)) ls2 ls3 \<and> refreshed Q t1 ls3 r"
        obtain t2 d where eq: "r = (t2, d)" by (cases r)
        have shape: "same_shape t2 = same_shape t1" using r eq by (simp add: refreshed_def)
        have m3: "moved Q (set (policy_leaves t1)) ls1 ls3" using r by (auto intro: moved_trans [OF m2])
        have C: "?C t2 ls3"
          by (rule compile_ok_refreshed [OF c m3]) (use r eq c same_shape_eq(3) [OF shape] in \<open>auto simp: compile_ok_def\<close>)
        then have cc: "compiled (policy_rules child) (policy_leaves t2) ls ls3" by (simp add: compile_ok_def)
        let ?t = "Policy_Details (d\<lparr>pd_limit := Some limit\<rparr>) (clamp_limits limit t2)"
        have leaves: "policy_leaves ?t = policy_leaves t2" "policy_filled ?t = policy_filled t2"
          using same_shape_eq(1,3) [of "clamp_limits limit t2" t2] by simp_all
        have "part_limited Q ls3 ?t (options, policy_rules child)"
          unfolding part_limited_def using Inr compiled_leaves(1,4) [OF cc] leaves(1) by auto
        moreover have "parts_limited Q child ?t ls3"
          by (rule parts_limited_mono [of Q child t2 ls3])
            (use C clamp_limits_lower [of _ _ t2 limit] in \<open>auto simp: compile_ok_def coarser_def\<close>)
        moreover have "tree_rules ls3 ?t = tree_rules ls3 t2" using tree_rules_shape [of "clamp_limits limit t2" t2] by simp
        ultimately have "?R ?t ls3" using C leaves by (simp add: compile_ok_def parts_limited_def)
        then show "returns ((case r of (child, d) \<Rightarrow> \<lambda>ls.
              if limit < pd_usage d then Some (Inl (Cannot_Fit (pd_usage d) limit))
              else Some (Inr (Policy_Details (d\<lparr>pd_limit := Some limit\<rparr>) (clamp_limits limit child), ls))) ls3) ?R"
          by (simp add: eq)
      qed
    qed
  qed
  then show ?thesis by (simp add: Inr)
qed

lemma compile_streaming_ok:
  assumes "schema_filled t" "\<forall>r\<in>set (policy_rules t). ok r" "\<forall>l\<in>set ls. leaf_ok l"
  shows "returns (compile_streaming Q t ls) (compile_ok policy_rules policy_filled t ls)"
  using assms
proof (induction t arbitrary: ls)
  case (Policy_Lossy options child)
  show ?case
  proof (cases "validate_policy options")
    case (Inr limit)
    show ?thesis by (rule compile_lossy_ok) (use Policy_Lossy in simp)
  qed simp
next
  case (Policy_All children)
  show ?case unfolding compile_streaming.simps
  proof (rule compile_ok_all)
    show "returns (each_child (compile_streaming Q) children ls) (\<lambda>ts' ls'. compiled (concat (map policy_rules children)) (concat (map policy_leaves ts')) ls ls'
        \<and> length ts' = length children \<and> list_all policy_filled ts' \<and> parts_limited Q (Policy_All children) (Policy_All ts') ls'
        \<and> list_all2 (rule_coarser Q) (policy_rules (Policy_All children)) (tree_rules ls' (Policy_All ts')))"
      by (rule returns_compile_children) (use Policy_All in \<open>auto simp: list_all_iff\<close>)
  qed (use Policy_All.prems in auto)
next
  case (Policy_Inspect child)
  have "returns (compile_streaming Q child ls) (compile_ok policy_rules policy_filled child ls)" using Policy_Inspect by simp
  then show ?case unfolding compile_streaming.simps
  proof (rule returns_bind)
    fix t' ls'
    assume c: "compile_ok policy_rules policy_filled child ls t' ls'"
    show "returns (Some (Inr (Policy_Inspect (Policy_Details (refreshed_rule_details Q ls' t' (details_of t')) t'), ls')))
        (compile_ok policy_rules policy_filled (Policy_Inspect child) ls)"
      unfolding returns_simps by (rule compile_ok_cong [OF c]) (use c in \<open>auto simp: compile_ok_def\<close>)
  qed
next
  case (Policy_Rule r)
  then show ?case by (auto simp: compile_ok_def compiled_rule parts_limited_def split: option.split)
qed simp_all

lemma compile_rules_ok:
  assumes "plain_schema t" "\<forall>r\<in>set (lossy_rules t). ok r" "\<forall>l\<in>set ls. leaf_ok l"
  shows "returns (compile_lossy_rules Q t ls) (compile_ok lossy_rules compiled_tree t ls)"
  using assms
proof (induction t arbitrary: ls)
  case (Policy_Lossy options child)
  have "returns (compile_streaming Q (Policy_Lossy options child) ls) (compile_ok policy_rules policy_filled (Policy_Lossy options child) ls)"
    by (rule compile_streaming_ok) (use Policy_Lossy.prems in simp_all)
  then show ?case by (auto simp: compile_ok_def policy_filled_compiled elim!: returns_mono)
next
  case (Policy_All children)
  show ?case unfolding compile_lossy_rules.simps
  proof (rule compile_ok_all)
    show "returns (each_child (compile_lossy_rules Q) children ls) (\<lambda>ts' ls'. compiled (concat (map lossy_rules children)) (concat (map policy_leaves ts')) ls ls'
        \<and> length ts' = length children \<and> list_all compiled_tree ts' \<and> parts_limited Q (Policy_All children) (Policy_All ts') ls'
        \<and> list_all2 (rule_coarser Q) (policy_rules (Policy_All children)) (tree_rules ls' (Policy_All ts')))"
      by (rule returns_compile_children) (use Policy_All in \<open>auto simp: list_all_iff\<close>)
  qed (use Policy_All.prems in auto)
next
  case (Policy_Inspect child)
  have "returns (compile_lossy_rules Q child ls) (compile_ok lossy_rules compiled_tree child ls)" using Policy_Inspect by simp
  then show ?case unfolding compile_lossy_rules.simps
  proof (rule returns_bind)
    fix t' ls'
    assume c: "compile_ok lossy_rules compiled_tree child ls t' ls'"
    show "returns (Some (Inr (Policy_Inspect t', ls'))) (compile_ok lossy_rules compiled_tree (Policy_Inspect child) ls)"
      unfolding returns_simps by (rule compile_ok_cong [OF c]) (use c in \<open>auto simp: compile_ok_def\<close>)
  qed
next
  case (Policy_Rule r)
  then show ?case by (simp add: compile_ok_def compiled_refl parts_limited_def)
qed simp_all

section \<open>Enforcing\<close>

text \<open>
  The states between the entries of a build: before the policies are compiled, the schema and no leaves; afterwards
  a compiled tree with its leaves.
\<close>

definition build_state :: "bool \<Rightarrow> 'r policy \<Rightarrow> 'r adaptive_leaf list \<Rightarrow> bool" where
  "build_state streaming t ls \<longleftrightarrow>
     (if streaming then compiled_tree t \<and> store_full t ls else plain_schema t \<and> ls = [])
     \<and> (\<forall>r\<in>set (tree_rules ls t). ok r)"

lemma rules_ok:
  assumes "list_all2 (rule_coarser Q) rs rs'" "\<forall>r\<in>set rs. ok r"
  shows "\<forall>r\<in>set rs'. ok r"
proof -
  have "ok r'" if "rule_coarser Q r r'" "ok r" for r r'
    using that unfolding rule_coarser_def
  proof (induction rule: rtranclp_induct)
    case (step b c)
    then show ?case using first_ok next_ok by blast
  qed
  then show ?thesis using assms by (fastforce simp: list_all2_conv_all_nth in_set_conv_nth)
qed

lemma store_leaves_ok:
  assumes "store_full t ls" "\<forall>r\<in>set (tree_rules ls t). ok r"
  shows "\<forall>l\<in>set ls. leaf_ok l"
proof
  fix l assume "l \<in> set ls"
  then obtain n where n: "n < length ls" "l = ls ! n" by (auto simp: in_set_conv_nth)
  then have "n \<in> set (policy_leaves t)" using store_full_leaves(3) [OF assms(1)] by simp
  then show "leaf_ok l" using leaf_in_rules [of n t ls] assms(2) n(2) by (simp add: leaf_ok_def)
qed

lemma compile_ok_store:
  assumes "compile_ok rules compiled_tree t [] t' ls'"
  shows "compiled_tree t'" "store_full t' ls'" "\<forall>l\<in>set ls'. leaf_ok l"
  using assms by (auto simp: compile_ok_def compiled_def store_full_def)

lemma compile_state_ok:
  assumes "build_state streaming t ls"
  shows "returns (compile_lossy_rules Q t ls) (\<lambda>t' ls'. compiled_tree t' \<and> store_full t' ls' \<and> (\<forall>l\<in>set ls'. leaf_ok l)
    \<and> list_all2 (rule_coarser Q) (tree_rules ls t) (tree_rules ls' t')
    \<and> policies_carried Q streaming t ls True t' ls' \<and> (streaming \<longrightarrow> t' = t \<and> ls' = ls))"
proof (cases streaming)
  case True
  then have "compiled_tree t" "store_full t ls" "\<forall>r\<in>set (tree_rules ls t). ok r" using assms by (auto simp: build_state_def)
  then show ?thesis using store_leaves_ok True by (simp add: compile_compiled rules_coarser_refl)
next
  case False
  then have state: "plain_schema t" "ls = []" "\<forall>r\<in>set (tree_rules ls t). ok r" using assms by (simp_all add: build_state_def)
  note plain = state(1,2) state(3) [unfolded plain_tree_rules [OF state(1)]]
  have "returns (compile_lossy_rules Q t []) (compile_ok lossy_rules compiled_tree t [])"
    by (rule compile_rules_ok) (use plain lossy_rules_subset [of t] in auto)
  then show ?thesis unfolding plain(2)
  proof (rule returns_mono)
    fix t' ls'
    assume c: "compile_ok lossy_rules compiled_tree t [] t' ls'"
    then show "compiled_tree t' \<and> store_full t' ls' \<and> (\<forall>l\<in>set ls'. leaf_ok l)
        \<and> list_all2 (rule_coarser Q) (tree_rules [] t) (tree_rules ls' t')
        \<and> policies_carried Q streaming t [] True t' ls' \<and> (streaming \<longrightarrow> t' = t \<and> ls' = [])"
      using compile_ok_store [OF c] False plain_tree_rules [OF plain(1)] by (simp add: compile_ok_def policies_carried_def)
  qed
qed

lemma refresh_store_ok:
  assumes "compiled_tree t" "store_full t ls" "\<forall>l\<in>set ls. leaf_ok l"
  shows "returns (refresh_lossy Q t ls) (\<lambda>r ls'. moved Q (set (policy_leaves t)) ls ls' \<and> refreshed Q t ls' r
    \<and> limits_hold Q ls' (fst r) \<and> list_all2 (rule_coarser Q) (tree_rules ls t) (tree_rules ls' (fst r)))"
proof -
  note leaves = store_full_leaves [OF assms(2)]
  have "refresh_ok t ls (refresh_lossy Q t ls)" by (rule refresh_lossy_ok [OF leaves(1,2) assms(3)])
  then show ?thesis unfolding refresh_ok_def
  proof (rule returns_mono)
    fix r ls'
    assume r: "moved Q (set (policy_leaves t)) ls ls' \<and> refreshed Q t ls' r"
    then have shape: "same_shape (fst r) = same_shape t" by (simp add: refreshed_def)
    have "list_all2 (rule_coarser Q) (tree_rules ls t) (tree_rules ls' t)"
      by (rule tree_rules_coarser) (use r leaves(2) in \<open>auto simp: moved_def leaves_within_def\<close>)
    moreover have "limits_hold Q ls' (fst r)" using r compiled_tree_limits [OF assms(1)] by (simp add: refreshed_def)
    ultimately show "moved Q (set (policy_leaves t)) ls ls' \<and> refreshed Q t ls' r
        \<and> limits_hold Q ls' (fst r) \<and> list_all2 (rule_coarser Q) (tree_rules ls t) (tree_rules ls' (fst r))"
      using r tree_rules_shape [OF shape] by simp
  qed
qed

lemma refreshed_kept:
  assumes "moved Q (set (policy_leaves t)) ls ls'" "refreshed Q t ls' r" "leaves_within (policy_leaves t) ls"
  shows "limits_kept Q t ls (fst r) ls'"
  using assms by (auto simp: limits_kept_def refreshed_def moved_def leaves_within_def)

text \<open>From any state of a build: the limits hold, those of the policies among them, and the rules are at most coarser.\<close>

lemma enforce_state_ok:
  assumes "build_state streaming t ls"
  shows "returns (enforce_policies Q t ls) (\<lambda>t' ls'. limits_hold Q ls' t' \<and> policies_carried Q streaming t ls True t' ls'
    \<and> list_all2 (rule_coarser Q) (tree_rules ls t) (tree_rules ls' t'))"
  unfolding enforce_policies_def
proof (rule returns_bind [OF compile_state_ok [OF assms]])
  fix t1 ls1
  assume c: "compiled_tree t1 \<and> store_full t1 ls1 \<and> (\<forall>l\<in>set ls1. leaf_ok l)
    \<and> list_all2 (rule_coarser Q) (tree_rules ls t) (tree_rules ls1 t1)
    \<and> policies_carried Q streaming t ls True t1 ls1 \<and> (streaming \<longrightarrow> t1 = t \<and> ls1 = ls)"
  then have c1: "compiled_tree t1" "store_full t1 ls1" "\<forall>l\<in>set ls1. leaf_ok l" by auto
  from refresh_store_ok [OF c1]
  show "returns (bind_result (refresh_lossy Q t1 ls1) (\<lambda>(t, d) ls. Some (Inr (t, ls))))
      (\<lambda>t' ls'. limits_hold Q ls' t' \<and> policies_carried Q streaming t ls True t' ls'
        \<and> list_all2 (rule_coarser Q) (tree_rules ls t) (tree_rules ls' t'))"
  proof (rule returns_bind)
    fix r ls2
    assume r: "moved Q (set (policy_leaves t1)) ls1 ls2 \<and> refreshed Q t1 ls2 r
      \<and> limits_hold Q ls2 (fst r) \<and> list_all2 (rule_coarser Q) (tree_rules ls1 t1) (tree_rules ls2 (fst r))"
    then have "limits_kept Q t1 ls1 (fst r) ls2" using refreshed_kept store_full_leaves(2) [OF c1(2)] by blast
    then have "policies_carried Q streaming t ls True (fst r) ls2" using c by (blast intro: policies_carried_kept)
    then show "returns ((case r of (t, d) \<Rightarrow> \<lambda>ls. Some (Inr (t, ls))) ls2)
        (\<lambda>t' ls'. limits_hold Q ls' t' \<and> policies_carried Q streaming t ls True t' ls'
          \<and> list_all2 (rule_coarser Q) (tree_rules ls t) (tree_rules ls' t'))"
      using c r rules_coarser_trans by (cases r) auto
  qed
qed

text \<open>Under pressure, too, every step returns, and leaves only move to coarser ones.\<close>

lemma fit_policies_ok:
  assumes "leaves_within (policy_leaves t) ls" "\<forall>l\<in>set ls. leaf_ok l"
  shows "returns (fit_policies Q t ls) (\<lambda>_ ls'. moved Q (set (policy_leaves t)) ls ls')"
  using assms
proof (induction t arbitrary: ls)
  case (Policy_All children)
  have "returns (each_child (fit_policies Q) ts ls) (\<lambda>_ ls'. moved Q (set (policy_leaves (Policy_All children))) ls ls')"
    if "set ts \<subseteq> set children" "leaves_within (policy_leaves (Policy_All children)) ls" "\<forall>l\<in>set ls. leaf_ok l" for ts ls
    using that
  proof (induction ts arbitrary: ls)
    case (Cons c ts)
    have c: "c \<in> set children" using Cons.prems(1) by simp
    have within: "leaves_within (policy_leaves c) ls" using Cons.prems(2) c by (auto simp: leaves_within_def)
    show ?case unfolding each_child.simps
    proof (rule returns_bind [OF Policy_All.IH [OF c within Cons.prems(3)]])
      fix u ls1
      assume "moved Q (set (policy_leaves c)) ls ls1"
      then have m: "moved Q (set (policy_leaves (Policy_All children))) ls ls1"
        by (rule moved_trans [OF moved_refl]) (use c in auto)
      have "returns (each_child (fit_policies Q) ts ls1) (\<lambda>_ ls'. moved Q (set (policy_leaves (Policy_All children))) ls1 ls')"
        by (rule Cons.IH) (use Cons.prems moved_within [OF m] moved_ok [OF m] in auto)
      then show "returns (bind_result (each_child (fit_policies Q) ts ls1) (\<lambda>as ls. Some (Inr (u # as, ls))))
          (\<lambda>_ ls'. moved Q (set (policy_leaves (Policy_All children))) ls ls')"
        by (rule returns_bind) (auto intro: moved_trans [OF m])
    qed
  qed simp
  from this [OF order_refl Policy_All.prems] show ?case unfolding fit_policies.simps
    by (rule returns_bind) simp
next
  case (Policy_Details d child)
  have "returns (fit_policies Q child ls) (\<lambda>_ ls'. moved Q (set (policy_leaves child)) ls ls')" using Policy_Details by simp
  then show ?case unfolding fit_policies.simps policy_leaves.simps
  proof (rule returns_bind)
    fix u ls1
    assume m: "moved Q (set (policy_leaves child)) ls ls1"
    have within: "leaves_within (policy_leaves child) ls1" using Policy_Details.prems(1) by (simp add: moved_within [OF m])
    have "returns (returning (fit_aggregate_to Q child l False ls1)) (\<lambda>_ ls'. moved Q (set (policy_leaves child)) ls ls')" for l
      using fit_aggregate_step [OF moved_ok [OF m Policy_Details.prems(2)] within]
      by (rule returns_mono) (auto intro: moved_trans [OF m])
    with m show "returns (case pd_limit d of None \<Rightarrow> Some (Inr ((), ls1))
        | Some limit \<Rightarrow> let target = lossy_build_target limit
            in if target < aggregate_usage Q ls1 child then returning (fit_aggregate_to Q child target False ls1) else Some (Inr ((), ls1)))
        (\<lambda>_ ls'. moved Q (set (policy_leaves child)) ls ls')"
      by (simp add: Let_def split: option.split)
  qed
qed simp_all

lemma pressure_ok:
  assumes "build_state streaming t ls"
  shows "returns (pressure_checkpoint Q streaming t ls)
    (\<lambda>(streaming', t') ls'. build_state streaming' t' ls' \<and> list_all2 (rule_coarser Q) (tree_rules ls t) (tree_rules ls' t')
      \<and> policies_carried Q streaming t ls streaming' t' ls')"
proof -
  let ?R = "\<lambda>(streaming', t') ls'. build_state streaming' t' ls' \<and> list_all2 (rule_coarser Q) (tree_rules ls t) (tree_rules ls' t')
    \<and> policies_carried Q streaming t ls streaming' t' ls'"
  have same: "returns (Some (Inr ((streaming, t), ls))) ?R" using assms by (simp add: rules_coarser_refl)
  have fit: "returns (bind_result (fit_policies Q t ls) (\<lambda>_ ls. Some (Inr ((True, t), ls)))) ?R" if streaming
  proof (rule returns_bind)
    have c: "compiled_tree t" "store_full t ls" "\<forall>r\<in>set (tree_rules ls t). ok r" using assms that by (simp_all add: build_state_def)
    note leaves = store_full_leaves [OF c(2)]
    show "returns (fit_policies Q t ls) (\<lambda>_ ls'. moved Q (set (policy_leaves t)) ls ls')"
      by (rule fit_policies_ok [OF leaves(2) store_leaves_ok [OF c(2,3)]])
    fix u ls1
    assume m: "moved Q (set (policy_leaves t)) ls ls1"
    have rules: "list_all2 (rule_coarser Q) (tree_rules ls t) (tree_rules ls1 t)"
      by (rule tree_rules_coarser) (use m leaves(2) in \<open>auto simp: moved_def leaves_within_def\<close>)
    have "limits_kept Q t ls t ls1" using m leaves(2) by (auto simp: limits_kept_def moved_def leaves_within_def)
    moreover have "build_state True t ls1" using c m rules_ok [OF rules c(3)] by (simp add: build_state_def store_full_def moved_def)
    ultimately show "returns (Some (Inr ((True, t), ls1))) ?R" using rules that by (simp add: policies_carried_def)
  qed
  have compile: "returns (bind_result (compile_lossy_rules Q t ls) (\<lambda>t ls. bind_result (wrap_leaves Q t ls) (\<lambda>t ls. Some (Inr ((True, t), ls))))) ?R"
  proof (rule returns_bind [OF compile_state_ok [OF assms]])
    fix t1 ls1
    assume c: "compiled_tree t1 \<and> store_full t1 ls1 \<and> (\<forall>l\<in>set ls1. leaf_ok l)
      \<and> list_all2 (rule_coarser Q) (tree_rules ls t) (tree_rules ls1 t1)
      \<and> policies_carried Q streaming t ls True t1 ls1 \<and> (streaming \<longrightarrow> t1 = t \<and> ls1 = ls)"
    then have store: "store_full t1 ls1" and rules: "list_all2 (rule_coarser Q) (tree_rules ls t) (tree_rules ls1 t1)" by auto
    have "returns (wrap_leaves Q t1 ls1) (wrapped t1 ls1)"
      by (rule wrap_leaves_ok [OF _ store_full_leaves(2) [OF store]]) (use c in simp)
    then show "returns (bind_result (wrap_leaves Q t1 ls1) (\<lambda>t ls. Some (Inr ((True, t), ls)))) ?R"
    proof (rule returns_bind)
      fix t2 ls2
      assume w: "wrapped t1 ls1 t2 ls2"
      then obtain a where a: "ls2 = ls1 @ a" by (auto simp: wrapped_def)
      have split: "[0..<length ls2] = [0..<length ls1] @ [length ls1..<length ls2]"
        using upt_add_eq_append [of 0 "length ls1" "length a"] by (simp add: a)
      have "store_full t2 ls2" using w store unfolding wrapped_def store_full_def split mset_append by simp
      moreover have "\<forall>r\<in>set (tree_rules ls2 t2). ok r"
        using w rules_ok [OF rules] assms by (simp add: wrapped_def build_state_def)
      ultimately have "build_state True t2 ls2" using w by (simp add: build_state_def wrapped_def)
      moreover have "policies_carried Q streaming t ls True t2 ls2"
        using c wrapped_kept [OF w store_full_leaves(2) [OF store]] by (blast intro: policies_carried_kept)
      ultimately show "returns (Some (Inr ((True, t2), ls2))) ?R" using w rules by (simp add: wrapped_def)
    qed
  qed
  show ?thesis unfolding pressure_checkpoint_def
    using same fit compile by (cases streaming) (simp_all split: sum.split option.split prod.split)
qed

lemma publish_ok:
  assumes "build_state streaming t ls"
  shows "returns (publish_policies Q t ls) (\<lambda>t' ls'. list_all2 (rule_coarser Q) (tree_rules ls t) (policy_rules t'))"
  unfolding publish_policies_def
  by (rule returns_bind [OF enforce_state_ok [OF assms]]) (simp add: unwrap_rules)

end

section \<open>Inserting an entry\<close>

text \<open>\<open>insert\<close> of the root passes the entry to every rule and every leaf; \<open>f\<close> is the insertion into a rule.\<close>

definition insert_leaves :: "('r \<Rightarrow> 'r) \<Rightarrow> nat list \<Rightarrow> 'r adaptive_leaf list \<Rightarrow> 'r adaptive_leaf list" where
  "insert_leaves f ns ls = foldl (\<lambda>ls n. ls[n := (ls ! n)\<lparr>al_child := f (al_child (ls ! n))\<rparr>]) ls ns"

definition insert_tree :: "('r \<Rightarrow> 'r) \<Rightarrow> 'r policy \<Rightarrow> 'r adaptive_leaf list \<Rightarrow> 'r policy \<times> 'r adaptive_leaf list" where
  "insert_tree f t ls = (map_policy f t, insert_leaves f (policy_leaves t) ls)"

lemma map_policy_same [simp]:
  "policy_leaves (map_policy f t) = policy_leaves t"
  "schema_filled (map_policy f t) = schema_filled t" "plain_schema (map_policy f t) = plain_schema t"
  "policy_filled (map_policy f t) = policy_filled t" "compiled_tree (map_policy f t) = compiled_tree t"
  "policy_rules (map_policy f t) = map f (policy_rules t)" "tree_limits (map_policy f t) = tree_limits t"
proof -
  show leaves: "policy_leaves (map_policy f t) = policy_leaves t" for t by (induction t) (auto intro!: arg_cong [where f = concat])
  show "tree_limits (map_policy f t) = tree_limits t"
    by (induction t) (auto simp: leaves intro!: arg_cong [where f = concat] split: option.split)
  show filled: "schema_filled (map_policy f t) = schema_filled t" for t by (induction t) (auto simp: list_all_iff)
  show "plain_schema (map_policy f t) = plain_schema t" by (induction t) (auto simp: list_all_iff filled)
  show pf: "policy_filled (map_policy f t) = policy_filled t" for t by (induction t) (auto simp: list_all_iff)
  show "compiled_tree (map_policy f t) = compiled_tree t" by (induction t) (auto simp: list_all_iff pf)
  show "policy_rules (map_policy f t) = map f (policy_rules t)" by (induction t) (auto simp: map_concat intro!: arg_cong [where f = concat])
qed

lemma insert_leaves_nth:
  assumes "distinct ns" "leaves_within ns ls"
  shows "length (insert_leaves f ns ls) = length ls"
    "k < length ls \<Longrightarrow> insert_leaves f ns ls ! k = (if k \<in> set ns then (ls ! k)\<lparr>al_child := f (al_child (ls ! k))\<rparr> else ls ! k)"
proof -
  have "length (insert_leaves f ns ls) = length ls \<and>
      (\<forall>k<length ls. insert_leaves f ns ls ! k = (if k \<in> set ns then (ls ! k)\<lparr>al_child := f (al_child (ls ! k))\<rparr> else ls ! k))"
    using assms
  proof (induction ns arbitrary: ls)
    case Nil
    then show ?case by (simp add: insert_leaves_def)
  next
    case (Cons n ns)
    let ?ls = "ls[n := (ls ! n)\<lparr>al_child := f (al_child (ls ! n))\<rparr>]"
    have step: "insert_leaves f (n # ns) ls = insert_leaves f ns ?ls" by (simp add: insert_leaves_def)
    have "leaves_within ns ?ls" "distinct ns" "n \<notin> set ns" using Cons.prems by (auto simp: leaves_within_def)
    moreover have "?ls ! k = ls ! k" if "k \<in> set ns" for k using that Cons.prems(1) by (metis distinct.simps(2) nth_list_update_neq)
    moreover have "n < length ls" using Cons.prems(2) by (simp add: leaves_within_def)
    ultimately show ?case using Cons.IH [of ?ls] unfolding step by (auto simp: nth_list_update)
  qed
  then show "length (insert_leaves f ns ls) = length ls"
    "k < length ls \<Longrightarrow> insert_leaves f ns ls ! k = (if k \<in> set ns then (ls ! k)\<lparr>al_child := f (al_child (ls ! k))\<rparr> else ls ! k)"
    by auto
qed

lemma insert_tree_rules:
  assumes "\<And>n. n \<in> set (policy_leaves t) \<Longrightarrow> al_child (ls' ! n) = f (al_child (ls ! n))"
  shows "tree_rules ls' (map_policy f t) = map f (tree_rules ls t)"
  using assms
proof (induction t rule: policy_leaves.induct)
  case (1 children)
  have "tree_rules ls' (map_policy f x) = map f (tree_rules ls x)" if "x \<in> set children" for x
    by (rule 1(1) [OF that]) (use 1(2) that in auto)
  then show ?case by (simp add: map_concat comp_def cong: map_cong)
qed auto

lemma insert_tree_state:
  assumes state: "if streaming then compiled_tree t \<and> store_full t ls else plain_schema t \<and> ls = []"
    and ins: "insert_tree f t ls = (t', ls')"
  shows "if streaming then compiled_tree t' \<and> store_full t' ls' else plain_schema t' \<and> ls' = []"
    "tree_rules ls' t' = map f (tree_rules ls t)" "tree_limits t' = tree_limits t"
    "n \<in> set (policy_leaves t) \<Longrightarrow> al_child (ls' ! n) = f (al_child (ls ! n))"
proof -
  have leaves: "distinct (policy_leaves t)" "leaves_within (policy_leaves t) ls"
    using state store_full_leaves [of t ls] plain_no_leaves [of t] by (auto simp: leaves_within_def split: if_splits)
  have t': "t' = map_policy f t" "ls' = insert_leaves f (policy_leaves t) ls" using ins by (auto simp: insert_tree_def)
  note nth = insert_leaves_nth [OF leaves, where f = f, folded t'(2)]
  have children: "al_child (ls' ! n) = f (al_child (ls ! n))" if "n \<in> set (policy_leaves t)" for n
    using nth(2) [of n] leaves(2) that by (auto simp: leaves_within_def)
  then show "n \<in> set (policy_leaves t) \<Longrightarrow> al_child (ls' ! n) = f (al_child (ls ! n))" .
  show "tree_limits t' = tree_limits t" by (simp add: t'(1))
  have "tree_rules ls' (map_policy f t) = map f (tree_rules ls t)" by (rule insert_tree_rules [OF children])
  then show "tree_rules ls' t' = map f (tree_rules ls t)" by (simp add: t'(1))
  show "if streaming then compiled_tree t' \<and> store_full t' ls' else plain_schema t' \<and> ls' = []"
    using state nth(1) by (auto simp: t'(1) store_full_def split: if_splits)
qed

section \<open>What the leaves below a policy hold\<close>

text \<open>
  \<open>holds s r\<close> says that the rule \<open>r\<close> is as \<open>s\<close> specifies. The leaves below a policy are as specified, one for each
  rule of the policy, and the tree has a limit for them that is at most the limit of the policy.
\<close>

definition part_held :: "('s \<Rightarrow> 'r \<Rightarrow> bool) \<Rightarrow> 'r adaptive_leaf list \<Rightarrow> 'r policy \<Rightarrow> lossy_option list \<times> 's list \<Rightarrow> bool" where
  "part_held holds ls t part \<longleftrightarrow>
     (\<exists>ns limit own. validate_policy (fst part) = Inr limit \<and> (ns, own) \<in> set (tree_limits t) \<and> own \<le> limit
        \<and> distinct ns \<and> list_all2 (\<lambda>s n. holds s (al_child (ls ! n))) (snd part) ns)"

lemma part_held_step:
  assumes "part_held holds ls t part" "set (tree_limits t) \<subseteq> set (tree_limits t')"
    and "\<And>n s. n \<in> set (policy_leaves t) \<Longrightarrow> holds s (al_child (ls ! n)) \<Longrightarrow> holds' s (al_child (ls' ! n))"
  shows "part_held holds' ls' t' part"
proof -
  obtain ns limit own where *: "validate_policy (fst part) = Inr limit" "(ns, own) \<in> set (tree_limits t)" "own \<le> limit"
    "distinct ns" "list_all2 (\<lambda>s n. holds s (al_child (ls ! n))) (snd part) ns"
    using assms(1) unfolding part_held_def by blast
  have "list_all2 (\<lambda>s n. holds' s (al_child (ls' ! n))) (snd part) ns"
    by (rule list.rel_mono_strong [OF *(5)]) (use tree_limits_leaves [OF *(2)] assms(3) in blast)
  with * assms(2) show ?thesis unfolding part_held_def by blast
qed

lemma rel_policy_rules: "rel_policy holds schema t \<Longrightarrow> list_all2 holds (policy_rules schema) (policy_rules t)"
proof (induction rule: policy.rel_induct)
  case (Policy_All ts us)
  then have "list_all2 (list_all2 holds) (map policy_rules ts) (map policy_rules us)"
    by (simp add: list.rel_map list.rel_mono_strong)
  then show ?case by (simp add: concat_transfer [THEN rel_funD])
qed auto

lemma set_policy_rules: "set_policy t = set (policy_rules t)"
  by (induction t) auto

lemma rel_policy_parts:
  "rel_policy holds schema t \<Longrightarrow> list_all2 (rel_prod (=) (list_all2 holds)) (lossy_parts schema) (lossy_parts t)"
proof (induction schema arbitrary: t)
  case (Policy_All ts)
  then obtain us where us: "t = Policy_All us" "list_all2 (rel_policy holds) ts us" by (cases t) auto
  have "list_all2 (list_all2 (rel_prod (=) (list_all2 holds))) (map lossy_parts ts) (map lossy_parts us)"
    unfolding list.rel_map by (rule list.rel_mono_strong [OF us(2)]) (rule Policy_All.IH)
  then show ?case unfolding us(1) lossy_parts.simps by (rule concat_transfer [THEN rel_funD])
qed (use rel_policy_rules in \<open>case_tac t; auto\<close>)+

lemma part_held_limited:
  assumes "rel_policy holds schema t" "parts_limited Q t t' ls'"
    and coarser: "\<And>s r r'. holds s r \<Longrightarrow> rule_coarser Q r r' \<Longrightarrow> holds s r'"
  shows "list_all (part_held holds ls' t') (lossy_parts schema)"
proof -
  have "part_held holds ls' t' part" if parts: "rel_prod (=) (list_all2 holds) part part'" and limited: "part_limited Q ls' t' part'" for part part'
  proof -
    have "fst part = fst part'" using parts by (simp add: rel_prod_sel)
    with limited obtain ns limit own where *: "validate_policy (fst part) = Inr limit" "(ns, own) \<in> set (tree_limits t')" "own \<le> limit"
      "distinct ns" "list_all2 (\<lambda>r n. coarser_rule Q r (ls' ! n)) (snd part') ns"
      unfolding part_limited_def by auto
    have "list_all2 holds (snd part) (snd part')" using parts by (simp add: rel_prod_sel)
    then have "list_all2 (\<lambda>s n. holds s (al_child (ls' ! n))) (snd part) ns"
      using *(5)
    proof (rule list_all2_trans [rotated])
      fix s r n
      assume "holds s r" "coarser_rule Q r (ls' ! n)"
      then show "holds s (al_child (ls' ! n))" using coarser coarser_rule_coarser by fastforce
    qed
    with *(1-4) show ?thesis unfolding part_held_def by (intro exI conjI)
  qed
  moreover note rel_policy_parts [OF assms(1)] assms(2)
  ultimately show ?thesis unfolding parts_limited_def list_all_length list_all2_conv_all_nth by (metis (no_types, lifting))
qed

text \<open>A step of a build, before or after the policies are compiled.\<close>

lemma policies_carried_held:
  assumes "policies_carried Q streaming t ls streaming' t' ls'"
    and before: "if streaming then list_all (part_held holds ls t) (lossy_parts schema) else rel_policy holds schema t"
    and coarser: "\<And>s r r'. rule_coarser Q r r' \<Longrightarrow> holds s r \<Longrightarrow> holds s r'"
  shows "if streaming' then list_all (part_held holds ls' t') (lossy_parts schema) else rel_policy holds schema t'"
proof (cases streaming)
  case True
  then have kept: "limits_kept Q t ls t' ls'" and streaming' using assms(1) by (simp_all add: policies_carried_def)
  have "part_held holds ls' t' part" if "part_held holds ls t part" for part
  proof (rule part_held_step [OF that])
    show "set (tree_limits t) \<subseteq> set (tree_limits t')" using kept by (simp add: limits_kept_def)
    fix n s assume n: "n \<in> set (policy_leaves t)" and held: "holds s (al_child (ls ! n))"
    have "coarser Q (ls ! n) (ls' ! n)" using kept n by (simp add: limits_kept_def)
    then show "holds s (al_child (ls' ! n))" by (rule coarser [OF coarser_rule_coarser held])
  qed
  with before True \<open>streaming'\<close> show ?thesis by (simp add: list_all_iff)
next
  case False
  then show ?thesis using assms(1) before part_held_limited [OF _ _ coarser] by (auto simp: policies_carried_def)
qed

text \<open>Where the limits hold, so does the limit of each policy.\<close>

definition part_enforced :: "'r rule_ops \<Rightarrow> ('s \<Rightarrow> 'r \<Rightarrow> bool) \<Rightarrow> 'r adaptive_leaf list \<Rightarrow> 'r policy \<Rightarrow> lossy_option list \<times> 's list \<Rightarrow> bool" where
  "part_enforced Q holds ls t part \<longleftrightarrow>
     (\<exists>ns limit. validate_policy (fst part) = Inr limit \<and> distinct ns \<and> set ns \<subseteq> set (policy_leaves t)
        \<and> list_all2 (\<lambda>s n. holds s (al_child (ls ! n))) (snd part) ns \<and> leaf_bytes Q ls ns \<le> limit)"

lemma part_held_enforced: "part_held holds ls t part \<Longrightarrow> limits_hold Q ls t \<Longrightarrow> part_enforced Q holds ls t part"
  unfolding part_held_def part_enforced_def limits_hold_def list_all_iff using tree_limits_leaves by fastforce

end
