(* ===== verification/Scalar_Key.thy ===== *)
theory Scalar_Key
  imports Prelude
begin

text \<open>
  Keys of scalar values: the order-preserving keys that route ordered lookups (\<^verbatim>\<open>canonical_value.go\<close>,
  \<^verbatim>\<open>ordered_key.go\<close>) and the stable encoding of scalars (\<open>canonicalScalar\<close>). A value of a Go type is
  its bit pattern: signed and unsigned integers are words of their width, strings are lists of bytes,
  and floating-point values are their IEEE 754 encodings.
\<close>

unbundle bit_operations_syntax

section \<open>Scalars\<close>

datatype scalar =
    Bool_Value bool
  | String_Value "u8 list"
  | Int_Value u64
  | Int8_Value u8
  | Int16_Value "16 word"
  | Int32_Value u32
  | Int64_Value u64
  | Uint_Value u64
  | Uint8_Value u8
  | Uint16_Value "16 word"
  | Uint32_Value u32
  | Uint64_Value u64
  | Uintptr_Value u64
  | Float32_Value u32
  | Float64_Value u64

text \<open>\<open>value == 0\<close> and \<open>math.IsNaN\<close> on encodings: all bits but the sign; exponent all ones and a fraction.\<close>

definition float32_zero :: "u32 \<Rightarrow> bool" where
  "float32_zero b \<longleftrightarrow> b AND 0x7fffffff = 0"

definition float32_nan :: "u32 \<Rightarrow> bool" where
  "float32_nan b \<longleftrightarrow> 0x7f800000 < b AND 0x7fffffff"

definition float64_zero :: "u64 \<Rightarrow> bool" where
  "float64_zero b \<longleftrightarrow> b AND 0x7fffffffffffffff = 0"

definition float64_nan :: "u64 \<Rightarrow> bool" where
  "float64_nan b \<longleftrightarrow> 0x7ff0000000000000 < b AND 0x7fffffffffffffff"

section \<open>Order-preserving keys\<close>

definition unsigned_ordered_key :: "u64 \<Rightarrow> nat \<Rightarrow> u64" where
  "unsigned_ordered_key value width = (if width = 64 then value else push_bit (64 - width) value)"

text \<open>The argument is the sign-extended value.\<close>

definition signed_ordered_key :: "u64 \<Rightarrow> nat \<Rightarrow> u64" where
  "signed_ordered_key value width =
     (let bits = (if width < 64 then value AND (push_bit width 1 - 1) else value);
          bits = bits XOR push_bit (width - 1) 1
      in unsigned_ordered_key bits width)"

definition ordered_float32_bits :: "u32 \<Rightarrow> u32" where
  "ordered_float32_bits value =
     (if float32_nan value then 0
      else let bits = (if float32_zero value then 0 else value)
           in if bits AND push_bit 31 1 \<noteq> 0 then NOT bits else bits XOR push_bit 31 1)"

definition ordered_float64_bits :: "u64 \<Rightarrow> u64" where
  "ordered_float64_bits value =
     (if float64_nan value then 0
      else let bits = (if float64_zero value then 0 else value)
           in if bits AND push_bit 63 1 \<noteq> 0 then NOT bits else bits XOR push_bit 63 1)"

fun ordered_scalar_key :: "scalar \<Rightarrow> u64 option" where
  "ordered_scalar_key (Int_Value x) = Some (signed_ordered_key x 64)"
| "ordered_scalar_key (Int8_Value x) = Some (signed_ordered_key (scast x) 8)"
| "ordered_scalar_key (Int16_Value x) = Some (signed_ordered_key (scast x) 16)"
| "ordered_scalar_key (Int32_Value x) = Some (signed_ordered_key (scast x) 32)"
| "ordered_scalar_key (Int64_Value x) = Some (signed_ordered_key x 64)"
| "ordered_scalar_key (Uint_Value x) = Some (unsigned_ordered_key x 64)"
| "ordered_scalar_key (Uint8_Value x) = Some (unsigned_ordered_key (ucast x) 8)"
| "ordered_scalar_key (Uint16_Value x) = Some (unsigned_ordered_key (ucast x) 16)"
| "ordered_scalar_key (Uint32_Value x) = Some (unsigned_ordered_key (ucast x) 32)"
| "ordered_scalar_key (Uint64_Value x) = Some x"
| "ordered_scalar_key (Uintptr_Value x) = Some (unsigned_ordered_key x 64)"
| "ordered_scalar_key (Float32_Value x) = Some (unsigned_ordered_key (ucast (ordered_float32_bits x)) 32)"
| "ordered_scalar_key (Float64_Value x) = Some (ordered_float64_bits x)"
| "ordered_scalar_key _ = None"

section \<open>The canonical encoding\<close>

definition canonical_float32_bits :: "u32 \<Rightarrow> u32" where
  "canonical_float32_bits value = (if float32_zero value then 0 else if float32_nan value then 0x7fc00000 else value)"

definition canonical_float64_bits :: "u64 \<Rightarrow> u64" where
  "canonical_float64_bits value = (if float64_zero value then 0 else if float64_nan value then 0x7ff8000000000000 else value)"

text \<open>\<open>binary.BigEndian.AppendUint64\<close>.\<close>

definition append_uint64 :: "u8 list \<Rightarrow> u64 \<Rightarrow> u8 list" where
  "append_uint64 dst x = dst @ map (\<lambda>k. ucast (drop_bit (8 * k) x)) [7, 6, 5, 4, 3, 2, 1, 0]"

definition append_canonical_uint64 :: "u8 list \<Rightarrow> u8 \<Rightarrow> u64 \<Rightarrow> u8 list" where
  "append_canonical_uint64 dst tag x = append_uint64 (dst @ [tag]) x"

fun canonical_scalar :: "u8 list \<Rightarrow> scalar \<Rightarrow> u8 list" where
  "canonical_scalar dst (Bool_Value b) = dst @ [1, if b then 1 else 0]"
| "canonical_scalar dst (String_Value s) = append_uint64 (dst @ [2]) (of_nat (length s)) @ s"
| "canonical_scalar dst (Int_Value x) = append_canonical_uint64 dst 3 x"
| "canonical_scalar dst (Int8_Value x) = append_canonical_uint64 dst 4 (scast x)"
| "canonical_scalar dst (Int16_Value x) = append_canonical_uint64 dst 5 (scast x)"
| "canonical_scalar dst (Int32_Value x) = append_canonical_uint64 dst 6 (scast x)"
| "canonical_scalar dst (Int64_Value x) = append_canonical_uint64 dst 7 x"
| "canonical_scalar dst (Uint_Value x) = append_canonical_uint64 dst 8 x"
| "canonical_scalar dst (Uint8_Value x) = append_canonical_uint64 dst 9 (ucast x)"
| "canonical_scalar dst (Uint16_Value x) = append_canonical_uint64 dst 10 (ucast x)"
| "canonical_scalar dst (Uint32_Value x) = append_canonical_uint64 dst 11 (ucast x)"
| "canonical_scalar dst (Uint64_Value x) = append_canonical_uint64 dst 12 x"
| "canonical_scalar dst (Uintptr_Value x) = append_canonical_uint64 dst 13 x"
| "canonical_scalar dst (Float32_Value x) = append_canonical_uint64 dst 14 (ucast (canonical_float32_bits x))"
| "canonical_scalar dst (Float64_Value x) = append_canonical_uint64 dst 15 (canonical_float64_bits x)"

text \<open>Which values are one value for \<open>==\<close> and the encoding: the two zeros, and all NaNs.\<close>

fun canonical_value :: "scalar \<Rightarrow> scalar" where
  "canonical_value (Float32_Value x) = Float32_Value (canonical_float32_bits x)"
| "canonical_value (Float64_Value x) = Float64_Value (canonical_float64_bits x)"
| "canonical_value v = v"

section \<open>Integers\<close>

lemma uint_exp: "n < LENGTH('a) \<Longrightarrow> uint (2 ^ n :: 'a::len word) = 2 ^ n"
proof -
  have "uint (push_bit n (1 :: 'a word)) = take_bit LENGTH('a) (push_bit n (uint (1 :: 'a word)))"
    by (rule unsigned_push_bit_eq)
  then show "n < LENGTH('a) \<Longrightarrow> ?thesis" by (simp add: take_bit_int_eq_self)
qed

lemma flip_top_bit:
  fixes x :: "'a::len word"
  shows "x XOR push_bit (LENGTH('a) - 1) 1 = x + push_bit (LENGTH('a) - 1) 1"
proof -
  let ?t = "push_bit (LENGTH('a) - 1) 1 :: 'a word"
  have bit_t: "bit ?t n \<longleftrightarrow> n = LENGTH('a) - 1" for n by (auto simp: bit_simps)
  have add: "y + ?t = y XOR ?t" if "\<not> bit y (LENGTH('a) - 1)" for y
    by (rule disjunctive_add_eq_xor) (use that in \<open>auto intro!: bit_word_eqI simp: bit_simps\<close>)
  have two: "?t + ?t = 0"
  proof -
    have "?t + ?t = 2 ^ LENGTH('a)"
      using power_Suc [of "2 :: 'a word" "LENGTH('a) - 1"] by (simp add: push_bit_eq_mult)
    then show ?thesis by simp
  qed
  show ?thesis
  proof (cases "bit x (LENGTH('a) - 1)")
    case True
    then have "\<not> bit (x XOR ?t) (LENGTH('a) - 1)" by (simp only: bit_xor_iff bit_t simp_thms)
    from add [OF this] have "(x XOR ?t) + ?t = x" by (simp only: xor.assoc bit.xor_self xor.right_neutral)
    then have "x + ?t = (x XOR ?t) + (?t + ?t)" by (metis add.assoc)
    then show ?thesis unfolding two by simp
  next
    case False
    show ?thesis by (rule add [OF False, symmetric])
  qed
qed

text \<open>Flipping the sign bit adds half the range to the signed value.\<close>

lemma uint_flip_top:
  fixes x :: "'a::len word"
  shows "uint (x XOR push_bit (LENGTH('a) - 1) 1) = sint x + 2 ^ (LENGTH('a) - 1)"
proof -
  have "uint (x + push_bit (LENGTH('a) - 1) 1) = take_bit LENGTH('a) (uint x + 2 ^ (LENGTH('a) - 1))"
    by (simp add: uint_word_ariths(1) uint_exp take_bit_eq_mod)
  moreover have "sint x = take_bit LENGTH('a) (uint x + 2 ^ (LENGTH('a) - 1)) - 2 ^ (LENGTH('a) - 1)"
    using signed_take_bit_eq_take_bit_shift [of "LENGTH('a) - 1" "uint x"] by (simp add: sint_uint)
  ultimately show ?thesis unfolding flip_top_bit by simp
qed

lemma uint_unsigned_ordered_key:
  assumes "unat x < 2 ^ width" "0 < width" "width \<le> 64"
  shows "uint (unsigned_ordered_key x width) = uint x * 2 ^ (64 - width)"
proof -
  have "unat x * 2 ^ (64 - width) < 2 ^ width * 2 ^ (64 - width)" using assms(1) by simp
  then have "unat x * 2 ^ (64 - width) < 2 ^ 64" using assms(3) by (simp flip: power_add)
  then have "uint x * 2 ^ (64 - width) < 2 ^ 64" unfolding uint_nat by (simp flip: of_nat_less_iff [where 'a = int])
  then show ?thesis using assms(2,3)
    by (auto simp: unsigned_ordered_key_def uint_word_ariths(3) uint_exp push_bit_eq_mult)
qed

lemma uint_signed_ordered_key:
  fixes x :: "'a::len word"
  assumes "LENGTH('a) \<le> 64"
  shows "uint (signed_ordered_key (scast x) LENGTH('a)) = (sint x + 2 ^ (LENGTH('a) - 1)) * 2 ^ (64 - LENGTH('a))"
proof -
  let ?w = "LENGTH('a)"
  have low: "(if ?w < 64 then scast x AND (push_bit ?w 1 - 1) else scast x) = (ucast x :: u64)"
  proof (rule bit_word_eqI)
    fix n
    have min: "min (?w - 1) n = n" if "n < ?w" using that by simp
    show "bit (if ?w < 64 then scast x AND (push_bit ?w 1 - 1) else scast x :: u64) n \<longleftrightarrow> bit (ucast x :: u64) n" if "n < LENGTH(64)"
      using assms that min by (cases "n < ?w") (auto simp: bit_simps mask_eq_exp_minus_1 [symmetric] dest: bit_imp_le_length)
  qed
  have flip: "(ucast x :: u64) XOR push_bit (?w - 1) 1 = ucast (x XOR push_bit (?w - 1) 1)"
    by (rule bit_word_eqI) (use assms in \<open>auto simp: bit_simps dest: bit_imp_le_length\<close>)
  let ?y = "x XOR push_bit (?w - 1) 1"
  have "unat (ucast ?y :: u64) < 2 ^ ?w"
    using le_less_trans [OF take_bit_nat_less_eq_self [of 64 "unat ?y"] unsigned_less [of ?y]] by (simp only: unsigned_ucast_eq len_num1 len_bit0) simp
  from uint_unsigned_ordered_key [OF this len_gt_0 assms]
  have "uint (signed_ordered_key (scast x) ?w) = uint (ucast ?y :: u64) * 2 ^ (64 - ?w)"
    by (simp only: signed_ordered_key_def Let_def low flip)
  also have "uint (ucast ?y :: u64) = uint ?y" using assms by (simp add: uint_up_ucast is_up)
  finally show ?thesis unfolding uint_flip_top .
qed

section \<open>Floating point\<close>

lemma uint_low_bits:
  fixes b :: "'a::len word"
  shows "uint (take_bit (LENGTH('a) - 1) b) = uint b - (if bit b (LENGTH('a) - 1) then 2 ^ (LENGTH('a) - 1) else 0)"
proof -
  have "uint b = take_bit (Suc (LENGTH('a) - 1)) (uint b)" by (simp add: take_bit_int_eq_self)
  also have "\<dots> = 2 ^ (LENGTH('a) - 1) * of_bool (bit (uint b) (LENGTH('a) - 1)) + take_bit (LENGTH('a) - 1) (uint b)"
    by (rule take_bit_Suc_from_most)
  finally have "uint b = 2 ^ (LENGTH('a) - 1) * of_bool (bit b (LENGTH('a) - 1)) + take_bit (LENGTH('a) - 1) (uint b)"
    unfolding bit_uint_iff by simp
  then show ?thesis unfolding unsigned_take_bit_eq by (cases "bit b (LENGTH('a) - 1)") simp_all
qed

lemma uint_not: "uint (NOT b) = 2 ^ LENGTH('a) - 1 - uint b" for b :: "'a::len word"
  by (simp add: unsigned_not_eq take_bit_not_eq_mask_diff mask_eq_exp_minus_1 take_bit_int_eq_self)

lemma uint_flip_clear:
  fixes b :: "'a::len word"
  assumes "\<not> bit b (LENGTH('a) - 1)"
  shows "uint (b XOR push_bit (LENGTH('a) - 1) 1) = uint b + 2 ^ (LENGTH('a) - 1)"
proof -
  have "uint b = uint (take_bit (LENGTH('a) - 1) b)" unfolding uint_low_bits using assms by simp
  also have "\<dots> < 2 ^ (LENGTH('a) - 1)" by (simp add: unsigned_take_bit_eq)
  finally have "uint b + 2 ^ (LENGTH('a) - 1) < 2 ^ Suc (LENGTH('a) - 1)" unfolding power_Suc by linarith
  then have "take_bit LENGTH('a) (uint b + 2 ^ (LENGTH('a) - 1)) = uint b + 2 ^ (LENGTH('a) - 1)"
    by (simp add: take_bit_int_eq_self)
  moreover have "sint b = take_bit LENGTH('a) (uint b + 2 ^ (LENGTH('a) - 1)) - 2 ^ (LENGTH('a) - 1)"
    using signed_take_bit_eq_take_bit_shift [of "LENGTH('a) - 1" "uint b"] by (simp add: sint_uint)
  ultimately show ?thesis unfolding uint_flip_top by simp
qed

text \<open>An encoding as a sign and a magnitude: the order of the numbers is the order of these integers.\<close>

definition float32_rank :: "u32 \<Rightarrow> int" where
  "float32_rank b = (let m = uint (b AND 0x7fffffff) in if bit b 31 then - m else m)"

definition float64_rank :: "u64 \<Rightarrow> int" where
  "float64_rank b = (let m = uint (b AND 0x7fffffffffffffff) in if bit b 63 then - m else m)"

lemma low_bits: "b AND 0x7fffffff = take_bit 31 (b :: u32)" "c AND 0x7fffffffffffffff = take_bit 63 (c :: u64)"
  by (simp_all add: take_bit_eq_mask mask_eq_exp_minus_1)

lemma uint_ordered_float32:
  "uint (ordered_float32_bits b) = (if float32_nan b then 0 else 2 ^ 31 + float32_rank b - (if float32_rank b < 0 then 1 else 0))"
proof (cases "float32_nan b \<or> float32_zero b")
  case True
  then show ?thesis by (auto simp: ordered_float32_bits_def float32_rank_def float32_zero_def Let_def)
next
  case False
  then have "uint (b AND 0x7fffffff) \<noteq> 0" unfolding unsigned_eq_0_iff by (simp add: float32_zero_def)
  then have m: "0 < uint (b AND 0x7fffffff)" using unsigned_greater_eq [of "b AND 0x7fffffff", where 'a = int] by linarith
  have top: "b AND push_bit 31 1 \<noteq> 0 \<longleftrightarrow> bit b 31" by (rule bit_iff_and_push_bit_not_eq_0 [symmetric])
  have low: "uint (b AND 0x7fffffff) = uint b - (if bit b 31 then 2 ^ 31 else 0)"
    unfolding low_bits using uint_low_bits [of b] by simp
  show ?thesis
  proof (cases "bit b 31")
    case True
    with False m low show ?thesis
      by (simp add: ordered_float32_bits_def float32_rank_def uint_not Let_def top [simplified])
  next
    case clear: False
    with False uint_flip_clear [of b] low show ?thesis
      by (simp add: ordered_float32_bits_def float32_rank_def Let_def top [simplified])
  qed
qed

lemma uint_ordered_float64:
  "uint (ordered_float64_bits b) = (if float64_nan b then 0 else 2 ^ 63 + float64_rank b - (if float64_rank b < 0 then 1 else 0))"
proof (cases "float64_nan b \<or> float64_zero b")
  case True
  then show ?thesis by (auto simp: ordered_float64_bits_def float64_rank_def float64_zero_def Let_def)
next
  case False
  then have "uint (b AND 0x7fffffffffffffff) \<noteq> 0" unfolding unsigned_eq_0_iff by (simp add: float64_zero_def)
  then have m: "0 < uint (b AND 0x7fffffffffffffff)" using unsigned_greater_eq [of "b AND 0x7fffffffffffffff", where 'a = int] by linarith
  have top: "b AND push_bit 63 1 \<noteq> 0 \<longleftrightarrow> bit b 63" by (rule bit_iff_and_push_bit_not_eq_0 [symmetric])
  have low: "uint (b AND 0x7fffffffffffffff) = uint b - (if bit b 63 then 2 ^ 63 else 0)"
    unfolding low_bits using uint_low_bits [of b] by simp
  show ?thesis
  proof (cases "bit b 63")
    case True
    with False m low show ?thesis
      by (simp add: ordered_float64_bits_def float64_rank_def uint_not Let_def top [simplified])
  next
    case clear: False
    with False uint_flip_clear [of b] low show ?thesis
      by (simp add: ordered_float64_bits_def float64_rank_def Let_def top [simplified])
  qed
qed

section \<open>Keys preserve the order\<close>

text \<open>The type of a value and its position in the order of that type.\<close>

fun scalar_order :: "scalar \<Rightarrow> (nat \<times> int) option" where
  "scalar_order (Int_Value x) = Some (3, sint x)"
| "scalar_order (Int8_Value x) = Some (4, sint x)"
| "scalar_order (Int16_Value x) = Some (5, sint x)"
| "scalar_order (Int32_Value x) = Some (6, sint x)"
| "scalar_order (Int64_Value x) = Some (7, sint x)"
| "scalar_order (Uint_Value x) = Some (8, uint x)"
| "scalar_order (Uint8_Value x) = Some (9, uint x)"
| "scalar_order (Uint16_Value x) = Some (10, uint x)"
| "scalar_order (Uint32_Value x) = Some (11, uint x)"
| "scalar_order (Uint64_Value x) = Some (12, uint x)"
| "scalar_order (Uintptr_Value x) = Some (13, uint x)"
| "scalar_order (Float32_Value x) = Some (14, if float32_nan x then - (2 ^ 32) else float32_rank x)"
| "scalar_order (Float64_Value x) = Some (15, if float64_nan x then - (2 ^ 64) else float64_rank x)"
| "scalar_order _ = None"

lemma rank_bounds:
  "\<not> float32_nan b \<Longrightarrow> - 0x7f800000 \<le> float32_rank b" "\<not> float64_nan c \<Longrightarrow> - 0x7ff0000000000000 \<le> float64_rank c"
proof -
  have sign: "0 \<le> m \<Longrightarrow> m \<le> n \<Longrightarrow> - n \<le> (if s then - m else m)" for m n :: int and s by simp
  show "- 0x7f800000 \<le> float32_rank b" if "\<not> float32_nan b"
    unfolding float32_rank_def Let_def by (rule sign) (use that in \<open>simp_all add: float32_nan_def word_less_def not_less\<close>)
  show "- 0x7ff0000000000000 \<le> float64_rank c" if "\<not> float64_nan c"
    unfolding float64_rank_def Let_def by (rule sign) (use that in \<open>simp_all add: float64_nan_def word_less_def not_less\<close>)
qed

lemma float_bits_less:
  "ordered_float32_bits a < ordered_float32_bits b \<longleftrightarrow>
     (if float32_nan a then - (2 ^ 32) else float32_rank a) < (if float32_nan b then - (2 ^ 32) else float32_rank b)"
  "ordered_float64_bits c < ordered_float64_bits d \<longleftrightarrow>
     (if float64_nan c then - (2 ^ 64) else float64_rank c) < (if float64_nan d then - (2 ^ 64) else float64_rank d)"
  unfolding word_less_def uint_ordered_float32 uint_ordered_float64
  using rank_bounds(1) [of a] rank_bounds(1) [of b] rank_bounds(2) [of c] rank_bounds(2) [of d] by auto

lemma unsigned_key_less:
  fixes x y :: "'a::len word"
  assumes "LENGTH('a) \<le> 64"
  shows "unsigned_ordered_key (ucast x) LENGTH('a) < unsigned_ordered_key (ucast y) LENGTH('a) \<longleftrightarrow> uint x < uint y"
proof -
  have "uint (unsigned_ordered_key (ucast z) LENGTH('a)) = uint z * 2 ^ (64 - LENGTH('a))" for z :: "'a word"
  proof -
    have "unat (ucast z :: u64) < 2 ^ LENGTH('a)"
      using le_less_trans [OF take_bit_nat_less_eq_self [of 64 "unat z"] unsigned_less [of z]] by (simp only: unsigned_ucast_eq len_num1 len_bit0) simp
    from uint_unsigned_ordered_key [OF this len_gt_0 assms] show ?thesis using assms by (simp add: uint_up_ucast is_up)
  qed
  then show ?thesis by (simp add: word_less_def)
qed

lemma signed_key_less:
  fixes x y :: "'a::len word"
  assumes "LENGTH('a) \<le> 64"
  shows "signed_ordered_key (scast x) LENGTH('a) < signed_ordered_key (scast y) LENGTH('a) \<longleftrightarrow> sint x < sint y"
  unfolding word_less_def uint_signed_ordered_key [OF assms] by simp

lemmas key_less =
  signed_key_less [where 'a = 8, simplified] signed_key_less [where 'a = 16, simplified]
  signed_key_less [where 'a = 32, simplified] signed_key_less [where 'a = 64, simplified]
  unsigned_key_less [where 'a = 8, simplified] unsigned_key_less [where 'a = 16, simplified]
  unsigned_key_less [where 'a = 32, simplified] unsigned_key_less [where 'a = 64, simplified]

text \<open>
  The routing keys of two values of one Go type compare like the values: signed and unsigned integers of
  every width and floating-point numbers, where the two zeros are equal and NaNs come first.
\<close>

theorem ordered_key_monotone:
  assumes "scalar_order u = Some (kind, a)" "scalar_order v = Some (kind, b)" "ordered_scalar_key u = Some k" "ordered_scalar_key v = Some l"
  shows "k < l \<longleftrightarrow> a < b"
  using assms by (cases u; cases v) (auto simp: key_less float_bits_less unsigned_ordered_key_def [of _ 64] word_less_def [symmetric])

theorem ordered_key_monotone_witness:
  "signed_ordered_key (scast (- 5 :: u8)) 8 < signed_ordered_key (scast (3 :: u8)) 8
   \<and> \<not> unsigned_ordered_key (ucast (ordered_float32_bits 0)) 32 < unsigned_ordered_key (ucast (ordered_float32_bits 0x80000000)) 32"
  using ordered_key_monotone [of "Int8_Value (- 5)" _ _ "Int8_Value 3"] ordered_key_monotone [of "Float32_Value 0" _ _ "Float32_Value 0x80000000"]
  by (simp add: float32_nan_def float32_rank_def)

section \<open>Encodings are unambiguous\<close>

lemma append_uint64_inject: "append_uint64 [] x @ r = append_uint64 [] y @ s \<longleftrightarrow> x = y \<and> r = s"
proof
  assume eq: "append_uint64 [] x @ r = append_uint64 [] y @ s"
  then have bytes: "\<forall>k\<in>{7, 6, 5, 4, 3, 2, 1, 0}. (ucast (drop_bit (8 * k) x) :: u8) = ucast (drop_bit (8 * k) y)"
    by (simp add: append_uint64_def)
  have byte: "(ucast (drop_bit (8 * k) x) :: u8) = ucast (drop_bit (8 * k) y)" if "k < 8" for k
    by (rule bspec [OF bytes]) (use that in auto)
  have "x = y"
  proof (rule bit_word_eqI)
    fix n assume n: "n < LENGTH(64)"
    have low: "bit z n \<longleftrightarrow> bit (ucast (drop_bit (8 * (n div 8)) z) :: u8) (n mod 8)" for z :: u64
      using n by (simp add: bit_simps)
    have "n div 8 < 8" using n by simp
    from byte [OF this] show "bit x n \<longleftrightarrow> bit y n" unfolding low [of x] low [of y] by (rule arg_cong)
  qed
  with eq show "x = y \<and> r = s" by simp
qed simp

lemma scast_inject: "scast x = (scast y :: u64) \<longleftrightarrow> x = y" if "LENGTH('a) \<le> 64" for x y :: "'a::len word"
proof
  assume "scast x = (scast y :: u64)"
  then have "sint (scast x :: u64) = sint (scast y :: u64)" by simp
  then show "x = y" using that by (simp add: sint_up_scast is_up signed_word_eqI)
qed simp

lemma ucast_inject: "ucast x = (ucast y :: u64) \<longleftrightarrow> x = y" if "LENGTH('a) \<le> 64" for x y :: "'a::len word"
proof
  assume "ucast x = (ucast y :: u64)"
  then have "uint (ucast x :: u64) = uint (ucast y :: u64)" by simp
  then show "x = y" using that by (simp add: uint_up_ucast is_up unsigned_word_eqI)
qed simp

lemmas cast_inject =
  scast_inject [where 'a = 8, simplified] scast_inject [where 'a = 16, simplified] scast_inject [where 'a = 32, simplified]
  ucast_inject [where 'a = 8, simplified] ucast_inject [where 'a = 16, simplified] ucast_inject [where 'a = 32, simplified]

text \<open>A Go string is shorter than 2^63 bytes.\<close>

fun scalar_fits :: "scalar \<Rightarrow> bool" where
  "scalar_fits (String_Value s) = (length s < 2 ^ 63)"
| "scalar_fits _ = True"

lemma of_nat_length_inject: "m < 9223372036854775808 \<Longrightarrow> n < 9223372036854775808 \<Longrightarrow> (of_nat m :: u64) = of_nat n \<longleftrightarrow> m = n"
  by (simp add: word_of_nat_eq_iff take_bit_nat_eq_self)

lemma append_uint64_prefix: "append_uint64 dst x = dst @ append_uint64 [] x"
  by (simp add: append_uint64_def)

text \<open>
  C40: The canonical encoding is prefix-free: from a sequence of encoded scalars each value can be read back,
  with its type, up to the sign of zero and the payload of NaNs.
\<close>

theorem canonical_scalar_prefix_free:
  assumes "scalar_fits u" "scalar_fits v" "canonical_scalar [] u @ r = canonical_scalar [] v @ s"
  shows "canonical_value u = canonical_value v \<and> r = s"
  using assms
  by (cases u; cases v)
    (simp_all add: append_canonical_uint64_def append_uint64_prefix [of "[_]"] append_uint64_inject of_nat_length_inject cast_inject
      split: if_splits, auto)

theorem canonical_scalar_prefix_free_witness:
  "canonical_value (Float32_Value 0x80000000) = canonical_value (Float32_Value 0) \<and> [7, 8] = ([7, 8] :: u8 list)"
  by (rule canonical_scalar_prefix_free) (simp_all add: canonical_float32_bits_def float32_zero_def)

end
