(* ===== verification/Equality_Codec.thy ===== *)
theory Equality_Codec
  imports Scalar_Key
begin

text \<open>
  The stable equality hash (\<^verbatim>\<open>equality_hash.go\<close>, \<^verbatim>\<open>equality_codec.go\<close>) that lossy equality filters quantize. The
  codec is compiled from a Go type by reflection; types and values are data here, and the typed loads at
  fixed offsets of the compiled closures are selections of components.
\<close>

unbundle bit_operations_syntax

section \<open>FNV-1a and the final mix\<close>

definition fnv_offset64 :: u64 where
  "fnv_offset64 = 14695981039346656037"

definition fnv_prime64 :: u64 where
  "fnv_prime64 = 1099511628211"

definition fnv_hash_byte :: "u64 \<Rightarrow> u8 \<Rightarrow> u64" where
  "fnv_hash_byte hash b = (hash XOR ucast b) * fnv_prime64"

definition fnv_hash_uint64 :: "u64 \<Rightarrow> u64 \<Rightarrow> u64" where
  "fnv_hash_uint64 hash x = foldl (\<lambda>h shift. fnv_hash_byte h (ucast (drop_bit shift x))) hash [56, 48, 40, 32, 24, 16, 8, 0]"

definition avalanche :: "u64 \<Rightarrow> u64" where
  "avalanche hash =
     (let hash = hash XOR drop_bit 30 hash;
          hash = hash * 0xbf58476d1ce4e5b9;
          hash = hash XOR drop_bit 27 hash;
          hash = hash * 0x94d049bb133111eb
      in hash XOR drop_bit 31 hash)"

definition avalanche_tagged :: "u8 \<Rightarrow> u64 \<Rightarrow> u64" where
  "avalanche_tagged tag x = avalanche (fnv_hash_uint64 (fnv_hash_byte fnv_offset64 tag) x)"

definition stable_string_hash :: "u8 list \<Rightarrow> u64" where
  "stable_string_hash s = foldl fnv_hash_byte (fnv_hash_uint64 (fnv_hash_byte fnv_offset64 2) (of_nat (length s))) s"

fun hash_scalar :: "scalar \<Rightarrow> u64" where
  "hash_scalar (Bool_Value b) = fnv_hash_byte (fnv_hash_byte fnv_offset64 1) (if b then 1 else 0)"
| "hash_scalar (String_Value s) = stable_string_hash s"
| "hash_scalar (Int_Value x) = avalanche_tagged 3 x"
| "hash_scalar (Int8_Value x) = avalanche_tagged 4 (scast x)"
| "hash_scalar (Int16_Value x) = avalanche_tagged 5 (scast x)"
| "hash_scalar (Int32_Value x) = avalanche_tagged 6 (scast x)"
| "hash_scalar (Int64_Value x) = avalanche_tagged 7 x"
| "hash_scalar (Uint_Value x) = avalanche_tagged 8 x"
| "hash_scalar (Uint8_Value x) = avalanche_tagged 9 (ucast x)"
| "hash_scalar (Uint16_Value x) = avalanche_tagged 10 (ucast x)"
| "hash_scalar (Uint32_Value x) = avalanche_tagged 11 (ucast x)"
| "hash_scalar (Uint64_Value x) = avalanche_tagged 12 x"
| "hash_scalar (Uintptr_Value x) = avalanche_tagged 13 x"
| "hash_scalar (Float32_Value x) = avalanche_tagged 14 (ucast (canonical_float32_bits x))"
| "hash_scalar (Float64_Value x) = avalanche_tagged 15 (canonical_float64_bits x)"

text \<open>\<open>hashFixedBytes\<close>, with its unrolled chunks.\<close>

definition fnv_hash8 :: "u64 \<Rightarrow> u8 list \<Rightarrow> u64" where
  "fnv_hash8 hash bytes = foldl (\<lambda>h i. fnv_hash_byte h (bytes ! i)) hash [0, 1, 2, 3, 4, 5, 6, 7]"

definition hash_fixed_bytes :: "u64 \<Rightarrow> u8 list \<Rightarrow> u64" where
  "hash_fixed_bytes hash bytes =
     (let n = length bytes
      in if n = 8 then fnv_hash8 hash bytes
         else if n = 16 then fnv_hash8 (fnv_hash8 hash (take 8 bytes)) (drop 8 bytes)
         else if n = 20 then
           foldl fnv_hash_byte (fnv_hash8 (fnv_hash8 hash (take 8 bytes)) (take 8 (drop 8 bytes))) (drop 16 bytes)
         else if n = 24 then
           fnv_hash8 (fnv_hash8 (fnv_hash8 hash (take 8 bytes)) (take 8 (drop 8 bytes))) (drop 16 bytes)
         else if n = 32 then
           fnv_hash8 (fnv_hash8 (fnv_hash8 (fnv_hash8 hash (take 8 bytes)) (take 8 (drop 8 bytes))) (take 8 (drop 16 bytes)))
             (drop 24 bytes)
         else foldl fnv_hash_byte hash bytes)"

section \<open>Types and values\<close>

text \<open>A scalar kind is its canonical tag. Pointers, unsafe pointers and channels are one kind.\<close>

datatype go_type =
    Scalar_Type u8
  | Complex64_Type
  | Complex128_Type
  | Pointer_Type
  | Array_Type nat go_type
  | Struct_Type "(string \<times> go_type) list"
  | Interface_Type
  | Unsupported_Type string

datatype go_value =
    Scalar scalar
  | Complex64 u32 u32
  | Complex128 u64 u64
  | Pointer u64
  | Array "go_value list"
  | Struct "go_value list"

fun scalar_tag :: "scalar \<Rightarrow> u8" where
  "scalar_tag (Bool_Value _) = 1"
| "scalar_tag (String_Value _) = 2"
| "scalar_tag (Int_Value _) = 3"
| "scalar_tag (Int8_Value _) = 4"
| "scalar_tag (Int16_Value _) = 5"
| "scalar_tag (Int32_Value _) = 6"
| "scalar_tag (Int64_Value _) = 7"
| "scalar_tag (Uint_Value _) = 8"
| "scalar_tag (Uint8_Value _) = 9"
| "scalar_tag (Uint16_Value _) = 10"
| "scalar_tag (Uint32_Value _) = 11"
| "scalar_tag (Uint64_Value _) = 12"
| "scalar_tag (Uintptr_Value _) = 13"
| "scalar_tag (Float32_Value _) = 14"
| "scalar_tag (Float64_Value _) = 15"

fun value_byte :: "go_value \<Rightarrow> u8" where
  "value_byte (Scalar (Uint8_Value b)) = b"
| "value_byte _ = 0"

fun elements :: "go_value \<Rightarrow> go_value list" where
  "elements (Array vs) = vs"
| "elements (Struct vs) = vs"
| "elements _ = []"

section \<open>Compiling a codec\<close>

text \<open>Why a type has no codec; the text of the message is the path to the offending part.\<close>

datatype codec_reason =
    Interface_Reason
  | Unsupported_Reason string
  | Array_Element go_type codec_reason
  | Struct_Field string go_type codec_reason

fun complex_hash :: "go_value \<Rightarrow> u64" where
  "complex_hash (Complex64 re im) =
     avalanche (fnv_hash_uint64 (fnv_hash_uint64 (fnv_hash_byte fnv_offset64 0xe0) (ucast (canonical_float32_bits re)))
       (ucast (canonical_float32_bits im)))"
| "complex_hash (Complex128 re im) =
     avalanche (fnv_hash_uint64 (fnv_hash_uint64 (fnv_hash_byte fnv_offset64 0xe1) (canonical_float64_bits re))
       (canonical_float64_bits im))"
| "complex_hash _ = 0"

fun pointer_hash :: "go_value \<Rightarrow> u64" where
  "pointer_hash (Pointer address) = avalanche_tagged 0xe2 address"
| "pointer_hash _ = 0"

fun scalar_hash :: "go_value \<Rightarrow> u64" where
  "scalar_hash (Scalar s) = hash_scalar s"
| "scalar_hash _ = 0"

definition byte_array_hash :: "nat \<Rightarrow> go_value \<Rightarrow> u64" where
  "byte_array_hash n v =
     avalanche (hash_fixed_bytes (fnv_hash_uint64 (fnv_hash_byte fnv_offset64 0xf0) (of_nat n)) (map value_byte (elements v)))"

definition array_hash :: "nat \<Rightarrow> (go_value \<Rightarrow> u64) \<Rightarrow> go_value \<Rightarrow> u64" where
  "array_hash n child v =
     avalanche (foldl (\<lambda>h x. fnv_hash_uint64 h (child x)) (fnv_hash_uint64 (fnv_hash_byte fnv_offset64 0xf1) (of_nat n)) (elements v))"

definition struct_hash :: "(go_value \<Rightarrow> u64) list \<Rightarrow> go_value \<Rightarrow> u64" where
  "struct_hash children v =
     avalanche (foldl (\<lambda>h (child, x). fnv_hash_uint64 h (child x))
       (fnv_hash_uint64 (fnv_hash_byte fnv_offset64 0xf2) (of_nat (length children))) (zip children (elements v)))"

fun compile_codec :: "go_type \<Rightarrow> codec_reason + (go_value \<Rightarrow> u64)"
  and compile_fields :: "(string \<times> go_type) list \<Rightarrow> codec_reason + (go_value \<Rightarrow> u64) list" where
  "compile_codec (Scalar_Type tag) = Inr scalar_hash"
| "compile_codec Complex64_Type = Inr complex_hash"
| "compile_codec Complex128_Type = Inr complex_hash"
| "compile_codec Pointer_Type = Inr pointer_hash"
| "compile_codec (Array_Type n t) =
     (if t = Scalar_Type 9 then Inr (byte_array_hash n)
      else case compile_codec t of
             Inl reason \<Rightarrow> Inl (Array_Element t reason)
           | Inr child \<Rightarrow> Inr (array_hash n child))"
| "compile_codec (Struct_Type fields) =
     (case compile_fields fields of
        Inl reason \<Rightarrow> Inl reason
      | Inr children \<Rightarrow> Inr (struct_hash children))"
| "compile_codec Interface_Type = Inl Interface_Reason"
| "compile_codec (Unsupported_Type kind) = Inl (Unsupported_Reason kind)"
| "compile_fields [] = Inr []"
| "compile_fields ((name, t) # fields) =
     (case compile_codec t of
        Inl reason \<Rightarrow> Inl (Struct_Field name t reason)
      | Inr child \<Rightarrow>
          (case compile_fields fields of
             Inl reason \<Rightarrow> Inl reason
           | Inr children \<Rightarrow> Inr (child # children)))"

text \<open>
  The dispatch of \<open>compileEqualityCodec\<close>: \<open>named\<close> tells a defined type from the type literal that the type
  switch of \<open>hashScalar\<close> matches. A named scalar hashes as its underlying scalar, and a codec of a composite
  hashes the value in place.
\<close>

definition hash_bytes16 :: "u8 list \<Rightarrow> u64" where
  "hash_bytes16 bytes = avalanche (foldl fnv_hash_byte (fnv_hash_byte fnv_offset64 0xf0) bytes)"

definition hash_string_pair :: "u8 list list \<Rightarrow> u64" where
  "hash_string_pair items =
     avalanche (foldl (\<lambda>h item. foldl fnv_hash_byte (fnv_hash_uint64 h (of_nat (length item))) item) (fnv_hash_byte fnv_offset64 0xf1) items)"

fun value_string :: "go_value \<Rightarrow> u8 list" where
  "value_string (Scalar (String_Value s)) = s"
| "value_string _ = []"

definition compile_equality_codec :: "bool \<Rightarrow> go_type \<Rightarrow> codec_reason + (go_value \<Rightarrow> u64)" where
  "compile_equality_codec named t =
     (if \<not> named \<and> t = Array_Type 16 (Scalar_Type 9) then Inr (\<lambda>v. hash_bytes16 (map value_byte (elements v)))
      else if \<not> named \<and> t = Array_Type 2 (Scalar_Type 2) then Inr (\<lambda>v. hash_string_pair (map value_string (elements v)))
      else compile_codec t)"

section \<open>Precision\<close>

definition equality_terminal_level :: u32 where
  "equality_terminal_level = 17"

definition equality_quantizer :: "u32 \<Rightarrow> u32" where
  "equality_quantizer level = min level equality_terminal_level"

text \<open>The key of a hash at a level; the top \<open>17 - level\<close> bits remain from level 1 on.\<close>

definition quantized_key :: "u32 \<Rightarrow> u64 \<Rightarrow> u64" where
  "quantized_key level hash =
     (if level = 0 then hash
      else let retained = equality_terminal_level - level
           in if retained = 0 then 0
              else hash AND NOT (push_bit (64 - unat retained) 1 - 1))"


definition coarsen_key :: "u64 \<Rightarrow> u32 \<Rightarrow> u64" where
  "coarsen_key key next_level = quantized_key next_level key"

section \<open>The final mix loses nothing\<close>

lemma xor_shift_inject:
  fixes x y :: "'a::len word"
  assumes "x XOR drop_bit n x = y XOR drop_bit n y" "0 < n"
  shows "x = y"
proof (rule bit_word_eqI)
  have all: "\<forall>k. LENGTH('a) \<le> k + m \<longrightarrow> bit x k = bit y k" for m
  proof (induction m)
    case 0
    then show ?case by (auto dest: bit_imp_le_length)
  next
    case (Suc m)
    show ?case
    proof (intro allI impI)
      fix k assume "LENGTH('a) \<le> k + Suc m"
      then have "bit x (n + k) = bit y (n + k)" using Suc.IH assms(2) by simp
      moreover have "bit (x XOR drop_bit n x) k = bit (y XOR drop_bit n y) k" using assms(1) by simp
      ultimately show "bit x k = bit y k" by (auto simp: bit_xor_iff bit_drop_bit_eq)
    qed
  qed
  fix k show "bit x k \<longleftrightarrow> bit y k" using all [of "LENGTH('a)"] by simp
qed

lemma odd_multiplier_inject:
  fixes x y c d :: "'a::len word"
  assumes "c * d = 1" "x * c = y * c"
  shows "x = y"
proof -
  have "x = x * c * d" using assms(1) by (simp add: mult.assoc)
  also have "\<dots> = y" using assms by (simp add: mult.assoc)
  finally show ?thesis .
qed

text \<open>
  The final mix of every hash is a permutation of the 64-bit words, so it adds no collision to those of the
  byte hash: both shifts and both multiplications can be undone.
\<close>

theorem avalanche_inject: "avalanche x = avalanche y \<longleftrightarrow> x = y"
proof
  let ?mix = "\<lambda>z. (z XOR drop_bit 30 z) * (0xbf58476d1ce4e5b9 :: u64)"
  let ?mix2 = "\<lambda>z. (?mix z XOR drop_bit 27 (?mix z)) * (0x94d049bb133111eb :: u64)"
  assume "avalanche x = avalanche y"
  then have "?mix2 x XOR drop_bit 31 (?mix2 x) = ?mix2 y XOR drop_bit 31 (?mix2 y)" unfolding avalanche_def Let_def .
  then have "?mix2 x = ?mix2 y" by (rule xor_shift_inject) simp
  then have "?mix x XOR drop_bit 27 (?mix x) = ?mix y XOR drop_bit 27 (?mix y)"
    by (rule odd_multiplier_inject [where d = 3573116690164977347, rotated]) simp
  then have "?mix x = ?mix y" by (rule xor_shift_inject) simp
  then have "x XOR drop_bit 30 x = y XOR drop_bit 30 y"
    by (rule odd_multiplier_inject [where d = 10871156337175269513, rotated]) simp
  then show "x = y" by (rule xor_shift_inject) simp
qed simp

section \<open>Unrolled chunks\<close>

lemma fnv_hash8_foldl:
  assumes "length bytes = 8"
  shows "fnv_hash8 hash bytes = foldl fnv_hash_byte hash bytes"
proof -
  obtain a b c d e f g h where "bytes = [a, b, c, d, e, f, g, h]"
    using assms by (auto simp: length_Suc_conv numeral_eq_Suc)
  then show ?thesis by (simp add: fnv_hash8_def)
qed

lemma foldl_split: "foldl f (foldl f a (take n xs)) (drop n xs) = foldl f a xs"
  by (simp flip: foldl_append)

text \<open>
  The chunked byte hash for the common identifier and digest widths is the byte-by-byte FNV-1a hash, at
  every length.
\<close>

theorem hash_fixed_bytes_fnv: "hash_fixed_bytes hash bytes = foldl fnv_hash_byte hash bytes"
proof -
  have two: "foldl fnv_hash_byte (foldl fnv_hash_byte hash (take 8 bytes)) (take 8 (drop 8 bytes)) = foldl fnv_hash_byte hash (take 16 bytes)"
    using take_add [of 8 8 bytes] by simp
  have three: "foldl fnv_hash_byte (foldl fnv_hash_byte hash (take 16 bytes)) (take 8 (drop 16 bytes)) = foldl fnv_hash_byte hash (take 24 bytes)"
    using take_add [of 16 8 bytes] by simp
  show ?thesis unfolding hash_fixed_bytes_def Let_def
    by (auto simp: fnv_hash8_foldl foldl_split two three)
qed

section \<open>Equal values have equal hashes\<close>

text \<open>
  Go's \<open>==\<close> on values of one type: no NaN equals anything, the two zeros are equal, and a struct is compared
  on the fields that are not blank.
\<close>

fun scalar_equal :: "scalar \<Rightarrow> scalar \<Rightarrow> bool" where
  "scalar_equal (Float32_Value a) (Float32_Value b) =
     (\<not> float32_nan a \<and> \<not> float32_nan b \<and> (a = b \<or> float32_zero a \<and> float32_zero b))"
| "scalar_equal (Float64_Value a) (Float64_Value b) =
     (\<not> float64_nan a \<and> \<not> float64_nan b \<and> (a = b \<or> float64_zero a \<and> float64_zero b))"
| "scalar_equal u v = (u = v)"

fun complex_equal :: "go_value \<Rightarrow> go_value \<Rightarrow> bool" where
  "complex_equal (Complex64 a b) (Complex64 c d) =
     (scalar_equal (Float32_Value a) (Float32_Value c) \<and> scalar_equal (Float32_Value b) (Float32_Value d))"
| "complex_equal (Complex128 a b) (Complex128 c d) =
     (scalar_equal (Float64_Value a) (Float64_Value c) \<and> scalar_equal (Float64_Value b) (Float64_Value d))"
| "complex_equal u v = False"

fun go_equal :: "go_type \<Rightarrow> go_value \<Rightarrow> go_value \<Rightarrow> bool"
  and fields_equal :: "(string \<times> go_type) list \<Rightarrow> go_value list \<Rightarrow> go_value list \<Rightarrow> bool" where
  "go_equal (Scalar_Type tag) u v =
     (case (u, v) of (Scalar a, Scalar b) \<Rightarrow> scalar_tag a = tag \<and> scalar_tag b = tag \<and> scalar_equal a b | _ \<Rightarrow> False)"
| "go_equal Complex64_Type u v = complex_equal u v"
| "go_equal Complex128_Type u v = complex_equal u v"
| "go_equal Pointer_Type u v = (case (u, v) of (Pointer a, Pointer b) \<Rightarrow> a = b | _ \<Rightarrow> False)"
| "go_equal (Array_Type n t) u v =
     (case (u, v) of (Array us, Array vs) \<Rightarrow> length us = n \<and> list_all2 (go_equal t) us vs | _ \<Rightarrow> False)"
| "go_equal (Struct_Type fields) u v =
     (case (u, v) of (Struct us, Struct vs) \<Rightarrow> fields_equal fields us vs | _ \<Rightarrow> False)"
| "go_equal Interface_Type u v = False"
| "go_equal (Unsupported_Type kind) u v = False"
| "fields_equal [] us vs = (us = [] \<and> vs = [])"
| "fields_equal ((name, t) # fields) us vs =
     (case (us, vs) of
        (u # us, v # vs) \<Rightarrow> (name = ''_'' \<or> go_equal t u v) \<and> fields_equal fields us vs
      | _ \<Rightarrow> False)"

fun no_blank_field :: "go_type \<Rightarrow> bool"
  and no_blank_fields :: "(string \<times> go_type) list \<Rightarrow> bool" where
  "no_blank_field (Array_Type n t) = no_blank_field t"
| "no_blank_field (Struct_Type fields) = no_blank_fields fields"
| "no_blank_field _ = True"
| "no_blank_fields [] = True"
| "no_blank_fields ((name, t) # fields) = (name \<noteq> ''_'' \<and> no_blank_field t \<and> no_blank_fields fields)"

lemma canonical_zero: "float32_zero a \<Longrightarrow> canonical_float32_bits a = 0" "float64_zero b \<Longrightarrow> canonical_float64_bits b = 0"
  by (simp_all add: canonical_float32_bits_def canonical_float64_bits_def)

lemma scalar_equal_float_bits:
  "scalar_equal (Float32_Value a) (Float32_Value b) \<Longrightarrow> canonical_float32_bits a = canonical_float32_bits b"
  "scalar_equal (Float64_Value c) (Float64_Value d) \<Longrightarrow> canonical_float64_bits c = canonical_float64_bits d"
  by (auto simp: canonical_zero)

lemma hash_scalar_equal: "scalar_equal u v \<Longrightarrow> hash_scalar u = hash_scalar v"
  by (induction u v rule: scalar_equal.induct) (auto simp: canonical_zero)

lemma complex_hash_equal: "complex_equal u v \<Longrightarrow> complex_hash u = complex_hash v"
  by (induction u v rule: complex_equal.induct) (auto dest!: scalar_equal_float_bits simp del: scalar_equal.simps)

lemma value_byte_equal:
  assumes "go_equal (Scalar_Type 9) u v"
  shows "value_byte u = value_byte v"
proof -
  obtain a b where ab: "u = Scalar a" "v = Scalar b" "scalar_tag a = 9" "scalar_equal a b"
    using assms by (auto split: go_value.splits)
  have "a = b" using ab(3,4) by (cases a) auto
  with ab(1,2) show ?thesis by simp
qed

lemma codec_agrees:
  "compile_codec t = Inr hash \<Longrightarrow> no_blank_field t \<Longrightarrow> go_equal t u v \<Longrightarrow> hash u = hash v"
  "compile_fields fields = Inr hashes \<Longrightarrow> no_blank_fields fields \<Longrightarrow> fields_equal fields us vs
     \<Longrightarrow> list_all2 (\<lambda>h (x, y). h x = h y) hashes (zip us vs) \<and> length us = length vs \<and> length hashes = length us"
proof (induction t and fields arbitrary: hash u v and hashes us vs rule: compile_codec_compile_fields.induct)
  case (5 n t)
  from 5(4) obtain us vs where uv: "u = Array us" "v = Array vs" "list_all2 (go_equal t) us vs"
    by (auto split: go_value.splits)
  show ?case
  proof (cases "t = Scalar_Type 9")
    case True
    have "map value_byte us = map value_byte vs"
      using uv(3) unfolding True by (auto simp: list_all2_conv_all_nth intro!: nth_equalityI value_byte_equal)
    with True "5.prems"(1) uv(1,2) show ?thesis by (auto simp: byte_array_hash_def)
  next
    case False
    then obtain child where child: "compile_codec t = Inr child" "hash = array_hash n child"
      using "5.prems"(1) by (auto split: sum.splits)
    have same: "list_all2 (\<lambda>x y. child x = child y) us vs"
      using uv(3) by (rule list_all2_mono) (use 5 False child in auto)
    have "foldl (\<lambda>h x. fnv_hash_uint64 h (child x)) a us = foldl (\<lambda>h x. fnv_hash_uint64 h (child x)) a vs" for a
      using same by (induction us vs arbitrary: a rule: list_all2_induct) auto
    then show ?thesis by (simp add: child(2) uv(1,2) array_hash_def)
  qed
next
  case (6 fields)
  obtain us vs where uv: "u = Struct us" "v = Struct vs" "fields_equal fields us vs"
    using "6.prems"(3) by (auto split: go_value.splits)
  obtain hashes where hashes: "compile_fields fields = Inr hashes" "hash = struct_hash hashes"
    using "6.prems"(1) by (auto split: sum.splits)
  have same: "list_all2 (\<lambda>h (x, y). h x = h y) hashes (zip us vs)" "length us = length vs" "length hashes = length us"
    using 6 uv(3) hashes(1) by auto
  have "foldl (\<lambda>h (child, x). fnv_hash_uint64 h (child x)) a (zip hashes us)
      = foldl (\<lambda>h (child, x). fnv_hash_uint64 h (child x)) a (zip hashes vs)" for a
    using same(3,2,1) by (induction hashes us vs arbitrary: a rule: list_induct3) auto
  then show ?case by (simp add: hashes(2) uv(1,2) struct_hash_def)
next
  case (10 name t fields)
  then obtain child children where parts: "compile_codec t = Inr child" "compile_fields fields = Inr children" "hashes = child # children"
    by (auto split: sum.splits)
  obtain u us' v vs' where "us = u # us'" "vs = v # vs'" "go_equal t u v" "fields_equal fields us' vs'"
    using "10.prems" by (cases us; cases vs) auto
  with 10 parts show ?case by auto
qed (auto split: go_value.splits simp: hash_scalar_equal complex_hash_equal)

text \<open>
  C37: Two values of one type without blank fields that are equal in Go have the same stable hash, through
  arrays and nested structs, whatever the sign of their zeros: quantizing the hash cannot separate them.
\<close>

theorem codec_respects_equality:
  assumes "compile_equality_codec named t = Inr hash" "no_blank_field t" "go_equal t u v"
  shows "hash u = hash v"
proof -
  consider "t = Array_Type 16 (Scalar_Type 9)" "hash = (\<lambda>v. hash_bytes16 (map value_byte (elements v)))"
    | "t = Array_Type 2 (Scalar_Type 2)" "hash = (\<lambda>v. hash_string_pair (map value_string (elements v)))"
    | "compile_codec t = Inr hash"
    using assms(1) unfolding compile_equality_codec_def by (metis sum.inject(2))
  then show ?thesis
  proof cases
    case 1
    then obtain us vs where uv: "u = Array us" "v = Array vs" "list_all2 (go_equal (Scalar_Type 9)) us vs"
      using assms(3) by (auto split: go_value.splits)
    have "map value_byte us = map value_byte vs"
      using uv(3) by (auto simp: list_all2_conv_all_nth intro!: nth_equalityI value_byte_equal)
    with 1 uv show ?thesis by simp
  next
    case 2
    then obtain us vs where uv: "u = Array us" "v = Array vs" "list_all2 (go_equal (Scalar_Type 2)) us vs"
      using assms(3) by (auto split: go_value.splits)
    have "value_string a = value_string b" if eq: "go_equal (Scalar_Type 2) a b" for a b
    proof -
      obtain c d where cd: "a = Scalar c" "b = Scalar d" "scalar_tag c = 2" "scalar_equal c d"
        using eq by (auto split: go_value.splits)
      have "c = d" using cd(3,4) by (cases c) auto
      with cd show ?thesis by simp
    qed
    then have "map value_string us = map value_string vs"
      using uv(3) by (auto simp: list_all2_conv_all_nth intro!: nth_equalityI)
    with 2 uv show ?thesis by simp
  next
    case 3
    then show ?thesis using assms(2,3) by (rule codec_agrees(1))
  qed
qed

theorem codec_respects_equality_witness:
  "hash_scalar (Float32_Value 0x80000000) = hash_scalar (Float32_Value 0)"
  using codec_respects_equality [of False "Scalar_Type 14" scalar_hash "Scalar (Float32_Value 0x80000000)" "Scalar (Float32_Value 0)"]
  by (simp add: compile_equality_codec_def float32_zero_def float32_nan_def)

text \<open>A blank field is hashed although \<open>==\<close> ignores it.\<close>

lemma blank_field_hashed:
  "go_equal (Struct_Type [(''_'', Scalar_Type 11)]) (Struct [Scalar (Uint32_Value 0)]) (Struct [Scalar (Uint32_Value 1)])
   \<and> struct_hash [scalar_hash] (Struct [Scalar (Uint32_Value 0)]) \<noteq> struct_hash [scalar_hash] (Struct [Scalar (Uint32_Value 1)])"
  by code_simp

section \<open>Which types have a codec\<close>

inductive has_part :: "go_type \<Rightarrow> go_type \<Rightarrow> bool" where
  itself: "has_part t t"
| element: "has_part t p \<Longrightarrow> has_part (Array_Type n t) p"
| field: "(name, t) \<in> set fields \<Longrightarrow> has_part t p \<Longrightarrow> has_part (Struct_Type fields) p"

inductive_simps has_part_simps [simp]:
  "has_part (Array_Type n t) p" "has_part (Struct_Type fields) p" "has_part Interface_Type p" "has_part (Unsupported_Type k) p"
  "has_part (Scalar_Type k) p" "has_part Complex64_Type p" "has_part Complex128_Type p" "has_part Pointer_Type p"

definition unsupported_part :: "go_type \<Rightarrow> bool" where
  "unsupported_part p = (case p of Interface_Type \<Rightarrow> True | Unsupported_Type kind \<Rightarrow> True | _ \<Rightarrow> False)"

lemma unsupported_part_simps [simp]:
  "unsupported_part Interface_Type" "unsupported_part (Unsupported_Type kind)" "\<not> unsupported_part (Scalar_Type tag)"
  "\<not> unsupported_part Complex64_Type" "\<not> unsupported_part Complex128_Type" "\<not> unsupported_part Pointer_Type"
  "\<not> unsupported_part (Array_Type n t)" "\<not> unsupported_part (Struct_Type fields)"
  by (simp_all add: unsupported_part_def)

text \<open>The part a failure names.\<close>

fun blamed :: "codec_reason \<Rightarrow> go_type" where
  "blamed Interface_Reason = Interface_Type"
| "blamed (Unsupported_Reason kind) = Unsupported_Type kind"
| "blamed (Array_Element t reason) = blamed reason"
| "blamed (Struct_Field name t reason) = blamed reason"

lemma compile_codec_parts:
  "case compile_codec t of
     Inl reason \<Rightarrow> has_part t (blamed reason) \<and> unsupported_part (blamed reason)
   | Inr hash \<Rightarrow> (\<forall>p. has_part t p \<longrightarrow> \<not> unsupported_part p)"
  "case compile_fields fields of
     Inl reason \<Rightarrow> has_part (Struct_Type fields) (blamed reason) \<and> unsupported_part (blamed reason)
   | Inr hashes \<Rightarrow> (\<forall>name t p. (name, t) \<in> set fields \<longrightarrow> has_part t p \<longrightarrow> \<not> unsupported_part p)"
proof (induction t and fields rule: compile_codec_compile_fields.induct)
qed (auto 4 4 split: sum.splits)

text \<open>
  C38: A type has a codec exactly when no part of it, through arrays and structs, is an interface or another
  kind without a stable encoding; otherwise the error leads to such a part.
\<close>

theorem codec_exists_iff:
  "case compile_equality_codec named t of
     Inr hash \<Rightarrow> (\<nexists>p. has_part t p \<and> unsupported_part p)
   | Inl reason \<Rightarrow> has_part t (blamed reason) \<and> unsupported_part (blamed reason)"
  using compile_codec_parts(1) [of t] by (auto simp: compile_equality_codec_def split: sum.splits)

section \<open>Precision levels nest\<close>

lemma unat_level: "l \<le> 17 \<Longrightarrow> unat (17 - l :: u32) = 17 - unat l"
  by (simp add: unat_sub)

lemma bit_quantized_key:
  assumes "level \<le> 17"
  shows "bit (quantized_key level hash) k \<longleftrightarrow> bit hash k \<and> (level = 0 \<or> 47 + unat level \<le> k)"
proof (cases "level = 0 \<or> level = 17")
  case True
  then show ?thesis by (auto simp: quantized_key_def equality_terminal_level_def dest: bit_imp_le_length)
next
  case False
  have "unat level \<le> 17" using assms unfolding word_le_nat_alt by simp
  moreover have "0 < unat level" using False by (simp add: unat_gt_0)
  ultimately have n: "64 - unat (17 - level) = 47 + unat level" using assms by (simp add: unat_level)
  have "quantized_key level hash = hash AND NOT (mask (47 + unat level))"
    using False n by (simp add: quantized_key_def equality_terminal_level_def mask_eq_exp_minus_1)
  with False show ?thesis by (auto simp: bit_simps not_le dest: bit_imp_le_length)
qed

lemma quantizer_bound: "equality_quantizer level \<le> 17"
  by (simp add: equality_quantizer_def equality_terminal_level_def)

text \<open>
  Coarsening a stored key to a later level gives the key the hash would have had at that level, so keys
  never have to be recomputed from values, and two values merged at a level stay merged at every later one.
\<close>

theorem coarsen_key_compose:
  assumes "l \<le> m"
  shows "coarsen_key (quantized_key (equality_quantizer l) hash) (equality_quantizer m) = quantized_key (equality_quantizer m) hash"
proof -
  let ?l = "equality_quantizer l" and ?m = "equality_quantizer m"
  have le: "?l \<le> ?m" using assms by (simp add: equality_quantizer_def min_le_iff_disj)
  then have "unat ?l \<le> unat ?m" by (simp add: word_le_nat_alt)
  moreover have "?l = 0 \<or> ?m \<noteq> 0" using le by auto
  ultimately show ?thesis unfolding coarsen_key_def
    by (intro bit_word_eqI) (auto simp: bit_quantized_key [OF quantizer_bound])
qed

theorem coarsen_key_compose_witness:
  "coarsen_key (quantized_key (equality_quantizer 3) 0xabcdef0123456789) (equality_quantizer 40) = 0
   \<and> quantized_key (equality_quantizer 3) 0xabcdef0123456789 = 0xabcc000000000000"
  using coarsen_key_compose [of 3 40 "0xabcdef0123456789"]
  by (simp add: equality_quantizer_def equality_terminal_level_def quantized_key_def)

end
