(* ===== verification/Posting_Rebuild.thy ===== *)
theory Posting_Rebuild
  imports Roaring Equality_Codec "HOL-Library.AList"
begin

text \<open>
  Lossy posting lists (\<^verbatim>\<open>lossy_levels.go\<close>, \<^verbatim>\<open>posting_rebuild.go\<close>): a generation of postings under
  transformed keys, and its rebuild at the next level, where postings whose keys collide are merged.
  A Go map is an association list with distinct keys; what the code computes from its iteration order
  does not depend on that order (\<open>generation_usage_perm\<close>).
\<close>

section \<open>Levels\<close>

type_synonym 'k levels = "('k \<Rightarrow> 'k) list"

definition terminal_level :: "'k levels \<Rightarrow> u32" where
  "terminal_level steps = of_nat (length steps)"

definition levels_key :: "'k levels \<Rightarrow> 'k \<Rightarrow> u32 \<Rightarrow> 'k" where
  "levels_key steps exact level =
     foldl (\<lambda>key n. (steps ! n) key) exact [0..<unat (min level (terminal_level steps))]"

definition levels_next :: "'k levels \<Rightarrow> 'k \<Rightarrow> u32 \<Rightarrow> 'k \<times> bool" where
  "levels_next steps current level =
     (if terminal_level steps \<le> level then (current, False) else ((steps ! unat level) current, True))"

section \<open>Rebuilding a generation\<close>

type_synonym ('k, 'b) generation = "('k \<times> 'b) list"

definition add_lossy_memory :: "u64 \<Rightarrow> u64 \<Rightarrow> u64 option" where
  "add_lossy_memory total_bytes usage = (if max_u64 - total_bytes < usage then None else Some (total_bytes + usage))"

fun generation_usage :: "'b roaring \<Rightarrow> u64 \<Rightarrow> u64 \<Rightarrow> ('k, 'b) generation \<Rightarrow> u64 option" where
  "generation_usage R entry_bytes usage [] = Some usage"
| "generation_usage R entry_bytes usage ((_, bits) # rest) =
     (case add_lossy_memory usage entry_bytes of
        None \<Rightarrow> None
      | Some usage \<Rightarrow>
          (case add_lossy_memory usage (bm_bytes R bits) of
             None \<Rightarrow> None
           | Some usage \<Rightarrow> generation_usage R entry_bytes usage rest))"

text \<open>\<open>old[key]\<close> is nil for a key that is not in the map; no stored bitmap is nil.\<close>

definition merge_posting ::
  "'b roaring \<Rightarrow> ('k, 'b) generation \<Rightarrow> ('k \<Rightarrow> 'k) \<Rightarrow> ('k, 'b) generation \<Rightarrow> 'k \<Rightarrow> ('k, 'b) generation" where
  "merge_posting R old coarsen next_gen key =
     (case (map_of next_gen (coarsen key), map_of old key) of
        (Some merged, Some bits) \<Rightarrow> AList.update (coarsen key) (bm_or R merged bits) next_gen
      | (None, Some bits) \<Rightarrow> AList.update (coarsen key) bits next_gen
      | _ \<Rightarrow> next_gen)"

definition rebuild_generation_in_order ::
  "'b roaring \<Rightarrow> ('k, 'b) generation \<Rightarrow> 'k list \<Rightarrow> int \<Rightarrow> u64 \<Rightarrow> ('k \<Rightarrow> 'k) \<Rightarrow> (('k, 'b) generation \<times> u64) option" where
  "rebuild_generation_in_order R old keys capacity entry_bytes coarsen =
     (if capacity < 0 then None
      else let next_gen = foldl (merge_posting R old coarsen) [] keys
           in case generation_usage R entry_bytes 0 next_gen of
                None \<Rightarrow> None
              | Some usage \<Rightarrow> Some (next_gen, usage))"

definition rebuild_generation ::
  "'b roaring \<Rightarrow> ('k :: linorder, 'b) generation \<Rightarrow> int \<Rightarrow> u64 \<Rightarrow> ('k \<Rightarrow> 'k) \<Rightarrow> (('k, 'b) generation \<times> u64) option" where
  "rebuild_generation R old capacity entry_bytes coarsen =
     rebuild_generation_in_order R old (sort (map fst old)) capacity entry_bytes coarsen"

section \<open>The build state of one list\<close>

record ('k, 'b) lossy_state =
  ls_generation :: "('k, 'b) generation"
  ls_levels :: "'k levels"
  ls_level :: u32
  ls_entry_bytes :: u64
  ls_retained :: u64

record lossy_accounting =
  la_retained :: u64
  la_transient :: u64

definition new_lossy_state :: "'k levels \<Rightarrow> u64 \<Rightarrow> ('k, 'b) lossy_state" where
  "new_lossy_state steps entry_bytes =
     \<lparr>ls_generation = [], ls_levels = steps, ls_level = 0, ls_entry_bytes = entry_bytes, ls_retained = 0\<rparr>"

definition storage_key :: "('k, 'b) lossy_state \<Rightarrow> 'k \<Rightarrow> 'k" where
  "storage_key s exact = levels_key (ls_levels s) exact (ls_level s)"

definition lossy_insert :: "'b roaring \<Rightarrow> ('k, 'b) lossy_state \<Rightarrow> 'k \<Rightarrow> u32 \<Rightarrow> ('k, 'b) lossy_state \<times> bool" where
  "lossy_insert R s exact i =
     (let key = storage_key s exact;
          current = map_of (ls_generation s) key;
          next_bits = bm_add R (case current of Some bits \<Rightarrow> bits | None \<Rightarrow> bm_new R) i;
          before = (case current of Some bits \<Rightarrow> bm_bytes R bits | None \<Rightarrow> 0);
          after = bm_bytes R next_bits;
          usage = (if current = None then add_lossy_memory (ls_retained s) (ls_entry_bytes s) else Some (ls_retained s))
      in case usage of
           None \<Rightarrow> (s, False)
         | Some usage \<Rightarrow>
             (case (if before \<le> after then add_lossy_memory usage (after - before) else Some (usage - (before - after))) of
                None \<Rightarrow> (s, False)
              | Some usage \<Rightarrow>
                  (s\<lparr>ls_generation := AList.update key next_bits (ls_generation s), ls_retained := usage\<rparr>, True)))"

definition rebuild_next :: "'b roaring \<Rightarrow> ('k :: linorder, 'b) lossy_state \<Rightarrow> ('k, 'b) lossy_state \<times> lossy_accounting option" where
  "rebuild_next R s =
     (if terminal_level (ls_levels s) \<le> ls_level s then (s, None)
      else case rebuild_generation R (ls_generation s) (int (length (ls_generation s))) (ls_entry_bytes s)
             (\<lambda>key. fst (levels_next (ls_levels s) key (ls_level s))) of
             None \<Rightarrow> (s, None)
           | Some (next_gen, usage) \<Rightarrow>
               (s\<lparr>ls_generation := next_gen, ls_level := ls_level s + 1, ls_retained := usage\<rparr>,
                Some \<lparr>la_retained = usage, la_transient = usage\<rparr>))"

section \<open>What a build has stored\<close>

text \<open>The IDs of the inserted constraints whose value, or its absence, satisfies a predicate.\<close>

definition stored_ids :: "('t \<Rightarrow> 'v option) \<Rightarrow> ('t \<times> u32) list \<Rightarrow> ('v option \<Rightarrow> bool) \<Rightarrow> u32 set" where
  "stored_ids get h P = {i. \<exists>t. (t, i) \<in> set h \<and> P (get t)}"

lemma stored_ids_simps [simp]:
  "stored_ids get [] P = {}"
  "stored_ids get (h @ [(t, i)]) P = (if P (get t) then insert i (stored_ids get h P) else stored_ids get h P)"
  by (auto simp: stored_ids_def)

section \<open>Accounting\<close>

lemma unat_max_minus: "unat (max_u64 - a) = 2 ^ 64 - 1 - unat a"
proof -
  have "a \<le> max_u64" by (simp add: word_le_nat_alt unsigned_minus_1_eq_mask mask_eq_exp_minus_1) (use unsigned_less [of a, where 'a = nat] in simp)
  then show ?thesis by (simp add: unat_sub unsigned_minus_1_eq_mask mask_eq_exp_minus_1)
qed

lemma add_lossy_memory_iff:
  "add_lossy_memory a b = Some c \<longleftrightarrow> unat a + unat b < 2 ^ 64 \<and> unat c = unat a + unat b"
proof -
  have "\<not> max_u64 - a < b \<longleftrightarrow> unat a + unat b < 2 ^ 64"
    using unsigned_less [of a, where 'a = nat] by (auto simp: word_less_nat_alt unat_max_minus)
  moreover have "unat a + unat b < 2 ^ 64 \<Longrightarrow> c = a + b \<longleftrightarrow> unat c = unat a + unat b"
    using unat_add_lem [of a b] by (auto simp: word_unat_eq_iff)
  ultimately show ?thesis by (auto simp: add_lossy_memory_def)
qed

lemma add_lossy_memory_None: "add_lossy_memory a b = None \<longleftrightarrow> 2 ^ 64 \<le> unat a + unat b"
  using unsigned_less [of a, where 'a = nat] by (auto simp: add_lossy_memory_def word_less_nat_alt unat_max_minus)

definition generation_bytes :: "'b roaring \<Rightarrow> u64 \<Rightarrow> ('k, 'b) generation \<Rightarrow> nat" where
  "generation_bytes R entry_bytes g = (\<Sum>(_, bits)\<leftarrow>g. unat entry_bytes + unat (bm_bytes R bits))"

lemma generation_usage_iff:
  "generation_usage R entry_bytes usage g = Some x \<longleftrightarrow>
     unat usage + generation_bytes R entry_bytes g < 2 ^ 64 \<and> unat x = unat usage + generation_bytes R entry_bytes g"
proof (induction R entry_bytes usage g rule: generation_usage.induct)
  case (1 R entry_bytes usage)
  show ?case using unsigned_less [of usage, where 'a = nat] by (auto simp: generation_bytes_def word_unat_eq_iff)
next
  case (2 R entry_bytes usage k bits rest)
  show ?case
  proof (cases "add_lossy_memory usage entry_bytes")
    case None
    then have "2 ^ 64 \<le> unat usage + unat entry_bytes" unfolding add_lossy_memory_None .
    with None show ?thesis by (simp add: generation_bytes_def)
  next
    case (Some a)
    show ?thesis
    proof (cases "add_lossy_memory a (bm_bytes R bits)")
      case None
      then have "2 ^ 64 \<le> unat a + unat (bm_bytes R bits)" unfolding add_lossy_memory_None .
      moreover have "unat a = unat usage + unat entry_bytes" using Some unfolding add_lossy_memory_iff by simp
      ultimately show ?thesis using Some None by (simp add: generation_bytes_def)
    next
      case b: (Some b)
      note IH = "2.IH" [OF Some b]
      have "unat b = unat usage + unat entry_bytes + unat (bm_bytes R bits)"
        using Some b unfolding add_lossy_memory_iff by simp
      then show ?thesis by (simp add: Some b IH generation_bytes_def add.assoc)
    qed
  qed
qed

lemma generation_usage_perm:
  assumes "mset g = mset h"
  shows "generation_usage R entry_bytes usage g = generation_usage R entry_bytes usage h"
proof -
  have "generation_bytes R entry_bytes g = generation_bytes R entry_bytes h"
    unfolding generation_bytes_def by (simp add: assms flip: sum_mset_sum_list)
  then have "generation_usage R entry_bytes usage g = Some x \<longleftrightarrow> generation_usage R entry_bytes usage h = Some x" for x
    unfolding generation_usage_iff by simp
  note same = this
  show ?thesis
  proof (cases "generation_usage R entry_bytes usage g")
    case None
    then show ?thesis using same [of "the (generation_usage R entry_bytes usage h)"] by (cases "generation_usage R entry_bytes usage h") simp_all
  next
    case (Some x)
    then show ?thesis using same [of x] by simp
  qed
qed

lemma generation_bytes_update:
  "distinct (map fst g) \<Longrightarrow>
   generation_bytes R entry_bytes (AList.update k bits g) + (case map_of g k of Some old \<Rightarrow> unat entry_bytes + unat (bm_bytes R old) | None \<Rightarrow> 0)
     = generation_bytes R entry_bytes g + (unat entry_bytes + unat (bm_bytes R bits))"
proof (induction g)
  case (Cons p g)
  then show ?case by (cases p) (auto simp: generation_bytes_def map_of_eq_None_iff split: option.splits)
qed (simp add: generation_bytes_def)

lemma generation_bytes_member:
  assumes "map_of g k = Some bits"
  shows "unat (bm_bytes R bits) \<le> generation_bytes R entry_bytes g"
proof -
  have "unat entry_bytes + unat (bm_bytes R bits) \<in> set (map (\<lambda>(_, bits). unat entry_bytes + unat (bm_bytes R bits)) g)"
    using map_of_SomeD [OF assms] by force
  from member_le_sum_list [OF this] show ?thesis by (simp add: generation_bytes_def)
qed

section \<open>Merging\<close>

definition gen_posting :: "'b roaring \<Rightarrow> ('k, 'b) generation \<Rightarrow> 'k \<Rightarrow> u32 set" where
  "gen_posting R g k = (case map_of g k of None \<Rightarrow> {} | Some bits \<Rightarrow> bm_ids R bits)"

lemma distinct_merge: "distinct (map fst g) \<Longrightarrow> distinct (map fst (merge_posting R old coarsen g key))"
  by (auto simp: merge_posting_def distinct_update split: option.splits)

lemma distinct_merge_fold: "distinct (map fst g) \<Longrightarrow> distinct (map fst (foldl (merge_posting R old coarsen) g keys))"
  by (induction keys arbitrary: g) (auto simp: distinct_merge)

context roaring
begin

lemma gen_posting_merge:
  "gen_posting R (merge_posting R old coarsen g key) c =
     gen_posting R g c \<union> (if coarsen key = c then gen_posting R old key else {})"
  by (auto simp: gen_posting_def merge_posting_def update_conv' ids_or split: option.splits)

lemma gen_posting_merge_fold:
  "gen_posting R (foldl (merge_posting R old coarsen) g keys) c =
     gen_posting R g c \<union> (\<Union>k\<in>{k \<in> set keys. coarsen k = c}. gen_posting R old k)"
  by (induction keys arbitrary: g) (auto simp: gen_posting_merge)

lemma rebuild_generation_posting:
  assumes "rebuild_generation R old capacity entry_bytes coarsen = Some (g, usage)"
  shows "gen_posting R g c = (\<Union>k\<in>{k. coarsen k = c}. gen_posting R old k)"
proof -
  have g: "g = foldl (merge_posting R old coarsen) [] (sort (map fst old))"
    using assms by (auto simp: rebuild_generation_def rebuild_generation_in_order_def Let_def split: if_splits option.splits)
  have "k \<in> set (sort (map fst old))" if "i \<in> gen_posting R old k" for i k
    using that by (cases "map_of old k") (auto simp: gen_posting_def dest: map_of_SomeD intro: rev_image_eqI)
  then have "(\<Union>k\<in>{k \<in> set (sort (map fst old)). coarsen k = c}. gen_posting R old k) = (\<Union>k\<in>{k. coarsen k = c}. gen_posting R old k)"
    by blast
  then show ?thesis unfolding g gen_posting_merge_fold by (simp add: gen_posting_def)
qed

end

lemma rebuild_generation_usage:
  assumes "rebuild_generation R old capacity entry_bytes coarsen = Some (g, usage)"
  shows "distinct (map fst g)" "unat usage = generation_bytes R entry_bytes g"
proof -
  have g: "g = foldl (merge_posting R old coarsen) [] (sort (map fst old))" "generation_usage R entry_bytes 0 g = Some usage"
    using assms by (auto simp: rebuild_generation_def rebuild_generation_in_order_def Let_def split: if_splits option.splits)
  show "distinct (map fst g)" unfolding g(1) by (rule distinct_merge_fold) simp
  show "unat usage = generation_bytes R entry_bytes g" using g(2) unfolding generation_usage_iff by simp
qed

section \<open>The states of a build\<close>

lemma levels_key_zero [simp]: "levels_key steps exact 0 = exact"
  by (simp add: levels_key_def)

lemma levels_key_Suc:
  assumes "level < terminal_level steps"
  shows "levels_key steps exact (level + 1) = (steps ! unat level) (levels_key steps exact level)"
proof -
  have "unat level + 1 < 2 ^ 32"
    using assms unsigned_less [of "terminal_level steps", where 'a = nat] by (simp add: word_less_nat_alt)
  then have "unat (level + 1) = Suc (unat level)" using unat_add_lem [of level 1] by simp
  moreover have "min (level + 1) (terminal_level steps) = level + 1" "min level (terminal_level steps) = level"
    using assms by (simp_all add: inc_le min_absorb1)
  ultimately show ?thesis by (simp add: levels_key_def)
qed

text \<open>
  What a build can do to its state: accept a posting, reject it, or rebuild; the second argument lists the
  accepted postings.
\<close>

inductive lossy_reachable ::
  "'b roaring \<Rightarrow> ('k :: linorder) levels \<Rightarrow> u64 \<Rightarrow> ('k, 'b) lossy_state \<Rightarrow> ('k \<times> u32) list \<Rightarrow> bool"
  for R steps entry_bytes where
  start: "lossy_reachable R steps entry_bytes (new_lossy_state steps entry_bytes) []"
| accept: "lossy_reachable R steps entry_bytes s h \<Longrightarrow> lossy_insert R s exact i = (s', True)
    \<Longrightarrow> lossy_reachable R steps entry_bytes s' (h @ [(exact, i)])"
| reject: "lossy_reachable R steps entry_bytes s h \<Longrightarrow> lossy_insert R s exact i = (s', False)
    \<Longrightarrow> lossy_reachable R steps entry_bytes s' h"
| rebuild: "lossy_reachable R steps entry_bytes s h \<Longrightarrow> rebuild_next R s = (s', accounting)
    \<Longrightarrow> lossy_reachable R steps entry_bytes s' h"

definition lossy_ok :: "'b roaring \<Rightarrow> ('k, 'b) lossy_state \<Rightarrow> bool" where
  "lossy_ok R s \<longleftrightarrow> distinct (map fst (ls_generation s)) \<and> ls_level s \<le> terminal_level (ls_levels s)
     \<and> unat (ls_retained s) = generation_bytes R (ls_entry_bytes s) (ls_generation s)"

lemma lossy_insert_False: "lossy_insert R s exact i = (s', False) \<Longrightarrow> s' = s"
  by (auto simp: lossy_insert_def Let_def split: option.splits if_splits)

lemma lossy_insert_True:
  assumes "lossy_insert R s exact i = (s', True)"
  defines "key \<equiv> storage_key s exact"
  defines "bits \<equiv> bm_add R (case map_of (ls_generation s) key of Some bits \<Rightarrow> bits | None \<Rightarrow> bm_new R) i"
  shows "ls_generation s' = AList.update key bits (ls_generation s)" "ls_levels s' = ls_levels s" "ls_level s' = ls_level s"
    "ls_entry_bytes s' = ls_entry_bytes s" "lossy_ok R s \<Longrightarrow> lossy_ok R s'"
proof -
  show shape: "ls_generation s' = AList.update key bits (ls_generation s)" "ls_levels s' = ls_levels s" "ls_level s' = ls_level s"
    "ls_entry_bytes s' = ls_entry_bytes s"
    using assms(1) unfolding key_def bits_def by (auto simp: lossy_insert_def Let_def split: option.splits if_splits)
  assume ok: "lossy_ok R s"
  note update = generation_bytes_update [of "ls_generation s" R "ls_entry_bytes s" key bits]
  have "unat (ls_retained s') = generation_bytes R (ls_entry_bytes s) (AList.update key bits (ls_generation s))"
  proof (cases "map_of (ls_generation s) key")
    case None
    with assms(1) update ok show ?thesis unfolding key_def bits_def
      by (auto simp: lossy_insert_def lossy_ok_def Let_def add_lossy_memory_iff split: option.splits if_splits)
  next
    case (Some old)
    have mem: "unat (bm_bytes R old) \<le> unat (ls_retained s)"
      using generation_bytes_member [OF Some, of R "ls_entry_bytes s"] ok by (simp add: lossy_ok_def)
    show ?thesis
    proof (cases "bm_bytes R old \<le> bm_bytes R bits")
      case True
      with Some assms(1) update ok show ?thesis unfolding key_def bits_def
        by (auto simp: lossy_insert_def lossy_ok_def Let_def add_lossy_memory_iff unat_sub word_le_nat_alt split: option.splits if_splits)
    next
      case False
      with Some assms(1) update ok mem show ?thesis unfolding key_def bits_def
        by (auto simp: lossy_insert_def lossy_ok_def Let_def unat_sub_if' word_le_nat_alt split: option.splits if_splits)
    qed
  qed
  with ok shape show "lossy_ok R s'" by (simp add: lossy_ok_def distinct_update)
qed

lemma rebuild_next_cases:
  assumes "rebuild_next R s = (s', accounting)"
  obtains (unchanged) "s' = s" "accounting = None"
  | (rebuilt) usage g where "ls_level s < terminal_level (ls_levels s)"
      "rebuild_generation R (ls_generation s) (int (length (ls_generation s))) (ls_entry_bytes s)
         (\<lambda>key. (ls_levels s ! unat (ls_level s)) key) = Some (g, usage)"
      "s' = s\<lparr>ls_generation := g, ls_level := ls_level s + 1, ls_retained := usage\<rparr>"
      "accounting = Some \<lparr>la_retained = usage, la_transient = usage\<rparr>"
proof (cases "terminal_level (ls_levels s) \<le> ls_level s")
  case True
  with assms show thesis by (intro unchanged) (auto simp: rebuild_next_def)
next
  case level: False
  let ?r = "rebuild_generation R (ls_generation s) (int (length (ls_generation s))) (ls_entry_bytes s) (\<lambda>key. (ls_levels s ! unat (ls_level s)) key)"
  show thesis
  proof (cases ?r)
    case None
    with assms level show thesis by (intro unchanged) (auto simp: rebuild_next_def levels_next_def)
  next
    case (Some r)
    with assms level show thesis
      by (intro rebuilt [of "fst r" "snd r"]) (auto simp: rebuild_next_def levels_next_def not_le case_prod_beta)
  qed
qed

lemma lossy_ok_rebuild:
  assumes "lossy_ok R s" "rebuild_next R s = (s', accounting)"
  shows "lossy_ok R s'"
  using assms(2)
proof (cases rule: rebuild_next_cases)
  case rebuilt
  then show ?thesis using rebuild_generation_usage [OF rebuilt(2)] by (simp add: lossy_ok_def inc_le)
qed (use assms(1) in simp)

lemma lossy_reachable_shape:
  "lossy_reachable R steps entry_bytes s h \<Longrightarrow> ls_levels s = steps \<and> ls_entry_bytes s = entry_bytes \<and> lossy_ok R s"
proof (induction rule: lossy_reachable.induct)
  case start
  show ?case by (simp add: new_lossy_state_def lossy_ok_def generation_bytes_def)
next
  case (accept s h exact i s')
  then show ?case using lossy_insert_True [OF accept(2)] by simp
next
  case (reject s h exact i s')
  then show ?case using lossy_insert_False [OF reject(2)] by simp
next
  case (rebuild s h s' accounting)
  then show ?case using lossy_ok_rebuild [of R s s' accounting] by (cases rule: rebuild_next_cases [OF rebuild(2)]) auto
qed

lemma storage_key_rebuilt:
  assumes "ls_level s < terminal_level (ls_levels s)"
  shows "storage_key (s\<lparr>ls_generation := g, ls_level := ls_level s + 1, ls_retained := usage\<rparr>) exact
    = (ls_levels s ! unat (ls_level s)) (storage_key s exact)"
  using levels_key_Suc [OF assms] by (simp add: storage_key_def)

text \<open>
  C32: In every state of a build the posting found for an exact key holds precisely the IDs that were accepted
  under keys which the current level does not distinguish from it: rebuilding and merging never drop an ID,
  rejected insertions leave nothing behind, and the IDs of the key itself are always among them.
\<close>

theorem lossy_posting_exact:
  assumes "roaring R" "lossy_reachable R steps entry_bytes s h"
  shows "gen_posting R (ls_generation s) (storage_key s exact)
    = {i. \<exists>e. (e, i) \<in> set h \<and> levels_key steps e (ls_level s) = levels_key steps exact (ls_level s)}"
proof -
  have "gen_posting R (ls_generation s) k = {i. \<exists>e. (e, i) \<in> set h \<and> storage_key s e = k}" for k
    using assms(2)
  proof (induction arbitrary: k rule: lossy_reachable.induct)
    case start
    show ?case by (simp add: new_lossy_state_def gen_posting_def)
  next
    case (accept s h exact i s')
    have key: "storage_key s' e = storage_key s e" for e
      using lossy_insert_True(2,3) [OF accept(2)] by (simp add: storage_key_def)
    have "gen_posting R (ls_generation s') k = gen_posting R (ls_generation s) k \<union> (if storage_key s exact = k then {i} else {})"
      using lossy_insert_True(1) [OF accept(2)] roaring.ids_add [OF assms(1)] roaring.ids_new [OF assms(1)]
      by (auto simp: gen_posting_def update_conv' split: option.splits)
    then show ?case by (auto simp: accept.IH key)
  next
    case (reject s h exact i s')
    then show ?case using lossy_insert_False [OF reject(2)] by simp
  next
    case (rebuild s h s' accounting)
    from rebuild(2) show ?case
    proof (cases rule: rebuild_next_cases)
      case unchanged
      then show ?thesis using rebuild.IH by simp
    next
      case (rebuilt usage g)
      have "gen_posting R g k = (\<Union>c\<in>{c. (ls_levels s ! unat (ls_level s)) c = k}. gen_posting R (ls_generation s) c)"
        by (rule roaring.rebuild_generation_posting [OF assms(1) rebuilt(2)])
      then show ?thesis
        by (simp only: rebuilt(3) storage_key_rebuilt [OF rebuilt(1)] rebuild.IH) auto
    qed
  qed
  then show ?thesis using lossy_reachable_shape [OF assms(2)] by (simp add: storage_key_def)
qed

text \<open>
  C33: The retained bytes of a build state are the entry charge and the serialized size of every posting of its
  current generation, computed without overflow; every operation keeps this and the bound on the level.
\<close>

theorem lossy_accounting_exact:
  assumes "lossy_reachable R steps entry_bytes s h"
  shows "unat (ls_retained s) = (\<Sum>(_, bits)\<leftarrow>ls_generation s. unat entry_bytes + unat (bm_bytes R bits))
    \<and> distinct (map fst (ls_generation s)) \<and> ls_level s \<le> terminal_level steps"
  using lossy_reachable_shape [OF assms] by (auto simp: lossy_ok_def generation_bytes_def)

section \<open>Equality precision as levels\<close>

definition equality_levels :: "u64 levels" where
  "equality_levels = map (\<lambda>level key. coarsen_key key (equality_quantizer (of_nat level))) [1..<18]"

lemma nth_equality_levels: "n < 17 \<Longrightarrow> (equality_levels ! n) key = coarsen_key key (equality_quantizer (of_nat (Suc n)))"
  by (simp add: equality_levels_def)

lemma length_equality_levels: "terminal_level equality_levels = 17"
  by (simp add: terminal_level_def equality_levels_def)

text \<open>
  The seventeen coarsening steps of the equality quantizer are nested levels: the key reached step by step
  from the exact hash is the key that the quantizer computes directly at that level, at every level.
\<close>

theorem equality_levels_key: "levels_key equality_levels hash level = quantized_key (equality_quantizer level) hash"
proof -
  have run: "foldl (\<lambda>key n. (equality_levels ! n) key) hash [0..<n] = quantized_key (equality_quantizer (of_nat n)) hash" if "n \<le> 17" for n
    using that
  proof (induction n)
    case 0
    show ?case by (simp add: quantized_key_def equality_quantizer_def)
  next
    case (Suc n)
    have "(of_nat n :: u32) \<le> of_nat (Suc n)" using Suc.prems by (simp add: word_le_nat_alt unsigned_of_nat take_bit_nat_eq_self del: of_nat_Suc)
    from coarsen_key_compose [OF this, of hash] Suc show ?case by (simp add: nth_equality_levels)
  qed
  have bound: "unat (min level 17) \<le> 17" using word_le_nat_alt [of "min level 17" 17] by simp
  have "equality_quantizer (of_nat (unat (min level 17))) = equality_quantizer level"
    by (simp add: equality_quantizer_def equality_terminal_level_def)
  then show ?thesis
    unfolding levels_key_def length_equality_levels using run [OF bound] by simp
qed

definition sample_levels :: "nat levels" where
  "sample_levels = [\<lambda>k. k div 10]"

definition sample_lossy :: "(nat, u32 list) lossy_state" where
  "sample_lossy =
     fst (rebuild_next list_bitmap
       (fst (lossy_insert list_bitmap (fst (lossy_insert list_bitmap (new_lossy_state sample_levels 8) 12 7)) 15 9)))"

lemma sample_lossy_reachable: "lossy_reachable list_bitmap sample_levels 8 sample_lossy [(12, 7), (15, 9)]"
proof -
  let ?s0 = "new_lossy_state sample_levels 8" and ?B = list_bitmap
  let ?s1 = "fst (lossy_insert ?B ?s0 12 7)"
  let ?s2 = "fst (lossy_insert ?B ?s1 15 9)"
  have one: "lossy_reachable ?B sample_levels 8 ?s1 ([] @ [(12, 7)])"
    by (rule lossy_reachable.accept [OF lossy_reachable.start]) (rule prod_eqI, simp only: fst_conv, code_simp)
  have two: "lossy_reachable ?B sample_levels 8 ?s2 (([] @ [(12, 7)]) @ [(15, 9)])"
    by (rule lossy_reachable.accept [OF one]) (rule prod_eqI, simp only: fst_conv, code_simp)
  show ?thesis unfolding sample_lossy_def
    using lossy_reachable.rebuild [OF two surjective_pairing] by simp
qed

theorem lossy_posting_exact_witness: "gen_posting list_bitmap (ls_generation sample_lossy) (storage_key sample_lossy 12) = {7, 9}"
proof -
  have "ls_level sample_lossy = 1" by code_simp
  then show ?thesis
    using lossy_posting_exact [OF list_bitmap.roaring_axioms sample_lossy_reachable, of 12]
    by (auto simp: levels_key_def terminal_level_def sample_levels_def)
qed

theorem lossy_accounting_exact_witness:
  "unat (ls_retained sample_lossy) = (\<Sum>(_, bits)\<leftarrow>ls_generation sample_lossy. unat (8 :: u64) + unat (bm_bytes list_bitmap bits))"
  using lossy_accounting_exact [OF sample_lossy_reachable] by simp

end
