(* ===== verification/Quantized_Equality.thy ===== *)
theory Quantized_Equality
  imports Posting_Rebuild Equality_Rule
begin

text \<open>
  An equality filter under a memory limit (\<^verbatim>\<open>equality_streaming.go\<close>, \<^verbatim>\<open>quantized_equality.go\<close>,
  \<^verbatim>\<open>lossy_streaming_adaptive.go\<close>). It starts exact, with the values themselves as keys; its first lossy
  generation stores quantized hashes, and later ones coarsen the stored hashes. The state pairs the filter of
  \<open>Equality_Rule\<close>, whose \<open>er_encode\<close> is the encoder at the current level, with the precision state.
\<close>

section \<open>Visiting a table\<close>

text \<open>
  A table that still fits its array is visited in the order of insertion. Afterwards it is a Go map, which is
  ranged over in an order of the runtime's choice: \<open>order\<close> is that choice.
\<close>

definition ei_visit :: "('k, 'b) equality_index \<Rightarrow> 'k list \<Rightarrow> ('k \<times> 'b equality_set) list" where
  "ei_visit t order =
     (case ei_offsets t of
        None \<Rightarrow> zip (ei_keys t) (ei_sets t)
      | Some m \<Rightarrow> map (\<lambda>k. (k, ei_sets t ! the (m k))) order)"

definition visit_order :: "('k, 'b) equality_index \<Rightarrow> 'k list \<Rightarrow> bool" where
  "visit_order t order = (case ei_offsets t of None \<Rightarrow> True | Some m \<Rightarrow> distinct order \<and> set order = dom m)"

section \<open>State\<close>

record ('t, 'v, 'k, 'b) quantized_eq =
  qe_rule :: "('t, 'v, 'k, 'b) eq_rule"
  qe_level :: u32
  qe_encode :: "'v \<Rightarrow> u32 \<Rightarrow> 'k"
  qe_coarsen :: "('k \<Rightarrow> u32 \<Rightarrow> 'k) option"
  qe_less :: "('k \<Rightarrow> 'k \<Rightarrow> bool) option"
  qe_key_bytes :: u64

definition equality_set_bytes :: "'b roaring \<Rightarrow> 'b equality_set \<Rightarrow> u64" where
  "equality_set_bytes R s =
     (case es_bits s of
        Some bits \<Rightarrow> bm_bytes R bits
      | None \<Rightarrow> (case es_small s of Some xs \<Rightarrow> of_nat (length xs) * 4 | None \<Rightarrow> 4))"

text \<open>The accounted bytes of \<open>streamingEqualityDetails\<close>.\<close>

definition streaming_equality_usage :: "'b roaring \<Rightarrow> ('t, 'v, 'k, 'b) quantized_eq \<Rightarrow> 'k list \<Rightarrow> u64" where
  "streaming_equality_usage R r order =
     foldl (\<lambda>usage (_, s). usage + (qe_key_bytes r + equality_set_bytes R s))
       (40 + bm_bytes R (er_wildcard (qe_rule r))) (ei_visit (er_values (qe_rule r)) order)"

section \<open>The next level\<close>

definition collect_postings :: "'b roaring \<Rightarrow> ('k, 'b) equality_index \<Rightarrow> 'k list \<Rightarrow> ('k, 'b) generation" where
  "collect_postings R t order =
     foldl (\<lambda>old (key, s). AList.update key (es_add_to R s (bm_new R)) old) [] (ei_visit t order)"

definition install_postings :: "'b roaring \<Rightarrow> ('k, 'b) generation \<Rightarrow> 'k list \<Rightarrow> ('k, 'b) equality_index" where
  "install_postings R g keys =
     foldl (\<lambda>t key. ei_add_set R t key (bitmap_equality_set (the (map_of g key)))) new_equality_index keys"

text \<open>\<open>sort.Slice\<close> on distinct keys is the sort of the prelude.\<close>

definition rebuild_equality_next :: "'b roaring \<Rightarrow> ('t, 'v, 'k, 'b) quantized_eq \<Rightarrow> 'k list \<Rightarrow> ('t, 'v, 'k, 'b) quantized_eq" where
  "rebuild_equality_next R r order =
     (case (qe_coarsen r, qe_less r) of
        (Some coarsen, Some before) \<Rightarrow>
          (if equality_terminal_level \<le> qe_level r then r
           else let next_level = equality_quantizer (qe_level r + 1);
                    old = collect_postings R (er_values (qe_rule r)) order;
                    keys = swap_sort before (map fst old)
                in case rebuild_generation_in_order R old keys (int (length old)) (qe_key_bytes r) (\<lambda>key. coarsen key next_level) of
                     None \<Rightarrow> r
                   | Some (g, _) \<Rightarrow>
                       r\<lparr>qe_level := next_level,
                         qe_rule := (qe_rule r)\<lparr>er_encode := (\<lambda>v. qe_encode r v next_level),
                                                er_values := install_postings R g (swap_sort before (map fst g))\<rparr>\<rparr>)
      | _ \<Rightarrow> r)"

text \<open>
  The prepared transition is the state after it and its accounted bytes, under the order \<open>order'\<close> in which
  the new table is visited.
\<close>

definition prepare_streaming_next ::
  "'b roaring \<Rightarrow> ('t, 'v, 'k, 'b) quantized_eq \<Rightarrow> 'k list \<Rightarrow> 'k list \<Rightarrow> (u64 \<times> ('t, 'v, 'k, 'b) quantized_eq) option" where
  "prepare_streaming_next R r order order' =
     (if qe_coarsen r = None \<or> qe_less r = None \<or> equality_terminal_level \<le> qe_level r then None
      else let clone = rebuild_equality_next R r order in Some (streaming_equality_usage R clone order', clone))"

section \<open>The first generation\<close>

definition include_quantized :: "'b roaring \<Rightarrow> nat \<Rightarrow> ('t \<Rightarrow> 'v option) \<Rightarrow> u64 \<Rightarrow> ('t, 'v, 'v, 'b) quantized_eq" where
  "include_quantized R node get key_bytes =
     \<lparr>qe_rule = include_rule R node get (\<lambda>v. v), qe_level = 0, qe_encode = (\<lambda>v _. v), qe_coarsen = None, qe_less = None,
      qe_key_bytes = key_bytes\<rparr>"

text \<open>\<open>codec\<close> is the result of \<open>compileEqualityCodec\<close> for the type of the values.\<close>

definition first_generation ::
  "'b roaring \<Rightarrow> 'e + ('v \<Rightarrow> u64) \<Rightarrow> ('t, 'v, 'v, 'b) quantized_eq \<Rightarrow> 'v list \<Rightarrow> ('t, 'v, u64, 'b) quantized_eq option" where
  "first_generation R codec r order =
     (if qe_level r \<noteq> 0 then None
      else case codec of
             Inl _ \<Rightarrow> None
           | Inr hash \<Rightarrow>
               (let level = equality_quantizer 1;
                    encode = (\<lambda>v level. quantized_key level (hash v));
                    rule = qe_rule r;
                    table = foldl (\<lambda>t (key, s). ei_add_set R t (quantized_key level (hash key)) s) new_equality_index
                              (ei_visit (er_values rule) order)
                in Some \<lparr>qe_rule = \<lparr>er_node = er_node rule, er_get = er_get rule, er_encode = (\<lambda>v. encode v level),
                            er_wildcard = er_wildcard rule, er_wildcard_source = 0, er_wildcard_class = 0, er_values = table\<rparr>,
                         qe_level = level, qe_encode = encode, qe_coarsen = Some (\<lambda>key level. quantized_key level key),
                         qe_less = Some (<), qe_key_bytes = 8\<rparr>))"

section \<open>The adaptive leaf\<close>

text \<open>\<open>streamingAdaptiveLeaf\<close> over an equality filter: \<open>approximate\<close> is the constructor.\<close>

datatype ('t, 'v, 'b) equality_leaf =
    Exact_Leaf "('t, 'v, 'v, 'b) quantized_eq"
  | Lossy_Leaf "('t, 'v, u64, 'b) quantized_eq"

definition quantized_insert :: "'b roaring \<Rightarrow> ('t, 'v, 'k, 'b) quantized_eq \<Rightarrow> 't \<Rightarrow> u32 \<Rightarrow> ('t, 'v, 'k, 'b) quantized_eq" where
  "quantized_insert R r t i = r\<lparr>qe_rule := eq_insert R (qe_rule r) t i\<rparr>"

fun leaf_insert :: "'b roaring \<Rightarrow> ('t, 'v, 'b) equality_leaf \<Rightarrow> 't \<Rightarrow> u32 \<Rightarrow> ('t, 'v, 'b) equality_leaf" where
  "leaf_insert R (Exact_Leaf r) t i = Exact_Leaf (quantized_insert R r t i)"
| "leaf_insert R (Lossy_Leaf r) t i = Lossy_Leaf (quantized_insert R r t i)"

fun leaf_search :: "'b roaring \<Rightarrow> ('t, 'v, 'b) equality_leaf \<Rightarrow> 't \<Rightarrow> 'b \<Rightarrow> 'b" where
  "leaf_search R (Exact_Leaf r) q dst = eq_add_matches R (qe_rule r) (er_get (qe_rule r) q) dst"
| "leaf_search R (Lossy_Leaf r) q dst = eq_add_matches R (qe_rule r) (er_get (qe_rule r) q) dst"

text \<open>
  The orders in which the runtime ranges over the maps of a leaf: of a table of values and of a table of
  hashes.
\<close>

type_synonym ('v, 'b) orders = "(('v, 'b) equality_index \<Rightarrow> 'v list) \<times> ((u64, 'b) equality_index \<Rightarrow> u64 list)"

fun leaf_usage :: "'b roaring \<Rightarrow> ('v, 'b) orders \<Rightarrow> ('t, 'v, 'b) equality_leaf \<Rightarrow> u64" where
  "leaf_usage R orders (Exact_Leaf r) = streaming_equality_usage R r (fst orders (er_values (qe_rule r)))"
| "leaf_usage R orders (Lossy_Leaf r) = streaming_equality_usage R r (snd orders (er_values (qe_rule r)))"

text \<open>The next transition of a leaf: its first generation, or the next level.\<close>

fun leaf_next :: "'b roaring \<Rightarrow> 'e + ('v \<Rightarrow> u64) \<Rightarrow> ('v, 'b) orders \<Rightarrow> ('t, 'v, 'b) equality_leaf \<Rightarrow> ('t, 'v, 'b) equality_leaf option" where
  "leaf_next R codec orders (Exact_Leaf r) =
     (case first_generation R codec r (fst orders (er_values (qe_rule r))) of
        Some candidate \<Rightarrow> Some (Lossy_Leaf candidate)
      | None \<Rightarrow>
          map_option (\<lambda>(_, clone). Exact_Leaf clone)
            (prepare_streaming_next R r (fst orders (er_values (qe_rule r))) []))"
| "leaf_next R codec orders (Lossy_Leaf r) =
     map_option (\<lambda>(_, clone). Lossy_Leaf clone)
       (prepare_streaming_next R r (snd orders (er_values (qe_rule r))) [])"

partial_function (option) fit_streaming_limit ::
  "'b roaring \<Rightarrow> 'e + ('v \<Rightarrow> u64) \<Rightarrow> ('v, 'b) orders \<Rightarrow> ('t, 'v, 'b) equality_leaf \<Rightarrow> u64 \<Rightarrow> ('t, 'v, 'b) equality_leaf option" where
  "fit_streaming_limit R codec orders l limit =
     (if limit < leaf_usage R orders l
      then case leaf_next R codec orders l of
             None \<Rightarrow> Some l
           | Some l' \<Rightarrow> fit_streaming_limit R codec orders l' limit
      else Some l)"

section \<open>Tables\<close>

lemma key_order_offsets:
  assumes "key_order t ks" "ei_offsets t = Some m"
  shows "dom m = set ks" "k \<in> set ks \<Longrightarrow> ei_get t k = Some (ei_sets t ! the (m k))"
  using assms find_key_None [of ks 0]
  by (auto simp: key_order_def ei_get_def ei_offset_def domIff set_eq_iff) (metis not_None_eq option.sel option.simps(9))+

lemma visit_pairs:
  assumes "ei_ok t" "visit_order t order"
  shows "distinct (map fst (ei_visit t order))" "(k, s) \<in> set (ei_visit t order) \<longleftrightarrow> ei_get t k = Some s"
proof -
  obtain ks where ks: "key_order t ks" using assms(1) by (auto simp: ei_ok_def)
  have "distinct (map fst (ei_visit t order)) \<and> ((k, s) \<in> set (ei_visit t order) \<longleftrightarrow> ei_get t k = Some s)"
  proof (cases "ei_offsets t")
    case None
    then have "ei_keys t = ks" "length ks = length (ei_sets t)" "distinct ks" using ks by (auto simp: key_order_def)
    moreover have "ei_get t k = Some s \<longleftrightarrow> (\<exists>n < length ks. ks ! n = k \<and> ei_sets t ! n = s)"
      using key_order_offset_Some [OF ks] by (auto simp: ei_get_def)
    ultimately show ?thesis using None by (auto simp: ei_visit_def in_set_zip)
  next
    case (Some m)
    then have order: "distinct order" "set order = set ks"
      using assms(2) key_order_offsets(1) [OF ks] by (auto simp: visit_order_def)
    have "ei_get t k = Some s \<longleftrightarrow> k \<in> set ks \<and> ei_sets t ! the (m k) = s"
    proof (cases "k \<in> set ks")
      case True
      then show ?thesis by (simp add: key_order_offsets(2) [OF ks Some])
    next
      case False
      then have "ei_get t k = None" using key_order_offset_None [OF ks, of k] by (simp add: ei_get_def)
      with False show ?thesis by simp
    qed
    with order Some show ?thesis by (auto simp: ei_visit_def comp_def)
  qed
  then show "distinct (map fst (ei_visit t order))" "(k, s) \<in> set (ei_visit t order) \<longleftrightarrow> ei_get t k = Some s" by auto
qed

lemma visit_ok: "ei_ok t \<Longrightarrow> visit_order t order \<Longrightarrow> (k, s) \<in> set (ei_visit t order) \<Longrightarrow> es_ok s"
  by (simp add: visit_pairs ei_ok_get)

lemma ei_ok_add_sets:
  "ei_ok t \<Longrightarrow> \<forall>(k, s) \<in> set kvs. es_ok s \<Longrightarrow> ei_ok (foldl (\<lambda>t (k, s). ei_add_set R t (f k) s) t kvs)"
  by (induction kvs arbitrary: t) (auto intro: ei_ok_add_set)

context roaring
begin

lemma ei_posting_add_sets:
  "ei_ok t \<Longrightarrow> \<forall>(k, s) \<in> set kvs. es_ok s \<Longrightarrow>
   ei_posting R (foldl (\<lambda>t (k, s). ei_add_set R t (f k) s) t kvs) c
     = ei_posting R t c \<union> {i. \<exists>k s. (k, s) \<in> set kvs \<and> f k = c \<and> i \<in> es_ids R s}"
proof (induction kvs arbitrary: t)
  case (Cons p kvs)
  obtain k s where p: "p = (k, s)" by (cases p)
  have "ei_ok (ei_add_set R t (f k) s)" using Cons.prems p by (simp add: ei_ok_add_set)
  from Cons.IH [OF this] Cons.prems p show ?case
    by (cases "f k = c") (auto simp: ei_posting_add_set)
qed simp

lemma posting_visit:
  assumes "ei_ok t" "visit_order t order"
  shows "{i. \<exists>k s. (k, s) \<in> set (ei_visit t order) \<and> f k = c \<and> i \<in> es_ids R s} = {i. \<exists>k. f k = c \<and> i \<in> ei_posting R t k}"
  unfolding visit_pairs(2) [OF assms] ei_posting_def
  by (rule Collect_cong) (metis (mono_tags, lifting) empty_iff not_None_eq option.simps(4,5))

lemma collect_postings_posting:
  assumes "ei_ok t" "visit_order t order"
  shows "gen_posting R (collect_postings R t order) k = ei_posting R t k"
proof -
  let ?add = "\<lambda>old (key, s). AList.update key (es_add_to R s (bm_new R)) old"
  have absent: "gen_posting R (foldl ?add g kvs) k = gen_posting R g k" if "k \<notin> fst ` set kvs" for g kvs
    using that by (induction kvs arbitrary: g) (auto simp: gen_posting_def update_conv')
  have present: "gen_posting R (foldl ?add g kvs) k = es_ids R s"
    if "distinct (map fst kvs)" "(k, s) \<in> set kvs" for g kvs s
    using that
  proof (induction kvs arbitrary: g)
    case (Cons p kvs)
    then show ?case using absent [of kvs]
      by (cases p) (auto simp: gen_posting_def update_conv' es_ids_add_to ids_new rev_image_eqI)
  qed simp
  show ?thesis
  proof (cases "ei_get t k")
    case None
    then have "k \<notin> fst ` set (ei_visit t order)" using visit_pairs(2) [OF assms, of k] by auto
    from absent [OF this, of "[]"] None show ?thesis
      by (simp add: collect_postings_def ei_posting_def gen_posting_def)
  next
    case (Some s)
    then have "(k, s) \<in> set (ei_visit t order)" by (simp add: visit_pairs(2) [OF assms])
    from present [OF visit_pairs(1) [OF assms] this, of "[]"] Some show ?thesis
      by (simp add: collect_postings_def ei_posting_def)
  qed
qed

lemma install_postings_posting:
  "ei_ok (install_postings R g keys)"
  "ei_posting R (install_postings R g keys) k = (if k \<in> set keys then bm_ids R (the (map_of g k)) else {})"
proof -
  have "ei_ok t \<Longrightarrow> ei_ok (foldl (\<lambda>t key. ei_add_set R t key (bitmap_equality_set (the (map_of g key)))) t keys)
    \<and> ei_posting R (foldl (\<lambda>t key. ei_add_set R t key (bitmap_equality_set (the (map_of g key)))) t keys) k
       = ei_posting R t k \<union> (if k \<in> set keys then bm_ids R (the (map_of g k)) else {})" for t
    by (induction keys arbitrary: t) (auto simp: ei_ok_add_set ei_posting_add_set)
  from this [of new_equality_index] show "ei_ok (install_postings R g keys)"
    "ei_posting R (install_postings R g keys) k = (if k \<in> set keys then bm_ids R (the (map_of g k)) else {})"
    by (auto simp: install_postings_def)
qed

end

section \<open>What the states of a leaf hold\<close>

definition quantized_ok :: "('t, 'v, 'k, 'b) quantized_eq \<Rightarrow> bool" where
  "quantized_ok r \<longleftrightarrow> ei_ok (er_values (qe_rule r)) \<and> er_encode (qe_rule r) = (\<lambda>v. qe_encode r v (qe_level r))"

lemma quantized_ok_insert: "quantized_ok r \<Longrightarrow> quantized_ok (quantized_insert R r t i)"
  by (auto simp: quantized_ok_def quantized_insert_def eq_insert_def intro: ei_ok_add split: option.splits)

lemma rebuild_equality_fields [simp]:
  "qe_encode (rebuild_equality_next R r order) = qe_encode r" "qe_coarsen (rebuild_equality_next R r order) = qe_coarsen r"
  "qe_less (rebuild_equality_next R r order) = qe_less r" "qe_key_bytes (rebuild_equality_next R r order) = qe_key_bytes r"
  "er_get (qe_rule (rebuild_equality_next R r order)) = er_get (qe_rule r)"
  "er_wildcard (qe_rule (rebuild_equality_next R r order)) = er_wildcard (qe_rule r)"
  by (auto simp: rebuild_equality_next_def Let_def split: option.splits prod.splits)

lemma rebuild_equality_cases:
  assumes "qe_coarsen r = Some coarsen" "qe_less r = Some before" "qe_level r < 17"
  obtains (unchanged) "rebuild_equality_next R r order = r"
      "rebuild_generation_in_order R (collect_postings R (er_values (qe_rule r)) order)
         (swap_sort before (map fst (collect_postings R (er_values (qe_rule r)) order)))
         (int (length (collect_postings R (er_values (qe_rule r)) order))) (qe_key_bytes r) (\<lambda>key. coarsen key (qe_level r + 1)) = None"
  | (rebuilt) g usage where
      "rebuild_generation_in_order R (collect_postings R (er_values (qe_rule r)) order)
         (swap_sort before (map fst (collect_postings R (er_values (qe_rule r)) order)))
         (int (length (collect_postings R (er_values (qe_rule r)) order))) (qe_key_bytes r) (\<lambda>key. coarsen key (qe_level r + 1)) = Some (g, usage)"
      "rebuild_equality_next R r order =
         r\<lparr>qe_level := qe_level r + 1,
           qe_rule := (qe_rule r)\<lparr>er_encode := (\<lambda>v. qe_encode r v (qe_level r + 1)),
                                  er_values := install_postings R g (swap_sort before (map fst g))\<rparr>\<rparr>"
proof -
  have level: "equality_quantizer (qe_level r + 1) = qe_level r + 1" "\<not> equality_terminal_level \<le> qe_level r"
    using assms(3) by (simp_all add: equality_quantizer_def equality_terminal_level_def inc_le min_absorb1)
  show thesis
  proof (cases "rebuild_generation_in_order R (collect_postings R (er_values (qe_rule r)) order)
         (swap_sort before (map fst (collect_postings R (er_values (qe_rule r)) order)))
         (int (length (collect_postings R (er_values (qe_rule r)) order))) (qe_key_bytes r) (\<lambda>key. coarsen key (qe_level r + 1))")
    case None
    with assms level show thesis by (intro unchanged) (simp_all add: rebuild_equality_next_def Let_def)
  next
    case (Some p)
    with assms level show thesis
      by (intro rebuilt [of "fst p" "snd p"]) (simp_all add: rebuild_equality_next_def Let_def case_prod_beta)
  qed
qed

context roaring
begin

lemma in_order_posting:
  assumes "rebuild_generation_in_order R old keys capacity entry_bytes coarsen = Some (g, usage)" "set keys = fst ` set old"
  shows "gen_posting R g c = {i. \<exists>k. coarsen k = c \<and> i \<in> gen_posting R old k}" "distinct (map fst g)"
proof -
  have g: "g = foldl (merge_posting R old coarsen) [] keys"
    using assms(1) by (auto simp: rebuild_generation_in_order_def Let_def split: if_splits option.splits)
  have "k \<in> set keys" if "i \<in> gen_posting R old k" for i k
    using that assms(2) by (cases "map_of old k") (auto simp: gen_posting_def dest: map_of_SomeD intro: rev_image_eqI)
  then have "(\<Union>k\<in>{k \<in> set keys. coarsen k = c}. gen_posting R old k) = {i. \<exists>k. coarsen k = c \<and> i \<in> gen_posting R old k}"
    by blast
  then show "gen_posting R g c = {i. \<exists>k. coarsen k = c \<and> i \<in> gen_posting R old k}"
    unfolding g gen_posting_merge_fold by (simp add: gen_posting_def)
  show "distinct (map fst g)" unfolding g by (rule distinct_merge_fold) simp
qed

text \<open>A rebuild merges exactly the postings whose keys coarsen to the same key.\<close>

lemma rebuild_equality_posting:
  assumes "quantized_ok r" "visit_order (er_values (qe_rule r)) order"
    and "qe_coarsen r = Some coarsen" "qe_less r = Some before" "qe_level r < 17"
    and changed: "qe_level (rebuild_equality_next R r order) \<noteq> qe_level r"
  defines "r' \<equiv> rebuild_equality_next R r order"
  shows "quantized_ok r'" "qe_level r' = qe_level r + 1" "qe_encode r' = qe_encode r"
    "ei_posting R (er_values (qe_rule r')) c = {i. \<exists>k. coarsen k (qe_level r + 1) = c \<and> i \<in> ei_posting R (er_values (qe_rule r)) k}"
proof -
  have ok: "ei_ok (er_values (qe_rule r))" using assms(1) by (simp add: quantized_ok_def)
  have "quantized_ok r' \<and> qe_level r' = qe_level r + 1 \<and> qe_encode r' = qe_encode r
    \<and> ei_posting R (er_values (qe_rule r')) c = {i. \<exists>k. coarsen k (qe_level r + 1) = c \<and> i \<in> ei_posting R (er_values (qe_rule r)) k}"
  proof (rule rebuild_equality_cases [OF assms(3-5), where order = order and R = R])
    assume "rebuild_equality_next R r order = r"
    then show ?thesis using changed by simp
  next
    fix g usage
    let ?old = "collect_postings R (er_values (qe_rule r)) order"
    assume g: "rebuild_generation_in_order R ?old (swap_sort before (map fst ?old)) (int (length ?old)) (qe_key_bytes r)
        (\<lambda>key. coarsen key (qe_level r + 1)) = Some (g, usage)"
      and r': "rebuild_equality_next R r order =
         r\<lparr>qe_level := qe_level r + 1,
           qe_rule := (qe_rule r)\<lparr>er_encode := (\<lambda>v. qe_encode r v (qe_level r + 1)),
                                  er_values := install_postings R g (swap_sort before (map fst g))\<rparr>\<rparr>"
    have "set (swap_sort before (map fst ?old)) = fst ` set ?old" by simp
    note merged = in_order_posting [OF g this]
    have "ei_posting R (install_postings R g (swap_sort before (map fst g))) c = gen_posting R g c"
      using map_of_eq_None_iff [of g c] by (cases "map_of g c") (auto simp: install_postings_posting gen_posting_def)
    then show ?thesis using assms(1)
      by (simp add: r'_def r' quantized_ok_def install_postings_posting merged(1) collect_postings_posting [OF ok assms(2)])
  qed
  then show "quantized_ok r'" "qe_level r' = qe_level r + 1" "qe_encode r' = qe_encode r"
    "ei_posting R (er_values (qe_rule r')) c = {i. \<exists>k. coarsen k (qe_level r + 1) = c \<and> i \<in> ei_posting R (er_values (qe_rule r)) k}"
    by auto
qed

text \<open>The first generation merges the postings of the values whose hashes agree in the retained bits.\<close>

lemma first_generation_posting:
  assumes "quantized_ok r" "visit_order (er_values (qe_rule r)) order" "first_generation R (Inr hash) r order = Some r'"
  shows "quantized_ok r'" "qe_level r' = 1" "qe_encode r' = (\<lambda>v level. quantized_key level (hash v))"
    "qe_coarsen r' = Some (\<lambda>key level. quantized_key level key)" "qe_less r' = Some (<)"
    "er_get (qe_rule r') = er_get (qe_rule r)" "er_wildcard (qe_rule r') = er_wildcard (qe_rule r)"
    "ei_posting R (er_values (qe_rule r')) c = {i. \<exists>v. quantized_key 1 (hash v) = c \<and> i \<in> ei_posting R (er_values (qe_rule r)) v}"
proof -
  have ok: "ei_ok (er_values (qe_rule r))" using assms(1) by (simp add: quantized_ok_def)
  have level: "equality_quantizer 1 = 1" by (simp add: equality_quantizer_def equality_terminal_level_def)
  have sets: "\<forall>(k, s) \<in> set (ei_visit (er_values (qe_rule r)) order). es_ok s"
    using visit_ok [OF ok assms(2)] by auto
  show "quantized_ok r'" "qe_level r' = 1" "qe_encode r' = (\<lambda>v level. quantized_key level (hash v))"
    "qe_coarsen r' = Some (\<lambda>key level. quantized_key level key)" "qe_less r' = Some (<)"
    "er_get (qe_rule r') = er_get (qe_rule r)" "er_wildcard (qe_rule r') = er_wildcard (qe_rule r)"
    using assms(3) ei_ok_add_sets [OF ei_ok_new sets]
    by (auto simp: first_generation_def Let_def quantized_ok_def level split: if_splits)
  show "ei_posting R (er_values (qe_rule r')) c = {i. \<exists>v. quantized_key 1 (hash v) = c \<and> i \<in> ei_posting R (er_values (qe_rule r)) v}"
    using assms(3) ei_posting_add_sets [OF ei_ok_new sets, of "\<lambda>v. quantized_key 1 (hash v)" c]
      posting_visit [OF ok assms(2), of "\<lambda>v. quantized_key 1 (hash v)" c]
    by (auto simp: first_generation_def Let_def level split: if_splits)
qed

end

section \<open>The states a build can reach\<close>

definition orders_ok :: "('v, 'b) orders \<Rightarrow> bool" where
  "orders_ok orders \<longleftrightarrow> (\<forall>t. ei_ok t \<longrightarrow> visit_order t (fst orders t)) \<and> (\<forall>t. ei_ok t \<longrightarrow> visit_order t (snd orders t))"

fun orders_for :: "('v, 'b) orders \<Rightarrow> ('t, 'v, 'b) equality_leaf \<Rightarrow> bool" where
  "orders_for orders (Exact_Leaf r) = visit_order (er_values (qe_rule r)) (fst orders (er_values (qe_rule r)))"
| "orders_for orders (Lossy_Leaf r) = visit_order (er_values (qe_rule r)) (snd orders (er_values (qe_rule r)))"

text \<open>The second argument lists the constraints inserted so far with their IDs.\<close>

inductive leaf_reachable ::
  "'b roaring \<Rightarrow> 'e + ('v \<Rightarrow> u64) \<Rightarrow> nat \<Rightarrow> ('t \<Rightarrow> 'v option) \<Rightarrow> u64 \<Rightarrow> ('t, 'v, 'b) equality_leaf \<Rightarrow> ('t \<times> u32) list \<Rightarrow> bool"
  for R codec node get key_bytes where
  start: "leaf_reachable R codec node get key_bytes (Exact_Leaf (include_quantized R node get key_bytes)) []"
| insert: "leaf_reachable R codec node get key_bytes l h \<Longrightarrow> leaf_reachable R codec node get key_bytes (leaf_insert R l t i) (h @ [(t, i)])"
| advance: "leaf_reachable R codec node get key_bytes l h \<Longrightarrow> orders_for orders l \<Longrightarrow> leaf_next R codec orders l = Some l'
    \<Longrightarrow> leaf_reachable R codec node get key_bytes l' h"

definition rule_holds :: "'b roaring \<Rightarrow> ('t \<Rightarrow> 'v option) \<Rightarrow> ('t \<times> u32) list \<Rightarrow> ('t, 'v, 'k, 'b) quantized_eq \<Rightarrow> bool" where
  "rule_holds R get h r \<longleftrightarrow> quantized_ok r \<and> er_get (qe_rule r) = get
     \<and> bm_ids R (er_wildcard (qe_rule r)) = stored_ids get h (\<lambda>x. x = None)
     \<and> (\<forall>k. ei_posting R (er_values (qe_rule r)) k
             = stored_ids get h (\<lambda>x. \<exists>v. x = Some v \<and> qe_encode r v (qe_level r) = k))"

fun leaf_holds :: "'b roaring \<Rightarrow> 'e + ('v \<Rightarrow> u64) \<Rightarrow> ('t \<Rightarrow> 'v option) \<Rightarrow> ('t \<times> u32) list \<Rightarrow> ('t, 'v, 'b) equality_leaf \<Rightarrow> bool" where
  "leaf_holds R codec get h (Exact_Leaf r) =
     (rule_holds R get h r \<and> qe_level r = 0 \<and> qe_encode r = (\<lambda>v _. v) \<and> qe_coarsen r = None)"
| "leaf_holds R codec get h (Lossy_Leaf r) =
     (rule_holds R get h r \<and> 1 \<le> qe_level r \<and> qe_level r \<le> 17 \<and> qe_key_bytes r = 8
      \<and> qe_encode r = (\<lambda>v level. quantized_key level (projr codec v))
      \<and> qe_coarsen r = Some (\<lambda>key level. quantized_key level key) \<and> qe_less r = Some (<))"

lemma next_level:
  fixes l :: u32
  assumes "l < 17"
  shows "l \<le> 17" "l < l + 1" "l + 1 \<le> 17" "1 \<le> l + 1" "unat (l + 1) = Suc (unat l)"
proof -
  have l: "unat l < 17" using assms by (simp add: word_less_nat_alt)
  then show suc: "unat (l + 1) = Suc (unat l)" using unat_add_lem [of l 1] by simp
  show "l \<le> 17" "l < l + 1" "l + 1 \<le> 17" "1 \<le> l + 1"
    using l unfolding word_less_nat_alt word_le_nat_alt suc by simp_all
qed

lemma orders_ok_for: "orders_ok orders \<Longrightarrow> leaf_holds R codec get h l \<Longrightarrow> orders_for orders l"
  by (cases l) (simp_all add: orders_ok_def rule_holds_def quantized_ok_def)

lemma quantized_key_compose:
  assumes "l \<le> 17" "l < m" "m \<le> 17"
  shows "quantized_key m (quantized_key l hash) = quantized_key m hash"
proof -
  have "equality_quantizer l = l" "equality_quantizer m = m"
    using assms by (simp_all add: equality_quantizer_def equality_terminal_level_def min_absorb1)
  with coarsen_key_compose [of l m hash] assms(2) show ?thesis by (simp add: coarsen_key_def)
qed

context roaring
begin

lemma rule_holds_insert:
  assumes "rule_holds R get h r"
  shows "rule_holds R get (h @ [(t, i)]) (quantized_insert R r t i)"
proof -
  have ok: "ei_ok (er_values (qe_rule r))" "er_encode (qe_rule r) = (\<lambda>v. qe_encode r v (qe_level r))" "er_get (qe_rule r) = get"
    using assms by (simp_all add: rule_holds_def quantized_ok_def)
  show ?thesis
    using assms quantized_ok_insert [of r R t i]
    by (cases "get t") (auto simp: rule_holds_def quantized_insert_def eq_insert_def ok ids_add ei_posting_add [OF ok(1)])
qed

lemma leaf_holds_insert: "leaf_holds R codec get h l \<Longrightarrow> leaf_holds R codec get (h @ [(t, i)]) (leaf_insert R l t i)"
proof (cases l)
  case (Exact_Leaf r)
  then show "leaf_holds R codec get h l \<Longrightarrow> leaf_holds R codec get (h @ [(t, i)]) (leaf_insert R l t i)"
    using rule_holds_insert [of get h r t i] by (simp add: quantized_insert_def)
next
  case (Lossy_Leaf r)
  then show "leaf_holds R codec get h l \<Longrightarrow> leaf_holds R codec get (h @ [(t, i)]) (leaf_insert R l t i)"
    using rule_holds_insert [of get h r t i] by (simp add: quantized_insert_def)
qed

lemma leaf_holds_first:
  assumes "leaf_holds R codec get h (Exact_Leaf r)" "orders_for orders (Exact_Leaf r)"
    "first_generation R codec r (fst orders (er_values (qe_rule r))) = Some r'"
  shows "leaf_holds R codec get h (Lossy_Leaf r')"
proof -
  obtain hash where codec: "codec = Inr hash"
    using assms(3) by (auto simp: first_generation_def split: if_splits sum.splits)
  have ok: "quantized_ok r" "visit_order (er_values (qe_rule r)) (fst orders (er_values (qe_rule r)))"
    using assms(1,2) by (auto simp: rule_holds_def quantized_ok_def)
  note first = first_generation_posting [OF ok assms(3) [unfolded codec]]
  have key: "qe_key_bytes r' = 8" using assms(3) by (auto simp: first_generation_def codec Let_def split: if_splits)
  have "er_get (qe_rule r) = get" "bm_ids R (er_wildcard (qe_rule r)) = stored_ids get h (\<lambda>x. x = None)"
    "ei_posting R (er_values (qe_rule r)) v = stored_ids get h (\<lambda>x. x = Some v)" for v
    using assms(1) by (simp_all add: rule_holds_def)
  then have "rule_holds R get h r'"
    using first by (auto simp: rule_holds_def stored_ids_def)
  with first key show ?thesis by (simp add: codec)
qed

lemma leaf_holds_rebuild:
  assumes "leaf_holds R codec get h (Lossy_Leaf r)" "orders_for orders (Lossy_Leaf r)" "qe_level r < 17"
  shows "leaf_holds R codec get h (Lossy_Leaf (rebuild_equality_next R r (snd orders (er_values (qe_rule r)))))"
    (is "leaf_holds R codec get h (Lossy_Leaf ?r)")
proof (cases "qe_level ?r = qe_level r")
  case True
  have enc: "qe_coarsen r = Some (\<lambda>key level. quantized_key level key)" "qe_less r = Some (<)" using assms(1) by simp_all
  have "?r = r"
    by (rule rebuild_equality_cases [OF enc assms(3), where order = "snd orders (er_values (qe_rule r))" and R = R])
      (use True in auto)
  with assms(1) show ?thesis by simp
next
  case False
  have ok: "quantized_ok r" "visit_order (er_values (qe_rule r)) (snd orders (er_values (qe_rule r)))"
    using assms(1,2) by (auto simp: rule_holds_def quantized_ok_def)
  have enc: "qe_coarsen r = Some (\<lambda>key level. quantized_key level key)" "qe_less r = Some (<)" using assms(1) by simp_all
  note rebuilt = rebuild_equality_posting [OF ok enc assms(3) False]
  have level: "qe_level r \<le> 17" "qe_level r < qe_level r + 1" "qe_level r + 1 \<le> 17" "1 \<le> qe_level r + 1"
    by (rule next_level [OF assms(3)])+
  have merge: "(\<exists>k. quantized_key (qe_level r + 1) k = c \<and> i \<in> stored_ids get h (\<lambda>x. \<exists>v. x = Some v \<and> quantized_key (qe_level r) (projr codec v) = k))
      \<longleftrightarrow> i \<in> stored_ids get h (\<lambda>x. \<exists>v. x = Some v \<and> quantized_key (qe_level r + 1) (projr codec v) = c)" for c i
    using quantized_key_compose [OF level(1-3)] by (auto simp: stored_ids_def)
  show ?thesis
    using assms(1) rebuilt level by (simp add: rule_holds_def merge)
qed

lemma leaf_holds_next:
  assumes "leaf_holds R codec get h l" "orders_for orders l" "leaf_next R codec orders l = Some l'"
  shows "leaf_holds R codec get h l'"
proof (cases l)
  case (Exact_Leaf r)
  then have "qe_coarsen r = None" using assms(1) by simp
  with assms(3) Exact_Leaf obtain r' where
    "first_generation R codec r (fst orders (er_values (qe_rule r))) = Some r'" "l' = Lossy_Leaf r'"
    by (auto simp: prepare_streaming_next_def split: option.splits)
  with leaf_holds_first [OF assms(1,2) [unfolded Exact_Leaf]] show ?thesis by simp
next
  case (Lossy_Leaf r)
  with assms(3) have "l' = Lossy_Leaf (rebuild_equality_next R r (snd orders (er_values (qe_rule r))))" "qe_level r < 17"
    by (auto simp: prepare_streaming_next_def Let_def equality_terminal_level_def split: if_splits)
  with leaf_holds_rebuild [OF assms(1,2) [unfolded Lossy_Leaf]] show ?thesis by simp
qed

lemma leaf_holds_reachable: "leaf_reachable R codec node get key_bytes l h \<Longrightarrow> leaf_holds R codec get h l"
proof (induction rule: leaf_reachable.induct)
  case start
  show ?case
    by (simp add: include_quantized_def rule_holds_def quantized_ok_def include_rule_def ids_new stored_ids_def)
next
  case (insert l h t i)
  then show ?case by (simp add: leaf_holds_insert)
next
  case (advance l h orders l')
  then show ?case by (blast intro: leaf_holds_next)
qed

end

section \<open>No match is lost\<close>

text \<open>What a leaf can tell apart: the values, or their quantized hashes.\<close>

fun leaf_agrees :: "('t, 'v, 'b) equality_leaf \<Rightarrow> 'v \<Rightarrow> 'v \<Rightarrow> bool" where
  "leaf_agrees (Exact_Leaf r) v w = (qe_encode r v (qe_level r) = qe_encode r w (qe_level r))"
| "leaf_agrees (Lossy_Leaf r) v w = (qe_encode r v (qe_level r) = qe_encode r w (qe_level r))"

definition equality_match :: "('t \<Rightarrow> 'v option) \<Rightarrow> ('v \<Rightarrow> 'v \<Rightarrow> bool) \<Rightarrow> 't \<Rightarrow> 't \<Rightarrow> bool" where
  "equality_match get agrees stored query =
     (case get stored of None \<Rightarrow> True | Some w \<Rightarrow> (case get query of None \<Rightarrow> False | Some v \<Rightarrow> agrees w v))"

context roaring
begin

lemma rule_search_ids:
  assumes "rule_holds R get h r"
  shows "bm_ids R (eq_add_matches R (qe_rule r) (er_get (qe_rule r) q) dst) =
    bm_ids R dst \<union> {i. \<exists>t. (t, i) \<in> set h \<and> equality_match get (\<lambda>w v. qe_encode r w (qe_level r) = qe_encode r v (qe_level r)) t q}"
proof -
  have "bm_ids R (eq_add_matches R (qe_rule r) (er_get (qe_rule r) q) dst) = bm_ids R dst \<union> eq_key_den R (qe_rule r) (get q)"
    using eq_add_matches_ids [of "qe_rule r"] assms by (simp add: rule_holds_def quantized_ok_def eq_building_def)
  also have "eq_key_den R (qe_rule r) (get q)
      = {i. \<exists>t. (t, i) \<in> set h \<and> equality_match get (\<lambda>w v. qe_encode r w (qe_level r) = qe_encode r v (qe_level r)) t q}"
    using assms by (cases "get q")
      (auto simp: eq_key_den_def rule_holds_def quantized_ok_def stored_ids_def equality_match_def split: option.splits)
  finally show ?thesis .
qed

end

text \<open>
  C34: In every state that insertions and precision reductions can reach, in any order, an equality filter under
  a memory limit returns the constraints without a value and those whose value it cannot tell from the query
  at its current precision: while exact, the equal ones, and afterwards a superset of them.
\<close>

theorem lossy_equality_search:
  assumes "roaring R" "leaf_reachable R codec node get key_bytes l h"
  shows "bm_ids R (leaf_search R l q dst) = bm_ids R dst \<union> {i. \<exists>t. (t, i) \<in> set h \<and> equality_match get (leaf_agrees l) t q}
    \<and> {i. \<exists>t. (t, i) \<in> set h \<and> equality_match get (=) t q} \<subseteq> bm_ids R (leaf_search R l q dst)"
proof -
  have exact: "bm_ids R (leaf_search R l q dst) = bm_ids R dst \<union> {i. \<exists>t. (t, i) \<in> set h \<and> equality_match get (leaf_agrees l) t q}"
  proof (cases l)
    case (Exact_Leaf r)
    then have "rule_holds R get h r" using roaring.leaf_holds_reachable [OF assms] by simp
    from roaring.rule_search_ids [OF assms(1) this, of q dst] Exact_Leaf show ?thesis
      by (simp add: equality_match_def cong: option.case_cong)
  next
    case (Lossy_Leaf r)
    then have "rule_holds R get h r" using roaring.leaf_holds_reachable [OF assms] by simp
    from roaring.rule_search_ids [OF assms(1) this, of q dst] Lossy_Leaf show ?thesis
      by (simp add: equality_match_def cong: option.case_cong)
  qed
  moreover have "equality_match get (leaf_agrees l) t q" if "equality_match get (=) t q" for t
    using that by (cases l) (auto simp: equality_match_def split: option.splits)
  ultimately show ?thesis by blast
qed

section \<open>The limit loop returns\<close>

text \<open>A serialized bitmap of 32-bit IDs is far below 2^40 bytes; this keeps the accounting from overflowing.\<close>

definition small_bitmaps :: "'b roaring \<Rightarrow> bool" where
  "small_bitmaps R \<longleftrightarrow> (\<forall>b. unat (bm_bytes R b) < 2 ^ 40)"

lemma quantized_keys_few:
  assumes "1 \<le> level" "level \<le> 17"
  shows "card (range (quantized_key level)) \<le> 2 ^ 16"
proof -
  have "quantized_key level hash \<in> (\<lambda>n. push_bit 48 (of_nat n)) ` {..<2 ^ 16}" for hash
  proof
    let ?k = "quantized_key level hash"
    have "level \<noteq> 0" "1 \<le> unat level" using assms(1) by (auto simp: word_le_nat_alt)
    then have low: "\<not> bit ?k n" if "n < 48" for n
      using that by (simp add: bit_quantized_key [OF assms(2)])
    show "?k = push_bit 48 (of_nat (unat (drop_bit 48 ?k)))"
    proof (rule bit_word_eqI)
      fix n
      show "bit ?k n \<longleftrightarrow> bit (push_bit 48 (of_nat (unat (drop_bit 48 ?k))) :: u64) n" if "n < LENGTH(64)"
        using low [of n] that by (cases "n < 48") (simp_all add: bit_simps)
    qed
    have "unat (drop_bit 48 ?k) = drop_bit 48 (unat ?k)" using unsigned_less [of ?k, where 'a = nat] by (simp add: unsigned_drop_bit_eq take_bit_nat_eq_self)
    also have "\<dots> < 2 ^ 16"
      using unsigned_less [of ?k, where 'a = nat] by (simp add: drop_bit_eq_div div_less_iff_less_mult)
    finally show "unat (drop_bit 48 ?k) \<in> {..<2 ^ 16}" by simp
  qed
  then have "range (quantized_key level) \<subseteq> (\<lambda>n. push_bit 48 (of_nat n)) ` {..<2 ^ 16}" by blast
  from card_mono [OF _ this] show ?thesis
    using card_image_le [of "{..<2 ^ 16}" "\<lambda>n. push_bit 48 (of_nat n) :: u64"] by simp
qed

lemma merge_keys: "fst ` set (foldl (merge_posting R old coarsen) g keys) \<subseteq> fst ` set g \<union> range coarsen"
proof (induction keys arbitrary: g)
  case (Cons key keys)
  have "fst ` set (merge_posting R old coarsen g key) \<subseteq> fst ` set g \<union> range coarsen"
    by (auto simp: merge_posting_def dom_update split: option.splits)
  with Cons [of "merge_posting R old coarsen g key"] show ?case by auto
qed simp

lemma rebuild_in_order_succeeds:
  assumes "small_bitmaps R" "1 \<le> level" "level \<le> 17"
  shows "rebuild_generation_in_order R old keys (int n) 8 (\<lambda>key. quantized_key level key) \<noteq> None"
proof -
  let ?g = "foldl (merge_posting R old (quantized_key level)) [] keys"
  have "distinct (map fst ?g)" by (rule distinct_merge_fold) simp
  then have "length ?g = card (fst ` set ?g)" using distinct_card [of "map fst ?g"] by simp
  also have "\<dots> \<le> card (range (quantized_key level))" by (rule card_mono) (use merge_keys [of R old "quantized_key level" "[]" keys] in auto)
  also have "\<dots> \<le> 2 ^ 16" by (rule quantized_keys_few [OF assms(2,3)])
  finally have few: "length ?g \<le> 2 ^ 16" .
  have "generation_bytes R 8 ?g \<le> (\<Sum>_\<leftarrow>?g. 8 + 2 ^ 40)"
    unfolding generation_bytes_def
    by (rule sum_list_mono) (use assms(1) in \<open>auto simp: small_bitmaps_def less_imp_le\<close>)
  also have "\<dots> = length ?g * (8 + 2 ^ 40)" by (simp add: sum_list_triv)
  also have "\<dots> \<le> 2 ^ 16 * (8 + 2 ^ 40)" using few by (rule mult_le_mono1)
  finally have bound: "generation_bytes R 8 ?g < 2 ^ 64" by simp
  have "generation_usage R 8 0 ?g = Some (of_nat (generation_bytes R 8 ?g))"
    using bound by (simp add: generation_usage_iff unsigned_of_nat take_bit_nat_eq_self)
  then show ?thesis by (simp add: rebuild_generation_in_order_def Let_def)
qed

text \<open>The number of levels a leaf still has.\<close>

fun leaf_rank :: "('t, 'v, 'b) equality_leaf \<Rightarrow> nat" where
  "leaf_rank (Exact_Leaf r) = 17"
| "leaf_rank (Lossy_Leaf r) = 17 - unat (qe_level r)"

lemma leaf_next_rank:
  assumes "roaring R" "small_bitmaps R" "leaf_holds R codec get h l" "orders_for orders l" "leaf_next R codec orders l = Some l'"
  shows "leaf_rank l' < leaf_rank l"
proof (cases l)
  case (Exact_Leaf r)
  then have "qe_coarsen r = None" using assms(3) by simp
  with assms(5) Exact_Leaf obtain r' where
    first: "first_generation R codec r (fst orders (er_values (qe_rule r))) = Some r'" "l' = Lossy_Leaf r'"
    by (auto simp: prepare_streaming_next_def split: option.splits)
  with roaring.leaf_holds_first [OF assms(1) assms(3,4) [unfolded Exact_Leaf]] have "1 \<le> qe_level r'" by simp
  then show ?thesis by (simp add: Exact_Leaf first(2) word_le_nat_alt)
next
  case (Lossy_Leaf r)
  let ?order = "snd orders (er_values (qe_rule r))"
  have l': "l' = Lossy_Leaf (rebuild_equality_next R r ?order)" and level: "qe_level r < 17"
    using assms(5) Lossy_Leaf by (auto simp: prepare_streaming_next_def Let_def equality_terminal_level_def split: if_splits)
  have enc: "qe_coarsen r = Some (\<lambda>key level. quantized_key level key)" "qe_less r = Some (<)" "qe_key_bytes r = 8"
    using assms(3) Lossy_Leaf by simp_all
  note next_l = next_level [OF level]
  have "qe_level (rebuild_equality_next R r ?order) = qe_level r + 1"
  proof (rule rebuild_equality_cases [OF enc(1,2) level, where order = ?order and R = R])
    assume "rebuild_generation_in_order R (collect_postings R (er_values (qe_rule r)) ?order)
         (swap_sort (<) (map fst (collect_postings R (er_values (qe_rule r)) ?order)))
         (int (length (collect_postings R (er_values (qe_rule r)) ?order))) (qe_key_bytes r) (\<lambda>key. quantized_key (qe_level r + 1) key) = None"
    then show ?thesis using rebuild_in_order_succeeds [OF assms(2) next_l(4,3)] by (simp add: enc(3))
  qed simp
  then show ?thesis using next_l(5) level by (simp add: Lossy_Leaf l' word_less_nat_alt)
qed

text \<open>
  The loop that reduces the precision of an equality filter until it fits a limit returns after at most
  seventeen steps: the filter then fits, or it has no coarser representation, because its values have no
  codec or because it is at the last level.
\<close>

theorem fit_streaming_limit_returns:
  assumes "roaring R" "small_bitmaps R" "orders_ok orders" "leaf_reachable R codec node get key_bytes l h"
  shows "\<exists>l'. fit_streaming_limit R codec orders l limit = Some l' \<and> leaf_reachable R codec node get key_bytes l' h
    \<and> (leaf_usage R orders l' \<le> limit \<or> leaf_next R codec orders l' = None)"
  using assms(4)
proof (induction "leaf_rank l" arbitrary: l rule: less_induct)
  case less
  show ?case
  proof (cases "limit < leaf_usage R orders l")
    case False
    with less.prems show ?thesis by (subst fit_streaming_limit.simps) auto
  next
    case over: True
    show ?thesis
    proof (cases "leaf_next R codec orders l")
      case None
      with over less.prems show ?thesis by (subst fit_streaming_limit.simps) auto
    next
      case (Some l')
      note holds = roaring.leaf_holds_reachable [OF assms(1) less.prems]
      have order: "orders_for orders l" using assms(3) holds by (rule orders_ok_for)
      have "leaf_rank l' < leaf_rank l" by (rule leaf_next_rank [OF assms(1,2) holds order Some])
      moreover have "leaf_reachable R codec node get key_bytes l' h" using less.prems order Some by (rule leaf_reachable.advance)
      ultimately show ?thesis using less.hyps over Some by (subst fit_streaming_limit.simps) simp
    qed
  qed
qed

section \<open>An example\<close>

definition sample_leaf :: "(u64, u64, u32 list) equality_leaf" where
  "sample_leaf =
     the (leaf_next list_bitmap (Inr (\<lambda>v. v) :: unit + (u64 \<Rightarrow> u64)) (\<lambda>_. [], \<lambda>_. [])
       (leaf_insert list_bitmap (leaf_insert list_bitmap (Exact_Leaf (include_quantized list_bitmap 0 Some 8)) 5 1) 6 2))"

lemma sample_leaf_reachable:
  "leaf_reachable list_bitmap (Inr (\<lambda>v. v) :: unit + (u64 \<Rightarrow> u64)) 0 Some 8 sample_leaf [(5, 1), (6, 2)]"
proof -
  let ?B = list_bitmap and ?codec = "Inr (\<lambda>v. v) :: unit + (u64 \<Rightarrow> u64)" and ?o = "(\<lambda>_. [], \<lambda>_. []) :: (u64, u32 list) orders"
  let ?l = "leaf_insert ?B (leaf_insert ?B (Exact_Leaf (include_quantized ?B 0 Some 8)) 5 1) 6 2"
  have two: "leaf_reachable ?B ?codec 0 Some 8 ?l (([] @ [(5, 1)]) @ [(6, 2)])"
    by (intro leaf_reachable.insert leaf_reachable.start)
  moreover have "orders_for ?o ?l" by code_simp
  moreover have "leaf_next ?B ?codec ?o ?l = Some sample_leaf"
  proof -
    have "\<not> Option.is_none (leaf_next ?B ?codec ?o ?l)" by code_simp
    then show ?thesis by (simp add: sample_leaf_def Option.is_none_def del: leaf_next.simps leaf_insert.simps)
  qed
  ultimately show ?thesis using leaf_reachable.advance by fastforce
qed

theorem lossy_equality_search_witness: "bm_ids list_bitmap (leaf_search list_bitmap sample_leaf 5 []) = {1, 2}"
proof -
  have "leaf_agrees sample_leaf 5 5" "leaf_agrees sample_leaf 6 5" by code_simp+
  then show ?thesis
    using lossy_equality_search [OF list_bitmap.roaring_axioms sample_leaf_reachable, of 5 "[]"]
    by (auto simp: equality_match_def list_bitmap_sem)
qed

lemma sorted_visit_order:
  assumes "ei_ok (t :: ('k :: linorder, 'b) equality_index)"
  shows "visit_order t (sorted_list_of_set (dom (the (ei_offsets t))))"
proof -
  obtain ks where "key_order t ks" using assms by (auto simp: ei_ok_def)
  then show ?thesis using key_order_offsets(1) [of t ks] by (auto simp: visit_order_def split: option.splits)
qed

lemma sorted_orders_ok: "orders_ok (\<lambda>t. sorted_list_of_set (dom (the (ei_offsets t))), \<lambda>t. sorted_list_of_set (dom (the (ei_offsets t))))"
  by (simp add: orders_ok_def sorted_visit_order)

lemma list_bitmaps_small: "small_bitmaps list_bitmap"
proof -
  have "unat (bm_bytes list_bitmap b) < 2 ^ 40" for b
  proof -
    have "length (remdups b) \<le> 2 ^ 32" using card_u32_le [of "set b"] by (simp add: List.card_set)
    then show ?thesis by (simp add: list_bitmap_sem unsigned_of_nat take_bit_nat_eq_self del: of_nat_add of_nat_mult of_nat_numeral)
  qed
  then show ?thesis by (simp add: small_bitmaps_def)
qed

theorem fit_streaming_limit_returns_witness:
  "fit_streaming_limit list_bitmap (Inr (\<lambda>v. v) :: unit + (u64 \<Rightarrow> u64))
     (\<lambda>t. sorted_list_of_set (dom (the (ei_offsets t))), \<lambda>t. sorted_list_of_set (dom (the (ei_offsets t)))) sample_leaf 0 \<noteq> None"
  using fit_streaming_limit_returns [OF list_bitmap.roaring_axioms list_bitmaps_small sorted_orders_ok sample_leaf_reachable, of 0] by auto

end
