(* ===== verification/Ordered_Rebuild.thy ===== *)
theory Ordered_Rebuild
  imports Ordered_Rule
begin

text \<open>
  Ordered filters under a memory limit (\<^verbatim>\<open>ordered_rebuild.go\<close>, \<^verbatim>\<open>ordered_streaming.go\<close> and the build accounting
  of \<^verbatim>\<open>ordered.go\<close>): two neighbouring boundaries are merged into the outer one, and later values are rounded
  outwards to an existing boundary. A rebuild replaces the items it changes and shares the others; the
  recycled block slices are storage only.
\<close>

section \<open>Rounding and selecting a merge\<close>

definition rounded_boundary :: "('v, 'b) ordered_index \<Rightarrow> 'v \<Rightarrow> bool \<Rightarrow> 'v" where
  "rounded_boundary x v upward =
     (if ox_blocks x = [] then v
      else let n = block_for x v;
               items = ob_items (ox_blocks x ! n);
               pos = search_block (ox_compare x) items v
           in if pos < length items \<and> ox_compare x (oi_value (items ! pos)) v = 0 then oi_value (items ! pos)
              else if upward then
                (if pos < length items then oi_value (items ! pos)
                 else if n + 1 < length (ox_blocks x) then oi_value (ob_items (ox_blocks x ! (n + 1)) ! 0)
                 else v)
              else if 0 < pos then oi_value (items ! (pos - 1))
              else if 0 < n then last_value (ox_blocks x ! (n - 1))
              else v)"

record merge_candidate =
  mc_position :: nat
  mc_cardinality :: u64
  mc_footprint :: u64

text \<open>The loop of \<open>bestOrderedMerge\<close> over neighbours; no candidate is position -1 in the code.\<close>

fun best_merge_from ::
  "'b roaring \<Rightarrow> ('v, 'b) ordered_item \<Rightarrow> nat \<Rightarrow> merge_candidate option \<Rightarrow> ('v, 'b) ordered_item list \<Rightarrow> merge_candidate option" where
  "best_merge_from R previous pos best [] = best"
| "best_merge_from R previous pos best (current # items) =
     (let cardinality = bm_card R (oi_bits previous) + bm_card R (oi_bits current)
                        - bm_and_card R (oi_bits previous) (oi_bits current);
          footprint = bm_bytes R (oi_bits previous) + bm_bytes R (oi_bits current);
          candidate = \<lparr>mc_position = pos, mc_cardinality = cardinality, mc_footprint = footprint\<rparr>
      in best_merge_from R current (Suc pos)
           (case best of
              None \<Rightarrow> Some candidate
            | Some b \<Rightarrow>
                (if cardinality < mc_cardinality b \<or> cardinality = mc_cardinality b \<and> mc_footprint b < footprint
                 then Some candidate else best)) items)"

definition best_ordered_merge :: "'b roaring \<Rightarrow> ('v, 'b) ordered_index \<Rightarrow> merge_candidate option" where
  "best_ordered_merge R x =
     (case flat x of [] \<Rightarrow> None | first # items \<Rightarrow> best_merge_from R first 0 None items)"

definition better_ordered_merge :: "merge_candidate option \<Rightarrow> merge_candidate option \<Rightarrow> bool" where
  "better_ordered_merge candidate current =
     (case candidate of
        None \<Rightarrow> False
      | Some c \<Rightarrow>
          (case current of
             None \<Rightarrow> True
           | Some b \<Rightarrow> mc_cardinality c < mc_cardinality b
               \<or> mc_cardinality c = mc_cardinality b \<and> mc_footprint b < mc_footprint c))"

section \<open>Build accounting\<close>

record ordered_accounting =
  ac_memory :: u64
  ac_items :: u64
  ac_distinct :: u64

definition no_accounting :: ordered_accounting where
  "no_accounting = \<lparr>ac_memory = 0, ac_items = 0, ac_distinct = 0\<rparr>"

definition add_accounting :: "ordered_accounting \<Rightarrow> ordered_accounting \<Rightarrow> ordered_accounting" where
  "add_accounting a b =
     \<lparr>ac_memory = ac_memory a + ac_memory b, ac_items = ac_items a + ac_items b, ac_distinct = ac_distinct a + ac_distinct b\<rparr>"

definition subtract_accounting :: "ordered_accounting \<Rightarrow> ordered_accounting \<Rightarrow> ordered_accounting" where
  "subtract_accounting a b =
     \<lparr>ac_memory = ac_memory a - ac_memory b, ac_items = ac_items a - ac_items b, ac_distinct = ac_distinct a - ac_distinct b\<rparr>"

text \<open>\<open>value_bytes\<close> is \<open>comparableValueBytes\<close>, a size estimate of a value by reflection.\<close>

definition block_accounting :: "'b roaring \<Rightarrow> ('v \<Rightarrow> u64) \<Rightarrow> ('v, 'b) ordered_block \<Rightarrow> ordered_accounting" where
  "block_accounting R value_bytes b =
     foldl (\<lambda>a item. a\<lparr>ac_memory := ac_memory a + (value_bytes (oi_value item) + 8 + bm_bytes R (oi_bits item)),
                       ac_items := ac_items a + bm_card R (oi_bits item)\<rparr>)
       \<lparr>ac_memory = (if 1 < length (ob_items b) then bm_bytes R (ob_bits b) + 8 else 0), ac_items = 0,
        ac_distinct = of_nat (length (ob_items b))\<rparr> (ob_items b)"

definition blocks_accounting :: "'b roaring \<Rightarrow> ('v \<Rightarrow> u64) \<Rightarrow> ('v, 'b) ordered_block list \<Rightarrow> ordered_accounting" where
  "blocks_accounting R value_bytes bs = foldl (\<lambda>a b. add_accounting a (block_accounting R value_bytes b)) no_accounting bs"

text \<open>An index with the cached accounting, if it is valid.\<close>

record ('v, 'b) accounted_index =
  bx_index :: "('v, 'b) ordered_index"
  bx_accounting :: "ordered_accounting option"

definition build_accounting :: "'b roaring \<Rightarrow> ('v \<Rightarrow> u64) \<Rightarrow> ('v, 'b) accounted_index \<Rightarrow> ordered_accounting" where
  "build_accounting R value_bytes x =
     (case bx_accounting x of Some a \<Rightarrow> a | None \<Rightarrow> blocks_accounting R value_bytes (ox_blocks (bx_index x)))"

definition quantized_accounting ::
  "'b roaring \<Rightarrow> ('v \<Rightarrow> u64) \<Rightarrow> ('v, 'b) accounted_index \<Rightarrow> 'b \<Rightarrow> u64 \<times> u64 \<times> u64" where
  "quantized_accounting R value_bytes x wildcard =
     (let a = build_accounting R value_bytes x
      in (foldl (\<lambda>memory b. memory + (8 + bm_bytes R (rb_bits b))) (24 + bm_bytes R wildcard + ac_memory a) (ox_range (bx_index x)),
          bm_card R wildcard + ac_items a, ac_distinct a))"

section \<open>Merging two neighbours\<close>

fun ordered_item_position :: "nat \<Rightarrow> ('v, 'b) ordered_block list \<Rightarrow> nat \<Rightarrow> (nat \<times> nat) option" where
  "ordered_item_position n [] pos = None"
| "ordered_item_position n (b # bs) pos =
     (if pos < length (ob_items b) then Some (n, pos) else ordered_item_position (Suc n) bs (pos - length (ob_items b)))"

definition aggregate_items :: "'b roaring \<Rightarrow> ('v, 'b) ordered_item list \<Rightarrow> 'b" where
  "aggregate_items R items = (case items of [item] \<Rightarrow> oi_bits item | _ \<Rightarrow> union_items R items)"

definition new_block :: "'b roaring \<Rightarrow> ('v, 'b) ordered_item list \<Rightarrow> ('v, 'b) ordered_block" where
  "new_block R items = \<lparr>ob_items = items, ob_bits = aggregate_items R items\<rparr>"

definition remove_nth :: "nat \<Rightarrow> 'a list \<Rightarrow> 'a list" where
  "remove_nth n xs = take n xs @ drop (Suc n) xs"

text \<open>The position is one that \<open>best_ordered_merge\<close> selected; the code would index out of range otherwise.\<close>

definition rebuild_selected ::
  "'b roaring \<Rightarrow> ('v \<Rightarrow> u64) \<Rightarrow> ('v, 'b) accounted_index \<Rightarrow> direction \<Rightarrow> merge_candidate \<Rightarrow> ('v, 'b) accounted_index" where
  "rebuild_selected R value_bytes x dir selected =
     (let current = build_accounting R value_bytes x;
          bs = ox_blocks (bx_index x);
          (left_block, left_pos) = the (ordered_item_position 0 bs (mc_position selected));
          (right_block, right_pos) = the (ordered_item_position 0 bs (mc_position selected + 1));
          left = ob_items (bs ! left_block) ! left_pos;
          right = ob_items (bs ! right_block) ! right_pos;
          merged = \<lparr>oi_value = (if dir = Less_Than then oi_value right else oi_value left),
                    oi_bits = bm_or R (oi_bits left) (oi_bits right)\<rparr>;
          publish = (\<lambda>blocks accounting.
            \<lparr>bx_index = (bx_index x)\<lparr>ox_blocks := blocks, ox_prefix := [], ox_range := [], ox_routing := no_routing\<rparr>,
             bx_accounting = Some accounting\<rparr>)
      in if left_block = right_block then
           (let items = remove_nth right_pos ((ob_items (bs ! left_block))[left_pos := merged]);
                block = new_block R items
            in publish (bs[left_block := block])
                 (add_accounting (subtract_accounting current (block_accounting R value_bytes (bs ! left_block)))
                    (block_accounting R value_bytes block)))
         else
           (let old_accounting = add_accounting (block_accounting R value_bytes (bs ! left_block))
                                   (block_accounting R value_bytes (bs ! right_block));
                left_items = ob_items (bs ! left_block);
                right_items = ob_items (bs ! right_block);
                (left_items, right_items) =
                  (if dir = Greater_Than then (left_items[left_pos := merged], remove_nth right_pos right_items)
                   else (remove_nth left_pos left_items, right_items[right_pos := merged]));
                blocks = bs[left_block := new_block R left_items, right_block := new_block R right_items];
                blocks = (if left_items = [] then remove_nth left_block blocks
                          else if right_items = [] then remove_nth right_block blocks
                          else blocks);
                new_accounting = (if left_items = [] then no_accounting
                                  else add_accounting no_accounting (block_accounting R value_bytes (blocks ! left_block)));
                new_accounting = (if right_items = [] then new_accounting
                                  else add_accounting new_accounting
                                    (block_accounting R value_bytes
                                      (blocks ! (if left_items = [] then right_block - 1 else right_block))))
            in publish blocks (add_accounting (subtract_accounting current old_accounting) new_accounting)))"

section \<open>The filter\<close>

record ('t, 'v, 'b) quantized_ordered =
  qo_rule :: "('t, 'v, 'b) ordered_rule"
  qo_accounting :: "ordered_accounting option"
  qo_quantized :: bool

definition new_quantized_ordered :: "('t, 'v, 'b) ordered_rule \<Rightarrow> ('t, 'v, 'b) quantized_ordered" where
  "new_quantized_ordered r = \<lparr>qo_rule = r, qo_accounting = None, qo_quantized = False\<rparr>"

definition qo_index :: "('t, 'v, 'b) quantized_ordered \<Rightarrow> ('v, 'b) accounted_index" where
  "qo_index r = \<lparr>bx_index = od_index (qo_rule r), bx_accounting = qo_accounting r\<rparr>"

definition insert_ordered :: "'b roaring \<Rightarrow> ('v, 'b) ordered_index \<Rightarrow> 'v \<Rightarrow> u32 \<Rightarrow> direction \<Rightarrow> bool \<Rightarrow> ('v, 'b) ordered_index" where
  "insert_ordered R x v i dir quantized =
     ox_insert R x (if quantized then rounded_boundary x v (dir = Less_Than) else v) i"

definition quantized_od_insert :: "'b roaring \<Rightarrow> ('t, 'v, 'b) quantized_ordered \<Rightarrow> 't \<Rightarrow> u32 \<Rightarrow> ('t, 'v, 'b) quantized_ordered" where
  "quantized_od_insert R r t i =
     (let o' = qo_rule r
      in case od_get o' t of
           None \<Rightarrow> r\<lparr>qo_rule := o'\<lparr>od_wildcard := bm_add R (od_wildcard o') i\<rparr>\<rparr>
         | Some v \<Rightarrow>
             r\<lparr>qo_rule := o'\<lparr>od_index := insert_ordered R (od_index o') v i (od_dir o') (qo_quantized r)\<rparr>,
               qo_accounting := None\<rparr>)"

definition unique_values :: "('v, 'b) ordered_index \<Rightarrow> nat" where
  "unique_values x = length (flat x)"

definition ordered_usage :: "'b roaring \<Rightarrow> ('v \<Rightarrow> u64) \<Rightarrow> ('t, 'v, 'b) quantized_ordered \<Rightarrow> u64" where
  "ordered_usage R value_bytes r = fst (quantized_accounting R value_bytes (qo_index r) (od_wildcard (qo_rule r)))"

text \<open>\<open>prepareStreamingNext\<close> and its \<open>apply\<close>.\<close>

definition ordered_streaming_next ::
  "'b roaring \<Rightarrow> ('v \<Rightarrow> u64) \<Rightarrow> ('t, 'v, 'b) quantized_ordered \<Rightarrow> (u64 \<times> ('t, 'v, 'b) quantized_ordered) option" where
  "ordered_streaming_next R value_bytes r =
     (if unique_values (od_index (qo_rule r)) \<le> 1 then None
      else let next_index = rebuild_selected R value_bytes (qo_index r) (od_dir (qo_rule r))
                              (the (best_ordered_merge R (od_index (qo_rule r))));
               r' = r\<lparr>qo_rule := (qo_rule r)\<lparr>od_index := bx_index next_index\<rparr>, qo_accounting := bx_accounting next_index,
                      qo_quantized := True\<rparr>
           in Some (ordered_usage R value_bytes r', r'))"

partial_function (option) fit_ordered_limit ::
  "'b roaring \<Rightarrow> ('v \<Rightarrow> u64) \<Rightarrow> ('t, 'v, 'b) quantized_ordered \<Rightarrow> u64 \<Rightarrow> ('t, 'v, 'b) quantized_ordered option" where
  "fit_ordered_limit R value_bytes r limit =
     (if limit < ordered_usage R value_bytes r
      then case ordered_streaming_next R value_bytes r of
             None \<Rightarrow> Some r
           | Some (_, r') \<Rightarrow> fit_ordered_limit R value_bytes r' limit
      else Some r)"

section \<open>Positions\<close>

lemma position_split:
  assumes "\<forall>b\<in>set bs. ob_items b \<noteq> []" "concat (map ob_items bs) = P @ l # r # S"
  obtains (same) as B cs xs ys where "bs = as @ B # cs" "ob_items B = xs @ l # r # ys"
      "P = concat (map ob_items as) @ xs" "S = ys @ concat (map ob_items cs)"
      "ordered_item_position n bs (length P) = Some (n + length as, length xs)"
      "ordered_item_position n bs (length P + 1) = Some (n + length as, Suc (length xs))"
  | (border) as B C cs xs ys where "bs = as @ B # C # cs" "ob_items B = xs @ [l]" "ob_items C = r # ys"
      "P = concat (map ob_items as) @ xs" "S = ys @ concat (map ob_items cs)"
      "ordered_item_position n bs (length P) = Some (n + length as, length xs)"
      "ordered_item_position n bs (length P + 1) = Some (n + Suc (length as), 0)"
  using assms
proof (induction bs arbitrary: P n thesis)
  case Nil
  then show ?case by simp
next
  case (Cons B bs)
  consider (inside) ys where "ob_items B = P @ l # r # ys" "S = ys @ concat (map ob_items bs)"
    | (border) "ob_items B = P @ [l]" "concat (map ob_items bs) = r # S"
    | (later) P' where "P = ob_items B @ P'" "concat (map ob_items bs) = P' @ l # r # S"
  proof -
    have "ob_items B @ concat (map ob_items bs) = P @ l # r # S" using Cons.prems(4) by simp
    then show thesis
      by (auto simp: append_eq_append_conv2 append_eq_Cons_conv Cons_eq_append_conv intro: inside border later)
  qed
  then show ?case
  proof cases
    case inside
    show ?thesis by (rule Cons.prems(1) [of "[]" B bs P ys]) (use inside in simp_all)
  next
    case border
    then obtain C cs where bs: "bs = C # cs" by (cases bs) auto
    with border(2) Cons.prems(3) obtain ys where "ob_items C = r # ys" "S = ys @ concat (map ob_items cs)"
      by (cases "ob_items C") auto
    then show ?thesis by (intro Cons.prems(2) [of "[]" B C cs P ys]) (use border bs in simp_all)
  next
    case later
    show ?thesis
    proof (rule Cons.IH [of P' "Suc n"])
      fix as B' cs xs ys
      assume "bs = as @ B' # cs" "ob_items B' = xs @ l # r # ys" "P' = concat (map ob_items as) @ xs" "S = ys @ concat (map ob_items cs)"
        "ordered_item_position (Suc n) bs (length P') = Some (Suc n + length as, length xs)"
        "ordered_item_position (Suc n) bs (length P' + 1) = Some (Suc n + length as, Suc (length xs))"
      then show ?thesis by (intro Cons.prems(1) [of "B # as" B' cs xs ys]) (simp_all add: later)
    next
      fix as B' C cs xs ys
      assume "bs = as @ B' # C # cs" "ob_items B' = xs @ [l]" "ob_items C = r # ys" "P' = concat (map ob_items as) @ xs"
        "S = ys @ concat (map ob_items cs)"
        "ordered_item_position (Suc n) bs (length P') = Some (Suc n + length as, length xs)"
        "ordered_item_position (Suc n) bs (length P' + 1) = Some (Suc n + Suc (length as), 0)"
      then show ?thesis by (intro Cons.prems(2) [of "B # as" B' C cs xs ys]) (simp_all add: later)
    qed (use Cons.prems(3) later in simp_all)
  qed
qed

definition merged_item :: "'b roaring \<Rightarrow> direction \<Rightarrow> ('v, 'b) ordered_item \<Rightarrow> ('v, 'b) ordered_item \<Rightarrow> ('v, 'b) ordered_item" where
  "merged_item R dir l r =
     \<lparr>oi_value = (if dir = Less_Than then oi_value r else oi_value l), oi_bits = bm_or R (oi_bits l) (oi_bits r)\<rparr>"

lemma remove_nth_append: "remove_nth (length xs) (xs @ x # ys) = xs @ ys"
  by (simp add: remove_nth_def)

text \<open>What a rebuild publishes: the blocks of one of four shapes.\<close>

definition rebuilt_blocks :: "'b roaring \<Rightarrow> ('v, 'b) ordered_block list \<Rightarrow> ('v, 'b) ordered_block list \<Rightarrow> bool" where
  "rebuilt_blocks R old bs \<longleftrightarrow> (\<forall>b\<in>set bs. b \<in> set old \<or> (\<exists>items. items \<noteq> [] \<and> length items \<le> orderedBlockSize * 2 \<and> b = new_block R items))"

lemma rebuild_selected_blocks:
  assumes "\<forall>b\<in>set (ox_blocks (bx_index x)). block_ok R b" "flat (bx_index x) = P @ l # r # S" "mc_position c = length P"
  shows "flat (bx_index (rebuild_selected R value_bytes x dir c)) = P @ merged_item R dir l r # S"
    "rebuilt_blocks R (ox_blocks (bx_index x)) (ox_blocks (bx_index (rebuild_selected R value_bytes x dir c)))"
proof -
  let ?x = "bx_index (rebuild_selected R value_bytes x dir c)" and ?bs = "ox_blocks (bx_index x)"
  have nonempty: "\<forall>b\<in>set ?bs. ob_items b \<noteq> []" using assms(1) by (simp add: block_ok_def)
  have small: "length (ob_items b) \<le> orderedBlockSize * 2" if "b \<in> set ?bs" for b using assms(1) that by (simp add: block_ok_def)
  have "flat ?x = P @ merged_item R dir l r # S \<and> rebuilt_blocks R ?bs (ox_blocks ?x)"
  proof (rule position_split [OF nonempty assms(2) [unfolded flat_def], of 0])
    fix as B cs xs ys
    assume bs: "?bs = as @ B # cs" "ob_items B = xs @ l # r # ys" "P = concat (map ob_items as) @ xs" "S = ys @ concat (map ob_items cs)"
      and pos: "ordered_item_position 0 ?bs (length P) = Some (0 + length as, length xs)"
        "ordered_item_position 0 ?bs (length P + 1) = Some (0 + length as, Suc (length xs))"
    let ?items = "xs @ merged_item R dir l r # ys"
    have removed: "remove_nth (Suc (length xs)) (xs @ merged_item R dir l r # r # ys) = ?items"
      using remove_nth_append [of "xs @ [merged_item R dir l r]" r ys] by simp
    have second: "(xs @ l # r # ys) ! Suc (length xs) = r" by (simp add: nth_append)
    have "ox_blocks ?x = as @ new_block R ?items # cs"
      using bs pos removed second by (cases dir) (simp_all add: rebuild_selected_def assms(3) Let_def merged_item_def)
    moreover have "length ?items \<le> orderedBlockSize * 2" using small [of B] bs(1,2) by simp
    ultimately show ?thesis using bs(1,3,4) by (auto simp: flat_def rebuilt_blocks_def new_block_def)
  next
    fix as B C cs xs ys
    assume bs: "?bs = as @ B # C # cs" "ob_items B = xs @ [l]" "ob_items C = r # ys" "P = concat (map ob_items as) @ xs"
        "S = ys @ concat (map ob_items cs)"
      and pos: "ordered_item_position 0 ?bs (length P) = Some (0 + length as, length xs)"
        "ordered_item_position 0 ?bs (length P + 1) = Some (0 + Suc (length as), 0)"
    let ?m = "merged_item R dir l r"
    have nth: "(as @ B # C # cs) ! Suc (length as) = C" by (simp add: nth_append)
    have sizes: "length xs < orderedBlockSize * 2" "length ys < orderedBlockSize * 2" using small [of B] small [of C] bs(1-3) by simp_all
    have blocks: "ox_blocks ?x =
        (if dir = Greater_Than
         then as @ new_block R (xs @ [?m]) # (if ys = [] then cs else new_block R ys # cs)
         else as @ (if xs = [] then new_block R (?m # ys) # cs else new_block R xs # new_block R (?m # ys) # cs))"
      using bs pos nth
      by (cases dir) (auto simp: rebuild_selected_def assms(3) Let_def merged_item_def remove_nth_def nth_append list_update_append)
    show ?thesis unfolding blocks flat_def rebuilt_blocks_def
      using bs(1,4,5) sizes by (cases dir) (auto simp: new_block_def blocks)
  qed
  then show "flat ?x = P @ merged_item R dir l r # S" "rebuilt_blocks R ?bs (ox_blocks ?x)" by auto
qed

section \<open>The selected merge is a pair of neighbours\<close>

lemma best_merge_from_bound:
  "best_merge_from R previous pos best items = Some c \<Longrightarrow>
   best = Some c \<or> pos \<le> mc_position c \<and> mc_position c < pos + length items"
proof (induction R previous pos best items rule: best_merge_from.induct)
  case (2 R previous pos best current items)
  let ?candidate = "\<lparr>mc_position = pos,
    mc_cardinality = bm_card R (oi_bits previous) + bm_card R (oi_bits current) - bm_and_card R (oi_bits previous) (oi_bits current),
    mc_footprint = bm_bytes R (oi_bits previous) + bm_bytes R (oi_bits current)\<rparr>"
  from 2(2) consider "best_merge_from R current (Suc pos) best items = Some c" | "best_merge_from R current (Suc pos) (Some ?candidate) items = Some c"
    by (auto simp: Let_def split: option.splits if_splits)
  then have "best = Some c \<or> ?candidate = c \<or> Suc pos \<le> mc_position c \<and> mc_position c < Suc pos + length items"
    using "2.IH" [OF refl refl refl] 2(2) by (auto simp: Let_def split: option.splits if_splits)
  then show ?case by auto
qed simp

lemma best_merge_from_Some: "best \<noteq> None \<or> items \<noteq> [] \<Longrightarrow> best_merge_from R previous pos best items \<noteq> None"
  by (induction R previous pos best items rule: best_merge_from.induct) (auto simp: Let_def split: option.splits)

lemma best_ordered_merge_split:
  assumes "1 < length (flat x)"
  obtains c P l r S where "best_ordered_merge R x = Some c" "flat x = P @ l # r # S" "mc_position c = length P"
proof -
  obtain first items where flat: "flat x = first # items" "items \<noteq> []" using assms by (cases "flat x") auto
  obtain c where c: "best_merge_from R first 0 None items = Some c" using best_merge_from_Some [of None items R first 0] flat(2) by auto
  then have "mc_position c < length items" using best_merge_from_bound [OF c] by simp
  then have "Suc (mc_position c) < length (flat x)" using flat(1) by simp
  then have "flat x = take (mc_position c) (flat x) @ flat x ! mc_position c # flat x ! Suc (mc_position c) # drop (Suc (Suc (mc_position c))) (flat x)"
    by (metis Cons_nth_drop_Suc Suc_lessD append_take_drop_id)
  then show thesis
    by (rule that [rotated]) (use c flat(1) \<open>mc_position c < length items\<close> in \<open>simp_all add: best_ordered_merge_def\<close>)
qed

section \<open>A rebuilt index is in order\<close>

context roaring
begin

lemma block_ok_new: "items \<noteq> [] \<Longrightarrow> length items \<le> orderedBlockSize * 2 \<Longrightarrow> block_ok R (new_block R items)"
  by (cases items rule: list.exhaust [case_names Nil Cons])
    (auto simp: block_ok_def new_block_def aggregate_items_def ids_union_items split: list.splits)

lemma rebuilt_blocks_ok:
  assumes "rebuilt_blocks R old bs" "\<forall>b\<in>set old. block_ok R b"
  shows "\<forall>b\<in>set bs. block_ok R b"
  using assms by (fastforce simp: rebuilt_blocks_def intro: block_ok_new)

lemma sorted_merged:
  assumes "comparator cmp" "sorted_items cmp (P @ l # r # S)"
  shows "sorted_items cmp (P @ merged_item R dir l r # S)"
  using assms(2) comparator.cmp_less_trans [OF assms(1)]
  by (cases dir) (auto simp: sorted_items_def sorted_wrt_append merged_item_def)

lemma ox_building_rebuild:
  assumes "ox_building R (bx_index x)" "flat (bx_index x) = P @ l # r # S" "mc_position c = length P"
  shows "ox_building R (bx_index (rebuild_selected R value_bytes x dir c))"
    "flat (bx_index (rebuild_selected R value_bytes x dir c)) = P @ merged_item R dir l r # S"
    "ox_compare (bx_index (rebuild_selected R value_bytes x dir c)) = ox_compare (bx_index x)"
proof -
  let ?y = "bx_index (rebuild_selected R value_bytes x dir c)"
  have ok: "\<forall>b\<in>set (ox_blocks (bx_index x)). block_ok R b" "comparator (ox_compare (bx_index x))"
    "sorted_items (ox_compare (bx_index x)) (P @ l # r # S)"
    using assms(1,2) by (auto simp: ox_building_def ox_ok_def)
  note rebuilt = rebuild_selected_blocks [OF ok(1) assms(2,3), of value_bytes dir]
  show "flat ?y = P @ merged_item R dir l r # S" by (rule rebuilt(1))
  show cmp: "ox_compare ?y = ox_compare (bx_index x)"
    by (simp add: rebuild_selected_def Let_def case_prod_beta)
  have tables: "ox_routing ?y = no_routing" "ox_range ?y = []" "ox_prefix ?y = []"
    by (simp_all add: rebuild_selected_def Let_def case_prod_beta)
  show "ox_building R ?y"
    using rebuilt_blocks_ok [OF rebuilt(2) ok(1)] sorted_merged [OF ok(2,3), of dir] ok(2)
    by (simp add: ox_building_def ox_ok_def cmp tables rebuilt(1) routing_ok_def range_ok_def prefix_ok_def no_routing_def)
qed

end

section \<open>The nearest boundary\<close>

definition nearest :: "('v \<Rightarrow> 'v \<Rightarrow> int) \<Rightarrow> direction \<Rightarrow> ('v, 'b) ordered_item list \<Rightarrow> 'v \<Rightarrow> ('v, 'b) ordered_item option" where
  "nearest cmp dir items v =
     (case dir of
        Less_Than \<Rightarrow> find (\<lambda>a. 0 \<le> cmp (oi_value a) v) items
      | Greater_Than \<Rightarrow> find (\<lambda>a. cmp (oi_value a) v \<le> 0) (rev items))"

lemma find_append: "find p (xs @ ys) = (case find p xs of None \<Rightarrow> find p ys | Some x \<Rightarrow> Some x)"
  by (induction xs) auto

lemma find_member: "find p xs = Some a \<Longrightarrow> a \<in> set xs \<and> p a"
  by (induction xs) (auto split: if_splits)

lemma nearest_merged:
  assumes "comparator cmp" "sorted_items cmp (P @ l # r # S)"
  shows "nearest cmp dir (P @ merged_item R dir l r # S) v
    = map_option (\<lambda>a. if a = l \<or> a = r then merged_item R dir l r else a) (nearest cmp dir (P @ l # r # S) v)"
proof -
  have lr: "cmp (oi_value l) (oi_value r) < 0" using assms(2) by (simp add: sorted_items_def sorted_wrt_append)
  have below: "cmp (oi_value l) v < 0" if "cmp (oi_value r) v < 0"
    using comparator.cmp_less_trans [OF assms(1) lr that] .
  have above: "0 < cmp (oi_value r) v" if "0 < cmp (oi_value l) v"
  proof -
    have "cmp v (oi_value l) < 0" using that by (simp add: comparator.cmp_antisym [OF assms(1)])
    then have "cmp v (oi_value r) < 0" using lr by (rule comparator.cmp_less_trans [OF assms(1)])
    then show ?thesis by (simp add: comparator.cmp_antisym [OF assms(1)])
  qed
  have irrefl: "\<not> cmp a a < 0" for a by (simp add: comparator.cmp_refl [OF assms(1)])
  have distinct: "a \<noteq> l \<and> a \<noteq> r" if "a \<in> set P \<union> set S" for a
    using assms(2) that irrefl by (auto simp: sorted_items_def sorted_wrt_append)
  have keep: "a \<noteq> l \<and> a \<noteq> r" if "find p xs = Some a" "set xs \<subseteq> set P \<union> set S" for p xs a
    using find_member [OF that(1)] that(2) distinct by blast
  have same: "map_option (\<lambda>a. if a = l \<or> a = r then m else a) (find p xs) = find p xs" if "set xs \<subseteq> set P \<union> set S" for p xs m
    using keep [OF _ that, of p] by (cases "find p xs") auto
  show ?thesis
  proof (cases dir)
    case Less_Than
    then show ?thesis using below
      by (auto simp: nearest_def find_append merged_item_def not_le same dest: keep [of _ P] split: option.splits)
  next
    case Greater_Than
    then show ?thesis using above
      by (auto simp: nearest_def find_append merged_item_def not_le same dest: keep [of _ "rev S"] split: option.splits)
  qed
qed

lemma find_skip: "\<forall>a\<in>set xs. \<not> p a \<Longrightarrow> find p (xs @ ys) = find p ys"
  by (induction xs) auto

lemma find_none: "\<forall>a\<in>set xs. \<not> p a \<Longrightarrow> find p xs = None"
  by (induction xs) auto

text \<open>Rounding a value finds the nearest boundary in its direction, or keeps the value beyond the last one.\<close>

lemma rounded_boundary_nearest:
  assumes ok: "ox_ok R x"
  shows "rounded_boundary x v (dir = Less_Than) = (case nearest (ox_compare x) dir (flat x) v of None \<Rightarrow> v | Some a \<Rightarrow> oi_value a)"
proof (cases "ox_blocks x = []")
  case True
  then show ?thesis by (cases dir) (simp_all add: rounded_boundary_def nearest_def flat_def)
next
  case False
  let ?cmp = "ox_compare x" and ?n = "block_for x v"
  let ?items = "ob_items (ox_blocks x ! ?n)"
  let ?low = "\<lambda>a. ?cmp (oi_value a) v < 0"
  let ?T = "takeWhile ?low ?items" and ?D = "dropWhile ?low ?items"
  have order: "comparator ?cmp" using ok by (rule ox_ok_comparator)
  have at: "block_pos x v ?n" using ok False by (rule block_for_pos)
  then have n: "?n < length (ox_blocks x)" by (simp add: block_pos_def)
  have flat: "flat x = before_block x ?n @ ?T @ ?D @ after_block x ?n" using flat_cut [OF n] by simp
  have before: "\<forall>a\<in>set (before_block x ?n). ?cmp (oi_value a) v < 0" using before_block_less [OF ok at] by blast
  have after: "\<forall>a\<in>set (after_block x ?n). 0 < ?cmp (oi_value a) v" using after_block_greater [OF ok at] by blast
  have T: "\<forall>a\<in>set ?T. ?cmp (oi_value a) v < 0" by (auto dest: set_takeWhileD)
  have sorted: "sorted_items ?cmp (?T @ ?D)" using ox_ok_block_sorted [OF ok n] by simp
  have nonempty: "?items \<noteq> []" by (rule ox_ok_block_items [OF ok n])
  have pos: "search_block ?cmp ?items v = length ?T" by (rule search_block_takeWhile [OF order ox_ok_block_sorted [OF ok n]])
  have D_head: "0 \<le> ?cmp (oi_value d) v" "\<forall>a\<in>set D'. 0 < ?cmp (oi_value a) v" if D: "?D = d # D'" for d D'
  proof -
    show d: "0 \<le> ?cmp (oi_value d) v" using hd_dropWhile [of ?low ?items] D by (simp add: not_less)
    have "?cmp (oi_value d) (oi_value a) < 0" if "a \<in> set D'" for a using sorted that unfolding D by (auto simp: sorted_items_def sorted_wrt_append)
    then show "\<forall>a\<in>set D'. 0 < ?cmp (oi_value a) v"
      using d comparator.cmp_le_less_trans [OF order, of v "oi_value d"]
      by (auto simp: comparator.cmp_antisym [OF order, symmetric] comparator.cmp_le_flip [OF order])
  qed
  have nth_pos: "?items ! length ?T = d" if "?D = d # D'" for d D'
    using that by (metis nth_append_length takeWhile_dropWhile_id)
  have len_pos: "length ?T < length ?items \<longleftrightarrow> ?D \<noteq> []"
  proof -
    have "length ?items = length ?T + length ?D" by (metis length_append takeWhile_dropWhile_id)
    then show ?thesis by simp
  qed
  show ?thesis
  proof (cases dir)
    case Less_Than
    have near: "nearest ?cmp Less_Than (flat x) v = find (\<lambda>a. 0 \<le> ?cmp (oi_value a) v) (?D @ after_block x ?n)"
      unfolding nearest_def flat using before T by (simp add: find_skip not_le)
    show ?thesis
    proof (cases ?D)
      case (Cons d D')
      then show ?thesis using D_head(1) [OF Cons] nth_pos [OF Cons] len_pos False
        by (simp add: near rounded_boundary_def Let_def pos Less_Than)
    next
      case Nil
      then have "last ?items \<in> set ?T" using nonempty by (metis append_Nil2 last_in_set takeWhile_dropWhile_id)
      then have "?cmp (last_value (ox_blocks x ! ?n)) v < 0" using T by (simp add: last_value_def)
      then have last: "\<not> Suc ?n < length (ox_blocks x)" using at by (simp add: block_pos_def)
      then have rest: "after_block x ?n = []" by (simp add: after_block_def)
      have "nearest ?cmp Less_Than (flat x) v = None" unfolding near Nil rest by simp
      moreover have "\<not> length ?T < length ?items" using len_pos Nil by simp
      ultimately show ?thesis using last False by (simp add: rounded_boundary_def Let_def pos Less_Than)
    qed
  next
    case Greater_Than
    have near: "nearest ?cmp Greater_Than (flat x) v = find (\<lambda>a. ?cmp (oi_value a) v \<le> 0) (rev ?D @ rev ?T @ rev (before_block x ?n))"
      unfolding nearest_def flat using after by (simp add: find_skip not_le)
    show ?thesis
    proof (cases "\<exists>d D'. ?D = d # D' \<and> ?cmp (oi_value d) v = 0")
      case True
      then obtain d D' where d: "?D = d # D'" "?cmp (oi_value d) v = 0" by blast
      have "find (\<lambda>a. ?cmp (oi_value a) v \<le> 0) (rev ?D @ rev ?T @ rev (before_block x ?n)) = Some d"
        using D_head(2) [OF d(1)] d by (simp add: find_skip not_le)
      then show ?thesis using d nth_pos [OF d(1)] len_pos False by (simp add: near rounded_boundary_def Let_def pos Greater_Than)
    next
      case no_equal: False
      have high: "\<forall>a\<in>set ?D. 0 < ?cmp (oi_value a) v"
      proof (cases ?D)
        case (Cons d D')
        then have "?cmp (oi_value d) v \<noteq> 0" using no_equal by blast
        then have "0 < ?cmp (oi_value d) v" using D_head(1) [OF Cons] by simp
        then show ?thesis using D_head(2) [OF Cons] unfolding Cons by simp
      qed (simp only: list.set empty_iff ball_empty simp_thms)
      then have near': "nearest ?cmp Greater_Than (flat x) v = find (\<lambda>a. ?cmp (oi_value a) v \<le> 0) (rev ?T @ rev (before_block x ?n))"
        unfolding near by (simp add: find_skip not_le)
      have unequal: "\<not> (length ?T < length ?items \<and> ?cmp (oi_value (?items ! length ?T)) v = 0)"
        using no_equal nth_pos len_pos by (cases ?D) auto
      show ?thesis
      proof (cases ?T rule: rev_cases)
        case (snoc T' t)
        have "?items = T' @ t # ?D" using takeWhile_dropWhile_id [of ?low ?items] unfolding snoc by simp
        then have at_t: "?items ! length T' = t" by (metis nth_append_length)
        have "?cmp (oi_value t) v < 0" using T unfolding snoc by simp
        then have "nearest ?cmp Greater_Than (flat x) v = Some t" unfolding near' snoc by simp
        moreover have "length ?T = Suc (length T')" unfolding snoc by simp
        ultimately show ?thesis using at_t unequal False
          by (auto simp: rounded_boundary_def Let_def pos Greater_Than)
      next
        case Nil
        have fallback: "rounded_boundary x v False = (if 0 < ?n then last_value (ox_blocks x ! (?n - 1)) else v)"
          using unequal False unfolding rounded_boundary_def Let_def pos Nil by auto
        have near0: "nearest ?cmp Greater_Than (flat x) v = find (\<lambda>a. ?cmp (oi_value a) v \<le> 0) (rev (before_block x ?n))"
          unfolding near' Nil by simp
        show ?thesis
        proof (cases ?n)
          case 0
          then show ?thesis using near0 fallback by (simp add: Greater_Than before_block_def)
        next
          case (Suc m)
          have m: "m < length (ox_blocks x)" using n Suc by simp
          have "before_block x ?n = before_block x m @ ob_items (ox_blocks x ! m)"
            by (simp add: before_block_def Suc take_Suc_conv_app_nth [OF m])
          moreover have items_m: "ob_items (ox_blocks x ! m) \<noteq> []" by (rule ox_ok_block_items [OF ok m])
          ultimately have split: "rev (before_block x ?n) = last (ob_items (ox_blocks x ! m)) # rev (before_block x m @ butlast (ob_items (ox_blocks x ! m)))"
            by (metis append.assoc append_butlast_last_id rev.simps(2) rev_rev_ident rev_append rev_singleton_conv append_Cons append_Nil)
          have "last (ob_items (ox_blocks x ! m)) \<in> set (before_block x ?n)" using split by (metis list.set_intros(1) set_rev)
          then have "?cmp (oi_value (last (ob_items (ox_blocks x ! m)))) v < 0" using before by blast
          then have "nearest ?cmp Greater_Than (flat x) v = Some (last (ob_items (ox_blocks x ! m)))" unfolding near0 split by simp
          then show ?thesis using fallback Suc by (simp add: Greater_Than last_value_def)
        qed
      qed
    qed
  qed
qed

end
