(* ===== verification/Ordered_Streaming.thy ===== *)
theory Ordered_Streaming
  imports Ordered_Rebuild Posting_Rebuild
begin

text \<open>
  What an ordered filter under a memory limit returns: every stored value is kept under the boundary nearest
  to it in the direction of the filter, through any interleaving of insertions and merges.
\<close>

section \<open>Values under their nearest boundary\<close>

definition holds_near ::
  "'b roaring \<Rightarrow> ('v \<Rightarrow> 'v \<Rightarrow> int) \<Rightarrow> direction \<Rightarrow> ('t \<Rightarrow> 'v option) \<Rightarrow> ('t \<times> u32) list \<Rightarrow> ('v, 'b) ordered_item list \<Rightarrow> bool" where
  "holds_near R cmp dir get h items \<longleftrightarrow>
     (\<forall>t i v. (t, i) \<in> set h \<longrightarrow> get t = Some v \<longrightarrow> nearest cmp dir items v \<noteq> None)
     \<and> (\<forall>a\<in>set items. bm_ids R (oi_bits a) = stored_ids get h (\<lambda>x. \<exists>v. x = Some v \<and> nearest cmp dir items v = Some a))"

lemma find_map_value:
  "(\<And>a. p (f a) = p a) \<Longrightarrow> find p (map f xs) = map_option f (find p xs)"
  by (induction xs) auto

lemma nearest_bump: "nearest cmp dir (map (bump R cmp' u i) items) v = map_option (bump R cmp' u i) (nearest cmp dir items v)"
  by (cases dir) (simp_all add: nearest_def rev_map find_map_value)

lemma nearest_member: "nearest cmp dir items v = Some a \<Longrightarrow> a \<in> set items"
  by (cases dir) (auto simp: nearest_def dest: find_member)

lemma sorted_items_inject:
  assumes "comparator cmp" "sorted_items cmp items" "a \<in> set items" "b \<in> set items" "cmp (oi_value a) (oi_value b) = 0"
  shows "a = b"
proof -
  obtain m n where mn: "m < length items" "items ! m = a" "n < length items" "items ! n = b"
    using assms(3,4) by (auto simp: in_set_conv_nth)
  have less: "cmp (oi_value (items ! k)) (oi_value (items ! l)) < 0" if "k < l" "l < length items" for k l
    using assms(2) that by (simp add: sorted_items_def sorted_wrt_iff_nth_less)
  have "m = n"
    using less [of m n] less [of n m] mn assms(5) comparator.cmp_eq_sym [OF assms(1), of "oi_value a" "oi_value b"]
    by (cases m n rule: linorder_cases) auto
  with mn show ?thesis by simp
qed

context roaring
begin

text \<open>Adding an ID to the boundary that is nearest to its value.\<close>

lemma holds_near_bump:
  assumes cmp: "comparator cmp" "sorted_items cmp items" and near: "holds_near R cmp dir get h items"
    and e: "get t = Some v" "nearest cmp dir items v = Some e" "cmp (oi_value e) u = 0"
  shows "holds_near R cmp dir get (h @ [(t, i)]) (map (bump R cmp u i) items)"
proof -
  let ?b = "bump R cmp u i"
  have same: "cmp (oi_value a) u = 0 \<longleftrightarrow> a = e" if "a \<in> set items" for a
  proof
    assume "cmp (oi_value a) u = 0"
    then have "cmp (oi_value a) (oi_value e) = 0"
      using e(3) comparator.cmp_eq_cong0 [OF cmp(1), of "oi_value a" u "oi_value e"] comparator.cmp_eq_sym [OF cmp(1)] by auto
    then show "a = e" using sorted_items_inject [OF cmp that nearest_member [OF e(2)]] by simp
  qed (use e(3) in simp)
  have inj: "?b a = ?b c \<longleftrightarrow> a = c" if "a \<in> set items" "c \<in> set items" for a c
  proof
    assume "?b a = ?b c"
    then have "oi_value (?b a) = oi_value (?b c)" by simp
    then have "cmp (oi_value a) (oi_value c) = 0" by (simp add: comparator.cmp_refl [OF cmp(1)])
    then show "a = c" by (rule sorted_items_inject [OF cmp that])
  qed simp
  have moved: "nearest cmp dir (map ?b items) w = Some (?b a) \<longleftrightarrow> nearest cmp dir items w = Some a" if "a \<in> set items" for a w
    using inj [OF nearest_member that] by (auto simp: nearest_bump)
  have "bm_ids R (oi_bits (?b a)) = stored_ids get (h @ [(t, i)]) (\<lambda>x. \<exists>v. x = Some v \<and> nearest cmp dir (map ?b items) v = Some (?b a))"
    if "a \<in> set items" for a
  proof -
    have "bm_ids R (oi_bits (?b a)) = (if a = e then insert i (bm_ids R (oi_bits a)) else bm_ids R (oi_bits a))"
      using same [OF that] by (simp add: bump_def ids_add)
    also have "bm_ids R (oi_bits a) = stored_ids get h (\<lambda>x. \<exists>v. x = Some v \<and> nearest cmp dir items v = Some a)"
      using near that by (simp add: holds_near_def)
    finally show ?thesis using e(1,2) by (simp add: moved [OF that])
  qed
  then show ?thesis
    using near e(1,2) by (auto simp: holds_near_def nearest_bump)
qed

text \<open>A new boundary that is nearest to its own value and to no value stored before.\<close>

lemma holds_near_new:
  assumes near: "holds_near R cmp dir get h (xs @ ys)"
    and n: "get t = Some v" "bm_ids R (oi_bits n) = {i}" "nearest cmp dir (xs @ n # ys) v = Some n" "n \<notin> set xs \<union> set ys"
    and others: "\<And>w. nearest cmp dir (xs @ ys) w \<noteq> None \<Longrightarrow> \<exists>s j. (s, j) \<in> set h \<and> get s = Some w
      \<Longrightarrow> nearest cmp dir (xs @ n # ys) w = nearest cmp dir (xs @ ys) w"
  shows "holds_near R cmp dir get (h @ [(t, i)]) (xs @ n # ys)"
proof -
  have stored: "nearest cmp dir (xs @ n # ys) w = nearest cmp dir (xs @ ys) w" "nearest cmp dir (xs @ ys) w \<noteq> None"
    if "(s, j) \<in> set h" "get s = Some w" for s j w
  proof -
    show "nearest cmp dir (xs @ ys) w \<noteq> None" using near that by (auto simp: holds_near_def)
    then show "nearest cmp dir (xs @ n # ys) w = nearest cmp dir (xs @ ys) w"
      by (rule others) (use that in blast)
  qed
  have ids: "stored_ids get h (\<lambda>x. \<exists>v. x = Some v \<and> nearest cmp dir (xs @ n # ys) v = Some a)
      = stored_ids get h (\<lambda>x. \<exists>v. x = Some v \<and> nearest cmp dir (xs @ ys) v = Some a)" for a
    using stored(1) by (auto simp: stored_ids_def)
  have none: "stored_ids get h (\<lambda>x. \<exists>v. x = Some v \<and> nearest cmp dir (xs @ ys) v = Some n) = {}"
    using nearest_member [of cmp dir "xs @ ys" _ n] n(4) by (auto simp: stored_ids_def)
  have old: "bm_ids R (oi_bits a) = stored_ids get h (\<lambda>x. \<exists>v. x = Some v \<and> nearest cmp dir (xs @ ys) v = Some a)"
    if "a \<in> set xs \<union> set ys" for a
    using near that by (auto simp: holds_near_def)
  show ?thesis
    unfolding holds_near_def
  proof (intro conjI ballI allI impI)
    fix s j w
    assume "(s, j) \<in> set (h @ [(t, i)])" "get s = Some w"
    then show "nearest cmp dir (xs @ n # ys) w \<noteq> None" using stored n(1,3) by (cases "(s, j) \<in> set h") auto
  next
    fix a
    assume a: "a \<in> set (xs @ n # ys)"
    have own: "(\<exists>v. get t = Some v \<and> nearest cmp dir (xs @ n # ys) v = Some a) \<longleftrightarrow> a = n" using n(1,3) by auto
    show "bm_ids R (oi_bits a) = stored_ids get (h @ [(t, i)]) (\<lambda>x. \<exists>v. x = Some v \<and> nearest cmp dir (xs @ n # ys) v = Some a)"
    proof (cases "a = n")
      case True
      then show ?thesis unfolding stored_ids_simps own ids by (simp add: none n(2))
    next
      case False
      then have "a \<in> set xs \<union> set ys" using a by auto
      from old [OF this] False show ?thesis unfolding stored_ids_simps own ids by simp
    qed
  qed
qed

lemma holds_near_merge:
  assumes "comparator cmp" "sorted_items cmp (P @ l # r # S)" "holds_near R cmp dir get h (P @ l # r # S)"
  shows "holds_near R cmp dir get h (P @ merged_item R dir l r # S)"
proof -
  let ?m = "merged_item R dir l r"
  note near = nearest_merged [OF assms(1,2), of dir R]
  have irrefl: "\<not> cmp a a < 0" for a by (simp add: comparator.cmp_refl [OF assms(1)])
  have lr: "l \<noteq> r" using assms(2) irrefl by (auto simp: sorted_items_def sorted_wrt_append)
  have apart: "a \<noteq> l \<and> a \<noteq> r \<and> a \<noteq> ?m" if "a \<in> set P \<union> set S" for a
    using assms(2) that irrefl by (cases dir) (auto simp: sorted_items_def sorted_wrt_append merged_item_def)
  have at_m: "nearest cmp dir (P @ ?m # S) v = Some ?m
      \<longleftrightarrow> nearest cmp dir (P @ l # r # S) v = Some l \<or> nearest cmp dir (P @ l # r # S) v = Some r" for v
  proof (cases "nearest cmp dir (P @ l # r # S) v")
    case (Some a)
    then have "a \<in> set P \<union> set S \<or> a = l \<or> a = r" using nearest_member [OF Some] by auto
    then show ?thesis using apart [of a] Some by (auto simp: near)
  qed (simp add: near)
  have m: "stored_ids get h (\<lambda>x. \<exists>v. x = Some v \<and> nearest cmp dir (P @ ?m # S) v = Some ?m)
      = stored_ids get h (\<lambda>x. \<exists>v. x = Some v \<and> nearest cmp dir (P @ l # r # S) v = Some l)
        \<union> stored_ids get h (\<lambda>x. \<exists>v. x = Some v \<and> nearest cmp dir (P @ l # r # S) v = Some r)"
    by (auto simp: stored_ids_def at_m)
  have other: "stored_ids get h (\<lambda>x. \<exists>v. x = Some v \<and> nearest cmp dir (P @ ?m # S) v = Some a)
      = stored_ids get h (\<lambda>x. \<exists>v. x = Some v \<and> nearest cmp dir (P @ l # r # S) v = Some a)" if "a \<in> set P \<union> set S" for a
    using apart [OF that] by (auto simp: stored_ids_def near split: if_splits)
  have "bm_ids R (oi_bits ?m) = bm_ids R (oi_bits l) \<union> bm_ids R (oi_bits r)" by (simp add: merged_item_def ids_or)
  then show ?thesis
    using assms(3) m other by (auto simp: holds_near_def near)
qed

end

section \<open>Insertion\<close>

lemma nearest_equal:
  assumes "comparator cmp" "sorted_items cmp items" "e \<in> set items" "cmp (oi_value e) v = 0"
  shows "nearest cmp dir items v = Some e"
proof -
  obtain xs ys where items: "items = xs @ e # ys" using assms(3) by (auto simp: in_set_conv_decomp)
  have ev: "cmp (oi_value e) v \<le> 0" "cmp v (oi_value e) \<le> 0"
    using assms(4) comparator.cmp_eq_sym [OF assms(1), of v "oi_value e"] by simp_all
  have below: "\<forall>a\<in>set xs. cmp (oi_value a) v < 0"
    using assms(2) ev(1) comparator.cmp_less_le_trans [OF assms(1)] by (auto simp: items sorted_items_def sorted_wrt_append)
  have above: "\<forall>a\<in>set ys. 0 < cmp (oi_value a) v"
  proof
    fix a assume "a \<in> set ys"
    then have "cmp (oi_value e) (oi_value a) < 0" using assms(2) by (simp add: items sorted_items_def sorted_wrt_append)
    then have "cmp v (oi_value a) < 0" by (rule comparator.cmp_le_less_trans [OF assms(1) ev(2)])
    then show "0 < cmp (oi_value a) v" by (simp add: comparator.cmp_antisym [OF assms(1)])
  qed
  show ?thesis
    using below above assms(4) by (cases dir) (simp_all add: items nearest_def find_skip not_le)
qed

lemma nearest_None:
  "nearest cmp Less_Than items v = None \<longleftrightarrow> (\<forall>a\<in>set items. cmp (oi_value a) v < 0)"
  "nearest cmp Greater_Than items v = None \<longleftrightarrow> (\<forall>a\<in>set items. 0 < cmp (oi_value a) v)"
  by (auto simp: nearest_def find_None_iff)

definition exactly_held :: "('v \<Rightarrow> 'v \<Rightarrow> int) \<Rightarrow> ('t \<Rightarrow> 'v option) \<Rightarrow> ('t \<times> u32) list \<Rightarrow> ('v, 'b) ordered_item list \<Rightarrow> bool" where
  "exactly_held cmp get h items \<longleftrightarrow> (\<forall>t i v. (t, i) \<in> set h \<longrightarrow> get t = Some v \<longrightarrow> (\<exists>a\<in>set items. cmp (oi_value a) v = 0))"

context roaring
begin

lemma holds_near_insert:
  assumes bld: "ox_building R x" and near: "holds_near R (ox_compare x) dir get h (flat x)"
    and exact: "\<not> quantized \<Longrightarrow> exactly_held (ox_compare x) get h (flat x)" and t: "get t = Some v"
  shows "holds_near R (ox_compare x) dir get (h @ [(t, i)]) (flat (insert_ordered R x v i dir quantized))"
proof -
  let ?cmp = "ox_compare x"
  define u where "u = (if quantized then rounded_boundary x v (dir = Less_Than) else v)"
  have ok: "ox_ok R x" using bld by (rule ox_ok_building)
  have cmp: "comparator ?cmp" "sorted_items ?cmp (flat x)" using ok by (auto simp: ox_ok_def)
  have refl: "?cmp a a = 0" for a by (rule comparator.cmp_refl [OF cmp(1)])
  have flat: "flat (insert_ordered R x v i dir quantized) = put_item R ?cmp u i (flat x)"
    by (simp add: insert_ordered_def u_def flat_insert [OF bld])
  have rounded: "u = (case nearest ?cmp dir (flat x) v of None \<Rightarrow> v | Some a \<Rightarrow> oi_value a)" if quantized
    using that rounded_boundary_nearest [OF ok, of v dir] by (simp add: u_def)
  show ?thesis
  proof (cases "\<exists>e\<in>set (flat x). ?cmp (oi_value e) u = 0")
    case True
    then obtain e where e: "e \<in> set (flat x)" "?cmp (oi_value e) u = 0" by blast
    have "\<exists>a. nearest ?cmp dir (flat x) v = Some a \<and> ?cmp (oi_value a) u = 0"
    proof (cases quantized)
      case True
      show ?thesis
      proof (cases "nearest ?cmp dir (flat x) v")
        case None
        then have "u = v" using rounded [OF True] by simp
        with nearest_equal [OF cmp e(1), of v dir] e(2) None show ?thesis by simp
      qed (use rounded [OF True] refl in simp)
    next
      case False
      then have "u = v" by (simp add: u_def)
      with nearest_equal [OF cmp e(1), of v dir] e(2) show ?thesis by simp
    qed
    then obtain a where "nearest ?cmp dir (flat x) v = Some a" "?cmp (oi_value a) u = 0" by blast
    from holds_near_bump [OF cmp near t this] True show ?thesis by (simp add: flat put_item_def)
  next
    case none: False
    let ?low = "\<lambda>a. ?cmp (oi_value a) u < 0"
    let ?T = "takeWhile ?low (flat x)" and ?D = "dropWhile ?low (flat x)"
    let ?n = "\<lparr>oi_value = u, oi_bits = bm_add R (bm_new R) i\<rparr>"
    have u: "u = v"
    proof (cases quantized)
      case True
      then show ?thesis using rounded [OF True] none refl nearest_member [of ?cmp dir "flat x" v] by (cases "nearest ?cmp dir (flat x) v") auto
    qed (simp add: u_def)
    have put: "flat (insert_ordered R x v i dir quantized) = ?T @ ?n # ?D" using none by (simp add: flat put_item_def)
    have "sorted_items ?cmp (?T @ ?n # ?D)"
      using ox_ok_building [OF ox_building_insert [OF bld, of u i]] by (simp add: ox_ok_def flat_insert [OF bld] put_item_def none)
    note own = nearest_equal [OF cmp(1) this]
    have TD: "?T @ ?D = flat x" by (rule takeWhile_dropWhile_id)
    have new: "?n \<notin> set ?T \<union> set ?D"
    proof
      assume "?n \<in> set ?T \<union> set ?D"
      then have "?n \<in> set (flat x)" using TD by (metis set_append)
      then show False using none refl [of u] by force
    qed
    have others: "nearest ?cmp dir (?T @ ?n # ?D) w = nearest ?cmp dir (?T @ ?D) w"
      if ne: "nearest ?cmp dir (?T @ ?D) w \<noteq> None" and ex: "\<exists>s j. (s, j) \<in> set h \<and> get s = Some w" for w
    proof (cases quantized)
      case False
      then obtain a where a: "a \<in> set (flat x)" "?cmp (oi_value a) w = 0" using exact ex by (auto simp: exactly_held_def)
      then have "a \<in> set (?T @ ?n # ?D)" using TD by (metis Un_iff list.set_intros(2) set_append)
      with a show ?thesis unfolding TD using nearest_equal [OF cmp a(1)] own [of a w dir] by simp
    next
      case True
      then have "nearest ?cmp dir (flat x) v = None"
        using rounded [OF True] none refl nearest_member [of ?cmp dir "flat x" v] by (cases "nearest ?cmp dir (flat x) v") auto
      then consider "dir = Less_Than" "?D = []" "?T = flat x" | "dir = Greater_Than" "?T = []" "?D = flat x"
      proof (cases dir)
        case Less_Than
        then have "\<forall>a\<in>set (flat x). ?low a" using \<open>nearest ?cmp dir (flat x) v = None\<close> by (simp add: nearest_None u)
        then show thesis using that(1) [OF Less_Than] by (simp add: takeWhile_eq_all_conv dropWhile_eq_Nil_conv)
      next
        case Greater_Than
        then have "\<forall>a\<in>set (flat x). \<not> ?low a" using \<open>nearest ?cmp dir (flat x) v = None\<close> by (fastforce simp: nearest_None u)
        then have "?T = [] \<and> ?D = flat x" by (cases "flat x") auto
        then show thesis using that(2) [OF Greater_Than] by blast
      qed
      then show ?thesis
      proof cases
        case 1
        show ?thesis using ne unfolding 1 by (auto simp: nearest_def find_append split: option.splits)
      next
        case 2
        show ?thesis using ne unfolding 2 by (auto simp: nearest_def find_append split: option.splits)
      qed
    qed
    have at: "nearest ?cmp dir (?T @ ?n # ?D) v = Some ?n" using own [of ?n v dir] refl u by simp
    have old: "holds_near R ?cmp dir get h (?T @ ?D)" unfolding TD by (rule near)
    have bits: "bm_ids R (oi_bits ?n) = {i}" by (simp add: ids_add ids_new)
    show ?thesis unfolding put
      by (rule holds_near_new [where xs = ?T and ys = ?D and n = ?n and v = v, OF old t bits at new]) (rule others)
  qed
qed

lemma exactly_held_insert:
  assumes "ox_building R x" "exactly_held (ox_compare x) get h (flat x)" "get t = Some v"
  shows "exactly_held (ox_compare x) get (h @ [(t, i)]) (flat (insert_ordered R x v i dir False))"
proof -
  let ?cmp = "ox_compare x"
  have ok: "comparator ?cmp" using ox_ok_building [OF assms(1)] by (simp add: ox_ok_def)
  have old: "\<exists>b\<in>set (put_item R ?cmp v i (flat x)). ?cmp (oi_value b) w = 0" if "a \<in> set (flat x)" "?cmp (oi_value a) w = 0" for a w
  proof (cases "\<exists>item\<in>set (flat x). ?cmp (oi_value item) v = 0")
    case True
    have "bump R ?cmp v i a \<in> set (put_item R ?cmp v i (flat x))" using True that(1) by (simp add: put_item_def)
    then show ?thesis using that(2) by (metis oi_value_bump)
  next
    case False
    then show ?thesis using that by (auto simp: set_put_item_absent)
  qed
  have own: "\<exists>b\<in>set (put_item R ?cmp v i (flat x)). ?cmp (oi_value b) v = 0"
  proof (cases "\<exists>item\<in>set (flat x). ?cmp (oi_value item) v = 0")
    case False
    then show ?thesis by (simp add: set_put_item_absent comparator.cmp_refl [OF ok])
  qed (use old in blast)
  show ?thesis
    using assms(2,3) old own by (auto simp: exactly_held_def insert_ordered_def flat_insert [OF assms(1)]) blast
qed

end

section \<open>The accounting of a rebuild\<close>

lemma accounting_fold: "foldl (\<lambda>a b. add_accounting a (f b)) z bs = add_accounting z (foldl (\<lambda>a b. add_accounting a (f b)) no_accounting bs)"
proof (induction bs arbitrary: z)
  case (Cons b bs)
  show ?case by (simp only: foldl_Cons Cons [of "add_accounting z (f b)"] Cons [of "add_accounting no_accounting (f b)"])
    (simp add: add_accounting_def no_accounting_def)
qed (simp add: add_accounting_def no_accounting_def)

lemma blocks_accounting_simps [simp]:
  "blocks_accounting R vb [] = no_accounting"
  "blocks_accounting R vb (b # bs) = add_accounting (block_accounting R vb b) (blocks_accounting R vb bs)"
  "blocks_accounting R vb (bs @ cs) = add_accounting (blocks_accounting R vb bs) (blocks_accounting R vb cs)"
proof -
  show cons: "blocks_accounting R vb (b # bs) = add_accounting (block_accounting R vb b) (blocks_accounting R vb bs)" for b bs
    by (simp add: blocks_accounting_def accounting_fold [of _ "add_accounting no_accounting (block_accounting R vb b)"])
      (simp add: add_accounting_def no_accounting_def)
  show "blocks_accounting R vb (bs @ cs) = add_accounting (blocks_accounting R vb bs) (blocks_accounting R vb cs)"
    by (simp add: blocks_accounting_def accounting_fold [of _ "foldl _ _ bs"])
qed (simp add: blocks_accounting_def)

lemmas accounting_ring = add_accounting_def subtract_accounting_def no_accounting_def

definition accounted :: "'b roaring \<Rightarrow> ('v \<Rightarrow> u64) \<Rightarrow> ('v, 'b) accounted_index \<Rightarrow> bool" where
  "accounted R vb x \<longleftrightarrow> build_accounting R vb x = blocks_accounting R vb (ox_blocks (bx_index x))"

lemma build_accounting_cached: "build_accounting R vb \<lparr>bx_index = x, bx_accounting = Some a\<rparr> = a"
  by (simp add: build_accounting_def)

lemma accounted_rebuild:
  assumes "accounted R vb x" "\<forall>b\<in>set (ox_blocks (bx_index x)). ob_items b \<noteq> []" "flat (bx_index x) = P @ l # r # S" "mc_position c = length P"
  shows "accounted R vb (rebuild_selected R vb x dir c)"
proof -
  let ?y = "rebuild_selected R vb x dir c" and ?bs = "ox_blocks (bx_index x)" and ?B = "block_accounting R vb"
  note cur = assms(1) [unfolded accounted_def]
  show ?thesis
  proof (rule position_split [OF assms(2) assms(3) [unfolded flat_def], of 0])
    fix as B cs xs ys
    assume bs: "?bs = as @ B # cs" "ob_items B = xs @ l # r # ys"
      and pos: "ordered_item_position 0 ?bs (length P) = Some (0 + length as, length xs)"
        "ordered_item_position 0 ?bs (length P + 1) = Some (0 + length as, Suc (length xs))"
    show ?thesis
      using bs pos cur
      by (simp add: accounted_def build_accounting_cached rebuild_selected_def assms(4) Let_def)
        (simp add: accounting_ring algebra_simps)
  next
    fix as B C cs xs ys
    assume bs: "?bs = as @ B # C # cs" "ob_items B = xs @ [l]" "ob_items C = r # ys"
      and pos: "ordered_item_position 0 ?bs (length P) = Some (0 + length as, length xs)"
        "ordered_item_position 0 ?bs (length P + 1) = Some (0 + Suc (length as), 0)"
    have nth: "(as @ B # C # cs) ! Suc (length as) = C" by (simp add: nth_append)
    show ?thesis
      using bs pos cur nth
      by (cases dir)
        (auto simp: accounted_def build_accounting_cached rebuild_selected_def assms(4) Let_def remove_nth_def nth_append list_update_append
          accounting_ring algebra_simps)
  qed
qed

section \<open>The reachable filters\<close>

text \<open>Insertions and merges in any order, as the build stream interleaves them; \<open>h\<close> is what was inserted.\<close>

inductive ordered_reachable ::
  "'b roaring \<Rightarrow> ('v \<Rightarrow> u64) \<Rightarrow> ('t \<Rightarrow> 'v option) \<Rightarrow> ('v \<Rightarrow> 'v \<Rightarrow> int) \<Rightarrow> direction \<Rightarrow> bool
     \<Rightarrow> ('t, 'v, 'b) quantized_ordered \<Rightarrow> ('t \<times> u32) list \<Rightarrow> bool"
  for R value_bytes get cmp dir inclusive where
  start: "ordered_reachable R value_bytes get cmp dir inclusive (new_quantized_ordered (new_ordered_rule R node get cmp key dir inclusive)) []"
| insert: "ordered_reachable R value_bytes get cmp dir inclusive r h
    \<Longrightarrow> ordered_reachable R value_bytes get cmp dir inclusive (quantized_od_insert R r t i) (h @ [(t, i)])"
| merge: "ordered_reachable R value_bytes get cmp dir inclusive r h \<Longrightarrow> ordered_streaming_next R value_bytes r = Some (usage, r')
    \<Longrightarrow> ordered_reachable R value_bytes get cmp dir inclusive r' h"

definition ordered_holds ::
  "'b roaring \<Rightarrow> ('v \<Rightarrow> u64) \<Rightarrow> ('t \<Rightarrow> 'v option) \<Rightarrow> ('v \<Rightarrow> 'v \<Rightarrow> int) \<Rightarrow> direction \<Rightarrow> bool
     \<Rightarrow> ('t, 'v, 'b) quantized_ordered \<Rightarrow> ('t \<times> u32) list \<Rightarrow> bool" where
  "ordered_holds R value_bytes get cmp dir inclusive r h \<longleftrightarrow>
     od_building R (qo_rule r) \<and> od_get (qo_rule r) = get \<and> od_compare (qo_rule r) = cmp \<and> od_dir (qo_rule r) = dir
     \<and> od_inclusive (qo_rule r) = inclusive
     \<and> bm_ids R (od_wildcard (qo_rule r)) = stored_ids get h (\<lambda>x. x = None)
     \<and> holds_near R cmp dir get h (flat (od_index (qo_rule r)))
     \<and> (\<not> qo_quantized r \<longrightarrow> exactly_held cmp get h (flat (od_index (qo_rule r))))
     \<and> accounted R value_bytes (qo_index r)"

lemma nearest_none_stored: "get t = None \<Longrightarrow> stored_ids get (h @ [(t, i)]) (\<lambda>x. \<exists>v. x = Some v \<and> P v) = stored_ids get h (\<lambda>x. \<exists>v. x = Some v \<and> P v)"
  by simp

context roaring
begin

lemma ordered_holds_insert:
  assumes holds: "ordered_holds R value_bytes get cmp dir inclusive r h"
  shows "ordered_holds R value_bytes get cmp dir inclusive (quantized_od_insert R r t i) (h @ [(t, i)])"
proof (cases "get t")
  case None
  then show ?thesis
    using holds by (auto simp: ordered_holds_def quantized_od_insert_def Let_def od_building_def ids_add holds_near_def exactly_held_def qo_index_def)
next
  case (Some v)
  let ?x = "od_index (qo_rule r)"
  have bld: "ox_building R ?x" "ox_compare ?x = cmp" using holds by (auto simp: ordered_holds_def od_building_def)
  have near: "holds_near R cmp dir get (h @ [(t, i)]) (flat (insert_ordered R ?x v i dir (qo_quantized r)))"
    using holds_near_insert [OF bld(1), of dir get h "qo_quantized r" t v i] holds Some by (auto simp: ordered_holds_def bld(2))
  have exact: "exactly_held cmp get (h @ [(t, i)]) (flat (insert_ordered R ?x v i dir False))" if "\<not> qo_quantized r"
    using exactly_held_insert [OF bld(1), of get h t v i dir] holds Some that by (simp add: ordered_holds_def bld(2))
  have built: "ox_building R (insert_ordered R ?x v i dir q)" "ox_compare (insert_ordered R ?x v i dir q) = cmp" for q
    by (simp_all add: insert_ordered_def ox_building_insert bld)
  show ?thesis
    using holds Some near exact built
    by (auto simp: ordered_holds_def quantized_od_insert_def Let_def od_building_def accounted_def build_accounting_def qo_index_def)
qed

lemma next_merges:
  assumes holds: "ordered_holds R value_bytes get cmp dir inclusive r h" and merge: "ordered_streaming_next R value_bytes r = Some (usage, r')"
  obtains c P l s S where "flat (od_index (qo_rule r)) = P @ l # s # S" "mc_position c = length P" "usage = ordered_usage R value_bytes r'"
    "r' = r\<lparr>qo_rule := (qo_rule r)\<lparr>od_index := bx_index (rebuild_selected R value_bytes (qo_index r) dir c)\<rparr>,
      qo_accounting := bx_accounting (rebuild_selected R value_bytes (qo_index r) dir c), qo_quantized := True\<rparr>"
proof -
  have "1 < length (flat (od_index (qo_rule r)))" using merge by (simp add: ordered_streaming_next_def unique_values_def split: if_splits)
  then obtain c P l S s where split: "best_ordered_merge R (od_index (qo_rule r)) = Some c" "flat (od_index (qo_rule r)) = P @ l # s # S" "mc_position c = length P"
    by (rule best_ordered_merge_split)
  show thesis
    by (rule that [OF split(2,3)])
      (use holds merge in \<open>auto simp: ordered_streaming_next_def Let_def split(1) ordered_holds_def split: if_splits\<close>)
qed

lemma ordered_holds_merge:
  assumes holds: "ordered_holds R value_bytes get cmp dir inclusive r h" and merge: "ordered_streaming_next R value_bytes r = Some (usage, r')"
  shows "ordered_holds R value_bytes get cmp dir inclusive r' h" "unique_values (od_index (qo_rule r')) < unique_values (od_index (qo_rule r))"
proof -
  obtain c P l s S where split: "flat (od_index (qo_rule r)) = P @ l # s # S" "mc_position c = length P"
    and r': "r' = r\<lparr>qo_rule := (qo_rule r)\<lparr>od_index := bx_index (rebuild_selected R value_bytes (qo_index r) dir c)\<rparr>,
      qo_accounting := bx_accounting (rebuild_selected R value_bytes (qo_index r) dir c), qo_quantized := True\<rparr>"
    using next_merges [OF assms] by metis
  have bld: "ox_building R (od_index (qo_rule r))" "ox_compare (od_index (qo_rule r)) = cmp"
    and near: "holds_near R cmp dir get h (P @ l # s # S)" and acc: "accounted R value_bytes (qo_index r)"
    using holds by (auto simp: ordered_holds_def od_building_def split(1))
  have ok: "ox_ok R (od_index (qo_rule r))" using bld(1) by (rule ox_ok_building)
  have index: "bx_index (qo_index r) = od_index (qo_rule r)" by (simp add: qo_index_def)
  have order: "comparator cmp" "sorted_items cmp (P @ l # s # S)" using ok by (auto simp: ox_ok_def bld(2) split(1))
  have nonempty: "\<forall>b\<in>set (ox_blocks (bx_index (qo_index r))). ob_items b \<noteq> []" using ok by (auto simp: ox_ok_def block_ok_def index)
  note rebuilt = ox_building_rebuild [of "qo_index r" P l s S c value_bytes dir, unfolded index, OF bld(1) split]
  have "accounted R value_bytes (rebuild_selected R value_bytes (qo_index r) dir c)"
    by (rule accounted_rebuild [OF acc nonempty _ split(2)]) (simp add: index split(1))
  moreover have "qo_index r' = rebuild_selected R value_bytes (qo_index r) dir c"
    by (rule accounted_index.equality) (simp_all add: r' qo_index_def)
  ultimately have acc': "accounted R value_bytes (qo_index r')" by simp
  let ?y = "bx_index (rebuild_selected R value_bytes (qo_index r) dir c)"
  have fields: "od_index (qo_rule r') = ?y" "od_get (qo_rule r') = od_get (qo_rule r)" "od_compare (qo_rule r') = od_compare (qo_rule r)"
    "od_dir (qo_rule r') = od_dir (qo_rule r)" "od_inclusive (qo_rule r') = od_inclusive (qo_rule r)"
    "od_wildcard (qo_rule r') = od_wildcard (qo_rule r)" "qo_quantized r'"
    by (simp_all add: r')
  have kept: "od_get (qo_rule r) = get" "od_compare (qo_rule r) = cmp" "od_dir (qo_rule r) = dir" "od_inclusive (qo_rule r) = inclusive"
    "bm_ids R (od_wildcard (qo_rule r)) = stored_ids get h (\<lambda>x. x = None)"
    using holds by (simp_all add: ordered_holds_def)
  show "ordered_holds R value_bytes get cmp dir inclusive r' h"
    unfolding ordered_holds_def od_building_def fields kept rebuilt(2,3) bld(2)
    using rebuilt(1) holds_near_merge [OF order near] acc' fields(7) by blast
  show "unique_values (od_index (qo_rule r')) < unique_values (od_index (qo_rule r))"
    by (simp add: unique_values_def r' rebuilt(2) split(1))
qed

lemma ordered_holds_reachable:
  assumes "ordered_reachable R value_bytes get cmp dir inclusive r h" "comparator cmp"
  shows "ordered_holds R value_bytes get cmp dir inclusive r h"
  using assms(1)
proof (induction rule: ordered_reachable.induct)
  case (start node key)
  have "od_building R (new_ordered_rule R node get cmp key dir inclusive)" by (rule od_new_building(1) [OF roaring_axioms assms(2)])
  then show ?case
    by (simp add: ordered_holds_def new_quantized_ordered_def new_ordered_rule_def new_ordered_index_def flat_def ids_new holds_near_def
        exactly_held_def accounted_def build_accounting_def qo_index_def)
qed (auto intro: ordered_holds_insert ordered_holds_merge(1))

end

section \<open>What a filter under a limit returns\<close>

text \<open>The value a stored constraint stands for: its nearest boundary.\<close>

definition kept_value :: "('t, 'v, 'b) quantized_ordered \<Rightarrow> 'v \<Rightarrow> 'v" where
  "kept_value r v =
     (case nearest (od_compare (qo_rule r)) (od_dir (qo_rule r)) (flat (od_index (qo_rule r))) v of
        None \<Rightarrow> v | Some a \<Rightarrow> oi_value a)"

text \<open>A constraint without a value admits every query; one with a value admits the values on its side.\<close>

definition admits :: "('v \<Rightarrow> 'v \<Rightarrow> int) \<Rightarrow> direction \<Rightarrow> bool \<Rightarrow> 'v option \<Rightarrow> 'v option \<Rightarrow> bool" where
  "admits cmp dir inclusive query stored =
     (case stored of
        None \<Rightarrow> True
      | Some w \<Rightarrow> (case query of None \<Rightarrow> False | Some v \<Rightarrow> in_range cmp v (dir = Less_Than) inclusive w))"

lemma nearest_outward:
  "nearest cmp dir items v = Some a \<Longrightarrow> (if dir = Less_Than then 0 \<le> cmp (oi_value a) v else cmp (oi_value a) v \<le> 0)"
  by (cases dir) (auto simp: nearest_def dest: find_member)

lemma admits_outward:
  assumes "comparator cmp" "if dir = Less_Than then 0 \<le> cmp u w else cmp u w \<le> 0" "admits cmp dir inclusive q (Some w)"
  shows "admits cmp dir inclusive q (Some u)"
proof (cases q)
  case (Some v)
  consider "cmp u w = 0" | "cmp u w \<noteq> 0" by blast
  then show ?thesis
  proof cases
    case 1
    then show ?thesis using assms(3) in_range_cong [OF assms(1) 1] Some by (simp add: admits_def)
  next
    case 2
    show ?thesis
    proof (cases dir)
      case Less_Than
      then have "cmp w u < 0" "cmp v w \<le> 0"
        using assms 2 Some comparator.cmp_le_flip [OF assms(1), of v w] by (auto simp: admits_def in_range_def comparator.cmp_antisym [OF assms(1)])
      then have "cmp v u < 0" by (metis comparator.cmp_le_less_trans [OF assms(1)])
      then show ?thesis using Less_Than Some by (simp add: admits_def in_range_def comparator.cmp_antisym [OF assms(1)])
    next
      case Greater_Than
      then have "cmp u w < 0" "cmp w v \<le> 0" using assms 2 Some by (auto simp: admits_def in_range_def)
      then have "cmp u v < 0" by (rule comparator.cmp_less_le_trans [OF assms(1)])
      then show ?thesis using Greater_Than Some by (simp add: admits_def in_range_def)
    qed
  qed
qed (use assms(3) in \<open>simp add: admits_def\<close>)

context roaring
begin

lemma held_range_ids:
  assumes "holds_near R cmp dir get h items"
  shows "items_ids R (filter (\<lambda>a. p (oi_value a)) items) = stored_ids get h (\<lambda>x. \<exists>v a. x = Some v \<and> nearest cmp dir items v = Some a \<and> p (oi_value a))"
    (is "?l = ?r")
proof (rule set_eqI)
  fix i
  have near: "bm_ids R (oi_bits a) = stored_ids get h (\<lambda>x. \<exists>v. x = Some v \<and> nearest cmp dir items v = Some a)" if "a \<in> set items" for a
    using assms that by (simp add: holds_near_def)
  have "i \<in> ?l \<longleftrightarrow> (\<exists>a\<in>set items. p (oi_value a) \<and> i \<in> bm_ids R (oi_bits a))" by (auto simp: items_ids_def)
  also have "\<dots> \<longleftrightarrow> i \<in> ?r" using near nearest_member [of cmp dir items] by (fastforce simp: stored_ids_def)
  finally show "i \<in> ?l \<longleftrightarrow> i \<in> ?r" .
qed

lemma kept_ids:
  assumes holds: "ordered_holds R value_bytes get cmp dir inclusive r h"
  shows "bm_ids R (od_add_matches R (od_prepare R (qo_rule r)) q dst)
    = bm_ids R dst \<union> stored_ids get h (\<lambda>x. admits cmp dir inclusive q (map_option (kept_value r) x))"
proof -
  let ?r = "qo_rule r"
  have bld: "od_building R ?r" and fields: "od_compare ?r = cmp" "od_dir ?r = dir" "od_inclusive ?r = inclusive"
    and wild: "bm_ids R (od_wildcard ?r) = stored_ids get h (\<lambda>x. x = None)" and near: "holds_near R cmp dir get h (flat (od_index ?r))"
    using holds by (auto simp: ordered_holds_def)
  have cmp: "ox_compare (od_index ?r) = cmp" using bld fields(1) by (simp add: od_building_def)
  have some: "nearest cmp dir (flat (od_index ?r)) v \<noteq> None" if "(t, i) \<in> set h" "get t = Some v" for t i v
    using near that unfolding holds_near_def by blast
  have "od_key_den R ?r q = stored_ids get h (\<lambda>x. admits cmp dir inclusive q (map_option (kept_value r) x))"
  proof (cases q)
    case None
    then show ?thesis by (auto simp: od_key_den_def wild admits_def stored_ids_def split: option.splits)
  next
    case (Some v)
    let ?p = "in_range cmp v (dir = Less_Than) inclusive"
    have "od_key_den R ?r q = stored_ids get h (\<lambda>x. x = None)
        \<union> stored_ids get h (\<lambda>x. \<exists>w a. x = Some w \<and> nearest cmp dir (flat (od_index ?r)) w = Some a \<and> ?p (oi_value a))"
      by (simp add: od_key_den_def Some wild ox_range_ids_def cmp fields held_range_ids [OF near])
    also have "\<dots> = stored_ids get h (\<lambda>x. admits cmp dir inclusive q (map_option (kept_value r) x))"
      using some by (fastforce simp: stored_ids_def admits_def Some kept_value_def fields split: option.splits)
    finally show ?thesis .
  qed
  then show ?thesis by (simp add: od_add_matches_ids [OF od_published_prepare [OF bld]] od_key_den_prepare)
qed

end

text \<open>A boundary lies outwards of the values it stands for, and without a merge it is equal to them.\<close>

lemma kept_admits:
  assumes "comparator cmp" "ordered_holds R value_bytes get cmp dir inclusive r h" "admits cmp dir inclusive q x"
  shows "admits cmp dir inclusive q (map_option (kept_value r) x)"
proof (cases x)
  case (Some w)
  have "od_compare (qo_rule r) = cmp" "od_dir (qo_rule r) = dir" using assms(2) by (auto simp: ordered_holds_def)
  then have "if dir = Less_Than then 0 \<le> cmp (kept_value r w) w else cmp (kept_value r w) w \<le> 0"
    using nearest_outward [of cmp dir "flat (od_index (qo_rule r))" w] comparator.cmp_refl [OF assms(1)]
    by (auto simp: kept_value_def split: option.splits)
  from admits_outward [OF assms(1) this] assms(3) Some show ?thesis by simp
qed (simp add: admits_def)

lemma kept_exact:
  assumes "comparator cmp" "ordered_holds R value_bytes get cmp dir inclusive r h" "\<not> qo_quantized r" "(t, i) \<in> set h"
  shows "admits cmp dir inclusive q (map_option (kept_value r) (get t)) = admits cmp dir inclusive q (get t)"
proof (cases "get t")
  case (Some w)
  let ?items = "flat (od_index (qo_rule r))"
  have fields: "od_compare (qo_rule r) = cmp" "od_dir (qo_rule r) = dir" using assms(2) by (auto simp: ordered_holds_def)
  have "ox_ok R (od_index (qo_rule r))" "ox_compare (od_index (qo_rule r)) = cmp"
    using assms(2) ox_ok_building by (auto simp: ordered_holds_def od_building_def)
  then have sorted: "sorted_items cmp ?items" by (auto simp: ox_ok_def)
  obtain a where a: "a \<in> set ?items" "cmp (oi_value a) w = 0"
    using assms(2-4) Some unfolding ordered_holds_def exactly_held_def by blast
  have "cmp (kept_value r w) w = 0" using nearest_equal [OF assms(1) sorted a] a(2) by (simp add: kept_value_def fields)
  then show ?thesis using in_range_cong [OF assms(1)] Some by (simp add: admits_def split: option.split)
qed (simp add: admits_def)

text \<open>
  C35: An ordered filter under a memory limit: whatever the interleaving of insertions and merges of
  neighbouring boundaries, a query returns exactly the constraints whose nearest boundary admits it. Nothing
  the exact filter returns is lost, and a filter that was never merged returns nothing else.
\<close>

theorem lossy_ordered_search:
  assumes "roaring R" "comparator cmp" "ordered_reachable R value_bytes get cmp dir inclusive r h"
  shows "bm_ids R (od_add_matches R (od_prepare R (qo_rule r)) q dst)
      = bm_ids R dst \<union> stored_ids get h (\<lambda>x. admits cmp dir inclusive q (map_option (kept_value r) x))
    \<and> stored_ids get h (admits cmp dir inclusive q) \<subseteq> bm_ids R (od_add_matches R (od_prepare R (qo_rule r)) q dst)
    \<and> (\<not> qo_quantized r \<longrightarrow>
        bm_ids R (od_add_matches R (od_prepare R (qo_rule r)) q dst) = bm_ids R dst \<union> stored_ids get h (admits cmp dir inclusive q))"
proof -
  have holds: "ordered_holds R value_bytes get cmp dir inclusive r h" using assms(1,3,2) by (rule roaring.ordered_holds_reachable)
  show ?thesis
    unfolding roaring.kept_ids [OF assms(1) holds]
    using kept_admits [OF assms(2) holds] kept_exact [OF assms(2) holds] by (fastforce simp: stored_ids_def)
qed

text \<open>
  C36: The memory usage that an ordered filter reports while it is being fitted, kept up to date by each merge from
  the two blocks it rebuilds in wrapping 64-bit arithmetic, is the usage recomputed from all blocks.
\<close>

theorem ordered_usage_recomputed:
  assumes "roaring R" "comparator cmp" "ordered_reachable R value_bytes get cmp dir inclusive r h"
  shows "ordered_usage R value_bytes r = ordered_usage R value_bytes (r\<lparr>qo_accounting := None\<rparr>)"
proof -
  have "accounted R value_bytes (qo_index r)" using roaring.ordered_holds_reachable [OF assms(1,3,2)] by (simp add: ordered_holds_def)
  then show ?thesis by (simp add: ordered_usage_def quantized_accounting_def Let_def accounted_def qo_index_def build_accounting_def [of _ _ "\<lparr>bx_index = _, bx_accounting = None\<rparr>"])
qed

text \<open>
  The loop that merges boundaries until the filter fits a limit returns: the filter then fits, or it has at
  most one boundary left. No insertion is undone on the way.
\<close>

theorem fit_ordered_limit_returns:
  assumes "roaring R" "comparator cmp" "ordered_reachable R value_bytes get cmp dir inclusive r h"
  shows "\<exists>r'. fit_ordered_limit R value_bytes r limit = Some r' \<and> ordered_reachable R value_bytes get cmp dir inclusive r' h
    \<and> (ordered_usage R value_bytes r' \<le> limit \<or> unique_values (od_index (qo_rule r')) \<le> 1)"
  using assms(3)
proof (induction "unique_values (od_index (qo_rule r))" arbitrary: r rule: less_induct)
  case less
  show ?case
  proof (cases "limit < ordered_usage R value_bytes r")
    case False
    with less.prems show ?thesis by (subst fit_ordered_limit.simps) auto
  next
    case over: True
    show ?thesis
    proof (cases "ordered_streaming_next R value_bytes r")
      case None
      then have "unique_values (od_index (qo_rule r)) \<le> 1" by (simp add: ordered_streaming_next_def Let_def split: if_splits)
      with None over less.prems show ?thesis by (subst fit_ordered_limit.simps) auto
    next
      case (Some p)
      obtain usage r' where p: "p = (usage, r')" by (cases p)
      note step = Some [unfolded p]
      have "unique_values (od_index (qo_rule r')) < unique_values (od_index (qo_rule r))"
        by (rule roaring.ordered_holds_merge(2) [OF assms(1) roaring.ordered_holds_reachable [OF assms(1) less.prems assms(2)] step])
      moreover have "ordered_reachable R value_bytes get cmp dir inclusive r' h" using less.prems step by (rule ordered_reachable.merge)
      ultimately show ?thesis using less.hyps over step by (subst fit_ordered_limit.simps) simp
    qed
  qed
qed

section \<open>An example\<close>

definition sample_ordered :: "(int, int, u32 list) quantized_ordered" where
  "sample_ordered =
     snd (the (ordered_streaming_next list_bitmap (\<lambda>_. 8)
       (foldl (\<lambda>r (t, i). quantized_od_insert list_bitmap r t i)
         (new_quantized_ordered (new_ordered_rule list_bitmap 0 Some go_compare (\<lambda>_. None) Less_Than False)) [(5, 1), (9, 2), (7, 3)])))"

lemma sample_ordered_reachable:
  "ordered_reachable list_bitmap (\<lambda>_. 8) Some go_compare Less_Than False sample_ordered [(5, 1), (9, 2), (7, 3)]"
proof -
  let ?r = "foldl (\<lambda>r (t, i). quantized_od_insert list_bitmap r t i)
     (new_quantized_ordered (new_ordered_rule list_bitmap 0 Some go_compare (\<lambda>_. None) Less_Than False)) [(5, 1), (9, 2), (7, 3)]"
  have "ordered_reachable list_bitmap (\<lambda>_. 8) Some go_compare Less_Than False
      (quantized_od_insert list_bitmap (quantized_od_insert list_bitmap (quantized_od_insert list_bitmap
        (new_quantized_ordered (new_ordered_rule list_bitmap 0 Some go_compare (\<lambda>_. None) Less_Than False)) 5 1) 9 2) 7 3)
      ((([] @ [(5, 1)]) @ [(9, 2)]) @ [(7, 3)])"
    by (intro ordered_reachable.insert ordered_reachable.start)
  then have three: "ordered_reachable list_bitmap (\<lambda>_. 8) Some go_compare Less_Than False ?r [(5, 1), (9, 2), (7, 3)]" by simp
  have "\<not> Option.is_none (ordered_streaming_next list_bitmap (\<lambda>_. 8) ?r)" by code_simp
  then obtain usage r' where "ordered_streaming_next list_bitmap (\<lambda>_. 8) ?r = Some (usage, r')" by (auto simp: Option.is_none_def)
  with ordered_reachable.merge [OF three this] show ?thesis by (simp add: sample_ordered_def)
qed

theorem lossy_ordered_search_witness:
  "bm_ids list_bitmap (od_add_matches list_bitmap (od_prepare list_bitmap (qo_rule sample_ordered)) (Some 6) []) = {1, 2, 3}
   \<and> \<not> admits go_compare Less_Than False (Some 6) (Some (5 :: int))"
proof -
  have "admits go_compare Less_Than False (Some 6) (map_option (kept_value sample_ordered) (Some 5))"
    "admits go_compare Less_Than False (Some 6) (map_option (kept_value sample_ordered) (Some 7))"
    "admits go_compare Less_Than False (Some 6) (map_option (kept_value sample_ordered) (Some 9))"
    "\<not> admits go_compare Less_Than False (Some 6) (Some (5 :: int))"
    by code_simp+
  then show ?thesis
    using lossy_ordered_search [OF list_bitmap.roaring_axioms go_compare.comparator_axioms sample_ordered_reachable, of "Some 6" "[]"]
    by (auto simp: stored_ids_def list_bitmap_sem)
qed

theorem ordered_usage_recomputed_witness:
  "qo_accounting sample_ordered \<noteq> None
   \<and> ordered_usage list_bitmap (\<lambda>_. 8) sample_ordered = ordered_usage list_bitmap (\<lambda>_. 8) (sample_ordered\<lparr>qo_accounting := None\<rparr>)"
proof
  have "\<not> Option.is_none (qo_accounting sample_ordered)" by code_simp
  then show "qo_accounting sample_ordered \<noteq> None" by (simp add: Option.is_none_def)
qed (rule ordered_usage_recomputed [OF list_bitmap.roaring_axioms go_compare.comparator_axioms sample_ordered_reachable])

theorem fit_ordered_limit_returns_witness: "fit_ordered_limit list_bitmap (\<lambda>_. 8) sample_ordered 0 \<noteq> None"
  using fit_ordered_limit_returns [OF list_bitmap.roaring_axioms go_compare.comparator_axioms sample_ordered_reachable, of 0] by auto

end
