(* ===== verification/Ordered_Clone.thy ===== *)
theory Ordered_Clone
  imports Ordered_Streaming
begin

text \<open>
  \<open>insertPosting\<close> and \<open>cloneBuild\<close> (\<^verbatim>\<open>ordered_index.go\<close>): the copy of an index from which \<open>Between\<close> and
  \<open>CompareBy\<close> derive their first lossy generation. The copy cuts its blocks anew, but represents the same
  sorted list.
\<close>

definition insert_posting :: "'b roaring \<Rightarrow> ('v, 'b) ordered_index \<Rightarrow> 'v \<Rightarrow> 'b \<Rightarrow> ('v, 'b) ordered_index" where
  "insert_posting R x v bits =
     (if ox_blocks x = [] then x\<lparr>ox_blocks := [\<lparr>ob_items = [\<lparr>oi_value = v, oi_bits = bits\<rparr>], ob_bits = bits\<rparr>]\<rparr>
      else
        let n = block_for x v;
            block = ox_blocks x ! n;
            pos = search_block (ox_compare x) (ob_items block) v
        in if pos < length (ob_items block) \<and> ox_compare x (oi_value (ob_items block ! pos)) v = 0
           then let item = ob_items block ! pos
                in x\<lparr>ox_blocks := (ox_blocks x)[n :=
                      block\<lparr>ob_items := (ob_items block)[pos := item\<lparr>oi_bits := bm_or R (oi_bits item) bits\<rparr>],
                             ob_bits := bm_or R (ob_bits block) bits\<rparr>]\<rparr>
           else let y = insert_item R x \<lparr>oi_value = v, oi_bits = bits\<rparr>;
                    m = block_for y v
                in y\<lparr>ox_blocks := (ox_blocks y)[m := (ox_blocks y ! m)\<lparr>ob_bits := bm_or R (ob_bits (ox_blocks y ! m)) bits\<rparr>]\<rparr>)"

definition clone_build :: "'b roaring \<Rightarrow> ('v, 'b) ordered_index \<Rightarrow> ('v, 'b) ordered_index" where
  "clone_build R x =
     foldl (\<lambda>clone item. insert_posting R clone (oi_value item) (oi_bits item))
       (new_ordered_index (ox_compare x) (ox_key x)) (flat x)"

lemma block_for_member:
  assumes "ox_ok R x" "m < length (ox_blocks x)" "a \<in> set (ob_items (ox_blocks x ! m))" "ox_compare x (oi_value a) v = 0"
  shows "block_for x v = m"
proof -
  have pos: "block_pos x v (block_for x v)" using assms(2) by (intro block_for_pos [OF assms(1)]) auto
  have "\<not> m < block_for x v"
  proof
    assume "m < block_for x v"
    then have "ox_blocks x ! m \<in> set (take (block_for x v) (ox_blocks x))"
      using assms(2) by (auto simp: in_set_conv_nth intro!: exI [of _ m])
    then have "a \<in> set (before_block x (block_for x v))" using assms(3) by (auto simp: before_block_def)
    then show False using before_block_less [OF assms(1) pos] assms(4) by fastforce
  qed
  moreover have "\<not> block_for x v < m"
  proof
    assume less: "block_for x v < m"
    have "ox_blocks x ! m \<in> set (drop (Suc (block_for x v)) (ox_blocks x))"
      using less assms(2) by (auto simp: in_set_conv_nth intro!: exI [of _ "m - Suc (block_for x v)"])
    then have "a \<in> set (after_block x (block_for x v))" using assms(3) by (auto simp: after_block_def)
    then show False using after_block_greater [OF assms(1) pos] assms(4) by fastforce
  qed
  ultimately show ?thesis by simp
qed

context roaring
begin

lemma block_ok_or:
  "block_ok R b \<Longrightarrow> a \<in> set (ob_items b) \<Longrightarrow> block_ok R (b\<lparr>ob_bits := bm_or R (ob_bits b) (oi_bits a)\<rparr>)"
  by (auto simp: block_ok_def ids_or items_ids_def)

lemma flat_same_items: "map ob_items (ox_blocks y) = map ob_items (ox_blocks x) \<Longrightarrow> flat y = flat x"
  by (simp add: flat_def)

lemma insert_posting_new:
  assumes bld: "ox_building R x" and absent: "\<not> has_value x v"
  shows "ox_building R (insert_posting R x v bits)"
    "flat (insert_posting R x v bits) = takeWhile (\<lambda>a. ox_compare x (oi_value a) v < 0) (flat x)
      @ \<lparr>oi_value = v, oi_bits = bits\<rparr> # dropWhile (\<lambda>a. ox_compare x (oi_value a) v < 0) (flat x)"
    "ox_compare (insert_posting R x v bits) = ox_compare x"
proof -
  let ?item = "\<lparr>oi_value = v, oi_bits = bits\<rparr>"
  have ok: "ox_ok R x" using bld by (rule ox_ok_building)
  have cmp: "comparator (ox_compare x)" using ok by (rule ox_ok_comparator)
  let ?y = "insert_item R x ?item"
  have same: "ox_compare ?y = ox_compare x" by (simp add: insert_item_def Let_def)
  have sorted: "sorted_items (ox_compare x) (flat ?y)"
    unfolding flat_insert_item [OF ok]
    by (rule sorted_items_put [OF cmp]) (use ok absent in \<open>simp_all add: ox_ok_def has_value_iff [OF ok]\<close>)
  have "ox_building R (insert_posting R x v bits) \<and> flat (insert_posting R x v bits) = flat ?y
    \<and> ox_compare (insert_posting R x v bits) = ox_compare x"
  proof (cases "ox_blocks x = []")
    case True
    then show ?thesis
      using ox_building_replace [OF bld, of "[\<lparr>ob_items = [?item], ob_bits = bits\<rparr>]"]
      by (simp add: insert_posting_def insert_item_def block_ok_def sorted_items_def orderedBlockSize_def flat_def)
  next
    case False
    let ?n = "block_for x v" let ?b = "ox_blocks x ! ?n"
    let ?k = "search_block (ox_compare x) (ob_items ?b) v"
    let ?items = "take ?k (ob_items ?b) @ ?item # drop ?k (ob_items ?b)"
    have n: "?n < length (ox_blocks x)" using block_for_pos [OF ok False, of v] by (simp add: block_pos_def)
    note b = ox_ok_block [OF ok n]
    define m where "m = block_for ?y v"
    let ?z = "?y\<lparr>ox_blocks := (ox_blocks ?y)[m := (ox_blocks ?y ! m)\<lparr>ob_bits := bm_or R (ob_bits (ox_blocks ?y ! m)) bits\<rparr>]\<rparr>"
    have free: "\<not> (?k < length (ob_items ?b) \<and> ox_compare x (oi_value (ob_items ?b ! ?k)) v = 0)"
      using absent False by (simp add: has_value_def Let_def)
    have z: "insert_posting R x v bits = ?z"
      unfolding insert_posting_def Let_def m_def if_not_P [OF free] if_not_P [OF False] ..
    have flat_z: "flat ?z = flat ?y"
      by (rule flat_same_items) (simp add: map_update, metis (no_types, lifting) list_update_id list_update_beyond map_update not_less nth_map length_map)
    have len: "length ?items = Suc (length (ob_items ?b))"
      using arg_cong [OF append_take_drop_id [of ?k "ob_items ?b"], of length] by simp
    have "ox_building R ?z"
    proof (cases "length ?items \<le> orderedBlockSize * 2")
      case True
      then have y: "?y = x\<lparr>ox_blocks := (ox_blocks x)[?n := ?b\<lparr>ob_items := ?items\<rparr>]\<rparr>"
        using False by (simp only: insert_item_def Let_def if_False if_True ordered_item.simps)
      let ?R = "R\<lparr>bm_contains := \<lambda>_ _. False\<rparr>"
      have none: "bm_ids ?R c = {}" for c by (simp add: bm_ids_def)
      have "ox_ok ?R ?y"
        using ok sorted True bld unfolding y
        by (auto simp: ox_ok_def block_ok_def none items_ids_def routing_ok_def range_ok_def prefix_ok_def ox_building_def
            dest!: set_update_subset_insert [THEN subsetD])
      then have m: "m = ?n"
        unfolding m_def by (rule block_for_member [where a = ?item]) (use n in \<open>simp_all add: y comparator.cmp_refl [OF cmp]\<close>)
      have z': "?z = x\<lparr>ox_blocks := (ox_blocks x)[?n := ?b\<lparr>ob_items := ?items, ob_bits := bm_or R (ob_bits ?b) bits\<rparr>]\<rparr>"
        using n unfolding m y by simp
      have "items_ids R ?items = items_ids R (ob_items ?b) \<union> bm_ids R bits"
      proof -
        have "items_ids R (ob_items ?b) = items_ids R (take ?k (ob_items ?b)) \<union> items_ids R (drop ?k (ob_items ?b))"
          by (metis append_take_drop_id items_ids_simps(3))
        then show ?thesis by auto
      qed
      then have "block_ok R (?b\<lparr>ob_items := ?items, ob_bits := bm_or R (ob_bits ?b) bits\<rparr>)"
        using b True by (simp add: block_ok_def ids_or del: items_ids_simps)
      then show ?thesis
        using sorted flat_z unfolding z' by (intro ox_building_update [OF bld n]) (simp_all add: y)
    next
      case split: False
      let ?bs = "take ?n (ox_blocks x)
        @ [\<lparr>ob_items = take orderedBlockSize ?items, ob_bits = union_items R (take orderedBlockSize ?items)\<rparr>,
           \<lparr>ob_items = drop orderedBlockSize ?items, ob_bits = union_items R (drop orderedBlockSize ?items)\<rparr>]
        @ drop (Suc ?n) (ox_blocks x)"
      have y: "?y = x\<lparr>ox_blocks := ?bs\<rparr>"
        using False split by (simp only: insert_item_def Let_def if_False ordered_item.simps)
      have "length ?items \<le> orderedBlockSize * 2 + 1" using b len by (simp add: block_ok_def)
      note halves = block_ok_split [OF this split]
      have "\<forall>c\<in>set (ox_blocks x). block_ok R c" using ok by (simp add: ox_ok_def)
      then have "\<forall>c\<in>set ?bs. block_ok R c" using halves by (auto dest: in_set_takeD in_set_dropD)
      then have bld_y: "ox_building R ?y" using sorted unfolding y by (intro ox_building_replace [OF bld]) (simp_all add: flat_def)
      note ok_y = ox_ok_building [OF bld_y]
      have "?item \<in> set (flat ?y)" by (simp add: flat_insert_item [OF ok])
      then obtain j where j: "j < length (ox_blocks ?y)" "?item \<in> set (ob_items (ox_blocks ?y ! j))"
      proof -
        assume member: "?item \<in> set (flat ?y)" and use_j: "\<And>j. j < length (ox_blocks ?y) \<Longrightarrow> ?item \<in> set (ob_items (ox_blocks ?y ! j)) \<Longrightarrow> thesis"
        then obtain c where "c \<in> set (ox_blocks ?y)" "?item \<in> set (ob_items c)" by (auto simp: flat_def)
        then show thesis using use_j by (auto simp only: in_set_conv_nth [of c])
      qed
      have m: "m = j" unfolding m_def by (rule block_for_member [OF ok_y j]) (simp add: same comparator.cmp_refl [OF cmp])
      show ?thesis unfolding m
        by (rule ox_building_update [OF bld_y j(1)])
          (use block_ok_or [OF ox_ok_block [OF ok_y j(1)] j(2)] flat_z sorted in \<open>simp_all add: m same\<close>)
    qed
    then show ?thesis by (simp add: z flat_z same)
  qed
  then show "ox_building R (insert_posting R x v bits)" "ox_compare (insert_posting R x v bits) = ox_compare x"
    "flat (insert_posting R x v bits) = takeWhile (\<lambda>a. ox_compare x (oi_value a) v < 0) (flat x)
      @ \<lparr>oi_value = v, oi_bits = bits\<rparr> # dropWhile (\<lambda>a. ox_compare x (oi_value a) v < 0) (flat x)"
    by (simp_all add: flat_insert_item [OF ok])
qed

text \<open>A copy represents the same list.\<close>

lemma clone_build_same:
  assumes "ox_building R x"
  shows "ox_building R (clone_build R x)" "flat (clone_build R x) = flat x" "ox_compare (clone_build R x) = ox_compare x"
proof -
  let ?cmp = "ox_compare x"
  have ok: "ox_ok R x" using assms by (rule ox_ok_building)
  have cmp: "comparator ?cmp" using ok by (rule ox_ok_comparator)
  let ?step = "\<lambda>clone item. insert_posting R clone (oi_value item) (oi_bits item)"
  have step: "ox_building R (foldl ?step y rest) \<and> flat (foldl ?step y rest) = flat y @ rest \<and> ox_compare (foldl ?step y rest) = ?cmp"
    if "ox_building R y" "ox_compare y = ?cmp" "sorted_items ?cmp (flat y @ rest)" for y rest
    using that
  proof (induction rest arbitrary: y)
    case (Cons a rest)
    have below: "\<forall>b\<in>set (flat y). ?cmp (oi_value b) (oi_value a) < 0"
      using Cons.prems(3) by (simp add: sorted_items_def sorted_wrt_append)
    have absent: "\<not> has_value y (oi_value a)"
      using below by (auto simp: has_value_iff [OF ox_ok_building [OF Cons.prems(1)]] Cons.prems(2))
    note new = insert_posting_new [OF Cons.prems(1) absent, of "oi_bits a"]
    have cut: "takeWhile (\<lambda>b. ?cmp (oi_value b) (oi_value a) < 0) (flat y) = flat y"
      "dropWhile (\<lambda>b. ?cmp (oi_value b) (oi_value a) < 0) (flat y) = []"
      using below by (simp_all add: takeWhile_eq_all_conv dropWhile_eq_Nil_conv)
    have "flat (?step y a) = flat y @ [a]" unfolding new(2) Cons.prems(2) cut by simp
    then show ?case using Cons.IH [OF new(1)] Cons.prems(2,3) new(3) by simp
  qed simp
  have new: "ox_building R (new_ordered_index ?cmp (ox_key x))" using cmp by (rule ox_building_new)
  have empty: "flat (new_ordered_index ?cmp (ox_key x)) = []" "ox_compare (new_ordered_index ?cmp (ox_key x)) = ?cmp"
    by (simp_all add: new_ordered_index_def flat_def)
  have "sorted_items ?cmp (flat (new_ordered_index ?cmp (ox_key x)) @ flat x)" using ok by (simp add: ox_ok_def empty)
  from step [OF new empty(2) this]
  show "ox_building R (clone_build R x)" "flat (clone_build R x) = flat x" "ox_compare (clone_build R x) = ox_compare x"
    by (simp_all add: clone_build_def empty(1))
qed

end

end
