(* ===== verification/Between_Streaming.thy ===== *)
theory Between_Streaming
  imports Ordered_Clone Between_Rule
begin

text \<open>
  \<open>Between\<close> under a memory limit (\<^verbatim>\<open>between_streaming.go\<close>): each merge takes the better of the two candidates
  that its sides offer, so the sides are quantized independently.
\<close>

record ('t, 'v, 'b) quantized_between =
  qb_node :: nat
  qb_from :: "('t, 'v, 'b) quantized_ordered"
  qb_until :: "('t, 'v, 'b) quantized_ordered"

definition new_quantized_between ::
  "'b roaring \<Rightarrow> nat \<Rightarrow> ('t \<Rightarrow> 'v option) \<Rightarrow> ('t \<Rightarrow> 'v option) \<Rightarrow> ('v \<Rightarrow> 'v \<Rightarrow> int) \<Rightarrow> ('v \<Rightarrow> u64 option)
     \<Rightarrow> ('t, 'v, 'b) quantized_between" where
  "new_quantized_between R node from_get until_get cmp key =
     (let r = new_between_rule R node from_get until_get cmp key
      in \<lparr>qb_node = node, qb_from = new_quantized_ordered (bt_from r), qb_until = new_quantized_ordered (bt_until r)\<rparr>)"

definition quantized_bt_insert :: "'b roaring \<Rightarrow> ('t, 'v, 'b) quantized_between \<Rightarrow> 't \<Rightarrow> u32 \<Rightarrow> ('t, 'v, 'b) quantized_between" where
  "quantized_bt_insert R r t i =
     r\<lparr>qb_from := quantized_od_insert R (qb_from r) t i, qb_until := quantized_od_insert R (qb_until r) t i\<rparr>"

definition between_usage :: "'b roaring \<Rightarrow> ('v \<Rightarrow> u64) \<Rightarrow> ('t, 'v, 'b) quantized_between \<Rightarrow> u64" where
  "between_usage R value_bytes r = ordered_usage R value_bytes (qb_from r) + ordered_usage R value_bytes (qb_until r)"

text \<open>The lower side is \<open>True\<close>.\<close>

definition select_streaming_side :: "'b roaring \<Rightarrow> ('t, 'v, 'b) quantized_between \<Rightarrow> (bool \<times> merge_candidate) option" where
  "select_streaming_side R r =
     (let lower = best_ordered_merge R (od_index (qo_rule (qb_from r)));
          upper = best_ordered_merge R (od_index (qo_rule (qb_until r)))
      in if better_ordered_merge lower upper then Some (True, the lower)
         else map_option (Pair False) upper)"

definition merge_side :: "'b roaring \<Rightarrow> ('v \<Rightarrow> u64) \<Rightarrow> ('t, 'v, 'b) quantized_ordered \<Rightarrow> merge_candidate \<Rightarrow> ('t, 'v, 'b) quantized_ordered" where
  "merge_side R value_bytes r c =
     (let x = rebuild_selected R value_bytes (qo_index r) (od_dir (qo_rule r)) c
      in r\<lparr>qo_rule := (qo_rule r)\<lparr>od_index := bx_index x\<rparr>, qo_accounting := bx_accounting x, qo_quantized := True\<rparr>)"

definition between_streaming_next ::
  "'b roaring \<Rightarrow> ('v \<Rightarrow> u64) \<Rightarrow> ('t, 'v, 'b) quantized_between \<Rightarrow> (u64 \<times> ('t, 'v, 'b) quantized_between) option" where
  "between_streaming_next R value_bytes r =
     (case select_streaming_side R r of
        None \<Rightarrow> None
      | Some (lower, c) \<Rightarrow>
          (let replacement = merge_side R value_bytes (if lower then qb_from r else qb_until r) c;
               other = (if lower then qb_until r else qb_from r)
           in Some (ordered_usage R value_bytes replacement + ordered_usage R value_bytes other,
                    if lower then r\<lparr>qb_from := replacement\<rparr> else r\<lparr>qb_until := replacement\<rparr>)))"

definition clone_side :: "'b roaring \<Rightarrow> ('t, 'v, 'b) quantized_ordered \<Rightarrow> ('t, 'v, 'b) quantized_ordered" where
  "clone_side R r = r\<lparr>qo_rule := (qo_rule r)\<lparr>od_index := clone_build R (od_index (qo_rule r))\<rparr>, qo_accounting := None\<rparr>"

definition clone_between :: "'b roaring \<Rightarrow> ('t, 'v, 'b) quantized_between \<Rightarrow> ('t, 'v, 'b) quantized_between" where
  "clone_between R r = r\<lparr>qb_from := clone_side R (qb_from r), qb_until := clone_side R (qb_until r)\<rparr>"

definition between_first_generation ::
  "'b roaring \<Rightarrow> ('v \<Rightarrow> u64) \<Rightarrow> ('t, 'v, 'b) quantized_between \<Rightarrow> (u64 \<times> ('t, 'v, 'b) quantized_between) option" where
  "between_first_generation R value_bytes r = between_streaming_next R value_bytes (clone_between R r)"

text \<open>The rule that is published, and a search of it.\<close>

definition between_rule_of :: "'b roaring \<Rightarrow> ('t, 'v, 'b) quantized_between \<Rightarrow> ('t, 'v, 'b) between_rule" where
  "between_rule_of R r = bt_prepare R \<lparr>bt_node = qb_node r, bt_from = qo_rule (qb_from r), bt_until = qo_rule (qb_until r)\<rparr>"

definition between_boundaries :: "('t, 'v, 'b) quantized_between \<Rightarrow> nat" where
  "between_boundaries r = unique_values (od_index (qo_rule (qb_from r))) + unique_values (od_index (qo_rule (qb_until r)))"

section \<open>Each side is an ordered filter under a limit\<close>

lemma best_ordered_merge_iff: "best_ordered_merge R x \<noteq> None \<longleftrightarrow> 1 < length (flat x)"
proof (cases "1 < length (flat x)")
  case True
  then show ?thesis by (metis best_ordered_merge_split option.distinct(1))
next
  case False
  then show ?thesis by (cases "flat x" rule: list.exhaust [case_names Nil Cons]) (auto simp: best_ordered_merge_def)
qed

lemma merge_side_next:
  assumes "best_ordered_merge R (od_index (qo_rule r)) = Some c"
  shows "ordered_streaming_next R value_bytes r = Some (ordered_usage R value_bytes (merge_side R value_bytes r c), merge_side R value_bytes r c)"
  using assms best_ordered_merge_iff [of R "od_index (qo_rule r)"]
  by (simp add: ordered_streaming_next_def merge_side_def unique_values_def Let_def)

lemma between_next_cases:
  assumes "between_streaming_next R value_bytes r = Some (usage, r')"
  obtains (lower) u side where "ordered_streaming_next R value_bytes (qb_from r) = Some (u, side)" "r' = r\<lparr>qb_from := side\<rparr>"
    | (upper) u side where "ordered_streaming_next R value_bytes (qb_until r) = Some (u, side)" "r' = r\<lparr>qb_until := side\<rparr>"
proof -
  obtain l c where s: "select_streaming_side R r = Some (l, c)" using assms by (auto simp: between_streaming_next_def split: option.splits)
  show thesis
  proof (cases l)
    case True
    then have "best_ordered_merge R (od_index (qo_rule (qb_from r))) = Some c"
      using s by (auto simp: select_streaming_side_def Let_def better_ordered_merge_def split: if_splits option.splits)
    from lower [OF merge_side_next [OF this]] assms s True show thesis by (simp add: between_streaming_next_def Let_def)
  next
    case False
    then have "best_ordered_merge R (od_index (qo_rule (qb_until r))) = Some c"
      using s by (auto simp: select_streaming_side_def Let_def split: if_splits)
    from upper [OF merge_side_next [OF this]] assms s False show thesis by (simp add: between_streaming_next_def Let_def)
  qed
qed

text \<open>The reported usage is the usage after the merge.\<close>

lemma between_next_usage: "between_streaming_next R value_bytes r = Some (usage, r') \<Longrightarrow> usage = between_usage R value_bytes r'"
  by (auto simp: between_streaming_next_def between_usage_def Let_def add.commute split: option.splits if_splits)

lemma between_next_None:
  "between_streaming_next R value_bytes r = None \<longleftrightarrow>
     unique_values (od_index (qo_rule (qb_from r))) \<le> 1 \<and> unique_values (od_index (qo_rule (qb_until r))) \<le> 1"
proof -
  have "between_streaming_next R value_bytes r = None
      \<longleftrightarrow> best_ordered_merge R (od_index (qo_rule (qb_from r))) = None \<and> best_ordered_merge R (od_index (qo_rule (qb_until r))) = None"
    by (auto simp: between_streaming_next_def select_streaming_side_def better_ordered_merge_def Let_def split: option.splits if_splits)
  then show ?thesis
    using best_ordered_merge_iff [of R "od_index (qo_rule (qb_from r))"] best_ordered_merge_iff [of R "od_index (qo_rule (qb_until r))"]
    by (auto simp: unique_values_def not_less)
qed

definition between_holds ::
  "'b roaring \<Rightarrow> ('v \<Rightarrow> u64) \<Rightarrow> ('t \<Rightarrow> 'v option) \<Rightarrow> ('t \<Rightarrow> 'v option) \<Rightarrow> ('v \<Rightarrow> 'v \<Rightarrow> int)
     \<Rightarrow> ('t, 'v, 'b) quantized_between \<Rightarrow> ('t \<times> u32) list \<Rightarrow> bool" where
  "between_holds R value_bytes from_get until_get cmp r h \<longleftrightarrow>
     ordered_holds R value_bytes from_get cmp Greater_Than True (qb_from r) h
     \<and> ordered_holds R value_bytes until_get cmp Less_Than True (qb_until r) h"

context roaring
begin

lemma ordered_holds_new:
  "comparator cmp \<Longrightarrow> ordered_holds R value_bytes get cmp dir inclusive (new_quantized_ordered (new_ordered_rule R node get cmp key dir inclusive)) []"
  by (rule ordered_holds_reachable [OF ordered_reachable.start])

lemma ordered_holds_clone:
  assumes "ordered_holds R value_bytes get cmp dir inclusive r h"
  shows "ordered_holds R value_bytes get cmp dir inclusive (clone_side R r) h"
    "unique_values (od_index (qo_rule (clone_side R r))) = unique_values (od_index (qo_rule r))"
proof -
  have "ox_building R (od_index (qo_rule r))" using assms by (simp add: ordered_holds_def od_building_def)
  note same = clone_build_same [OF this]
  show "ordered_holds R value_bytes get cmp dir inclusive (clone_side R r) h"
    using assms by (auto simp: ordered_holds_def clone_side_def od_building_def same accounted_def build_accounting_def qo_index_def)
  show "unique_values (od_index (qo_rule (clone_side R r))) = unique_values (od_index (qo_rule r))"
    by (simp add: clone_side_def unique_values_def same(2))
qed

lemma between_holds_new: "comparator cmp \<Longrightarrow> between_holds R value_bytes from_get until_get cmp (new_quantized_between R node from_get until_get cmp key) []"
  by (simp add: between_holds_def new_quantized_between_def Let_def new_between_rule_def ordered_holds_new)

lemma between_holds_insert:
  "between_holds R value_bytes from_get until_get cmp r h
   \<Longrightarrow> between_holds R value_bytes from_get until_get cmp (quantized_bt_insert R r t i) (h @ [(t, i)])"
  by (simp add: between_holds_def quantized_bt_insert_def ordered_holds_insert)

lemma between_holds_merge:
  assumes holds: "between_holds R value_bytes from_get until_get cmp r h" and merge: "between_streaming_next R value_bytes r = Some (usage, r')"
  shows "between_holds R value_bytes from_get until_get cmp r' h" "between_boundaries r' < between_boundaries r"
proof -
  note sides = holds [unfolded between_holds_def]
  have "between_holds R value_bytes from_get until_get cmp r' h \<and> between_boundaries r' < between_boundaries r"
    using merge
  proof (cases rule: between_next_cases)
    case (lower u side)
    then show ?thesis using sides ordered_holds_merge [OF conjunct1 [OF sides] lower(1)] by (simp add: between_holds_def between_boundaries_def)
  next
    case (upper u side)
    then show ?thesis using sides ordered_holds_merge [OF conjunct2 [OF sides] upper(1)] by (simp add: between_holds_def between_boundaries_def)
  qed
  then show "between_holds R value_bytes from_get until_get cmp r' h" "between_boundaries r' < between_boundaries r" by auto
qed

lemma between_holds_clone:
  assumes "between_holds R value_bytes from_get until_get cmp r h"
  shows "between_holds R value_bytes from_get until_get cmp (clone_between R r) h" "between_boundaries (clone_between R r) = between_boundaries r"
proof -
  have sides: "ordered_holds R value_bytes from_get cmp Greater_Than True (qb_from r) h"
    "ordered_holds R value_bytes until_get cmp Less_Than True (qb_until r) h"
    using assms by (auto simp: between_holds_def)
  show "between_holds R value_bytes from_get until_get cmp (clone_between R r) h" "between_boundaries (clone_between R r) = between_boundaries r"
    using ordered_holds_clone [OF sides(1)] ordered_holds_clone [OF sides(2)]
    by (simp_all add: between_holds_def clone_between_def between_boundaries_def)
qed

text \<open>A search intersects what the two sides keep.\<close>

lemma between_kept_ids:
  assumes holds: "between_holds R value_bytes from_get until_get cmp r h"
  shows "bm_ids R (bt_search_bitmaps R (between_rule_of R r) q dst) = bm_ids R dst
    \<union> (stored_ids from_get h (\<lambda>x. admits cmp Greater_Than True (from_get q) (map_option (kept_value (qb_from r)) x))
       \<inter> stored_ids until_get h (\<lambda>x. admits cmp Less_Than True (until_get q) (map_option (kept_value (qb_until r)) x)))"
proof -
  have sides: "ordered_holds R value_bytes from_get cmp Greater_Than True (qb_from r) h"
    "ordered_holds R value_bytes until_get cmp Less_Than True (qb_until r) h"
    using holds by (auto simp: between_holds_def)
  have pub: "od_published R (bt_from (between_rule_of R r))" "od_published R (bt_until (between_rule_of R r))"
    using sides by (simp_all add: between_rule_of_def bt_prepare_def od_published_prepare ordered_holds_def)
  have gets: "od_get (qo_rule (qb_from r)) = from_get" "od_get (qo_rule (qb_until r)) = until_get"
    using sides by (simp_all add: ordered_holds_def)
  have den: "od_den R (od_prepare R (qo_rule s)) q = stored_ids get h (\<lambda>x. admits cmp dir inclusive (get q) (map_option (kept_value s) x))"
    if side: "ordered_holds R value_bytes get cmp dir inclusive s h" for s get dir inclusive
  proof -
    have get: "od_get (od_prepare R (qo_rule s)) = get" using side by (simp add: ordered_holds_def od_prepare_def)
    have "od_published R (od_prepare R (qo_rule s))" using side by (simp add: od_published_prepare ordered_holds_def)
    from od_add_matches_ids [OF this, of "get q" "bm_new R"] kept_ids [OF side, of "get q" "bm_new R"]
    show ?thesis by (simp add: od_den_def get ids_new)
  qed
  show ?thesis
    unfolding bt_search_bitmaps_sides [OF pub] bt_den_def
    by (simp add: between_rule_of_def bt_prepare_def den [OF sides(1)] den [OF sides(2)])
qed

end

end
