(* ===== verification/Compare_Streaming.thy ===== *)
theory Compare_Streaming
  imports Between_Streaming Compare_By_Rule
begin

text \<open>
  \<open>CompareBy\<close> under a memory limit (\<^verbatim>\<open>compare_by_streaming.go\<close>, with the insertion and the equality lookup of
  \<^verbatim>\<open>compare_by.go\<close>): the five indexes are quantized independently. Once the index of \<open>OperatorEQ\<close> has merged
  boundaries, an equality is answered by the next boundary upwards.
\<close>

definition compare_by_direction :: "nat \<Rightarrow> direction" where
  "compare_by_direction op = (if op = unat OperatorGT \<or> op = unat OperatorGTE then Greater_Than else Less_Than)"

text \<open>\<open>qc_ceiling\<close> tells whether \<open>equalityLookup\<close> is \<open>quantizedOrderedEquality\<close>.\<close>

record ('t, 'v, 'b) quantized_compare =
  qc_rule :: "('t, 'v, 'b) compare_by_rule"
  qc_accounting :: "ordered_accounting option list"
  qc_quantized :: "bool list"
  qc_ceiling :: bool

definition new_quantized_compare :: "('t, 'v, 'b) compare_by_rule \<Rightarrow> ('t, 'v, 'b) quantized_compare" where
  "new_quantized_compare r =
     \<lparr>qc_rule = r, qc_accounting = replicate 5 None, qc_quantized = replicate 5 False, qc_ceiling = False\<rparr>"

definition qc_index :: "('t, 'v, 'b) quantized_compare \<Rightarrow> nat \<Rightarrow> ('v, 'b) accounted_index option" where
  "qc_index r op =
     (case cb_indexes (qc_rule r) ! op of
        None \<Rightarrow> None
      | Some x \<Rightarrow> Some \<lparr>bx_index = x, bx_accounting = qc_accounting r ! op\<rparr>)"

definition qc_set_index :: "('t, 'v, 'b) quantized_compare \<Rightarrow> nat \<Rightarrow> ('v, 'b) accounted_index \<Rightarrow> ('t, 'v, 'b) quantized_compare" where
  "qc_set_index r op x =
     r\<lparr>qc_rule := (qc_rule r)\<lparr>cb_indexes := (cb_indexes (qc_rule r))[op := Some (bx_index x)]\<rparr>,
       qc_accounting := (qc_accounting r)[op := bx_accounting x]\<rparr>"

definition stored_operator :: "('t \<Rightarrow> operator option) \<Rightarrow> 't \<Rightarrow> nat" where
  "stored_operator operator t = (case operator t of Some op \<Rightarrow> unat op | None \<Rightarrow> 0)"

definition quantized_cb_insert :: "'b roaring \<Rightarrow> ('t, 'v, 'b) quantized_compare \<Rightarrow> 't \<Rightarrow> u32 \<Rightarrow> ('t, 'v, 'b) quantized_compare" where
  "quantized_cb_insert R r t i =
     (let o' = qc_rule r
      in case cb_value o' t of
           None \<Rightarrow> r\<lparr>qc_rule := o'\<lparr>cb_wildcard := bm_add R (cb_wildcard o') i\<rparr>\<rparr>
         | Some v \<Rightarrow>
             (let op = stored_operator (cb_operator o') t;
                  x = (case cb_indexes o' ! op of Some x \<Rightarrow> x | None \<Rightarrow> new_ordered_index (cb_compare o') (cb_route o'))
              in qc_set_index r op
                   \<lparr>bx_index = insert_ordered R x v i (compare_by_direction op) (qc_quantized r ! op), bx_accounting = None\<rparr>))"

definition compare_usage :: "'b roaring \<Rightarrow> ('v \<Rightarrow> u64) \<Rightarrow> ('t, 'v, 'b) quantized_compare \<Rightarrow> u64" where
  "compare_usage R value_bytes r =
     foldl (\<lambda>usage op. case qc_index r op of
                         None \<Rightarrow> usage
                       | Some x \<Rightarrow> usage + fst (quantized_accounting R value_bytes x (bm_new R)))
       (24 + bm_bytes R (cb_wildcard (qc_rule r))) [0..<5]"

definition selected_streaming_index :: "'b roaring \<Rightarrow> ('t, 'v, 'b) quantized_compare \<Rightarrow> (nat \<times> merge_candidate) option" where
  "selected_streaming_index R r =
     foldl (\<lambda>selected op. case cb_indexes (qc_rule r) ! op of
                            None \<Rightarrow> selected
                          | Some x \<Rightarrow>
                              (let candidate = best_ordered_merge R x
                               in if better_ordered_merge candidate (map_option snd selected) then Some (op, the candidate) else selected))
       None [0..<5]"

text \<open>The usage that the code computes before it applies the merge is that of the state after it.\<close>

definition compare_streaming_next ::
  "'b roaring \<Rightarrow> ('v \<Rightarrow> u64) \<Rightarrow> ('t, 'v, 'b) quantized_compare \<Rightarrow> (u64 \<times> ('t, 'v, 'b) quantized_compare) option" where
  "compare_streaming_next R value_bytes r =
     (case selected_streaming_index R r of
        None \<Rightarrow> None
      | Some (op, candidate) \<Rightarrow>
          (let merged = rebuild_selected R value_bytes (the (qc_index r op)) (compare_by_direction op) candidate;
               r' = (qc_set_index r op merged)\<lparr>qc_quantized := (qc_quantized r)[op := True],
                                               qc_ceiling := qc_ceiling r \<or> op = unat OperatorEQ\<rparr>
           in Some (compare_usage R value_bytes r', r')))"

definition clone_compare :: "'b roaring \<Rightarrow> ('t, 'v, 'b) quantized_compare \<Rightarrow> ('t, 'v, 'b) quantized_compare" where
  "clone_compare R r =
     r\<lparr>qc_rule := (qc_rule r)\<lparr>cb_indexes := map (map_option (clone_build R)) (cb_indexes (qc_rule r))\<rparr>,
       qc_accounting := replicate 5 None\<rparr>"

definition compare_first_generation ::
  "'b roaring \<Rightarrow> ('v \<Rightarrow> u64) \<Rightarrow> ('t, 'v, 'b) quantized_compare \<Rightarrow> (u64 \<times> ('t, 'v, 'b) quantized_compare) option" where
  "compare_first_generation R value_bytes r = compare_streaming_next R value_bytes (clone_compare R r)"

text \<open>\<open>each\<close> with the equality lookup of the rule: the bitmaps it visits, in order.\<close>

definition quantized_equality_bits :: "('t, 'v, 'b) quantized_compare \<Rightarrow> 'v \<Rightarrow> 'b option" where
  "quantized_equality_bits r v =
     (case cb_indexes (qc_rule r) ! unat OperatorEQ of
        None \<Rightarrow> None
      | Some x \<Rightarrow> if qc_ceiling r then ox_ceiling x v else ox_exact x v)"

definition quantized_cb_each :: "('t, 'v, 'b) quantized_compare \<Rightarrow> 't \<Rightarrow> 'b list" where
  "quantized_cb_each r q =
     cb_wildcard (qc_rule r) #
     (case cb_value (qc_rule r) q of
        None \<Rightarrow> []
      | Some v \<Rightarrow>
          (case quantized_equality_bits r v of None \<Rightarrow> [] | Some bits \<Rightarrow> [bits])
          @ cb_walk (qc_rule r) OperatorLT v True False
          @ cb_walk (qc_rule r) OperatorLTE v True True
          @ cb_walk (qc_rule r) OperatorGT v False False
          @ cb_walk (qc_rule r) OperatorGTE v False True)"

definition quantized_cb_prepare :: "'b roaring \<Rightarrow> ('t, 'v, 'b) quantized_compare \<Rightarrow> ('t, 'v, 'b) quantized_compare" where
  "quantized_cb_prepare R r = r\<lparr>qc_rule := cb_prepare R (qc_rule r)\<rparr>"

definition compare_boundaries :: "('t, 'v, 'b) quantized_compare \<Rightarrow> nat" where
  "compare_boundaries r = (\<Sum>x\<leftarrow>cb_indexes (qc_rule r). case x of None \<Rightarrow> 0 | Some x \<Rightarrow> unique_values x)"

section \<open>Invariant\<close>

text \<open>The value that counts for one operator.\<close>

definition operator_value :: "('t \<Rightarrow> 'v option) \<Rightarrow> ('t \<Rightarrow> operator option) \<Rightarrow> nat \<Rightarrow> 't \<Rightarrow> 'v option" where
  "operator_value value operator op t = (if stored_operator operator t = op then value t else None)"

definition index_holds ::
  "'b roaring \<Rightarrow> ('v \<Rightarrow> u64) \<Rightarrow> ('t \<Rightarrow> 'v option) \<Rightarrow> ('v \<Rightarrow> 'v \<Rightarrow> int) \<Rightarrow> direction \<Rightarrow> bool
     \<Rightarrow> ('v, 'b) accounted_index \<Rightarrow> ('t \<times> u32) list \<Rightarrow> bool" where
  "index_holds R value_bytes get cmp dir quantized x h \<longleftrightarrow>
     ox_building R (bx_index x) \<and> ox_compare (bx_index x) = cmp \<and> accounted R value_bytes x
     \<and> holds_near R cmp dir get h (flat (bx_index x))
     \<and> (\<not> quantized \<longrightarrow> exactly_held cmp get h (flat (bx_index x)))"

definition slot_holds ::
  "'b roaring \<Rightarrow> ('v \<Rightarrow> u64) \<Rightarrow> ('t \<Rightarrow> 'v option) \<Rightarrow> ('t \<Rightarrow> operator option) \<Rightarrow> ('v \<Rightarrow> 'v \<Rightarrow> int)
     \<Rightarrow> ('t, 'v, 'b) quantized_compare \<Rightarrow> ('t \<times> u32) list \<Rightarrow> nat \<Rightarrow> bool" where
  "slot_holds R value_bytes value operator cmp r h op \<longleftrightarrow>
     (case qc_index r op of
        None \<Rightarrow> (\<forall>(t, i)\<in>set h. operator_value value operator op t = None)
      | Some x \<Rightarrow> index_holds R value_bytes (operator_value value operator op) cmp (compare_by_direction op) (qc_quantized r ! op) x h)"

definition compare_holds ::
  "'b roaring \<Rightarrow> ('v \<Rightarrow> u64) \<Rightarrow> ('t \<Rightarrow> 'v option) \<Rightarrow> ('t \<Rightarrow> operator option) \<Rightarrow> ('v \<Rightarrow> 'v \<Rightarrow> int)
     \<Rightarrow> ('t, 'v, 'b) quantized_compare \<Rightarrow> ('t \<times> u32) list \<Rightarrow> bool" where
  "compare_holds R value_bytes value operator cmp r h \<longleftrightarrow>
     cb_value (qc_rule r) = value \<and> cb_operator (qc_rule r) = operator \<and> cb_compare (qc_rule r) = cmp \<and> comparator cmp
     \<and> length (cb_indexes (qc_rule r)) = 5 \<and> length (qc_accounting r) = 5 \<and> length (qc_quantized r) = 5
     \<and> (\<not> qc_ceiling r \<longrightarrow> \<not> qc_quantized r ! 0)
     \<and> bm_ids R (cb_wildcard (qc_rule r)) = stored_ids value h (\<lambda>x. x = None)
     \<and> (\<forall>(t, i)\<in>set h. value t \<noteq> None \<longrightarrow> stored_operator operator t < 5)
     \<and> (\<forall>op<5. slot_holds R value_bytes value operator cmp r h op)"

lemma index_holds_other:
  assumes "index_holds R value_bytes get cmp dir quantized x h" "get t = None"
  shows "index_holds R value_bytes get cmp dir quantized x (h @ [(t, i)])"
  using assms by (auto simp: index_holds_def holds_near_def exactly_held_def)

lemma qc_index_set:
  "op < length (cb_indexes (qc_rule r)) \<Longrightarrow> op < length (qc_accounting r) \<Longrightarrow>
   qc_index (qc_set_index r op x) op' = (if op' = op then Some x else qc_index r op')"
  by (auto simp: qc_index_def qc_set_index_def split: option.split)

lemma qc_index_update [simp]:
  "qc_index (r\<lparr>qc_quantized := q\<rparr>) op = qc_index r op" "qc_index (r\<lparr>qc_ceiling := c\<rparr>) op = qc_index r op"
  by (simp_all add: qc_index_def split: option.split)

lemma qc_set_index_simps [simp]:
  "cb_value (qc_rule (qc_set_index r op x)) = cb_value (qc_rule r)"
  "cb_operator (qc_rule (qc_set_index r op x)) = cb_operator (qc_rule r)"
  "cb_compare (qc_rule (qc_set_index r op x)) = cb_compare (qc_rule r)"
  "cb_wildcard (qc_rule (qc_set_index r op x)) = cb_wildcard (qc_rule r)"
  "length (cb_indexes (qc_rule (qc_set_index r op x))) = length (cb_indexes (qc_rule r))"
  "length (qc_accounting (qc_set_index r op x)) = length (qc_accounting r)"
  "qc_quantized (qc_set_index r op x) = qc_quantized r" "qc_ceiling (qc_set_index r op x) = qc_ceiling r"
  by (simp_all add: qc_set_index_def)

text \<open>
  What a query matches: for the index of an operator, the boundary of a stored value on the side of the query;
  for equality, the boundary that the query and the stored value share, once boundaries have been merged.
\<close>

definition slot_matches :: "('t, 'v, 'b) quantized_compare \<Rightarrow> nat \<Rightarrow> 'v \<Rightarrow> 'v \<Rightarrow> bool" where
  "slot_matches r op v w =
     (case cb_indexes (qc_rule r) ! op of
        None \<Rightarrow> False
      | Some x \<Rightarrow>
          (let near = nearest (ox_compare x) (compare_by_direction op) (flat x)
           in if op = 0 then
                (if qc_ceiling r then near w \<noteq> None \<and> near v = near w else \<exists>a. near w = Some a \<and> ox_compare x (oi_value a) v = 0)
              else (\<exists>a. near w = Some a \<and> operator_holds (ox_compare x) (of_nat op) v (oi_value a))))"

definition compare_matches :: "('t, 'v, 'b) quantized_compare \<Rightarrow> 't \<Rightarrow> 't \<Rightarrow> bool" where
  "compare_matches r stored query =
     (case cb_value (qc_rule r) stored of
        None \<Rightarrow> True
      | Some w \<Rightarrow>
          (case cb_value (qc_rule r) query of
             None \<Rightarrow> False
           | Some v \<Rightarrow> slot_matches r (stored_operator (cb_operator (qc_rule r)) stored) v w))"

text \<open>The IDs that an index contributes.\<close>

definition slot_ids ::
  "('t \<Rightarrow> 'v option) \<Rightarrow> ('t \<Rightarrow> operator option) \<Rightarrow> ('t, 'v, 'b) quantized_compare \<Rightarrow> ('t \<times> u32) list \<Rightarrow> nat \<Rightarrow> 'v \<Rightarrow> u32 set" where
  "slot_ids value operator r h op v = {i. \<exists>t w. (t, i) \<in> set h \<and> operator_value value operator op t = Some w \<and> slot_matches r op v w}"

lemma sum_list_update_less:
  "n < length xs \<Longrightarrow> f y < f (xs ! n) \<Longrightarrow> (\<Sum>x\<leftarrow>xs[n := y]. f x) < (\<Sum>x\<leftarrow>xs. f x :: nat)"
  by (induction xs arbitrary: n) (auto split: nat.splits)

context roaring
begin

lemma index_holds_insert:
  assumes "index_holds R value_bytes get cmp dir quantized x h" "get t = Some v"
  shows "index_holds R value_bytes get cmp dir quantized \<lparr>bx_index = insert_ordered R (bx_index x) v i dir quantized, bx_accounting = None\<rparr> (h @ [(t, i)])"
proof -
  have bld: "ox_building R (bx_index x)" "ox_compare (bx_index x) = cmp" using assms(1) by (auto simp: index_holds_def)
  have near: "holds_near R cmp dir get (h @ [(t, i)]) (flat (insert_ordered R (bx_index x) v i dir quantized))"
    using holds_near_insert [OF bld(1), of dir get h quantized t v i] assms by (auto simp: index_holds_def bld(2))
  have exact: "exactly_held cmp get (h @ [(t, i)]) (flat (insert_ordered R (bx_index x) v i dir False))" if "\<not> quantized"
    using exactly_held_insert [OF bld(1), of get h t v i dir] assms that by (simp add: index_holds_def bld(2))
  have "ox_building R (insert_ordered R (bx_index x) v i dir q)" "ox_compare (insert_ordered R (bx_index x) v i dir q) = cmp" for q
    by (simp_all add: insert_ordered_def ox_building_insert bld)
  then show ?thesis using near exact by (cases quantized) (auto simp: index_holds_def accounted_def build_accounting_def)
qed

lemma index_holds_new:
  "comparator cmp \<Longrightarrow> \<forall>(t, i)\<in>set h. get t = None
   \<Longrightarrow> index_holds R value_bytes get cmp dir quantized \<lparr>bx_index = new_ordered_index cmp key, bx_accounting = None\<rparr> h"
  using ox_building_new [of cmp R key]
  by (auto simp: index_holds_def accounted_def build_accounting_def holds_near_def exactly_held_def new_ordered_index_def flat_def)

lemma index_holds_merge:
  assumes holds: "index_holds R value_bytes get cmp dir quantized x h" and best: "best_ordered_merge R (bx_index x) = Some c"
  shows "index_holds R value_bytes get cmp dir True (rebuild_selected R value_bytes x dir c) h"
    "unique_values (bx_index (rebuild_selected R value_bytes x dir c)) < unique_values (bx_index x)"
proof -
  have bld: "ox_building R (bx_index x)" "ox_compare (bx_index x) = cmp" and acc: "accounted R value_bytes x"
    using holds by (auto simp: index_holds_def)
  have "1 < length (flat (bx_index x))" using best best_ordered_merge_iff by blast
  then obtain P l s S where split: "flat (bx_index x) = P @ l # s # S" "mc_position c = length P"
    by (rule best_ordered_merge_split [where R = R]) (use best in auto)
  have ok: "ox_ok R (bx_index x)" using bld(1) by (rule ox_ok_building)
  have order: "comparator cmp" "sorted_items cmp (P @ l # s # S)" using ok by (auto simp: ox_ok_def bld(2) split(1))
  have near: "holds_near R cmp dir get h (P @ l # s # S)" using holds by (simp add: index_holds_def split(1))
  have nonempty: "\<forall>b\<in>set (ox_blocks (bx_index x)). ob_items b \<noteq> []" using ok by (auto simp: ox_ok_def block_ok_def)
  note rebuilt = ox_building_rebuild [OF bld(1) split, of value_bytes dir]
  show "index_holds R value_bytes get cmp dir True (rebuild_selected R value_bytes x dir c) h"
    unfolding index_holds_def rebuilt(2,3) bld(2)
    using rebuilt(1) holds_near_merge [OF order near] accounted_rebuild [OF acc nonempty split] by blast
  show "unique_values (bx_index (rebuild_selected R value_bytes x dir c)) < unique_values (bx_index x)"
    by (simp add: unique_values_def rebuilt(2) split(1))
qed

lemma index_holds_clone:
  assumes "index_holds R value_bytes get cmp dir quantized x h"
  shows "index_holds R value_bytes get cmp dir quantized \<lparr>bx_index = clone_build R (bx_index x), bx_accounting = None\<rparr> h"
proof -
  have "ox_building R (bx_index x)" using assms by (simp add: index_holds_def)
  note same = clone_build_same [OF this]
  show ?thesis using assms by (auto simp: index_holds_def same accounted_def build_accounting_def)
qed

lemma compare_holds_new:
  assumes "comparator cmp"
  shows "compare_holds R value_bytes value operator cmp (new_quantized_compare (new_compare_by_rule R node value operator cmp key)) []"
proof -
  have "replicate 5 x ! op = x" if "op < 5" for op and x :: 'z using that by simp
  then show ?thesis
    using assms by (simp add: compare_holds_def slot_holds_def new_quantized_compare_def new_compare_by_rule_def qc_index_def ids_new)
qed

lemma compare_holds_insert:
  assumes holds: "compare_holds R value_bytes value operator cmp r h"
    and valid: "cb_accepts (qc_rule r) t"
  shows "compare_holds R value_bytes value operator cmp (quantized_cb_insert R r t i) (h @ [(t, i)])"
proof -
  have fields: "cb_value (qc_rule r) = value" "cb_operator (qc_rule r) = operator" "cb_compare (qc_rule r) = cmp" "comparator cmp"
    "length (cb_indexes (qc_rule r)) = 5" "length (qc_accounting r) = 5" "length (qc_quantized r) = 5"
    using holds by (simp_all add: compare_holds_def)
  have held: "slot_holds R value_bytes value operator cmp r h op" if "op < 5" for op
    using holds that by (simp add: compare_holds_def)
  show ?thesis
  proof (cases "value t")
    case None
    let ?r = "quantized_cb_insert R r t i"
    have r': "?r = r\<lparr>qc_rule := (qc_rule r)\<lparr>cb_wildcard := bm_add R (cb_wildcard (qc_rule r)) i\<rparr>\<rparr>"
      using None by (simp add: quantized_cb_insert_def Let_def fields)
    have same: "qc_index ?r op = qc_index r op" "qc_quantized ?r = qc_quantized r" for op
      unfolding r' by (simp_all add: qc_index_def split: option.split)
    have absent: "operator_value value operator op t = None" for op using None by (simp add: operator_value_def)
    have "slot_holds R value_bytes value operator cmp ?r (h @ [(t, i)]) op" if "op < 5" for op
      using held [OF that] absent [of op] index_holds_other [of R value_bytes "operator_value value operator op"]
      unfolding slot_holds_def same by (auto split: option.splits)
    then show ?thesis
      using holds None by (simp add: compare_holds_def r' ids_add)
  next
    case (Some v)
    define op where "op = stored_operator operator t"
    obtain o' where "operator t = Some o'" "o' \<in> {0, 1, 2, 3, 4}"
      using cb_valid_operator [OF valid, of v] Some by (auto simp: fields)
    then have op: "op < 5" using operator_less [of o'] by (auto simp: op_def stored_operator_def)
    have get: "operator_value value operator op' t = (if op' = op then Some v else None)" for op'
      using Some by (auto simp: operator_value_def op_def)
    let ?x = "case cb_indexes (qc_rule r) ! op of Some x \<Rightarrow> x | None \<Rightarrow> new_ordered_index cmp (cb_route (qc_rule r))"
    let ?new = "\<lparr>bx_index = insert_ordered R ?x v i (compare_by_direction op) (qc_quantized r ! op), bx_accounting = None\<rparr>"
    have r': "quantized_cb_insert R r t i = qc_set_index r op ?new"
      unfolding quantized_cb_insert_def Let_def fields op_def using Some by simp
    have old: "\<exists>acc. index_holds R value_bytes (operator_value value operator op) cmp (compare_by_direction op) (qc_quantized r ! op)
        \<lparr>bx_index = ?x, bx_accounting = acc\<rparr> h"
    proof (cases "cb_indexes (qc_rule r) ! op")
      case None
      then have "\<forall>(t, i)\<in>set h. operator_value value operator op t = None" using held [OF op] by (simp add: slot_holds_def qc_index_def)
      then show ?thesis unfolding None option.case by (intro exI [of _ None] index_holds_new [OF fields(4)])
    next
      case (Some x)
      then show ?thesis using held [OF op] by (auto simp: slot_holds_def qc_index_def)
    qed
    then obtain acc where "index_holds R value_bytes (operator_value value operator op) cmp (compare_by_direction op) (qc_quantized r ! op)
        \<lparr>bx_index = ?x, bx_accounting = acc\<rparr> h" by blast
    from index_holds_insert [OF this, of t v i] get [of op]
    have new: "index_holds R value_bytes (operator_value value operator op) cmp (compare_by_direction op) (qc_quantized r ! op) ?new (h @ [(t, i)])"
      by simp
    have set: "qc_index (qc_set_index r op ?new) op' = (if op' = op then Some ?new else qc_index r op')" for op'
      by (rule qc_index_set) (simp_all add: op fields)
    have "slot_holds R value_bytes value operator cmp (qc_set_index r op ?new) (h @ [(t, i)]) op'" if "op' < 5" for op'
    proof (cases "op' = op")
      case True
      show ?thesis unfolding True slot_holds_def set qc_set_index_simps using new by simp
    next
      case False
      then show ?thesis
        using held [OF that] get [of op'] index_holds_other [of R value_bytes "operator_value value operator op'"]
        unfolding slot_holds_def set by (auto split: option.splits)
    qed
    then show ?thesis
      using holds Some op unfolding r' by (simp add: compare_holds_def op_def [symmetric])
  qed
qed

lemma selected_index:
  assumes "selected_streaming_index R r = Some (op, c)"
  shows "op < 5" "\<exists>x. cb_indexes (qc_rule r) ! op = Some x \<and> best_ordered_merge R x = Some c"
proof -
  let ?f = "\<lambda>selected op. case cb_indexes (qc_rule r) ! op of
      None \<Rightarrow> selected
    | Some x \<Rightarrow> (let candidate = best_ordered_merge R x
                in if better_ordered_merge candidate (map_option snd selected) then Some (op, the candidate) else selected)"
  have "foldl ?f s ops = Some (op, c) \<Longrightarrow> s = Some (op, c) \<or> op \<in> set ops \<and> (\<exists>x. cb_indexes (qc_rule r) ! op = Some x \<and> best_ordered_merge R x = Some c)" for s ops
  proof (induction ops arbitrary: s)
    case (Cons n ops)
    from Cons.IH [of "?f s n"] Cons.prems show ?case
      by (auto simp: Let_def better_ordered_merge_def split: option.splits if_splits)
  qed simp
  from this [of None "[0..<5]"] assms
  show "op < 5" "\<exists>x. cb_indexes (qc_rule r) ! op = Some x \<and> best_ordered_merge R x = Some c"
    by (auto simp: selected_streaming_index_def)
qed

lemma selected_index_None:
  assumes "selected_streaming_index R r = None" "op < 5" "cb_indexes (qc_rule r) ! op = Some x"
  shows "unique_values x \<le> 1"
proof -
  let ?f = "\<lambda>selected op. case cb_indexes (qc_rule r) ! op of
      None \<Rightarrow> selected
    | Some x \<Rightarrow> (let candidate = best_ordered_merge R x
                in if better_ordered_merge candidate (map_option snd selected) then Some (op, the candidate) else selected)"
  have some: "foldl ?f (Some s) ops \<noteq> None" for s ops
  proof (induction ops arbitrary: s)
    case (Cons n ops)
    have "\<exists>s'. ?f (Some s) n = Some s'" by (simp add: Let_def split: option.split)
    then obtain s' where s': "?f (Some s) n = Some s'" by blast
    show ?case unfolding foldl_Cons s' by (rule Cons.IH)
  qed simp
  have "foldl ?f None ops = None \<Longrightarrow> op \<in> set ops \<Longrightarrow> best_ordered_merge R x = None" for ops
  proof (induction ops)
    case (Cons n ops)
    show ?case
    proof (cases "?f None n")
      case None
      with Cons assms(3) show ?thesis by (auto simp: Let_def better_ordered_merge_def split: option.splits if_splits)
    next
      case (Some s)
      have "foldl ?f (?f None n) ops \<noteq> None" unfolding Some by (rule some)
      with Cons.prems(1) show ?thesis by simp
    qed
  qed simp
  from this [of "[0..<5]"] assms have "best_ordered_merge R x = None" by (simp add: selected_streaming_index_def)
  then show ?thesis using best_ordered_merge_iff [of R x] by (simp add: unique_values_def)
qed

lemma compare_holds_merge:
  assumes holds: "compare_holds R value_bytes value operator cmp r h" and merge: "compare_streaming_next R value_bytes r = Some (usage, r')"
  shows "compare_holds R value_bytes value operator cmp r' h" "compare_boundaries r' < compare_boundaries r" "usage = compare_usage R value_bytes r'"
proof -
  obtain op c where sel: "selected_streaming_index R r = Some (op, c)" using merge by (auto simp: compare_streaming_next_def split: option.splits)
  note op = selected_index(1) [OF sel]
  obtain x where x: "cb_indexes (qc_rule r) ! op = Some x" "best_ordered_merge R x = Some c" using selected_index(2) [OF sel] by blast
  let ?x = "\<lparr>bx_index = x, bx_accounting = qc_accounting r ! op\<rparr>"
  let ?new = "rebuild_selected R value_bytes ?x (compare_by_direction op) c"
  have at: "qc_index r op = Some ?x" using x(1) by (simp add: qc_index_def)
  have r': "r' = (qc_set_index r op ?new)\<lparr>qc_quantized := (qc_quantized r)[op := True], qc_ceiling := qc_ceiling r \<or> op = unat OperatorEQ\<rparr>"
    and usage: "usage = compare_usage R value_bytes r'"
    using merge by (auto simp: compare_streaming_next_def sel at Let_def)
  have len: "length (cb_indexes (qc_rule r)) = 5" "length (qc_accounting r) = 5" "length (qc_quantized r) = 5"
    using holds by (simp_all add: compare_holds_def)
  have held: "slot_holds R value_bytes value operator cmp r h op'" if "op' < 5" for op'
    using holds that by (simp add: compare_holds_def)
  have old: "index_holds R value_bytes (operator_value value operator op) cmp (compare_by_direction op) (qc_quantized r ! op) ?x h"
    using held [OF op] by (simp add: slot_holds_def at)
  note merged = index_holds_merge [OF old, of c, simplified, OF x(2)]
  have index: "qc_index r' op' = (if op' = op then Some ?new else qc_index r op')" for op'
    unfolding r' qc_index_update by (rule qc_index_set) (simp_all add: op len)
  have quantized: "qc_quantized r' ! op' = (op' = op \<or> qc_quantized r ! op')" if "op' < 5" for op'
    using that len op by (simp add: r' nth_list_update)
  have "slot_holds R value_bytes value operator cmp r' h op'" if "op' < 5" for op'
  proof (cases "op' = op")
    case True
    then show ?thesis using merged(1) quantized [OF op] by (simp add: slot_holds_def index)
  next
    case False
    then have same: "qc_quantized r' ! op' = qc_quantized r ! op'" "qc_index r' op' = qc_index r op'" using quantized [OF that] by (simp_all add: index)
    show ?thesis using held [OF that] unfolding slot_holds_def same .
  qed
  moreover have "\<not> qc_ceiling r' \<longrightarrow> \<not> qc_quantized r' ! 0"
    using holds quantized [of 0] by (auto simp: r' compare_holds_def OperatorEQ_def)
  ultimately show "compare_holds R value_bytes value operator cmp r' h"
    using holds by (simp add: compare_holds_def r')
  show "usage = compare_usage R value_bytes r'" by (rule usage)
  have "compare_boundaries r' = (\<Sum>y\<leftarrow>(cb_indexes (qc_rule r))[op := Some (bx_index ?new)]. case y of None \<Rightarrow> 0 | Some x \<Rightarrow> unique_values x)"
    by (simp add: compare_boundaries_def r' qc_set_index_def)
  also have "\<dots> < compare_boundaries r"
  proof -
    have "op < length (cb_indexes (qc_rule r))" using op len by simp
    then show ?thesis unfolding compare_boundaries_def by (rule sum_list_update_less) (use merged(2) x(1) in simp)
  qed
  finally show "compare_boundaries r' < compare_boundaries r" .
qed

lemma compare_holds_clone:
  assumes holds: "compare_holds R value_bytes value operator cmp r h"
  shows "compare_holds R value_bytes value operator cmp (clone_compare R r) h" "compare_boundaries (clone_compare R r) = compare_boundaries r"
proof -
  have len: "length (cb_indexes (qc_rule r)) = 5" using holds by (simp add: compare_holds_def)
  have index: "qc_index (clone_compare R r) op = map_option (\<lambda>x. \<lparr>bx_index = clone_build R (bx_index x), bx_accounting = None\<rparr>) (qc_index r op)"
    if "op < 5" for op
    using that len by (simp add: qc_index_def clone_compare_def split: option.split)
  have held: "slot_holds R value_bytes value operator cmp r h op" if "op < 5" for op
    using holds that by (simp add: compare_holds_def)
  have "slot_holds R value_bytes value operator cmp (clone_compare R r) h op" if "op < 5" for op
  proof (cases "qc_index r op")
    case None
    then show ?thesis using held [OF that] index [OF that] by (simp add: slot_holds_def)
  next
    case (Some x)
    then have "index_holds R value_bytes (operator_value value operator op) cmp (compare_by_direction op) (qc_quantized r ! op) x h"
      using held [OF that] by (simp add: slot_holds_def)
    have quantized: "qc_quantized (clone_compare R r) = qc_quantized r" by (simp add: clone_compare_def)
    show ?thesis
      using index_holds_clone [OF \<open>index_holds R value_bytes (operator_value value operator op) cmp (compare_by_direction op) (qc_quantized r ! op) x h\<close>]
      unfolding slot_holds_def index [OF that] Some quantized by simp
  qed
  moreover have "cb_value (qc_rule (clone_compare R r)) = cb_value (qc_rule r)" "cb_operator (qc_rule (clone_compare R r)) = cb_operator (qc_rule r)"
    "cb_compare (qc_rule (clone_compare R r)) = cb_compare (qc_rule r)" "cb_wildcard (qc_rule (clone_compare R r)) = cb_wildcard (qc_rule r)"
    "length (cb_indexes (qc_rule (clone_compare R r))) = length (cb_indexes (qc_rule r))" "length (qc_accounting (clone_compare R r)) = 5"
    "qc_quantized (clone_compare R r) = qc_quantized r" "qc_ceiling (clone_compare R r) = qc_ceiling r"
    by (simp_all add: clone_compare_def)
  ultimately show "compare_holds R value_bytes value operator cmp (clone_compare R r) h"
    using holds unfolding compare_holds_def by simp
  have "unique_values (clone_build R x) = unique_values x" if stored: "Some x \<in> set (cb_indexes (qc_rule r))" for x
  proof -
    obtain op where op: "op < 5" "cb_indexes (qc_rule r) ! op = Some x" using stored len by (auto simp: in_set_conv_nth)
    then have "ox_building R x" using held [OF op(1)] by (simp add: slot_holds_def qc_index_def index_holds_def)
    then show ?thesis by (simp add: unique_values_def clone_build_same)
  qed
  then show "compare_boundaries (clone_compare R r) = compare_boundaries r"
    unfolding compare_boundaries_def clone_compare_def
    by (auto intro!: arg_cong [where f = sum_list] split: option.split)
qed

lemma find_dropWhile: "find (\<lambda>a. \<not> p a) xs = (case dropWhile p xs of [] \<Rightarrow> None | a # _ \<Rightarrow> Some a)"
  by (induction xs) auto

lemma map_option_head:
  "map_option f (case xs of [] \<Rightarrow> None | a # _ \<Rightarrow> Some a) = (case xs of [] \<Rightarrow> None | a # _ \<Rightarrow> Some (f a))"
  by (cases xs) auto

lemma held_posting:
  assumes "index_holds R value_bytes get cmp dir quantized x h" "a \<in> set (flat (bx_index x))"
  shows "bm_ids R (oi_bits a) = {i. \<exists>t w. (t, i) \<in> set h \<and> get t = Some w \<and> nearest cmp dir (flat (bx_index x)) w = Some a}"
  using assms by (auto simp: index_holds_def holds_near_def stored_ids_def)

lemma held_walk:
  assumes holds: "index_holds R value_bytes get cmp dir quantized x h"
  shows "ox_range_ids R (bx_index x) v ascending inclusive
    = {i. \<exists>t w a. (t, i) \<in> set h \<and> get t = Some w \<and> nearest cmp dir (flat (bx_index x)) w = Some a \<and> in_range cmp v ascending inclusive (oi_value a)}"
proof -
  have near: "holds_near R cmp dir get h (flat (bx_index x))" and cmp: "ox_compare (bx_index x) = cmp" using holds by (auto simp: index_holds_def)
  show ?thesis unfolding ox_range_ids_def cmp held_range_ids [OF near] by (auto simp: stored_ids_def)
qed

lemma held_ceiling:
  assumes holds: "index_holds R value_bytes get cmp Less_Than quantized x h"
  shows "(case ox_ceiling (bx_index x) v of None \<Rightarrow> {} | Some b \<Rightarrow> bm_ids R b)
    = {i. \<exists>t w. (t, i) \<in> set h \<and> get t = Some w \<and> nearest cmp Less_Than (flat (bx_index x)) w \<noteq> None
        \<and> nearest cmp Less_Than (flat (bx_index x)) v = nearest cmp Less_Than (flat (bx_index x)) w}"
proof -
  have ok: "ox_ok R (bx_index x)" and cmp: "ox_compare (bx_index x) = cmp" using holds ox_ok_building by (auto simp: index_holds_def)
  have ceiling: "ox_ceiling (bx_index x) v = map_option oi_bits (nearest cmp Less_Than (flat (bx_index x)) v)"
    unfolding ox_ceiling_ids [OF ok] cmp nearest_def direction.case not_less [symmetric] find_dropWhile map_option_head ..
  show ?thesis
  proof (cases "nearest cmp Less_Than (flat (bx_index x)) v")
    case None
    then show ?thesis by (auto simp: ceiling)
  next
    case (Some a)
    show ?thesis unfolding ceiling Some using held_posting [OF holds nearest_member [OF Some]] by auto
  qed
qed

lemma held_exact:
  assumes holds: "index_holds R value_bytes get cmp dir quantized x h"
  shows "(case ox_exact (bx_index x) v of None \<Rightarrow> {} | Some b \<Rightarrow> bm_ids R b)
    = {i. \<exists>t w a. (t, i) \<in> set h \<and> get t = Some w \<and> nearest cmp dir (flat (bx_index x)) w = Some a \<and> cmp (oi_value a) v = 0}"
proof -
  have ok: "ox_ok R (bx_index x)" and cmp: "ox_compare (bx_index x) = cmp" using holds ox_ok_building by (auto simp: index_holds_def)
  have "ox_posting R (bx_index x) v = (\<Union>a\<in>{a \<in> set (flat (bx_index x)). cmp (oi_value a) v = 0}. bm_ids R (oi_bits a))"
    by (auto simp: ox_posting_def items_ids_def cmp)
  also have "\<dots> = {i. \<exists>t w a. (t, i) \<in> set h \<and> get t = Some w \<and> nearest cmp dir (flat (bx_index x)) w = Some a \<and> cmp (oi_value a) v = 0}"
    using held_posting [OF holds] nearest_member [of cmp dir "flat (bx_index x)"] by fastforce
  finally show ?thesis by (simp add: ox_exact_ids [OF ok])
qed

lemma slot_empty:
  assumes "slot_holds R value_bytes value operator cmp r h op" "cb_indexes (qc_rule r) ! op = None"
  shows "slot_ids value operator r h op v = {}"
  using assms by (auto simp: slot_ids_def slot_matches_def)

lemma prepared_index:
  "ox_building R x \<Longrightarrow> ox_ok R (ox_prepare_range_search R (ox_prepare_search R x))"
  by (simp add: ox_ok_prepare_range ox_ok_prepare_search ox_ok_building)

lemma slot_walk:
  assumes slot: "slot_holds R value_bytes value operator cmp r h (unat op)" and len: "unat op < length (cb_indexes (qc_rule r))" "op \<noteq> 0"
    and range: "\<And>w. operator_holds cmp op v w \<longleftrightarrow> in_range cmp v ascending inclusive w"
  shows "bits_ids R (cb_walk (cb_prepare R (qc_rule r)) op v ascending inclusive) = slot_ids value operator r h (unat op) v"
proof (cases "cb_indexes (qc_rule r) ! unat op")
  case None
  then show ?thesis using slot_empty [OF slot None] len by (simp add: cb_walk_def cb_prepare_def)
next
  case (Some x)
  let ?x = "\<lparr>bx_index = x, bx_accounting = qc_accounting r ! unat op\<rparr>" and ?y = "ox_prepare_range_search R (ox_prepare_search R x)"
  have held: "index_holds R value_bytes (operator_value value operator (unat op)) cmp (compare_by_direction (unat op)) (qc_quantized r ! unat op) ?x h"
    using slot Some by (simp add: slot_holds_def qc_index_def)
  then have bld: "ox_building R x" "ox_compare x = cmp" by (auto simp: index_holds_def)
  have "bits_ids R (cb_walk (cb_prepare R (qc_rule r)) op v ascending inclusive) = ox_range_ids R ?y v ascending inclusive"
    using len Some by (simp add: cb_walk_def cb_prepare_def ox_walk_ids [OF prepared_index [OF bld(1)]])
  also have "\<dots> = ox_range_ids R x v ascending inclusive" by (simp add: ox_range_ids_cong [of ?y x])
  also have "\<dots> = slot_ids value operator r h (unat op) v"
    using held_walk [OF held, of v ascending inclusive] len(2) Some
    by (auto simp: slot_ids_def slot_matches_def bld(2) range Let_def unsigned_eq_0_iff)
  finally show ?thesis .
qed

lemma slot_equality:
  assumes slot: "slot_holds R value_bytes value operator cmp r h 0" and len: "0 < length (cb_indexes (qc_rule r))"
  shows "(case quantized_equality_bits (quantized_cb_prepare R r) v of None \<Rightarrow> {} | Some b \<Rightarrow> bm_ids R b) = slot_ids value operator r h 0 v"
proof (cases "cb_indexes (qc_rule r) ! 0")
  case None
  then show ?thesis using slot_empty [OF slot None] len
    by (simp add: quantized_equality_bits_def quantized_cb_prepare_def cb_prepare_def OperatorEQ_def)
next
  case (Some x)
  let ?x = "\<lparr>bx_index = x, bx_accounting = qc_accounting r ! 0\<rparr>" and ?y = "ox_prepare_range_search R (ox_prepare_search R x)"
  have up: "compare_by_direction 0 = Less_Than" by (simp add: compare_by_direction_def OperatorGT_def OperatorGTE_def)
  have held: "index_holds R value_bytes (operator_value value operator 0) cmp Less_Than (qc_quantized r ! 0) ?x h"
    using slot Some by (simp add: slot_holds_def qc_index_def up)
  then have bld: "ox_building R x" "ox_compare x = cmp" by (auto simp: index_holds_def)
  have ok: "ox_ok R x" "ox_ok R ?y" using bld(1) by (simp_all add: ox_ok_building prepared_index)
  have "quantized_equality_bits (quantized_cb_prepare R r) v = (if qc_ceiling r then ox_ceiling ?y v else ox_exact ?y v)"
    using len Some by (simp add: quantized_equality_bits_def quantized_cb_prepare_def cb_prepare_def OperatorEQ_def)
  moreover have "ox_ceiling ?y v = ox_ceiling x v" unfolding ox_ceiling_ids [OF ok(1)] ox_ceiling_ids [OF ok(2)] by simp
  moreover have "(case ox_exact ?y v of None \<Rightarrow> {} | Some b \<Rightarrow> bm_ids R b) = (case ox_exact x v of None \<Rightarrow> {} | Some b \<Rightarrow> bm_ids R b)"
    unfolding ox_exact_ids [OF ok(1)] ox_exact_ids [OF ok(2)] by (simp add: ox_posting_prepared)
  ultimately show ?thesis
    using held_ceiling [OF held, of v] held_exact [OF held, of v] Some
    by (auto simp: slot_ids_def slot_matches_def bld(2) up Let_def)
qed

lemma operator_numbers: "(\<exists>op<5. P op) \<longleftrightarrow> P (0 :: nat) \<or> P 1 \<or> P 2 \<or> P 3 \<or> P 4"
  by (auto simp: less_Suc_eq numeral_eq_Suc)

lemma compare_kept_ids:
  assumes holds: "compare_holds R value_bytes value operator cmp r h"
  shows "bm_ids R (foldl (bm_or R) dst (quantized_cb_each (quantized_cb_prepare R r) q))
    = bm_ids R dst \<union> {i. \<exists>t. (t, i) \<in> set h \<and> compare_matches r t q}"
proof -
  have fields: "cb_value (qc_rule r) = value" "cb_operator (qc_rule r) = operator" using holds by (simp_all add: compare_holds_def)
  have len: "length (cb_indexes (qc_rule r)) = 5"
    and wild: "bm_ids R (cb_wildcard (qc_rule r)) = stored_ids value h (\<lambda>x. x = None)"
    using holds by (simp_all add: compare_holds_def)
  have slot: "slot_holds R value_bytes value operator cmp r h op" if "op < 5" for op
    using holds that by (simp add: compare_holds_def)
  have valid: "stored_operator operator t < 5" if "(t, i) \<in> set h" "value t = Some w" for t i w
    using holds that by (auto simp: compare_holds_def)
  let ?p = "quantized_cb_prepare R r"
  have prepared: "cb_wildcard (qc_rule ?p) = cb_wildcard (qc_rule r)" "cb_value (qc_rule ?p) = value" "qc_rule ?p = cb_prepare R (qc_rule r)"
    using fields by (simp_all add: quantized_cb_prepare_def cb_prepare_def)
  have each: "quantized_cb_each ?p q = cb_wildcard (qc_rule r) #
     (case value q of
        None \<Rightarrow> []
      | Some v \<Rightarrow>
          (case quantized_equality_bits ?p v of None \<Rightarrow> [] | Some bits \<Rightarrow> [bits])
          @ cb_walk (qc_rule ?p) OperatorLT v True False
          @ cb_walk (qc_rule ?p) OperatorLTE v True True
          @ cb_walk (qc_rule ?p) OperatorGT v False False
          @ cb_walk (qc_rule ?p) OperatorGTE v False True)"
    unfolding quantized_cb_each_def prepared(1,2) ..
  have "bits_ids R (quantized_cb_each ?p q) = {i. \<exists>t. (t, i) \<in> set h \<and> compare_matches r t q}"
  proof (cases "value q")
    case None
    then show ?thesis
      by (auto simp: each wild stored_ids_def compare_matches_def fields split: option.splits)
  next
    case (Some v)
    have walks: "bits_ids R (cb_walk (qc_rule ?p) OperatorLT v True False) = slot_ids value operator r h 1 v"
      "bits_ids R (cb_walk (qc_rule ?p) OperatorLTE v True True) = slot_ids value operator r h 2 v"
      "bits_ids R (cb_walk (qc_rule ?p) OperatorGT v False False) = slot_ids value operator r h 3 v"
      "bits_ids R (cb_walk (qc_rule ?p) OperatorGTE v False True) = slot_ids value operator r h 4 v"
      using slot_walk [of value_bytes "value" operator cmp r h OperatorLT v True False] slot_walk [of value_bytes "value" operator cmp r h OperatorLTE v True True]
        slot_walk [of value_bytes "value" operator cmp r h OperatorGT v False False] slot_walk [of value_bytes "value" operator cmp r h OperatorGTE v False True]
        slot [of 1] slot [of 2] slot [of 3] slot [of 4] len
      unfolding prepared(3) by (simp_all add: operator_holds_def operator_defs)
    have equality: "bits_ids R (case quantized_equality_bits ?p v of None \<Rightarrow> [] | Some b \<Rightarrow> [b]) = slot_ids value operator r h 0 v"
      using slot_equality [OF slot [of 0], of v] len by (cases "quantized_equality_bits ?p v") auto
    have "bits_ids R (quantized_cb_each ?p q) = stored_ids value h (\<lambda>x. x = None) \<union> {i. \<exists>op<5. i \<in> slot_ids value operator r h op v}"
      unfolding operator_numbers by (auto simp: each Some wild walks equality)
    also have "\<dots> = {i. \<exists>t. (t, i) \<in> set h \<and> compare_matches r t q}"
      using valid by (fastforce simp: stored_ids_def slot_ids_def compare_matches_def fields Some operator_value_def split: option.splits if_splits)
    finally show ?thesis .
  qed
  then show ?thesis by (simp add: ids_foldl_or bits_ids_def)
qed

end

text \<open>The exact filter, and that merging boundaries loses none of its matches.\<close>

definition compare_exact :: "('t \<Rightarrow> 'v option) \<Rightarrow> ('t \<Rightarrow> operator option) \<Rightarrow> ('v \<Rightarrow> 'v \<Rightarrow> int) \<Rightarrow> 't \<Rightarrow> 't \<Rightarrow> bool" where
  "compare_exact value operator cmp stored query =
     (case value stored of
        None \<Rightarrow> True
      | Some w \<Rightarrow>
          (case value query of
             None \<Rightarrow> False
           | Some v \<Rightarrow> operator_holds cmp (of_nat (stored_operator operator stored)) v w))"

lemma nearest_cong:
  assumes "comparator cmp" "cmp w v = 0"
  shows "nearest cmp dir items w = nearest cmp dir items v"
proof -
  have "cmp u w < 0 \<longleftrightarrow> cmp u v < 0" "0 < cmp u w \<longleftrightarrow> 0 < cmp u v" for u
    using comparator.cmp_eq_cong [OF assms, of u] comparator.cmp_eq_cong [OF assms(1), of v w u] assms(2)
      comparator.cmp_less_le_trans [OF assms(1), of u w v] comparator.cmp_less_le_trans [OF assms(1), of u v w]
      comparator.cmp_eq_sym [OF assms(1), of w v]
    by (auto simp: comparator.cmp_antisym [OF assms(1), of w] comparator.cmp_antisym [OF assms(1), of v])
  then have "(0 \<le> cmp u w) = (0 \<le> cmp u v)" "(cmp u w \<le> 0) = (cmp u v \<le> 0)" for u by (auto simp: not_less [symmetric])
  then show ?thesis by (cases dir) (simp_all add: nearest_def)
qed

lemma compare_matches_exact:
  assumes holds: "compare_holds R value_bytes value operator cmp r h" and stored: "(t, i) \<in> set h" and exact: "compare_exact value operator cmp t q"
  shows "compare_matches r t q"
proof (cases "value t")
  case None
  then show ?thesis using holds by (simp add: compare_matches_def compare_holds_def)
next
  case (Some w)
  then obtain v where v: "value q = Some v" using exact by (auto simp: compare_exact_def split: option.splits)
  define op where "op = stored_operator operator t"
  have op: "op < 5" using holds stored Some by (auto simp: compare_holds_def op_def)
  have fields: "cb_value (qc_rule r) = value" "cb_operator (qc_rule r) = operator" "comparator cmp"
    and slot: "slot_holds R value_bytes value operator cmp r h op" and ceiling: "\<not> qc_ceiling r \<longrightarrow> \<not> qc_quantized r ! 0"
    using holds op by (simp_all add: compare_holds_def)
  have get: "operator_value value operator op t = Some w" by (simp add: operator_value_def op_def Some)
  then obtain x where x: "cb_indexes (qc_rule r) ! op = Some x"
    and held: "index_holds R value_bytes (operator_value value operator op) cmp (compare_by_direction op) (qc_quantized r ! op)
      \<lparr>bx_index = x, bx_accounting = qc_accounting r ! op\<rparr> h"
    using slot stored by (fastforce simp: slot_holds_def qc_index_def split: option.splits)
  let ?near = "nearest cmp (compare_by_direction op) (flat x)"
  have bld: "ox_building R x" "ox_compare x = cmp" and near: "holds_near R cmp (compare_by_direction op) (operator_value value operator op) h (flat x)"
    and quantized: "\<not> qc_quantized r ! op \<longrightarrow> exactly_held cmp (operator_value value operator op) h (flat x)"
    using held by (auto simp: index_holds_def)
  obtain a where a: "?near w = Some a" using near stored get by (fastforce simp: holds_near_def)
  have match: "operator_holds cmp (of_nat op) v w" using exact Some v by (simp add: compare_exact_def op_def)
  have "slot_matches r op v w"
  proof (cases "op = 0")
    case True
    then have eq: "cmp w v = 0" using match by (simp add: operator_holds_def OperatorEQ_def)
    show ?thesis
    proof (cases "qc_ceiling r")
      case True
      moreover have "?near v = Some a" using a nearest_cong [OF fields(3) eq] by metis
      ultimately show ?thesis using a x \<open>op = 0\<close> by (simp add: slot_matches_def bld(2))
    next
      case False
      then obtain e where e: "e \<in> set (flat x)" "cmp (oi_value e) w = 0"
        using quantized ceiling stored get \<open>op = 0\<close> unfolding exactly_held_def by blast
      have "sorted_items cmp (flat x)" using bld ox_ok_building by (auto simp: ox_ok_def)
      then have "?near w = Some e" using e by (intro nearest_equal [OF fields(3)])
      moreover have "cmp (oi_value e) v = 0" using e(2) eq comparator.cmp_eq_cong0 [OF fields(3) e(2)] by blast
      ultimately show ?thesis using False x \<open>op = 0\<close> by (simp add: slot_matches_def bld(2))
    qed
  next
    case False
    then have "op = 1 \<or> op = 2 \<or> op = 3 \<or> op = 4" using op by linarith
    then have "\<exists>inclusive. \<forall>u. operator_holds cmp (of_nat op) v u = in_range cmp v (compare_by_direction op = Less_Than) inclusive u"
      by (auto simp: operator_holds_def operator_defs compare_by_direction_def)
    then obtain inclusive where range: "\<And>u. operator_holds cmp (of_nat op) v u = in_range cmp v (compare_by_direction op = Less_Than) inclusive u"
      by blast
    have "admits cmp (compare_by_direction op) inclusive (Some v) (Some (oi_value a))"
      by (rule admits_outward [OF fields(3) nearest_outward [OF a]]) (use match range in \<open>simp add: admits_def\<close>)
    then have "operator_holds cmp (of_nat op) v (oi_value a)" by (simp add: range admits_def)
    then show ?thesis using False a x by (simp add: slot_matches_def bld(2))
  qed
  then show ?thesis using Some v by (simp add: compare_matches_def fields op_def)
qed

end
