(* ===== verification/Lossy_Filters.thy ===== *)
theory Lossy_Filters
  imports Lossy_Compile Quantized_Equality Ordered_Streaming Between_Streaming Compare_Streaming
begin

text \<open>
  The filters that policies apply to: equality, ordered, \<open>Between\<close> and \<open>CompareBy\<close> filters with their accounting and
  their transitions, as the operations that the theory of policies asks for. Enforcing the policies of a schema
  then keeps what each filter holds, so that no search loses a match.
\<close>

section \<open>Filters\<close>

text \<open>\<open>Plain_Filter\<close> stands for the rules without accounting, such as exclusions.\<close>

datatype ('t, 'e, 'v, 'b) lossy_filter =
    Equality_Filter "('t, 'e, 'b) equality_leaf"
  | Ordered_Filter "('t, 'v, 'b) quantized_ordered"
  | Between_Filter "('t, 'v, 'b) quantized_between"
  | Compare_Filter "('t, 'v, 'b) quantized_compare"
  | Plain_Filter

text \<open>
  An equality filter makes its first generation from the values and coarsens hashes afterwards; the filters on
  boundaries make theirs on a copy.
\<close>

fun equality_first :: "'b roaring \<Rightarrow> 'err + ('e \<Rightarrow> u64) \<Rightarrow> ('e, 'b) orders \<Rightarrow> ('t, 'e, 'b) equality_leaf \<Rightarrow> ('t, 'e, 'b) equality_leaf option" where
  "equality_first R codec orders (Exact_Leaf r) = map_option Lossy_Leaf (first_generation R codec r (fst orders (er_values (qe_rule r))))"
| "equality_first R codec orders (Lossy_Leaf r) = None"

fun equality_next :: "'b roaring \<Rightarrow> ('e, 'b) orders \<Rightarrow> ('t, 'e, 'b) equality_leaf \<Rightarrow> ('t, 'e, 'b) equality_leaf option" where
  "equality_next R orders (Exact_Leaf r) =
     map_option (\<lambda>(_, clone). Exact_Leaf clone) (prepare_streaming_next R r (fst orders (er_values (qe_rule r))) [])"
| "equality_next R orders (Lossy_Leaf r) =
     map_option (\<lambda>(_, clone). Lossy_Leaf clone) (prepare_streaming_next R r (snd orders (er_values (qe_rule r))) [])"

fun filter_usage :: "'b roaring \<Rightarrow> ('e, 'b) orders \<Rightarrow> ('v \<Rightarrow> u64) \<Rightarrow> ('t, 'e, 'v, 'b) lossy_filter \<Rightarrow> u64 option" where
  "filter_usage R orders value_bytes (Equality_Filter l) = Some (leaf_usage R orders l)"
| "filter_usage R orders value_bytes (Ordered_Filter r) = Some (ordered_usage R value_bytes r)"
| "filter_usage R orders value_bytes (Between_Filter r) = Some (between_usage R value_bytes r)"
| "filter_usage R orders value_bytes (Compare_Filter r) = Some (compare_usage R value_bytes r)"
| "filter_usage R orders value_bytes Plain_Filter = None"

fun filter_first ::
  "'b roaring \<Rightarrow> 'err + ('e \<Rightarrow> u64) \<Rightarrow> ('e, 'b) orders \<Rightarrow> ('v \<Rightarrow> u64) \<Rightarrow> ('t, 'e, 'v, 'b) lossy_filter \<Rightarrow> ('t, 'e, 'v, 'b) lossy_filter option" where
  "filter_first R codec orders value_bytes (Equality_Filter l) = map_option Equality_Filter (equality_first R codec orders l)"
| "filter_first R codec orders value_bytes (Ordered_Filter r) = map_option (\<lambda>(_, r). Ordered_Filter r) (ordered_streaming_next R value_bytes r)"
| "filter_first R codec orders value_bytes (Between_Filter r) = map_option (\<lambda>(_, r). Between_Filter r) (between_first_generation R value_bytes r)"
| "filter_first R codec orders value_bytes (Compare_Filter r) = map_option (\<lambda>(_, r). Compare_Filter r) (compare_first_generation R value_bytes r)"
| "filter_first R codec orders value_bytes Plain_Filter = None"

fun filter_next ::
  "'b roaring \<Rightarrow> ('e, 'b) orders \<Rightarrow> ('v \<Rightarrow> u64) \<Rightarrow> ('t, 'e, 'v, 'b) lossy_filter \<Rightarrow> ('t, 'e, 'v, 'b) lossy_filter option" where
  "filter_next R orders value_bytes (Equality_Filter l) = map_option Equality_Filter (equality_next R orders l)"
| "filter_next R orders value_bytes (Ordered_Filter r) = map_option (\<lambda>(_, r). Ordered_Filter r) (ordered_streaming_next R value_bytes r)"
| "filter_next R orders value_bytes (Between_Filter r) = map_option (\<lambda>(_, r). Between_Filter r) (between_streaming_next R value_bytes r)"
| "filter_next R orders value_bytes (Compare_Filter r) = map_option (\<lambda>(_, r). Compare_Filter r) (compare_streaming_next R value_bytes r)"
| "filter_next R orders value_bytes Plain_Filter = None"

definition filter_ops ::
  "'b roaring \<Rightarrow> 'err + ('e \<Rightarrow> u64) \<Rightarrow> ('e, 'b) orders \<Rightarrow> ('v \<Rightarrow> u64) \<Rightarrow> ('t, 'e, 'v, 'b) lossy_filter rule_ops" where
  "filter_ops R codec orders value_bytes =
     \<lparr>ro_usage = filter_usage R orders value_bytes,
      ro_factory = (\<lambda>f. case f of Plain_Filter \<Rightarrow> False | _ \<Rightarrow> True),
      ro_valid = (\<lambda>f. case f of Equality_Filter l \<Rightarrow> (case codec of Inl e \<Rightarrow> False | Inr hash \<Rightarrow> True) | _ \<Rightarrow> True),
      ro_first = filter_first R codec orders value_bytes,
      ro_next = filter_next R orders value_bytes,
      ro_accumulator = (\<lambda>f. case f of Plain_Filter \<Rightarrow> False | _ \<Rightarrow> True)\<rparr>"

fun filter_insert :: "'b roaring \<Rightarrow> ('t, 'e, 'v, 'b) lossy_filter \<Rightarrow> 't \<Rightarrow> u32 \<Rightarrow> ('t, 'e, 'v, 'b) lossy_filter" where
  "filter_insert R (Equality_Filter l) t i = Equality_Filter (leaf_insert R l t i)"
| "filter_insert R (Ordered_Filter r) t i = Ordered_Filter (quantized_od_insert R r t i)"
| "filter_insert R (Between_Filter r) t i = Between_Filter (quantized_bt_insert R r t i)"
| "filter_insert R (Compare_Filter r) t i = Compare_Filter (quantized_cb_insert R r t i)"
| "filter_insert R Plain_Filter t i = Plain_Filter"

text \<open>A search of the filter once it is published.\<close>

fun filter_search :: "'b roaring \<Rightarrow> ('t, 'e, 'v, 'b) lossy_filter \<Rightarrow> 't \<Rightarrow> 'b \<Rightarrow> 'b" where
  "filter_search R (Equality_Filter l) q dst = leaf_search R l q dst"
| "filter_search R (Ordered_Filter r) q dst = od_add_matches R (od_prepare R (qo_rule r)) (od_get (qo_rule r) q) dst"
| "filter_search R (Between_Filter r) q dst = bt_search_bitmaps R (between_rule_of R r) q dst"
| "filter_search R (Compare_Filter r) q dst = foldl (bm_or R) dst (quantized_cb_each (quantized_cb_prepare R r) q)"
| "filter_search R Plain_Filter q dst = dst"

section \<open>What a filter holds\<close>

text \<open>The constraint that a filter indexes; nothing is claimed of the rules without accounting.\<close>

datatype ('t, 'e, 'v) filter_spec =
    Equality_Spec "'t \<Rightarrow> 'e option"
  | Ordered_Spec "'t \<Rightarrow> 'v option" "'v \<Rightarrow> 'v \<Rightarrow> int" direction bool
  | Between_Spec "'t \<Rightarrow> 'v option" "'t \<Rightarrow> 'v option" "'v \<Rightarrow> 'v \<Rightarrow> int"
  | Compare_Spec "'t \<Rightarrow> 'v option" "'t \<Rightarrow> operator option" "'v \<Rightarrow> 'v \<Rightarrow> int"
  | Plain_Spec

fun spec_matches :: "('t, 'e, 'v) filter_spec \<Rightarrow> 't \<Rightarrow> 't \<Rightarrow> bool" where
  "spec_matches (Equality_Spec get) stored query = equality_match get (=) stored query"
| "spec_matches (Ordered_Spec get cmp dir inclusive) stored query = admits cmp dir inclusive (get query) (get stored)"
| "spec_matches (Between_Spec from_get until_get cmp) stored query =
     (admits cmp Greater_Than True (from_get query) (from_get stored) \<and> admits cmp Less_Than True (until_get query) (until_get stored))"
| "spec_matches (Compare_Spec get operator cmp) stored query = compare_exact get operator cmp stored query"
| "spec_matches Plain_Spec stored query = False"

fun filter_holds ::
  "'b roaring \<Rightarrow> 'err + ('e \<Rightarrow> u64) \<Rightarrow> ('v \<Rightarrow> u64) \<Rightarrow> ('t \<times> u32) list \<Rightarrow> ('t, 'e, 'v) filter_spec \<Rightarrow> ('t, 'e, 'v, 'b) lossy_filter \<Rightarrow> bool" where
  "filter_holds R codec value_bytes h (Equality_Spec get) (Equality_Filter l) = leaf_holds R codec get h l"
| "filter_holds R codec value_bytes h (Ordered_Spec get cmp dir inclusive) (Ordered_Filter r) =
     (comparator cmp \<and> ordered_holds R value_bytes get cmp dir inclusive r h)"
| "filter_holds R codec value_bytes h (Between_Spec from_get until_get cmp) (Between_Filter r) =
     (comparator cmp \<and> between_holds R value_bytes from_get until_get cmp r h)"
| "filter_holds R codec value_bytes h (Compare_Spec get operator cmp) (Compare_Filter r) =
     compare_holds R value_bytes get operator cmp r h"
| "filter_holds R codec value_bytes h Plain_Spec Plain_Filter = True"
| "filter_holds R codec value_bytes h _ _ = False"

fun new_filter :: "'b roaring \<Rightarrow> nat \<Rightarrow> u64 \<Rightarrow> ('v \<Rightarrow> u64 option) \<Rightarrow> ('t, 'e, 'v) filter_spec \<Rightarrow> ('t, 'e, 'v, 'b) lossy_filter" where
  "new_filter R node key_bytes route (Equality_Spec get) = Equality_Filter (Exact_Leaf (include_quantized R node get key_bytes))"
| "new_filter R node key_bytes route (Ordered_Spec get cmp dir inclusive) =
     Ordered_Filter (new_quantized_ordered (new_ordered_rule R node get cmp route dir inclusive))"
| "new_filter R node key_bytes route (Between_Spec from_get until_get cmp) =
     Between_Filter (new_quantized_between R node from_get until_get cmp route)"
| "new_filter R node key_bytes route (Compare_Spec get operator cmp) =
     Compare_Filter (new_quantized_compare (new_compare_by_rule R node get operator cmp route))"
| "new_filter R node key_bytes route Plain_Spec = Plain_Filter"

fun filter_rank :: "('t, 'e, 'v, 'b) lossy_filter \<Rightarrow> nat" where
  "filter_rank (Equality_Filter l) = leaf_rank l"
| "filter_rank (Ordered_Filter r) = unique_values (od_index (qo_rule r))"
| "filter_rank (Between_Filter r) = between_boundaries r"
| "filter_rank (Compare_Filter r) = compare_boundaries r"
| "filter_rank Plain_Filter = 0"

fun spec_comparator :: "('t, 'e, 'v) filter_spec \<Rightarrow> bool" where
  "spec_comparator (Equality_Spec get) \<longleftrightarrow> True"
| "spec_comparator (Ordered_Spec get cmp dir inclusive) \<longleftrightarrow> comparator cmp"
| "spec_comparator (Between_Spec from_get until_get cmp) \<longleftrightarrow> comparator cmp"
| "spec_comparator (Compare_Spec get operator cmp) \<longleftrightarrow> comparator cmp"
| "spec_comparator Plain_Spec \<longleftrightarrow> True"

text \<open>Validation rejects an entry that a \<open>CompareBy\<close> filter cannot store.\<close>

fun filter_accepts :: "('t, 'e, 'v, 'b) lossy_filter \<Rightarrow> 't \<Rightarrow> bool" where
  "filter_accepts (Compare_Filter r) t = cb_accepts (qc_rule r) t"
| "filter_accepts f t = True"

lemma filter_holds_cases:
  assumes "filter_holds R codec value_bytes h spec f"
  obtains (equality) get l where "spec = Equality_Spec get" "f = Equality_Filter l" "leaf_holds R codec get h l"
    | (ordered) get cmp dir inclusive r where "spec = Ordered_Spec get cmp dir inclusive" "f = Ordered_Filter r"
        "comparator cmp" "ordered_holds R value_bytes get cmp dir inclusive r h"
    | (between) from_get until_get cmp r where "spec = Between_Spec from_get until_get cmp" "f = Between_Filter r"
        "comparator cmp" "between_holds R value_bytes from_get until_get cmp r h"
    | (compare) get operator cmp r where "spec = Compare_Spec get operator cmp" "f = Compare_Filter r"
        "compare_holds R value_bytes get operator cmp r h"
    | (plain) "spec = Plain_Spec" "f = Plain_Filter"
  using assms by (cases spec; cases f) auto

lemma filter_holds_insert:
  assumes "roaring R" "filter_holds R codec value_bytes h spec f" "filter_accepts f t"
  shows "filter_holds R codec value_bytes (h @ [(t, i)]) spec (filter_insert R f t i)"
  using assms(2)
proof (cases rule: filter_holds_cases)
  case (equality get l)
  then show ?thesis using roaring.leaf_holds_insert [OF assms(1)] by simp
next
  case (ordered get cmp dir inclusive r)
  then show ?thesis using roaring.ordered_holds_insert [OF assms(1)] by simp
next
  case (between from_get until_get cmp r)
  then show ?thesis using roaring.between_holds_insert [OF assms(1)] by simp
next
  case (compare get operator cmp r)
  then show ?thesis using roaring.compare_holds_insert [OF assms(1)] assms(3) by simp
next
  case plain
  then show ?thesis by simp
qed

lemma filter_holds_new:
  assumes "roaring R" "spec_comparator spec"
  shows "filter_holds R codec value_bytes [] spec (new_filter R node key_bytes route spec)"
proof (cases spec)
  case (Equality_Spec get)
  have "leaf_holds R codec get [] (Exact_Leaf (include_quantized R node get key_bytes))"
    by (rule roaring.leaf_holds_reachable [OF assms(1) leaf_reachable.start])
  then show ?thesis by (simp only: Equality_Spec new_filter.simps filter_holds.simps)
next
  case (Ordered_Spec get cmp dir inclusive)
  then show ?thesis using roaring.ordered_holds_new [OF assms(1)] assms(2) by simp
next
  case (Between_Spec from_get until_get cmp)
  then show ?thesis using roaring.between_holds_new [OF assms(1)] assms(2) by simp
next
  case (Compare_Spec get operator cmp)
  then show ?thesis using roaring.compare_holds_new [OF assms(1)] assms(2) by simp
next
  case Plain_Spec
  then show ?thesis by simp
qed

lemma equality_transition:
  assumes "leaf_holds R codec get h l" "equality_first R codec orders l = Some l' \<or> equality_next R orders l = Some l'"
  shows "leaf_next R codec orders l = Some l'"
proof (cases l)
  case (Exact_Leaf r)
  then have "qe_coarsen r = None" using assms(1) by simp
  with assms(2) Exact_Leaf show ?thesis by (auto simp: prepare_streaming_next_def)
next
  case (Lossy_Leaf r)
  with assms(2) show ?thesis by simp
qed

text \<open>A transition keeps what the filter holds, and makes it smaller.\<close>

lemma filter_step:
  assumes "roaring R" "small_bitmaps R" "orders_ok orders" "filter_holds R codec value_bytes h spec f"
    and step: "filter_first R codec orders value_bytes f = Some f' \<or> filter_next R orders value_bytes f = Some f'"
  shows "filter_holds R codec value_bytes h spec f' \<and> filter_rank f' < filter_rank f"
  using assms(4)
proof (cases rule: filter_holds_cases)
  case (equality get l)
  then obtain l' where f': "f' = Equality_Filter l'" "equality_first R codec orders l = Some l' \<or> equality_next R orders l = Some l'"
    using step by auto
  note l' = equality_transition [OF equality(3) f'(2)] and order = orders_ok_for [OF assms(3) equality(3)]
  show ?thesis
    using roaring.leaf_holds_next [OF assms(1) equality(3) order l'] leaf_next_rank [OF assms(1,2) equality(3) order l'] equality f'(1) by simp
next
  case (ordered get cmp dir inclusive r)
  then obtain usage r' where f': "f' = Ordered_Filter r'" "ordered_streaming_next R value_bytes r = Some (usage, r')"
    using step by auto
  show ?thesis using roaring.ordered_holds_merge [OF assms(1) ordered(4) f'(2)] ordered f'(1) by simp
next
  case (between from_get until_get cmp r)
  then obtain usage r0 r' where f': "f' = Between_Filter r'" "between_streaming_next R value_bytes r0 = Some (usage, r')"
      "r0 = r \<or> r0 = clone_between R r"
    using step by (auto simp: between_first_generation_def)
  have "between_holds R value_bytes from_get until_get cmp r0 h \<and> between_boundaries r0 = between_boundaries r"
    using f'(3) between(4) roaring.between_holds_clone [OF assms(1) between(4)] by auto
  then show ?thesis using roaring.between_holds_merge [OF assms(1) _ f'(2)] between f'(1) by fastforce
next
  case (compare get operator cmp r)
  then obtain usage r0 r' where f': "f' = Compare_Filter r'" "compare_streaming_next R value_bytes r0 = Some (usage, r')"
      "r0 = r \<or> r0 = clone_compare R r"
    using step by (auto simp: compare_first_generation_def)
  have "compare_holds R value_bytes get operator cmp r0 h \<and> compare_boundaries r0 = compare_boundaries r"
    using f'(3) compare(3) roaring.compare_holds_clone [OF assms(1) compare(3)] by auto
  then show ?thesis using roaring.compare_holds_merge(1,2) [OF assms(1) _ f'(2)] compare f'(1) by fastforce
next
  case plain
  then show ?thesis using step by simp
qed

lemma equality_match_weaken: "equality_match get (=) t q \<Longrightarrow> equality_match get (\<lambda>w v. e w = e v) t q"
  by (auto simp: equality_match_def split: option.splits)

text \<open>A search loses none of the constraints that match.\<close>

lemma filter_search_complete:
  assumes "roaring R" "filter_holds R codec value_bytes h spec f"
  shows "{i. \<exists>t. (t, i) \<in> set h \<and> spec_matches spec t q} \<subseteq> bm_ids R (filter_search R f q dst)"
  using assms(2)
proof (cases rule: filter_holds_cases)
  case (equality get l)
  have "{i. \<exists>t. (t, i) \<in> set h \<and> equality_match get (=) t q} \<subseteq> bm_ids R (leaf_search R l q dst)"
  proof (cases l)
    case (Exact_Leaf r)
    with equality(3) have holds: "rule_holds R get h r" by simp
    show ?thesis unfolding Exact_Leaf leaf_search.simps roaring.rule_search_ids [OF assms(1) holds]
      using equality_match_weaken [of get _ q "\<lambda>v. qe_encode r v (qe_level r)"] by auto
  next
    case (Lossy_Leaf r)
    with equality(3) have holds: "rule_holds R get h r" by simp
    show ?thesis unfolding Lossy_Leaf leaf_search.simps roaring.rule_search_ids [OF assms(1) holds]
      using equality_match_weaken [of get _ q "\<lambda>v. qe_encode r v (qe_level r)"] by auto
  qed
  then show ?thesis by (simp add: equality)
next
  case (ordered get cmp dir inclusive r)
  have get: "od_get (qo_rule r) = get" using ordered(4) by (simp add: ordered_holds_def)
  show ?thesis
    unfolding ordered filter_search.simps spec_matches.simps get roaring.kept_ids [OF assms(1) ordered(4)]
    using kept_admits [OF ordered(3,4)] by (auto simp: stored_ids_def)
next
  case (between from_get until_get cmp r)
  have sides: "ordered_holds R value_bytes from_get cmp Greater_Than True (qb_from r) h"
    "ordered_holds R value_bytes until_get cmp Less_Than True (qb_until r) h"
    using between(4) by (auto simp: between_holds_def)
  show ?thesis
    unfolding between filter_search.simps spec_matches.simps roaring.between_kept_ids [OF assms(1) between(4)]
    using kept_admits [OF between(3) sides(1)] kept_admits [OF between(3) sides(2)] by (auto simp: stored_ids_def)
next
  case (compare get operator cmp r)
  show ?thesis
    unfolding compare filter_search.simps spec_matches.simps roaring.compare_kept_ids [OF assms(1) compare(3)]
    using compare_matches_exact [OF compare(3)] by auto
next
  case plain
  then show ?thesis by simp
qed

section \<open>Policies on the filters\<close>

definition filter_ok ::
  "'b roaring \<Rightarrow> 'err + ('e \<Rightarrow> u64) \<Rightarrow> ('e, 'b) orders \<Rightarrow> ('v \<Rightarrow> u64) \<Rightarrow> ('t \<times> u32) list \<Rightarrow> ('t, 'e, 'v) filter_spec set
     \<Rightarrow> ('t, 'e, 'v, 'b) lossy_filter \<Rightarrow> bool" where
  "filter_ok R codec orders value_bytes h specs f \<longleftrightarrow>
     roaring R \<and> small_bitmaps R \<and> orders_ok orders \<and> (\<exists>spec\<in>specs. filter_holds R codec value_bytes h spec f)"

interpretation filters: streaming_rules "filter_ops R codec orders value_bytes" "filter_ok R codec orders value_bytes h specs" filter_rank
  for R codec orders value_bytes h specs
proof
  fix f f'
  assume "filter_ok R codec orders value_bytes h specs f" "ro_first (filter_ops R codec orders value_bytes) f = Some f'"
  then show "filter_ok R codec orders value_bytes h specs f' \<and> filter_rank f' < filter_rank f"
    unfolding filter_ok_def filter_ops_def using filter_step by (metis rule_ops.simps(4))
next
  fix f f'
  assume "filter_ok R codec orders value_bytes h specs f" "ro_next (filter_ops R codec orders value_bytes) f = Some f'"
  then show "filter_ok R codec orders value_bytes h specs f' \<and> filter_rank f' < filter_rank f"
    unfolding filter_ok_def filter_ops_def using filter_step by (metis rule_ops.simps(5))
qed

section \<open>Builds under memory limits\<close>

text \<open>
  The states of a build between two steps: the build starts from a tree of the shape of the schema, whose leaves are
  the constraints, with a new filter for each; entries are inserted once every filter has accepted them, and the
  pressure on the limits may be checked at any time, with any order of the maps.
\<close>

inductive lossy_reachable ::
  "'b roaring \<Rightarrow> 'err + ('e \<Rightarrow> u64) \<Rightarrow> ('v \<Rightarrow> u64) \<Rightarrow> ('t, 'e, 'v) filter_spec policy
     \<Rightarrow> bool \<Rightarrow> ('t, 'e, 'v, 'b) lossy_filter policy \<Rightarrow> ('t, 'e, 'v, 'b) lossy_filter adaptive_leaf list \<Rightarrow> ('t \<times> u32) list \<Rightarrow> bool"
  for R codec value_bytes schema where
  start: "plain_schema t \<Longrightarrow> rel_policy (\<lambda>spec f. spec_comparator spec \<and> (\<exists>node key_bytes route. f = new_filter R node key_bytes route spec)) schema t
    \<Longrightarrow> lossy_reachable R codec value_bytes schema False t [] []"
| insert: "lossy_reachable R codec value_bytes schema streaming t ls h \<Longrightarrow> list_all (\<lambda>f. filter_accepts f v) (tree_rules ls t)
    \<Longrightarrow> insert_tree (\<lambda>f. filter_insert R f v i) t ls = (t', ls') \<Longrightarrow> lossy_reachable R codec value_bytes schema streaming t' ls' (h @ [(v, i)])"
| checkpoint: "lossy_reachable R codec value_bytes schema streaming t ls h \<Longrightarrow> orders_ok orders
    \<Longrightarrow> pressure_checkpoint (filter_ops R codec orders value_bytes) streaming t ls = Some (Inr ((streaming', t'), ls'))
    \<Longrightarrow> lossy_reachable R codec value_bytes schema streaming' t' ls' h"

abbreviation filters_hold ::
  "'b roaring \<Rightarrow> 'err + ('e \<Rightarrow> u64) \<Rightarrow> ('v \<Rightarrow> u64) \<Rightarrow> ('t \<times> u32) list \<Rightarrow> ('t, 'e, 'v) filter_spec list \<Rightarrow> ('t, 'e, 'v, 'b) lossy_filter list \<Rightarrow> bool" where
  "filters_hold R codec value_bytes h \<equiv> list_all2 (filter_holds R codec value_bytes h)"

lemma filter_holds_coarser:
  assumes "roaring R" "small_bitmaps R" "orders_ok orders" "rule_coarser (filter_ops R codec orders value_bytes) f f'"
    and "filter_holds R codec value_bytes h spec f"
  shows "filter_holds R codec value_bytes h spec f'"
  using assms(4,5) unfolding rule_coarser_def
proof (induction rule: rtranclp_induct)
  case (step b c)
  have "filter_first R codec orders value_bytes b = Some c \<or> filter_next R orders value_bytes b = Some c"
    using step.hyps(2) by (simp add: filter_ops_def)
  with filter_step [OF assms(1-3) step.IH [OF step.prems]] show ?case by blast
qed simp

lemma filters_hold_coarser:
  assumes "roaring R" "small_bitmaps R" "orders_ok orders" "filters_hold R codec value_bytes h specs fs"
    and "list_all2 (rule_coarser (filter_ops R codec orders value_bytes)) fs fs'"
  shows "filters_hold R codec value_bytes h specs fs'"
  using assms(4,5) filter_holds_coarser [OF assms(1-3)] by (rule list_all2_trans [rotated 1])

lemma filters_hold_ok:
  assumes "roaring R" "small_bitmaps R" "orders_ok orders" "filters_hold R codec value_bytes h specs fs"
  shows "\<forall>f\<in>set fs. filter_ok R codec orders value_bytes h (set specs) f"
  using assms by (auto simp: filter_ok_def list_all2_conv_all_nth in_set_conv_nth) (metis nth_mem)

definition filters_state ::
  "'b roaring \<Rightarrow> 'err + ('e \<Rightarrow> u64) \<Rightarrow> ('e, 'b) orders \<Rightarrow> ('v \<Rightarrow> u64) \<Rightarrow> ('t \<times> u32) list \<Rightarrow> ('t, 'e, 'v) filter_spec list
     \<Rightarrow> bool \<Rightarrow> ('t, 'e, 'v, 'b) lossy_filter policy \<Rightarrow> ('t, 'e, 'v, 'b) lossy_filter adaptive_leaf list \<Rightarrow> bool" where
  "filters_state R codec orders value_bytes h specs = streaming_rules.build_state (filter_ok R codec orders value_bytes h (set specs))"

lemma filters_state_iff:
  assumes "roaring R" "small_bitmaps R" "orders_ok orders" "filters_hold R codec value_bytes h specs (tree_rules ls t)"
  shows "filters_state R codec orders value_bytes h specs streaming t ls \<longleftrightarrow>
    (if streaming then compiled_tree t \<and> store_full t ls else plain_schema t \<and> ls = [])"
  using filters_hold_ok [OF assms(1-3,4)] unfolding filters_state_def by (subst filters.build_state_def) simp

text \<open>In every state, the filters of the tree hold the entries inserted so far.\<close>

lemma lossy_reachable_ok:
  assumes "roaring R" "small_bitmaps R" "lossy_reachable R codec value_bytes schema streaming t ls h"
  shows "filters_hold R codec value_bytes h (policy_rules schema) (tree_rules ls t)
    \<and> (if streaming then compiled_tree t \<and> store_full t ls else plain_schema t \<and> ls = [])"
  using assms(3)
proof (induction rule: lossy_reachable.induct)
  case (start t)
  have "filters_hold R codec value_bytes [] (policy_rules schema) (policy_rules t)"
    by (rule list.rel_mono_strong [OF rel_policy_rules [OF start(2)]]) (use filter_holds_new [OF assms(1)] in blast)
  with start(1) show ?case by (simp add: plain_tree_rules)
next
  case (insert streaming t ls h v i t' ls')
  then have hold: "filters_hold R codec value_bytes h (policy_rules schema) (tree_rules ls t)"
    and state: "if streaming then compiled_tree t \<and> store_full t ls else plain_schema t \<and> ls = []" by auto
  let ?specs = "policy_rules schema"
  note after = insert_tree_state(1,2) [OF state insert.hyps(3)]
  have "filters_hold R codec value_bytes (h @ [(v, i)]) ?specs (map (\<lambda>f. filter_insert R f v i) (tree_rules ls t))"
    unfolding list_all2_conv_all_nth
  proof (intro conjI allI impI)
    show "length ?specs = length (map (\<lambda>f. filter_insert R f v i) (tree_rules ls t))" using list_all2_lengthD [OF hold] by simp
    fix k assume k: "k < length ?specs"
    have "filter_holds R codec value_bytes (h @ [(v, i)]) (?specs ! k) (filter_insert R (tree_rules ls t ! k) v i)"
      by (rule filter_holds_insert [OF assms(1)])
        (use hold insert.hyps(2) k in \<open>auto simp: list_all2_conv_all_nth list_all_length\<close>)
    then show "filter_holds R codec value_bytes (h @ [(v, i)]) (?specs ! k) (map (\<lambda>f. filter_insert R f v i) (tree_rules ls t) ! k)"
      using k list_all2_lengthD [OF hold] by simp
  qed
  with after show ?case by simp
next
  case (checkpoint streaming t ls h orders streaming' t' ls')
  then have hold: "filters_hold R codec value_bytes h (policy_rules schema) (tree_rules ls t)" by blast
  have "filters_state R codec orders value_bytes h (policy_rules schema) streaming t ls"
    using checkpoint.IH filters_state_iff [OF assms(1,2) checkpoint.hyps(2) hold] by blast
  from returns_result [OF filters.pressure_ok [OF this [unfolded filters_state_def]] checkpoint.hyps(3)]
  have next_state: "filters_state R codec orders value_bytes h (policy_rules schema) streaming' t' ls'"
    and coarser: "list_all2 (rule_coarser (filter_ops R codec orders value_bytes)) (tree_rules ls t) (tree_rules ls' t')"
    by (auto simp: filters_state_def)
  have hold': "filters_hold R codec value_bytes h (policy_rules schema) (tree_rules ls' t')"
    by (rule filters_hold_coarser [OF assms(1,2) checkpoint.hyps(2) hold coarser])
  then show ?case using next_state filters_state_iff [OF assms(1,2) checkpoint.hyps(2) hold'] by blast
qed

text \<open>
  The policies of the schema, too: until they are compiled the tree has the shape of the schema, and afterwards every
  policy has its limit, or a lower one, on leaves of its own that hold what its filters hold.
\<close>

lemma lossy_reachable_policies:
  assumes "roaring R" "small_bitmaps R" "lossy_reachable R codec value_bytes schema streaming t ls h"
  shows "if streaming then list_all (part_held (filter_holds R codec value_bytes h) ls t) (lossy_parts schema)
    else rel_policy (filter_holds R codec value_bytes h) schema t"
  using assms(3)
proof (induction rule: lossy_reachable.induct)
  case (start t)
  show ?case using policy.rel_mono_strong [OF start(2)] filter_holds_new [OF assms(1)] by (simp (no_asm_simp)) blast
next
  case (insert streaming t ls h v i t' ls')
  let ?H = "filter_holds R codec value_bytes h" and ?H' = "filter_holds R codec value_bytes (h @ [(v, i)])"
  note ok = lossy_reachable_ok [OF assms(1,2) insert.hyps(1)]
  note after = insert_tree_state [OF ok [THEN conjunct2] insert.hyps(3)]
  have step: "?H' s (filter_insert R f v i)" if "?H s f" "f \<in> set (tree_rules ls t)" for s f
    by (rule filter_holds_insert [OF assms(1) that(1)]) (use insert.hyps(2) that(2) in \<open>simp add: list_all_iff\<close>)
  show ?case
  proof (cases streaming)
    case True
    have "part_held ?H' ls' t' part" if "part_held ?H ls t part" for part
    proof (rule part_held_step [OF that])
      show "set (tree_limits t) \<subseteq> set (tree_limits t')" by (simp add: after(3))
      fix n s assume "n \<in> set (policy_leaves t)" "?H s (al_child (ls ! n))"
      then show "?H' s (al_child (ls' ! n))" using step leaf_in_rules by (fastforce simp: after(4))
    qed
    with insert.IH True show ?thesis by (simp add: list_all_iff)
  next
    case False
    have t: "t' = map_policy (\<lambda>f. filter_insert R f v i) t" using insert.hyps(3) by (simp add: insert_tree_def)
    have "set_policy t = set (tree_rules ls t)" using ok False by (simp add: plain_tree_rules set_policy_rules)
    then have "rel_policy ?H' schema t'"
      unfolding t policy.rel_map by (intro policy.rel_mono_strong [OF _ step]) (use insert.IH False in auto)
    with False show ?thesis by simp
  qed
next
  case (checkpoint streaming t ls h orders streaming' t' ls')
  let ?H = "filter_holds R codec value_bytes h" and ?Q = "filter_ops R codec orders value_bytes"
  note ok = lossy_reachable_ok [OF assms(1,2) checkpoint.hyps(1)]
  have "filters_state R codec orders value_bytes h (policy_rules schema) streaming t ls"
    using ok filters_state_iff [OF assms(1,2) checkpoint.hyps(2)] by blast
  from returns_result [OF filters.pressure_ok [OF this [unfolded filters_state_def]] checkpoint.hyps(3)]
  have carried: "policies_carried ?Q streaming t ls streaming' t' ls'" by simp
  show ?case by (rule policies_carried_held [OF carried checkpoint.IH filter_holds_coarser [OF assms(1,2) checkpoint.hyps(2)]])
qed

lemma returns_not_None: "returns m P \<Longrightarrow> m \<noteq> None"
  by (cases m) simp_all

lemma lossy_reachable_state:
  assumes "roaring R" "small_bitmaps R" "orders_ok orders" "lossy_reachable R codec value_bytes schema streaming t ls h"
  shows "filters_hold R codec value_bytes h (policy_rules schema) (tree_rules ls t)"
    "streaming_rules.build_state (filter_ok R codec orders value_bytes h (set (policy_rules schema))) streaming t ls"
proof -
  note ok = lossy_reachable_ok [OF assms(1,2,4)]
  show hold: "filters_hold R codec value_bytes h (policy_rules schema) (tree_rules ls t)" using ok by blast
  show "streaming_rules.build_state (filter_ok R codec orders value_bytes h (set (policy_rules schema))) streaming t ls"
    unfolding filters_state_def [symmetric] filters_state_iff [OF assms(1-3) hold] using ok by blast
qed

text \<open>
  C6: A build under memory limits, with any interleaving of insertions and of the checks that compile the policies
  and reduce precision, publishes one filter for each rule of the schema, in order, and each of them finds every
  constraint that the exact filter finds: precision is lost, matches are not.
\<close>

theorem lossy_build_search:
  assumes "roaring R" "small_bitmaps R" "orders_ok orders" "lossy_reachable R codec value_bytes schema streaming t ls h"
    and "publish_policies (filter_ops R codec orders value_bytes) t ls = Some (Inr (t', ls'))"
  shows "list_all2 (\<lambda>spec f. {i. \<exists>s. (s, i) \<in> set h \<and> spec_matches spec s q} \<subseteq> bm_ids R (filter_search R f q dst)) (policy_rules schema) (policy_rules t')"
proof -
  note state = lossy_reachable_state [OF assms(1-4)]
  have "list_all2 (rule_coarser (filter_ops R codec orders value_bytes)) (tree_rules ls t) (policy_rules t')"
    by (rule returns_result [OF filters.publish_ok [OF state(2)] assms(5)])
  with state(1) have "filters_hold R codec value_bytes h (policy_rules schema) (policy_rules t')" by (rule filters_hold_coarser [OF assms(1-3)])
  then show ?thesis by (rule list.rel_mono_strong) (rule filter_search_complete [OF assms(1)])
qed

text \<open>
  C8: In every state of a build, a check of the pressure and the publication both return: no loop that compiles,
  fits, plans or refreshes runs forever, whatever the limits. They give a result or an error.
\<close>

theorem lossy_build_returns:
  assumes "roaring R" "small_bitmaps R" "orders_ok orders" "lossy_reachable R codec value_bytes schema streaming t ls h"
  shows "pressure_checkpoint (filter_ops R codec orders value_bytes) streaming t ls \<noteq> None
    \<and> publish_policies (filter_ops R codec orders value_bytes) t ls \<noteq> None"
proof -
  note state = lossy_reachable_state(2) [OF assms]
  show ?thesis using returns_not_None [OF filters.pressure_ok [OF state]] returns_not_None [OF filters.publish_ok [OF state]] by blast
qed

text \<open>
  C9: When enforcing succeeds at the end of a build under pressure, every limit of the compiled tree holds, those it
  had before among them: the accounted bytes of the leaves below a policy are at most its limit.
\<close>

theorem lossy_limits_hold:
  assumes "roaring R" "small_bitmaps R" "orders_ok orders" "lossy_reachable R codec value_bytes schema streaming t ls h"
    and "enforce_policies (filter_ops R codec orders value_bytes) t ls = Some (Inr (t', ls'))"
  shows "list_all (\<lambda>(ns, limit). leaf_bytes (filter_ops R codec orders value_bytes) ls' ns \<le> limit) (tree_limits t')
    \<and> (streaming \<longrightarrow> set (tree_limits t) \<subseteq> set (tree_limits t'))"
  using returns_result [OF filters.enforce_state_ok [OF lossy_reachable_state(2) [OF assms(1-4)]] assms(5)]
  by (auto simp: limits_hold_def policies_carried_def limits_kept_def)

text \<open>
  C7: Whenever in a build the policies were compiled, by the checks of the pressure or at its end, enforcing them after
  the last entry gives each policy of the schema leaves of its own for its filters, in order, each with all the entries
  of the build at some reduced precision, and together these leaves have at most the bytes of the limit of the policy;
  policies may be nested, and all of them are valid.
\<close>

theorem lossy_policies_enforced:
  assumes "roaring R" "small_bitmaps R" "orders_ok orders" "lossy_reachable R codec value_bytes schema streaming t ls h"
    and "enforce_policies (filter_ops R codec orders value_bytes) t ls = Some (Inr (t', ls'))"
  shows "list_all (\<lambda>(options, specs). \<exists>ns limit. validate_policy options = Inr limit
      \<and> distinct ns \<and> set ns \<subseteq> set (policy_leaves t')
      \<and> list_all2 (\<lambda>spec n. filter_holds R codec value_bytes h spec (al_child (ls' ! n))) specs ns
      \<and> leaf_bytes (filter_ops R codec orders value_bytes) ls' ns \<le> limit) (lossy_parts schema)"
proof -
  let ?H = "filter_holds R codec value_bytes h" and ?Q = "filter_ops R codec orders value_bytes"
  from returns_result [OF filters.enforce_state_ok [OF lossy_reachable_state(2) [OF assms(1-4)]] assms(5)]
  have after: "limits_hold ?Q ls' t'" "policies_carried ?Q streaming t ls True t' ls'" by auto
  have "list_all (part_held ?H ls' t') (lossy_parts schema)"
    using policies_carried_held [OF after(2) lossy_reachable_policies [OF assms(1,2,4)] filter_holds_coarser [OF assms(1-3)]] by simp
  then have "list_all (part_enforced ?Q ?H ls' t') (lossy_parts schema)"
    by (rule list.pred_mono_strong) (rule part_held_enforced [OF _ after(1)])
  then show ?thesis by (simp add: part_enforced_def [abs_def] case_prod_unfold)
qed

section \<open>An example\<close>

text \<open>
  Two rules below a policy of 210 bytes: an equality filter of 64-bit values, and an ordered filter of their
  integers. After three entries they need 216 bytes, and the equality filter gives up precision.
\<close>

type_synonym sample_filter = "(u64, u64, int, u32 list) lossy_filter"

definition sample_specs :: "(u64, u64, int) filter_spec list" where
  "sample_specs = [Equality_Spec Some, Ordered_Spec (\<lambda>t. Some (uint t)) go_compare Less_Than False]"

definition sample_policy :: "(u64, u64, int) filter_spec policy" where
  "sample_policy = Policy_Lossy [Memory_Limit 210] (Policy_All (map Policy_Rule sample_specs))"

definition sample_schema :: "sample_filter policy" where
  "sample_schema = map_policy (new_filter list_bitmap 0 8 (\<lambda>_. None)) sample_policy"

definition sample_insert :: "sample_filter policy \<times> sample_filter adaptive_leaf list \<Rightarrow> u64 \<Rightarrow> u32 \<Rightarrow> sample_filter policy \<times> sample_filter adaptive_leaf list" where
  "sample_insert s v i = insert_tree (\<lambda>f. filter_insert list_bitmap f v i) (fst s) (snd s)"

definition sample_built :: "sample_filter policy \<times> sample_filter adaptive_leaf list" where
  "sample_built = sample_insert (sample_insert (sample_insert (sample_schema, []) 5 1) 9 2) 7 3"

definition sample_entries :: "(u64 \<times> u32) list" where
  "sample_entries = [(5, 1), (9, 2), (7, 3)]"

definition sample_order :: "(u64, u32 list) equality_index \<Rightarrow> u64 list" where
  "sample_order t = (case ei_offsets t of None \<Rightarrow> [] | Some m \<Rightarrow> sorted_list_of_set (dom m))"

definition sample_orders :: "(u64, u32 list) orders" where
  "sample_orders = (sample_order, sample_order)"

lemma sample_orders_ok: "orders_ok sample_orders"
proof -
  have "visit_order t (sample_order t)" if "ei_ok t" for t
    using sorted_visit_order [OF that] by (auto simp: sample_order_def visit_order_def split: option.splits)
  then show ?thesis by (simp add: orders_ok_def sample_orders_def)
qed

definition sample_codec :: "unit + (u64 \<Rightarrow> u64)" where
  "sample_codec = Inr (\<lambda>v. v)"

definition sample_ops :: "sample_filter rule_ops" where
  "sample_ops = filter_ops list_bitmap sample_codec sample_orders (\<lambda>_. 8)"

lemma start_reachable:
  "plain_schema schema \<Longrightarrow> list_all spec_comparator (policy_rules schema)
    \<Longrightarrow> lossy_reachable R codec value_bytes schema False (map_policy (new_filter R node key_bytes route) schema) [] []"
  by (rule lossy_reachable.start)
    (auto simp: policy.rel_map list_all_iff set_policy_rules intro!: policy.rel_refl_strong)

lemma sample_insert_reachable:
  assumes "lossy_reachable list_bitmap sample_codec (\<lambda>_. 8) schema streaming (fst s) (snd s) h"
    and "list_all (\<lambda>f. filter_accepts f v) (tree_rules (snd s) (fst s))"
  shows "lossy_reachable list_bitmap sample_codec (\<lambda>_. 8) schema streaming (fst (sample_insert s v i)) (snd (sample_insert s v i)) (h @ [(v, i)])"
  by (rule lossy_reachable.insert [OF assms]) (simp add: sample_insert_def)

lemma sample_built_reachable:
  "lossy_reachable list_bitmap sample_codec (\<lambda>_. 8) sample_policy False (fst sample_built) [] sample_entries"
proof -
  let ?r = "\<lambda>s h. lossy_reachable list_bitmap sample_codec (\<lambda>_. 8) sample_policy False (fst s) (snd s) h"
  have "?r (sample_schema, []) []"
    using start_reachable [of sample_policy] by (simp add: sample_schema_def sample_policy_def sample_specs_def go_compare.comparator_axioms)
  then have "?r (sample_insert (sample_schema, []) 5 1) ([] @ [(5, 1)])" by (rule sample_insert_reachable) code_simp
  then have "?r (sample_insert (sample_insert (sample_schema, []) 5 1) 9 2) (([] @ [(5, 1)]) @ [(9, 2)])"
    by (rule sample_insert_reachable) code_simp
  then have "?r sample_built ((([] @ [(5, 1)]) @ [(9, 2)]) @ [(7, 3)])" unfolding sample_built_def by (rule sample_insert_reachable) code_simp
  moreover have "snd sample_built = []" by code_simp
  ultimately show ?thesis by (simp add: sample_entries_def)
qed

lemma sample_published: "case publish_policies sample_ops (fst sample_built) [] of None \<Rightarrow> False | Some (Inl e) \<Rightarrow> False | Some (Inr r) \<Rightarrow> True"
  by code_simp

theorem lossy_build_search_witness:
  "case publish_policies sample_ops (fst sample_built) [] of
     Some (Inr (t', ls')) \<Rightarrow>
       list_all2 (\<lambda>spec f. {i. \<exists>s. (s, i) \<in> set sample_entries \<and> spec_matches spec s 7} \<subseteq> bm_ids list_bitmap (filter_search list_bitmap f 7 []))
         (policy_rules sample_policy) (policy_rules t')
   | _ \<Rightarrow> False"
  using sample_published
    lossy_build_search [OF list_bitmap.roaring_axioms list_bitmaps_small sample_orders_ok sample_built_reachable, folded sample_ops_def]
  by (auto split: option.splits sum.splits)

theorem lossy_build_returns_witness:
  "pressure_checkpoint sample_ops False (fst sample_built) [] \<noteq> None \<and> publish_policies sample_ops (fst sample_built) [] \<noteq> None"
  using lossy_build_returns [OF list_bitmap.roaring_axioms list_bitmaps_small sample_orders_ok sample_built_reachable] by (simp add: sample_ops_def)

text \<open>
  A build under pressure: an ordered filter below a policy of 80 bytes, and an equality filter outside it. After two
  entries the ordered filter needs 104 bytes, more than the 100 that a build may use: a check of the pressure compiles
  the policy and wraps the other filter, and a third entry is inserted into the leaves.
\<close>

definition pressed_policy :: "(u64, u64, int) filter_spec policy" where
  "pressed_policy = Policy_All [Policy_Lossy [Memory_Limit 80] (Policy_Rule (sample_specs ! 1)), Policy_Rule (sample_specs ! 0)]"

definition pressed_built :: "sample_filter policy \<times> sample_filter adaptive_leaf list" where
  "pressed_built = sample_insert (sample_insert (map_policy (new_filter list_bitmap 0 8 (\<lambda>_. None)) pressed_policy, []) 5 1) 9 2"

definition pressed_entries :: "(u64 \<times> u32) list" where
  "pressed_entries = [(5, 1), (9, 2), (7, 3)]"

definition pressed :: "sample_filter policy \<times> sample_filter adaptive_leaf list" where
  "pressed = (case pressure_checkpoint sample_ops False (fst pressed_built) [] of
     Some (Inr ((streaming, t), ls)) \<Rightarrow> sample_insert (t, ls) 7 3
   | _ \<Rightarrow> pressed_built)"

lemma pressed_checked:
  "case pressure_checkpoint sample_ops False (fst pressed_built) [] of
     Some (Inr ((streaming, t), ls)) \<Rightarrow> streaming \<and> list_all (\<lambda>f. filter_accepts f 7) (tree_rules ls t)
   | _ \<Rightarrow> False"
  by code_simp

lemma pressed_enforced:
  "case enforce_policies sample_ops (fst pressed) (snd pressed) of
     None \<Rightarrow> False | Some (Inl e) \<Rightarrow> False | Some (Inr r) \<Rightarrow> True"
  by code_simp

lemma pressed_reachable:
  "lossy_reachable list_bitmap sample_codec (\<lambda>_. 8) pressed_policy True (fst pressed) (snd pressed) pressed_entries"
proof -
  let ?r = "\<lambda>s h. lossy_reachable list_bitmap sample_codec (\<lambda>_. 8) pressed_policy False (fst s) (snd s) h"
  let ?start = "map_policy (new_filter list_bitmap 0 8 (\<lambda>_. None)) pressed_policy :: sample_filter policy"
  have "?r (?start, []) []"
    using start_reachable [of pressed_policy] by (simp add: pressed_policy_def sample_specs_def go_compare.comparator_axioms)
  then have "?r (sample_insert (?start, []) 5 1) ([] @ [(5, 1)])" by (rule sample_insert_reachable) code_simp
  then have "?r pressed_built (([] @ [(5, 1)]) @ [(9, 2)])" unfolding pressed_built_def by (rule sample_insert_reachable) code_simp
  moreover have "snd pressed_built = []" by code_simp
  ultimately have built: "lossy_reachable list_bitmap sample_codec (\<lambda>_. 8) pressed_policy False (fst pressed_built) [] [(5, 1), (9, 2)]"
    by simp
  obtain t ls where check: "pressure_checkpoint sample_ops False (fst pressed_built) [] = Some (Inr ((True, t), ls))"
    and accepts: "list_all (\<lambda>f. filter_accepts f 7) (tree_rules ls t)"
    using pressed_checked by (auto split: option.splits sum.splits)
  have "lossy_reachable list_bitmap sample_codec (\<lambda>_. 8) pressed_policy True (fst (t, ls)) (snd (t, ls)) [(5, 1), (9, 2)]"
    using lossy_reachable.checkpoint [OF built sample_orders_ok check [unfolded sample_ops_def]] by simp
  from sample_insert_reachable [OF this, of 7 3] accepts show ?thesis
    by (simp add: pressed_def check pressed_entries_def)
qed

theorem lossy_limits_hold_witness:
  "case enforce_policies sample_ops (fst pressed) (snd pressed) of
     Some (Inr (t', ls')) \<Rightarrow>
       list_all (\<lambda>(ns, limit). leaf_bytes sample_ops ls' ns \<le> limit) (tree_limits t')
       \<and> set (tree_limits (fst pressed)) \<subseteq> set (tree_limits t')
   | _ \<Rightarrow> False"
  using pressed_enforced
    lossy_limits_hold [OF list_bitmap.roaring_axioms list_bitmaps_small sample_orders_ok pressed_reachable, folded sample_ops_def]
  by (auto split: option.splits sum.splits)

theorem lossy_policies_enforced_witness:
  "case enforce_policies sample_ops (fst pressed) (snd pressed) of
     Some (Inr (t', ls')) \<Rightarrow>
       list_all (\<lambda>(options, specs). \<exists>ns limit. validate_policy options = Inr limit
         \<and> distinct ns \<and> set ns \<subseteq> set (policy_leaves t')
         \<and> list_all2 (\<lambda>spec n. filter_holds list_bitmap sample_codec (\<lambda>_. 8) pressed_entries spec (al_child (ls' ! n))) specs ns
         \<and> leaf_bytes sample_ops ls' ns \<le> limit) (lossy_parts pressed_policy)
   | _ \<Rightarrow> False"
  using pressed_enforced
    lossy_policies_enforced [OF list_bitmap.roaring_axioms list_bitmaps_small sample_orders_ok pressed_reachable, folded sample_ops_def]
  by (auto split: option.splits sum.splits)

end
