(* ===== verification/Spec2Isabelle.thy ===== *)
theory Spec2Isabelle
  imports Local_Theorems Search_Theorems Container_Theorems Cache_Theorems Tree_Theorems Publish_Theorems Filter_Search Ordered_Prepare Lossy_Filters
begin

text \<open>
  \<^bold>\<open>ruleix\<close>, an in-memory index of rules. A user describes the columns of a rule by a schema (\<open>Rule[T]\<close>): filters on
  values of the rule (\<open>Include\<close>, \<open>Exclude\<close>, \<open>Greater\<close> and its kin, \<open>Between\<close>, \<open>CompareBy\<close>) combined by \<open>All\<close>. \<open>Build\<close>
  stores a sequence of rules, each with an external ID, and \<open>Index.Search\<close> returns the IDs of the rules that
  accept a query. A missing value of a stored rule accepts every query (it is a wildcard); a missing value of a
  query matches wildcards only. Sets of dense internal IDs are Roaring bitmaps.

  \<^bold>\<open>How the parts interact.\<close> \<open>Build\<close> (\<^verbatim>\<open>builder.go\<close>) turns a schema into a tree of rule states, sharing the state of
  filters that occur twice (\<^verbatim>\<open>rule.go\<close>); inserts the entries one by one under internal IDs; flattens nested \<open>All\<close>s;
  moves exclusions out of the positive tree; replaces equal bitmaps by one object and numbers equality classes
  (\<^verbatim>\<open>bitmap_intern.go\<close>); pairs strict equality antonyms (\<^verbatim>\<open>equality_antonym.go\<close>); and prepares the root for searching
  (\<^verbatim>\<open>all.go\<close>). A search (\<^verbatim>\<open>index_search.go\<close>) lets the root \<open>All\<close> estimate and rank its children (\<^verbatim>\<open>all_planning.go\<close>),
  combine those of one wildcard, and intersect the rest by bitmaps, by testing candidates or by filtering them, as
  the cost model says (\<^verbatim>\<open>all_execution.go\<close>, \<^verbatim>\<open>execution_cost.go\<close>). A \<open>Local\<close> keeps result caches and learned plans
  between searches (\<^verbatim>\<open>bitmap_pool.go\<close>, \<^verbatim>\<open>local_cache.go\<close>). Under a \<open>Lossy\<close> policy (\<^verbatim>\<open>lossy.go\<close>, \<^verbatim>\<open>lossy_policy.go\<close>) the
  filters below it reduce their precision until their accounted bytes fit a limit.

  \<^bold>\<open>The theories.\<close> State is passed explicitly; a Go interface is a record of operations whose absent fields are
  interfaces a rule does not implement; an error is a value of a sum; a Go integer is a word; a map is a function
  to options, with the order of a \<open>range\<close> over it as a parameter where it is visible; a nil pointer is \<open>None\<close>.

  \<^item> \<open>Prelude\<close>, \<open>Roaring\<close>, \<open>Postings\<close>: machine integers, half-interval search, the insertion sort of the planner; the
    bitmap package, which is not part of the repository, as a record of operations and the locale \<open>roaring\<close> of its
    documented laws, interpreted on duplicate-tolerant lists for the examples; the locale of posting indexes.
  \<^item> \<open>Equality_Set\<close>, \<open>Equality_Index\<close>, \<open>Equality_Rule\<close> (\<^verbatim>\<open>eq.go\<close>, \<^verbatim>\<open>equality_matcher.go\<close>, \<^verbatim>\<open>equality_cache.go\<close>):
    \<open>equalitySet\<close>, \<open>equalityIndex\<close>, \<open>eqRule\<close>.
  \<^item> \<open>Ordered_Index\<close>, \<open>Ordered_Insert\<close>, \<open>Ordered_Lookup\<close>, \<open>Ordered_Prepare\<close>, \<open>Ordered_Rule\<close> (\<^verbatim>\<open>ordered_index.go\<close>,
    \<^verbatim>\<open>ordered_index_lookup.go\<close>, \<^verbatim>\<open>ordered.go\<close>), \<open>Between_Rule\<close>, \<open>Compare_By_Rule\<close>, \<open>Exclusion_Rule\<close>: the other filters.
  \<^item> \<open>Value_Cache\<close>, \<open>Equality_Antonym_Cache\<close>, \<open>Local_Pool\<close>, \<open>Cache_Theorems\<close>: the caches of a \<open>Local\<close> and its pool.
  \<^item> \<open>Rule_Contract\<close>, \<open>Leaf_Rule\<close>, \<open>Filter_Search\<close>, \<open>Published_Child\<close>, \<open>Equality_Antonym_Rule\<close>: the contract between a
    child and the \<open>All\<close> that executes it, as locales, and the children that provide it.
  \<^item> \<open>Execution_Cost\<close>, \<open>All_Planning\<close>, \<open>All_Execution\<close>, \<open>All_Ranking\<close>, \<open>All_Correctness\<close>, \<open>All_Groups\<close>, \<open>Index_Search\<close>,
    \<open>Search_Correctness\<close>, \<open>Search_Theorems\<close>: planning, execution, and the search of an index.
  \<^item> \<open>Rule_Tree\<close>, \<open>Rule_Sharing\<close>, \<open>Tree_Shape\<close>, \<open>Bitmap_Intern\<close>, \<open>Leaf_Intern\<close>, \<open>Equality_Classes\<close>, \<open>Equality_Antonym\<close>, \<open>Shared_Groups\<close>,
    \<open>Build_Index\<close>, \<open>Build_Entries\<close>, \<open>Build_Root\<close>, \<open>Publish_Root\<close>, \<open>Build_Correctness\<close>, \<open>Build_Total\<close>, \<open>Index_Theorems\<close>,
    \<open>Tree_Theorems\<close>, \<open>Publish_Theorems\<close>: the passes of \<open>Build\<close> and what they compute together.
  \<^item> \<open>Local_Session\<close>, \<open>Local_Theorems\<close>: the life of a \<open>Local\<close>, from the free list and back.
  \<^item> \<open>Scalar_Key\<close>, \<open>Equality_Codec\<close> (\<^verbatim>\<open>canonical_value.go\<close>, \<^verbatim>\<open>ordered_key.go\<close>, \<^verbatim>\<open>equality_hash.go\<close>,
    \<^verbatim>\<open>equality_codec.go\<close>): routing keys, canonical encodings, and the codecs that hash values of Go types.
  \<^item> \<open>Posting_Rebuild\<close>, \<open>Quantized_Equality\<close>, \<open>Ordered_Rebuild\<close>, \<open>Ordered_Streaming\<close>, \<open>Ordered_Clone\<close>,
    \<open>Between_Streaming\<close>, \<open>Compare_Streaming\<close> (\<^verbatim>\<open>posting_rebuild.go\<close>, \<^verbatim>\<open>lossy_levels.go\<close>, \<^verbatim>\<open>quantized_equality.go\<close>,
    \<^verbatim>\<open>ordered_rebuild.go\<close> and the \<^verbatim>\<open>_streaming.go\<close> files): each filter with its accounting and its loss of precision.
  \<^item> \<open>Lossy_Policy\<close>, \<open>Lossy_Enforcement\<close>, \<open>Lossy_Compile\<close>, \<open>Lossy_Filters\<close> (\<^verbatim>\<open>lossy.go\<close>, \<^verbatim>\<open>lossy_policy.go\<close>,
    \<^verbatim>\<open>lossy_streaming_leaf.go\<close>, \<^verbatim>\<open>lossy_streaming_adaptive.go\<close>, the pressure checkpoint of \<^verbatim>\<open>builder.go\<close>): trees of policies
    over rules given by a record of operations, the locale \<open>streaming_rules\<close> of what the planner needs of them, and
    its interpretation on the four kinds of filters.

  \<^bold>\<open>What the lemmas show.\<close> Each container represents a set of pairs of key and ID, and insertion adds one pair, so
  after any history a lookup returns what was inserted. Each filter, with its caches cold, warm or evicted,
  answers a query with the stored rules that accept it. The cost model and the plans choose how, never what, is
  computed: an execution returns the intersection of the children. The passes of \<open>Build\<close> keep what the tree
  denotes. Together: \<open>Build\<close> followed by \<open>Search\<close> returns exactly the IDs of the entries that the schema accepts,
  if the schema has no \<open>Exclude\<close> or some entry stores a value for one, and nothing otherwise
  (\<open>build_and_search_exact\<close>, \<open>unused_exclude_matches_nothing\<close>); the results do not depend on the nesting of the schema
  or on the order of the entries, and \<open>Build\<close> fails only for the first entry that a filter rejects. Under a memory
  limit no match is lost, precision only falls, every loop returns, and after enforcement the leaves of each policy of
  the schema fit its limit, whether a check of the pressure or the end of the build compiled it. Locals return the same results for single filters whatever their caches hold.

  \<^bold>\<open>Bounds.\<close> Theorems on a whole build assume \<open>buildable\<close>: fewer than \<open>2 ^ 32\<close> distinct IDs, and
  \<open>build_size\<close>, which is \<open>F * (1 + N * F)\<close> for \<open>F\<close> filters and \<open>N\<close> entries, below \<open>2 ^ 29\<close>, so that the 32-bit numbers of the
  interner and of the equality classes do not run out; totals of cardinalities stay below \<open>2 ^ 63\<close>, where the
  saturating arithmetic of the cost model is exact. Lossy equality assumes that a bitmap serializes to less than
  \<open>2 ^ 40\<close> bytes (\<open>small_bitmaps\<close>; 32-bit IDs need far less), so that the checked accounting succeeds; it has seventeen
  levels. \<open>refresh_lossy\<close> recurses on the depth of its tree, which its second pass does not increase; the other loops
  of the planner are partial functions that are proved to return, by a rank that every transition lowers. Bytes
  are added modulo \<open>2 ^ 64\<close>, as in the code.

  \<^bold>\<open>Not modelled.\<close> Inspectors and their metrics (\<^verbatim>\<open>inspect.go\<close>, \<^verbatim>\<open>inspect_runtime_metrics.go\<close>) observe searches through
  counters that goroutines share, and decide nothing. Build statistics and hints only size allocations, and
  \<open>finalizeBuild\<close> drops fields that no search reads. \<open>sync.Pool\<close> and the recycled block slices hand out scratch
  memory; a scratch bitmap is a fresh empty one here, except where releasing it twice is the subject
  (\<open>compaction_releases_twice\<close>). Pointers that two states share are copies: the sharing that matters, of interned
  wildcards, is an explicit number; the sharing between an ordered rule and its first lossy generation is not
  expressed, so the theorems on policies are about rules that do not also occur outside them. Builds with
  policies are not composed with the passes after the publication of the tree. Error messages keep their kind and
  the index of the entry, not their text. The keys of \<open>Include\<close> and \<open>Exclude\<close> are compared by the equality of HOL, so
  a NaN among floating-point keys, which Go never finds again, is outside the model. Searches run one at a time; the published index is not changed by them.

  \<^bold>\<open>Where the code departs from its contract\<close>: if a schema has \<open>Exclude\<close> filters and no entry stores a value for any
  of them, every search is empty (\<open>unused_exclude_matches_nothing\<close>); a plan rejected by a \<open>Local\<close> can lose the constraint of a child
  (\<open>rejected_plan_loses_constraint\<close>); compaction of ranked children releases a bitmap twice
  (\<open>compaction_releases_twice\<close>); the estimate of an ordered range is an upper bound only
  (\<open>ordered_estimate_bounds\<close>); codecs hash blank fields of structs (\<open>blank_field_hashed\<close>); a policy with several limits
  is accepted when all but the last are zero (\<open>validate_policy_accepts\<close>); and a closed \<open>Local\<close> forgets its learned
  plans, which the comment of \<open>Close\<close> and the changelog say it keeps (\<open>recycled_locals_are_cold\<close>).
\<close>

end
